(* ===== verification/Prelude.thy ===== *)
theory Prelude
  imports Main "HOL-Library.Word"
begin

text \<open>
  Shared ground of the development: the C integer types, the slot search that the kernel's
  fixed-size tables use (\<open>for (i = 0; i < MAX; i++) if (cond) return i;\<close>), and the generic
  lemmas on lists and machine words that the component theories rest on. The collection
  \<open>kernel_defs\<close> gathers the small accessor definitions that proofs unfold together.
\<close>

unbundle bit_operations_syntax

named_theorems kernel_defs \<open>definitions of small helpers, unfolded together\<close>
named_theorems kernel_inv \<open>preservation lemmas of component invariants\<close>

subsection \<open>C integer types\<close>

type_synonym u8 = "8 word"
type_synonym u16 = "16 word"
type_synonym u32 = "32 word"
type_synonym u64 = "64 word"

subsection \<open>Error numbers (\<open>errno.h\<close>)\<close>

abbreviation (input) EPERM :: int where "EPERM \<equiv> 1"
abbreviation (input) ENOENT :: int where "ENOENT \<equiv> 2"
abbreviation (input) ESRCH :: int where "ESRCH \<equiv> 3"
abbreviation (input) EINTR :: int where "EINTR \<equiv> 4"
abbreviation (input) EIO :: int where "EIO \<equiv> 5"
abbreviation (input) EBADF :: int where "EBADF \<equiv> 9"
abbreviation (input) ECHILD :: int where "ECHILD \<equiv> 10"
abbreviation (input) EAGAIN :: int where "EAGAIN \<equiv> 11"
abbreviation (input) ENOMEM :: int where "ENOMEM \<equiv> 12"
abbreviation (input) EACCES :: int where "EACCES \<equiv> 13"
abbreviation (input) EFAULT :: int where "EFAULT \<equiv> 14"
abbreviation (input) EBUSY :: int where "EBUSY \<equiv> 16"
abbreviation (input) EEXIST :: int where "EEXIST \<equiv> 17"
abbreviation (input) ENOTDIR :: int where "ENOTDIR \<equiv> 20"
abbreviation (input) EISDIR :: int where "EISDIR \<equiv> 21"
abbreviation (input) EINVAL :: int where "EINVAL \<equiv> 22"
abbreviation (input) EMFILE :: int where "EMFILE \<equiv> 24"
abbreviation (input) ENOTTY :: int where "ENOTTY \<equiv> 25"
abbreviation (input) ENOSPC :: int where "ENOSPC \<equiv> 28"
abbreviation (input) EPIPE :: int where "EPIPE \<equiv> 32"
abbreviation (input) ERANGE :: int where "ERANGE \<equiv> 34"
abbreviation (input) EDEADLK :: int where "EDEADLK \<equiv> 35"
abbreviation (input) ENAMETOOLONG :: int where "ENAMETOOLONG \<equiv> 36"
abbreviation (input) ENOSYS :: int where "ENOSYS \<equiv> 38"
abbreviation (input) ENOTSUP :: int where "ENOTSUP \<equiv> 95"
abbreviation (input) EWOULDBLOCK :: int where "EWOULDBLOCK \<equiv> 11"

subsection \<open>Slot search in fixed-size tables\<close>

text \<open>
  The index of the first element that satisfies the test, or \<open>None\<close> when the loop runs off
  the end of the table.
\<close>

fun first_idx :: "('a \<Rightarrow> bool) \<Rightarrow> 'a list \<Rightarrow> nat option" where
  "first_idx P [] = None"
| "first_idx P (x # xs) = (if P x then Some 0 else map_option Suc (first_idx P xs))"

lemma first_idx_None: "first_idx P xs = None \<longleftrightarrow> (\<forall>x \<in> set xs. \<not> P x)"
  by (induction xs) auto

lemma first_idx_Some:
  "first_idx P xs = Some i \<longleftrightarrow> i < length xs \<and> P (xs ! i) \<and> (\<forall>j < i. \<not> P (xs ! j))"
proof (induction xs arbitrary: i)
  case Nil
  then show ?case by simp
next
  case (Cons x xs)
  then show ?case
    by (cases i) (auto simp: less_Suc_eq_0_disj)
qed

lemma first_idx_SomeD:
  assumes "first_idx P xs = Some i"
  shows "i < length xs" and "P (xs ! i)" and "j < i \<Longrightarrow> \<not> P (xs ! j)"
  using assms by (auto simp: first_idx_Some)

lemma first_idx_Ex: "(\<exists>i. first_idx P xs = Some i) \<longleftrightarrow> (\<exists>x \<in> set xs. P x)"
  using first_idx_None [of P xs] by (cases "first_idx P xs") auto

subsection \<open>Lists\<close>

lemma nth_list_update_cases:
  "i < length xs \<Longrightarrow> xs[i := x] ! j = (if j = i then x else xs ! j)"
  by auto

lemma set_update_cases: "y \<in> set (xs[i := x]) \<Longrightarrow> y = x \<or> y \<in> set xs"
  using set_update_subset_insert by fastforce

lemma list_all_update: "list_all P xs \<Longrightarrow> P x \<Longrightarrow> list_all P (xs[i := x])"
  by (auto simp: list_all_iff dest: set_update_cases)

lemma list_all_nth: "list_all P xs \<Longrightarrow> i < length xs \<Longrightarrow> P (xs ! i)"
  by (simp add: list_all_length)

lemma ivl_Suc_left: "{b ..< Suc (b + n)} = insert b {Suc b ..< Suc (b + n)}"
  by auto

lemma all_shift_ivl: "(\<forall>k < c. P (st + k)) \<longleftrightarrow> (\<forall>b \<in> {st ..< st + c :: nat}. P b)"
  by auto (metis add_less_cancel_left le_add_diff_inverse)

text \<open>A \<open>for\<close> loop from 0: an invariant indexed by the loop variable.\<close>

lemma fold_upt_inv:
  assumes "P 0 s" "\<And>k s. k < n \<Longrightarrow> P k s \<Longrightarrow> P (Suc k) (f k s)"
  shows "P n (fold f [0 ..< n] s)"
proof -
  have "k \<le> n \<Longrightarrow> P k (fold f [0 ..< k] s)" for k
    using assms by (induction k) simp_all
  then show ?thesis by blast
qed

subsection \<open>Machine words\<close>

lemma unat_add_small:
  fixes a b :: "'a::len word"
  shows "unat a + unat b < 2 ^ LENGTH('a) \<Longrightarrow> unat (a + b) = unat a + unat b"
  by (simp add: unat_word_ariths)

lemma unat_Suc_small:
  fixes a :: "'a::len word"
  shows "unat a + 1 < 2 ^ LENGTH('a) \<Longrightarrow> unat (a + 1) = unat a + 1"
  by (simp add: unat_word_ariths)

lemma unat_sub_small:
  fixes a b :: "'a::len word"
  shows "unat b \<le> unat a \<Longrightarrow> unat (a - b) = unat a - unat b"
  by (simp add: unat_sub word_le_nat_alt)

lemma unat_pred_small:
  fixes a :: "'a::len word"
  shows "0 < unat a \<Longrightarrow> unat (a - 1) = unat a - 1"
  by (simp add: unat_sub word_le_nat_alt)

text \<open>Single-bit masks: the C idiom \<open>w & (1 << j)\<close>.\<close>

lemma bit_exp_word: "bit (2 ^ m :: 'a::len word) n \<longleftrightarrow> n = m \<and> m < LENGTH('a)"
  by (auto simp: bit_exp_iff)

lemma and_exp_neq_0: "w AND 2 ^ j \<noteq> 0 \<longleftrightarrow> bit (w :: 'a::len word) j"
proof
  assume "bit w j"
  moreover from this have "j < LENGTH('a)" by (rule bit_imp_le_length)
  ultimately have "bit (w AND 2 ^ j) j"
    by (simp add: bit_and_iff bit_exp_word)
  then show "w AND 2 ^ j \<noteq> 0" by auto
next
  assume "w AND 2 ^ j \<noteq> 0"
  then obtain k where "bit (w AND 2 ^ j) k"
    by (auto simp: bit_eq_iff)
  then show "bit w j"
    by (auto simp: bit_and_iff bit_exp_word)
qed

lemma and_exp_eq_0: "w AND 2 ^ j = 0 \<longleftrightarrow> \<not> bit (w :: 'a::len word) j"
  using and_exp_neq_0 by blast

lemma word_not_minus_1:
  "(w :: 'a::len word) \<noteq> - 1 \<longleftrightarrow> (\<exists>j < LENGTH('a). \<not> bit w j)"
  by (auto simp: bit_eq_iff bit_minus_1_iff)

lemma u32_all_ones [simp]: "(0xFFFFFFFF :: u32) = - 1"
  by simp

lemma u32_modulus [simp]: "(0x100000000 :: u32) = 0"
proof -
  have "(0x100000000 :: u32) = of_nat (2 ^ 32)" by simp
  also have "\<dots> = 0" by (rule word_unat_eq_iff [THEN iffD2]) (simp only: unat_of_nat, simp)
  finally show ?thesis .
qed

lemmas bit_word_simps =
  bit_and_iff bit_or_iff bit_not_iff bit_exp_word and_exp_neq_0 and_exp_eq_0

lemma unat_u32_bound: "unat (w :: u32) < 4294967296"
  using unsigned_less [of w, where 'a = nat] by simp

lemma unat_of_nat_u32: "n < 4294967296 \<Longrightarrow> unat (of_nat n :: u32) = n"
  by (simp add: unat_of_nat)

lemma unat_m1_u32 [simp]: "unat (- 1 :: u32) = 4294967295"
  by (simp add: unsigned_minus_1_eq_mask mask_eq_exp_minus_1)

lemma unat_exp_u32: "j < 32 \<Longrightarrow> unat (2 ^ j :: u32) = 2 ^ j"
proof -
  assume "j < 32"
  then have "(2 :: nat) ^ j < 2 ^ 32" by (rule power_strict_increasing) simp
  then have "unat (of_nat (2 ^ j) :: u32) = 2 ^ j" by (intro unat_of_nat_u32) simp
  then show ?thesis by simp
qed

lemma push_bit_1_exp: "push_bit 1 (2 ^ j :: u32) = 2 ^ Suc j"
  by (simp add: push_bit_eq_mult)

text \<open>Page rounding: \<open>w & 0xFFFFF000\<close> is the start of the page of \<open>w\<close>.\<close>

lemma page_mask_eq: "(w :: u32) AND 0xFFFFF000 = push_bit 12 (drop_bit 12 w)"
proof -
  have "push_bit 12 (drop_bit 12 w) = w AND NOT (mask 12)"
    by (rule bit_eqI) (auto simp: bit_simps)
  also have "NOT (mask 12) = (0xFFFFF000 :: u32)" by (simp add: mask_eq_exp_minus_1)
  finally show ?thesis by simp
qed

lemma unat_page_mask: "unat ((w :: u32) AND 0xFFFFF000) = unat w div 4096 * 4096"
proof -
  have "unat (push_bit 12 (drop_bit 12 w)) = unat w div 4096 * 4096 mod 4294967296"
    by (simp only: unsigned_push_bit_eq unsigned_drop_bit_eq)
      (use unat_u32_bound [of w] in
        \<open>simp add: drop_bit_eq_div push_bit_eq_mult take_bit_eq_mod\<close>)
  also have "\<dots> = unat w div 4096 * 4096" using unat_u32_bound [of w] by simp
  finally show ?thesis by (simp add: page_mask_eq)
qed

lemma unat_and_mask: "unat ((w :: u32) AND mask n) = unat w mod 2 ^ n"
  by (simp only: take_bit_eq_mask [symmetric] unsigned_take_bit_eq) (simp add: take_bit_eq_mod)

lemma unat_and_fff: "unat ((w :: u32) AND 0xFFF) = unat w mod 4096"
  using unat_and_mask [of w 12] by (simp add: mask_eq_exp_minus_1)

lemma page_mask_offset:
  assumes "4096 dvd unat page" "unat w = unat page + k" "k < 4096"
  shows "w AND 0xFFFFF000 = (page :: u32)"
proof -
  have "(unat page + k) div 4096 * 4096 = unat page"
    using assms(1,3) by (auto simp: div_add1_eq)
  then show ?thesis using assms(2) by (simp add: word_unat_eq_iff unat_page_mask)
qed

text \<open>Page-aligned addresses with flag bits, the layout of page-table entries.\<close>

definition page_aligned :: "u32 \<Rightarrow> bool" where
  "page_aligned a \<longleftrightarrow> a AND 0xFFF = 0"

lemma page_aligned_iff: "page_aligned a \<longleftrightarrow> 4096 dvd unat a"
  using unat_and_fff [of a] by (auto simp: page_aligned_def word_unat_eq_iff dvd_eq_mod_eq_0)

lemma page_not_mask: "NOT 0xFFF = (0xFFFFF000 :: u32)"
  by simp

lemma page_aligned_mask [simp]: "page_aligned (a AND 0xFFFFF000)"
  by (simp add: page_aligned_def and.assoc)

lemma page_aligned_mask_id: "page_aligned a \<Longrightarrow> a AND 0xFFFFF000 = a"
  by (metis page_aligned_iff page_mask_offset add.right_neutral zero_less_numeral)

lemma page_flags_mask:
  "page_aligned a \<Longrightarrow> f AND 0xFFFFF000 = 0 \<Longrightarrow> (a OR f) AND 0xFFFFF000 = a"
  by (simp add: bit.conj_disj_distrib2 page_aligned_mask_id)

lemma page_flags_low:
  "page_aligned a \<Longrightarrow> f AND 0xFFFFF000 = 0 \<Longrightarrow> (a OR f) AND 0xFFF = f AND 0xFFF"
  by (simp add: bit.conj_disj_distrib2 page_aligned_def)

lemma page_aligned_and_1: "page_aligned a \<Longrightarrow> a AND 1 = 0"
proof -
  assume "page_aligned a"
  then have "(a AND 0xFFF) AND 1 = 0" by (simp add: page_aligned_def)
  then show "a AND 1 = 0" by (simp add: and.assoc)
qed

lemma page_flags_present: "page_aligned a \<Longrightarrow> (a OR f) AND 1 = f AND 1"
  by (simp add: bit.conj_disj_distrib2 page_aligned_and_1)

lemma low_bits_flags [simp]: "((f :: u32) AND 0xFFF) AND 0xFFFFF000 = 0" "((f :: u32) AND 0xFFF) AND 1 = f AND 1"
  by (simp_all add: and.assoc)

lemma page_split: "(a :: u32) AND 0xFFFFF000 OR (a AND 0xFFF) = a"
proof -
  have "a AND (0xFFFFF000 OR 0xFFF) = a" by simp
  then show ?thesis by (simp only: bit.conj_disj_distrib)
qed

lemma page_aligned_eqI:
  "page_aligned a \<Longrightarrow> page_aligned b \<Longrightarrow> unat a div 4096 = unat b div 4096 \<Longrightarrow> a = b"
  by (simp add: page_aligned_iff word_unat_eq_iff dvd_div_eq_iff)


text \<open>C \<open>int\<close> values stored in 32-bit words.\<close>

lemma sint_of_int32:
  "- (2 ^ 31) \<le> x \<Longrightarrow> x < 2 ^ 31 \<Longrightarrow> sint (word_of_int x :: u32) = x"
  by transfer (simp add: signed_take_bit_int_eq_self)

lemma uint_of_neg32:
  assumes "0 < x" "x < 2 ^ 31"
  shows "uint (word_of_int (- x) :: u32) = 2 ^ 32 - x"
proof -
  have "(- x) mod 2 ^ 32 = (2 ^ 32 - x) mod (2 ^ 32 :: int)" by (metis diff_conv_add_uminus mod_add_self1)
  also have "\<dots> = 2 ^ 32 - x" using assms by (intro mod_pos_pos_trivial) simp_all
  finally show ?thesis by (simp only: uint_word_of_int) simp
qed

end
