(* ===== verification/Block_Interface.thy ===== *)
theory Block_Interface
  imports Prelude
begin

text \<open>
  The contract between the buddy allocator and the kernel heap on top of it. Blocks are
  intervals of byte addresses; the abstraction of an allocator state is the set of bytes that
  are free. An allocation carves a block out of the free bytes, a release of a block that is in
  use puts it back. \<open>granted\<close> says which blocks the allocator hands out for a request size
  (here: start address and length).
\<close>

locale block_allocator =
  fixes inv :: "'s \<Rightarrow> bool"
    and free_bytes :: "'s \<Rightarrow> nat set"
    and granted :: "'s \<Rightarrow> u32 \<Rightarrow> u32 \<Rightarrow> nat set"
    and alloc :: "u32 \<Rightarrow> 's \<Rightarrow> (u32 \<times> 's) option"
    and release :: "u32 \<Rightarrow> u32 \<Rightarrow> 's \<Rightarrow> 's option"
  assumes alloc_ok: "inv s \<Longrightarrow> alloc n s = Some (p, s') \<Longrightarrow> p \<noteq> 0 \<Longrightarrow>
      inv s' \<and> granted s n p \<subseteq> free_bytes s \<and> free_bytes s' = free_bytes s - granted s n p
      \<and> {unat p ..< unat p + unat n} \<subseteq> granted s n p"
    and alloc_granted: "inv s \<Longrightarrow> alloc n s = Some (p, s') \<Longrightarrow> granted s' m q = granted s m q"
    and alloc_null: "inv s \<Longrightarrow> alloc n s = Some (0, s') \<Longrightarrow> s' = s"
    and release_ok: "inv s \<Longrightarrow> alloc n s = Some (p, s') \<Longrightarrow> p \<noteq> 0 \<Longrightarrow>
      inv t \<Longrightarrow> granted t n p = granted s n p \<Longrightarrow> free_bytes t \<inter> granted s n p = {} \<Longrightarrow>
      \<exists>t'. release p n t = Some t' \<and> inv t' \<and> free_bytes t' = free_bytes t \<union> granted s n p
        \<and> (\<forall>m q. granted t' m q = granted t m q)"
begin

text \<open>Allocating and releasing at once gives the same free bytes back.\<close>

lemma alloc_release_bytes:
  assumes "inv s" "alloc n s = Some (p, s')" "p \<noteq> 0"
  shows "\<exists>t. release p n s' = Some t \<and> inv t \<and> free_bytes t = free_bytes s"
proof -
  let ?g = "granted s n p"
  note a = alloc_ok [OF assms]
  have g: "granted s' n p = ?g" by (rule alloc_granted [OF assms(1,2)])
  have "free_bytes s' \<inter> ?g = {}" using a by auto
  from release_ok [OF assms _ g this] a
  obtain t where "release p n s' = Some t" "inv t" "free_bytes t = free_bytes s' \<union> ?g"
    by blast
  moreover have "free_bytes s' \<union> ?g = free_bytes s" using a by auto
  ultimately show ?thesis by auto
qed

text \<open>Two allocations in a row never overlap.\<close>

lemma alloc_twice_disjoint:
  assumes "inv s" "alloc n s = Some (p, s')" "p \<noteq> 0" "alloc m s' = Some (q, s'')" "q \<noteq> 0"
  shows "{unat p ..< unat p + unat n} \<inter> {unat q ..< unat q + unat m} = {}"
proof -
  note a = alloc_ok [OF assms(1-3)]
  note b = alloc_ok [OF _ assms(4,5)]
  show ?thesis using a b by blast
qed

end

end
