(* ===== verification/Buddy.thy ===== *)
theory Buddy
  imports Block_Interface
begin

text \<open>
  The buddy allocator, \<open>src/kernel/buddy.cpp\<close> with \<open>buddy.h\<close>. A free list is
  the list of the addresses on it, in list order (the \<open>next\<close> pointers live inside the free
  blocks); list \<open>i\<close> holds the free blocks of size \<open>2^(12 + i)\<close>. Addresses and sizes are
  32-bit words. \<open>get_order\<close> doubles a 32-bit variable until it reaches the size, which never
  happens for sizes above \<open>2^31\<close>: its loops are \<open>option\<close> functions, \<open>None\<close> for a
  loop that does not return. The zeroing of an allocated block is left out (block contents are
  not part of this model).
\<close>

subsection \<open>Orders\<close>

abbreviation BUDDY_MIN_ORDER :: nat where "BUDDY_MIN_ORDER \<equiv> 12"
abbreviation BUDDY_MAX_ORDER :: nat where "BUDDY_MAX_ORDER \<equiv> 28"
abbreviation BUDDY_NUM_ORDERS :: nat where "BUDDY_NUM_ORDERS \<equiv> 17"

partial_function (option) get_order_loop :: "u32 \<Rightarrow> u32 \<Rightarrow> nat \<Rightarrow> nat option" where
  "get_order_loop sz s order =
     (if s < sz then get_order_loop sz (push_bit 1 s) (order + 1) else Some order)"

definition get_order :: "u32 \<Rightarrow> nat option" where
  "get_order sz = get_order_loop sz 1 0"

partial_function (option) get_order_floor_loop :: "u32 \<Rightarrow> u32 \<Rightarrow> nat \<Rightarrow> nat option" where
  "get_order_floor_loop n s order =
     (if s * 2 \<le> n then get_order_floor_loop n (push_bit 1 s) (order + 1) else Some order)"

definition get_order_floor :: "u32 \<Rightarrow> nat option" where
  "get_order_floor n = get_order_floor_loop n 1 0"

subsection \<open>State and operations\<close>

record buddy =
  start_addr :: u32
  end_addr :: u32
  free_lists :: "u32 list list"

text \<open>The body of the loop of \<open>buddy_init\<close>; \<open>break\<close> ends it.\<close>

partial_function (option) buddy_init_loop ::
  "u32 \<Rightarrow> u32 \<Rightarrow> u32 list list \<Rightarrow> u32 list list option" where
  "buddy_init_loop endp current fl =
     (if current < endp then
        Option.bind (get_order_floor (endp - current)) (\<lambda>order0.
          let order = (if order0 > BUDDY_MAX_ORDER then BUDDY_MAX_ORDER else order0) in
          if order < BUDDY_MIN_ORDER then Some fl
          else
            (let block_size = push_bit order 1;
                 list_idx = order - BUDDY_MIN_ORDER;
                 fl' = (if list_idx < BUDDY_NUM_ORDERS
                        then fl[list_idx := current # fl ! list_idx] else fl)
             in buddy_init_loop endp (current + block_size) fl'))
      else Some fl)"

definition buddy_init :: "u32 \<Rightarrow> u32 \<Rightarrow> buddy option" where
  "buddy_init start endp =
     map_option (\<lambda>fl. \<lparr>start_addr = start, end_addr = endp, free_lists = fl\<rparr>)
       (buddy_init_loop endp start (replicate BUDDY_NUM_ORDERS []))"

text \<open>\<open>while (i > list_idx)\<close>: the upper half of the block goes to the next lower list.\<close>

fun split_down :: "u32 \<Rightarrow> nat \<Rightarrow> nat \<Rightarrow> u32 list list \<Rightarrow> u32 list list" where
  "split_down block i list_idx fl =
     (if list_idx < i then
        (let i' = i - 1; buddy = block + push_bit (i' + BUDDY_MIN_ORDER) 1
         in split_down block i' list_idx (fl[i' := buddy # fl ! i']))
      else fl)"

declare split_down.simps [simp del]

definition buddy_alloc_order :: "nat \<Rightarrow> buddy \<Rightarrow> u32 \<times> buddy" where
  "buddy_alloc_order order0 b =
     (let order = (if order0 < BUDDY_MIN_ORDER then BUDDY_MIN_ORDER else order0);
          list_idx = order - BUDDY_MIN_ORDER
      in if list_idx \<ge> BUDDY_NUM_ORDERS then (0, b)
         else case first_idx (\<lambda>i. free_lists b ! i \<noteq> []) [list_idx ..< BUDDY_NUM_ORDERS] of
                None \<Rightarrow> (0, b)
              | Some d \<Rightarrow>
                  (let i = list_idx + d;
                       block = hd (free_lists b ! i);
                       fl = (free_lists b)[i := tl (free_lists b ! i)]
                   in (block, b\<lparr>free_lists := split_down block i list_idx fl\<rparr>)))"

definition buddy_alloc :: "u32 \<Rightarrow> buddy \<Rightarrow> (u32 \<times> buddy) option" where
  "buddy_alloc sz b = map_option (\<lambda>order. buddy_alloc_order order b) (get_order sz)"

text \<open>
  The coalescing loop of \<open>buddy_free\<close>: it stops at the largest order or when the buddy is
  not on its free list; the result is the final address, order and lists.
\<close>

function coalesce :: "u32 \<Rightarrow> u32 \<Rightarrow> nat \<Rightarrow> u32 list list \<Rightarrow> u32 \<times> nat \<times> u32 list list" where
  "coalesce start addr order fl =
     (if order < BUDDY_MAX_ORDER then
        (let list_idx = order - BUDDY_MIN_ORDER in
         if list_idx \<ge> BUDDY_NUM_ORDERS then (addr, order, fl)
         else
           (let block_size = push_bit order 1;
                relative_addr = addr - start;
                buddy_addr = (relative_addr XOR block_size) + start
            in if buddy_addr \<in> set (fl ! list_idx)
               then coalesce start (if buddy_addr < addr then buddy_addr else addr) (order + 1)
                      (fl[list_idx := remove1 buddy_addr (fl ! list_idx)])
               else (addr, order, fl)))
      else (addr, order, fl))"
  by pat_completeness auto
termination
  by (relation "measure (\<lambda>(start, addr, order, fl). BUDDY_MAX_ORDER - order)") auto

declare coalesce.simps [simp del]

definition buddy_free_order :: "u32 \<Rightarrow> nat \<Rightarrow> buddy \<Rightarrow> buddy" where
  "buddy_free_order ptr order0 b =
     (let order = (if order0 < BUDDY_MIN_ORDER then BUDDY_MIN_ORDER else order0);
          (addr, final_order, fl) = coalesce (start_addr b) ptr order (free_lists b);
          idx = final_order - BUDDY_MIN_ORDER
      in if idx \<ge> BUDDY_NUM_ORDERS then b\<lparr>free_lists := fl\<rparr>
         else b\<lparr>free_lists := fl[idx := addr # fl ! idx]\<rparr>)"

definition buddy_free :: "u32 \<Rightarrow> u32 \<Rightarrow> buddy \<Rightarrow> buddy option" where
  "buddy_free ptr sz b =
     (if ptr = 0 then Some b
      else map_option (\<lambda>order. buddy_free_order ptr order b) (get_order sz))"

declare get_order_loop.simps [code] get_order_floor_loop.simps [code] buddy_init_loop.simps [code]

subsection \<open>The order functions\<close>

lemma get_order_loop_spec:
  assumes "unat sz \<le> 2 ^ k" "k \<le> 31" "j \<le> k" "\<forall>i. j \<le> i \<and> i < k \<longrightarrow> 2 ^ i < unat sz"
  shows "get_order_loop sz (2 ^ j) j = Some k"
  using assms(3,4)
proof (induction "k - j" arbitrary: j)
  case 0
  then have "j = k" by simp
  then have "\<not> 2 ^ j < sz"
    using assms(1,2) unat_exp_u32 [of j] by (simp add: word_less_nat_alt)
  then show ?case
    using \<open>j = k\<close> by (simp add: get_order_loop.simps)
next
  case (Suc d)
  then have "j < k" by simp
  with Suc.prems(2) assms(2) have "2 ^ j < sz"
    using unat_exp_u32 [of j] by (simp add: word_less_nat_alt)
  then have "get_order_loop sz (2 ^ j) j = get_order_loop sz (2 ^ Suc j) (Suc j)"
    using push_bit_1_exp [of j] by (simp only: get_order_loop.simps [of sz "2 ^ j"]) simp
  also have "\<dots> = Some k"
    using Suc.hyps(1) [of "Suc j"] Suc.hyps(2) Suc.prems \<open>j < k\<close> by simp
  finally show ?case .
qed

lemma get_order_loop_zero:
  assumes "get_order_loop sz s ord = Some r"
  shows "s = 0 \<longrightarrow> sz = 0"
proof (rule get_order_loop.raw_induct [where P = "\<lambda>sz s ord r. s = 0 \<longrightarrow> sz = 0", OF _ assms])
  fix f :: "u32 \<Rightarrow> u32 \<Rightarrow> nat \<Rightarrow> nat option" and sz s ord r
  assume IH: "\<And>sz s ord r. f sz s ord = Some r \<Longrightarrow> s = 0 \<longrightarrow> sz = 0"
    and eq: "(if s < sz then f sz (push_bit 1 s) (ord + 1) else Some ord) = Some r"
  show "s = 0 \<longrightarrow> sz = 0"
  proof
    assume "s = 0"
    show "sz = 0"
    proof (cases "0 < sz")
      case True
      then have "f sz 0 (ord + 1) = Some r" using eq \<open>s = 0\<close> by simp
      then show ?thesis using IH by blast
    next
      case False
      then show ?thesis by (simp add: word_neq_0_conv [symmetric])
    qed
  qed
qed


text \<open>The order of a size: the least power of two that holds it.\<close>

definition is_order :: "nat \<Rightarrow> nat \<Rightarrow> bool" where
  "is_order n k \<longleftrightarrow> n \<le> 2 ^ k \<and> (\<forall>i < k. 2 ^ i < n)"

lemma is_order_ex: "\<exists>k. is_order n k"
proof -
  have "n \<le> 2 ^ n" by (simp add: less_imp_le)
  then have "n \<le> 2 ^ (LEAST k. n \<le> 2 ^ k)" by (rule LeastI)
  moreover have "\<forall>i < (LEAST k. n \<le> 2 ^ k). 2 ^ i < n"
    using not_less_Least by (metis not_le)
  ultimately show ?thesis by (auto simp: is_order_def)
qed

lemma is_order_le: "is_order n k \<Longrightarrow> n \<le> 2 ^ m \<Longrightarrow> k \<le> m"
  by (meson is_order_def not_le)

lemma is_order_unique: "is_order n k \<Longrightarrow> is_order n m \<Longrightarrow> k = m"
  by (meson is_order_def is_order_le le_antisym)

lemma get_order_ok: "is_order (unat sz) k \<Longrightarrow> k \<le> 31 \<Longrightarrow> get_order sz = Some k"
  using get_order_loop_spec [of sz k 0] by (simp add: get_order_def is_order_def)

lemma get_order_Some:
  assumes "unat sz \<le> 2 ^ 31"
  shows "\<exists>k \<le> 31. get_order sz = Some k \<and> is_order (unat sz) k"
  using is_order_ex [of "unat sz"] is_order_le [OF _ assms] get_order_ok by blast

text \<open>Above \<open>2^31\<close> the shifted word becomes 0 and the loop never ends.\<close>

lemma get_order_loop_diverges:
  assumes "2 ^ 31 < unat sz" "j \<le> 31"
  shows "get_order_loop sz (2 ^ j) j = None"
  using assms(2)
proof (induction "31 - j" arbitrary: j)
  case 0
  then have "j = 31" by simp
  have "(2 :: u32) ^ 31 < sz" using assms(1) by (simp add: word_less_nat_alt)
  then have "get_order_loop sz (2 ^ 31) 31 = get_order_loop sz 0 32"
    by (simp add: get_order_loop.simps [of sz 2147483648] push_bit_eq_mult)
  moreover have "get_order_loop sz 0 32 \<noteq> Some r" for r
    using get_order_loop_zero [of sz 0 32 r] assms(1) by auto
  ultimately show ?case using \<open>j = 31\<close> by (cases "get_order_loop sz 0 32") auto
next
  case (Suc d)
  then have "j < 31" by simp
  then have "(2 :: nat) ^ j < 2 ^ 31" by (intro power_strict_increasing) simp_all
  then have "2 ^ j < sz"
    using assms(1) \<open>j < 31\<close> by (simp add: word_less_nat_alt unat_exp_u32)
  then have "get_order_loop sz (2 ^ j) j = get_order_loop sz (2 ^ Suc j) (Suc j)"
    using push_bit_1_exp [of j] by (simp only: get_order_loop.simps [of sz "2 ^ j"]) simp
  then show ?case
    using Suc.hyps(1) [of "Suc j"] Suc.hyps(2) \<open>j < 31\<close> by simp
qed

lemma get_order_iff: "get_order sz = Some k \<longleftrightarrow> unat sz \<le> 2 ^ 31 \<and> is_order (unat sz) k"
proof (cases "unat sz \<le> 2 ^ 31")
  case True
  then show ?thesis using get_order_Some [OF True] is_order_unique by fastforce
next
  case False
  then show ?thesis using get_order_loop_diverges [of sz 0] by (simp add: get_order_def)
qed

lemma get_order_floor_loop_spec:
  assumes "2 ^ k \<le> unat n" "unat n < 2 ^ Suc k" "k \<le> 30" "j \<le> k"
  shows "get_order_floor_loop n (2 ^ j) j = Some k"
  using assms(4)
proof (induction "k - j" arbitrary: j)
  case 0
  then have "j = k" by simp
  then have "\<not> (2 :: u32) ^ j * 2 \<le> n"
    using assms(2,3) unat_exp_u32 [of "Suc k"] by (simp add: word_le_nat_alt mult.commute)
  then show ?case
    using \<open>j = k\<close> by (simp add: get_order_floor_loop.simps)
next
  case (Suc d)
  then have "j < k" by simp
  then have "(2 :: nat) ^ Suc j \<le> 2 ^ k" by (intro power_increasing) simp_all
  then have "(2 :: u32) ^ j * 2 \<le> n"
    using assms(1,3) \<open>j < k\<close> unat_exp_u32 [of "Suc j"] by (simp add: word_le_nat_alt mult.commute)
  then have "get_order_floor_loop n (2 ^ j) j = get_order_floor_loop n (2 ^ Suc j) (Suc j)"
    using push_bit_1_exp [of j] by (simp only: get_order_floor_loop.simps [of n "2 ^ j"]) simp
  then show ?case
    using Suc.hyps(1) [of "Suc j"] Suc.hyps(2) \<open>j < k\<close> by simp
qed

lemma get_order_floor_Some:
  assumes "0 < unat n" "unat n < 2 ^ 31"
  shows "\<exists>k \<le> 30. get_order_floor n = Some k \<and> 2 ^ k \<le> unat n \<and> unat n < 2 ^ Suc k"
proof -
  obtain k where k: "is_order (Suc (unat n)) k" using is_order_ex by blast
  then have "0 < k" using assms(1) by (cases k) (auto simp: is_order_def)
  then obtain m where m: "k = Suc m" by (cases k) auto
  have "k \<le> 31" using is_order_le [OF k, of 31] assms(2) by simp
  moreover have "2 ^ m \<le> unat n" "unat n < 2 ^ Suc m" using k m by (auto simp: is_order_def)
  ultimately show ?thesis
    using get_order_floor_loop_spec [of m n 0] m by (auto simp: get_order_floor_def)
qed


subsection \<open>Blocks, free bytes and the invariant\<close>

text \<open>\<open>blk k a\<close>: the bytes of the block of order \<open>k\<close> at address \<open>a\<close>.\<close>

definition blk :: "nat \<Rightarrow> u32 \<Rightarrow> nat set" where
  "blk k a = {unat a ..< unat a + 2 ^ k}"

text \<open>The blocks on the free lists, as pairs of list index and address.\<close>

definition blocks :: "u32 list list \<Rightarrow> (nat \<times> u32) set" where
  "blocks fl = {(i, a). i < length fl \<and> a \<in> set (fl ! i)}"

definition free_bytes_of :: "u32 list list \<Rightarrow> nat set" where
  "free_bytes_of fl = (\<Union>(i, a) \<in> blocks fl. blk (i + 12) a)"

definition buddy_free_bytes :: "buddy \<Rightarrow> nat set" where
  "buddy_free_bytes b = free_bytes_of (free_lists b)"

text \<open>A block of order \<open>k\<close> fits the pool: inside it, and aligned relative to its start.\<close>

definition fits :: "u32 \<Rightarrow> u32 \<Rightarrow> nat \<Rightarrow> u32 \<Rightarrow> bool" where
  "fits start endp k a \<longleftrightarrow> unat start \<le> unat a \<and> unat a + 2 ^ k \<le> unat endp
     \<and> 2 ^ k dvd unat a - unat start"

definition lists_ok :: "u32 \<Rightarrow> u32 \<Rightarrow> u32 list list \<Rightarrow> bool" where
  "lists_ok start endp fl \<longleftrightarrow> length fl = 17
     \<and> (\<forall>i < 17. distinct (fl ! i))
     \<and> (\<forall>(i, a) \<in> blocks fl. fits start endp (i + 12) a)
     \<and> (\<forall>x \<in> blocks fl. \<forall>y \<in> blocks fl. x \<noteq> y \<longrightarrow>
          blk (fst x + 12) (snd x) \<inter> blk (fst y + 12) (snd y) = {})"

lemma blk_nonempty [simp]: "blk k a \<noteq> {}"
  by (simp add: blk_def)

lemma blk_start [simp]: "unat a \<in> blk k a"
  by (simp add: blk_def)

lemma blocks_cons:
  "i < length fl \<Longrightarrow> blocks (fl[i := a # fl ! i]) = insert (i, a) (blocks fl)"
  by (auto simp: blocks_def nth_list_update split: if_splits)

lemma blocks_remove1:
  "i < length fl \<Longrightarrow> distinct (fl ! i) \<Longrightarrow>
   blocks (fl[i := remove1 a (fl ! i)]) = blocks fl - {(i, a)}"
  by (auto simp: blocks_def nth_list_update split: if_splits)

lemma remove1_hd: "xs \<noteq> [] \<Longrightarrow> tl xs = remove1 (hd xs) xs"
  by (cases xs) auto

lemma free_bytes_cons:
  "i < length fl \<Longrightarrow> free_bytes_of (fl[i := a # fl ! i]) = blk (i + 12) a \<union> free_bytes_of fl"
  by (simp add: free_bytes_of_def blocks_cons)

lemma block_in_free_bytes: "(i, a) \<in> blocks fl \<Longrightarrow> blk (i + 12) a \<subseteq> free_bytes_of fl"
  by (auto simp: free_bytes_of_def)

lemma blk_mono: "j \<le> k \<Longrightarrow> blk j a \<subseteq> blk k a"
  by (auto simp: blk_def intro: less_le_trans power_increasing)

text \<open>Pushing a block that fits and does not overlap the free bytes keeps the lists good.\<close>

lemma lists_ok_cons:
  assumes "lists_ok start endp fl" "i < 17" "fits start endp (i + 12) a"
    "blk (i + 12) a \<inter> free_bytes_of fl = {}"
  shows "lists_ok start endp (fl[i := a # fl ! i])"
proof -
  have len: "length fl = 17" using assms(1) by (simp add: lists_ok_def)
  have disj: "blk (i + 12) a \<inter> blk (j + 12) c = {}" if "(j, c) \<in> blocks fl" for j c
    using block_in_free_bytes [OF that] assms(4) by blast
  have "a \<notin> set (fl ! i)"
    using disj [of i a] assms(2) len by (auto simp: blocks_def)
  moreover have "\<forall>x \<in> blocks (fl[i := a # fl ! i]). \<forall>y \<in> blocks (fl[i := a # fl ! i]). x \<noteq> y \<longrightarrow>
      blk (fst x + 12) (snd x) \<inter> blk (fst y + 12) (snd y) = {}"
    using assms(1,2) disj len by (fastforce simp: blocks_cons lists_ok_def Int_commute)
  ultimately show ?thesis
    using assms(1-3) len
    by (auto simp: lists_ok_def blocks_cons nth_list_update split: if_splits)
qed

text \<open>Taking a block off its list removes exactly its bytes.\<close>

lemma lists_ok_remove:
  assumes "lists_ok start endp fl" "(i, a) \<in> blocks fl"
  shows "lists_ok start endp (fl[i := remove1 a (fl ! i)])"
    and "free_bytes_of (fl[i := remove1 a (fl ! i)]) = free_bytes_of fl - blk (i + 12) a"
proof -
  have i: "i < length fl" "length fl = 17" "distinct (fl ! i)"
    using assms by (auto simp: lists_ok_def blocks_def)
  note b = blocks_remove1 [OF i(1,3), of a]
  show "lists_ok start endp (fl[i := remove1 a (fl ! i)])"
    using assms(1) i unfolding lists_ok_def b
    by (auto simp: nth_list_update)
  have "blk (i + 12) a \<inter> blk (fst y + 12) (snd y) = {}" if "y \<in> blocks fl" "y \<noteq> (i, a)" for y
    using assms that unfolding lists_ok_def by fastforce
  then show "free_bytes_of (fl[i := remove1 a (fl ! i)]) = free_bytes_of fl - blk (i + 12) a"
    unfolding free_bytes_of_def b using assms(2) by fastforce
qed


subsection \<open>Halving and merging\<close>

lemma fits_halves:
  assumes "fits start endp (Suc k) a"
  defines "c \<equiv> a + push_bit k 1"
  shows "unat c = unat a + 2 ^ k" "fits start endp k a" "fits start endp k c"
    "blk (Suc k) a = blk k a \<union> blk k c" "blk k a \<inter> blk k c = {}"
proof -
  have "(2 :: nat) ^ Suc k < 2 ^ 32"
    using assms(1) unat_u32_bound [of endp] by (auto simp: fits_def)
  then have "Suc k < 32" by (rule power_less_imp_less_exp [rotated]) simp
  then have e: "unat (push_bit k 1 :: u32) = 2 ^ k"
    by (simp add: push_bit_eq_mult unat_exp_u32)
  show c: "unat c = unat a + 2 ^ k"
    using assms(1) e unat_u32_bound [of endp] unfolding c_def
    by (subst unat_add_small) (auto simp: fits_def)
  have d: "2 ^ k dvd unat a - unat start"
    using assms(1) dvd_mult_right [of 2 "2 ^ k" "unat a - unat start"] by (simp add: fits_def)
  then show "fits start endp k a" using assms(1) by (simp add: fits_def)
  have e: "unat c - unat start = (unat a - unat start) + 2 ^ k"
    using c assms(1) by (simp add: fits_def)
  have "2 ^ k dvd unat c - unat start" unfolding e using d by (rule dvd_add) simp
  then show "fits start endp k c" using assms(1) c by (simp add: fits_def)
  show "blk (Suc k) a = blk k a \<union> blk k c" "blk k a \<inter> blk k c = {}"
    using c by (auto simp: blk_def)
qed

lemma nat_xor_exp:
  "(n :: nat) XOR 2 ^ k = (if odd (n div 2 ^ k) then n - 2 ^ k else n + 2 ^ k)"
proof -
  have up: "m XOR 2 ^ k = m + 2 ^ k" if "\<not> bit m k" for m :: nat
    using that flip_bit_eq_xor [of k m] by (simp add: flip_bit_eq_if set_bit_eq push_bit_eq_mult)
  show ?thesis
  proof (cases "bit n k")
    case True
    then have "\<not> bit (n XOR 2 ^ k) k" by (simp add: bit_xor_iff bit_exp_iff)
    from up [OF this] have "n = (n XOR 2 ^ k) + 2 ^ k" by (simp add: xor.assoc)
    then show ?thesis using True by (simp add: bit_iff_odd)
  next
    case False
    then show ?thesis using up [OF False] by (simp add: bit_iff_odd)
  qed
qed

definition buddy_of :: "u32 \<Rightarrow> u32 \<Rightarrow> nat \<Rightarrow> u32" where
  "buddy_of start a k = ((a - start) XOR push_bit k 1) + start"

lemma buddy_of_offset:
  assumes "fits start endp k a" "fits start endp k (buddy_of start a k)"
  defines "r \<equiv> unat a - unat start"
  shows "unat (buddy_of start a k) =
    unat start + (if odd (r div 2 ^ k) then r - 2 ^ k else r + 2 ^ k)"
proof -
  let ?c = "buddy_of start a k"
  have "(2 :: nat) ^ k < 2 ^ 32"
    using assms(1) unat_u32_bound [of endp] by (auto simp: fits_def)
  then have k: "k < 32" by (rule power_less_imp_less_exp [rotated]) simp
  have "unat ?c - unat start = unat (?c - start)"
    using assms(2) by (simp add: fits_def unat_sub_small)
  also have "\<dots> = unat ((a - start) XOR 2 ^ k)"
    by (simp add: buddy_of_def push_bit_eq_mult)
  also have "\<dots> = r XOR 2 ^ k"
    using assms(1) k by (simp add: unsigned_xor_eq unat_exp_u32 r_def fits_def unat_sub_small)
  finally show ?thesis
    using assms(2) by (simp add: nat_xor_exp fits_def split: if_splits)
qed

lemma fits_merge:
  assumes "fits start endp k a" "fits start endp k (buddy_of start a k)"
  defines "m \<equiv> (if buddy_of start a k < a then buddy_of start a k else a)"
  shows "fits start endp (Suc k) m" "blk (Suc k) m = blk k a \<union> blk k (buddy_of start a k)"
proof -
  let ?c = "buddy_of start a k" and ?r = "unat a - unat start"
  obtain q where q: "?r = 2 ^ k * q" using assms(1) by (auto simp: fits_def)
  then have ra: "unat a = unat start + 2 ^ k * q" using assms(1) by (auto simp: fits_def)
  have rc: "unat ?c = unat start + (if odd q then 2 ^ k * q - 2 ^ k else 2 ^ k * q + 2 ^ k)"
    using buddy_of_offset [OF assms(1,2)] q by simp
  have "fits start endp (Suc k) m \<and> blk (Suc k) m = blk k a \<union> blk k ?c"
  proof (cases "odd q")
    case True
    then obtain t where t: "q = Suc (2 * t)" by (auto elim: oddE)
    then have c: "unat ?c = unat start + 2 ^ Suc k * t" "unat a = unat ?c + 2 ^ k"
      using rc ra True by (simp_all add: algebra_simps)
    then have "m = ?c" by (simp add: m_def word_less_nat_alt)
    then show ?thesis using c assms(1) by (auto simp: fits_def blk_def)
  next
    case False
    then obtain t where t: "q = 2 * t" by (auto elim: evenE)
    then have c: "unat a = unat start + 2 ^ Suc k * t" "unat ?c = unat a + 2 ^ k"
      using rc ra False by (simp_all add: algebra_simps)
    then have "m = a" by (simp add: m_def word_less_nat_alt)
    then show ?thesis using c assms(2) by (auto simp: fits_def blk_def)
  qed
  then show "fits start endp (Suc k) m" "blk (Suc k) m = blk k a \<union> blk k ?c" by simp_all
qed

subsection \<open>Splitting\<close>

lemma split_down_spec:
  assumes "lists_ok start endp fl" "i < 17" "lo \<le> i" "fits start endp (i + 12) a"
    "blk (i + 12) a \<inter> free_bytes_of fl = {}"
  shows "lists_ok start endp (split_down a i lo fl)
    \<and> free_bytes_of (split_down a i lo fl)
        = free_bytes_of fl \<union> (blk (i + 12) a - blk (lo + 12) a)"
  using assms
proof (induction a i lo fl rule: split_down.induct)
  case (1 a i lo fl)
  show ?case
  proof (cases "lo < i")
    case False
    then show ?thesis using "1.prems" by (simp add: split_down.simps [of a i])
  next
    case True
    define i' c where "i' = i - 1" and "c = a + push_bit (i' + 12) 1"
    have i: "i = Suc i'" "lo \<le> i'" using True by (simp_all add: i'_def)
    have "fits start endp (Suc (i' + 12)) a" using "1.prems"(4) i by simp
    note h = fits_halves [OF this, folded c_def]
    have dis: "blk (i' + 12) c \<inter> free_bytes_of fl = {}" "blk (i' + 12) a \<inter> free_bytes_of fl = {}"
      using "1.prems"(5) h(4) i by auto
    let ?fl = "fl[i' := c # fl ! i']"
    have len: "i' < length fl" using "1.prems"(1,2) i by (simp add: lists_ok_def)
    have ok: "lists_ok start endp ?fl"
      using lists_ok_cons [OF "1.prems"(1) _ h(3) dis(1)] "1.prems"(2) i by simp
    have fb: "free_bytes_of ?fl = blk (i' + 12) c \<union> free_bytes_of fl"
      by (rule free_bytes_cons [OF len])
    have eq: "split_down a i lo fl = split_down a i' lo ?fl"
      using True by (simp add: split_down.simps [of a i] i'_def c_def Let_def)
    have "lists_ok start endp (split_down a i' lo ?fl)
      \<and> free_bytes_of (split_down a i' lo ?fl)
          = free_bytes_of ?fl \<union> (blk (i' + 12) a - blk (lo + 12) a)"
    proof (rule "1.IH" [OF True i'_def, of c, folded c_def])
      show "i' < 17" using "1.prems"(2) i by simp
      show "blk (i' + 12) a \<inter> free_bytes_of ?fl = {}" using dis h(5) fb by blast
    qed (use ok i h(2) c_def in simp_all)
    moreover have "blk (lo + 12) a \<inter> blk (i' + 12) c = {}"
      using blk_mono [of "lo + 12" "i' + 12" a] i(2) h(5) by auto
    moreover have "blk (i + 12) a = blk (i' + 12) a \<union> blk (i' + 12) c" using h(4) i by simp
    ultimately show ?thesis unfolding eq fb by blast
  qed
qed


subsection \<open>Allocation\<close>

text \<open>
  Two free buddies never stay on a list: \<open>no_buddies\<close>. A list that was empty may receive
  one block; a list may receive a block whose buddy is not on it.
\<close>

definition no_buddies :: "u32 \<Rightarrow> u32 list list \<Rightarrow> bool" where
  "no_buddies start fl \<longleftrightarrow> (\<forall>(i, a) \<in> blocks fl. i < 16 \<longrightarrow>
     buddy_of start a (i + 12) \<notin> set (fl ! i))"

definition buddy_inv :: "buddy \<Rightarrow> bool" where
  "buddy_inv b \<longleftrightarrow> 0 < unat (start_addr b)
     \<and> lists_ok (start_addr b) (end_addr b) (free_lists b)
     \<and> no_buddies (start_addr b) (free_lists b)"

lemma buddy_of_invol [simp]: "buddy_of start (buddy_of start a k) k = a"
  by (simp add: buddy_of_def xor.assoc)

lemma buddy_of_neq: "k < 32 \<Longrightarrow> buddy_of start a k \<noteq> a"
proof
  assume k: "k < 32" and "buddy_of start a k = a"
  then have "(a - start) XOR 2 ^ k = a - start"
    using diff_eq_eq [of a start "(a - start) XOR 2 ^ k"]
    by (simp add: buddy_of_def push_bit_eq_mult)
  then have "((a - start) XOR 2 ^ k) XOR (a - start) = 0" by simp
  then have "(2 :: u32) ^ k = 0" by (simp add: xor.assoc xor.commute xor.left_commute)
  then show False using k unat_exp_u32 [of k] by simp
qed

lemma no_buddies_nth:
  "no_buddies start fl \<longleftrightarrow>
    (\<forall>i < length fl. i < 16 \<longrightarrow> (\<forall>a \<in> set (fl ! i). buddy_of start a (i + 12) \<notin> set (fl ! i)))"
  by (auto simp: no_buddies_def blocks_def)

lemma no_buddies_cons:
  assumes "no_buddies start fl" "i < 16 \<Longrightarrow> buddy_of start a (i + 12) \<notin> set (fl ! i)"
  shows "no_buddies start (fl[i := a # fl ! i])"
  unfolding no_buddies_nth
proof (intro allI impI ballI)
  fix j x assume j: "j < length (fl[i := a # fl ! i])" "j < 16"
    and x: "x \<in> set (fl[i := a # fl ! i] ! j)"
  have old: "\<forall>x \<in> set (fl ! j). buddy_of start x (j + 12) \<notin> set (fl ! j)"
    using assms(1) j by (simp add: no_buddies_nth)
  have neq: "buddy_of start a (j + 12) \<noteq> a" using j(2) by (intro buddy_of_neq) simp
  show "buddy_of start x (j + 12) \<notin> set (fl[i := a # fl ! i] ! j)"
  proof (cases "j = i")
    case False
    then show ?thesis using old x by simp
  next
    case True
    then have new: "buddy_of start a (j + 12) \<notin> set (fl ! j)" using assms(2) j(2) by simp
    have "buddy_of start x (j + 12) \<noteq> a" if "x \<in> set (fl ! j)"
      using new that buddy_of_invol [of start x "j + 12"] by metis
    then show ?thesis using old x new neq True j by auto
  qed
qed

lemma no_buddies_remove:
  assumes "no_buddies start fl"
  shows "no_buddies start (fl[i := remove1 a (fl ! i)])"
  unfolding no_buddies_nth
proof (intro allI impI ballI)
  fix j x assume "j < length (fl[i := remove1 a (fl ! i)])" "j < 16"
    and x: "x \<in> set (fl[i := remove1 a (fl ! i)] ! j)"
  moreover from this have "set (fl[i := remove1 a (fl ! i)] ! j) \<subseteq> set (fl ! j)"
    using set_remove1_subset [of a "fl ! i"] by (cases "j = i") auto
  ultimately show "buddy_of start x (j + 12) \<notin> set (fl[i := remove1 a (fl ! i)] ! j)"
    using assms by (auto simp: no_buddies_nth)
qed

lemma split_down_no_buddies:
  assumes "no_buddies start fl" "\<forall>j. lo \<le> j \<and> j < i \<longrightarrow> fl ! j = []"
  shows "no_buddies start (split_down a i lo fl)"
  using assms
proof (induction a i lo fl rule: split_down.induct)
  case (1 a i lo fl)
  show ?case
  proof (cases "lo < i")
    case True
    let ?c = "a + push_bit (i - 1 + 12) 1"
    let ?fl = "fl[i - 1 := ?c # fl ! (i - 1)]"
    have "fl ! (i - 1) = []" using "1.prems"(2) True by simp
    then have "no_buddies start ?fl" using no_buddies_cons [OF "1.prems"(1), of "i - 1" ?c] by simp
    moreover have "\<forall>j. lo \<le> j \<and> j < i - 1 \<longrightarrow> ?fl ! j = []" using "1.prems"(2) by auto
    ultimately have "no_buddies start (split_down a (i - 1) lo ?fl)"
      by (rule "1.IH" [OF True refl refl])
    then show ?thesis using True by (simp add: split_down.simps [of a i] Let_def)
  qed (use "1.prems" in \<open>simp add: split_down.simps [of a i]\<close>)
qed

lemma buddy_alloc_order_None:
  assumes "\<forall>i. order - 12 \<le> i \<and> i < 17 \<longrightarrow> free_lists b ! i = []"
  shows "buddy_alloc_order order b = (0, b)"
proof -
  have "first_idx (\<lambda>i. free_lists b ! i \<noteq> []) [order - 12 ..< 17] = None"
    using assms by (subst first_idx_None) auto
  then show ?thesis by (cases "order < 12") (simp_all add: buddy_alloc_order_def Let_def)
qed

lemma buddy_alloc_order_Some:
  assumes "order - 12 \<le> i" "i < 17" "free_lists b ! i \<noteq> []"
    "\<forall>j. order - 12 \<le> j \<and> j < i \<longrightarrow> free_lists b ! j = []"
  shows "buddy_alloc_order order b =
    (hd (free_lists b ! i), b\<lparr>free_lists := split_down (hd (free_lists b ! i)) i (order - 12)
       ((free_lists b)[i := tl (free_lists b ! i)])\<rparr>)"
proof -
  have "first_idx (\<lambda>i. free_lists b ! i \<noteq> []) [order - 12 ..< 17] = Some (i - (order - 12))"
    using assms by (subst first_idx_Some) auto
  then show ?thesis
    using assms(1,2) by (cases "order < 12") (simp_all add: buddy_alloc_order_def Let_def)
qed

text \<open>What an allocation that finds a block does: the block comes out of the free bytes.\<close>

lemma buddy_alloc_order_ok:
  assumes inv: "buddy_inv b" and le: "order - 12 \<le> i" and i: "i < 17"
    and ne: "free_lists b ! i \<noteq> []"
    and empty: "\<forall>j. order - 12 \<le> j \<and> j < i \<longrightarrow> free_lists b ! j = []"
    and res: "buddy_alloc_order order b = (p, b')"
  shows "buddy_inv b'" "fits (start_addr b) (end_addr b) (order - 12 + 12) p"
    "blk (order - 12 + 12) p \<subseteq> buddy_free_bytes b"
    "buddy_free_bytes b' = buddy_free_bytes b - blk (order - 12 + 12) p"
    "start_addr b' = start_addr b" "end_addr b' = end_addr b" "p \<noteq> 0"
proof -
  let ?fl = "free_lists b" and ?s = "start_addr b" and ?e = "end_addr b" and ?lo = "order - 12"
  define fl where "fl = ?fl[i := remove1 p (?fl ! i)]"
  have r: "p = hd (?fl ! i)" "b' = b\<lparr>free_lists := split_down p i ?lo fl\<rparr>"
    using buddy_alloc_order_Some [OF le i ne empty] res remove1_hd [OF ne] unfolding fl_def
    by (metis prod.inject)+
  have ok: "lists_ok ?s ?e ?fl" using inv by (simp add: buddy_inv_def)
  then have "i < length ?fl" using i by (simp add: lists_ok_def)
  then have p: "(i, p) \<in> blocks ?fl" using r(1) ne by (simp add: blocks_def)
  note rem = lists_ok_remove [OF ok p, folded fl_def]
  have fits: "fits ?s ?e (i + 12) p" using ok p by (auto simp: lists_ok_def)
  have disj: "blk (i + 12) p \<inter> free_bytes_of fl = {}" using rem(2) by blast
  note sp = split_down_spec [OF rem(1) i le fits disj]
  have sub: "blk (i + 12) p \<subseteq> free_bytes_of ?fl" by (rule block_in_free_bytes [OF p])
  have sub': "blk (?lo + 12) p \<subseteq> blk (i + 12) p" using le by (intro blk_mono) simp
  have "no_buddies ?s fl" using no_buddies_remove inv by (simp add: buddy_inv_def fl_def)
  moreover have "\<forall>j. ?lo \<le> j \<and> j < i \<longrightarrow> fl ! j = []" using empty by (simp add: fl_def)
  ultimately have "no_buddies ?s (split_down p i ?lo fl)" by (rule split_down_no_buddies)
  then show "buddy_inv b'" using sp inv r(2) by (simp add: buddy_inv_def)
  have "(2 :: nat) ^ (?lo + 12) \<le> 2 ^ (i + 12)" "(2 :: nat) ^ (?lo + 12) dvd 2 ^ (i + 12)"
    using le by (auto intro: power_increasing le_imp_power_dvd)
  then show "fits ?s ?e (?lo + 12) p"
    using fits unfolding fits_def by (meson add_le_cancel_left dvd_trans le_trans)
  show "blk (?lo + 12) p \<subseteq> buddy_free_bytes b" using sub sub' by (auto simp: buddy_free_bytes_def)
  have "free_bytes_of (split_down p i ?lo fl) = free_bytes_of fl \<union> (blk (i + 12) p - blk (?lo + 12) p)"
    using sp by simp
  also have "\<dots> = free_bytes_of ?fl - blk (?lo + 12) p" using rem(2) sub sub' by blast
  finally show "buddy_free_bytes b' = buddy_free_bytes b - blk (?lo + 12) p"
    using r(2) by (simp add: buddy_free_bytes_def)
  show "start_addr b' = ?s" "end_addr b' = ?e" using r(2) by simp_all
  have "0 < unat p" using fits inv by (auto simp: fits_def buddy_inv_def)
  then show "p \<noteq> 0" by auto
qed

lemma buddy_alloc_order_cases:
  obtains (none) "\<forall>i. order - 12 \<le> i \<and> i < 17 \<longrightarrow> free_lists b ! i = []"
      "buddy_alloc_order order b = (0, b)"
  | (some) i where "order - 12 \<le> i" "i < 17" "free_lists b ! i \<noteq> []"
      "\<forall>j. order - 12 \<le> j \<and> j < i \<longrightarrow> free_lists b ! j = []"
proof (cases "\<exists>i. order - 12 \<le> i \<and> i < 17 \<and> free_lists b ! i \<noteq> []")
  case True
  then obtain i where i: "order - 12 \<le> i \<and> i < 17 \<and> free_lists b ! i \<noteq> []"
    "\<forall>j < i. \<not> (order - 12 \<le> j \<and> j < 17 \<and> free_lists b ! j \<noteq> [])"
    using exists_least_iff [of "\<lambda>i. order - 12 \<le> i \<and> i < 17 \<and> free_lists b ! i \<noteq> []"] by blast
  show ?thesis
  proof (rule some [of i])
    show "\<forall>j. order - 12 \<le> j \<and> j < i \<longrightarrow> free_lists b ! j = []"
      using i by (meson less_trans)
  qed (use i(1) in simp_all)
next
  case False
  then have "\<forall>i. order - 12 \<le> i \<and> i < 17 \<longrightarrow> free_lists b ! i = []" by blast
  from this buddy_alloc_order_None [OF this] show ?thesis by (rule none)
qed

subsection \<open>Coalescing\<close>

lemma coalesce_stop:
  "\<not> (order < 28 \<and> buddy_of start addr order \<in> set (fl ! (order - 12))) \<Longrightarrow>
   coalesce start addr order fl = (addr, order, fl)"
  by (subst coalesce.simps) (simp add: buddy_of_def Let_def)

lemma coalesce_merge:
  "order < 28 \<Longrightarrow> buddy_of start addr order \<in> set (fl ! (order - 12)) \<Longrightarrow>
   coalesce start addr order fl = coalesce start
     (if buddy_of start addr order < addr then buddy_of start addr order else addr) (order + 1)
     (fl[order - 12 := remove1 (buddy_of start addr order) (fl ! (order - 12))])"
proof -
  assume a: "order < 28" "buddy_of start addr order \<in> set (fl ! (order - 12))"
  then have "\<not> 17 \<le> order - 12" by arith
  then show ?thesis using a by (subst coalesce.simps) (simp add: buddy_of_def Let_def)
qed

lemma coalesce_spec:
  assumes "lists_ok start endp fl" "no_buddies start fl" "12 \<le> order" "order \<le> 28"
    "fits start endp order addr" "blk order addr \<inter> free_bytes_of fl = {}"
    "coalesce start addr order fl = (addr', order', fl')"
  shows "lists_ok start endp fl' \<and> no_buddies start fl' \<and> order \<le> order' \<and> order' \<le> 28
    \<and> fits start endp order' addr' \<and> blk order' addr' \<inter> free_bytes_of fl' = {}
    \<and> blk order' addr' \<union> free_bytes_of fl' = blk order addr \<union> free_bytes_of fl
    \<and> (order' < 28 \<longrightarrow> buddy_of start addr' order' \<notin> set (fl' ! (order' - 12)))"
  using assms
proof (induction "28 - order" arbitrary: addr order fl)
  case 0
  then have "\<not> order < 28" by simp
  then have "coalesce start addr order fl = (addr, order, fl)"
    by (intro coalesce_stop) simp
  then have "addr' = addr" "order' = order" "fl' = fl" using "0.prems"(7) by simp_all
  then show ?case using "0.prems"(1-6) "0.hyps" by simp
next
  case (Suc d)
  note prems = Suc.prems
  let ?i = "order - 12" and ?b = "buddy_of start addr order"
  show ?case
  proof (cases "order < 28 \<and> ?b \<in> set (fl ! ?i)")
    case False
    then have "coalesce start addr order fl = (addr, order, fl)"
      by (rule coalesce_stop)
    then have "addr' = addr" "order' = order" "fl' = fl" using prems(7) by simp_all
    then show ?thesis using prems(1-6) False by blast
  next
    case True
    define m where "m = (if ?b < addr then ?b else addr)"
    define fl1 where "fl1 = fl[?i := remove1 ?b (fl ! ?i)]"
    have eq: "coalesce start addr order fl = coalesce start m (order + 1) fl1"
      using True unfolding m_def fl1_def by (intro coalesce_merge) simp_all
    have "length fl = 17" using prems(1) by (simp add: lists_ok_def)
    moreover have "?i < 17" using True by arith
    ultimately have bm: "(?i, ?b) \<in> blocks fl" using True by (simp add: blocks_def)
    note rem = lists_ok_remove [OF prems(1) bm, folded fl1_def]
    have i12: "?i + 12 = order" using prems(3) by simp
    have "fits start endp (?i + 12) ?b" using prems(1) bm by (auto simp: lists_ok_def)
    then have fb: "fits start endp order ?b" using i12 by simp
    note fm = fits_merge [OF prems(5) fb, folded m_def]
    have sub: "blk order ?b \<subseteq> free_bytes_of fl" using block_in_free_bytes [OF bm] i12 by simp
    have fb1: "free_bytes_of fl1 = free_bytes_of fl - blk order ?b" using rem(2) i12 by simp
    have disj: "blk (order + 1) m \<inter> free_bytes_of fl1 = {}"
      using fm(2) fb1 prems(6) by auto
    have un: "blk (order + 1) m \<union> free_bytes_of fl1 = blk order addr \<union> free_bytes_of fl"
      using fm(2) fb1 sub by auto
    have nb: "no_buddies start fl1" unfolding fl1_def by (rule no_buddies_remove [OF prems(2)])
    have r: "d = 28 - (order + 1)" "12 \<le> order + 1" "order + 1 \<le> 28"
      using Suc.hyps(2) prems(3) True by auto
    have fm1: "fits start endp (order + 1) m" using fm(1) by simp
    have c: "coalesce start m (order + 1) fl1 = (addr', order', fl')" using prems(7) eq by simp
    note Suc.hyps(1) [OF r(1) rem(1) nb r(2,3) fm1 disj c]
    then show ?thesis unfolding un by (meson add_leD1)
  qed
qed

lemma buddy_free_order_ok:
  assumes inv: "buddy_inv b" and ord: "k \<le> 28"
    and fits: "fits (start_addr b) (end_addr b) (max 12 k) p"
    and disj: "blk (max 12 k) p \<inter> buddy_free_bytes b = {}"
  shows "buddy_inv (buddy_free_order p k b)"
    "buddy_free_bytes (buddy_free_order p k b) = buddy_free_bytes b \<union> blk (max 12 k) p"
    "start_addr (buddy_free_order p k b) = start_addr b"
    "end_addr (buddy_free_order p k b) = end_addr b"
proof -
  let ?fl = "free_lists b" and ?s = "start_addr b" and ?e = "end_addr b" and ?k = "max 12 k"
  obtain a ord fl where c: "coalesce ?s p ?k ?fl = (a, ord, fl)" by (metis prod_cases3)
  have k: "12 \<le> ?k" "?k \<le> 28" using ord by simp_all
  have inv': "lists_ok ?s ?e ?fl" "no_buddies ?s ?fl" "0 < unat ?s"
    using inv by (simp_all add: buddy_inv_def)
  have sp: "lists_ok ?s ?e fl" "no_buddies ?s fl" "?k \<le> ord" "ord \<le> 28" "fits ?s ?e ord a"
    "blk ord a \<inter> free_bytes_of fl = {}"
    "blk ord a \<union> free_bytes_of fl = blk ?k p \<union> free_bytes_of ?fl"
    "ord < 28 \<longrightarrow> buddy_of ?s a ord \<notin> set (fl ! (ord - 12))"
    using coalesce_spec [OF inv'(1,2) k fits disj [unfolded buddy_free_bytes_def] c] by simp_all
  define i where "i = ord - 12"
  have i: "i < 17" "i + 12 = ord" using sp(3,4) by (simp_all add: i_def)
  have "max 12 k = (if k < 12 then 12 else k)" by simp
  then have eq: "buddy_free_order p k b = b\<lparr>free_lists := fl[i := a # fl ! i]\<rparr>"
    using c i by (simp add: buddy_free_order_def i_def Let_def)
  have len: "i < length fl" using sp(1) i by (simp add: lists_ok_def)
  have "lists_ok ?s ?e (fl[i := a # fl ! i])"
    using lists_ok_cons [OF sp(1) i(1)] sp(5,6) i(2) by simp
  moreover have "no_buddies ?s (fl[i := a # fl ! i])"
    using sp(8) i by (intro no_buddies_cons [OF sp(2)]) auto
  ultimately show "buddy_inv (buddy_free_order p k b)" using inv'(3) by (simp add: eq buddy_inv_def)
  show "buddy_free_bytes (buddy_free_order p k b) = buddy_free_bytes b \<union> blk ?k p"
    using free_bytes_cons [OF len, of a] sp(7) i(2) by (auto simp: eq buddy_free_bytes_def)
  show "start_addr (buddy_free_order p k b) = ?s" "end_addr (buddy_free_order p k b) = ?e"
    by (simp_all add: eq)
qed

subsection \<open>Initialisation\<close>

text \<open>
  The loop invariant of \<open>buddy_init\<close>: the blocks so far tile \<open>[start, current)\<close>,
  the offset of \<open>current\<close> is a multiple of \<open>2^m\<close> and every list below the top one
  that is in use holds blocks larger than what is left.
\<close>

definition init_inv :: "u32 \<Rightarrow> u32 \<Rightarrow> u32 \<Rightarrow> nat \<Rightarrow> u32 list list \<Rightarrow> bool" where
  "init_inv start endp cur m fl \<longleftrightarrow> lists_ok start endp fl \<and> no_buddies start fl
     \<and> unat start \<le> unat cur \<and> unat cur \<le> unat endp
     \<and> free_bytes_of fl = {unat start ..< unat cur}
     \<and> m \<le> 28 \<and> 2 ^ m dvd unat cur - unat start \<and> (m = 28 \<or> unat endp - unat cur < 2 ^ m)
     \<and> (\<forall>i < 16. fl ! i \<noteq> [] \<longrightarrow> unat endp - unat cur < 2 ^ (i + 12))"

lemma init_inv_step:
  assumes inv: "init_inv start endp cur m fl" and k: "12 \<le> k" "k \<le> 28"
    "2 ^ k \<le> unat endp - unat cur" "k = 28 \<or> unat endp - unat cur < 2 ^ Suc k"
  defines "cur' \<equiv> cur + push_bit k 1"
  shows "init_inv start endp cur' k (fl[k - 12 := cur # fl ! (k - 12)])"
    and "unat cur' = unat cur + 2 ^ k"
proof -
  let ?fl = "fl[k - 12 := cur # fl ! (k - 12)]"
  have i: "lists_ok start endp fl" "no_buddies start fl" "unat start \<le> unat cur"
    "free_bytes_of fl = {unat start ..< unat cur}" "2 ^ m dvd unat cur - unat start"
    "m = 28 \<or> unat endp - unat cur < 2 ^ m" "unat cur \<le> unat endp"
    using inv by (simp_all add: init_inv_def)
  have below: "unat endp - unat cur < 2 ^ (j + 12)" if "j < 16" "fl ! j \<noteq> []" for j
    using inv that by (simp add: init_inv_def)
  have k12: "k - 12 + 12 = k" "k - 12 < 17" using k(1,2) by auto
  show c: "unat cur' = unat cur + 2 ^ k"
    unfolding cur'_def using k unat_u32_bound [of endp] unat_exp_u32 [of k]
    by (subst unat_add_small) (auto simp: push_bit_eq_mult)
  have "k \<le> m"
  proof (cases "m = 28")
    case False
    then have "(2 :: nat) ^ k < 2 ^ m" using i(6) k(3) by linarith
    then show ?thesis by simp
  qed (use k(2) in simp)
  then have dvd: "2 ^ k dvd unat cur - unat start"
    using i(5) le_imp_power_dvd dvd_trans by blast
  have fits: "fits start endp k cur" using i(3,7) k(3) dvd by (simp add: fits_def)
  have "blk k cur \<inter> free_bytes_of fl = {}" unfolding i(4) blk_def by auto
  then have ok: "lists_ok start endp ?fl"
    using lists_ok_cons [OF i(1) k12(2)] fits k12(1) by simp
  have "fl ! (k - 12) = []" if "k - 12 < 16" using below [OF that] k(3) k12(1) by force
  then have nb: "no_buddies start ?fl" by (intro no_buddies_cons [OF i(2)]) simp
  have len: "k - 12 < length fl" using i(1) k12(2) by (simp add: lists_ok_def)
  have "free_bytes_of ?fl = {unat start ..< unat cur'}"
    unfolding free_bytes_cons [OF len] i(4) k12(1) blk_def c using i(3) by auto
  moreover have "2 ^ k dvd unat cur' - unat start"
  proof -
    have "unat cur' - unat start = (unat cur - unat start) + 2 ^ k" using c i(3) by simp
    then show ?thesis using dvd by simp
  qed
  moreover have left: "k = 28 \<or> unat endp - unat cur' < 2 ^ k" using k(3,4) c by auto
  moreover have "unat endp - unat cur' < 2 ^ (j + 12)" if j: "j < 16" "?fl ! j \<noteq> []" for j
  proof (cases "j = k - 12")
    case True
    then show ?thesis using left j(1) k12 by auto
  next
    case False
    then show ?thesis using below [OF j(1)] j(2) c by simp
  qed
  ultimately show "init_inv start endp cur' k ?fl"
    using ok nb c i(3) k(2,3) i(7) unfolding init_inv_def by simp
qed

lemma buddy_init_loop_spec:
  assumes "init_inv start endp cur m fl" "unat endp - unat cur < 2 ^ 31"
  shows "\<exists>fl' c m'. buddy_init_loop endp cur fl = Some fl' \<and> init_inv start endp c m' fl'
    \<and> unat endp - unat c < 4096"
  using assms
proof (induction "unat endp - unat cur" arbitrary: cur m fl rule: less_induct)
  case less
  have cur: "unat cur \<le> unat endp" using less.prems(1) by (simp add: init_inv_def)
  show ?case
  proof (cases "cur < endp")
    case False
    then have "buddy_init_loop endp cur fl = Some fl" by (simp add: buddy_init_loop.simps)
    moreover have "unat endp - unat cur < 4096" using False by (simp add: word_less_nat_alt)
    ultimately show ?thesis using less.prems(1) by blast
  next
    case True
    have n: "unat (endp - cur) = unat endp - unat cur" by (rule unat_sub_small [OF cur])
    have "0 < unat (endp - cur)" using True n by (simp add: word_less_nat_alt)
    then obtain g where g: "get_order_floor (endp - cur) = Some g" "2 ^ g \<le> unat endp - unat cur"
        "unat endp - unat cur < 2 ^ Suc g"
      using get_order_floor_Some [of "endp - cur"] less.prems(2) n by auto
    show ?thesis
    proof (cases "g < 12")
      case True
      then have "buddy_init_loop endp cur fl = Some fl"
        using g(1) by (simp add: buddy_init_loop.simps)
      moreover have "(2 :: nat) ^ Suc g \<le> 2 ^ 12" using True by (intro power_increasing) simp_all
      ultimately show ?thesis using less.prems(1) g(3) by fastforce
    next
      case False
      define k where "k = min 28 g"
      have "(2 :: nat) ^ k \<le> 2 ^ g" by (intro power_increasing) (simp_all add: k_def)
      then have k: "12 \<le> k" "k \<le> 28" "2 ^ k \<le> unat endp - unat cur"
          "k = 28 \<or> unat endp - unat cur < 2 ^ Suc k"
        using False g(2,3) le_trans [OF \<open>2 ^ k \<le> 2 ^ g\<close> g(2)] by (auto simp: k_def min_def)
      note st = init_inv_step [OF less.prems(1) k]
      have "(0 :: nat) < 2 ^ k" by simp
      then have dec: "unat endp - unat (cur + push_bit k 1) < unat endp - unat cur"
        using st(2) k(3) by linarith
      have km: "(if 28 < g then 28 else g) = k" by (simp add: k_def)
      have "k - 12 < 17" using k(2) by arith
      then have "buddy_init_loop endp cur fl =
          buddy_init_loop endp (cur + push_bit k 1) (fl[k - 12 := cur # fl ! (k - 12)])"
        using g(1) k(1) \<open>cur < endp\<close> unfolding buddy_init_loop.simps [of endp cur]
        by (simp only: km if_True bind.bind_lunit Let_def) simp
      then show ?thesis using less.hyps [OF dec st(1)] dec less.prems(2) by simp
    qed
  qed
qed

lemma buddy_init_ok:
  assumes "0 < unat start" "unat start \<le> unat endp" "unat endp - unat start < 2 ^ 31"
  shows "\<exists>b c. buddy_init start endp = Some b \<and> buddy_inv b \<and> start_addr b = start
    \<and> end_addr b = endp \<and> buddy_free_bytes b = {unat start ..< c} \<and> c \<le> unat endp
    \<and> unat endp < c + 4096"
proof -
  let ?fl = "replicate 17 [] :: u32 list list"
  have "blocks ?fl = {}" by (auto simp: blocks_def)
  then have "init_inv start endp start 28 ?fl"
    using assms(2) by (simp add: init_inv_def lists_ok_def no_buddies_def free_bytes_of_def)
  from buddy_init_loop_spec [OF this assms(3)] obtain fl c m
    where "buddy_init_loop endp start ?fl = Some fl" "init_inv start endp c m fl"
      "unat endp - unat c < 4096" by blast
  then show ?thesis
    using assms(1) by (intro exI [of _ "\<lparr>start_addr = start, end_addr = endp, free_lists = fl\<rparr>"]
        exI [of _ "unat c"])
      (simp add: buddy_init_def init_inv_def buddy_inv_def buddy_free_bytes_def)
qed

subsection \<open>The contract, and the properties\<close>

text \<open>
  The block a pool hands out for a request: of the request's order, at least 4096 bytes.
\<close>

definition buddy_granted :: "buddy \<Rightarrow> u32 \<Rightarrow> u32 \<Rightarrow> nat set" where
  "buddy_granted b sz p = (case get_order sz of
     None \<Rightarrow> {}
   | Some k \<Rightarrow> if fits (start_addr b) (end_addr b) (max 12 k) p then blk (max 12 k) p else {})"

lemma buddy_alloc_ok:
  assumes inv: "buddy_inv b" and res: "buddy_alloc sz b = Some (p, b')" and p: "p \<noteq> 0"
  shows "buddy_inv b'" "buddy_granted b sz p \<subseteq> buddy_free_bytes b"
    "buddy_free_bytes b' = buddy_free_bytes b - buddy_granted b sz p"
    "{unat p ..< unat p + unat sz} \<subseteq> buddy_granted b sz p"
    "start_addr b' = start_addr b" "end_addr b' = end_addr b" "unat sz \<le> 2 ^ 28"
    "buddy_granted b sz p \<noteq> {}"
proof -
  obtain k where k: "get_order sz = Some k" and r: "buddy_alloc_order k b = (p, b')"
    using res by (auto simp: buddy_alloc_def)
  have sz: "unat sz \<le> 2 ^ k" using k by (simp add: get_order_iff is_order_def)
  have m: "k - 12 + 12 = max 12 k" by simp
  obtain i where some: "k - 12 \<le> i" "i < 17" "free_lists b ! i \<noteq> []"
      "\<forall>j. k - 12 \<le> j \<and> j < i \<longrightarrow> free_lists b ! j = []"
    using r p by (cases k b rule: buddy_alloc_order_cases) auto
  note ok = buddy_alloc_order_ok [OF inv some r, unfolded m]
  have g: "buddy_granted b sz p = blk (max 12 k) p" using ok(2) k by (simp add: buddy_granted_def)
  show "buddy_inv b'" "start_addr b' = start_addr b" "end_addr b' = end_addr b" by (rule ok)+
  show "buddy_granted b sz p \<subseteq> buddy_free_bytes b"
    "buddy_free_bytes b' = buddy_free_bytes b - buddy_granted b sz p" unfolding g by (rule ok)+
  have "k \<le> 28" using some(1,2) by arith
  then have "(2 :: nat) ^ k \<le> 2 ^ 28" by (intro power_increasing) simp_all
  then show "unat sz \<le> 2 ^ 28" using sz by (rule order_trans [rotated])
  have "(2 :: nat) ^ k \<le> 2 ^ max 12 k" by (intro power_increasing) simp_all
  then show "{unat p ..< unat p + unat sz} \<subseteq> buddy_granted b sz p"
    using order_trans [OF sz] unfolding g blk_def by auto
  show "buddy_granted b sz p \<noteq> {}" unfolding g by simp
qed

lemma buddy_alloc_null:
  assumes "buddy_inv b" "buddy_alloc sz b = Some (0, b')"
  shows "b' = b"
proof -
  obtain k where r: "buddy_alloc_order k b = (0, b')" using assms(2) by (auto simp: buddy_alloc_def)
  show ?thesis
  proof (cases k b rule: buddy_alloc_order_cases)
    case none
    then show ?thesis using r by simp
  next
    case (some i)
    then show ?thesis using buddy_alloc_order_ok(7) [OF assms(1) some r] by simp
  qed
qed

lemma buddy_granted_ends:
  "start_addr b' = start_addr b \<Longrightarrow> end_addr b' = end_addr b \<Longrightarrow>
   buddy_granted b' m q = buddy_granted b m q"
  unfolding buddy_granted_def by metis

lemma buddy_free_granted:
  assumes "buddy_inv b" "unat sz \<le> 2 ^ 28" "buddy_granted b sz p \<noteq> {}"
    "buddy_free_bytes b \<inter> buddy_granted b sz p = {}" "p \<noteq> 0"
  shows "\<exists>b'. buddy_free p sz b = Some b' \<and> buddy_inv b'
    \<and> buddy_free_bytes b' = buddy_free_bytes b \<union> buddy_granted b sz p
    \<and> start_addr b' = start_addr b \<and> end_addr b' = end_addr b"
proof -
  obtain k where k: "get_order sz = Some k" "k \<le> 31" "is_order (unat sz) k"
    using get_order_Some [of sz] assms(2) by auto
  have ord: "k \<le> 28" by (rule is_order_le [OF k(3) assms(2)])
  have fits: "fits (start_addr b) (end_addr b) (max 12 k) p"
    and g: "buddy_granted b sz p = blk (max 12 k) p"
    using assms(3) k(1) by (auto simp: buddy_granted_def split: if_splits)
  have disj: "blk (max 12 k) p \<inter> buddy_free_bytes b = {}" using assms(4) unfolding g by blast
  show ?thesis
    using buddy_free_order_ok [OF assms(1) ord fits disj] k(1) assms(5)
    by (simp add: buddy_free_def g)
qed

interpretation bu: block_allocator buddy_inv buddy_free_bytes buddy_granted buddy_alloc buddy_free
proof unfold_locales
  fix b n p b'
  assume a: "buddy_inv b" "buddy_alloc n b = Some (p, b')" "p \<noteq> 0"
  show "buddy_inv b' \<and> buddy_granted b n p \<subseteq> buddy_free_bytes b
    \<and> buddy_free_bytes b' = buddy_free_bytes b - buddy_granted b n p
    \<and> {unat p ..< unat p + unat n} \<subseteq> buddy_granted b n p"
    using buddy_alloc_ok(1-4) [OF a] by blast
next
  fix b n p b' m q
  assume a: "buddy_inv b" "buddy_alloc n b = Some (p, b')"
  show "buddy_granted b' m q = buddy_granted b m q"
  proof (cases "p = 0")
    case True
    then show ?thesis using buddy_alloc_null a by blast
  next
    case False
    show ?thesis by (rule buddy_granted_ends [OF buddy_alloc_ok(5,6) [OF a False]])
  qed
next
  fix b n b'
  assume "buddy_inv b" "buddy_alloc n b = Some (0, b')"
  then show "b' = b" by (rule buddy_alloc_null)
next
  fix b n p b' t
  assume a: "buddy_inv b" "buddy_alloc n b = Some (p, b')" "p \<noteq> 0"
    and t: "buddy_inv t" "buddy_granted t n p = buddy_granted b n p"
      "buddy_free_bytes t \<inter> buddy_granted b n p = {}"
  note ok = buddy_alloc_ok [OF a]
  have "buddy_granted t n p \<noteq> {}" using ok(8) t(2) by simp
  from buddy_free_granted [OF t(1) ok(7) this _ a(3)] t(2,3)
  obtain t' where t': "buddy_free p n t = Some t'" "buddy_inv t'"
      "buddy_free_bytes t' = buddy_free_bytes t \<union> buddy_granted b n p"
      "start_addr t' = start_addr t" "end_addr t' = end_addr t" by auto
  have "\<forall>m q. buddy_granted t' m q = buddy_granted t m q"
    using buddy_granted_ends [OF t'(4,5)] by blast
  then show "\<exists>t'. buddy_free p n t = Some t' \<and> buddy_inv t'
      \<and> buddy_free_bytes t' = buddy_free_bytes t \<union> buddy_granted b n p
      \<and> (\<forall>m q. buddy_granted t' m q = buddy_granted t m q)"
    using t'(1-3) by blast
qed

definition demo_buddy :: buddy where
  "demo_buddy = \<lparr>start_addr = 0x400000, end_addr = 0x405000,
     free_lists = [[0x404000], [], [0x400000]] @ replicate 14 []\<rparr>"

lemma demo_buddy_init: "buddy_init 0x400000 0x405000 = Some demo_buddy"
  by code_simp

lemma demo_buddy_inv: "buddy_inv demo_buddy"
  using buddy_init_ok [of "0x400000" "0x405000"] demo_buddy_init by auto

text \<open>
  \<open>buddy_alloc\<close> on a well-formed pool: for every size up to \<open>2^28\<close> it
  returns, and the result is null exactly when no free block is large enough; otherwise the
  bytes \<open>[p, p + size)\<close> were free, they are no longer free, at least 4096 bytes were
  taken, nothing else changed hands, and the pool is well formed (disjoint aligned blocks on the
  right lists, no two free buddies).
\<close>

theorem buddy_alloc_correct:
  assumes "buddy_inv b" "unat sz \<le> 2 ^ 28"
  shows "\<exists>p b'. buddy_alloc sz b = Some (p, b') \<and> buddy_inv b'
    \<and> (p = 0 \<longleftrightarrow> (\<forall>(i, a) \<in> blocks (free_lists b). 2 ^ (i + 12) < unat sz))
    \<and> (p = 0 \<longrightarrow> b' = b)
    \<and> (p \<noteq> 0 \<longrightarrow> (\<exists>m \<ge> 12. unat sz \<le> 2 ^ m \<and> blk m p \<subseteq> buddy_free_bytes b
          \<and> buddy_free_bytes b' = buddy_free_bytes b - blk m p))"
proof -
  obtain k where k: "get_order sz = Some k" "is_order (unat sz) k"
    using get_order_Some [of sz] assms(2) by auto
  obtain p b' where r: "buddy_alloc_order k b = (p, b')" by fastforce
  have a: "buddy_alloc sz b = Some (p, b')" using k(1) r by (simp add: buddy_alloc_def)
  have len: "length (free_lists b) = 17" using assms(1) by (simp add: buddy_inv_def lists_ok_def)
  have sz: "unat sz \<le> 2 ^ max 12 k"
    using k(2) order_trans [of "unat sz" "2 ^ k" "2 ^ max 12 k"] by (simp add: is_order_def)
  have le: "k \<le> i + 12 \<longleftrightarrow> unat sz \<le> 2 ^ (i + 12)" for i
    using is_order_le [OF k(2), of "i + 12"] k(2) order_trans [of "unat sz" "2 ^ k" "2 ^ (i + 12)"]
    by (auto simp: is_order_def)
  have ex: "(\<exists>i. k - 12 \<le> i \<and> i < 17 \<and> free_lists b ! i \<noteq> []) \<longleftrightarrow>
      (\<exists>(i, a) \<in> blocks (free_lists b). \<not> 2 ^ (i + 12) < unat sz)"
    using le len by (fastforce simp: blocks_def neq_Nil_conv le_diff_conv not_less)
  show ?thesis
  proof (cases k b rule: buddy_alloc_order_cases)
    case none
    then have "p = 0" "b' = b" using r by simp_all
    moreover have "\<forall>(i, a) \<in> blocks (free_lists b). 2 ^ (i + 12) < unat sz" using none(1) ex by auto
    ultimately show ?thesis using a assms(1) by blast
  next
    case (some i)
    note ok = buddy_alloc_order_ok [OF assms(1) some r]
    have m: "k - 12 + 12 = max 12 k" by simp
    have "\<not> (\<forall>(i, a) \<in> blocks (free_lists b). 2 ^ (i + 12) < unat sz)"
      using ex some(1-3) by blast
    then show ?thesis using a ok(1,3,4,7) sz unfolding m by fastforce
  qed
qed

theorem buddy_alloc_correct_witness:
  "buddy_alloc 5000 demo_buddy = Some (0x400000, demo_buddy\<lparr>free_lists :=
      [[0x404000], [0x402000], []] @ replicate 14 []\<rparr>)
   \<and> (\<exists>p b'. buddy_alloc 5000 demo_buddy = Some (p, b') \<and> buddy_inv b')"
proof
  show "\<exists>p b'. buddy_alloc 5000 demo_buddy = Some (p, b') \<and> buddy_inv b'"
    using buddy_alloc_correct [OF demo_buddy_inv, of 5000] by auto
qed code_simp

text \<open>
  Freeing a block returns its bytes: if \<open>buddy_alloc\<close> handed out \<open>p\<close> for a
  size, \<open>buddy_free\<close> of the same address and size, at once, returns and gives the pool the
  set of free bytes it had before (merging restores a well-formed pool, whatever the split did).
\<close>

theorem buddy_alloc_free_roundtrip:
  assumes "buddy_inv b" "buddy_alloc sz b = Some (p, b')" "p \<noteq> 0"
  shows "\<exists>b''. buddy_free p sz b' = Some b'' \<and> buddy_inv b''
    \<and> buddy_free_bytes b'' = buddy_free_bytes b"
  by (rule bu.alloc_release_bytes [OF assms])

theorem buddy_alloc_free_roundtrip_witness:
  "\<exists>p b' b''. buddy_alloc 5000 demo_buddy = Some (p, b') \<and> buddy_free p 5000 b' = Some b''
     \<and> buddy_free_bytes b'' = buddy_free_bytes demo_buddy"
proof -
  have "buddy_alloc 5000 demo_buddy = Some (0x400000, demo_buddy\<lparr>free_lists :=
      [[0x404000], [0x402000], []] @ replicate 14 []\<rparr>)" by code_simp
  from buddy_alloc_free_roundtrip [OF demo_buddy_inv this] this show ?thesis by auto
qed

text \<open>
  C3. \<open>buddy_free\<close> of any block that fits the pool and overlaps no free byte: the free
  bytes grow by exactly that block, the pool stays well formed, and the coalescing is complete:
  afterwards no free block below the largest order has its buddy on the same list.
\<close>

theorem buddy_free_coalesces:
  assumes "buddy_inv b" "unat sz \<le> 2 ^ m" "12 \<le> m" "m \<le> 28" "m = 12 \<or> 2 ^ (m - 1) < unat sz"
    "fits (start_addr b) (end_addr b) m p" "blk m p \<inter> buddy_free_bytes b = {}"
  shows "\<exists>b'. buddy_free p sz b = Some b' \<and> buddy_inv b'
    \<and> buddy_free_bytes b' = buddy_free_bytes b \<union> blk m p
    \<and> (\<forall>i < 16. \<forall>a \<in> set (free_lists b' ! i).
          buddy_of (start_addr b') a (i + 12) \<notin> set (free_lists b' ! i))"
proof -
  have "(2 :: nat) ^ m \<le> 2 ^ 28" using assms(4) by (intro power_increasing) simp_all
  then have sz: "unat sz \<le> 2 ^ 28" using assms(2) by (rule order_trans [rotated])
  obtain k where k: "get_order sz = Some k" "is_order (unat sz) k"
    using get_order_Some [of sz] sz by auto
  have "m \<le> max 12 k"
  proof (cases "m = 12")
    case False
    have "\<not> k \<le> m - 1"
    proof
      assume "k \<le> m - 1"
      then have "(2 :: nat) ^ k \<le> 2 ^ (m - 1)" by (intro power_increasing) simp_all
      then have "unat sz \<le> 2 ^ (m - 1)" using k(2) unfolding is_order_def by (meson order_trans)
      then show False using assms(5) False by simp
    qed
    then show ?thesis by simp
  qed simp
  moreover have "k \<le> m" by (rule is_order_le [OF k(2) assms(2)])
  ultimately have m: "max 12 k = m" using assms(3) by simp
  have g: "buddy_granted b sz p = blk m p" using k(1) assms(6) m by (simp add: buddy_granted_def)
  have "0 < unat p" using assms(1,6) by (simp add: buddy_inv_def fits_def)
  then have "p \<noteq> 0" by auto
  from buddy_free_granted [OF assms(1) sz _ _ this] assms(7)
  obtain b' where b': "buddy_free p sz b = Some b'" "buddy_inv b'"
      "buddy_free_bytes b' = buddy_free_bytes b \<union> blk m p" by (auto simp: g Int_commute)
  then have "length (free_lists b') = 17" "no_buddies (start_addr b') (free_lists b')"
    by (simp_all add: buddy_inv_def lists_ok_def)
  then show ?thesis using b' by (auto simp: no_buddies_nth)
qed

theorem buddy_free_coalesces_witness:
  "let b = \<lparr>start_addr = 0x400000, end_addr = 0x401000, free_lists = replicate 17 []\<rparr> in
   \<exists>b'. buddy_free 0x400000 100 b = Some b' \<and> buddy_inv b' \<and> buddy_free_bytes b' = blk 12 0x400000"
proof -
  let ?b = "\<lparr>start_addr = 0x400000, end_addr = 0x401000, free_lists = replicate 17 []\<rparr>"
  have none: "blocks (replicate 17 []) = {}" by (auto simp: blocks_def)
  then have inv: "buddy_inv ?b" by (simp add: buddy_inv_def lists_ok_def no_buddies_def)
  have "buddy_free_bytes ?b = {}" using none by (simp add: buddy_free_bytes_def free_bytes_of_def)
  then show ?thesis
    using buddy_free_coalesces [OF inv, of 100 12 "0x400000"] by (auto simp: fits_def)
qed

text \<open>
  \<open>buddy_init\<close> over a range below 2 GB returns a well-formed pool whose free bytes
  are one prefix of the range, all of it but a tail of less than a page.
\<close>

theorem buddy_init_covers:
  assumes "0 < unat start" "unat start \<le> unat endp" "unat endp - unat start < 2 ^ 31"
  shows "\<exists>b c. buddy_init start endp = Some b \<and> buddy_inv b
    \<and> buddy_free_bytes b = {unat start ..< c} \<and> c \<le> unat endp \<and> unat endp < c + 4096"
  using buddy_init_ok [OF assms] by blast

theorem buddy_init_covers_witness:
  "\<exists>b c. buddy_init 0x400000 0x405123 = Some b \<and> buddy_free_bytes b = {0x400000 ..< c}
     \<and> c \<le> 0x405123 \<and> 0x404123 < c"
  using buddy_init_covers [of "0x400000" "0x405123"] by auto

text \<open>
  Termination: \<open>buddy_alloc\<close> returns exactly for sizes up to \<open>2^31\<close>; for a
  larger 32-bit size the doubling in \<open>get_order\<close> wraps to 0 and the call never returns.
\<close>

theorem buddy_alloc_returns_iff: "buddy_alloc sz b \<noteq> None \<longleftrightarrow> unat sz \<le> 2 ^ 31"
proof (cases "unat sz \<le> 2 ^ 31")
  case True
  then show ?thesis using get_order_Some [OF True] by (auto simp: buddy_alloc_def)
next
  case False
  then have "get_order sz \<noteq> Some k" for k by (simp add: get_order_iff)
  then show ?thesis using False by (auto simp: buddy_alloc_def)
qed
end
