(* ===== verification/Slab.thy ===== *)
theory Slab
  imports Prelude
begin

text \<open>
  The slab allocator for small objects, \<open>src/kernel/slab.cpp\<close>. A slab is a page with a
  24-byte header; its objects follow, and a free object holds in its first word the index of the
  next free one (\<open>0xFFFFFFFF\<close> ends the chain). A slab is modelled by its header fields
  and the first word of every object. The chain of the slabs of a cache (the \<open>next\<close> pointers)
  is the list of their addresses; \<open>prev\<close> is written by the code and never read. Pages come
  from a parameter, which the kernel heap instantiates with \<open>kmalloc_real(4096, 1, ...)\<close>.
  \<open>None\<close> stands for an access outside the objects of a slab.
\<close>

subsection \<open>State\<close>

abbreviation SLAB_MAGIC :: u32 where "SLAB_MAGIC \<equiv> 0x51AB51AB"

abbreviation HDR :: nat where "HDR \<equiv> 24"

record slab_header =
  magic :: u32
  cache :: nat
  free_objects :: u32
  first_free :: u32
  objs :: "u32 list"

record slab_cache =
  object_size :: u32
  first_slab :: "u32 list"

record slab_state =
  slab_caches :: "slab_cache list"
  pages :: "u32 \<rightharpoonup> slab_header"

subsection \<open>Operations\<close>

definition get_slab_index :: "u32 \<Rightarrow> nat option" where
  "get_slab_index sz =
     (if sz \<le> 32 then Some 0 else if sz \<le> 64 then Some 1 else if sz \<le> 128 then Some 2
      else if sz \<le> 256 then Some 3 else if sz \<le> 512 then Some 4 else if sz \<le> 1024 then Some 5
      else if sz \<le> 2048 then Some 6 else None)"

definition slab_sizes :: "u32 list" where
  "slab_sizes = [32, 64, 128, 256, 512, 1024, 2048]"

definition slab_init :: "slab_state \<Rightarrow> slab_state" where
  "slab_init s = s\<lparr>slab_caches := map (\<lambda>sz. \<lparr>object_size = sz, first_slab = []\<rparr>) slab_sizes\<rparr>"

text \<open>The new slab: a header and the chain \<open>0, 1, ..., max_objs - 1\<close> through the objects.\<close>

definition max_objs :: "u32 \<Rightarrow> nat" where
  "max_objs osz = unat ((4096 - of_nat HDR) div osz)"

definition slab_page :: "nat \<Rightarrow> u32 \<Rightarrow> slab_header" where
  "slab_page idx osz =
     \<lparr>magic = SLAB_MAGIC, cache = idx, free_objects = of_nat (max_objs osz), first_free = 0,
      objs = map (\<lambda>i. of_nat (i + 1)) [0 ..< max_objs osz - 1] @ [- 1]\<rparr>"

definition slab_create :: "nat \<Rightarrow> u32 \<Rightarrow> slab_state \<Rightarrow> slab_state" where
  "slab_create idx page s =
     (let c = slab_caches s ! idx
      in s\<lparr>slab_caches := (slab_caches s)[idx := c\<lparr>first_slab := page # first_slab c\<rparr>],
           pages := (pages s)(page \<mapsto> slab_page idx (object_size c))\<rparr>)"

definition obj_addr :: "u32 \<Rightarrow> u32 \<Rightarrow> u32 \<Rightarrow> u32" where
  "obj_addr slab osz i = (slab + of_nat HDR) + i * osz"

text \<open>Step 3 of \<open>slab_alloc\<close>: unlink the first free object and clear it.\<close>

definition slab_take :: "nat \<Rightarrow> u32 \<Rightarrow> slab_state \<Rightarrow> (u32 \<times> slab_state) option" where
  "slab_take idx slab s = (case pages s slab of
     None \<Rightarrow> None
   | Some h \<Rightarrow>
       let i = first_free h in
       if unat i < length (objs h) then
         Some (obj_addr slab (object_size (slab_caches s ! idx)) i,
               s\<lparr>pages := (pages s)(slab \<mapsto> h\<lparr>first_free := objs h ! unat i,
                     free_objects := free_objects h - 1, objs := (objs h)[unat i := 0]\<rparr>)\<rparr>)
       else None)"

definition has_free :: "slab_state \<Rightarrow> u32 \<Rightarrow> bool" where
  "has_free s slab = (case pages s slab of None \<Rightarrow> False | Some h \<Rightarrow> 0 < free_objects h)"

definition slab_alloc ::
  "('h \<Rightarrow> (u32 \<times> 'h) option) \<Rightarrow> u32 \<Rightarrow> slab_state \<Rightarrow> 'h \<Rightarrow> (u32 \<times> slab_state \<times> 'h) option" where
  "slab_alloc kmalloc_page sz s h = (case get_slab_index sz of
     None \<Rightarrow> Some (0, s, h)
   | Some idx \<Rightarrow>
       (case find (has_free s) (first_slab (slab_caches s ! idx)) of
          Some slab \<Rightarrow> map_option (\<lambda>(p, s'). (p, s', h)) (slab_take idx slab s)
        | None \<Rightarrow>
            Option.bind (kmalloc_page h) (\<lambda>(page, h').
              if page = 0 then Some (0, s, h')
              else map_option (\<lambda>(p, s'). (p, s', h')) (slab_take idx page (slab_create idx page s)))))"

text \<open>
  \<open>slab_free\<close>; \<open>mem\<close> is the rest of memory, where the word at the address of a slab
  header is looked at even when no slab is there.
\<close>

definition slab_free :: "(u32 \<Rightarrow> u32) \<Rightarrow> u32 \<Rightarrow> slab_state \<Rightarrow> (bool \<times> slab_state) option" where
  "slab_free mem ptr s =
     (if ptr = 0 then Some (False, s)
      else
        let slab = (ptr AND 0xFFFFF000) + 4 in
        case pages s slab of
          None \<Rightarrow> if mem slab \<noteq> SLAB_MAGIC then Some (False, s) else None
        | Some h \<Rightarrow>
            if magic h \<noteq> SLAB_MAGIC then Some (False, s)
            else
              let osz = object_size (slab_caches s ! cache h);
                  offset = ptr - (slab + of_nat HDR) in
              if offset mod osz \<noteq> 0 then Some (False, s)
              else
                let i = offset div osz in
                if unat i < length (objs h) then
                  Some (True, s\<lparr>pages := (pages s)(slab \<mapsto> h\<lparr>objs := (objs h)[unat i := first_free h],
                          first_free := i, free_objects := free_objects h + 1\<rparr>)\<rparr>)
                else None)"

subsection \<open>The free chain of a slab\<close>

fun chain :: "u32 list \<Rightarrow> u32 \<Rightarrow> nat list \<Rightarrow> bool" where
  "chain os w [] = (w = - 1)"
| "chain os w (i # is) = (w = of_nat i \<and> i < length os \<and> chain os (os ! i) is)"

text \<open>The free list a header describes: as many links as it counts free objects.\<close>

fun follow :: "u32 list \<Rightarrow> u32 \<Rightarrow> nat \<Rightarrow> nat list" where
  "follow os w 0 = []"
| "follow os w (Suc n) = unat w # follow os (os ! unat w) n"

definition free_list :: "slab_header \<Rightarrow> nat list" where
  "free_list h = follow (objs h) (first_free h) (unat (free_objects h))"

lemma chain_follow: "chain os w fs \<Longrightarrow> length os \<le> 127 \<Longrightarrow> follow os w (length fs) = fs"
  by (induction fs arbitrary: w) (auto simp: unat_of_nat_u32)

definition slab_ok :: "nat \<Rightarrow> slab_header \<Rightarrow> nat list \<Rightarrow> bool" where
  "slab_ok idx h fs \<longleftrightarrow> magic h = SLAB_MAGIC \<and> cache h = idx
     \<and> length (objs h) = max_objs (slab_sizes ! idx) \<and> chain (objs h) (first_free h) fs
     \<and> distinct fs \<and> unat (free_objects h) = length fs"

lemma idx7: "idx < 7 \<longleftrightarrow> idx \<in> {0, 1, 2, 3, 4, 5, 6 :: nat}"
  by auto

lemma slab_size_facts:
  assumes "idx < 7"
  shows "0 < max_objs (slab_sizes ! idx)" "max_objs (slab_sizes ! idx) \<le> 127"
    "32 \<le> unat (slab_sizes ! idx)" "unat (slab_sizes ! idx) \<le> 2048"
    "HDR + max_objs (slab_sizes ! idx) * unat (slab_sizes ! idx) \<le> 4096 - 4"
  using assms unfolding idx7 by (auto simp: slab_sizes_def max_objs_def unat_div)

lemma chain_update: "i \<notin> set is \<Longrightarrow> chain (os[i := x]) w is = chain os w is"
  by (induction "is" arbitrary: w) auto

lemma chain_less: "chain os w is \<Longrightarrow> i \<in> set is \<Longrightarrow> i < length os"
  by (induction "is" arbitrary: w) auto

lemma chain_init:
  "n \<le> k \<Longrightarrow> chain (map (\<lambda>i. of_nat (i + 1)) [0 ..< k] @ [- 1]) (of_nat n) [n ..< Suc k]"
proof (induction "k - n" arbitrary: n)
  case 0
  then show ?case by (simp add: nth_append)
next
  case (Suc d)
  then have "n < k" by simp
  then have "[n ..< Suc k] = n # [Suc n ..< Suc k]" by (simp add: upt_conv_Cons)
  moreover have "chain (map (\<lambda>i. of_nat (i + 1)) [0 ..< k] @ [- 1]) (of_nat (Suc n)) [Suc n ..< Suc k]"
    using Suc \<open>n < k\<close> by (intro Suc.hyps(1)) simp_all
  ultimately show ?case using \<open>n < k\<close> by (simp add: nth_append)
qed

lemma slab_page_ok:
  assumes "idx < 7"
  shows "slab_ok idx (slab_page idx (slab_sizes ! idx)) [0 ..< max_objs (slab_sizes ! idx)]"
proof -
  let ?m = "max_objs (slab_sizes ! idx)"
  have m: "Suc (?m - 1) = ?m" "?m \<le> 127" using slab_size_facts [OF assms] by simp_all
  have "chain (map (\<lambda>i. of_nat (i + 1)) [0 ..< ?m - 1] @ [- 1]) (of_nat 0) [0 ..< Suc (?m - 1)]"
    by (rule chain_init) simp
  then show ?thesis using m by (simp add: slab_ok_def slab_page_def unat_of_nat_u32)
qed

lemma slab_ok_free_list: "idx < 7 \<Longrightarrow> slab_ok idx h fs \<Longrightarrow> free_list h = fs"
  using chain_follow [of "objs h" "first_free h" fs] slab_size_facts(2) [of idx]
  by (simp add: slab_ok_def free_list_def)

lemma slab_ok_head:
  assumes "idx < 7" "slab_ok idx h fs" "0 < free_objects h"
  shows "\<exists>i is. fs = i # is \<and> first_free h = of_nat i \<and> i < length (objs h) \<and> i < 127
    \<and> slab_ok idx (h\<lparr>first_free := objs h ! i, free_objects := free_objects h - 1,
          objs := (objs h)[i := 0]\<rparr>) is"
proof -
  have "0 < unat (free_objects h)" using assms(3) by (simp add: word_less_nat_alt)
  moreover from this have "unat (free_objects h - 1) = unat (free_objects h) - 1"
    by (rule unat_pred_small)
  moreover obtain i "is" where "fs = i # is"
    using assms(2) calculation by (cases fs) (auto simp: slab_ok_def)
  ultimately show ?thesis
    using assms slab_size_facts(2) [of idx] by (auto simp: slab_ok_def chain_update)
qed

lemma slab_ok_push:
  assumes "idx < 7" "slab_ok idx h fs" "i < length (objs h)" "i \<notin> set fs"
  shows "slab_ok idx (h\<lparr>objs := (objs h)[i := first_free h], first_free := of_nat i,
          free_objects := free_objects h + 1\<rparr>) (i # fs)"
proof -
  have "length (i # fs) \<le> 127"
  proof -
    have "set (i # fs) \<subseteq> {..< length (objs h)}"
      using assms(2,3) chain_less [of "objs h" "first_free h" fs] by (auto simp: slab_ok_def)
    moreover have "distinct (i # fs)" using assms(2,4) by (simp add: slab_ok_def)
    ultimately have "length (i # fs) \<le> length (objs h)"
      by (metis card_lessThan card_mono distinct_card finite_lessThan)
    then show ?thesis using assms(1,2) slab_size_facts(2) [of idx] by (simp add: slab_ok_def)
  qed
  then have "unat (free_objects h + 1) = unat (free_objects h) + 1"
    using assms(2) by (intro unat_Suc_small) (simp add: slab_ok_def)
  then show ?thesis using assms by (simp add: slab_ok_def chain_update)
qed

subsection \<open>The invariant and the live objects\<close>

definition page_base :: "u32 \<Rightarrow> bool" where
  "page_base a \<longleftrightarrow> 4 \<le> unat a \<and> 4096 dvd unat a - 4"

definition slab_inv :: "slab_state \<Rightarrow> bool" where
  "slab_inv s \<longleftrightarrow> map object_size (slab_caches s) = slab_sizes
     \<and> (\<forall>idx < 7. distinct (first_slab (slab_caches s ! idx)))
     \<and> (\<forall>idx < 7. \<forall>a \<in> set (first_slab (slab_caches s ! idx)).
          \<exists>h. pages s a = Some h \<and> slab_ok idx h (free_list h))
     \<and> (\<forall>a h. pages s a = Some h \<longrightarrow> page_base a \<and> cache h < 7
          \<and> a \<in> set (first_slab (slab_caches s ! cache h)))"

text \<open>The objects in use: those of every slab that are not on its free list.\<close>

definition slab_of :: "u32 \<Rightarrow> u32" where
  "slab_of p = (p AND 0xFFFFF000) + 4"

definition slab_live :: "u32 \<Rightarrow> u32 \<Rightarrow> slab_header \<Rightarrow> u32 set" where
  "slab_live a osz h = (\<lambda>i. obj_addr a osz (of_nat i)) ` ({..< length (objs h)} - set (free_list h))"

definition class_size :: "slab_state \<Rightarrow> slab_header \<Rightarrow> u32" where
  "class_size s h = object_size (slab_caches s ! cache h)"

definition live :: "slab_state \<Rightarrow> u32 set" where
  "live s = (\<Union>(a, h) \<in> {(a, h). pages s a = Some h}. slab_live a (class_size s h) h)"

definition obj_bytes :: "slab_state \<Rightarrow> u32 \<Rightarrow> nat set" where
  "obj_bytes s p = (case pages s (slab_of p) of None \<Rightarrow> {}
     | Some h \<Rightarrow> {unat p ..< unat p + unat (class_size s h)})"

lemma slab_inv_page:
  assumes "slab_inv s" "pages s a = Some h"
  shows "page_base a" "cache h < 7" "slab_ok (cache h) h (free_list h)"
    "object_size (slab_caches s ! cache h) = slab_sizes ! cache h"
    "class_size s h = slab_sizes ! cache h"
    "length (objs h) = max_objs (slab_sizes ! cache h)"
proof -
  show "page_base a" and c: "cache h < 7" using assms unfolding slab_inv_def by blast+
  show "slab_ok (cache h) h (free_list h)" using assms unfolding slab_inv_def by fastforce
  have m: "map object_size (slab_caches s) = slab_sizes" using assms(1) by (simp add: slab_inv_def)
  have "length (map object_size (slab_caches s)) = 7" unfolding m by (simp add: slab_sizes_def)
  then have "length (slab_caches s) = 7" by simp
  then show "object_size (slab_caches s ! cache h) = slab_sizes ! cache h"
    using m c nth_map [of "cache h" "slab_caches s" object_size] by simp
  then show "class_size s h = slab_sizes ! cache h" by (simp add: class_size_def)
  show "length (objs h) = max_objs (slab_sizes ! cache h)"
    using \<open>slab_ok (cache h) h (free_list h)\<close> by (simp add: slab_ok_def)
qed

text \<open>Where the objects of a slab lie: inside its page, without overlap.\<close>

lemma obj_addr_unat:
  assumes "page_base a" "idx < 7" "i < max_objs (slab_sizes ! idx)"
  shows "unat (obj_addr a (slab_sizes ! idx) (of_nat i)) = unat a + HDR + i * unat (slab_sizes ! idx)"
    and "unat a + HDR + i * unat (slab_sizes ! idx) + unat (slab_sizes ! idx) \<le> unat a - 4 + 4096"
proof -
  note f = slab_size_facts [OF assms(2)]
  let ?z = "unat (slab_sizes ! idx)"
  have a: "4 \<le> unat a" "4096 dvd unat a - 4" using assms(1) by (simp_all add: page_base_def)
  have "unat a - 4 < 4096 * 1048576" using unat_u32_bound [of a] by simp
  then have "unat a - 4 + 4096 \<le> 4096 * 1048576" using a(2) by (auto elim!: dvdE)
  moreover have le: "i * ?z + ?z \<le> max_objs (slab_sizes ! idx) * ?z"
    using mult_le_mono1 [of "Suc i" "max_objs (slab_sizes ! idx)" ?z] assms(3) by simp
  moreover show b: "unat a + HDR + i * ?z + ?z \<le> unat a - 4 + 4096" using le f(5) a(1) by linarith
  ultimately have w: "unat a + HDR + i * ?z < 4294967296" using f(3) by linarith
  have i: "unat (of_nat i :: u32) = i" using assms(3) f(2) by (simp add: unat_of_nat_u32)
  have m: "unat (of_nat i * slab_sizes ! idx) = i * ?z"
    using w by (simp add: unat_word_ariths i)
  have "unat (a + of_nat HDR) = unat a + HDR" using w by (simp add: unat_word_ariths)
  then show "unat (obj_addr a (slab_sizes ! idx) (of_nat i)) = unat a + HDR + i * ?z"
    using w unfolding obj_addr_def by (subst unat_add_small) (simp_all add: m)
qed

lemma obj_addr_page:
  assumes "page_base a" "idx < 7" "i < max_objs (slab_sizes ! idx)"
  shows "(obj_addr a (slab_sizes ! idx) (of_nat i) AND 0xFFFFF000) + 4 = a"
    and "obj_addr a (slab_sizes ! idx) (of_nat i) \<noteq> 0"
proof -
  note o = obj_addr_unat [OF assms]
  have a: "4 \<le> unat a" "4096 dvd unat a - 4" using assms(1) by (simp_all add: page_base_def)
  have "unat (a - 4) = unat a - 4" using a(1) by (subst unat_sub_small) simp_all
  moreover have "0 < unat (slab_sizes ! idx)" using slab_size_facts(3) [OF assms(2)] by simp
  ultimately have b: "4096 dvd unat (a - 4)" "4 + HDR + i * unat (slab_sizes ! idx) < 4096"
    "unat (obj_addr a (slab_sizes ! idx) (of_nat i))
       = unat (a - 4) + (4 + HDR + i * unat (slab_sizes ! idx))"
    using o a by (simp, linarith, linarith)
  have "obj_addr a (slab_sizes ! idx) (of_nat i) AND 0xFFFFF000 = a - 4"
    by (rule page_mask_offset [OF b(1,3,2)])
  then show "(obj_addr a (slab_sizes ! idx) (of_nat i) AND 0xFFFFF000) + 4 = a" by simp
  show "obj_addr a (slab_sizes ! idx) (of_nat i) \<noteq> 0" using o(1) by auto
qed

lemma obj_addr_inj:
  assumes "page_base a" "idx < 7" "i < max_objs (slab_sizes ! idx)"
    "page_base b" "idx' < 7" "j < max_objs (slab_sizes ! idx')"
    "obj_addr a (slab_sizes ! idx) (of_nat i) = obj_addr b (slab_sizes ! idx') (of_nat j)"
  shows "a = b" and "idx = idx' \<Longrightarrow> i = j"
proof -
  show "a = b" using obj_addr_page(1) [OF assms(1-3)] obj_addr_page(1) [OF assms(4-6)] assms(7)
    by simp
  assume "idx = idx'"
  then have "i * unat (slab_sizes ! idx) = j * unat (slab_sizes ! idx)"
    using obj_addr_unat(1) [OF assms(1-3)] obj_addr_unat(1) [OF assms(4-6)] assms(7) \<open>a = b\<close>
    by (metis add_left_cancel)
  moreover have "unat (slab_sizes ! idx) \<noteq> 0" using slab_size_facts(3) [OF assms(2)] by simp
  ultimately show "i = j" by simp
qed

lemma slab_live_obj:
  assumes "slab_inv s" "pages s a = Some h" "p \<in> slab_live a (class_size s h) h"
  obtains i where "i < max_objs (slab_sizes ! cache h)" "i \<notin> set (free_list h)"
    "p = obj_addr a (slab_sizes ! cache h) (of_nat i)" "slab_of p = a" "p \<noteq> 0"
    "unat p = unat a + HDR + i * unat (slab_sizes ! cache h)"
proof -
  note f = slab_inv_page [OF assms(1,2)]
  from assms(3) obtain i where i: "i < max_objs (slab_sizes ! cache h)" "i \<notin> set (free_list h)"
      "p = obj_addr a (slab_sizes ! cache h) (of_nat i)"
    unfolding slab_live_def f(5,6) by auto
  show ?thesis
    by (rule that [OF i], unfold i(3) slab_of_def, rule obj_addr_page [OF f(1,2) i(1)],
      rule obj_addr_page [OF f(1,2) i(1)], rule obj_addr_unat [OF f(1,2) i(1)])
qed

lemma live_iff:
  assumes "slab_inv s"
  shows "p \<in> live s \<longleftrightarrow>
    (\<exists>h. pages s (slab_of p) = Some h \<and> p \<in> slab_live (slab_of p) (class_size s h) h)"
proof
  assume "p \<in> live s"
  then obtain a h where "pages s a = Some h" "p \<in> slab_live a (class_size s h) h"
    by (auto simp: live_def)
  moreover from this have "slab_of p = a" using slab_live_obj [OF assms] by metis
  ultimately show "\<exists>h. pages s (slab_of p) = Some h \<and> p \<in> slab_live (slab_of p) (class_size s h) h"
    by auto
qed (auto simp: live_def)

lemma live_disjoint:
  assumes "slab_inv s" "p \<in> live s" "q \<in> live s" "p \<noteq> q"
  shows "obj_bytes s p \<inter> obj_bytes s q = {}"
proof -
  from assms(1,2) obtain h where h: "pages s (slab_of p) = Some h"
    "p \<in> slab_live (slab_of p) (class_size s h) h" by (auto simp: live_iff)
  from assms(1,3) obtain h' where h': "pages s (slab_of q) = Some h'"
    "q \<in> slab_live (slab_of q) (class_size s h') h'" by (auto simp: live_iff)
  obtain i where i: "i < max_objs (slab_sizes ! cache h)"
    "p = obj_addr (slab_of p) (slab_sizes ! cache h) (of_nat i)"
    "unat p = unat (slab_of p) + HDR + i * unat (slab_sizes ! cache h)"
    by (rule slab_live_obj [OF assms(1) h])
  obtain j where j: "j < max_objs (slab_sizes ! cache h')"
    "q = obj_addr (slab_of q) (slab_sizes ! cache h') (of_nat j)"
    "unat q = unat (slab_of q) + HDR + j * unat (slab_sizes ! cache h')"
    by (rule slab_live_obj [OF assms(1) h'])
  note f = slab_inv_page [OF assms(1) h(1)] and f' = slab_inv_page [OF assms(1) h'(1)]
  note o = obj_addr_unat(2) [OF f(1,2) i(1)] and o' = obj_addr_unat(2) [OF f'(1,2) j(1)]
  have b: "obj_bytes s p = {unat p ..< unat p + unat (slab_sizes ! cache h)}"
    "obj_bytes s q = {unat q ..< unat q + unat (slab_sizes ! cache h')}"
    using h(1) h'(1) f(5) f'(5) by (simp_all add: obj_bytes_def)
  show ?thesis
  proof (cases "slab_of p = slab_of q")
    case True
    then have hh: "h' = h" using h(1) h'(1) by simp
    have "i \<noteq> j" using i(2) j(2) assms(4) True hh by auto
    then have "i * unat (slab_sizes ! cache h) + unat (slab_sizes ! cache h) \<le> j * unat (slab_sizes ! cache h)
      \<or> j * unat (slab_sizes ! cache h) + unat (slab_sizes ! cache h) \<le> i * unat (slab_sizes ! cache h)"
      using mult_le_mono1 [of "Suc i" j "unat (slab_sizes ! cache h)"]
        mult_le_mono1 [of "Suc j" i "unat (slab_sizes ! cache h)"] by (simp, linarith)
    then show ?thesis unfolding b i(3) j(3) hh True by auto
  next
    case False
    let ?a = "unat (slab_of p) - 4" and ?b = "unat (slab_of q) - 4"
    have d: "4 \<le> unat (slab_of p)" "4 \<le> unat (slab_of q)" "4096 dvd ?a" "4096 dvd ?b"
      using f(1) f'(1) by (simp_all add: page_base_def)
    have "?a \<noteq> ?b" using False d(1,2) by (simp add: word_unat_eq_iff)
    then have "?a + 4096 \<le> ?b \<or> ?b + 4096 \<le> ?a"
      using d(3,4) by (auto elim!: dvdE)
    then show ?thesis unfolding b i(3) j(3) using o o' d(1,2) by auto
  qed
qed

subsection \<open>What the operations do\<close>

lemma slab_inv_update:
  assumes "slab_inv s" "pages s a = Some h" "slab_ok (cache h) h' fs"
  shows "slab_inv (s\<lparr>pages := (pages s)(a \<mapsto> h')\<rparr>)" "free_list h' = fs"
proof -
  note f = slab_inv_page [OF assms(1,2)]
  show fl: "free_list h' = fs" by (rule slab_ok_free_list [OF f(2) assms(3)])
  have c: "cache h' = cache h" using assms(3) by (simp add: slab_ok_def)
  have "\<exists>g. ((pages s)(a \<mapsto> h')) b = Some g \<and> slab_ok idx g (free_list g)"
    if b: "idx < 7" "b \<in> set (first_slab (slab_caches s ! idx))" for idx b
  proof -
    obtain g where "pages s b = Some g" "slab_ok idx g (free_list g)"
      using assms(1) b unfolding slab_inv_def by blast
    then show ?thesis using assms(2,3) fl by (auto simp: slab_ok_def)
  qed
  then show "slab_inv (s\<lparr>pages := (pages s)(a \<mapsto> h')\<rparr>)"
    using assms(1,2) f(1,2) c unfolding slab_inv_def by auto
qed

lemma live_update:
  assumes "slab_inv s" "pages s a = Some h" "slab_ok (cache h) h' fs"
  shows "p \<in> live (s\<lparr>pages := (pages s)(a \<mapsto> h')\<rparr>) \<longleftrightarrow>
    (if slab_of p = a then p \<in> slab_live a (class_size s h) h' else p \<in> live s)"
proof -
  have c: "cache h' = cache h" using assms(3) by (simp add: slab_ok_def)
  show ?thesis
    using c by (auto simp: live_iff [OF slab_inv_update(1) [OF assms]] live_iff [OF assms(1)]
        class_size_def)
qed

lemma slab_take_spec:
  assumes inv: "slab_inv s" and h: "pages s a = Some h" "cache h = idx" "0 < free_objects h"
  shows "\<exists>p s'. slab_take idx a s = Some (p, s') \<and> slab_inv s' \<and> p \<noteq> 0 \<and> slab_of p = a
    \<and> p \<notin> live s \<and> live s' = insert p (live s) \<and> slab_caches s' = slab_caches s
    \<and> obj_bytes s' p = {unat p ..< unat p + unat (slab_sizes ! idx)}
    \<and> dom (pages s') = dom (pages s)"
proof -
  note f = slab_inv_page [OF inv h(1), unfolded h(2)]
  obtain i "is" where i: "free_list h = i # is" "first_free h = of_nat i" "i < length (objs h)" "i < 127"
    and ok: "slab_ok (cache h) (h\<lparr>first_free := objs h ! i, free_objects := free_objects h - 1,
          objs := (objs h)[i := 0]\<rparr>) is" (is "slab_ok _ ?h' _")
    using slab_ok_head [OF f(2,3) h(3)] h(2) by auto
  let ?p = "obj_addr a (slab_sizes ! idx) (of_nat i)"
  let ?s = "s\<lparr>pages := (pages s)(a \<mapsto> ?h')\<rparr>"
  have u: "unat (of_nat i :: u32) = i" using i(4) by (simp add: unat_of_nat_u32)
  have take: "slab_take idx a s = Some (?p, ?s)"
    using h(1) i(2,3) u f(4) by (simp add: slab_take_def)
  note inv' = slab_inv_update [OF inv h(1) ok]
  have im: "i < max_objs (slab_sizes ! idx)" using i(3) f(6) by simp
  have sp: "slab_of ?p = a" "?p \<noteq> 0"
    using obj_addr_page [OF f(1,2) im] by (simp_all add: slab_of_def)
  have inj: "(\<lambda>i. obj_addr a (slab_sizes ! idx) (of_nat i)) ` A - {?p}
      = (\<lambda>i. obj_addr a (slab_sizes ! idx) (of_nat i)) ` (A - {i})"
    if "A \<subseteq> {..< max_objs (slab_sizes ! idx)}" for A
    using obj_addr_inj(2) [OF f(1,2) im f(1,2)] that
    by (auto 0 3) (metis lessThan_iff subset_iff)
  have dist: "i \<notin> set is" using f(3) i(1) by (simp add: slab_ok_def)
  have new: "slab_live a (class_size s h) ?h' = insert ?p (slab_live a (class_size s h) h)"
    unfolding slab_live_def inv'(2) i(1) f(5) using dist i(3) by auto
  have "?p \<notin> slab_live a (class_size s h) h"
    using inj [of "{..< length (objs h)} - set (free_list h)"] f(6) i(1)
    unfolding slab_live_def f(5) by auto
  then have "?p \<notin> live s" using sp(1) h(1) by (simp add: live_iff [OF inv])
  moreover have "q \<in> live ?s \<longleftrightarrow> q \<in> insert ?p (live s)" for q
    using new sp(1) h(1) by (auto simp: live_update [OF inv h(1) ok] live_iff [OF inv, of q])
  then have "live ?s = insert ?p (live s)" by (rule set_eqI)
  moreover have "obj_bytes ?s ?p = {unat ?p ..< unat ?p + unat (slab_sizes ! idx)}"
    using f(4) h(2) by (simp add: obj_bytes_def sp(1) class_size_def)
  moreover have "dom (pages ?s) = dom (pages s)" using h(1) by auto
  ultimately show ?thesis using take inv'(1) sp
    by (intro exI [of _ ?p] exI [of _ ?s] conjI) simp_all
qed

lemma slab_create_spec:
  assumes inv: "slab_inv s" and idx: "idx < 7" and pg: "page_base page" "pages s page = None"
  shows "slab_inv (slab_create idx page s)" "live (slab_create idx page s) = live s"
    "\<exists>h. pages (slab_create idx page s) page = Some h \<and> cache h = idx \<and> 0 < free_objects h"
    "dom (pages (slab_create idx page s)) = insert page (dom (pages s))"
proof -
  let ?h = "slab_page idx (slab_sizes ! idx)"
  let ?cs = "(slab_caches s)[idx := (slab_caches s ! idx)\<lparr>first_slab :=
      page # first_slab (slab_caches s ! idx)\<rparr>]"
  note ok = slab_page_ok [OF idx]
  note fl = slab_ok_free_list [OF idx ok]
  have m: "map object_size (slab_caches s) = slab_sizes" using inv by (simp add: slab_inv_def)
  then have "length (map object_size (slab_caches s)) = 7" by (simp add: slab_sizes_def)
  then have len: "length (slab_caches s) = 7" by simp
  have osz: "object_size (slab_caches s ! j) = slab_sizes ! j" if "j < 7" for j
    using m that len nth_map [of j "slab_caches s" object_size] by simp
  have eq: "slab_create idx page s = s\<lparr>slab_caches := ?cs, pages := (pages s)(page \<mapsto> ?h)\<rparr>"
    using osz [OF idx] by (simp add: slab_create_def Let_def)
  have osz': "object_size (?cs ! j) = slab_sizes ! j" if "j < 7" for j
    using that idx osz len by (simp add: nth_list_update_cases)
  have m': "map object_size ?cs = slab_sizes"
    using osz' len by (intro nth_equalityI) (simp_all add: slab_sizes_def)
  have fresh: "page \<notin> set (first_slab (slab_caches s ! j))" if "j < 7" for j
    using inv that pg(2) unfolding slab_inv_def by fastforce
  have chains: "distinct (first_slab (?cs ! j))"
    "\<forall>a \<in> set (first_slab (?cs ! j)). \<exists>h. ((pages s)(page \<mapsto> ?h)) a = Some h \<and> slab_ok j h (free_list h)"
    if j: "j < 7" for j
  proof -
    show "distinct (first_slab (?cs ! j))"
      using inv fresh [OF j] j idx len unfolding slab_inv_def
      by (cases "j = idx") (simp_all add: nth_list_update_cases)
    show "\<forall>a \<in> set (first_slab (?cs ! j)). \<exists>h. ((pages s)(page \<mapsto> ?h)) a = Some h \<and> slab_ok j h (free_list h)"
    proof
      fix a assume a: "a \<in> set (first_slab (?cs ! j))"
      show "\<exists>h. ((pages s)(page \<mapsto> ?h)) a = Some h \<and> slab_ok j h (free_list h)"
      proof (cases "a = page")
        case True
        then have "j = idx" using a fresh [OF j] idx len by (auto simp: nth_list_update_cases split: if_splits)
        then show ?thesis using True ok fl by simp
      next
        case False
        then have "a \<in> set (first_slab (slab_caches s ! j))"
          using a idx len by (auto simp: nth_list_update_cases split: if_splits)
        then show ?thesis using inv j False unfolding slab_inv_def by simp
      qed
    qed
  qed
  have mem: "a \<in> set (first_slab (?cs ! cache h)) \<and> page_base a \<and> cache h < 7"
    if "((pages s)(page \<mapsto> ?h)) a = Some h" for a h
    using that inv pg(1) idx len unfolding slab_inv_def
    by (auto simp: nth_list_update slab_page_def split: if_splits)
  show inv': "slab_inv (slab_create idx page s)"
    unfolding eq slab_inv_def using m' chains mem by simp
  have cl: "class_size (slab_create idx page s) h = class_size s h" if "cache h < 7" for h
    using that osz osz' by (simp add: class_size_def eq)
  have none: "slab_live page z ?h = {}" for z
    using ok fl by (auto simp: slab_live_def slab_ok_def)
  have "q \<in> live (slab_create idx page s) \<longleftrightarrow> q \<in> live s" for q
    using none cl slab_inv_page(2) [OF inv] pg(2)
    by (auto simp: live_iff [OF inv'] live_iff [OF inv]) (auto simp: eq split: if_splits)
  then show "live (slab_create idx page s) = live s" by blast
  have "max_objs (slab_sizes ! idx) \<le> 127" "0 < max_objs (slab_sizes ! idx)"
    by (rule slab_size_facts [OF idx])+
  then have "unat (of_nat (max_objs (slab_sizes ! idx)) :: u32) = max_objs (slab_sizes ! idx)"
    by (intro unat_of_nat_u32) simp
  then have "(0 :: u32) < of_nat (max_objs (slab_sizes ! idx))"
    using \<open>0 < max_objs _\<close> by (simp add: word_less_nat_alt)
  then show "\<exists>h. pages (slab_create idx page s) page = Some h \<and> cache h = idx \<and> 0 < free_objects h"
    by (simp add: eq slab_page_def)
  show "dom (pages (slab_create idx page s)) = insert page (dom (pages s))" by (simp add: eq)
qed

subsection \<open>Properties\<close>

lemma has_free_slab:
  assumes "slab_inv s" "idx < 7" "find (has_free s) (first_slab (slab_caches s ! idx)) = Some a"
  shows "\<exists>h. pages s a = Some h \<and> cache h = idx \<and> 0 < free_objects h"
proof -
  have "a \<in> set (first_slab (slab_caches s ! idx))" "has_free s a"
    using assms(3) by (auto simp: find_Some_iff)
  then show ?thesis
    using assms(1,2) unfolding slab_inv_def by (fastforce simp: has_free_def slab_ok_def)
qed

lemma get_slab_index_SomeD:
  "get_slab_index sz = Some idx \<Longrightarrow> idx < 7 \<and> unat sz \<le> unat (slab_sizes ! idx)
     \<and> (0 < idx \<longrightarrow> unat (slab_sizes ! (idx - 1)) < unat sz)"
  by (auto simp: get_slab_index_def slab_sizes_def word_le_nat_alt not_le split: if_splits)

lemma get_slab_index_None: "get_slab_index sz = None \<longleftrightarrow> 2048 < unat sz"
  by (auto simp: get_slab_index_def word_le_nat_alt)

definition class_full :: "slab_state \<Rightarrow> u32 \<Rightarrow> bool" where
  "class_full s sz = (case get_slab_index sz of None \<Rightarrow> True
     | Some idx \<Rightarrow> \<not> list_ex (has_free s) (first_slab (slab_caches s ! idx)))"

lemma slab_alloc_spec:
  assumes inv: "slab_inv s" and pg: "kmalloc_page h = Some (page, h')"
    "page \<noteq> 0 \<longrightarrow> page_base page \<and> pages s page = None"
  shows "\<exists>p s' h''. slab_alloc kmalloc_page sz s h = Some (p, s', h'') \<and> slab_inv s'
    \<and> (p = 0 \<longleftrightarrow> 2048 < unat sz \<or> page = 0 \<and> class_full s sz) \<and> (p = 0 \<longrightarrow> s' = s)
    \<and> (p \<noteq> 0 \<longrightarrow> p \<notin> live s \<and> live s' = insert p (live s)
          \<and> {unat p ..< unat p + unat sz} \<subseteq> obj_bytes s' p
          \<and> (\<forall>q \<in> live s. obj_bytes s' q \<inter> obj_bytes s' p = {}))
    \<and> (h'' = h \<and> dom (pages s') = dom (pages s)
        \<or> page \<noteq> 0 \<and> h'' = h' \<and> dom (pages s') = insert page (dom (pages s))
        \<or> page = 0 \<and> h'' = h' \<and> s' = s)"
proof (cases "get_slab_index sz")
  case None
  then show ?thesis using inv by (simp add: slab_alloc_def get_slab_index_None [symmetric])
next
  case (Some idx)
  note g = get_slab_index_SomeD [OF Some]
  have sz: "\<not> 2048 < unat sz" using Some get_slab_index_None [of sz] by simp
  have conc: "\<exists>p s'. slab_take idx a t = Some (p, s') \<and> slab_inv s' \<and> p \<noteq> 0 \<and> p \<notin> live t
      \<and> live s' = insert p (live t) \<and> {unat p ..< unat p + unat sz} \<subseteq> obj_bytes s' p
      \<and> (\<forall>q \<in> live t. obj_bytes s' q \<inter> obj_bytes s' p = {}) \<and> dom (pages s') = dom (pages t)"
    if t: "slab_inv t" "pages t a = Some h" "cache h = idx" "0 < free_objects h" for t a h
  proof -
    from slab_take_spec [OF t] obtain p s' where p: "slab_take idx a t = Some (p, s')" "slab_inv s'"
        "p \<noteq> 0" "p \<notin> live t" "live s' = insert p (live t)"
        "obj_bytes s' p = {unat p ..< unat p + unat (slab_sizes ! idx)}"
        "dom (pages s') = dom (pages t)" by blast
    moreover have "obj_bytes s' q \<inter> obj_bytes s' p = {}" if "q \<in> live t" for q
      using that p(4,5) by (intro live_disjoint [OF p(2)]) auto
    ultimately show ?thesis using g by auto
  qed
  show ?thesis
  proof (cases "find (has_free s) (first_slab (slab_caches s ! idx))")
    case find: (Some a)
    then have "\<not> class_full s sz"
      using Some by (auto simp: class_full_def find_Some_iff list_ex_length)
    moreover obtain h where "pages s a = Some h" "cache h = idx" "0 < free_objects h"
      using has_free_slab [OF inv _ find] g by auto
    ultimately show ?thesis
      using conc [OF inv] Some find sz by (fastforce simp: slab_alloc_def)
  next
    case find: None
    then have full: "class_full s sz"
      using Some by (auto simp: class_full_def find_None_iff list_ex_iff)
    show ?thesis
    proof (cases "page = 0")
      case True
      then show ?thesis using Some find full inv pg(1) sz by (simp add: slab_alloc_def)
    next
      case False
      then have p: "page_base page" "pages s page = None" using pg(2) by simp_all
      have idx: "idx < 7" using g by simp
      note c = slab_create_spec [OF inv idx p]
      then obtain h where "pages (slab_create idx page s) page = Some h" "cache h = idx"
          "0 < free_objects h" by blast
      from conc [OF c(1) this] show ?thesis
        using Some find False pg(1) c(2,4) sz by (fastforce simp: slab_alloc_def)
    qed
  qed
qed

lemma slab_free_spec:
  assumes inv: "slab_inv s" and p: "p \<in> live s"
  shows "\<exists>s'. slab_free mem p s = Some (True, s') \<and> slab_inv s' \<and> live s' = live s - {p}
    \<and> dom (pages s') = dom (pages s)"
proof -
  obtain h where h: "pages s (slab_of p) = Some h" "p \<in> slab_live (slab_of p) (class_size s h) h"
    using p by (auto simp: live_iff [OF inv])
  let ?a = "slab_of p" and ?z = "slab_sizes ! cache h"
  obtain i where i: "i < max_objs ?z" "i \<notin> set (free_list h)" "p = obj_addr ?a ?z (of_nat i)" "p \<noteq> 0"
      "unat p = unat ?a + HDR + i * unat ?z"
    by (rule slab_live_obj [OF inv h])
  note f = slab_inv_page [OF inv h(1)]
  note z = slab_size_facts [OF f(2)]
  have u: "unat (of_nat i :: u32) = i" using i(1) z(2) by (intro unat_of_nat_u32) simp
  have off: "p - (?a + of_nat HDR) = of_nat i * ?z" by (subst i(3)) (simp add: obj_addr_def)
  have "unat (of_nat i * ?z) = i * unat ?z"
    using i(5) unat_u32_bound [of p] by (simp add: unat_word_ariths u)
  then have dm: "of_nat i * ?z mod ?z = 0" "of_nat i * ?z div ?z = of_nat i"
    using z(3) u by (simp_all add: word_unat_eq_iff unat_mod unat_div)
  have il: "i < length (objs h)" using i(1) f(6) by simp
  note ok = slab_ok_push [OF f(2,3) il i(2)]
  let ?h = "h\<lparr>objs := (objs h)[i := first_free h], first_free := of_nat i,
          free_objects := free_objects h + 1\<rparr>"
  let ?s = "s\<lparr>pages := (pages s)(?a \<mapsto> ?h)\<rparr>"
  have "magic h = SLAB_MAGIC" using f(3) by (simp add: slab_ok_def)
  then have fr: "slab_free mem p s = Some (True, ?s)"
    using h(1) i(4) off dm u il f(4) by (simp add: slab_free_def slab_of_def [symmetric])
  note inv' = slab_inv_update [OF inv h(1) ok]
  have inj: "obj_addr ?a ?z (of_nat j) \<noteq> p" if "j < max_objs ?z" "j \<noteq> i" for j
    using obj_addr_inj(2) [OF f(1,2) i(1) f(1,2) that(1)] that(2) i(3) by auto
  have "slab_live ?a (class_size s h) ?h = slab_live ?a (class_size s h) h - {p}"
    using inj unfolding slab_live_def inv'(2) f(5,6)
    by (auto simp: f(6) i(3) [symmetric])
  then have "q \<in> live ?s \<longleftrightarrow> q \<in> live s - {p}" for q
    using h(1) by (auto simp: live_update [OF inv h(1) ok] live_iff [OF inv, of q])
  then have "live ?s = live s - {p}" by (rule set_eqI)
  moreover have "dom (pages ?s) = dom (pages s)" using h(1) by auto
  ultimately show ?thesis using fr inv'(1) by blast
qed

text \<open>
  \<open>slab_alloc\<close> keeps the slabs well formed and hands out an object that is in use
  nowhere else: the objects in use grow by exactly the returned address, it has room for the
  requested size, and its bytes overlap no other object in use. It returns null only for sizes
  above 2048, or when every slab of the size class is full and no page can be had.
\<close>

theorem slab_alloc_fresh:
  assumes inv: "slab_inv s" and pg: "kmalloc_page h = Some (page, h')"
    "page \<noteq> 0 \<longrightarrow> page_base page \<and> pages s page = None"
  shows "\<exists>p s' h''. slab_alloc kmalloc_page sz s h = Some (p, s', h'') \<and> slab_inv s'
    \<and> (p = 0 \<longleftrightarrow> 2048 < unat sz \<or> page = 0 \<and> class_full s sz) \<and> (p = 0 \<longrightarrow> s' = s)
    \<and> (p \<noteq> 0 \<longrightarrow> p \<notin> live s \<and> live s' = insert p (live s)
          \<and> {unat p ..< unat p + unat sz} \<subseteq> obj_bytes s' p
          \<and> (\<forall>q \<in> live s. obj_bytes s' q \<inter> obj_bytes s' p = {}))"
  using slab_alloc_spec [of s kmalloc_page h page h' sz, OF inv pg] by blast

text \<open>
  \<open>slab_free\<close> of an object in use: it is recognised (the result is 1), it is no longer
  in use, every other object still is, and the slabs stay well formed.
\<close>

theorem slab_free_releases:
  assumes inv: "slab_inv s" and p: "p \<in> live s"
  shows "\<exists>s'. slab_free mem p s = Some (True, s') \<and> slab_inv s' \<and> live s' = live s - {p}"
  using slab_free_spec [OF assms] by blast

text \<open>A concrete state for the witnesses: one slab of 1024-byte objects, none in use.\<close>

definition demo_slabs :: slab_state where
  "demo_slabs = slab_create 5 0x400004 (slab_init \<lparr>slab_caches = [], pages = Map.empty\<rparr>)"

lemma slab_init_inv:
  "slab_inv (slab_init \<lparr>slab_caches = [], pages = Map.empty\<rparr>)"
  by (auto simp: slab_inv_def slab_init_def slab_sizes_def idx7)

lemma demo_slabs_inv: "slab_inv demo_slabs" "pages demo_slabs 0x500004 = None"
  unfolding demo_slabs_def
  by (rule slab_create_spec(1) [OF slab_init_inv]) (auto simp: page_base_def slab_init_def slab_create_def Let_def)

theorem slab_alloc_fresh_witness:
  "\<exists>p s'. slab_alloc (\<lambda>h. Some (0x500004, h)) 40 demo_slabs () = Some (p, s', ())
     \<and> slab_inv s' \<and> p \<noteq> 0 \<and> live s' = insert p (live demo_slabs)"
  using slab_alloc_fresh [OF demo_slabs_inv(1), of "\<lambda>h. Some (0x500004, h)" "()" "0x500004" "()" 40]
  by (auto simp: demo_slabs_inv(2) page_base_def)

theorem slab_free_releases_witness:
  "\<exists>p s1 s2. slab_alloc (\<lambda>h. Some (0x500004, h)) 1000 demo_slabs () = Some (p, s1, ())
     \<and> slab_free (\<lambda>a. 0) p s1 = Some (True, s2) \<and> live s2 = live s1 - {p}"
proof -
  obtain h where "pages demo_slabs 0x400004 = Some h" "cache h = 5" "0 < free_objects h"
    using slab_create_spec(3) [OF slab_init_inv, of 5 "0x400004"]
    by (auto simp: page_base_def slab_init_def demo_slabs_def)
  from slab_take_spec [OF demo_slabs_inv(1) this] obtain p s1 where
    t: "slab_take 5 0x400004 demo_slabs = Some (p, s1)" "slab_inv s1" "p \<in> live s1" by blast
  have "slab_alloc (\<lambda>h. Some (0x500004, h)) 1000 demo_slabs () = Some (p, s1, ())"
  proof -
    have "get_slab_index 1000 = Some 5" by code_simp
    moreover have "find (has_free demo_slabs) (first_slab (slab_caches demo_slabs ! 5)) = Some 0x400004"
      by code_simp
    ultimately show ?thesis using t(1) by (simp add: slab_alloc_def)
  qed
  then show ?thesis using slab_free_releases [OF t(2,3), of "\<lambda>a. 0"] by blast
qed

text \<open>
  A double free is not noticed: freeing a 1024-byte object twice leaves a free chain that
  loops, and the next two allocations return the same address.
\<close>

theorem slab_double_free_aliases:
  "\<exists>p s1 s2 s3 s4 s5. slab_alloc (\<lambda>h. Some (0x500004, h)) 1000 demo_slabs () = Some (p, s1, ())
     \<and> slab_free (\<lambda>a. 0) p s1 = Some (True, s2) \<and> slab_free (\<lambda>a. 0) p s2 = Some (True, s3)
     \<and> slab_alloc (\<lambda>h. Some (0x500004, h)) 1000 s3 () = Some (p, s4, ())
     \<and> slab_alloc (\<lambda>h. Some (0x500004, h)) 1000 s4 () = Some (p, s5, ())"
proof -
  let ?alloc = "\<lambda>s. slab_alloc (\<lambda>h. Some (0x500004, h)) 1000 s ()"
  let ?p = "0x40001C :: u32"
  define s1 where "s1 = fst (snd (the (?alloc demo_slabs)))"
  define s2 where "s2 = snd (the (slab_free (\<lambda>a. 0) ?p s1))"
  define s3 where "s3 = snd (the (slab_free (\<lambda>a. 0) ?p s2))"
  define s4 where "s4 = fst (snd (the (?alloc s3)))"
  have "map_option fst (?alloc demo_slabs) = Some ?p" by code_simp
  moreover have "map_option fst (slab_free (\<lambda>a. 0) ?p s1) = Some True" unfolding s1_def by code_simp
  moreover have "map_option fst (slab_free (\<lambda>a. 0) ?p s2) = Some True"
    unfolding s1_def s2_def by code_simp
  moreover have "map_option fst (?alloc s3) = Some ?p" unfolding s1_def s2_def s3_def by code_simp
  moreover have "map_option fst (?alloc s4) = Some ?p"
    unfolding s1_def s2_def s3_def s4_def by code_simp
  ultimately have
    "?alloc demo_slabs = Some (?p, s1, ())" "slab_free (\<lambda>a. 0) ?p s1 = Some (True, s2)"
    "slab_free (\<lambda>a. 0) ?p s2 = Some (True, s3)" "?alloc s3 = Some (?p, s4, ())"
    "\<exists>s5. ?alloc s4 = Some (?p, s5, ())"
    unfolding s1_def [symmetric] s2_def s3_def s4_def by (auto simp: s1_def)
  then show ?thesis by blast
qed
end
