(* ===== verification/Kheap.thy ===== *)
theory Kheap
  imports Buddy Slab
begin

text \<open>
  The kernel heap, \<open>src/kernel/heap.cpp\<close>, and the boot-time placement allocator with the
  \<open>kmalloc\<close> front end, \<open>src/kernel/memory.cpp\<close>. \<open>kmalloc_real\<close> serves small
  unaligned requests from the slabs and everything else from the buddy pool, with a 20-byte header
  at the start of the block and a pointer to it just before the data. Memory outside the slabs is
  a map from addresses to the 32-bit words stored there. Interrupt masking and logging are left
  out. \<open>None\<close> is a call that does not return (\<open>get_order\<close>) or reads slab contents
  through a bad pointer.
\<close>

subsection \<open>State and operations\<close>

record kheap =
  start_address :: u32
  end_address :: u32
  max_address :: u32
  kbuddy :: buddy
  words :: "u32 \<Rightarrow> u32"
  kslabs :: slab_state
  slab_is_initialized :: bool

abbreviation HEADER_SIZE :: u32 where "HEADER_SIZE \<equiv> 20"

abbreviation HEAP_MAGIC :: u32 where "HEAP_MAGIC \<equiv> 0xCAFEBABE"

definition init_kheap :: "u32 \<Rightarrow> u32 \<Rightarrow> u32 \<Rightarrow> kheap \<Rightarrow> kheap option" where
  "init_kheap start endp maxp h =
     (if start mod 4096 \<noteq> 0 \<or> endp mod 4096 \<noteq> 0 then Some h
      else map_option (\<lambda>b. h\<lparr>start_address := start, end_address := endp, max_address := maxp,
                            kbuddy := b\<rparr>) (buddy_init start endp))"

text \<open>The \<open>memset\<close> of \<open>buddy_alloc\<close>, on the block of the request's order.\<close>

definition zero_block :: "u32 \<Rightarrow> u32 \<Rightarrow> (u32 \<Rightarrow> u32) \<Rightarrow> (u32 \<Rightarrow> u32)" where
  "zero_block sz p m = (\<lambda>a. if unat p \<le> unat a \<and> unat a < unat p + 2 ^ max 12 (the (get_order sz))
     then 0 else m a)"

definition align_data :: "bool \<Rightarrow> u32 \<Rightarrow> u32" where
  "align_data align data_start =
     (if align \<and> data_start AND 0xFFF \<noteq> 0 then (data_start + 0xFFF) AND 0xFFFFF000
      else data_start) + 4"

text \<open>The header fields \<open>size\<close>, \<open>allocated\<close> (one byte) and \<open>magic\<close>.\<close>

definition write_header :: "u32 \<Rightarrow> u32 \<Rightarrow> (u32 \<Rightarrow> u32) \<Rightarrow> (u32 \<Rightarrow> u32)" where
  "write_header bp sz m =
     m(bp + 8 := sz, bp + 12 := (m (bp + 12) AND 0xFFFFFF00) OR 1, bp + 16 := HEAP_MAGIC)"

text \<open>\<open>kmalloc_real\<close> from the test for size 0 on.\<close>

definition required_size :: "u32 \<Rightarrow> bool \<Rightarrow> u32" where
  "required_size sz align = (if align then sz + HEADER_SIZE + 4 + 4096 else sz + HEADER_SIZE + 4)"

definition kmalloc_buddy :: "u32 \<Rightarrow> bool \<Rightarrow> kheap \<Rightarrow> (u32 \<times> kheap) option" where
  "kmalloc_buddy sz align h =
     (if sz = 0 then Some (0, h)
      else
        let req = required_size sz align in
        map_option (\<lambda>(bp, b).
            if bp = 0 then (0, h\<lparr>kbuddy := b\<rparr>)
            else
              let p = align_data align (bp + HEADER_SIZE);
                  m = (zero_block req bp (words h))(p - 4 := bp)
              in (p, h\<lparr>kbuddy := b, words := write_header bp req m\<rparr>))
          (buddy_alloc req (kbuddy h)))"

text \<open>The page a new slab takes: \<open>kmalloc_real(PAGE_SIZE, 1, &phys)\<close>.\<close>

definition kmalloc_page :: "kheap \<Rightarrow> (u32 \<times> kheap) option" where
  "kmalloc_page h = kmalloc_buddy 4096 True h"

definition kmalloc_real :: "u32 \<Rightarrow> bool \<Rightarrow> kheap \<Rightarrow> (u32 \<times> kheap) option" where
  "kmalloc_real sz align h =
     (if slab_is_initialized h \<and> sz \<le> 2048 \<and> \<not> align then
        Option.bind (slab_alloc kmalloc_page sz (kslabs h) h) (\<lambda>(p, s, h').
          let h'' = h'\<lparr>kslabs := s\<rparr> in
          if p \<noteq> 0 then Some (p, h'') else kmalloc_buddy sz align h'')
      else kmalloc_buddy sz align h)"

text \<open>\<open>kfree\<close> after the slab test.\<close>

definition kfree_buddy :: "u32 \<Rightarrow> kheap \<Rightarrow> kheap option" where
  "kfree_buddy p h =
     (let bp = words h (p - 4) in
      if bp < start_address h \<or> bp > end_address h then Some h
      else if words h (bp + 16) \<noteq> HEAP_MAGIC then Some h
      else
        let sz = words h (bp + 8);
            m = (words h)(bp + 12 := words h (bp + 12) AND 0xFFFFFF00, bp + 16 := 0xBADB00B5)
        in map_option (\<lambda>b. h\<lparr>kbuddy := b, words := m\<rparr>) (buddy_free bp sz (kbuddy h)))"

definition kfree :: "u32 \<Rightarrow> kheap \<Rightarrow> kheap option" where
  "kfree p h =
     (if p = 0 then Some h
      else if slab_is_initialized h then
        Option.bind (slab_free (words h) p (kslabs h)) (\<lambda>(handled, s).
          if handled then Some (h\<lparr>kslabs := s\<rparr>)
          else if pages (kslabs h) (slab_of p) \<noteq> None then None
          else kfree_buddy p h)
      else kfree_buddy p h)"

definition malloc :: "u32 \<Rightarrow> kheap \<Rightarrow> (u32 \<times> kheap) option" where
  "malloc sz h = kmalloc_real sz False h"

text \<open>\<open>memory.cpp\<close>: the placement allocator and the switch to the heap.\<close>

record kmem =
  free_mem_addr :: u32
  heap_ready :: bool
  the_heap :: kheap

definition init_memory :: "u32 \<Rightarrow> kmem \<Rightarrow> kmem" where
  "init_memory start m = m\<lparr>free_mem_addr := start\<rparr>"

definition placement_kmalloc :: "u32 \<Rightarrow> bool \<Rightarrow> kmem \<Rightarrow> u32 \<times> kmem" where
  "placement_kmalloc sz align m =
     (let a = (if align \<and> free_mem_addr m AND 0xFFFFF000 \<noteq> 0
               then (free_mem_addr m AND 0xFFFFF000) + 0x1000 else free_mem_addr m)
      in (a, m\<lparr>free_mem_addr := a + sz\<rparr>))"

definition kmalloc_a :: "u32 \<Rightarrow> bool \<Rightarrow> kmem \<Rightarrow> (u32 \<times> kmem) option" where
  "kmalloc_a sz align m =
     (if heap_ready m then map_option (\<lambda>(p, h). (p, m\<lparr>the_heap := h\<rparr>)) (kmalloc_real sz align (the_heap m))
      else Some (placement_kmalloc sz align m))"

definition kmalloc :: "u32 \<Rightarrow> kmem \<Rightarrow> (u32 \<times> kmem) option" where
  "kmalloc sz m =
     (if heap_ready m then map_option (\<lambda>(p, h). (p, m\<lparr>the_heap := h\<rparr>)) (malloc sz (the_heap m))
      else Some (placement_kmalloc sz False m))"

definition kmalloc_align_page :: "kmem \<Rightarrow> kmem" where
  "kmalloc_align_page m =
     (if free_mem_addr m AND 0xFFF \<noteq> 0
      then m\<lparr>free_mem_addr := (free_mem_addr m AND 0xFFFFF000) + 0x1000\<rparr> else m)"

definition set_heap_status :: "bool \<Rightarrow> kmem \<Rightarrow> kmem" where
  "set_heap_status status m = m\<lparr>heap_ready := status\<rparr>"

subsection \<open>The invariant\<close>

definition page_bytes :: "u32 \<Rightarrow> nat set" where
  "page_bytes a = {unat a - 4 ..< unat a - 4 + 4096}"

text \<open>
  The pool and the slabs are well formed, the pool starts on a page, and the pages of the slabs
  are not free in the pool.
\<close>

definition kheap_inv :: "kheap \<Rightarrow> bool" where
  "kheap_inv h \<longleftrightarrow> buddy_inv (kbuddy h) \<and> slab_inv (kslabs h)
     \<and> 4096 dvd unat (start_addr (kbuddy h))
     \<and> start_address h = start_addr (kbuddy h) \<and> end_address h = end_addr (kbuddy h)
     \<and> (\<forall>a hd. pages (kslabs h) a = Some hd \<longrightarrow> page_bytes a \<inter> buddy_free_bytes (kbuddy h) = {})"

lemma fits_aligned:
  assumes "fits start endp k p" "12 \<le> k" "4096 dvd unat start"
  shows "4096 dvd unat p"
proof -
  have "(2 :: nat) ^ 12 dvd 2 ^ k" by (rule le_imp_power_dvd [OF assms(2)])
  then have "4096 dvd unat p - unat start" using assms(1) dvd_trans by (auto simp: fits_def)
  then have "4096 dvd (unat p - unat start) + unat start" using assms(3) by (rule dvd_add)
  then show ?thesis using assms(1) by (simp add: fits_def)
qed

lemma buddy_granted_fits:
  "buddy_granted b sz p \<noteq> {} \<Longrightarrow> \<exists>k. get_order sz = Some k
     \<and> fits (start_addr b) (end_addr b) (max 12 k) p \<and> buddy_granted b sz p = blk (max 12 k) p"
  by (auto simp: buddy_granted_def split: option.splits if_splits)

text \<open>The data address: past the header, and 4 past a page boundary when aligned.\<close>

lemma align_data_unat:
  assumes "4096 dvd unat bp" "unat bp + (if al then 8192 else 4096) \<le> 4294967296"
  shows "unat (align_data al (bp + HEADER_SIZE)) = unat bp + (if al then 4100 else 24)"
proof -
  have d: "unat (bp + HEADER_SIZE) = unat bp + 20" using assms(2) by (subst unat_add_small) (simp_all split: if_splits)
  have md: "(unat bp + 20) mod 4096 = 20" using assms(1) by (simp add: mod_add_eq [symmetric] dvd_imp_mod_0)
  show ?thesis
  proof (cases al)
    case True
    have "(bp + HEADER_SIZE) AND 0xFFF \<noteq> 0"
      using unat_and_fff [of "bp + HEADER_SIZE"] d md by auto
    moreover have "unat (bp + HEADER_SIZE + 0xFFF) = unat bp + 4115"
      using d assms(2) True by (subst unat_add_small) simp_all
    moreover have "(unat bp + 4115) div 4096 * 4096 = unat bp + 4096"
      using assms(1) by (auto elim!: dvdE)
    ultimately have "unat ((bp + HEADER_SIZE + 0xFFF) AND 0xFFFFF000) = unat bp + 4096"
      by (simp add: unat_page_mask)
    then show ?thesis
      using True \<open>(bp + HEADER_SIZE) AND 0xFFF \<noteq> 0\<close> assms(2) unfolding align_data_def
      by (subst unat_add_small) simp_all
  next
    case False
    then show ?thesis using d assms(2) unfolding align_data_def by (subst unat_add_small) simp_all
  qed
qed


lemma required_size_unat:
  "unat sz + 4120 \<le> 4294967295 \<Longrightarrow> unat (required_size sz al) = unat sz + (if al then 4120 else 24)"
  by (simp add: required_size_def unat_word_ariths)

lemma kmalloc_buddy_eq:
  "sz \<noteq> 0 \<Longrightarrow> kmalloc_buddy sz al h = (case buddy_alloc (required_size sz al) (kbuddy h) of
     None \<Rightarrow> None
   | Some (bp, b) \<Rightarrow> Some (if bp = 0 then (0, h\<lparr>kbuddy := b\<rparr>)
       else (align_data al (bp + HEADER_SIZE), h\<lparr>kbuddy := b, words := write_header bp (required_size sz al)
         ((zero_block (required_size sz al) bp (words h))(align_data al (bp + HEADER_SIZE) - 4 := bp))\<rparr>)))"
  by (simp add: kmalloc_buddy_def Let_def split: option.split)

text \<open>What \<open>kmalloc_buddy\<close> does, in both cases.\<close>

lemma kmalloc_buddy_cases:
  assumes inv: "kheap_inv h" and res: "kmalloc_buddy sz al h = Some (p, h')"
    and sz: "unat sz + 4120 \<le> 4294967295"
  obtains (null) "p = 0" "h' = h" "sz = 0 \<or> buddy_alloc (required_size sz al) (kbuddy h) = Some (0, kbuddy h)"
  | (ok) bp where "p \<noteq> 0" "sz \<noteq> 0" "bp \<noteq> 0"
    "buddy_alloc (required_size sz al) (kbuddy h) = Some (bp, kbuddy h')"
    "4096 dvd unat bp" "unat p = unat bp + (if al then 4100 else 24)"
    "{unat bp ..< unat p + unat sz} \<subseteq> buddy_granted (kbuddy h) (required_size sz al) bp"
    "\<forall>a. unat bp \<le> unat a \<and> unat a < unat p + unat sz \<longrightarrow> words h' a =
       write_header bp (required_size sz al) ((\<lambda>_. 0)(p - 4 := bp)) a"
    "kslabs h' = kslabs h" "slab_is_initialized h' = slab_is_initialized h" "kheap_inv h'"
    "start_address h' = start_address h" "end_address h' = end_address h"
    "\<forall>a. unat a \<notin> buddy_granted (kbuddy h) (required_size sz al) bp \<longrightarrow> words h' a = words h a"
proof (cases "sz = 0")
  case True
  then show ?thesis using res null by (simp add: kmalloc_buddy_def)
next
  case sz0: False
  let ?r = "required_size sz al"
  have hb: "buddy_inv (kbuddy h)" using inv by (simp add: kheap_inv_def)
  obtain bp b where a: "buddy_alloc ?r (kbuddy h) = Some (bp, b)"
    using res sz0 by (auto simp: kmalloc_buddy_eq split: option.splits)
  note e = kmalloc_buddy_eq [OF sz0, of al h, unfolded a res, simplified]
  show ?thesis
  proof (cases "bp = 0")
    case True
    then have "b = kbuddy h" using buddy_alloc_null [OF hb] a by simp
    then show ?thesis using e True a by (intro null) simp_all
  next
    case False
    then have peq: "p = align_data al (bp + HEADER_SIZE)"
      and heq: "h' = h\<lparr>kbuddy := b, words := write_header bp ?r ((zero_block ?r bp (words h))(p - 4 := bp))\<rparr>"
      using e by simp_all
    note ba = buddy_alloc_ok [OF hb a False]
    from buddy_granted_fits [OF ba(8)] obtain k where k: "get_order ?r = Some k"
      "fits (start_addr (kbuddy h)) (end_addr (kbuddy h)) (max 12 k) bp"
      "buddy_granted (kbuddy h) ?r bp = blk (max 12 k) bp" by blast
    have al: "4096 dvd unat bp" using fits_aligned [OF k(2)] inv by (simp add: kheap_inv_def)
    have r: "unat ?r = unat sz + (if al then 4120 else 24)" by (rule required_size_unat [OF sz])
    have "unat ?r \<le> 2 ^ k" using k(1) by (simp add: get_order_iff is_order_def)
    also have "\<dots> \<le> 2 ^ max 12 k" by (intro power_increasing) simp_all
    finally have rk: "unat ?r \<le> 2 ^ max 12 k" .
    have end': "unat bp + 2 ^ max 12 k \<le> 4294967296"
      using k(2) unat_u32_bound [of "end_addr (kbuddy h)"] by (simp add: fits_def)
    have "(2 :: nat) ^ 13 \<le> 2 ^ max 12 k" if al
    proof -
      have "\<not> (2 :: nat) ^ max 12 k \<le> 2 ^ 12" using rk r that by simp
      then have "\<not> max 12 k \<le> 12" using power_increasing [of "max 12 k" 12 "2 :: nat"] by auto
      then show ?thesis by (intro power_increasing) simp_all
    qed
    moreover have "(2 :: nat) ^ 12 \<le> 2 ^ max 12 k" by (intro power_increasing) simp_all
    ultimately have "(if al then 8192 else 4096) \<le> (2 :: nat) ^ max 12 k" by simp
    then have pu: "unat p = unat bp + (if al then 4100 else 24)"
      using end' unfolding peq by (intro align_data_unat [OF al]) linarith
    then have "unat p + unat sz \<le> unat bp + unat ?r" using r by (simp split: if_splits)
    then have le: "unat p + unat sz \<le> unat bp + 2 ^ max 12 k" using rk by linarith
    show ?thesis
    proof (rule ok [of bp])
      show "p \<noteq> 0" using pu by (auto split: if_splits)
      show "{unat bp ..< unat p + unat sz} \<subseteq> buddy_granted (kbuddy h) ?r bp"
        unfolding k(3) blk_def using le by auto
      show "\<forall>a. unat bp \<le> unat a \<and> unat a < unat p + unat sz \<longrightarrow> words h' a =
          write_header bp ?r ((\<lambda>_. 0)(p - 4 := bp)) a"
        using le k(1) by (auto simp: heq write_header_def zero_block_def)
      show "kheap_inv h'"
        using inv ba(1,3,5,6) heq unfolding kheap_inv_def by auto
      have inb: "unat (bp + c) \<in> buddy_granted (kbuddy h) ?r bp" if "unat c < 4096" for c
        using that end' \<open>(2 :: nat) ^ 12 \<le> 2 ^ max 12 k\<close> unat_add_small [of bp c] unfolding k(3) blk_def by auto
      have pm: "p - 4 = bp + (if al then 4096 else 20)"
        using pu end' \<open>(if al then 8192 else 4096) \<le> (2 :: nat) ^ max 12 k\<close>
        by (auto simp: word_unat_eq_iff unat_sub_if_size unat_word_ariths word_size split: if_splits)
      have "unat (p - 4) \<in> buddy_granted (kbuddy h) ?r bp"
        using end' \<open>(if al then 8192 else 4096) \<le> (2 :: nat) ^ max 12 k\<close> unat_add_small [of bp "if al then 4096 else 20"]
        unfolding pm k(3) blk_def by (auto split: if_splits)
      then show "\<forall>a. unat a \<notin> buddy_granted (kbuddy h) ?r bp \<longrightarrow> words h' a = words h a"
        using inb [of 8] inb [of 12] inb [of 16] k(1) unfolding k(3) blk_def
        by (auto simp: heq write_header_def zero_block_def)
    qed (use a al pu sz0 False in \<open>simp_all add: heq\<close>)
  qed
qed


subsection \<open>Slab pages from the pool\<close>

lemma buddy_alloc_total:
  assumes "unat sz \<le> 2 ^ 31"
  obtains p b' where "buddy_alloc sz b = Some (p, b')"
  using get_order_Some [OF assms] by (fastforce simp: buddy_alloc_def)

lemma kmalloc_buddy_total:
  assumes "unat sz + 4120 \<le> 2 ^ 31"
  shows "\<exists>p h'. kmalloc_buddy sz al h = Some (p, h')"
proof (cases "sz = 0")
  case False
  have "unat (required_size sz al) \<le> 2 ^ 31" using required_size_unat [of sz al] assms by simp
  then obtain bp b where "buddy_alloc (required_size sz al) (kbuddy h) = Some (bp, b)"
    by (rule buddy_alloc_total)
  then show ?thesis using False by (simp add: kmalloc_buddy_eq)
qed (simp add: kmalloc_buddy_def)

lemma page_of_slab:
  assumes "slab_inv s" "pages s a = Some h" "p \<in> slab_live a (class_size s h) h"
  shows "obj_bytes s p \<subseteq> page_bytes a"
proof -
  obtain i where i: "i < max_objs (slab_sizes ! cache h)" "slab_of p = a"
    "unat p = unat a + HDR + i * unat (slab_sizes ! cache h)"
    using slab_live_obj [OF assms] by metis
  note f = slab_inv_page [OF assms(1,2)]
  show ?thesis
    using obj_addr_unat(2) [OF f(1,2) i(1)] f(1,5) assms(2) i
    by (auto simp: obj_bytes_def page_bytes_def page_base_def)
qed

lemma live_not_free:
  assumes "kheap_inv h" "q \<in> live (kslabs h)"
  shows "obj_bytes (kslabs h) q \<inter> buddy_free_bytes (kbuddy h) = {}"
proof -
  have s: "slab_inv (kslabs h)" using assms(1) by (simp add: kheap_inv_def)
  obtain hd where hd: "pages (kslabs h) (slab_of q) = Some hd"
    "q \<in> slab_live (slab_of q) (class_size (kslabs h) hd) hd"
    using assms(2) by (auto simp: live_iff [OF s])
  have "obj_bytes (kslabs h) q \<subseteq> page_bytes (slab_of q)" by (rule page_of_slab [OF s hd])
  moreover have "page_bytes (slab_of q) \<inter> buddy_free_bytes (kbuddy h) = {}"
    using assms(1) hd(1) by (simp add: kheap_inv_def)
  ultimately show ?thesis by blast
qed

lemma kmalloc_page_spec:
  assumes inv: "kheap_inv h" and res: "kmalloc_page h = Some (page, h')"
  shows "page = 0 \<longrightarrow> h' = h"
    and "page \<noteq> 0 \<Longrightarrow> page_base page \<and> pages (kslabs h) page = None
      \<and> page_bytes page \<inter> buddy_free_bytes (kbuddy h') = {}"
    and "kheap_inv h'" "kslabs h' = kslabs h" "slab_is_initialized h' = slab_is_initialized h"
    "buddy_free_bytes (kbuddy h') \<subseteq> buddy_free_bytes (kbuddy h)"
    "page \<noteq> 0 \<Longrightarrow> page_bytes page \<subseteq> buddy_free_bytes (kbuddy h)"
proof -
  have "unat (4096 :: u32) + 4120 \<le> 4294967295" by simp
  with inv res [unfolded kmalloc_page_def]
  have "(page = 0 \<longrightarrow> h' = h) \<and> (page \<noteq> 0 \<longrightarrow> page_base page \<and> pages (kslabs h) page = None
      \<and> page_bytes page \<inter> buddy_free_bytes (kbuddy h') = {}) \<and> kheap_inv h' \<and> kslabs h' = kslabs h
      \<and> slab_is_initialized h' = slab_is_initialized h
      \<and> buddy_free_bytes (kbuddy h') \<subseteq> buddy_free_bytes (kbuddy h)
      \<and> (page \<noteq> 0 \<longrightarrow> page_bytes page \<subseteq> buddy_free_bytes (kbuddy h))"
  proof (cases rule: kmalloc_buddy_cases)
  case null
  then show ?thesis using inv by simp
next
  case (ok bp)
  let ?g = "buddy_granted (kbuddy h) (required_size 4096 True) bp"
  have hb: "buddy_inv (kbuddy h)" using inv by (simp add: kheap_inv_def)
  note ba = buddy_alloc_ok [OF hb ok(4,3)]
  have pg: "page_bytes page \<subseteq> ?g" using ok(6,7) by (auto simp: page_bytes_def)
  then have pf: "page_bytes page \<subseteq> buddy_free_bytes (kbuddy h)" using ba(2) by blast
  moreover have "page_bytes page \<noteq> {}" by (simp add: page_bytes_def)
  ultimately have "pages (kslabs h) page = None"
    using inv by (cases "pages (kslabs h) page") (auto simp: kheap_inv_def)
  moreover have "page_base page" using ok(5,6) by (auto simp: page_base_def elim!: dvdE)
  ultimately show ?thesis using ok pg ba(3) pf by auto
  qed
  then show "page = 0 \<longrightarrow> h' = h"
    and "page \<noteq> 0 \<Longrightarrow> page_base page \<and> pages (kslabs h) page = None
      \<and> page_bytes page \<inter> buddy_free_bytes (kbuddy h') = {}"
    and "kheap_inv h'" "kslabs h' = kslabs h" "slab_is_initialized h' = slab_is_initialized h"
    "buddy_free_bytes (kbuddy h') \<subseteq> buddy_free_bytes (kbuddy h)"
    "page \<noteq> 0 \<Longrightarrow> page_bytes page \<subseteq> buddy_free_bytes (kbuddy h)" by blast+
qed

subsection \<open>Large blocks in use\<close>

text \<open>
  \<open>p\<close> is a live large allocation: its hidden pointer leads to a block header, the block is
  not free, no slab header is at the start of its page, and the words that \<open>kfree\<close> looks at are its own.
\<close>

definition large_live :: "kheap \<Rightarrow> u32 \<Rightarrow> bool" where
  "large_live h p \<longleftrightarrow> (let bp = words h (p - 4); sz = words h (bp + 8) in
     p \<noteq> 0 \<and> bp \<noteq> 0 \<and> words h (bp + 16) = HEAP_MAGIC \<and> unat sz \<le> 2 ^ 28
     \<and> buddy_granted (kbuddy h) sz bp \<noteq> {}
     \<and> buddy_free_bytes (kbuddy h) \<inter> buddy_granted (kbuddy h) sz bp = {}
     \<and> pages (kslabs h) (slab_of p) = None \<and> words h (slab_of p) \<noteq> SLAB_MAGIC
     \<and> unat (p - 4) \<in> buddy_granted (kbuddy h) sz bp \<and> unat (slab_of p) \<in> buddy_granted (kbuddy h) sz bp
     \<and> (\<forall>a \<in> dom (pages (kslabs h)). page_bytes a \<inter> buddy_granted (kbuddy h) sz bp = {}))"

definition large_block :: "kheap \<Rightarrow> u32 \<Rightarrow> nat set" where
  "large_block h p = buddy_granted (kbuddy h) (words h (words h (p - 4) + 8)) (words h (p - 4))"

lemma kmalloc_buddy_live:
  assumes inv: "kheap_inv h" and sz: "unat sz + 4120 \<le> 2 ^ 31"
    and res: "kmalloc_buddy sz al h = Some (p, h')" and p: "p \<noteq> 0"
  shows "kheap_inv h' \<and> large_live h' p
    \<and> buddy_free_bytes (kbuddy h') \<union> large_block h' p = buddy_free_bytes (kbuddy h)
    \<and> {unat p ..< unat p + unat sz} \<subseteq> large_block h' p"
proof -
  let ?r = "required_size sz al"
  have "unat sz + 4120 \<le> 4294967295" using sz by simp
  with inv res show ?thesis
  proof (cases rule: kmalloc_buddy_cases)
    case null
    then show ?thesis using p by simp
  next
    case (ok bp)
    let ?g = "buddy_granted (kbuddy h) ?r bp"
    let ?off = "(if al then 4100 else 24) :: u32"
    have hb: "buddy_inv (kbuddy h)" using inv by (simp add: kheap_inv_def)
    note ba = buddy_alloc_ok [OF hb ok(4,3)]
    have sz0: "0 < unat sz" using ok(2) by (simp add: unat_gt_0)
    have small: "unat (bp + c) = unat bp + unat c" if "unat c \<le> (if al then 4100 else 24)" for c
      using that ok(6) unat_u32_bound [of p] by (intro unat_add_small) (simp split: if_splits)
    have peq: "p = bp + ?off"
      using ok(6) small [of ?off] by (simp add: word_unat_eq_iff split: if_splits)
    have rd: "words h' (bp + c) = write_header bp ?r ((\<lambda>_. 0)(p - 4 := bp)) (bp + c)"
      if "unat c \<le> (if al then 4100 else 24)" for c
      using ok(8) small [OF that] that ok(6) sz0 by auto
    have w: "words h' (p - 4) = bp" "words h' (bp + 8) = ?r" "words h' (bp + 16) = HEAP_MAGIC"
    proof -
      have pm: "p - 4 = bp + (if al then 4096 else 20)" using peq by (simp add: add.commute)
      show "words h' (p - 4) = bp" using rd [of "if al then 4096 else 20"]
        by (cases al) (simp_all add: write_header_def pm)
      show "words h' (bp + 8) = ?r" "words h' (bp + 16) = HEAP_MAGIC" using rd [of 8] rd [of 16]
        by (cases al; simp add: write_header_def pm)+
    qed
    have so: "slab_of p = (if al then bp + 4100 else bp + 4)"
    proof -
      have "bp + ?off AND 0xFFFFF000 = (if al then bp + 4096 else bp)"
      proof (cases al)
        case True
        have "4096 dvd unat (bp + 4096)" using small [of 4096] True ok(5) by simp
        from page_mask_offset [OF this, of "bp + 4100" 4] show ?thesis
          using small [of 4096] small [of 4100] True by simp
      next
        case False
        then show ?thesis
          using page_mask_offset [OF ok(5), of "bp + 24" 24] small [of 24] by simp
      qed
      then show ?thesis using peq by (auto simp: slab_of_def)
    qed
    have sw: "words h' (slab_of p) = 0"
      using rd [of "if al then 4100 else 4"] so peq
      by (cases al) (simp_all add: write_header_def)
    have gr: "buddy_granted (kbuddy h') ?r bp = ?g" by (rule buddy_granted_ends [OF ba(5,6)])
    have pages_g: "page_bytes a \<inter> ?g = {}" if "a \<in> dom (pages (kslabs h'))" for a
      using inv that ba(2) unfolding kheap_inv_def ok(9) by blast
    have sp: "pages (kslabs h') (slab_of p) = None"
    proof (rule ccontr)
      assume "pages (kslabs h') (slab_of p) \<noteq> None"
      then have "page_bytes (slab_of p) \<inter> ?g = {}" using pages_g by blast
      moreover have "unat p - 4 \<in> page_bytes (slab_of p)"
        using so small [of "if al then 4100 else 4"] ok(6)
        by (auto simp: page_bytes_def split: if_splits)
      moreover have "unat p - 4 \<in> ?g" using ok(6,7) sz0 by (auto split: if_splits)
      ultimately show False by blast
    qed
    have lb: "large_block h' p = ?g" using w gr by (simp add: large_block_def)
    have sa: "unat (slab_of p) = unat bp + (if al then 4100 else 4)"
      using small [of "if al then 4100 else 4"] so by (cases al) simp_all
    have pm4: "p - 4 = bp + (if al then 4096 else 20)" using peq by (simp add: add.commute)
    have pa: "unat (p - 4) = unat bp + (if al then 4096 else 20)"
      unfolding pm4 using small [of "if al then 4096 else 20"] by (cases al) simp_all
    have "unat (slab_of p) \<in> ?g" by (rule subsetD [OF ok(7)]) (use sa ok(6) sz0 in \<open>cases al; simp\<close>)
    moreover have "unat (p - 4) \<in> ?g" by (rule subsetD [OF ok(7)]) (use pa ok(6) sz0 in \<open>cases al; simp\<close>)
    ultimately have "large_live h' p"
      using w gr sw sp pages_g ba(3,7,8) ok(1,3) by (auto simp: large_live_def Let_def)
    moreover have "{unat p ..< unat p + unat sz} \<subseteq> ?g" using ok(6,7) by (auto split: if_splits)
    ultimately show ?thesis using lb ba(2,3) ok(11) by auto
  qed
qed

text \<open>
  What an allocation leaves alone: it frees nothing, writes only bytes that were free, and takes new slab
  pages only from them. Large blocks in use then stay in use, where they are and with what they hold.
\<close>

definition heap_keeps :: "kheap \<Rightarrow> kheap \<Rightarrow> bool" where
  "heap_keeps h h' \<longleftrightarrow> start_addr (kbuddy h') = start_addr (kbuddy h) \<and> end_addr (kbuddy h') = end_addr (kbuddy h)
     \<and> buddy_free_bytes (kbuddy h') \<subseteq> buddy_free_bytes (kbuddy h)
     \<and> (\<forall>a. unat a \<notin> buddy_free_bytes (kbuddy h) \<longrightarrow> words h' a = words h a)
     \<and> (\<forall>a. a \<in> dom (pages (kslabs h')) \<longrightarrow> a \<in> dom (pages (kslabs h)) \<or> page_bytes a \<subseteq> buddy_free_bytes (kbuddy h))"

lemma heap_keeps_live:
  assumes k: "heap_keeps h h'" and l: "large_live h q"
  shows "large_live h' q \<and> large_block h' q = large_block h q \<and> (\<forall>a. unat a \<in> large_block h q \<longrightarrow> words h' a = words h a)"
proof -
  let ?bp = "words h (q - 4)"
  let ?sz = "words h (?bp + 8)"
  let ?g = "buddy_granted (kbuddy h) ?sz ?bp"
  have l': "q \<noteq> 0" "?bp \<noteq> 0" "words h (?bp + 16) = HEAP_MAGIC" "unat ?sz \<le> 2 ^ 28" "?g \<noteq> {}" "buddy_free_bytes (kbuddy h) \<inter> ?g = {}"
    "pages (kslabs h) (slab_of q) = None" "words h (slab_of q) \<noteq> SLAB_MAGIC" "unat (q - 4) \<in> ?g" "unat (slab_of q) \<in> ?g"
    "\<forall>a \<in> dom (pages (kslabs h)). page_bytes a \<inter> ?g = {}"
    using l by (simp_all add: large_live_def Let_def)
  have same: "words h' a = words h a" if "unat a \<in> ?g" for a using k l'(6) that unfolding heap_keeps_def by blast
  from buddy_granted_fits [OF l'(5)] obtain o2 where o2: "fits (start_addr (kbuddy h)) (end_addr (kbuddy h)) (max 12 o2) ?bp"
    "?g = blk (max 12 o2) ?bp" by blast
  have "(2 :: nat) ^ 12 \<le> 2 ^ max 12 o2" by (intro power_increasing) simp_all
  moreover have "unat ?bp + 2 ^ max 12 o2 \<le> 4294967296"
    using o2(1) unat_u32_bound [of "end_addr (kbuddy h)"] by (simp add: fits_def)
  ultimately have "unat (?bp + c) \<in> ?g" if "unat c < 4096" for c
    using that unat_add_small [of ?bp c] unfolding o2(2) blk_def by auto
  then have w: "words h' (q - 4) = ?bp" "words h' (?bp + 8) = ?sz" "words h' (?bp + 16) = HEAP_MAGIC" "words h' (slab_of q) = words h (slab_of q)"
    using same l'(3,9,10) by simp_all
  have g: "buddy_granted (kbuddy h') ?sz ?bp = ?g"
    using k by (intro buddy_granted_ends) (simp_all add: heap_keeps_def)
  have pg: "page_bytes a \<inter> ?g = {}" if "a \<in> dom (pages (kslabs h'))" for a
    using k that l'(6,11) unfolding heap_keeps_def by blast
  have "unat (slab_of q) \<in> page_bytes (slab_of q)" by (simp add: page_bytes_def)
  then have "slab_of q \<notin> dom (pages (kslabs h'))" using pg l'(10) by blast
  then have "pages (kslabs h') (slab_of q) = None" by blast
  then have "large_live h' q"
    unfolding large_live_def Let_def w g using l' pg k unfolding heap_keeps_def by blast
  moreover have "large_block h' q = ?g" "large_block h q = ?g" by (simp_all add: large_block_def w g)
  ultimately show ?thesis using same by simp
qed

lemma large_live_apart:
  assumes "large_live h q"
  shows "buddy_free_bytes (kbuddy h) \<inter> large_block h q = {}" "a \<in> dom (pages (kslabs h)) \<Longrightarrow> page_bytes a \<inter> large_block h q = {}"
  using assms by (auto simp: large_live_def large_block_def Let_def)

lemma kmalloc_buddy_keeps:
  assumes "kheap_inv h" "kmalloc_buddy sz al h = Some (p, h')" "unat sz + 4120 \<le> 4294967295"
  shows "heap_keeps h h'"
  using assms
proof (cases rule: kmalloc_buddy_cases)
  case (ok bp)
  have hb: "buddy_inv (kbuddy h)" using assms(1) by (simp add: kheap_inv_def)
  note ba = buddy_alloc_ok [OF hb ok(4,3)]
  show ?thesis using ba(2,3,5,6) ok(9,14) unfolding heap_keeps_def by auto
qed (simp add: heap_keeps_def)

subsection \<open>Allocation\<close>

text \<open>
  The outcome of an allocation: a slab object, on a page that was a slab page or was free, or a large block
  that was free.
\<close>

definition heap_grant :: "kheap \<Rightarrow> u32 \<Rightarrow> u32 \<Rightarrow> kheap \<Rightarrow> bool" where
  "heap_grant h sz p h' \<longleftrightarrow> kheap_inv h' \<and> live (kslabs h) \<subseteq> live (kslabs h') \<and> heap_keeps h h'
     \<and> (p \<noteq> 0 \<longrightarrow>
          {unat p ..< unat p + unat sz} \<inter> buddy_free_bytes (kbuddy h') = {}
        \<and> (\<forall>q \<in> live (kslabs h). {unat p ..< unat p + unat sz} \<inter> obj_bytes (kslabs h') q = {})
        \<and> (p \<in> live (kslabs h') - live (kslabs h) \<and> {unat p ..< unat p + unat sz} \<subseteq> page_bytes (slab_of p)
             \<and> (slab_of p \<in> dom (pages (kslabs h)) \<or> page_bytes (slab_of p) \<subseteq> buddy_free_bytes (kbuddy h))
           \<or> large_live h' p \<and> {unat p ..< unat p + unat sz} \<subseteq> large_block h' p
             \<and> large_block h' p \<subseteq> buddy_free_bytes (kbuddy h)))"

lemma kmalloc_buddy_grant:
  assumes inv: "kheap_inv h" and sz: "unat sz + 4120 \<le> 2 ^ 31"
  shows "\<exists>p h'. kmalloc_buddy sz al h = Some (p, h') \<and> heap_grant h sz p h'
    \<and> kslabs h' = kslabs h \<and> (p \<noteq> 0 \<and> al \<longrightarrow> unat p mod 4096 = 4)"
proof -
  obtain p h' where res: "kmalloc_buddy sz al h = Some (p, h')"
    using kmalloc_buddy_total [OF sz] by blast
  have small: "unat sz + 4120 \<le> 4294967295" using sz by simp
  note keeps = kmalloc_buddy_keeps [OF inv res this]
  from inv res small have "heap_grant h sz p h' \<and> kslabs h' = kslabs h \<and> (p \<noteq> 0 \<and> al \<longrightarrow> unat p mod 4096 = 4)"
  proof (cases rule: kmalloc_buddy_cases)
    case null
    then show ?thesis using inv keeps by (simp add: heap_grant_def)
  next
    case (ok bp)
    have hb: "buddy_inv (kbuddy h)" using inv by (simp add: kheap_inv_def)
    note ba = buddy_alloc_ok [OF hb ok(4,3)]
    have "{unat p ..< unat p + unat sz} \<subseteq> {unat bp ..< unat p + unat sz}" using ok(6) by auto
    then have sub: "{unat p ..< unat p + unat sz} \<subseteq> buddy_granted (kbuddy h) (required_size sz al) bp"
      using ok(7) by (rule subset_trans)
    have "{unat p ..< unat p + unat sz} \<inter> obj_bytes (kslabs h') q = {}" if "q \<in> live (kslabs h)" for q
      using live_not_free [OF inv that] sub ba(2) unfolding ok(9) by blast
    moreover have "al \<longrightarrow> unat p mod 4096 = 4" using ok(5,6) by (auto elim!: dvdE)
    moreover have "large_live h' p \<and> large_block h' p \<subseteq> buddy_free_bytes (kbuddy h) \<and> {unat p ..< unat p + unat sz} \<subseteq> large_block h' p"
      using kmalloc_buddy_live [OF inv sz res ok(1)] by blast
    moreover have "{unat p ..< unat p + unat sz} \<inter> buddy_free_bytes (kbuddy h') = {}" using sub ba(3) by blast
    ultimately show ?thesis using ok(9,11) keeps unfolding heap_grant_def by (simp only: simp_thms) blast
  qed
  then show ?thesis using res by blast
qed

text \<open>The slab path: the provider of pages is the pool itself.\<close>

lemma kmalloc_slab_grant:
  assumes inv: "kheap_inv h"
  shows "\<exists>p s h1. slab_alloc kmalloc_page sz (kslabs h) h = Some (p, s, h1)
    \<and> heap_grant h sz p (h1\<lparr>kslabs := s\<rparr>) \<and> (p = 0 \<longrightarrow> h1\<lparr>kslabs := s\<rparr> = h)"
proof -
  have s0: "slab_inv (kslabs h)" using inv by (simp add: kheap_inv_def)
  obtain page h' where pg: "kmalloc_page h = Some (page, h')"
    using kmalloc_buddy_total [of 4096 True h] unfolding kmalloc_page_def by auto
  note ps = kmalloc_page_spec [OF inv pg]
  have keeps: "heap_keeps h h'" using kmalloc_buddy_keeps [OF inv pg [unfolded kmalloc_page_def]] by simp
  have pgc: "page \<noteq> 0 \<longrightarrow> page_base page \<and> pages (kslabs h) page = None" using ps(2) by blast
  from slab_alloc_spec [of "kslabs h" kmalloc_page h page h' sz, OF s0 pg pgc] obtain p s h1 where
    r: "slab_alloc kmalloc_page sz (kslabs h) h = Some (p, s, h1)" "slab_inv s"
      "p = 0 \<longrightarrow> s = kslabs h"
      "p \<noteq> 0 \<longrightarrow> p \<notin> live (kslabs h) \<and> live s = insert p (live (kslabs h))
          \<and> {unat p ..< unat p + unat sz} \<subseteq> obj_bytes s p
          \<and> (\<forall>q \<in> live (kslabs h). obj_bytes s q \<inter> obj_bytes s p = {})"
      "p = 0 \<longleftrightarrow> 2048 < unat sz \<or> page = 0 \<and> class_full (kslabs h) sz"
    and d: "h1 = h \<and> dom (pages s) = dom (pages (kslabs h))
        \<or> page \<noteq> 0 \<and> h1 = h' \<and> dom (pages s) = insert page (dom (pages (kslabs h)))
        \<or> page = 0 \<and> h1 = h' \<and> s = kslabs h"
    by (elim exE conjE) blast
  have h1: "kheap_inv h1" "buddy_free_bytes (kbuddy h1) \<subseteq> buddy_free_bytes (kbuddy h)"
    "kslabs h1 = kslabs h"
    using d inv ps(3,4,6) by blast+
  have pb: "page_bytes a \<inter> buddy_free_bytes (kbuddy h1) = {}" if "a \<in> dom (pages s)" for a
  proof (cases "a = page \<and> page \<noteq> 0 \<and> h1 = h'")
    case True
    then show ?thesis using ps(2) by simp
  next
    case False
    then have "a \<in> dom (pages (kslabs h1))" using d that h1(3) by auto
    then show ?thesis using h1(1) by (auto simp: kheap_inv_def)
  qed
  then have inv': "kheap_inv (h1\<lparr>kslabs := s\<rparr>)"
    using h1(1) r(2) unfolding kheap_inv_def by (simp add: domI)
  have null: "p = 0 \<longrightarrow> h1\<lparr>kslabs := s\<rparr> = h"
  proof
    assume p0: "p = 0"
    then have "s = kslabs h" using r(3) by simp
    moreover have "h1 = h"
      using d
    proof (elim disjE conjE)
      assume "page \<noteq> 0" "dom (pages s) = insert page (dom (pages (kslabs h)))"
      then show ?thesis using pgc \<open>s = kslabs h\<close> by auto
    qed (use ps(1) in simp_all)
    ultimately show "h1\<lparr>kslabs := s\<rparr> = h" by simp
  qed
  have k1: "heap_keeps h h1" using d keeps by (auto simp: heap_keeps_def)
  have pd: "a \<in> dom (pages (kslabs h)) \<or> page_bytes a \<subseteq> buddy_free_bytes (kbuddy h)" if "a \<in> dom (pages s)" for a
    using d that ps(7) by (elim disjE conjE) auto
  have k2: "heap_keeps h (h1\<lparr>kslabs := s\<rparr>)" using k1 pd by (simp add: heap_keeps_def)
  have sub: "{unat p ..< unat p + unat sz} \<subseteq> page_bytes (slab_of p) \<and> slab_of p \<in> dom (pages s)" if "p \<noteq> 0"
  proof -
    have "p \<in> live s" using r(4) that by simp
    then obtain hd where hd: "pages s (slab_of p) = Some hd" "p \<in> slab_live (slab_of p) (class_size s hd) hd"
      unfolding live_iff [OF r(2)] by blast
    from page_of_slab [OF r(2) hd] show ?thesis using r(4) that hd(1) by blast
  qed
  have "{unat p ..< unat p + unat sz} \<inter> buddy_free_bytes (kbuddy h1) = {}" if "p \<noteq> 0"
  proof -
    have "p \<in> live (kslabs (h1\<lparr>kslabs := s\<rparr>))" using r(4) that by simp
    from live_not_free [OF inv' this] show ?thesis using r(4) that by auto
  qed
  moreover have "p \<noteq> 0 \<longrightarrow> (\<forall>q \<in> live (kslabs h). {unat p ..< unat p + unat sz} \<inter> obj_bytes s q = {})"
    using r(4) by blast
  ultimately have "heap_grant h sz p (h1\<lparr>kslabs := s\<rparr>)"
    using inv' r(3,4) k2 sub pd unfolding heap_grant_def by (cases "p = 0") (simp, simp, blast)
  then show ?thesis using r(1) null by blast
qed

lemma kmalloc_real_grant:
  assumes inv: "kheap_inv h" and sz: "unat sz + 4120 \<le> 2 ^ 31"
  shows "\<exists>p h'. kmalloc_real sz al h = Some (p, h') \<and> heap_grant h sz p h'
    \<and> (p \<noteq> 0 \<and> al \<longrightarrow> unat p mod 4096 = 4)"
proof (cases "slab_is_initialized h \<and> sz \<le> 2048 \<and> \<not> al")
  case False
  then have "kmalloc_real sz al h = kmalloc_buddy sz al h" by (auto simp: kmalloc_real_def)
  then show ?thesis using kmalloc_buddy_grant [OF inv sz] by fastforce
next
  case True
  obtain p s h1 where s: "slab_alloc kmalloc_page sz (kslabs h) h = Some (p, s, h1)"
    "heap_grant h sz p (h1\<lparr>kslabs := s\<rparr>)" "p = 0 \<longrightarrow> h1\<lparr>kslabs := s\<rparr> = h"
    using kmalloc_slab_grant [OF inv] by blast
  show ?thesis
  proof (cases "p = 0")
    case False
    then show ?thesis using s True by (simp add: kmalloc_real_def)
  next
    case p0: True
    then have "kmalloc_real sz al h = kmalloc_buddy sz al h"
      using s True by (simp add: kmalloc_real_def)
    then show ?thesis using kmalloc_buddy_grant [OF inv sz] by fastforce
  qed
qed


text \<open>The heap of the witnesses: sixteen megabytes of pool, empty slabs, no memory written.\<close>

definition empty_heap :: kheap where
  "empty_heap = \<lparr>start_address = 0, end_address = 0, max_address = 0,
     kbuddy = \<lparr>start_addr = 0, end_addr = 0, free_lists = []\<rparr>, words = (\<lambda>_. 0),
     kslabs = slab_init \<lparr>slab_caches = [], pages = Map.empty\<rparr>, slab_is_initialized = True\<rparr>"

definition demo_heap :: kheap where
  "demo_heap = empty_heap\<lparr>start_address := 0xD0000000, end_address := 0xD1000000, max_address := 0xD1000000,
     kbuddy := \<lparr>start_addr = 0xD0000000, end_addr = 0xD1000000,
       free_lists = replicate 12 [] @ [[0xD0000000]] @ replicate 4 []\<rparr>\<rparr>"

lemma demo_buddy_init_heap:
  "buddy_init 0xD0000000 0xD1000000 = Some (kbuddy demo_heap)"
  by code_simp

lemma demo_heap_inv: "kheap_inv demo_heap"
proof -
  have "buddy_inv (kbuddy demo_heap)"
    using buddy_init_ok [of "0xD0000000" "0xD1000000"] demo_buddy_init_heap by auto
  then show ?thesis
    using slab_init_inv by (simp add: kheap_inv_def demo_heap_def empty_heap_def slab_init_def)
qed

subsection \<open>Release\<close>

lemma kfree_buddy_large:
  assumes inv: "kheap_inv h" and l: "large_live h p"
  shows "\<exists>h'. kfree_buddy p h = Some h' \<and> kheap_inv h'
    \<and> buddy_free_bytes (kbuddy h') = buddy_free_bytes (kbuddy h) \<union> large_block h p
    \<and> kslabs h' = kslabs h \<and> words h' (words h (p - 4) + 16) = 0xBADB00B5
    \<and> slab_is_initialized h' = slab_is_initialized h
    \<and> start_address h' = start_address h \<and> end_address h' = end_address h"
proof -
  let ?bp = "words h (p - 4)"
  let ?sz = "words h (?bp + 8)"
  let ?g = "buddy_granted (kbuddy h) ?sz ?bp"
  have l': "?bp \<noteq> 0" "words h (?bp + 16) = HEAP_MAGIC" "unat ?sz \<le> 2 ^ 28" "?g \<noteq> {}"
    "buddy_free_bytes (kbuddy h) \<inter> ?g = {}"
    "\<forall>a \<in> dom (pages (kslabs h)). page_bytes a \<inter> ?g = {}"
    using l by (simp_all add: large_live_def Let_def)
  have hb: "buddy_inv (kbuddy h)" using inv by (simp add: kheap_inv_def)
  from buddy_free_granted [OF hb l'(3,4,5,1)] obtain b where b: "buddy_free ?bp ?sz (kbuddy h) = Some b"
    "buddy_inv b" "buddy_free_bytes b = buddy_free_bytes (kbuddy h) \<union> ?g"
    "start_addr b = start_addr (kbuddy h)" "end_addr b = end_addr (kbuddy h)" by blast
  obtain k where "fits (start_addr (kbuddy h)) (end_addr (kbuddy h)) k ?bp"
    using buddy_granted_fits [OF l'(4)] by blast
  then have "\<not> ?bp < start_address h" "\<not> ?bp > end_address h"
    using inv by (auto simp: fits_def kheap_inv_def word_less_nat_alt)
  then have eq: "kfree_buddy p h = Some (h\<lparr>kbuddy := b, words := (words h)(?bp + 12 := words h (?bp + 12) AND 0xFFFFFF00,
      ?bp + 16 := 0xBADB00B5)\<rparr>)"
    using l'(2) b(1) by (simp add: kfree_buddy_def Let_def)
  moreover have "kheap_inv (h\<lparr>kbuddy := b, words := (words h)(?bp + 12 := words h (?bp + 12) AND 0xFFFFFF00,
      ?bp + 16 := 0xBADB00B5)\<rparr>)"
  proof -
    have "page_bytes a \<inter> (buddy_free_bytes (kbuddy h) \<union> ?g) = {}"
      if "pages (kslabs h) a = Some hd" for a hd
      using inv l'(6) that unfolding kheap_inv_def by (simp add: Int_Un_distrib domI)
    then show ?thesis using inv b(2-5) by (simp add: kheap_inv_def)
  qed
  ultimately show ?thesis unfolding large_block_def using b(3) by auto
qed

lemma kfree_large:
  assumes "large_live h p"
  shows "kfree p h = kfree_buddy p h"
proof (cases "slab_is_initialized h")
  case True
  have "p \<noteq> 0" "pages (kslabs h) (slab_of p) = None" "words h (slab_of p) \<noteq> SLAB_MAGIC"
    using assms by (simp_all add: large_live_def Let_def)
  then have "slab_free (words h) p (kslabs h) = Some (False, kslabs h)"
    by (simp add: slab_free_def slab_of_def Let_def)
  then show ?thesis
    using True \<open>p \<noteq> 0\<close> \<open>pages (kslabs h) (slab_of p) = None\<close> by (simp add: kfree_def)
qed (use assms in \<open>simp add: kfree_def large_live_def Let_def\<close>)

subsection \<open>Properties of allocation and release\<close>

text \<open>
  Heap round trip: a non-null \<open>kmalloc_real\<close> of more than 2048 bytes, or of any size
  with the alignment flag, takes a whole block out of the free bytes of the pool, and
  \<open>kfree\<close> of the result finds the block again and gives exactly the old free bytes back.
\<close>

theorem kmalloc_kfree_roundtrip:
  assumes "kheap_inv h" "unat sz + 4120 \<le> 2 ^ 31" "al \<or> 2048 < sz"
    "kmalloc_real sz al h = Some (p, h')" "p \<noteq> 0"
  shows "{unat p ..< unat p + unat sz} \<subseteq> buddy_free_bytes (kbuddy h) - buddy_free_bytes (kbuddy h')
    \<and> (\<exists>h''. kfree p h' = Some h'' \<and> kheap_inv h''
         \<and> buddy_free_bytes (kbuddy h'') = buddy_free_bytes (kbuddy h))"
proof -
  have "\<not> (slab_is_initialized h \<and> sz \<le> 2048 \<and> \<not> al)" using assms(3) by auto
  then have "kmalloc_buddy sz al h = Some (p, h')" using assms(4) unfolding kmalloc_real_def by argo
  from kmalloc_buddy_live [OF assms(1,2) this assms(5)]
  have l: "kheap_inv h'" "large_live h' p"
    "buddy_free_bytes (kbuddy h') \<union> large_block h' p = buddy_free_bytes (kbuddy h)"
    "{unat p ..< unat p + unat sz} \<subseteq> large_block h' p" by simp_all
  have "buddy_free_bytes (kbuddy h') \<inter> large_block h' p = {}"
    using l(2) by (simp add: large_live_def large_block_def Let_def)
  moreover obtain h'' where "kfree p h' = Some h''" "kheap_inv h''"
      "buddy_free_bytes (kbuddy h'') = buddy_free_bytes (kbuddy h') \<union> large_block h' p"
    using kfree_buddy_large [OF l(1,2)] kfree_large [OF l(2)] by auto
  ultimately show ?thesis using l(3,4) by blast
qed

lemma demo_heap_alloc:
  "\<exists>h'. kmalloc_real 5000 False demo_heap = Some (0xD0000018, h')"
proof -
  have "map_option fst (buddy_alloc (required_size 5000 False) (kbuddy demo_heap)) = Some 0xD0000000"
    by code_simp
  then obtain b where "buddy_alloc (required_size 5000 False) (kbuddy demo_heap) = Some (0xD0000000, b)"
    by auto
  moreover have "align_data False (0xD0000000 + HEADER_SIZE) = 0xD0000018" by code_simp
  ultimately show ?thesis by (simp add: kmalloc_real_def kmalloc_buddy_eq)
qed


theorem kmalloc_kfree_roundtrip_witness:
  "\<exists>h' h''. kmalloc_real 5000 False demo_heap = Some (0xD0000018, h') \<and> kfree 0xD0000018 h' = Some h''
     \<and> buddy_free_bytes (kbuddy h'') = buddy_free_bytes (kbuddy demo_heap)"
proof -
  obtain h' where "kmalloc_real 5000 False demo_heap = Some (0xD0000018, h')"
    using demo_heap_alloc by blast
  with kmalloc_kfree_roundtrip [OF demo_heap_inv _ _ this] show ?thesis by auto
qed

text \<open>
  Double free of a large block is caught: after \<open>kfree\<close> of a live large allocation whose
  hidden pointer is not inside the header being rewritten, the magic is gone, and a second
  \<open>kfree\<close> of the same address (before the block is handed out again) changes nothing.
\<close>

theorem kfree_twice_ignored:
  assumes "kheap_inv h" "large_live h p" "p - 4 \<notin> {words h (p - 4) + 12, words h (p - 4) + 16}"
    "slab_of p \<notin> {words h (p - 4) + 12, words h (p - 4) + 16}"
    "kfree p h = Some h'"
  shows "kfree p h' = Some h'"
proof -
  let ?bp = "words h (p - 4)"
  obtain b where eq: "h' = h\<lparr>kbuddy := b, words := (words h)(?bp + 12 := words h (?bp + 12) AND 0xFFFFFF00,
      ?bp + 16 := 0xBADB00B5)\<rparr>"
  proof -
    have "kfree_buddy p h = Some h'" using assms(5) kfree_large [OF assms(2)] by simp
    moreover have "words h (?bp + 16) = HEAP_MAGIC" using assms(2) by (simp add: large_live_def Let_def)
    moreover have "\<not> (?bp < start_address h \<or> ?bp > end_address h)"
    proof -
      have "buddy_granted (kbuddy h) (words h (?bp + 8)) ?bp \<noteq> {}"
        using assms(2) by (simp add: large_live_def Let_def)
      then obtain k where "fits (start_addr (kbuddy h)) (end_addr (kbuddy h)) k ?bp"
        using buddy_granted_fits by blast
      then show ?thesis using assms(1) by (auto simp: fits_def kheap_inv_def word_less_nat_alt)
    qed
    ultimately show ?thesis using that by (auto simp: kfree_buddy_def Let_def)
  qed
  have p: "p \<noteq> 0" "pages (kslabs h) (slab_of p) = None" "words h (slab_of p) \<noteq> SLAB_MAGIC"
    using assms(2) by (simp_all add: large_live_def Let_def)
  have w: "words h' (p - 4) = ?bp" "words h' (?bp + 16) = 0xBADB00B5"
    "words h' (slab_of p) = words h (slab_of p)"
    using assms(3,4) by (simp_all add: eq)
  then have "kfree_buddy p h' = Some h'" by (simp add: kfree_buddy_def Let_def)
  moreover have "slab_free (words h') p (kslabs h') = Some (False, kslabs h')"
    using p w(3) by (simp add: slab_free_def slab_of_def [symmetric] Let_def eq)
  ultimately show ?thesis using p by (simp add: kfree_def eq)
qed

theorem kfree_twice_ignored_witness:
  "\<exists>h1 h2. kmalloc_real 5000 False demo_heap = Some (0xD0000018, h1) \<and> kfree 0xD0000018 h1 = Some h2
     \<and> kfree 0xD0000018 h2 = Some h2"
proof -
  obtain h1 where h1: "kmalloc_real 5000 False demo_heap = Some (0xD0000018, h1)"
    using demo_heap_alloc by blast
  then have r: "kmalloc_buddy 5000 False demo_heap = Some (0xD0000018, h1)"
    by (simp add: kmalloc_real_def)
  have "unat (5000 :: u32) + 4120 \<le> 2 ^ 31" by simp
  from kmalloc_buddy_live [OF demo_heap_inv this r]
  have l: "kheap_inv h1" "large_live h1 0xD0000018" by simp_all
  have b: "unat (5000 :: u32) + 4120 \<le> 4294967295" by simp
  have w: "words h1 (0xD0000018 - 4) = 0xD0000000"
    using demo_heap_inv r b
  proof (cases rule: kmalloc_buddy_cases)
    case (ok bp)
    then have "bp = 0xD0000000" by (simp add: word_unat_eq_iff)
    then show ?thesis using ok(8) by (simp add: write_header_def)
  qed simp
  obtain h2 where h2: "kfree 0xD0000018 h1 = Some h2"
    using kfree_buddy_large [OF l] kfree_large [OF l(2)] by auto
  have "slab_of 0xD0000018 = 0xD0000004" by code_simp
  then have "kfree 0xD0000018 h2 = Some h2"
    using kfree_twice_ignored [OF l _ _ h2] w by simp
  then show ?thesis using h1 h2 by blast
qed

text \<open>
  The alignment flag does not give page-aligned memory: every non-null result of
  \<open>kmalloc_real\<close> with \<open>align\<close> set lies 4 bytes past a page boundary.
\<close>

theorem kmalloc_aligned_off_by_four:
  assumes "kheap_inv h" "unat sz + 4120 \<le> 2 ^ 31"
  shows "\<exists>p h'. kmalloc_real sz True h = Some (p, h') \<and> (p \<noteq> 0 \<longrightarrow> unat p mod 4096 = 4)"
  using kmalloc_real_grant [OF assms, of True] by auto

theorem kmalloc_aligned_off_by_four_witness:
  "\<exists>p h'. kmalloc_real 4096 True demo_heap = Some (p, h') \<and> (p \<noteq> 0 \<longrightarrow> unat p mod 4096 = 4)"
  by (rule kmalloc_aligned_off_by_four [OF demo_heap_inv]) simp

text \<open>
  The size computation wraps: for a request within 24 bytes of 4 GB the 32-bit
  \<open>required_size\<close> is below 24, the pool grants one 4096-byte block, and the caller gets a
  non-null pointer to a range that leaves the address space.
\<close>

theorem kmalloc_size_wraps:
  assumes inv: "kheap_inv h" and sz: "2 ^ 32 - 24 \<le> unat sz"
    and free: "blocks (free_lists (kbuddy h)) \<noteq> {}"
  shows "\<exists>p h'. kmalloc_real sz False h = Some (p, h') \<and> p \<noteq> 0
    \<and> card (buddy_free_bytes (kbuddy h) - buddy_free_bytes (kbuddy h')) = 4096
    \<and> 2 ^ 32 < unat p + unat sz"
proof -
  let ?r = "required_size sz False"
  have hb: "buddy_inv (kbuddy h)" using inv by (simp add: kheap_inv_def)
  have lt: "unat sz < 2 ^ 32" using unat_u32_bound [of sz] by simp
  define n where "n = unat sz - (2 ^ 32 - 24)"
  have n: "unat sz + 24 = 2 ^ 32 + n" "n < 24" using sz lt by (simp_all add: n_def)
  have "unat ?r = (unat sz + 24) mod 2 ^ 32"
    unfolding required_size_def
    by (simp add: unat_word_ariths mod_simps) (simp only: add.commute)
  then have r: "unat ?r = n" unfolding n(1) using n(2) by simp
  obtain k where k: "get_order ?r = Some k" "is_order n k" using get_order_Some [of ?r] r n(2) by auto
  have "k \<le> 5" using is_order_le [OF k(2), of 5] n(2) by simp
  then have m: "max 12 k = 12" "k - 12 = 0" by simp_all
  have len: "length (free_lists (kbuddy h)) = 17" using hb by (simp add: buddy_inv_def lists_ok_def)
  obtain bp b where a: "buddy_alloc_order k (kbuddy h) = (bp, b)" by fastforce
  have bp: "bp \<noteq> 0"
  proof (cases k "kbuddy h" rule: buddy_alloc_order_cases)
    case none
    then show ?thesis using free len m(2) by (auto simp: blocks_def)
  next
    case (some i)
    then show ?thesis using buddy_alloc_order_ok(7) [OF hb some a] by simp
  qed
  have al: "buddy_alloc ?r (kbuddy h) = Some (bp, b)" using k(1) a by (simp add: buddy_alloc_def)
  note ba = buddy_alloc_ok [OF hb al bp]
  have g: "fits (start_addr (kbuddy h)) (end_addr (kbuddy h)) 12 bp" "buddy_granted (kbuddy h) ?r bp = blk 12 bp"
    using buddy_granted_fits [OF ba(8)] k(1) m(1) by auto
  have "4096 dvd unat bp" using fits_aligned [OF g(1)] inv by (simp add: kheap_inv_def)
  moreover have "unat bp + 4096 \<le> 4294967296"
    using g(1) unat_u32_bound [of "end_addr (kbuddy h)"] by (simp add: fits_def)
  ultimately have p: "unat (align_data False (bp + HEADER_SIZE)) = unat bp + 24"
    using align_data_unat [of bp False] by simp
  have "\<not> sz \<le> 2048" "sz \<noteq> 0" using sz by (auto simp: word_le_nat_alt)
  then obtain h' where res: "kmalloc_real sz False h = Some (align_data False (bp + HEADER_SIZE), h')" "kbuddy h' = b"
    using al bp by (simp add: kmalloc_real_def kmalloc_buddy_eq)
  have "buddy_free_bytes (kbuddy h) - buddy_free_bytes b = blk 12 bp" using ba(2,3) g(2) by blast
  then have "card (buddy_free_bytes (kbuddy h) - buddy_free_bytes (kbuddy h')) = 4096"
    using res(2) by (simp add: blk_def)
  moreover have "0 < unat bp" using bp by (simp add: unat_gt_0)
  moreover have "2 ^ 32 < unat (align_data False (bp + HEADER_SIZE)) + unat sz"
    using p sz \<open>0 < unat bp\<close> by linarith
  moreover have "align_data False (bp + HEADER_SIZE) \<noteq> 0" using p by auto
  ultimately show ?thesis using res(1) by blast
qed

theorem kmalloc_size_wraps_witness:
  "\<exists>p h'. kmalloc_real 0xFFFFFFF0 False demo_heap = Some (p, h') \<and> 2 ^ 32 < unat p + unat (0xFFFFFFF0 :: u32)"
proof -
  have "(12, 0xD0000000) \<in> blocks (free_lists (kbuddy demo_heap))"
    by (simp add: blocks_def demo_heap_def empty_heap_def nth_append)
  then have "blocks (free_lists (kbuddy demo_heap)) \<noteq> {}" by blast
  from kmalloc_size_wraps [OF demo_heap_inv _ this, of "0xFFFFFFF0"] show ?thesis by auto
qed

text \<open>
  The placement allocator: while the break stays below 4 GB, each call returns a range that
  starts at or above the old break and ends at the new one, so two calls never overlap; with the
  alignment flag (and a break past the first page) the result is page aligned, but a break that
  is already aligned is moved one whole page further.
\<close>

theorem placement_kmalloc_disjoint:
  assumes "unat (free_mem_addr m) + 4096 + unat sz < 2 ^ 32"
  shows "\<exists>p m'. placement_kmalloc sz al m = (p, m') \<and> unat (free_mem_addr m) \<le> unat p
    \<and> unat p \<le> unat (free_mem_addr m) + 4096 \<and> unat (free_mem_addr m') = unat p + unat sz
    \<and> (al \<and> 4096 \<le> unat (free_mem_addr m) \<longrightarrow> 4096 dvd unat p)
    \<and> (al \<and> 4096 \<le> unat (free_mem_addr m) \<and> 4096 dvd unat (free_mem_addr m)
         \<longrightarrow> unat p = unat (free_mem_addr m) + 4096)"
proof -
  let ?a = "free_mem_addr m"
  have k: "unat (?a AND 0xFFFFF000) = unat ?a div 4096 * 4096" by (rule unat_page_mask)
  have q: "unat ?a div 4096 * 4096 \<le> unat ?a" "unat ?a < unat ?a div 4096 * 4096 + 4096"
    using div_mult_mod_eq [of "unat ?a" 4096] mod_less_divisor [of 4096 "unat ?a"] by linarith+
  show ?thesis
  proof (cases "al \<and> ?a AND 0xFFFFF000 \<noteq> 0")
    case True
    let ?p = "(?a AND 0xFFFFF000) + 0x1000"
    have u: "unat ?p = unat ?a div 4096 * 4096 + 4096"
      using k q assms by (subst unat_add_small) simp_all
    then have "unat (?p + sz) = unat ?p + unat sz" using q assms by (intro unat_add_small) simp
    moreover have "4096 dvd unat ?p" using u by simp
    ultimately show ?thesis
      using True u q by (auto simp: placement_kmalloc_def Let_def elim!: dvdE)
  next
    case False
    have "unat (?a + sz) = unat ?a + unat sz" using assms by (intro unat_add_small) simp
    moreover have "\<not> (al \<and> 4096 \<le> unat ?a)"
    proof
      assume a: "al \<and> 4096 \<le> unat ?a"
      then have "0 < unat ?a div 4096" by (simp add: div_greater_zero_iff)
      then have "?a AND 0xFFFFF000 \<noteq> 0" using k by auto
      then show False using False a by simp
    qed
    ultimately show ?thesis using False by (auto simp: placement_kmalloc_def Let_def)
  qed
qed

theorem placement_kmalloc_disjoint_witness:
  "fst (placement_kmalloc 16 True \<lparr>free_mem_addr = 0xC0700000, heap_ready = False, the_heap = empty_heap\<rparr>) = 0xC0701000"
  using placement_kmalloc_disjoint [of "\<lparr>free_mem_addr = 0xC0700000, heap_ready = False, the_heap = empty_heap\<rparr>" 16 True]
  by (auto simp: word_unat_eq_iff)

end
