(* ===== verification/Frame_Interface.thy ===== *)
theory Frame_Interface
  imports Prelude
begin

text \<open>
  The contract between the physical frame allocator and the code that takes frames from it
  (page tables, shared memory, process creation): what a successful allocation returns, what
  the null result means, and what freeing gives back. Addresses are physical byte addresses;
  the abstraction is the set of frame numbers in use below a limit.
\<close>

locale frame_allocator =
  fixes inv :: "'s \<Rightarrow> bool"
    and used :: "'s \<Rightarrow> nat set"
    and limit :: "'s \<Rightarrow> nat"
    and alloc :: "'s \<Rightarrow> u32 \<times> 's"
    and release :: "u32 \<Rightarrow> 's \<Rightarrow> 's"
  assumes alloc_inv: "inv s \<Longrightarrow> inv (snd (alloc s))"
    and alloc_limit: "inv s \<Longrightarrow> limit (snd (alloc s)) = limit s"
    and alloc_frame: "inv s \<Longrightarrow> fst (alloc s) \<noteq> 0 \<Longrightarrow>
      \<exists>f. unat (fst (alloc s)) = f * 4096 \<and> f < limit s \<and> f \<notin> used s
        \<and> used (snd (alloc s)) = insert f (used s)"
    and alloc_null: "inv s \<Longrightarrow> fst (alloc s) = 0 \<Longrightarrow>
      used s \<subseteq> used (snd (alloc s)) \<and> used (snd (alloc s)) \<subseteq> insert 0 (used s)"
    and release_inv: "inv s \<Longrightarrow> unat p div 4096 < limit s \<Longrightarrow> inv (release p s)"
    and release_limit: "inv s \<Longrightarrow> unat p div 4096 < limit s \<Longrightarrow> limit (release p s) = limit s"
    and release_used: "inv s \<Longrightarrow> unat p div 4096 < limit s \<Longrightarrow>
      used (release p s) = used s - {unat p div 4096}"
begin

lemma alloc_mono: "inv s \<Longrightarrow> used s \<subseteq> used (snd (alloc s))"
  using alloc_frame alloc_null by (cases "fst (alloc s) = 0") blast+

lemma alloc_aligned: "inv s \<Longrightarrow> unat (fst (alloc s)) mod 4096 = 0"
  using alloc_frame [of s] by (cases "fst (alloc s) = 0") auto

text \<open>Giving back what was just taken restores the set of used frames.\<close>

lemma alloc_release:
  assumes "inv s" "fst (alloc s) \<noteq> 0"
  shows "used (release (fst (alloc s)) (snd (alloc s))) = used s"
proof -
  obtain f where f: "unat (fst (alloc s)) = f * 4096" "f < limit s" "f \<notin> used s"
    "used (snd (alloc s)) = insert f (used s)"
    using alloc_frame [OF assms] by blast
  then have "unat (fst (alloc s)) div 4096 = f" by simp
  then show ?thesis
    using release_used [OF alloc_inv [OF assms(1)], of "fst (alloc s)"]
      alloc_limit [OF assms(1)] f by simp
qed

text \<open>A client that takes \<open>n\<close> frames one after the other.\<close>

primrec alloc_n :: "nat \<Rightarrow> 's \<Rightarrow> u32 list \<times> 's" where
  "alloc_n 0 s = ([], s)"
| "alloc_n (Suc n) s =
     (let (p, s') = alloc s; (ps, s'') = alloc_n n s' in (p # ps, s''))"

lemma alloc_n_spec:
  assumes "inv s" "0 \<notin> set (fst (alloc_n n s))"
  shows "inv (snd (alloc_n n s)) \<and> distinct (fst (alloc_n n s))
    \<and> (\<forall>p \<in> set (fst (alloc_n n s)). unat p mod 4096 = 0 \<and> unat p div 4096 \<notin> used s)
    \<and> used (snd (alloc_n n s)) = used s \<union> (\<lambda>p. unat p div 4096) ` set (fst (alloc_n n s))"
  using assms
proof (induction n arbitrary: s)
  case 0
  then show ?case by simp
next
  case (Suc n)
  obtain p s' where a: "alloc s = (p, s')" by (cases "alloc s")
  obtain ps s'' where r: "alloc_n n s' = (ps, s'')" by (cases "alloc_n n s'")
  have p0: "p \<noteq> 0" and ps0: "0 \<notin> set ps" using Suc.prems(2) a r by (auto split: prod.splits)
  obtain f where f: "unat p = f * 4096" "f < limit s" "f \<notin> used s" "used s' = insert f (used s)"
    using alloc_frame [OF Suc.prems(1)] a p0 by auto
  have "inv s'" using alloc_inv [OF Suc.prems(1)] a by simp
  from Suc.IH [OF this] r ps0 have IH: "inv s''" "distinct ps"
    "\<forall>q \<in> set ps. unat q mod 4096 = 0 \<and> unat q div 4096 \<notin> used s'"
    "used s'' = used s' \<union> (\<lambda>p. unat p div 4096) ` set ps"
    by simp_all
  have "p \<notin> set ps" using IH(3) f by auto
  then show ?case using IH f a r by auto
qed

end

end
