(* ===== verification/Pmm.thy ===== *)
theory Pmm
  imports Frame_Interface
begin

text \<open>
  The physical frame allocator, \<open>src/kernel/pmm.cpp\<close>. The bitmap is a raw pointer into
  memory (\<open>uint32_t *pmm_bitmap\<close>), so it is modelled as the words of memory from that
  pointer on, a function from the word index; nothing in the code checks an index against the
  number of frames. Frame numbers are \<open>int\<close> in the code but stay below \<open>2^21\<close>
  (a 32-bit address divided by 4096, plus at most as many blocks again), so they are \<open>nat\<close>
  here; the counters stay 32-bit words. The abstraction of the state is the set of used frames
  below \<open>pmm_max_blocks\<close>.
\<close>

subsection \<open>State and bitmap primitives\<close>

record pmm =
  pmm_bitmap :: "nat \<Rightarrow> u32"
  pmm_mem_size :: u32
  pmm_max_blocks :: u32
  pmm_used_blocks :: u32
  alloc_count :: u32

abbreviation PMM_BLOCK_SIZE :: nat where
  "PMM_BLOCK_SIZE \<equiv> 4096"

definition mmap_set :: "nat \<Rightarrow> pmm \<Rightarrow> pmm" where
  "mmap_set b s = s\<lparr>pmm_bitmap := (pmm_bitmap s)
     (b div 32 := pmm_bitmap s (b div 32) OR push_bit (b mod 32) 1)\<rparr>"

definition mmap_unset :: "nat \<Rightarrow> pmm \<Rightarrow> pmm" where
  "mmap_unset b s = s\<lparr>pmm_bitmap := (pmm_bitmap s)
     (b div 32 := pmm_bitmap s (b div 32) AND NOT (push_bit (b mod 32) 1))\<rparr>"

definition mmap_test :: "nat \<Rightarrow> pmm \<Rightarrow> bool" where
  "mmap_test b s \<longleftrightarrow> pmm_bitmap s (b div 32) AND push_bit (b mod 32) 1 \<noteq> 0"

text \<open>The inner loop over the bits of one word, then the outer loop over the words.\<close>

definition word_first_free :: "u32 \<Rightarrow> nat option" where
  "word_first_free w = first_idx (\<lambda>j. w AND push_bit j 1 = 0) [0..<32]"

function mmap_scan :: "(nat \<Rightarrow> u32) \<Rightarrow> nat \<Rightarrow> nat \<Rightarrow> nat option" where
  "mmap_scan bm i n =
     (if i < n then
        (if bm i \<noteq> 0xFFFFFFFF then
           (case word_first_free (bm i) of
              Some j \<Rightarrow> Some (i * 32 + j)
            | None \<Rightarrow> mmap_scan bm (Suc i) n)
         else mmap_scan bm (Suc i) n)
      else None)"
  by pat_completeness auto
termination
  by (relation "measure (\<lambda>(bm, i, n). n - i)") auto

declare mmap_scan.simps [simp del]

text \<open>\<open>None\<close> is the code's \<open>-1\<close>.\<close>

definition mmap_first_free :: "pmm \<Rightarrow> nat option" where
  "mmap_first_free s = mmap_scan (pmm_bitmap s) 0 (unat (pmm_max_blocks s) div 32)"

subsection \<open>Operations\<close>

text \<open>
  \<open>memset\<close> of \<open>n\<close> bytes over the words from the pointer on (little endian, so a
  partly covered word loses its low bytes).
\<close>

definition memset_zero :: "nat \<Rightarrow> (nat \<Rightarrow> u32) \<Rightarrow> (nat \<Rightarrow> u32)" where
  "memset_zero n bm = (\<lambda>i. if 4 * i + 4 \<le> n then 0
     else if 4 * i < n then push_bit (8 * (n - 4 * i)) (drop_bit (8 * (n - 4 * i)) (bm i))
     else bm i)"

definition pmm_init :: "u32 \<Rightarrow> (nat \<Rightarrow> u32) \<Rightarrow> pmm" where
  "pmm_init mem_size bitmap =
     (let max_blocks = mem_size div 4096;
          bitmap_size = max_blocks div 8
      in \<lparr>pmm_bitmap = memset_zero (unat bitmap_size) bitmap, pmm_mem_size = mem_size,
          pmm_max_blocks = max_blocks, pmm_used_blocks = 0, alloc_count = 0\<rparr>)"

definition blocks_of :: "u32 \<Rightarrow> u32" where
  "blocks_of sz = (if sz mod 4096 \<noteq> 0 then sz div 4096 + 1 else sz div 4096)"

definition mark_used_step :: "nat \<Rightarrow> pmm \<Rightarrow> pmm" where
  "mark_used_step b s =
     (if \<not> mmap_test b s
      then (mmap_set b s)\<lparr>pmm_used_blocks := pmm_used_blocks s + 1\<rparr> else s)"

definition mark_free_step :: "nat \<Rightarrow> pmm \<Rightarrow> pmm" where
  "mark_free_step b s =
     (if mmap_test b s
      then (mmap_unset b s)\<lparr>pmm_used_blocks := pmm_used_blocks s - 1\<rparr> else s)"

text \<open>The loop \<open>for (; blocks > 0; blocks--) { ... align++; }\<close>.\<close>

fun for_blocks :: "(nat \<Rightarrow> pmm \<Rightarrow> pmm) \<Rightarrow> nat \<Rightarrow> nat \<Rightarrow> pmm \<Rightarrow> pmm" where
  "for_blocks f b 0 s = s"
| "for_blocks f b (Suc n) s = for_blocks f (Suc b) n (f b s)"

definition pmm_mark_region_used :: "u32 \<Rightarrow> u32 \<Rightarrow> pmm \<Rightarrow> pmm" where
  "pmm_mark_region_used base sz s =
     for_blocks mark_used_step (unat (base div 4096)) (unat (blocks_of sz)) s"

definition pmm_mark_region_free :: "u32 \<Rightarrow> u32 \<Rightarrow> pmm \<Rightarrow> pmm" where
  "pmm_mark_region_free base sz s =
     for_blocks mark_free_step (unat (base div 4096)) (unat (blocks_of sz)) s"

definition pmm_get_free_block_count :: "pmm \<Rightarrow> u32" where
  "pmm_get_free_block_count s = pmm_max_blocks s - pmm_used_blocks s"

definition pmm_get_block_count :: "pmm \<Rightarrow> u32" where
  "pmm_get_block_count s = pmm_max_blocks s"

text \<open>A result address of 0 is the code's out-of-memory value.\<close>

definition pmm_alloc_block :: "pmm \<Rightarrow> u32 \<times> pmm" where
  "pmm_alloc_block s =
     (if pmm_get_free_block_count s \<le> 0 then (0, s)
      else case mmap_first_free s of
             None \<Rightarrow> (0, s)
           | Some frame \<Rightarrow>
               (of_nat frame * 4096,
                (mmap_set frame s)\<lparr>pmm_used_blocks := pmm_used_blocks s + 1,
                                   alloc_count := alloc_count s + 1\<rparr>))"

text \<open>
  The scan of \<open>pmm_alloc_contiguous_blocks\<close>: \<open>i\<close> is the loop variable,
  \<open>consecutive\<close> the length of the free run that ends just before \<open>i\<close> and
  \<open>start\<close> its first frame.
\<close>

function contig_scan :: "pmm \<Rightarrow> nat \<Rightarrow> nat \<Rightarrow> nat \<Rightarrow> nat \<Rightarrow> nat \<Rightarrow> nat option" where
  "contig_scan s count i consecutive start n =
     (if i < n then
        (if \<not> mmap_test i s then
           (let start' = (if consecutive = 0 then i else start);
                consecutive' = consecutive + 1
            in if consecutive' = count then Some start'
               else contig_scan s count (Suc i) consecutive' start' n)
         else contig_scan s count (Suc i) 0 0 n)
      else None)"
  by pat_completeness auto
termination
  by (relation "measure (\<lambda>(s, count, i, c, st, n). n - i)") auto

declare contig_scan.simps [simp del]

definition pmm_alloc_contiguous_blocks :: "u32 \<Rightarrow> pmm \<Rightarrow> u32 \<times> pmm" where
  "pmm_alloc_contiguous_blocks count s =
     (if count = 0 then (0, s)
      else if pmm_get_free_block_count s < count then (0, s)
      else case contig_scan s (unat count) 0 0 0 (unat (pmm_max_blocks s)) of
             None \<Rightarrow> (0, s)
           | Some start_frame \<Rightarrow>
               (of_nat start_frame * 4096,
                (for_blocks mmap_set start_frame (unat count) s)
                  \<lparr>pmm_used_blocks := pmm_used_blocks s + count\<rparr>))"

definition pmm_free_block :: "u32 \<Rightarrow> pmm \<Rightarrow> pmm" where
  "pmm_free_block p s = mark_free_step (unat (p div 4096)) s"

definition pmm_free_contiguous_blocks :: "u32 \<Rightarrow> u32 \<Rightarrow> pmm \<Rightarrow> pmm" where
  "pmm_free_contiguous_blocks p count s =
     for_blocks mark_free_step (unat (p div 4096)) (unat count) s"

subsection \<open>Bit-level lemmas\<close>

lemma mmap_test_bit: "mmap_test b s \<longleftrightarrow> bit (pmm_bitmap s (b div 32)) (b mod 32)"
  by (simp add: mmap_test_def and_exp_neq_0)

lemma div_mod_32_eq: "b div 32 = c div 32 \<Longrightarrow> b mod 32 = c mod 32 \<Longrightarrow> b = (c :: nat)"
  by (metis mult_div_mod_eq)

lemma mmap_test_set [simp]: "mmap_test c (mmap_set b s) \<longleftrightarrow> c = b \<or> mmap_test c s"
  by (auto simp: mmap_test_bit mmap_set_def bit_word_simps
      dest: div_mod_32_eq)

lemma mmap_test_unset [simp]: "mmap_test c (mmap_unset b s) \<longleftrightarrow> c \<noteq> b \<and> mmap_test c s"
  by (auto simp: mmap_test_bit mmap_unset_def bit_word_simps
      dest: div_mod_32_eq)

lemma mmap_test_counters [simp]:
  "mmap_test c (s\<lparr>pmm_used_blocks := u\<rparr>) = mmap_test c s"
  "mmap_test c (s\<lparr>alloc_count := a\<rparr>) = mmap_test c s"
  by (simp_all add: mmap_test_def)

lemma mmap_frame [simp]:
  "pmm_max_blocks (mmap_set b s) = pmm_max_blocks s"
  "pmm_used_blocks (mmap_set b s) = pmm_used_blocks s"
  "pmm_max_blocks (mmap_unset b s) = pmm_max_blocks s"
  "pmm_used_blocks (mmap_unset b s) = pmm_used_blocks s"
  by (simp_all add: mmap_set_def mmap_unset_def)


subsection \<open>The scan for a free frame\<close>

lemma word_first_free_Some:
  "word_first_free w = Some j \<Longrightarrow> j < 32 \<and> \<not> bit w j \<and> (\<forall>k < j. bit w k)"
  by (auto simp: word_first_free_def first_idx_Some and_exp_eq_0)

lemma word_first_free_None: "word_first_free w = None \<longleftrightarrow> w = - 1"
  using word_not_minus_1 [of w]
  by (auto simp: word_first_free_def first_idx_None and_exp_eq_0)

lemma mmap_scan_Some:
  assumes "mmap_scan bm i n = Some f"
  shows "i * 32 \<le> f \<and> f < n * 32 \<and> \<not> bit (bm (f div 32)) (f mod 32)
    \<and> (\<forall>g. i * 32 \<le> g \<and> g < f \<longrightarrow> bit (bm (g div 32)) (g mod 32))"
  using assms
proof (induction bm i n rule: mmap_scan.induct)
  case (1 bm i n)
  show ?case
  proof (cases "word_first_free (bm i)")
    case None
    then have full: "bm i = - 1" by (simp add: word_first_free_None)
    have rest: "i < n" "mmap_scan bm (Suc i) n = Some f"
      using "1.prems" full by (auto simp: mmap_scan.simps [of bm i n] split: if_splits)
    then have IH: "Suc i * 32 \<le> f \<and> f < n * 32 \<and> \<not> bit (bm (f div 32)) (f mod 32)
        \<and> (\<forall>g. Suc i * 32 \<le> g \<and> g < f \<longrightarrow> bit (bm (g div 32)) (g mod 32))"
      using "1.IH"(2) full by simp
    moreover have "bit (bm (g div 32)) (g mod 32)" if "i * 32 \<le> g" "g < Suc i * 32" for g
    proof -
      have "g div 32 = i" using that by (simp add: div_nat_eqI)
      then show ?thesis using full by (simp add: bit_minus_1_iff)
    qed
    ultimately show ?thesis
      by (meson Suc_leD mult_le_mono1 le_trans not_le order_refl le_SucI)
  next
    case (Some j)
    note j = word_first_free_Some [OF Some]
    then have ne: "bm i \<noteq> - 1" using Some word_first_free_None [of "bm i"] by auto
    then have f: "i < n" "f = i * 32 + j"
      using "1.prems" Some by (auto simp: mmap_scan.simps [of bm i n] split: if_splits)
    have "bit (bm (g div 32)) (g mod 32)" if "i * 32 \<le> g" "g < f" for g
    proof -
      have "g div 32 = i"
        using that f j by (simp add: div_nat_eqI)
      moreover from this have "g mod 32 < j"
        using that f mult_div_mod_eq [of 32 g] by simp
      ultimately have "g div 32 = i" "g mod 32 < j" by simp_all
      then show ?thesis using j by simp
    qed
    moreover have "f div 32 = i" "f mod 32 = j" using f j by auto
    ultimately show ?thesis using f j by auto
  qed
qed

lemma mmap_scan_None:
  assumes "mmap_scan bm i n = None" "i * 32 \<le> g" "g < n * 32"
  shows "bit (bm (g div 32)) (g mod 32)"
  using assms
proof (induction bm i n rule: mmap_scan.induct)
  case (1 bm i n)
  have "i < n" using "1.prems" by simp
  moreover have full: "bm i = - 1"
  proof (rule ccontr)
    assume "bm i \<noteq> - 1"
    with \<open>i < n\<close> "1.prems"(1) show False
      using word_first_free_None [of "bm i"]
      by (auto simp: mmap_scan.simps [of bm i n] split: option.splits)
  qed
  ultimately have "mmap_scan bm (Suc i) n = None"
    using "1.prems"(1) by (simp add: mmap_scan.simps [of bm i n])
  show ?case
  proof (cases "g < Suc i * 32")
    case True
    then have "g div 32 = i" using "1.prems" by (simp add: div_nat_eqI)
    then show ?thesis using full by (simp add: bit_minus_1_iff)
  next
    case False
    with "1.IH"(2) [OF \<open>i < n\<close> _ \<open>mmap_scan bm (Suc i) n = None\<close>] full "1.prems"(3)
    show ?thesis by simp
  qed
qed


subsection \<open>The abstraction: the set of used frames\<close>

definition used_frames :: "pmm \<Rightarrow> nat set" where
  "used_frames s = {b. b < unat (pmm_max_blocks s) \<and> mmap_test b s}"

text \<open>
  The invariant: the number of blocks is the one \<open>pmm_init\<close> computed from the memory
  size, and the counter counts the bits.
\<close>

definition pmm_inv :: "pmm \<Rightarrow> bool" where
  "pmm_inv s \<longleftrightarrow> pmm_max_blocks s = pmm_mem_size s div 4096
     \<and> unat (pmm_used_blocks s) = card (used_frames s)"

lemma finite_used_frames [simp]: "finite (used_frames s)"
  by (simp add: used_frames_def)

lemma used_frames_bound: "used_frames s \<subseteq> {..< unat (pmm_max_blocks s)}"
  by (auto simp: used_frames_def)

lemma used_frames_card: "card (used_frames s) \<le> unat (pmm_max_blocks s)"
  using card_mono [OF _ used_frames_bound [of s]] by simp

lemma pmm_max_bound: "pmm_inv s \<Longrightarrow> unat (pmm_max_blocks s) < 1048576"
  using unat_u32_bound [of "pmm_mem_size s"]
  by (simp add: pmm_inv_def unat_div)

lemma pmm_mem_frame [simp]:
  "pmm_mem_size (mmap_set b s) = pmm_mem_size s"
  "pmm_mem_size (mmap_unset b s) = pmm_mem_size s"
  by (simp_all add: mmap_set_def mmap_unset_def)

lemma used_frames_counters [simp]:
  "used_frames (s\<lparr>pmm_used_blocks := u\<rparr>) = used_frames s"
  "used_frames (s\<lparr>alloc_count := a\<rparr>) = used_frames s"
  by (simp_all add: used_frames_def)

lemma used_frames_set:
  "b < unat (pmm_max_blocks s) \<Longrightarrow> used_frames (mmap_set b s) = insert b (used_frames s)"
  by (auto simp: used_frames_def)

lemma used_frames_unset: "used_frames (mmap_unset b s) = used_frames s - {b}"
  by (auto simp: used_frames_def)

text \<open>Marking a frame outside the bitmap's range leaves the abstraction but not the counter.\<close>

lemma used_count_add:
  assumes "pmm_inv s" "b < unat (pmm_max_blocks s)" "b \<notin> used_frames s"
  shows "unat (pmm_used_blocks s + 1) = card (insert b (used_frames s))"
proof -
  have "unat (pmm_used_blocks s) + 1 < 2 ^ LENGTH(32)"
    using assms(1) pmm_max_bound [OF assms(1)] used_frames_card [of s]
    by (simp add: pmm_inv_def)
  then show ?thesis
    using assms unat_Suc_small [of "pmm_used_blocks s"] by (simp add: pmm_inv_def)
qed

lemma used_count_del:
  assumes "pmm_inv s" "b \<in> used_frames s"
  shows "unat (pmm_used_blocks s - 1) = card (used_frames s - {b})"
proof -
  have "0 < card (used_frames s)" using assms(2) card_gt_0_iff by fastforce
  then show ?thesis
    using assms unat_pred_small [of "pmm_used_blocks s"] by (simp add: pmm_inv_def)
qed

lemma mark_used_step_spec:
  assumes "pmm_inv s" "b < unat (pmm_max_blocks s)"
  shows "used_frames (mark_used_step b s) = insert b (used_frames s)"
    and "pmm_inv (mark_used_step b s)"
    and "pmm_max_blocks (mark_used_step b s) = pmm_max_blocks s"
proof -
  show 1: "used_frames (mark_used_step b s) = insert b (used_frames s)"
    using assms(2) by (auto simp: mark_used_step_def used_frames_set)
      (auto simp: used_frames_def)
  show 3: "pmm_max_blocks (mark_used_step b s) = pmm_max_blocks s"
    by (simp add: mark_used_step_def)
  show "pmm_inv (mark_used_step b s)"
  proof (cases "mmap_test b s")
    case True
    then show ?thesis using assms by (simp add: mark_used_step_def)
  next
    case False
    then have "b \<notin> used_frames s" by (simp add: used_frames_def)
    with False assms used_count_add [OF assms] show ?thesis
      by (simp add: mark_used_step_def pmm_inv_def used_frames_set)
  qed
qed

lemma mark_free_step_spec:
  assumes "pmm_inv s" "b < unat (pmm_max_blocks s)"
  shows "used_frames (mark_free_step b s) = used_frames s - {b}"
    and "pmm_inv (mark_free_step b s)"
    and "pmm_max_blocks (mark_free_step b s) = pmm_max_blocks s"
proof -
  show 1: "used_frames (mark_free_step b s) = used_frames s - {b}"
    by (auto simp: mark_free_step_def used_frames_unset) (auto simp: used_frames_def)
  show 3: "pmm_max_blocks (mark_free_step b s) = pmm_max_blocks s"
    by (simp add: mark_free_step_def)
  show "pmm_inv (mark_free_step b s)"
  proof (cases "mmap_test b s")
    case False
    then show ?thesis using assms by (simp add: mark_free_step_def)
  next
    case True
    then have "b \<in> used_frames s" using assms by (simp add: used_frames_def)
    with True assms(1) used_count_del [OF assms(1)] show ?thesis
      by (simp add: mark_free_step_def pmm_inv_def used_frames_unset)
  qed
qed

lemma for_blocks_mark_used:
  assumes "pmm_inv s" "b + n \<le> unat (pmm_max_blocks s)"
  shows "used_frames (for_blocks mark_used_step b n s) = used_frames s \<union> {b ..< b + n}
    \<and> pmm_inv (for_blocks mark_used_step b n s)"
  using assms
proof (induction n arbitrary: b s)
  case 0
  then show ?case by simp
next
  case (Suc n)
  from Suc.prems have "b < unat (pmm_max_blocks s)" by simp
  note step = mark_used_step_spec [OF Suc.prems(1) this]
  show ?case
    using Suc.IH [OF step(2), of "Suc b"] Suc.prems(2) step
    by (simp add: ivl_Suc_left)
qed

lemma for_blocks_mark_free:
  assumes "pmm_inv s" "b + n \<le> unat (pmm_max_blocks s)"
  shows "used_frames (for_blocks mark_free_step b n s) = used_frames s - {b ..< b + n}
    \<and> pmm_inv (for_blocks mark_free_step b n s)"
  using assms
proof (induction n arbitrary: b s)
  case 0
  then show ?case by simp
next
  case (Suc n)
  from Suc.prems have "b < unat (pmm_max_blocks s)" by simp
  note step = mark_free_step_spec [OF Suc.prems(1) this]
  show ?case
    using Suc.IH [OF step(2), of "Suc b"] Suc.prems(2) step
    by (simp add: ivl_Suc_left) blast
qed


subsection \<open>Regions\<close>

text \<open>A region lies inside the managed memory when its frames are below the limit.\<close>

definition region_ok :: "u32 \<Rightarrow> u32 \<Rightarrow> pmm \<Rightarrow> bool" where
  "region_ok base sz s \<longleftrightarrow>
     unat (base div 4096) + unat (blocks_of sz) \<le> unat (pmm_max_blocks s)"

definition region_frames :: "u32 \<Rightarrow> u32 \<Rightarrow> nat set" where
  "region_frames base sz = {unat (base div 4096) ..< unat (base div 4096) + unat (blocks_of sz)}"

lemma mark_region_used_spec:
  assumes "pmm_inv s" "region_ok base sz s"
  shows "used_frames (pmm_mark_region_used base sz s) = used_frames s \<union> region_frames base sz"
    and "pmm_inv (pmm_mark_region_used base sz s)"
  using for_blocks_mark_used [of s "unat (base div 4096)" "unat (blocks_of sz)"] assms
  by (simp_all add: pmm_mark_region_used_def region_ok_def region_frames_def)

lemma mark_region_free_spec:
  assumes "pmm_inv s" "region_ok base sz s"
  shows "used_frames (pmm_mark_region_free base sz s) = used_frames s - region_frames base sz"
    and "pmm_inv (pmm_mark_region_free base sz s)"
  using for_blocks_mark_free [of s "unat (base div 4096)" "unat (blocks_of sz)"] assms
  by (simp_all add: pmm_mark_region_free_def region_ok_def region_frames_def)

text \<open>\<open>pmm_init\<close> establishes the invariant when whole bytes of the bitmap are cleared.\<close>

lemma memset_zero_bit:
  assumes "b < 8 * n"
  shows "\<not> bit (memset_zero n bm (b div 32)) (b mod 32)"
proof (cases "4 * (b div 32) + 4 \<le> n")
  case True
  then show ?thesis by (simp add: memset_zero_def)
next
  case False
  have "b = 32 * (b div 32) + b mod 32" by simp
  with assms have "b mod 32 < 8 * (n - 4 * (b div 32))" and "4 * (b div 32) < n"
    by linarith+
  with False show ?thesis
    by (simp add: memset_zero_def bit_push_bit_iff)
qed

lemma pmm_init_spec:
  assumes "8 dvd unat (mem_size div 4096)"
  shows "pmm_inv (pmm_init mem_size bm)" and "used_frames (pmm_init mem_size bm) = {}"
proof -
  have "8 * unat ((mem_size div 4096) div 8) = unat (mem_size div 4096)"
    using assms by (simp add: unat_div)
  then show empty: "used_frames (pmm_init mem_size bm) = {}"
    by (auto simp: used_frames_def pmm_init_def Let_def mmap_test_bit memset_zero_bit)
  then show "pmm_inv (pmm_init mem_size bm)"
    by (simp add: pmm_inv_def) (simp add: pmm_init_def Let_def)
qed

subsection \<open>Single-frame allocation\<close>

lemma mmap_first_free_Some:
  assumes "mmap_first_free s = Some f"
  shows "f < unat (pmm_max_blocks s)" "f < unat (pmm_max_blocks s) div 32 * 32"
    "f \<notin> used_frames s" "\<And>g. g < f \<Longrightarrow> g \<in> used_frames s"
  using mmap_scan_Some [OF assms [unfolded mmap_first_free_def]]
  by (auto simp: used_frames_def mmap_test_bit)

lemma mmap_first_free_None:
  assumes "mmap_first_free s = None" "g < unat (pmm_max_blocks s) div 32 * 32"
  shows "g \<in> used_frames s"
  using mmap_scan_None [OF assms(1) [unfolded mmap_first_free_def], of g] assms(2)
  by (simp add: used_frames_def mmap_test_bit)

lemma no_free_all_used:
  assumes "pmm_inv s" "pmm_get_free_block_count s = 0"
  shows "used_frames s = {..< unat (pmm_max_blocks s)}"
proof -
  have "card (used_frames s) = unat (pmm_max_blocks s)"
    using assms by (simp add: pmm_inv_def pmm_get_free_block_count_def)
  then show ?thesis
    using card_subset_eq [OF _ used_frames_bound [of s]] by simp
qed

text \<open>What one call does, on each of its branches.\<close>

lemma pmm_alloc_block_cases:
  assumes "pmm_inv s"
  obtains (ok) f where "pmm_alloc_block s = (of_nat f * 4096,
        (mmap_set f s)\<lparr>pmm_used_blocks := pmm_used_blocks s + 1,
                       alloc_count := alloc_count s + 1\<rparr>)"
      "f < unat (pmm_max_blocks s) div 32 * 32" "f \<notin> used_frames s"
      "\<And>g. g < f \<Longrightarrow> g \<in> used_frames s"
  | (oom) "pmm_alloc_block s = (0, s)"
      "\<And>g. g < unat (pmm_max_blocks s) div 32 * 32 \<Longrightarrow> g \<in> used_frames s"
proof (cases "pmm_get_free_block_count s = 0")
  case True
  then have "pmm_alloc_block s = (0, s)" by (simp add: pmm_alloc_block_def)
  moreover have "g \<in> used_frames s" if "g < unat (pmm_max_blocks s) div 32 * 32" for g
    using no_free_all_used [OF assms True] that by simp
  ultimately show ?thesis by (rule oom)
next
  case nz: False
  show ?thesis
  proof (cases "mmap_first_free s")
    case None
    with nz show ?thesis
      using oom mmap_first_free_None [OF None] by (simp add: pmm_alloc_block_def)
  next
    case (Some f)
    with nz show ?thesis
      using ok [of f] mmap_first_free_Some [OF Some] by (simp add: pmm_alloc_block_def)
  qed
qed

lemma pmm_alloc_block_ok_spec:
  assumes "pmm_inv s" "f < unat (pmm_max_blocks s)" "f \<notin> used_frames s"
  defines "s' \<equiv> (mmap_set f s)\<lparr>pmm_used_blocks := pmm_used_blocks s + 1,
                       alloc_count := alloc_count s + 1\<rparr>"
  shows "used_frames s' = insert f (used_frames s)" "pmm_inv s'"
    "pmm_max_blocks s' = pmm_max_blocks s" "unat (of_nat f * 4096 :: u32) = f * 4096"
proof -
  show u: "used_frames s' = insert f (used_frames s)"
    using assms by (simp add: used_frames_set)
  show "pmm_inv s'"
    using u used_count_add [OF assms(1-3)] assms(1) by (simp add: pmm_inv_def s'_def)
  show "pmm_max_blocks s' = pmm_max_blocks s" by (simp add: s'_def)
  have "f < 1048576" using pmm_max_bound [OF assms(1)] assms(2) by simp
  then show "unat (of_nat f * 4096 :: u32) = f * 4096"
    by (simp add: unat_word_ariths unat_of_nat)
qed


subsection \<open>Contiguous allocation\<close>

definition free_run :: "pmm \<Rightarrow> nat \<Rightarrow> nat \<Rightarrow> bool" where
  "free_run s st c \<longleftrightarrow> (\<forall>k < c. \<not> mmap_test (st + k) s)"

text \<open>
  The loop invariant of the scan: the current run starts at \<open>i - c\<close>, is free, is
  shorter than requested, and no run of the requested length starts earlier.
\<close>

definition scan_inv :: "pmm \<Rightarrow> nat \<Rightarrow> nat \<Rightarrow> nat \<Rightarrow> nat \<Rightarrow> bool" where
  "scan_inv s count i c st \<longleftrightarrow> c < count \<and> c \<le> i \<and> (c \<noteq> 0 \<longrightarrow> st = i - c)
     \<and> free_run s (i - c) c \<and> (\<forall>st' < i - c. \<not> free_run s st' count)"

lemma scan_inv_used:
  assumes "scan_inv s count i c st" "mmap_test i s"
  shows "scan_inv s count (Suc i) 0 0"
proof -
  have "\<not> free_run s st' count" if "st' < Suc i" for st'
  proof (cases "st' < i - c")
    case True
    then show ?thesis using assms(1) by (simp add: scan_inv_def)
  next
    case False
    then have "i - st' < count" "st' + (i - st') = i"
      using that assms(1) by (auto simp: scan_inv_def)
    then show ?thesis using assms(2) by (auto simp: free_run_def)
  qed
  then show ?thesis using assms(1) by (auto simp: scan_inv_def free_run_def)
qed

lemma scan_inv_free:
  assumes "scan_inv s count i c st" "\<not> mmap_test i s"
  shows "free_run s (i - c) (Suc c)"
  using assms by (auto simp: scan_inv_def free_run_def less_Suc_eq)

lemma contig_scan_spec:
  assumes "scan_inv s count i c st" "i \<le> n"
  shows "(case contig_scan s count i c st n of
      None \<Rightarrow> \<forall>st'. st' + count \<le> n \<longrightarrow> \<not> free_run s st' count
    | Some r \<Rightarrow> r + count \<le> n \<and> free_run s r count \<and> (\<forall>st' < r. \<not> free_run s st' count))"
  using assms
proof (induction s count i c st n rule: contig_scan.induct)
  case (1 s count i c st n)
  note inv = "1.prems"(1)
  consider (past) "n \<le> i" | (used) "i < n" "mmap_test i s"
    | (hit) "i < n" "\<not> mmap_test i s" "c + 1 = count"
    | (free) "i < n" "\<not> mmap_test i s" "c + 1 \<noteq> count"
    by linarith
  then show ?case
  proof cases
    case past
    then show ?thesis
      using inv "1.prems"(2) by (auto simp: contig_scan.simps [of s count i] scan_inv_def)
  next
    case used
    then show ?thesis
      using "1.IH"(2) scan_inv_used [OF inv] by (simp add: contig_scan.simps [of s count i])
  next
    case hit
    then show ?thesis
      using inv scan_inv_free [OF inv] by (auto simp: contig_scan.simps [of s count i] scan_inv_def)
  next
    case free
    then have "scan_inv s count (Suc i) (c + 1) (if c = 0 then i else st)"
      using inv scan_inv_free [OF inv] by (auto simp: scan_inv_def)
    then show ?thesis
      using "1.IH"(1) free by (simp add: contig_scan.simps [of s count i] Let_def)
  qed
qed

lemma for_blocks_mmap_set:
  "b + n \<le> unat (pmm_max_blocks s) \<Longrightarrow>
   used_frames (for_blocks mmap_set b n s) = used_frames s \<union> {b ..< b + n}
   \<and> pmm_max_blocks (for_blocks mmap_set b n s) = pmm_max_blocks s
   \<and> pmm_mem_size (for_blocks mmap_set b n s) = pmm_mem_size s
   \<and> pmm_used_blocks (for_blocks mmap_set b n s) = pmm_used_blocks s"
proof (induction n arbitrary: b s)
  case 0
  then show ?case by simp
next
  case (Suc n)
  then show ?case
    using Suc.IH [of "Suc b" "mmap_set b s"] by (simp add: ivl_Suc_left used_frames_set)
qed

lemma free_run_disjoint:
  assumes "st + c \<le> unat (pmm_max_blocks s)"
  shows "free_run s st c \<longleftrightarrow> used_frames s \<inter> {st ..< st + c} = {}"
proof -
  have "free_run s st c \<longleftrightarrow> (\<forall>b \<in> {st ..< st + c}. \<not> mmap_test b s)"
    unfolding free_run_def by (rule all_shift_ivl)
  also have "\<dots> \<longleftrightarrow> (\<forall>b \<in> {st ..< st + c}. b \<notin> used_frames s)"
    using assms by (intro ball_cong) (auto simp: used_frames_def)
  also have "\<dots> \<longleftrightarrow> used_frames s \<inter> {st ..< st + c} = {}" by blast
  finally show ?thesis .
qed

lemma free_count_run:
  assumes "pmm_inv s" "st + c \<le> unat (pmm_max_blocks s)" "free_run s st c"
  shows "c \<le> unat (pmm_get_free_block_count s)"
proof -
  let ?m = "unat (pmm_max_blocks s)"
  have "used_frames s \<inter> {st ..< st + c} = {}"
    using assms(3) free_run_disjoint [OF assms(2)] by blast
  moreover have "{st ..< st + c} \<subseteq> {..< ?m}" using assms(2) by auto
  ultimately have "{st ..< st + c} \<subseteq> {..< ?m} - used_frames s" by blast
  then have "card {st ..< st + c} \<le> card ({..< ?m} - used_frames s)"
    by (intro card_mono) simp_all
  then have "c \<le> card ({..< ?m} - used_frames s)" by simp
  also have "\<dots> = ?m - card (used_frames s)"
    using used_frames_bound by (simp add: card_Diff_subset)
  also have "\<dots> = unat (pmm_get_free_block_count s)"
    using assms(1) used_frames_card [of s]
    by (simp add: pmm_get_free_block_count_def pmm_inv_def unat_sub_small)
  finally show ?thesis .
qed

lemma pmm_alloc_contiguous_ok:
  assumes "pmm_inv s" "st + unat c \<le> unat (pmm_max_blocks s)" "free_run s st (unat c)"
  defines "s' \<equiv> (for_blocks mmap_set st (unat c) s)\<lparr>pmm_used_blocks := pmm_used_blocks s + c\<rparr>"
  shows "used_frames s' = used_frames s \<union> {st ..< st + unat c}" "pmm_inv s'"
    "pmm_max_blocks s' = pmm_max_blocks s"
proof -
  note fb = for_blocks_mmap_set [OF assms(2)]
  show u: "used_frames s' = used_frames s \<union> {st ..< st + unat c}"
    using fb by (simp add: s'_def)
  show m: "pmm_max_blocks s' = pmm_max_blocks s" using fb by (simp add: s'_def)
  have card: "card (used_frames s') = card (used_frames s) + unat c"
    using u free_run_disjoint [OF assms(2)] assms(3) by (simp add: card_Un_disjoint)
  have "unat (pmm_used_blocks s) + unat c < 2 ^ LENGTH(32)"
    using used_frames_card [of s'] card m pmm_max_bound [OF assms(1)] assms(1)
    by (simp add: pmm_inv_def)
  then have "unat (pmm_used_blocks s + c) = unat (pmm_used_blocks s) + unat c"
    by (rule unat_add_small)
  then show "pmm_inv s'"
    using assms(1) card fb by (simp add: pmm_inv_def s'_def)
qed


lemma pmm_alloc_contiguous_cases:
  assumes "pmm_inv s" "c \<noteq> 0"
  obtains (ok) st where "pmm_alloc_contiguous_blocks c s = (of_nat st * 4096,
        (for_blocks mmap_set st (unat c) s)\<lparr>pmm_used_blocks := pmm_used_blocks s + c\<rparr>)"
      "st + unat c \<le> unat (pmm_max_blocks s)" "free_run s st (unat c)"
      "\<And>st'. st' < st \<Longrightarrow> \<not> free_run s st' (unat c)"
  | (none) "pmm_alloc_contiguous_blocks c s = (0, s)"
      "\<And>st. st + unat c \<le> unat (pmm_max_blocks s) \<Longrightarrow> \<not> free_run s st (unat c)"
proof (cases "pmm_get_free_block_count s < c")
  case True
  then have "pmm_alloc_contiguous_blocks c s = (0, s)"
    by (simp add: pmm_alloc_contiguous_blocks_def)
  moreover have "\<not> free_run s st (unat c)" if "st + unat c \<le> unat (pmm_max_blocks s)" for st
    using free_count_run [OF assms(1) that] True by (auto simp: word_less_nat_alt)
  ultimately show ?thesis by (rule none)
next
  case False
  have "0 < unat c" using assms(2) by (simp add: unat_gt_0)
  then have "scan_inv s (unat c) 0 0 0" by (simp add: scan_inv_def free_run_def)
  note scan = contig_scan_spec [OF this, of "unat (pmm_max_blocks s)"]
  show ?thesis
  proof (cases "contig_scan s (unat c) 0 0 0 (unat (pmm_max_blocks s))")
    case None
    with scan False assms(2) show ?thesis
      using none by (simp add: pmm_alloc_contiguous_blocks_def)
  next
    case (Some st)
    with scan False assms(2) show ?thesis
      using ok [of st] by (simp add: pmm_alloc_contiguous_blocks_def)
  qed
qed

subsection \<open>The allocator satisfies the frame contract\<close>

lemma pmm_free_block_spec:
  assumes "pmm_inv s" "unat p div 4096 < unat (pmm_max_blocks s)"
  shows "used_frames (pmm_free_block p s) = used_frames s - {unat p div 4096}"
    "pmm_inv (pmm_free_block p s)"
    "pmm_max_blocks (pmm_free_block p s) = pmm_max_blocks s"
  using mark_free_step_spec [OF assms(1), of "unat (p div 4096)"] assms(2)
  by (simp_all add: pmm_free_block_def unat_div)

lemma pmm_alloc_block_contract:
  assumes "pmm_inv s"
  shows "pmm_inv (snd (pmm_alloc_block s))
    \<and> pmm_max_blocks (snd (pmm_alloc_block s)) = pmm_max_blocks s
    \<and> (fst (pmm_alloc_block s) \<noteq> 0 \<longrightarrow>
        (\<exists>f. unat (fst (pmm_alloc_block s)) = f * 4096 \<and> f < unat (pmm_max_blocks s)
          \<and> f \<notin> used_frames s \<and> used_frames (snd (pmm_alloc_block s)) = insert f (used_frames s)))
    \<and> (fst (pmm_alloc_block s) = 0 \<longrightarrow>
        used_frames s \<subseteq> used_frames (snd (pmm_alloc_block s))
        \<and> used_frames (snd (pmm_alloc_block s)) \<subseteq> insert 0 (used_frames s))"
  using assms
proof (cases rule: pmm_alloc_block_cases)
  case (ok f)
  then have "f < unat (pmm_max_blocks s)" by simp
  note spec = pmm_alloc_block_ok_spec [OF assms this ok(3)]
  have "f = 0" if "of_nat f * 4096 = (0 :: u32)"
    using spec(4) that by simp
  then show ?thesis
    using ok(1,3) spec \<open>f < unat (pmm_max_blocks s)\<close> by auto
next
  case oom
  then show ?thesis using assms by auto
qed

interpretation pmm_frames: frame_allocator pmm_inv used_frames
  "\<lambda>s. unat (pmm_max_blocks s)" pmm_alloc_block pmm_free_block
  using pmm_alloc_block_contract pmm_free_block_spec
  by unfold_locales simp_all


subsection \<open>Operation sequences\<close>

datatype pmm_op = MarkUsed u32 u32 | MarkFree u32 u32 | Alloc | AllocContig u32
  | Free u32 | FreeContig u32 u32

fun pmm_step :: "pmm_op \<Rightarrow> pmm \<Rightarrow> pmm" where
  "pmm_step (MarkUsed b n) s = pmm_mark_region_used b n s"
| "pmm_step (MarkFree b n) s = pmm_mark_region_free b n s"
| "pmm_step Alloc s = snd (pmm_alloc_block s)"
| "pmm_step (AllocContig c) s = snd (pmm_alloc_contiguous_blocks c s)"
| "pmm_step (Free p) s = pmm_free_block p s"
| "pmm_step (FreeContig p c) s = pmm_free_contiguous_blocks p c s"

text \<open>The range the caller has to respect; the code checks none of it.\<close>

fun op_in_range :: "nat \<Rightarrow> pmm_op \<Rightarrow> bool" where
  "op_in_range m (MarkUsed b n) = (unat (b div 4096) + unat (blocks_of n) \<le> m)"
| "op_in_range m (MarkFree b n) = (unat (b div 4096) + unat (blocks_of n) \<le> m)"
| "op_in_range m Alloc = True"
| "op_in_range m (AllocContig c) = True"
| "op_in_range m (Free p) = (unat (p div 4096) < m)"
| "op_in_range m (FreeContig p c) = (unat (p div 4096) + unat c \<le> m)"

lemma for_blocks_mark_max [simp]:
  "pmm_max_blocks (for_blocks mark_used_step b n s) = pmm_max_blocks s"
  "pmm_max_blocks (for_blocks mark_free_step b n s) = pmm_max_blocks s"
  by (induction n arbitrary: b s) (simp_all add: mark_used_step_def mark_free_step_def)

lemma pmm_alloc_contiguous_inv:
  assumes "pmm_inv s"
  shows "pmm_inv (snd (pmm_alloc_contiguous_blocks c s))
    \<and> pmm_max_blocks (snd (pmm_alloc_contiguous_blocks c s)) = pmm_max_blocks s"
proof (cases "c = 0")
  case True
  then show ?thesis using assms by (simp add: pmm_alloc_contiguous_blocks_def)
next
  case False
  with assms show ?thesis
    by (cases rule: pmm_alloc_contiguous_cases) (simp_all add: pmm_alloc_contiguous_ok assms)
qed

lemma pmm_step_inv [kernel_inv]:
  assumes "pmm_inv s" "op_in_range (unat (pmm_max_blocks s)) x"
  shows "pmm_inv (pmm_step x s) \<and> pmm_max_blocks (pmm_step x s) = pmm_max_blocks s"
proof (cases x)
  case (MarkUsed b n)
  then show ?thesis
    using assms mark_region_used_spec [OF assms(1)]
    by (simp add: region_ok_def) (simp add: pmm_mark_region_used_def)
next
  case (MarkFree b n)
  then show ?thesis
    using assms mark_region_free_spec [OF assms(1)]
    by (simp add: region_ok_def) (simp add: pmm_mark_region_free_def)
next
  case Alloc
  then show ?thesis using assms pmm_frames.alloc_inv pmm_alloc_block_contract by simp
next
  case (AllocContig c)
  then show ?thesis using assms pmm_alloc_contiguous_inv by simp
next
  case (Free p)
  then show ?thesis using assms pmm_free_block_spec by (simp add: unat_div)
next
  case (FreeContig p c)
  then show ?thesis
    using assms for_blocks_mark_free [OF assms(1)] by (simp add: pmm_free_contiguous_blocks_def)
qed

subsection \<open>Properties\<close>

text \<open>
  Single-frame allocation is first fit: a successful call returns the page-aligned address
  of the lowest free frame the scan covers, marks that frame and nothing else, and keeps the
  counter equal to the number of marked frames; a failed call returns 0, changes nothing, and
  happens only when every frame of the whole bitmap words is in use.
\<close>

theorem pmm_alloc_block_first_fit:
  assumes "pmm_inv s"
  shows "(\<exists>f. f < unat (pmm_max_blocks s) div 32 * 32 \<and> f \<notin> used_frames s
      \<and> {..<f} \<subseteq> used_frames s
      \<and> unat (fst (pmm_alloc_block s)) = f * 4096
      \<and> used_frames (snd (pmm_alloc_block s)) = insert f (used_frames s)
      \<and> pmm_inv (snd (pmm_alloc_block s)))
    \<or> (pmm_alloc_block s = (0, s) \<and> {..< unat (pmm_max_blocks s) div 32 * 32} \<subseteq> used_frames s)"
  using assms
proof (cases rule: pmm_alloc_block_cases)
  case (ok f)
  then have "f < unat (pmm_max_blocks s)" by simp
  with ok show ?thesis
    using pmm_alloc_block_ok_spec [OF assms _ ok(3)] by (intro disjI1 exI [of _ f]) auto
next
  case oom
  then show ?thesis by auto
qed

definition demo_pmm :: pmm where
  "demo_pmm = pmm_mark_region_used 0 8192 (pmm_init 262144 (\<lambda>_. 0))"

lemma demo_pmm_inv: "pmm_inv demo_pmm" "unat (pmm_max_blocks demo_pmm) = 64"
proof -
  have i: "pmm_inv (pmm_init 262144 (\<lambda>_. 0))"
    by (rule pmm_init_spec) (simp add: unat_div)
  show "pmm_inv demo_pmm"
    using mark_region_used_spec(2) [OF i, of 0 8192]
    by (simp add: demo_pmm_def region_ok_def blocks_of_def pmm_init_def Let_def)
  show "unat (pmm_max_blocks demo_pmm) = 64"
    by (simp add: demo_pmm_def pmm_mark_region_used_def pmm_init_def Let_def)
qed

theorem pmm_alloc_block_first_fit_witness:
  "pmm_inv demo_pmm \<and> fst (pmm_alloc_block demo_pmm) = 8192
   \<and> used_frames (snd (pmm_alloc_block demo_pmm)) = insert 2 (used_frames demo_pmm)"
proof -
  have a: "fst (pmm_alloc_block demo_pmm) = 8192" by code_simp
  then have ne: "pmm_alloc_block demo_pmm \<noteq> (0, demo_pmm)" by auto
  then show ?thesis
    using pmm_alloc_block_first_fit [OF demo_pmm_inv(1)] a demo_pmm_inv(1) by auto
qed


text \<open>
  C4. Contiguous allocation finds a run exactly when one exists: if some run of \<open>c\<close> free
  frames lies below the limit, the call returns the address of the lowest one and marks exactly
  its \<open>c\<close> frames; otherwise it returns 0 and leaves the state alone. The early exit on the
  free counter never rejects a request that could be served.
\<close>

theorem pmm_alloc_contiguous_complete:
  assumes "pmm_inv s" "c \<noteq> 0"
  shows "if \<exists>st. st + unat c \<le> unat (pmm_max_blocks s) \<and> free_run s st (unat c)
    then (\<exists>st. st + unat c \<le> unat (pmm_max_blocks s) \<and> free_run s st (unat c)
        \<and> (\<forall>st' < st. \<not> free_run s st' (unat c))
        \<and> unat (fst (pmm_alloc_contiguous_blocks c s)) = st * 4096
        \<and> used_frames (snd (pmm_alloc_contiguous_blocks c s)) = used_frames s \<union> {st ..< st + unat c}
        \<and> pmm_inv (snd (pmm_alloc_contiguous_blocks c s)))
    else pmm_alloc_contiguous_blocks c s = (0, s)"
  using assms
proof (cases rule: pmm_alloc_contiguous_cases)
  case (ok st)
  have "st < 1048576"
    using pmm_max_bound [OF assms(1)] ok(2) assms(2) by simp
  then have "unat (of_nat st * 4096 :: u32) = st * 4096"
    by (simp add: unat_word_ariths unat_of_nat)
  then show ?thesis
    using ok pmm_alloc_contiguous_ok [OF assms(1) ok(2,3)] by auto
next
  case none
  then show ?thesis by auto
qed

theorem pmm_alloc_contiguous_complete_witness:
  "fst (pmm_alloc_contiguous_blocks 3 demo_pmm) = 8192
   \<and> used_frames (snd (pmm_alloc_contiguous_blocks 3 demo_pmm)) = used_frames demo_pmm \<union> {2 ..< 5}"
proof -
  have a: "fst (pmm_alloc_contiguous_blocks 3 demo_pmm) = 8192" by code_simp
  then have "pmm_alloc_contiguous_blocks 3 demo_pmm \<noteq> (0, demo_pmm)" by auto
  then show ?thesis
    using pmm_alloc_contiguous_complete [OF demo_pmm_inv(1), of 3] a by (auto split: if_splits)
qed

text \<open>
  Freeing a contiguous block that was just allocated restores the allocator: the same
  frames are in use and the counter has its old value.
\<close>

theorem pmm_contiguous_roundtrip:
  assumes "pmm_inv s" "pmm_alloc_contiguous_blocks c s = (p, s')" "p \<noteq> 0"
  shows "used_frames (pmm_free_contiguous_blocks p c s') = used_frames s
    \<and> pmm_used_blocks (pmm_free_contiguous_blocks p c s') = pmm_used_blocks s"
proof -
  have c0: "c \<noteq> 0" using assms(2,3) by (auto simp: pmm_alloc_contiguous_blocks_def)
  from assms(1) c0 show ?thesis
  proof (cases rule: pmm_alloc_contiguous_cases)
    case none
    then show ?thesis using assms(2,3) by simp
  next
    case (ok st)
    note spec = pmm_alloc_contiguous_ok [OF assms(1) ok(2,3)]
    have "st < 1048576" using pmm_max_bound [OF assms(1)] ok(2) c0 by simp
    then have fr: "unat (p div 4096) = st"
      using ok(1) assms(2) by (auto simp: unat_div unat_word_ariths unat_of_nat)
    have s': "used_frames s' = used_frames s \<union> {st ..< st + unat c}" "pmm_inv s'"
      "pmm_max_blocks s' = pmm_max_blocks s"
      using spec ok(1) assms(2) by auto
    have "used_frames (pmm_free_contiguous_blocks p c s') = used_frames s' - {st ..< st + unat c}
        \<and> pmm_inv (pmm_free_contiguous_blocks p c s')"
      using for_blocks_mark_free [OF s'(2), of st "unat c"] s'(3) ok(2) fr
      by (simp add: pmm_free_contiguous_blocks_def)
    moreover have "used_frames s \<inter> {st ..< st + unat c} = {}"
      using free_run_disjoint [OF ok(2)] ok(3) by blast
    ultimately show ?thesis
      using s'(1) assms(1) by (auto simp: pmm_inv_def Un_Diff Diff_triv word_unat_eq_iff)
  qed
qed

theorem pmm_contiguous_roundtrip_witness:
  "used_frames (pmm_free_contiguous_blocks 8192 3 (snd (pmm_alloc_contiguous_blocks 3 demo_pmm)))
   = used_frames demo_pmm"
proof -
  have "pmm_alloc_contiguous_blocks 3 demo_pmm
      = (8192, snd (pmm_alloc_contiguous_blocks 3 demo_pmm))"
    by (rule prod_eqI) (simp, code_simp, simp)
  from pmm_contiguous_roundtrip [OF demo_pmm_inv(1) this] show ?thesis by simp
qed

text \<open>
  Any sequence of allocator calls whose arguments stay below the number of blocks keeps the
  bookkeeping exact: after \<open>pmm_init\<close> the counter is the number of marked frames, and the
  free count never wraps around.
\<close>

theorem pmm_run_bookkeeping:
  fixes bm :: "nat \<Rightarrow> u32"
  assumes "8 dvd unat (mem_size div 4096)"
    and "\<forall>x \<in> set xs. op_in_range (unat (mem_size div 4096)) x"
  defines "s \<equiv> fold pmm_step xs (pmm_init mem_size bm)"
  shows "unat (pmm_used_blocks s) = card (used_frames s)
    \<and> unat (pmm_get_free_block_count s) = unat (pmm_get_block_count s) - card (used_frames s)"
proof -
  have "pmm_inv (fold pmm_step xs t) \<and> pmm_max_blocks (fold pmm_step xs t) = pmm_max_blocks t"
    if "pmm_inv t" "\<forall>x \<in> set xs. op_in_range (unat (pmm_max_blocks t)) x" for t
    using that
  proof (induction xs arbitrary: t)
    case (Cons x xs)
    then show ?case using pmm_step_inv [of t x] by simp
  qed simp
  moreover have "pmm_max_blocks (pmm_init mem_size bm) = mem_size div 4096"
    by (simp add: pmm_init_def Let_def)
  ultimately have "pmm_inv s"
    using pmm_init_spec [OF assms(1)] assms(2) by (simp add: s_def)
  then show ?thesis
    using used_frames_card [of s]
    by (simp add: pmm_inv_def pmm_get_free_block_count_def pmm_get_block_count_def unat_sub_small)
qed

theorem pmm_run_bookkeeping_witness:
  "unat (pmm_used_blocks (fold pmm_step [MarkUsed 0 8192, Alloc, AllocContig 3, Free 8192]
      (pmm_init 262144 (\<lambda>_. 0))))
   = card (used_frames (fold pmm_step [MarkUsed 0 8192, Alloc, AllocContig 3, Free 8192]
      (pmm_init 262144 (\<lambda>_. 0))))"
  using pmm_run_bookkeeping [of 262144 "[MarkUsed 0 8192, Alloc, AllocContig 3, Free 8192]"
      "\<lambda>_. 0"]
  by (simp add: unat_div blocks_of_def)

text \<open>
  The single-frame scan covers whole bitmap words only: once the frames of those words are
  taken, the call fails although frames of the last partial word are free and the counter says
  so. (The contiguous scan does reach them.)
\<close>

theorem pmm_tail_frames_unreachable:
  assumes "pmm_inv s" "{..< unat (pmm_max_blocks s) div 32 * 32} \<subseteq> used_frames s"
  shows "pmm_alloc_block s = (0, s)"
  using assms(1)
proof (cases rule: pmm_alloc_block_cases)
  case (ok f)
  then show ?thesis using assms(2) by auto
next
  case oom
  then show ?thesis by simp
qed

definition tail_pmm :: pmm where
  "tail_pmm = pmm_mark_region_used 0 131072 (pmm_init 163840 (\<lambda>_. 0))"

theorem pmm_tail_frames_unreachable_witness:
  "pmm_alloc_block tail_pmm = (0, tail_pmm) \<and> pmm_get_free_block_count tail_pmm = 8
   \<and> fst (pmm_alloc_contiguous_blocks 1 tail_pmm) = 131072"
proof -
  let ?i = "pmm_init 163840 (\<lambda>_. 0)"
  have i: "pmm_inv ?i" by (rule pmm_init_spec) (simp add: unat_div)
  have ok: "region_ok 0 131072 ?i"
    by (simp add: region_ok_def blocks_of_def pmm_init_def Let_def)
  have "pmm_inv tail_pmm" "{..<32} \<subseteq> used_frames tail_pmm"
    using mark_region_used_spec [OF i ok]
    by (simp_all add: tail_pmm_def region_frames_def blocks_of_def atLeast0LessThan)
  moreover have "unat (pmm_max_blocks tail_pmm) = 40"
    by (simp add: tail_pmm_def pmm_mark_region_used_def pmm_init_def Let_def)
  moreover have "pmm_get_free_block_count tail_pmm = 8" by code_simp
  moreover have "fst (pmm_alloc_contiguous_blocks 1 tail_pmm) = 131072" by code_simp
  ultimately show ?thesis using pmm_tail_frames_unreachable [of tail_pmm] by simp
qed

end
