(* ===== verification/Vm.thy ===== *)
theory Vm
  imports Pmm
begin

text \<open>
  Page directories and page tables, \<open>src/kernel/vm.cpp\<close> and \<open>src/kernel/paging.cpp\<close>.
  Physical memory is a map from frame addresses to the 1024 words of the frame; the code reaches
  a frame through the direct map (\<open>PHYS_TO_VIRT\<close>), which is taken to cover all frames used.
  \<open>cr3\<close> is the register; \<open>kernel_directory\<close> and \<open>current_directory\<close> hold virtual
  addresses, 0 for null, as in the code. Frames come from the allocator of theory \<open>Pmm\<close>;
  its results are not checked by the code, so an exhausted allocator makes it use frame 0, here
  as there. TLB flushes are left out. \<open>handle_demand_paging\<close> is in theory \<open>Shm\<close>.
\<close>

subsection \<open>State\<close>

record vm =
  frames :: "u32 \<Rightarrow> nat \<Rightarrow> u32"
  cr3 :: u32
  kernel_directory :: u32
  current_directory :: u32
  vpmm :: pmm

abbreviation KERNEL_VIRTUAL_BASE :: u32 where "KERNEL_VIRTUAL_BASE \<equiv> 0xC0000000"

definition PHYS_TO_VIRT :: "u32 \<Rightarrow> u32" where "PHYS_TO_VIRT a = a + KERNEL_VIRTUAL_BASE"

definition VIRT_TO_PHYS :: "u32 \<Rightarrow> u32" where "VIRT_TO_PHYS a = a - KERNEL_VIRTUAL_BASE"

abbreviation kernel_pd :: "vm \<Rightarrow> u32" where "kernel_pd s \<equiv> VIRT_TO_PHYS (kernel_directory s)"

definition pd_index :: "u32 \<Rightarrow> nat" where "pd_index v = unat (drop_bit 22 v)"

definition pt_index :: "u32 \<Rightarrow> nat" where "pt_index v = unat (drop_bit 12 v AND 0x3FF)"

abbreviation frame_of :: "u32 \<Rightarrow> u32" where "frame_of e \<equiv> e AND 0xFFFFF000"

abbreviation entry_present :: "u32 \<Rightarrow> bool" where "entry_present e \<equiv> e AND 1 \<noteq> 0"

definition write_word :: "u32 \<Rightarrow> nat \<Rightarrow> u32 \<Rightarrow> vm \<Rightarrow> vm" where
  "write_word a i w s = s\<lparr>frames := (frames s)(a := (frames s a)(i := w))\<rparr>"

definition clear_frame :: "u32 \<Rightarrow> vm \<Rightarrow> vm" where
  "clear_frame a s = s\<lparr>frames := (frames s)(a := (\<lambda>_. 0))\<rparr>"

definition alloc_frame :: "vm \<Rightarrow> u32 \<times> vm" where
  "alloc_frame s = (let (p, m) = pmm_alloc_block (vpmm s) in (p, s\<lparr>vpmm := m\<rparr>))"

definition free_frame :: "u32 \<Rightarrow> vm \<Rightarrow> vm" where
  "free_frame p s = s\<lparr>vpmm := pmm_free_block p (vpmm s)\<rparr>"

subsection \<open>\<open>vm.cpp\<close>\<close>

definition pd_create :: "vm \<Rightarrow> u32 \<times> vm" where
  "pd_create s =
     (let (pd, s1) = alloc_frame s; s2 = clear_frame pd s1
      in (pd, fold (\<lambda>i s. if entry_present (frames s (kernel_pd s) i)
                          then write_word pd i (frames s (kernel_pd s) i) s else s)
                [0 ..< 1024] s2))"

definition clone_page :: "u32 \<Rightarrow> u32 \<Rightarrow> nat \<Rightarrow> vm \<Rightarrow> vm" where
  "clone_page src_pt dest_pt j s =
     (let e = frames s src_pt j in
      if entry_present e then
        let (dest, s1) = alloc_frame s;
            s2 = s1\<lparr>frames := (frames s1)(dest := frames s1 (frame_of e))\<rparr>
        in write_word dest_pt j (dest OR (frames s2 src_pt j AND 0xFFF)) s2
      else s)"

definition clone_table :: "u32 \<Rightarrow> u32 \<Rightarrow> nat \<Rightarrow> vm \<Rightarrow> vm" where
  "clone_table source_pd new_pd i s =
     (let e = frames s source_pd i in
      if \<not> entry_present e then s
      else if e = frames s (kernel_pd s) i then s
      else
        let src_pt = frame_of e;
            (dest_pt, s1) = alloc_frame s;
            s2 = clear_frame dest_pt s1;
            s3 = write_word new_pd i (dest_pt OR (frames s2 source_pd i AND 0xFFF)) s2
        in fold (clone_page src_pt dest_pt) [0 ..< 1024] s3)"

definition pd_clone :: "u32 \<Rightarrow> vm \<Rightarrow> u32 \<times> vm" where
  "pd_clone source_pd s =
     (let (new_pd, s1) = pd_create s
      in (new_pd, fold (clone_table source_pd new_pd) [0 ..< 768] s1))"

definition destroy_table :: "u32 \<Rightarrow> nat \<Rightarrow> vm \<Rightarrow> vm" where
  "destroy_table pd i s =
     (let e = frames s pd i in
      if \<not> entry_present e then s
      else if e = frames s (kernel_pd s) i then s
      else
        let pt = frame_of e;
            s1 = fold (\<lambda>j s. if entry_present (frames s pt j)
                             then free_frame (frame_of (frames s pt j)) s else s) [0 ..< 1024] s
        in free_frame pt s1)"

definition pd_destroy :: "u32 \<Rightarrow> vm \<Rightarrow> vm" where
  "pd_destroy pd s = free_frame pd (fold (destroy_table pd) [0 ..< 1024] s)"

definition pd_switch :: "u32 \<Rightarrow> vm \<Rightarrow> vm" where
  "pd_switch pd s = s\<lparr>cr3 := pd\<rparr>"

text \<open>
  The shared middle of \<open>vm_map_page\<close> and \<open>paging_map\<close>: make sure the directory has a
  table for the address, then write the entry.
\<close>

definition ensure_table :: "u32 \<Rightarrow> nat \<Rightarrow> vm \<Rightarrow> vm" where
  "ensure_table pd i s =
     (if entry_present (frames s pd i) then s
      else let (pt, s1) = alloc_frame s in write_word pd i (pt OR 7) (clear_frame pt s1))"

definition map_in :: "u32 \<Rightarrow> u32 \<Rightarrow> u32 \<Rightarrow> u32 \<Rightarrow> vm \<Rightarrow> vm" where
  "map_in pd phys virt flags s =
     (let s1 = ensure_table pd (pd_index virt) s
      in write_word (frame_of (frames s1 pd (pd_index virt))) (pt_index virt)
           (frame_of phys OR flags) s1)"

definition vm_map_page :: "u32 \<Rightarrow> u32 \<Rightarrow> u32 \<Rightarrow> vm \<Rightarrow> vm" where
  "vm_map_page phys virt flags s = map_in (cr3 s) phys virt flags s"

definition vm_get_phys :: "u32 \<Rightarrow> vm \<Rightarrow> u32" where
  "vm_get_phys virt s =
     (let e = frames s (cr3 s) (pd_index virt) in
      if \<not> entry_present e then 0
      else
        let p = frames s (frame_of e) (pt_index virt) in
        if \<not> entry_present p then 0 else frame_of p + (virt AND 0xFFF))"

definition vm_unmap_page :: "u32 \<Rightarrow> vm \<Rightarrow> vm" where
  "vm_unmap_page virt s =
     (let e = frames s (cr3 s) (pd_index virt) in
      if \<not> entry_present e then s
      else
        let pt = frame_of e; p = frames s pt (pt_index virt) in
        if entry_present p then write_word pt (pt_index virt) 0 (free_frame (frame_of p) s) else s)"

definition clear_user_table :: "u32 \<Rightarrow> nat \<Rightarrow> vm \<Rightarrow> vm" where
  "clear_user_table pd i s =
     (if entry_present (frames s pd i) then
        let pt = frame_of (frames s pd i);
            s1 = fold (\<lambda>j s. if entry_present (frames s pt j)
                             then write_word pt j 0 (free_frame (frame_of (frames s pt j)) s) else s)
                   [0 ..< 1024] s
        in write_word pd i 0 (free_frame (frame_of (frames s1 pd i)) s1)
      else s)"

definition vm_clear_user_mappings :: "vm \<Rightarrow> vm" where
  "vm_clear_user_mappings s = fold (clear_user_table (cr3 s)) [256 ..< 768] s"

subsection \<open>\<open>paging.cpp\<close>\<close>

definition paging_map :: "u32 \<Rightarrow> u32 \<Rightarrow> u32 \<Rightarrow> vm \<Rightarrow> vm" where
  "paging_map phys virt flags s = map_in (kernel_pd s) phys virt flags s"

definition switch_page_directory :: "u32 \<Rightarrow> vm \<Rightarrow> vm" where
  "switch_page_directory dir s = s\<lparr>current_directory := dir, cr3 := VIRT_TO_PHYS dir\<rparr>"

text \<open>
  The entry \<open>paging_get_pte\<close> points to, as frame and index; \<open>None\<close> is the null pointer.
\<close>

definition paging_get_pte :: "u32 \<Rightarrow> vm \<Rightarrow> (u32 \<times> nat) option" where
  "paging_get_pte virt s =
     (let dir = (if current_directory s \<noteq> 0 then current_directory s else kernel_directory s) in
      if dir = 0 then None
      else
        let e = frames s (VIRT_TO_PHYS dir) (pd_index virt) in
        if \<not> entry_present e then None else Some (frame_of e, pt_index virt))"

text \<open>
  \<open>init_paging\<close>: the link-time bounds of the read-only sections are arguments, and so are the
  two hardware mappings (\<open>apic_map_hardware\<close>, \<open>hpet_map_hardware\<close>), as one function.
\<close>

definition kernel_flags :: "u32 \<times> u32 \<Rightarrow> u32 \<times> u32 \<Rightarrow> u32 \<Rightarrow> u32" where
  "kernel_flags text_sec rodata virt =
     (if virt \<ge> fst text_sec \<and> virt < snd text_sec then 1
      else if virt \<ge> fst rodata \<and> virt < snd rodata then 1 else 3)"

definition init_table :: "u32 \<times> u32 \<Rightarrow> u32 \<times> u32 \<Rightarrow> nat \<Rightarrow> vm \<Rightarrow> vm" where
  "init_table text_sec rodata j s =
     (let (pt, s1) = alloc_frame s;
          s2 = clear_frame pt s1;
          s3 = fold (\<lambda>i s. let phys = of_nat (j * 4 * 1024 * 1024 + i * 4096)
                           in write_word pt i (phys OR kernel_flags text_sec rodata (phys + KERNEL_VIRTUAL_BASE)) s)
                 [0 ..< 1024] s2
      in write_word (kernel_pd s3) j (pt OR 3) (write_word (kernel_pd s3) (768 + j) (pt OR 3) s3))"

definition init_paging :: "u32 \<times> u32 \<Rightarrow> u32 \<times> u32 \<Rightarrow> (vm \<Rightarrow> vm) \<Rightarrow> vm \<Rightarrow> vm" where
  "init_paging text_sec rodata map_hardware s =
     (let (pd, s1) = alloc_frame s;
          s2 = clear_frame pd (s1\<lparr>kernel_directory := PHYS_TO_VIRT pd\<rparr>);
          s3 = map_hardware (fold (init_table text_sec rodata) [0 ..< 128] s2)
      in switch_page_directory (kernel_directory s3) s3)"

subsection \<open>Frames in use, and states that extend others\<close>

definition frame_used :: "vm \<Rightarrow> u32 \<Rightarrow> bool" where
  "frame_used s a \<longleftrightarrow> unat a div 4096 \<in> used_frames (vpmm s)"

text \<open>The frames the allocator can still hand out.\<close>

definition avail :: "vm \<Rightarrow> nat" where
  "avail s = card ({..< unat (pmm_max_blocks (vpmm s)) div 32 * 32} - used_frames (vpmm s))"

definition vm_inv :: "vm \<Rightarrow> bool" where
  "vm_inv s \<longleftrightarrow> pmm_inv (vpmm s) \<and> 0 \<in> used_frames (vpmm s)"

lemma vm_simps [simp]:
  "frames (write_word a i w s) = (frames s)(a := (frames s a)(i := w))"
  "cr3 (write_word a i w s) = cr3 s" "kernel_directory (write_word a i w s) = kernel_directory s"
  "current_directory (write_word a i w s) = current_directory s" "vpmm (write_word a i w s) = vpmm s"
  "frames (clear_frame a s) = (frames s)(a := (\<lambda>_. 0))"
  "cr3 (clear_frame a s) = cr3 s" "kernel_directory (clear_frame a s) = kernel_directory s"
  "current_directory (clear_frame a s) = current_directory s" "vpmm (clear_frame a s) = vpmm s"
  "frames (free_frame p s) = frames s" "cr3 (free_frame p s) = cr3 s"
  "kernel_directory (free_frame p s) = kernel_directory s"
  "current_directory (free_frame p s) = current_directory s"
  "vpmm (free_frame p s) = pmm_free_block p (vpmm s)"
  by (simp_all add: write_word_def clear_frame_def free_frame_def)

lemma frame_used_simps [simp]:
  "frame_used (write_word b i w s) a = frame_used s a" "frame_used (clear_frame b s) a = frame_used s a"
  "avail (write_word b i w s) = avail s" "avail (clear_frame b s) = avail s"
  "vm_inv (write_word b i w s) = vm_inv s" "vm_inv (clear_frame b s) = vm_inv s"
  "frame_used (s\<lparr>frames := f\<rparr>) a = frame_used s a" "avail (s\<lparr>frames := f\<rparr>) = avail s"
  "vm_inv (s\<lparr>frames := f\<rparr>) = vm_inv s"
  by (simp_all add: frame_used_def avail_def vm_inv_def)

lemma alloc_frame_simps:
  "alloc_frame s = (p, s') \<Longrightarrow> frames s' = frames s \<and> cr3 s' = cr3 s
     \<and> kernel_directory s' = kernel_directory s \<and> current_directory s' = current_directory s"
  by (auto simp: alloc_frame_def split: prod.splits)

text \<open>A frame taken while one is available: aligned, not null, not in use before.\<close>

lemma alloc_frame_ok:
  assumes inv: "vm_inv s" and ok: "0 < avail s" and res: "alloc_frame s = (p, s')"
  shows "p \<noteq> 0" "page_aligned p" "\<not> frame_used s p" "frame_used s' p" "vm_inv s'"
    "frame_used s a \<Longrightarrow> frame_used s' a" "avail s = Suc (avail s')"
    "frame_used s' a \<longleftrightarrow> unat a div 4096 = unat p div 4096 \<or> frame_used s a"
proof -
  let ?L = "unat (pmm_max_blocks (vpmm s)) div 32 * 32"
  have i: "pmm_inv (vpmm s)" using inv by (simp add: vm_inv_def)
  have r: "pmm_alloc_block (vpmm s) = (p, vpmm s')"
    using res by (auto simp: alloc_frame_def split: prod.splits)
  have "{..< ?L} - used_frames (vpmm s) \<noteq> {}" using ok unfolding avail_def by (metis card.empty less_irrefl)
  then have no: "\<not> {..< ?L} \<subseteq> used_frames (vpmm s)" by blast
  obtain f where f: "p = of_nat f * 4096" "f < ?L" "f \<notin> used_frames (vpmm s)"
    "vpmm s' = (mmap_set f (vpmm s))\<lparr>pmm_used_blocks := pmm_used_blocks (vpmm s) + 1,
                       alloc_count := alloc_count (vpmm s) + 1\<rparr>"
    using i
  proof (cases rule: pmm_alloc_block_cases)
    case (ok f)
    then show ?thesis using that [of f] r by simp
  next
    case oom
    then show ?thesis using no by blast
  qed
  have fl: "f < unat (pmm_max_blocks (vpmm s))" using f(2) by simp
  note spec = pmm_alloc_block_ok_spec [OF i fl f(3), folded f(4)]
  have up: "unat p = f * 4096" unfolding f(1) by (rule spec(4))
  note u = spec(1) and ml = spec(3)
  have "f \<noteq> 0" using f(3) inv by (auto simp: vm_inv_def intro: ccontr)
  then show p0: "p \<noteq> 0" using up by auto
  show "page_aligned p" using up by (simp add: page_aligned_iff)
  show "\<not> frame_used s p" "frame_used s' p" using up f(3) u by (simp_all add: frame_used_def)
  show "vm_inv s'" using spec(2) u inv by (simp add: vm_inv_def)
  show "frame_used s a \<Longrightarrow> frame_used s' a" using u by (simp add: frame_used_def)
  show "frame_used s' a \<longleftrightarrow> unat a div 4096 = unat p div 4096 \<or> frame_used s a"
    using u up by (auto simp: frame_used_def)
  have "{..< ?L} - used_frames (vpmm s) = insert f ({..< ?L} - used_frames (vpmm s'))"
    using f(2,3) unfolding u by blast
  moreover have "f \<notin> {..< ?L} - used_frames (vpmm s')" unfolding u by simp
  ultimately show "avail s = Suc (avail s')" unfolding avail_def ml by simp
qed

text \<open>
  \<open>s'\<close> extends \<open>s\<close> outside \<open>W\<close>: more frames may be in use, and the frames in use
  in \<open>s\<close> hold what they held, those in \<open>W\<close> excepted.
\<close>

definition extends :: "u32 set \<Rightarrow> vm \<Rightarrow> vm \<Rightarrow> bool" where
  "extends W s s' \<longleftrightarrow> vm_inv s' \<and> kernel_directory s' = kernel_directory s \<and> cr3 s' = cr3 s
     \<and> (\<forall>a. frame_used s a \<longrightarrow> frame_used s' a)
     \<and> (\<forall>a. page_aligned a \<and> frame_used s a \<and> a \<notin> W \<longrightarrow> frames s' a = frames s a)"

lemma extends_refl: "vm_inv s \<Longrightarrow> extends W s s"
  by (simp add: extends_def)

lemma extends_trans: "extends W s s' \<Longrightarrow> extends W s' s'' \<Longrightarrow> extends W s s''"
  by (simp add: extends_def)

lemma extends_mono: "extends W s s' \<Longrightarrow> W \<subseteq> V \<Longrightarrow> extends V s s'"
  unfolding extends_def by blast

lemma extends_fresh:
  "extends (insert p W) s s' \<Longrightarrow> \<not> frame_used s p \<Longrightarrow> extends W s s'"
  unfolding extends_def by (metis insertE)

lemma extends_alloc:
  assumes "vm_inv s" "0 < avail s" "alloc_frame s = (p, s')"
  shows "extends W s s'"
  using alloc_frame_ok(5,6) [OF assms] alloc_frame_simps [OF assms(3)] by (simp add: extends_def)

lemma extends_write: "extends W s s' \<Longrightarrow> a \<in> W \<or> \<not> frame_used s a \<Longrightarrow> extends W s (write_word a i w s')"
  by (auto simp: extends_def)

lemma extends_clear: "extends W s s' \<Longrightarrow> a \<in> W \<or> \<not> frame_used s a \<Longrightarrow> extends W s (clear_frame a s')"
  by (auto simp: extends_def)

lemma extends_frame: "extends W s s' \<Longrightarrow> page_aligned a \<Longrightarrow> frame_used s a \<Longrightarrow> a \<notin> W \<Longrightarrow>
  frames s' a = frames s a"
  by (simp add: extends_def)

subsection \<open>Mapping and lookup\<close>

text \<open>
  A directory in order: its frame and the frames of its tables are in use, and no entry leads
  back to the directory.
\<close>

definition pd_ok :: "u32 \<Rightarrow> vm \<Rightarrow> bool" where
  "pd_ok pd s \<longleftrightarrow> vm_inv s \<and> page_aligned pd \<and> frame_used s pd
     \<and> (\<forall>i. entry_present (frames s pd i) \<longrightarrow>
          frame_used s (frame_of (frames s pd i)) \<and> frame_of (frames s pd i) \<noteq> pd)"

lemma pd_ok_tableD:
  "pd_ok pd s \<Longrightarrow> entry_present (frames s pd i) \<Longrightarrow> frame_used s (frame_of (frames s pd i))"
  "pd_ok pd s \<Longrightarrow> entry_present (frames s pd i) \<Longrightarrow> frame_of (frames s pd i) \<noteq> pd"
  by (simp_all add: pd_ok_def)

lemma fresh_frame_neq: "\<not> frame_used s p \<Longrightarrow> frame_used s a \<Longrightarrow> a \<noteq> p"
  by auto

lemma ensure_table_spec:
  assumes ok: "pd_ok pd s" and av: "entry_present (frames s pd i) \<or> 0 < avail s"
  defines "s1 \<equiv> ensure_table pd i s"
  shows "pd_ok pd s1" "entry_present (frames s1 pd i)" "extends {pd} s s1"
    "\<forall>k. k \<noteq> i \<or> entry_present (frames s pd i) \<longrightarrow> frames s1 pd k = frames s pd k"
    "\<not> entry_present (frames s pd i) \<longrightarrow> frames s1 (frame_of (frames s1 pd i)) = (\<lambda>_. 0)
       \<and> \<not> frame_used s (frame_of (frames s1 pd i))"
proof -
  have "pd_ok pd s1 \<and> entry_present (frames s1 pd i) \<and> extends {pd} s s1
    \<and> (\<forall>k. k \<noteq> i \<or> entry_present (frames s pd i) \<longrightarrow> frames s1 pd k = frames s pd k)
    \<and> (\<not> entry_present (frames s pd i) \<longrightarrow> frames s1 (frame_of (frames s1 pd i)) = (\<lambda>_. 0)
       \<and> \<not> frame_used s (frame_of (frames s1 pd i)))"
  proof (cases "entry_present (frames s pd i)")
  case True
  then have "s1 = s" by (simp add: s1_def ensure_table_def)
  then show ?thesis
    using ok True by (simp add: extends_refl pd_ok_def)
next
  case False
  obtain pt t where a: "alloc_frame s = (pt, t)" by fastforce
  have inv: "vm_inv s" and av': "0 < avail s" using ok av False by (simp_all add: pd_ok_def)
  note al = alloc_frame_ok [OF inv av' a] and fr = alloc_frame_simps [OF a]
  have s1: "s1 = write_word pd i (pt OR 7) (clear_frame pt t)"
    using False a by (simp add: s1_def ensure_table_def)
  have pu: "frame_used s pd" and pa: "page_aligned pd" using ok by (simp_all add: pd_ok_def)
  then have ne: "pt \<noteq> pd" using al(3) by auto
  have fo: "frame_of (pt OR 7) = pt" and pr: "entry_present (pt OR 7)"
    using page_flags_mask [OF al(2), of 7] page_flags_present [OF al(2), of 7] by simp_all
  have e: "frames s1 pd k = (if k = i then pt OR 7 else frames s pd k)" for k
    using ne fr by (simp add: s1)
  have tab: "frames s1 pt = (\<lambda>_. 0)" using ne by (simp add: s1)
  have us: "frame_used s1 a = frame_used t a" for a by (simp add: s1)
  have "frame_used s1 (frame_of (frames s1 pd k)) \<and> frame_of (frames s1 pd k) \<noteq> pd"
    if "entry_present (frames s1 pd k)" for k
  proof (cases "k = i")
    case True
    then show ?thesis using e fo al(4) ne us by simp
  next
    case False
    then have "entry_present (frames s pd k)" using that e by simp
    then show ?thesis using pd_ok_tableD [OF ok] al(6) False e [of k] us by simp
  qed
  then have "pd_ok pd s1" using al(5,6) pu pa by (simp add: pd_ok_def s1)
  moreover have "extends {pd} s s1"
    unfolding s1 using extends_alloc [OF inv av' a] al(3) by (intro extends_write extends_clear) simp_all
  ultimately show ?thesis using e fo pr tab al(3) False by simp
  qed
  then show "pd_ok pd s1" "entry_present (frames s1 pd i)" "extends {pd} s s1"
    "\<forall>k. k \<noteq> i \<or> entry_present (frames s pd i) \<longrightarrow> frames s1 pd k = frames s pd k"
    "\<not> entry_present (frames s pd i) \<longrightarrow> frames s1 (frame_of (frames s1 pd i)) = (\<lambda>_. 0)
       \<and> \<not> frame_used s (frame_of (frames s1 pd i))" by blast+
qed

text \<open>The page-table entry a directory gives an address, 0 when there is no table.\<close>

definition pte :: "vm \<Rightarrow> u32 \<Rightarrow> u32 \<Rightarrow> u32" where
  "pte s pd v = (if entry_present (frames s pd (pd_index v))
     then frames s (frame_of (frames s pd (pd_index v))) (pt_index v) else 0)"

definition phys_of :: "u32 \<Rightarrow> u32 \<Rightarrow> u32" where
  "phys_of e v = (if entry_present e then frame_of e + (v AND 0xFFF) else 0)"

lemma vm_get_phys_pte: "vm_get_phys v s = phys_of (pte s (cr3 s) v) v"
  by (simp add: vm_get_phys_def pte_def phys_of_def Let_def)

text \<open>Two addresses whose translation is one and the same page-table entry.\<close>

definition same_slot :: "vm \<Rightarrow> u32 \<Rightarrow> u32 \<Rightarrow> u32 \<Rightarrow> bool" where
  "same_slot s pd v w \<longleftrightarrow> entry_present (frames s pd (pd_index v))
     \<and> frame_of (frames s pd (pd_index v)) = frame_of (frames s pd (pd_index w))
     \<and> pt_index v = pt_index w"

lemma map_in_spec:
  fixes phys virt flags :: u32
  assumes ok: "pd_ok pd s" and av: "entry_present (frames s pd (pd_index virt)) \<or> 0 < avail s"
  defines "s' \<equiv> map_in pd phys virt flags s"
  shows "pd_ok pd s'" "entry_present (frames s' pd (pd_index virt))" "cr3 s' = cr3 s"
    "kernel_directory s' = kernel_directory s"
    "pte s' pd v = (if same_slot s' pd v virt then frame_of phys OR flags else pte s pd v)"
    "\<And>k. k \<noteq> pd_index virt \<or> entry_present (frames s pd (pd_index virt)) \<Longrightarrow>
       frames s' pd k = frames s pd k"
proof -
  let ?i = "pd_index virt"
  let ?s1 = "ensure_table pd ?i s"
  let ?pt = "frame_of (frames ?s1 pd ?i)"
  note en = ensure_table_spec [OF ok av]
  have s': "s' = write_word ?pt (pt_index virt) (frame_of phys OR flags) ?s1"
    by (simp add: s'_def map_in_def Let_def)
  have ne: "?pt \<noteq> pd" by (rule pd_ok_tableD(2) [OF en(1,2)])
  have pd: "frames s' pd = frames ?s1 pd" using ne by (simp add: s')
  show "pd_ok pd s'" using en(1) unfolding pd_ok_def pd by (simp add: s')
  show "entry_present (frames s' pd ?i)" using en(2) pd by simp
  show "cr3 s' = cr3 s" "kernel_directory s' = kernel_directory s"
    using en(3) by (simp_all add: s' extends_def)
  show "\<And>k. k \<noteq> pd_index virt \<or> entry_present (frames s pd (pd_index virt)) \<Longrightarrow>
       frames s' pd k = frames s pd k" using en(4) pd by auto
  show "pte s' pd v = (if same_slot s' pd v virt then frame_of phys OR flags else pte s pd v)"
  proof (cases "entry_present (frames s' pd (pd_index v))")
    case False
    then have "\<not> entry_present (frames s pd (pd_index v))"
      using en(2,4) pd by (cases "pd_index v = ?i") auto
    then show ?thesis using False by (simp add: pte_def same_slot_def)
  next
    case pr: True
    let ?t = "frame_of (frames ?s1 pd (pd_index v))"
    show ?thesis
    proof (cases "same_slot s' pd v virt")
      case True
      then show ?thesis using pr pd by (simp add: pte_def same_slot_def s')
    next
      case False
      then have "pte s' pd v = frames ?s1 ?t (pt_index v)"
        using pr pd by (auto simp: pte_def same_slot_def s')
      also have "\<dots> = pte s pd v"
      proof (cases "entry_present (frames s pd (pd_index v))")
        case old: True
        then have eq: "frames ?s1 pd (pd_index v) = frames s pd (pd_index v)"
          using en(4) by (cases "pd_index v = ?i") auto
        then have "frame_used s ?t" "?t \<noteq> pd" using pd_ok_tableD [OF ok old] by simp_all
        then have "frames ?s1 ?t = frames s ?t" by (intro extends_frame [OF en(3)]) simp_all
        then show ?thesis using old eq by (simp add: pte_def)
      next
        case new: False
            then have i: "pd_index v = ?i" using en(4) pr pd by (metis (no_types))
        then have "frames ?s1 ?t = (\<lambda>_. 0)" using en(5) new by simp
        then show ?thesis using new by (simp add: pte_def)
      qed
      finally show ?thesis using False by simp
    qed
  qed
qed

text \<open>
  Mapping a page: on a directory in order, and with a frame left when a table is missing,
  \<open>vm_map_page\<close> makes \<open>vm_get_phys\<close> return the new frame for every address of the page,
  and for every other address what it returned before, except for addresses whose translation
  goes through the very same page-table slot. The directory stays in order.
\<close>

theorem vm_map_page_lookup:
  fixes phys virt flags :: u32
  assumes "pd_ok (cr3 s) s" "entry_present (frames s (cr3 s) (pd_index virt)) \<or> 0 < avail s"
    "entry_present flags" "flags < 4096"
  defines "s' \<equiv> vm_map_page phys virt flags s"
  shows "pd_ok (cr3 s') s' \<and> cr3 s' = cr3 s \<and> same_slot s' (cr3 s') virt virt
    \<and> (\<forall>v. vm_get_phys v s' = (if same_slot s' (cr3 s') v virt then frame_of phys + (v AND 0xFFF)
         else vm_get_phys v s))"
proof -
  note m = map_in_spec [OF assms(1,2), where phys = phys and flags = flags,
      folded vm_map_page_def, folded s'_def]
  have "flags AND 0xFFFFF000 = 0"
    using assms(4) unat_page_mask [of flags] by (simp add: word_unat_eq_iff word_less_nat_alt)
  then have "phys_of (frame_of phys OR flags) v = frame_of phys + (v AND 0xFFF)" for v
    using assms(3) page_flags_mask [of "frame_of phys" flags] page_flags_present [of "frame_of phys" flags]
    by (simp add: phys_of_def)
  then show ?thesis
    using m(1-3,5) by (simp add: vm_get_phys_pte same_slot_def)
qed

subsection \<open>Cloning a directory\<close>

definition npages :: "vm \<Rightarrow> u32 \<Rightarrow> nat \<Rightarrow> nat" where
  "npages s t k = card {j. j < k \<and> entry_present (frames s t j)}"

lemma npages_0 [simp]: "npages s t 0 = 0"
  by (simp add: npages_def)

lemma npages_Suc: "npages s t (Suc k) = (if entry_present (frames s t k) then Suc (npages s t k) else npages s t k)"
proof -
  have "{j. j < Suc k \<and> entry_present (frames s t j)} =
    (if entry_present (frames s t k) then insert k {j. j < k \<and> entry_present (frames s t j)}
     else {j. j < k \<and> entry_present (frames s t j)})"
    by (auto simp: less_Suc_eq)
  then show ?thesis by (simp add: npages_def)
qed

lemma npages_mono: "k \<le> n \<Longrightarrow> npages s t k \<le> npages s t n"
  unfolding npages_def by (rule card_mono) auto

text \<open>Entry \<open>e\<close> of a source table copied to \<open>e'\<close>: a private frame with the same contents.\<close>

definition copied :: "vm \<Rightarrow> vm \<Rightarrow> u32 \<Rightarrow> u32 \<Rightarrow> bool" where
  "copied s t e e' \<longleftrightarrow> (if entry_present e
     then \<exists>p. page_aligned p \<and> \<not> frame_used s p \<and> frame_used t p \<and> e' = p OR (e AND 0xFFF)
       \<and> frames t p = frames s (frame_of e)
     else e' = 0)"

lemma copied_extends:
  assumes "copied s t e e'" "extends W t t'" "\<forall>a \<in> W. frame_used s a \<or> frames t' a = frames t a"
  shows "copied s t' e e'"
proof (cases "entry_present e")
  case True
  then obtain p where p: "page_aligned p" "\<not> frame_used s p" "frame_used t p" "e' = p OR (e AND 0xFFF)"
      "frames t p = frames s (frame_of e)" using assms(1) by (auto simp: copied_def)
  have "frames t' p = frames t p"
    using assms(2,3) p(1,2,3) by (cases "p \<in> W") (auto simp: extends_def)
  then show ?thesis using p assms(2) True by (auto simp: copied_def extends_def)
qed (use assms(1) in \<open>simp add: copied_def\<close>)

lemma clone_page_absent: "\<not> entry_present (frames s src j) \<Longrightarrow> clone_page src dst j s = s"
  by (simp add: clone_page_def Let_def)

lemma clone_page_spec:
  assumes inv: "vm_inv s" and dst: "page_aligned dst" "frame_used s dst" and src: "frame_used s src"
    and e: "entry_present (frames s src j)" and av: "0 < avail s"
  defines "s' \<equiv> clone_page src dst j s"
  shows "extends {dst} s s'" "avail s = Suc (avail s')" "copied s s' (frames s src j) (frames s' dst j)"
    "\<forall>k. k \<noteq> j \<longrightarrow> frames s' dst k = frames s dst k"
proof -
  let ?e = "frames s src j"
  obtain p t where a: "alloc_frame s = (p, t)" by fastforce
  note al = alloc_frame_ok [OF inv av a] and fr = alloc_frame_simps [OF a]
  have ne: "dst \<noteq> p" "src \<noteq> p" using dst src al(3) by auto
  let ?t = "t\<lparr>frames := (frames t)(p := frames t (frame_of ?e))\<rparr>"
  have s': "s' = write_word dst j (p OR (?e AND 0xFFF)) ?t"
    using e a fr ne by (simp add: s'_def clone_page_def Let_def)
  have x: "extends {dst} s ?t"
    using extends_alloc [OF inv av a, of "{dst}"] al(3) fr unfolding extends_def by auto
  show "extends {dst} s s'" unfolding s' using x by (intro extends_write) simp_all
  show "avail s = Suc (avail s')" using al(7) by (simp add: s')
  show "\<forall>k. k \<noteq> j \<longrightarrow> frames s' dst k = frames s dst k" using fr ne by (simp add: s')
  have "frames s' p = frames s (frame_of ?e)" "frame_used s' p" "frames s' dst j = p OR (?e AND 0xFFF)"
    using fr ne al(4) by (simp_all add: s')
  then show "copied s s' ?e (frames s' dst j)"
    using al(2,3) e by (auto simp: copied_def)
qed

text \<open>The inner loop of \<open>pd_clone\<close> over one table.\<close>

lemma clone_pages_spec:
  assumes inv: "vm_inv s" and dst: "page_aligned dst" "frame_used s dst" "frames s dst = (\<lambda>_. 0)"
    and src: "page_aligned src" "frame_used s src" "src \<noteq> dst"
    and data: "\<forall>j < 1024. entry_present (frames s src j) \<longrightarrow>
        frame_used s (frame_of (frames s src j)) \<and> frame_of (frames s src j) \<noteq> dst"
    and av: "npages s src 1024 \<le> avail s"
  defines "s' \<equiv> fold (clone_page src dst) [0 ..< 1024] s"
  shows "extends {dst} s s'" "avail s = avail s' + npages s src 1024"
    "\<forall>j < 1024. copied s s' (frames s src j) (frames s' dst j)"
proof -
  define P where "P = (\<lambda>k t. extends {dst} s t \<and> avail s = avail t + npages s src k
    \<and> (\<forall>j < k. copied s t (frames s src j) (frames t dst j)) \<and> (\<forall>j \<ge> k. frames t dst j = 0))"
  have "P 1024 s'"
    unfolding s'_def
  proof (rule fold_upt_inv)
    show "P 0 s" using inv dst(3) by (simp add: P_def extends_refl)
    fix k t assume k: "k < 1024" and Pt: "P k t"
    let ?t = "clone_page src dst k t"
    have x: "extends {dst} s t" and avt: "avail s = avail t + npages s src k"
      and cp: "\<forall>j < k. copied s t (frames s src j) (frames t dst j)"
      and rest: "\<forall>j \<ge> k. frames t dst j = 0"
      using Pt by (simp_all add: P_def)
    have srct: "frames t src = frames s src" by (rule extends_frame [OF x src(1,2)]) (use src(3) in simp)
    have used: "frame_used t dst" "frame_used t src" "vm_inv t"
      using x dst(2) src(2) by (simp_all add: extends_def)
    show "P (Suc k) ?t"
    proof (cases "entry_present (frames s src k)")
      case False
      then have "?t = t" using srct by (simp add: clone_page_absent)
      moreover have "copied s t (frames s src k) (frames t dst k)" using False rest by (simp add: copied_def)
      ultimately show ?thesis using x avt cp rest False by (simp add: P_def npages_Suc less_Suc_eq)
    next
      case True
      have "Suc (npages s src k) \<le> npages s src 1024"
        using npages_mono [of "Suc k" 1024 s src] k True by (simp add: npages_Suc)
      then have pos: "0 < avail t" using av avt by simp
      have pr: "entry_present (frames t src k)" using True srct by simp
      note c = clone_page_spec [OF used(3) dst(1) used(1,2) pr pos]
      have x': "extends {dst} s ?t" by (rule extends_trans [OF x c(1)])
      have same: "frames t (frame_of (frames s src k)) = frames s (frame_of (frames s src k))"
        using data k True by (intro extends_frame [OF x]) simp_all
      have new: "copied s ?t (frames s src k) (frames ?t dst k)"
      proof -
        obtain p where "page_aligned p" "\<not> frame_used t p" "frame_used ?t p"
          "frames ?t dst k = p OR (frames s src k AND 0xFFF)"
          "frames ?t p = frames t (frame_of (frames s src k))"
          using c(3) True srct by (auto simp: copied_def)
        moreover from this have "\<not> frame_used s p" using x by (auto simp: extends_def)
        ultimately show ?thesis using True same by (auto simp: copied_def)
      qed
      have old: "copied s ?t (frames s src j) (frames ?t dst j)" if "j < k" for j
      proof -
        have "copied s t (frames s src j) (frames ?t dst j)" using cp that c(4) by simp
        then show ?thesis by (rule copied_extends [OF _ c(1)]) (use dst(2) in simp)
      qed
      have "\<forall>j \<ge> Suc k. frames ?t dst j = 0" using c(4) rest by simp
      then show ?thesis
        using x' avt c(2) new old True by (simp add: P_def npages_Suc less_Suc_eq)
    qed
  qed
  then show "extends {dst} s s'" "avail s = avail s' + npages s src 1024"
    "\<forall>j < 1024. copied s s' (frames s src j) (frames s' dst j)"
    by (simp_all add: P_def)
qed

text \<open>The entries \<open>pd_clone\<close> copies: present, and not the kernel's own.\<close>

definition user_entry :: "vm \<Rightarrow> u32 \<Rightarrow> nat \<Rightarrow> bool" where
  "user_entry s pd i \<longleftrightarrow> entry_present (frames s pd i) \<and> frames s pd i \<noteq> frames s (kernel_pd s) i"

text \<open>Table \<open>i\<close> of the new directory: a private table whose entries are copies.\<close>

definition table_copied :: "vm \<Rightarrow> vm \<Rightarrow> u32 \<Rightarrow> u32 \<Rightarrow> nat \<Rightarrow> bool" where
  "table_copied s t src new i \<longleftrightarrow> (\<exists>T. page_aligned T \<and> \<not> frame_used s T \<and> frame_used t T
     \<and> frames t new i = T OR (frames s src i AND 0xFFF)
     \<and> (\<forall>j < 1024. copied s t (frames s (frame_of (frames s src i)) j) (frames t T j)))"

lemma clone_table_skip: "\<not> user_entry s src i \<Longrightarrow> clone_table src new i s = s"
  by (auto simp: clone_table_def user_entry_def Let_def)

lemma clone_table_spec:
  assumes inv: "vm_inv s" and src: "frame_used s src" "src \<noteq> new"
    and new: "page_aligned new" "frame_used s new" and u: "user_entry s src i"
    and tab: "frame_used s (frame_of (frames s src i))"
    and data: "\<forall>j < 1024. entry_present (frames s (frame_of (frames s src i)) j) \<longrightarrow>
        frame_used s (frame_of (frames s (frame_of (frames s src i)) j))
        \<and> frame_of (frames s (frame_of (frames s src i)) j) \<noteq> new"
    and tn: "frame_of (frames s src i) \<noteq> new"
    and av: "Suc (npages s (frame_of (frames s src i)) 1024) \<le> avail s"
  defines "s' \<equiv> clone_table src new i s"
  shows "extends {new} s s'" "avail s = avail s' + Suc (npages s (frame_of (frames s src i)) 1024)"
    "table_copied s s' src new i" "\<forall>k. k \<noteq> i \<longrightarrow> frames s' new k = frames s new k"
proof -
  let ?e = "frames s src i"
  let ?src = "frame_of ?e"
  obtain T t where a: "alloc_frame s = (T, t)" by fastforce
  have av': "0 < avail s" using av by simp
  note al = alloc_frame_ok [OF inv av' a] and fr = alloc_frame_simps [OF a]
  have ne: "src \<noteq> T" "new \<noteq> T" "?src \<noteq> T" using src(1) new(2) tab al(3) by auto
  let ?t = "write_word new i (T OR (?e AND 0xFFF)) (clear_frame T t)"
  have s': "s' = fold (clone_page ?src T) [0 ..< 1024] ?t"
    using u a fr ne by (simp add: s'_def clone_table_def user_entry_def Let_def)
  have x: "extends {new} s ?t"
    using extends_alloc [OF inv av' a] al(3) by (intro extends_write extends_clear) simp_all
  have srct: "frames ?t ?src = frames s ?src" using fr ne tn by simp
  have T0: "frames ?t T = (\<lambda>_. 0)" using ne by simp
  have use: "frame_used ?t T" "frame_used ?t ?src" using al(4,6) tab by simp_all
  have dt: "\<forall>j < 1024. entry_present (frames ?t ?src j) \<longrightarrow>
        frame_used ?t (frame_of (frames ?t ?src j)) \<and> frame_of (frames ?t ?src j) \<noteq> T"
    unfolding srct using data al(3,6) by auto
  have np: "npages ?t ?src 1024 = npages s ?src 1024" using srct by (simp add: npages_def)
  have "npages ?t ?src 1024 \<le> avail ?t" unfolding np using av al(7) by simp
  note c = clone_pages_spec [OF _ al(2) use(1) T0 page_aligned_mask use(2) ne(3) dt this, folded s']
  have ivt: "vm_inv ?t" using al(5) by simp
  note c = c [OF ivt]
  have xT: "extends {T} ?t s'" by (rule c(1))
  have "extends {new, T} s ?t" "extends {new, T} ?t s'"
    by (rule extends_mono [OF x], simp, rule extends_mono [OF xT], simp)
  then have "extends (insert T {new}) s s'" using extends_trans by (simp add: insert_commute)
  then show ext: "extends {new} s s'" by (rule extends_fresh) (rule al(3))
  show "avail s = avail s' + Suc (npages s ?src 1024)" using c(2) al(7) unfolding np by simp
  have nw: "frames s' new = frames ?t new"
    by (rule extends_frame [OF xT new(1)]) (use new(2) al(6) ne in simp_all)
  show "\<forall>k. k \<noteq> i \<longrightarrow> frames s' new k = frames s new k" using fr ne unfolding nw by simp
  have "copied s s' (frames s ?src j) (frames s' T j)" if j: "j < 1024" for j
  proof -
    have cj: "copied ?t s' (frames s ?src j) (frames s' T j)" using c(3) j srct by simp
    show ?thesis
    proof (cases "entry_present (frames s ?src j)")
      case True
      then have "frames ?t (frame_of (frames s ?src j)) = frames s (frame_of (frames s ?src j))"
        using data j by (intro extends_frame [OF x]) simp_all
      then show ?thesis using cj True al(6) by (fastforce simp: copied_def)
    qed (use cj in \<open>simp add: copied_def\<close>)
  qed
  moreover have "frames s' new i = T OR (?e AND 0xFFF)" using nw by simp
  moreover have "frame_used s' T" using xT use(1) by (simp add: extends_def)
  ultimately show "table_copied s s' src new i" using al(2,3) by (auto simp: table_copied_def)
qed

lemma pd_create_spec:
  assumes inv: "vm_inv s" and av: "0 < avail s" and kd: "frame_used s (kernel_pd s)"
    and res: "pd_create s = (pd, s')"
  shows "page_aligned pd" "\<not> frame_used s pd" "frame_used s' pd" "extends {} s s'" "avail s = Suc (avail s')"
    "\<forall>i < 1024. frames s' pd i = (if entry_present (frames s (kernel_pd s) i)
       then frames s (kernel_pd s) i else 0)"
proof -
  obtain t where a: "alloc_frame s = (pd, t)"
    and s': "s' = fold (\<lambda>i s. if entry_present (frames s (kernel_pd s) i)
                          then write_word pd i (frames s (kernel_pd s) i) s else s)
                [0 ..< 1024] (clear_frame pd t)"
    using res by (auto simp: pd_create_def Let_def split: prod.splits)
  note al = alloc_frame_ok [OF inv av a] and fr = alloc_frame_simps [OF a]
  let ?k = "kernel_pd s"
  let ?c = "clear_frame pd t"
  have ne: "?k \<noteq> pd" using kd al(3) by auto
  define P where "P = (\<lambda>n u. extends {pd} s u \<and> kernel_directory u = kernel_directory s
    \<and> frames u ?k = frames s ?k \<and> vpmm u = vpmm t
    \<and> (\<forall>i. frames u pd i = (if i < n \<and> entry_present (frames s ?k i) then frames s ?k i else 0)))"
  have "P 1024 s'"
    unfolding s'
  proof (rule fold_upt_inv)
    have "extends {pd} s ?c" using extends_alloc [OF inv av a] by (intro extends_clear) simp_all
    then show "P 0 ?c" using fr ne by (simp add: P_def)
    fix n u assume "P n u"
    then show "P (Suc n) (if entry_present (frames u (kernel_pd u) n)
        then write_word pd n (frames u (kernel_pd u) n) u else u)"
      using ne by (auto simp: P_def less_Suc_eq intro: extends_write)
  qed
  then have p: "extends {pd} s s'" "vpmm s' = vpmm t"
    "\<forall>i. frames s' pd i = (if i < 1024 \<and> entry_present (frames s ?k i) then frames s ?k i else 0)"
    by (simp_all add: P_def)
  show "page_aligned pd" "\<not> frame_used s pd" by (rule al)+
  show "frame_used s' pd" "avail s = Suc (avail s')"
    using al(4,7) p(2) by (simp_all add: frame_used_def avail_def)
  show "extends {} s s'" using p(1) al(3) by (rule extends_fresh)
  show "\<forall>i < 1024. frames s' pd i = (if entry_present (frames s ?k i) then frames s ?k i else 0)"
    using p(3) by simp
qed
text \<open>A source directory whose user tables and pages are frames in use.\<close>

definition space_ok :: "vm \<Rightarrow> u32 \<Rightarrow> bool" where
  "space_ok s src \<longleftrightarrow> vm_inv s \<and> page_aligned src \<and> frame_used s src
     \<and> page_aligned (kernel_pd s) \<and> frame_used s (kernel_pd s)
     \<and> (\<forall>i < 768. user_entry s src i \<longrightarrow> frame_used s (frame_of (frames s src i))
          \<and> (\<forall>j < 1024. entry_present (frames s (frame_of (frames s src i)) j) \<longrightarrow>
               frame_used s (frame_of (frames s (frame_of (frames s src i)) j))))"

text \<open>The frames a clone takes: one per directory, per copied table and per page in it.\<close>

definition clone_need :: "vm \<Rightarrow> u32 \<Rightarrow> nat \<Rightarrow> nat" where
  "clone_need s src k = (\<Sum>i<k. if user_entry s src i
     then Suc (npages s (frame_of (frames s src i)) 1024) else 0)"

lemma pt_index_less: "pt_index v < 1024"
proof -
  have "unat (drop_bit 12 v AND mask 10) = unat (drop_bit 12 v) mod 2 ^ 10" by (rule unat_and_mask)
  then show ?thesis by (simp add: pt_index_def mask_eq_exp_minus_1)
qed

lemma space_ok_extends:
  assumes ok: "space_ok s src" and x: "extends {} s t"
  shows "space_ok t src" "frames t src = frames s src" "\<And>i. user_entry t src i = user_entry s src i"
    "\<And>i. i < 768 \<Longrightarrow> user_entry s src i \<Longrightarrow>
       frames t (frame_of (frames s src i)) = frames s (frame_of (frames s src i))"
proof -
  have kd: "kernel_directory t = kernel_directory s" using x by (simp add: extends_def)
  have same: "frames t a = frames s a" if "page_aligned a" "frame_used s a" for a
    using extends_frame [OF x that] by simp
  show src: "frames t src = frames s src" using ok by (intro same) (simp_all add: space_ok_def)
  have k: "frames t (kernel_pd s) = frames s (kernel_pd s)" using ok by (intro same) (simp_all add: space_ok_def)
  show u: "\<And>i. user_entry t src i = user_entry s src i" by (simp add: user_entry_def src k kd)
  show tab: "\<And>i. i < 768 \<Longrightarrow> user_entry s src i \<Longrightarrow>
       frames t (frame_of (frames s src i)) = frames s (frame_of (frames s src i))"
    using ok by (intro same) (simp_all add: space_ok_def)
  show "space_ok t src"
    using ok x tab unfolding space_ok_def u src kd by (auto simp: extends_def)
qed

lemma clone_tables_spec:
  assumes ok: "space_ok s src" and new: "page_aligned new" "frame_used s new"
    and sep: "src \<noteq> new" "kernel_pd s \<noteq> new"
      "\<forall>i < 768. user_entry s src i \<longrightarrow> frame_of (frames s src i) \<noteq> new
        \<and> (\<forall>j < 1024. entry_present (frames s (frame_of (frames s src i)) j) \<longrightarrow>
             frame_of (frames s (frame_of (frames s src i)) j) \<noteq> new)"
    and av: "clone_need s src 768 \<le> avail s"
  defines "s' \<equiv> fold (clone_table src new) [0 ..< 768] s"
  shows "extends {new} s s'" "\<forall>i < 768. user_entry s src i \<longrightarrow> table_copied s s' src new i"
    "\<forall>i. \<not> (i < 768 \<and> user_entry s src i) \<longrightarrow> frames s' new i = frames s new i"
proof -
  define P where "P = (\<lambda>k t. extends {new} s t \<and> avail s = avail t + clone_need s src k
    \<and> (\<forall>i < k. user_entry s src i \<longrightarrow> table_copied s t src new i)
    \<and> (\<forall>i. \<not> (i < k \<and> user_entry s src i) \<longrightarrow> frames t new i = frames s new i))"
  have "P 768 s'"
    unfolding s'_def
  proof (rule fold_upt_inv)
    show "P 0 s" using ok by (simp add: P_def clone_need_def extends_refl space_ok_def)
    fix k t assume k: "k < 768" and Pt: "P k t"
    let ?t = "clone_table src new k t"
    have x: "extends {new} s t" and avt: "avail s = avail t + clone_need s src k"
      and cp: "\<forall>i < k. user_entry s src i \<longrightarrow> table_copied s t src new i"
      and un: "\<forall>i. \<not> (i < k \<and> user_entry s src i) \<longrightarrow> frames t new i = frames s new i"
      using Pt by (simp_all add: P_def)
    have same: "frames t a = frames s a" if "page_aligned a" "frame_used s a" "a \<noteq> new" for a
      using extends_frame [OF x that(1,2)] that(3) by simp
    have kd: "kernel_directory t = kernel_directory s" using x by (simp add: extends_def)
    have srct: "frames t src = frames s src" using ok sep(1) by (intro same) (simp_all add: space_ok_def)
    have kt: "frames t (kernel_pd s) = frames s (kernel_pd s)"
      using ok sep(2) by (intro same) (simp_all add: space_ok_def)
    have ut: "user_entry t src k = user_entry s src k" by (simp add: user_entry_def srct kt kd)
    show "P (Suc k) ?t"
    proof (cases "user_entry s src k")
      case False
      then have "?t = t" using ut by (intro clone_table_skip) simp
      then show ?thesis using x avt cp un False
        by (auto simp: P_def clone_need_def less_Suc_eq)
    next
      case True
      let ?tab = "frame_of (frames s src k)"
      have tb: "frame_used s ?tab" "?tab \<noteq> new" using ok k True sep(3) by (simp_all add: space_ok_def)
      have tabt: "frames t ?tab = frames s ?tab" using tb by (intro same) simp_all
      have need: "clone_need s src (Suc k) = clone_need s src k + Suc (npages s ?tab 1024)"
        using True by (simp add: clone_need_def)
      have "clone_need s src (Suc k) \<le> clone_need s src 768"
        unfolding clone_need_def using k by (intro sum_mono2) auto
      then have avk: "Suc (npages t (frame_of (frames t src k)) 1024) \<le> avail t"
        using need av avt tabt srct by (simp add: npages_def)
      have use: "vm_inv t" "frame_used t src" "frame_used t new" "frame_used t (frame_of (frames t src k))"
        using x ok new tb srct by (simp_all add: extends_def space_ok_def)
      have data: "\<forall>j < 1024. entry_present (frames t (frame_of (frames t src k)) j) \<longrightarrow>
          frame_used t (frame_of (frames t (frame_of (frames t src k)) j))
          \<and> frame_of (frames t (frame_of (frames t src k)) j) \<noteq> new"
        using ok k True sep(3) x unfolding srct tabt by (simp add: space_ok_def extends_def)
      have tn: "frame_of (frames t src k) \<noteq> new" using tb srct by simp
      have u: "user_entry t src k" using True ut by simp
      note c = clone_table_spec [OF use(1,2) sep(1) new(1) use(3) u use(4) data tn avk]
      have x': "extends {new} s ?t" by (rule extends_trans [OF x c(1)])
      have newk: "table_copied s ?t src new k"
      proof -
        obtain T where T: "page_aligned T" "\<not> frame_used t T" "frame_used ?t T"
          "frames ?t new k = T OR (frames s src k AND 0xFFF)"
          "\<forall>j < 1024. copied t ?t (frames s ?tab j) (frames ?t T j)"
          using c(3) by (auto simp: table_copied_def srct tabt)
        have "copied s ?t (frames s ?tab j) (frames ?t T j)" if j: "j < 1024" for j
        proof (cases "entry_present (frames s ?tab j)")
          case True
          then have "frames t (frame_of (frames s ?tab j)) = frames s (frame_of (frames s ?tab j))"
            using ok k j sep(3) \<open>user_entry s src k\<close> by (intro same) (simp_all add: space_ok_def)
          then show ?thesis using T(5) j True x by (fastforce simp: copied_def extends_def)
        qed (use T(5) j in \<open>simp add: copied_def\<close>)
        then show ?thesis using T x by (auto simp: table_copied_def extends_def)
      qed
      have old: "table_copied s ?t src new i" if i: "i < k" "user_entry s src i" for i
      proof -
        obtain T where T: "page_aligned T" "\<not> frame_used s T" "frame_used t T"
          "frames t new i = T OR (frames s src i AND 0xFFF)"
          "\<forall>j < 1024. copied s t (frames s (frame_of (frames s src i)) j) (frames t T j)"
          using cp i by (auto simp: table_copied_def)
        have "T \<noteq> new" using T(2) new(2) by auto
        then have Tt: "frames ?t T = frames t T" using extends_frame [OF c(1) T(1,3)] by simp
        have "copied s ?t (frames s (frame_of (frames s src i)) j) (frames ?t T j)" if "j < 1024" for j
          unfolding Tt by (rule copied_extends [OF _ c(1)]) (use T(5) that new(2) in simp_all)
        moreover have "frame_used ?t T" using c(1) T(3) by (simp add: extends_def)
        ultimately show ?thesis using T c(4) i(1) by (auto simp: table_copied_def)
      qed
      have "\<forall>i. \<not> (i < Suc k \<and> user_entry s src i) \<longrightarrow> frames ?t new i = frames s new i"
        using c(4) un True by (auto simp: less_Suc_eq)
      moreover have "avail s = avail ?t + clone_need s src (Suc k)"
        using need avt c(2) tabt srct by (simp add: npages_def)
      ultimately show ?thesis using x' newk old by (auto simp: P_def less_Suc_eq)
    qed
  qed
  then show "extends {new} s s'" "\<forall>i < 768. user_entry s src i \<longrightarrow> table_copied s s' src new i"
    "\<forall>i. \<not> (i < 768 \<and> user_entry s src i) \<longrightarrow> frames s' new i = frames s new i"
    by (simp_all add: P_def)
qed

text \<open>
  C1. \<open>pd_clone\<close> gives a private copy of the user address space: with enough frames
  available, the new directory is a fresh frame; every user page of the source is mapped in it, with
  the same flags, to a frame that was not in use before and holds the same contents; an unmapped
  entry is unmapped there; every entry taken from the kernel is shared; and no frame in use before
  the call (the source directory, its tables and pages, the kernel's) has changed.
\<close>

theorem pd_clone_isolated:
  assumes "space_ok s src" "Suc (clone_need s src 768) \<le> avail s" "pd_clone src s = (new, s')"
  shows "\<not> frame_used s new \<and> frame_used s' new
    \<and> (\<forall>a. page_aligned a \<and> frame_used s a \<longrightarrow> frame_used s' a \<and> frames s' a = frames s a)
    \<and> (\<forall>v. pd_index v < 768 \<and> user_entry s src (pd_index v) \<longrightarrow> copied s s' (pte s src v) (pte s' new v))
    \<and> (\<forall>i < 1024. \<not> (i < 768 \<and> user_entry s src i) \<and> entry_present (frames s (kernel_pd s) i)
         \<longrightarrow> frames s' new i = frames s (kernel_pd s) i)"
proof -
  obtain s1 where c: "pd_create s = (new, s1)" and s': "s' = fold (clone_table src new) [0 ..< 768] s1"
    using assms(3) by (auto simp: pd_clone_def split: prod.splits)
  have inv: "vm_inv s" "0 < avail s" "frame_used s (kernel_pd s)"
    using assms(1,2) by (simp_all add: space_ok_def)
  note cr = pd_create_spec [OF inv c]
  note sp = space_ok_extends [OF assms(1) cr(4)]
  have fresh: "a \<noteq> new" if "frame_used s a" for a using that cr(2) by auto
  have sep: "src \<noteq> new" "kernel_pd s1 \<noteq> new"
    using assms(1) cr(4) by (auto intro!: fresh simp: space_ok_def extends_def)
  have sep3: "\<forall>i < 768. user_entry s1 src i \<longrightarrow> frame_of (frames s1 src i) \<noteq> new
        \<and> (\<forall>j < 1024. entry_present (frames s1 (frame_of (frames s1 src i)) j) \<longrightarrow>
             frame_of (frames s1 (frame_of (frames s1 src i)) j) \<noteq> new)"
    unfolding sp(2,3) using assms(1) sp(4) by (auto intro!: fresh simp: space_ok_def)
  have "clone_need s1 src 768 = clone_need s src 768"
    unfolding clone_need_def sp(2,3) using sp(4) by (intro sum.cong) (auto simp: npages_def)
  then have "clone_need s1 src 768 \<le> avail s1" using assms(2) cr(5) by simp
  note cl = clone_tables_spec [OF sp(1) cr(1,3) sep sep3 this, folded s']
  have x: "extends {} s s'"
  proof -
    have "extends {new} s s'" using extends_mono [OF cr(4), of "{new}"] extends_trans [OF _ cl(1)] by blast
    then show ?thesis using cr(2) by (rule extends_fresh)
  qed
  have "copied s s' (pte s src v) (pte s' new v)"
    if v: "pd_index v < 768" "user_entry s src (pd_index v)" for v
  proof -
    let ?e = "frames s src (pd_index v)"
    obtain T where T: "page_aligned T" "\<not> frame_used s1 T"
      "frames s' new (pd_index v) = T OR (?e AND 0xFFF)"
      "\<forall>j < 1024. copied s1 s' (frames s1 (frame_of ?e) j) (frames s' T j)"
      using cl(2) v sp(3) by (auto simp: table_copied_def sp(2))
    have pr: "entry_present ?e" using v(2) by (simp add: user_entry_def)
    have "entry_present (T OR (?e AND 0xFFF))" "frame_of (T OR (?e AND 0xFFF)) = T"
      using pr T(1) by (simp_all add: page_flags_present page_flags_mask)
    then have new: "pte s' new v = frames s' T (pt_index v)" by (simp add: pte_def T(3))
    have old: "pte s src v = frames s (frame_of ?e) (pt_index v)" using pr by (simp add: pte_def)
    have tab: "frames s1 (frame_of ?e) = frames s (frame_of ?e)" using sp(4) v by simp
    have cp: "copied s1 s' (pte s src v) (pte s' new v)"
      using T(4) pt_index_less [of v] unfolding new old tab by simp
    show ?thesis
    proof (cases "entry_present (pte s src v)")
      case True
      then have "frame_used s (frame_of (pte s src v))"
        using assms(1) v pt_index_less [of v] unfolding old by (simp add: space_ok_def)
      then have "frames s1 (frame_of (pte s src v)) = frames s (frame_of (pte s src v))"
        using extends_frame [OF cr(4)] by simp
      then show ?thesis using cp True cr(4) by (fastforce simp: copied_def extends_def)
    qed (use cp in \<open>simp add: copied_def\<close>)
  qed
  moreover have "frames s' new i = frames s (kernel_pd s) i"
    if "i < 1024" "\<not> (i < 768 \<and> user_entry s src i)" "entry_present (frames s (kernel_pd s) i)" for i
    using cl(3) that cr(6) sp(3) by auto
  moreover have "frame_used s' new" using cl(1) cr(3) by (simp add: extends_def)
  ultimately show ?thesis using cr(2) x by (auto simp: extends_def)
qed

subsection \<open>Unmapping\<close>

text \<open>
  Unmapping a page: on a directory in order \<open>vm_unmap_page\<close> makes \<open>vm_get_phys\<close>
  return 0 for every address that goes through the page's slot, leaves every other translation as
  it was, and gives exactly the mapped frame back to the allocator.
\<close>

theorem vm_unmap_page_lookup:
  assumes ok: "pd_ok (cr3 s) s" and m: "entry_present (pte s (cr3 s) virt)"
    and lim: "unat (frame_of (pte s (cr3 s) virt)) div 4096 < unat (pmm_max_blocks (vpmm s))"
  defines "s' \<equiv> vm_unmap_page virt s"
  shows "(\<forall>v. vm_get_phys v s' = (if same_slot s (cr3 s) v virt then 0 else vm_get_phys v s))
    \<and> used_frames (vpmm s') = used_frames (vpmm s) - {unat (frame_of (pte s (cr3 s) virt)) div 4096}"
proof -
  let ?e = "frames s (cr3 s) (pd_index virt)" and ?p = "pte s (cr3 s) virt"
  have pr: "entry_present ?e" using m by (simp add: pte_def split: if_splits)
  then have p: "?p = frames s (frame_of ?e) (pt_index virt)" by (simp add: pte_def)
  have s': "s' = write_word (frame_of ?e) (pt_index virt) 0 (free_frame (frame_of ?p) s)"
    using pr m unfolding p by (simp add: s'_def vm_unmap_page_def Let_def)
  have ne: "frame_of ?e \<noteq> cr3 s" by (rule pd_ok_tableD(2) [OF ok pr])
  have "pte s' (cr3 s') v = (if same_slot s (cr3 s) v virt then 0 else pte s (cr3 s) v)" for v
    using ne by (auto simp: s' pte_def same_slot_def)
  then have "\<forall>v. vm_get_phys v s' = (if same_slot s (cr3 s) v virt then 0 else vm_get_phys v s)"
    by (simp add: vm_get_phys_pte phys_of_def)
  moreover have "pmm_inv (vpmm s)" using ok by (simp add: pd_ok_def vm_inv_def)
  from pmm_frames.release_used [OF this lim]
  have "used_frames (vpmm s') = used_frames (vpmm s) - {unat (frame_of ?p) div 4096}" by (simp add: s')
  ultimately show ?thesis by blast
qed

text \<open>Clearing only ever zeroes words.\<close>

definition zeroed :: "vm \<Rightarrow> vm \<Rightarrow> bool" where
  "zeroed s t \<longleftrightarrow> cr3 t = cr3 s \<and> (\<forall>a k. frames t a k = frames s a k \<or> frames t a k = 0)"

lemma zeroed_trans: "zeroed s t \<Longrightarrow> zeroed t u \<Longrightarrow> zeroed s u"
  by (auto simp: zeroed_def) metis

lemma zeroed_fold:
  assumes "\<And>j s. zeroed s (f j s)"
  shows "zeroed s (fold f js s)"
proof (induction js arbitrary: s)
  case (Cons j js)
  show ?case using zeroed_trans [OF assms Cons.IH] by simp
qed (simp add: zeroed_def)

lemma clear_user_table_spec:
  "zeroed s (clear_user_table pd i s)" "\<not> entry_present (frames (clear_user_table pd i s) pd i)"
proof -
  let ?pt = "frame_of (frames s pd i)"
  let ?step = "\<lambda>j s. if entry_present (frames s ?pt j)
     then write_word ?pt j 0 (free_frame (frame_of (frames s ?pt j)) s) else s"
  let ?s1 = "fold ?step [0 ..< 1024] s"
  have z: "zeroed s ?s1" by (rule zeroed_fold) (simp add: zeroed_def)
  have w: "zeroed t (write_word a k 0 (free_frame f t))" for t a k f by (simp add: zeroed_def)
  have eq: "clear_user_table pd i s = (if entry_present (frames s pd i)
      then write_word pd i 0 (free_frame (frame_of (frames ?s1 pd i)) ?s1) else s)"
    by (simp add: clear_user_table_def Let_def)
  show "zeroed s (clear_user_table pd i s)"
    using zeroed_trans [OF z w] unfolding eq by (simp add: zeroed_def)
  show "\<not> entry_present (frames (clear_user_table pd i s) pd i)" unfolding eq by simp
qed

text \<open>
  After \<open>vm_clear_user_mappings\<close> no address from 1 GB up to 3 GB is translated by the
  current directory, whatever the tables held.
\<close>

theorem vm_clear_user_mappings_clears:
  assumes "0x40000000 \<le> unat v" "unat v < 0xC0000000"
  shows "vm_get_phys v (vm_clear_user_mappings s) = 0"
proof -
  let ?f = "clear_user_table (cr3 s)"
  have all: "\<forall>i \<in> set is. \<not> entry_present (frames (fold ?f is t) (cr3 s) i)" for "is" t
  proof (induction "is" rule: rev_induct)
    case (snoc i "is")
    let ?u = "fold ?f is t"
    have "frames (?f i ?u) (cr3 s) k = frames ?u (cr3 s) k \<or> frames (?f i ?u) (cr3 s) k = 0" for k
      using clear_user_table_spec(1) [of ?u "cr3 s" i] by (simp add: zeroed_def)
    then have "\<not> entry_present (frames (?f i ?u) (cr3 s) k)"
      if "\<not> entry_present (frames ?u (cr3 s) k)" for k
      using that by (metis and_zero_eq zero_and_eq)
    then show ?case using snoc clear_user_table_spec(2) [of "cr3 s" i ?u] by auto
  qed simp
  have z: "zeroed s (fold ?f [256 ..< 768] s)" by (rule zeroed_fold) (rule clear_user_table_spec(1))
  then have c: "cr3 (vm_clear_user_mappings s) = cr3 s"
    unfolding vm_clear_user_mappings_def zeroed_def by (rule conjunct1)
  have "pd_index v = unat v div 4194304" by (simp add: pd_index_def drop_bit_eq_div unat_div)
  then have "256 \<le> pd_index v" "pd_index v < 768" using assms by (simp_all add: less_mult_imp_div_less)
  then have "pd_index v \<in> set [256 ..< 768]" unfolding set_upt by simp
  then have "\<not> entry_present (frames (vm_clear_user_mappings s) (cr3 s) (pd_index v))"
    using all [of "[256 ..< 768]" s] unfolding vm_clear_user_mappings_def by blast
  then show ?thesis unfolding vm_get_phys_pte c by (simp add: pte_def phys_of_def)
qed

subsection \<open>The kernel's tables\<close>

definition table_identity :: "vm \<Rightarrow> u32 \<Rightarrow> nat \<Rightarrow> bool" where
  "table_identity s T j \<longleftrightarrow> (\<forall>i < 1024. frame_of (frames s T i) = of_nat (j * 4194304 + i * 4096)
     \<and> entry_present (frames s T i))"

text \<open>What \<open>init_paging\<close> has built after \<open>n\<close> of its 128 tables.\<close>

definition kernel_tables :: "u32 \<Rightarrow> nat \<Rightarrow> vm \<Rightarrow> bool" where
  "kernel_tables pd n s \<longleftrightarrow> (\<forall>j < n. frames s pd j = frames s pd (768 + j) \<and> entry_present (frames s pd j)
     \<and> table_identity s (frame_of (frames s pd j)) j)"

lemma addr_aligned: "page_aligned (of_nat (j * 4194304 + i * 4096))"
proof -
  have "(of_nat (j * 4194304 + i * 4096) :: u32) = push_bit 12 (of_nat (j * 1024 + i))"
    by (simp add: push_bit_eq_mult algebra_simps)
  moreover have "push_bit 12 w AND 0xFFF = (0 :: u32)" for w
  proof -
    have "push_bit 12 w AND mask 12 = (0 :: u32)" by (rule bit_eqI) (auto simp: bit_simps)
    then show ?thesis by (simp add: mask_eq_exp_minus_1)
  qed
  ultimately show ?thesis by (simp add: page_aligned_def)
qed

lemma kernel_flags_low: "kernel_flags tx ro v AND 0xFFFFF000 = 0" "entry_present (kernel_flags tx ro v)"
  by (simp_all add: kernel_flags_def)

lemma init_table_spec:
  fixes tx ro :: "u32 \<times> u32"
  assumes ok: "pd_ok pd s" and pd: "kernel_pd s = pd" and av: "0 < avail s" and j: "j < 128"
    and kt: "kernel_tables pd j s"
  defines "s' \<equiv> init_table tx ro j s"
  shows "pd_ok pd s'" "kernel_pd s' = pd" "avail s = Suc (avail s')" "kernel_tables pd (Suc j) s'"
    "cr3 s' = cr3 s"
proof -
  obtain T t where a: "alloc_frame s = (T, t)" by fastforce
  have inv: "vm_inv s" using ok by (simp add: pd_ok_def)
  note al = alloc_frame_ok [OF inv av a] and fr = alloc_frame_simps [OF a]
  have pu: "page_aligned pd" "frame_used s pd" using ok by (simp_all add: pd_ok_def)
  have ne: "T \<noteq> pd" using pu al(3) by auto
  let ?addr = "\<lambda>i. of_nat (j * 4 * 1024 * 1024 + i * 4096) :: u32"
  let ?ent = "\<lambda>i. ?addr i OR kernel_flags tx ro (?addr i + KERNEL_VIRTUAL_BASE)"
  define P where "P = (\<lambda>n u. extends {T} s u \<and> vpmm u = vpmm t \<and> (\<forall>i < n. frames u T i = ?ent i))"
  define u where "u = fold (\<lambda>i s. write_word T i (?ent i) s) [0 ..< 1024] (clear_frame T t)"
  have "P 1024 u"
    unfolding u_def
  proof (rule fold_upt_inv)
    show "P 0 (clear_frame T t)"
      using extends_alloc [OF inv av a] by (auto simp: P_def intro: extends_clear)
    fix k w assume "P k w"
    then show "P (Suc k) (write_word T k (?ent k) w)"
      by (auto simp: P_def less_Suc_eq intro: extends_write)
  qed
  then have u: "extends {T} s u" "vpmm u = vpmm t" "\<forall>i < 1024. frames u T i = ?ent i" by (simp_all add: P_def)
  have pu': "kernel_pd u = pd" using u(1) pd by (simp add: extends_def)
  have s': "s' = write_word pd j (T OR 3) (write_word pd (768 + j) (T OR 3) u)"
    using a pu' by (simp add: s'_def init_table_def u_def Let_def)
  have fo: "frame_of (T OR 3) = T" "entry_present (T OR 3)"
    using page_flags_mask [OF al(2), of 3] page_flags_present [OF al(2), of 3] by simp_all
  have upd: "frames u pd = frames s pd" using extends_frame [OF u(1) pu] ne by simp
  have e: "frames s' pd i = (if i = j \<or> i = 768 + j then T OR 3 else frames s pd i)" for i
    using upd by (simp add: s')
  have others: "frames s' b = frames u b" if "b \<noteq> pd" for b using that by (simp add: s')
  have us: "frame_used s' b = frame_used t b" for b using u(2) by (simp add: s' frame_used_def)
  show "kernel_pd s' = pd" "cr3 s' = cr3 s" using pu' u(1) by (simp_all add: s' extends_def)
  show "avail s = Suc (avail s')" using al(7) u(2) by (simp add: s' avail_def)
  have "frame_used s' (frame_of (frames s' pd i)) \<and> frame_of (frames s' pd i) \<noteq> pd"
    if "entry_present (frames s' pd i)" for i
  proof (cases "i = j \<or> i = 768 + j")
    case True
    then show ?thesis using e fo al(4) ne us by simp
  next
    case False
    then show ?thesis using that e pd_ok_tableD [OF ok] al(6) us by simp
  qed
  moreover have "vm_inv s'" using u(1) by (simp add: s' extends_def)
  ultimately show "pd_ok pd s'" using pu al(6) us by (simp add: pd_ok_def)
  have "table_identity s' T j"
    unfolding table_identity_def
  proof (intro allI impI)
    fix i :: nat assume i: "i < 1024"
    have "page_aligned (?addr i)" using addr_aligned [of j i] by (simp add: mult.commute mult.left_commute)
    then show "frame_of (frames s' T i) = of_nat (j * 4194304 + i * 4096) \<and> entry_present (frames s' T i)"
      using u(3) i others [OF ne] kernel_flags_low by (simp add: page_flags_mask page_flags_present)
  qed
  moreover have "table_identity s' (frame_of (frames s pd k)) k" if k: "k < j" for k
  proof -
    have pr: "entry_present (frames s pd k)" and ti: "table_identity s (frame_of (frames s pd k)) k"
      using kt k unfolding kernel_tables_def by blast+
    have "frame_used s (frame_of (frames s pd k))" "frame_of (frames s pd k) \<noteq> pd"
      using pd_ok_tableD [OF ok pr] by simp_all
    moreover from this have "frame_of (frames s pd k) \<noteq> T" using al(3) by auto
    ultimately have "frames s' (frame_of (frames s pd k)) = frames s (frame_of (frames s pd k))"
      using others extends_frame [OF u(1)] by simp
    then show ?thesis using ti by (simp add: table_identity_def)
  qed
  ultimately show "kernel_tables pd (Suc j) s'"
    using kt j fo by (auto simp: kernel_tables_def e less_Suc_eq)
qed

lemma switch_simps [simp]:
  "frames (switch_page_directory d s) = frames s" "vpmm (switch_page_directory d s) = vpmm s"
  "kernel_directory (switch_page_directory d s) = kernel_directory s"
  "cr3 (switch_page_directory d s) = VIRT_TO_PHYS d"
  "avail (switch_page_directory d s) = avail s" "pd_ok pd (switch_page_directory d s) = pd_ok pd s"
  "kernel_tables pd n (switch_page_directory d s) = kernel_tables pd n s"
  by (simp_all add: switch_page_directory_def avail_def pd_ok_def vm_inv_def frame_used_def
      kernel_tables_def table_identity_def)

lemma init_paging_spec:
  fixes tx ro :: "u32 \<times> u32"
  assumes inv: "vm_inv s" and av: "129 \<le> avail s"
  defines "s' \<equiv> init_paging tx ro (\<lambda>s. s) s"
  shows "pd_ok (kernel_pd s') s'" "cr3 s' = kernel_pd s'" "kernel_tables (kernel_pd s') 128 s'"
    "avail s = avail s' + 129"
proof -
  obtain pd t where a: "alloc_frame s = (pd, t)" by fastforce
  have av': "0 < avail s" using av by simp
  note al = alloc_frame_ok [OF inv av' a] and fr = alloc_frame_simps [OF a]
  let ?t = "clear_frame pd (t\<lparr>kernel_directory := PHYS_TO_VIRT pd\<rparr>)"
  define P where "P = (\<lambda>n u. pd_ok pd u \<and> kernel_pd u = pd \<and> avail t = avail u + n \<and> kernel_tables pd n u)"
  let ?u = "fold (init_table tx ro) [0 ..< 128] ?t"
  have "P 128 ?u"
  proof (rule fold_upt_inv)
    have "vm_inv ?t" "frame_used ?t pd" "avail ?t = avail t"
      using al(4,5) by (simp_all add: vm_inv_def frame_used_def avail_def)
    then show "P 0 ?t"
      using al by (simp add: P_def pd_ok_def kernel_tables_def VIRT_TO_PHYS_def PHYS_TO_VIRT_def)
    fix k u assume k: "k < 128" and p: "P k u"
    then have "0 < avail u" using av al(7) by (simp add: P_def)
    then show "P (Suc k) (init_table tx ro k u)"
      using init_table_spec [of pd u k tx ro] p k by (simp add: P_def)
  qed
  moreover have "s' = switch_page_directory (kernel_directory ?u) ?u"
    using a by (simp add: s'_def init_paging_def Let_def)
  ultimately show "pd_ok (kernel_pd s') s'" "cr3 s' = kernel_pd s'" "kernel_tables (kernel_pd s') 128 s'"
    "avail s = avail s' + 129"
    using al(7) by (simp_all add: P_def)
qed

lemma pd_index_eq: "pd_index v = unat v div 4194304"
  by (simp add: pd_index_def drop_bit_eq_div unat_div)

lemma pt_index_eq: "pt_index v = unat v div 4096 mod 1024"
proof -
  have "unat (drop_bit 12 v AND mask 10) = unat (drop_bit 12 v) mod 2 ^ 10" by (rule unat_and_mask)
  then show ?thesis
    by (simp add: pt_index_def mask_eq_exp_minus_1 drop_bit_eq_div unat_div)
qed

lemma high_alias:
  assumes "unat v < 0x20000000"
  shows "unat (v + KERNEL_VIRTUAL_BASE) = unat v + 3221225472"
    "pd_index (v + KERNEL_VIRTUAL_BASE) = 768 + pd_index v" "pd_index v < 128"
    "pt_index (v + KERNEL_VIRTUAL_BASE) = pt_index v"
    "(v + KERNEL_VIRTUAL_BASE) AND 0xFFF = v AND 0xFFF"
proof -
  show u: "unat (v + KERNEL_VIRTUAL_BASE) = unat v + 3221225472"
    using assms by (subst unat_add_small) simp_all
  show "pd_index v < 128" using assms by (simp add: pd_index_eq less_mult_imp_div_less)
  have k: "unat (v + KERNEL_VIRTUAL_BASE) = unat v + 786432 * 4096" using u by simp
  have d: "(unat v + 786432 * 4096) div 4096 = unat v div 4096 + 786432" by (subst div_mult_self1) simp_all
  have "(unat v + 768 * 4194304) div 4194304 = unat v div 4194304 + 768" by (subst div_mult_self1) simp_all
  then show "pd_index (v + KERNEL_VIRTUAL_BASE) = 768 + pd_index v" unfolding pd_index_eq u by simp
  have "(unat v div 4096 + 768 * 1024) mod 1024 = unat v div 4096 mod 1024" by (rule mod_mult_self1)
  then show "pt_index (v + KERNEL_VIRTUAL_BASE) = pt_index v" unfolding pt_index_eq k d by simp
  have "unat ((v + KERNEL_VIRTUAL_BASE) AND 0xFFF) = unat (v AND 0xFFF)"
    unfolding unat_and_fff k by (rule mod_mult_self1)
  then show "(v + KERNEL_VIRTUAL_BASE) AND 0xFFF = v AND 0xFFF" by (simp add: word_unat_eq_iff)
qed

text \<open>
  Boot paging and low user addresses: after \<open>init_paging\<close> every kernel address
  \<open>v + 0xC0000000\<close> with \<open>v\<close> below 512 MB translates to \<open>v\<close>; the tables behind it
  are also the tables of \<open>v\<close> itself, in every directory made by \<open>pd_create\<close>. So
  \<open>vm_map_page\<close> of a page at \<open>v\<close> in such a directory redirects the kernel address
  \<open>v + 0xC0000000\<close> to the new frame, in the new directory and in the kernel's own.
\<close>

theorem low_mapping_redirects_kernel:
  fixes phys v :: u32
  assumes inv: "vm_inv s" and av: "130 \<le> avail s" and v: "unat v < 0x20000000"
    and cr: "pd_create (init_paging tx ro (\<lambda>s. s) s) = (pd, s1)"
  defines "s2 \<equiv> vm_map_page phys v 7 (pd_switch pd s1)"
  shows "vm_get_phys (v + KERNEL_VIRTUAL_BASE) (pd_switch pd s1) = v
    \<and> vm_get_phys (v + KERNEL_VIRTUAL_BASE) s2 = frame_of phys + (v AND 0xFFF)
    \<and> vm_get_phys (v + KERNEL_VIRTUAL_BASE) (pd_switch (kernel_pd s2) s2) = frame_of phys + (v AND 0xFFF)"
proof -
  let ?s = "init_paging tx ro (\<lambda>s. s) s" and ?w = "v + KERNEL_VIRTUAL_BASE"
  let ?K = "kernel_pd ?s" and ?i = "pd_index v" and ?j = "pt_index v"
  have "129 \<le> avail s" using av by simp
  note ip = init_paging_spec [OF inv this, of tx ro]
  have kok: "vm_inv ?s" "frame_used ?s ?K" "page_aligned ?K" "0 < avail ?s"
    using ip(1,4) av by (simp_all add: pd_ok_def)
  note c = pd_create_spec [OF kok(1,4,2) cr]
  note al = high_alias [OF v]
  let ?e = "frames ?s ?K ?i"
  let ?T = "frame_of ?e"
  have e: "frames ?s ?K (768 + ?i) = ?e" "entry_present ?e" "table_identity ?s ?T ?i"
    using ip(3) al(3) unfolding kernel_tables_def by metis+
  have kd: "kernel_directory s1 = kernel_directory ?s" using c(4) by (simp add: extends_def)
  have tu: "frame_used ?s ?T" "?T \<noteq> ?K" using pd_ok_tableD [OF ip(1) e(2)] by simp_all
  have ne: "?T \<noteq> pd" "?K \<noteq> pd" using tu(1) kok(2) c(2) by auto
  have f1: "frames s1 ?T = frames ?s ?T" "frames s1 ?K = frames ?s ?K"
    using extends_frame [OF c(4)] tu(1) kok(2,3) by simp_all
  have pe: "frames s1 pd ?i = ?e" "frames s1 pd (768 + ?i) = ?e"
    using c(6) al(3) e by auto
  have jl: "?j < 1024" by (rule pt_index_less)
  have "phys_of (frames ?s ?T ?j) ?w = of_nat (?i * 4194304 + ?j * 4096) + (v AND 0xFFF)"
    using e(3) jl al(5) by (simp add: table_identity_def phys_of_def)
  also have "v AND 0xFFF = of_nat (unat v mod 4096)"
    using unat_and_fff [of v] by (metis of_nat_unat ucast_id)
  also have "(of_nat (?i * 4194304 + ?j * 4096) :: u32) + of_nat (unat v mod 4096)
      = of_nat (?i * 4194304 + ?j * 4096 + unat v mod 4096)" by (simp only: of_nat_add)
  also have "?i * 4194304 + ?j * 4096 + unat v mod 4096 = unat v"
  proof -
    have "unat v div 4096 div 1024 = ?i" by (simp add: pd_index_eq div_mult2_eq [symmetric])
    then have "?i * 1024 + ?j = unat v div 4096"
      using div_mult_mod_eq [of "unat v div 4096" 1024] by (simp add: pt_index_eq)
    then show ?thesis using div_mult_mod_eq [of "unat v" 4096] by linarith
  qed
  finally have id: "phys_of (frames ?s ?T ?j) ?w = v" by simp
  have s2: "s2 = write_word ?T ?j (frame_of phys OR 7) (pd_switch pd s1)"
    using pe(1) e(2) by (simp add: s2_def vm_map_page_def map_in_def ensure_table_def pd_switch_def)
  have new: "phys_of (frame_of phys OR 7) ?w = frame_of phys + (v AND 0xFFF)"
    using al(5) page_flags_mask [of "frame_of phys" 7] page_flags_present [of "frame_of phys" 7]
    by (simp add: phys_of_def)
  have "pte (pd_switch pd s1) pd ?w = frames ?s ?T ?j"
    using pe e f1 al by (simp add: pte_def pd_switch_def)
  moreover have "pte s2 pd ?w = frame_of phys OR 7"
    using pe e al ne by (simp add: s2 pte_def pd_switch_def)
  moreover have "pte s2 ?K ?w = frame_of phys OR 7"
    using e f1 al tu(2) by (simp add: s2 pte_def pd_switch_def)
  moreover have "cr3 (pd_switch d t) = d" "pte (pd_switch d t) = pte t" for d t
    by (simp_all add: pd_switch_def pte_def fun_eq_iff)
  moreover have "cr3 s2 = pd" "kernel_pd s2 = ?K" using kd by (simp_all add: s2 pd_switch_def)
  ultimately show ?thesis using id new by (simp add: vm_get_phys_pte)
qed

subsection \<open>Concrete states for the witnesses\<close>

text \<open>
  Sixty-four frames, the first five in use: the kernel directory (empty) in frame 1, a process
  directory in frame 2 whose entry 300 is the table in frame 3, which maps its page 5 to frame 4.
\<close>

definition demo_vm :: vm where
  "demo_vm = \<lparr>frames = (\<lambda>_ _. 0)(0x2000 := (\<lambda>_. 0)(300 := 0x3007), 0x3000 := (\<lambda>_. 0)(5 := 0x4007)),
     cr3 = 0x2000, kernel_directory = 0xC0001000, current_directory = 0,
     vpmm = pmm_mark_region_used 0 0x5000 (pmm_init 262144 (\<lambda>_. 0))\<rparr>"

lemma demo_vm_pmm:
  "pmm_inv (vpmm demo_vm)" "used_frames (vpmm demo_vm) = {..<5}" "unat (pmm_max_blocks (vpmm demo_vm)) = 64"
proof -
  have i: "pmm_inv (pmm_init 262144 (\<lambda>_. 0))" "used_frames (pmm_init 262144 (\<lambda>_. 0)) = {}"
    by (rule pmm_init_spec, simp add: unat_div)+
  have r: "region_ok 0 0x5000 (pmm_init 262144 (\<lambda>_. 0))" "region_frames 0 0x5000 = {..<5}"
    by (auto simp: region_ok_def region_frames_def blocks_of_def pmm_init_def Let_def unat_div)
  show "pmm_inv (vpmm demo_vm)" "used_frames (vpmm demo_vm) = {..<5}"
    using mark_region_used_spec [OF i(1) r(1)] i(2) r(2) by (simp_all add: demo_vm_def)
  show "unat (pmm_max_blocks (vpmm demo_vm)) = 64"
    by (simp add: demo_vm_def pmm_mark_region_used_def pmm_init_def Let_def)
qed

lemma demo_vm_inv: "vm_inv demo_vm" "avail demo_vm = 59"
proof -
  show "vm_inv demo_vm" using demo_vm_pmm by (simp add: vm_inv_def)
  have "{..<64} - {..<5} = {5 ..< 64 :: nat}" by auto
  then show "avail demo_vm = 59" using demo_vm_pmm by (simp add: avail_def)
qed
lemma demo_vm_entry:
  "frames demo_vm 0x2000 i = (if i = 300 then 0x3007 else 0)"
  "frames demo_vm 0x3000 j = (if j = 5 then 0x4007 else 0)"
  "frames demo_vm 0x1000 j = 0" "kernel_pd demo_vm = 0x1000" "cr3 demo_vm = 0x2000"
  by (simp_all add: demo_vm_def VIRT_TO_PHYS_def)

lemma demo_vm_used [simp]: "frame_used demo_vm a \<longleftrightarrow> unat a div 4096 < 5"
  by (simp add: frame_used_def demo_vm_pmm)

lemma demo_vm_pd_ok: "pd_ok 0x2000 demo_vm"
  by (auto simp: pd_ok_def demo_vm_inv demo_vm_entry page_aligned_def)

lemma demo_vm_user: "user_entry demo_vm 0x2000 i \<longleftrightarrow> i = 300"
  by (simp add: user_entry_def demo_vm_entry)

lemma demo_vm_space: "space_ok demo_vm 0x2000"
  by (auto simp: space_ok_def demo_vm_inv demo_vm_user demo_vm_entry page_aligned_def)

lemma demo_vm_need: "clone_need demo_vm 0x2000 768 = 2"
proof -
  have "{j. j < 1024 \<and> entry_present (frames demo_vm 0x3000 j)} = {5}" by (auto simp: demo_vm_entry)
  then have "npages demo_vm 0x3000 1024 = 1" by (simp add: npages_def)
  then have "clone_need demo_vm 0x2000 768 = (\<Sum>i\<in>{..<768 :: nat}. if i = 300 then 2 else 0)"
    unfolding clone_need_def by (intro sum.cong) (simp_all add: demo_vm_user demo_vm_entry)
  then show ?thesis by simp
qed

theorem vm_map_page_lookup_witness:
  "vm_get_phys 0x40000ABC (vm_map_page 0x9000 0x40000000 7 demo_vm) = 0x9ABC"
proof -
  let ?s = "vm_map_page 0x9000 0x40000000 7 demo_vm"
  have ok: "pd_ok (cr3 demo_vm) demo_vm" using demo_vm_pd_ok by (simp add: demo_vm_entry)
  have p: "entry_present 7" "(7 :: u32) < 4096"
    "entry_present (frames demo_vm (cr3 demo_vm) (pd_index 0x40000000)) \<or> 0 < avail demo_vm"
    by (simp_all add: demo_vm_inv)
  note L = vm_map_page_lookup [OF ok p(3,1,2), of "0x9000"]
  then have "same_slot ?s (cr3 ?s) 0x40000000 0x40000000" by blast
  moreover have "pd_index 0x40000ABC = pd_index 0x40000000" "pt_index 0x40000ABC = pt_index 0x40000000"
    by code_simp+
  ultimately have "same_slot ?s (cr3 ?s) 0x40000ABC 0x40000000" by (simp add: same_slot_def)
  then have "vm_get_phys 0x40000ABC ?s = frame_of 0x9000 + (0x40000ABC AND 0xFFF)" using L by metis
  then show ?thesis by simp
qed

theorem pd_clone_isolated_witness:
  "\<exists>new s'. pd_clone 0x2000 demo_vm = (new, s') \<and> \<not> frame_used demo_vm new
     \<and> copied demo_vm s' (pte demo_vm 0x2000 0x4B005000) (pte s' new 0x4B005000)"
proof -
  obtain new s' where c: "pd_clone 0x2000 demo_vm = (new, s')" by fastforce
  have need: "Suc (clone_need demo_vm 0x2000 768) \<le> avail demo_vm"
    by (simp add: demo_vm_need demo_vm_inv)
  have "pd_index 0x4B005000 = 300" by code_simp
  then show ?thesis
    using pd_clone_isolated [OF demo_vm_space need c] c by (auto simp: demo_vm_user)
qed

theorem vm_unmap_page_lookup_witness:
  "vm_get_phys 0x4B005123 (vm_unmap_page 0x4B005000 demo_vm) = 0
   \<and> used_frames (vpmm (vm_unmap_page 0x4B005000 demo_vm)) = {0, 1, 2, 3}"
proof -
  have i: "pd_index 0x4B005000 = 300" "pt_index 0x4B005000 = 5" "pd_index 0x4B005123 = 300"
    "pt_index 0x4B005123 = 5" by code_simp+
  have p: "pte demo_vm 0x2000 0x4B005000 = 0x4007" by (simp add: pte_def i demo_vm_entry)
  have ok: "pd_ok (cr3 demo_vm) demo_vm" using demo_vm_pd_ok by (simp add: demo_vm_entry)
  have "{..<5} - {4 :: nat} = {0, 1, 2, 3}" by auto
  then show ?thesis
    using vm_unmap_page_lookup [OF ok, of "0x4B005000"] p demo_vm_pmm
    by (simp add: demo_vm_entry same_slot_def i)
qed

theorem vm_clear_user_mappings_clears_witness:
  "vm_get_phys 0x4B005123 (vm_clear_user_mappings demo_vm) = 0"
  by (rule vm_clear_user_mappings_clears) simp_all

text \<open>A machine with 256 frames, the first in use, before paging is set up.\<close>

definition boot_vm :: vm where
  "boot_vm = \<lparr>frames = (\<lambda>_ _. 0), cr3 = 0, kernel_directory = 0, current_directory = 0,
     vpmm = pmm_mark_region_used 0 0x1000 (pmm_init 1048576 (\<lambda>_. 0))\<rparr>"

lemma boot_vm_inv: "vm_inv boot_vm" "130 \<le> avail boot_vm"
proof -
  have i: "pmm_inv (pmm_init 1048576 (\<lambda>_. 0))" "used_frames (pmm_init 1048576 (\<lambda>_. 0)) = {}"
    by (rule pmm_init_spec, simp add: unat_div)+
  have r: "region_ok 0 0x1000 (pmm_init 1048576 (\<lambda>_. 0))" "region_frames 0 0x1000 = {0}"
    by (auto simp: region_ok_def region_frames_def blocks_of_def pmm_init_def Let_def unat_div)
  have u: "pmm_inv (vpmm boot_vm)" "used_frames (vpmm boot_vm) = {0}"
    using mark_region_used_spec [OF i(1) r(1)] i(2) r(2) by (simp_all add: boot_vm_def)
  have m: "unat (pmm_max_blocks (vpmm boot_vm)) = 256"
    by (simp add: boot_vm_def pmm_mark_region_used_def pmm_init_def Let_def)
  show "vm_inv boot_vm" using u by (simp add: vm_inv_def)
  have "{..<256} - {0} = {1 ..< 256 :: nat}" by auto
  then show "130 \<le> avail boot_vm" using u m by (simp add: avail_def)
qed

theorem low_mapping_redirects_kernel_witness:
  "\<exists>pd s1. pd_create (init_paging (0, 0) (0, 0) (\<lambda>s. s) boot_vm) = (pd, s1)
     \<and> vm_get_phys 0xC0400000 (pd_switch pd s1) = 0x400000
     \<and> vm_get_phys 0xC0400000 (vm_map_page 0x9000 0x400000 7 (pd_switch pd s1)) = 0x9000"
proof -
  obtain pd s1 where c: "pd_create (init_paging (0, 0) (0, 0) (\<lambda>s. s) boot_vm) = (pd, s1)" by fastforce
  have "unat (0x400000 :: u32) < 0x20000000" by simp
  from low_mapping_redirects_kernel [OF boot_vm_inv this c, of "0x9000"] c show ?thesis by auto
qed

end
