(* ===== verification/Shm.thy ===== *)
theory Shm
  imports Vm
begin

text \<open>
  Shared memory segments, \<open>src/kernel/shm.cpp\<close>, and the demand-paging handler of
  \<open>src/kernel/paging.cpp\<close>, which looks segments up. A segment is a run of contiguous frames;
  segment \<open>i\<close> is always mapped at \<open>0x70000000 + i * 8 MB\<close>. Ids are integers, -1 for
  failure. Logging is left out.
\<close>

subsection \<open>State and operations\<close>

abbreviation SHM_MAX_SEGMENTS :: nat where "SHM_MAX_SEGMENTS \<equiv> 32"

abbreviation SHM_BASE :: u32 where "SHM_BASE \<equiv> 0x70000000"

record shm_segment =
  seg_key :: u32
  seg_size :: u32
  phys_addr :: u32
  virt_start :: u32
  ref_count :: int
  in_use :: bool

record shm_state =
  shm_segments :: "shm_segment list"
  svm :: vm

definition shm_init :: "shm_state \<Rightarrow> shm_state" where
  "shm_init s = s\<lparr>shm_segments := map (\<lambda>g. g\<lparr>in_use := False, ref_count := 0\<rparr>) (shm_segments s)\<rparr>"

definition seg_pages :: "u32 \<Rightarrow> u32" where
  "seg_pages sz = (sz + 4096 - 1) div 4096"

definition final_size :: "u32 \<Rightarrow> u32" where
  "final_size sz = (if sz > 4 * 1024 * 1024 then sz else 4 * 1024 * 1024)"

definition sys_shmget :: "u32 \<Rightarrow> u32 \<Rightarrow> shm_state \<Rightarrow> int \<times> shm_state" where
  "sys_shmget key sz s =
     (case first_idx (\<lambda>g. in_use g \<and> seg_key g = key) (shm_segments s) of
        Some i \<Rightarrow> (int i, s)
      | None \<Rightarrow>
          (case first_idx (\<lambda>g. \<not> in_use g) (shm_segments s) of
             None \<Rightarrow> (- 1, s)
           | Some slot \<Rightarrow>
               let (phys, m) = pmm_alloc_contiguous_blocks (seg_pages (final_size sz)) (vpmm (svm s));
                   s1 = s\<lparr>svm := (svm s)\<lparr>vpmm := m\<rparr>\<rparr>
               in if phys = 0 then (- 1, s1)
                  else (int slot, s1\<lparr>shm_segments := (shm_segments s1)[slot :=
                         (shm_segments s1 ! slot)\<lparr>seg_key := key, seg_size := final_size sz,
                            phys_addr := phys, ref_count := 0, in_use := True\<rparr>]\<rparr>)))"

definition shm_free :: "int \<Rightarrow> shm_state \<Rightarrow> shm_state" where
  "shm_free shmid s =
     (if shmid < 0 \<or> shmid \<ge> int SHM_MAX_SEGMENTS then s
      else
        let i = nat shmid; g = shm_segments s ! i in
        if \<not> in_use g then s
        else s\<lparr>svm := (svm s)\<lparr>vpmm := pmm_free_contiguous_blocks (phys_addr g) (seg_pages (seg_size g)) (vpmm (svm s))\<rparr>,
               shm_segments := (shm_segments s)[i := g\<lparr>in_use := False, seg_key := 0, ref_count := 0\<rparr>]\<rparr>)"

definition attach_pages :: "u32 \<Rightarrow> u32 \<Rightarrow> nat \<Rightarrow> vm \<Rightarrow> vm" where
  "attach_pages phys virt n m =
     fold (\<lambda>i m. vm_map_page (phys + of_nat i * 4096) (virt + of_nat i * 4096) 7 m) [0 ..< n] m"

definition sys_shmat :: "int \<Rightarrow> shm_state \<Rightarrow> u32 \<times> shm_state" where
  "sys_shmat shmid s =
     (if shmid < 0 \<or> shmid \<ge> int SHM_MAX_SEGMENTS then (0, s)
      else
        let i = nat shmid; g = shm_segments s ! i in
        if \<not> in_use g then (0, s)
        else
          let virt = SHM_BASE + of_nat i * 0x800000;
              num_pages = (seg_size g + 4095) div 4096
          in (virt, s\<lparr>svm := attach_pages (phys_addr g) virt (unat num_pages) (svm s),
                      shm_segments := (shm_segments s)[i := g\<lparr>virt_start := virt, ref_count := ref_count g + 1\<rparr>]\<rparr>))"

definition sys_shmdt :: "u32 \<Rightarrow> shm_state \<Rightarrow> int \<times> shm_state" where
  "sys_shmdt addr s = (0, s)"

definition shm_get_segment :: "u32 \<Rightarrow> shm_state \<Rightarrow> shm_segment option" where
  "shm_get_segment virt s =
     (if virt < SHM_BASE \<or> virt \<ge> 0x80000000 then None
      else
        let i = unat ((virt - SHM_BASE) div 0x800000) in
        if i < SHM_MAX_SEGMENTS \<and> in_use (shm_segments s ! i)
           \<and> virt < SHM_BASE + of_nat i * 0x800000 + seg_size (shm_segments s ! i)
        then Some (shm_segments s ! i) else None)"

text \<open>
  \<open>handle_demand_paging\<close>: the result says whether the fault was handled; \<open>have_process\<close> is
  the test of \<open>current_process\<close>.
\<close>

definition map_new_frame :: "u32 \<Rightarrow> shm_state \<Rightarrow> shm_state" where
  "map_new_frame page s =
     (let (phys, m) = alloc_frame (svm s) in s\<lparr>svm := vm_map_page phys page 7 m\<rparr>)"

definition handle_demand_paging :: "bool \<Rightarrow> u32 \<Rightarrow> shm_state \<Rightarrow> bool \<times> shm_state" where
  "handle_demand_paging have_process addr s =
     (let page = frame_of addr;
          present = (case paging_get_pte addr (svm s) of None \<Rightarrow> False
                     | Some (t, i) \<Rightarrow> entry_present (frames (svm s) t i));
          seg = (if addr \<ge> SHM_BASE \<and> addr < 0x80000000 then shm_get_segment addr s else None)
      in if present then (False, s)
         else if addr \<ge> 0xE0000000 then
           (let (phys, m) = alloc_frame (svm s)
            in if phys = 0 then (False, s\<lparr>svm := m\<rparr>)
               else (True, s\<lparr>svm := vm_map_page phys page 3 m\<rparr>))
         else if \<not> have_process then (False, s)
         else (case seg of
           Some g \<Rightarrow> (True, s\<lparr>svm := vm_map_page (phys_addr g + (page - virt_start g)) page 7 (svm s)\<rparr>)
         | None \<Rightarrow>
             if addr \<ge> 0x00400000 \<and> addr < 0x70000000 then (True, map_new_frame page s)
             else if addr \<ge> 0xAF000000 \<and> addr \<le> 0xB0000000 then (True, map_new_frame page s)
             else (False, s)))"

subsection \<open>The segment table\<close>

definition seg_run :: "shm_segment \<Rightarrow> nat set" where
  "seg_run g = {unat (phys_addr g) div 4096 ..< unat (phys_addr g) div 4096 + unat (seg_pages (seg_size g))}"

text \<open>
  Every segment in use owns a run of frames that are in use, below the limit; two segments never
  share a frame or a key; frame 0 is reserved.
\<close>

definition shm_inv :: "shm_state \<Rightarrow> bool" where
  "shm_inv s \<longleftrightarrow> length (shm_segments s) = SHM_MAX_SEGMENTS \<and> vm_inv (svm s)
     \<and> (\<forall>i < 32. in_use (shm_segments s ! i) \<longrightarrow> seg_run (shm_segments s ! i) \<subseteq> used_frames (vpmm (svm s)))
     \<and> (\<forall>i < 32. \<forall>j < 32. i \<noteq> j \<and> in_use (shm_segments s ! i) \<and> in_use (shm_segments s ! j) \<longrightarrow>
          seg_run (shm_segments s ! i) \<inter> seg_run (shm_segments s ! j) = {}
          \<and> seg_key (shm_segments s ! i) \<noteq> seg_key (shm_segments s ! j))"

lemma shm_inv_nth:
  "shm_inv s \<Longrightarrow> i < 32 \<Longrightarrow> in_use (shm_segments s ! i) \<Longrightarrow> seg_run (shm_segments s ! i) \<subseteq> used_frames (vpmm (svm s))"
  "shm_inv s \<Longrightarrow> i < 32 \<Longrightarrow> j < 32 \<Longrightarrow> i \<noteq> j \<Longrightarrow> in_use (shm_segments s ! i) \<Longrightarrow> in_use (shm_segments s ! j) \<Longrightarrow>
    seg_run (shm_segments s ! i) \<inter> seg_run (shm_segments s ! j) = {}
    \<and> seg_key (shm_segments s ! i) \<noteq> seg_key (shm_segments s ! j)"
  "shm_inv s \<Longrightarrow> length (shm_segments s) = 32" "shm_inv s \<Longrightarrow> pmm_inv (vpmm (svm s))"
  "shm_inv s \<Longrightarrow> 0 \<in> used_frames (vpmm (svm s))"
  by (simp_all add: shm_inv_def vm_inv_def)

lemma seg_pages_final:
  assumes "unat sz + 4095 < 2 ^ 32"
  shows "1024 \<le> unat (seg_pages (final_size sz))" "unat sz \<le> unat (seg_pages (final_size sz)) * 4096"
proof -
  let ?f = "unat (final_size sz)"
  have f: "4194304 \<le> ?f" "unat sz \<le> ?f" "?f + 4095 < 2 ^ 32"
    using assms by (auto simp: final_size_def word_less_nat_alt)
  have "unat (final_size sz + 4096 - 1) = ?f + 4095" using f(3) by (simp add: unat_add_small)
  then have p: "unat (seg_pages (final_size sz)) = (?f + 4095) div 4096"
    by (simp add: seg_pages_def unat_div)
  show "1024 \<le> unat (seg_pages (final_size sz))" unfolding p using f(1) by linarith
  have "?f \<le> (?f + 4095) div 4096 * 4096" by linarith
  then show "unat sz \<le> unat (seg_pages (final_size sz)) * 4096" unfolding p using f(2) by linarith
qed

lemma seg_pages_wrap:
  assumes "2 ^ 32 \<le> unat sz + 4095"
  shows "seg_pages (final_size sz) = 0"
proof -
  have fs: "final_size sz = sz" using assms by (simp add: final_size_def word_less_nat_alt)
  have "unat (sz + 4095) = unat sz + 4095 - 2 ^ 32"
    using assms unat_u32_bound [of sz] by (simp add: unat_word_ariths mod_if)
  then have "unat ((sz + 4095) div 4096) = 0" using unat_u32_bound [of sz] by (simp add: unat_div)
  then show ?thesis by (simp add: seg_pages_def fs word_unat_eq_iff add.commute)
qed

text \<open>A slot taken by \<open>sys_shmget\<close>, and one given back.\<close>

lemma shm_inv_add:
  assumes inv: "shm_inv s" and i: "i < 32" "\<not> in_use (shm_segments s ! i)"
    and g: "in_use g" "seg_run g \<inter> used_frames (vpmm (svm s)) = {}"
    and key: "\<forall>j < 32. in_use (shm_segments s ! j) \<longrightarrow> seg_key (shm_segments s ! j) \<noteq> seg_key g"
    and m: "pmm_inv m" "used_frames m = used_frames (vpmm (svm s)) \<union> seg_run g"
  shows "shm_inv (s\<lparr>svm := (svm s)\<lparr>vpmm := m\<rparr>, shm_segments := (shm_segments s)[i := g]\<rparr>)"
proof -
  note n = shm_inv_nth [OF inv]
  have nth: "(shm_segments s)[i := g] ! j = (if j = i then g else shm_segments s ! j)" if "j < 32" for j
    using n(3) i(1) by (simp add: nth_list_update)
  have dis: "seg_run g \<inter> seg_run (shm_segments s ! j) = {}" if "j < 32" "in_use (shm_segments s ! j)" for j
    using n(1) [OF that] g(2) by blast
  show ?thesis
    unfolding shm_inv_def
  proof (intro conjI allI impI)
    fix j assume "j < 32" "in_use (shm_segments (s\<lparr>svm := (svm s)\<lparr>vpmm := m\<rparr>, shm_segments := (shm_segments s)[i := g]\<rparr>) ! j)"
    then show "seg_run (shm_segments (s\<lparr>svm := (svm s)\<lparr>vpmm := m\<rparr>, shm_segments := (shm_segments s)[i := g]\<rparr>) ! j)
        \<subseteq> used_frames (vpmm (svm (s\<lparr>svm := (svm s)\<lparr>vpmm := m\<rparr>, shm_segments := (shm_segments s)[i := g]\<rparr>)))"
      using n(1) [of j] m(2) by (auto simp: nth split: if_splits)
  next
    fix j k
    assume a: "j < 32" "k < 32" "j \<noteq> k \<and> in_use (shm_segments (s\<lparr>svm := (svm s)\<lparr>vpmm := m\<rparr>, shm_segments := (shm_segments s)[i := g]\<rparr>) ! j)
      \<and> in_use (shm_segments (s\<lparr>svm := (svm s)\<lparr>vpmm := m\<rparr>, shm_segments := (shm_segments s)[i := g]\<rparr>) ! k)"
    then have b: "j \<noteq> k" "in_use ((shm_segments s)[i := g] ! j)" "in_use ((shm_segments s)[i := g] ! k)" by simp_all
    have "seg_run ((shm_segments s)[i := g] ! j) \<inter> seg_run ((shm_segments s)[i := g] ! k) = {}"
      "seg_key ((shm_segments s)[i := g] ! j) \<noteq> seg_key ((shm_segments s)[i := g] ! k)"
      using a(1,2) b dis [of j] dis [of k] key n(2) [of j k]
      by (auto simp: nth Int_commute split: if_splits)
    then show "seg_run (shm_segments (s\<lparr>svm := (svm s)\<lparr>vpmm := m\<rparr>, shm_segments := (shm_segments s)[i := g]\<rparr>) ! j)
        \<inter> seg_run (shm_segments (s\<lparr>svm := (svm s)\<lparr>vpmm := m\<rparr>, shm_segments := (shm_segments s)[i := g]\<rparr>) ! k) = {}"
      "seg_key (shm_segments (s\<lparr>svm := (svm s)\<lparr>vpmm := m\<rparr>, shm_segments := (shm_segments s)[i := g]\<rparr>) ! j)
        \<noteq> seg_key (shm_segments (s\<lparr>svm := (svm s)\<lparr>vpmm := m\<rparr>, shm_segments := (shm_segments s)[i := g]\<rparr>) ! k)"
      by simp_all
  qed (use n(3,5) m in \<open>simp_all add: vm_inv_def\<close>)
qed

lemma sys_shmget_cases:
  assumes inv: "shm_inv s"
  obtains (old) i where "i < 32" "in_use (shm_segments s ! i)" "seg_key (shm_segments s ! i) = key"
      "sys_shmget key sz s = (int i, s)"
  | (fail) "sys_shmget key sz s = (- 1, s)"
      "\<forall>j < 32. in_use (shm_segments s ! j) \<longrightarrow> seg_key (shm_segments s ! j) \<noteq> key"
  | (new) slot m phys g s' where "sys_shmget key sz s = (int slot, s')" "slot < 32"
      "g = (shm_segments s ! slot)\<lparr>seg_key := key, seg_size := final_size sz, phys_addr := phys,
              ref_count := 0, in_use := True\<rparr>"
      "s' = s\<lparr>svm := (svm s)\<lparr>vpmm := m\<rparr>, shm_segments := (shm_segments s)[slot := g]\<rparr>"
      "seg_run g \<inter> used_frames (vpmm (svm s)) = {}" "unat sz + 4095 < 2 ^ 32" "\<not> in_use (shm_segments s ! slot)"
      "used_frames m = used_frames (vpmm (svm s)) \<union> seg_run g" "pmm_max_blocks m = pmm_max_blocks (vpmm (svm s))"
      "unat phys div 4096 + unat (seg_pages (final_size sz)) \<le> unat (pmm_max_blocks m)" "shm_inv s'"
proof (cases "first_idx (\<lambda>g. in_use g \<and> seg_key g = key) (shm_segments s)")
  case (Some i)
  then show ?thesis
    using first_idx_SomeD [OF Some] shm_inv_nth(3) [OF inv] by (intro old [of i]) (simp_all add: sys_shmget_def)
next
  case None
  then have nk: "\<forall>j < 32. in_use (shm_segments s ! j) \<longrightarrow> seg_key (shm_segments s ! j) \<noteq> key"
    using shm_inv_nth(3) [OF inv] by (auto simp: first_idx_None all_set_conv_all_nth)
  let ?c = "seg_pages (final_size sz)" and ?p = "vpmm (svm s)"
  show ?thesis
  proof (cases "first_idx (\<lambda>g. \<not> in_use g) (shm_segments s)")
    case none: None
    then show ?thesis using None nk by (intro fail) (simp_all add: sys_shmget_def)
  next
    case slot: (Some slot)
    note sl = first_idx_SomeD [OF slot]
    have sl32: "slot < 32" using sl(1) shm_inv_nth(3) [OF inv] by simp
    have fl: "sys_shmget key sz s = (- 1, s)" if "pmm_alloc_contiguous_blocks ?c ?p = (0, ?p)"
      using that None slot by (simp add: sys_shmget_def)
    show ?thesis
    proof (cases "?c = 0")
      case True
      then have "pmm_alloc_contiguous_blocks ?c ?p = (0, ?p)" by (simp add: pmm_alloc_contiguous_blocks_def)
      then show ?thesis using fl nk by (intro fail)
    next
      case False
      then have szb: "unat sz + 4095 < 2 ^ 32" using seg_pages_wrap [of sz] by linarith
      have pi: "pmm_inv ?p" by (rule shm_inv_nth(4) [OF inv])
      from pi False show ?thesis
      proof (cases rule: pmm_alloc_contiguous_cases)
        case none
        then show ?thesis using fl nk by (intro fail)
      next
        case (ok st)
        define m where "m = (for_blocks mmap_set st (unat ?c) ?p)\<lparr>pmm_used_blocks := pmm_used_blocks ?p + ?c\<rparr>"
        note mo = pmm_alloc_contiguous_ok [OF pi ok(2,3), folded m_def]
        have "0 < unat ?c" using False by (simp add: unat_gt_0)
        then have "st < 1048576" using pmm_max_bound [OF pi] ok(2) by simp
        then have st: "unat (of_nat st * 4096 :: u32) = st * 4096"
          by (simp add: unat_word_ariths unat_of_nat)
        show ?thesis
        proof -
          have "used_frames ?p \<inter> {st ..< st + unat ?c} = {}" using free_run_disjoint [OF ok(2)] ok(3) by blast
          then have "st \<noteq> 0" using shm_inv_nth(5) [OF inv] \<open>0 < unat ?c\<close> by (metis add_0 atLeastLessThan_iff disjoint_iff le0)
          then have ph: "(of_nat st * 4096 :: u32) \<noteq> 0" using st by auto
          define g where "g = (shm_segments s ! slot)\<lparr>seg_key := key, seg_size := final_size sz,
              phys_addr := of_nat st * 4096, ref_count := 0, in_use := True\<rparr>"
          have stp: "unat (of_nat st * 4096 :: u32) div 4096 = st" using st by simp
          have run: "seg_run g = {st ..< st + unat ?c}" using st by (simp add: seg_run_def g_def)
          show ?thesis
          proof (rule new [of slot _ g "of_nat st * 4096" m])
            show "unat (of_nat st * 4096 :: u32) div 4096 + unat ?c \<le> unat (pmm_max_blocks m)"
              unfolding stp mo(3) by (rule ok(2))
            show "seg_run g \<inter> used_frames ?p = {}"
              using free_run_disjoint [OF ok(2)] ok(3) run by blast
            then show "shm_inv (s\<lparr>svm := (svm s)\<lparr>vpmm := m\<rparr>, shm_segments := (shm_segments s)[slot := g]\<rparr>)"
              using sl sl32 nk mo run by (intro shm_inv_add [OF inv]) (simp_all add: g_def)
          qed (use ok(1,2) None slot ph sl sl32 szb mo st run stp in \<open>simp_all add: sys_shmget_def m_def [symmetric] g_def Let_def\<close>)
        qed
      qed
    qed
  qed
qed

lemma shm_free_spec:
  assumes inv: "shm_inv s" and i: "i < 32" "in_use (shm_segments s ! i)"
    and lim: "unat (phys_addr (shm_segments s ! i)) div 4096
      + unat (seg_pages (seg_size (shm_segments s ! i))) \<le> unat (pmm_max_blocks (vpmm (svm s)))"
    and f0: "0 \<notin> seg_run (shm_segments s ! i)"
  shows "shm_inv (shm_free (int i) s)"
    "used_frames (vpmm (svm (shm_free (int i) s))) = used_frames (vpmm (svm s)) - seg_run (shm_segments s ! i)"
    "\<not> in_use (shm_segments (shm_free (int i) s) ! i)"
    "\<And>j. j \<noteq> i \<Longrightarrow> shm_segments (shm_free (int i) s) ! j = shm_segments s ! j"
proof -
  let ?g = "shm_segments s ! i" and ?p = "vpmm (svm s)"
  let ?g' = "?g\<lparr>in_use := False, seg_key := 0, ref_count := 0\<rparr>"
  note n = shm_inv_nth [OF inv]
  define m where "m = pmm_free_contiguous_blocks (phys_addr ?g) (seg_pages (seg_size ?g)) ?p"
  have eq: "shm_free (int i) s = s\<lparr>svm := (svm s)\<lparr>vpmm := m\<rparr>, shm_segments := (shm_segments s)[i := ?g']\<rparr>"
    using i by (simp add: shm_free_def m_def Let_def)
  have m: "used_frames m = used_frames ?p - seg_run ?g" "pmm_inv m"
    using for_blocks_mark_free [OF n(4) lim]
    by (simp_all add: m_def pmm_free_contiguous_blocks_def seg_run_def unat_div)
  show "used_frames (vpmm (svm (shm_free (int i) s))) = used_frames ?p - seg_run ?g" using m by (simp add: eq)
  show "\<not> in_use (shm_segments (shm_free (int i) s) ! i)"
    "\<And>j. j \<noteq> i \<Longrightarrow> shm_segments (shm_free (int i) s) ! j = shm_segments s ! j"
    using n(3) i(1) by (simp_all add: eq)
  have nth: "(shm_segments s)[i := ?g'] ! j = (if j = i then ?g' else shm_segments s ! j)" if "j < 32" for j
    using n(3) i(1) by (simp add: nth_list_update)
  have keep: "seg_run (shm_segments s ! j) \<subseteq> used_frames m" if "j < 32" "j \<noteq> i" "in_use (shm_segments s ! j)" for j
    using n(1) [OF that(1,3)] n(2) [OF that(1) i(1) that(2,3) i(2)] m(1) by blast
  have "length ((shm_segments s)[i := ?g']) = 32" using n(3) by simp
  moreover have "vm_inv ((svm s)\<lparr>vpmm := m\<rparr>)" using m f0 n(5) by (simp add: vm_inv_def)
  moreover have "seg_run ((shm_segments s)[i := ?g'] ! j) \<subseteq> used_frames m"
    if "j < 32" "in_use ((shm_segments s)[i := ?g'] ! j)" for j
    using that keep by (auto simp: nth split: if_splits)
  moreover have "seg_run ((shm_segments s)[i := ?g'] ! j) \<inter> seg_run ((shm_segments s)[i := ?g'] ! k) = {}
      \<and> seg_key ((shm_segments s)[i := ?g'] ! j) \<noteq> seg_key ((shm_segments s)[i := ?g'] ! k)"
    if "j < 32" "k < 32" "j \<noteq> k" "in_use ((shm_segments s)[i := ?g'] ! j)" "in_use ((shm_segments s)[i := ?g'] ! k)" for j k
    using that n(2) [of j k] by (auto simp: nth split: if_splits)
  ultimately show "shm_inv (shm_free (int i) s)" unfolding eq shm_inv_def by simp
qed

text \<open>
  \<open>sys_shmget\<close>: on a well-formed segment table every call keeps it well formed (segments
  own disjoint runs of reserved frames and have distinct keys); a result that is not -1 is the one
  segment with the key, and asking again for the key, with any size, returns the same id and changes
  nothing. A new segment is large enough for the requested size and its frames were free.
\<close>

theorem sys_shmget_correct:
  assumes "shm_inv s" "sys_shmget key sz s = (r, s')"
  shows "shm_inv s' \<and> (r = - 1 \<and> s' = s
     \<or> 0 \<le> r \<and> r < 32 \<and> in_use (shm_segments s' ! nat r) \<and> seg_key (shm_segments s' ! nat r) = key
       \<and> (\<forall>sz'. sys_shmget key sz' s' = (r, s'))
       \<and> (s' = s \<or> \<not> in_use (shm_segments s ! nat r)
            \<and> seg_run (shm_segments s' ! nat r) \<inter> used_frames (vpmm (svm s)) = {}
            \<and> used_frames (vpmm (svm s')) = used_frames (vpmm (svm s)) \<union> seg_run (shm_segments s' ! nat r)
            \<and> unat sz \<le> card (seg_run (shm_segments s' ! nat r)) * 4096))"
proof -
  have again: "sys_shmget key sz' t = (int i, t)"
    if t: "shm_inv t" "i < 32" "in_use (shm_segments t ! i)" "seg_key (shm_segments t ! i) = key" for i t sz'
    using t(1)
  proof (cases rule: sys_shmget_cases [where key = key and sz = sz'])
    case (old j)
    then have "j = i" using shm_inv_nth(2) [OF t(1), of j i] t by auto
    then show ?thesis using old by simp
  next
    case fail
    then show ?thesis using t by blast
  next
    case (new slot m phys g s')
    have "first_idx (\<lambda>g. in_use g \<and> seg_key g = key) (shm_segments t) \<noteq> None"
      using t shm_inv_nth(3) [OF t(1)] by (auto simp: first_idx_None all_set_conv_all_nth)
    then obtain j where j: "first_idx (\<lambda>g. in_use g \<and> seg_key g = key) (shm_segments t) = Some j" by auto
    note f = first_idx_SomeD [OF j]
    then have "j = i" using shm_inv_nth(2) [OF t(1), of j i] shm_inv_nth(3) [OF t(1)] t by auto
    then show ?thesis using j by (simp add: sys_shmget_def)
  qed
  from assms(1) show ?thesis
  proof (cases rule: sys_shmget_cases [where key = key and sz = sz])
    case (old i)
    then show ?thesis using assms again [of s i] by auto
  next
    case fail
    then show ?thesis using assms by simp
  next
    case (new slot m phys g t)
    have r: "r = int slot" "s' = t" using new(1) assms(2) by simp_all
    have g: "shm_segments t ! slot = g" using new(2,4) shm_inv_nth(3) [OF assms(1)] by simp
    have k: "in_use g" "seg_key g = key" by (simp_all add: new(3))
    have "card (seg_run g) = unat (seg_pages (final_size sz))" by (simp add: seg_run_def new(3))
    then have "unat sz \<le> card (seg_run g) * 4096" using seg_pages_final(2) [OF new(6)] by simp
    then show ?thesis
      using again [OF new(11,2)] new(2,4-8,11) g k r by simp
  qed
qed

subsection \<open>Attaching\<close>

text \<open>No other entry of the directory leads to the table of entry \<open>i\<close>.\<close>

definition own_table :: "vm \<Rightarrow> u32 \<Rightarrow> nat \<Rightarrow> bool" where
  "own_table s pd i \<longleftrightarrow> (\<forall>j. entry_present (frames s pd i) \<and> entry_present (frames s pd j)
     \<and> frame_of (frames s pd i) = frame_of (frames s pd j) \<longrightarrow> i = j)"

lemma ensure_table_avail: "vm_inv s \<Longrightarrow> 0 < avail s \<Longrightarrow> avail s \<le> Suc (avail (ensure_table pd i s))"
  using alloc_frame_ok(7) by (auto simp: ensure_table_def split: prod.splits)

lemma map_in_avail: "vm_inv s \<Longrightarrow> 0 < avail s \<Longrightarrow> avail s \<le> Suc (avail (map_in pd p v f s))"
  using ensure_table_avail by (simp add: map_in_def Let_def)

lemma map_in_own_table:
  assumes ok: "pd_ok pd s" and av: "0 < avail s" and own: "own_table s pd i"
  shows "own_table (map_in pd phys virt flags s) pd i"
proof -
  let ?s1 = "ensure_table pd (pd_index virt) s" and ?s' = "map_in pd phys virt flags s" and ?k = "pd_index virt"
  have av': "entry_present (frames s pd ?k) \<or> 0 < avail s" using av by simp
  note en = ensure_table_spec [OF ok av'] and m = map_in_spec [OF ok av', where phys = phys and flags = flags]
  have "frame_of (frames ?s1 pd ?k) \<noteq> pd" by (rule pd_ok_tableD(2) [OF en(1,2)])
  then have pd: "frames ?s' pd = frames ?s1 pd" by (simp add: map_in_def Let_def)
  show ?thesis
  proof (cases "entry_present (frames s pd ?k)")
    case True
    then have "frames ?s1 pd j = frames s pd j" for j using en(4) by simp
    then show ?thesis using own by (simp add: own_table_def pd)
  next
    case False
    have old: "frames ?s1 pd j = frames s pd j" if "j \<noteq> ?k" for j using en(4) that by simp
    have new: "frame_of (frames ?s1 pd j) \<noteq> frame_of (frames ?s1 pd ?k)" if "j \<noteq> ?k" "entry_present (frames ?s1 pd j)" for j
      using en(5) False pd_ok_tableD(1) [OF ok, of j] old [OF that(1)] that(2) by auto
    show ?thesis
      unfolding own_table_def pd
    proof (intro allI impI)
      fix j assume a: "entry_present (frames ?s1 pd i) \<and> entry_present (frames ?s1 pd j)
        \<and> frame_of (frames ?s1 pd i) = frame_of (frames ?s1 pd j)"
      show "i = j"
      proof (cases "i = ?k \<or> j = ?k")
        case True
        then show ?thesis using new [of i] new [of j] a by metis
      next
        case False
        then show ?thesis using own a old by (simp add: own_table_def)
      qed
    qed
  qed
qed

lemma same_slot_own:
  "own_table s pd (pd_index w) \<Longrightarrow> entry_present (frames s pd (pd_index w)) \<Longrightarrow>
   same_slot s pd v w \<Longrightarrow> pd_index v = pd_index w \<and> pt_index v = pt_index w"
  by (auto simp: same_slot_def own_table_def)

lemma same_page:
  "pd_index v = pd_index w \<Longrightarrow> pt_index v = pt_index w \<Longrightarrow> unat v div 4096 = unat w div 4096"
proof -
  assume a: "pd_index v = pd_index w" "pt_index v = pt_index w"
  have "unat v div 4096 div 1024 = unat w div 4096 div 1024"
    using a(1) by (simp add: pd_index_eq div_mult2_eq [symmetric])
  moreover have "unat v div 4096 mod 1024 = unat w div 4096 mod 1024" using a(2) by (simp add: pt_index_eq)
  ultimately show ?thesis by (metis div_mult_mod_eq)
qed

lemma page_same: "unat v div 4096 = unat w div 4096 \<Longrightarrow> pd_index v = pd_index w \<and> pt_index v = pt_index w"
proof -
  assume a: "unat v div 4096 = unat w div 4096"
  have "unat v div 4194304 = unat v div 4096 div 1024" for v :: u32 by (simp add: div_mult2_eq [symmetric])
  then show ?thesis using a by (simp add: pd_index_eq pt_index_eq)
qed

lemma attach_pages_spec:
  assumes ok: "pd_ok (cr3 m) m" and av: "n \<le> avail m" and own: "\<forall>i \<in> W. own_table m (cr3 m) i"
    and W: "\<forall>k < n. pd_index (virt + of_nat k * 4096) \<in> W" and range: "unat virt + n * 4096 \<le> 2 ^ 32"
    and al: "page_aligned virt"
  shows "let m' = attach_pages phys virt n m in pd_ok (cr3 m') m' \<and> cr3 m' = cr3 m
    \<and> (\<forall>k < n. pte m' (cr3 m) (virt + of_nat k * 4096) = frame_of (phys + of_nat k * 4096) OR 7)"
proof -
  let ?v = "\<lambda>k. virt + of_nat k * 4096 :: u32" and ?pd = "cr3 m"
  have uv: "unat (?v k) = unat virt + k * 4096" if "k < n" for k
  proof -
    have "unat (of_nat k * 4096 :: u32) = k * 4096"
      using that range by (simp add: unat_word_ariths unat_of_nat)
    then show ?thesis using that range by (subst unat_add_small) simp_all
  qed
  have inj: "j = k" if "j < n" "k < n" "unat (?v j) div 4096 = unat (?v k) div 4096" for j k
  proof -
    have "4096 dvd unat virt" using al by (simp add: page_aligned_iff)
    then show ?thesis using that uv by (auto elim!: dvdE)
  qed
  define P where "P = (\<lambda>k t. pd_ok ?pd t \<and> cr3 t = ?pd \<and> avail m \<le> avail t + k \<and> (\<forall>i \<in> W. own_table t ?pd i)
    \<and> (\<forall>j < k. pte t ?pd (?v j) = frame_of (phys + of_nat j * 4096) OR 7))"
  have "P n (attach_pages phys virt n m)"
    unfolding attach_pages_def
  proof (rule fold_upt_inv)
    show "P 0 m" using ok own by (simp add: P_def)
    fix k t assume k: "k < n" and p: "P k t"
    then have t: "pd_ok ?pd t" "cr3 t = ?pd" "0 < avail t" "\<forall>i \<in> W. own_table t ?pd i"
      "\<forall>j < k. pte t ?pd (?v j) = frame_of (phys + of_nat j * 4096) OR 7" "vm_inv t"
      using av by (simp_all add: P_def pd_ok_def)
    have av': "entry_present (frames t ?pd (pd_index (?v k))) \<or> 0 < avail t" using t(3) by simp
    let ?t = "map_in ?pd (phys + of_nat k * 4096) (?v k) 7 t"
    note mi = map_in_spec [OF t(1) av', where phys = "phys + of_nat k * 4096" and flags = 7]
    have own': "\<forall>i \<in> W. own_table ?t ?pd i" using map_in_own_table [OF t(1,3)] t(4) by blast
    have "avail t \<le> Suc (avail ?t)" by (rule map_in_avail [OF t(6,3)])
    moreover have "pte ?t ?pd (?v j) = frame_of (phys + of_nat j * 4096) OR 7" if "j < Suc k" for j
    proof (cases "j = k")
      case True
      then show ?thesis using mi(2,5) by (simp add: same_slot_def)
    next
      case False
      have "\<not> same_slot ?t ?pd (?v j) (?v k)"
        using same_slot_own [of ?t ?pd "?v k" "?v j"] own' W k mi(2) same_page [of "?v j" "?v k"] inj [of j k]
          False that by auto
      then show ?thesis using mi(5) t(5) that False by simp
    qed
    ultimately show "P (Suc k) (vm_map_page (phys + of_nat k * 4096) (?v k) 7 t)"
      using mi(1,3) own' p t(2) by (simp add: P_def vm_map_page_def)
  qed
  then show ?thesis by (simp add: P_def Let_def)
qed

lemma phys_of_flags: "page_aligned p \<Longrightarrow> phys_of (p OR 7) v = p + (v AND 0xFFF)"
  using page_flags_mask [of p 7] page_flags_present [of p 7] by (simp add: phys_of_def)

text \<open>
  Attaching: \<open>sys_shmat\<close> of a segment in use returns the fixed address
  \<open>0x70000000 + id * 8 MB\<close>, and afterwards every byte of the segment translates to the byte at
  the same offset of its frames, provided the directory is in order, the page tables of the range
  are not shared with other entries, and enough frames are left for missing tables.
\<close>

theorem sys_shmat_maps:
  assumes i: "i < 32" "in_use (shm_segments s ! i)"
  defines "g \<equiv> shm_segments s ! i" and "m \<equiv> svm s"
  assumes sz: "unat (seg_size g) + 4095 < 2 ^ 32" "0x70000000 + i * 0x800000 + unat (seg_size g) \<le> 0x80000000"
    and phys: "page_aligned (phys_addr g)" "unat (phys_addr g) + unat (seg_size g) + 4096 \<le> 2 ^ 32"
    and ok: "pd_ok (cr3 m) m" "unat (seg_size g) div 4096 + 1 \<le> avail m"
    and own: "\<forall>k \<in> {448 ..< 512}. own_table m (cr3 m) k"
  shows "\<exists>s'. sys_shmat (int i) s = (SHM_BASE + of_nat i * 0x800000, s')
    \<and> (\<forall>off < unat (seg_size g). vm_get_phys (SHM_BASE + of_nat i * 0x800000 + of_nat off) (svm s')
         = phys_addr g + of_nat off)"
proof -
  let ?virt = "SHM_BASE + of_nat i * 0x800000 :: u32" and ?z = "unat (seg_size g)"
  let ?n = "unat ((seg_size g + 4095) div 4096)"
  let ?m = "attach_pages (phys_addr g) ?virt ?n m"
  have "unat (of_nat i * 0x800000 :: u32) = i * 0x800000"
    using i(1) by (simp add: unat_word_ariths unat_of_nat)
  then have uv: "unat ?virt = 0x70000000 + i * 0x800000" using i(1) by (subst unat_add_small) simp_all
  have n: "?n = (?z + 4095) div 4096" using sz(1) by (simp add: unat_div unat_add_small)
  have al: "page_aligned ?virt" unfolding page_aligned_iff uv by (intro dvd_add dvd_mult) simp_all
  have "i * 0x800000 \<le> 31 * 0x800000" using i(1) by (intro mult_le_mono1) simp
  then have top: "unat ?virt + ?z \<le> 0x80000000" using sz(2) uv by simp
  have le: "?n * 4096 \<le> ?z + 4095" "?z \<le> ?n * 4096" unfolding n by linarith+
  have nn: "?n \<le> avail m" using ok(2) n by linarith
  have range: "unat ?virt + ?n * 4096 \<le> 2 ^ 32" using top le(1) by simp
  have kb: "k * 4096 < ?z" if "k < ?n" for k
  proof -
    have "(k + 1) * 4096 \<le> ?n * 4096" using that by (intro mult_le_mono1) simp
    then show ?thesis using le(1) by simp
  qed
  have W: "\<forall>k < ?n. pd_index (?virt + of_nat k * 4096) \<in> {448 ..< 512}"
  proof (intro allI impI)
    fix k assume k: "k < ?n"
    have "unat (of_nat k * 4096 :: u32) = k * 4096"
      using kb [OF k] sz(1) by (simp add: unat_word_ariths unat_of_nat)
    then have u: "unat (?virt + of_nat k * 4096) = unat ?virt + k * 4096"
      using top kb [OF k] by (subst unat_add_small) simp_all
    have "448 * 4194304 \<le> unat ?virt + k * 4096" "unat ?virt + k * 4096 < 512 * 4194304"
      using uv top kb [OF k] by simp_all
    then show "pd_index (?virt + of_nat k * 4096) \<in> {448 ..< 512}"
      unfolding pd_index_eq u by (simp add: div_less_iff_less_mult less_eq_div_iff_mult_less_eq)
  qed
  note at = attach_pages_spec [OF ok(1) nn own W range al, of "phys_addr g", unfolded Let_def]
  have c: "cr3 ?m = cr3 m" using at by blast
  have eq: "sys_shmat (int i) s = (?virt, s\<lparr>svm := ?m, shm_segments := (shm_segments s)[i :=
      g\<lparr>virt_start := ?virt, ref_count := ref_count g + 1\<rparr>]\<rparr>)"
    using i by (simp add: sys_shmat_def g_def m_def Let_def)
  have "vm_get_phys (?virt + of_nat off) ?m = phys_addr g + of_nat off" if off: "off < ?z" for off
  proof -
    let ?w = "?virt + of_nat off"
    obtain k r where kr: "off = k * 4096 + r" "r < 4096"
      using div_mult_mod_eq [of off 4096, symmetric] by (intro that [of "off div 4096" "off mod 4096"]) simp_all
    have k: "k < ?n"
    proof (rule ccontr)
      assume "\<not> k < ?n"
      then have "?n * 4096 \<le> k * 4096" by simp
      then show False using off kr(1) le(2) by linarith
    qed
    have "unat (of_nat off :: u32) = off" using off sz(1) by (intro unat_of_nat_u32) simp
    then have uw: "unat ?w = unat ?virt + off" using top off by (subst unat_add_small) simp_all
    have u4: "unat (of_nat k * 4096 :: u32) = k * 4096"
      using kb [OF k] sz(1) by (simp add: unat_word_ariths unat_of_nat)
    then have uk: "unat (?virt + of_nat k * 4096) = unat ?virt + k * 4096"
      using top kb [OF k] by (subst unat_add_small) simp_all
    obtain q where q: "unat ?virt = 4096 * q" using al by (auto simp: page_aligned_iff)
    have "unat ?w = 4096 * q + (k * 4096 + r)" using uw q kr(1) by metis
    then have d: "unat ?w = (q + k) * 4096 + r" by (simp add: algebra_simps)
    have "unat ?w div 4096 = q + k" unfolding d using kr(2) by simp
    moreover have "unat (?virt + of_nat k * 4096) div 4096 = q + k" unfolding uk q by simp
    ultimately have "unat ?w div 4096 = unat (?virt + of_nat k * 4096) div 4096" by simp
    note pg = page_same [OF this]
    have "pte ?m (cr3 m) ?w = pte ?m (cr3 m) (?virt + of_nat k * 4096)" unfolding pte_def using pg by presburger
    also have "\<dots> = frame_of (phys_addr g + of_nat k * 4096) OR 7" using at k by blast
    finally have p: "pte ?m (cr3 m) ?w = frame_of (phys_addr g + of_nat k * 4096) OR 7" .
    have "unat (phys_addr g + of_nat k * 4096) = unat (phys_addr g) + k * 4096"
      using phys(2) kb [OF k] u4 by (subst unat_add_small) simp_all
    then have pa: "page_aligned (phys_addr g + of_nat k * 4096)"
      using phys(1) by (simp add: page_aligned_iff)
    have "unat (?w AND 0xFFF) = r" unfolding unat_and_fff d mod_mult_self3 using kr(2) by simp
    then have w: "?w AND 0xFFF = of_nat r" by (metis of_nat_unat ucast_id)
    have "vm_get_phys ?w ?m = phys_of (pte ?m (cr3 m) ?w) ?w" unfolding vm_get_phys_pte c ..
    also have "\<dots> = phys_addr g + of_nat k * 4096 + of_nat r"
      unfolding p page_aligned_mask_id [OF pa] phys_of_flags [OF pa] w ..
    also have "\<dots> = phys_addr g + of_nat off"
      unfolding kr(1) by (simp only: of_nat_add of_nat_mult of_nat_numeral add.assoc)
    finally show ?thesis .
  qed
  then show ?thesis using eq by simp
qed

subsection \<open>Demand paging\<close>

lemma alloc_frame_pd_ok:
  assumes ok: "pd_ok pd s" and av: "0 < avail s" and a: "alloc_frame s = (p, t)"
  shows "pd_ok pd t" "cr3 t = cr3 s" "avail s = Suc (avail t)" "frames t = frames s" "page_aligned p" "p \<noteq> 0"
proof -
  have inv: "vm_inv s" using ok by (simp add: pd_ok_def)
  note al = alloc_frame_ok [OF inv av a] and fr = alloc_frame_simps [OF a]
  show "pd_ok pd t" using ok al(5,6) fr by (auto simp: pd_ok_def)
  show "cr3 t = cr3 s" "frames t = frames s" using fr by simp_all
  show "avail s = Suc (avail t)" "page_aligned p" "p \<noteq> 0" by (rule al)+
qed

lemma frame_of_index: "pd_index (frame_of a) = pd_index a" "pt_index (frame_of a) = pt_index a"
  using page_same [of "frame_of a" a] unat_page_mask [of a] by simp_all

lemma map_page_present:
  assumes ok: "pd_ok (cr3 m) m" and av: "entry_present (frames m (cr3 m) (pd_index addr)) \<or> 0 < avail m"
    and fl: "entry_present flags"
  shows "entry_present (pte (vm_map_page phys (frame_of addr) flags m) (cr3 m) addr)"
    "cr3 (vm_map_page phys (frame_of addr) flags m) = cr3 m"
    "pte (vm_map_page phys (frame_of addr) flags m) (cr3 m) addr = frame_of phys OR flags"
proof -
  have av': "entry_present (frames m (cr3 m) (pd_index (frame_of addr))) \<or> 0 < avail m"
    using av by (simp add: frame_of_index)
  note mi = map_in_spec [OF ok av', where phys = phys and flags = flags]
  have "same_slot (map_in (cr3 m) phys (frame_of addr) flags m) (cr3 m) addr (frame_of addr)"
    using mi(2) by (simp add: same_slot_def frame_of_index)
  then show p: "pte (vm_map_page phys (frame_of addr) flags m) (cr3 m) addr = frame_of phys OR flags"
    using mi(5) by (simp add: vm_map_page_def)
  show "entry_present (pte (vm_map_page phys (frame_of addr) flags m) (cr3 m) addr)"
    using fl page_flags_present [of "frame_of phys" flags] by (simp add: p)
  show "cr3 (vm_map_page phys (frame_of addr) flags m) = cr3 m" using mi(3) by (simp add: vm_map_page_def)
qed

text \<open>
  C5. Demand paging resolves what it claims to resolve: when \<open>handle_demand_paging\<close> reports the
  fault as handled, the current directory is in order and two frames are left, the faulting address
  is mapped afterwards.
\<close>

theorem demand_paging_maps:
  assumes ok: "pd_ok (cr3 (svm s)) (svm s)" and av: "2 \<le> avail (svm s)"
    and res: "handle_demand_paging hp addr s = (True, s')"
  shows "entry_present (pte (svm s') (cr3 (svm s')) addr)"
proof -
  obtain p t where a: "alloc_frame (svm s) = (p, t)" by fastforce
  have av0: "0 < avail (svm s)" using av by simp
  note al = alloc_frame_pd_ok [OF ok av0 a]
  have okt: "pd_ok (cr3 t) t" using al(1,2) by simp
  have avt: "entry_present (frames t (cr3 t) (pd_index addr)) \<or> 0 < avail t"
    "entry_present (frames (svm s) (cr3 (svm s)) (pd_index addr)) \<or> 0 < avail (svm s)"
    using al(3) av by simp_all
  have f: "entry_present 3" "entry_present 7" by simp_all
  have "svm s' = vm_map_page p (frame_of addr) 3 t \<or> svm s' = vm_map_page p (frame_of addr) 7 t
    \<or> (\<exists>q. svm s' = vm_map_page q (frame_of addr) 7 (svm s))"
    using res a by (auto simp: handle_demand_paging_def map_new_frame_def Let_def split: if_splits option.splits)
  then show ?thesis
    using map_page_present [OF okt avt(1) f(1)] map_page_present [OF okt avt(1) f(2)]
      map_page_present [OF ok avt(2) f(2)] by (elim disjE exE) simp_all
qed

text \<open>
  Out of memory in demand paging: with no frame left, a fault in the user heap range whose page
  table exists is still reported as handled, and the page is mapped, writable by the user, to
  physical frame 0.
\<close>

theorem demand_paging_oom_maps_frame_zero:
  assumes ok: "pd_ok (cr3 (svm s)) (svm s)" and oom: "pmm_alloc_block (vpmm (svm s)) = (0, m)" "pmm_inv m" "0 \<in> used_frames m"
      "used_frames (vpmm (svm s)) \<subseteq> used_frames m"
    and tab: "entry_present (frames (svm s) (cr3 (svm s)) (pd_index addr))"
    and addr: "0x00400000 \<le> addr" "addr < 0x70000000"
    and np: "paging_get_pte addr (svm s) = None"
  shows "\<exists>s'. handle_demand_paging True addr s = (True, s')
    \<and> pte (svm s') (cr3 (svm s')) addr = 7 \<and> vm_get_phys addr (svm s') = addr AND 0xFFF"
proof -
  let ?t = "(svm s)\<lparr>vpmm := m\<rparr>"
  have a: "alloc_frame (svm s) = (0, ?t)" using oom(1) by (simp add: alloc_frame_def)
  have ad: "0x00400000 \<le> unat addr" "unat addr < 0x70000000"
    using addr by (simp_all add: word_le_nat_alt word_less_nat_alt)
  then have r: "\<not> addr \<ge> 0xE0000000" "\<not> addr \<ge> SHM_BASE"
    by (simp_all add: word_le_nat_alt word_less_nat_alt)
  have eq: "handle_demand_paging True addr s = (True, s\<lparr>svm := vm_map_page 0 (frame_of addr) 7 ?t\<rparr>)"
    using np r addr a by (simp add: handle_demand_paging_def map_new_frame_def Let_def)
  have okt: "pd_ok (cr3 ?t) ?t"
    using ok oom(2-4) by (auto simp: pd_ok_def vm_inv_def frame_used_def)
  have "entry_present (frames ?t (cr3 ?t) (pd_index addr)) \<or> 0 < avail ?t" using tab by simp
  note mp = map_page_present [OF okt this, of 7 0]
  have e7: "entry_present 7" by simp
  have "pte (vm_map_page 0 (frame_of addr) 7 ?t) (cr3 ?t) addr = 7" using mp(3) [OF e7] by simp
  then show ?thesis
    using eq mp(2) [OF e7] by (intro exI [of _ "s\<lparr>svm := vm_map_page 0 (frame_of addr) 7 ?t\<rparr>"])
      (simp add: vm_get_phys_pte phys_of_def)
qed

text \<open>
  Demand paging of a segment that nobody attached: \<open>virt_start\<close> is only set by
  \<open>sys_shmat\<close>, so for a segment whose \<open>virt_start\<close> is still 0 the faulting page is mapped
  \<open>0x70000000\<close> bytes and more past the frames of the segment.
\<close>

theorem demand_paging_unattached_segment:
  assumes ok: "pd_ok (cr3 (svm s)) (svm s)" and av: "0 < avail (svm s)"
    and seg: "shm_get_segment addr s = Some g" "virt_start g = 0" and np: "paging_get_pte addr (svm s) = None"
  shows "\<exists>s'. handle_demand_paging True addr s = (True, s')
    \<and> vm_get_phys addr (svm s') = frame_of (phys_addr g + frame_of addr) + (addr AND 0xFFF)"
proof -
  have r: "addr \<ge> SHM_BASE" "addr < 0x80000000" using seg(1) by (auto simp: shm_get_segment_def split: if_splits)
  then have h: "\<not> addr \<ge> 0xE0000000" by (simp add: word_le_nat_alt word_less_nat_alt)
  let ?m = "vm_map_page (phys_addr g + frame_of addr) (frame_of addr) 7 (svm s)"
  have eq: "handle_demand_paging True addr s = (True, s\<lparr>svm := ?m\<rparr>)"
    using np r h seg by (simp add: handle_demand_paging_def Let_def)
  have "entry_present (frames (svm s) (cr3 (svm s)) (pd_index addr)) \<or> 0 < avail (svm s)" using av by simp
  note mp = map_page_present [OF ok this, of 7 "phys_addr g + frame_of addr"]
  have e7: "entry_present 7" by simp
  show ?thesis
    using eq mp(2,3) [OF e7] by (intro exI [of _ "s\<lparr>svm := ?m\<rparr>"])
      (simp add: vm_get_phys_pte phys_of_flags)
qed

subsection \<open>Concrete states for the witnesses\<close>

definition demo_shm :: shm_state where
  "demo_shm = \<lparr>shm_segments = \<lparr>seg_key = 7, seg_size = 8192, phys_addr = 0x1000, virt_start = 0,
        ref_count = 0, in_use = True\<rparr> # replicate 31 \<lparr>seg_key = 0, seg_size = 0, phys_addr = 0,
        virt_start = 0, ref_count = 0, in_use = False\<rparr>,
     svm = demo_vm\<rparr>"

lemma demo_shm_nth: "i < 32 \<Longrightarrow> in_use (shm_segments demo_shm ! i) \<longleftrightarrow> i = 0"
  by (cases i) (simp_all add: demo_shm_def)

lemma demo_shm_inv: "shm_inv demo_shm"
proof -
  have "seg_run (shm_segments demo_shm ! 0) = {1, 2}"
    by (auto simp: demo_shm_def seg_run_def seg_pages_def unat_div)
  then show ?thesis
    using demo_shm_nth demo_vm_inv demo_vm_pmm
    by (simp add: shm_inv_def) (auto simp: demo_shm_def)
qed

theorem sys_shmget_correct_witness:
  "sys_shmget 7 100 demo_shm = (0, demo_shm) \<and> in_use (shm_segments demo_shm ! 0)"
proof -
  obtain r s' where r: "sys_shmget 7 100 demo_shm = (r, s')" by fastforce
  moreover have "sys_shmget 7 100 demo_shm = (0, demo_shm)"
    by (simp add: sys_shmget_def demo_shm_def)
  ultimately show ?thesis using sys_shmget_correct [OF demo_shm_inv r] by auto
qed

lemma demo_vm_own: "i \<noteq> 300 \<Longrightarrow> own_table demo_vm 0x2000 i"
  by (simp add: own_table_def demo_vm_entry)

theorem sys_shmat_maps_witness:
  "\<exists>s'. sys_shmat 0 demo_shm = (0x70000000, s') \<and> vm_get_phys 0x70001234 (svm s') = 0x2234"
proof -
  let ?g = "shm_segments demo_shm ! 0"
  have g: "?g = \<lparr>seg_key = 7, seg_size = 8192, phys_addr = 0x1000, virt_start = 0, ref_count = 0, in_use = True\<rparr>"
    "svm demo_shm = demo_vm" by (simp_all add: demo_shm_def)
  have "\<exists>s'. sys_shmat (int 0) demo_shm = (SHM_BASE + of_nat 0 * 0x800000, s')
    \<and> (\<forall>off < unat (seg_size ?g). vm_get_phys (SHM_BASE + of_nat 0 * 0x800000 + of_nat off) (svm s')
         = phys_addr ?g + of_nat off)"
    by (rule sys_shmat_maps)
      (use demo_vm_pd_ok demo_vm_own in \<open>simp_all add: g demo_vm_entry demo_vm_inv page_aligned_def\<close>)
  then obtain s' where s': "sys_shmat 0 demo_shm = (SHM_BASE, s')"
    "\<forall>off < 8192. vm_get_phys (SHM_BASE + of_nat off) (svm s') = 0x1000 + of_nat off"
    by (auto simp: g)
  have "(0x1234 :: nat) < 8192" by simp
  with s'(2) have "vm_get_phys (SHM_BASE + of_nat 0x1234) (svm s') = 0x1000 + of_nat 0x1234" by blast
  then show ?thesis using s'(1) by simp
qed

theorem demand_paging_maps_witness:
  "\<exists>s'. handle_demand_paging True 0x40000123 demo_shm = (True, s')
     \<and> entry_present (pte (svm s') (cr3 (svm s')) 0x40000123)"
proof -
  have "pd_index 0x40000123 = 256" by code_simp
  then have "paging_get_pte 0x40000123 demo_vm = None"
    by (simp add: paging_get_pte_def demo_vm_def Let_def VIRT_TO_PHYS_def)
  then obtain s' where r: "handle_demand_paging True 0x40000123 demo_shm = (True, s')"
    by (auto simp: handle_demand_paging_def demo_shm_def Let_def)
  have ok: "pd_ok (cr3 (svm demo_shm)) (svm demo_shm)" "2 \<le> avail (svm demo_shm)"
    using demo_vm_pd_ok demo_vm_inv by (simp_all add: demo_shm_def demo_vm_entry)
  show ?thesis using demand_paging_maps [OF ok r] r by blast
qed

text \<open>The same machine with all of its frames in use.\<close>

definition full_pmm :: pmm where
  "full_pmm = pmm_mark_region_used 0 0x40000 (pmm_init 262144 (\<lambda>_. 0))"

lemma full_pmm_facts: "pmm_inv full_pmm" "used_frames full_pmm = {..<64}" "unat (pmm_max_blocks full_pmm) = 64"
proof -
  have i: "pmm_inv (pmm_init 262144 (\<lambda>_. 0))" "used_frames (pmm_init 262144 (\<lambda>_. 0)) = {}"
    by (rule pmm_init_spec, simp add: unat_div)+
  have r: "region_ok 0 0x40000 (pmm_init 262144 (\<lambda>_. 0))" "region_frames 0 0x40000 = {..<64}"
    by (auto simp: region_ok_def region_frames_def blocks_of_def pmm_init_def Let_def unat_div)
  show "pmm_inv full_pmm" "used_frames full_pmm = {..<64}"
    using mark_region_used_spec [OF i(1) r(1)] i(2) r(2) by (simp_all add: full_pmm_def)
  show "unat (pmm_max_blocks full_pmm) = 64"
    by (simp add: full_pmm_def pmm_mark_region_used_def pmm_init_def Let_def)
qed

theorem demand_paging_oom_maps_frame_zero_witness:
  "\<exists>s'. handle_demand_paging True 0x4B000123 (demo_shm\<lparr>svm := demo_vm\<lparr>vpmm := full_pmm, kernel_directory := 0\<rparr>\<rparr>) = (True, s')
     \<and> vm_get_phys 0x4B000123 (svm s') = 0x123"
proof -
  let ?m = "demo_vm\<lparr>vpmm := full_pmm, kernel_directory := 0\<rparr>"
  have oom: "pmm_alloc_block full_pmm = (0, full_pmm)"
    using full_pmm_facts(1)
  proof (cases rule: pmm_alloc_block_cases)
    case (ok f)
    then show ?thesis using full_pmm_facts(2,3) by simp
  qed
  have i: "pd_index 0x4B000123 = 300" by code_simp
  have ok: "pd_ok (cr3 ?m) ?m"
    using demo_vm_entry full_pmm_facts by (auto simp: pd_ok_def vm_inv_def frame_used_def page_aligned_def)
  have np: "paging_get_pte 0x4B000123 ?m = None" by (simp add: paging_get_pte_def demo_vm_def Let_def)
  show ?thesis
    using demand_paging_oom_maps_frame_zero [of "demo_shm\<lparr>svm := ?m\<rparr>" full_pmm "0x4B000123"] ok oom np full_pmm_facts
    by (simp add: i demo_vm_entry) blast
qed

theorem demand_paging_unattached_segment_witness:
  "\<exists>s'. handle_demand_paging True 0x70001234 demo_shm = (True, s') \<and> vm_get_phys 0x70001234 (svm s') = 0x70002234"
proof -
  have "pd_index 0x70001234 = 448" by code_simp
  then have np: "paging_get_pte 0x70001234 (svm demo_shm) = None"
    by (simp add: paging_get_pte_def demo_shm_def demo_vm_def Let_def VIRT_TO_PHYS_def)
  have ok: "pd_ok (cr3 (svm demo_shm)) (svm demo_shm)" "0 < avail (svm demo_shm)"
    using demo_vm_pd_ok demo_vm_inv by (simp_all add: demo_shm_def demo_vm_entry)
  have g: "shm_get_segment 0x70001234 demo_shm = Some (shm_segments demo_shm ! 0)"
    "virt_start (shm_segments demo_shm ! 0) = 0" "phys_addr (shm_segments demo_shm ! 0) = 0x1000"
    by (simp_all add: shm_get_segment_def demo_shm_def Let_def)
  from demand_paging_unattached_segment [OF ok g(1,2) np] show ?thesis by (simp add: g(3))
qed

end
