(* ===== verification/Fifo_Interface.thy ===== *)
theory Fifo_Interface
  imports Prelude
begin

text \<open>
  Bounded byte queues: what the loops of the readers and writers need from a ring buffer, as a
  locale, the loops themselves, and the common facts about ring buffers. Interpreted on the
  pipe (theory Pipe), on the terminal input and on the pseudo terminal (theory Tty), and on the
  sockets (theory Socket).
\<close>

subsection \<open>The loops\<close>

text \<open>Store until the input ends or the buffer is full; take until enough or empty.\<close>

fun push_all :: "('a \<Rightarrow> 's \<Rightarrow> 's option) \<Rightarrow> 'a list \<Rightarrow> 's \<Rightarrow> nat \<times> 's" where
  "push_all put [] s = (0, s)"
| "push_all put (x # xs) s = (case put x s of
       None \<Rightarrow> (0, s)
     | Some s1 \<Rightarrow> (let (n, s2) = push_all put xs s1 in (Suc n, s2)))"

fun pop_all :: "('s \<Rightarrow> ('a \<times> 's) option) \<Rightarrow> nat \<Rightarrow> 's \<Rightarrow> 'a list \<times> 's" where
  "pop_all get 0 s = ([], s)"
| "pop_all get (Suc n) s = (case get s of
       None \<Rightarrow> ([], s)
     | Some (x, s1) \<Rightarrow> (let (xs, s2) = pop_all get n s1 in (x # xs, s2)))"

lemma push_all_keeps:
  assumes "\<And>x s s'. put x s = Some s' \<Longrightarrow> f s' = f s" "push_all put xs s = (n, s')"
  shows "f s' = f s"
  using assms(2)
proof (induction xs arbitrary: s n)
  case (Cons x xs)
  show ?case
  proof (cases "put x s")
    case (Some s1)
    then obtain m where "push_all put xs s1 = (m, s')" using Cons.prems by (cases "push_all put xs s1") auto
    then show ?thesis using Cons.IH assms(1) [OF Some] by metis
  qed (use Cons.prems in simp)
qed simp

subsection \<open>The contract\<close>

locale fifo =
  fixes inv :: "'s \<Rightarrow> bool" and items :: "'s \<Rightarrow> 'a list" and room :: nat
    and put :: "'a \<Rightarrow> 's \<Rightarrow> 's option" and get :: "'s \<Rightarrow> ('a \<times> 's) option"
  assumes put_full: "inv s \<Longrightarrow> length (items s) \<ge> room \<Longrightarrow> put x s = None"
    and put_room: "inv s \<Longrightarrow> length (items s) < room \<Longrightarrow> \<exists>s'. put x s = Some s' \<and> inv s' \<and> items s' = items s @ [x]"
    and get_empty: "inv s \<Longrightarrow> items s = [] \<Longrightarrow> get s = None"
    and get_first: "inv s \<Longrightarrow> items s = x # xs \<Longrightarrow> \<exists>s'. get s = Some (x, s') \<and> inv s' \<and> items s' = xs"
begin

lemma push_all_spec:
  assumes "inv s" "push_all put xs s = (n, s')"
  shows "inv s'" "n = min (length xs) (room - length (items s))" "items s' = items s @ take n xs"
proof -
  have "inv s' \<and> n = min (length xs) (room - length (items s)) \<and> items s' = items s @ take n xs"
    using assms
  proof (induction xs arbitrary: s n)
    case Nil
    then show ?case by simp
  next
    case (Cons x xs)
    show ?case
    proof (cases "length (items s) < room")
      case False
      then have "put x s = None" using Cons.prems(1) by (intro put_full) simp_all
      then show ?thesis using Cons.prems False by simp
    next
      case True
      obtain s1 where s1: "put x s = Some s1" "inv s1" "items s1 = items s @ [x]"
        using put_room [OF Cons.prems(1) True] by blast
      obtain m where m: "push_all put xs s1 = (m, s')" "n = Suc m"
        using Cons.prems(2) s1(1) by (cases "push_all put xs s1") auto
      show ?thesis using Cons.IH [OF s1(2) m(1)] s1(3) m(2) True by auto
    qed
  qed
  then show "inv s'" "n = min (length xs) (room - length (items s))" "items s' = items s @ take n xs" by auto
qed

lemma pop_all_spec:
  assumes "inv s" "pop_all get n s = (xs, s')"
  shows "inv s'" "xs = take n (items s)" "items s' = drop n (items s)"
proof -
  have "inv s' \<and> xs = take n (items s) \<and> items s' = drop n (items s)"
    using assms
  proof (induction n arbitrary: s xs)
    case 0
    then show ?case by simp
  next
    case (Suc n)
    show ?case
    proof (cases "items s")
      case Nil
      then have "get s = None" using Suc.prems(1) by (intro get_empty)
      then show ?thesis using Suc.prems Nil by simp
    next
      case (Cons y ys)
      obtain s1 where s1: "get s = Some (y, s1)" "inv s1" "items s1 = ys"
        using get_first [OF Suc.prems(1) Cons] by blast
      obtain zs where zs: "pop_all get n s1 = (zs, s')" "xs = y # zs"
        using Suc.prems(2) s1(1) by (cases "pop_all get n s1") auto
      show ?thesis using Suc.IH [OF s1(2) zs(1)] s1(3) zs(2) Cons by simp
    qed
  qed
  then show "inv s'" "xs = take n (items s)" "items s' = drop n (items s)" by auto
qed

text \<open>What goes in comes out, in order.\<close>

lemma push_pop:
  assumes "inv s" "push_all put xs s = (n, s1)" "pop_all get (length (items s) + n) s1 = (ys, s2)"
  shows "ys = items s @ take n xs" "items s2 = []"
  using push_all_spec [OF assms(1,2)] pop_all_spec [OF _ assms(3)] by auto

lemma put_None_iff: "inv s \<Longrightarrow> put x s = None \<longleftrightarrow> room \<le> length (items s)"
  using put_full put_room by (metis not_le option.distinct(1))

lemma get_None_iff: "inv s \<Longrightarrow> get s = None \<longleftrightarrow> items s = []"
  using get_empty get_first by (metis neq_Nil_conv option.distinct(1))

end

subsection \<open>Ring buffers\<close>

text \<open>The \<open>n\<close> cells of a buffer from \<open>h\<close> on, around the end.\<close>

definition ring_items :: "'a list \<Rightarrow> nat \<Rightarrow> nat \<Rightarrow> 'a list" where
  "ring_items buf h n = map (\<lambda>i. buf ! ((h + i) mod length buf)) [0 ..< n]"

lemma ring_items_simps [simp]: "length (ring_items buf h n) = n" "ring_items buf h 0 = []"
  by (simp_all add: ring_items_def)

lemma ring_items_Suc:
  assumes "h < length buf"
  shows "ring_items buf h (Suc n) = buf ! h # ring_items buf (Suc h mod length buf) n"
proof -
  have "(h + Suc i) mod length buf = (Suc h mod length buf + i) mod length buf" for i
    by (metis add_Suc add_Suc_right mod_add_left_eq)
  then show ?thesis using assms by (simp add: ring_items_def upt_conv_Cons map_Suc_upt [symmetric] del: upt_Suc)
qed

lemma mod_add_inj:
  assumes "i < m" "j < m" "(h + i) mod m = (h + j) mod (m :: nat)"
  shows "i = j"
proof -
  have "((h + i) mod m + (m - h mod m)) mod m = ((h + j) mod m + (m - h mod m)) mod m" using assms(3) by simp
  moreover have "((h + k) mod m + (m - h mod m)) mod m = k" if "k < m" for k
  proof -
    have "((h + k) mod m + (m - h mod m)) mod m = (h mod m + k + (m - h mod m)) mod m"
      by (metis mod_add_left_eq)
    also have "h mod m + k + (m - h mod m) = k + m" using that by (simp add: less_imp_le)
    finally show ?thesis using that by simp
  qed
  ultimately show ?thesis using assms(1,2) by simp
qed

lemma ring_items_put:
  assumes "n < length buf"
  shows "ring_items (buf[(h + n) mod length buf := x]) h (Suc n) = ring_items buf h n @ [x]"
proof -
  have pos: "0 < length buf" by (rule le_less_trans [OF le0 assms])
  have "buf[(h + n) mod length buf := x] ! ((h + i) mod length buf) = buf ! ((h + i) mod length buf)" if "i < n" for i
    using mod_add_inj [of i "length buf" n h] that assms by (intro nth_list_update_neq) auto
  moreover have "buf[(h + n) mod length buf := x] ! ((h + n) mod length buf) = x"
    using pos by (simp add: nth_list_update_eq)
  ultimately show ?thesis by (simp add: ring_items_def)
qed

end
