(* ===== verification/Proc_Ring.thy ===== *)
theory Proc_Ring
  imports Vm "HOL-Library.Monad_Syntax"
begin

text \<open>
  Processes of \<open>process.h\<close> and the circular list that links them (\<open>next\<close>). A \<open>process_t\<close>
  lives at an address; \<open>procs\<close> maps the addresses of allocated \<open>process_t\<close> blocks to their
  contents, so that aliasing (\<open>parent\<close>, \<open>next\<close>, wait queue entries) is explicit. Reading an
  address that holds no process (a null or dangling pointer) yields \<open>None\<close>, as does a
  \<open>do ... while\<close> loop over a list that never returns to its start.
\<close>

subsection \<open>Data\<close>

datatype process_state = PROCESS_RUNNING | PROCESS_READY | PROCESS_ZOMBIE | PROCESS_WAITING | PROCESS_SLEEPING

text \<open>\<open>registers_t\<close> of \<open>isr.h\<close>, in memory order.\<close>

record registers =
  r_ds :: u32
  r_edi :: u32
  r_esi :: u32
  r_ebp :: u32
  r_esp :: u32
  r_ebx :: u32
  r_edx :: u32
  r_ecx :: u32
  r_eax :: u32
  r_int_no :: u32
  r_err_code :: u32
  r_eip :: u32
  r_cs :: u32
  r_eflags :: u32
  r_useresp :: u32
  r_ss :: u32

text \<open>\<open>struct sigaction\<close> and \<open>sigset_t\<close> of \<open>signal.h\<close>.\<close>

type_synonym sigset = u64

record sigaction =
  sa_handler :: u32
  sa_mask :: sigset
  sa_flags :: u32
  sa_restorer :: u32

record file_description =
  fd_node :: u32
  fd_offset :: u64
  fd_flags :: u32
  ref_count :: u32

text \<open>The fields of \<open>vfs_node_t\<close> (\<open>vfs.h\<close>) that the system calls read or write.\<close>

record vnode =
  vn_name :: string
  vn_type :: nat
  vn_inode :: u64
  vn_size :: u64
  vn_mask :: u32
  vn_uid :: u32
  vn_gid :: u32
  vn_flags :: u32

text \<open>\<open>unveils\<close> is the list of \<open>unveil_node\<close>s, newest first.\<close>

record process =
  pid :: u32
  pgid :: u32
  sid :: u32
  pstate :: process_state
  exit_code :: u32
  parent :: u32
  saved_esp :: u32
  kernel_stack_top :: u32
  page_directory :: u32
  entry_point :: u32
  user_stack_top :: u32
  heap_end :: u32
  fd_table :: "u32 list"
  uid :: u32
  euid :: u32
  suid :: u32
  gid :: u32
  egid :: u32
  sgid :: u32
  priority :: int
  time_slice :: int
  time_remaining :: int
  sleep_until :: u32
  alarm_time :: u32
  signal_actions :: "sigaction list"
  pending_signals :: sigset
  signal_mask :: sigset
  saved_context :: registers
  in_signal_handler :: bool
  utime :: u32
  stime :: u32
  cutime :: u32
  cstime :: u32
  start_time :: u32
  cwd :: string
  pledges :: u32
  unveils :: "(string \<times> u32) list"
  pnext :: u32

type_synonym procs = "u32 \<Rightarrow> process option"

text \<open>Calls through \<open>node->open\<close> and \<open>node->close\<close>, recorded in order.\<close>

datatype node_call = Node_open u32 | Node_close u32

text \<open>
  The globals of \<open>process.cpp\<close> and \<open>timer.cpp\<close>, the file descriptions, the words of the
  kernel stacks, the page tables (\<open>Vm\<close>), the stack pointer of the CPU and the kernel stack
  recorded in the TSS.
\<close>

record kst =
  current_process :: u32
  ready_queue :: u32
  next_pid :: u32
  procs :: procs
  descs :: "u32 \<Rightarrow> file_description option"
  vnodes :: "u32 \<Rightarrow> vnode"
  node_calls :: "node_call list"
  kstack :: "u32 \<Rightarrow> u32"
  tick :: u32
  vmem :: vm
  cpu_esp :: u32
  tss_esp0 :: u32

abbreviation MAX_PROCESS_FILES :: nat where "MAX_PROCESS_FILES \<equiv> 16"
abbreviation DEFAULT_TIME_SLICE :: int where "DEFAULT_TIME_SLICE \<equiv> 10"
abbreviation DEFAULT_PRIORITY :: int where "DEFAULT_PRIORITY \<equiv> 120"
abbreviation NSIG :: nat where "NSIG \<equiv> 64"

definition set_proc :: "u32 \<Rightarrow> process \<Rightarrow> kst \<Rightarrow> kst" where
  "set_proc p q s = s\<lparr>procs := (procs s)(p \<mapsto> q)\<rparr>"

definition upd_proc :: "u32 \<Rightarrow> (process \<Rightarrow> process) \<Rightarrow> kst \<Rightarrow> kst option" where
  "upd_proc p f s = do { q \<leftarrow> procs s p; Some (set_proc p (f q) s) }"

lemma set_proc_simps [simp]:
  "procs (set_proc p q s) = (procs s)(p \<mapsto> q)" "current_process (set_proc p q s) = current_process s"
  "ready_queue (set_proc p q s) = ready_queue s" "next_pid (set_proc p q s) = next_pid s"
  "descs (set_proc p q s) = descs s" "node_calls (set_proc p q s) = node_calls s" "vnodes (set_proc p q s) = vnodes s"
  "kstack (set_proc p q s) = kstack s" "tick (set_proc p q s) = tick s" "vmem (set_proc p q s) = vmem s"
  "cpu_esp (set_proc p q s) = cpu_esp s" "tss_esp0 (set_proc p q s) = tss_esp0 s"
  by (simp_all add: set_proc_def)

subsection \<open>Loops over the ring\<close>

text \<open>
  \<open>do { if (P(p)) found; p = p->next; } while (p != stop)\<close>; with \<open>nul\<close> the loop
  condition is \<open>p && p != stop\<close>.
\<close>

partial_function (option) ring_find ::
  "bool \<Rightarrow> (u32 \<Rightarrow> process \<Rightarrow> bool) \<Rightarrow> procs \<Rightarrow> u32 \<Rightarrow> u32 \<Rightarrow> u32 option option" where
  "ring_find nul P h p stop = do {
     q \<leftarrow> h p;
     if P p q then Some (Some p)
     else if pnext q = stop \<or> (nul \<and> pnext q = 0) then Some None
     else ring_find nul P h (pnext q) stop }"

text \<open>\<open>while (p != stop) { if (P(p)) found; p = p->next; }\<close>.\<close>

partial_function (option) while_find ::
  "(u32 \<Rightarrow> process \<Rightarrow> bool) \<Rightarrow> procs \<Rightarrow> u32 \<Rightarrow> u32 \<Rightarrow> u32 option option" where
  "while_find P h p stop =
     (if p = stop then Some None
      else do {
        q \<leftarrow> h p;
        if P p q then Some (Some p) else while_find P h (pnext q) stop })"

text \<open>
  \<open>do { if (P(p)) update p; p = p->next; } while (p && p != stop)\<close>; the flag says
  whether some process was updated.
\<close>

partial_function (option) ring_update ::
  "(u32 \<Rightarrow> process \<Rightarrow> bool) \<Rightarrow> (process \<Rightarrow> process) \<Rightarrow> u32 \<Rightarrow> u32 \<Rightarrow> bool \<Rightarrow> kst \<Rightarrow> (bool \<times> kst) option" where
  "ring_update P f p stop found s = do {
     q \<leftarrow> procs s p;
     let hit = P p q;
     let s1 = (if hit then set_proc p (f q) s else s);
     q1 \<leftarrow> procs s1 p;
     if pnext q1 = 0 \<or> pnext q1 = stop then Some (found \<or> hit, s1)
     else ring_update P f (pnext q1) stop (found \<or> hit) s1 }"

text \<open>\<open>while (curr->next != target) curr = curr->next;\<close>.\<close>

partial_function (option) ring_pred :: "procs \<Rightarrow> u32 \<Rightarrow> u32 \<Rightarrow> u32 option" where
  "ring_pred h cur target = do {
     q \<leftarrow> h cur;
     if pnext q = target then Some cur else ring_pred h (pnext q) target }"

declare ring_find.simps [code] while_find.simps [code] ring_update.simps [code] ring_pred.simps [code]

subsection \<open>List segments and rings\<close>

fun lseg :: "procs \<Rightarrow> u32 \<Rightarrow> u32 list \<Rightarrow> u32 \<Rightarrow> bool" where
  "lseg h p [] e \<longleftrightarrow> p = e"
| "lseg h p (x # xs) e \<longleftrightarrow> p = x \<and> (\<exists>q. h x = Some q \<and> lseg h (pnext q) xs e)"

text \<open>The ring that starts at \<open>p\<close>: all distinct, not null, and back at \<open>p\<close>.\<close>

definition ring :: "procs \<Rightarrow> u32 \<Rightarrow> u32 list \<Rightarrow> bool" where
  "ring h p xs \<longleftrightarrow> lseg h p (p # xs) p \<and> distinct (p # xs) \<and> 0 \<notin> set (p # xs)"

lemma lseg_append: "lseg h p (xs @ ys) e \<longleftrightarrow> (\<exists>m. lseg h p xs m \<and> lseg h m ys e)"
  by (induction xs arbitrary: p) auto

lemma lseg_mem: "lseg h p xs e \<Longrightarrow> x \<in> set xs \<Longrightarrow> \<exists>q. h x = Some q"
  by (induction xs arbitrary: p) auto

lemma lseg_hd: "lseg h p (x # xs) e \<Longrightarrow> p = x"
  by simp

lemma lseg_cong:
  "lseg h p xs e \<Longrightarrow> (\<And>x q. x \<in> set xs \<Longrightarrow> h x = Some q \<Longrightarrow> \<exists>q'. h' x = Some q' \<and> pnext q' = pnext q)
    \<Longrightarrow> lseg h' p xs e"
proof (induction xs arbitrary: p)
  case Nil
  then show ?case by simp
next
  case (Cons x xs)
  then obtain q where q: "p = x" "h x = Some q" "lseg h (pnext q) xs e" by auto
  with Cons.prems(2) obtain q' where "h' x = Some q'" "pnext q' = pnext q" by fastforce
  with q Cons show ?case by auto
qed

text \<open>A ring can be entered anywhere.\<close>

lemma ring_rotate:
  assumes "ring h p xs" "x \<in> set (p # xs)"
  shows "\<exists>ys. ring h x ys \<and> set (x # ys) = set (p # xs)"
proof -
  from assms(2) obtain as bs where ab: "p # xs = as @ x # bs" by (meson split_list)
  have l: "lseg h p (as @ x # bs) p" and d: "distinct (as @ x # bs)" "0 \<notin> set (as @ x # bs)"
    using assms(1) ab by (simp_all add: ring_def)
  from l obtain m where 1: "lseg h p as m" and 2: "lseg h m (x # bs) p"
    unfolding lseg_append by blast
  have "m = x" using 2 by simp
  then have "lseg h x ((x # bs) @ as) x"
    unfolding lseg_append using 1 2 by blast
  then have "ring h x (bs @ as)" using d by (auto simp: ring_def)
  moreover have "set (x # bs @ as) = set (p # xs)" unfolding ab by auto
  ultimately show ?thesis by blast
qed

lemma ring_cong:
  assumes "ring h p xs"
    and "\<And>x q. x \<in> set (p # xs) \<Longrightarrow> h x = Some q \<Longrightarrow> \<exists>q'. h' x = Some q' \<and> pnext q' = pnext q"
  shows "ring h' p xs"
  using assms lseg_cong [of h p "p # xs" p h'] unfolding ring_def by blast

lemma ring_mem: "ring h p xs \<Longrightarrow> x \<in> set (p # xs) \<Longrightarrow> \<exists>q. h x = Some q"
  unfolding ring_def using lseg_mem by blast

lemma ring_next:
  assumes "ring h p xs" "h p = Some q"
  shows "lseg h (pnext q) xs p"
  using assms by (auto simp: ring_def)


subsection \<open>What the loops compute on a segment\<close>

text \<open>The test of a loop, on the contents of the map.\<close>

definition at :: "(u32 \<Rightarrow> process \<Rightarrow> bool) \<Rightarrow> procs \<Rightarrow> u32 \<Rightarrow> bool" where
  "at P h x \<longleftrightarrow> (case h x of None \<Rightarrow> False | Some q \<Rightarrow> P x q)"

lemma at_Some [simp]: "h x = Some q \<Longrightarrow> at P h x = P x q"
  by (simp add: at_def)

lemma atE: assumes "at P h x" obtains q where "h x = Some q" "P x q"
  using assms by (auto simp: at_def split: option.splits)

lemma ring_find_lseg:
  assumes "lseg h p xs e" "xs \<noteq> []" "e \<notin> set (tl xs)" "0 \<notin> set xs"
  shows "ring_find nul P h p e = Some (find (at P h) xs)"
  using assms
proof (induction xs arbitrary: p)
  case Nil
  then show ?case by simp
next
  case (Cons x xs)
  then obtain q where q: "p = x" "h x = Some q" "lseg h (pnext q) xs e" by auto
  show ?case
  proof (cases xs)
    case Nil
    then have "pnext q = e" using q by simp
    then show ?thesis using q Nil by (subst ring_find.simps) simp
  next
    case (Cons y ys)
    then have y: "pnext q = y" "y \<noteq> e" "y \<noteq> 0" using q Cons.prems by auto
    have "ring_find nul P h y e = Some (find (at P h) xs)"
      using Cons.IH [of y] q y Cons Cons.prems by simp
    then show ?thesis using q y by (subst ring_find.simps) simp
  qed
qed

lemma while_find_lseg:
  assumes "lseg h p xs e" "e \<notin> set xs"
  shows "while_find P h p e = Some (find (at P h) xs)"
  using assms
proof (induction xs arbitrary: p)
  case Nil
  then show ?case by (subst while_find.simps) simp
next
  case (Cons x xs)
  then obtain q where q: "p = x" "h x = Some q" "lseg h (pnext q) xs e" "x \<noteq> e" by auto
  have "while_find P h (pnext q) e = Some (find (at P h) xs)"
    using Cons q by simp
  then show ?case using q by (subst while_find.simps) simp
qed

lemma ring_pred_lseg:
  assumes "lseg h p xs e" "xs \<noteq> []" "e \<notin> set (tl xs)"
  shows "ring_pred h p e = Some (last xs)"
  using assms
proof (induction xs arbitrary: p)
  case Nil
  then show ?case by simp
next
  case (Cons x xs)
  then obtain q where q: "p = x" "h x = Some q" "lseg h (pnext q) xs e" by auto
  show ?case
  proof (cases xs)
    case Nil
    then show ?thesis using q by (subst ring_pred.simps) simp
  next
    case (Cons y ys)
    then have y: "pnext q = y" "y \<noteq> e" using q \<open>e \<notin> set (tl (x # xs))\<close> by auto
    have "ring_pred h y e = Some (last xs)"
      using Cons.IH [of y] q y Cons \<open>e \<notin> set (tl (x # xs))\<close> by simp
    then show ?thesis using q y Cons by (subst ring_pred.simps) simp
  qed
qed

text \<open>The map after an update loop: every process of the segment that passes the test changes.\<close>

definition mapped :: "(u32 \<Rightarrow> process \<Rightarrow> bool) \<Rightarrow> (process \<Rightarrow> process) \<Rightarrow> u32 set \<Rightarrow> procs \<Rightarrow> procs" where
  "mapped P f A h = (\<lambda>x. if x \<in> A \<and> at P h x then map_option f (h x) else h x)"

lemma mapped_other: "x \<notin> A \<Longrightarrow> mapped P f A h x = h x"
  by (simp add: mapped_def)

lemma mapped_Some:
  "h x = Some q \<Longrightarrow> mapped P f A h x = Some (if x \<in> A \<and> P x q then f q else q)"
  by (simp add: mapped_def)

lemma mapped_None: "h x = None \<Longrightarrow> mapped P f A h x = None"
  by (simp add: mapped_def)

lemma mapped_cases:
  assumes "mapped P f A h x = Some q'"
  obtains q where "h x = Some q" "q' = (if x \<in> A \<and> P x q then f q else q)"
  using assms by (cases "h x") (auto simp: mapped_Some mapped_None)

lemma ring_update_lseg:
  assumes "lseg (procs s) p xs e" "xs \<noteq> []" "e \<notin> set (tl xs)" "0 \<notin> set xs" "distinct xs"
    and f: "\<And>q. pnext (f q) = pnext q"
  shows "ring_update P f p e fd s
    = Some (fd \<or> (\<exists>x \<in> set xs. at P (procs s) x), s\<lparr>procs := mapped P f (set xs) (procs s)\<rparr>)"
  using assms(1-5)
proof (induction xs arbitrary: p s fd)
  case Nil
  then show ?case by simp
next
  case (Cons x xs)
  then obtain q where q: "p = x" "procs s x = Some q" "lseg (procs s) (pnext q) xs e" by auto
  define s1 where "s1 = (if P x q then set_proc x (f q) s else s)"
  have h1: "procs s1 = mapped P f {x} (procs s)"
    using q by (auto simp: s1_def mapped_def fun_eq_iff)
  have s1: "s1\<lparr>procs := h\<rparr> = s\<lparr>procs := h\<rparr>" for h by (simp add: s1_def set_proc_def)
  have p1: "procs s1 x = Some (if P x q then f q else q)" by (simp add: h1 mapped_Some q)
  have at1: "at P (procs s1) y = at P (procs s) y" if "y \<noteq> x" for y
    using that by (simp add: h1 mapped_def at_def)
  have whole: "mapped P f (set xs) (procs s1) = mapped P f (set (x # xs)) (procs s)"
    using Cons.prems(5) by (auto simp: h1 mapped_def at_def fun_eq_iff)
  have unf: "ring_update P f p e fd s = (if pnext q = 0 \<or> pnext q = e then Some (fd \<or> P x q, s1)
      else ring_update P f (pnext q) e (fd \<or> P x q) s1)"
    unfolding ring_update.simps [of P f p e fd s] using q f by (simp add: s1_def)
  show ?case
  proof (cases xs)
    case Nil
    then have "pnext q = e" using q by simp
    moreover have "s1 = s\<lparr>procs := mapped P f (set (x # xs)) (procs s)\<rparr>"
    proof -
      have "s1 = s\<lparr>procs := procs s1\<rparr>" using s1 [of "procs s1"] by simp
      then show ?thesis using h1 Nil by simp
    qed
    ultimately show ?thesis unfolding unf using q Nil by simp
  next
    case (Cons y ys)
    then have y: "pnext q = y" "y \<noteq> e" "y \<noteq> 0" using q Cons.prems by auto
    have l1: "lseg (procs s1) y xs e"
      using q(3) unfolding y(1)
      by (rule lseg_cong) (use Cons.prems(5) in \<open>auto simp: h1 mapped_def\<close>)
    have "ring_update P f y e (fd \<or> P x q) s1
        = Some ((fd \<or> P x q) \<or> (\<exists>z \<in> set xs. at P (procs s1) z), s1\<lparr>procs := mapped P f (set xs) (procs s1)\<rparr>)"
      by (rule Cons.IH [OF l1]) (use Cons Cons.prems in auto)
    moreover have "(\<exists>z \<in> set xs. at P (procs s1) z) = (\<exists>z \<in> set xs. at P (procs s) z)"
      by (rule bex_cong [OF refl]) (use at1 Cons.prems(5) in \<open>metis distinct.simps(2)\<close>)
    ultimately have "ring_update P f y e (fd \<or> P x q) s1
        = Some (fd \<or> (\<exists>z \<in> set (x # xs). at P (procs s) z), s\<lparr>procs := mapped P f (set (x # xs)) (procs s)\<rparr>)"
      using q whole s1 by simp
    then show ?thesis unfolding unf using y by simp
  qed
qed

lemma find_Some_mem: "find P xs = Some x \<Longrightarrow> x \<in> set xs \<and> P x"
  by (auto simp: find_Some_iff)

lemma find_None: "find P xs = None \<longleftrightarrow> (\<forall>x \<in> set xs. \<not> P x)"
  by (auto simp: find_None_iff)

end
