(* ===== verification/Sched.thy ===== *)
theory Sched
  imports Proc_Ring
begin

text \<open>
  The scheduler: \<open>schedule\<close> and \<open>init_multitasking\<close> of \<open>process.cpp\<close>, the timer interrupt of
  \<open>timer.cpp\<close>, \<open>sys_kill\<close> of \<open>signal.cpp\<close> (the part that changes process states) and the
  wait queues of \<open>wait_queue.cpp\<close>. \<open>schedule_picks_best\<close> says which process runs next;
  \<open>sched_inv\<close> says that the processes form one ring and that only the current one is
  running, and every operation keeps it.
\<close>

subsection \<open>schedule\<close>

definition ready_higher :: "process \<Rightarrow> u32 \<Rightarrow> process \<Rightarrow> bool" where
  "ready_higher c p q \<longleftrightarrow> pstate q = PROCESS_READY \<and> priority q < priority c"

definition runnable :: "u32 \<Rightarrow> u32 \<Rightarrow> process \<Rightarrow> bool" where
  "runnable old p q \<longleftrightarrow> pstate q = PROCESS_READY \<or> (p = old \<and> pstate q = PROCESS_RUNNING)"

partial_function (option) best_loop :: "procs \<Rightarrow> u32 \<Rightarrow> u32 \<Rightarrow> u32 \<Rightarrow> u32 \<Rightarrow> u32 option" where
  "best_loop h old best p stop = do {
     q \<leftarrow> h p;
     best1 \<leftarrow> (if runnable old p q
               then (if best = 0 then Some p
                     else do { b \<leftarrow> h best; Some (if priority q < priority b then p else best) })
               else Some best);
     if pnext q = stop then Some best1 else best_loop h old best1 (pnext q) stop }"

declare best_loop.simps [code]

text \<open>
  \<open>switch_task\<close> (process_asm.asm): the stack pointer of the CPU is saved in \<open>old->esp\<close>; the
  new stack pointer and page directory were read before the call.
\<close>

definition switch_task :: "u32 \<Rightarrow> u32 \<Rightarrow> u32 \<Rightarrow> kst \<Rightarrow> kst option" where
  "switch_task old new_esp new_cr3 s = do {
     s1 \<leftarrow> upd_proc old (\<lambda>q. q\<lparr>saved_esp := cpu_esp s\<rparr>) s;
     Some (s1\<lparr>cpu_esp := new_esp, vmem := pd_switch new_cr3 (vmem s1)\<rparr>) }"

text \<open>The early return: the time slice is not used up and no ready process is more urgent.\<close>

definition keep_running :: "kst \<Rightarrow> (bool \<times> kst) option" where
  "keep_running s = do {
     c \<leftarrow> procs s (current_process s);
     if pstate c = PROCESS_RUNNING then do {
       let c1 = c\<lparr>time_remaining := time_remaining c - 1\<rparr>;
       let s1 = set_proc (current_process s) c1 s;
       if time_remaining c1 > 0 then do {
         f \<leftarrow> while_find (ready_higher c1) (procs s1) (pnext c1) (current_process s);
         Some (f = None, s1)
       } else Some (False, s1)
     } else Some (False, s) }"

definition dispatch :: "u32 \<Rightarrow> kst \<Rightarrow> kst option" where
  "dispatch best s = do {
     let old = current_process s;
     o1 \<leftarrow> procs s old;
     if best = old \<and> pstate o1 = PROCESS_RUNNING
     then upd_proc old (\<lambda>q. q\<lparr>time_remaining := time_slice q\<rparr>) s
     else do {
       let s1 = (if pstate o1 = PROCESS_RUNNING then set_proc old (o1\<lparr>pstate := PROCESS_READY\<rparr>) s else s);
       s2 \<leftarrow> upd_proc best (\<lambda>q. q\<lparr>pstate := PROCESS_RUNNING, time_remaining := time_slice q\<rparr>)
              (s1\<lparr>current_process := best\<rparr>);
       b \<leftarrow> procs s2 best;
       switch_task old (saved_esp b) (page_directory b) (s2\<lparr>tss_esp0 := kernel_stack_top b\<rparr>) } }"

definition schedule :: "kst \<Rightarrow> kst option" where
  "schedule s =
     (if current_process s = 0 then Some s
      else do {
        (keep, s1) \<leftarrow> keep_running s;
        if keep then Some s1
        else do {
          o1 \<leftarrow> procs s1 (current_process s1);
          best \<leftarrow> best_loop (procs s1) (current_process s1) 0 (pnext o1) (pnext o1);
          if best = 0 then Some s1 else dispatch best s1 } })"

text \<open>
  \<open>init_multitasking\<close>; \<open>np\<close> is the block \<open>kmalloc\<close> returned and \<open>blk\<close> what it held.
\<close>

definition init_multitasking :: "u32 \<Rightarrow> process \<Rightarrow> u32 \<Rightarrow> kst \<Rightarrow> kst" where
  "init_multitasking np blk stack_top s =
     (set_proc np (blk\<lparr>pid := 0, pstate := PROCESS_RUNNING, parent := 0, exit_code := 0,
         page_directory := kernel_pd (vmem s), kernel_stack_top := stack_top,
         fd_table := replicate MAX_PROCESS_FILES 0, priority := DEFAULT_PRIORITY,
         time_slice := DEFAULT_TIME_SLICE, time_remaining := DEFAULT_TIME_SLICE,
         sleep_until := 0, pledges := 0xFFFFFFFF, cwd := ''/'', pnext := np\<rparr>) s)
       \<lparr>current_process := np, ready_queue := np\<rparr>"

subsection \<open>The timer interrupt\<close>

text \<open>The sleepers whose time has come.\<close>

definition due :: "u32 \<Rightarrow> process \<Rightarrow> bool" where
  "due t q \<longleftrightarrow> pstate q = PROCESS_SLEEPING \<and> t \<ge> sleep_until q"

definition timer_callback :: "kst \<Rightarrow> kst option" where
  "timer_callback s = do {
     let s1 = s\<lparr>tick := tick s + 1\<rparr>;
     s2 \<leftarrow> (if ready_queue s1 \<noteq> 0
            then map_option snd (ring_update
                   (\<lambda>_. due (tick s1))
                   (\<lambda>q. q\<lparr>pstate := PROCESS_READY\<rparr>) (ready_queue s1) (ready_queue s1) False s1)
            else Some s1);
     schedule s2 }"

subsection \<open>sys_kill\<close>

definition sigbit :: "nat \<Rightarrow> sigset" where "sigbit n = push_bit n 1"

text \<open>What a signal does to its target; signal 0 only wakes it.\<close>

definition post_signal :: "int \<Rightarrow> process \<Rightarrow> process" where
  "post_signal signum q =
     (let q1 = (if signum = 0 then q else q\<lparr>pending_signals := pending_signals q OR sigbit (nat signum)\<rparr>)
      in if pstate q1 = PROCESS_WAITING then q1\<lparr>pstate := PROCESS_READY\<rparr> else q1)"

definition kill_all :: "(u32 \<Rightarrow> process \<Rightarrow> bool) \<Rightarrow> int \<Rightarrow> kst \<Rightarrow> (int \<times> kst) option" where
  "kill_all P signum s =
     (if ready_queue s = 0 then Some (- ESRCH, s)
      else do {
        (found, s1) \<leftarrow> ring_update P (post_signal signum) (ready_queue s) (ready_queue s) False s;
        Some (if found then 0 else - ESRCH, s1) })"

definition kill_one :: "int \<Rightarrow> int \<Rightarrow> kst \<Rightarrow> (int \<times> kst) option" where
  "kill_one p signum s =
     (if ready_queue s = 0 then Some (- ESRCH, s)
      else do {
        r \<leftarrow> ring_find True (\<lambda>_ q. pid q = word_of_int p) (procs s) (ready_queue s) (ready_queue s);
        case r of None \<Rightarrow> Some (- ESRCH, s)
        | Some a \<Rightarrow> do { s1 \<leftarrow> upd_proc a (post_signal signum) s; Some (0, s1) } })"

definition sys_kill :: "int \<Rightarrow> int \<Rightarrow> kst \<Rightarrow> (int \<times> kst) option" where
  "sys_kill p0 signum s =
     (if signum < 0 \<or> signum \<ge> int NSIG then Some (- EINVAL, s)
      else do {
        p \<leftarrow> (if p0 = 0 then do { c \<leftarrow> procs s (current_process s); Some (sint (pgid c)) } else Some p0);
        if p = -1 then kill_all (\<lambda>a q. pid q > 1 \<and> a \<noteq> current_process s) signum s
        else if p < -1 then kill_all (\<lambda>_ q. pgid q = word_of_int (- p)) signum s
        else kill_one p signum s })"

subsection \<open>Wait queues\<close>

text \<open>
  A \<open>wait_queue_t\<close> is the list of its entries, head first; an entry holds the process that
  sleeps. \<open>mem_ok\<close> says whether \<open>kmalloc\<close> of the entry succeeds.
\<close>

type_synonym wait_queue = "u32 list"

definition wait_queue_init :: "wait_queue \<Rightarrow> wait_queue" where "wait_queue_init wq = []"

definition sleep_on :: "bool \<Rightarrow> wait_queue \<Rightarrow> kst \<Rightarrow> (wait_queue \<times> kst) option" where
  "sleep_on mem_ok wq s =
     (if current_process s = 0 then Some (wq, s)
      else if \<not> mem_ok then Some (wq, s)
      else do {
        s1 \<leftarrow> upd_proc (current_process s) (\<lambda>q. q\<lparr>pstate := PROCESS_WAITING\<rparr>) s;
        s2 \<leftarrow> schedule s1;
        Some (wq @ [current_process s], s2) })"

definition wake_proc :: "u32 \<Rightarrow> kst \<Rightarrow> kst option" where
  "wake_proc p s = (if p = 0 then Some s else upd_proc p (\<lambda>q. q\<lparr>pstate := PROCESS_READY\<rparr>) s)"

fun wake_up :: "wait_queue \<Rightarrow> kst \<Rightarrow> (wait_queue \<times> kst) option" where
  "wake_up [] s = Some ([], s)"
| "wake_up (p # wq) s = do { s1 \<leftarrow> wake_proc p s; Some (wq, s1) }"

fun wake_up_all :: "wait_queue \<Rightarrow> kst \<Rightarrow> (wait_queue \<times> kst) option" where
  "wake_up_all [] s = Some ([], s)"
| "wake_up_all (p # wq) s = do { s1 \<leftarrow> wake_proc p s; wake_up_all wq s1 }"

definition wait_queue_empty :: "wait_queue \<Rightarrow> bool" where "wait_queue_empty wq \<longleftrightarrow> wq = []"


subsection \<open>The choice of the next process\<close>

abbreviation prio :: "procs \<Rightarrow> u32 \<Rightarrow> int" where "prio h x \<equiv> priority (the (h x))"

definition best_step :: "procs \<Rightarrow> u32 \<Rightarrow> u32 \<Rightarrow> u32 \<Rightarrow> u32" where
  "best_step h old x best =
     (if at (runnable old) h x \<and> (best = 0 \<or> prio h x < prio h best) then x else best)"

lemma best_loop_lseg:
  assumes "lseg h p xs e" "xs \<noteq> []" "e \<notin> set (tl xs)" "best = 0 \<or> (\<exists>b. h best = Some b)"
  shows "best_loop h old best p e = Some (fold (best_step h old) xs best)"
  using assms
proof (induction xs arbitrary: p best)
  case Nil
  then show ?case by simp
next
  case (Cons x xs)
  then obtain q where q: "p = x" "h x = Some q" "lseg h (pnext q) xs e" by auto
  define b1 where "b1 = best_step h old x best"
  have b1: "b1 = 0 \<or> (\<exists>b. h b1 = Some b)" using Cons.prems(4) q by (auto simp: b1_def best_step_def)
  have unf: "best_loop h old best p e
      = (if pnext q = e then Some b1 else best_loop h old b1 (pnext q) e)"
    unfolding best_loop.simps [of h old best p e] b1_def best_step_def
    using q Cons.prems(4) by auto
  show ?case
  proof (cases xs)
    case Nil
    then show ?thesis unfolding unf using q by (simp add: b1_def)
  next
    case (Cons y ys)
    then have y: "pnext q = y" "y \<noteq> e" using q Cons.prems by auto
    have "best_loop h old b1 (pnext q) e = Some (fold (best_step h old) xs b1)"
      by (rule Cons.IH) (use q Cons Cons.prems b1 in auto)
    then show ?thesis unfolding unf using y by (simp add: b1_def)
  qed
qed

text \<open>The first of the most urgent runnable processes, in ring order.\<close>

definition first_best :: "procs \<Rightarrow> u32 \<Rightarrow> u32 list \<Rightarrow> u32 \<Rightarrow> bool" where
  "first_best h old xs b \<longleftrightarrow> (\<exists>as bs. xs = as @ b # bs \<and> at (runnable old) h b
     \<and> (\<forall>x \<in> set as. at (runnable old) h x \<longrightarrow> prio h b < prio h x)
     \<and> (\<forall>x \<in> set bs. at (runnable old) h x \<longrightarrow> prio h b \<le> prio h x))"

lemma best_fold:
  assumes "0 \<notin> set xs"
  shows "if \<exists>x \<in> set xs. at (runnable old) h x
    then first_best h old xs (fold (best_step h old) xs 0) else fold (best_step h old) xs 0 = 0"
  using assms
proof (induction xs rule: rev_induct)
  case Nil
  then show ?case by simp
next
  case (snoc x xs)
  define b where "b = fold (best_step h old) xs 0"
  have fb: "fold (best_step h old) (xs @ [x]) 0 = best_step h old x b" by (simp add: b_def)
  show ?case
  proof (cases "\<exists>y \<in> set xs. at (runnable old) h y")
    case False
    then have b: "b = 0" using snoc by (simp add: b_def)
    show ?thesis
    proof (cases "at (runnable old) h x")
      case True
      have "first_best h old (xs @ [x]) x"
        unfolding first_best_def using True False by (intro exI [of _ xs] exI [of _ "[]"]) auto
      then show ?thesis unfolding fb using True b by (simp add: best_step_def)
    next
      case False
      then show ?thesis unfolding fb using \<open>\<not> (\<exists>y \<in> set xs. at (runnable old) h y)\<close> b
        by (simp add: best_step_def)
    qed
  next
    case True
    then have "first_best h old xs b" using snoc by (simp add: b_def)
    then obtain as bs where ab: "xs = as @ b # bs" "at (runnable old) h b"
        "\<forall>y \<in> set as. at (runnable old) h y \<longrightarrow> prio h b < prio h y"
        "\<forall>y \<in> set bs. at (runnable old) h y \<longrightarrow> prio h b \<le> prio h y"
      unfolding first_best_def by blast
    have b0: "b \<noteq> 0" using snoc.prems ab(1) by auto
    have "first_best h old (xs @ [x]) (best_step h old x b)"
    proof (cases "at (runnable old) h x \<and> prio h x < prio h b")
      case True
      then have "\<forall>y \<in> set xs. at (runnable old) h y \<longrightarrow> prio h x < prio h y"
        using ab by auto
      then have "first_best h old (xs @ [x]) x"
        unfolding first_best_def using True by (intro exI [of _ xs] exI [of _ "[]"]) auto
      then show ?thesis using True by (simp add: best_step_def)
    next
      case False
      then have "best_step h old x b = b" using b0 by (auto simp: best_step_def)
      moreover have "\<forall>y \<in> set (bs @ [x]). at (runnable old) h y \<longrightarrow> prio h b \<le> prio h y"
        using ab False by auto
      ultimately show ?thesis unfolding first_best_def using ab
        by (metis append.assoc append_Cons)
    qed
    then show ?thesis unfolding fb using True by auto
  qed
qed

lemma first_best_mem: "first_best h old xs b \<Longrightarrow> b \<in> set xs \<and> at (runnable old) h b"
  unfolding first_best_def by auto


lemma first_best_cong:
  assumes "first_best h old xs b"
    and "\<And>x. x \<in> set xs \<Longrightarrow> at (runnable old) h x = at (runnable old) h' x \<and> prio h x = prio h' x"
  shows "first_best h' old xs b"
  using assms unfolding first_best_def by (metis Un_iff list.set_intros(1,2) set_append)

subsection \<open>The scheduler invariant\<close>

text \<open>
  All processes form one ring that contains the current process and the head of the queue,
  and no process but the current one is running.
\<close>

definition one_ring :: "kst \<Rightarrow> bool" where
  "one_ring s \<longleftrightarrow> (\<exists>xs. ring (procs s) (current_process s) xs
     \<and> ready_queue s \<in> set (current_process s # xs) \<and> dom (procs s) = set (current_process s # xs))"

definition sched_inv :: "kst \<Rightarrow> bool" where
  "sched_inv s \<longleftrightarrow> one_ring s
     \<and> (\<forall>p q. procs s p = Some q \<longrightarrow> pstate q = PROCESS_RUNNING \<longrightarrow> p = current_process s)"

lemma sched_inv_running:
  "sched_inv s \<Longrightarrow> procs s p = Some q \<Longrightarrow> pstate q = PROCESS_RUNNING \<Longrightarrow> p = current_process s"
  by (simp add: sched_inv_def)

lemma sched_inv_ring:
  assumes "sched_inv s"
  obtains xs c where "ring (procs s) (current_process s) xs" "procs s (current_process s) = Some c"
    "ready_queue s \<in> set (current_process s # xs)" "dom (procs s) = set (current_process s # xs)"
proof -
  from assms obtain xs where xs: "ring (procs s) (current_process s) xs"
      "ready_queue s \<in> set (current_process s # xs)" "dom (procs s) = set (current_process s # xs)"
    unfolding sched_inv_def one_ring_def by blast
  then obtain c where "procs s (current_process s) = Some c" using ring_mem by fastforce
  with xs show ?thesis using that by blast
qed

lemma one_ring_nonnull:
  assumes "one_ring s"
  shows "current_process s \<noteq> 0" "ready_queue s \<noteq> 0" "procs s 0 = None"
proof -
  from assms obtain xs where "ring (procs s) (current_process s) xs"
      "ready_queue s \<in> set (current_process s # xs)" "dom (procs s) = set (current_process s # xs)"
    unfolding one_ring_def by blast
  moreover from this have "0 \<notin> set (current_process s # xs)" by (simp add: ring_def)
  ultimately show "current_process s \<noteq> 0" "ready_queue s \<noteq> 0" "procs s 0 = None"
    by (metis list.set_intros(1), metis, metis domIff)
qed

text \<open>A step that keeps the processes and their links keeps the ring.\<close>

lemma one_ringI:
  assumes "one_ring s" and "\<And>p. (procs s' p = None) = (procs s p = None)"
    and "\<And>p q q'. procs s p = Some q \<Longrightarrow> procs s' p = Some q' \<Longrightarrow> pnext q' = pnext q"
    and "procs s (current_process s') \<noteq> None" "ready_queue s' = ready_queue s"
  shows "one_ring s'"
proof -
  from assms(1) obtain xs where xs: "ring (procs s) (current_process s) xs"
      "ready_queue s \<in> set (current_process s # xs)" "dom (procs s) = set (current_process s # xs)"
    unfolding one_ring_def by blast
  have "current_process s' \<in> set (current_process s # xs)" using assms(4) xs(3) by blast
  then obtain ys where ys: "ring (procs s) (current_process s') ys"
      "set (current_process s' # ys) = set (current_process s # xs)"
    using ring_rotate [OF xs(1)] by blast
  have "ring (procs s') (current_process s') ys"
    by (rule ring_cong [OF ys(1)]) (metis assms(2,3) option.exhaust option.discI)
  moreover have "dom (procs s') = dom (procs s)" using assms(2) by (auto simp: dom_def)
  ultimately show ?thesis
    unfolding one_ring_def using ys(2) xs(2,3) assms(5) by auto
qed

lemma sched_invI:
  assumes "sched_inv s" and "\<And>p. (procs s' p = None) = (procs s p = None)"
    and "\<And>p q q'. procs s p = Some q \<Longrightarrow> procs s' p = Some q' \<Longrightarrow> pnext q' = pnext q"
    and "procs s (current_process s') \<noteq> None" "ready_queue s' = ready_queue s"
    and "\<And>p q. procs s' p = Some q \<Longrightarrow> pstate q = PROCESS_RUNNING \<Longrightarrow> p = current_process s'"
  shows "sched_inv s'"
proof -
  have "one_ring s'"
    by (rule one_ringI [of s]) (use assms in \<open>auto simp: sched_inv_def\<close>)
  then show ?thesis using assms(6) unfolding sched_inv_def by blast
qed

text \<open>Updating one process without touching its link.\<close>

lemma sched_inv_set_proc:
  assumes "sched_inv s" "procs s p = Some q0" "pnext q = pnext q0"
    and "pstate q = PROCESS_RUNNING \<Longrightarrow> p = current_process s"
  shows "sched_inv (set_proc p q s)"
proof (rule sched_invI [OF assms(1)])
  show "procs s (current_process (set_proc p q s)) \<noteq> None"
    by (rule sched_inv_ring [OF assms(1)]) simp
qed (use assms sched_inv_running [OF assms(1)] in \<open>auto split: if_splits\<close>)

text \<open>An update loop over the whole list that starts at \<open>ready_queue\<close>.\<close>

lemma ring_update_queue:
  assumes "one_ring s" and f: "\<And>q. pnext (f q) = pnext q"
  shows "ring_update P f (ready_queue s) (ready_queue s) fd s
    = Some (fd \<or> (\<exists>p q. procs s p = Some q \<and> P p q),
            s\<lparr>procs := mapped P f (dom (procs s)) (procs s)\<rparr>)"
proof -
  obtain xs where xs: "ring (procs s) (current_process s) xs"
      "ready_queue s \<in> set (current_process s # xs)" "dom (procs s) = set (current_process s # xs)"
    using assms(1) unfolding one_ring_def by blast
  then obtain ys where ys: "ring (procs s) (ready_queue s) ys"
      "set (ready_queue s # ys) = dom (procs s)"
    using ring_rotate by metis
  have "ring_update P f (ready_queue s) (ready_queue s) fd s
    = Some (fd \<or> (\<exists>x \<in> set (ready_queue s # ys). at P (procs s) x),
        s\<lparr>procs := mapped P f (set (ready_queue s # ys)) (procs s)\<rparr>)"
    by (rule ring_update_lseg) (use ys(1) f in \<open>auto simp: ring_def\<close>)
  moreover have "(\<exists>x \<in> dom (procs s). at P (procs s) x) = (\<exists>p q. procs s p = Some q \<and> P p q)"
    by (auto simp: dom_def at_def) blast
  ultimately show ?thesis unfolding ys(2) by simp
qed


subsection \<open>schedule, step by step\<close>

text \<open>The time accounting at the head of \<open>schedule\<close>.\<close>

definition ticked :: "kst \<Rightarrow> process \<Rightarrow> kst" where
  "ticked s c = (if pstate c = PROCESS_RUNNING
     then set_proc (current_process s) (c\<lparr>time_remaining := time_remaining c - 1\<rparr>) s else s)"

definition keeps :: "kst \<Rightarrow> process \<Rightarrow> u32 list \<Rightarrow> bool" where
  "keeps s c xs \<longleftrightarrow> pstate c = PROCESS_RUNNING \<and> time_remaining c > 1
     \<and> \<not> (\<exists>x \<in> set xs. at (ready_higher c) (procs s) x)"

lemma ticked_simps [simp]:
  "current_process (ticked s c) = current_process s" "ready_queue (ticked s c) = ready_queue s"
  "next_pid (ticked s c) = next_pid s" "descs (ticked s c) = descs s" "tick (ticked s c) = tick s"
  "node_calls (ticked s c) = node_calls s" "vnodes (ticked s c) = vnodes s" "kstack (ticked s c) = kstack s"
  "vmem (ticked s c) = vmem s" "cpu_esp (ticked s c) = cpu_esp s"
  by (simp_all add: ticked_def)

lemma ticked_other: "p \<noteq> current_process s \<Longrightarrow> procs (ticked s c) p = procs s p"
  by (simp add: ticked_def)

lemma ticked_current:
  "procs s (current_process s) = Some c \<Longrightarrow> procs (ticked s c) (current_process s)
     = Some (c\<lparr>time_remaining := time_remaining c - (if pstate c = PROCESS_RUNNING then 1 else 0)\<rparr>)"
  by (simp add: ticked_def)

lemma keep_running_eq:
  assumes "ring (procs s) (current_process s) xs" "procs s (current_process s) = Some c"
  shows "keep_running s = Some (keeps s c xs, ticked s c)"
proof (cases "pstate c = PROCESS_RUNNING \<and> time_remaining c > 1")
  case False
  then show ?thesis using assms(2) by (auto simp: keep_running_def keeps_def ticked_def Let_def)
next
  case True
  define c1 where "c1 = c\<lparr>time_remaining := time_remaining c - 1\<rparr>"
  define s1 where "s1 = ticked s c"
  have s1: "s1 = set_proc (current_process s) c1 s" using True by (simp add: s1_def ticked_def c1_def)
  have l: "lseg (procs s) (pnext c) xs (current_process s)" using ring_next [OF assms] .
  have d: "current_process s \<notin> set xs" using assms(1) by (simp add: ring_def)
  have "lseg (procs s1) (pnext c1) xs (current_process s)"
    using l unfolding c1_def by (simp, rule lseg_cong) (use d s1 in auto)
  then have "while_find (ready_higher c1) (procs s1) (pnext c1) (current_process s)
      = Some (find (at (ready_higher c1) (procs s1)) xs)"
    by (rule while_find_lseg) (rule d)
  moreover have "(find (at (ready_higher c1) (procs s1)) xs = None)
      = (\<not> (\<exists>x \<in> set xs. at (ready_higher c) (procs s) x))"
  proof -
    have "at (ready_higher c1) (procs s1) x = at (ready_higher c) (procs s) x" if "x \<in> set xs" for x
      using that d s1 by (auto simp: at_def ready_higher_def c1_def split: option.splits)
    then show ?thesis unfolding find_None by blast
  qed
  moreover have "time_remaining c1 > 0" using True by (simp add: c1_def)
  ultimately show ?thesis
    using True assms(2) by (simp add: keep_running_def keeps_def s1 [symmetric] c1_def [symmetric] Let_def
        s1_def [symmetric])
qed

text \<open>What \<open>schedule\<close> may change in a process.\<close>

definition sched_same :: "process \<Rightarrow> process \<Rightarrow> bool" where
  "sched_same q q' \<longleftrightarrow> (\<exists>a b d. q' = q\<lparr>pstate := a, time_remaining := b, saved_esp := d\<rparr>)"

lemma sched_sameI: "sched_same q (q\<lparr>pstate := a, time_remaining := b, saved_esp := d\<rparr>)"
  unfolding sched_same_def by blast

lemma sched_same_intros:
  "sched_same q q" "sched_same q (q\<lparr>time_remaining := b\<rparr>)"
  "sched_same q (q\<lparr>pstate := a, saved_esp := d\<rparr>)" "sched_same q (q\<lparr>saved_esp := d, pstate := a\<rparr>)"
  "sched_same q (q\<lparr>saved_esp := d\<rparr>)"
proof -
  show "sched_same q q"
    using sched_sameI [where q = q and a = "pstate q" and b = "time_remaining q" and d = "saved_esp q"] by simp
  show "sched_same q (q\<lparr>time_remaining := b\<rparr>)"
    using sched_sameI [where q = q and a = "pstate q" and b = b and d = "saved_esp q"] by simp
  show 1: "sched_same q (q\<lparr>pstate := a, saved_esp := d\<rparr>)" for a
    using sched_sameI [where q = q and a = a and b = "time_remaining q" and d = d] by simp
  have "q\<lparr>saved_esp := d, pstate := a\<rparr> = q\<lparr>pstate := a, saved_esp := d\<rparr>"
    by (rule process.equality) simp_all
  then show "sched_same q (q\<lparr>saved_esp := d, pstate := a\<rparr>)" using 1 [of a] by metis
  show "sched_same q (q\<lparr>saved_esp := d\<rparr>)" using 1 [of "pstate q"] by simp
qed

lemma sched_same_trans: "sched_same a b \<Longrightarrow> sched_same b c \<Longrightarrow> sched_same a c"
  unfolding sched_same_def by fastforce

text \<open>The state after the switch from the current process to \<open>b\<close>.\<close>

definition switched :: "u32 \<Rightarrow> kst \<Rightarrow> kst \<Rightarrow> bool" where
  "switched b s s' \<longleftrightarrow> (\<exists>o1 b1. procs s (current_process s) = Some o1 \<and> procs s b = Some b1
     \<and> current_process s' = b \<and> cpu_esp s' = saved_esp b1 \<and> cr3 (vmem s') = page_directory b1
     \<and> tss_esp0 s' = kernel_stack_top b1
     \<and> procs s' = (procs s)(current_process s \<mapsto> o1\<lparr>saved_esp := cpu_esp s,
           pstate := (if pstate o1 = PROCESS_RUNNING then PROCESS_READY else pstate o1)\<rparr>,
         b \<mapsto> b1\<lparr>pstate := PROCESS_RUNNING, time_remaining := time_slice b1,
           saved_esp := (if b = current_process s then cpu_esp s else saved_esp b1)\<rparr>)
     \<and> ready_queue s' = ready_queue s \<and> next_pid s' = next_pid s \<and> descs s' = descs s
     \<and> node_calls s' = node_calls s \<and> vnodes s' = vnodes s \<and> kstack s' = kstack s \<and> tick s' = tick s
     \<and> vmem s' = pd_switch (page_directory b1) (vmem s))"

lemma dispatch_switch:
  assumes "procs s (current_process s) = Some o1" "procs s b = Some b1"
    and "\<not> (b = current_process s \<and> pstate o1 = PROCESS_RUNNING)"
  shows "\<exists>s'. dispatch b s = Some s' \<and> switched b s s'"
  using assms
  by (auto simp: dispatch_def switched_def Let_def upd_proc_def switch_task_def set_proc_def
      pd_switch_def fun_upd_def fun_eq_iff)

lemma dispatch_keep:
  assumes "procs s (current_process s) = Some o1" "pstate o1 = PROCESS_RUNNING"
  shows "dispatch (current_process s) s
    = Some (set_proc (current_process s) (o1\<lparr>time_remaining := time_slice o1\<rparr>) s)"
  using assms by (simp add: dispatch_def upd_proc_def Let_def)


lemma runnable_ticked:
  assumes "procs s (current_process s) = Some c"
  shows "at (runnable old) (procs (ticked s c)) x = at (runnable old) (procs s) x
    \<and> prio (procs (ticked s c)) x = prio (procs s) x"
proof (cases "x = current_process s")
  case True
  then show ?thesis using assms by (simp add: ticked_current at_def runnable_def)
next
  case False
  then show ?thesis by (simp add: ticked_other at_def)
qed

lemma sched_inv_ticked:
  assumes "sched_inv s" "procs s (current_process s) = Some c"
  shows "sched_inv (ticked s c)"
  unfolding ticked_def using assms by (auto intro!: sched_inv_set_proc)

text \<open>The three outcomes of \<open>schedule\<close>.\<close>

lemma schedule_cases:
  assumes "ring (procs s) (current_process s) xs" "procs s (current_process s) = Some c"
  defines "old \<equiv> current_process s"
  shows "\<exists>s'. schedule s = Some s'
    \<and> (keeps s c xs \<and> s' = ticked s c
     \<or> \<not> keeps s c xs \<and> \<not> (\<exists>x \<in> set (xs @ [old]). at (runnable old) (procs s) x) \<and> s' = ticked s c
     \<or> \<not> keeps s c xs \<and> first_best (procs s) old (xs @ [old]) old \<and> pstate c = PROCESS_RUNNING
         \<and> s' = set_proc old (c\<lparr>time_remaining := time_slice c\<rparr>) s
     \<or> \<not> keeps s c xs \<and> (\<exists>b. first_best (procs s) old (xs @ [old]) b
         \<and> \<not> (b = old \<and> pstate c = PROCESS_RUNNING) \<and> switched b (ticked s c) s'))"
proof -
  define t where "t = ticked s c"
  have nz: "old \<noteq> 0" and d: "old \<notin> set xs" "0 \<notin> set (xs @ [old])" "distinct xs"
    using assms(1) unfolding ring_def old_def by auto
  have kr: "keep_running s = Some (keeps s c xs, t)"
    unfolding t_def by (rule keep_running_eq [OF assms(1,2)])
  obtain c1 where c1: "procs t old = Some c1" "pnext c1 = pnext c" "pstate c1 = pstate c"
      "time_slice c1 = time_slice c"
    using ticked_current [OF assms(2)] unfolding t_def old_def by simp
  have "lseg (procs s) (pnext c) xs old"
    using ring_next [OF assms(1,2)] unfolding old_def .
  then have "lseg (procs t) (pnext c) xs old"
    by (rule lseg_cong) (metis d(1) old_def t_def ticked_other)
  moreover have "lseg (procs t) old [old] (pnext c)" using c1 by simp
  ultimately have l: "lseg (procs t) (pnext c1) (xs @ [old]) (pnext c)"
    unfolding lseg_append c1(2) by blast
  have hd: "pnext c1 \<notin> set (tl (xs @ [old]))"
    using l d by (cases xs) (auto simp: c1(2))
  define best where "best = fold (best_step (procs t) old) (xs @ [old]) 0"
  have bl: "best_loop (procs t) old 0 (pnext c1) (pnext c1) = Some best"
    using l hd unfolding c1(2) best_def by (intro best_loop_lseg) auto
  have ct: "current_process t = old" by (simp add: t_def old_def)
  have sch: "schedule s = (if keeps s c xs then Some t else if best = 0 then Some t else dispatch best t)"
    using nz kr c1(1) bl unfolding old_def [symmetric]
    by (simp add: schedule_def old_def [symmetric] ct)
  have bf: "if \<exists>x \<in> set (xs @ [old]). at (runnable old) (procs t) x
      then first_best (procs t) old (xs @ [old]) best else best = 0"
    unfolding best_def by (rule best_fold) (use d in simp)
  have rt: "at (runnable old) (procs t) x = at (runnable old) (procs s) x \<and> prio (procs t) x = prio (procs s) x" for x
    unfolding t_def by (rule runnable_ticked [OF assms(2)])
  show ?thesis
  proof (cases "keeps s c xs \<or> \<not> (\<exists>x \<in> set (xs @ [old]). at (runnable old) (procs s) x)")
    case True
    then have "schedule s = Some t" using sch bf rt by auto
    then show ?thesis using True unfolding t_def by blast
  next
    case False
    then have nk: "\<not> keeps s c xs" and fbt: "first_best (procs t) old (xs @ [old]) best"
      using bf rt by (blast, smt (verit))
    have fb: "first_best (procs s) old (xs @ [old]) best"
      using fbt by (rule first_best_cong) (use rt in auto)
    have b0: "best \<noteq> 0" using first_best_mem [OF fb] d by auto
    have sd: "schedule s = dispatch best t" using sch nk b0 by simp
    show ?thesis
    proof (cases "best = old \<and> pstate c = PROCESS_RUNNING")
      case True
      then have "schedule s = Some (set_proc old (c1\<lparr>time_remaining := time_slice c1\<rparr>) t)"
        using dispatch_keep [of t c1] c1 ct sd by simp
      moreover have "set_proc old (c1\<lparr>time_remaining := time_slice c1\<rparr>) t
          = set_proc old (c\<lparr>time_remaining := time_slice c\<rparr>) s"
        using c1(1) True ticked_current [OF assms(2)]
        by (auto simp: t_def ticked_def set_proc_def old_def)
      ultimately show ?thesis using nk fb True by blast
    next
      case False
      obtain b1 where "procs t best = Some b1"
        using first_best_mem [OF fbt] by (auto elim: atE)
      then obtain s' where "dispatch best t = Some s'" "switched best t s'"
        using dispatch_switch [of t c1 best b1] c1 ct False by auto
      then have "schedule s = Some s'" "\<exists>b. first_best (procs s) old (xs @ [old]) b
         \<and> \<not> (b = old \<and> pstate c = PROCESS_RUNNING) \<and> switched b (ticked s c) s'"
        using sd fb False unfolding t_def by (simp, metis)
      then show ?thesis using nk by metis
    qed
  qed
qed

lemma switched_inv:
  assumes "sched_inv s" "switched b s s'"
  shows "sched_inv s'"
proof -
  obtain o1 b1 where h: "procs s (current_process s) = Some o1" "procs s b = Some b1"
      "current_process s' = b" "ready_queue s' = ready_queue s"
      "procs s' = (procs s)(current_process s \<mapsto> o1\<lparr>saved_esp := cpu_esp s,
           pstate := (if pstate o1 = PROCESS_RUNNING then PROCESS_READY else pstate o1)\<rparr>,
         b \<mapsto> b1\<lparr>pstate := PROCESS_RUNNING, time_remaining := time_slice b1,
           saved_esp := (if b = current_process s then cpu_esp s else saved_esp b1)\<rparr>)"
    using assms(2) unfolding switched_def by blast
  have none: "(procs s' p = None) = (procs s p = None)" for p
    unfolding h(5) using h(1,2) by simp
  have at: "\<exists>q'. procs s' p = Some q' \<and> pnext q' = pnext q \<and> (pstate q' = PROCESS_RUNNING \<longrightarrow> p = b)"
    if "procs s p = Some q" for p q
  proof -
    consider "p = b" | "p \<noteq> b" "p = current_process s" | "p \<noteq> b" "p \<noteq> current_process s" by blast
    then show ?thesis
    proof cases
      case 1
      then show ?thesis unfolding h(5) using that h(2) by simp
    next
      case 2
      then show ?thesis unfolding h(5) using that h(1) by simp
    next
      case 3
      then show ?thesis unfolding h(5) using that sched_inv_running [OF assms(1) that] by auto
    qed
  qed
  show ?thesis
  proof (rule sched_invI [OF assms(1) none])
    fix p q q' assume "procs s p = Some q" "procs s' p = Some q'"
    then show "pnext q' = pnext q" using at by fastforce
  next
    fix p q assume *: "procs s' p = Some q" "pstate q = PROCESS_RUNNING"
    then obtain q0 where "procs s p = Some q0" using none [of p] by auto
    then show "p = current_process s'" using at * h(3) by fastforce
  qed (use h in simp_all)
qed

text \<open>A current process that cannot run gives way to the one ready process that is more urgent than all others.\<close>

lemma schedule_to:
  assumes "sched_inv s" "procs s (current_process s) = Some c" "pstate c \<notin> {PROCESS_READY, PROCESS_RUNNING}"
    and p: "procs s p = Some x" "pstate x = PROCESS_READY"
    and best: "\<forall>a y. procs s a = Some y \<and> a \<noteq> p \<and> pstate y = PROCESS_READY \<longrightarrow> priority x < priority y"
    and r: "schedule s = Some s'"
  shows "current_process s' = p"
proof -
  obtain xs where xs: "ring (procs s) (current_process s) xs" "dom (procs s) = set (current_process s # xs)"
    using sched_inv_ring [OF assms(1)] by metis
  have pm: "p \<in> set (xs @ [current_process s])" using p(1) xs(2) by auto
  have run: "at (runnable (current_process s)) (procs s) a \<longleftrightarrow> (\<exists>y. procs s a = Some y \<and> pstate y = PROCESS_READY)" for a
    using assms(2,3) by (auto simp: at_def runnable_def split: option.splits)
  then have pr: "at (runnable (current_process s)) (procs s) p" using p by blast
  have nk: "\<not> keeps s c xs" using assms(3) by (simp add: keeps_def)
  have ex: "\<exists>x \<in> set (xs @ [current_process s]). at (runnable (current_process s)) (procs s) x" using pm pr by blast
  obtain b where b: "first_best (procs s) (current_process s) (xs @ [current_process s]) b" "switched b (ticked s c) s'"
    using schedule_cases [OF xs(1) assms(2)] r nk ex assms(3) by auto
  obtain y where y: "procs s b = Some y" "pstate y = PROCESS_READY" using first_best_mem [OF b(1)] run by blast
  have "b = p"
  proof (rule ccontr)
    assume n: "b \<noteq> p"
    then have "priority x < priority y" using best y by blast
    moreover have "prio (procs s) b \<le> prio (procs s) p"
    proof -
      obtain as bs where ab: "xs @ [current_process s] = as @ b # bs"
          "\<forall>x \<in> set as. at (runnable (current_process s)) (procs s) x \<longrightarrow> prio (procs s) b < prio (procs s) x"
          "\<forall>x \<in> set bs. at (runnable (current_process s)) (procs s) x \<longrightarrow> prio (procs s) b \<le> prio (procs s) x"
        using b(1) unfolding first_best_def by blast
      have "p \<in> set as \<union> set bs" using pm n unfolding ab(1) by simp
      then show ?thesis using ab(2,3) pr by (meson UnE less_imp_le)
    qed
    ultimately show False using p(1) y(1) by simp
  qed
  then show ?thesis using b(2) unfolding switched_def by blast
qed

lemma schedule_inv:
  assumes "sched_inv s"
  shows "\<exists>s'. schedule s = Some s' \<and> sched_inv s'"
proof -
  obtain xs c where x: "ring (procs s) (current_process s) xs" "procs s (current_process s) = Some c"
    using sched_inv_ring [OF assms] by metis
  obtain s' where s': "schedule s = Some s'"
    and "s' = ticked s c \<or> s' = set_proc (current_process s) (c\<lparr>time_remaining := time_slice c\<rparr>) s
      \<or> (\<exists>b. switched b (ticked s c) s')"
    using schedule_cases [OF x] by metis
  then consider "s' = ticked s c" | "s' = set_proc (current_process s) (c\<lparr>time_remaining := time_slice c\<rparr>) s"
    | b where "switched b (ticked s c) s'" by blast
  then have "sched_inv s'"
  proof cases
    case 1
    then show ?thesis using sched_inv_ticked [OF assms x(2)] by simp
  next
    case 2
    then show ?thesis using assms x(2) by (simp add: sched_inv_set_proc)
  next
    case 3
    then show ?thesis by (rule switched_inv [OF sched_inv_ticked [OF assms x(2)]])
  qed
  with s' show ?thesis by blast
qed


subsection \<open>The other operations keep the invariant\<close>

lemma procs_update_inv:
  assumes "sched_inv s" "s' = s\<lparr>procs := mapped P f A (procs s)\<rparr>"
    and "\<And>q. pnext (f q) = pnext q" "\<And>q. pstate (f q) = PROCESS_RUNNING \<Longrightarrow> pstate q = PROCESS_RUNNING"
  shows "sched_inv s'"
proof (rule sched_invI [OF assms(1)])
  show "(procs s' p = None) = (procs s p = None)" for p
    unfolding assms(2) by (simp add: mapped_def)
  show "procs s (current_process s') \<noteq> None"
    unfolding assms(2) by (rule sched_inv_ring [OF assms(1)]) simp
  show "ready_queue s' = ready_queue s" unfolding assms(2) by simp
  show "pnext q' = pnext q" if "procs s p = Some q" "procs s' p = Some q'" for p q q'
    using that assms(3) unfolding assms(2) by (auto simp: mapped_Some split: if_splits)
  show "p = current_process s'" if "procs s' p = Some q" "pstate q = PROCESS_RUNNING" for p q
  proof -
    from that(1) obtain q0 where "procs s p = Some q0" "q = (if p \<in> A \<and> P p q0 then f q0 else q0)"
      unfolding assms(2) by (auto elim: mapped_cases)
    then show ?thesis
      using that(2) assms(4) sched_inv_running [OF assms(1)] unfolding assms(2)
      by (simp split: if_splits)
  qed
qed

lemma sched_inv_irrelevant:
  "sched_inv s \<Longrightarrow> sched_inv (s\<lparr>tick := t\<rparr>)" "sched_inv s \<Longrightarrow> sched_inv (s\<lparr>node_calls := ns\<rparr>)"
  "sched_inv s \<Longrightarrow> sched_inv (s\<lparr>descs := ds\<rparr>)" "sched_inv s \<Longrightarrow> sched_inv (s\<lparr>vmem := v\<rparr>)"
  "sched_inv s \<Longrightarrow> sched_inv (s\<lparr>next_pid := i\<rparr>)" "sched_inv s \<Longrightarrow> sched_inv (s\<lparr>kstack := k\<rparr>)"
  by (simp_all add: sched_inv_def one_ring_def)

lemma sched_inv_one_ring: "sched_inv s \<Longrightarrow> one_ring s"
  by (simp add: sched_inv_def)

lemma timer_callback_eq:
  assumes "sched_inv s"
  shows "timer_callback s = schedule (s\<lparr>tick := tick s + 1,
    procs := mapped (\<lambda>_. due (tick s + 1)) (\<lambda>q. q\<lparr>pstate := PROCESS_READY\<rparr>) (dom (procs s)) (procs s)\<rparr>)"
proof -
  have o: "one_ring (s\<lparr>tick := tick s + 1\<rparr>)"
    using sched_inv_irrelevant(1) [OF assms] by (rule sched_inv_one_ring)
  show ?thesis
    using one_ring_nonnull(2) [OF o]
      ring_update_queue [OF o, of "\<lambda>q. q\<lparr>pstate := PROCESS_READY\<rparr>" "\<lambda>_. due (tick s + 1)" False]
    by (simp add: timer_callback_def Let_def)
qed

lemma timer_callback_inv:
  assumes "sched_inv s"
  shows "\<exists>s'. timer_callback s = Some s' \<and> sched_inv s'"
  unfolding timer_callback_eq [OF assms]
  by (rule schedule_inv, rule procs_update_inv [OF sched_inv_irrelevant(1) [OF assms], where P = "\<lambda>_. due (tick s + 1)"
        and f = "\<lambda>q. q\<lparr>pstate := PROCESS_READY\<rparr>" and A = "dom (procs s)"]) simp_all

lemma post_signal_simps [simp]:
  "pnext (post_signal n q) = pnext q" "pid (post_signal n q) = pid q" "pgid (post_signal n q) = pgid q"
  "parent (post_signal n q) = parent q" "fd_table (post_signal n q) = fd_table q"
  "pstate (post_signal n q) = (if pstate q = PROCESS_WAITING then PROCESS_READY else pstate q)"
  "pending_signals (post_signal n q)
     = (if n = 0 then pending_signals q else pending_signals q OR sigbit (nat n))"
  by (simp_all add: post_signal_def Let_def)

lemma kill_all_eq:
  assumes "sched_inv s"
  shows "kill_all P n s = Some (if \<exists>p q. procs s p = Some q \<and> P p q then 0 else - ESRCH,
    s\<lparr>procs := mapped P (post_signal n) (dom (procs s)) (procs s)\<rparr>)"
  using ring_update_queue [OF sched_inv_one_ring [OF assms], of "post_signal n" P False]
    one_ring_nonnull(2) [OF sched_inv_one_ring [OF assms]]
  by (simp add: kill_all_def)

text \<open>Looking a process up by its identifier, from the head of the queue.\<close>

lemma ring_find_queue:
  assumes "one_ring s"
  obtains ys where "ring_find nul P (procs s) (ready_queue s) (ready_queue s) = Some (find (at P (procs s)) ys)"
    "set ys = dom (procs s)" "ring (procs s) (ready_queue s) (tl ys)" "ys \<noteq> []" "hd ys = ready_queue s"
proof -
  obtain xs where xs: "ring (procs s) (current_process s) xs"
      "ready_queue s \<in> set (current_process s # xs)" "dom (procs s) = set (current_process s # xs)"
    using assms(1) unfolding one_ring_def by blast
  then obtain ys where ys: "ring (procs s) (ready_queue s) ys" "set (ready_queue s # ys) = dom (procs s)"
    using ring_rotate by metis
  have "ring_find nul P (procs s) (ready_queue s) (ready_queue s)
      = Some (find (at P (procs s)) (ready_queue s # ys))"
    by (rule ring_find_lseg) (use ys(1) in \<open>auto simp: ring_def\<close>)
  then show ?thesis using ys by (intro that [of "ready_queue s # ys"]) auto
qed

lemma kill_one_cases:
  assumes "sched_inv s"
  shows "(\<exists>a q. procs s a = Some q \<and> pid q = word_of_int p \<and> kill_one p n s = Some (0, set_proc a (post_signal n q) s))
    \<or> (\<forall>a q. procs s a = Some q \<longrightarrow> pid q \<noteq> word_of_int p) \<and> kill_one p n s = Some (- ESRCH, s)"
proof -
  let ?P = "\<lambda>_ q. pid q = word_of_int p"
  obtain ys where ys: "ring_find True ?P (procs s) (ready_queue s) (ready_queue s) = Some (find (at ?P (procs s)) ys)"
      "set ys = dom (procs s)"
    using ring_find_queue [OF sched_inv_one_ring [OF assms]] by metis
  have rq: "ready_queue s \<noteq> 0" by (rule one_ring_nonnull(2) [OF sched_inv_one_ring [OF assms]])
  show ?thesis
  proof (cases "find (at ?P (procs s)) ys")
    case None
    then have "kill_one p n s = Some (- ESRCH, s)" using ys rq by (simp add: kill_one_def)
    moreover have "\<forall>a q. procs s a = Some q \<longrightarrow> pid q \<noteq> word_of_int p"
    proof (intro allI impI)
      fix a q assume a: "procs s a = Some q"
      then have "a \<in> set ys" using ys(2) by blast
      then show "pid q \<noteq> word_of_int p" using None a by (auto simp: find_None)
    qed
    ultimately show ?thesis by blast
  next
    case (Some a)
    then obtain q where q: "procs s a = Some q" "pid q = word_of_int p"
      using find_Some_mem [OF Some] by (auto elim: atE)
    then have "kill_one p n s = Some (0, set_proc a (post_signal n q) s)"
      using Some ys rq by (simp add: kill_one_def upd_proc_def)
    then show ?thesis using q by blast
  qed
qed

lemma post_signal_inv:
  assumes "sched_inv s" "procs s a = Some q"
  shows "sched_inv (set_proc a (post_signal n q) s)"
  by (rule sched_inv_set_proc [OF assms])
    (use sched_inv_running [OF assms] in \<open>auto split: if_splits\<close>)

lemma sys_kill_inv:
  assumes "sched_inv s"
  shows "\<exists>r s'. sys_kill p n s = Some (r, s') \<and> sched_inv s'"
proof -
  obtain c where c: "procs s (current_process s) = Some c" using sched_inv_ring [OF assms] by metis
  have all: "\<exists>r s'. kill_all P n s = Some (r, s') \<and> sched_inv s'" for P
    unfolding kill_all_eq [OF assms] by (auto intro!: procs_update_inv [OF assms] split: if_splits)
  have one: "\<exists>r s'. kill_one p' n s = Some (r, s') \<and> sched_inv s'" for p'
    using kill_one_cases [OF assms, of p' n] post_signal_inv [OF assms] assms by metis
  define p1 where "p1 = (if p = 0 then sint (pgid c) else p)"
  have eq: "sys_kill p n s = (if n < 0 \<or> n \<ge> int NSIG then Some (- EINVAL, s)
      else if p1 = -1 then kill_all (\<lambda>a q. pid q > 1 \<and> a \<noteq> current_process s) n s
      else if p1 < -1 then kill_all (\<lambda>_ q. pgid q = word_of_int (- p1)) n s
      else kill_one p1 n s)"
    using c by (simp add: sys_kill_def p1_def)
  show ?thesis unfolding eq using all one assms by simp
qed

lemma sleep_on_inv:
  assumes "sched_inv s"
  shows "\<exists>wq' s'. sleep_on mem_ok wq s = Some (wq', s') \<and> sched_inv s'"
proof -
  obtain c where c: "procs s (current_process s) = Some c" using sched_inv_ring [OF assms] by metis
  have "sched_inv (set_proc (current_process s) (c\<lparr>pstate := PROCESS_WAITING\<rparr>) s)"
    by (rule sched_inv_set_proc [OF assms c]) simp_all
  then obtain s' where "schedule (set_proc (current_process s) (c\<lparr>pstate := PROCESS_WAITING\<rparr>) s) = Some s'"
      "sched_inv s'" using schedule_inv by blast
  then show ?thesis using c assms by (simp add: sleep_on_def upd_proc_def)
qed

lemma wake_proc_inv:
  assumes "sched_inv s" "p = 0 \<or> procs s p \<noteq> None"
  shows "\<exists>s'. wake_proc p s = Some s' \<and> sched_inv s' \<and> dom (procs s') = dom (procs s)"
proof (cases "p = 0")
  case True
  then show ?thesis using assms(1) by (simp add: wake_proc_def)
next
  case False
  then obtain q where q: "procs s p = Some q" using assms(2) by blast
  then show ?thesis
    using False sched_inv_set_proc [OF assms(1) q, of "q\<lparr>pstate := PROCESS_READY\<rparr>"]
    by (auto simp: wake_proc_def upd_proc_def)
qed


subsection \<open>What schedule guarantees\<close>

lemma switched_same:
  assumes "switched b s s'" "procs s p = Some q"
  shows "\<exists>q'. procs s' p = Some q' \<and> sched_same q q'
    \<and> (p \<noteq> b \<longrightarrow> pstate q' = (if p = current_process s \<and> pstate q = PROCESS_RUNNING then PROCESS_READY else pstate q))
    \<and> (p = b \<longrightarrow> pstate q' = PROCESS_RUNNING \<and> time_remaining q' = time_slice q)"
proof -
  obtain o1 b1 where h: "procs s (current_process s) = Some o1" "procs s b = Some b1"
      "procs s' = (procs s)(current_process s \<mapsto> o1\<lparr>saved_esp := cpu_esp s,
           pstate := (if pstate o1 = PROCESS_RUNNING then PROCESS_READY else pstate o1)\<rparr>,
         b \<mapsto> b1\<lparr>pstate := PROCESS_RUNNING, time_remaining := time_slice b1,
           saved_esp := (if b = current_process s then cpu_esp s else saved_esp b1)\<rparr>)"
    using assms(1) unfolding switched_def by blast
  consider "p = b" | "p \<noteq> b" "p = current_process s" | "p \<noteq> b" "p \<noteq> current_process s" by blast
  then show ?thesis
  proof cases
    case 1
    then show ?thesis unfolding h(3) using assms(2) h(2) by (simp add: sched_sameI)
  next
    case 2
    then show ?thesis unfolding h(3) using assms(2) h(1) by (simp add: sched_same_intros)
  next
    case 3
    then show ?thesis unfolding h(3) using assms(2) by (simp add: sched_same_intros)
  qed
qed

lemma ticked_same:
  assumes "procs s (current_process s) = Some c" "procs s p = Some q"
  shows "\<exists>q'. procs (ticked s c) p = Some q' \<and> sched_same q q' \<and> pstate q' = pstate q
    \<and> time_slice q' = time_slice q"
  using assms by (auto simp: ticked_def sched_same_intros)

text \<open>What \<open>schedule\<close> leaves alone, and how states may change.\<close>

lemma schedule_frame:
  assumes "sched_inv s" "schedule s = Some s'"
  shows "descs s' = descs s \<and> vnodes s' = vnodes s \<and> node_calls s' = node_calls s \<and> next_pid s' = next_pid s
      \<and> ready_queue s' = ready_queue s \<and> tick s' = tick s \<and> kstack s' = kstack s"
    and "(procs s' p = None) = (procs s p = None)"
    and "procs s p = Some q \<Longrightarrow> \<exists>q'. procs s' p = Some q' \<and> sched_same q q'
      \<and> (pstate q \<notin> {PROCESS_READY, PROCESS_RUNNING} \<longrightarrow> pstate q' = pstate q)
      \<and> (pstate q \<in> {PROCESS_READY, PROCESS_RUNNING} \<longrightarrow> pstate q' \<in> {PROCESS_READY, PROCESS_RUNNING})"
proof -
  obtain xs c where x: "ring (procs s) (current_process s) xs" "procs s (current_process s) = Some c"
    using sched_inv_ring [OF assms(1)] by metis
  consider (same) "s' = ticked s c" | (renew) "s' = set_proc (current_process s) (c\<lparr>time_remaining := time_slice c\<rparr>) s"
    | (sw) b where "first_best (procs s) (current_process s) (xs @ [current_process s]) b" "switched b (ticked s c) s'"
    using schedule_cases [OF x] assms(2) by auto
  note cases = this
  show "descs s' = descs s \<and> vnodes s' = vnodes s \<and> node_calls s' = node_calls s \<and> next_pid s' = next_pid s
      \<and> ready_queue s' = ready_queue s \<and> tick s' = tick s \<and> kstack s' = kstack s"
    using cases by cases (auto simp: switched_def)
  have each: "\<exists>q'. procs s' p = Some q' \<and> sched_same q q'
      \<and> (pstate q \<notin> {PROCESS_READY, PROCESS_RUNNING} \<longrightarrow> pstate q' = pstate q)
      \<and> (pstate q \<in> {PROCESS_READY, PROCESS_RUNNING} \<longrightarrow> pstate q' \<in> {PROCESS_READY, PROCESS_RUNNING})"
    if q: "procs s p = Some q" for p q
    using cases
  proof cases
    case same
    then show ?thesis using ticked_same [OF x(2) q] by auto
  next
    case renew
    then show ?thesis using q x(2) by (auto simp: sched_same_intros)
  next
    case sw
    obtain q1 where q1: "procs (ticked s c) p = Some q1" "sched_same q q1" "pstate q1 = pstate q"
      using ticked_same [OF x(2) q] by blast
    obtain q' where q': "procs s' p = Some q'" "sched_same q1 q'"
        "p \<noteq> b \<longrightarrow> pstate q' = (if p = current_process s \<and> pstate q1 = PROCESS_RUNNING then PROCESS_READY else pstate q1)"
        "p = b \<longrightarrow> pstate q' = PROCESS_RUNNING"
      using switched_same [OF sw(2) q1(1)] by auto
    have "p = b \<longrightarrow> pstate q \<in> {PROCESS_READY, PROCESS_RUNNING}"
      using first_best_mem [OF sw(1)] q by (auto simp: at_def runnable_def)
    moreover have "sched_same q q'" by (rule sched_same_trans [OF q1(2) q'(2)])
    ultimately show ?thesis using q'(1,3,4) q1(3) by (intro exI [of _ q']) (auto split: if_splits)
  qed
  show "procs s p = Some q \<Longrightarrow> \<exists>q'. procs s' p = Some q' \<and> sched_same q q'
      \<and> (pstate q \<notin> {PROCESS_READY, PROCESS_RUNNING} \<longrightarrow> pstate q' = pstate q)
      \<and> (pstate q \<in> {PROCESS_READY, PROCESS_RUNNING} \<longrightarrow> pstate q' \<in> {PROCESS_READY, PROCESS_RUNNING})"
    by (rule each)
  have "dom (procs s') = dom (procs s)"
    using cases
  proof cases
    case same
    then show ?thesis using x(2) by (auto simp: ticked_def)
  next
    case renew
    then show ?thesis using x(2) by auto
  next
    case sw
    then show ?thesis using x(2) unfolding switched_def by (auto simp: ticked_def split: if_splits)
  qed
  then show "(procs s' p = None) = (procs s p = None)" by (metis domIff)
qed

text \<open>
  C7. \<open>schedule\<close> always returns. If the running process has ticks left and no ready process
  is more urgent, or if nothing can run, the current process stays; otherwise the new current
  process is the first, in ring order after the old one, of the most urgent runnable
  processes, it is marked running with a full time slice, and the old one becomes ready. No
  other field of any process changes, and the ring and the single-runner invariant are kept.
\<close>

theorem schedule_picks_best:
  assumes "sched_inv s" "ring (procs s) (current_process s) xs" "procs s (current_process s) = Some c"
  shows "\<exists>s'. schedule s = Some s' \<and> sched_inv s'
    \<and> (if keeps s c xs \<or> \<not> (\<exists>x \<in> set (xs @ [current_process s]). at (runnable (current_process s)) (procs s) x)
       then current_process s' = current_process s
       else first_best (procs s) (current_process s) (xs @ [current_process s]) (current_process s')
         \<and> (\<exists>b. procs s' (current_process s') = Some b \<and> pstate b = PROCESS_RUNNING
               \<and> time_remaining b = time_slice b))
    \<and> (\<forall>p q. procs s p = Some q \<longrightarrow> (\<exists>q'. procs s' p = Some q' \<and> sched_same q q'
         \<and> (p \<noteq> current_process s' \<longrightarrow> pstate q'
             = (if p = current_process s \<and> pstate q = PROCESS_RUNNING then PROCESS_READY else pstate q))))"
proof -
  obtain s' where s': "schedule s = Some s'" "sched_inv s'" using schedule_inv [OF assms(1)] by blast
  consider (stay) "s' = ticked s c" "keeps s c xs \<or> \<not> (\<exists>x \<in> set (xs @ [current_process s]). at (runnable (current_process s)) (procs s) x)"
    | (renew) "\<not> keeps s c xs" "first_best (procs s) (current_process s) (xs @ [current_process s]) (current_process s)"
        "pstate c = PROCESS_RUNNING" "s' = set_proc (current_process s) (c\<lparr>time_remaining := time_slice c\<rparr>) s"
    | (switch) b where "\<not> keeps s c xs" "first_best (procs s) (current_process s) (xs @ [current_process s]) b"
        "switched b (ticked s c) s'"
    using schedule_cases [OF assms(2,3)] s'(1) by auto
  then show ?thesis
  proof cases
    case stay
    have "\<exists>q'. procs s' p = Some q' \<and> sched_same q q' \<and> (p \<noteq> current_process s' \<longrightarrow> pstate q' = pstate q)"
      if "procs s p = Some q" for p q
      using ticked_same [OF assms(3) that] stay(1) by auto
    moreover have "\<not> (pstate q = PROCESS_RUNNING \<and> p = current_process s \<and> p \<noteq> current_process s')" for p q
      using stay(1) by simp
    ultimately have "\<forall>p q. procs s p = Some q \<longrightarrow> (\<exists>q'. procs s' p = Some q' \<and> sched_same q q'
         \<and> (p \<noteq> current_process s' \<longrightarrow> pstate q'
             = (if p = current_process s \<and> pstate q = PROCESS_RUNNING then PROCESS_READY else pstate q)))"
      by metis
    then show ?thesis using s' stay by simp
  next
    case renew
    have "at (runnable (current_process s)) (procs s) (current_process s)"
      using first_best_mem [OF renew(2)] by simp
    moreover have "\<exists>q'. procs s' p = Some q' \<and> sched_same q q' \<and> pstate q' = pstate q" if "procs s p = Some q" for p q
      using that renew assms(3) by (auto simp: sched_same_intros)
    moreover have "current_process s' = current_process s" using renew(4) by simp
    ultimately have "\<forall>p q. procs s p = Some q \<longrightarrow> (\<exists>q'. procs s' p = Some q' \<and> sched_same q q'
         \<and> (p \<noteq> current_process s' \<longrightarrow> pstate q'
             = (if p = current_process s \<and> pstate q = PROCESS_RUNNING then PROCESS_READY else pstate q)))"
      by metis
    then show ?thesis using s' renew assms(3) by simp
  next
    case switch
    have cb: "current_process s' = b" using switch(3) unfolding switched_def by blast
    have mem: "b \<in> set (xs @ [current_process s])" "at (runnable (current_process s)) (procs s) b"
      using first_best_mem [OF switch(2)] by auto
    have each: "\<exists>q'. procs s' p = Some q' \<and> sched_same q q'
        \<and> (p \<noteq> current_process s' \<longrightarrow> pstate q' = (if p = current_process s \<and> pstate q = PROCESS_RUNNING then PROCESS_READY else pstate q))
        \<and> (p = current_process s' \<longrightarrow> pstate q' = PROCESS_RUNNING \<and> time_remaining q' = time_slice q)"
      if q: "procs s p = Some q" for p q
    proof -
      obtain q1 where q1: "procs (ticked s c) p = Some q1" "sched_same q q1" "pstate q1 = pstate q"
          "time_slice q1 = time_slice q"
        using ticked_same [OF assms(3) q] by blast
      show ?thesis using switched_same [OF switch(3) q1(1)] q1(2-4) cb sched_same_trans
        by (metis ticked_simps(1))
    qed
    obtain b0 where b0: "procs s b = Some b0" using mem(2) by (auto elim: atE)
    have "\<exists>b1. procs s' b = Some b1 \<and> pstate b1 = PROCESS_RUNNING \<and> time_remaining b1 = time_slice b1"
      using each [OF b0] cb by (auto simp: sched_same_def)
    moreover have "\<forall>p q. procs s p = Some q \<longrightarrow> (\<exists>q'. procs s' p = Some q' \<and> sched_same q q'
         \<and> (p \<noteq> current_process s' \<longrightarrow> pstate q'
             = (if p = current_process s \<and> pstate q = PROCESS_RUNNING then PROCESS_READY else pstate q)))"
      using each by blast
    ultimately show ?thesis using s' switch(1,2) mem cb by auto
  qed
qed


text \<open>A small system for the witnesses: three processes at 0x100, 0x200 and 0x300.\<close>

definition demo_proc :: process where
  "demo_proc = \<lparr>pid = 0, pgid = 1, sid = 1, pstate = PROCESS_READY, exit_code = 0, parent = 0,
     saved_esp = 0, kernel_stack_top = 0, page_directory = 0x2000, entry_point = 0, user_stack_top = 0,
     heap_end = 0, fd_table = replicate 16 0, uid = 0, euid = 0, suid = 0, gid = 0, egid = 0, sgid = 0,
     priority = 120, time_slice = 10, time_remaining = 10, sleep_until = 0, alarm_time = 0,
     signal_actions = replicate 64 \<lparr>sa_handler = 0, sa_mask = 0, sa_flags = 0, sa_restorer = 0\<rparr>,
     pending_signals = 0, signal_mask = 0,
     saved_context = \<lparr>r_ds = 0, r_edi = 0, r_esi = 0, r_ebp = 0, r_esp = 0, r_ebx = 0, r_edx = 0, r_ecx = 0,
       r_eax = 0, r_int_no = 0, r_err_code = 0, r_eip = 0, r_cs = 0, r_eflags = 0, r_useresp = 0, r_ss = 0\<rparr>,
     in_signal_handler = False, utime = 0, stime = 0, cutime = 0, cstime = 0, start_time = 0,
     cwd = ''/'', pledges = 0xFFFFFFFF, unveils = [], pnext = 0\<rparr>"

definition demo_kst :: kst where
  "demo_kst = \<lparr>current_process = 0x100, ready_queue = 0x100, next_pid = 3,
     procs = [0x100 \<mapsto> demo_proc\<lparr>pid := 0, pstate := PROCESS_RUNNING, time_remaining := 1, pnext := 0x200\<rparr>,
              0x200 \<mapsto> demo_proc\<lparr>pid := 1, parent := 0x100, saved_esp := 0x9000, pnext := 0x300\<rparr>,
              0x300 \<mapsto> demo_proc\<lparr>pid := 2, parent := 0x100, saved_esp := 0xA000, pnext := 0x100\<rparr>],
     descs = (\<lambda>_. None),
     vnodes = (\<lambda>_. \<lparr>vn_name = '''', vn_type = 0, vn_inode = 0, vn_size = 0, vn_mask = 0, vn_uid = 0, vn_gid = 0, vn_flags = 1\<rparr>),
     node_calls = [], kstack = (\<lambda>_. 0), tick = 0, vmem = demo_vm,
     cpu_esp = 0x8000, tss_esp0 = 0\<rparr>"

lemma demo_simps [simp]:
  "current_process demo_kst = 0x100" "ready_queue demo_kst = 0x100" "next_pid demo_kst = 3"
  "descs demo_kst = (\<lambda>_. None)" "node_calls demo_kst = []" "tick demo_kst = 0" "cpu_esp demo_kst = 0x8000"
  "vmem demo_kst = demo_vm"
  "pid demo_proc = 0" "pgid demo_proc = 1" "pstate demo_proc = PROCESS_READY" "time_slice demo_proc = 10" "time_remaining demo_proc = 10"
  "priority demo_proc = 120" "parent demo_proc = 0" "fd_table demo_proc = replicate 16 0"
  by (simp_all add: demo_kst_def demo_proc_def)

lemma demo_procs:
  "procs demo_kst 0x100 = Some (demo_proc\<lparr>pid := 0, pstate := PROCESS_RUNNING, time_remaining := 1, pnext := 0x200\<rparr>)"
  "procs demo_kst 0x200 = Some (demo_proc\<lparr>pid := 1, parent := 0x100, saved_esp := 0x9000, pnext := 0x300\<rparr>)"
  "procs demo_kst 0x300 = Some (demo_proc\<lparr>pid := 2, parent := 0x100, saved_esp := 0xA000, pnext := 0x100\<rparr>)"
  "dom (procs demo_kst) = {0x100, 0x200, 0x300}"
  by (auto simp: demo_kst_def)

lemma demo_ring: "ring (procs demo_kst) 0x100 [0x200, 0x300]"
  by (simp add: ring_def demo_procs)

lemma demo_procs_cases:
  assumes "procs demo_kst p = Some q"
  shows "p = 0x100 \<and> q = demo_proc\<lparr>pid := 0, pstate := PROCESS_RUNNING, time_remaining := 1, pnext := 0x200\<rparr>
    \<or> p = 0x200 \<and> q = demo_proc\<lparr>pid := 1, parent := 0x100, saved_esp := 0x9000, pnext := 0x300\<rparr>
    \<or> p = 0x300 \<and> q = demo_proc\<lparr>pid := 2, parent := 0x100, saved_esp := 0xA000, pnext := 0x100\<rparr>"
proof -
  have "p \<in> {0x100, 0x200, 0x300}" using assms demo_procs(4) by blast
  then show ?thesis using assms demo_procs(1-3) by auto
qed

lemma demo_sched_inv: "sched_inv demo_kst"
proof -
  have "one_ring demo_kst"
    unfolding one_ring_def using demo_ring demo_procs(4) by (intro exI [of _ "[0x200, 0x300]"]) simp
  moreover have "p = current_process demo_kst" if "procs demo_kst p = Some q" "pstate q = PROCESS_RUNNING" for p q
    using demo_procs_cases [OF that(1)] that(2) by auto
  ultimately show ?thesis unfolding sched_inv_def by blast
qed

theorem schedule_picks_best_witness:
  "\<exists>s'. schedule demo_kst = Some s' \<and> sched_inv s' \<and> current_process s' = 0x200"
proof -
  let ?s = demo_kst and ?c = "demo_proc\<lparr>pid := 0, pstate := PROCESS_RUNNING, time_remaining := 1, pnext := 0x200\<rparr>"
  have nk: "\<not> keeps ?s ?c [0x200, 0x300]" by (simp add: keeps_def)
  have run: "at (runnable 0x100) (procs ?s) 0x200" "at (runnable 0x100) (procs ?s) 0x300"
      "at (runnable 0x100) (procs ?s) 0x100"
    by (simp_all add: at_def runnable_def demo_procs)
  have pr: "prio (procs ?s) 0x200 = 120" "prio (procs ?s) 0x300 = 120" "prio (procs ?s) 0x100 = 120"
    by (simp_all add: demo_procs)
  have uniq: "b = 0x200" if fb: "first_best (procs ?s) 0x100 [0x200, 0x300, 0x100] b" for b
  proof -
    from fb obtain as bs where ab: "[0x200, 0x300, 0x100] = as @ b # bs"
        "\<forall>x \<in> set as. at (runnable 0x100) (procs ?s) x \<longrightarrow> prio (procs ?s) b < prio (procs ?s) x"
      unfolding first_best_def by blast
    have "b \<in> {0x200, 0x300, 0x100}" using arg_cong [OF ab(1), of set] by auto
    then have "prio (procs ?s) b = 120" using pr by auto
    then show ?thesis using ab run pr by (cases as) auto
  qed
  have "procs ?s (current_process ?s) = Some ?c" by (simp add: demo_procs)
  moreover have "ring (procs ?s) (current_process ?s) [0x200, 0x300]" using demo_ring by simp
  moreover have "\<exists>x \<in> set ([0x200, 0x300] @ [current_process ?s]). at (runnable (current_process ?s)) (procs ?s) x"
    using run by auto
  ultimately have "\<exists>s'. schedule ?s = Some s' \<and> sched_inv s'
      \<and> first_best (procs ?s) 0x100 [0x200, 0x300, 0x100] (current_process s')"
    using schedule_picks_best [OF demo_sched_inv, of "[0x200, 0x300]" ?c] nk by auto
  then show ?thesis using uniq by blast
qed


subsection \<open>Round robin\<close>

fun schedule_n :: "nat \<Rightarrow> kst \<Rightarrow> kst option" where
  "schedule_n 0 s = Some s"
| "schedule_n (Suc n) s = do { s1 \<leftarrow> schedule s; schedule_n n s1 }"

lemma schedule_n_add: "schedule_n (m + n) s = do { s1 \<leftarrow> schedule_n m s; schedule_n n s1 }"
  by (induction m arbitrary: s) (auto split: bind_splits)

text \<open>All processes ready with the same priority and quantum, the current one running.\<close>

definition peers :: "int \<Rightarrow> int \<Rightarrow> kst \<Rightarrow> u32 list \<Rightarrow> bool" where
  "peers k T s xs \<longleftrightarrow> ring (procs s) (current_process s) xs
     \<and> (\<forall>p \<in> set (current_process s # xs). \<exists>q. procs s p = Some q \<and> priority q = k \<and> time_slice q = T
          \<and> pstate q = (if p = current_process s then PROCESS_RUNNING else PROCESS_READY))"

lemma peers_current:
  assumes "peers k T s xs"
  obtains c where "procs s (current_process s) = Some c" "pstate c = PROCESS_RUNNING" "priority c = k"
    "time_slice c = T" "ring (procs s) (current_process s) xs"
  using assms unfolding peers_def by fastforce

lemma peers_other:
  assumes "peers k T s xs" "p \<in> set xs"
  shows "\<exists>q. procs s p = Some q \<and> priority q = k \<and> time_slice q = T \<and> pstate q = PROCESS_READY"
proof -
  have "p \<noteq> current_process s" using assms unfolding peers_def ring_def by auto
  then show ?thesis using assms unfolding peers_def by fastforce
qed

lemma peers_not_higher:
  assumes "peers k T s xs" "priority c = k"
  shows "\<not> (\<exists>x \<in> set xs. at (ready_higher c) (procs s) x)"
proof
  assume "\<exists>x \<in> set xs. at (ready_higher c) (procs s) x"
  then obtain x where "x \<in> set xs" "at (ready_higher c) (procs s) x" by blast
  then show False using peers_other [OF assms(1)] assms(2) by (fastforce simp: ready_higher_def)
qed

lemma peers_tick:
  assumes "peers k T s xs" "procs s (current_process s) = Some c" "time_remaining c > 1"
  shows "schedule s = Some (ticked s c)" "peers k T (ticked s c) xs"
    "\<exists>c'. procs (ticked s c) (current_process s) = Some c' \<and> time_remaining c' = time_remaining c - 1"
proof -
  obtain c0 where c0: "procs s (current_process s) = Some c0" "pstate c0 = PROCESS_RUNNING" "priority c0 = k"
      "ring (procs s) (current_process s) xs"
    using peers_current [OF assms(1)] by metis
  then have c: "pstate c = PROCESS_RUNNING" "priority c = k" using assms(2) by simp_all
  have "keeps s c xs" using c assms(3) peers_not_higher [OF assms(1) c(2)] by (simp add: keeps_def)
  then show "schedule s = Some (ticked s c)" using schedule_cases [OF c0(4) assms(2)] by auto
  have "ring (procs (ticked s c)) (current_process s) xs"
    by (rule ring_cong [OF c0(4)]) (use assms(2) in \<open>auto simp: ticked_def\<close>)
  then show "peers k T (ticked s c) xs"
    using assms(1,2) unfolding peers_def ticked_def by auto
  show "\<exists>c'. procs (ticked s c) (current_process s) = Some c' \<and> time_remaining c' = time_remaining c - 1"
    using ticked_current [OF assms(2)] c by simp
qed

lemma peers_switch:
  assumes "peers k T s (y # ys)" "procs s (current_process s) = Some c" "time_remaining c \<le> 1"
  shows "\<exists>s'. schedule s = Some s' \<and> current_process s' = y \<and> peers k T s' (ys @ [current_process s])
    \<and> (\<exists>c'. procs s' y = Some c' \<and> time_remaining c' = T)"
proof -
  define old where "old = current_process s"
  obtain c0 where c0: "procs s (current_process s) = Some c0" "pstate c0 = PROCESS_RUNNING" "priority c0 = k"
      "time_slice c0 = T" "ring (procs s) (current_process s) (y # ys)"
    using peers_current [OF assms(1)] by metis
  then have c: "pstate c = PROCESS_RUNNING" "priority c = k" "time_slice c = T" using assms(2) by simp_all
  have d: "y \<noteq> old" "old \<notin> set ys" "y \<notin> set ys" using c0(5) unfolding ring_def old_def by auto
  have nk: "\<not> keeps s c (y # ys)" using assms(3) by (simp add: keeps_def)
  have other: "\<exists>q. procs s p = Some q \<and> priority q = k \<and> time_slice q = T \<and> pstate q = PROCESS_READY"
    if "p \<in> set (y # ys)" for p
    using peers_other [OF assms(1) that] .
  have run: "at (runnable old) (procs s) p \<and> prio (procs s) p = k" if "p \<in> set ((y # ys) @ [old])" for p
  proof (cases "p = old")
    case True
    then show ?thesis using c assms(2) by (simp add: old_def runnable_def)
  next
    case False
    then have "p \<in> set (y # ys)" using that by simp
    then obtain q where "procs s p = Some q" "priority q = k" "pstate q = PROCESS_READY"
      using other by blast
    then show ?thesis by (simp add: runnable_def)
  qed
  have first: "b = y" if "first_best (procs s) old ((y # ys) @ [old]) b" for b
  proof -
    from that obtain as bs where ab: "(y # ys) @ [old] = as @ b # bs"
        "\<forall>x \<in> set as. at (runnable old) (procs s) x \<longrightarrow> prio (procs s) b < prio (procs s) x"
      unfolding first_best_def by blast
    show ?thesis
    proof (cases as)
      case Nil
      then show ?thesis using ab(1) by simp
    next
      case (Cons a as')
      then have "a \<in> set ((y # ys) @ [old])" "b \<in> set ((y # ys) @ [old])" using ab(1) by (metis in_set_conv_decomp list.set_intros(1) append_Cons, metis in_set_conv_decomp)
      then show ?thesis using ab(2) run Cons by fastforce
    qed
  qed
  obtain s' where s': "schedule s = Some s'" "switched y (ticked s c) s'"
    using schedule_cases [OF c0(5) assms(2), folded old_def] nk run [of y] first d(1) by auto
  have cur: "current_process s' = y" using s'(2) unfolding switched_def by blast
  have each: "\<exists>q'. procs s' p = Some q' \<and> priority q' = k \<and> time_slice q' = T \<and> pnext q' = pnext q
      \<and> pstate q' = (if p = y then PROCESS_RUNNING else PROCESS_READY) \<and> (p = y \<longrightarrow> time_remaining q' = T)"
    if p: "p \<in> set (old # y # ys)" and q: "procs s p = Some q" for p q
  proof -
    have qk: "priority q = k" "time_slice q = T" and st: "pstate q = (if p = old then PROCESS_RUNNING else PROCESS_READY)"
      using other [of p] p q c assms(2) d unfolding old_def by (auto split: if_splits)
    obtain q1 where q1: "procs (ticked s c) p = Some q1" "sched_same q q1" "pstate q1 = pstate q" "time_slice q1 = time_slice q"
      using ticked_same [OF assms(2) q] by blast
    obtain q2 where q2: "procs s' p = Some q2" "sched_same q1 q2"
        "p \<noteq> y \<longrightarrow> pstate q2 = (if p = old \<and> pstate q1 = PROCESS_RUNNING then PROCESS_READY else pstate q1)"
        "p = y \<longrightarrow> pstate q2 = PROCESS_RUNNING \<and> time_remaining q2 = time_slice q1"
      using switched_same [OF s'(2) q1(1)] unfolding old_def by auto
    have "sched_same q q2" using q1(2) q2(2) by (rule sched_same_trans)
    then have "priority q2 = k" "time_slice q2 = T" "pnext q2 = pnext q"
      using qk unfolding sched_same_def by auto
    then show ?thesis using q1(3,4) q2 st qk by auto
  qed
  have "ring (procs s) y (ys @ [old])"
  proof -
    have "lseg (procs s) old ([old] @ (y # ys)) old" using c0(5) unfolding ring_def old_def by simp
    then obtain m where "lseg (procs s) old [old] m" "lseg (procs s) m (y # ys) old" unfolding lseg_append by blast
    moreover from this have "m = y" by simp
    ultimately have "lseg (procs s) y ((y # ys) @ [old]) y" unfolding lseg_append by blast
    then show ?thesis using c0(5) d unfolding ring_def old_def by auto
  qed
  then have "ring (procs s') y (ys @ [old])"
    by (rule ring_cong) (use each in fastforce)
  moreover have mem: "\<exists>q. procs s p = Some q" if "p \<in> set (old # y # ys)" for p
    using ring_mem [OF c0(5)] that unfolding old_def by blast
  ultimately have "peers k T s' (ys @ [old])"
    unfolding peers_def cur using each mem by fastforce
  moreover have "\<exists>c'. procs s' y = Some c' \<and> time_remaining c' = T"
    using each [of y] mem [of y] by auto
  ultimately show ?thesis using s'(1) cur unfolding old_def by blast
qed


lemma peers_quantum:
  assumes "peers k T s (y # ys)" "procs s (current_process s) = Some c" "time_remaining c = int (Suc n)"
  shows "\<exists>s'. schedule_n (Suc n) s = Some s' \<and> current_process s' = y \<and> peers k T s' (ys @ [current_process s])
    \<and> (\<exists>c'. procs s' y = Some c' \<and> time_remaining c' = T)"
  using assms
proof (induction n arbitrary: s c)
  case 0
  then show ?case using peers_switch [OF 0(1,2)] by auto
next
  case (Suc n)
  then have gt: "time_remaining c > 1" by simp
  obtain c' where c': "procs (ticked s c) (current_process s) = Some c'" "time_remaining c' = int (Suc n)"
    using peers_tick(3) [OF Suc.prems(1,2) gt] Suc.prems(3) by auto
  show ?case
    using Suc.IH [OF peers_tick(2) [OF Suc.prems(1,2) gt], of c'] c' peers_tick(1) [OF Suc.prems(1,2) gt]
    by simp
qed

lemma peers_rounds:
  assumes "peers k (int (Suc t)) s xs" "procs s (current_process s) = Some c" "time_remaining c = int (Suc t)"
    and "j < length xs"
  shows "\<exists>s'. schedule_n (Suc j * Suc t) s = Some s' \<and> current_process s' = xs ! j"
  using assms
proof (induction j arbitrary: s c xs)
  case 0
  then obtain y ys where "xs = y # ys" by (cases xs) auto
  then show ?case using peers_quantum [of k "int (Suc t)" s y ys c t] 0 by auto
next
  case (Suc j)
  then obtain y ys where ys: "xs = y # ys" by (cases xs) auto
  obtain s1 c1 where s1: "schedule_n (Suc t) s = Some s1" "current_process s1 = y"
      "peers k (int (Suc t)) s1 (ys @ [current_process s])" "procs s1 y = Some c1" "time_remaining c1 = int (Suc t)"
    using peers_quantum [of k "int (Suc t)" s y ys c t] Suc.prems ys by auto
  have "j < length (ys @ [current_process s])" using Suc.prems(4) ys by simp
  then obtain s' where "schedule_n (Suc j * Suc t) s1 = Some s'"
      "current_process s' = (ys @ [current_process s]) ! j"
    using Suc.IH [OF s1(3), of c1] s1 by auto
  moreover have "(ys @ [current_process s]) ! j = xs ! Suc j" using Suc.prems(4) ys by (simp add: nth_append)
  moreover have "schedule_n (Suc (Suc j) * Suc t) s = schedule_n (Suc j * Suc t) s1"
  proof -
    have "Suc (Suc j) * Suc t = Suc t + Suc j * Suc t" by simp
    then show ?thesis by (simp only: schedule_n_add s1(1) Option.bind.bind_lunit)
  qed
  ultimately show ?case by metis
qed

text \<open>
  C8. No starvation among equals: when all processes are ready with one priority and one
  quantum of \<open>t + 1\<close> ticks and the current one starts its quantum, the process that is \<open>j + 1\<close>
  places after it in the ring runs after exactly \<open>(j + 1) * (t + 1)\<close> calls of \<open>schedule\<close>.
\<close>

theorem schedule_round_robin:
  assumes "peers k (int (Suc t)) s xs" "procs s (current_process s) = Some c"
    "time_remaining c = int (Suc t)" "j < length xs"
  shows "\<exists>s'. schedule_n (Suc j * Suc t) s = Some s' \<and> current_process s' = xs ! j"
  by (rule peers_rounds [OF assms])

definition demo_peers :: kst where
  "demo_peers = set_proc 0x100 (demo_proc\<lparr>pid := 0, pstate := PROCESS_RUNNING, pnext := 0x200\<rparr>) demo_kst"

theorem schedule_round_robin_witness:
  "\<exists>s'. schedule_n 20 demo_peers = Some s' \<and> current_process s' = 0x300"
proof -
  have "ring (procs demo_peers) 0x100 [0x200, 0x300]"
    by (rule ring_cong [OF demo_ring]) (auto simp: demo_peers_def demo_procs)
  then have "peers 120 (int (Suc 9)) demo_peers [0x200, 0x300]"
    by (auto simp: peers_def demo_peers_def demo_procs)
  then show ?thesis
    using schedule_round_robin [of 120 9 demo_peers "[0x200, 0x300]"
        "demo_proc\<lparr>pid := 0, pstate := PROCESS_RUNNING, pnext := 0x200\<rparr>" 1]
    by (simp add: demo_peers_def)
qed

text \<open>
  A process that was put to sleep while nothing else could run stays current; once it is
  woken it is ready but not running, and if \<open>schedule\<close> then picks it again it switches from the
  process to itself: the stack pointer that is loaded is the one saved at the process's last
  switch, not the live one (the arguments of \<open>switch_task\<close> are read before it saves).
\<close>

theorem schedule_self_switch_stale:
  assumes "sched_inv s" "ring (procs s) (current_process s) xs" "procs s (current_process s) = Some c"
    "pstate c = PROCESS_READY" "\<forall>x \<in> set xs. \<not> at (runnable (current_process s)) (procs s) x"
  shows "\<exists>s' c'. schedule s = Some s' \<and> current_process s' = current_process s
    \<and> cpu_esp s' = saved_esp c \<and> procs s' (current_process s) = Some c' \<and> saved_esp c' = cpu_esp s"
proof -
  have nk: "\<not> keeps s c xs" using assms(4) by (simp add: keeps_def)
  have run: "at (runnable (current_process s)) (procs s) (current_process s)"
    using assms(3,4) by (simp add: runnable_def)
  have only: "b = current_process s" if "first_best (procs s) (current_process s) (xs @ [current_process s]) b" for b
    using first_best_mem [OF that] assms(5) by auto
  obtain s' where s': "schedule s = Some s'" "switched (current_process s) (ticked s c) s'"
    using schedule_cases [OF assms(2,3)] nk run only assms(4) by auto
  have "ticked s c = s" using assms(4) by (simp add: ticked_def)
  then show ?thesis using s' assms(3) unfolding switched_def by auto
qed

definition demo_alone :: kst where
  "demo_alone = demo_kst\<lparr>procs := [0x100 \<mapsto> demo_proc\<lparr>saved_esp := 0x7000, pnext := 0x100\<rparr>]\<rparr>"

theorem schedule_self_switch_stale_witness:
  "\<exists>s'. schedule demo_alone = Some s' \<and> cpu_esp demo_alone = 0x8000 \<and> cpu_esp s' = 0x7000"
proof -
  have p: "procs demo_alone = [0x100 \<mapsto> demo_proc\<lparr>saved_esp := 0x7000, pnext := 0x100\<rparr>]"
    by (simp add: demo_alone_def)
  have r: "ring (procs demo_alone) (current_process demo_alone) []"
    by (simp add: demo_alone_def ring_def)
  have i: "sched_inv demo_alone"
    using r p unfolding sched_inv_def one_ring_def
    by (auto simp: demo_alone_def split: if_splits intro!: exI [of _ "[]"])
  have "procs demo_alone (current_process demo_alone) = Some (demo_proc\<lparr>saved_esp := 0x7000, pnext := 0x100\<rparr>)"
    by (simp add: demo_alone_def)
  from schedule_self_switch_stale [OF i r this] show ?thesis by (auto simp: demo_alone_def)
qed

subsection \<open>What sys_kill does\<close>

text \<open>
  C12. \<open>sys_kill\<close> in every case: a signal outside 0..63 gives \<open>-EINVAL\<close> and changes nothing. Otherwise the
  argument 0 stands for the group number of the caller, read as a signed number, and what follows
  depends on the number \<open>q\<close> that results. For \<open>q \<ge> 0\<close> the call reaches exactly one process whose pid is
  \<open>q\<close> and returns 0, or changes nothing and returns \<open>-ESRCH\<close> when there is none; so \<open>sys_kill(0, n)\<close>
  reaches the one process whose pid is the group number, and not the group. For \<open>q < -1\<close> it reaches
  every process of group \<open>-q\<close>, for \<open>q = -1\<close> every process but the caller and the pids 0 and 1,
  and returns 0 when there is such a process and \<open>-ESRCH\<close> when there is none. To reach a process is to mark the
  signal pending, unless it is 0, and to make the process ready if it waits. No other process changes.
\<close>

theorem sys_kill_delivers:
  assumes "sched_inv s" "procs s (current_process s) = Some c" "q = (if p = 0 then sint (pgid c) else p)"
  shows "(n < 0 \<or> n \<ge> int NSIG \<longrightarrow> sys_kill p n s = Some (- EINVAL, s))
    \<and> (0 \<le> n \<and> n < int NSIG \<and> q \<ge> 0 \<longrightarrow>
        (\<exists>a r. procs s a = Some r \<and> pid r = word_of_int q \<and> sys_kill p n s = Some (0, set_proc a (post_signal n r) s))
        \<or> (\<forall>a r. procs s a = Some r \<longrightarrow> pid r \<noteq> word_of_int q) \<and> sys_kill p n s = Some (- ESRCH, s))
    \<and> (0 \<le> n \<and> n < int NSIG \<and> q < -1 \<longrightarrow> sys_kill p n s
        = Some (if \<exists>a r. procs s a = Some r \<and> pgid r = word_of_int (- q) then 0 else - ESRCH,
            s\<lparr>procs := mapped (\<lambda>_ r. pgid r = word_of_int (- q)) (post_signal n) UNIV (procs s)\<rparr>))
    \<and> (0 \<le> n \<and> n < int NSIG \<and> q = -1 \<longrightarrow> sys_kill p n s
        = Some (if \<exists>a r. procs s a = Some r \<and> pid r > 1 \<and> a \<noteq> current_process s then 0 else - ESRCH,
            s\<lparr>procs := mapped (\<lambda>a r. pid r > 1 \<and> a \<noteq> current_process s) (post_signal n) UNIV (procs s)\<rparr>))"
proof -
  have dom: "mapped P f (dom (procs s)) (procs s) = mapped P f UNIV (procs s)" for P f
    by (auto simp: mapped_def fun_eq_iff at_def split: option.splits)
  have eq: "sys_kill p n s = (if n < 0 \<or> n \<ge> int NSIG then Some (- EINVAL, s)
      else if q = -1 then kill_all (\<lambda>a r. pid r > 1 \<and> a \<noteq> current_process s) n s
      else if q < -1 then kill_all (\<lambda>_ r. pgid r = word_of_int (- q)) n s
      else kill_one q n s)"
    using assms(2,3) by (simp add: sys_kill_def)
  show ?thesis
  proof (intro conjI)
    show "n < 0 \<or> n \<ge> int NSIG \<longrightarrow> sys_kill p n s = Some (- EINVAL, s)" by (simp add: eq)
  next
    have "sys_kill p n s = kill_one q n s" if "0 \<le> n" "n < int NSIG" "q \<ge> 0" using that by (simp add: eq)
    then show "0 \<le> n \<and> n < int NSIG \<and> q \<ge> 0 \<longrightarrow>
        (\<exists>a r. procs s a = Some r \<and> pid r = word_of_int q \<and> sys_kill p n s = Some (0, set_proc a (post_signal n r) s))
        \<or> (\<forall>a r. procs s a = Some r \<longrightarrow> pid r \<noteq> word_of_int q) \<and> sys_kill p n s = Some (- ESRCH, s)"
      using kill_one_cases [OF assms(1), of q n] by metis
  qed (simp_all add: eq kill_all_eq [OF assms(1)] dom)
qed

text \<open>
  On the sample state, whose processes are all of group 1: the argument 0 reaches the process with pid 1 only, \<open>-1\<close>
  finds the process with pid 2, and there is no group 7.
\<close>

theorem sys_kill_delivers_witness:
  "sys_kill 0 15 demo_kst = Some (0, set_proc 0x200 (post_signal 15 (demo_proc\<lparr>pid := 1, parent := 0x100, saved_esp := 0x9000, pnext := 0x300\<rparr>)) demo_kst)
   \<and> (\<exists>s'. sys_kill (-1) 15 demo_kst = Some (0, s')) \<and> (\<exists>s'. sys_kill (-7) 15 demo_kst = Some (- ESRCH, s'))"
proof -
  let ?c = "demo_proc\<lparr>pid := 0, pstate := PROCESS_RUNNING, time_remaining := 1, pnext := 0x200\<rparr>"
  have c: "procs demo_kst (current_process demo_kst) = Some ?c" by (simp add: demo_procs)
  note k = sys_kill_delivers [OF demo_sched_inv c refl, where n = 15]
  have "(1 :: int) = (if 0 = (0 :: int) then sint (pgid ?c) else 0)" by simp
  note k0 = sys_kill_delivers [OF demo_sched_inv c this, of 15, THEN conjunct2, THEN conjunct1]
  have "\<exists>a r. procs demo_kst a = Some r \<and> pid r = 1 \<and> sys_kill 0 15 demo_kst = Some (0, set_proc a (post_signal 15 r) demo_kst)"
    using k0 demo_procs(2) by fastforce
  then have 0: "sys_kill 0 15 demo_kst = Some (0, set_proc 0x200 (post_signal 15 (demo_proc\<lparr>pid := 1, parent := 0x100, saved_esp := 0x9000, pnext := 0x300\<rparr>)) demo_kst)"
    using demo_procs_cases by fastforce
  have g: "\<not> (\<exists>a r. procs demo_kst a = Some r \<and> pgid r = 7)" using demo_procs_cases by fastforce
  have o: "\<exists>a r. procs demo_kst a = Some r \<and> pid r > 1 \<and> a \<noteq> current_process demo_kst"
    by (intro exI [of _ "0x300"] exI [of _ "demo_proc\<lparr>pid := 2, parent := 0x100, saved_esp := 0xA000, pnext := 0x100\<rparr>"])
      (simp add: demo_procs)
  show ?thesis using 0 k [where p = "-1"] k [where p = "-7"] g o by simp
qed

end
