(* ===== verification/Fd.thy ===== *)
theory Fd
  imports Sched "HOL-Library.Sublist"
begin

text \<open>
  File descriptors: the system calls of \<open>syscall.cpp\<close> and \<open>file_ops.cpp\<close> that open, share,
  move and close the file descriptions of the current process. Path resolution
  (\<open>vfs_resolve_path\<close>) and the node's own \<open>read\<close>, \<open>write\<close> functions are arguments; a call
  through \<open>node->open\<close> or \<open>node->close\<close> is recorded in \<open>node_calls\<close>. The invariant is that
  the reference count of every description is the number of descriptor slots, in all
  processes, that hold it.
\<close>

subsection \<open>Checks\<close>

definition PLEDGE_STDIO :: u32 where "PLEDGE_STDIO = 0x01"
definition PLEDGE_RPATH :: u32 where "PLEDGE_RPATH = 0x02"
definition PLEDGE_WPATH :: u32 where "PLEDGE_WPATH = 0x04"
definition PLEDGE_CPATH :: u32 where "PLEDGE_CPATH = 0x08"
definition PLEDGE_EXEC :: u32 where "PLEDGE_EXEC = 0x10"
definition PLEDGE_PROC :: u32 where "PLEDGE_PROC = 0x20"

abbreviation O_CREAT :: u32 where "O_CREAT \<equiv> 0x40"

definition validate_user_pointer :: "u32 \<Rightarrow> u32 \<Rightarrow> bool" where
  "validate_user_pointer p sz \<longleftrightarrow> \<not> p < 0x20000000 \<and> \<not> p + sz < p"

definition check_unveil :: "string \<Rightarrow> u32 \<Rightarrow> process \<Rightarrow> bool" where
  "check_unveil path needed c \<longleftrightarrow> unveils c = []
     \<or> (\<exists>u \<in> set (unveils c). prefix (fst u) path \<and> snd u AND needed = needed)"

text \<open>\<open>fd >= 0 && fd < MAX_PROCESS_FILES && current_process->fd_table[fd]\<close>.\<close>

definition fd_open :: "int \<Rightarrow> process \<Rightarrow> bool" where
  "fd_open fd c \<longleftrightarrow> 0 \<le> fd \<and> fd < int MAX_PROCESS_FILES \<and> fd_table c ! nat fd \<noteq> 0"

definition free_slot :: "process \<Rightarrow> nat option" where
  "free_slot c = first_idx (\<lambda>d. d = 0) (fd_table c)"

subsection \<open>Reference counts\<close>

definition put_slot :: "nat \<Rightarrow> u32 \<Rightarrow> process \<Rightarrow> process" where
  "put_slot i d q = q\<lparr>fd_table := (fd_table q)[i := d]\<rparr>"

definition add_ref :: "u32 \<Rightarrow> kst \<Rightarrow> kst option" where
  "add_ref d s = do {
     e \<leftarrow> descs s d;
     Some (s\<lparr>descs := (descs s)(d \<mapsto> e\<lparr>ref_count := ref_count e + 1\<rparr>)\<rparr>) }"

text \<open>\<open>desc->ref_count--; if (desc->ref_count == 0) { close the node; kfree(desc); }\<close>.\<close>

definition drop_ref :: "u32 \<Rightarrow> kst \<Rightarrow> kst option" where
  "drop_ref d s = do {
     e \<leftarrow> descs s d;
     if ref_count e - 1 = 0
     then Some (s\<lparr>descs := (descs s)(d := None), node_calls := node_calls s @ [Node_close (fd_node e)]\<rparr>)
     else Some (s\<lparr>descs := (descs s)(d \<mapsto> e\<lparr>ref_count := ref_count e - 1\<rparr>)\<rparr>) }"

subsection \<open>open, close, dup\<close>

text \<open>A new description at \<open>nd\<close> (the block \<open>kmalloc\<close> returned) in the first free slot.\<close>

definition install_fd :: "u32 \<Rightarrow> u32 \<Rightarrow> u32 \<Rightarrow> kst \<Rightarrow> (int \<times> kst) option" where
  "install_fd nd node flags s = do {
     c \<leftarrow> procs s (current_process s);
     case free_slot c of
       Some j \<Rightarrow> Some (int j, (set_proc (current_process s) (put_slot j nd c) s)
          \<lparr>descs := (descs s)(nd \<mapsto> \<lparr>fd_node = node, fd_offset = 0, fd_flags = flags, ref_count = 1\<rparr>),
           node_calls := node_calls s @ [Node_open node]\<rparr>)
     | None \<Rightarrow> Some (- EMFILE, s) }"

definition open_pledge :: "u32 \<Rightarrow> u32" where
  "open_pledge flags = (if flags AND O_CREAT \<noteq> 0 then PLEDGE_CPATH
     else if flags AND 3 = 0 then PLEDGE_RPATH else PLEDGE_WPATH)"

definition open_unveil :: "u32 \<Rightarrow> u32" where
  "open_unveil flags = (if flags AND O_CREAT \<noteq> 0 then 8 else if flags AND 3 = 0 then 4 else 2)"

definition sys_open :: "(string \<Rightarrow> u32) \<Rightarrow> u32 \<Rightarrow> string \<Rightarrow> u32 \<Rightarrow> kst \<Rightarrow> (int \<times> kst) option" where
  "sys_open resolve nd path flags s = do {
     c \<leftarrow> procs s (current_process s);
     if \<not> check_unveil path (open_unveil flags) c then Some (- EACCES, s)
     else if pledges c AND open_pledge flags = 0 then Some (- EPERM, s)
     else if resolve path \<noteq> 0 then install_fd nd (resolve path) flags s
     else Some (- ENOENT, s) }"

text \<open>\<open>resolve base path\<close> is \<open>vfs_resolve_path_relative\<close>; \<open>root\<close> is \<open>vfs_root\<close>.\<close>

abbreviation AT_FDCWD :: int where "AT_FDCWD \<equiv> -100"

definition sys_openat :: "(u32 \<Rightarrow> string \<Rightarrow> u32) \<Rightarrow> u32 \<Rightarrow> u32 \<Rightarrow> int \<Rightarrow> string \<Rightarrow> u32 \<Rightarrow> kst \<Rightarrow> (int \<times> kst) option" where
  "sys_openat resolve root nd dirfd path flags s = do {
     c \<leftarrow> procs s (current_process s);
     if dirfd \<noteq> AT_FDCWD \<and> \<not> fd_open dirfd c then Some (- EBADF, s)
     else do {
       dir \<leftarrow> (if dirfd = AT_FDCWD then Some root
              else do { e \<leftarrow> descs s (fd_table c ! nat dirfd); Some (fd_node e) });
       if resolve dir path \<noteq> 0 then install_fd nd (resolve dir path) flags s
       else Some (- ENOENT, s) } }"

definition sys_close :: "int \<Rightarrow> kst \<Rightarrow> (int \<times> kst) option" where
  "sys_close fd s = do {
     c \<leftarrow> procs s (current_process s);
     if fd_open fd c
     then do {
       s1 \<leftarrow> drop_ref (fd_table c ! nat fd) (set_proc (current_process s) (put_slot (nat fd) 0 c) s);
       Some (0, s1) }
     else Some (- EBADF, s) }"

definition sys_dup :: "int \<Rightarrow> kst \<Rightarrow> (int \<times> kst) option" where
  "sys_dup oldfd s = do {
     c \<leftarrow> procs s (current_process s);
     if fd_open oldfd c
     then (case free_slot c of
         Some j \<Rightarrow> do {
           s1 \<leftarrow> add_ref (fd_table c ! nat oldfd)
                  (set_proc (current_process s) (put_slot j (fd_table c ! nat oldfd) c) s);
           Some (int j, s1) }
       | None \<Rightarrow> Some (- EMFILE, s))
     else Some (- EMFILE, s) }"

definition sys_dup2 :: "int \<Rightarrow> int \<Rightarrow> kst \<Rightarrow> (int \<times> kst) option" where
  "sys_dup2 oldfd newfd s = do {
     c \<leftarrow> procs s (current_process s);
     if fd_open oldfd c \<and> 0 \<le> newfd \<and> newfd < int MAX_PROCESS_FILES
     then do {
       s1 \<leftarrow> (if fd_table c ! nat newfd \<noteq> 0 then drop_ref (fd_table c ! nat newfd) s else Some s);
       s2 \<leftarrow> add_ref (fd_table c ! nat oldfd)
              (set_proc (current_process s) (put_slot (nat newfd) (fd_table c ! nat oldfd) c) s1);
       Some (newfd, s2) }
     else Some (- EBADF, s) }"

subsection \<open>fcntl\<close>

text \<open>
  \<open>fd_flags\<close> is the table of \<open>file_ops.cpp\<close>, shared by all processes. \<open>F_DUPFD\<close> searches
  from \<open>arg\<close> up; an \<open>arg\<close> below 0 reads the words before the descriptor table, so the call
  has no defined result (\<open>None\<close>).
\<close>

definition free_slot_from :: "int \<Rightarrow> process \<Rightarrow> nat option" where
  "free_slot_from arg c = map_option (\<lambda>i. i + nat arg) (first_idx (\<lambda>d. d = 0) (drop (nat arg) (fd_table c)))"

definition sys_fcntl :: "int \<Rightarrow> int \<Rightarrow> int \<Rightarrow> (nat \<Rightarrow> u32) \<Rightarrow> kst \<Rightarrow> (int \<times> (nat \<Rightarrow> u32) \<times> kst) option" where
  "sys_fcntl fd cmd arg flags_tab s = do {
     c \<leftarrow> procs s (current_process s);
     if \<not> fd_open fd c then Some (- EBADF, flags_tab, s)
     else do {
       let d = fd_table c ! nat fd;
       e \<leftarrow> descs s d;
       if cmd = 0 \<or> cmd = 0x406 then
         (if arg < 0 then None
          else (case free_slot_from arg c of
            Some i \<Rightarrow> do {
              s1 \<leftarrow> add_ref d (set_proc (current_process s) (put_slot i d c) s);
              Some (int i, if cmd = 0x406 then flags_tab(i := 1) else flags_tab, s1) }
          | None \<Rightarrow> Some (- EMFILE, flags_tab, s)))
       else if cmd = 1 then Some (sint (flags_tab (nat fd)), flags_tab, s)
       else if cmd = 2 then Some (0, flags_tab(nat fd := word_of_int arg AND 1), s)
       else if cmd = 3 then Some (sint (fd_flags e), flags_tab, s)
       else if cmd = 4 then Some (0, flags_tab, s\<lparr>descs := (descs s)(d \<mapsto>
              e\<lparr>fd_flags := (fd_flags e AND NOT 0x800) OR (word_of_int arg AND 0x800)\<rparr>)\<rparr>)
       else if cmd = 8 \<or> cmd = 9 then Some (0, flags_tab, s)
       else Some (- EINVAL, flags_tab, s) } }"


subsection \<open>read, write and seek\<close>

text \<open>
  \<open>io node offset size\<close> is the result of \<open>vfs_read\<close> or \<open>vfs_write\<close>: the number of bytes,
  or a negative error.
\<close>

type_synonym vfs_io = "u32 \<Rightarrow> u64 \<Rightarrow> u32 \<Rightarrow> int"

definition advance :: "u32 \<Rightarrow> u64 \<Rightarrow> kst \<Rightarrow> kst option" where
  "advance d n s = do {
     e \<leftarrow> descs s d;
     Some (s\<lparr>descs := (descs s)(d \<mapsto> e\<lparr>fd_offset := fd_offset e + n\<rparr>)\<rparr>) }"

definition sys_read_write :: "vfs_io \<Rightarrow> int \<Rightarrow> u32 \<Rightarrow> u32 \<Rightarrow> kst \<Rightarrow> (int \<times> kst) option" where
  "sys_read_write io fd buf sz s = do {
     c \<leftarrow> procs s (current_process s);
     if validate_user_pointer buf sz \<and> fd_open fd c
     then do {
       let d = fd_table c ! nat fd;
       e \<leftarrow> descs s d;
       let n = io (fd_node e) (fd_offset e) sz;
       s1 \<leftarrow> (if n > 0 then advance d (word_of_int n) s else Some s);
       Some (n, s1) }
     else Some (- EBADF, s) }"

definition sys_read :: "vfs_io \<Rightarrow> int \<Rightarrow> u32 \<Rightarrow> u32 \<Rightarrow> kst \<Rightarrow> (int \<times> kst) option" where
  "sys_read vfs_read fd buf sz s = sys_read_write vfs_read fd buf sz s"

definition sys_write :: "vfs_io \<Rightarrow> int \<Rightarrow> u32 \<Rightarrow> u32 \<Rightarrow> kst \<Rightarrow> (int \<times> kst) option" where
  "sys_write vfs_write fd buf sz s = sys_read_write vfs_write fd buf sz s"

text \<open>
  The loop of \<open>sys_readv\<close> and \<open>sys_writev\<close> over the lengths of the vectors: here the result
  is held in a \<open>uint32_t\<close>, so a negative error counts as a large number of bytes.
\<close>

fun iov_loop :: "vfs_io \<Rightarrow> u32 \<Rightarrow> u32 list \<Rightarrow> u32 \<Rightarrow> kst \<Rightarrow> (u32 \<times> kst) option" where
  "iov_loop io d [] tot s = Some (tot, s)"
| "iov_loop io d (len # iov) tot s = do {
     e \<leftarrow> descs s d;
     let n = (word_of_int (io (fd_node e) (fd_offset e) len) :: u32);
     s1 \<leftarrow> (if n > 0 then advance d (ucast n) s else Some s);
     let tot1 = (if n > 0 then tot + n else tot);
     if n < len then Some (tot1, s1) else iov_loop io d iov tot1 s1 }"

definition sys_readv_writev :: "vfs_io \<Rightarrow> int \<Rightarrow> u32 list option \<Rightarrow> int \<Rightarrow> kst \<Rightarrow> (int \<times> kst) option" where
  "sys_readv_writev io fd iov iovcnt s = do {
     c \<leftarrow> procs s (current_process s);
     if \<not> fd_open fd c then Some (- EBADF, s)
     else (case iov of
         None \<Rightarrow> Some (- EINVAL, s)
       | Some lens \<Rightarrow>
           if iovcnt \<le> 0 then Some (- EINVAL, s)
           else do {
             (tot, s1) \<leftarrow> iov_loop io (fd_table c ! nat fd) (take (nat iovcnt) lens) 0 s;
             Some (sint tot, s1) }) }"

definition sys_readv :: "vfs_io \<Rightarrow> int \<Rightarrow> u32 list option \<Rightarrow> int \<Rightarrow> kst \<Rightarrow> (int \<times> kst) option" where
  "sys_readv vfs_read fd iov iovcnt s = sys_readv_writev vfs_read fd iov iovcnt s"

definition sys_writev :: "vfs_io \<Rightarrow> int \<Rightarrow> u32 list option \<Rightarrow> int \<Rightarrow> kst \<Rightarrow> (int \<times> kst) option" where
  "sys_writev vfs_write fd iov iovcnt s = sys_readv_writev vfs_write fd iov iovcnt s"

text \<open>\<open>sys_pread\<close> and \<open>sys_pwrite\<close>: no change of the offset. \<open>buf_ok\<close> is \<open>buf != 0\<close>.\<close>

definition sys_pread :: "vfs_io \<Rightarrow> int \<Rightarrow> bool \<Rightarrow> u32 \<Rightarrow> int \<Rightarrow> kst \<Rightarrow> int option" where
  "sys_pread io fd buf_ok count off s = do {
     c \<leftarrow> procs s (current_process s);
     if \<not> buf_ok then Some (- EFAULT)
     else if \<not> fd_open fd c then Some (- EBADF)
     else do { e \<leftarrow> descs s (fd_table c ! nat fd); Some (io (fd_node e) (word_of_int off) count) } }"

text \<open>
  \<open>sys_seek\<close> works on the 64-bit offset (its argument comes from an unsigned register);
  \<open>sys_lseek\<close> computes a 32-bit position and rejects negative ones.
\<close>

definition sys_seek :: "int \<Rightarrow> u32 \<Rightarrow> int \<Rightarrow> kst \<Rightarrow> (int \<times> kst) option" where
  "sys_seek fd off whence s = do {
     c \<leftarrow> procs s (current_process s);
     if \<not> fd_open fd c then Some (- EBADF, s)
     else do {
       let d = fd_table c ! nat fd;
       e \<leftarrow> descs s d;
       let off64 = (ucast off :: u64);
       let pos = (if whence = 0 then Some off64 else if whence = 1 then Some (fd_offset e + off64)
                  else if whence = 2 then Some (vn_size (vnodes s (fd_node e)) + off64) else None);
       case pos of
         None \<Rightarrow> Some (- EINVAL, s)
       | Some p \<Rightarrow> Some (sint (ucast p :: u32), s\<lparr>descs := (descs s)(d \<mapsto> e\<lparr>fd_offset := p\<rparr>)\<rparr>) } }"

definition sys_lseek :: "int \<Rightarrow> u32 \<Rightarrow> int \<Rightarrow> kst \<Rightarrow> (int \<times> kst) option" where
  "sys_lseek fd off whence s = do {
     c \<leftarrow> procs s (current_process s);
     if \<not> fd_open fd c then Some (- EBADF, s)
     else do {
       let d = fd_table c ! nat fd;
       e \<leftarrow> descs s d;
       let pos = (if whence = 0 then Some off else if whence = 1 then Some (ucast (fd_offset e) + off)
                  else if whence = 2 then Some (ucast (vn_size (vnodes s (fd_node e))) + off) else None);
       case pos of
         None \<Rightarrow> Some (- EINVAL, s)
       | Some p \<Rightarrow>
           if sint p < 0 then Some (- EINVAL, s)
           else Some (sint p, s\<lparr>descs := (descs s)(d \<mapsto> e\<lparr>fd_offset := ucast p\<rparr>)\<rparr>) } }"

subsection \<open>Attributes of the open node, and of the process\<close>

text \<open>\<open>alloc_node\<close> of \<open>vfs.cpp\<close>: what a new node holds (types: 0 file, 1 directory, 3 device).\<close>

definition alloc_node :: "string \<Rightarrow> nat \<Rightarrow> vnode" where
  "alloc_node name ty = \<lparr>vn_name = take 255 name, vn_type = ty, vn_inode = 0, vn_size = 0, vn_mask = 0, vn_uid = 0,
     vn_gid = 0, vn_flags = (if ty = 1 then 0x02 else if ty = 0 then 0x01 else if ty = 3 then 0x03 else 0)\<rparr>"

definition upd_node :: "u32 \<Rightarrow> (vnode \<Rightarrow> vnode) \<Rightarrow> kst \<Rightarrow> kst" where
  "upd_node n f s = s\<lparr>vnodes := (vnodes s)(n := f (vnodes s n))\<rparr>"

definition on_fd :: "int \<Rightarrow> (u32 \<Rightarrow> kst \<Rightarrow> int \<times> kst) \<Rightarrow> kst \<Rightarrow> (int \<times> kst) option" where
  "on_fd fd f s = do {
     c \<leftarrow> procs s (current_process s);
     if \<not> fd_open fd c then Some (- EBADF, s)
     else do { e \<leftarrow> descs s (fd_table c ! nat fd); Some (f (fd_node e) s) } }"

definition sys_ftruncate :: "int \<Rightarrow> u32 \<Rightarrow> kst \<Rightarrow> (int \<times> kst) option" where
  "sys_ftruncate fd len = on_fd fd (\<lambda>n s.
     if vn_flags (vnodes s n) AND 7 \<noteq> 0 then (- EINVAL, s)
     else (0, upd_node n (\<lambda>v. v\<lparr>vn_size := ucast len\<rparr>) s))"

definition sys_truncate :: "(string \<Rightarrow> u32) \<Rightarrow> string option \<Rightarrow> u32 \<Rightarrow> kst \<Rightarrow> int \<times> kst" where
  "sys_truncate resolve path len s = (case path of
       None \<Rightarrow> (- EFAULT, s)
     | Some p \<Rightarrow>
         if resolve p = 0 then (- ENOENT, s)
         else if vn_flags (vnodes s (resolve p)) AND 7 \<noteq> 0 then (- EISDIR, s)
         else (0, upd_node (resolve p) (\<lambda>v. v\<lparr>vn_size := ucast len\<rparr>) s))"

definition sys_fchmod :: "int \<Rightarrow> u32 \<Rightarrow> kst \<Rightarrow> (int \<times> kst) option" where
  "sys_fchmod fd mode = on_fd fd (\<lambda>n s. (0, upd_node n (\<lambda>v. v\<lparr>vn_mask := mode\<rparr>) s))"

definition sys_fchown :: "int \<Rightarrow> u32 \<Rightarrow> u32 \<Rightarrow> kst \<Rightarrow> (int \<times> kst) option" where
  "sys_fchown fd owner grp = on_fd fd (\<lambda>n s. (0, upd_node n (\<lambda>v. v\<lparr>vn_uid := owner, vn_gid := grp\<rparr>) s))"

definition sys_chown :: "(string \<Rightarrow> u32) \<Rightarrow> string option \<Rightarrow> u32 \<Rightarrow> u32 \<Rightarrow> kst \<Rightarrow> int \<times> kst" where
  "sys_chown resolve path owner grp s = (case path of
       None \<Rightarrow> (- EFAULT, s)
     | Some p \<Rightarrow>
         if resolve p = 0 then (- ENOENT, s)
         else (0, upd_node (resolve p) (\<lambda>v. v\<lparr>vn_uid := owner, vn_gid := grp\<rparr>) s))"

definition sys_fchdir :: "int \<Rightarrow> kst \<Rightarrow> (int \<times> kst) option" where
  "sys_fchdir fd s = do {
     c \<leftarrow> procs s (current_process s);
     if \<not> fd_open fd c then Some (- EBADF, s)
     else do {
       e \<leftarrow> descs s (fd_table c ! nat fd);
       let v = vnodes s (fd_node e);
       if vn_flags v AND 7 \<noteq> 1 then Some (- ENOTDIR, s)
       else Some (0, set_proc (current_process s) (c\<lparr>cwd := ''/'' @ vn_name v\<rparr>) s) } }"

definition sys_chdir :: "(string \<Rightarrow> u32) \<Rightarrow> string \<Rightarrow> kst \<Rightarrow> (int \<times> kst) option" where
  "sys_chdir resolve path s = do {
     c \<leftarrow> procs s (current_process s);
     if resolve path \<noteq> 0 \<and> vn_flags (vnodes s (resolve path)) AND 7 = 1
     then Some (0, set_proc (current_process s)
            (c\<lparr>cwd := (if path \<noteq> [] \<and> hd path = CHR ''/'' then path else cwd c @ ''/'' @ path)\<rparr>) s)
     else Some (- ENOENT, s) }"

definition sys_getcwd :: "bool \<Rightarrow> u32 \<Rightarrow> process \<Rightarrow> int \<times> string" where
  "sys_getcwd buf_ok sz c = (if \<not> buf_ok \<or> unat sz < length (cwd c) + 1 then (- ERANGE, []) else (0, cwd c))"

definition sys_pledge :: "u32 \<Rightarrow> kst \<Rightarrow> (int \<times> kst) option" where
  "sys_pledge keep s = do {
     s1 \<leftarrow> upd_proc (current_process s) (\<lambda>c. c\<lparr>pledges := pledges c AND keep\<rparr>) s;
     Some (0, s1) }"

definition sys_unveil :: "string \<Rightarrow> u32 \<Rightarrow> kst \<Rightarrow> (int \<times> kst) option" where
  "sys_unveil path perms s = do {
     s1 \<leftarrow> upd_proc (current_process s) (\<lambda>c. c\<lparr>unveils := (path, perms) # unveils c\<rparr>) s;
     Some (0, s1) }"

definition sys_setpgrp :: "kst \<Rightarrow> (int \<times> kst) option" where
  "sys_setpgrp s = do { s1 \<leftarrow> upd_proc (current_process s) (\<lambda>c. c\<lparr>pgid := pid c\<rparr>) s; Some (0, s1) }"

definition sys_setpgid :: "u32 \<Rightarrow> u32 \<Rightarrow> kst \<Rightarrow> (int \<times> kst) option" where
  "sys_setpgid p g s = do {
     c \<leftarrow> procs s (current_process s);
     let p1 = (if p = 0 then pid c else p);
     let g1 = (if g = 0 then p1 else g);
     if p1 = pid c then Some (0, set_proc (current_process s) (c\<lparr>pgid := g1\<rparr>) s)
     else Some (- ENOSYS, s) }"

definition sys_setsid :: "kst \<Rightarrow> (int \<times> kst) option" where
  "sys_setsid s = do {
     c \<leftarrow> procs s (current_process s);
     if pgid c = pid c then Some (- EPERM, s)
     else Some (sint (pid c), set_proc (current_process s) (c\<lparr>sid := pid c, pgid := pid c\<rparr>) s) }"

definition sys_getppid :: "kst \<Rightarrow> int option" where
  "sys_getppid s = do {
     c \<leftarrow> procs s (current_process s);
     if parent c = 0 then Some 0 else do { p \<leftarrow> procs s (parent c); Some (sint (pid p)) } }"

definition sys_sleep :: "u32 \<Rightarrow> kst \<Rightarrow> (int \<times> kst) option" where
  "sys_sleep ticks s = do {
     s1 \<leftarrow> upd_proc (current_process s)
            (\<lambda>c. c\<lparr>sleep_until := tick s + ticks, pstate := PROCESS_SLEEPING\<rparr>) s;
     s2 \<leftarrow> schedule s1;
     Some (0, s2) }"


subsection \<open>The reference count invariant\<close>

text \<open>
  The number of descriptor slots of all processes that hold a description, and the invariant.
  \<open>k\<close> counts the references held outside the tables, in the middle of an operation.
\<close>

definition fd_refs :: "kst \<Rightarrow> u32 \<Rightarrow> nat" where
  "fd_refs s d = (\<Sum>p \<in> dom (procs s). count_list (fd_table (the (procs s p))) d)"

definition fd_ok :: "(u32 \<Rightarrow> nat) \<Rightarrow> kst \<Rightarrow> bool" where
  "fd_ok k s \<longleftrightarrow> finite (dom (procs s)) \<and> descs s 0 = None
     \<and> (\<forall>p q. procs s p = Some q \<longrightarrow> length (fd_table q) = MAX_PROCESS_FILES)
     \<and> (\<forall>d. d \<noteq> 0 \<longrightarrow> (case descs s d of None \<Rightarrow> fd_refs s d + k d = 0
           | Some e \<Rightarrow> 0 < fd_refs s d + k d \<and> unat (ref_count e) = fd_refs s d + k d))"

abbreviation no_refs :: "u32 \<Rightarrow> nat" where "no_refs \<equiv> (\<lambda>_. 0)"

abbreviation fd_inv :: "kst \<Rightarrow> bool" where "fd_inv \<equiv> fd_ok no_refs"

abbreviation plus_ref :: "(u32 \<Rightarrow> nat) \<Rightarrow> u32 \<Rightarrow> u32 \<Rightarrow> nat" where "plus_ref k d \<equiv> k(d := Suc (k d))"

lemma fd_ok_len: "fd_ok k s \<Longrightarrow> procs s p = Some q \<Longrightarrow> length (fd_table q) = MAX_PROCESS_FILES"
  by (simp add: fd_ok_def)

lemma fd_ok_finite: "fd_ok k s \<Longrightarrow> finite (dom (procs s))"
  by (simp add: fd_ok_def)

lemma count_list_update:
  "i < length xs \<Longrightarrow> count_list (xs[i := y]) d + (if xs ! i = d then 1 else 0)
    = count_list xs d + (if y = d then 1 else 0)"
proof (induction xs arbitrary: i)
  case Nil
  then show ?case by simp
next
  case (Cons x xs)
  show ?case
  proof (cases i)
    case 0
    then show ?thesis by simp
  next
    case (Suc j)
    then show ?thesis using Cons.IH [of j] Cons.prems by (cases "y = d"; cases "xs ! j = d") simp_all
  qed
qed

lemma fd_refs_update:
  assumes "finite (dom (procs s))" "procs s p = Some q" "procs s' = (procs s)(p \<mapsto> q')"
  shows "fd_refs s' d + count_list (fd_table q) d = fd_refs s d + count_list (fd_table q') d"
proof -
  have d: "dom (procs s') = dom (procs s)" using assms(2,3) by auto
  have p: "p \<in> dom (procs s)" using assms(2) by blast
  have "(\<Sum>x \<in> dom (procs s) - {p}. count_list (fd_table (the (procs s' x))) d)
      = (\<Sum>x \<in> dom (procs s) - {p}. count_list (fd_table (the (procs s x))) d)"
    by (rule sum.cong) (auto simp: assms(3))
  then show ?thesis
    using sum.remove [OF assms(1) p, of "\<lambda>x. count_list (fd_table (the (procs s x))) d"]
      sum.remove [OF assms(1) p, of "\<lambda>x. count_list (fd_table (the (procs s' x))) d"] assms(2,3)
    unfolding fd_refs_def d by simp
qed

lemma fd_refs_cong: "procs s' = procs s \<Longrightarrow> fd_refs s' = fd_refs s"
  by (rule ext) (simp only: fd_refs_def)

text \<open>A held description is alive.\<close>

lemma fd_refs_ge: "finite (dom (procs s)) \<Longrightarrow> procs s p = Some q \<Longrightarrow> count_list (fd_table q) d \<le> fd_refs s d"
  unfolding fd_refs_def using member_le_sum [of p "dom (procs s)" "\<lambda>x. count_list (fd_table (the (procs s x))) d"]
  by force

lemma fd_ok_at:
  assumes "fd_ok k s" "d \<noteq> 0"
  shows "case descs s d of None \<Rightarrow> fd_refs s d + k d = 0
    | Some e \<Rightarrow> 0 < fd_refs s d + k d \<and> unat (ref_count e) = fd_refs s d + k d"
  using assms unfolding fd_ok_def by blast

lemma fd_ok_Some:
  assumes "fd_ok k s" "descs s d = Some e"
  shows "d \<noteq> 0" "unat (ref_count e) = fd_refs s d + k d" "0 < fd_refs s d + k d"
proof -
  show d: "d \<noteq> 0" using assms by (auto simp: fd_ok_def)
  show "unat (ref_count e) = fd_refs s d + k d" "0 < fd_refs s d + k d"
    using fd_ok_at [OF assms(1) d] assms(2) by simp_all
qed

lemma fd_ok_None: "fd_ok k s \<Longrightarrow> descs s d = None \<Longrightarrow> d \<noteq> 0 \<Longrightarrow> fd_refs s d = 0 \<and> k d = 0"
  using fd_ok_at [of k s d] by simp

lemma fd_held:
  assumes "fd_ok k s" "procs s p = Some q" "i < MAX_PROCESS_FILES" "fd_table q ! i \<noteq> 0"
  obtains e where "descs s (fd_table q ! i) = Some e" "0 < fd_refs s (fd_table q ! i)"
proof -
  have "fd_table q ! i \<in> set (fd_table q)" using assms fd_ok_len by (metis nth_mem)
  then have "0 < count_list (fd_table q) (fd_table q ! i)" by (metis count_list_0_iff neq0_conv)
  then have pos: "0 < fd_refs s (fd_table q ! i)"
    using fd_refs_ge [OF fd_ok_finite [OF assms(1)] assms(2)] by (meson less_le_trans)
  moreover have "descs s (fd_table q ! i) \<noteq> None"
    using fd_ok_None [OF assms(1) _ assms(4)] pos by fastforce
  ultimately show ?thesis using that by blast
qed

lemma fd_okI:
  assumes "finite (dom (procs s))" "descs s 0 = None"
    "\<And>p q. procs s p = Some q \<Longrightarrow> length (fd_table q) = MAX_PROCESS_FILES"
    "\<And>d. d \<noteq> 0 \<Longrightarrow> descs s d = None \<Longrightarrow> fd_refs s d = 0 \<and> k d = 0"
    "\<And>d e. d \<noteq> 0 \<Longrightarrow> descs s d = Some e \<Longrightarrow> unat (ref_count e) = fd_refs s d + k d \<and> 0 < fd_refs s d + k d"
  shows "fd_ok k s"
  using assms unfolding fd_ok_def by (auto split: option.splits)

subsection \<open>The primitive steps\<close>

text \<open>Moving a reference between a slot and the hand.\<close>

lemma take_slot_ok:
  assumes "fd_ok k s" "procs s p = Some c" "i < MAX_PROCESS_FILES" "fd_table c ! i = d" "d \<noteq> 0"
  shows "fd_ok (plus_ref k d) (set_proc p (put_slot i 0 c) s)"
proof -
  let ?s = "set_proc p (put_slot i 0 c) s"
  have len: "i < length (fd_table c)" using assms(1,2,3) fd_ok_len by metis
  have r: "fd_refs ?s x + (if x = d then 1 else 0) = fd_refs s x" if "x \<noteq> 0" for x
    using fd_refs_update [OF fd_ok_finite [OF assms(1)] assms(2), of ?s "put_slot i 0 c" x]
      count_list_update [OF len, of 0 x] that assms(4) by (auto simp: put_slot_def split: if_splits)
  show ?thesis
  proof (rule fd_okI)
    show "finite (dom (procs ?s))" using fd_ok_finite [OF assms(1)] by simp
    show "descs ?s 0 = None" using assms(1) by (simp add: fd_ok_def)
    show "length (fd_table q) = MAX_PROCESS_FILES" if "procs ?s a = Some q" for a q
      using that fd_ok_len [OF assms(1)] assms(2) by (auto simp: put_slot_def split: if_splits)
  next
    fix x assume x: "x \<noteq> 0" "descs ?s x = None"
    then have "fd_refs s x = 0 \<and> k x = 0" using fd_ok_None [OF assms(1)] by simp
    then show "fd_refs ?s x = 0 \<and> (plus_ref k d) x = 0" using r [OF x(1)] by (auto split: if_splits)
  next
    fix x e assume x: "x \<noteq> 0" "descs ?s x = Some e"
    then have "unat (ref_count e) = fd_refs s x + k x" "0 < fd_refs s x + k x"
      using fd_ok_Some [OF assms(1), of x e] by simp_all
    then show "unat (ref_count e) = fd_refs ?s x + (plus_ref k d) x \<and> 0 < fd_refs ?s x + (plus_ref k d) x"
      using r [OF x(1)] by (auto split: if_splits)
  qed
qed

lemma put_slot_ok:
  assumes "fd_ok (plus_ref k d) s" "procs s p = Some c" "i < MAX_PROCESS_FILES" "fd_table c ! i = 0" "d \<noteq> 0"
  shows "fd_ok k (set_proc p (put_slot i d c) s)"
proof -
  let ?s = "set_proc p (put_slot i d c) s"
  have len: "i < length (fd_table c)" using assms(1,2,3) fd_ok_len by metis
  have r: "fd_refs ?s x = fd_refs s x + (if x = d then 1 else 0)" if "x \<noteq> 0" for x
    using fd_refs_update [OF fd_ok_finite [OF assms(1)] assms(2), of ?s "put_slot i d c" x]
      count_list_update [OF len, of d x] that assms(4) by (auto simp: put_slot_def split: if_splits)
  show ?thesis
  proof (rule fd_okI)
    show "finite (dom (procs ?s))" using fd_ok_finite [OF assms(1)] by simp
    show "descs ?s 0 = None" using assms(1) by (simp add: fd_ok_def)
    show "length (fd_table q) = MAX_PROCESS_FILES" if "procs ?s a = Some q" for a q
      using that fd_ok_len [OF assms(1)] assms(2) by (auto simp: put_slot_def split: if_splits)
  next
    fix x assume x: "x \<noteq> 0" "descs ?s x = None"
    then have "fd_refs s x = 0 \<and> (plus_ref k d) x = 0" using fd_ok_None [OF assms(1)] by simp
    then show "fd_refs ?s x = 0 \<and> k x = 0" using r [OF x(1)] by (auto split: if_splits)
  next
    fix x e assume x: "x \<noteq> 0" "descs ?s x = Some e"
    then have "unat (ref_count e) = fd_refs s x + (plus_ref k d) x" "0 < fd_refs s x + (plus_ref k d) x"
      using fd_ok_Some [OF assms(1), of x e] by simp_all
    then show "unat (ref_count e) = fd_refs ?s x + k x \<and> 0 < fd_refs ?s x + k x"
      using r [OF x(1)] by (auto split: if_splits)
  qed
qed

text \<open>Dropping and adding a reference in hand. The table changes of one step: only \<open>d\<close>.\<close>

lemma drop_ref_ok:
  assumes "fd_ok (plus_ref k d) s" "d \<noteq> 0"
  shows "\<exists>s' e. descs s d = Some e \<and> drop_ref d s = Some s' \<and> fd_ok k s' \<and> procs s' = procs s
    \<and> current_process s' = current_process s \<and> ready_queue s' = ready_queue s \<and> next_pid s' = next_pid s
    \<and> (\<forall>x. x \<noteq> d \<longrightarrow> descs s' x = descs s x)
    \<and> (if fd_refs s d + k d = 0 then descs s' d = None \<and> node_calls s' = node_calls s @ [Node_close (fd_node e)]
       else descs s' d \<noteq> None \<and> node_calls s' = node_calls s)"
proof -
  obtain e where e: "descs s d = Some e" using fd_ok_None [OF assms(1) _ assms(2)] by fastforce
  have u: "unat (ref_count e) = Suc (fd_refs s d + k d)" using fd_ok_Some [OF assms(1) e] by simp
  then have u1: "unat (ref_count e - 1) = fd_refs s d + k d" by (simp add: unat_pred_small)
  then have z: "ref_count e - 1 = 0 \<longleftrightarrow> fd_refs s d + k d = 0" by (metis unat_0 unat_eq_zero)
  define s' where "s' = (if ref_count e - 1 = 0
     then s\<lparr>descs := (descs s)(d := None), node_calls := node_calls s @ [Node_close (fd_node e)]\<rparr>
     else s\<lparr>descs := (descs s)(d \<mapsto> e\<lparr>ref_count := ref_count e - 1\<rparr>)\<rparr>)"
  have dr: "drop_ref d s = Some s'" using e by (simp add: drop_ref_def s'_def)
  have p: "procs s' = procs s" by (simp add: s'_def)
  have "fd_ok k s'"
  proof (rule fd_okI)
    show "finite (dom (procs s'))" using fd_ok_finite [OF assms(1)] p by simp
    show "descs s' 0 = None" using assms by (simp add: fd_ok_def s'_def)
    show "length (fd_table q) = MAX_PROCESS_FILES" if "procs s' a = Some q" for a q
      using that fd_ok_len [OF assms(1)] p by metis
  next
    fix x assume x: "x \<noteq> 0" "descs s' x = None"
    show "fd_refs s' x = 0 \<and> k x = 0"
    proof (cases "x = d")
      case True
      then show ?thesis using x(2) z unfolding fd_refs_cong [OF p] by (simp add: s'_def split: if_splits)
    next
      case False
      then have "descs s x = None" using x(2) by (simp add: s'_def split: if_splits)
      then show ?thesis using fd_ok_None [OF assms(1) _ x(1)] False unfolding fd_refs_cong [OF p] by auto
    qed
  next
    fix x e' assume x: "x \<noteq> 0" "descs s' x = Some e'"
    show "unat (ref_count e') = fd_refs s' x + k x \<and> 0 < fd_refs s' x + k x"
    proof (cases "x = d")
      case True
      then have "e' = e\<lparr>ref_count := ref_count e - 1\<rparr>" "\<not> ref_count e - 1 = 0"
        using x(2) by (auto simp: s'_def split: if_splits)
      then show ?thesis using u1 z True unfolding fd_refs_cong [OF p] by simp
    next
      case False
      then have "descs s x = Some e'" using x(2) by (simp add: s'_def split: if_splits)
      then show ?thesis using fd_ok_Some [OF assms(1), of x e'] False unfolding fd_refs_cong [OF p] by simp
    qed
  qed
  then show ?thesis using e dr p z by (intro exI [of _ s'] exI [of _ e]) (simp add: s'_def)
qed


lemma add_ref_ok:
  assumes "fd_ok k s" "descs s d = Some e" "fd_refs s d + k d + 1 < 2 ^ 32"
  shows "\<exists>s'. add_ref d s = Some s' \<and> fd_ok (plus_ref k d) s' \<and> procs s' = procs s
    \<and> current_process s' = current_process s \<and> ready_queue s' = ready_queue s \<and> next_pid s' = next_pid s
    \<and> dom (descs s') = dom (descs s) \<and> node_calls s' = node_calls s"
proof -
  have u: "unat (ref_count e) = fd_refs s d + k d" and d: "d \<noteq> 0" using fd_ok_Some [OF assms(1,2)] by simp_all
  then have u1: "unat (ref_count e + 1) = Suc (fd_refs s d + k d)"
    using unat_Suc_small [of "ref_count e"] assms(3) by simp
  define s' where "s' = s\<lparr>descs := (descs s)(d \<mapsto> e\<lparr>ref_count := ref_count e + 1\<rparr>)\<rparr>"
  have p: "procs s' = procs s" by (simp add: s'_def)
  have "fd_ok (plus_ref k d) s'"
  proof (rule fd_okI)
    show "finite (dom (procs s'))" using fd_ok_finite [OF assms(1)] p by simp
    show "descs s' 0 = None" using assms(1) d by (simp add: fd_ok_def s'_def)
    show "length (fd_table q) = MAX_PROCESS_FILES" if "procs s' a = Some q" for a q
      using that fd_ok_len [OF assms(1)] p by metis
  next
    fix x assume x: "x \<noteq> 0" "descs s' x = None"
    then have "x \<noteq> d" "descs s x = None" by (auto simp: s'_def split: if_splits)
    then show "fd_refs s' x = 0 \<and> (plus_ref k d) x = 0"
      using fd_ok_None [OF assms(1) _ x(1)] unfolding fd_refs_cong [OF p] by simp
  next
    fix x e' assume x: "x \<noteq> 0" "descs s' x = Some e'"
    show "unat (ref_count e') = fd_refs s' x + (plus_ref k d) x \<and> 0 < fd_refs s' x + (plus_ref k d) x"
    proof (cases "x = d")
      case True
      then show ?thesis using x(2) u1 unfolding fd_refs_cong [OF p] by (auto simp: s'_def)
    next
      case False
      then show ?thesis using x fd_ok_Some [OF assms(1), of x e'] unfolding fd_refs_cong [OF p]
        by (simp add: s'_def)
    qed
  qed
  moreover have "add_ref d s = Some s'" using assms(2) by (simp add: add_ref_def s'_def)
  moreover have "dom (descs s') = dom (descs s)" using assms(2) by (auto simp: s'_def)
  ultimately show ?thesis using p by (intro exI [of _ s']) (simp add: s'_def)
qed

text \<open>A fresh description with one reference in hand.\<close>

lemma new_desc_ok:
  assumes "fd_ok k s" "nd \<noteq> 0" "descs s nd = None" "ref_count e = 1"
    "procs s' = procs s" "descs s' = (descs s)(nd \<mapsto> e)"
  shows "fd_ok (plus_ref k nd) s'"
proof (rule fd_okI)
  have z: "fd_refs s nd = 0 \<and> k nd = 0" by (rule fd_ok_None [OF assms(1,3,2)])
  show "finite (dom (procs s'))" using fd_ok_finite [OF assms(1)] assms(5) by simp
  show "descs s' 0 = None" using assms(1,2,6) by (simp add: fd_ok_def)
  show "length (fd_table q) = MAX_PROCESS_FILES" if "procs s' a = Some q" for a q
    using that fd_ok_len [OF assms(1)] assms(5) by metis
  show "fd_refs s' x = 0 \<and> (plus_ref k nd) x = 0" if "x \<noteq> 0" "descs s' x = None" for x
    using that fd_ok_None [OF assms(1), of x] assms(6) unfolding fd_refs_cong [OF assms(5)] by (auto split: if_splits)
  show "unat (ref_count e') = fd_refs s' x + (plus_ref k nd) x \<and> 0 < fd_refs s' x + (plus_ref k nd) x"
    if "x \<noteq> 0" "descs s' x = Some e'" for x e'
    using that z fd_ok_Some [OF assms(1), of x e'] assms(4,6) unfolding fd_refs_cong [OF assms(5)]
    by (auto split: if_splits)
qed

subsection \<open>The system calls keep the invariant\<close>

lemma free_slot_Some:
  assumes "free_slot c = Some j" "length (fd_table c) = MAX_PROCESS_FILES"
  shows "j < MAX_PROCESS_FILES" "fd_table c ! j = 0"
  using first_idx_SomeD [OF assms(1) [unfolded free_slot_def]] assms(2) by simp_all

lemma fd_openD: "fd_open fd c \<Longrightarrow> nat fd < MAX_PROCESS_FILES \<and> fd_table c ! nat fd \<noteq> 0"
  by (auto simp: fd_open_def)

lemma install_fd_ok:
  assumes "fd_inv s" "nd \<noteq> 0" "descs s nd = None" "procs s (current_process s) = Some c"
  shows "\<exists>r s'. install_fd nd node flags s = Some (r, s') \<and> fd_inv s'
    \<and> (case free_slot c of None \<Rightarrow> r = - EMFILE \<and> s' = s
       | Some j \<Rightarrow> r = int j \<and> descs s' nd = Some \<lparr>fd_node = node, fd_offset = 0, fd_flags = flags, ref_count = 1\<rparr>
           \<and> procs s' = (procs s)(current_process s \<mapsto> put_slot j nd c))"
proof (cases "free_slot c")
  case None
  then show ?thesis using assms by (simp add: install_fd_def)
next
  case (Some j)
  have j: "j < MAX_PROCESS_FILES" "fd_table c ! j = 0"
    using free_slot_Some [OF Some fd_ok_len [OF assms(1,4)]] by simp_all
  define e where "e = \<lparr>fd_node = node, fd_offset = 0, fd_flags = flags, ref_count = 1\<rparr>"
  define t where "t = s\<lparr>descs := (descs s)(nd \<mapsto> e), node_calls := node_calls s @ [Node_open node]\<rparr>"
  define s' where "s' = (set_proc (current_process s) (put_slot j nd c) s)
    \<lparr>descs := (descs s)(nd \<mapsto> e), node_calls := node_calls s @ [Node_open node]\<rparr>"
  have "fd_ok (plus_ref no_refs nd) t"
    by (rule new_desc_ok [OF assms(1-3), of e]) (simp_all add: t_def e_def)
  moreover have "procs t (current_process s) = Some c" using assms(4) by (simp add: t_def)
  ultimately have "fd_ok no_refs (set_proc (current_process s) (put_slot j nd c) t)"
    using j assms(2) by (rule put_slot_ok)
  moreover have "set_proc (current_process s) (put_slot j nd c) t = s'"
    by (simp add: t_def s'_def set_proc_def)
  ultimately have "fd_ok no_refs s'" by simp
  moreover have "install_fd nd node flags s = Some (int j, s')"
    using assms(4) Some by (simp add: install_fd_def s'_def e_def)
  ultimately show ?thesis using Some by (simp add: s'_def e_def)
qed

lemma sys_open_ok:
  assumes "fd_inv s" "nd \<noteq> 0" "descs s nd = None" "procs s (current_process s) = Some c"
  shows "\<exists>r s'. sys_open resolve nd path flags s = Some (r, s') \<and> fd_inv s'"
  using install_fd_ok [OF assms, of "resolve path" flags] assms by (auto simp: sys_open_def)

lemma sys_close_ok:
  assumes "fd_inv s" "procs s (current_process s) = Some c" "fd_open fd c"
  shows "\<exists>s' e. sys_close fd s = Some (0, s') \<and> fd_inv s'
    \<and> procs s' = (procs s)(current_process s \<mapsto> put_slot (nat fd) 0 c)
    \<and> descs s (fd_table c ! nat fd) = Some e
    \<and> (\<forall>x. x \<noteq> fd_table c ! nat fd \<longrightarrow> descs s' x = descs s x)
    \<and> (if fd_refs s (fd_table c ! nat fd) = 1
       then descs s' (fd_table c ! nat fd) = None \<and> node_calls s' = node_calls s @ [Node_close (fd_node e)]
       else descs s' (fd_table c ! nat fd) \<noteq> None \<and> node_calls s' = node_calls s)"
proof -
  define d where "d = fd_table c ! nat fd"
  define t where "t = set_proc (current_process s) (put_slot (nat fd) 0 c) s"
  have f: "nat fd < MAX_PROCESS_FILES" "d \<noteq> 0" using fd_openD [OF assms(3)] by (simp_all add: d_def)
  have t: "fd_ok (plus_ref no_refs d) t"
    unfolding t_def by (rule take_slot_ok [OF assms(1,2) f(1) _ f(2)]) (simp add: d_def)
  have len: "nat fd < length (fd_table c)" using fd_ok_len [OF assms(1,2)] f(1) by simp
  have r: "fd_refs t d + 1 = fd_refs s d"
    using fd_refs_update [OF fd_ok_finite [OF assms(1)] assms(2), of t "put_slot (nat fd) 0 c" d]
      count_list_update [OF len, of 0 d] f(2) by (simp add: t_def put_slot_def d_def)
  obtain s' e where "descs t d = Some e" "drop_ref d t = Some s'" "fd_ok no_refs s'" "procs s' = procs t"
      "\<forall>x. x \<noteq> d \<longrightarrow> descs s' x = descs t x"
      "if fd_refs t d = 0 then descs s' d = None \<and> node_calls s' = node_calls t @ [Node_close (fd_node e)]
       else descs s' d \<noteq> None \<and> node_calls s' = node_calls t"
    using drop_ref_ok [OF t f(2)] by auto
  moreover have "sys_close fd s = map_option (\<lambda>s'. (0, s')) (drop_ref d t)"
    using assms(2,3) by (cases "drop_ref d t") (simp_all add: sys_close_def d_def t_def)
  ultimately show ?thesis using r
    by (intro exI [of _ s'] exI [of _ e]) (simp add: t_def d_def [symmetric])
qed

lemma add_slot_ok:
  assumes "fd_inv s" "procs s p = Some c" "j < MAX_PROCESS_FILES" "fd_table c ! j = 0"
    "descs s d = Some e" "fd_refs s d + 1 < 2 ^ 32"
  shows "\<exists>s'. add_ref d (set_proc p (put_slot j d c) s) = Some s' \<and> fd_inv s'
    \<and> procs s' = (procs s)(p \<mapsto> put_slot j d c) \<and> dom (descs s') = dom (descs s)"
proof -
  have d: "d \<noteq> 0" by (rule fd_ok_Some(1) [OF assms(1,5)])
  obtain t where t: "add_ref d s = Some t" "fd_ok (plus_ref no_refs d) t" "procs t = procs s" "dom (descs t) = dom (descs s)"
    using add_ref_ok [OF assms(1,5)] assms(6) by auto
  have "fd_ok no_refs (set_proc p (put_slot j d c) t)"
    by (rule put_slot_ok [OF t(2) _ assms(3,4) d]) (simp add: t(3) assms(2))
  moreover have "add_ref d (set_proc p (put_slot j d c) s) = Some (set_proc p (put_slot j d c) t)"
    using t(1) assms(5) by (auto simp: add_ref_def set_proc_def)
  ultimately show ?thesis using t by simp
qed

lemma sys_dup_ok:
  assumes "fd_inv s" "procs s (current_process s) = Some c" "\<And>d. fd_refs s d + 1 < 2 ^ 32"
  shows "\<exists>r s'. sys_dup fd s = Some (r, s') \<and> fd_inv s'
    \<and> (if fd_open fd c \<and> free_slot c \<noteq> None
       then r = int (the (free_slot c)) \<and> procs s' = (procs s)(current_process s \<mapsto>
          put_slot (the (free_slot c)) (fd_table c ! nat fd) c)
       else r = - EMFILE \<and> s' = s)"
proof (cases "fd_open fd c \<and> free_slot c \<noteq> None")
  case False
  then show ?thesis using assms(1,2) by (auto simp: sys_dup_def split: option.splits)
next
  case True
  then obtain j where j: "free_slot c = Some j" by blast
  have jj: "j < MAX_PROCESS_FILES" "fd_table c ! j = 0"
    using free_slot_Some [OF j fd_ok_len [OF assms(1,2)]] by simp_all
  obtain e where e: "descs s (fd_table c ! nat fd) = Some e"
    using fd_held [OF assms(1,2), of "nat fd"] fd_openD True by blast
  obtain s' where "add_ref (fd_table c ! nat fd) (set_proc (current_process s) (put_slot j (fd_table c ! nat fd) c) s) = Some s'"
      "fd_inv s'" "procs s' = (procs s)(current_process s \<mapsto> put_slot j (fd_table c ! nat fd) c)"
    using add_slot_ok [OF assms(1,2) jj e assms(3)] by blast
  then show ?thesis using assms(2) True j by (simp add: sys_dup_def)
qed


lemma drop_ref_set_proc: "drop_ref d (set_proc p q s) = map_option (set_proc p q) (drop_ref d s)"
  by (cases "descs s d") (auto simp: drop_ref_def set_proc_def)

lemma put_slot_put_slot [simp]: "put_slot i d (put_slot i d' c) = put_slot i d c"
  by (simp add: put_slot_def)

lemma set_proc_set_proc [simp]: "set_proc p q (set_proc p q' s) = set_proc p q s"
  by (simp add: set_proc_def)

lemma put_slot_table [simp]: "fd_table (put_slot i d c) = (fd_table c)[i := d]"
  by (simp add: put_slot_def)

lemma sys_dup2_ok:
  assumes "fd_inv s" "procs s (current_process s) = Some c" "\<And>d. fd_refs s d + 1 < 2 ^ 32"
    and "oldfd \<noteq> newfd"
  shows "\<exists>r s'. sys_dup2 oldfd newfd s = Some (r, s') \<and> fd_inv s'
    \<and> (if fd_open oldfd c \<and> 0 \<le> newfd \<and> newfd < int MAX_PROCESS_FILES
       then r = newfd \<and> procs s' = (procs s)(current_process s \<mapsto> put_slot (nat newfd) (fd_table c ! nat oldfd) c)
       else r = - EBADF \<and> s' = s)"
proof (cases "fd_open oldfd c \<and> 0 \<le> newfd \<and> newfd < int MAX_PROCESS_FILES")
  case False
  then show ?thesis using assms(1,2) by (auto simp: sys_dup2_def)
next
  case True
  define i where "i = nat newfd"
  define d1 where "d1 = fd_table c ! nat oldfd"
  define d0 where "d0 = fd_table c ! i"
  have i: "i < MAX_PROCESS_FILES" "nat oldfd < MAX_PROCESS_FILES" "i \<noteq> nat oldfd" "d1 \<noteq> 0"
    using True assms(4) fd_openD [of oldfd c] by (auto simp: i_def d1_def fd_open_def)
  have len: "length (fd_table c) = MAX_PROCESS_FILES" by (rule fd_ok_len [OF assms(1,2)])
  define c0 where "c0 = put_slot i 0 c"
  have c0: "fd_table c0 ! i = 0" "fd_table c0 ! nat oldfd = d1" using i len by (simp_all add: c0_def d1_def)
  have "\<exists>s1. (if d0 \<noteq> 0 then drop_ref d0 s else Some s) = Some s1 \<and> fd_inv (set_proc (current_process s) c0 s1)
      \<and> procs s1 = procs s \<and> current_process s1 = current_process s
      \<and> (\<forall>d. d \<noteq> 0 \<longrightarrow> fd_refs (set_proc (current_process s) c0 s1) d \<le> fd_refs s d)"
  proof (cases "d0 = 0")
    case True
    then have "c0 = c" using i(1) len using list_update_id [of "fd_table c" i]
      by (simp add: c0_def put_slot_def d0_def)
    moreover have "set_proc (current_process s) c s = s" using assms(2) by (simp add: set_proc_def fun_upd_idem)
    ultimately show ?thesis using True assms(1) by simp
  next
    case False
    have t: "fd_ok (plus_ref no_refs d0) (set_proc (current_process s) c0 s)"
      unfolding c0_def by (rule take_slot_ok [OF assms(1,2) i(1) _ False]) (simp add: d0_def)
    obtain t1 where t1: "drop_ref d0 (set_proc (current_process s) c0 s) = Some t1" "fd_inv t1"
        "procs t1 = procs (set_proc (current_process s) c0 s)"
      using drop_ref_ok [OF t False] by blast
    then obtain s1 where s1: "drop_ref d0 s = Some s1" "t1 = set_proc (current_process s) c0 s1"
      using drop_ref_set_proc by auto
    have pr: "procs s1 = procs s \<and> current_process s1 = current_process s"
      using s1(1) by (auto simp: drop_ref_def Option.bind_eq_Some_conv split: if_splits)
    have "fd_refs t1 d \<le> fd_refs s d" if "d \<noteq> 0" for d
      using fd_refs_update [OF fd_ok_finite [OF assms(1)] assms(2), of t1 c0 d] t1(3)
        count_list_update [of i "fd_table c" 0 d] i(1) len that by (simp add: c0_def split: if_splits)
    then show ?thesis using False s1 t1(2) pr by auto
  qed
  then obtain s1 where s1: "(if d0 \<noteq> 0 then drop_ref d0 s else Some s) = Some s1"
      "fd_inv (set_proc (current_process s) c0 s1)" "procs s1 = procs s" "current_process s1 = current_process s"
      "\<And>d. d \<noteq> 0 \<Longrightarrow> fd_refs (set_proc (current_process s) c0 s1) d \<le> fd_refs s d" by blast
  let ?t = "set_proc (current_process s) c0 s1"
  have pc: "procs ?t (current_process s) = Some c0" by simp
  obtain e where e: "descs ?t d1 = Some e"
    using fd_held [OF s1(2) pc i(2)] c0(2) i(4) by metis
  have lt: "fd_refs ?t d1 + 1 < 2 ^ 32" using s1(5) [OF i(4)] assms(3) [of d1] by linarith
  obtain s' where "add_ref d1 (set_proc (current_process s) (put_slot i d1 c0) ?t) = Some s'" "fd_inv s'"
      "procs s' = (procs ?t)(current_process s \<mapsto> put_slot i d1 c0)"
    using add_slot_ok [OF s1(2) pc i(1) c0(1) e lt] by blast
  then have "add_ref d1 (set_proc (current_process s) (put_slot i d1 c) s1) = Some s'" "fd_inv s'"
      "procs s' = (procs s)(current_process s \<mapsto> put_slot i d1 c)"
    using s1(3) by (simp_all add: c0_def)
  moreover have "sys_dup2 oldfd newfd s = do {
      s1 \<leftarrow> (if d0 \<noteq> 0 then drop_ref d0 s else Some s);
      s2 \<leftarrow> add_ref d1 (set_proc (current_process s) (put_slot i d1 c) s1);
      Some (newfd, s2) }"
    using True assms(2) by (simp add: sys_dup2_def d0_def d1_def i_def)
  ultimately have "sys_dup2 oldfd newfd s = Some (newfd, s')" unfolding s1(1) by simp
  then show ?thesis using True \<open>fd_inv s'\<close> \<open>procs s' = (procs s)(current_process s \<mapsto> put_slot i d1 c)\<close>
    by (simp add: d1_def i_def)
qed

text \<open>The same call with \<open>newfd = oldfd\<close>: the description is freed and then written.\<close>

lemma sys_dup2_same_spec:
  assumes "procs s (current_process s) = Some c" "fd_open fd c"
    and "descs s (fd_table c ! nat fd) = Some e" "ref_count e = 1"
  shows "sys_dup2 fd fd s = None"
proof -
  have "0 \<le> fd \<and> fd < int MAX_PROCESS_FILES" "fd_table c ! nat fd \<noteq> 0" using assms(2) by (simp_all add: fd_open_def)
  then show ?thesis using assms by (simp add: sys_dup2_def drop_ref_def add_ref_def)
qed

subsection \<open>Properties\<close>

text \<open>
  C11. The reference counts are exact. Every description in use is counted once for each
  descriptor slot of each process that holds it: \<open>open\<close>, \<open>dup\<close>, \<open>dup2\<close> (with two different
  descriptors) and \<open>close\<close> return and keep this, and \<open>close\<close> calls the node's \<open>close\<close> and
  frees the description exactly when it gives up the last reference.
\<close>

theorem fd_refcounts_exact:
  assumes "fd_inv s" "procs s (current_process s) = Some c" "\<And>d. fd_refs s d + 1 < 2 ^ 32"
    and "nd \<noteq> 0" "descs s nd = None"
  shows "(\<exists>r s'. sys_open resolve nd path flags s = Some (r, s') \<and> fd_inv s')
    \<and> (\<exists>r s'. sys_dup fd s = Some (r, s') \<and> fd_inv s')
    \<and> (fd \<noteq> fd2 \<longrightarrow> (\<exists>r s'. sys_dup2 fd fd2 s = Some (r, s') \<and> fd_inv s'))
    \<and> (fd_open fd c \<longrightarrow> (\<exists>s' e. sys_close fd s = Some (0, s') \<and> fd_inv s'
         \<and> descs s (fd_table c ! nat fd) = Some e
         \<and> (if fd_refs s (fd_table c ! nat fd) = 1
            then descs s' (fd_table c ! nat fd) = None \<and> node_calls s' = node_calls s @ [Node_close (fd_node e)]
            else descs s' (fd_table c ! nat fd) \<noteq> None \<and> node_calls s' = node_calls s)))"
  using sys_open_ok [OF assms(1,4,5,2)] sys_dup_ok [OF assms(1-3)] sys_dup2_ok [OF assms(1-3)]
    sys_close_ok [OF assms(1,2)] by blast

text \<open>
  \<open>dup2(fd, fd)\<close> on a description with a single reference closes its node and frees it,
  and then stores and increments the freed description; POSIX asks for no effect. The call has
  no defined result.
\<close>

theorem dup2_same_fd_use_after_free:
  assumes "procs s (current_process s) = Some c" "fd_open fd c"
    and "descs s (fd_table c ! nat fd) = Some e" "ref_count e = 1"
  shows "sys_dup2 fd fd s = None"
  by (rule sys_dup2_same_spec [OF assms])

text \<open>
  \<open>readv\<close> keeps the result of \<open>vfs_read\<close> in an unsigned word: an error \<open>-e\<close> is taken as
  almost 4 GB read, and the file offset moves forward by \<open>2 ^ 32 - e\<close>, while \<open>read\<close> leaves it
  alone. The returned value is the error in both cases.
\<close>

theorem readv_error_moves_offset:
  assumes "procs s (current_process s) = Some c" "fd_open fd c" "descs s (fd_table c ! nat fd) = Some e"
    and "io (fd_node e) (fd_offset e) len = - err" "0 < err" "err < 2 ^ 31" "validate_user_pointer buf len"
  shows "sys_read io fd buf len s = Some (- err, s)
    \<and> (\<exists>s'. sys_readv io fd (Some [len]) 1 s = Some (- err, s')
       \<and> descs s' (fd_table c ! nat fd) = Some (e\<lparr>fd_offset := fd_offset e + word_of_int (2 ^ 32 - err)\<rparr>))"
proof -
  define n where "n = (word_of_int (- err) :: u32)"
  have nm: "- word_of_int err = n" by (simp add: n_def)
  have u: "uint n = 2 ^ 32 - err" unfolding n_def using assms(5,6) by (rule uint_of_neg32)
  have si: "sint n = - err" unfolding n_def using assms(5,6) by (intro sint_of_int32) simp_all
  have n0: "n > 0" using u assms(6) by (simp add: word_less_def)
  have w: "(ucast n :: u64) = word_of_int (2 ^ 32 - err)" using u by (metis ucast_eq)
  define s' where "s' = s\<lparr>descs := (descs s)(fd_table c ! nat fd \<mapsto> e\<lparr>fd_offset := fd_offset e + ucast n\<rparr>)\<rparr>"
  have "sys_read io fd buf len s = Some (- err, s)"
    using assms by (simp add: sys_read_def sys_read_write_def Let_def)
  moreover have "iov_loop io (fd_table c ! nat fd) [len] 0 s = Some (n, s')"
    using assms(3,4) n0 nm by (simp add: advance_def s'_def Let_def)
  then have "sys_readv io fd (Some [len]) 1 s = Some (- err, s')"
    using assms(1,2) si by (simp add: sys_readv_def sys_readv_writev_def)
  ultimately show ?thesis using w by (simp add: s'_def)
qed


text \<open>
  The flag values do not match the node types: \<open>alloc_node\<close> marks a file with flag 1 and
  a directory with flag 2, while \<open>chdir\<close> and \<open>ftruncate\<close> compare the flags with the enumeration
  values (directory 1, file 0). On such nodes \<open>chdir\<close> accepts every file and refuses every
  directory, and \<open>ftruncate\<close> refuses every file.
\<close>

theorem node_flags_mismatch:
  assumes "procs s (current_process s) = Some c" "resolve path \<noteq> 0"
  shows "(vnodes s (resolve path) = alloc_node nm 0 \<longrightarrow>
      (\<exists>s'. sys_chdir resolve path s = Some (0, s')) \<and> sys_truncate resolve (Some path) len s = (- EISDIR, s))
    \<and> (vnodes s (resolve path) = alloc_node nm 1 \<longrightarrow> sys_chdir resolve path s = Some (- ENOENT, s))"
  using assms by (simp add: sys_chdir_def sys_truncate_def alloc_node_def)

text \<open>
  A pledge is never widened: \<open>sys_pledge\<close> only removes permissions, and a process without
  the permission that an \<open>open\<close> needs cannot open the file.
\<close>

theorem pledge_only_shrinks:
  assumes "procs s (current_process s) = Some c"
  shows "\<exists>s' c'. sys_pledge keep s = Some (0, s') \<and> procs s' (current_process s) = Some c'
    \<and> pledges c' AND NOT (pledges c) = 0
    \<and> (keep AND open_pledge flags = 0 \<longrightarrow> (\<exists>r. sys_open resolve nd path flags s' = Some (r, s') \<and> r < 0))"
proof -
  have "(pledges c AND keep) AND NOT (pledges c) = 0"
    by (rule bit_word_eqI) (auto simp: bit_simps)
  moreover have "(pledges c AND keep) AND open_pledge flags = 0" if "keep AND open_pledge flags = 0"
    using that by (simp add: and.assoc)
  moreover have "sys_pledge keep s = Some (0, set_proc (current_process s) (c\<lparr>pledges := pledges c AND keep\<rparr>) s)"
    using assms by (simp add: sys_pledge_def upd_proc_def)
  ultimately show ?thesis by (cases "keep AND open_pledge flags = 0") (simp_all add: sys_open_def)
qed

subsection \<open>Witnesses\<close>

text \<open>One open file: descriptor 3 of the current process, description at 0x5000.\<close>

definition demo_fds :: kst where
  "demo_fds = (set_proc 0x100 (put_slot 3 0x5000
       (demo_proc\<lparr>pid := 0, pstate := PROCESS_RUNNING, time_remaining := 1, pnext := 0x200\<rparr>)) demo_kst)
     \<lparr>descs := [0x5000 \<mapsto> \<lparr>fd_node = 0x6000, fd_offset = 7, fd_flags = 0, ref_count = 1\<rparr>]\<rparr>"

lemma demo_fds_cur:
  "procs demo_fds 0x100 = Some (put_slot 3 0x5000
       (demo_proc\<lparr>pid := 0, pstate := PROCESS_RUNNING, time_remaining := 1, pnext := 0x200\<rparr>))"
  "current_process demo_fds = 0x100" "dom (procs demo_fds) = {0x100, 0x200, 0x300}"
  by (auto simp: demo_fds_def demo_procs(4))

lemma count_list_replicate: "count_list (replicate n x) d = (if x = d then n else 0)"
  by (induction n) auto

lemma demo_fds_refs: "fd_refs demo_fds d = (if d = 0x5000 then 1 else if d = 0 then 47 else 0)"
proof -
  have p: "fd_table (the (procs demo_fds 0x200)) = replicate 16 0" "fd_table (the (procs demo_fds 0x300)) = replicate 16 0"
    "fd_table (the (procs demo_fds 0x100)) = (replicate 16 0)[3 := 0x5000]"
    using demo_procs(2,3) by (simp_all add: demo_fds_def)
  have "count_list ((replicate 16 0)[3 := 0x5000]) d = (if d = 0x5000 then 1 else if d = 0 then 15 else 0)"
    using count_list_update [of 3 "replicate 16 (0::u32)" "0x5000" d]
    by (auto simp: count_list_replicate split: if_splits)
  then show ?thesis
    unfolding fd_refs_def demo_fds_cur(3) by (simp add: p count_list_replicate)
qed

lemma demo_fds_inv: "fd_inv demo_fds"
proof (rule fd_okI)
  show "finite (dom (procs demo_fds))" by (simp add: demo_fds_cur(3))
  show "descs demo_fds 0 = None" by (simp add: demo_fds_def)
  show "length (fd_table q) = MAX_PROCESS_FILES" if "procs demo_fds p = Some q" for p q
    using that demo_procs_cases [of p q] by (auto simp: demo_fds_def split: if_splits)
next
  show "fd_refs demo_fds d = 0 \<and> no_refs d = 0" if "d \<noteq> 0" "descs demo_fds d = None" for d
    using that by (auto simp: demo_fds_refs) (simp add: demo_fds_def)
next
  fix d e assume d: "d \<noteq> 0" "descs demo_fds d = Some e"
  then have "d = 0x5000" "ref_count e = 1" by (auto simp: demo_fds_def split: if_splits)
  then show "unat (ref_count e) = fd_refs demo_fds d + no_refs d \<and> 0 < fd_refs demo_fds d + no_refs d"
    by (simp add: demo_fds_refs)
qed

lemma demo_fds_open: "fd_open 3 (put_slot 3 0x5000
       (demo_proc\<lparr>pid := 0, pstate := PROCESS_RUNNING, time_remaining := 1, pnext := 0x200\<rparr>))"
  by (simp add: fd_open_def)

theorem fd_refcounts_exact_witness:
  "\<exists>s' e. sys_close 3 demo_fds = Some (0, s') \<and> fd_inv s' \<and> descs s' 0x5000 = None
    \<and> descs demo_fds 0x5000 = Some e
    \<and> node_calls s' = [Node_close (fd_node e)]"
proof -
  have b: "\<And>d. fd_refs demo_fds d + 1 < 2 ^ 32" by (simp add: demo_fds_refs)
  have n: "node_calls demo_fds = []" "descs demo_fds 0x7000 = None" by (simp_all add: demo_fds_def)
  have c: "procs demo_fds (current_process demo_fds) = Some (put_slot 3 0x5000
       (demo_proc\<lparr>pid := 0, pstate := PROCESS_RUNNING, time_remaining := 1, pnext := 0x200\<rparr>))"
    by (simp add: demo_fds_cur)
  show ?thesis
    using fd_refcounts_exact [OF demo_fds_inv c b _ n(2), where resolve = "\<lambda>_. 0" and path = "[]" and flags = 0
        and fd = 3 and ?fd2.0 = 0] demo_fds_open n(1) by (auto simp: demo_fds_refs)
qed

theorem dup2_same_fd_use_after_free_witness: "sys_dup2 3 3 demo_fds = None"
  by (rule dup2_same_fd_use_after_free [OF _ demo_fds_open,
        of demo_fds "\<lparr>fd_node = 0x6000, fd_offset = 7, fd_flags = 0, ref_count = 1\<rparr>"])
    (simp_all add: demo_fds_cur, simp_all add: demo_fds_def)

theorem readv_error_moves_offset_witness:
  "\<exists>s'. sys_readv (\<lambda>_ _ _. - 5) 3 (Some [10]) 1 demo_fds = Some (- 5, s')"
proof -
  have c: "procs demo_fds (current_process demo_fds) = Some (put_slot 3 0x5000
       (demo_proc\<lparr>pid := 0, pstate := PROCESS_RUNNING, time_remaining := 1, pnext := 0x200\<rparr>))"
    by (simp add: demo_fds_cur)
  have "descs demo_fds (fd_table (put_slot 3 0x5000
       (demo_proc\<lparr>pid := 0, pstate := PROCESS_RUNNING, time_remaining := 1, pnext := 0x200\<rparr>)) ! nat 3)
     = Some \<lparr>fd_node = 0x6000, fd_offset = 7, fd_flags = 0, ref_count = 1\<rparr>"
    by (simp add: demo_fds_def)
  moreover have "validate_user_pointer 0x30000000 10" by (simp add: validate_user_pointer_def)
  ultimately show ?thesis
    using readv_error_moves_offset [OF c demo_fds_open, of _ "\<lambda>_ _ _. - 5" 10 5 "0x30000000"] by auto
qed

theorem node_flags_mismatch_witness:
  "vnodes (demo_fds\<lparr>vnodes := \<lambda>_. alloc_node ''d'' 1\<rparr>) 0x6000 = alloc_node ''d'' 1
    \<and> sys_chdir (\<lambda>_. 0x6000) ''/d'' (demo_fds\<lparr>vnodes := \<lambda>_. alloc_node ''d'' 1\<rparr>)
      = Some (- ENOENT, demo_fds\<lparr>vnodes := \<lambda>_. alloc_node ''d'' 1\<rparr>)"
  using node_flags_mismatch [where s = "demo_fds\<lparr>vnodes := \<lambda>_. alloc_node ''d'' 1\<rparr>" and resolve = "\<lambda>_. 0x6000"
      and path = "''/d''" and nm = "''d''"]
  by (simp add: demo_fds_cur)

theorem pledge_only_shrinks_witness:
  "\<exists>s'. sys_pledge 1 demo_fds = Some (0, s') \<and> (\<exists>r. sys_open (\<lambda>_. 0x6000) 0x7000 ''/d'' 0 s' = Some (r, s') \<and> r < 0)"
proof -
  have c: "procs demo_fds (current_process demo_fds) = Some (put_slot 3 0x5000
       (demo_proc\<lparr>pid := 0, pstate := PROCESS_RUNNING, time_remaining := 1, pnext := 0x200\<rparr>))"
    by (simp add: demo_fds_cur)
  have "(1::u32) AND open_pledge 0 = 0" by (simp add: open_pledge_def PLEDGE_RPATH_def)
  then show ?thesis using pledge_only_shrinks [OF c, where keep = 1 and flags = 0 and resolve = "\<lambda>_. 0x6000"
        and nd = "0x7000" and path = "''/d''"] by blast
qed

end
