(* ===== verification/Process.thy ===== *)
theory Process
  imports Fd
begin

text \<open>
  Process life cycle, \<open>process.cpp\<close>: creation of kernel threads and user processes, \<open>fork\<close>,
  \<open>exec\<close>, \<open>posix_spawn\<close>, \<open>exit\<close>, the wait calls and the alarm clock. The blocks that \<open>kmalloc\<close>
  returns are arguments: \<open>np\<close> is the address of the new \<open>process_t\<close> and \<open>blk\<close> what the block
  held (\<open>kmalloc\<close> does not initialise it); \<open>load_elf\<close> is an argument that returns the entry
  point (0 on failure), the end of the image and the page tables it changed. Interrupt
  masking, logging and the privilege switch (\<open>user_mode_entry\<close>, \<open>enter_user_mode\<close>) are left out.
\<close>

type_synonym elf_loader = "vm \<Rightarrow> u32 \<times> u32 \<times> vm"

subsection \<open>Kernel stacks\<close>

text \<open>\<open>*(--sp) = w\<close>.\<close>

definition push :: "u32 \<Rightarrow> u32 \<times> (u32 \<Rightarrow> u32) \<Rightarrow> u32 \<times> (u32 \<Rightarrow> u32)" where
  "push w sm = (fst sm - 4, (snd sm)(fst sm - 4 := w))"

definition pushes :: "u32 list \<Rightarrow> u32 \<times> (u32 \<Rightarrow> u32) \<Rightarrow> u32 \<times> (u32 \<Rightarrow> u32)" where
  "pushes ws sm = fold push ws sm"

text \<open>The words \<open>switch_task\<close> pops: flags, four registers, and then the return address.\<close>

abbreviation switch_frame :: "u32 list" where "switch_frame \<equiv> [0, 0, 0, 0, 0x0202]"

text \<open>Insertion behind the current process: \<open>np->next = cur->next; cur->next = np\<close>.\<close>

definition insert_proc :: "u32 \<Rightarrow> process \<Rightarrow> kst \<Rightarrow> kst option" where
  "insert_proc np q s = do {
     c \<leftarrow> procs s (current_process s);
     let s1 = set_proc np (q\<lparr>pnext := pnext c\<rparr>) s;
     c1 \<leftarrow> procs s1 (current_process s);
     Some (set_proc (current_process s) (c1\<lparr>pnext := np\<rparr>) s1) }"

subsection \<open>Kernel threads\<close>

definition create_kernel_thread :: "u32 \<Rightarrow> process \<Rightarrow> u32 \<Rightarrow> u32 \<Rightarrow> kst \<Rightarrow> kst option" where
  "create_kernel_thread np blk stack fn s =
     (let (top, mem) = pushes (fn # switch_frame) (stack + 16384, kstack s) in
      insert_proc np
        (blk\<lparr>pid := next_pid s, pstate := PROCESS_READY, parent := current_process s, exit_code := 0,
             page_directory := kernel_pd (vmem s), heap_end := 0, pledges := 0xFFFFFFFF,
             priority := DEFAULT_PRIORITY, time_slice := DEFAULT_TIME_SLICE,
             time_remaining := DEFAULT_TIME_SLICE, sleep_until := 0, saved_esp := top,
             kernel_stack_top := stack + 4096\<rparr>)
        (s\<lparr>next_pid := next_pid s + 1, kstack := mem\<rparr>))"

subsection \<open>User processes\<close>

text \<open>
  The arguments on the user stack. The stores go to the new address space; they are returned
  in the order they are made: strings (with their terminating 0) and words.
\<close>

datatype ustore = Store_string u32 string | Store_word u32 u32

text \<open>The strings, last argument first; the pointers come out in argument order.\<close>

fun copy_strings :: "string list \<Rightarrow> u32 \<Rightarrow> u32 \<times> u32 list \<times> ustore list" where
  "copy_strings [] sp = (sp, [], [])"
| "copy_strings (a # as) sp =
     (let (sp1, ptrs, st) = copy_strings as sp;
          sp2 = sp1 - of_nat (length a + 1)
      in (sp2, sp2 # ptrs, st @ [Store_string sp2 a]))"

fun store_words :: "u32 \<Rightarrow> u32 list \<Rightarrow> ustore list" where
  "store_words p [] = []"
| "store_words p (w # ws) = Store_word p w # store_words (p + 4) ws"

definition copy_argv :: "string list \<Rightarrow> u32 \<Rightarrow> u32 \<times> ustore list" where
  "copy_argv argv utop =
     (let args = take 16 argv;
          (sp, ptrs, st) = copy_strings args utop;
          base = (sp AND NOT 3) - of_nat (4 * (length args + 1))
      in (base - 8, st @ store_words base ptrs @ [Store_word (base + of_nat (4 * length args)) 0,
            Store_word (base - 4) base, Store_word (base - 8) (of_nat (length args))]))"

text \<open>One fresh frame at a virtual address: \<open>vm_map_page(pmm_alloc_block(), virt, 7)\<close>.\<close>

definition map_fresh :: "u32 \<Rightarrow> vm \<Rightarrow> vm" where
  "map_fresh virt m = (let (p, m1) = alloc_frame m in vm_map_page p virt 7 m1)"

definition map_stack :: "u32 \<Rightarrow> vm \<Rightarrow> vm" where
  "map_stack virt m = map_fresh (virt + 0x1000) (map_fresh (virt - 0x1000) (map_fresh virt m))"

text \<open>Three descriptors on the terminal, with the descriptions at \<open>ds\<close>; \<open>tty\<close> is 0 when there is none.\<close>

definition tty_fds :: "u32 \<Rightarrow> u32 list \<Rightarrow> u32 list" where
  "tty_fds tty ds = (if tty = 0 then replicate MAX_PROCESS_FILES 0
     else take 3 ds @ replicate (MAX_PROCESS_FILES - 3) 0)"

definition tty_descs :: "u32 \<Rightarrow> u32 list \<Rightarrow> (u32 \<Rightarrow> file_description option) \<Rightarrow> u32 \<Rightarrow> file_description option" where
  "tty_descs tty ds h = (if tty = 0 then h
     else fold (\<lambda>d h. h(d \<mapsto> \<lparr>fd_node = tty, fd_offset = 0, fd_flags = 2, ref_count = 1\<rparr>)) (take 3 ds) h)"

definition create_user_process ::
  "u32 \<Rightarrow> process \<Rightarrow> u32 \<Rightarrow> u32 \<Rightarrow> u32 list \<Rightarrow> u32 \<Rightarrow> elf_loader \<Rightarrow> u32 \<Rightarrow> string list \<Rightarrow> kst \<Rightarrow> (ustore list \<times> kst) option" where
  "create_user_process np blk kstk tty ds tsc_low load_elf ume argv s =
     (let (pd, m1) = pd_create (vmem s) in
      if pd = 0 then Some ([], s\<lparr>vmem := m1\<rparr>)
      else
        let old = cr3 m1;
            (entry, top, m2) = load_elf (pd_switch pd m1);
            m3 = pd_switch old m2
        in if entry = 0 then Some ([], s\<lparr>vmem := pd_destroy pd m3\<rparr>)
        else do {
          c \<leftarrow> procs s (current_process s);
          let user_stack_virt = 0xB0000000 - (tsc_low AND 0xFF) * 0x1000;
          let m4 = pd_switch old (map_stack user_stack_virt (pd_switch pd m3));
          let (usp, stores) = copy_argv argv (user_stack_virt + 4096);
          let (ktop, mem) = pushes ([usp, entry, 0, ume] @ switch_frame) (kstk + 4096, kstack s);
          s1 \<leftarrow> insert_proc np
            (blk\<lparr>pid := next_pid s, pstate := PROCESS_READY, parent := current_process s, exit_code := 0,
                 page_directory := pd, heap_end := top, pledges := 0xFFFFFFFF,
                 fd_table := tty_fds tty ds, cwd := cwd c, unveils := [], entry_point := entry,
                 user_stack_top := usp, saved_esp := ktop, kernel_stack_top := kstk + 4096\<rparr>)
            (s\<lparr>next_pid := next_pid s + 1, vmem := m4, kstack := mem, descs := tty_descs tty ds (descs s)\<rparr>);
          Some (stores, s1) })"

subsection \<open>fork\<close>

text \<open>\<open>child->fd_table[i] = parent's; if (child->fd_table[i]) ref_count++\<close>.\<close>

fun share_fds :: "u32 list \<Rightarrow> kst \<Rightarrow> kst option" where
  "share_fds [] s = Some s"
| "share_fds (d # ds) s = (if d = 0 then share_fds ds s else do { s1 \<leftarrow> add_ref d s; share_fds ds s1 })"

text \<open>The interrupt frame of the child: the parent's registers with \<open>eax = 0\<close>, interrupts on.\<close>

definition fork_frame :: "u32 \<Rightarrow> registers \<Rightarrow> u32 list" where
  "fork_frame fork_child_return r =
     [r_ss r, r_useresp r, r_eflags r OR 0x200, r_cs r, r_eip r, r_err_code r, r_int_no r,
      0, r_ecx r, r_edx r, r_ebx r, r_esp r, r_ebp r, r_esi r, r_edi r, r_ds r,
      fork_child_return] @ switch_frame"

definition fork_process :: "u32 \<Rightarrow> process \<Rightarrow> u32 \<Rightarrow> u32 \<Rightarrow> registers \<Rightarrow> kst \<Rightarrow> (int \<times> kst) option" where
  "fork_process np blk kstk fork_child_return regs s = do {
     c \<leftarrow> procs s (current_process s);
     let (pd, m1) = pd_clone (page_directory c) (vmem s);
     if pd = 0 then Some (- 1, s\<lparr>vmem := m1\<rparr>)
     else do {
       let i = next_pid s;
       s1 \<leftarrow> share_fds (fd_table c) (s\<lparr>next_pid := i + 1, vmem := m1\<rparr>);
       let (sp, mem) = pushes (fork_frame fork_child_return regs) (kstk + 4096, kstack s1);
       s2 \<leftarrow> insert_proc np
         (blk\<lparr>pid := i, pstate := PROCESS_READY, parent := current_process s, exit_code := 0,
              page_directory := pd, entry_point := entry_point c, user_stack_top := user_stack_top c,
              heap_end := heap_end c, cwd := cwd c, pledges := pledges c, fd_table := fd_table c,
              kernel_stack_top := kstk + 4096, saved_esp := sp\<rparr>)
         (s1\<lparr>kstack := mem\<rparr>);
       Some (sint i, s2) } }"

subsection \<open>exec and posix_spawn\<close>

text \<open>
  \<open>exec_process\<close>: the path is cut to 255 characters; \<open>load_elf\<close> gets it. Nothing is undone
  when loading fails after the old image is gone.
\<close>

definition exec_process :: "(string \<Rightarrow> elf_loader) \<Rightarrow> string option \<Rightarrow> registers \<Rightarrow> kst \<Rightarrow> (int \<times> registers \<times> kst) option" where
  "exec_process load_elf path regs s = (case path of
       None \<Rightarrow> Some (- 1, regs, s)
     | Some p \<Rightarrow>
         (let (entry, top, m1) = load_elf (take 255 p) (vm_clear_user_mappings (vmem s)) in
          if entry = 0 then Some (- 1, regs, s\<lparr>vmem := m1\<rparr>)
          else do {
            s1 \<leftarrow> upd_proc (current_process s)
                   (\<lambda>c. c\<lparr>entry_point := entry, user_stack_top := 0xB0000000 + 4096, heap_end := top,
                         pledges := 0xFFFFFFFF\<rparr>)
                   (s\<lparr>vmem := map_stack 0xB0000000 m1\<rparr>);
            Some (0, regs\<lparr>r_eip := entry, r_useresp := 0xB0000000 + 4096\<rparr>, s1) }))"

definition sys_posix_spawn ::
  "u32 \<Rightarrow> process \<Rightarrow> u32 \<Rightarrow> elf_loader \<Rightarrow> u32 \<Rightarrow> bool \<Rightarrow> kst \<Rightarrow> (int \<times> u32 option \<times> kst) option" where
  "sys_posix_spawn np blk kstk load_elf ume path_ok s =
     (if \<not> path_ok then Some (- EINVAL, None, s)
      else
        let (pd, m1) = pd_create (vmem s) in
        if pd = 0 then Some (- ENOMEM, None, s\<lparr>vmem := m1\<rparr>)
        else
          let old = cr3 m1;
              (entry, top, m2) = load_elf (pd_switch pd m1);
              m3 = pd_switch old m2
          in if entry = 0 then Some (- ENOENT, None, s\<lparr>vmem := pd_destroy pd m3\<rparr>)
          else if np = 0 then Some (- ENOMEM, None, s\<lparr>vmem := pd_destroy pd m3\<rparr>)
          else do {
            c \<leftarrow> procs s (current_process s);
            let i = next_pid s;
            s1 \<leftarrow> share_fds (fd_table c) (s\<lparr>next_pid := i + 1\<rparr>);
            let m4 = pd_switch old (map_stack 0xB0000000 (pd_switch pd m3));
            let utop = 0xB0000000 + 4096;
            let (ktop, mem) = pushes ([utop, entry, 0, ume] @ switch_frame) (kstk + 4096, kstack s1);
            s2 \<leftarrow> insert_proc np
              (blk\<lparr>pid := i, pstate := PROCESS_READY, parent := current_process s, exit_code := 0,
                   page_directory := pd, heap_end := top, pledges := 0xFFFFFFFF, pgid := pgid c, sid := sid c,
                   uid := uid c, euid := euid c, suid := suid c, gid := gid c, egid := egid c, sgid := sgid c,
                   fd_table := fd_table c, cwd := cwd c, priority := DEFAULT_PRIORITY,
                   time_slice := DEFAULT_TIME_SLICE, time_remaining := DEFAULT_TIME_SLICE, sleep_until := 0,
                   alarm_time := 0, pending_signals := 0, signal_mask := 0, in_signal_handler := False,
                   utime := 0, stime := 0, cutime := 0, cstime := 0, start_time := tick s, unveils := [],
                   kernel_stack_top := kstk + 4096, entry_point := entry, user_stack_top := utop,
                   saved_esp := ktop\<rparr>)
              (s1\<lparr>vmem := m4, kstack := mem\<rparr>);
            Some (0, Some i, s2) })"


subsection \<open>exit\<close>

abbreviation SIGCHLD :: int where "SIGCHLD \<equiv> 17"
abbreviation SIGALRM :: int where "SIGALRM \<equiv> 14"

definition close_slot :: "nat \<Rightarrow> kst \<Rightarrow> kst option" where
  "close_slot i s = do {
     c \<leftarrow> procs s (current_process s);
     if fd_table c ! i \<noteq> 0
     then drop_ref (fd_table c ! i) (set_proc (current_process s) (put_slot i 0 c) s)
     else Some s }"

fun close_slots :: "nat list \<Rightarrow> kst \<Rightarrow> kst option" where
  "close_slots [] s = Some s"
| "close_slots (i # is) s = do { s1 \<leftarrow> close_slot i s; close_slots is s1 }"

definition become_zombie :: "u32 \<Rightarrow> kst \<Rightarrow> kst option" where
  "become_zombie status s =
     upd_proc (current_process s) (\<lambda>c. c\<lparr>pstate := PROCESS_ZOMBIE, exit_code := status\<rparr>) s"

definition signal_parent :: "kst \<Rightarrow> kst option" where
  "signal_parent s = do {
     c \<leftarrow> procs s (current_process s);
     if parent c = 0 then Some s
     else do { p \<leftarrow> procs s (parent c); r \<leftarrow> sys_kill (sint (pid p)) SIGCHLD s; Some (snd r) } }"

definition exit_process :: "u32 \<Rightarrow> kst \<Rightarrow> kst option" where
  "exit_process status s = do {
     s1 \<leftarrow> become_zombie status s;
     s2 \<leftarrow> close_slots [0 ..< MAX_PROCESS_FILES] s1;
     s3 \<leftarrow> signal_parent s2;
     schedule s3 }"

definition sys_underscore_exit :: "u32 \<Rightarrow> kst \<Rightarrow> kst option" where
  "sys_underscore_exit status s = do {
     s1 \<leftarrow> become_zombie status s;
     s2 \<leftarrow> signal_parent s1;
     schedule s2 }"

subsection \<open>The wait calls\<close>

text \<open>
  One round of the loop: a result, or the caller is waiting and the next process runs (the
  round is repeated when the caller is scheduled again).
\<close>

datatype wait_round = Wait_done int "u32 option" | Wait_again

text \<open>Removal from the list, and release of the address space and the block.\<close>

definition unlink_proc :: "u32 \<Rightarrow> kst \<Rightarrow> kst option" where
  "unlink_proc found s = do {
     f \<leftarrow> procs s found;
     if pnext f = found then Some (s\<lparr>ready_queue := 0\<rparr>)
     else do {
       cur \<leftarrow> ring_pred (procs s) (ready_queue s) found;
       s1 \<leftarrow> upd_proc cur (\<lambda>q. q\<lparr>pnext := pnext f\<rparr>) s;
       Some (if ready_queue s = found then s1\<lparr>ready_queue := pnext f\<rparr> else s1) } }"

definition free_proc :: "u32 \<Rightarrow> kst \<Rightarrow> kst option" where
  "free_proc found s = do {
     f \<leftarrow> procs s found;
     Some (s\<lparr>procs := (procs s)(found := None), vmem := pd_destroy (page_directory f) (vmem s)\<rparr>) }"

definition block_current :: "kst \<Rightarrow> kst option" where
  "block_current s = do {
     s1 \<leftarrow> upd_proc (current_process s) (\<lambda>c. c\<lparr>pstate := PROCESS_WAITING\<rparr>) s;
     schedule s1 }"

definition wait_process_round :: "kst \<Rightarrow> (wait_round \<times> kst) option" where
  "wait_process_round s = do {
     child \<leftarrow> ring_find False (\<lambda>_ q. parent q = current_process s \<and> pstate q = PROCESS_ZOMBIE)
               (procs s) (ready_queue s) (ready_queue s);
     case child of
       Some a \<Rightarrow> do {
         f \<leftarrow> procs s a;
         s1 \<leftarrow> unlink_proc a s;
         s2 \<leftarrow> free_proc a s1;
         Some (Wait_done (sint (pid f)) (Some (exit_code f)), s2) }
     | None \<Rightarrow> do {
         some \<leftarrow> ring_find False (\<lambda>_ q. parent q = current_process s) (procs s) (ready_queue s) (ready_queue s);
         if some = None then Some (Wait_done (- 1) None, s)
         else do { s1 \<leftarrow> block_current s; Some (Wait_again, s1) } } }"

text \<open>The children a call of \<open>sys_waitpid(p, ...)\<close> is about.\<close>

definition wait_matches :: "int \<Rightarrow> u32 \<Rightarrow> process \<Rightarrow> process \<Rightarrow> bool" where
  "wait_matches p cur c q \<longleftrightarrow> parent q = cur \<and>
     (if p = -1 then True
      else if p = 0 then pgid q = pgid c
      else if p < -1 then pgid q = word_of_int (- p)
      else pid q = word_of_int p)"

definition add_child_times :: "process \<Rightarrow> process \<Rightarrow> process" where
  "add_child_times f c = c\<lparr>cutime := cutime c + (utime f + cutime f), cstime := cstime c + (stime f + cstime f)\<rparr>"

definition WNOHANG :: int where "WNOHANG = 1"

definition sys_waitpid_round :: "int \<Rightarrow> int \<Rightarrow> kst \<Rightarrow> (wait_round \<times> kst) option" where
  "sys_waitpid_round p options s =
     (if ready_queue s = 0 then Some (Wait_done (- 1) None, s)
      else do {
        c \<leftarrow> procs s (current_process s);
        let cur = current_process s;
        found \<leftarrow> ring_find False (\<lambda>_ q. wait_matches p cur c q \<and> pstate q = PROCESS_ZOMBIE)
                  (procs s) (ready_queue s) (ready_queue s);
        case found of
          Some a \<Rightarrow> do {
            f \<leftarrow> procs s a;
            s1 \<leftarrow> upd_proc cur (add_child_times f) s;
            s2 \<leftarrow> unlink_proc a s1;
            s3 \<leftarrow> free_proc a s2;
            Some (Wait_done (sint (pid f)) (Some (push_bit 8 (exit_code f))), s3) }
        | None \<Rightarrow> do {
            some \<leftarrow> ring_find False (\<lambda>_ q. wait_matches p cur c q) (procs s) (ready_queue s) (ready_queue s);
            if some = None then Some (Wait_done (- ECHILD) None, s)
            else if options AND WNOHANG \<noteq> 0 then Some (Wait_done 0 None, s)
            else do { s1 \<leftarrow> block_current s; Some (Wait_again, s1) } } })"

text \<open>\<open>sys_waitid\<close>: the pid argument it passes on, and the words it writes to \<open>infop\<close>.\<close>

definition waitid_pid :: "int \<Rightarrow> int \<Rightarrow> int option" where
  "waitid_pid idtype i = (if idtype = 0 then Some (- 1) else if idtype = 1 then Some i
     else if idtype = 2 then Some (- i) else None)"

definition waitid_info :: "int \<Rightarrow> u32 \<Rightarrow> u32 list" where
  "waitid_info result status = [17, 0, 1, word_of_int result, 0, drop_bit 8 status AND 0xFF]"

definition sys_waitid_round :: "int \<Rightarrow> int \<Rightarrow> bool \<Rightarrow> int \<Rightarrow> kst \<Rightarrow> (wait_round \<times> u32 list option \<times> kst) option" where
  "sys_waitid_round idtype i infop options s = (case waitid_pid idtype i of
       None \<Rightarrow> Some (Wait_done (- EINVAL) None, None, s)
     | Some p \<Rightarrow> do {
         (r, s1) \<leftarrow> sys_waitpid_round p (if options AND WNOHANG \<noteq> 0 then WNOHANG else 0) s;
         Some (r, (case r of Wait_done n (Some st) \<Rightarrow> if n > 0 \<and> infop then Some (waitid_info n st) else None
                    | _ \<Rightarrow> None), s1) })"

subsection \<open>The alarm clock\<close>

definition alarm_remaining :: "u32 \<Rightarrow> u32 \<Rightarrow> u32" where
  "alarm_remaining now old = (if old > 0 \<and> old > now then (old - now) div 100 else 0)"

definition sys_alarm :: "u32 \<Rightarrow> kst \<Rightarrow> (u32 \<times> kst) option" where
  "sys_alarm seconds s =
     (if current_process s = 0 then Some (0, s)
      else do {
        c \<leftarrow> procs s (current_process s);
        Some (alarm_remaining (tick s) (alarm_time c),
          set_proc (current_process s)
            (c\<lparr>alarm_time := (if seconds = 0 then 0 else tick s + seconds * 100)\<rparr>) s) })"

definition alarm_due :: "u32 \<Rightarrow> process \<Rightarrow> bool" where
  "alarm_due now q \<longleftrightarrow> alarm_time q > 0 \<and> now \<ge> alarm_time q"

definition ring_alarm :: "process \<Rightarrow> process" where
  "ring_alarm q = q\<lparr>pending_signals := pending_signals q OR sigbit (nat SIGALRM), alarm_time := 0,
     pstate := (if pstate q = PROCESS_WAITING \<or> pstate q = PROCESS_SLEEPING then PROCESS_READY else pstate q)\<rparr>"

definition check_process_alarms :: "kst \<Rightarrow> kst option" where
  "check_process_alarms s =
     (if ready_queue s = 0 then Some s
      else map_option snd (ring_update (\<lambda>_. alarm_due (tick s)) ring_alarm
             (ready_queue s) (ready_queue s) False s))"

definition get_pid :: "kst \<Rightarrow> int option" where
  "get_pid s = (if current_process s = 0 then Some (- 1)
     else do { c \<leftarrow> procs s (current_process s); Some (sint (pid c)) })"


subsection \<open>Insertion and removal\<close>

lemma insert_proc_spec:
  assumes "sched_inv s" "procs s (current_process s) = Some c" "procs s np = None" "np \<noteq> 0"
    "pstate q \<noteq> PROCESS_RUNNING"
  shows "\<exists>s'. insert_proc np q s = Some s' \<and> sched_inv s'
    \<and> s' = s\<lparr>procs := (procs s)(np \<mapsto> q\<lparr>pnext := pnext c\<rparr>, current_process s \<mapsto> c\<lparr>pnext := np\<rparr>)\<rparr>"
proof -
  define s' where "s' = s\<lparr>procs := (procs s)(np \<mapsto> q\<lparr>pnext := pnext c\<rparr>, current_process s \<mapsto> c\<lparr>pnext := np\<rparr>)\<rparr>"
  have ne: "np \<noteq> current_process s" using assms(2,3) by auto
  have ins: "insert_proc np q s = Some s'"
    using assms(2) ne by (simp add: insert_proc_def s'_def set_proc_def Let_def)
  obtain xs where xs: "ring (procs s) (current_process s) xs"
      "ready_queue s \<in> set (current_process s # xs)" "dom (procs s) = set (current_process s # xs)"
    using sched_inv_ring [OF assms(1)] by metis
  have np: "np \<notin> set xs" using assms(3) xs(3) by (metis domIff list.set_intros(2))
  have d: "current_process s \<notin> set xs" "distinct xs" "0 \<notin> set xs" "current_process s \<noteq> 0"
    using xs(1) unfolding ring_def by auto
  have "lseg (procs s) (pnext c) xs (current_process s)" by (rule ring_next [OF xs(1) assms(2)])
  then have "lseg (procs s') (pnext c) xs (current_process s)"
    by (rule lseg_cong) (use np d in \<open>simp add: s'_def, metis\<close>)
  then have "lseg (procs s') (current_process s) (current_process s # np # xs) (current_process s)"
    using ne by (simp add: s'_def)
  then have "ring (procs s') (current_process s') (np # xs)"
    using np d ne assms(4) by (simp add: ring_def s'_def)
  moreover have "dom (procs s') = set (current_process s' # np # xs)" using xs(3) by (simp add: s'_def insert_commute)
  moreover have "ready_queue s' \<in> set (current_process s' # np # xs)" using xs(2) by (simp add: s'_def, blast)
  ultimately have "one_ring s'"
    unfolding one_ring_def by (intro exI [of _ "np # xs"]) simp
  moreover have "p = current_process s'" if r: "procs s' p = Some r" "pstate r = PROCESS_RUNNING" for p r
  proof (rule ccontr)
    assume "p \<noteq> current_process s'"
    then have p: "p \<noteq> current_process s" by (simp add: s'_def)
    then have "p \<noteq> np" using r assms(5) ne by (auto simp: s'_def)
    then have "procs s p = Some r" using r(1) p by (simp add: s'_def)
    then show False using sched_inv_running [OF assms(1)] r(2) p by blast
  qed
  ultimately have "sched_inv s'" unfolding sched_inv_def by blast
  then show ?thesis using ins s'_def by blast
qed

lemma ring_pred_queue:
  assumes "ring h a ys" "ys \<noteq> []" "r \<in> set (a # ys)"
  shows "ring_pred h r a = Some (last ys)"
proof (cases "r = a")
  case True
  have "ring_pred h a a = Some (last (a # ys))"
    by (rule ring_pred_lseg) (use assms(1) in \<open>auto simp: ring_def\<close>)
  then show ?thesis using True assms(2) by simp
next
  case False
  then obtain as bs where ab: "ys = as @ r # bs" using assms(3) by (auto dest: split_list)
  have "lseg h a ((a # as) @ r # bs) a" using assms(1) ab by (simp add: ring_def)
  then obtain m where "lseg h m (r # bs) a" unfolding lseg_append by blast
  then have "ring_pred h r a = Some (last (r # bs))"
    using ring_pred_lseg [of h m "r # bs" a] assms(1) ab by (auto simp: ring_def)
  then show ?thesis using ab by simp
qed

text \<open>Removing the process that starts the ring.\<close>

lemma ring_remove:
  assumes "ring h a ys" "ys \<noteq> []" "h a = Some f" "h (last ys) = Some q"
  shows "ring (h(last ys \<mapsto> q\<lparr>pnext := pnext f\<rparr>, a := None)) (hd ys) (tl ys)"
proof -
  let ?h = "h(last ys \<mapsto> q\<lparr>pnext := pnext f\<rparr>, a := None)"
  have d: "distinct ys" "a \<notin> set ys" "0 \<notin> set ys" using assms(1) by (auto simp: ring_def)
  have l: "lseg h (pnext f) ys a" by (rule ring_next [OF assms(1,3)])
  then have hd: "pnext f = hd ys" using assms(2) by (cases ys) auto
  define zs where "zs = butlast ys"
  have z: "ys = zs @ [last ys]" using assms(2) by (simp add: zs_def)
  have lz: "lseg h (hd ys) (zs @ [last ys]) a" unfolding z [symmetric] hd [symmetric] by (rule l)
  obtain m where m: "lseg h (hd ys) zs m" "m = last ys"
    using lz unfolding lseg_append by auto
  have "distinct (zs @ [last ys])" unfolding z [symmetric] by (rule d(1))
  moreover have "set zs \<subseteq> set ys" unfolding zs_def using in_set_butlastD by fast
  ultimately have "last ys \<notin> set zs" "a \<notin> set zs" using d(2) by auto
  then have keep: "?h x = h x" if "x \<in> set zs" for x using that by (metis fun_upd_other)
  have "lseg h (hd ys) zs (last ys)" using m(1) unfolding m(2) .
  then have lz1: "lseg ?h (hd ys) zs (last ys)"
    by (rule lseg_cong) (use keep in metis)
  have "last ys \<noteq> a" using d(2) assms(2) last_in_set by metis
  then have "lseg ?h (last ys) [last ys] (hd ys)" using hd by simp
  with lz1 have "lseg ?h (hd ys) (zs @ [last ys]) (hd ys)" unfolding lseg_append by blast
  then have "lseg ?h (hd ys) ys (hd ys)" unfolding z [symmetric] .
  then show ?thesis using assms(2) d by (cases ys) (simp_all add: ring_def)
qed

lemma reap_spec:
  assumes "sched_inv s" "procs s a = Some f" "a \<noteq> current_process s"
  shows "\<exists>s1 s2 pr q. unlink_proc a s = Some s1 \<and> free_proc a s1 = Some s2 \<and> sched_inv s2
    \<and> pr \<noteq> a \<and> procs s pr = Some q \<and> procs s2 = (procs s)(pr \<mapsto> q\<lparr>pnext := pnext f\<rparr>, a := None)
    \<and> current_process s2 = current_process s \<and> next_pid s2 = next_pid s \<and> descs s2 = descs s
    \<and> node_calls s2 = node_calls s \<and> kstack s2 = kstack s \<and> tick s2 = tick s
    \<and> vmem s2 = pd_destroy (page_directory f) (vmem s)"
proof -
  obtain xs where xs: "ring (procs s) (current_process s) xs"
      "ready_queue s \<in> set (current_process s # xs)" "dom (procs s) = set (current_process s # xs)"
    using sched_inv_ring [OF assms(1)] by metis
  have "a \<in> set (current_process s # xs)" using xs(3) assms(2) by blast
  then obtain ys where ys: "ring (procs s) a ys" "set (a # ys) = dom (procs s)"
    using ring_rotate [OF xs(1)] xs(3) by metis
  have cur: "current_process s \<in> set ys" using ys(2) xs(3) assms(3) by (metis list.set_intros(1) set_ConsD)
  then have ne: "ys \<noteq> []" by auto
  define pr where "pr = last ys"
  have d: "a \<notin> set ys" using ys(1) by (simp add: ring_def)
  have pra: "pr \<noteq> a" using d ne last_in_set unfolding pr_def by metis
  obtain q where q: "procs s pr = Some q" using ring_mem [OF ys(1), of pr] ne unfolding pr_def by auto
  have "lseg (procs s) (pnext f) ys a" by (rule ring_next [OF ys(1) assms(2)])
  then have nf: "pnext f \<noteq> a" "pnext f = hd ys" using ne d by (cases ys; auto)+
  have rp: "ring_pred (procs s) (ready_queue s) a = Some pr"
    unfolding pr_def by (rule ring_pred_queue [OF ys(1) ne]) (use xs(2,3) ys(2) in simp)
  define s1 where "s1 = (set_proc pr (q\<lparr>pnext := pnext f\<rparr>) s)
    \<lparr>ready_queue := (if ready_queue s = a then pnext f else ready_queue s)\<rparr>"
  have un: "unlink_proc a s = Some s1"
    using assms(2) nf rp q by (simp add: unlink_proc_def upd_proc_def s1_def set_proc_def)
  define s2 where "s2 = s1\<lparr>procs := (procs s1)(a := None), vmem := pd_destroy (page_directory f) (vmem s)\<rparr>"
  have fr: "free_proc a s1 = Some s2" using assms(2) pra by (simp add: free_proc_def s2_def s1_def)
  have p2: "procs s2 = (procs s)(pr \<mapsto> q\<lparr>pnext := pnext f\<rparr>, a := None)" by (simp add: s2_def s1_def)
  have "ring (procs s2) (hd ys) (tl ys)"
    unfolding p2 pr_def by (rule ring_remove [OF ys(1) ne assms(2)]) (use q pr_def in simp)
  moreover have hdtl: "hd ys # tl ys = ys" using ne by simp
  ultimately obtain zs where zs: "ring (procs s2) (current_process s) zs" "set (current_process s # zs) = set ys"
    using ring_rotate [of "procs s2" "hd ys" "tl ys" "current_process s"] cur by metis
  have "dom (procs s2) = dom (procs s) - {a}" unfolding p2 using q by auto
  then have dom: "dom (procs s2) = set ys" using ys(2) d by auto
  have "ready_queue s2 \<in> set ys"
    using xs(2,3) ys(2) nf ne by (auto simp: s2_def s1_def)
  then have "one_ring s2"
    unfolding one_ring_def using zs dom by (intro exI [of _ zs]) (simp add: s2_def s1_def)
  moreover have "p = current_process s2" if "procs s2 p = Some r" "pstate r = PROCESS_RUNNING" for p r
    using that q sched_inv_running [OF assms(1)] unfolding p2 by (auto simp: s2_def s1_def split: if_splits)
  ultimately have "sched_inv s2" unfolding sched_inv_def by blast
  then show ?thesis using un fr pra q p2
    by (intro exI [of _ s1] exI [of _ s2] exI [of _ pr] exI [of _ q]) (simp add: s2_def s1_def)
qed


subsection \<open>fork keeps the descriptors\<close>

lemma add_ref_frame: "add_ref d s = Some s' \<Longrightarrow> \<exists>h. s' = s\<lparr>descs := h\<rparr>"
  by (auto simp: add_ref_def Option.bind_eq_Some_conv)

lemma share_fds_ok:
  assumes "fd_ok k s" "\<And>d. d \<in> set ds \<Longrightarrow> d \<noteq> 0 \<Longrightarrow> descs s d \<noteq> None"
    "\<And>d. d \<noteq> 0 \<Longrightarrow> fd_refs s d + k d + count_list ds d < 2 ^ 32"
  shows "\<exists>h. share_fds ds s = Some (s\<lparr>descs := h\<rparr>)
    \<and> fd_ok (\<lambda>d. k d + count_list ds d) (s\<lparr>descs := h\<rparr>) \<and> dom h = dom (descs s)"
  using assms
proof (induction ds arbitrary: k s)
  case Nil
  then show ?case by (intro exI [of _ "descs s"]) simp
next
  case (Cons d ds)
  show ?case
  proof (cases "d = 0")
    case True
    have "fd_refs s x + k x + count_list ds x < 2 ^ 32" if "x \<noteq> 0" for x
      using Cons.prems(3) [OF that] True that by simp
    then obtain h where h: "share_fds ds s = Some (s\<lparr>descs := h\<rparr>)"
        "fd_ok (\<lambda>d. k d + count_list ds d) (s\<lparr>descs := h\<rparr>)" "dom h = dom (descs s)"
      using Cons.IH [OF Cons.prems(1)] Cons.prems(2) by auto
    have "fd_ok (\<lambda>x. k x + count_list (d # ds) x) (s\<lparr>descs := h\<rparr>)"
      using h(2) True unfolding fd_ok_def by (simp cong: option.case_cong)
    then show ?thesis using h True by auto
  next
    case False
    then obtain e where e: "descs s d = Some e" using Cons.prems(2) [of d] by auto
    have "fd_refs s d + k d + 1 < 2 ^ 32" using Cons.prems(3) [OF False] by simp
    then obtain s1 where s1: "add_ref d s = Some s1" "fd_ok (plus_ref k d) s1" "procs s1 = procs s" "dom (descs s1) = dom (descs s)"
      using add_ref_ok [OF Cons.prems(1) e] by blast
    obtain h1 where h1: "s1 = s\<lparr>descs := h1\<rparr>" using add_ref_frame [OF s1(1)] by blast
    have "\<And>x. x \<in> set ds \<Longrightarrow> x \<noteq> 0 \<Longrightarrow> descs s1 x \<noteq> None"
      using Cons.prems(2) s1(4) by (metis domIff list.set_intros(2))
    moreover have "\<And>x. x \<noteq> 0 \<Longrightarrow> fd_refs s1 x + (plus_ref k d) x + count_list ds x < 2 ^ 32"
    proof -
      fix x assume x: "(x :: u32) \<noteq> 0"
      show "fd_refs s1 x + (plus_ref k d) x + count_list ds x < 2 ^ 32"
        using Cons.prems(3) [OF x] unfolding fd_refs_cong [OF s1(3)] by (cases "x = d") simp_all
    qed
    ultimately obtain h where h: "share_fds ds s1 = Some (s1\<lparr>descs := h\<rparr>)"
        "fd_ok (\<lambda>x. (plus_ref k d) x + count_list ds x) (s1\<lparr>descs := h\<rparr>)" "dom h = dom (descs s1)"
      using Cons.IH [OF s1(2)] by blast
    have "(\<lambda>x. (plus_ref k d) x + count_list ds x) = (\<lambda>x. k x + count_list (d # ds) x)" by auto
    then show ?thesis using h s1 h1 False by (intro exI [of _ h]) simp
  qed
qed

lemma fd_refs_insert:
  assumes "finite (dom (procs s))" "procs s np = None" "np \<noteq> p" "procs s p = Some c"
    "procs s' = (procs s)(np \<mapsto> q, p \<mapsto> c')" "fd_table c' = fd_table c"
  shows "fd_refs s' d = fd_refs s d + count_list (fd_table q) d"
proof -
  have "dom (procs s') = insert np (dom (procs s))" using assms(4,5) by auto
  moreover have "np \<notin> dom (procs s)" using assms(2) by auto
  moreover have "(\<Sum>x \<in> dom (procs s). count_list (fd_table (the (procs s' x))) d)
      = (\<Sum>x \<in> dom (procs s). count_list (fd_table (the (procs s x))) d)"
    by (rule sum.cong) (use assms in auto)
  ultimately show ?thesis using assms(1,3,5) unfolding fd_refs_def by simp
qed

lemma insert_fd_ok:
  assumes "fd_ok (\<lambda>d. k d + count_list (fd_table q) d) s" "procs s np = None" "np \<noteq> p" "procs s p = Some c"
    "length (fd_table q) = MAX_PROCESS_FILES"
    "procs s' = (procs s)(np \<mapsto> q, p \<mapsto> c')" "fd_table c' = fd_table c" "descs s' = descs s"
  shows "fd_ok k s'"
proof -
  have r: "fd_refs s' d = fd_refs s d + count_list (fd_table q) d" for d
    by (rule fd_refs_insert [OF fd_ok_finite [OF assms(1)] assms(2,3,4,6,7)])
  show ?thesis
  proof (rule fd_okI)
    show "finite (dom (procs s'))" using fd_ok_finite [OF assms(1)] unfolding assms(6) by simp
    show "descs s' 0 = None" using assms(1,8) by (simp add: fd_ok_def)
    show "length (fd_table x) = MAX_PROCESS_FILES" if "procs s' a = Some x" for a x
      using that fd_ok_len [OF assms(1), of a x] fd_ok_len [OF assms(1,4)] assms(5,7)
      unfolding assms(6) by (auto split: if_splits)
    show "fd_refs s' d = 0 \<and> k d = 0" if "d \<noteq> 0" "descs s' d = None" for d
      using fd_ok_None [OF assms(1), of d] that unfolding r assms(8) by simp
    show "unat (ref_count e) = fd_refs s' d + k d \<and> 0 < fd_refs s' d + k d" if "d \<noteq> 0" "descs s' d = Some e" for d e
      using fd_ok_Some(2,3) [OF assms(1), of d e] that unfolding r assms(8) by linarith
  qed
qed

lemma fd_ok_frame:
  assumes "fd_ok k s" "procs s' = procs s" "descs s' = descs s"
  shows "fd_ok k s'"
  using assms unfolding fd_ok_def fd_refs_cong [OF assms(2)] by simp

subsection \<open>Reading back a kernel stack\<close>

lemma pushes_append: "pushes (xs @ [w]) sm = push w (pushes xs sm)"
  by (simp add: pushes_def)

lemma fst_pushes: "fst (pushes ws (t0, m)) = t0 - of_nat (4 * length ws)"
  by (induction ws rule: rev_induct) (simp_all add: pushes_append push_def, simp add: pushes_def)

lemma pushes_read:
  assumes "i < length ws" "length ws < 2 ^ 30"
  shows "snd (pushes ws (t0, m)) (t0 - of_nat (4 * Suc i)) = ws ! i"
  using assms
proof (induction ws rule: rev_induct)
  case Nil
  then show ?case by simp
next
  case (snoc w ws)
  have a: "fst (pushes ws (t0, m)) - 4 = t0 - of_nat (4 * Suc (length ws))"
    by (simp add: fst_pushes)
  show ?case
  proof (cases "i = length ws")
    case True
    then show ?thesis unfolding pushes_append push_def a by simp
  next
    case False
    then have i: "i < length ws" using snoc.prems(1) by simp
    have "(of_nat (4 * Suc i) :: u32) \<noteq> of_nat (4 * Suc (length ws))"
    proof
      assume "(of_nat (4 * Suc i) :: u32) = of_nat (4 * Suc (length ws))"
      moreover have "unat (of_nat (4 * Suc i) :: u32) = 4 * Suc i"
        "unat (of_nat (4 * Suc (length ws)) :: u32) = 4 * Suc (length ws)"
        using i snoc.prems(2) by (intro unat_of_nat_u32; simp)+
      ultimately have "4 * Suc i = 4 * Suc (length ws)" by metis
      then show False using i by simp
    qed
    then have "t0 - of_nat (4 * Suc i) \<noteq> t0 - (of_nat (4 * Suc (length ws)) :: u32)" by simp
    then show ?thesis using snoc i unfolding pushes_append push_def a by (simp add: nth_append)
  qed
qed


text \<open>
  The code that first runs in a child (process_asm.asm): \<open>switch_task\<close> pops the flags and four
  registers and returns to the word above them; \<open>fork_child_return\<close> pops the data segment and
  the \<open>pusha\<close> block, skips the two interrupt words and leaves with \<open>iret\<close>.
\<close>

definition switch_target :: "u32 \<Rightarrow> (u32 \<Rightarrow> u32) \<Rightarrow> u32" where
  "switch_target sp mem = mem (sp + 20)"

definition child_registers :: "u32 \<Rightarrow> (u32 \<Rightarrow> u32) \<Rightarrow> registers" where
  "child_registers sp mem =
     (let f = sp + 24 in
      \<lparr>r_ds = mem f, r_edi = mem (f + 4), r_esi = mem (f + 8), r_ebp = mem (f + 12), r_esp = mem (f + 16),
       r_ebx = mem (f + 20), r_edx = mem (f + 24), r_ecx = mem (f + 28), r_eax = mem (f + 32),
       r_int_no = mem (f + 36), r_err_code = mem (f + 40), r_eip = mem (f + 44), r_cs = mem (f + 48),
       r_eflags = mem (f + 52), r_useresp = mem (f + 56), r_ss = mem (f + 60)\<rparr>)"

lemma fork_frame_roundtrip:
  fixes ret t0 :: u32
  assumes "pushes (fork_frame ret r) (t0, m) = (sp, mem)"
  shows "switch_target sp mem = ret" "child_registers sp mem = r\<lparr>r_eax := 0, r_eflags := r_eflags r OR 0x200\<rparr>"
proof -
  have len: "length (fork_frame ret r) = 22" by (simp add: fork_frame_def)
  have sp: "sp = t0 - 88"
    using fst_pushes [where ws = "fork_frame ret r" and ?t0.0 = t0 and m = m] assms len by simp
  have rd: "mem (t0 - of_nat (4 * Suc i)) = fork_frame ret r ! i" if "i < 22" for i
    using pushes_read [where i = i and ws = "fork_frame ret r" and ?t0.0 = t0 and m = m] assms len that by simp
  have at: "mem (sp + k) = fork_frame ret r ! i" if "i < 22" "k + of_nat (4 * Suc i) = 88" for i and k :: u32
  proof -
    have "t0 = sp + 88" using sp by simp
    also have "\<dots> = (sp + k) + of_nat (4 * Suc i)" unfolding that(2) [symmetric] by (rule add.assoc [symmetric])
    finally have "sp + k = t0 - of_nat (4 * Suc i)" by (metis add_diff_cancel)
    then show ?thesis using rd [OF that(1)] by simp
  qed
  show "switch_target sp mem = ret"
    using at [of 16 20] by (simp add: switch_target_def fork_frame_def)
  show "child_registers sp mem = r\<lparr>r_eax := 0, r_eflags := r_eflags r OR 0x200\<rparr>"
    using at [of 15 24] at [of 14 28] at [of 13 32] at [of 12 36] at [of 11 40] at [of 10 44] at [of 9 48]
      at [of 8 52] at [of 7 56] at [of 6 60] at [of 5 64] at [of 4 68] at [of 3 72] at [of 2 76] at [of 1 80] at [of 0 84]
    by (simp add: child_registers_def fork_frame_def Let_def add.assoc)
qed


subsection \<open>fork, exit and wait: what they do\<close>

lemma fork_spec:
  assumes "sched_inv s" "fd_inv s" "procs s (current_process s) = Some c" "procs s np = None" "np \<noteq> 0"
    "\<And>d. d \<noteq> 0 \<Longrightarrow> fd_refs s d + MAX_PROCESS_FILES < 2 ^ 32"
    "pd_clone (page_directory c) (vmem s) = (pd, m1)" "pd \<noteq> 0"
  shows "\<exists>s' q. fork_process np blk kstk ret regs s = Some (sint (next_pid s), s') \<and> sched_inv s' \<and> fd_inv s'
    \<and> procs s' = (procs s)(np \<mapsto> q, current_process s \<mapsto> c\<lparr>pnext := np\<rparr>) \<and> pid q = next_pid s
    \<and> pstate q = PROCESS_READY \<and> parent q = current_process s \<and> page_directory q = pd
    \<and> fd_table q = fd_table c \<and> cwd q = cwd c \<and> pledges q = pledges c \<and> heap_end q = heap_end c
    \<and> uid q = uid blk \<and> euid q = euid blk \<and> pgid q = pgid blk \<and> priority q = priority blk
    \<and> signal_actions q = signal_actions blk \<and> pnext q = pnext c
    \<and> vmem s' = m1 \<and> next_pid s' = next_pid s + 1 \<and> current_process s' = current_process s
    \<and> (saved_esp q, kstack s') = pushes (fork_frame ret regs) (kstk + 4096, kstack s)"
proof -
  let ?s0 = "s\<lparr>next_pid := next_pid s + 1, vmem := m1\<rparr>"
  obtain sp mem where pm: "pushes (fork_frame ret regs) (kstk + 4096, kstack s) = (sp, mem)" by fastforce
  have len: "length (fd_table c) = MAX_PROCESS_FILES" by (rule fd_ok_len [OF assms(2,3)])
  have ok0: "fd_ok no_refs ?s0" by (rule fd_ok_frame [OF assms(2)]) simp_all
  have al: "descs ?s0 d \<noteq> None" if d: "d \<in> set (fd_table c)" "d \<noteq> 0" for d
  proof -
    from d(1) obtain i where i: "i < length (fd_table c)" "fd_table c ! i = d"
      by (auto simp: in_set_conv_nth)
    obtain e where "descs s (fd_table c ! i) = Some e"
      by (rule fd_held [OF assms(2,3), of i]) (use i len d(2) in auto)
    then show ?thesis using i(2) by simp
  qed
  have bound: "fd_refs ?s0 d + no_refs d + count_list (fd_table c) d < 2 ^ 32" if "d \<noteq> 0" for d
  proof -
    have "count_list (fd_table c) d \<le> MAX_PROCESS_FILES" using count_le_length [of "fd_table c" d] len by simp
    moreover have "fd_refs ?s0 = fd_refs s" by (rule fd_refs_cong) simp
    ultimately show ?thesis using assms(6) [OF that] by simp
  qed
  obtain h where h: "share_fds (fd_table c) ?s0 = Some (?s0\<lparr>descs := h\<rparr>)"
      "fd_ok (\<lambda>d. no_refs d + count_list (fd_table c) d) (?s0\<lparr>descs := h\<rparr>)"
    using share_fds_ok [OF ok0 al bound] by blast
  define s1 where "s1 = (?s0\<lparr>descs := h\<rparr>)\<lparr>kstack := mem\<rparr>"
  define q where "q = blk\<lparr>pid := next_pid s, pstate := PROCESS_READY, parent := current_process s, exit_code := 0,
      page_directory := pd, entry_point := entry_point c, user_stack_top := user_stack_top c,
      heap_end := heap_end c, cwd := cwd c, pledges := pledges c, fd_table := fd_table c,
      kernel_stack_top := kstk + 4096, saved_esp := sp\<rparr>"
  have inv1: "sched_inv s1" using assms(1) by (simp add: sched_inv_def one_ring_def s1_def)
  have "procs s1 (current_process s1) = Some c" "procs s1 np = None" "pstate q \<noteq> PROCESS_RUNNING"
    using assms(3,4) by (simp_all add: s1_def q_def)
  then obtain s' where s': "insert_proc np q s1 = Some s'" "sched_inv s'"
      "s' = s1\<lparr>procs := (procs s1)(np \<mapsto> q\<lparr>pnext := pnext c\<rparr>, current_process s1 \<mapsto> c\<lparr>pnext := np\<rparr>)\<rparr>"
    using insert_proc_spec [OF inv1, of c np q] assms(5) by blast
  have fk: "fork_process np blk kstk ret regs s = Some (sint (next_pid s), s')"
    using assms(3,7,8) h(1) pm s'(1) by (simp add: fork_process_def Let_def s1_def q_def)
  have ne: "np \<noteq> current_process s" using assms(3,4) by auto
  have qt: "fd_table (q\<lparr>pnext := pnext c\<rparr>) = fd_table c" by (simp add: q_def)
  have "fd_inv s'"
  proof (rule insert_fd_ok [where q = "q\<lparr>pnext := pnext c\<rparr>" and c' = "c\<lparr>pnext := np\<rparr>" and p = "current_process s"
        and c = c and np = np and s = s1])
    show "fd_ok (\<lambda>d. no_refs d + count_list (fd_table (q\<lparr>pnext := pnext c\<rparr>)) d) s1"
      unfolding qt by (rule fd_ok_frame [OF h(2)]) (simp_all add: s1_def)
  qed (use assms(3,4) ne len s'(3) in \<open>simp_all add: s1_def q_def\<close>)
  then show ?thesis using fk s' pm by (intro exI [of _ s'] exI [of _ "q\<lparr>pnext := pnext c\<rparr>"]) (simp add: s1_def q_def)
qed


lemma kill_frame:
  assumes "sched_inv s" "sys_kill p n s = Some (r, s')"
  shows "\<exists>h. s' = s\<lparr>procs := h\<rparr> \<and> (\<forall>a. (h a = None) = (procs s a = None))
    \<and> (\<forall>a q. procs s a = Some q \<longrightarrow> h a = Some q \<or> h a = Some (post_signal n q))"
proof -
  have id: "\<exists>h. s = s\<lparr>procs := h\<rparr> \<and> (\<forall>a. (h a = None) = (procs s a = None))
      \<and> (\<forall>a q. procs s a = Some q \<longrightarrow> h a = Some q \<or> h a = Some (post_signal n q))"
    by (intro exI [of _ "procs s"]) simp
  have mp: "(\<forall>a. (mapped P (post_signal n) A (procs s) a = None) = (procs s a = None))
      \<and> (\<forall>a q. procs s a = Some q \<longrightarrow> mapped P (post_signal n) A (procs s) a = Some q
           \<or> mapped P (post_signal n) A (procs s) a = Some (post_signal n q))" for P A
    by (auto simp: mapped_def)
  have all: "\<exists>h. t = s\<lparr>procs := h\<rparr> \<and> (\<forall>a. (h a = None) = (procs s a = None))
      \<and> (\<forall>a q. procs s a = Some q \<longrightarrow> h a = Some q \<or> h a = Some (post_signal n q))"
    if "kill_all P n s = Some (u, t)" for P u t
    using that mp [of P "dom (procs s)"] unfolding kill_all_eq [OF assms(1)] by auto
  have one: "\<exists>h. t = s\<lparr>procs := h\<rparr> \<and> (\<forall>a. (h a = None) = (procs s a = None))
      \<and> (\<forall>a q. procs s a = Some q \<longrightarrow> h a = Some q \<or> h a = Some (post_signal n q))"
    if k: "kill_one i n s = Some (u, t)" for i u t
  proof -
    consider a q where "procs s a = Some q" "t = set_proc a (post_signal n q) s" | "t = s"
      using kill_one_cases [OF assms(1), of i n] k by auto
    then show ?thesis
    proof cases
      case 1
      then show ?thesis by (intro exI [of _ "(procs s)(a \<mapsto> post_signal n q)"]) (auto simp: set_proc_def)
    next
      case 2
      then show ?thesis using id by simp
    qed
  qed
  obtain c where c: "procs s (current_process s) = Some c" using sched_inv_ring [OF assms(1)] by metis
  define p1 where "p1 = (if p = 0 then sint (pgid c) else p)"
  have eq: "sys_kill p n s = (if n < 0 \<or> n \<ge> int NSIG then Some (- EINVAL, s)
      else if p1 = -1 then kill_all (\<lambda>a q. pid q > 1 \<and> a \<noteq> current_process s) n s
      else if p1 < -1 then kill_all (\<lambda>_ q. pgid q = word_of_int (- p1)) n s
      else kill_one p1 n s)"
    using c by (simp add: sys_kill_def p1_def)
  consider "n < 0 \<or> n \<ge> int NSIG" | "\<not> (n < 0 \<or> n \<ge> int NSIG)" "p1 = -1" | "\<not> (n < 0 \<or> n \<ge> int NSIG)" "p1 < -1"
    | "\<not> (n < 0 \<or> n \<ge> int NSIG)" "\<not> p1 = -1" "\<not> p1 < -1" by linarith
  then show ?thesis
  proof cases
    case 1
    then have "s' = s" using assms(2) eq by auto
    then show ?thesis using id by simp
  next
    case 2
    then show ?thesis using all assms(2) eq by simp
  next
    case 3
    then have "sys_kill p n s = kill_all (\<lambda>_ q. pgid q = word_of_int (- p1)) n s" unfolding eq by simp
    then show ?thesis using all assms(2) by metis
  next
    case 4
    then show ?thesis using one assms(2) eq by simp
  qed
qed

lemma fd_ok_tables:
  assumes "fd_ok k s" "descs s' = descs s" "\<And>p. map_option fd_table (procs s' p) = map_option fd_table (procs s p)"
  shows "fd_ok k s'"
proof -
  have dom: "dom (procs s') = dom (procs s)" 
    by (rule set_eqI) (use assms(3) in \<open>metis domIff option.map_disc_iff\<close>)
  have "fd_table (the (procs s' p)) = fd_table (the (procs s p))" if "p \<in> dom (procs s)" for p
    using that assms(3) [of p] by (cases "procs s' p") auto
  then have r: "fd_refs s' = fd_refs s" unfolding fd_refs_def dom by (intro ext sum.cong) simp_all
  have l: "length (fd_table q) = MAX_PROCESS_FILES" if "procs s' p = Some q" for p q
    using that assms(3) [of p] fd_ok_len [OF assms(1)] by (cases "procs s p") auto
  show ?thesis using assms(1) l unfolding fd_ok_def r dom assms(2) by blast
qed

lemma kill_fd_ok:
  assumes "sched_inv s" "sys_kill p n s = Some (r, s')" "fd_ok k s"
  shows "fd_ok k s'"
proof -
  obtain h where h: "s' = s\<lparr>procs := h\<rparr>" "\<And>a. (h a = None) = (procs s a = None)"
      "\<And>a q. procs s a = Some q \<Longrightarrow> h a = Some q \<or> h a = Some (post_signal n q)"
    using kill_frame [OF assms(1,2)] by blast
  have "map_option fd_table (h a) = map_option fd_table (procs s a)" for a
    using h(2) [of a] h(3) [of a] by (cases "procs s a") auto
  then show ?thesis by (intro fd_ok_tables [OF assms(3)]) (simp_all add: h(1))
qed

lemma schedule_fd_ok:
  assumes "sched_inv s" "schedule s = Some s'" "fd_ok k s"
  shows "fd_ok k s'"
proof (rule fd_ok_tables [OF assms(3)])
  show "descs s' = descs s" using schedule_frame(1) [OF assms(1,2)] by simp
  show "map_option fd_table (procs s' p) = map_option fd_table (procs s p)" for p
  proof (cases "procs s p")
    case None
    then show ?thesis using schedule_frame(2) [OF assms(1,2), of p] by simp
  next
    case (Some q)
    then show ?thesis using schedule_frame(3) [OF assms(1,2) Some] by (auto simp: sched_same_def)
  qed
qed

text \<open>Closing the descriptors one by one.\<close>

lemma close_slot_spec:
  assumes "fd_inv s" "procs s (current_process s) = Some c" "i < MAX_PROCESS_FILES"
  shows "\<exists>h n. close_slot i s = Some (s\<lparr>procs := (procs s)(current_process s \<mapsto> put_slot i 0 c), descs := h, node_calls := n\<rparr>)
    \<and> fd_inv (s\<lparr>procs := (procs s)(current_process s \<mapsto> put_slot i 0 c), descs := h, node_calls := n\<rparr>)"
proof (cases "fd_table c ! i = 0")
  case True
  then have "put_slot i 0 c = c" using list_update_id [of "fd_table c" i] by (simp add: put_slot_def)
  moreover have "(procs s)(current_process s \<mapsto> c) = procs s" using assms(2) by (simp add: fun_upd_idem)
  ultimately show ?thesis using assms True
    by (intro exI [of _ "descs s"] exI [of _ "node_calls s"]) (simp add: close_slot_def)
next
  case False
  let ?t = "set_proc (current_process s) (put_slot i 0 c) s"
  have t: "fd_ok (plus_ref no_refs (fd_table c ! i)) ?t"
    by (rule take_slot_ok [OF assms(1,2,3) _ False]) simp
  obtain s' where s': "drop_ref (fd_table c ! i) ?t = Some s'" "fd_inv s'"
    using drop_ref_ok [OF t False] by blast
  have "\<exists>h n. s' = ?t\<lparr>descs := h, node_calls := n\<rparr>"
  proof -
    obtain e where "descs ?t (fd_table c ! i) = Some e" using s'(1) by (auto simp: drop_ref_def Option.bind_eq_Some_conv)
    then consider "s' = ?t\<lparr>descs := (descs ?t)(fd_table c ! i := None), node_calls := node_calls ?t @ [Node_close (fd_node e)]\<rparr>"
      | "s' = ?t\<lparr>descs := (descs ?t)(fd_table c ! i \<mapsto> e\<lparr>ref_count := ref_count e - 1\<rparr>)\<rparr>"
      using s'(1) by (auto simp: drop_ref_def split: if_splits)
    then show ?thesis
    proof cases
      case 2
      then have "s' = ?t\<lparr>descs := (descs ?t)(fd_table c ! i \<mapsto> e\<lparr>ref_count := ref_count e - 1\<rparr>), node_calls := node_calls ?t\<rparr>"
        by simp
      then show ?thesis by blast
    qed blast
  qed
  then obtain h n where hn: "s' = ?t\<lparr>descs := h, node_calls := n\<rparr>" by blast
  then have "s' = s\<lparr>procs := (procs s)(current_process s \<mapsto> put_slot i 0 c), descs := h, node_calls := n\<rparr>"
    by (simp add: set_proc_def)
  then show ?thesis using s' assms(2) False
    by (intro exI [of _ h] exI [of _ n]) (simp add: close_slot_def)
qed


definition clear_fds :: "nat list \<Rightarrow> process \<Rightarrow> process" where
  "clear_fds is c = fold (\<lambda>i. put_slot i 0) is c"

lemma clear_fds_table: "fd_table (clear_fds is c) = fold (\<lambda>i t. t[i := 0]) is (fd_table c)"
  by (induction "is" arbitrary: c) (simp_all add: clear_fds_def)

lemma clear_fds_same: "\<exists>t. clear_fds is c = c\<lparr>fd_table := t\<rparr>"
proof (induction "is" arbitrary: c)
  case Nil
  show ?case by (intro exI [of _ "fd_table c"]) (simp add: clear_fds_def)
next
  case (Cons i "is")
  from this [of "put_slot i 0 c"] show ?case by (auto simp: clear_fds_def put_slot_def)
qed

lemma fold_clear: "n \<le> length t \<Longrightarrow> fold (\<lambda>i t. t[i := 0]) [0 ..< n] t = replicate n (0::u32) @ drop n t"
proof (induction n)
  case 0
  then show ?case by simp
next
  case (Suc n)
  have d: "drop n t = t ! n # drop (Suc n) t" using Suc.prems by (simp add: Cons_nth_drop_Suc)
  from Suc have "fold (\<lambda>i t. t[i := 0]) [0 ..< Suc n] t = (replicate n 0 @ drop n t)[n := 0]" by simp
  also have "(replicate n 0 @ drop n t)[n := 0] = replicate (Suc n) 0 @ drop (Suc n) t"
    unfolding d by (simp add: list_update_append replicate_app_Cons_same)
  finally show ?case .
qed

lemma close_slots_spec:
  assumes "fd_inv s" "procs s (current_process s) = Some c" "\<forall>i \<in> set is. i < MAX_PROCESS_FILES"
  shows "\<exists>h n. close_slots is s = Some (s\<lparr>procs := (procs s)(current_process s \<mapsto> clear_fds is c), descs := h, node_calls := n\<rparr>)
    \<and> fd_inv (s\<lparr>procs := (procs s)(current_process s \<mapsto> clear_fds is c), descs := h, node_calls := n\<rparr>)"
  using assms
proof (induction "is" arbitrary: s c)
  case Nil
  then have "(procs s)(current_process s \<mapsto> c) = procs s" by (simp add: fun_upd_idem)
  then show ?case using Nil by (intro exI [of _ "descs s"] exI [of _ "node_calls s"]) (simp add: clear_fds_def)
next
  case (Cons i "is")
  obtain h n where hn: "close_slot i s = Some (s\<lparr>procs := (procs s)(current_process s \<mapsto> put_slot i 0 c), descs := h, node_calls := n\<rparr>)"
      "fd_inv (s\<lparr>procs := (procs s)(current_process s \<mapsto> put_slot i 0 c), descs := h, node_calls := n\<rparr>)"
    using close_slot_spec [OF Cons.prems(1,2), of i] Cons.prems(3) by auto
  define t where "t = s\<lparr>procs := (procs s)(current_process s \<mapsto> put_slot i 0 c), descs := h, node_calls := n\<rparr>"
  have t: "procs t (current_process t) = Some (put_slot i 0 c)" by (simp add: t_def)
  have p3: "\<forall>i \<in> set is. i < MAX_PROCESS_FILES" using Cons.prems(3) by simp
  obtain h' n' where "close_slots is t = Some (t\<lparr>procs := (procs t)(current_process t \<mapsto> clear_fds is (put_slot i 0 c)), descs := h', node_calls := n'\<rparr>)"
      "fd_inv (t\<lparr>procs := (procs t)(current_process t \<mapsto> clear_fds is (put_slot i 0 c)), descs := h', node_calls := n'\<rparr>)"
    using Cons.IH [OF hn(2) [folded t_def] t p3] by blast
  moreover have "t\<lparr>procs := (procs t)(current_process t \<mapsto> clear_fds is (put_slot i 0 c)), descs := h', node_calls := n'\<rparr>
      = s\<lparr>procs := (procs s)(current_process s \<mapsto> clear_fds (i # is) c), descs := h', node_calls := n'\<rparr>"
    by (simp add: t_def clear_fds_def)
  moreover have "close_slots (i # is) s = close_slots is t" using hn(1) by (simp add: t_def)
  ultimately show ?case by metis
qed

lemma become_zombie_spec:
  fixes st :: u32
  assumes "sched_inv s" "procs s (current_process s) = Some c"
  defines "z \<equiv> c\<lparr>pstate := PROCESS_ZOMBIE, exit_code := st\<rparr>"
  shows "become_zombie st s = Some (set_proc (current_process s) z s)" "sched_inv (set_proc (current_process s) z s)"
proof -
  show "become_zombie st s = Some (set_proc (current_process s) z s)"
    using assms(2) by (simp add: become_zombie_def upd_proc_def z_def)
  show "sched_inv (set_proc (current_process s) z s)"
    by (rule sched_inv_set_proc [OF assms(1,2)]) (simp_all add: z_def)
qed

text \<open>The zombie with its descriptors closed, before the parent is told.\<close>

lemma exit_until_signal:
  assumes "sched_inv s" "fd_inv s" "procs s (current_process s) = Some c"
  shows "\<exists>u z. exit_process st s = do { t \<leftarrow> signal_parent u; schedule t } \<and> sched_inv u \<and> fd_inv u
    \<and> current_process u = current_process s \<and> ready_queue u = ready_queue s
    \<and> procs u = (procs s)(current_process s \<mapsto> z)
    \<and> pstate z = PROCESS_ZOMBIE \<and> exit_code z = st \<and> fd_table z = replicate MAX_PROCESS_FILES 0
    \<and> parent z = parent c \<and> pid z = pid c \<and> pgid z = pgid c"
proof -
  define cur where "cur = current_process s"
  define z0 where "z0 = c\<lparr>pstate := PROCESS_ZOMBIE, exit_code := st\<rparr>"
  define s1 where "s1 = set_proc cur z0 s"
  have s1: "become_zombie st s = Some s1" "sched_inv s1"
    using become_zombie_spec [OF assms(1,3)] by (simp_all add: s1_def z0_def cur_def)
  have f1: "fd_inv s1"
    by (rule fd_ok_tables [OF assms(2)]) (use assms(3) in \<open>auto simp: s1_def z0_def cur_def\<close>)
  have c1: "procs s1 (current_process s1) = Some z0" by (simp add: s1_def cur_def)
  define z where "z = clear_fds [0 ..< MAX_PROCESS_FILES] z0"
  have all: "\<forall>i \<in> set [0 ..< MAX_PROCESS_FILES]. i < MAX_PROCESS_FILES" by (simp only: set_upt) simp
  obtain h n where hn: "close_slots [0 ..< MAX_PROCESS_FILES] s1 = Some (s1\<lparr>procs := (procs s1)(current_process s1 \<mapsto> z), descs := h, node_calls := n\<rparr>)"
      "fd_inv (s1\<lparr>procs := (procs s1)(current_process s1 \<mapsto> z), descs := h, node_calls := n\<rparr>)"
    using close_slots_spec [OF f1 c1 all] unfolding z_def by blast
  define u where "u = s1\<lparr>procs := (procs s1)(current_process s1 \<mapsto> z), descs := h, node_calls := n\<rparr>"
  have len: "length (fd_table z0) = MAX_PROCESS_FILES" using fd_ok_len [OF f1 c1] .
  have zt: "fd_table z = replicate MAX_PROCESS_FILES 0"
    unfolding z_def clear_fds_table using fold_clear [of MAX_PROCESS_FILES "fd_table z0"] len by simp
  obtain t0 where t0: "z = z0\<lparr>fd_table := t0\<rparr>" using clear_fds_same unfolding z_def by blast
  have z: "pstate z = PROCESS_ZOMBIE" "exit_code z = st" "parent z = parent c" "pid z = pid c" "pgid z = pgid c" "pnext z = pnext c"
    unfolding t0 by (simp_all add: z0_def)
  have "sched_inv (set_proc cur z s1)"
    by (rule sched_inv_set_proc [OF s1(2), where ?q0.0 = z0]) (use z in \<open>simp_all add: s1_def z0_def\<close>)
  then have "sched_inv ((set_proc cur z s1)\<lparr>descs := h, node_calls := n\<rparr>)"
    by (intro sched_inv_irrelevant)
  moreover have "u = (set_proc cur z s1)\<lparr>descs := h, node_calls := n\<rparr>"
    by (simp add: u_def set_proc_def s1_def cur_def)
  ultimately have iu: "sched_inv u" by simp
  have fu: "fd_inv u" unfolding u_def by (rule hn(2))
  have pu: "procs u = (procs s)(cur \<mapsto> z)" "current_process u = cur" "ready_queue u = ready_queue s"
    by (simp_all add: u_def s1_def cur_def)
  have ex: "exit_process st s = do { t \<leftarrow> signal_parent u; schedule t }"
    unfolding exit_process_def s1(1) Option.bind.bind_lunit hn(1) u_def by (rule refl)
  show ?thesis
    by (intro exI [of _ u] exI [of _ z] conjI) (fact ex iu fu pu [unfolded cur_def] z zt)+
qed

lemma signal_parent_spec:
  assumes "sched_inv u" "procs u (current_process u) = Some z" "parent z = 0 \<or> procs u (parent z) \<noteq> None"
  shows "\<exists>t h. signal_parent u = Some t \<and> sched_inv t \<and> (fd_inv u \<longrightarrow> fd_inv t) \<and> t = u\<lparr>procs := h\<rparr>
    \<and> (\<forall>a. (h a = None) = (procs u a = None))
    \<and> (\<forall>a q. procs u a = Some q \<longrightarrow> h a = Some q \<or> h a = Some (post_signal SIGCHLD q))"
proof (cases "parent z = 0")
  case True
  then have "signal_parent u = Some u" using assms(2) by (simp add: signal_parent_def)
  moreover have "u = u\<lparr>procs := procs u\<rparr>" by simp
  ultimately show ?thesis using assms(1) by blast
next
  case False
  then obtain pa where pa: "procs u (parent z) = Some pa" using assms(3) by blast
  obtain r t where kt: "sys_kill (sint (pid pa)) SIGCHLD u = Some (r, t)" "sched_inv t"
    using sys_kill_inv [OF assms(1)] by metis
  have "signal_parent u = Some t" using assms(2) pa kt(1) False by (simp add: signal_parent_def)
  then show ?thesis using kt(2) kill_fd_ok [OF assms(1) kt(1)] kill_frame [OF assms(1) kt(1)] by blast
qed

lemma exit_spec:
  assumes "sched_inv s" "fd_inv s" "procs s (current_process s) = Some c"
    and "parent c = 0 \<or> procs s (parent c) \<noteq> None"
  shows "\<exists>s' z. exit_process st s = Some s' \<and> sched_inv s' \<and> fd_inv s'
    \<and> procs s' (current_process s) = Some z \<and> pstate z = PROCESS_ZOMBIE \<and> exit_code z = st
    \<and> fd_table z = replicate MAX_PROCESS_FILES 0 \<and> parent z = parent c \<and> pid z = pid c"
proof -
  obtain u z where u: "exit_process st s = do { t \<leftarrow> signal_parent u; schedule t }" "sched_inv u" "fd_inv u"
      "current_process u = current_process s" "procs u = (procs s)(current_process s \<mapsto> z)"
      "pstate z = PROCESS_ZOMBIE" "exit_code z = st" "fd_table z = replicate MAX_PROCESS_FILES 0"
      "parent z = parent c" "pid z = pid c"
    using exit_until_signal [OF assms(1-3)] by blast
  have zu: "procs u (current_process u) = Some z" by (simp add: u(4,5))
  have "parent z = 0 \<or> procs u (parent z) \<noteq> None" using assms(4) by (simp add: u(5,9))
  then obtain t h where t: "signal_parent u = Some t" "sched_inv t" "fd_inv t" "t = u\<lparr>procs := h\<rparr>"
      "\<forall>a q. procs u a = Some q \<longrightarrow> h a = Some q \<or> h a = Some (post_signal SIGCHLD q)"
    using signal_parent_spec [OF u(2) zu] u(3) by blast
  obtain s' where s': "schedule t = Some s'" "sched_inv s'" using schedule_inv [OF t(2)] by blast
  obtain z1 where z1: "procs t (current_process s) = Some z1" "z1 = z \<or> z1 = post_signal SIGCHLD z"
    using t(5) zu u(4) unfolding t(4) by auto
  then have p1: "pstate z1 = PROCESS_ZOMBIE" "exit_code z1 = st" "fd_table z1 = replicate MAX_PROCESS_FILES 0"
      "parent z1 = parent c" "pid z1 = pid c"
    using u by (auto simp: post_signal_def Let_def)
  obtain z2 where z2: "procs s' (current_process s) = Some z2" "sched_same z1 z2" "pstate z2 = pstate z1"
    using schedule_frame(3) [OF t(2) s'(1) z1(1)] p1(1) by auto
  have "exit_code z2 = st" "fd_table z2 = replicate MAX_PROCESS_FILES 0" "parent z2 = parent c" "pid z2 = pid c"
    using z2(2) p1 by (auto simp: sched_same_def)
  moreover have "exit_process st s = Some s'" using u(1) t(1) s'(1) by simp
  ultimately show ?thesis using s'(2) schedule_fd_ok [OF t(2) s'(1) t(3)] z2 p1(1) by auto
qed


lemma fd_refs_delete:
  assumes "finite (dom (procs s))" "procs s a = Some f" "procs s pr = Some q" "pr \<noteq> a"
    "procs s' = (procs s)(pr \<mapsto> q\<lparr>pnext := n\<rparr>, a := None)"
  shows "fd_refs s' d + count_list (fd_table f) d = fd_refs s d"
proof -
  have dom: "dom (procs s') = dom (procs s) - {a}" using assms(3,5) by auto
  have "(\<Sum>x \<in> dom (procs s) - {a}. count_list (fd_table (the (procs s' x))) d)
      = (\<Sum>x \<in> dom (procs s) - {a}. count_list (fd_table (the (procs s x))) d)"
    by (rule sum.cong) (use assms(3,5) in auto)
  moreover have "a \<in> dom (procs s)" using assms(2) by blast
  ultimately show ?thesis
    using sum.remove [OF assms(1), of a "\<lambda>x. count_list (fd_table (the (procs s x))) d"] assms(2)
    unfolding fd_refs_def dom by simp
qed

lemma reap_fd_ok:
  assumes "fd_inv s" "procs s a = Some f" "procs s pr = Some q" "pr \<noteq> a"
    "procs s' = (procs s)(pr \<mapsto> q\<lparr>pnext := n\<rparr>, a := None)" "descs s' = descs s"
    "fd_table f = replicate MAX_PROCESS_FILES 0"
  shows "fd_inv s'"
proof -
  have r: "fd_refs s' d = fd_refs s d" if "d \<noteq> 0" for d
    using fd_refs_delete [OF fd_ok_finite [OF assms(1)] assms(2-5), of d] that
    by (simp add: assms(7) count_list_replicate)
  show ?thesis
  proof (rule fd_okI)
    show "finite (dom (procs s'))" using fd_ok_finite [OF assms(1)] unfolding assms(5) by simp
    show "descs s' 0 = None" using assms(1,6) by (simp add: fd_ok_def)
    show "length (fd_table x) = MAX_PROCESS_FILES" if "procs s' p = Some x" for p x
      using that fd_ok_len [OF assms(1), of p x] fd_ok_len [OF assms(1,3)] unfolding assms(5)
      by (auto split: if_splits)
    show "fd_refs s' d = 0 \<and> no_refs d = 0" if "d \<noteq> 0" "descs s' d = None" for d
      using fd_ok_None [OF assms(1), of d] that unfolding r [OF that(1)] assms(6) by simp
    show "unat (ref_count e) = fd_refs s' d + no_refs d \<and> 0 < fd_refs s' d + no_refs d"
      if "d \<noteq> 0" "descs s' d = Some e" for d e
      using fd_ok_Some(2,3) [OF assms(1), of d e] that unfolding r [OF that(1)] assms(6) by simp
  qed
qed

text \<open>The searches of the wait calls.\<close>

lemma queue_search:
  assumes "sched_inv s"
  obtains r where "ring_find False P (procs s) (ready_queue s) (ready_queue s) = Some r"
    "case r of None \<Rightarrow> \<forall>a q. procs s a = Some q \<longrightarrow> \<not> P a q
     | Some a \<Rightarrow> \<exists>q. procs s a = Some q \<and> P a q"
proof -
  obtain ys where ys: "ring_find False P (procs s) (ready_queue s) (ready_queue s) = Some (find (at P (procs s)) ys)"
      "set ys = dom (procs s)"
    using ring_find_queue [OF sched_inv_one_ring [OF assms]] by metis
  show ?thesis
  proof (rule that [OF ys(1)])
    show "case find (at P (procs s)) ys of None \<Rightarrow> \<forall>a q. procs s a = Some q \<longrightarrow> \<not> P a q
      | Some a \<Rightarrow> \<exists>q. procs s a = Some q \<and> P a q"
    proof (cases "find (at P (procs s)) ys")
      case None
      then have "\<not> at P (procs s) a" if "a \<in> dom (procs s)" for a
        using that unfolding ys(2) [symmetric] find_None_iff by blast
      then have "\<not> P a q" if "procs s a = Some q" for a q using that by (fastforce simp: at_def)
      then show ?thesis unfolding None by simp
    next
      case (Some a)
      then show ?thesis using find_Some_mem [OF Some] by (auto elim: atE)
    qed
  qed
qed

lemma block_current_inv:
  assumes "sched_inv s"
  shows "\<exists>s'. block_current s = Some s' \<and> sched_inv s'"
proof -
  obtain c where c: "procs s (current_process s) = Some c" using sched_inv_ring [OF assms] by metis
  have "sched_inv (set_proc (current_process s) (c\<lparr>pstate := PROCESS_WAITING\<rparr>) s)"
    by (rule sched_inv_set_proc [OF assms c]) simp_all
  then show ?thesis using schedule_inv c by (simp add: block_current_def upd_proc_def)
qed

text \<open>One round of \<open>waitpid\<close>: the four outcomes.\<close>

lemma sys_waitpid_spec:
  fixes p opts :: int
  assumes "sched_inv s" "procs s (current_process s) = Some c" "pstate c \<noteq> PROCESS_ZOMBIE"
  defines "M \<equiv> wait_matches p (current_process s) c"
  shows "if \<exists>a f. procs s a = Some f \<and> M f \<and> pstate f = PROCESS_ZOMBIE
    then (\<exists>a f s' pr q. procs s a = Some f \<and> M f \<and> pstate f = PROCESS_ZOMBIE \<and> a \<noteq> current_process s
        \<and> sys_waitpid_round p opts s = Some (Wait_done (sint (pid f)) (Some (push_bit 8 (exit_code f))), s')
        \<and> sched_inv s' \<and> procs (set_proc (current_process s) (add_child_times f c) s) pr = Some q \<and> pr \<noteq> a
        \<and> procs s' = (procs s)(current_process s \<mapsto> add_child_times f c, pr \<mapsto> q\<lparr>pnext := pnext f\<rparr>, a := None)
        \<and> current_process s' = current_process s \<and> descs s' = descs s
        \<and> vmem s' = pd_destroy (page_directory f) (vmem s))
    else if \<not> (\<exists>a f. procs s a = Some f \<and> M f) then sys_waitpid_round p opts s = Some (Wait_done (- ECHILD) None, s)
    else if opts AND WNOHANG \<noteq> 0 then sys_waitpid_round p opts s = Some (Wait_done 0 None, s)
    else (\<exists>s'. sys_waitpid_round p opts s = Some (Wait_again, s') \<and> sched_inv s' \<and> block_current s = Some s')"
proof -
  define cur where "cur = current_process s"
  have rq: "ready_queue s \<noteq> 0" by (rule one_ring_nonnull(2) [OF sched_inv_one_ring [OF assms(1)]])
  obtain z where z: "ring_find False (\<lambda>_ q. M q \<and> pstate q = PROCESS_ZOMBIE) (procs s) (ready_queue s) (ready_queue s) = Some z"
      "case z of None \<Rightarrow> \<forall>a q. procs s a = Some q \<longrightarrow> \<not> (M q \<and> pstate q = PROCESS_ZOMBIE)
       | Some a \<Rightarrow> \<exists>q. procs s a = Some q \<and> M q \<and> pstate q = PROCESS_ZOMBIE"
    by (rule queue_search [OF assms(1), where P = "\<lambda>_ q. M q \<and> pstate q = PROCESS_ZOMBIE"])
  obtain m where m: "ring_find False (\<lambda>_ q. M q) (procs s) (ready_queue s) (ready_queue s) = Some m"
      "case m of None \<Rightarrow> \<forall>a q. procs s a = Some q \<longrightarrow> \<not> M q | Some a \<Rightarrow> \<exists>q. procs s a = Some q \<and> M q"
    by (rule queue_search [OF assms(1), where P = "\<lambda>_ q. M q"])
  show ?thesis
  proof (cases z)
    case (Some a)
    then obtain f where f: "procs s a = Some f" "M f" "pstate f = PROCESS_ZOMBIE" using z(2) by auto
    have some: "\<exists>a f. procs s a = Some f \<and> M f \<and> pstate f = PROCESS_ZOMBIE" using f by blast
    have ne: "a \<noteq> cur" using f(1,3) assms(2,3) by (auto simp: cur_def)
    define s1 where "s1 = set_proc cur (add_child_times f c) s"
    have i1: "sched_inv s1"
      unfolding s1_def cur_def by (rule sched_inv_set_proc [OF assms(1,2)]) (simp_all add: add_child_times_def)
    have f1: "procs s1 a = Some f" "a \<noteq> current_process s1" using f(1) ne by (simp_all add: s1_def cur_def)
    obtain s2 s3 pr q where r: "unlink_proc a s1 = Some s2" "free_proc a s2 = Some s3" "sched_inv s3" "pr \<noteq> a"
        "procs s1 pr = Some q" "procs s3 = (procs s1)(pr \<mapsto> q\<lparr>pnext := pnext f\<rparr>, a := None)"
        "current_process s3 = current_process s1" "descs s3 = descs s1"
        "vmem s3 = pd_destroy (page_directory f) (vmem s1)"
      using reap_spec [OF i1 f1] by blast
    have "sys_waitpid_round p opts s = Some (Wait_done (sint (pid f)) (Some (push_bit 8 (exit_code f))), s3)"
      using rq assms(2) z(1) Some f(1) r(1,2)
      by (simp add: sys_waitpid_round_def M_def Let_def upd_proc_def s1_def cur_def)
    moreover have "procs s3 = (procs s)(current_process s \<mapsto> add_child_times f c, pr \<mapsto> q\<lparr>pnext := pnext f\<rparr>, a := None)"
      using r(6) by (simp add: s1_def cur_def)
    ultimately have "procs s a = Some f \<and> M f \<and> pstate f = PROCESS_ZOMBIE \<and> a \<noteq> current_process s
        \<and> sys_waitpid_round p opts s = Some (Wait_done (sint (pid f)) (Some (push_bit 8 (exit_code f))), s3)
        \<and> sched_inv s3 \<and> procs (set_proc (current_process s) (add_child_times f c) s) pr = Some q \<and> pr \<noteq> a
        \<and> procs s3 = (procs s)(current_process s \<mapsto> add_child_times f c, pr \<mapsto> q\<lparr>pnext := pnext f\<rparr>, a := None)
        \<and> current_process s3 = current_process s \<and> descs s3 = descs s
        \<and> vmem s3 = pd_destroy (page_directory f) (vmem s)"
      using f ne r(3-5,7-9) by (simp add: s1_def cur_def)
    with some show ?thesis unfolding if_P [OF some] by blast
  next
    case None
    then have nz: "\<not> (\<exists>a f. procs s a = Some f \<and> M f \<and> pstate f = PROCESS_ZOMBIE)" using z(2) by auto
    have w: "sys_waitpid_round p opts s = (if m = None then Some (Wait_done (- ECHILD) None, s)
        else if opts AND WNOHANG \<noteq> 0 then Some (Wait_done 0 None, s)
        else do { s1 \<leftarrow> block_current s; Some (Wait_again, s1) })"
      using rq assms(2) z(1) m(1) None by (simp add: sys_waitpid_round_def M_def Let_def)
    have mm: "m = None \<longleftrightarrow> \<not> (\<exists>a f. procs s a = Some f \<and> M f)" using m(2) by (cases m) auto
    obtain b where "block_current s = Some b" "sched_inv b" using block_current_inv [OF assms(1)] by blast
    then show ?thesis using nz mm unfolding w by auto
  qed
qed


text \<open>A signal to one process, when identifiers are unique.\<close>

lemma sys_kill_unique:
  assumes "sched_inv s" "procs s a = Some q" "0 < sint (pid q)" "0 \<le> n" "n < int NSIG"
    "\<And>b r. procs s b = Some r \<Longrightarrow> pid r = pid q \<Longrightarrow> b = a"
  shows "sys_kill (sint (pid q)) n s = Some (0, set_proc a (post_signal n q) s)"
proof -
  obtain c where c: "procs s (current_process s) = Some c" using sched_inv_ring [OF assms(1)] by metis
  have "sys_kill (sint (pid q)) n s = kill_one (sint (pid q)) n s"
    using c assms(3-5) by (simp add: sys_kill_def)
  moreover have "kill_one (sint (pid q)) n s = Some (0, set_proc a (post_signal n q) s)"
  proof -
    have w: "word_of_int (sint (pid q)) = pid q" by simp
    show ?thesis using kill_one_cases [OF assms(1), of "sint (pid q)" n] assms(2) assms(6) unfolding w
      by (metis option.inject)
  qed
  ultimately show ?thesis by simp
qed

definition unique_pids :: "kst \<Rightarrow> bool" where
  "unique_pids s \<longleftrightarrow> (\<forall>a b x y. procs s a = Some x \<longrightarrow> procs s b = Some y \<longrightarrow> pid x = pid y \<longrightarrow> a = b)"

lemma unique_pidsD: "unique_pids s \<Longrightarrow> procs s a = Some x \<Longrightarrow> procs s b = Some y \<Longrightarrow> pid x = pid y \<Longrightarrow> a = b"
  unfolding unique_pids_def by blast

lemma unique_pids_kept:
  assumes "unique_pids s" "\<forall>a. (procs s1 a = None) = (procs s a = None)"
    "\<forall>a x. procs s a = Some x \<longrightarrow> (\<exists>y. procs s1 a = Some y \<and> pid y = pid x \<and> parent y = parent x)"
  shows "unique_pids s1"
proof -
  have "\<exists>x. procs s a = Some x \<and> pid x = pid y" if "procs s1 a = Some y" for a y
    using assms(2,3) that by (metis not_None_eq option.inject)
  then show ?thesis using assms(1) unfolding unique_pids_def by metis
qed

lemma exit_parent_spec:
  fixes st :: u32
  assumes "sched_inv s" "fd_inv s" "procs s (current_process s) = Some c" "parent c \<noteq> 0"
    "parent c \<noteq> current_process s" "procs s (parent c) = Some q" "0 < sint (pid q)"
    "unique_pids s"
  shows "\<exists>s1 z q1. exit_process st s = Some s1 \<and> sched_inv s1 \<and> fd_inv s1
    \<and> procs s1 (current_process s) = Some z \<and> pstate z = PROCESS_ZOMBIE \<and> exit_code z = st
    \<and> parent z = parent c \<and> pid z = pid c \<and> fd_table z = replicate MAX_PROCESS_FILES 0
    \<and> procs s1 (parent c) = Some q1 \<and> sched_same (post_signal SIGCHLD q) q1
    \<and> (pstate q \<in> {PROCESS_WAITING, PROCESS_READY, PROCESS_RUNNING} \<longrightarrow> pstate q1 \<in> {PROCESS_READY, PROCESS_RUNNING})
    \<and> (pstate q = PROCESS_ZOMBIE \<longrightarrow> pstate q1 = PROCESS_ZOMBIE)
    \<and> (\<forall>a. (procs s1 a = None) = (procs s a = None))
    \<and> (\<forall>a x. procs s a = Some x \<longrightarrow> (\<exists>y. procs s1 a = Some y \<and> pid y = pid x \<and> parent y = parent x))
    \<and> (pstate q \<in> {PROCESS_WAITING, PROCESS_READY} \<and>
        (\<forall>a x. procs s a = Some x \<and> a \<notin> {current_process s, parent c} \<and> pstate x = PROCESS_READY \<longrightarrow> priority q < priority x)
        \<longrightarrow> current_process s1 = parent c)"
proof -
  define cur where "cur = current_process s"
  obtain u z where u: "exit_process st s = do { t \<leftarrow> signal_parent u; schedule t }" "sched_inv u" "fd_inv u"
      "current_process u = cur" "procs u = (procs s)(cur \<mapsto> z)"
      "pstate z = PROCESS_ZOMBIE" "exit_code z = st" "fd_table z = replicate MAX_PROCESS_FILES 0"
      "parent z = parent c" "pid z = pid c"
    using exit_until_signal [OF assms(1-3)] unfolding cur_def by blast
  have ne: "parent c \<noteq> cur" using assms(5) by (simp add: cur_def)
  have qu: "procs u (parent c) = Some q" using assms(6) ne u(5) by simp
  have uniq: "b = parent c" if r: "procs u b = Some r" "pid r = pid q" for b r
  proof (cases "b = cur")
    case True
    then have "pid c = pid q" using r u(5,10) by simp
    then show ?thesis using unique_pidsD [OF assms(8) assms(3,6)] True by (simp add: cur_def)
  next
    case False
    then show ?thesis using r unique_pidsD [OF assms(8) _ assms(6)] u(5) by simp
  qed
  define t where "t = set_proc (parent c) (post_signal SIGCHLD q) u"
  have k: "sys_kill (sint (pid q)) SIGCHLD u = Some (0, t)"
    unfolding t_def by (rule sys_kill_unique [OF u(2) qu assms(7)]) (use uniq in auto)
  have sp: "signal_parent u = Some t" using u(4,5,9) qu k assms(4) by (simp add: signal_parent_def)
  have it: "sched_inv t" using sys_kill_inv [OF u(2)] k by (metis option.inject prod.inject)
  have ft: "fd_inv t" by (rule kill_fd_ok [OF u(2) k u(3)])
  obtain s1 where s1: "schedule t = Some s1" "sched_inv s1" using schedule_inv [OF it] by blast
  have f1: "fd_inv s1" by (rule schedule_fd_ok [OF it s1(1) ft])
  have zt: "procs t cur = Some z" using ne u(5) by (simp add: t_def)
  have qt: "procs t (parent c) = Some (post_signal SIGCHLD q)" by (simp add: t_def)
  obtain z1 where z1: "procs s1 cur = Some z1" "sched_same z z1" "pstate z1 = PROCESS_ZOMBIE"
    using schedule_frame(3) [OF it s1(1) zt] u(6) by auto
  obtain q1 where q1: "procs s1 (parent c) = Some q1" "sched_same (post_signal SIGCHLD q) q1"
      "pstate q \<in> {PROCESS_WAITING, PROCESS_READY, PROCESS_RUNNING} \<longrightarrow> pstate q1 \<in> {PROCESS_READY, PROCESS_RUNNING}"
      "pstate q = PROCESS_ZOMBIE \<longrightarrow> pstate q1 = PROCESS_ZOMBIE"
    using schedule_frame(3) [OF it s1(1) qt] by (auto split: if_splits)
  have "(procs s1 a = None) = (procs s a = None)" for a
    using schedule_frame(2) [OF it s1(1), of a] u(5) assms(3,6) by (auto simp: t_def cur_def)
  then have dom: "\<forall>a. (procs s1 a = None) = (procs s a = None)" by (rule allI)
  have same: "\<forall>a x. procs s a = Some x \<longrightarrow> (\<exists>y. procs s1 a = Some y \<and> pid y = pid x \<and> parent y = parent x)"
  proof (intro allI impI)
    fix a x assume x: "procs s a = Some x"
    obtain x' where x': "procs t a = Some x'" "pid x' = pid x" "parent x' = parent x"
      using x u(5,9,10) assms(3,6) by (cases "a = parent c"; cases "a = cur") (auto simp: t_def cur_def)
    obtain y where "procs s1 a = Some y" "sched_same x' y" using schedule_frame(3) [OF it s1(1) x'(1)] by blast
    then show "\<exists>y. procs s1 a = Some y \<and> pid y = pid x \<and> parent y = parent x"
      using x'(2,3) by (auto simp: sched_same_def)
  qed
  have zz: "exit_code z1 = st" "parent z1 = parent c" "pid z1 = pid c" "fd_table z1 = replicate MAX_PROCESS_FILES 0"
    using z1(2) u(7-10) by (auto simp: sched_same_def)
  have ps: "priority (post_signal n p) = priority p" "pstate p \<in> {PROCESS_WAITING, PROCESS_READY} \<Longrightarrow> pstate (post_signal n p) = PROCESS_READY" for n p
    by (auto simp: post_signal_def Let_def)
  have ct: "current_process t = cur" using u(4) by (simp add: t_def)
  have go: "current_process s1 = parent c" if w: "pstate q \<in> {PROCESS_WAITING, PROCESS_READY} \<and>
        (\<forall>a x. procs s a = Some x \<and> a \<notin> {cur, parent c} \<and> pstate x = PROCESS_READY \<longrightarrow> priority q < priority x)"
  proof (rule schedule_to [OF it _ _ qt _ _ s1(1)])
    show "procs t (current_process t) = Some z" using zt ct by simp
    show "pstate z \<notin> {PROCESS_READY, PROCESS_RUNNING}" using u(6) by simp
    show "pstate (post_signal SIGCHLD q) = PROCESS_READY" using ps(2) w by blast
    show "\<forall>a y. procs t a = Some y \<and> a \<noteq> parent c \<and> pstate y = PROCESS_READY \<longrightarrow> priority (post_signal SIGCHLD q) < priority y"
    proof (intro allI impI)
      fix a y assume y: "procs t a = Some y \<and> a \<noteq> parent c \<and> pstate y = PROCESS_READY"
      then have "a \<noteq> cur" using zt u(6) by auto
      then have "procs s a = Some y" using y u(5) by (auto simp: t_def)
      then show "priority (post_signal SIGCHLD q) < priority y" using w y \<open>a \<noteq> cur\<close> unfolding ps(1) by blast
    qed
  qed
  have ex: "exit_process st s = Some s1" using u(1) sp s1(1) by simp
  show ?thesis
    by (rule exI [of _ s1], rule exI [of _ z1], rule exI [of _ q1], intro conjI)
      (fact ex s1(2) f1 z1(1) [unfolded cur_def] z1(3) zz q1 dom same | (rule impI, rule go [unfolded cur_def], assumption))+
qed

text \<open>
  A parent that runs and has a zombie child waits for it with success: whatever happened since the child exited.
\<close>

lemma waitpid_reaps:
  assumes i: "sched_inv u" "fd_inv u" "unique_pids u" and w: "procs u (current_process u) = Some w" "pstate w \<noteq> PROCESS_ZOMBIE"
    and z: "procs u k = Some z" "pstate z = PROCESS_ZOMBIE" "parent z = current_process u" "0 < sint (pid z)"
      "fd_table z = replicate MAX_PROCESS_FILES 0"
  shows "\<exists>s2. sys_waitpid_round (sint (pid z)) opts u = Some (Wait_done (sint (pid z)) (Some (push_bit 8 (exit_code z))), s2)
    \<and> sched_inv s2 \<and> fd_inv s2 \<and> procs s2 k = None"
proof -
  have m: "wait_matches (sint (pid z)) (current_process u) w f \<longleftrightarrow> parent f = current_process u \<and> pid f = pid z" for f
    using z(4) by (simp add: wait_matches_def)
  have some: "\<exists>a f. procs u a = Some f \<and> wait_matches (sint (pid z)) (current_process u) w f \<and> pstate f = PROCESS_ZOMBIE"
    unfolding m using z(1-3) by blast
  obtain a f s2 pr x where r: "procs u a = Some f" "wait_matches (sint (pid z)) (current_process u) w f"
      "a \<noteq> current_process u"
      "sys_waitpid_round (sint (pid z)) opts u = Some (Wait_done (sint (pid f)) (Some (push_bit 8 (exit_code f))), s2)"
      "sched_inv s2" "procs (set_proc (current_process u) (add_child_times f w) u) pr = Some x" "pr \<noteq> a"
      "procs s2 = (procs u)(current_process u \<mapsto> add_child_times f w, pr \<mapsto> x\<lparr>pnext := pnext f\<rparr>, a := None)"
      "descs s2 = descs u"
    using sys_waitpid_spec [OF i(1) w, of "sint (pid z)" opts] unfolding if_P [OF some] by blast
  have ak: "a = k" using unique_pidsD [OF i(3) r(1) z(1)] r(2) unfolding m by blast
  then have fz: "f = z" using r(1) z(1) by simp
  define t where "t = set_proc (current_process u) (add_child_times f w) u"
  have ft: "fd_inv t"
    by (rule fd_ok_tables [OF i(2)]) (use w in \<open>auto simp: t_def add_child_times_def\<close>)
  have "fd_inv s2"
  proof (rule reap_fd_ok [OF ft, of a f pr x])
    show "procs t a = Some f" using r(1,3) by (simp add: t_def)
    show "procs t pr = Some x" using r(6) by (simp add: t_def)
    show "procs s2 = (procs t)(pr \<mapsto> x\<lparr>pnext := pnext f\<rparr>, a := None)" using r(8) by (simp add: t_def)
  qed (use r(7,9) z(5) fz in \<open>simp_all add: t_def\<close>)
  then show ?thesis using r(4,5,8) ak fz by simp
qed

subsection \<open>Properties\<close>

text \<open>
  C9. \<open>fork\<close>. When the address space can be cloned the call returns the new identifier, keeps
  the process list and the descriptor counts consistent, shares every open description, and
  builds a kernel stack from which the child enters \<open>fork_child_return\<close> and resumes with
  the parent's registers, \<open>eax = 0\<close> and interrupts on. The credentials, the process group, the priority
  and the signal actions are not copied: the child keeps what the \<open>kmalloc\<close> block held.
\<close>

theorem fork_child_resumes:
  assumes "sched_inv s" "fd_inv s" "procs s (current_process s) = Some c" "procs s np = None" "np \<noteq> 0"
    and "\<And>d. d \<noteq> 0 \<Longrightarrow> fd_refs s d + MAX_PROCESS_FILES < 2 ^ 32"
    and "pd_clone (page_directory c) (vmem s) = (pd, m1)" "pd \<noteq> 0"
  shows "\<exists>s' q. fork_process np blk kstk ret regs s = Some (sint (next_pid s), s') \<and> sched_inv s' \<and> fd_inv s'
    \<and> procs s' np = Some q \<and> pid q = next_pid s \<and> pstate q = PROCESS_READY \<and> parent q = current_process s
    \<and> page_directory q = pd \<and> fd_table q = fd_table c \<and> cwd q = cwd c \<and> pledges q = pledges c
    \<and> switch_target (saved_esp q) (kstack s') = ret
    \<and> child_registers (saved_esp q) (kstack s') = regs\<lparr>r_eax := 0, r_eflags := r_eflags regs OR 0x200\<rparr>
    \<and> uid q = uid blk \<and> euid q = euid blk \<and> pgid q = pgid blk \<and> priority q = priority blk
    \<and> signal_actions q = signal_actions blk"
proof -
  obtain s' q where f: "fork_process np blk kstk ret regs s = Some (sint (next_pid s), s')" "sched_inv s'" "fd_inv s'"
      "procs s' = (procs s)(np \<mapsto> q, current_process s \<mapsto> c\<lparr>pnext := np\<rparr>)" "pid q = next_pid s"
      "pstate q = PROCESS_READY" "parent q = current_process s" "page_directory q = pd" "fd_table q = fd_table c"
      "cwd q = cwd c" "pledges q = pledges c" "uid q = uid blk" "euid q = euid blk" "pgid q = pgid blk"
      "priority q = priority blk" "signal_actions q = signal_actions blk"
      "(saved_esp q, kstack s') = pushes (fork_frame ret regs) (kstk + 4096, kstack s)"
    using fork_spec [OF assms, of blk kstk ret regs] by blast
  have "procs s' np = Some q" using f(4) assms(3,4) by auto
  moreover note fork_frame_roundtrip [OF f(17) [symmetric]]
  ultimately show ?thesis using f by blast
qed


subsection \<open>Witnesses\<close>

text \<open>A child and its waiting parent.\<close>

definition demo_family :: kst where
  "demo_family = demo_kst\<lparr>current_process := 0x200, ready_queue := 0x100,
     procs := [0x100 \<mapsto> demo_proc\<lparr>pid := 1, pstate := PROCESS_WAITING, pnext := 0x200\<rparr>,
               0x200 \<mapsto> demo_proc\<lparr>pid := 2, pstate := PROCESS_RUNNING, parent := 0x100, pnext := 0x100\<rparr>]\<rparr>"

lemma demo_family_simps:
  "procs demo_family 0x100 = Some (demo_proc\<lparr>pid := 1, pstate := PROCESS_WAITING, pnext := 0x200\<rparr>)"
  "procs demo_family 0x200 = Some (demo_proc\<lparr>pid := 2, pstate := PROCESS_RUNNING, parent := 0x100, pnext := 0x100\<rparr>)"
  "current_process demo_family = 0x200" "ready_queue demo_family = 0x100"
  "dom (procs demo_family) = {0x100, 0x200}" "descs demo_family = (\<lambda>_. None)" "next_pid demo_family = 3"
  "vmem demo_family = demo_vm"
  by (auto simp: demo_family_def)

lemma demo_family_cases:
  assumes "procs demo_family p = Some q"
  shows "p = 0x100 \<and> q = demo_proc\<lparr>pid := 1, pstate := PROCESS_WAITING, pnext := 0x200\<rparr>
    \<or> p = 0x200 \<and> q = demo_proc\<lparr>pid := 2, pstate := PROCESS_RUNNING, parent := 0x100, pnext := 0x100\<rparr>"
proof -
  have "p \<in> {0x100, 0x200}" using assms demo_family_simps(5) by blast
  then show ?thesis using assms demo_family_simps(1,2) by auto
qed

lemma demo_family_inv: "sched_inv demo_family"
proof -
  have "ring (procs demo_family) 0x200 [0x100]" by (simp add: ring_def demo_family_simps)
  then have "one_ring demo_family"
    unfolding one_ring_def using demo_family_simps(3-5) by (intro exI [of _ "[0x100]"]) auto
  moreover have "p = current_process demo_family" if "procs demo_family p = Some q" "pstate q = PROCESS_RUNNING" for p q
    using demo_family_cases [OF that(1)] that(2) demo_family_simps(3) by auto
  ultimately show ?thesis unfolding sched_inv_def by blast
qed

lemma demo_family_refs: "d \<noteq> 0 \<Longrightarrow> fd_refs demo_family d = 0"
  by (simp add: fd_refs_def demo_family_simps count_list_replicate)

lemma demo_family_fds: "fd_inv demo_family"
proof (rule fd_okI)
  show "finite (dom (procs demo_family))" by (simp add: demo_family_simps)
  show "length (fd_table q) = MAX_PROCESS_FILES" if "procs demo_family p = Some q" for p q
    using demo_family_cases [OF that] by auto
qed (simp_all add: demo_family_simps demo_family_refs)

lemma demo_family_pids: "unique_pids demo_family"
  unfolding unique_pids_def
proof (intro allI impI)
  fix a b x y assume "procs demo_family a = Some x" "procs demo_family b = Some y" "pid x = pid y"
  then show "a = b" using demo_family_cases [of a x] demo_family_cases [of b y] by auto
qed


theorem fork_child_resumes_witness:
  "\<exists>s' q. fork_process 0x300 demo_proc 0x9000 0xC0001234 (saved_context demo_proc) demo_family = Some (3, s')
     \<and> procs s' 0x300 = Some q \<and> switch_target (saved_esp q) (kstack s') = 0xC0001234 \<and> uid q = uid demo_proc"
proof -
  let ?c = "demo_proc\<lparr>pid := 2, pstate := PROCESS_RUNNING, parent := 0x100, pnext := 0x100\<rparr>"
  have c: "procs demo_family (current_process demo_family) = Some ?c" by (simp add: demo_family_simps)
  have f: "procs demo_family 0x300 = None" using demo_family_cases [of "0x300"] by (cases "procs demo_family 0x300") auto
  have pd: "page_directory ?c = 0x2000" by (simp add: demo_proc_def)
  obtain pd s1 where cr: "pd_create demo_vm = (pd, s1)" by fastforce
  have "\<not> frame_used demo_vm pd"
    by (rule pd_create_spec(2) [OF _ _ _ cr]) (simp_all add: demo_vm_inv demo_vm_entry)
  then have "pd \<noteq> 0" by auto
  obtain m1 where cl: "pd_clone (page_directory ?c) (vmem demo_family) = (pd, m1)"
    using cr unfolding pd by (simp add: pd_clone_def demo_family_simps)
  have b: "fd_refs demo_family d + MAX_PROCESS_FILES < 2 ^ 32" if "d \<noteq> 0" for d
    using demo_family_refs [OF that] by simp
  have i: "sint (next_pid demo_family) = 3" by (simp add: demo_family_simps)
  show ?thesis
    using fork_child_resumes [OF demo_family_inv demo_family_fds c f _ b cl \<open>pd \<noteq> 0\<close>, of demo_proc "0x9000" "0xC0001234"
        "saved_context demo_proc"] unfolding i by (simp, blast)
qed

end
