(* ===== verification/Pipe.thy ===== *)
theory Pipe
  imports Fifo_Interface Process
begin

text \<open>
  Pipes, \<open>pipe.cpp\<close>: a ring of 4096 bytes that holds at most 4095, the two ends, and \<open>sys_pipe\<close>.
  The indices stay below 4096, so they are natural numbers. A read or a write is one round of
  its loop: the bytes (or their number), or \<open>None\<close> when the caller blocks; the round is then
  entered again without the tests before the loop.
\<close>

abbreviation PIPE_SIZE :: nat where "PIPE_SIZE \<equiv> 4096"

record pipe =
  p_buffer :: "u8 list"
  p_head :: nat
  p_tail :: nat
  read_closed :: bool
  write_closed :: bool

definition pipe_put :: "u8 \<Rightarrow> pipe \<Rightarrow> pipe option" where
  "pipe_put b p =
     (let next_tail = (p_tail p + 1) mod PIPE_SIZE in
      if next_tail = p_head p then None
      else Some (p\<lparr>p_buffer := (p_buffer p)[p_tail p := b], p_tail := next_tail\<rparr>))"

definition pipe_get :: "pipe \<Rightarrow> (u8 \<times> pipe) option" where
  "pipe_get p =
     (if p_head p = p_tail p then None
      else Some (p_buffer p ! p_head p, p\<lparr>p_head := (p_head p + 1) mod PIPE_SIZE\<rparr>))"

text \<open>Everybody who waits is made ready.\<close>

definition wake_waiting :: "kst \<Rightarrow> kst option" where
  "wake_waiting s =
     (if ready_queue s = 0 then Some s
      else map_option snd (ring_update (\<lambda>_ q. pstate q = PROCESS_WAITING) (\<lambda>q. q\<lparr>pstate := PROCESS_READY\<rparr>)
             (ready_queue s) (ready_queue s) False s))"

definition pipe_read_loop :: "nat \<Rightarrow> pipe \<Rightarrow> kst \<Rightarrow> (u8 list option \<times> pipe \<times> kst) option" where
  "pipe_read_loop sz p s =
     (if sz > 0 \<and> pipe_get p = None \<and> \<not> write_closed p
      then do { s1 \<leftarrow> block_current s; Some (None, p, s1) }
      else do {
        let (bs, p1) = pop_all pipe_get sz p;
        s1 \<leftarrow> wake_waiting s;
        Some (Some bs, p1, s1) })"

definition pipe_read :: "nat \<Rightarrow> pipe \<Rightarrow> kst \<Rightarrow> (u8 list option \<times> pipe \<times> kst) option" where
  "pipe_read sz p s = (if read_closed p then Some (Some [], p, s) else pipe_read_loop sz p s)"

definition pipe_write_loop :: "u8 list \<Rightarrow> pipe \<Rightarrow> kst \<Rightarrow> (nat option \<times> pipe \<times> kst) option" where
  "pipe_write_loop bs p s =
     (if bs \<noteq> [] \<and> pipe_put (hd bs) p = None
      then do { s1 \<leftarrow> block_current s; Some (None, p, s1) }
      else do {
        let (n, p1) = push_all pipe_put bs p;
        s1 \<leftarrow> wake_waiting s;
        Some (Some n, p1, s1) })"

definition pipe_write :: "u8 list \<Rightarrow> pipe \<Rightarrow> kst \<Rightarrow> (nat option \<times> pipe \<times> kst) option" where
  "pipe_write bs p s =
     (if write_closed p \<or> read_closed p then Some (Some 0, p, s) else pipe_write_loop bs p s)"

text \<open>Closing an end; the pipe is freed with the second one.\<close>

definition pipe_close :: "u32 \<Rightarrow> pipe \<Rightarrow> kst \<Rightarrow> (pipe option \<times> kst) option" where
  "pipe_close flags p s =
     (let p1 = (if flags AND 1 \<noteq> 0 then p\<lparr>read_closed := True\<rparr> else p);
          p2 = (if flags AND 2 \<noteq> 0 then p1\<lparr>write_closed := True\<rparr> else p1)
      in do {
        s1 \<leftarrow> wake_waiting s;
        Some (if read_closed p2 \<and> write_closed p2 then None else Some p2, s1) })"

text \<open>
  \<open>sys_pipe\<close>: \<open>buf\<close> is the fresh buffer (or none), \<open>n1\<close> and \<open>n2\<close> the blocks of the nodes, \<open>d1\<close> and
  \<open>d2\<close> those of the descriptions.
\<close>

definition pipe_node :: "string \<Rightarrow> u32 \<Rightarrow> vnode" where
  "pipe_node nm flags = \<lparr>vn_name = nm, vn_type = 0, vn_inode = 0, vn_size = 0, vn_mask = 0, vn_uid = 0, vn_gid = 0, vn_flags = flags\<rparr>"

definition two_free_slots :: "process \<Rightarrow> (nat \<times> nat) option" where
  "two_free_slots c = (case filter (\<lambda>i. fd_table c ! i = 0) [0 ..< MAX_PROCESS_FILES] of
       f1 # f2 # _ \<Rightarrow> Some (f1, f2) | _ \<Rightarrow> None)"

definition new_pipe :: "u8 list \<Rightarrow> pipe" where
  "new_pipe buf = \<lparr>p_buffer = buf, p_head = 0, p_tail = 0, read_closed = False, write_closed = False\<rparr>"

definition sys_pipe ::
  "bool \<Rightarrow> u8 list option \<Rightarrow> u32 \<Rightarrow> u32 \<Rightarrow> u32 \<Rightarrow> u32 \<Rightarrow> kst \<Rightarrow> (int \<times> (nat \<times> nat \<times> pipe) option \<times> kst) option" where
  "sys_pipe filedes buf n1 n2 d1 d2 s =
     (if \<not> filedes then Some (- 1, None, s)
      else case buf of None \<Rightarrow> Some (- 1, None, s)
      | Some b \<Rightarrow> do {
          c \<leftarrow> procs s (current_process s);
          case two_free_slots c of
            None \<Rightarrow> Some (- 1, None, s)
          | Some (f1, f2) \<Rightarrow>
              (let c1 = put_slot f2 d2 (put_slot f1 d1 c) in
               Some (0, Some (f1, f2, new_pipe b),
                 (set_proc (current_process s) c1 s)
                   \<lparr>vnodes := (vnodes s)(n1 := pipe_node ''pipe_read'' 1, n2 := pipe_node ''pipe_write'' 2),
                    descs := (descs s)(d1 \<mapsto> \<lparr>fd_node = n1, fd_offset = 0, fd_flags = 0, ref_count = 1\<rparr>,
                                       d2 \<mapsto> \<lparr>fd_node = n2, fd_offset = 0, fd_flags = 1, ref_count = 1\<rparr>)\<rparr>)) })"

subsection \<open>The ring is a bounded queue\<close>

definition pipe_inv :: "pipe \<Rightarrow> bool" where
  "pipe_inv p \<longleftrightarrow> length (p_buffer p) = PIPE_SIZE \<and> p_head p < PIPE_SIZE \<and> p_tail p < PIPE_SIZE"

definition pipe_items :: "pipe \<Rightarrow> u8 list" where
  "pipe_items p = ring_items (p_buffer p) (p_head p) ((p_tail p + PIPE_SIZE - p_head p) mod PIPE_SIZE)"

lemma pipe_count:
  assumes "h < PIPE_SIZE" "t < PIPE_SIZE"
  shows "(h + (t + PIPE_SIZE - h) mod PIPE_SIZE) mod PIPE_SIZE = t"
    "(t + PIPE_SIZE - h) mod PIPE_SIZE = (if h \<le> t then t - h else t + PIPE_SIZE - h)"
  using assms by (auto simp: mod_if)

lemma pipe_full_iff:
  assumes "h < PIPE_SIZE" "t < PIPE_SIZE"
  shows "(t + 1) mod PIPE_SIZE = h \<longleftrightarrow> (t + PIPE_SIZE - h) mod PIPE_SIZE \<ge> PIPE_SIZE - 1"
  unfolding pipe_count(2) [OF assms] using assms by (auto simp: mod_if split: if_splits)

lemma pipe_len: "length (pipe_items p) = (p_tail p + PIPE_SIZE - p_head p) mod PIPE_SIZE"
  by (simp only: pipe_items_def ring_items_simps)

lemma pipe_put_room:
  assumes "pipe_inv p" "length (pipe_items p) < PIPE_SIZE - 1"
  shows "\<exists>p'. pipe_put x p = Some p' \<and> pipe_inv p' \<and> pipe_items p' = pipe_items p @ [x]"
proof -
  have h: "length (p_buffer p) = PIPE_SIZE" "p_head p < PIPE_SIZE" "p_tail p < PIPE_SIZE"
    using assms(1) by (simp_all add: pipe_inv_def)
  define n where "n = (p_tail p + PIPE_SIZE - p_head p) mod PIPE_SIZE"
  define t where "t = (p_tail p + 1) mod PIPE_SIZE"
  define p' where "p' = p\<lparr>p_buffer := (p_buffer p)[p_tail p := x], p_tail := t\<rparr>"
  have n: "n < PIPE_SIZE - 1" using assms(2) by (simp add: pipe_len n_def)
  have tl: "(p_head p + n) mod PIPE_SIZE = p_tail p" unfolding n_def by (rule pipe_count(1) [OF h(2,3)])
  have ne: "t \<noteq> p_head p" using pipe_full_iff [OF h(2,3)] n by (simp add: t_def n_def)
  then have put: "pipe_put x p = Some p'" by (simp add: pipe_put_def Let_def t_def p'_def)
  have t: "t < PIPE_SIZE" by (simp add: t_def)
  have "(t + PIPE_SIZE - p_head p) mod PIPE_SIZE = Suc n"
    unfolding pipe_count(2) [OF h(2) t] using n h(2,3) ne
    unfolding n_def pipe_count(2) [OF h(2,3)] t_def by (auto simp: mod_if split: if_splits)
  then have "pipe_items p' = ring_items ((p_buffer p)[p_tail p := x]) (p_head p) (Suc n)"
    by (simp add: pipe_items_def p'_def)
  also have "\<dots> = ring_items (p_buffer p) (p_head p) n @ [x]"
    using ring_items_put [of n "p_buffer p" "p_head p" x] n tl h(1) by simp
  finally have "pipe_items p' = pipe_items p @ [x]" by (simp add: pipe_items_def n_def)
  moreover have "pipe_inv p'" using h t by (simp add: pipe_inv_def p'_def)
  ultimately show ?thesis using put by blast
qed

lemma pipe_get_first:
  assumes "pipe_inv p" "pipe_items p = x # xs"
  shows "\<exists>p'. pipe_get p = Some (x, p') \<and> pipe_inv p' \<and> pipe_items p' = xs"
proof -
  have h: "length (p_buffer p) = PIPE_SIZE" "p_head p < PIPE_SIZE" "p_tail p < PIPE_SIZE"
    using assms(1) by (simp_all add: pipe_inv_def)
  define n where "n = (p_tail p + PIPE_SIZE - p_head p) mod PIPE_SIZE"
  define hd' where "hd' = (p_head p + 1) mod PIPE_SIZE"
  define p' where "p' = p\<lparr>p_head := hd'\<rparr>"
  obtain m where m: "n = Suc m" using assms(2) pipe_len [of p] by (metis n_def length_Cons)
  have ne: "p_head p \<noteq> p_tail p"
  proof
    assume "p_head p = p_tail p"
    then have "n = 0" unfolding n_def pipe_count(2) [OF h(2,3)] by simp
    then show False using m by simp
  qed
  have c: "(p_tail p + PIPE_SIZE - hd') mod PIPE_SIZE = m"
  proof -
    have t: "hd' < PIPE_SIZE" by (simp add: hd'_def)
    show ?thesis using m ne h(2,3) unfolding pipe_count(2) [OF t h(3)] n_def pipe_count(2) [OF h(2,3)] hd'_def
      by (auto simp: mod_if split: if_splits)
  qed
  have "x # xs = p_buffer p ! p_head p # ring_items (p_buffer p) hd' m"
    using ring_items_Suc [of "p_head p" "p_buffer p" m] h m assms(2)
    by (simp add: pipe_items_def n_def hd'_def)
  then have x: "x = p_buffer p ! p_head p" "xs = pipe_items p'" using c by (simp_all add: pipe_items_def p'_def)
  have "pipe_get p = Some (x, p')" using ne x(1) by (simp add: pipe_get_def p'_def hd'_def)
  moreover have "pipe_inv p'" using h by (simp add: pipe_inv_def p'_def hd'_def)
  ultimately show ?thesis using x(2) by blast
qed

interpretation pipe_fifo: fifo pipe_inv pipe_items "PIPE_SIZE - 1" pipe_put pipe_get
proof
  fix p :: pipe and x :: u8 and xs
  assume i: "pipe_inv p"
  then have h: "p_head p < PIPE_SIZE" "p_tail p < PIPE_SIZE" by (simp_all add: pipe_inv_def)
  show "pipe_put x p = None" if "PIPE_SIZE - 1 \<le> length (pipe_items p)"
    using that pipe_full_iff [OF h] unfolding pipe_len by (simp add: pipe_put_def Let_def)
  show "\<exists>s'. pipe_put x p = Some s' \<and> pipe_inv s' \<and> pipe_items s' = pipe_items p @ [x]"
    if "length (pipe_items p) < PIPE_SIZE - 1" using pipe_put_room [OF i that] .
  show "pipe_get p = None" if "pipe_items p = []"
  proof -
    have "(p_tail p + PIPE_SIZE - p_head p) mod PIPE_SIZE = 0" using pipe_len [of p] that by simp
    then have "p_head p = p_tail p" using h unfolding pipe_count(2) [OF h] by (simp split: if_splits)
    then show ?thesis by (simp add: pipe_get_def)
  qed
  show "\<exists>s'. pipe_get p = Some (x, s') \<and> pipe_inv s' \<and> pipe_items s' = xs" if "pipe_items p = x # xs"
    using pipe_get_first [OF i that] .
qed

lemma new_pipe_inv: "length buf = PIPE_SIZE \<Longrightarrow> pipe_inv (new_pipe buf) \<and> pipe_items (new_pipe buf) = []"
  by (simp add: pipe_inv_def pipe_items_def new_pipe_def)

subsection \<open>Waking\<close>

lemma wake_waiting_eq:
  assumes "sched_inv s"
  shows "wake_waiting s = Some (s\<lparr>procs := mapped (\<lambda>_ q. pstate q = PROCESS_WAITING) (\<lambda>q. q\<lparr>pstate := PROCESS_READY\<rparr>)
    (dom (procs s)) (procs s)\<rparr>)"
  using ring_update_queue [OF sched_inv_one_ring [OF assms], of "\<lambda>q. q\<lparr>pstate := PROCESS_READY\<rparr>"]
    one_ring_nonnull(2) [OF sched_inv_one_ring [OF assms]]
  by (simp add: wake_waiting_def)

lemma wake_waiting_inv:
  assumes "sched_inv s"
  shows "\<exists>s'. wake_waiting s = Some s' \<and> sched_inv s' \<and> (\<forall>a q. procs s' a = Some q \<longrightarrow> pstate q \<noteq> PROCESS_WAITING)"
proof -
  define s' where "s' = s\<lparr>procs := mapped (\<lambda>_ q. pstate q = PROCESS_WAITING) (\<lambda>q. q\<lparr>pstate := PROCESS_READY\<rparr>)
    (dom (procs s)) (procs s)\<rparr>"
  have "sched_inv s'"
    by (rule procs_update_inv [OF assms, where P = "\<lambda>_ q. pstate q = PROCESS_WAITING"
          and f = "\<lambda>q. q\<lparr>pstate := PROCESS_READY\<rparr>" and A = "dom (procs s)"]) (simp_all add: s'_def)
  moreover have "pstate q \<noteq> PROCESS_WAITING" if "procs s' a = Some q" for a q
    using that by (cases "procs s a") (auto simp: s'_def mapped_def at_def split: if_splits)
  ultimately show ?thesis using wake_waiting_eq [OF assms] unfolding s'_def by blast
qed

text \<open>A full pipe whose reader has gone: the writer in the loop blocks again, for ever.\<close>

lemma writer_stuck_after_close:
  assumes "sched_inv s" "pipe_inv p" "length (pipe_items p) = PIPE_SIZE - 1" "bs \<noteq> []" "read_closed p"
  shows "\<exists>s'. pipe_write_loop bs p s = Some (None, p, s')"
proof -
  obtain s' where "block_current s = Some s'" using block_current_inv [OF assms(1)] by blast
  then show ?thesis using assms(3,4) pipe_fifo.put_None_iff [OF assms(2)] by (simp add: pipe_write_loop_def)
qed

subsection \<open>Property\<close>

text \<open>
  C14. A pipe is a queue of at most 4095 bytes. A write to an open pipe that is not full appends as
  much as fits and wakes every waiting process; a read takes from the front up to the number asked
  for; the read end sees end of file exactly when the pipe is empty and the write end closed;
  a write to a full pipe and a read from an empty open one block and change nothing.
\<close>

theorem pipe_refines_queue:
  assumes "sched_inv s" "pipe_inv p" "\<not> read_closed p"
  shows "(\<not> write_closed p \<and> (bs = [] \<or> length (pipe_items p) < PIPE_SIZE - 1) \<longrightarrow>
      (\<exists>p' s'. pipe_write bs p s = Some (Some (min (length bs) (PIPE_SIZE - 1 - length (pipe_items p))), p', s')
        \<and> pipe_inv p' \<and> pipe_items p' = pipe_items p @ take (PIPE_SIZE - 1 - length (pipe_items p)) bs
        \<and> sched_inv s' \<and> (\<forall>a q. procs s' a = Some q \<longrightarrow> pstate q \<noteq> PROCESS_WAITING)))
    \<and> (\<not> write_closed p \<and> bs \<noteq> [] \<and> length (pipe_items p) \<ge> PIPE_SIZE - 1 \<longrightarrow>
        (\<exists>s'. pipe_write bs p s = Some (None, p, s') \<and> block_current s = Some s'))
    \<and> (sz = 0 \<or> pipe_items p \<noteq> [] \<or> write_closed p \<longrightarrow>
      (\<exists>p' s'. pipe_read sz p s = Some (Some (take sz (pipe_items p)), p', s')
        \<and> pipe_inv p' \<and> pipe_items p' = drop sz (pipe_items p) \<and> sched_inv s'))
    \<and> (sz > 0 \<and> pipe_items p = [] \<and> \<not> write_closed p \<longrightarrow>
        (\<exists>s'. pipe_read sz p s = Some (None, p, s') \<and> block_current s = Some s'))"
proof -
  obtain w where w: "wake_waiting s = Some w" "sched_inv w" "\<forall>a q. procs w a = Some q \<longrightarrow> pstate q \<noteq> PROCESS_WAITING"
    using wake_waiting_inv [OF assms(1)] by blast
  obtain b where b: "block_current s = Some b" using block_current_inv [OF assms(1)] by blast
  obtain n p1 where pu: "push_all pipe_put bs p = (n, p1)" by fastforce
  note ps = pipe_fifo.push_all_spec [OF assms(2) pu]
  obtain xs p2 where po: "pop_all pipe_get sz p = (xs, p2)" by fastforce
  note gs = pipe_fifo.pop_all_spec [OF assms(2) po]
  have t: "take n bs = take (PIPE_SIZE - 1 - length (pipe_items p)) bs" using ps(2) by (simp add: min_def)
  have full: "pipe_put x p = None \<longleftrightarrow> PIPE_SIZE - 1 \<le> length (pipe_items p)" for x
    by (rule pipe_fifo.put_None_iff [OF assms(2)])
  have empty: "pipe_get p = None \<longleftrightarrow> pipe_items p = []" by (rule pipe_fifo.get_None_iff [OF assms(2)])
  have 1: "pipe_write bs p s = Some (Some n, p1, w)"
    if "\<not> write_closed p" "bs = [] \<or> length (pipe_items p) < PIPE_SIZE - 1"
  proof -
    have nf: "\<not> (bs \<noteq> [] \<and> pipe_put (hd bs) p = None)" unfolding full using that(2) by linarith
    show ?thesis unfolding pipe_write_def pipe_write_loop_def if_not_P [OF nf] using that(1) assms(3) pu w(1) by simp
  qed
  have 2: "pipe_write bs p s = Some (None, p, b)"
    if "\<not> write_closed p" "bs \<noteq> []" "length (pipe_items p) \<ge> PIPE_SIZE - 1"
    using that assms(3) b full by (simp add: pipe_write_def pipe_write_loop_def)
  have 3: "pipe_read sz p s = Some (Some xs, p2, w)" if "sz = 0 \<or> pipe_items p \<noteq> [] \<or> write_closed p"
  proof -
    have ne: "\<not> (sz > 0 \<and> pipe_get p = None \<and> \<not> write_closed p)" unfolding empty using that by auto
    show ?thesis unfolding pipe_read_def pipe_read_loop_def if_not_P [OF ne] using assms(3) po w(1) by simp
  qed
  have 4: "pipe_read sz p s = Some (None, p, b)" if "sz > 0" "pipe_items p = []" "\<not> write_closed p"
    using that assms(3) b empty by (simp add: pipe_read_def pipe_read_loop_def)
  show ?thesis
  proof (intro conjI impI)
    assume a: "\<not> write_closed p \<and> (bs = [] \<or> length (pipe_items p) < PIPE_SIZE - 1)"
    show "\<exists>p' s'. pipe_write bs p s = Some (Some (min (length bs) (PIPE_SIZE - 1 - length (pipe_items p))), p', s')
        \<and> pipe_inv p' \<and> pipe_items p' = pipe_items p @ take (PIPE_SIZE - 1 - length (pipe_items p)) bs
        \<and> sched_inv s' \<and> (\<forall>a q. procs s' a = Some q \<longrightarrow> pstate q \<noteq> PROCESS_WAITING)"
      using 1 a ps w(2,3) t by auto
  next
    assume a: "\<not> write_closed p \<and> bs \<noteq> [] \<and> length (pipe_items p) \<ge> PIPE_SIZE - 1"
    show "\<exists>s'. pipe_write bs p s = Some (None, p, s') \<and> block_current s = Some s'" using 2 a b by blast
  next
    assume a: "sz = 0 \<or> pipe_items p \<noteq> [] \<or> write_closed p"
    show "\<exists>p' s'. pipe_read sz p s = Some (Some (take sz (pipe_items p)), p', s')
        \<and> pipe_inv p' \<and> pipe_items p' = drop sz (pipe_items p) \<and> sched_inv s'"
      using 3 a gs w(2) by blast
  next
    assume a: "sz > 0 \<and> pipe_items p = [] \<and> \<not> write_closed p"
    show "\<exists>s'. pipe_read sz p s = Some (None, p, s') \<and> block_current s = Some s'" using 4 a b by blast
  qed
qed

theorem pipe_refines_queue_witness:
  "\<exists>p1 s1 p2 s2. pipe_write [1, 2, 3] (new_pipe (replicate PIPE_SIZE 0)) demo_kst = Some (Some 3, p1, s1)
    \<and> pipe_read 2 p1 s1 = Some (Some [1, 2], p2, s2) \<and> pipe_items p2 = [3]"
proof -
  let ?p = "new_pipe (replicate PIPE_SIZE 0)"
  have i: "pipe_inv ?p" "pipe_items ?p = []" "\<not> read_closed ?p" "\<not> write_closed ?p"
    using new_pipe_inv [of "replicate PIPE_SIZE 0"] by (simp_all add: new_pipe_def)
  obtain p1 s1 where w: "pipe_write [1, 2, 3] ?p demo_kst = Some (Some 3, p1, s1)" "pipe_inv p1"
      "pipe_items p1 = [1, 2, 3]" "sched_inv s1"
    using pipe_refines_queue [OF demo_sched_inv i(1,3), of "[1, 2, 3]" 0] i(2,4) by (auto simp: numeral_3_eq_3)
  obtain n q where c: "push_all pipe_put [1, 2, 3] ?p = (n, q)" by fastforce
  define bs :: "u8 list" where "bs = [1, 2, 3]"
  have nf: "\<not> (bs \<noteq> [] \<and> pipe_put (hd bs) ?p = None)"
    unfolding pipe_fifo.put_None_iff [OF i(1)] i(2) by simp
  have "pipe_write bs ?p demo_kst = do { s1 \<leftarrow> wake_waiting demo_kst; Some (Some n, q, s1) }"
    unfolding pipe_write_def pipe_write_loop_def if_not_P [OF nf] using i(3,4) c [folded bs_def] by simp
  then have "q = p1" using w(1) [folded bs_def] by (cases "wake_waiting demo_kst") simp_all
  moreover have "read_closed q = read_closed ?p"
    by (rule push_all_keeps [OF _ c]) (auto simp: pipe_put_def Let_def split: if_splits)
  ultimately have "\<not> read_closed p1" using i(3) by simp
  then show ?thesis
    using pipe_refines_queue [OF w(4,2), of "[]" 2] w(1,3) by auto
qed

end
