(* ===== verification/Signal.thy ===== *)
theory Signal
  imports Process
begin

text \<open>
  Signals, \<open>signal.cpp\<close> without \<open>sys_kill\<close> (theory Sched): signal sets, actions, masks, the calls
  that wait for a signal, delivery on the way back to user mode and the return from a handler,
  with the dispatcher of \<open>syscall.cpp\<close> through which \<open>sigreturn\<close> runs. A call that blocks
  is one round of its loop (\<open>None\<close> as the result: it blocked and runs again later). The user
  stack is a function from addresses to words.
\<close>

subsection \<open>Signal sets\<close>

abbreviation SIGABRT :: nat where "SIGABRT \<equiv> 6"
abbreviation SIGKILL :: nat where "SIGKILL \<equiv> 9"
abbreviation SIGCONT :: nat where "SIGCONT \<equiv> 18"
abbreviation SIGSTOP :: nat where "SIGSTOP \<equiv> 19"
abbreviation SIGTSTP :: nat where "SIGTSTP \<equiv> 20"
abbreviation SIGTTIN :: nat where "SIGTTIN \<equiv> 21"
abbreviation SIGTTOU :: nat where "SIGTTOU \<equiv> 22"
abbreviation SIGURG :: nat where "SIGURG \<equiv> 23"
abbreviation SIGWINCH :: nat where "SIGWINCH \<equiv> 28"

text \<open>The set is updated in place; the result is the return value and the set after the call.\<close>

definition valid_signal :: "int \<Rightarrow> bool" where
  "valid_signal n \<longleftrightarrow> \<not> (n < 1 \<or> n \<ge> int NSIG)"

definition sigemptyset :: "sigset \<Rightarrow> int \<times> sigset" where "sigemptyset w = (0, 0)"

definition sigfillset :: "sigset \<Rightarrow> int \<times> sigset" where "sigfillset w = (0, NOT 0)"

definition sigaddset :: "sigset \<Rightarrow> int \<Rightarrow> int \<times> sigset" where
  "sigaddset w n = (if valid_signal n then (0, w OR sigbit (nat n)) else (- 1, w))"

definition sigdelset :: "sigset \<Rightarrow> int \<Rightarrow> int \<times> sigset" where
  "sigdelset w n = (if valid_signal n then (0, w AND NOT (sigbit (nat n))) else (- 1, w))"

definition sigismember :: "sigset \<Rightarrow> int \<Rightarrow> int" where
  "sigismember w n = (if valid_signal n then (if w AND sigbit (nat n) \<noteq> 0 then 1 else 0) else - 1)"

subsection \<open>Actions and masks\<close>

text \<open>The calls below work on the record of the current process.\<close>

definition SIG_DFL :: u32 where "SIG_DFL = 0"
definition SIG_IGN :: u32 where "SIG_IGN = 1"
definition SA_NODEFER :: u32 where "SA_NODEFER = 0x40000000"
definition SA_RESETHAND :: u32 where "SA_RESETHAND = 0x80000000"

definition set_action :: "nat \<Rightarrow> sigaction \<Rightarrow> process \<Rightarrow> process" where
  "set_action n a c = c\<lparr>signal_actions := (signal_actions c)[n := a]\<rparr>"

definition may_catch :: "int \<Rightarrow> bool" where
  "may_catch n \<longleftrightarrow> valid_signal n \<and> \<not> (n = int SIGKILL \<or> n = int SIGSTOP)"

definition sys_signal :: "int \<Rightarrow> u32 \<Rightarrow> process \<Rightarrow> int \<times> process" where
  "sys_signal n handler c =
     (if \<not> may_catch n then (- EINVAL, c)
      else (0, set_action (nat n) \<lparr>sa_handler = handler, sa_mask = 0, sa_flags = 0, sa_restorer = 0\<rparr> c))"

text \<open>The second component is what is stored to \<open>oldact\<close> when it is given.\<close>

definition sys_sigaction :: "int \<Rightarrow> sigaction option \<Rightarrow> process \<Rightarrow> int \<times> sigaction option \<times> process" where
  "sys_sigaction n act c =
     (if \<not> may_catch n then (- EINVAL, None, c)
      else (0, Some (signal_actions c ! nat n), (case act of None \<Rightarrow> c | Some a \<Rightarrow> set_action (nat n) a c)))"

definition unblockable :: sigset where "unblockable = sigbit SIGKILL OR sigbit SIGSTOP"

definition allow_kill :: "sigset \<Rightarrow> sigset" where
  "allow_kill m = (m AND NOT (sigbit SIGKILL)) AND NOT (sigbit SIGSTOP)"

definition sys_sigprocmask :: "int \<Rightarrow> sigset option \<Rightarrow> process \<Rightarrow> int \<times> sigset \<times> process" where
  "sys_sigprocmask how arg c = (case arg of
       None \<Rightarrow> (0, signal_mask c, c)
     | Some w \<Rightarrow>
         if how = 0 then (0, signal_mask c, c\<lparr>signal_mask := allow_kill (signal_mask c OR w)\<rparr>)
         else if how = 1 then (0, signal_mask c, c\<lparr>signal_mask := allow_kill (signal_mask c AND NOT w)\<rparr>)
         else if how = 2 then (0, signal_mask c, c\<lparr>signal_mask := allow_kill w\<rparr>)
         else (- EINVAL, signal_mask c, c))"

definition sys_sigpending :: "process \<Rightarrow> int \<times> sigset" where
  "sys_sigpending c = (0, pending_signals c)"

subsection \<open>Waiting for signals\<close>

definition sigsuspend_begin :: "sigset \<Rightarrow> process \<Rightarrow> sigset \<times> process" where
  "sigsuspend_begin m c = (signal_mask c, c\<lparr>signal_mask := allow_kill m\<rparr>)"

definition sigsuspend_round :: "sigset \<Rightarrow> kst \<Rightarrow> (int option \<times> kst) option" where
  "sigsuspend_round old s = do {
     c \<leftarrow> procs s (current_process s);
     if pending_signals c AND NOT (signal_mask c) = 0
     then do { s1 \<leftarrow> block_current s; Some (None, s1) }
     else Some (Some (- EINTR), set_proc (current_process s) (c\<lparr>signal_mask := old\<rparr>) s) }"

text \<open>The first signal of a set from 1 up.\<close>

definition first_signal :: "sigset \<Rightarrow> nat option" where
  "first_signal w = find (\<lambda>i. w AND sigbit i \<noteq> 0) [1 ..< NSIG]"

definition sys_sigwait_round :: "sigset \<Rightarrow> kst \<Rightarrow> (nat option \<times> kst) option" where
  "sys_sigwait_round w s = do {
     c \<leftarrow> procs s (current_process s);
     case first_signal (pending_signals c AND w) of
       Some i \<Rightarrow> Some (Some i, set_proc (current_process s)
                   (c\<lparr>pending_signals := pending_signals c AND NOT (sigbit i)\<rparr>) s)
     | None \<Rightarrow> do { s1 \<leftarrow> block_current s; Some (None, s1) } }"

text \<open>\<open>deadline\<close> is \<open>tick + timeout\<close> at entry, or \<open>None\<close> without a timeout.\<close>

definition sigtimedwait_deadline :: "u32 option \<Rightarrow> kst \<Rightarrow> u32 option" where
  "sigtimedwait_deadline timeout s = map_option (\<lambda>t. tick s + t) timeout"

definition sys_sigtimedwait_round :: "sigset \<Rightarrow> u32 option \<Rightarrow> kst \<Rightarrow> (int option \<times> kst) option" where
  "sys_sigtimedwait_round w deadline s = do {
     c \<leftarrow> procs s (current_process s);
     case first_signal (pending_signals c AND w) of
       Some i \<Rightarrow> Some (Some (int i), set_proc (current_process s)
                   (c\<lparr>pending_signals := pending_signals c AND NOT (sigbit i)\<rparr>) s)
     | None \<Rightarrow>
         if (case deadline of None \<Rightarrow> False | Some d \<Rightarrow> tick s \<ge> d) then Some (Some (- EAGAIN), s)
         else do { s1 \<leftarrow> block_current s; Some (None, s1) } }"

definition sys_pause_round :: "kst \<Rightarrow> (int option \<times> kst) option" where
  "sys_pause_round s = do {
     c \<leftarrow> procs s (current_process s);
     if pending_signals c = 0 then do { s1 \<leftarrow> block_current s; Some (None, s1) }
     else Some (Some (- EINTR), s) }"

definition sys_abort :: "kst \<Rightarrow> kst option" where
  "sys_abort s = do {
     c \<leftarrow> procs s (current_process s);
     (r, s1) \<leftarrow> sys_kill (sint (pid c)) (int SIGABRT) s;
     exit_process (128 + of_nat SIGABRT) s1 }"

subsection \<open>Delivery\<close>

text \<open>
  What \<open>handle_signals\<close> comes to for the current process: back to user mode with these
  registers and this user stack; stopped, to go on with the signal after \<open>n\<close> when it runs again;
  or killed with a status.
\<close>

datatype delivery = To_user registers "u32 \<Rightarrow> u32" | Stopped nat | Killed u32

definition default_ignored :: "nat \<Rightarrow> bool" where
  "default_ignored n \<longleftrightarrow> n = 17 \<or> n = SIGURG \<or> n = SIGWINCH \<or> n = SIGCONT"

definition default_stops :: "nat \<Rightarrow> bool" where
  "default_stops n \<longleftrightarrow> n = SIGSTOP \<or> n = SIGTSTP \<or> n = SIGTTIN \<or> n = SIGTTOU"

text \<open>The call of a handler: the context is saved and the frame built on the user stack.\<close>

definition enter_handler :: "nat \<Rightarrow> registers \<Rightarrow> (u32 \<Rightarrow> u32) \<Rightarrow> process \<Rightarrow> delivery \<times> process" where
  "enter_handler n regs mem c =
     (let sa = signal_actions c ! n;
          m1 = (if sa_flags sa AND SA_NODEFER = 0 then signal_mask c OR sigbit n else signal_mask c);
          sp1 = r_useresp regs - 4;
          mem1 = mem(sp1 := 0xDEADC0DE);
          sp2 = sp1 - 4;
          mem2 = mem1(sp2 := of_nat n);
          c1 = c\<lparr>saved_context := regs, in_signal_handler := True, signal_mask := m1 OR sa_mask sa\<rparr>;
          c2 = (if sa_flags sa AND SA_RESETHAND \<noteq> 0 then set_action n (sa\<lparr>sa_handler := SIG_DFL\<rparr>) c1 else c1)
      in (To_user (regs\<lparr>r_useresp := sp2, r_eip := sa_handler sa\<rparr>) mem2, c2))"

fun deliver :: "nat list \<Rightarrow> sigset \<Rightarrow> registers \<Rightarrow> (u32 \<Rightarrow> u32) \<Rightarrow> process \<Rightarrow> delivery \<times> process" where
  "deliver [] deliverable regs mem c = (To_user regs mem, c)"
| "deliver (n # ns) deliverable regs mem c =
     (if deliverable AND sigbit n = 0 then deliver ns deliverable regs mem c
      else
        let c1 = c\<lparr>pending_signals := pending_signals c AND NOT (sigbit n)\<rparr>;
            h = sa_handler (signal_actions c ! n)
        in if h = SIG_IGN then deliver ns deliverable regs mem c1
           else if h = SIG_DFL then
             (if default_ignored n then deliver ns deliverable regs mem c1
              else if default_stops n then (Stopped n, c1\<lparr>pstate := PROCESS_WAITING\<rparr>)
              else (Killed (128 + of_nat n), c1))
           else enter_handler n regs mem c1)"

definition deliver_current :: "nat list \<Rightarrow> sigset \<Rightarrow> registers \<Rightarrow> (u32 \<Rightarrow> u32) \<Rightarrow> kst \<Rightarrow> (delivery \<times> kst) option" where
  "deliver_current ns deliverable regs mem s = do {
     c \<leftarrow> procs s (current_process s);
     let (d, c1) = deliver ns deliverable regs mem c;
     let s1 = set_proc (current_process s) c1 s;
     case d of
       To_user _ _ \<Rightarrow> Some (d, s1)
     | Stopped _ \<Rightarrow> do { s2 \<leftarrow> schedule s1; Some (d, s2) }
     | Killed st \<Rightarrow> do { s2 \<leftarrow> exit_process st s1; Some (d, s2) } }"

definition handle_signals :: "registers \<Rightarrow> (u32 \<Rightarrow> u32) \<Rightarrow> kst \<Rightarrow> (delivery \<times> kst) option" where
  "handle_signals regs mem s =
     (if r_cs regs AND 3 \<noteq> 3 then Some (To_user regs mem, s)
      else do {
        c \<leftarrow> procs s (current_process s);
        if in_signal_handler c then Some (To_user regs mem, s)
        else
          let deliverable = pending_signals c AND NOT (signal_mask c) in
          if deliverable = 0 then Some (To_user regs mem, s)
          else deliver_current [1 ..< NSIG] deliverable regs mem s })"

text \<open>The loop goes on after a stop, with the set computed at the start.\<close>

definition handle_signals_resume :: "nat \<Rightarrow> sigset \<Rightarrow> registers \<Rightarrow> (u32 \<Rightarrow> u32) \<Rightarrow> kst \<Rightarrow> (delivery \<times> kst) option" where
  "handle_signals_resume n deliverable regs mem s = deliver_current [Suc n ..< NSIG] deliverable regs mem s"

definition kernel_sigreturn :: "registers \<Rightarrow> process \<Rightarrow> int \<times> registers \<times> process" where
  "kernel_sigreturn regs c =
     (if \<not> in_signal_handler c then (- EINVAL, regs, c)
      else (0, saved_context c, c\<lparr>in_signal_handler := False\<rparr>))"

subsection \<open>The dispatcher\<close>

text \<open>\<open>regs->eax = table[regs->eax](regs)\<close>: the result replaces \<open>eax\<close> after the call has run.\<close>

definition syscall_handler ::
  "(nat \<Rightarrow> (registers \<Rightarrow> 's \<Rightarrow> int \<times> registers \<times> 's) option) \<Rightarrow> registers \<Rightarrow> 's \<Rightarrow> registers \<times> 's" where
  "syscall_handler table regs s =
     (if unat (r_eax regs) < 256
      then (case table (unat (r_eax regs)) of
          Some f \<Rightarrow> (let (r, regs1, s1) = f regs s in (regs1\<lparr>r_eax := word_of_int r\<rparr>, s1))
        | None \<Rightarrow> (regs\<lparr>r_eax := word_of_int (- ENOSYS)\<rparr>, s))
      else (regs\<lparr>r_eax := word_of_int (- ENOSYS)\<rparr>, s))"

subsection \<open>Signal sets as sets\<close>

definition sigs :: "sigset \<Rightarrow> nat set" where
  "sigs w = {n. n < NSIG \<and> bit w n}"

lemma bit_sigbit: "n < NSIG \<Longrightarrow> bit (sigbit n) i \<longleftrightarrow> i = n"
  by (auto simp: sigbit_def bit_simps)

lemma and_sigbit:
  assumes "n < NSIG"
  shows "w AND sigbit n \<noteq> 0 \<longleftrightarrow> bit w n"
proof
  assume "w AND sigbit n \<noteq> 0"
  then obtain i where "bit (w AND sigbit n) i" by (metis bit_0_eq bit_eqI bot_apply bot_bool_def)
  then show "bit w n" unfolding bit_and_iff bit_sigbit [OF assms] by blast
next
  assume "bit w n"
  then have "bit (w AND sigbit n) n" by (simp add: bit_and_iff bit_sigbit [OF assms])
  then show "w AND sigbit n \<noteq> 0" by auto
qed

lemma sigs_simps [simp]:
  "sigs 0 = {}" "sigs (v OR w) = sigs v \<union> sigs w"
  "sigs (v AND w) = sigs v \<inter> sigs w" "sigs (v AND NOT w) = sigs v - sigs w"
  "n < NSIG \<Longrightarrow> sigs (sigbit n) = {n}" "sigs (NOT w) = {..<NSIG} - sigs w"
  by (auto simp: sigs_def bit_simps bit_sigbit)

lemma in_sigs: "n \<in> sigs w \<longleftrightarrow> n < NSIG \<and> w AND sigbit n \<noteq> 0"
  using and_sigbit by (auto simp: sigs_def)

lemma first_signal_spec:
  "case first_signal w of None \<Rightarrow> sigs w \<subseteq> {0} | Some i \<Rightarrow> i \<in> sigs w \<and> 0 < i \<and> (\<forall>j. 0 < j \<and> j < i \<longrightarrow> j \<notin> sigs w)"
proof (cases "first_signal w")
  case None
  then have "\<forall>i \<in> set [1 ..< NSIG]. \<not> w AND sigbit i \<noteq> 0" unfolding first_signal_def find_None .
  then have "i = 0" if "i \<in> sigs w" for i using that by (force simp: in_sigs)
  then show ?thesis using None by auto
next
  case (Some i)
  then obtain k where k: "k < length [1 ..< NSIG]" "w AND sigbit ([1 ..< NSIG] ! k) \<noteq> 0" "i = [1 ..< NSIG] ! k"
      "\<forall>j < k. \<not> w AND sigbit ([1 ..< NSIG] ! j) \<noteq> 0"
    unfolding first_signal_def find_Some_iff by blast
  have i: "i = Suc k" "i < NSIG" using k(1,3) by simp_all
  moreover have "j \<notin> sigs w" if "0 < j" "j < i" for j
    using k(4) [rule_format, of "j - 1"] that i k(1) by (simp add: in_sigs)
  ultimately show ?thesis using Some k(2,3) by (simp add: in_sigs)
qed

lemma sigs_lt: "n \<in> sigs w \<Longrightarrow> n < NSIG"
  by (simp add: sigs_def)

lemma unblockable_sigs: "sigs (allow_kill w) = sigs w - {SIGKILL, SIGSTOP}"
  by (auto simp: allow_kill_def dest: sigs_lt)

subsection \<open>Delivery\<close>

text \<open>Signals that are ignored are taken off the pending set and nothing else happens.\<close>

definition ignores :: "process \<Rightarrow> nat \<Rightarrow> bool" where
  "ignores c n \<longleftrightarrow> (let h = sa_handler (signal_actions c ! n) in h = SIG_IGN \<or> h = SIG_DFL \<and> default_ignored n)"

lemma deliver_skip:
  assumes "\<And>m. m \<in> set ms \<Longrightarrow> d AND sigbit m \<noteq> 0 \<Longrightarrow> ignores c m"
  shows "\<exists>p. deliver (ms @ ns) d regs mem c = deliver ns d regs mem (c\<lparr>pending_signals := p\<rparr>) \<and> sigs p \<subseteq> sigs (pending_signals c)"
  using assms
proof (induction ms arbitrary: c)
  case Nil
  show ?case by (intro exI [of _ "pending_signals c"]) simp
next
  case (Cons m ms)
  show ?case
  proof (cases "d AND sigbit m = 0")
    case True
    then show ?thesis using Cons.IH [of c] Cons.prems by simp
  next
    case False
    define c1 where "c1 = c\<lparr>pending_signals := pending_signals c AND NOT (sigbit m)\<rparr>"
    have ig: "ignores c m" using Cons.prems [of m] False by simp
    then have "deliver ((m # ms) @ ns) d regs mem c = deliver (ms @ ns) d regs mem c1"
      using False by (auto simp: ignores_def Let_def c1_def SIG_DFL_def SIG_IGN_def)
    moreover have "ignores c1 k" if "k \<in> set ms" "d AND sigbit k \<noteq> 0" for k
      using Cons.prems [of k] that by (simp add: ignores_def c1_def)
    then obtain p where "deliver (ms @ ns) d regs mem c1 = deliver ns d regs mem (c1\<lparr>pending_signals := p\<rparr>)"
        "sigs p \<subseteq> sigs (pending_signals c1)" using Cons.IH [of c1] by blast
    ultimately show ?thesis by (intro exI [of _ p]) (auto simp: c1_def)
  qed
qed

lemma signals_split: "1 \<le> n \<Longrightarrow> n < NSIG \<Longrightarrow> [1 ..< NSIG] = [1 ..< n] @ n # [Suc n ..< NSIG]"
  using upt_add_eq_append [of 1 n "NSIG - n"] upt_conv_Cons [of n NSIG] by simp

lemma handle_signals_first:
  assumes "procs s (current_process s) = Some c" "r_cs regs AND 3 = 3" "\<not> in_signal_handler c"
    and "1 \<le> n" "n \<in> sigs (pending_signals c AND NOT (signal_mask c))"
    and "\<And>m. 1 \<le> m \<Longrightarrow> m < n \<Longrightarrow> m \<in> sigs (pending_signals c AND NOT (signal_mask c)) \<Longrightarrow> ignores c m"
  shows "\<exists>p. handle_signals regs mem s = deliver_current (n # [Suc n ..< NSIG])
      (pending_signals c AND NOT (signal_mask c)) regs mem
      (set_proc (current_process s) (c\<lparr>pending_signals := p\<rparr>) s) \<and> sigs p \<subseteq> sigs (pending_signals c)"
proof -
  define d where "d = pending_signals c AND NOT (signal_mask c)"
  have n: "n < NSIG" "d \<noteq> 0" using assms(5) unfolding d_def [symmetric] in_sigs by auto
  have "ignores c m" if "m \<in> set [1 ..< n]" "d AND sigbit m \<noteq> 0" for m
    using assms(6) [of m, unfolded d_def [symmetric] in_sigs] that n(1) by simp
  then obtain p where p: "deliver ([1 ..< n] @ n # [Suc n ..< NSIG]) d regs mem c
      = deliver (n # [Suc n ..< NSIG]) d regs mem (c\<lparr>pending_signals := p\<rparr>)" "sigs p \<subseteq> sigs (pending_signals c)"
    using deliver_skip by blast
  have "handle_signals regs mem s = deliver_current [1 ..< NSIG] d regs mem s"
    using assms(1-3) n(2) by (simp add: handle_signals_def d_def Let_def)
  also have "\<dots> = deliver_current (n # [Suc n ..< NSIG]) d regs mem (set_proc (current_process s) (c\<lparr>pending_signals := p\<rparr>) s)"
    unfolding deliver_current_def signals_split [OF assms(4) n(1)] using assms(1) p(1) by simp
  finally show ?thesis using p(2) unfolding d_def by blast
qed

subsection \<open>Properties\<close>

text \<open>
  The signal set operations implement finite sets of the signals 1 to 63: adding inserts,
  deleting removes, the empty and the full set are that, and the membership test decides
  membership; a number out of range changes nothing.
\<close>

theorem sigset_refines_set:
  "(valid_signal n \<longrightarrow> fst (sigaddset w n) = 0 \<and> sigs (snd (sigaddset w n)) = insert (nat n) (sigs w)
        \<and> fst (sigdelset w n) = 0 \<and> sigs (snd (sigdelset w n)) = sigs w - {nat n}
        \<and> sigismember w n = (if nat n \<in> sigs w then 1 else 0))
    \<and> (\<not> valid_signal n \<longrightarrow> sigaddset w n = (- 1, w) \<and> sigdelset w n = (- 1, w) \<and> sigismember w n = - 1)
    \<and> sigs (snd (sigemptyset w)) = {} \<and> sigs (snd (sigfillset w)) = {..<NSIG}"
proof -
  have all: "sigs (- 1) = {..<NSIG}" by (auto simp: sigs_def bit_simps)
  show ?thesis
  proof (cases "valid_signal n")
    case True
    then have n: "nat n < NSIG" by (simp add: valid_signal_def, linarith)
    show ?thesis
      using True n in_sigs [of "nat n" w] sigs_lt [of _ w] all
      by (auto simp: sigaddset_def sigdelset_def sigismember_def sigemptyset_def sigfillset_def)
  qed (simp_all add: sigaddset_def sigdelset_def sigismember_def sigemptyset_def sigfillset_def all)
qed

text \<open>
  \<open>sigprocmask\<close> and \<open>sigsuspend\<close> never block \<open>SIGKILL\<close> or \<open>SIGSTOP\<close>, and neither can
  get a handler; but entering a handler adds its \<open>sa_mask\<close> unchanged, so a mask with \<open>SIGKILL\<close> in it
  blocks \<open>SIGKILL\<close>, and since \<open>sigreturn\<close> does not restore the mask, for good.
\<close>

theorem kill_blocked_only_by_handler:
  assumes "sys_sigprocmask how (Some w) c = (0, old, c1)" "sigsuspend_begin w c = (old2, c2)"
    and "enter_handler n regs mem c = (d, c3)" "kernel_sigreturn regs2 c3 = (r, regs3, c4)"
    and "SIGKILL \<in> sigs (sa_mask (signal_actions c ! n))" "n < NSIG"
  shows "sigs (signal_mask c1) \<inter> {SIGKILL, SIGSTOP} = {} \<and> sigs (signal_mask c2) \<inter> {SIGKILL, SIGSTOP} = {}
    \<and> fst (sys_signal (int SIGKILL) h c) = - EINVAL \<and> fst (sys_sigaction (int SIGSTOP) act c) = - EINVAL
    \<and> SIGKILL \<in> sigs (signal_mask c3) \<and> r = 0 \<and> SIGKILL \<in> sigs (signal_mask c4)"
proof -
  have m: "signal_mask (if b then set_action n a q else q) = signal_mask q"
    "in_signal_handler (if b then set_action n a q else q) = in_signal_handler q" for b a q
    by (simp_all add: set_action_def)
  have "signal_mask c1 = allow_kill (signal_mask c OR w) \<or> signal_mask c1 = allow_kill (signal_mask c AND NOT w)
      \<or> signal_mask c1 = allow_kill w"
    using assms(1) by (auto simp: sys_sigprocmask_def split: if_splits)
  then have "sigs (signal_mask c1) \<inter> {SIGKILL, SIGSTOP} = {}" using unblockable_sigs by auto
  moreover have "sigs (signal_mask c2) \<inter> {SIGKILL, SIGSTOP} = {}"
    using assms(2) unblockable_sigs by (auto simp: sigsuspend_begin_def)
  moreover have c3: "SIGKILL \<in> sigs (signal_mask c3)" "in_signal_handler c3"
    using assms(3,5) m by (auto simp: enter_handler_def Let_def)
  moreover have "r = 0" "SIGKILL \<in> sigs (signal_mask c4)" using assms(4) c3 by (auto simp: kernel_sigreturn_def)
  ultimately show ?thesis by (simp add: sys_signal_def sys_sigaction_def may_catch_def)
qed

text \<open>
  C13. Delivery and return. On the way to user mode the first deliverable signal that is not
  ignored enters its handler: the signal is no longer pending, the frame of 8 bytes is built below the user
  stack pointer and \<open>sigreturn\<close> restores every register as it was. The dispatcher then writes
  the result of the call over \<open>eax\<close>, so the interrupted program loses it. The word a C function
  takes for its return address (at \<open>esp\<close>) is the signal number, and its argument (at \<open>esp + 4\<close>) is \<open>0xDEADC0DE\<close>.
\<close>

theorem handler_roundtrip:
  assumes "procs s (current_process s) = Some c" "r_cs regs AND 3 = 3" "\<not> in_signal_handler c"
    and "1 \<le> n" "n \<in> sigs (pending_signals c AND NOT (signal_mask c))"
    and "\<And>m. 1 \<le> m \<Longrightarrow> m < n \<Longrightarrow> m \<in> sigs (pending_signals c AND NOT (signal_mask c)) \<Longrightarrow> ignores c m"
    and "sa_handler (signal_actions c ! n) = h" "h \<noteq> SIG_DFL" "h \<noteq> SIG_IGN"
  shows "\<exists>mem' s' c'. handle_signals regs mem s
        = Some (To_user (regs\<lparr>r_useresp := r_useresp regs - 8, r_eip := h\<rparr>) mem', s')
    \<and> mem' (r_useresp regs - 8) = of_nat n \<and> mem' (r_useresp regs - 4) = 0xDEADC0DE
    \<and> (\<forall>a. a \<noteq> r_useresp regs - 8 \<longrightarrow> a \<noteq> r_useresp regs - 4 \<longrightarrow> mem' a = mem a)
    \<and> procs s' = (procs s)(current_process s \<mapsto> c') \<and> n \<notin> sigs (pending_signals c')
    \<and> (sa_flags (signal_actions c ! n) AND SA_NODEFER = 0 \<longrightarrow> n \<in> sigs (signal_mask c'))
    \<and> (\<forall>regs2. kernel_sigreturn regs2 c' = (0, regs, c'\<lparr>in_signal_handler := False\<rparr>)
        \<and> (r_eax regs2 = 20 \<longrightarrow> fst (syscall_handler [20 \<mapsto> kernel_sigreturn] regs2 c') = regs\<lparr>r_eax := 0\<rparr>))"
proof -
  define d where "d = pending_signals c AND NOT (signal_mask c)"
  have n: "n < NSIG" "d AND sigbit n \<noteq> 0" using assms(5) unfolding d_def [symmetric] in_sigs by blast+
  obtain p where p: "handle_signals regs mem s = deliver_current (n # [Suc n ..< NSIG]) d regs mem
      (set_proc (current_process s) (c\<lparr>pending_signals := p\<rparr>) s)"
    using handle_signals_first [OF assms(1-6), where mem = mem] unfolding d_def by blast
  define c1 where "c1 = c\<lparr>pending_signals := p AND NOT (sigbit n)\<rparr>"
  obtain dv c' where e: "enter_handler n regs mem c1 = (dv, c')" by fastforce
  define mem' where "mem' = mem(r_useresp regs - 4 := 0xDEADC0DE, r_useresp regs - 8 := of_nat n)"
  have dv: "dv = To_user (regs\<lparr>r_useresp := r_useresp regs - 8, r_eip := h\<rparr>) mem'"
    using e assms(7) by (simp add: enter_handler_def Let_def mem'_def c1_def)
  have ac: "sa_handler (signal_actions c1 ! n) = h" "signal_actions c1 = signal_actions c" using assms(7) by (simp_all add: c1_def)
  have "deliver (n # [Suc n ..< NSIG]) d regs mem (c\<lparr>pending_signals := p\<rparr>) = (dv, c')"
    using n(2) assms(7-9) e by (simp add: Let_def c1_def)
  then have "handle_signals regs mem s = Some (dv, set_proc (current_process s) c' s)"
    unfolding p deliver_current_def dv by simp
  moreover have "in_signal_handler c'" "saved_context c' = regs" "pending_signals c' = p AND NOT (sigbit n)"
      "signal_mask c' = (if sa_flags (signal_actions c ! n) AND SA_NODEFER = 0 then signal_mask c OR sigbit n else signal_mask c)
         OR sa_mask (signal_actions c ! n)"
    using e ac by (auto simp: enter_handler_def Let_def set_action_def c1_def)
  ultimately show ?thesis unfolding dv using n(1)
    by (intro exI [of _ mem'] exI [of _ "set_proc (current_process s) c' s"] exI [of _ c'])
      (simp add: mem'_def kernel_sigreturn_def syscall_handler_def set_proc_def)
qed

subsection \<open>Witnesses\<close>

theorem sigset_refines_set_witness: "sigs (snd (sigaddset 0 9)) = {9} \<and> sigismember 0x200 9 = 1"
proof -
  have v: "valid_signal 9" "nat 9 = 9" by (simp_all add: valid_signal_def)
  have "sigs (snd (sigaddset 0 9)) = insert (nat 9) (sigs 0)" using sigset_refines_set [of 9 0] v(1) by blast
  moreover have "9 \<in> sigs 0x200" by (simp add: sigs_def)
  then have "sigismember 0x200 9 = 1" using sigset_refines_set [of 9 "0x200"] v by simp
  ultimately show ?thesis using v(2) by simp
qed

definition demo_signalled :: process where
  "demo_signalled = (set_action 2 \<lparr>sa_handler = 0x8048000, sa_mask = 0x200, sa_flags = 0, sa_restorer = 0\<rparr> demo_proc)
     \<lparr>pending_signals := 4, in_signal_handler := False\<rparr>"

lemma demo_signalled_simps:
  "signal_actions demo_signalled ! 2 = \<lparr>sa_handler = 0x8048000, sa_mask = 0x200, sa_flags = 0, sa_restorer = 0\<rparr>"
  "pending_signals demo_signalled = 4" "signal_mask demo_signalled = 0" "\<not> in_signal_handler demo_signalled"
  by (simp_all add: demo_signalled_def set_action_def demo_proc_def)

theorem kill_blocked_only_by_handler_witness:
  "\<exists>c3 d. enter_handler 2 (saved_context demo_proc) (\<lambda>_. 0) demo_signalled = (d, c3) \<and> SIGKILL \<in> sigs (signal_mask c3)"
proof -
  obtain d c3 where e: "enter_handler 2 (saved_context demo_proc) (\<lambda>_. 0) demo_signalled = (d, c3)" by fastforce
  obtain r regs3 c4 where k: "kernel_sigreturn (saved_context demo_proc) c3 = (r, regs3, c4)" by (metis prod_cases3)
  have "SIGKILL \<in> sigs (sa_mask (signal_actions demo_signalled ! 2))" by (simp add: demo_signalled_simps sigs_def)
  moreover obtain old c1 where "sys_sigprocmask 2 (Some 0) demo_signalled = (0, old, c1)" by (simp add: sys_sigprocmask_def)
  moreover obtain old2 c2 where "sigsuspend_begin 0 demo_signalled = (old2, c2)" by fastforce
  ultimately have "SIGKILL \<in> sigs (signal_mask c3)" using kill_blocked_only_by_handler [OF _ _ e k] by auto
  then show ?thesis using e by blast
qed

theorem handler_roundtrip_witness:
  "\<exists>mem' s'. handle_signals ((saved_context demo_proc)\<lparr>r_cs := 0x1B, r_useresp := 0xB0000100\<rparr>) (\<lambda>_. 0)
      (set_proc 0x100 demo_signalled demo_kst)
    = Some (To_user ((saved_context demo_proc)\<lparr>r_cs := 0x1B, r_useresp := 0xB00000F8, r_eip := 0x8048000\<rparr>) mem', s')
    \<and> mem' 0xB00000F8 = 2 \<and> mem' 0xB00000FC = 0xDEADC0DE"
proof -
  let ?r = "(saved_context demo_proc)\<lparr>r_cs := 0x1B, r_useresp := 0xB0000100\<rparr>"
  let ?s = "set_proc 0x100 demo_signalled demo_kst"
  have p: "procs ?s (current_process ?s) = Some demo_signalled" by simp
  have two: "2 \<in> sigs (pending_signals demo_signalled AND NOT (signal_mask demo_signalled))"
    by (simp add: demo_signalled_simps sigs_def)
  have low: "ignores demo_signalled m" if "1 \<le> m" "m < 2"
      "m \<in> sigs (pending_signals demo_signalled AND NOT (signal_mask demo_signalled))" for m
  proof -
    have "m = 1" using that(1,2) by simp
    moreover have "1 \<notin> sigs (pending_signals demo_signalled AND NOT (signal_mask demo_signalled))"
      by (simp add: demo_signalled_simps sigs_def)
    ultimately show ?thesis using that(3) by simp
  qed
  have h: "sa_handler (signal_actions demo_signalled ! 2) = 0x8048000" by (simp add: demo_signalled_simps)
  have n: "(0x8048000 :: u32) \<noteq> SIG_DFL" "(0x8048000 :: u32) \<noteq> SIG_IGN" by (simp_all add: SIG_DFL_def SIG_IGN_def)
  have cs: "r_cs ?r AND 3 = 3" by simp
  show ?thesis
    using handler_roundtrip [OF p cs demo_signalled_simps(4) _ two low h n, where mem = "\<lambda>_. 0"] by auto
qed

end
