(* ===== verification/Kernel_Views.thy ===== *)
theory Kernel_Views
  imports Pipe Signal
begin

text \<open>
  What a call leaves alone. \<open>ring_view\<close> is the part of the kernel state the scheduler invariant
  depends on, \<open>fd_view\<close> adds the descriptor tables and the reference counts. Most system calls
  keep the second view, the descriptor calls and \<open>exec\<close> the first; each lemma below says this
  for whatever the call returns.
\<close>

definition ring_view :: "kst \<Rightarrow> u32 \<times> u32 \<times> (u32 \<Rightarrow> (u32 \<times> process_state) option)" where
  "ring_view s = (current_process s, ready_queue s, \<lambda>p. map_option (\<lambda>q. (pnext q, pstate q)) (procs s p))"

definition fd_view :: "kst \<Rightarrow> u32 \<times> u32 \<times> (u32 \<Rightarrow> (u32 \<times> process_state \<times> u32 list) option) \<times> (u32 \<Rightarrow> u32 option)" where
  "fd_view s = (current_process s, ready_queue s, \<lambda>p. map_option (\<lambda>q. (pnext q, pstate q, fd_table q)) (procs s p),
     \<lambda>d. map_option ref_count (descs s d))"

lemma fd_view_ring:
  assumes "fd_view s' = fd_view s"
  shows "ring_view s' = ring_view s"
proof -
  have "map_option (\<lambda>q. (pnext q, pstate q)) (procs s' p) = map_option (\<lambda>q. (pnext q, pstate q)) (procs s p)" for p
  proof -
    have "map_option (\<lambda>q. (pnext q, pstate q, fd_table q)) (procs s' p)
        = map_option (\<lambda>q. (pnext q, pstate q, fd_table q)) (procs s p)"
      using assms by (simp add: fd_view_def fun_eq_iff)
    then show ?thesis by (cases "procs s' p"; cases "procs s p") simp_all
  qed
  then show ?thesis using assms by (simp add: ring_view_def fd_view_def fun_eq_iff)
qed

lemma ring_view_sched:
  assumes "ring_view s' = ring_view s" "sched_inv s"
  shows "sched_inv s'"
proof -
  have v: "current_process s' = current_process s" "ready_queue s' = ready_queue s"
      "\<And>p. map_option (\<lambda>q. (pnext q, pstate q)) (procs s' p) = map_option (\<lambda>q. (pnext q, pstate q)) (procs s p)"
    using assms(1) by (simp_all add: ring_view_def fun_eq_iff)
  show ?thesis
  proof (rule sched_invI [OF assms(2)])
    show "(procs s' p = None) = (procs s p = None)" for p
      using v(3) [of p] by (cases "procs s p"; cases "procs s' p") simp_all
    show "pnext q' = pnext q" if "procs s p = Some q" "procs s' p = Some q'" for p q q'
      using v(3) [of p] that by simp
    show "procs s (current_process s') \<noteq> None" unfolding v(1) by (rule sched_inv_ring [OF assms(2)]) simp
    show "ready_queue s' = ready_queue s" by (rule v(2))
    show "p = current_process s'" if r: "procs s' p = Some q" "pstate q = PROCESS_RUNNING" for p q
    proof -
      obtain q0 where "procs s p = Some q0" "pstate q0 = PROCESS_RUNNING"
        using v(3) [of p] r by (cases "procs s p") auto
      then show ?thesis unfolding v(1) by (rule sched_inv_running [OF assms(2)])
    qed
  qed
qed

lemma fd_view_tables:
  assumes "fd_view s' = fd_view s" "fd_ok k s"
  shows "fd_ok k s'"
proof -
  have v: "map_option (\<lambda>q. (pnext q, pstate q, fd_table q)) (procs s' p)
        = map_option (\<lambda>q. (pnext q, pstate q, fd_table q)) (procs s p)"
      "map_option ref_count (descs s' d) = map_option ref_count (descs s d)" for p d
    using assms(1) by (simp_all add: fd_view_def fun_eq_iff)
  have t: "map_option fd_table (procs s' p) = map_option fd_table (procs s p)" for p
    using v(1) [of p] by (cases "procs s' p"; cases "procs s p") simp_all
  have i: "fd_ok k (s'\<lparr>descs := descs s\<rparr>)"
    by (rule fd_ok_tables [OF assms(2)]) (simp_all add: t)
  have r: "fd_refs s' = fd_refs (s'\<lparr>descs := descs s\<rparr>)" by (rule fd_refs_cong) simp
  show ?thesis
  proof (rule fd_okI)
    show "finite (dom (procs s'))" using fd_ok_finite [OF i] by simp
    show "descs s' 0 = None" using v(2) [of 0] assms(2) by (simp add: fd_ok_def)
    show "length (fd_table q) = MAX_PROCESS_FILES" if "procs s' p = Some q" for p q
      using fd_ok_len [OF i] that by simp
    show "fd_refs s' d = 0 \<and> k d = 0" if "d \<noteq> 0" "descs s' d = None" for d
      using fd_ok_None [OF i _ that(1)] v(2) [of d] that(2) unfolding r by simp
    show "unat (ref_count e) = fd_refs s' d + k d \<and> 0 < fd_refs s' d + k d" if d: "d \<noteq> 0" "descs s' d = Some e" for d e
    proof -
      obtain e0 where "descs s d = Some e0" "ref_count e0 = ref_count e"
        using v(2) [of d] d(2) by (cases "descs s d") auto
      then show ?thesis using fd_ok_Some [OF i, of d e0] unfolding r by simp
    qed
  qed
qed

subsection \<open>What the views ignore\<close>

lemma ring_view_set_proc:
  "procs s p = Some c \<Longrightarrow> pnext c' = pnext c \<Longrightarrow> pstate c' = pstate c \<Longrightarrow> ring_view (set_proc p c' s) = ring_view s"
  by (auto simp: ring_view_def set_proc_def fun_eq_iff)

lemma fd_view_set_proc:
  "procs s p = Some c \<Longrightarrow> pnext c' = pnext c \<Longrightarrow> pstate c' = pstate c \<Longrightarrow> fd_table c' = fd_table c
    \<Longrightarrow> fd_view (set_proc p c' s) = fd_view s"
  by (auto simp: fd_view_def set_proc_def fun_eq_iff)

lemma fd_view_desc:
  "descs s d = Some e \<Longrightarrow> ref_count e' = ref_count e \<Longrightarrow> fd_view (s\<lparr>descs := (descs s)(d \<mapsto> e')\<rparr>) = fd_view s"
  by (auto simp: fd_view_def fun_eq_iff)

lemma ring_view_simps [simp]:
  "ring_view (s\<lparr>descs := h\<rparr>) = ring_view s" "ring_view (s\<lparr>node_calls := n\<rparr>) = ring_view s"
  "ring_view (s\<lparr>vnodes := v\<rparr>) = ring_view s" "ring_view (s\<lparr>vmem := m\<rparr>) = ring_view s"
  "ring_view (s\<lparr>kstack := k\<rparr>) = ring_view s" "ring_view (s\<lparr>next_pid := i\<rparr>) = ring_view s"
  "ring_view (s\<lparr>tick := t\<rparr>) = ring_view s"
  by (simp_all add: ring_view_def)

lemma fd_view_simps [simp]:
  "fd_view (s\<lparr>vnodes := v\<rparr>) = fd_view s" "fd_view (s\<lparr>vmem := m\<rparr>) = fd_view s"
  "fd_view (s\<lparr>kstack := k\<rparr>) = fd_view s" "fd_view (s\<lparr>next_pid := i\<rparr>) = fd_view s"
  "fd_view (s\<lparr>tick := t\<rparr>) = fd_view s" "fd_view (upd_node a f s) = fd_view s"
  by (simp_all add: fd_view_def upd_node_def)

lemma put_slot_simps [simp]: "pnext (put_slot i d c) = pnext c" "pstate (put_slot i d c) = pstate c"
  by (simp_all add: put_slot_def)

subsection \<open>The descriptor calls keep the ring\<close>

lemma ref_ring_view:
  "add_ref d s = Some s' \<Longrightarrow> ring_view s' = ring_view s"
  "drop_ref d s = Some s' \<Longrightarrow> ring_view s' = ring_view s"
  by (auto simp: add_ref_def drop_ref_def Option.bind_eq_Some_conv split: if_splits)

lemma ref_procs:
  "add_ref d s = Some s' \<Longrightarrow> procs s' = procs s \<and> current_process s' = current_process s"
  "drop_ref d s = Some s' \<Longrightarrow> procs s' = procs s \<and> current_process s' = current_process s"
  by (auto simp: add_ref_def drop_ref_def Option.bind_eq_Some_conv split: if_splits)

lemma install_fd_ring:
  "install_fd nd node flags s = Some (r, s') \<Longrightarrow> ring_view s' = ring_view s"
  by (auto simp: install_fd_def Option.bind_eq_Some_conv ring_view_set_proc split: option.splits)

lemma sys_open_ring: "sys_open resolve nd path flags s = Some (r, s') \<Longrightarrow> ring_view s' = ring_view s"
  by (auto simp: sys_open_def Option.bind_eq_Some_conv split: if_splits dest: install_fd_ring)

lemma sys_openat_ring: "sys_openat rs root nd dirfd path flags s = Some (r, s') \<Longrightarrow> ring_view s' = ring_view s"
  by (auto simp: sys_openat_def Option.bind_eq_Some_conv split: if_splits dest: install_fd_ring)

lemma sys_close_ring: "sys_close fd s = Some (r, s') \<Longrightarrow> ring_view s' = ring_view s"
  by (auto simp: sys_close_def Option.bind_eq_Some_conv ring_view_set_proc split: if_splits dest!: ref_ring_view(2))

lemma sys_dup_ring: "sys_dup fd s = Some (r, s') \<Longrightarrow> ring_view s' = ring_view s"
  by (auto simp: sys_dup_def Option.bind_eq_Some_conv ring_view_set_proc split: if_splits option.splits dest!: ref_ring_view(1))

lemma sys_dup2_ring:
  assumes "sys_dup2 fd fd2 s = Some (r, s')"
  shows "ring_view s' = ring_view s"
proof (cases "s' = s")
  case False
  then obtain c s1 s2 where h: "procs s (current_process s) = Some c"
      "(if fd_table c ! nat fd2 \<noteq> 0 then drop_ref (fd_table c ! nat fd2) s else Some s) = Some s1"
      "add_ref (fd_table c ! nat fd) (set_proc (current_process s) (put_slot (nat fd2) (fd_table c ! nat fd) c) s1) = Some s'"
    using assms by (auto simp: sys_dup2_def Option.bind_eq_Some_conv split: if_splits)
  have s1: "ring_view s1 = ring_view s" "procs s1 = procs s"
    using h(2) ref_ring_view(2) ref_procs(2) by (auto split: if_splits)
  have "procs s1 (current_process s) = Some c" using h(1) s1(2) by simp
  then show ?thesis using ref_ring_view(1) [OF h(3)] s1(1) by (simp add: ring_view_set_proc)
qed simp

lemma sys_fcntl_cases:
  assumes "sys_fcntl fd cmd arg tab s = Some (r, tab', s')" "procs s (current_process s) = Some c"
  obtains (same) "fd_view s' = fd_view s"
    | (copy) i where "fd_open fd c" "0 \<le> arg" "free_slot_from arg c = Some i"
        "add_ref (fd_table c ! nat fd) (set_proc (current_process s) (put_slot i (fd_table c ! nat fd) c) s) = Some s'"
proof (cases "fd_open fd c")
  case False
  then show ?thesis using assms by (intro same) (simp add: sys_fcntl_def)
next
  case True
  define d where "d = fd_table c ! nat fd"
  obtain e where e: "descs s d = Some e"
    using assms True by (auto simp: sys_fcntl_def Let_def d_def Option.bind_eq_Some_conv)
  note f = assms(1) [unfolded sys_fcntl_def assms(2) Option.bind.bind_lunit Let_def d_def [symmetric] e]
  show ?thesis
  proof (cases "cmd = 0 \<or> cmd = 0x406")
    case dup: True
    then have a: "0 \<le> arg" using f True by (cases "arg < 0") simp_all
    show ?thesis
    proof (cases "free_slot_from arg c")
      case None
      then show ?thesis using f True dup a by (intro same) simp
    next
      case (Some i)
      then have "add_ref d (set_proc (current_process s) (put_slot i d c) s) = Some s'"
        using f True dup a by (auto simp: Option.bind_eq_Some_conv)
      then show ?thesis using copy [OF True a Some] by (simp add: d_def)
    qed
  next
    case False
    then have "s' = s \<or> (\<exists>x. s' = s\<lparr>descs := (descs s)(d \<mapsto> e\<lparr>fd_flags := x\<rparr>)\<rparr>)"
      using f True by (simp split: if_splits) blast
    then show ?thesis using fd_view_desc [OF e] by (intro same) auto
  qed
qed

lemma sys_fcntl_ring:
  assumes "sys_fcntl fd cmd arg tab s = Some (r, tab', s')"
  shows "ring_view s' = ring_view s"
proof -
  obtain c where c: "procs s (current_process s) = Some c"
    using assms by (cases "procs s (current_process s)") (simp_all add: sys_fcntl_def)
  from assms c show ?thesis
  proof (cases rule: sys_fcntl_cases)
    case same
    then show ?thesis by (rule fd_view_ring)
  next
    case (copy i)
    show ?thesis unfolding ref_ring_view(1) [OF copy(4)] by (rule ring_view_set_proc [OF c]) simp_all
  qed
qed

lemma sys_pipe_ring: "sys_pipe filedes buf n1 n2 d1 d2 s = Some (r, w, s') \<Longrightarrow> ring_view s' = ring_view s"
  by (auto simp: sys_pipe_def Option.bind_eq_Some_conv Let_def ring_view_set_proc split: if_splits option.splits)

lemma share_fds_ring: "share_fds ds s = Some s' \<Longrightarrow> ring_view s' = ring_view s \<and> procs s' = procs s \<and> current_process s' = current_process s"
proof (induction ds arbitrary: s)
  case (Cons d ds)
  show ?case
  proof (cases "d = 0")
    case False
    then obtain s1 where s1: "add_ref d s = Some s1" "share_fds ds s1 = Some s'"
      using Cons.prems by (auto simp: Option.bind_eq_Some_conv)
    show ?thesis using Cons.IH [OF s1(2)] ref_ring_view(1) [OF s1(1)] ref_procs(1) [OF s1(1)] by simp
  qed (use Cons in simp)
qed simp

lemma close_slots_ring:
  "close_slots is s = Some s' \<Longrightarrow> ring_view s' = ring_view s"
proof (induction "is" arbitrary: s)
  case (Cons i "is")
  obtain s1 where s1: "close_slot i s = Some s1" "close_slots is s1 = Some s'"
    using Cons.prems by (auto simp: Option.bind_eq_Some_conv)
  have "ring_view s1 = ring_view s"
    using s1(1) by (auto simp: close_slot_def Option.bind_eq_Some_conv ring_view_set_proc split: if_splits dest!: ref_ring_view(2))
  then show ?case using Cons.IH [OF s1(2)] by simp
qed simp

subsection \<open>The other calls keep the descriptors too\<close>

lemma sys_read_write_view: "sys_read_write io fd buf sz s = Some (r, s') \<Longrightarrow> fd_view s' = fd_view s"
  by (auto simp: sys_read_write_def advance_def Option.bind_eq_Some_conv Let_def fd_view_desc split: if_splits)

lemma iov_loop_view: "iov_loop io d iov tot s = Some (r, s') \<Longrightarrow> fd_view s' = fd_view s"
proof (induction iov arbitrary: tot s)
  case (Cons len iov)
  then obtain e s1 where e: "descs s d = Some e"
      "s1 = s \<or> advance d (ucast (word_of_int (io (fd_node e) (fd_offset e) len) :: u32)) s = Some s1"
      "s' = s1 \<or> (\<exists>t. iov_loop io d iov t s1 = Some (r, s'))"
    by (auto simp: Option.bind_eq_Some_conv Let_def split: if_splits)
  have "fd_view s1 = fd_view s" using e(1,2) by (auto simp: advance_def fd_view_desc)
  then show ?case using e(3) Cons.IH by auto
qed simp

lemma sys_readv_writev_view: "sys_readv_writev io fd iov n s = Some (r, s') \<Longrightarrow> fd_view s' = fd_view s"
  by (auto simp: sys_readv_writev_def Option.bind_eq_Some_conv split: if_splits option.splits dest: iov_loop_view)

text \<open>Both seeks end in this shape.\<close>

lemma seek_result_view:
  assumes "(case pos of None \<Rightarrow> Some (r0, s)
      | Some p \<Rightarrow> if P p then Some (r0, s) else Some (f p, s\<lparr>descs := (descs s)(d \<mapsto> e\<lparr>fd_offset := g p\<rparr>)\<rparr>)) = Some (r, s')"
    and "descs s d = Some e"
  shows "fd_view s' = fd_view s"
proof (cases pos)
  case None
  then show ?thesis using assms(1) by simp
next
  case (Some p)
  then have "s' = s \<or> s' = s\<lparr>descs := (descs s)(d \<mapsto> e\<lparr>fd_offset := g p\<rparr>)\<rparr>"
    using assms(1) by (simp split: if_split_asm)
  then show ?thesis using fd_view_desc [OF assms(2)] by auto
qed

lemma fd_call_cases:
  assumes "(do { c \<leftarrow> procs s (current_process s);
      if \<not> fd_open fd c then Some (- EBADF, s) else do { e \<leftarrow> descs s (fd_table c ! nat fd); F c e } }) = Some (r, s')"
  obtains (same) "s' = s"
    | (held) c e where "procs s (current_process s) = Some c" "descs s (fd_table c ! nat fd) = Some e" "F c e = Some (r, s')"
proof -
  obtain c where c: "procs s (current_process s) = Some c" using assms by (auto simp: Option.bind_eq_Some_conv)
  show ?thesis
  proof (cases "fd_open fd c")
    case False
    then show ?thesis using assms c same by simp
  next
    case True
    then have "descs s (fd_table c ! nat fd) \<bind> F c = Some (r, s')" using assms c by simp
    then obtain e where "descs s (fd_table c ! nat fd) = Some e" "F c e = Some (r, s')"
      by (cases "descs s (fd_table c ! nat fd)") simp_all
    then show ?thesis using held c by blast
  qed
qed

lemma sys_seek_view:
  assumes "sys_seek fd off whence s = Some (r, s')"
  shows "fd_view s' = fd_view s"
  using assms unfolding sys_seek_def Let_def
proof (cases rule: fd_call_cases)
  case (held c e)
  show ?thesis by (rule seek_result_view [OF _ held(2), where P = "\<lambda>_. False"]) (use held(3) in \<open>simp only: if_False\<close>)
qed simp

lemma sys_lseek_view:
  assumes "sys_lseek fd off whence s = Some (r, s')"
  shows "fd_view s' = fd_view s"
  using assms unfolding sys_lseek_def Let_def
proof (cases rule: fd_call_cases)
  case (held c e)
  show ?thesis by (rule seek_result_view [OF _ held(2)]) (rule held(3))
qed simp

lemma on_fd_view: "on_fd fd f s = Some (r, s') \<Longrightarrow> (\<And>n t. fd_view (snd (f n t)) = fd_view t) \<Longrightarrow> fd_view s' = fd_view s"
  by (auto simp: on_fd_def Option.bind_eq_Some_conv split: if_splits) (metis snd_conv)

lemma node_view:
  "sys_ftruncate fd len s = Some (r, s') \<Longrightarrow> fd_view s' = fd_view s"
  "sys_fchmod fd mode s = Some (r, s') \<Longrightarrow> fd_view s' = fd_view s"
  "sys_fchown fd ow gr s = Some (r, s') \<Longrightarrow> fd_view s' = fd_view s"
  unfolding sys_ftruncate_def sys_fchmod_def sys_fchown_def by (erule on_fd_view; simp split: if_splits)+

lemma path_view:
  "sys_truncate resolve path len s = (r, s') \<Longrightarrow> fd_view s' = fd_view s"
  "sys_chown resolve path ow gr s = (r, s') \<Longrightarrow> fd_view s' = fd_view s"
  by (auto simp: sys_truncate_def sys_chown_def split: option.splits if_splits)

lemma own_view:
  "sys_fchdir fd s = Some (r, s') \<Longrightarrow> fd_view s' = fd_view s"
  "sys_chdir resolve path s = Some (r, s') \<Longrightarrow> fd_view s' = fd_view s"
  "sys_pledge keep s = Some (r, s') \<Longrightarrow> fd_view s' = fd_view s"
  "sys_unveil path perms s = Some (r, s') \<Longrightarrow> fd_view s' = fd_view s"
  "sys_setpgrp s = Some (r, s') \<Longrightarrow> fd_view s' = fd_view s"
  "sys_setpgid p g s = Some (r, s') \<Longrightarrow> fd_view s' = fd_view s"
  "sys_setsid s = Some (r, s') \<Longrightarrow> fd_view s' = fd_view s"
  "sys_alarm secs s = Some (u, s') \<Longrightarrow> fd_view s' = fd_view s"
  by (auto simp: sys_fchdir_def sys_chdir_def sys_pledge_def sys_unveil_def sys_setpgrp_def sys_setpgid_def
      sys_setsid_def sys_alarm_def upd_proc_def Option.bind_eq_Some_conv Let_def fd_view_set_proc split: if_splits)

lemma exec_view: "exec_process load_elf path regs s = Some (r, regs', s') \<Longrightarrow> fd_view s' = fd_view s"
  by (auto simp: exec_process_def upd_proc_def Option.bind_eq_Some_conv Let_def fd_view_set_proc
      split: if_splits option.splits prod.splits)

text \<open>\<open>dup2\<close> of a descriptor on itself: when it returns at all, nothing has changed.\<close>

lemma dup2_same_view:
  assumes "sys_dup2 fd fd s = Some (r, s')"
  shows "fd_view s' = fd_view s"
proof (cases "s' = s")
  case False
  then obtain c s1 where h: "procs s (current_process s) = Some c" "fd_table c ! nat fd \<noteq> 0"
      "drop_ref (fd_table c ! nat fd) s = Some s1"
      "add_ref (fd_table c ! nat fd) (set_proc (current_process s) (put_slot (nat fd) (fd_table c ! nat fd) c) s1) = Some s'"
    using assms by (auto simp: sys_dup2_def fd_open_def Option.bind_eq_Some_conv split: if_splits)
  define d where "d = fd_table c ! nat fd"
  obtain e where e: "descs s d = Some e" using h(3) by (auto simp: drop_ref_def d_def Option.bind_eq_Some_conv)
  have "ref_count e - 1 \<noteq> 0"
  proof
    assume "ref_count e - 1 = 0"
    then have "descs s1 d = None" using h(3) e by (auto simp: drop_ref_def d_def)
    then show False using h(4) by (simp add: add_ref_def d_def)
  qed
  then have s1: "s1 = s\<lparr>descs := (descs s)(d \<mapsto> e\<lparr>ref_count := ref_count e - 1\<rparr>)\<rparr>"
    using h(3) e by (simp add: drop_ref_def d_def)
  have p: "put_slot (nat fd) d c = c" by (simp add: put_slot_def d_def)
  have "s' = (set_proc (current_process s) c s)\<lparr>descs := (descs s)(d \<mapsto> e)\<rparr>"
    using h(4) unfolding d_def [symmetric] p s1 by (simp add: add_ref_def set_proc_def)
  then show ?thesis using h(1) e by (auto simp: fd_view_def set_proc_def fun_eq_iff)
qed simp

end
