(* ===== verification/Kernel_Steps.thy ===== *)
theory Kernel_Steps
  imports Kernel_Views
begin

text \<open>
  The kernel as a transition system: the timer interrupt and the system calls of the process,
  descriptor, signal and pipe code as one step relation, the states reachable from
  \<open>init_multitasking\<close>, and the invariant they share.
\<close>

subsection \<open>The calls\<close>

text \<open>The current process can make calls: it exists and has not exited.\<close>

definition can_call :: "kst \<Rightarrow> bool" where
  "can_call s \<longleftrightarrow> (case procs s (current_process s) of None \<Rightarrow> False | Some c \<Rightarrow> pstate c \<noteq> PROCESS_ZOMBIE)"

text \<open>The memory of the machine has room for far fewer processes than this.\<close>

definition few_procs :: "kst \<Rightarrow> bool" where
  "few_procs s \<longleftrightarrow> card (dom (procs s)) < 2 ^ 26"

text \<open>A block that \<open>kmalloc\<close> has just returned is no process and no description.\<close>

definition fresh_proc :: "u32 \<Rightarrow> kst \<Rightarrow> bool" where
  "fresh_proc np s \<longleftrightarrow> np \<noteq> 0 \<and> procs s np = None"

definition fresh_descs :: "u32 list \<Rightarrow> kst \<Rightarrow> bool" where
  "fresh_descs ds s \<longleftrightarrow> distinct ds \<and> (\<forall>d \<in> set ds. d \<noteq> 0 \<and> descs s d = None)"

text \<open>Reading and writing, and the attributes of files and of the current process.\<close>

inductive quiet_call :: "kst \<Rightarrow> kst \<Rightarrow> bool" where
  "sys_read io fd buf sz s = Some (r, s') \<Longrightarrow> quiet_call s s'"
| "sys_write io fd buf sz s = Some (r, s') \<Longrightarrow> quiet_call s s'"
| "sys_readv io fd iov n s = Some (r, s') \<Longrightarrow> quiet_call s s'"
| "sys_writev io fd iov n s = Some (r, s') \<Longrightarrow> quiet_call s s'"
| "sys_seek fd off whence s = Some (r, s') \<Longrightarrow> quiet_call s s'"
| "sys_lseek fd off whence s = Some (r, s') \<Longrightarrow> quiet_call s s'"
| "sys_ftruncate fd len s = Some (r, s') \<Longrightarrow> quiet_call s s'"
| "sys_fchmod fd mode s = Some (r, s') \<Longrightarrow> quiet_call s s'"
| "sys_fchown fd owner grp s = Some (r, s') \<Longrightarrow> quiet_call s s'"
| "sys_truncate resolve pth len s = (r, s') \<Longrightarrow> quiet_call s s'"
| "sys_chown resolve pth owner grp s = (r, s') \<Longrightarrow> quiet_call s s'"
| "sys_fchdir fd s = Some (r, s') \<Longrightarrow> quiet_call s s'"
| "sys_chdir resolve path s = Some (r, s') \<Longrightarrow> quiet_call s s'"
| "sys_pledge keep s = Some (r, s') \<Longrightarrow> quiet_call s s'"
| "sys_unveil path perms s = Some (r, s') \<Longrightarrow> quiet_call s s'"
| "sys_setpgrp s = Some (r, s') \<Longrightarrow> quiet_call s s'"
| "sys_setpgid p g s = Some (r, s') \<Longrightarrow> quiet_call s s'"
| "sys_setsid s = Some (r, s') \<Longrightarrow> quiet_call s s'"
| "sys_alarm secs s = Some (u, s') \<Longrightarrow> quiet_call s s'"
| "exec_process load_elf pth regs s = Some (r, regs', s') \<Longrightarrow> quiet_call s s'"

text \<open>Descriptors. The blocks that become descriptions are fresh.\<close>

inductive fd_call :: "kst \<Rightarrow> kst \<Rightarrow> bool" where
  open_file: "fresh_descs [nd] s \<Longrightarrow> sys_open resolve nd path flags s = Some (r, s') \<Longrightarrow> fd_call s s'"
| openat: "fresh_descs [nd] s \<Longrightarrow> sys_openat rs root nd dirfd path flags s = Some (r, s') \<Longrightarrow> fd_call s s'"
| close_file: "sys_close fd s = Some (r, s') \<Longrightarrow> fd_call s s'"
| dup: "few_procs s \<Longrightarrow> sys_dup fd s = Some (r, s') \<Longrightarrow> fd_call s s'"
| dup2: "few_procs s \<Longrightarrow> sys_dup2 fd fd2 s = Some (r, s') \<Longrightarrow> fd_call s s'"
| fcntl: "few_procs s \<Longrightarrow> sys_fcntl fd cmd arg tab s = Some (r, tab', s') \<Longrightarrow> fd_call s s'"
| pipe: "fresh_descs [d1, d2] s \<Longrightarrow> sys_pipe filedes buf n1 n2 d1 d2 s = Some (r, w, s') \<Longrightarrow> fd_call s s'"

text \<open>Signals: actions and masks, the calls that wait for a signal, delivery and return.\<close>

inductive signal_call :: "kst \<Rightarrow> kst \<Rightarrow> bool" where
  kill: "sys_kill p n s = Some (r, s') \<Longrightarrow> signal_call s s'"
| signal: "procs s (current_process s) = Some c \<Longrightarrow> sys_signal n h c = (r, c')
    \<Longrightarrow> signal_call s (set_proc (current_process s) c' s)"
| sigaction: "procs s (current_process s) = Some c \<Longrightarrow> sys_sigaction n act c = (r, old, c')
    \<Longrightarrow> signal_call s (set_proc (current_process s) c' s)"
| sigprocmask: "procs s (current_process s) = Some c \<Longrightarrow> sys_sigprocmask how arg c = (r, old, c')
    \<Longrightarrow> signal_call s (set_proc (current_process s) c' s)"
| sigreturn: "procs s (current_process s) = Some c \<Longrightarrow> kernel_sigreturn regs c = (r, regs', c')
    \<Longrightarrow> signal_call s (set_proc (current_process s) c' s)"
| sigsuspend_begin: "procs s (current_process s) = Some c \<Longrightarrow> sigsuspend_begin m c = (old, c')
    \<Longrightarrow> signal_call s (set_proc (current_process s) c' s)"
| sigsuspend: "sigsuspend_round old s = Some (r, s') \<Longrightarrow> signal_call s s'"
| sigwait: "sys_sigwait_round w s = Some (r, s') \<Longrightarrow> signal_call s s'"
| sigtimedwait: "sys_sigtimedwait_round w deadline s = Some (r, s') \<Longrightarrow> signal_call s s'"
| pause: "sys_pause_round s = Some (r, s') \<Longrightarrow> signal_call s s'"
| abort: "sys_abort s = Some s' \<Longrightarrow> signal_call s s'"
| handle: "handle_signals regs mem s = Some (d, s') \<Longrightarrow> signal_call s s'"
| resume: "handle_signals_resume n deliverable regs mem s = Some (d, s') \<Longrightarrow> signal_call s s'"

text \<open>Waiting and waking: pipes, wait queues, sleeping, and one round of any call that blocks.\<close>

inductive block_call :: "kst \<Rightarrow> kst \<Rightarrow> bool" where
  block: "block_current s = Some s' \<Longrightarrow> block_call s s'"
| sleep: "sys_sleep ticks s = Some (r, s') \<Longrightarrow> block_call s s'"
| sleep_on: "sleep_on mem_ok wq s = Some (wq', s') \<Longrightarrow> block_call s s'"
| wake_up: "wake_up wq s = Some (wq', s') \<Longrightarrow> block_call s s'"
| wake_up_all: "wake_up_all wq s = Some (wq', s') \<Longrightarrow> block_call s s'"
| pipe_read: "pipe_read sz p s = Some (r, p', s') \<or> pipe_read_loop sz p s = Some (r, p', s') \<Longrightarrow> block_call s s'"
| pipe_write: "pipe_write bs p s = Some (n, p', s') \<or> pipe_write_loop bs p s = Some (n, p', s') \<Longrightarrow> block_call s s'"
| pipe_close: "pipe_close flags p s = Some (q, s') \<Longrightarrow> block_call s s'"

text \<open>
  Processes come and go. When \<open>tidy\<close> holds nobody calls \<open>sys__exit\<close>, and a kernel thread is only
  created over a block whose descriptor table holds zeros (\<open>create_kernel_thread\<close> does not
  initialise it).
\<close>

inductive process_call :: "bool \<Rightarrow> kst \<Rightarrow> kst \<Rightarrow> bool" for tidy where
  kernel_thread: "fresh_proc np s \<Longrightarrow> (tidy \<Longrightarrow> fd_table blk = replicate MAX_PROCESS_FILES 0)
    \<Longrightarrow> create_kernel_thread np blk stack fn s = Some s' \<Longrightarrow> process_call tidy s s'"
| user_process: "fresh_proc np s \<Longrightarrow> (tty \<noteq> 0 \<Longrightarrow> fresh_descs (take 3 ds) s \<and> 3 \<le> length ds)
    \<Longrightarrow> create_user_process np blk kstk tty ds tsc_low load_elf ume argv s = Some (stores, s') \<Longrightarrow> process_call tidy s s'"
| fork: "fresh_proc np s \<Longrightarrow> few_procs s \<Longrightarrow> fork_process np blk kstk ret regs s = Some (r, s')
    \<Longrightarrow> process_call tidy s s'"
| spawn: "np = 0 \<or> fresh_proc np s \<Longrightarrow> few_procs s
    \<Longrightarrow> sys_posix_spawn np blk kstk load_elf ume path_ok s = Some (r, i, s') \<Longrightarrow> process_call tidy s s'"
| exit: "exit_process st s = Some s' \<Longrightarrow> process_call tidy s s'"
| underscore_exit: "\<not> tidy \<Longrightarrow> sys_underscore_exit st s = Some s' \<Longrightarrow> process_call tidy s s'"
| wait: "wait_process_round s = Some (w, s') \<Longrightarrow> process_call tidy s s'"
| waitpid: "sys_waitpid_round p opts s = Some (w, s') \<Longrightarrow> process_call tidy s s'"
| waitid: "sys_waitid_round idtype i infop opts s = Some (w, info, s') \<Longrightarrow> process_call tidy s s'"

inductive kcall :: "bool \<Rightarrow> kst \<Rightarrow> kst \<Rightarrow> bool" for tidy where
  timer: "timer_callback s = Some s' \<Longrightarrow> kcall tidy s s'"
| alarms: "check_process_alarms s = Some s' \<Longrightarrow> kcall tidy s s'"
| quiet: "can_call s \<Longrightarrow> quiet_call s s' \<Longrightarrow> kcall tidy s s'"
| fd: "can_call s \<Longrightarrow> fd_call s s' \<Longrightarrow> kcall tidy s s'"
| sig: "can_call s \<Longrightarrow> signal_call s s' \<Longrightarrow> kcall tidy s s'"
| wait: "can_call s \<Longrightarrow> block_call s s' \<Longrightarrow> kcall tidy s s'"
| process: "can_call s \<Longrightarrow> process_call tidy s s' \<Longrightarrow> kcall tidy s s'"

inductive_cases fd_callE [consumes 1, case_names open_file openat close_file dup dup2 fcntl pipe]: "fd_call s s'"
inductive_cases signal_callE [consumes 1, case_names kill signal sigaction sigprocmask sigreturn sigsuspend_begin
  sigsuspend sigwait sigtimedwait pause abort handle resume]: "signal_call s s'"
inductive_cases block_callE [consumes 1, case_names block sleep sleep_on wake_up wake_up_all pipe_read pipe_write
  pipe_close]: "block_call s s'"
inductive_cases process_callE [consumes 1, case_names kernel_thread user_process fork spawn exit underscore_exit wait
  waitpid waitid]: "process_call tidy s s'"
inductive_cases kcallE [consumes 1, case_names timer alarms quiet fd sig wait process]: "kcall tidy s s'"

subsection \<open>The invariant\<close>

text \<open>Every zombie has closed its descriptors.\<close>

definition zombies_closed :: "kst \<Rightarrow> bool" where
  "zombies_closed s \<longleftrightarrow> (\<forall>p q. procs s p = Some q \<longrightarrow> pstate q = PROCESS_ZOMBIE
      \<longrightarrow> fd_table q = replicate MAX_PROCESS_FILES 0)"

definition fds_exact :: "kst \<Rightarrow> bool" where
  "fds_exact s \<longleftrightarrow> fd_inv s \<and> zombies_closed s"

definition kernel_inv :: "bool \<Rightarrow> kst \<Rightarrow> bool" where
  "kernel_inv tidy s \<longleftrightarrow> sched_inv s \<and> (tidy \<longrightarrow> fds_exact s)"

lemma kernel_invI: "sched_inv s \<Longrightarrow> (tidy \<Longrightarrow> fd_inv s) \<Longrightarrow> (tidy \<Longrightarrow> zombies_closed s) \<Longrightarrow> kernel_inv tidy s"
  by (simp add: kernel_inv_def fds_exact_def)

lemma kernel_invD: "kernel_inv tidy s \<Longrightarrow> sched_inv s" "kernel_inv tidy s \<Longrightarrow> tidy \<Longrightarrow> fd_inv s"
    "kernel_inv tidy s \<Longrightarrow> tidy \<Longrightarrow> zombies_closed s"
  by (simp_all add: kernel_inv_def fds_exact_def)

text \<open>Steps that change neither the tables nor, of a zombie, the state.\<close>

lemma zombies_closed_step:
  assumes "zombies_closed s"
    and "\<And>p q'. procs s' p = Some q' \<Longrightarrow> pstate q' = PROCESS_ZOMBIE \<Longrightarrow>
      fd_table q' = replicate MAX_PROCESS_FILES 0
      \<or> (\<exists>q. procs s p = Some q \<and> pstate q = PROCESS_ZOMBIE \<and> fd_table q' = fd_table q)"
  shows "zombies_closed s'"
  using assms unfolding zombies_closed_def by metis

lemma view_kernel_inv:
  assumes "kernel_inv tidy s" "fd_view s' = fd_view s"
  shows "kernel_inv tidy s'"
proof (rule kernel_invI)
  note i = kernel_invD [OF assms(1)]
  show "sched_inv s'" by (rule ring_view_sched [OF fd_view_ring [OF assms(2)] i(1)])
  show "fd_inv s'" if tidy by (rule fd_view_tables [OF assms(2) i(2) [OF that]])
  show "zombies_closed s'" if tidy
  proof (rule zombies_closed_step [OF i(3) [OF that]])
    fix p q' assume q': "procs s' p = Some q'" "pstate q' = PROCESS_ZOMBIE"
    have "map_option (\<lambda>q. (pnext q, pstate q, fd_table q)) (procs s' p)
        = map_option (\<lambda>q. (pnext q, pstate q, fd_table q)) (procs s p)"
      using assms(2) by (simp add: fd_view_def fun_eq_iff)
    then show "fd_table q' = replicate MAX_PROCESS_FILES 0
        \<or> (\<exists>q. procs s p = Some q \<and> pstate q = PROCESS_ZOMBIE \<and> fd_table q' = fd_table q)"
      using q' by (cases "procs s p") auto
  qed
qed

text \<open>An update of some processes that keeps links and tables, and makes nobody a zombie or running.\<close>

lemma mapped_kernel_inv:
  assumes "kernel_inv tidy s" "procs s' = mapped P f (dom (procs s)) (procs s)"
    "descs s' = descs s" "current_process s' = current_process s" "ready_queue s' = ready_queue s"
    and f: "\<And>q. pnext (f q) = pnext q" "\<And>q. fd_table (f q) = fd_table q"
      "\<And>q. pstate (f q) = PROCESS_RUNNING \<Longrightarrow> pstate q = PROCESS_RUNNING"
      "\<And>q. pstate (f q) = PROCESS_ZOMBIE \<Longrightarrow> pstate q = PROCESS_ZOMBIE"
  shows "kernel_inv tidy s'"
proof (rule kernel_invI)
  note i = kernel_invD [OF assms(1)]
  have m: "procs s' p = procs s p \<or> procs s' p = map_option f (procs s p)" for p
    by (simp add: assms(2) mapped_def)
  let ?t = "s\<lparr>procs := mapped P f (dom (procs s)) (procs s)\<rparr>"
  have "sched_inv ?t" by (rule procs_update_inv [OF i(1) refl f(1,3)])
  moreover have "ring_view s' = ring_view ?t" using assms(2,4,5) by (simp add: ring_view_def)
  ultimately show "sched_inv s'" using ring_view_sched by blast
  show "fd_inv s'" if tidy
  proof (rule fd_ok_tables [OF i(2) [OF that] assms(3)])
    show "map_option fd_table (procs s' p) = map_option fd_table (procs s p)" for p
      using m [of p] f(2) by (cases "procs s p") auto
  qed
  show "zombies_closed s'" if tidy
  proof (rule zombies_closed_step [OF i(3) [OF that]])
    fix p q' assume q': "procs s' p = Some q'" "pstate q' = PROCESS_ZOMBIE"
    then obtain q where "procs s p = Some q" "q' = q \<or> q' = f q" using m [of p] by (cases "procs s p") auto
    then show "fd_table q' = replicate MAX_PROCESS_FILES 0
        \<or> (\<exists>q. procs s p = Some q \<and> pstate q = PROCESS_ZOMBIE \<and> fd_table q' = fd_table q)"
      using q'(2) f(2,4) by auto
  qed
qed

subsection \<open>Scheduling, signals and blocking\<close>

lemma schedule_zombies:
  assumes "sched_inv s" "schedule s = Some s'" "zombies_closed s"
  shows "zombies_closed s'"
proof (rule zombies_closed_step [OF assms(3)])
  fix p q' assume q': "procs s' p = Some q'" "pstate q' = PROCESS_ZOMBIE"
  then obtain q where q: "procs s p = Some q" using schedule_frame(2) [OF assms(1,2), of p] by (metis not_None_eq)
  obtain q2 where q2: "procs s' p = Some q2" "sched_same q q2"
      "pstate q \<notin> {PROCESS_READY, PROCESS_RUNNING} \<longrightarrow> pstate q2 = pstate q"
      "pstate q \<in> {PROCESS_READY, PROCESS_RUNNING} \<longrightarrow> pstate q2 \<in> {PROCESS_READY, PROCESS_RUNNING}"
    using schedule_frame(3) [OF assms(1,2) q] by blast
  then have "q2 = q'" using q' by simp
  then have "pstate q = PROCESS_ZOMBIE" "fd_table q' = fd_table q" using q2 q'(2) by (auto simp: sched_same_def)
  then show "fd_table q' = replicate MAX_PROCESS_FILES 0
      \<or> (\<exists>q. procs s p = Some q \<and> pstate q = PROCESS_ZOMBIE \<and> fd_table q' = fd_table q)" using q by blast
qed

lemma schedule_kernel_inv:
  assumes "kernel_inv tidy s" "schedule s = Some s'"
  shows "kernel_inv tidy s'"
proof (rule kernel_invI)
  note i = kernel_invD [OF assms(1)]
  show "sched_inv s'" using schedule_inv [OF i(1)] assms(2) by auto
  show "fd_inv s'" if tidy by (rule schedule_fd_ok [OF i(1) assms(2) i(2) [OF that]])
  show "zombies_closed s'" if tidy by (rule schedule_zombies [OF i(1) assms(2) i(3) [OF that]])
qed

lemma timer_kernel_inv:
  assumes "kernel_inv tidy s" "timer_callback s = Some s'"
  shows "kernel_inv tidy s'"
  using assms(2) unfolding timer_callback_eq [OF kernel_invD(1) [OF assms(1)]]
  by (elim schedule_kernel_inv [rotated], intro mapped_kernel_inv [OF assms(1), where P = "\<lambda>_. due (tick s + 1)"
        and f = "\<lambda>q. q\<lparr>pstate := PROCESS_READY\<rparr>"]) simp_all

lemma alarms_kernel_inv:
  assumes "kernel_inv tidy s" "check_process_alarms s = Some s'"
  shows "kernel_inv tidy s'"
proof -
  have o: "one_ring s" by (rule sched_inv_one_ring [OF kernel_invD(1) [OF assms(1)]])
  have r: "pnext (ring_alarm q) = pnext q" "fd_table (ring_alarm q) = fd_table q"
      "pstate (ring_alarm q) = PROCESS_RUNNING \<Longrightarrow> pstate q = PROCESS_RUNNING"
      "pstate (ring_alarm q) = PROCESS_ZOMBIE \<Longrightarrow> pstate q = PROCESS_ZOMBIE" for q
    by (simp_all add: ring_alarm_def split: if_splits)
  have "s' = s\<lparr>procs := mapped (\<lambda>_. alarm_due (tick s)) ring_alarm (dom (procs s)) (procs s)\<rparr>"
    using assms(2) one_ring_nonnull(2) [OF o] ring_update_queue [OF o, of ring_alarm, OF r(1)]
    by (simp add: check_process_alarms_def)
  then show ?thesis by (intro mapped_kernel_inv [OF assms(1), OF _ _ _ _ r]) simp_all
qed

lemma wake_waiting_kernel_inv:
  assumes "kernel_inv tidy s" "wake_waiting s = Some s'"
  shows "kernel_inv tidy s'"
  using assms(2) unfolding wake_waiting_eq [OF kernel_invD(1) [OF assms(1)]]
  by (intro mapped_kernel_inv [OF assms(1), where P = "\<lambda>_ q. pstate q = PROCESS_WAITING"
        and f = "\<lambda>q. q\<lparr>pstate := PROCESS_READY\<rparr>"]) auto

text \<open>One process that keeps its link and its table.\<close>

lemma one_kernel_inv:
  assumes "kernel_inv tidy s" "procs s p = Some q" "pnext q' = pnext q" "fd_table q' = fd_table q"
    "pstate q' = PROCESS_RUNNING \<Longrightarrow> pstate q = PROCESS_RUNNING"
    "pstate q' = PROCESS_ZOMBIE \<Longrightarrow> pstate q = PROCESS_ZOMBIE"
  shows "kernel_inv tidy (set_proc p q' s)"
proof (rule kernel_invI)
  note i = kernel_invD [OF assms(1)]
  show "sched_inv (set_proc p q' s)"
    by (rule sched_inv_set_proc [OF i(1) assms(2,3)]) (rule sched_inv_running [OF i(1) assms(2) assms(5)])
  show "fd_inv (set_proc p q' s)" if tidy
    by (rule fd_ok_tables [OF i(2) [OF that]]) (use assms(2,4) in auto)
  show "zombies_closed (set_proc p q' s)" if tidy
    by (rule zombies_closed_step [OF i(3) [OF that]]) (use assms(2,4,6) in \<open>auto split: if_splits\<close>)
qed

lemma post_kernel_inv: "kernel_inv tidy s \<Longrightarrow> procs s p = Some q \<Longrightarrow> kernel_inv tidy (set_proc p (post_signal n q) s)"
  by (rule one_kernel_inv) (auto split: if_splits)

lemma kill_kernel_inv:
  assumes "kernel_inv tidy s" "sys_kill p n s = Some (r, s')"
  shows "kernel_inv tidy s'"
proof (rule kernel_invI)
  note i = kernel_invD [OF assms(1)]
  show "sched_inv s'" using sys_kill_inv [OF i(1), of p n] assms(2) by auto
  show "fd_inv s'" if tidy by (rule kill_fd_ok [OF i(1) assms(2) i(2) [OF that]])
  obtain h where h: "s' = s\<lparr>procs := h\<rparr>" "\<And>a. (h a = None) = (procs s a = None)"
      "\<And>a q. procs s a = Some q \<Longrightarrow> h a = Some q \<or> h a = Some (post_signal n q)"
    using kill_frame [OF i(1) assms(2)] by blast
  show "zombies_closed s'" if tidy
  proof (rule zombies_closed_step [OF i(3) [OF that]])
    fix a q' assume q': "procs s' a = Some q'" "pstate q' = PROCESS_ZOMBIE"
    then obtain q where q: "procs s a = Some q" using h(2) [of a] unfolding h(1) by (cases "procs s a") auto
    then have "q' = q \<or> q' = post_signal n q" using h(3) [OF q] q'(1) h(1) by auto
    then have "pstate q = PROCESS_ZOMBIE \<and> fd_table q' = fd_table q" using q'(2) by (auto split: if_splits)
    then show "fd_table q' = replicate MAX_PROCESS_FILES 0
        \<or> (\<exists>q. procs s a = Some q \<and> pstate q = PROCESS_ZOMBIE \<and> fd_table q' = fd_table q)" using q by blast
  qed
qed

lemma block_kernel_inv:
  assumes "kernel_inv tidy s" "block_current s = Some s'"
  shows "kernel_inv tidy s'"
proof -
  obtain c where c: "procs s (current_process s) = Some c" "schedule (set_proc (current_process s) (c\<lparr>pstate := PROCESS_WAITING\<rparr>) s) = Some s'"
    using assms(2) by (auto simp: block_current_def upd_proc_def Option.bind_eq_Some_conv)
  show ?thesis
    by (rule schedule_kernel_inv [OF one_kernel_inv [OF assms(1) c(1)] c(2)]) simp_all
qed

lemma sleep_kernel_inv:
  assumes "kernel_inv tidy s" "sys_sleep ticks s = Some (r, s')"
  shows "kernel_inv tidy s'"
proof -
  obtain c where c: "procs s (current_process s) = Some c"
      "schedule (set_proc (current_process s) (c\<lparr>sleep_until := tick s + ticks, pstate := PROCESS_SLEEPING\<rparr>) s) = Some s'"
    using assms(2) by (auto simp: sys_sleep_def upd_proc_def Option.bind_eq_Some_conv)
  show ?thesis
    by (rule schedule_kernel_inv [OF one_kernel_inv [OF assms(1) c(1)] c(2)]) simp_all
qed

lemma sleep_on_kernel_inv:
  assumes "kernel_inv tidy s" "sleep_on mem_ok wq s = Some (wq', s')"
  shows "kernel_inv tidy s'"
proof (cases "s' = s")
  case False
  then obtain c where c: "procs s (current_process s) = Some c" "schedule (set_proc (current_process s) (c\<lparr>pstate := PROCESS_WAITING\<rparr>) s) = Some s'"
    using assms(2) by (auto simp: sleep_on_def upd_proc_def Option.bind_eq_Some_conv split: if_splits)
  show ?thesis
    by (rule schedule_kernel_inv [OF one_kernel_inv [OF assms(1) c(1)] c(2)]) simp_all
qed (use assms(1) in simp)

lemma wake_proc_kernel_inv:
  assumes "kernel_inv tidy s" "wake_proc p s = Some s'"
  shows "kernel_inv tidy s'"
proof (cases "s' = s")
  case False
  then obtain q where q: "procs s p = Some q" "s' = set_proc p (q\<lparr>pstate := PROCESS_READY\<rparr>) s"
    using assms(2) by (auto simp: wake_proc_def upd_proc_def Option.bind_eq_Some_conv split: if_splits)
  show ?thesis unfolding q(2) by (rule one_kernel_inv [OF assms(1) q(1)]) simp_all
qed (use assms(1) in simp)

lemma wake_up_kernel_inv: "kernel_inv tidy s \<Longrightarrow> wake_up wq s = Some (wq', s') \<Longrightarrow> kernel_inv tidy s'"
  by (cases wq) (auto simp: Option.bind_eq_Some_conv dest: wake_proc_kernel_inv)

lemma wake_up_all_kernel_inv: "kernel_inv tidy s \<Longrightarrow> wake_up_all wq s = Some (wq', s') \<Longrightarrow> kernel_inv tidy s'"
  by (induction wq arbitrary: s) (auto simp: Option.bind_eq_Some_conv dest: wake_proc_kernel_inv)

lemma pipe_loops_kernel_inv:
  assumes "kernel_inv tidy s"
  shows "pipe_read_loop sz p s = Some (r, p', s') \<Longrightarrow> kernel_inv tidy s'"
    "pipe_write_loop bs p s = Some (n, p', s') \<Longrightarrow> kernel_inv tidy s'"
  using block_kernel_inv [OF assms, of s'] wake_waiting_kernel_inv [OF assms, of s']
  by (auto simp: pipe_read_loop_def pipe_write_loop_def Option.bind_eq_Some_conv split: if_splits prod.splits)

lemma pipe_kernel_inv:
  assumes "kernel_inv tidy s"
  shows "pipe_read sz p s = Some (r, p', s') \<Longrightarrow> kernel_inv tidy s'"
    "pipe_write bs p s = Some (n, p', s') \<Longrightarrow> kernel_inv tidy s'"
    "pipe_close flags p s = Some (q, s') \<Longrightarrow> kernel_inv tidy s'"
  using pipe_loops_kernel_inv [OF assms] wake_waiting_kernel_inv [OF assms] assms
  by (auto simp: pipe_read_def pipe_write_def pipe_close_def Let_def Option.bind_eq_Some_conv split: if_splits)

lemma block_call_kernel_inv:
  assumes "block_call s s'" "kernel_inv tidy s"
  shows "kernel_inv tidy s'"
  using assms(1)
  by (cases rule: block_callE)
    (use assms(2) in \<open>blast dest: block_kernel_inv sleep_kernel_inv sleep_on_kernel_inv wake_up_kernel_inv
      wake_up_all_kernel_inv pipe_loops_kernel_inv pipe_kernel_inv\<close>)+

text \<open>A call of this group keeps the views.\<close>

lemma quiet_call_view: "quiet_call s s' \<Longrightarrow> fd_view s' = fd_view s"
proof (induction rule: quiet_call.induct)
  case (5 fd off whence s r s')
  then show ?case by (rule sys_seek_view)
next
  case (6 fd off whence s r s')
  then show ?case by (rule sys_lseek_view)
qed (simp_all only: sys_read_def sys_write_def sys_readv_def sys_writev_def sys_read_write_view
  sys_readv_writev_view node_view path_view own_view exec_view)

subsection \<open>exit and signal delivery\<close>

lemma signal_parent_cases:
  assumes "signal_parent u = Some t"
  obtains "t = u" | p r where "sys_kill p SIGCHLD u = Some (r, t)"
  using assms by (auto simp: signal_parent_def Option.bind_eq_Some_conv split: if_splits)

lemma finish_exit_kernel_inv:
  assumes "kernel_inv tidy u" "do { t \<leftarrow> signal_parent u; schedule t } = Some s'"
  shows "kernel_inv tidy s'"
proof -
  obtain t where t: "signal_parent u = Some t" "schedule t = Some s'"
    using assms(2) by (auto simp: Option.bind_eq_Some_conv)
  have "kernel_inv tidy t"
    by (rule signal_parent_cases [OF t(1)]) (use assms(1) kill_kernel_inv in blast)+
  then show ?thesis using t(2) by (rule schedule_kernel_inv)
qed

lemma exit_kernel_inv:
  assumes "kernel_inv tidy s" "exit_process st s = Some s'"
  shows "kernel_inv tidy s'"
proof -
  note i = kernel_invD [OF assms(1)]
  obtain c where c: "procs s (current_process s) = Some c" using sched_inv_ring [OF i(1)] by metis
  show ?thesis
  proof (cases tidy)
    case True
    obtain u z where u: "exit_process st s = do { t \<leftarrow> signal_parent u; schedule t }" "sched_inv u" "fd_inv u"
        "procs u = (procs s)(current_process s \<mapsto> z)" "fd_table z = replicate MAX_PROCESS_FILES 0"
      using exit_until_signal [OF i(1) i(2) [OF True] c] by blast
    have "zombies_closed u"
      by (rule zombies_closed_step [OF i(3) [OF True]]) (use u(4,5) in \<open>auto split: if_splits\<close>)
    then have "kernel_inv tidy u" by (intro kernel_invI u(2,3))
    then show ?thesis by (rule finish_exit_kernel_inv) (use assms(2) u(1) in simp)
  next
    case False
    define z where "z = set_proc (current_process s) (c\<lparr>pstate := PROCESS_ZOMBIE, exit_code := st\<rparr>) s"
    have z: "become_zombie st s = Some z" "sched_inv z"
      using become_zombie_spec [OF i(1) c] by (simp_all add: z_def)
    obtain u where u: "close_slots [0 ..< MAX_PROCESS_FILES] z = Some u" "do { t \<leftarrow> signal_parent u; schedule t } = Some s'"
      using assms(2) z(1) by (auto simp only: exit_process_def Option.bind_eq_Some_conv Option.bind.bind_lunit)
    have "kernel_inv tidy u"
      using ring_view_sched [OF close_slots_ring [OF u(1)] z(2)] False by (simp add: kernel_inv_def)
    then show ?thesis using u(2) by (rule finish_exit_kernel_inv)
  qed
qed

lemma underscore_exit_kernel_inv:
  assumes "kernel_inv tidy s" "sys_underscore_exit st s = Some s'"
  shows "kernel_inv False s'"
proof -
  note i = kernel_invD [OF assms(1)]
  obtain c where c: "procs s (current_process s) = Some c" using sched_inv_ring [OF i(1)] by metis
  define z where "z = set_proc (current_process s) (c\<lparr>pstate := PROCESS_ZOMBIE, exit_code := st\<rparr>) s"
  have z: "become_zombie st s = Some z" "sched_inv z"
    using become_zombie_spec [OF i(1) c] by (simp_all add: z_def)
  then have "kernel_inv False z" by (simp add: kernel_inv_def)
  then show ?thesis
    by (rule finish_exit_kernel_inv) (use assms(2) z(1) in \<open>simp add: sys_underscore_exit_def\<close>)
qed

text \<open>What \<open>sys__exit\<close> loses: the zombie keeps the whole descriptor table.\<close>

lemma underscore_exit_table:
  assumes "sched_inv s" "procs s (current_process s) = Some c" "sys_underscore_exit st s = Some s'"
  shows "\<exists>q. procs s' (current_process s) = Some q \<and> pstate q = PROCESS_ZOMBIE \<and> fd_table q = fd_table c"
proof -
  define z where "z = c\<lparr>pstate := PROCESS_ZOMBIE, exit_code := st\<rparr>"
  define u where "u = set_proc (current_process s) z s"
  have u: "become_zombie st s = Some u" "sched_inv u" "procs u (current_process s) = Some z"
    using become_zombie_spec [OF assms(1,2)] by (simp_all add: u_def z_def)
  obtain t where t: "signal_parent u = Some t" "schedule t = Some s'"
    using assms(3) u(1) by (auto simp: sys_underscore_exit_def Option.bind_eq_Some_conv)
  have "\<exists>q. procs t (current_process s) = Some q \<and> pstate q = PROCESS_ZOMBIE \<and> fd_table q = fd_table c \<and> sched_inv t"
  proof (rule signal_parent_cases [OF t(1)])
    assume "t = u"
    then show ?thesis using u(2,3) by (simp add: z_def)
  next
    fix p r assume k: "sys_kill p SIGCHLD u = Some (r, t)"
    obtain h where h: "t = u\<lparr>procs := h\<rparr>" "\<And>a q. procs u a = Some q \<Longrightarrow> h a = Some q \<or> h a = Some (post_signal SIGCHLD q)"
      using kill_frame [OF u(2) k] by blast
    have "sched_inv t" using sys_kill_inv [OF u(2), of p SIGCHLD] k by auto
    then show ?thesis using h(2) [OF u(3)] by (auto simp: h(1) z_def)
  qed
  then obtain q where q: "procs t (current_process s) = Some q" "pstate q = PROCESS_ZOMBIE" "fd_table q = fd_table c" "sched_inv t"
    by blast
  then show ?thesis using schedule_frame(3) [OF q(4) t(2) q(1)] by (auto simp: sched_same_def)
qed

lemma deliver_keeps:
  assumes "deliver ns w regs mem c = (d, c')"
  shows "pnext c' = pnext c \<and> fd_table c' = fd_table c \<and> (pstate c' = pstate c \<or> pstate c' = PROCESS_WAITING)"
  using assms
proof (induction ns arbitrary: c)
  case Nil
  then show ?case by simp
next
  case (Cons n ns)
  define c1 where "c1 = c\<lparr>pending_signals := pending_signals c AND NOT (sigbit n)\<rparr>"
  have c1: "pnext c1 = pnext c \<and> fd_table c1 = fd_table c \<and> pstate c1 = pstate c" by (simp add: c1_def)
  consider "deliver ns w regs mem c = (d, c')" | "deliver ns w regs mem c1 = (d, c')"
    | "c' = c1\<lparr>pstate := PROCESS_WAITING\<rparr>" | "c' = c1" | "enter_handler n regs mem c1 = (d, c')"
    using Cons.prems by (auto simp: Let_def c1_def split: if_splits)
  then show ?case
  proof cases
    case 5
    then have "pnext c' = pnext c1 \<and> fd_table c' = fd_table c1 \<and> pstate c' = pstate c1"
      by (auto simp: enter_handler_def Let_def set_action_def split: if_splits)
    then show ?thesis using c1 by simp
  qed (use Cons.IH [of c] Cons.IH [of c1] c1 in auto)
qed

lemma deliver_current_kernel_inv:
  assumes "kernel_inv tidy s" "deliver_current ns w regs mem s = Some (d, s')"
  shows "kernel_inv tidy s'"
proof -
  obtain c where c0: "procs s (current_process s) = Some c"
    using assms(2) by (cases "procs s (current_process s)") (simp_all add: deliver_current_def)
  obtain d0 c1 where d: "deliver ns w regs mem c = (d0, c1)" by fastforce
  have c: "procs s (current_process s) = Some c" "deliver ns w regs mem c = (d0, c1)"
      "case d0 of To_user _ _ \<Rightarrow> s' = set_proc (current_process s) c1 s
       | Stopped _ \<Rightarrow> schedule (set_proc (current_process s) c1 s) = Some s'
       | Killed st \<Rightarrow> exit_process st (set_proc (current_process s) c1 s) = Some s'"
    using assms(2) c0 d by (auto simp: deliver_current_def Option.bind_eq_Some_conv split: delivery.splits)
  have "kernel_inv tidy (set_proc (current_process s) c1 s)"
    by (rule one_kernel_inv [OF assms(1) c(1)]) (use deliver_keeps [OF c(2)] in auto)
  then show ?thesis using c(3) by (cases d0) (auto dest: schedule_kernel_inv exit_kernel_inv)
qed

lemma handle_kernel_inv:
  assumes "kernel_inv tidy s"
  shows "handle_signals regs mem s = Some (d, s') \<Longrightarrow> kernel_inv tidy s'"
    "handle_signals_resume n w regs mem s = Some (d, s') \<Longrightarrow> kernel_inv tidy s'"
  using deliver_current_kernel_inv [OF assms] assms
  by (auto simp: handle_signals_def handle_signals_resume_def Let_def Option.bind_eq_Some_conv split: if_splits)

lemma abort_kernel_inv:
  assumes "kernel_inv tidy s" "sys_abort s = Some s'"
  shows "kernel_inv tidy s'"
proof -
  obtain p r t where "sys_kill p (int SIGABRT) s = Some (r, t)" "exit_process (128 + of_nat SIGABRT) t = Some s'"
    using assms(2) by (auto simp: sys_abort_def Option.bind_eq_Some_conv)
  then show ?thesis by (blast intro: exit_kernel_inv kill_kernel_inv [OF assms(1)])
qed

lemma signal_rounds_kernel_inv:
  assumes "kernel_inv tidy s"
  shows "sigsuspend_round old s = Some (r1, s') \<Longrightarrow> kernel_inv tidy s'"
    "sys_sigwait_round w s = Some (r2, s') \<Longrightarrow> kernel_inv tidy s'"
    "sys_sigtimedwait_round w deadline s = Some (r3, s') \<Longrightarrow> kernel_inv tidy s'"
    "sys_pause_round s = Some (r4, s') \<Longrightarrow> kernel_inv tidy s'"
  using block_kernel_inv [OF assms, of s'] assms view_kernel_inv [OF assms fd_view_set_proc]
  by (auto simp: sigsuspend_round_def sys_sigwait_round_def sys_sigtimedwait_round_def sys_pause_round_def
      Option.bind_eq_Some_conv split: if_splits option.splits)

text \<open>The calls on the record of the current process.\<close>

lemma signal_record_keeps:
  "sys_signal n h c = (r, c') \<Longrightarrow> pnext c' = pnext c \<and> pstate c' = pstate c \<and> fd_table c' = fd_table c"
  "sys_sigaction n act c = (r, old, c') \<Longrightarrow> pnext c' = pnext c \<and> pstate c' = pstate c \<and> fd_table c' = fd_table c"
  "sys_sigprocmask how arg c = (r, msk, c') \<Longrightarrow> pnext c' = pnext c \<and> pstate c' = pstate c \<and> fd_table c' = fd_table c"
  "kernel_sigreturn regs c = (r, regs', c') \<Longrightarrow> pnext c' = pnext c \<and> pstate c' = pstate c \<and> fd_table c' = fd_table c"
  "sigsuspend_begin m c = (msk, c') \<Longrightarrow> pnext c' = pnext c \<and> pstate c' = pstate c \<and> fd_table c' = fd_table c"
  by (auto simp: sys_signal_def sys_sigaction_def sys_sigprocmask_def kernel_sigreturn_def sigsuspend_begin_def
      set_action_def split: if_splits option.splits)

lemma record_kernel_inv:
  assumes "kernel_inv tidy s" "procs s (current_process s) = Some c"
    "pnext c' = pnext c \<and> pstate c' = pstate c \<and> fd_table c' = fd_table c"
  shows "kernel_inv tidy (set_proc (current_process s) c' s)"
  by (rule view_kernel_inv [OF assms(1) fd_view_set_proc [OF assms(2)]]) (use assms(3) in simp_all)

lemma signal_call_kernel_inv:
  assumes "signal_call s s'" "kernel_inv tidy s"
  shows "kernel_inv tidy s'"
  using assms(1)
proof (cases rule: signal_callE)
  case (kill p n r)
  then show ?thesis by (rule kill_kernel_inv [OF assms(2)])
next
  case (signal c n h r c')
  show ?thesis unfolding signal(1)
    by (rule record_kernel_inv [OF assms(2) signal(2) signal_record_keeps(1) [OF signal(3)]])
next
  case (sigaction c n act r old c')
  show ?thesis unfolding sigaction(1)
    by (rule record_kernel_inv [OF assms(2) sigaction(2) signal_record_keeps(2) [OF sigaction(3)]])
next
  case (sigprocmask c how arg r old c')
  show ?thesis unfolding sigprocmask(1)
    by (rule record_kernel_inv [OF assms(2) sigprocmask(2) signal_record_keeps(3) [OF sigprocmask(3)]])
next
  case (sigreturn c regs r regs' c')
  show ?thesis unfolding sigreturn(1)
    by (rule record_kernel_inv [OF assms(2) sigreturn(2) signal_record_keeps(4) [OF sigreturn(3)]])
next
  case (sigsuspend_begin c m old c')
  show ?thesis unfolding sigsuspend_begin(1)
    by (rule record_kernel_inv [OF assms(2) sigsuspend_begin(2) signal_record_keeps(5) [OF sigsuspend_begin(3)]])
next
  case (abort)
  then show ?thesis by (rule abort_kernel_inv [OF assms(2)])
qed (erule signal_rounds_kernel_inv [OF assms(2)] handle_kernel_inv [OF assms(2)])+

subsection \<open>Descriptor calls\<close>

lemma can_callD:
  assumes "can_call s"
  obtains c where "procs s (current_process s) = Some c" "pstate c \<noteq> PROCESS_ZOMBIE"
  using assms by (auto simp: can_call_def split: option.splits)

text \<open>A call that keeps the ring and works on the table of the current process.\<close>

lemma own_table_kernel_inv:
  assumes "kernel_inv tidy s" "can_call s" "ring_view s' = ring_view s"
    and t: "\<And>c. tidy \<Longrightarrow> fd_inv s \<Longrightarrow> procs s (current_process s) = Some c
      \<Longrightarrow> fd_inv s' \<and> (\<exists>c'. procs s' = (procs s)(current_process s \<mapsto> c'))"
  shows "kernel_inv tidy s'"
proof (rule kernel_invI)
  note i = kernel_invD [OF assms(1)]
  show "sched_inv s'" by (rule ring_view_sched [OF assms(3) i(1)])
  obtain c where c: "procs s (current_process s) = Some c" "pstate c \<noteq> PROCESS_ZOMBIE" using can_callD [OF assms(2)] .
  show "fd_inv s'" if tidy using t [OF that i(2) [OF that] c(1)] by blast
  show "zombies_closed s'" if tidy
  proof (rule zombies_closed_step [OF i(3) [OF that]])
    fix p q' assume q': "procs s' p = Some q'" "pstate q' = PROCESS_ZOMBIE"
    have "\<exists>c'. procs s' = (procs s)(current_process s \<mapsto> c')" using t [OF that i(2) [OF that] c(1)] by blast
    then obtain c' where c': "procs s' = (procs s)(current_process s \<mapsto> c')" by blast
    have "map_option (\<lambda>q. (pnext q, pstate q)) (procs s' (current_process s))
        = map_option (\<lambda>q. (pnext q, pstate q)) (procs s (current_process s))"
      using assms(3) by (simp add: ring_view_def fun_eq_iff)
    then have "pstate c' \<noteq> PROCESS_ZOMBIE" using c c' by simp
    then have "procs s p = Some q'" using q' c' by (cases "p = current_process s") auto
    then show "fd_table q' = replicate MAX_PROCESS_FILES 0
        \<or> (\<exists>q. procs s p = Some q \<and> pstate q = PROCESS_ZOMBIE \<and> fd_table q' = fd_table q)"
      using q'(2) by blast
  qed
qed

lemma same_table: "procs s (current_process s) = Some c \<Longrightarrow> \<exists>c'. procs s = (procs s)(current_process s \<mapsto> c')"
  by (rule exI [of _ c]) (simp add: fun_upd_idem)

lemma install_table:
  assumes "fd_inv s" "procs s (current_process s) = Some c" "fresh_descs [nd] s"
    "s' = s \<or> (\<exists>r node. install_fd nd node flags s = Some (r, s'))"
  shows "fd_inv s' \<and> (\<exists>c'. procs s' = (procs s)(current_process s \<mapsto> c'))"
proof (cases "s' = s")
  case True
  then show ?thesis using assms(1) same_table [OF assms(2)] by simp
next
  case False
  then obtain r node where n: "install_fd nd node flags s = Some (r, s')" using assms(4) by blast
  have "nd \<noteq> 0" "descs s nd = None" using assms(3) by (simp_all add: fresh_descs_def)
  then have "fd_inv s' \<and> (case free_slot c of None \<Rightarrow> s' = s | Some j \<Rightarrow> procs s' = (procs s)(current_process s \<mapsto> put_slot j nd c))"
    using install_fd_ok [OF assms(1) _ _ assms(2), of nd node flags] n by (auto split: option.splits)
  then show ?thesis using False by (cases "free_slot c") auto
qed

lemma open_install: "sys_open resolve nd path flags s = Some (r, s') \<Longrightarrow> s' = s \<or> (\<exists>r node. install_fd nd node flags s = Some (r, s'))"
  by (auto simp: sys_open_def Option.bind_eq_Some_conv split: if_splits)

lemma openat_install: "sys_openat rs root nd dirfd path flags s = Some (r, s') \<Longrightarrow> s' = s \<or> (\<exists>r node. install_fd nd node flags s = Some (r, s'))"
  by (auto simp: sys_openat_def Option.bind_eq_Some_conv split: if_splits)

lemma fd_refs_bound:
  assumes "fd_inv s" "few_procs s"
  shows "fd_refs s d + 16 < 2 ^ 32"
proof -
  have "count_list (fd_table (the (procs s p))) d \<le> 16" if "p \<in> dom (procs s)" for p
  proof -
    obtain q where q: "procs s p = Some q" using \<open>p \<in> dom (procs s)\<close> by blast
    then show ?thesis using fd_ok_len [OF assms(1) q] count_le_length [of "fd_table q" d] by simp
  qed
  then have "fd_refs s d \<le> of_nat (card (dom (procs s))) * 16"
    unfolding fd_refs_def by (rule sum_bounded_above)
  then show ?thesis using assms(2) by (simp add: few_procs_def)
qed

lemma fd_refs_bound1: "fd_inv s \<Longrightarrow> few_procs s \<Longrightarrow> fd_refs s d + 1 < 2 ^ 32"
  using fd_refs_bound [of s d] by simp

lemma close_table:
  assumes "fd_inv s" "procs s (current_process s) = Some c" "sys_close fd s = Some (r, s')"
  shows "fd_inv s' \<and> (\<exists>c'. procs s' = (procs s)(current_process s \<mapsto> c'))"
proof (cases "fd_open fd c")
  case True
  then show ?thesis using sys_close_ok [OF assms(1,2) True] assms(3) by auto
next
  case False
  then have "s' = s" using assms(2,3) by (simp add: sys_close_def)
  then show ?thesis using assms(1) same_table [OF assms(2)] by simp
qed

lemma dup_table:
  assumes "fd_inv s" "few_procs s" "procs s (current_process s) = Some c" "sys_dup fd s = Some (r, s')"
  shows "fd_inv s' \<and> (\<exists>c'. procs s' = (procs s)(current_process s \<mapsto> c'))"
  using sys_dup_ok [OF assms(1,3) fd_refs_bound1 [OF assms(1,2)], of fd] assms(4) same_table [OF assms(3)]
  by (auto split: if_splits)

lemma dup2_table:
  assumes "fd_inv s" "few_procs s" "procs s (current_process s) = Some c" "fd \<noteq> fd2" "sys_dup2 fd fd2 s = Some (r, s')"
  shows "fd_inv s' \<and> (\<exists>c'. procs s' = (procs s)(current_process s \<mapsto> c'))"
  using sys_dup2_ok [OF assms(1,3) fd_refs_bound1 [OF assms(1,2)] assms(4)] assms(5) same_table [OF assms(3)]
  by (auto split: if_splits)

lemma free_slot_from_Some:
  assumes "free_slot_from arg c = Some i" "length (fd_table c) = MAX_PROCESS_FILES"
  shows "i < MAX_PROCESS_FILES" "fd_table c ! i = 0"
proof -
  obtain j where j: "first_idx (\<lambda>d. d = 0) (drop (nat arg) (fd_table c)) = Some j" "i = j + nat arg"
    using assms(1) by (auto simp: free_slot_from_def)
  have "j < length (drop (nat arg) (fd_table c))" "drop (nat arg) (fd_table c) ! j = 0"
    using first_idx_SomeD [OF j(1)] by simp_all
  then show "i < MAX_PROCESS_FILES" "fd_table c ! i = 0" using j(2) assms(2) by (simp_all add: add.commute)
qed

lemma fcntl_copy_table:
  assumes "fd_inv s" "few_procs s" "procs s (current_process s) = Some c" "fd_open fd c" "free_slot_from arg c = Some i"
    "add_ref (fd_table c ! nat fd) (set_proc (current_process s) (put_slot i (fd_table c ! nat fd) c) s) = Some s'"
  shows "fd_inv s' \<and> (\<exists>c'. procs s' = (procs s)(current_process s \<mapsto> c'))"
proof -
  have i: "i < MAX_PROCESS_FILES" "fd_table c ! i = 0"
    using free_slot_from_Some [OF assms(5) fd_ok_len [OF assms(1,3)]] by simp_all
  obtain e where e: "descs s (fd_table c ! nat fd) = Some e"
    using fd_held [OF assms(1,3), of "nat fd"] fd_openD [OF assms(4)] by blast
  show ?thesis
    using add_slot_ok [OF assms(1,3) i e fd_refs_bound1 [OF assms(1,2)]] assms(6) by auto
qed

lemma two_free_slotsD:
  assumes "two_free_slots c = Some (f1, f2)"
  shows "f1 < MAX_PROCESS_FILES" "f2 < MAX_PROCESS_FILES" "f1 \<noteq> f2" "fd_table c ! f1 = 0" "fd_table c ! f2 = 0"
proof -
  obtain fs where fs: "filter (\<lambda>i. fd_table c ! i = 0) [0 ..< MAX_PROCESS_FILES] = f1 # f2 # fs"
    using assms by (auto simp: two_free_slots_def split: list.splits)
  have "f1 \<in> set (f1 # f2 # fs)" "f2 \<in> set (f1 # f2 # fs)" by simp_all
  then show "f1 < MAX_PROCESS_FILES" "f2 < MAX_PROCESS_FILES" "fd_table c ! f1 = 0" "fd_table c ! f2 = 0"
    unfolding fs [symmetric] set_filter set_upt by simp_all
  have "distinct (filter (\<lambda>i. fd_table c ! i = 0) [0 ..< MAX_PROCESS_FILES])"
    by (intro distinct_filter distinct_upt)
  then show "f1 \<noteq> f2" unfolding fs by simp
qed

lemma pipe_table:
  assumes "fd_inv s" "procs s (current_process s) = Some c" "fresh_descs [d1, d2] s"
    "sys_pipe filedes buf n1 n2 d1 d2 s = Some (r, w, s')"
  shows "fd_inv s' \<and> (\<exists>c'. procs s' = (procs s)(current_process s \<mapsto> c'))"
proof (cases "s' = s")
  case True
  then show ?thesis using assms(1) same_table [OF assms(2)] by simp
next
  case False
  define e1 where "e1 = \<lparr>fd_node = n1, fd_offset = 0, fd_flags = 0, ref_count = 1\<rparr>"
  define e2 where "e2 = \<lparr>fd_node = n2, fd_offset = 0, fd_flags = 1, ref_count = 1\<rparr>"
  obtain f1 f2 where f: "two_free_slots c = Some (f1, f2)"
    using assms(2,4) False by (auto simp: sys_pipe_def split: if_splits option.splits)
  note ff = two_free_slotsD [OF f]
  define c1 where "c1 = put_slot f1 d1 c"
  have d: "d1 \<noteq> 0" "d2 \<noteq> 0" "d1 \<noteq> d2" "descs s d1 = None" "descs s d2 = None"
    using assms(3) by (simp_all add: fresh_descs_def)
  have s': "procs s' = (procs s)(current_process s \<mapsto> put_slot f2 d2 c1)" "descs s' = (descs s)(d1 \<mapsto> e1, d2 \<mapsto> e2)"
    using assms(2,4) False f by (auto simp: sys_pipe_def c1_def e1_def e2_def Let_def set_proc_def split: if_splits option.splits)
  let ?t1 = "s\<lparr>descs := (descs s)(d1 \<mapsto> e1)\<rparr>"
  have "fd_ok (plus_ref no_refs d1) ?t1"
    by (rule new_desc_ok [OF assms(1) d(1,4), of e1]) (simp_all add: e1_def)
  then have t2: "fd_inv (set_proc (current_process s) c1 ?t1)"
    unfolding c1_def by (rule put_slot_ok) (use assms(2) ff d(1) in simp_all)
  let ?t2 = "set_proc (current_process s) c1 ?t1"
  let ?t3 = "?t2\<lparr>descs := (descs ?t2)(d2 \<mapsto> e2)\<rparr>"
  have "fd_ok (plus_ref no_refs d2) ?t3"
    by (rule new_desc_ok [OF t2 d(2), of e2]) (use d in \<open>simp_all add: e2_def\<close>)
  then have "fd_inv (set_proc (current_process s) (put_slot f2 d2 c1) ?t3)"
    by (rule put_slot_ok) (use ff d(2) in \<open>simp_all add: c1_def\<close>)
  then have "fd_inv s'" by (rule fd_ok_frame) (simp_all add: s' set_proc_def)
  then show ?thesis using s'(1) by blast
qed

lemma fd_call_kernel_inv:
  assumes "fd_call s s'" "kernel_inv tidy s" "can_call s"
  shows "kernel_inv tidy s'"
  using assms(1)
proof (cases rule: fd_callE)
  case (open_file nd resolve path flags r)
  show ?thesis
    by (rule own_table_kernel_inv [OF assms(2,3) sys_open_ring [OF open_file(2)]])
      (rule install_table [OF _ _ open_file(1) open_install [OF open_file(2)]])
next
  case (openat nd rs root dirfd path flags r)
  show ?thesis
    by (rule own_table_kernel_inv [OF assms(2,3) sys_openat_ring [OF openat(2)]])
      (rule install_table [OF _ _ openat(1) openat_install [OF openat(2)]])
next
  case (close_file fd r)
  show ?thesis
    by (rule own_table_kernel_inv [OF assms(2,3) sys_close_ring [OF close_file]]) (rule close_table [OF _ _ close_file])
next
  case (dup fd r)
  show ?thesis
    by (rule own_table_kernel_inv [OF assms(2,3) sys_dup_ring [OF dup(2)]]) (rule dup_table [OF _ dup(1) _ dup(2)])
next
  case (dup2 fd fd2 r)
  show ?thesis
  proof (cases "fd = fd2")
    case True
    then show ?thesis using view_kernel_inv [OF assms(2) dup2_same_view] dup2(2) by blast
  next
    case False
    show ?thesis
      by (rule own_table_kernel_inv [OF assms(2,3) sys_dup2_ring [OF dup2(2)]]) (rule dup2_table [OF _ dup2(1) _ False dup2(2)])
  qed
next
  case (fcntl fd cmd arg tab r tab')
  obtain c where c: "procs s (current_process s) = Some c" using can_callD [OF assms(3)] by blast
  from fcntl(2) c show ?thesis
  proof (cases rule: sys_fcntl_cases)
    case same
    then show ?thesis by (rule view_kernel_inv [OF assms(2)])
  next
    case (copy i)
    show ?thesis
    proof (rule own_table_kernel_inv [OF assms(2,3) sys_fcntl_ring [OF fcntl(2)]])
      fix c' assume "procs s (current_process s) = Some c'" "fd_inv s"
      then show "fd_inv s' \<and> (\<exists>c'. procs s' = (procs s)(current_process s \<mapsto> c'))"
        using fcntl_copy_table [OF _ fcntl(1) c copy(1,3,4)] by simp
    qed
  qed
next
  case (pipe d1 d2 filedes buf n1 n2 r w)
  show ?thesis
    by (rule own_table_kernel_inv [OF assms(2,3) sys_pipe_ring [OF pipe(2)]]) (rule pipe_table [OF _ _ pipe(1,2)])
qed

subsection \<open>Process calls\<close>

lemma zombies_closed_cong: "procs s' = procs s \<Longrightarrow> zombies_closed s \<Longrightarrow> zombies_closed s'"
  by (simp add: zombies_closed_def)

lemma insert_kernel_inv:
  assumes "insert_proc np q s = Some s'" "sched_inv s" "fresh_proc np s" "pstate q = PROCESS_READY"
    and t: "tidy \<Longrightarrow> fd_ok (\<lambda>d. no_refs d + count_list (fd_table q) d) s"
      "tidy \<Longrightarrow> zombies_closed s" "tidy \<Longrightarrow> length (fd_table q) = MAX_PROCESS_FILES"
  shows "kernel_inv tidy s'"
proof -
  have np: "np \<noteq> 0" "procs s np = None" using assms(3) by (simp_all add: fresh_proc_def)
  obtain c where c: "procs s (current_process s) = Some c" using sched_inv_ring [OF assms(2)] by metis
  have s': "sched_inv s'"
      "s' = s\<lparr>procs := (procs s)(np \<mapsto> q\<lparr>pnext := pnext c\<rparr>, current_process s \<mapsto> c\<lparr>pnext := np\<rparr>)\<rparr>"
    using insert_proc_spec [OF assms(2) c np(2,1), of q] assms(1,4) by auto
  have ne: "np \<noteq> current_process s" using np c by auto
  show ?thesis
  proof (rule kernel_invI [OF s'(1)])
    show "fd_inv s'" if tidy
      by (rule insert_fd_ok [where q = "q\<lparr>pnext := pnext c\<rparr>" and c' = "c\<lparr>pnext := np\<rparr>", OF _ np(2) ne c])
        (use t [OF that] s'(2) in simp_all)
    show "zombies_closed s'" if tidy
      by (rule zombies_closed_step [OF t(2) [OF that]]) (use c s'(2) assms(4) in \<open>auto split: if_splits\<close>)
  qed
qed

lemma fd_ok_cong:
  assumes "fd_ok k s" "\<And>d. d \<noteq> 0 \<Longrightarrow> k d = k' d"
  shows "fd_ok k' s"
  using assms(1,2) unfolding fd_ok_def by (metis (no_types, lifting) option.case_eq_if)

text \<open>The descriptors of the current process, counted once more.\<close>

lemma share_own:
  assumes "fd_inv s" "few_procs s" "procs s p = Some c" "share_fds (fd_table c) s0 = Some s1"
    "procs s0 = procs s" "descs s0 = descs s"
  shows "fd_ok (\<lambda>d. no_refs d + count_list (fd_table c) d) s1"
proof -
  have len: "length (fd_table c) = MAX_PROCESS_FILES" by (rule fd_ok_len [OF assms(1,3)])
  have ok0: "fd_inv s0" by (rule fd_ok_frame [OF assms(1,5,6)])
  have al: "descs s0 d \<noteq> None" if d: "d \<in> set (fd_table c)" "d \<noteq> 0" for d
  proof -
    from d(1) obtain i where i: "i < length (fd_table c)" "fd_table c ! i = d" by (auto simp: in_set_conv_nth)
    obtain e where "descs s (fd_table c ! i) = Some e"
      by (rule fd_held [OF assms(1,3), of i]) (use i len d(2) in auto)
    then show ?thesis using i(2) assms(6) by simp
  qed
  have bound: "fd_refs s0 d + no_refs d + count_list (fd_table c) d < 2 ^ 32" if "d \<noteq> 0" for d
    using fd_refs_bound [OF assms(1,2), of d] count_le_length [of "fd_table c" d] len
    unfolding fd_refs_cong [OF assms(5)] by simp
  show ?thesis using share_fds_ok [OF ok0 al bound] assms(4) by auto
qed

lemma fork_kernel_inv:
  assumes "kernel_inv tidy s" "fresh_proc np s" "few_procs s" "fork_process np blk kstk ret regs s = Some (r, s')"
  shows "kernel_inv tidy s'"
proof -
  note i = kernel_invD [OF assms(1)]
  obtain c where c: "procs s (current_process s) = Some c" using sched_inv_ring [OF i(1)] by metis
  obtain pd m1 where cl: "pd_clone (page_directory c) (vmem s) = (pd, m1)" by fastforce
  show ?thesis
  proof (cases "pd = 0")
    case True
    then have "s' = s\<lparr>vmem := m1\<rparr>" using assms(4) c cl by (simp add: fork_process_def)
    then show ?thesis by (intro view_kernel_inv [OF assms(1)]) simp
  next
    case False
    let ?s0 = "s\<lparr>next_pid := next_pid s + 1, vmem := m1\<rparr>"
    obtain s1 where s1: "share_fds (fd_table c) ?s0 = Some s1"
      using assms(4) c cl False by (auto simp: fork_process_def Let_def Option.bind_eq_Some_conv)
    obtain sp mem where pm: "pushes (fork_frame ret regs) (kstk + 4096, kstack s1) = (sp, mem)" by fastforce
    define q where "q = blk\<lparr>pid := next_pid s, pstate := PROCESS_READY, parent := current_process s, exit_code := 0,
      page_directory := pd, entry_point := entry_point c, user_stack_top := user_stack_top c,
      heap_end := heap_end c, cwd := cwd c, pledges := pledges c, fd_table := fd_table c,
      kernel_stack_top := kstk + 4096, saved_esp := sp\<rparr>"
    have ins: "insert_proc np q (s1\<lparr>kstack := mem\<rparr>) = Some s'"
      using assms(4) c cl False s1 pm by (auto simp: fork_process_def Let_def Option.bind_eq_Some_conv q_def)
    note v = share_fds_ring [OF s1]
    show ?thesis
    proof (rule insert_kernel_inv [OF ins])
      show "sched_inv (s1\<lparr>kstack := mem\<rparr>)" by (rule ring_view_sched [OF _ i(1)]) (use v in simp)
      show "fresh_proc np (s1\<lparr>kstack := mem\<rparr>)" using assms(2) v by (simp add: fresh_proc_def)
      show "pstate q = PROCESS_READY" by (simp add: q_def)
      show "fd_ok (\<lambda>d. no_refs d + count_list (fd_table q) d) (s1\<lparr>kstack := mem\<rparr>)" if tidy
        by (rule fd_ok_frame [of _ s1])
          (use share_own [OF i(2) [OF that] assms(3) c s1] in \<open>simp_all add: q_def\<close>)
      show "zombies_closed (s1\<lparr>kstack := mem\<rparr>)" if tidy
        by (rule zombies_closed_cong [OF _ i(3) [OF that]]) (use v in simp)
      show "length (fd_table q) = MAX_PROCESS_FILES" if tidy using fd_ok_len [OF i(2) [OF that] c] by (simp add: q_def)
    qed
  qed
qed

text \<open>A successful \<open>posix_spawn\<close> shares the descriptors and inserts a process; a failed one changes memory only.\<close>

lemma spawn_cases:
  assumes "sys_posix_spawn np blk kstk load_elf ume path_ok s = Some (r, pidp, s')" "procs s (current_process s) = Some c"
  obtains (fail) "fd_view s' = fd_view s"
    | (born) s1 q m mem where "share_fds (fd_table c) (s\<lparr>next_pid := next_pid s + 1\<rparr>) = Some s1" "np \<noteq> 0"
        "insert_proc np q (s1\<lparr>vmem := m, kstack := mem\<rparr>) = Some s'" "pstate q = PROCESS_READY" "fd_table q = fd_table c"
proof -
  obtain pd m1 where pd: "pd_create (vmem s) = (pd, m1)" by fastforce
  obtain entry top0 m2 where el: "load_elf (pd_switch pd m1) = (entry, top0, m2)" by (metis prod_cases3)
  show ?thesis
  proof (cases "path_ok \<and> pd \<noteq> 0 \<and> entry \<noteq> 0 \<and> np \<noteq> 0")
    case False
    then show ?thesis using assms(1) pd el by (intro fail) (auto simp: sys_posix_spawn_def Let_def split: if_splits)
  next
    case True
    obtain s1 where s1: "share_fds (fd_table c) (s\<lparr>next_pid := next_pid s + 1\<rparr>) = Some s1"
      using assms pd el True by (auto simp: sys_posix_spawn_def Let_def Option.bind_eq_Some_conv)
    obtain sp mem where pm: "pushes ([0xB0000000 + 4096, entry, 0, ume] @ switch_frame) (kstk + 4096, kstack s1) = (sp, mem)" by fastforce
    show ?thesis
    proof (rule born [OF s1])
      show "insert_proc np (blk\<lparr>pid := next_pid s, pstate := PROCESS_READY, parent := current_process s, exit_code := 0,
          page_directory := pd, heap_end := top0, pledges := 0xFFFFFFFF, pgid := pgid c, sid := sid c,
          uid := uid c, euid := euid c, suid := suid c, gid := gid c, egid := egid c, sgid := sgid c,
          fd_table := fd_table c, cwd := cwd c, priority := DEFAULT_PRIORITY,
          time_slice := DEFAULT_TIME_SLICE, time_remaining := DEFAULT_TIME_SLICE, sleep_until := 0,
          alarm_time := 0, pending_signals := 0, signal_mask := 0, in_signal_handler := False,
          utime := 0, stime := 0, cutime := 0, cstime := 0, start_time := tick s, unveils := [],
          kernel_stack_top := kstk + 4096, entry_point := entry, user_stack_top := 0xB0000000 + 4096,
          saved_esp := sp\<rparr>)
        (s1\<lparr>vmem := pd_switch (cr3 m1) (map_stack 0xB0000000 (pd_switch pd (pd_switch (cr3 m1) m2))), kstack := mem\<rparr>) = Some s'"
        using assms pd el True s1 pm by (auto simp: sys_posix_spawn_def Let_def Option.bind_eq_Some_conv)
    qed (use True in simp_all)
  qed
qed

lemma spawn_kernel_inv:
  assumes "kernel_inv tidy s" "np = 0 \<or> fresh_proc np s" "few_procs s"
    "sys_posix_spawn np blk kstk load_elf ume path_ok s = Some (r, pidp, s')"
  shows "kernel_inv tidy s'"
proof -
  note i = kernel_invD [OF assms(1)]
  obtain c where c: "procs s (current_process s) = Some c" using sched_inv_ring [OF i(1)] by metis
  from assms(4) c show ?thesis
  proof (cases rule: spawn_cases)
    case fail
    then show ?thesis by (rule view_kernel_inv [OF assms(1)])
  next
    case h: (born s1 q m mem)
    note v = share_fds_ring [OF h(1)]
    let ?t = "s1\<lparr>vmem := m, kstack := mem\<rparr>"
    show ?thesis
    proof (rule insert_kernel_inv [OF h(3)])
      show "sched_inv ?t" by (rule ring_view_sched [OF _ i(1)]) (use v in simp)
      show "fresh_proc np ?t" using assms(2) h(2) v by (simp add: fresh_proc_def)
      show "fd_ok (\<lambda>d. no_refs d + count_list (fd_table q) d) ?t" if tidy
        by (rule fd_ok_frame [of _ s1])
          (use share_own [OF i(2) [OF that] assms(3) c h(1)] h(5) in simp_all)
      show "zombies_closed ?t" if tidy
        by (rule zombies_closed_cong [OF _ i(3) [OF that]]) (use v in simp)
      show "length (fd_table q) = MAX_PROCESS_FILES" if tidy using fd_ok_len [OF i(2) [OF that] c] h(5) by simp
    qed (rule h(4))
  qed
qed

lemma thread_kernel_inv:
  assumes "kernel_inv tidy s" "fresh_proc np s" "tidy \<Longrightarrow> fd_table blk = replicate MAX_PROCESS_FILES 0"
    "create_kernel_thread np blk stack fn s = Some s'"
  shows "kernel_inv tidy s'"
proof -
  note i = kernel_invD [OF assms(1)]
  obtain q mem where q: "insert_proc np q (s\<lparr>next_pid := next_pid s + 1, kstack := mem\<rparr>) = Some s'"
      "pstate q = PROCESS_READY" "fd_table q = fd_table blk"
    using assms(4) by (force simp: create_kernel_thread_def split: prod.splits)
  let ?t = "s\<lparr>next_pid := next_pid s + 1, kstack := mem\<rparr>"
  have v: "kernel_inv tidy ?t" by (rule view_kernel_inv [OF assms(1)]) simp
  note j = kernel_invD [OF v]
  show ?thesis
  proof (rule insert_kernel_inv [OF q(1) j(1) _ q(2)])
    show "fresh_proc np ?t" using assms(2) by (simp add: fresh_proc_def)
    show "fd_ok (\<lambda>d. no_refs d + count_list (fd_table q) d) ?t" if tidy
    proof (rule fd_ok_cong [OF j(2) [OF that]])
      show "no_refs d = no_refs d + count_list (fd_table q) d" if "d \<noteq> 0" for d
        using that q(3) assms(3) [OF \<open>tidy\<close>] by (simp add: count_list_replicate)
    qed
    show "length (fd_table q) = MAX_PROCESS_FILES" if tidy using q(3) assms(3) [OF that] by simp
  qed (rule j(3))
qed

text \<open>The three terminal descriptors of a new user process.\<close>

lemma new_descs_ok:
  assumes "fd_ok k s" "fresh_descs ds s" "ref_count e = 1"
  shows "fd_ok (\<lambda>x. k x + count_list ds x) (s\<lparr>descs := fold (\<lambda>d h. h(d \<mapsto> e)) ds (descs s)\<rparr>)"
  using assms(1,2)
proof (induction ds arbitrary: k s)
  case Nil
  then show ?case by simp
next
  case (Cons d ds)
  let ?t = "s\<lparr>descs := (descs s)(d \<mapsto> e)\<rparr>"
  have d: "d \<noteq> 0" "descs s d = None" "fresh_descs ds ?t"
    using Cons.prems(2) by (auto simp: fresh_descs_def)
  have "fd_ok (plus_ref k d) ?t"
    by (rule new_desc_ok [OF Cons.prems(1) d(1,2) assms(3)]) simp_all
  note ih = Cons.IH [OF this d(3)]
  define F where "F = (\<lambda>d (h :: u32 \<Rightarrow> file_description option). h(d \<mapsto> e))"
  have "?t\<lparr>descs := fold F ds (descs ?t)\<rparr> = s\<lparr>descs := fold F (d # ds) (descs s)\<rparr>"
    by (simp add: fun_cong [OF fun_cong [OF F_def, of d], of "descs s"])
  then have "fd_ok (\<lambda>x. (plus_ref k d) x + count_list ds x) (s\<lparr>descs := fold F (d # ds) (descs s)\<rparr>)"
    using ih unfolding F_def [symmetric] by (simp only:)
  then show ?case unfolding F_def [symmetric] by (rule fd_ok_cong) simp
qed

lemma tty_fds_ok:
  assumes "fd_inv s" "tty \<noteq> 0 \<Longrightarrow> fresh_descs (take 3 ds) s \<and> 3 \<le> length ds"
  shows "fd_ok (\<lambda>d. no_refs d + count_list (tty_fds tty ds) d) (s\<lparr>descs := tty_descs tty ds (descs s)\<rparr>)"
    "length (tty_fds tty ds) = MAX_PROCESS_FILES"
proof -
  show "length (tty_fds tty ds) = MAX_PROCESS_FILES" using assms(2) by (simp add: tty_fds_def)
  show "fd_ok (\<lambda>d. no_refs d + count_list (tty_fds tty ds) d) (s\<lparr>descs := tty_descs tty ds (descs s)\<rparr>)"
  proof (cases "tty = 0")
    case True
    have "s\<lparr>descs := descs s\<rparr> = s" by simp
    then show ?thesis
      using fd_ok_cong [OF assms(1), of "\<lambda>d. no_refs d + count_list (tty_fds tty ds) d"] True
      by (simp add: tty_fds_def tty_descs_def count_list_replicate)
  next
    case False
    have "fd_ok (\<lambda>d. no_refs d + count_list (take 3 ds) d) (s\<lparr>descs := tty_descs tty ds (descs s)\<rparr>)"
      using new_descs_ok [OF assms(1), of "take 3 ds"] assms(2) [OF False] False by (simp add: tty_descs_def)
    then show ?thesis
      by (rule fd_ok_cong) (use False in \<open>simp add: tty_fds_def count_list_replicate\<close>)
  qed
qed

lemma user_cases:
  assumes "create_user_process np blk kstk tty ds tsc_low load_elf ume argv s = Some (stores, s')"
  obtains (fail) "fd_view s' = fd_view s"
    | (born) q m mem where
        "insert_proc np q (s\<lparr>next_pid := next_pid s + 1, vmem := m, kstack := mem, descs := tty_descs tty ds (descs s)\<rparr>) = Some s'"
        "pstate q = PROCESS_READY" "fd_table q = tty_fds tty ds"
proof -
  obtain pd m1 where pd: "pd_create (vmem s) = (pd, m1)" by fastforce
  obtain entry top0 m2 where el: "load_elf (pd_switch pd m1) = (entry, top0, m2)" by (metis prod_cases3)
  show ?thesis
  proof (cases "pd = 0 \<or> entry = 0")
    case True
    then show ?thesis using assms pd el by (intro fail) (auto simp: create_user_process_def Let_def split: if_splits)
  next
    case False
    define usv where "usv = 0xB0000000 - (tsc_low AND 0xFF) * 0x1000"
    obtain usp st where ca: "copy_argv argv (usv + 4096) = (usp, st)" by fastforce
    obtain sp mem where pm: "pushes ([usp, entry, 0, ume] @ switch_frame) (kstk + 4096, kstack s) = (sp, mem)" by fastforce
    obtain c where c: "procs s (current_process s) = Some c"
      using assms pd el False by (auto simp: create_user_process_def Let_def Option.bind_eq_Some_conv)
    show ?thesis
    proof (rule born)
      show "insert_proc np (blk\<lparr>pid := next_pid s, pstate := PROCESS_READY, parent := current_process s, exit_code := 0,
                 page_directory := pd, heap_end := top0, pledges := 0xFFFFFFFF,
                 fd_table := tty_fds tty ds, cwd := cwd c, unveils := [], entry_point := entry,
                 user_stack_top := usp, saved_esp := sp, kernel_stack_top := kstk + 4096\<rparr>)
        (s\<lparr>next_pid := next_pid s + 1,
           vmem := pd_switch (cr3 m1) (map_stack usv (pd_switch pd (pd_switch (cr3 m1) m2))),
           kstack := mem, descs := tty_descs tty ds (descs s)\<rparr>) = Some s'"
        using assms pd el False c ca pm
        by (auto simp: create_user_process_def Let_def Option.bind_eq_Some_conv usv_def [symmetric])
    qed simp_all
  qed
qed

lemma user_kernel_inv:
  assumes "kernel_inv tidy s" "fresh_proc np s" "tty \<noteq> 0 \<Longrightarrow> fresh_descs (take 3 ds) s \<and> 3 \<le> length ds"
    "create_user_process np blk kstk tty ds tsc_low load_elf ume argv s = Some (stores, s')"
  shows "kernel_inv tidy s'"
proof -
  note i = kernel_invD [OF assms(1)]
  from assms(4) show ?thesis
  proof (cases rule: user_cases)
    case fail
    then show ?thesis by (rule view_kernel_inv [OF assms(1)])
  next
    case (born q m mem)
    let ?t = "s\<lparr>next_pid := next_pid s + 1, vmem := m, kstack := mem, descs := tty_descs tty ds (descs s)\<rparr>"
    show ?thesis
    proof (rule insert_kernel_inv [OF born(1) _ _ born(2)])
      show "sched_inv ?t" by (rule ring_view_sched [OF _ i(1)]) simp
      show "fresh_proc np ?t" using assms(2) by (simp add: fresh_proc_def)
      show "fd_ok (\<lambda>d. no_refs d + count_list (fd_table q) d) ?t" if tidy
        unfolding born(3) by (rule fd_ok_frame [OF tty_fds_ok(1) [OF i(2) [OF that] assms(3)]]) simp_all
      show "zombies_closed ?t" if tidy by (rule zombies_closed_cong [OF _ i(3) [OF that]]) simp
      show "length (fd_table q) = MAX_PROCESS_FILES" if tidy
        unfolding born(3) by (rule tty_fds_ok(2) [OF i(2) [OF that] assms(3)])
    qed
  qed
qed

subsection \<open>The wait calls\<close>

lemma reap_kernel_inv:
  assumes "kernel_inv tidy t" "sched_inv s'" "procs t a = Some f" "pstate f = PROCESS_ZOMBIE" "procs t pr = Some q" "pr \<noteq> a"
    "procs s' = (procs t)(pr \<mapsto> q\<lparr>pnext := pnext f\<rparr>, a := None)" "descs s' = descs t"
  shows "kernel_inv tidy s'"
proof (rule kernel_invI [OF assms(2)])
  note i = kernel_invD [OF assms(1)]
  show "fd_inv s'" if tidy
    by (rule reap_fd_ok [OF i(2) [OF that] assms(3,5,6,7,8)])
      (use i(3) [OF that] assms(3,4) in \<open>auto simp: zombies_closed_def\<close>)
  show "zombies_closed s'" if tidy
    by (rule zombies_closed_step [OF i(3) [OF that]]) (use assms(5,7) in \<open>auto split: if_splits\<close>)
qed

lemma waitpid_kernel_inv:
  assumes "kernel_inv tidy s" "can_call s" "sys_waitpid_round p opts s = Some (w, s')"
  shows "kernel_inv tidy s'"
proof -
  obtain c where c: "procs s (current_process s) = Some c" "pstate c \<noteq> PROCESS_ZOMBIE" using can_callD [OF assms(2)] .
  note i = kernel_invD [OF assms(1)]
  let ?M = "wait_matches p (current_process s) c"
  let ?t = "\<lambda>f. set_proc (current_process s) (add_child_times f c) s"
  show ?thesis
  proof (cases "\<exists>a f. procs s a = Some f \<and> ?M f \<and> pstate f = PROCESS_ZOMBIE")
    case True
    obtain a f pr q where r: "procs s a = Some f" "pstate f = PROCESS_ZOMBIE" "a \<noteq> current_process s" "sched_inv s'"
        "procs (?t f) pr = Some q" "pr \<noteq> a"
        "procs s' = (procs s)(current_process s \<mapsto> add_child_times f c, pr \<mapsto> q\<lparr>pnext := pnext f\<rparr>, a := None)"
        "descs s' = descs s"
      using sys_waitpid_spec [OF i(1) c, of p opts] assms(3) unfolding if_P [OF True] by auto
    have "kernel_inv tidy (?t f)" by (rule one_kernel_inv [OF assms(1) c(1)]) (simp_all add: add_child_times_def)
    then show ?thesis
      by (rule reap_kernel_inv [OF _ r(4) _ r(2) r(5) r(6)]) (use r(1,3,7,8) in simp_all)
  next
    case False
    have "s' = s \<or> block_current s = Some s'"
      using sys_waitpid_spec [OF i(1) c, of p opts] assms(3) unfolding if_not_P [OF False]
      by (auto split: if_splits)
    then show ?thesis using assms(1) block_kernel_inv [OF assms(1)] by metis
  qed
qed

lemma wait_process_kernel_inv:
  assumes "kernel_inv tidy s" "can_call s" "wait_process_round s = Some (w, s')"
  shows "kernel_inv tidy s'"
proof -
  obtain c where c: "procs s (current_process s) = Some c" "pstate c \<noteq> PROCESS_ZOMBIE" using can_callD [OF assms(2)] .
  note i = kernel_invD [OF assms(1)]
  define P where "P = (\<lambda>(_ :: u32) (q :: process). parent q = current_process s \<and> pstate q = PROCESS_ZOMBIE)"
  obtain z where z: "ring_find False P (procs s) (ready_queue s) (ready_queue s) = Some z"
      "case z of None \<Rightarrow> \<forall>a q. procs s a = Some q \<longrightarrow> \<not> P a q | Some a \<Rightarrow> \<exists>q. procs s a = Some q \<and> P a q"
    by (rule queue_search [OF i(1), where P = P])
  note w = assms(3) [unfolded wait_process_round_def P_def [symmetric] z(1) Option.bind.bind_lunit]
  show ?thesis
  proof (cases z)
    case None
    have "s' = s \<or> block_current s = Some s'"
      using w None by (auto simp: Option.bind_eq_Some_conv split: if_splits)
    then show ?thesis using assms(1) block_kernel_inv [OF assms(1)] by metis
  next
    case (Some a)
    then obtain f where f: "procs s a = Some f" "pstate f = PROCESS_ZOMBIE" using z(2) by (auto simp: P_def)
    have ne: "a \<noteq> current_process s" using f c by auto
    obtain s1 s2 pr q where r: "unlink_proc a s = Some s1" "free_proc a s1 = Some s2" "sched_inv s2" "pr \<noteq> a"
        "procs s pr = Some q" "procs s2 = (procs s)(pr \<mapsto> q\<lparr>pnext := pnext f\<rparr>, a := None)" "descs s2 = descs s"
      using reap_spec [OF i(1) f(1) ne] by blast
    have "s' = s2" using w Some f(1) r(1,2) by simp
    then show ?thesis using reap_kernel_inv [OF assms(1) r(3) f r(5,4,6,7)] by simp
  qed
qed

lemma waitid_kernel_inv:
  assumes "kernel_inv tidy s" "can_call s" "sys_waitid_round idtype i infop opts s = Some (w, info, s')"
  shows "kernel_inv tidy s'"
proof (cases "waitid_pid idtype i")
  case None
  then show ?thesis using assms(1,3) by (simp add: sys_waitid_round_def)
next
  case (Some p)
  then obtain o1 w1 where "sys_waitpid_round p o1 s = Some (w1, s')"
    using assms(3) by (auto simp: sys_waitid_round_def Option.bind_eq_Some_conv)
  then show ?thesis by (rule waitpid_kernel_inv [OF assms(1,2)])
qed

lemma process_call_kernel_inv:
  assumes "process_call tidy s s'" "kernel_inv tidy s" "can_call s"
  shows "kernel_inv tidy s'"
  using assms(1)
proof (cases rule: process_callE)
  case (kernel_thread np blk stack fn)
  then show ?thesis by (rule thread_kernel_inv [OF assms(2)])
next
  case (user_process np tty ds blk kstk tsc_low load_elf ume argv stores)
  then show ?thesis by (rule user_kernel_inv [OF assms(2)])
next
  case (fork np blk kstk ret regs r)
  then show ?thesis by (rule fork_kernel_inv [OF assms(2)])
next
  case (spawn np blk kstk load_elf ume path_ok r i)
  then show ?thesis by (rule spawn_kernel_inv [OF assms(2)])
next
  case (exit st)
  then show ?thesis by (rule exit_kernel_inv [OF assms(2)])
next
  case (underscore_exit st)
  then show ?thesis using underscore_exit_kernel_inv [OF assms(2)] by simp
next
  case (wait w)
  then show ?thesis by (rule wait_process_kernel_inv [OF assms(2,3)])
next
  case (waitpid p opts w)
  then show ?thesis by (rule waitpid_kernel_inv [OF assms(2,3)])
next
  case (waitid idtype i infop opts w info)
  then show ?thesis by (rule waitid_kernel_inv [OF assms(2,3)])
qed

lemma kcall_inv:
  assumes "kcall tidy s s'" "kernel_inv tidy s"
  shows "kernel_inv tidy s'"
  using assms(1)
proof (cases rule: kcallE)
  case timer
  then show ?thesis by (rule timer_kernel_inv [OF assms(2)])
next
  case alarms
  then show ?thesis by (rule alarms_kernel_inv [OF assms(2)])
next
  case quiet
  then show ?thesis by (intro view_kernel_inv [OF assms(2)] quiet_call_view)
next
  case fd
  then show ?thesis by (intro fd_call_kernel_inv [OF _ assms(2)])
next
  case sig
  then show ?thesis by (intro signal_call_kernel_inv [OF _ assms(2)])
next
  case wait
  then show ?thesis by (intro block_call_kernel_inv [OF _ assms(2)])
next
  case process
  then show ?thesis by (intro process_call_kernel_inv [OF _ assms(2)])
qed

text \<open>The first state.\<close>

lemma init_kernel_inv:
  assumes "np \<noteq> 0" "procs s = (\<lambda>_. None)" "descs s = (\<lambda>_. None)"
  shows "kernel_inv tidy (init_multitasking np blk stack_top s)"
proof (rule kernel_invI)
  let ?s = "init_multitasking np blk stack_top s"
  obtain q where q: "procs ?s = [np \<mapsto> q]" "pnext q = np" "pstate q = PROCESS_RUNNING" "current_process ?s = np"
      "ready_queue ?s = np" "fd_table q = replicate MAX_PROCESS_FILES 0" "descs ?s = (\<lambda>_. None)"
    using assms(2,3) by (simp add: init_multitasking_def set_proc_def)
  have "ring (procs ?s) (current_process ?s) []" using q assms(1) by (simp add: ring_def)
  then have "one_ring ?s" unfolding one_ring_def using q(1,4,5) by (intro exI [of _ "[]"]) simp
  then show "sched_inv ?s" unfolding sched_inv_def using q(1,4) by (auto split: if_splits)
  show "zombies_closed ?s" using q(1,3) by (auto simp: zombies_closed_def split: if_splits)
  show "fd_inv ?s"
  proof (rule fd_okI)
    show "fd_refs ?s d = 0 \<and> no_refs d = 0" if "d \<noteq> 0" "descs ?s d = None" for d
      using that(1) by (simp add: fd_refs_def q(1,6) count_list_replicate)
  qed (use q in \<open>auto split: if_splits\<close>)
qed

lemma kcalls_inv:
  assumes "(kcall tidy)\<^sup>*\<^sup>* s t" "kernel_inv tidy s"
  shows "kernel_inv tidy t"
  using assms by (induction rule: rtranclp_induct) (blast intro: kcall_inv)+

lemma underscore_exit_returns:
  assumes "sched_inv s" "procs s (current_process s) = Some c" "parent c = 0"
  shows "\<exists>s'. sys_underscore_exit st s = Some s'"
proof -
  define z where "z = c\<lparr>pstate := PROCESS_ZOMBIE, exit_code := st\<rparr>"
  define u where "u = set_proc (current_process s) z s"
  have u: "become_zombie st s = Some u" "sched_inv u" "procs u (current_process u) = Some z"
    using become_zombie_spec [OF assms(1,2)] by (simp_all add: u_def z_def)
  have "signal_parent u = Some u" using u(3) assms(3) by (simp add: signal_parent_def z_def)
  then show ?thesis using u(1) schedule_inv [OF u(2)] by (auto simp: sys_underscore_exit_def)
qed

subsection \<open>Property\<close>

text \<open>
  C6. From boot on, whatever the order of timer interrupts, alarm checks and calls (those listed
  above: read, write, seek and attribute calls, exec; open, close, dup, dup2, fcntl and pipe;
  the signal calls with delivery and return; blocking and waking, pipe reads, writes and closes;
  kernel threads, user processes, fork, posix_spawn, exit, sys__exit, wait, waitpid and waitid):
  the process list is one ring that holds every process and the current one, at most the current
  process is marked running, and the next timer interrupt finds its way round the list. When
  in addition nobody has called \<open>sys__exit\<close> and no kernel thread was created over a block with
  a dirty descriptor table, every description counts exactly the slots that hold it and a zombie
  holds none. \<open>sys__exit\<close> in a process with open descriptors always destroys this. The blocks \<open>kmalloc\<close>
  hands to the calls are fresh, a call that adds a reference happens with fewer than \<open>2\<^sup>2\<^sup>6\<close>
  processes (the counts have 32 bits), and a caller is no zombie. A call that
  follows a dangling pointer has no result and is no step (\<open>dup2\<close> of a descriptor on itself
  with a single reference, \<open>dup2_same_fd_use_after_free\<close>).
\<close>

theorem reachable_kernel_inv:
  assumes "np \<noteq> 0" "procs s = (\<lambda>_. None)" "descs s = (\<lambda>_. None)"
    and "(kcall tidy)\<^sup>*\<^sup>* (init_multitasking np blk stack_top s) t"
  shows "sched_inv t \<and> (\<exists>u. timer_callback t = Some u)
    \<and> (tidy \<longrightarrow> fd_inv t \<and> zombies_closed t)
    \<and> (\<forall>c st u. procs t (current_process t) = Some c \<longrightarrow> fd_table c \<noteq> replicate MAX_PROCESS_FILES 0
        \<longrightarrow> sys_underscore_exit st t = Some u \<longrightarrow> \<not> zombies_closed u)"
proof -
  have i: "sched_inv t" "tidy \<longrightarrow> fd_inv t \<and> zombies_closed t"
    using kcalls_inv [OF assms(4) init_kernel_inv [OF assms(1-3)]] by (simp_all add: kernel_inv_def fds_exact_def)
  moreover have "\<not> zombies_closed u"
    if "procs t (current_process t) = Some c" "fd_table c \<noteq> replicate MAX_PROCESS_FILES 0"
      "sys_underscore_exit st t = Some u" for c st u
    using underscore_exit_table [OF i(1) that(1,3)] that(2) unfolding zombies_closed_def by metis
  ultimately show ?thesis using timer_callback_inv [OF i(1)] by blast
qed

text \<open>The first process opens a file: all is exact. Then it calls \<open>sys__exit\<close>.\<close>

definition demo_boot :: kst where
  "demo_boot = init_multitasking 0x100 demo_proc 0x9000 (demo_kst\<lparr>procs := \<lambda>_. None\<rparr>)"

lemma demo_boot_open:
  "\<exists>t c. kcall tidy demo_boot t \<and> procs t (current_process t) = Some c \<and> fd_table c = (replicate 16 0)[0 := 0x5000]
    \<and> parent c = 0 \<and> pstate c \<noteq> PROCESS_ZOMBIE"
proof -
  obtain c where c: "procs demo_boot (current_process demo_boot) = Some c" "fd_table c = replicate 16 0" "unveils c = []"
      "pledges c = 0xFFFFFFFF" "parent c = 0" "pstate c = PROCESS_RUNNING"
    by (simp add: demo_boot_def init_multitasking_def demo_proc_def)
  have "free_slot c = Some 0" by (simp add: free_slot_def c(2) numeral_eq_Suc)
  then obtain r t where t: "sys_open (\<lambda>_. 0x6000) 0x5000 ''f'' 0 demo_boot = Some (r, t)" "current_process t = current_process demo_boot"
      "procs t (current_process demo_boot) = Some (put_slot 0 0x5000 c)"
    using c by (simp add: sys_open_def check_unveil_def install_fd_def open_pledge_def PLEDGE_RPATH_def)
  have "fresh_descs [0x5000] demo_boot" by (simp add: fresh_descs_def demo_boot_def init_multitasking_def)
  then have "kcall tidy demo_boot t"
    using t(1) c by (intro kcall.fd fd_call.open_file) (simp_all add: can_call_def)
  then show ?thesis using t c by (intro exI [of _ t] exI [of _ "put_slot 0 0x5000 c"]) (simp add: put_slot_def)
qed

theorem reachable_kernel_inv_witness:
  "\<exists>t u. (kcall True)\<^sup>*\<^sup>* demo_boot t \<and> fd_inv t \<and> zombies_closed t \<and> descs t \<noteq> (\<lambda>_. None)
    \<and> kcall False t u \<and> sched_inv u \<and> \<not> zombies_closed u"
proof -
  obtain t c where t: "kcall True demo_boot t" "procs t (current_process t) = Some c"
      "fd_table c = (replicate 16 0)[0 := 0x5000]" "parent c = 0" "pstate c \<noteq> PROCESS_ZOMBIE"
    using demo_boot_open by blast
  have tt: "(kcall True)\<^sup>*\<^sup>* demo_boot t" by (rule r_into_rtranclp [of "kcall True", OF t(1)])
  note inv = reachable_kernel_inv [where s = "demo_kst\<lparr>procs := \<lambda>_. None\<rparr>" and np = "0x100" and blk = demo_proc
      and stack_top = "0x9000" and tidy = True and t = t, folded demo_boot_def]
  have i: "sched_inv t" "fd_inv t" "zombies_closed t" using inv tt by simp_all
  have ne: "fd_table c \<noteq> replicate 16 0"
  proof
    assume "fd_table c = replicate 16 0"
    then have "fd_table c ! 0 = 0" by simp
    then show False by (simp add: t(3))
  qed
  obtain u where u: "sys_underscore_exit 1 t = Some u" using underscore_exit_returns [OF i(1) t(2,4)] by blast
  have "\<not> zombies_closed u" using inv tt t(2) ne u by simp
  moreover have "kcall False t u"
    by (rule kcall.process, simp add: can_call_def t(2,5), rule process_call.underscore_exit [OF _ u]) simp
  moreover have "sched_inv u" using underscore_exit_kernel_inv [OF _ u, of True] i by (simp add: kernel_inv_def fds_exact_def)
  moreover have "descs t \<noteq> (\<lambda>_. None)"
  proof -
    obtain e where "descs t (fd_table c ! 0) = Some e"
      by (rule fd_held [OF i(2) t(2), of 0]) (simp_all add: t(3))
    then show ?thesis by (metis option.discI)
  qed
  ultimately show ?thesis using tt i by blast
qed

end
