(* ===== verification/Memory_Calls.thy ===== *)
theory Memory_Calls
  imports Process
begin

text \<open>
  The memory system calls: \<open>sbrk\<close>, \<open>mmap\<close> and \<open>munmap\<close> of \<open>syscall.cpp\<close>, and \<open>mprotect.cpp\<close>.
  \<open>memset\<close> of a page that was just mapped clears its frame. TLB flushes are left out.
\<close>

subsection \<open>sbrk, mmap, munmap\<close>

text \<open>Fresh cleared frames for a list of page addresses; \<open>False\<close> when memory runs out.\<close>

fun map_zeroed :: "u32 list \<Rightarrow> vm \<Rightarrow> bool \<times> vm" where
  "map_zeroed [] m = (True, m)"
| "map_zeroed (v # vs) m =
     (let (p, m1) = alloc_frame m in
      if p = 0 then (False, m1)
      else map_zeroed vs (clear_frame p (vm_map_page p v 7 m1)))"

definition page_up :: "u32 \<Rightarrow> u32" where
  "page_up a = (a + 0xFFF) AND 0xFFFFF000"

definition pages_from :: "u32 \<Rightarrow> nat \<Rightarrow> u32 list" where
  "pages_from a n = map (\<lambda>i. a + of_nat i * 4096) [0 ..< n]"

definition sys_sbrk :: "u32 \<Rightarrow> kst \<Rightarrow> (int \<times> kst) option" where
  "sys_sbrk increment s = do {
     c \<leftarrow> procs s (current_process s);
     let old_brk = heap_end c;
     let new_brk = old_brk + increment;
     let old_top = page_up old_brk;
     let new_top = page_up new_brk;
     let (ok, m) = (if new_top > old_top
                    then map_zeroed (pages_from old_top (unat (new_top - old_top) div 4096)) (vmem s)
                    else (True, vmem s));
     let s1 = s\<lparr>vmem := m\<rparr>;
     if \<not> ok then Some (- ENOMEM, s1)
     else Some (sint old_brk, set_proc (current_process s) (c\<lparr>heap_end := new_brk\<rparr>) s1) }"

text \<open>\<open>nxt\<close> is the static \<open>next_mmap_addr\<close>.\<close>

definition sys_mmap :: "u32 \<Rightarrow> u32 \<Rightarrow> u32 \<Rightarrow> vm \<Rightarrow> int \<times> u32 \<times> vm" where
  "sys_mmap addr len nxt m =
     (let (a, nxt1) = (if addr = 0 then (nxt, nxt + page_up len) else (addr, nxt));
          (ok, m1) = map_zeroed (pages_from a (unat ((len + 0xFFF) div 4096))) m
      in (if ok then sint a else - ENOMEM, nxt1, m1))"

definition sys_munmap :: "u32 \<Rightarrow> u32 \<Rightarrow> vm \<Rightarrow> int \<times> vm" where
  "sys_munmap addr len m = (0, fold vm_unmap_page (pages_from addr (unat ((len + 0xFFF) div 4096))) m)"

subsection \<open>mprotect and its relatives\<close>

definition PTE_PRESENT :: u32 where "PTE_PRESENT = 1"
definition PTE_WRITE :: u32 where "PTE_WRITE = 2"
definition PTE_USER :: u32 where "PTE_USER = 4"
definition PTE_NX :: u32 where "PTE_NX = 0"

definition prot_flags :: "u32 \<Rightarrow> u32" where
  "prot_flags prot =
     (let f0 = PTE_PRESENT; f1 = (if prot AND 2 \<noteq> 0 then f0 OR PTE_WRITE else f0)
      in if prot AND 4 = 0 then f1 OR PTE_NX else f1)"

definition protect_page :: "u32 \<Rightarrow> u32 \<Rightarrow> vm \<Rightarrow> vm" where
  "protect_page flags v m = (case paging_get_pte v m of
       None \<Rightarrow> m
     | Some (pt, j) \<Rightarrow>
         if frames m pt j AND PTE_PRESENT = 0 then m
         else write_word pt j ((frames m pt j AND NOT 0xFFF) OR flags) m)"

definition sys_mprotect :: "u32 \<Rightarrow> u32 \<Rightarrow> u32 \<Rightarrow> vm \<Rightarrow> int \<times> vm" where
  "sys_mprotect addr len prot m =
     (if addr = 0 then (- EINVAL, m)
      else if addr AND 0xFFF \<noteq> 0 then (- EINVAL, m)
      else if len = 0 then (0, m)
      else (0, fold (protect_page (prot_flags prot)) (pages_from addr (unat ((len + 0xFFF) div 0x1000))) m))"

definition page_argument :: "u32 \<Rightarrow> int" where
  "page_argument addr = (if addr = 0 then - EINVAL else if addr AND 0xFFF \<noteq> 0 then - EINVAL else 0)"

definition sys_msync :: "u32 \<Rightarrow> int" where "sys_msync addr = page_argument addr"
definition sys_mlock :: "u32 \<Rightarrow> int" where "sys_mlock addr = page_argument addr"
definition sys_munlock :: "u32 \<Rightarrow> int" where "sys_munlock addr = page_argument addr"
definition sys_mlockall :: "int \<Rightarrow> int" where "sys_mlockall flags = 0"
definition sys_munlockall :: int where "sys_munlockall = 0"

definition sys_madvise :: "u32 \<Rightarrow> int" where
  "sys_madvise addr = (if addr = 0 then - EINVAL else 0)"

definition sys_posix_madvise :: "u32 \<Rightarrow> int" where "sys_posix_madvise addr = sys_madvise addr"

subsection \<open>posix_memalign\<close>

text \<open>
  \<open>alloc\<close> is \<open>kmalloc\<close>, and \<open>mp\<close> says whether \<open>memptr\<close> is given. The result is the error, the pointer
  stored to \<open>*memptr\<close> and the word that hides the raw pointer below it.
\<close>

definition align_up :: "u32 \<Rightarrow> u32 \<Rightarrow> u32" where
  "align_up alignment raw = (raw + 4 + alignment - 1) AND NOT (alignment - 1)"

definition memalign_total :: "u32 \<Rightarrow> u32 \<Rightarrow> u32" where
  "memalign_total alignment sz = sz + alignment - 1 + 4"

definition sys_posix_memalign ::
  "(u32 \<Rightarrow> u32) \<Rightarrow> bool \<Rightarrow> u32 \<Rightarrow> u32 \<Rightarrow> int \<times> u32 option \<times> (u32 \<times> u32) option" where
  "sys_posix_memalign alloc mp alignment sz =
     (if \<not> mp then (EINVAL, None, None)
      else if alignment < 4 then (EINVAL, None, None)
      else if alignment AND (alignment - 1) \<noteq> 0 then (EINVAL, None, None)
      else if sz = 0 then (0, Some 0, None)
      else
        let raw = alloc (memalign_total alignment sz) in
        if raw = 0 then (ENOMEM, None, None)
        else (0, Some (align_up alignment raw), Some (align_up alignment raw - 4, raw)))"

definition aligned_alloc :: "(u32 \<Rightarrow> u32) \<Rightarrow> u32 \<Rightarrow> u32 \<Rightarrow> u32" where
  "aligned_alloc alloc alignment sz = (case sys_posix_memalign alloc True alignment sz of
     (e, p, h) \<Rightarrow> if e \<noteq> 0 then 0 else (case p of None \<Rightarrow> 0 | Some a \<Rightarrow> a))"

subsection \<open>Alignment\<close>

lemma power_of_two_word:
  fixes a :: u32
  assumes "a AND (a - 1) = 0" "a \<noteq> 0"
  shows "\<exists>k < 32. a = push_bit k 1"
proof -
  obtain k where k: "bit a k" "\<And>i. bit a i \<Longrightarrow> k \<le> i"
  proof -
    from assms(2) obtain i where "bit a i" by (metis bit_eqI bit_0_eq bot_apply bot_bool_def)
    then show ?thesis using that [of "LEAST i. bit a i"] by (metis LeastI Least_le)
  qed
  have k32: "k < 32" using bit_imp_le_length [OF k(1)] by simp
  define b where "b = a AND NOT (push_bit k 1)"
  have split: "a = b OR push_bit k 1" "b AND push_bit k 1 = 0"
    using k(1) by (auto intro!: bit_eqI simp: b_def bit_simps)
  have low: "\<not> bit b i" if "i \<le> k" for i
    using k(2) [of i] that by (auto simp: b_def bit_simps)
  have "a = b + push_bit k 1" using split by (simp add: disjunctive_add bit_eq_iff bit_simps)
  then have "a - 1 = b + (push_bit k 1 - 1)" by simp
  also have "push_bit k 1 - 1 = (mask k :: u32)" by (simp add: mask_eq_exp_minus_1 push_bit_eq_mult)
  also have "b + mask k = b OR mask k"
    using low by (intro disjunctive_add) (auto simp: bit_simps)
  finally have "a - 1 = b OR mask k" .
  then have "a AND (b OR mask k) = 0" using assms(1) by simp
  then have "b = 0" using split by (auto simp: bit_eq_iff bit_simps)
  then show ?thesis using split k32 by (intro exI [of _ k]) simp
qed


lemma align_up_value:
  assumes "k < 32" "unat raw + 2 ^ k + 3 < 2 ^ 32"
  shows "unat (align_up (push_bit k 1) raw) = (unat raw + 3 + 2 ^ k) div 2 ^ k * 2 ^ k"
proof -
  have one: "push_bit k 1 = (2 ^ k :: u32)" by (simp add: push_bit_eq_mult)
  have u: "unat (2 ^ k :: u32) = 2 ^ k" using assms(1) by (rule unat_exp_u32)
  define x where "x = raw + 3 + (2 ^ k :: u32)"
  have "unat (raw + 3) = unat raw + 3" using assms(2) unat_add_small [of raw 3] by simp
  then have x: "unat x = unat raw + 3 + 2 ^ k"
    unfolding x_def using assms(2) u unat_add_small [of "raw + 3" "2 ^ k"] by simp
  have "raw + 4 + 2 ^ k - 1 = x" by (simp add: x_def)
  then have "align_up (push_bit k 1) raw = x AND NOT (mask k)"
    unfolding align_up_def one by (simp add: mask_eq_exp_minus_1)
  also have "\<dots> = push_bit k (drop_bit k x)" by (rule bit_eqI) (auto simp: bit_simps)
  finally have "align_up (push_bit k 1) raw = push_bit k (drop_bit k x)" .
  moreover have "unat (push_bit k (drop_bit k x)) = unat x div 2 ^ k * 2 ^ k"
  proof -
    have "unat x div 2 ^ k * 2 ^ k < 2 ^ 32"
      using order.strict_trans1 [OF div_times_less_eq_dividend unat_u32_bound [of x]] by simp
    moreover have "take_bit 32 (unat x) = unat x" using unat_u32_bound [of x] by (simp add: take_bit_nat_eq_self)
    ultimately show ?thesis unfolding unsigned_push_bit_eq unsigned_drop_bit_eq
      by (simp add: take_bit_nat_eq_self drop_bit_eq_div push_bit_nat_def mult.commute)
  qed
  ultimately show ?thesis using x by simp
qed


subsection \<open>Protection\<close>

lemma prot_flags_cases: "prot_flags prot = (if prot AND 2 \<noteq> 0 then 3 else 1)"
  by (simp add: prot_flags_def Let_def PTE_PRESENT_def PTE_WRITE_def PTE_NX_def)

definition protected :: "u32 \<Rightarrow> u32 \<Rightarrow> u32" where
  "protected prot w = (if entry_present w then frame_of w OR prot_flags prot else w)"

lemma protected_simps:
  "entry_present (protected prot w) = entry_present w" "frame_of (protected prot w) = frame_of w"
  "protected prot (protected prot w) = protected prot w"
  "entry_present w \<Longrightarrow> protected prot w AND PTE_USER = 0"
proof -
  have low: "(frame_of w OR prot_flags prot) AND 1 \<noteq> 0" "frame_of (frame_of w OR prot_flags prot) = frame_of w"
      "(frame_of w OR prot_flags prot) AND 4 = 0"
    unfolding prot_flags_cases by (simp_all add: bit.conj_disj_distrib2 and.assoc)
  show "entry_present (protected prot w) = entry_present w" "frame_of (protected prot w) = frame_of w"
    using low by (simp_all add: protected_def)
  then show "protected prot (protected prot w) = protected prot w" using low(2) by (simp add: protected_def)
  show "entry_present w \<Longrightarrow> protected prot w AND PTE_USER = 0" using low(3) by (simp add: protected_def PTE_USER_def)
qed


lemma not_low_mask: "NOT 0xFFF = (0xFFFFF000 :: u32)"
  by simp

text \<open>The directory that \<open>paging_get_pte\<close> reads, and the place of the entry of an address.\<close>

definition consulted :: "vm \<Rightarrow> u32" where
  "consulted m = VIRT_TO_PHYS (if current_directory m \<noteq> 0 then current_directory m else kernel_directory m)"

definition has_slot :: "vm \<Rightarrow> u32 \<Rightarrow> u32 \<Rightarrow> nat \<Rightarrow> bool" where
  "has_slot m v a j \<longleftrightarrow> entry_present (frames m (consulted m) (pd_index v))
     \<and> a = frame_of (frames m (consulted m) (pd_index v)) \<and> j = pt_index v"

lemma protect_page_frames:
  assumes "current_directory m \<noteq> 0 \<or> kernel_directory m \<noteq> 0"
  shows "frames (protect_page (prot_flags prot) v m) a j
      = (if has_slot m v a j then protected prot (frames m a j) else frames m a j)"
    "current_directory (protect_page (prot_flags prot) v m) = current_directory m"
    "kernel_directory (protect_page (prot_flags prot) v m) = kernel_directory m"
    "cr3 (protect_page (prot_flags prot) v m) = cr3 m"
proof -
  let ?e = "frames m (consulted m) (pd_index v)"
  have g: "paging_get_pte v m = (if entry_present ?e then Some (frame_of ?e, pt_index v) else None)"
    using assms by (auto simp: paging_get_pte_def consulted_def Let_def)
  show "frames (protect_page (prot_flags prot) v m) a j
      = (if has_slot m v a j then protected prot (frames m a j) else frames m a j)"
    unfolding protect_page_def g has_slot_def not_low_mask
    by (simp add: protected_def PTE_PRESENT_def)
  show "current_directory (protect_page (prot_flags prot) v m) = current_directory m"
    "kernel_directory (protect_page (prot_flags prot) v m) = kernel_directory m"
    "cr3 (protect_page (prot_flags prot) v m) = cr3 m"
    by (simp_all add: protect_page_def split: option.splits)
qed

lemma protect_page_keeps:
  assumes "current_directory m \<noteq> 0 \<or> kernel_directory m \<noteq> 0"
    "\<forall>i. entry_present (frames m (consulted m) i) \<longrightarrow> frame_of (frames m (consulted m) i) \<noteq> consulted m"
  defines "m1 \<equiv> \<lambda>prot v. protect_page (prot_flags prot) v m"
  shows "consulted (m1 prot v) = consulted m" "frames (m1 prot v) (consulted m) = frames m (consulted m)"
    "has_slot (m1 prot v) = has_slot m" "current_directory (m1 prot v) \<noteq> 0 \<or> kernel_directory (m1 prot v) \<noteq> 0"
proof -
  note p = protect_page_frames [OF assms(1)]
  show 1: "consulted (m1 prot v) = consulted m" by (simp add: consulted_def p m1_def)
  have ns: "\<not> has_slot m v (consulted m) i" for i using assms(2) by (auto simp: has_slot_def)
  show 2: "frames (m1 prot v) (consulted m) = frames m (consulted m)" by (rule ext) (simp add: p ns m1_def)
  show "has_slot (m1 prot v) = has_slot m" by (intro ext) (simp add: has_slot_def 1 2)
  show "current_directory (m1 prot v) \<noteq> 0 \<or> kernel_directory (m1 prot v) \<noteq> 0"
    using assms(1) by (simp add: p m1_def)
qed

lemma protect_pages_frames:
  assumes "current_directory m \<noteq> 0 \<or> kernel_directory m \<noteq> 0"
    "\<forall>i. entry_present (frames m (consulted m) i) \<longrightarrow> frame_of (frames m (consulted m) i) \<noteq> consulted m"
  shows "frames (fold (protect_page (prot_flags prot)) vs m) a j
      = (if \<exists>v \<in> set vs. has_slot m v a j then protected prot (frames m a j) else frames m a j)"
  using assms
proof (induction vs arbitrary: m)
  case Nil
  then show ?case by simp
next
  case (Cons v vs)
  note st = protect_page_keeps [OF Cons.prems, of prot v]
  have "frames (fold (protect_page (prot_flags prot)) vs (protect_page (prot_flags prot) v m)) a j
    = (if \<exists>v \<in> set vs. has_slot m v a j then protected prot (frames (protect_page (prot_flags prot) v m) a j)
       else frames (protect_page (prot_flags prot) v m) a j)"
    using Cons.IH [OF st(4)] Cons.prems(2) unfolding st(1-3) by blast
  then show ?case using protect_page_frames(1) [OF Cons.prems(1), of prot v a j] protected_simps(3) by auto
qed

subsection \<open>Properties\<close>

text \<open>
  \<open>mprotect\<close> rewrites exactly the present entries of the pages in the range, in the
  directory \<open>current_directory\<close> names: the frame stays, the page is present and it is writable
  when \<open>PROT_WRITE\<close> is asked for. The user bit is cleared, so the process loses the page; no right
  but writing is ever removed. \<open>pd_switch\<close> sets \<open>cr3\<close> only, so for a process whose directory is not
  \<open>current_directory\<close> and shares no table with it, the call reports success and leaves its mappings alone.
\<close>

theorem mprotect_effect:
  assumes "addr \<noteq> 0" "addr AND 0xFFF = 0" "len \<noteq> 0" "current_directory m \<noteq> 0 \<or> kernel_directory m \<noteq> 0"
    and "\<forall>i. entry_present (frames m (consulted m) i) \<longrightarrow> frame_of (frames m (consulted m) i) \<noteq> consulted m"
  shows "\<exists>m'. sys_mprotect addr len prot m = (0, m')
    \<and> (\<forall>v \<in> set (pages_from addr (unat ((len + 0xFFF) div 0x1000))). entry_present (pte m (consulted m) v) \<longrightarrow>
         pte m' (consulted m) v = frame_of (pte m (consulted m) v) OR (if prot AND 2 \<noteq> 0 then 3 else 1)
         \<and> pte m' (consulted m) v AND PTE_USER = 0)
    \<and> (\<forall>pd. pd \<noteq> consulted m \<and> (\<forall>i k. entry_present (frames m pd i) \<and> entry_present (frames m (consulted m) k) \<longrightarrow>
            frame_of (frames m pd i) \<noteq> frame_of (frames m (consulted m) k) \<and> pd \<noteq> frame_of (frames m (consulted m) k))
         \<longrightarrow> (\<forall>v. entry_present (frames m pd (pd_index v)) \<longrightarrow> pte m' pd v = pte m pd v))"
proof -
  define vs where "vs = pages_from addr (unat ((len + 0xFFF) div 0x1000))"
  define m' where "m' = fold (protect_page (prot_flags prot)) vs m"
  have f: "frames m' a j = (if \<exists>v \<in> set vs. has_slot m v a j then protected prot (frames m a j) else frames m a j)" for a j
    unfolding m'_def by (rule protect_pages_frames [OF assms(4,5)])
  have dir: "frames m' (consulted m) i = frames m (consulted m) i" for i
  proof -
    have "\<not> has_slot m v (consulted m) i" for v using assms(5) by (auto simp: has_slot_def)
    then show ?thesis using f by simp
  qed
  have call: "sys_mprotect addr len prot m = (0, m')"
    using assms(1-3) by (simp add: sys_mprotect_def m'_def vs_def)
  have in_range: "pte m' (consulted m) v = protected prot (pte m (consulted m) v)"
    if "v \<in> set vs" "entry_present (pte m (consulted m) v)" for v
  proof -
    have p: "entry_present (frames m (consulted m) (pd_index v))" using that(2) by (auto simp: pte_def split: if_splits)
    have "has_slot m v (frame_of (frames m (consulted m) (pd_index v))) (pt_index v)" using p by (simp add: has_slot_def)
    then show ?thesis using p that(1) f unfolding pte_def dir by auto
  qed
  have other: "pte m' pd v = pte m pd v"
    if "pd \<noteq> consulted m" "\<forall>i k. entry_present (frames m pd i) \<and> entry_present (frames m (consulted m) k) \<longrightarrow>
            frame_of (frames m pd i) \<noteq> frame_of (frames m (consulted m) k) \<and> pd \<noteq> frame_of (frames m (consulted m) k)"
      "entry_present (frames m pd (pd_index v))" for pd v
  proof -
    have "\<not> has_slot m w pd i" "\<not> has_slot m w (frame_of (frames m pd (pd_index v))) i" for w i
      using that(2,3) by (auto simp: has_slot_def)
    then show ?thesis by (simp add: pte_def f)
  qed
  show ?thesis
    using call in_range other protected_simps(4) unfolding vs_def [symmetric]
    by (intro exI [of _ m'] conjI ballI allI impI) (auto simp: protected_def prot_flags_cases)
qed

text \<open>
  \<open>posix_memalign\<close>. When the padded request does not wrap and the block lies inside the
  address space, the pointer is a multiple of the alignment, leaves room for the hidden word
  above the start of the block and \<open>size\<close> bytes below its end.
\<close>

theorem posix_memalign_bounds:
  assumes "4 \<le> alignment" "alignment AND (alignment - 1) = 0" "sz \<noteq> 0"
    and "alloc (memalign_total alignment sz) = raw" "raw \<noteq> 0"
    and "unat raw + unat sz + unat alignment + 3 < 2 ^ 32"
  shows "\<exists>p. sys_posix_memalign alloc True alignment sz = (0, Some p, Some (p - 4, raw))
    \<and> unat p mod unat alignment = 0 \<and> unat raw + 4 \<le> unat p
    \<and> unat p + unat sz \<le> unat raw + unat (memalign_total alignment sz)"
proof -
  have nz: "alignment \<noteq> 0" using assms(1) by auto
  obtain k where k: "k < 32" "alignment = push_bit k 1" using power_of_two_word [OF assms(2) nz] by blast
  have u: "unat alignment = 2 ^ k" using unat_exp_u32 [OF k(1)] by (simp add: k(2) push_bit_eq_mult)
  have v: "unat (align_up alignment raw) = (unat raw + 3 + 2 ^ k) div 2 ^ k * 2 ^ k"
    unfolding k(2) by (rule align_up_value) (use assms(6) u k(1) in simp_all)
  have t: "unat (memalign_total alignment sz) = unat sz + unat alignment + 3"
  proof -
    have m: "memalign_total alignment sz = sz + alignment + 3" by (simp add: memalign_total_def)
    have "unat (sz + alignment) = unat sz + unat alignment" using assms(6) by (intro unat_add_small) simp
    then show ?thesis unfolding m using assms(6) unat_add_small [of "sz + alignment" 3] by simp
  qed
  have "4 \<le> (2 :: nat) ^ k" using assms(1) u by (simp add: word_le_nat_alt)
  have lo: "unat raw + 3 < (unat raw + 3 + 2 ^ k) div 2 ^ k * 2 ^ k"
  proof -
    define n where "n = unat raw + 3 + 2 ^ k"
    have "n mod 2 ^ k < 2 ^ k" by simp
    moreover have "n div 2 ^ k * 2 ^ k + n mod 2 ^ k = n" by (rule div_mult_mod_eq)
    ultimately have "unat raw + 3 < n div 2 ^ k * 2 ^ k" unfolding n_def by linarith
    then show ?thesis by (simp only: n_def)
  qed
  have hi: "(unat raw + 3 + 2 ^ k) div 2 ^ k * 2 ^ k \<le> unat raw + 3 + 2 ^ k" by (rule div_times_less_eq_dividend)
  have call: "sys_posix_memalign alloc True alignment sz = (0, Some (align_up alignment raw), Some (align_up alignment raw - 4, raw))"
    using assms(1-5) by (simp add: sys_posix_memalign_def Let_def not_less)
  have "unat (align_up alignment raw) + unat sz \<le> unat raw + unat (memalign_total alignment sz)"
    unfolding v t u using hi by linarith
  then show ?thesis
    by (intro exI [of _ "align_up alignment raw"]) (use call v lo u in simp)
qed

subsection \<open>Witnesses\<close>

text \<open>The page table of the running process, of which the boot directory knows nothing.\<close>

theorem mprotect_effect_witness:
  "\<exists>m'. sys_mprotect 0x4B005000 0x1000 1 demo_vm = (0, m') \<and> pte m' 0x2000 0x4B005000 = 0x4007"
proof -
  have i: "pd_index 0x4B005000 = 300" "pt_index 0x4B005000 = 5" by code_simp+
  have d: "current_directory demo_vm \<noteq> 0 \<or> kernel_directory demo_vm \<noteq> 0" "consulted demo_vm = 0x1000"
    by (simp_all add: demo_vm_def consulted_def VIRT_TO_PHYS_def)
  have n: "\<forall>i. entry_present (frames demo_vm (consulted demo_vm) i) \<longrightarrow> frame_of (frames demo_vm (consulted demo_vm) i) \<noteq> consulted demo_vm"
    by (simp add: d(2) demo_vm_entry)
  have p: "pte demo_vm 0x2000 0x4B005000 = 0x4007" by (simp add: pte_def i demo_vm_entry)
  obtain m' where m': "sys_mprotect 0x4B005000 0x1000 1 demo_vm = (0, m')"
      "\<And>pd. pd \<noteq> consulted demo_vm \<and> (\<forall>i k. entry_present (frames demo_vm pd i) \<and> entry_present (frames demo_vm (consulted demo_vm) k) \<longrightarrow>
            frame_of (frames demo_vm pd i) \<noteq> frame_of (frames demo_vm (consulted demo_vm) k) \<and> pd \<noteq> frame_of (frames demo_vm (consulted demo_vm) k))
         \<Longrightarrow> \<forall>v. entry_present (frames demo_vm pd (pd_index v)) \<longrightarrow> pte m' pd v = pte demo_vm pd v"
    using mprotect_effect [OF _ _ _ d(1) n, of "0x4B005000" "0x1000" 1] by auto
  have "pte m' 0x2000 0x4B005000 = pte demo_vm 0x2000 0x4B005000"
    using m'(2) [of "0x2000"] by (simp add: d(2) demo_vm_entry i)
  then show ?thesis using m'(1) p by auto
qed

theorem posix_memalign_bounds_witness:
  "\<exists>p. sys_posix_memalign (\<lambda>_. 0x1004) True 64 100 = (0, Some p, Some (p - 4, 0x1004)) \<and> unat p mod 64 = 0"
  using posix_memalign_bounds [of 64 100 "\<lambda>_. 0x1004" "0x1004"] by auto

end
