(* ===== verification/Tty.thy ===== *)
theory Tty
  imports Fifo_Interface Process
begin

text \<open>
  Terminals, \<open>tty.cpp\<close>, and pseudo terminals, \<open>pty.cpp\<close>. The output side of a terminal is a
  callback (\<open>write_callback\<close>): here a function on the state \<open>'o\<close> of the output device and the
  kernel. An array store outside its bounds is \<open>None\<close>. A read is one round: the characters, or
  \<open>None\<close> as the first component when the caller sleeps.
\<close>

abbreviation TTY_BUFFER_SIZE :: nat where "TTY_BUFFER_SIZE \<equiv> 256"
abbreviation PTY_BUFFER_SIZE :: nat where "PTY_BUFFER_SIZE \<equiv> 4096"

definition TTY_ECHO :: u32 where "TTY_ECHO = 1"
definition TTY_CANON :: u32 where "TTY_CANON = 2"
definition TTY_ISIG :: u32 where "TTY_ISIG = 4"

text \<open>A ring with a count, as both the terminal input and the pseudo terminal have it.\<close>

record cring =
  c_buffer :: string
  c_head :: nat
  c_tail :: nat
  c_count :: nat

definition cring_put :: "nat \<Rightarrow> char \<Rightarrow> cring \<Rightarrow> cring option" where
  "cring_put n ch r =
     (if c_count r < n
      then Some (r\<lparr>c_buffer := (c_buffer r)[c_head r := ch], c_head := (c_head r + 1) mod n, c_count := c_count r + 1\<rparr>)
      else None)"

definition cring_get :: "nat \<Rightarrow> cring \<Rightarrow> (char \<times> cring) option" where
  "cring_get n r =
     (if c_count r > 0
      then Some (c_buffer r ! c_tail r, r\<lparr>c_tail := (c_tail r + 1) mod n, c_count := c_count r - 1\<rparr>)
      else None)"

record tty =
  t_input :: cring
  line_buffer :: string
  line_len :: nat
  line_ready :: bool
  t_flags :: u32
  read_wait :: wait_queue
  fg_pgid :: u32

type_synonym 'o tty_output = "string \<Rightarrow> 'o \<Rightarrow> kst \<Rightarrow> (int \<times> 'o \<times> kst) option"

subsection \<open>tty.cpp\<close>

definition zero_chars :: "nat \<Rightarrow> string" where "zero_chars n = replicate n (CHR 0x00)"

definition empty_cring :: "nat \<Rightarrow> cring" where
  "empty_cring n = \<lparr>c_buffer = zero_chars n, c_head = 0, c_tail = 0, c_count = 0\<rparr>"

definition new_tty :: "u32 \<Rightarrow> tty" where
  "new_tty pg = \<lparr>t_input = empty_cring TTY_BUFFER_SIZE, line_buffer = zero_chars TTY_BUFFER_SIZE, line_len = 0,
     line_ready = False, t_flags = TTY_ECHO OR TTY_CANON OR TTY_ISIG, read_wait = [], fg_pgid = pg\<rparr>"

definition tty_init :: tty where "tty_init = new_tty 1"

text \<open>The console: every character goes to the serial line.\<close>

definition serial_tty_write :: "string tty_output" where
  "serial_tty_write cs line s = Some (int (length cs), line @ cs, s)"

definition tty_write :: "'o tty_output option \<Rightarrow> string \<Rightarrow> 'o \<Rightarrow> kst \<Rightarrow> (int \<times> 'o \<times> kst) option" where
  "tty_write callback cs dev s = (case callback of None \<Rightarrow> Some (- 1, dev, s) | Some f \<Rightarrow> f cs dev s)"

text \<open>\<open>resumed\<close> holds when the reader of a raw terminal has slept once.\<close>

definition tty_read :: "bool \<Rightarrow> nat \<Rightarrow> tty \<Rightarrow> kst \<Rightarrow> (string option \<times> tty \<times> kst) option" where
  "tty_read resumed len t s =
     (if t_flags t AND TTY_CANON \<noteq> 0
      then if \<not> line_ready t
           then do { (wq, s1) \<leftarrow> sleep_on True (read_wait t) s; Some (None, t\<lparr>read_wait := wq\<rparr>, s1) }
           else Some (Some (take (if len < line_len t then len else line_len t) (line_buffer t)),
                      t\<lparr>line_len := 0, line_ready := False\<rparr>, s)
      else if c_count (t_input t) = 0 \<and> \<not> resumed
           then do { (wq, s1) \<leftarrow> sleep_on True (read_wait t) s; Some (None, t\<lparr>read_wait := wq\<rparr>, s1) }
           else (let (cs, r) = pop_all (cring_get TTY_BUFFER_SIZE) len (t_input t)
                 in Some (Some cs, t\<lparr>t_input := r\<rparr>, s)))"

definition line_store :: "nat \<Rightarrow> char \<Rightarrow> tty \<Rightarrow> tty option" where
  "line_store i ch t = (if i < TTY_BUFFER_SIZE then Some (t\<lparr>line_buffer := (line_buffer t)[i := ch]\<rparr>) else None)"

text \<open>Control-C goes to the processes whose identifier is \<open>fg_pgid\<close>.\<close>

definition interrupt_foreground :: "tty \<Rightarrow> kst \<Rightarrow> kst option" where
  "interrupt_foreground t s =
     (if ready_queue s = 0 then Some s
      else map_option snd (ring_update (\<lambda>_ q. pid q = fg_pgid t)
             (\<lambda>q. q\<lparr>pending_signals := pending_signals q OR sigbit 2\<rparr>) (ready_queue s) (ready_queue s) False s))"

definition tty_canonical :: "char \<Rightarrow> tty \<Rightarrow> kst \<Rightarrow> (tty \<times> kst) option" where
  "tty_canonical ch t s =
     (if ch = CHR 0x08 \<or> ch = CHR 0x7F
      then Some (if line_len t > 0 then t\<lparr>line_len := line_len t - 1\<rparr> else t, s)
      else if ch = CHR 0x0D \<or> ch = CHR 0x0A
      then do {
        t1 \<leftarrow> line_store (line_len t) (CHR 0x0A) t;
        let t2 = t1\<lparr>line_len := line_len t + 1\<rparr>;
        t3 \<leftarrow> line_store (line_len t2) (CHR 0x00) t2;
        (wq, s1) \<leftarrow> wake_up (read_wait t3) s;
        Some (t3\<lparr>line_ready := True, read_wait := wq\<rparr>, s1) }
      else if line_len t < TTY_BUFFER_SIZE - 1
      then do { t1 \<leftarrow> line_store (line_len t) ch t; Some (t1\<lparr>line_len := line_len t + 1\<rparr>, s) }
      else Some (t, s))"

definition tty_raw :: "char \<Rightarrow> tty \<Rightarrow> kst \<Rightarrow> (tty \<times> kst) option" where
  "tty_raw ch t s = (case cring_put TTY_BUFFER_SIZE ch (t_input t) of
       None \<Rightarrow> Some (t, s)
     | Some r \<Rightarrow> do { (wq, s1) \<leftarrow> wake_up (read_wait t) s; Some (t\<lparr>t_input := r, read_wait := wq\<rparr>, s1) })"

definition tty_input_char :: "'o tty_output option \<Rightarrow> char \<Rightarrow> tty \<Rightarrow> 'o \<Rightarrow> kst \<Rightarrow> (tty \<times> 'o \<times> kst) option" where
  "tty_input_char callback ch t dev s =
     (if t_flags t AND TTY_ISIG \<noteq> 0 \<and> ch = CHR 0x03
      then do { s1 \<leftarrow> interrupt_foreground t s; Some (t, dev, s1) }
      else do {
        (r, dev1, s1) \<leftarrow> (if t_flags t AND TTY_ECHO \<noteq> 0
            then tty_write callback [if ch = CHR 0x0D then CHR 0x0A else ch] dev s
            else Some (0, dev, s));
        (t1, s2) \<leftarrow> (if t_flags t AND TTY_CANON \<noteq> 0 then tty_canonical ch t s1 else tty_raw ch t s1);
        Some (t1, dev1, s2) })"

definition tty_set_flags :: "u32 \<Rightarrow> tty \<Rightarrow> tty" where
  "tty_set_flags flags t = t\<lparr>t_flags := flags\<rparr>"

subsection \<open>pty.cpp\<close>

record pty_fifo =
  f_ring :: cring
  f_wait :: wait_queue

record pty =
  pty_id :: nat
  master_to_slave :: pty_fifo
  slave_to_master :: pty_fifo
  slave_tty :: tty
  master_open :: bool
  slave_open :: bool
  master_nonblock :: bool
  slave_nonblock :: bool

definition pty_fifo_write :: "string \<Rightarrow> pty_fifo \<Rightarrow> kst \<Rightarrow> (int \<times> pty_fifo \<times> kst) option" where
  "pty_fifo_write cs f s =
     (let (n, r) = push_all (cring_put PTY_BUFFER_SIZE) cs (f_ring f);
          f1 = f\<lparr>f_ring := r\<rparr>
      in if n > 0 then do { (wq, s1) \<leftarrow> wake_up (f_wait f) s; Some (int n, f1\<lparr>f_wait := wq\<rparr>, s1) }
         else Some (int n, f1, s))"

text \<open>The error of a non-blocking read is \<open>Inl\<close>; \<open>Inr None\<close> means that the reader sleeps.\<close>

definition pty_fifo_read :: "bool \<Rightarrow> nat \<Rightarrow> bool \<Rightarrow> pty_fifo \<Rightarrow> kst \<Rightarrow> ((int + string option) \<times> pty_fifo \<times> kst) option" where
  "pty_fifo_read resumed len nonblock f s =
     (if c_count (f_ring f) = 0 \<and> \<not> resumed
      then if nonblock then Some (Inl (- 11), f, s)
           else do { (wq, s1) \<leftarrow> sleep_on True (f_wait f) s; Some (Inr None, f\<lparr>f_wait := wq\<rparr>, s1) }
      else (let (cs, r) = pop_all (cring_get PTY_BUFFER_SIZE) len (f_ring f)
            in Some (Inr (Some cs), f\<lparr>f_ring := r\<rparr>, s)))"

text \<open>Output of the slave side goes to the master.\<close>

definition pty_slave_tty_write :: "pty_fifo tty_output" where
  "pty_slave_tty_write cs f s = pty_fifo_write cs f s"

definition pty_master_read :: "bool \<Rightarrow> nat \<Rightarrow> pty \<Rightarrow> kst \<Rightarrow> ((int + string option) \<times> pty \<times> kst) option" where
  "pty_master_read resumed len p s = do {
     (r, f, s1) \<leftarrow> pty_fifo_read resumed len (master_nonblock p) (slave_to_master p) s;
     Some (r, p\<lparr>slave_to_master := f\<rparr>, s1) }"

fun pty_master_write :: "string \<Rightarrow> pty \<Rightarrow> kst \<Rightarrow> (pty \<times> kst) option" where
  "pty_master_write [] p s = Some (p, s)"
| "pty_master_write (ch # cs) p s = do {
     (t, f, s1) \<leftarrow> tty_input_char (Some pty_slave_tty_write) ch (slave_tty p) (slave_to_master p) s;
     pty_master_write cs (p\<lparr>slave_tty := t, slave_to_master := f\<rparr>) s1 }"

definition pty_slave_read :: "bool \<Rightarrow> nat \<Rightarrow> pty \<Rightarrow> kst \<Rightarrow> (string option \<times> pty \<times> kst) option" where
  "pty_slave_read resumed len p s = do {
     (r, t, s1) \<leftarrow> tty_read resumed len (slave_tty p) s;
     Some (r, p\<lparr>slave_tty := t\<rparr>, s1) }"

definition pty_slave_write :: "string \<Rightarrow> pty \<Rightarrow> kst \<Rightarrow> (int \<times> pty \<times> kst) option" where
  "pty_slave_write cs p s = do {
     (n, f, s1) \<leftarrow> tty_write (Some pty_slave_tty_write) cs (slave_to_master p) s;
     Some (n, p\<lparr>slave_to_master := f\<rparr>, s1) }"

text \<open>\<open>arg\<close> is \<open>argp && *(int *)argp\<close>; the side is told by the third letter of the node's name.\<close>

definition pty_ioctl :: "bool \<Rightarrow> nat \<Rightarrow> bool \<Rightarrow> pty \<Rightarrow> int \<times> pty" where
  "pty_ioctl is_master request arg p =
     (if request = 0x5421
      then (0, if is_master then p\<lparr>master_nonblock := arg\<rparr> else p\<lparr>slave_nonblock := arg\<rparr>)
      else (- 22, p))"

text \<open>The table maps a slot to its pty; closing the second side frees it.\<close>

type_synonym pty_table = "nat \<Rightarrow> pty option"

abbreviation MAX_PTYS :: nat where "MAX_PTYS \<equiv> 16"

definition pty_close :: "bool \<Rightarrow> nat \<Rightarrow> pty_table \<Rightarrow> pty_table" where
  "pty_close is_master i tab = (case tab i of None \<Rightarrow> tab
     | Some p \<Rightarrow>
         (let p1 = (if is_master then p\<lparr>master_open := False\<rparr> else p\<lparr>slave_open := False\<rparr>)
          in tab(i := (if \<not> master_open p1 \<and> \<not> slave_open p1 then None else Some p1))))"

definition pty_init :: pty_table where "pty_init = (\<lambda>_. None)"

definition pty_is_active :: "pty_table \<Rightarrow> int \<Rightarrow> bool" where
  "pty_is_active tab i \<longleftrightarrow> i \<ge> 0 \<and> i < int MAX_PTYS \<and> tab (nat i) \<noteq> None"

definition new_pty :: "nat \<Rightarrow> pty" where
  "new_pty i = \<lparr>pty_id = i,
     master_to_slave = \<lparr>f_ring = empty_cring PTY_BUFFER_SIZE, f_wait = []\<rparr>,
     slave_to_master = \<lparr>f_ring = empty_cring PTY_BUFFER_SIZE, f_wait = []\<rparr>,
     slave_tty = new_tty 0, master_open = True, slave_open = True, master_nonblock = False, slave_nonblock = False\<rparr>"

definition free_pty :: "pty_table \<Rightarrow> nat option" where
  "free_pty tab = find (\<lambda>i. tab i = None) [0 ..< MAX_PTYS]"

definition pty_two_slots :: "process \<Rightarrow> (nat \<times> nat) option" where
  "pty_two_slots c = (case filter (\<lambda>i. fd_table c ! i = 0) [0 ..< MAX_PROCESS_FILES] of
       f1 # f2 # _ \<Rightarrow> Some (f1, f2) | _ \<Rightarrow> None)"

text \<open>A pty that finds no descriptors stays in the table.\<close>

definition sys_pty_create ::
  "u32 \<Rightarrow> u32 \<Rightarrow> u32 \<Rightarrow> u32 \<Rightarrow> pty_table \<Rightarrow> kst \<Rightarrow> (int \<times> (nat \<times> nat) option \<times> pty_table \<times> kst) option" where
  "sys_pty_create n1 n2 d1 d2 tab s = (case free_pty tab of
       None \<Rightarrow> Some (- ENOMEM, None, tab, s)
     | Some i \<Rightarrow> do {
         let tab1 = tab(i \<mapsto> new_pty i);
         c \<leftarrow> procs s (current_process s);
         case pty_two_slots c of
           None \<Rightarrow> Some (- EMFILE, None, tab1, s)
         | Some (mfd, sfd) \<Rightarrow>
             Some (0, Some (mfd, sfd), tab1,
               (set_proc (current_process s) (put_slot sfd d2 (put_slot mfd d1 c)) s)
                 \<lparr>descs := (descs s)(d1 \<mapsto> \<lparr>fd_node = n1, fd_offset = 0, fd_flags = 3, ref_count = 1\<rparr>,
                                    d2 \<mapsto> \<lparr>fd_node = n2, fd_offset = 0, fd_flags = 3, ref_count = 1\<rparr>)\<rparr>) })"

subsection \<open>The ring with a count is a bounded queue\<close>

definition cring_inv :: "nat \<Rightarrow> cring \<Rightarrow> bool" where
  "cring_inv n r \<longleftrightarrow> length (c_buffer r) = n \<and> c_tail r < n \<and> c_count r \<le> n
     \<and> c_head r = (c_tail r + c_count r) mod n"

definition cring_items :: "cring \<Rightarrow> string" where
  "cring_items r = ring_items (c_buffer r) (c_tail r) (c_count r)"

lemma cring_put_room:
  assumes "cring_inv n r" "c_count r < n"
  shows "\<exists>r'. cring_put n x r = Some r' \<and> cring_inv n r' \<and> cring_items r' = cring_items r @ [x]"
proof -
  define r' where "r' = r\<lparr>c_buffer := (c_buffer r)[c_head r := x], c_head := (c_head r + 1) mod n, c_count := c_count r + 1\<rparr>"
  have "cring_inv n r'"
    using assms mod_add_left_eq [of "c_tail r + c_count r" n 1] by (simp add: cring_inv_def r'_def)
  moreover have "cring_items r' = cring_items r @ [x]"
    using assms ring_items_put [of "c_count r" "c_buffer r" "c_tail r" x]
    by (simp add: cring_items_def r'_def cring_inv_def)
  ultimately show ?thesis using assms(2) by (simp add: cring_put_def r'_def)
qed

lemma cring_get_first:
  assumes "cring_inv n r" "cring_items r = x # xs"
  shows "\<exists>r'. cring_get n r = Some (x, r') \<and> cring_inv n r' \<and> cring_items r' = xs"
proof -
  define r' where "r' = r\<lparr>c_tail := (c_tail r + 1) mod n, c_count := c_count r - 1\<rparr>"
  obtain m where m: "c_count r = Suc m" using assms(2) by (cases "c_count r") (auto simp: cring_items_def)
  have i: "length (c_buffer r) = n" "c_tail r < n" "c_head r = (c_tail r + Suc m) mod n" "Suc m \<le> n"
    using assms(1) m by (simp_all add: cring_inv_def)
  have "c_head r = ((c_tail r + 1) mod n + m) mod n" using i(3) by (simp add: mod_add_left_eq)
  then have "cring_inv n r'" using i m by (simp add: cring_inv_def r'_def)
  moreover have "x # xs = c_buffer r ! c_tail r # cring_items r'"
    using assms(2) ring_items_Suc [of "c_tail r" "c_buffer r" m] i m by (simp add: cring_items_def r'_def)
  ultimately show ?thesis using m by (simp add: cring_get_def r'_def)
qed

interpretation cring_fifo: fifo "cring_inv n" cring_items n "cring_put n" "cring_get n" for n
proof
  fix r :: cring and x :: char and xs
  assume i: "cring_inv n r"
  have len: "length (cring_items r) = c_count r" by (simp add: cring_items_def)
  show "cring_put n x r = None" if "n \<le> length (cring_items r)" using that by (simp add: len cring_put_def)
  show "\<exists>s'. cring_put n x r = Some s' \<and> cring_inv n s' \<and> cring_items s' = cring_items r @ [x]"
    if "length (cring_items r) < n" using cring_put_room [OF i] that by (simp add: len)
  show "cring_get n r = None" if "cring_items r = []" using that len by (simp add: cring_get_def)
  show "\<exists>s'. cring_get n r = Some (x, s') \<and> cring_inv n s' \<and> cring_items s' = xs" if "cring_items r = x # xs"
    using cring_get_first [OF i that] .
qed

lemma empty_cring_inv: "0 < n \<Longrightarrow> cring_inv n (empty_cring n) \<and> cring_items (empty_cring n) = []"
  by (simp add: cring_inv_def cring_items_def empty_cring_def zero_chars_def)

subsection \<open>A line on the console\<close>

fun console_feed :: "string \<Rightarrow> tty \<Rightarrow> string \<Rightarrow> kst \<Rightarrow> (tty \<times> string \<times> kst) option" where
  "console_feed [] t line s = Some (t, line, s)"
| "console_feed (ch # cs) t line s = do {
     (t1, line1, s1) \<leftarrow> tty_input_char (Some serial_tty_write) ch t line s;
     console_feed cs t1 line1 s1 }"

lemma console_feed_append:
  "console_feed (xs @ ys) t line s = do { (t1, line1, s1) \<leftarrow> console_feed xs t line s; console_feed ys t1 line1 s1 }"
proof (induction xs arbitrary: t line s)
  case (Cons x xs)
  then show ?case by (cases "tty_input_char (Some serial_tty_write) x t line s") (auto simp: split_def)
qed simp

definition ordinary :: "char \<Rightarrow> bool" where
  "ordinary ch \<longleftrightarrow> ch \<notin> {CHR 0x03, CHR 0x08, CHR 0x0A, CHR 0x0D, CHR 0x7F}"

definition console_mode :: "tty \<Rightarrow> bool" where
  "console_mode t \<longleftrightarrow> t_flags t = (TTY_ECHO OR TTY_CANON OR TTY_ISIG) \<and> length (line_buffer t) = TTY_BUFFER_SIZE
     \<and> line_len t \<le> TTY_BUFFER_SIZE - 1"

lemma console_flags: "console_mode t \<Longrightarrow> t_flags t AND TTY_ECHO \<noteq> 0 \<and> t_flags t AND TTY_CANON \<noteq> 0 \<and> t_flags t AND TTY_ISIG \<noteq> 0"
  by (simp add: console_mode_def TTY_ECHO_def TTY_CANON_def TTY_ISIG_def)

lemma console_ordinary:
  assumes "console_mode t" "ordinary ch"
  shows "tty_input_char (Some serial_tty_write) ch t line s
    = Some (if line_len t < TTY_BUFFER_SIZE - 1
            then t\<lparr>line_buffer := (line_buffer t)[line_len t := ch], line_len := line_len t + 1\<rparr> else t, line @ [ch], s)"
  using assms console_flags [OF assms(1)]
  by (simp add: tty_input_char_def tty_write_def serial_tty_write_def tty_canonical_def line_store_def ordinary_def)

lemma console_newline:
  assumes "console_mode t"
  shows "tty_input_char (Some serial_tty_write) (CHR 0x0A) t line s
    = (if line_len t < TTY_BUFFER_SIZE - 1
       then do { (wq, s1) \<leftarrow> wake_up (read_wait t) s;
         Some (t\<lparr>line_buffer := (line_buffer t)[line_len t := CHR 0x0A, line_len t + 1 := CHR 0x00],
                 line_len := line_len t + 1, line_ready := True, read_wait := wq\<rparr>, line @ [CHR 0x0A], s1) }
       else None)"
proof -
  have "tty_canonical (CHR 0x0A) t s = (if line_len t < TTY_BUFFER_SIZE - 1
       then do { (wq, s1) \<leftarrow> wake_up (read_wait t) s;
         Some (t\<lparr>line_buffer := (line_buffer t)[line_len t := CHR 0x0A, line_len t + 1 := CHR 0x00],
                 line_len := line_len t + 1, line_ready := True, read_wait := wq\<rparr>, s1) }
       else None)"
    using assms by (cases "wake_up (read_wait t) s") (auto simp: tty_canonical_def line_store_def console_mode_def Let_def)
  then show ?thesis
    using console_flags [OF assms]
    by (cases "wake_up (read_wait t) s") (auto simp: tty_input_char_def tty_write_def serial_tty_write_def)
qed

lemma console_typing:
  assumes "console_mode t" "\<forall>ch \<in> set cs. ordinary ch"
  shows "\<exists>t'. console_feed cs t line s = Some (t', line @ cs, s) \<and> console_mode t'
    \<and> line_len t' = min (TTY_BUFFER_SIZE - 1) (line_len t + length cs) \<and> read_wait t' = read_wait t
    \<and> take (line_len t') (line_buffer t') = take (TTY_BUFFER_SIZE - 1) (take (line_len t) (line_buffer t) @ cs)"
  using assms
proof (induction cs arbitrary: t line)
  case Nil
  then show ?case by (auto simp: console_mode_def min_def)
next
  case (Cons ch cs)
  define t1 where "t1 = (if line_len t < TTY_BUFFER_SIZE - 1
      then t\<lparr>line_buffer := (line_buffer t)[line_len t := ch], line_len := line_len t + 1\<rparr> else t)"
  have st: "tty_input_char (Some serial_tty_write) ch t line s = Some (t1, line @ [ch], s)"
    unfolding t1_def using Cons.prems by (intro console_ordinary) simp_all
  have c1: "console_mode t1" "line_len t1 = min (TTY_BUFFER_SIZE - 1) (line_len t + 1)" "read_wait t1 = read_wait t"
    using Cons.prems(1) by (auto simp: t1_def console_mode_def)
  have b1: "take (line_len t1) (line_buffer t1) = take (TTY_BUFFER_SIZE - 1) (take (line_len t) (line_buffer t) @ [ch])"
    using Cons.prems(1) by (auto simp: t1_def console_mode_def take_Suc_conv_app_nth min_def)
  obtain t' where t': "console_feed cs t1 (line @ [ch]) s = Some (t', (line @ [ch]) @ cs, s)" "console_mode t'"
      "line_len t' = min (TTY_BUFFER_SIZE - 1) (line_len t1 + length cs)" "read_wait t' = read_wait t1"
      "take (line_len t') (line_buffer t') = take (TTY_BUFFER_SIZE - 1) (take (line_len t1) (line_buffer t1) @ cs)"
    using Cons.IH [OF c1(1)] Cons.prems(2) by fastforce
  have "line_len t' = min (TTY_BUFFER_SIZE - 1) (line_len t + length (ch # cs))" using t'(3) c1(2) by auto
  moreover have "take (TTY_BUFFER_SIZE - 1) (take (line_len t1) (line_buffer t1) @ cs)
      = take (TTY_BUFFER_SIZE - 1) (take (line_len t) (line_buffer t) @ ch # cs)"
    unfolding b1 by (simp add: take_Cons' min_def)
  ultimately show ?case using st t' c1(3) by auto
qed

subsection \<open>Property\<close>

text \<open>
  C15. A line of ordinary characters typed on the console is echoed, and is what \<open>tty_read\<close>
  returns with its newline, when it has at most 254 characters. With 255 or more the newline
  is stored in the last cell and its terminating 0 behind the end of the buffer.
\<close>

theorem tty_line_bounds:
  assumes "console_mode t" "line_len t = 0" "\<forall>ch \<in> set cs. ordinary ch" "wake_up (read_wait t) s = Some (wq, s1)"
  shows "(length cs \<le> 254 \<longrightarrow> (\<exists>t'. console_feed (cs @ [CHR 0x0A]) t line s = Some (t', line @ cs @ [CHR 0x0A], s1)
        \<and> tty_read False len t' s1
            = Some (Some (take len (cs @ [CHR 0x0A])), t'\<lparr>line_len := 0, line_ready := False\<rparr>, s1)))
    \<and> (255 \<le> length cs \<longrightarrow> console_feed (cs @ [CHR 0x0A]) t line s = None)"
proof -
  obtain t1 where t1: "console_feed cs t line s = Some (t1, line @ cs, s)" "console_mode t1"
      "line_len t1 = min (TTY_BUFFER_SIZE - 1) (length cs)" "read_wait t1 = read_wait t"
      "take (line_len t1) (line_buffer t1) = take (TTY_BUFFER_SIZE - 1) cs"
    using console_typing [OF assms(1,3), of line s] assms(2) by auto
  have feed: "console_feed (cs @ [CHR 0x0A]) t line s = tty_input_char (Some serial_tty_write) (CHR 0x0A) t1 (line @ cs) s"
    using t1(1) by (cases "tty_input_char (Some serial_tty_write) (CHR 0x0A) t1 (line @ cs) s")
      (auto simp: console_feed_append)
  have long: "console_feed (cs @ [CHR 0x0A]) t line s = None" if "255 \<le> length cs"
    using that t1(3) unfolding feed console_newline [OF t1(2)] by simp
  have short: "\<exists>t'. console_feed (cs @ [CHR 0x0A]) t line s = Some (t', line @ cs @ [CHR 0x0A], s1)
        \<and> tty_read False len t' s1
            = Some (Some (take len (cs @ [CHR 0x0A])), t'\<lparr>line_len := 0, line_ready := False\<rparr>, s1)"
    if le: "length cs \<le> 254"
  proof -
    have n: "line_len t1 = length cs" using t1(3) le by simp
    define b where "b = (line_buffer t1)[length cs := CHR 0x0A, length cs + 1 := CHR 0x00]"
    define t' where "t' = t1\<lparr>line_buffer := b, line_len := length cs + 1, line_ready := True, read_wait := wq\<rparr>"
    have len1: "length (line_buffer t1) = TTY_BUFFER_SIZE" using t1(2) by (simp add: console_mode_def)
    have "take (length cs + 1) b = take (length cs) (line_buffer t1) @ [CHR 0x0A]"
      using le len1 by (simp add: b_def take_Suc_conv_app_nth)
    also have "take (length cs) (line_buffer t1) = cs" using t1(5) n le by simp
    finally have b: "take (length cs + 1) b = cs @ [CHR 0x0A]" .
    have "console_feed (cs @ [CHR 0x0A]) t line s = Some (t', line @ cs @ [CHR 0x0A], s1)"
      unfolding feed console_newline [OF t1(2)] using le n t1(4) assms(4) by (simp add: t'_def b_def)
    moreover have tk: "take (if len < length cs + 1 then len else length cs + 1) b = take len (cs @ [CHR 0x0A])"
      unfolding b [symmetric] by (simp add: min_def)
    have "t_flags t' AND TTY_CANON \<noteq> 0" "line_ready t'" "line_len t' = length cs + 1" "line_buffer t' = b"
      using console_flags [OF t1(2)] by (simp_all add: t'_def)
    then have "tty_read False len t' s1
        = Some (Some (take len (cs @ [CHR 0x0A])), t'\<lparr>line_len := 0, line_ready := False\<rparr>, s1)"
      unfolding tty_read_def using tk by presburger
    ultimately show ?thesis by blast
  qed
  show ?thesis using long short by blast
qed

theorem tty_line_bounds_witness:
  "(\<exists>t'. console_feed (''ls'' @ [CHR 0x0A]) tty_init [] demo_kst = Some (t', ''ls'' @ [CHR 0x0A], demo_kst)
      \<and> tty_read False 80 t' demo_kst = Some (Some (''ls'' @ [CHR 0x0A]), t'\<lparr>line_len := 0, line_ready := False\<rparr>, demo_kst))
    \<and> console_feed (replicate 255 (CHR ''x'') @ [CHR 0x0A]) tty_init [] demo_kst = None"
proof -
  have i: "console_mode tty_init" "line_len tty_init = 0" "read_wait tty_init = []"
    by (simp_all add: console_mode_def tty_init_def new_tty_def zero_chars_def)
  have w: "wake_up (read_wait tty_init) demo_kst = Some ([], demo_kst)" by (simp add: i(3))
  have o: "\<forall>ch \<in> set ''ls''. ordinary ch" "\<forall>ch \<in> set (replicate 255 (CHR ''x'')). ordinary ch"
    by (simp_all add: ordinary_def)
  show ?thesis
    using tty_line_bounds [OF i(1,2) o(1) w, of "[]" 80] tty_line_bounds [OF i(1,2) o(2) w, of "[]" 80] by simp
qed

end
