(* ===== verification/Cstring.thy ===== *)
theory Cstring
  imports Prelude
begin

text \<open>
  The C string and memory functions of \<open>lib/string.cpp\<close> over a byte memory with 32-bit
  pointers, and \<open>atoi\<close> of \<open>devfs.cpp\<close>. Loops that run to a terminating zero are partial functions:
  \<open>None\<close> is a loop that does not end. A loop \<open>while (count--)\<close> entered with a negative count is
  one of those. Strings in memory are related to lists by \<open>cstr\<close>.
\<close>

type_synonym mem = "u32 \<Rightarrow> u8"

subsection \<open>Copying and filling\<close>

partial_function (option) copy_bytes :: "mem \<Rightarrow> u32 \<Rightarrow> u32 \<Rightarrow> int \<Rightarrow> mem option" where
  "copy_bytes m d s n = (if n = 0 then Some m else copy_bytes (m(d := m s)) (d + 1) (s + 1) (n - 1))"

definition copy_word :: "mem \<Rightarrow> u32 \<Rightarrow> u32 \<Rightarrow> mem" where
  "copy_word m d s = m(d := m s, d + 1 := m (s + 1), d + 2 := m (s + 2), d + 3 := m (s + 3))"

function copy_words :: "mem \<Rightarrow> u32 \<Rightarrow> u32 \<Rightarrow> int \<Rightarrow> mem \<times> u32 \<times> u32 \<times> int" where
  "copy_words m d s n = (if n \<ge> 4 then copy_words (copy_word m d s) (d + 4) (s + 4) (n - 4) else (m, d, s, n))"
  by pat_completeness auto
termination by (relation "measure (\<lambda>(_, _, _, n). nat n)") auto

declare copy_words.simps [simp del]

text \<open>The result is the returned pointer and the memory.\<close>

definition memcpy :: "mem \<Rightarrow> u32 \<Rightarrow> u32 \<Rightarrow> int \<Rightarrow> (u32 \<times> mem) option" where
  "memcpy m dest src count =
     (let (m1, d, s, n) =
        (if count \<ge> 4 \<and> dest AND 3 = 0 \<and> src AND 3 = 0 then copy_words m dest src count
         else (m, dest, src, count))
      in map_option (\<lambda>m2. (d, m2)) (copy_bytes m1 d s n))"

partial_function (option) set_bytes :: "mem \<Rightarrow> u32 \<Rightarrow> u8 \<Rightarrow> int \<Rightarrow> mem option" where
  "set_bytes m d v n = (if n = 0 then Some m else set_bytes (m(d := v)) (d + 1) v (n - 1))"

definition memset :: "mem \<Rightarrow> u32 \<Rightarrow> u8 \<Rightarrow> int \<Rightarrow> (u32 \<times> mem) option" where
  "memset m dest v count = map_option (\<lambda>m1. (dest, m1)) (set_bytes m dest v count)"

partial_function (option) memcmp :: "mem \<Rightarrow> u32 \<Rightarrow> u32 \<Rightarrow> int \<Rightarrow> int option" where
  "memcmp m p1 p2 n =
     (if n = 0 then Some 0
      else if m p1 \<noteq> m p2 then Some (uint (m p1) - uint (m p2))
      else memcmp m (p1 + 1) (p2 + 1) (n - 1))"

subsection \<open>Strings\<close>

partial_function (option) strlen_from :: "mem \<Rightarrow> u32 \<Rightarrow> nat \<Rightarrow> nat option" where
  "strlen_from m p len = (if m (p + of_nat len) = 0 then Some len else strlen_from m p (Suc len))"

definition strlen :: "mem \<Rightarrow> u32 \<Rightarrow> nat option" where
  "strlen m p = strlen_from m p 0"

partial_function (option) strcpy_loop :: "mem \<Rightarrow> u32 \<Rightarrow> u32 \<Rightarrow> mem option" where
  "strcpy_loop m d s =
     (if m s = 0 then Some (m(d := m s)) else strcpy_loop (m(d := m s)) (d + 1) (s + 1))"

definition strcpy :: "mem \<Rightarrow> u32 \<Rightarrow> u32 \<Rightarrow> (u32 \<times> mem) option" where
  "strcpy m dest src = map_option (\<lambda>m1. (dest, m1)) (strcpy_loop m dest src)"

partial_function (option) strcmp :: "mem \<Rightarrow> u32 \<Rightarrow> u32 \<Rightarrow> int option" where
  "strcmp m s1 s2 =
     (if m s1 \<noteq> 0 \<and> m s1 = m s2 then strcmp m (s1 + 1) (s2 + 1)
      else Some (uint (m s1) - uint (m s2)))"

partial_function (option) strcat_loop :: "mem \<Rightarrow> u32 \<Rightarrow> u32 \<Rightarrow> mem option" where
  "strcat_loop m p s =
     (if m s = 0 then Some (m(p := 0)) else strcat_loop (m(p := m s)) (p + 1) (s + 1))"

definition strcat :: "mem \<Rightarrow> u32 \<Rightarrow> u32 \<Rightarrow> (u32 \<times> mem) option" where
  "strcat m dest src =
     (case strlen m dest of None \<Rightarrow> None
      | Some len \<Rightarrow> map_option (\<lambda>m1. (dest, m1)) (strcat_loop m (dest + of_nat len) src))"

text \<open>
  The first loop of \<open>strncpy\<close> stops at \<open>n = 0\<close> or behind the terminating zero, which it stores
  without counting it.
\<close>

function strncpy_copy :: "mem \<Rightarrow> u32 \<Rightarrow> u32 \<Rightarrow> int \<Rightarrow> mem \<times> u32 \<times> int" where
  "strncpy_copy m d s n =
     (if n > 0 then
        (if m s = 0 then (m(d := m s), d + 1, n) else strncpy_copy (m(d := m s)) (d + 1) (s + 1) (n - 1))
      else (m, d, n))"
  by pat_completeness auto
termination by (relation "measure (\<lambda>(_, _, _, n). nat n)") auto

function strncpy_pad :: "mem \<Rightarrow> u32 \<Rightarrow> int \<Rightarrow> mem" where
  "strncpy_pad m d n = (if n > 0 then strncpy_pad (m(d := 0)) (d + 1) (n - 1) else m)"
  by pat_completeness auto
termination by (relation "measure (\<lambda>(_, _, n). nat n)") auto

declare strncpy_copy.simps [simp del] strncpy_pad.simps [simp del]

definition strncpy :: "mem \<Rightarrow> u32 \<Rightarrow> u32 \<Rightarrow> int \<Rightarrow> u32 \<times> mem" where
  "strncpy m dest src n = (let (m1, d, k) = strncpy_copy m dest src n in (dest, strncpy_pad m1 d k))"

function strncmp :: "mem \<Rightarrow> u32 \<Rightarrow> u32 \<Rightarrow> int \<Rightarrow> int" where
  "strncmp m s1 s2 n =
     (if n > 0 \<and> m s1 \<noteq> 0 \<and> m s1 = m s2 then strncmp m (s1 + 1) (s2 + 1) (n - 1)
      else if n = 0 then 0 else uint (m s1) - uint (m s2))"
  by pat_completeness auto
termination by (relation "measure (\<lambda>(_, _, _, n). nat n)") auto

declare strncmp.simps [simp del]

partial_function (option) strrchr_from :: "mem \<Rightarrow> u32 \<Rightarrow> u8 \<Rightarrow> u32 \<Rightarrow> u32 option" where
  "strrchr_from m s c last1 =
     (let l = (if m s = c then s else last1)
      in if m s = 0 then Some l else strrchr_from m (s + 1) c l)"

definition strrchr :: "mem \<Rightarrow> u32 \<Rightarrow> u8 \<Rightarrow> u32 option" where
  "strrchr m s c = strrchr_from m s c 0"

text \<open>
  \<open>strncpy\<close> of \<open>userlib.h\<close> counts with an unsigned word: \<open>while (n-- && ...)\<close> leaves \<open>2 ^ 32 - 1\<close>
  when it stops because the count is used up.
\<close>

function u_strncpy_copy :: "mem \<Rightarrow> u32 \<Rightarrow> u32 \<Rightarrow> u32 \<Rightarrow> mem \<times> u32 \<times> u32" where
  "u_strncpy_copy m d s n =
     (if n = 0 then (m, d, n - 1)
      else if m s = 0 then (m(d := m s), d + 1, n - 1)
      else u_strncpy_copy (m(d := m s)) (d + 1) (s + 1) (n - 1))"
  by pat_completeness auto
termination by (relation "measure (\<lambda>(_, _, _, n). unat n)") (auto simp: unat_pred_small unat_gt_0)

function u_strncpy_pad :: "mem \<Rightarrow> u32 \<Rightarrow> u32 \<Rightarrow> mem" where
  "u_strncpy_pad m d n = (if n = 0 then m else u_strncpy_pad (m(d := 0)) (d + 1) (n - 1))"
  by pat_completeness auto
termination by (relation "measure (\<lambda>(_, _, n). unat n)") (auto simp: unat_pred_small unat_gt_0)

declare u_strncpy_copy.simps [simp del] u_strncpy_pad.simps [simp del]

definition u_strncpy :: "mem \<Rightarrow> u32 \<Rightarrow> u32 \<Rightarrow> u32 \<Rightarrow> u32 \<times> mem" where
  "u_strncpy m dest src n = (let (m1, d, k) = u_strncpy_copy m dest src n in (dest, u_strncpy_pad m1 d k))"

subsection \<open>Numbers\<close>

text \<open>The buffer of \<open>itoa\<close> is a list; \<open>reverse\<close> swaps in place.\<close>

function reverse :: "u8 list \<Rightarrow> nat \<Rightarrow> nat \<Rightarrow> u8 list" where
  "reverse arr i j = (if i < j then reverse (arr[i := arr ! j, j := arr ! i]) (i + 1) (j - 1) else arr)"
  by pat_completeness auto
termination by (relation "measure (\<lambda>(_, i, j). j)") auto

declare reverse.simps [simp del]

definition digit_char :: "int \<Rightarrow> u8" where
  "digit_char r = word_of_int (if r > 9 then r - 10 + 97 else r + 48)"

partial_function (option) itoa_digits :: "int \<Rightarrow> int \<Rightarrow> u8 list \<Rightarrow> u8 list option" where
  "itoa_digits num base acc =
     (if num = 0 then Some acc
      else if base = 0 then None
      else itoa_digits (sgn num * sgn base * (\<bar>num\<bar> div \<bar>base\<bar>)) base
             (acc @ [digit_char (sgn num * (\<bar>num\<bar> mod \<bar>base\<bar>))]))"

text \<open>
  The characters in front of the terminating zero. Negation wraps at the smallest \<open>int\<close>; division
  and remainder truncate.
\<close>

definition itoa :: "int \<Rightarrow> int \<Rightarrow> u8 list option" where
  "itoa num base =
     (if num = 0 then Some [48]
      else let neg = (num < 0 \<and> base = 10);
               k = (if neg then (if num = - (2 ^ 31) then num else - num) else num)
        in case itoa_digits k base [] of None \<Rightarrow> None
           | Some ds \<Rightarrow> (let str = ds @ (if neg then [45] else []) in Some (reverse str 0 (length str - 1))))"

text \<open>\<open>atoi\<close> of \<open>devfs.cpp\<close>: the value modulo \<open>2 ^ 32\<close>, read as an \<open>int\<close>; characters are signed.\<close>

definition devfs_atoi :: "u8 list \<Rightarrow> int" where
  "devfs_atoi cs = sint (foldl (\<lambda>res c. res * 10 + word_of_int (sint c) - 48) (0 :: u32) cs)"

text \<open>\<open>itoa\<close>, \<open>utoa\<close>, \<open>atoi\<close> and \<open>format_num\<close> of \<open>userlib.h\<close>; an \<open>int\<close> is the word of its bits.\<close>

partial_function (option) utoa_digits :: "u32 \<Rightarrow> u32 \<Rightarrow> u8 list \<Rightarrow> u8 list option" where
  "utoa_digits w base acc =
     (if base = 0 then None
      else if w div base = 0 then Some (acc @ [digit_char (sint (w mod base))])
      else utoa_digits (w div base) base (acc @ [digit_char (sint (w mod base))]))"

definition u_utoa :: "u32 \<Rightarrow> u32 \<Rightarrow> u8 list option" where
  "u_utoa w base = map_option (\<lambda>ds. reverse ds 0 (length ds - 1)) (utoa_digits w base [])"

definition u_itoa :: "u32 \<Rightarrow> u32 \<Rightarrow> u8 list option" where
  "u_itoa v base =
     (if base = 10 \<and> sint v < 0 then map_option (\<lambda>ds. 45 # ds) (u_utoa (- v) base) else u_utoa v base)"

definition isspace :: "u8 \<Rightarrow> bool" where
  "isspace c \<longleftrightarrow> c = 32 \<or> c = 9 \<or> c = 10 \<or> c = 13 \<or> c = 12 \<or> c = 11"

definition isdigit :: "u8 \<Rightarrow> bool" where
  "isdigit c \<longleftrightarrow> sint c \<ge> 48 \<and> sint c \<le> 57"

definition atoi_value :: "u8 list \<Rightarrow> u32" where
  "atoi_value cs = foldl (\<lambda>res c. res * 10 + word_of_int (sint c - 48)) 0 (takeWhile isdigit cs)"

definition u_atoi :: "u8 list \<Rightarrow> u32" where
  "u_atoi cs =
     (case dropWhile isspace cs of
        [] \<Rightarrow> 0
      | c # ds \<Rightarrow> (if c = 45 then - atoi_value ds else if c = 43 then atoi_value ds else atoi_value (c # ds)))"

primrec format_num :: "int \<Rightarrow> nat \<Rightarrow> u8 list" where
  "format_num v 0 = []"
| "format_num v (Suc w) =
     format_num (sgn v * (\<bar>v\<bar> div 10)) w @ [word_of_int (48 + sgn v * (\<bar>v\<bar> mod 10))]"

subsection \<open>Strings in memory\<close>

primrec cstr :: "mem \<Rightarrow> u32 \<Rightarrow> u8 list \<Rightarrow> bool" where
  "cstr m p [] \<longleftrightarrow> m p = 0"
| "cstr m p (c # cs) \<longleftrightarrow> c \<noteq> 0 \<and> m p = c \<and> cstr m (p + 1) cs"

definition store_bytes :: "mem \<Rightarrow> u32 \<Rightarrow> u8 list \<Rightarrow> mem" where
  "store_bytes m d bs = (\<lambda>a. if unat (a - d) < length bs then bs ! unat (a - d) else m a)"

definition load_bytes :: "mem \<Rightarrow> u32 \<Rightarrow> nat \<Rightarrow> u8 list" where
  "load_bytes m s n = map (\<lambda>i. m (s + of_nat i)) [0 ..< n]"

lemma store_bytes_Nil [simp]: "store_bytes m d [] = m"
  by (simp add: store_bytes_def)

lemma unat_eq_Suc:
  fixes x :: u32
  assumes "x \<noteq> 0" shows "unat x = Suc (unat (x - 1))"
proof -
  have "unat x \<noteq> 0" using assms by (simp add: unat_eq_0)
  then have "unat (x - 1) = unat x - 1" by (intro unat_pred_small) simp
  then show ?thesis using \<open>unat x \<noteq> 0\<close> by simp
qed

lemma store_bytes_Cons:
  assumes "length bs < 4294967296"
  shows "store_bytes m d (b # bs) = store_bytes (m(d := b)) (d + 1) bs"
proof
  fix a
  show "store_bytes m d (b # bs) a = store_bytes (m(d := b)) (d + 1) bs a"
  proof (cases "a = d")
    case True
    have "unat (- 1 :: u32) = 4294967295" by (rule unat_m1_u32)
    moreover have "d - (d + 1) = - 1" by simp
    ultimately show ?thesis using assms True by (simp add: store_bytes_def)
  next
    case False
    then have "unat (a - d) = Suc (unat (a - d - 1))" by (intro unat_eq_Suc) simp
    moreover have "a - (d + 1) = a - d - 1" by simp
    ultimately show ?thesis using False unfolding store_bytes_def by (simp only: list.size nth_Cons_Suc fun_upd_apply if_False) simp
  qed
qed

subsection \<open>\<open>memcpy\<close>\<close>

lemmas copy_bytes_rec = copy_bytes.simps

lemma copy_bytes_0 [simp]: "copy_bytes m d s 0 = Some m"
  by (subst copy_bytes_rec) simp

lemma copy_bytes_step: "n \<noteq> 0 \<Longrightarrow> copy_bytes m d s n = copy_bytes (m(d := m s)) (d + 1) (s + 1) (n - 1)"
  by (subst copy_bytes_rec) simp

lemma aligned_step:
  fixes d :: u32
  assumes "d AND 3 = 0" "s AND 3 = 0" "0 < k" "k < 4"
  shows "d \<noteq> s + k" "(d + 4) AND 3 = 0"
proof -
  have mask: "x AND 3 = 0 \<longleftrightarrow> unat x mod 4 = 0" for x :: u32
    using unat_and_mask [of x 2] by (auto simp: mask_eq_exp_minus_1 word_unat_eq_iff)
  have m: "unat d mod 4 = 0" "unat s mod 4 = 0" using assms(1,2) by (simp_all only: mask)
  have plus: "unat (x + y) mod 4 = (unat x + unat y) mod 4" for x y :: u32
    by (simp add: unat_word_ariths mod_mod_cancel)
  have "unat (s + k) mod 4 = unat k mod 4" using m(2) by (metis plus mod_add_left_eq add_0)
  moreover have "0 < unat k" "unat k < 4"
    using assms(3,4) by (simp_all add: word_less_nat_alt)
  ultimately show "d \<noteq> s + k" using m(1) by auto
  show "(d + 4) AND 3 = 0" using m(1) plus [of d 4] by (simp add: mask)
qed

lemma copy_word_bytes:
  assumes "d AND 3 = 0" "s AND 3 = 0"
  shows "m(d := m s, d + 1 := (m(d := m s)) (s + 1),
           d + 2 := (m(d := m s, d + 1 := (m(d := m s)) (s + 1))) (s + 2),
           d + 3 := (m(d := m s, d + 1 := (m(d := m s)) (s + 1),
                       d + 2 := (m(d := m s, d + 1 := (m(d := m s)) (s + 1))) (s + 2))) (s + 3))
         = copy_word m d s"
proof -
  have ne: "d \<noteq> s + 1" "d \<noteq> s + 2" "d \<noteq> s + 3"
    using aligned_step(1) [OF assms, of 1] aligned_step(1) [OF assms, of 2] aligned_step(1) [OF assms, of 3] by simp_all
  have "d + 1 \<noteq> s + 2" "d + 1 \<noteq> s + 3" "d + 2 \<noteq> s + 3"
  proof -
    show "d + 1 \<noteq> s + 2"
    proof
      assume "d + 1 = s + 2"
      then have "d = s + 2 - 1" by (metis add_diff_cancel_right')
      then show False using ne(1) by simp
    qed
    show "d + 1 \<noteq> s + 3"
    proof
      assume "d + 1 = s + 3"
      then have "d = s + 3 - 1" by (metis add_diff_cancel_right')
      then show False using ne(2) by simp
    qed
    show "d + 2 \<noteq> s + 3"
    proof
      assume "d + 2 = s + 3"
      then have "d = s + 3 - 2" by (metis add_diff_cancel_right')
      then show False using ne(1) by simp
    qed
  qed
  then show ?thesis using ne by (simp add: copy_word_def fun_eq_iff)
qed

lemma copy_bytes_word:
  assumes "d AND 3 = 0" "s AND 3 = 0" "n \<ge> 4"
  shows "copy_bytes m d s n = copy_bytes (copy_word m d s) (d + 4) (s + 4) (n - 4)"
proof -
  have "copy_bytes m d s n = copy_bytes (m(d := m s)) (d + 1) (s + 1) (n - 1)"
    using assms(3) by (intro copy_bytes_step) simp
  also have "\<dots> = copy_bytes (m(d := m s, d + 1 := (m(d := m s)) (s + 1))) (d + 2) (s + 2) (n - 2)"
    using assms(3) by (subst copy_bytes_step) (simp_all add: add.assoc)
  also have "\<dots> = copy_bytes (m(d := m s, d + 1 := (m(d := m s)) (s + 1),
           d + 2 := (m(d := m s, d + 1 := (m(d := m s)) (s + 1))) (s + 2))) (d + 3) (s + 3) (n - 3)"
    using assms(3) by (subst copy_bytes_step) (simp_all add: add.assoc)
  also have "\<dots> = copy_bytes (copy_word m d s) (d + 4) (s + 4) (n - 4)"
    using assms(3) by (subst copy_bytes_step) (simp_all only: copy_word_bytes [OF assms(1,2)], simp_all add: add.assoc)
  finally show ?thesis .
qed

lemma copy_words_spec:
  assumes "d AND 3 = 0" "s AND 3 = 0" "0 \<le> n" "copy_words m d s n = (m1, d1, s1, n1)"
  shows "copy_bytes m1 d1 s1 n1 = copy_bytes m d s n" "d1 = d + of_int (n div 4 * 4)"
proof -
  have "copy_bytes m1 d1 s1 n1 = copy_bytes m d s n \<and> d1 = d + of_int (n div 4 * 4)"
    using assms
  proof (induction m d s n rule: copy_words.induct)
    case (1 m d s n)
    show ?case
    proof (cases "n \<ge> 4")
      case True
      have "copy_words (copy_word m d s) (d + 4) (s + 4) (n - 4) = (m1, d1, s1, n1)"
        using 1(5) True by (simp add: copy_words.simps [of m d s n])
      moreover have "(d + 4) AND 3 = 0" "(s + 4) AND 3 = 0"
        using aligned_step(2) [of d s 1] aligned_step(2) [of s d 1] 1(2,3) by simp_all
      ultimately have "copy_bytes m1 d1 s1 n1 = copy_bytes (copy_word m d s) (d + 4) (s + 4) (n - 4)"
          "d1 = d + 4 + of_int ((n - 4) div 4 * 4)"
        using 1(1) [OF True] True by auto
      moreover have "(n - 4) div 4 * 4 = n div 4 * 4 - 4"
        by presburger
      ultimately show ?thesis using copy_bytes_word [OF 1(2,3) True] by simp
    next
      case False
      then have "n div 4 = 0" using 1(4) by simp
      then show ?thesis using 1(5) False by (simp add: copy_words.simps [of m d s n])
    qed
  qed
  then show "copy_bytes m1 d1 s1 n1 = copy_bytes m d s n" "d1 = d + of_int (n div 4 * 4)" by auto
qed

text \<open>
  C16. The word-wise fast path of \<open>memcpy\<close> leaves the same memory as the byte loop, for every
  length and every overlap; but the pointer it returns is not the destination: it is the address
  behind the last whole word copied.
\<close>

theorem memcpy_fast_path_equiv:
  "map_option snd (memcpy m d s n) = copy_bytes m d s n
   \<and> map_option fst (memcpy m d s n) =
       map_option (\<lambda>_. if n \<ge> 4 \<and> d AND 3 = 0 \<and> s AND 3 = 0 then d + of_int (n div 4 * 4) else d) (copy_bytes m d s n)"
proof (cases "n \<ge> 4 \<and> d AND 3 = 0 \<and> s AND 3 = 0")
  case True
  obtain m1 d1 s1 n1 where c: "copy_words m d s n = (m1, d1, s1, n1)" by (cases "copy_words m d s n")
  have "copy_bytes m1 d1 s1 n1 = copy_bytes m d s n" "d1 = d + of_int (n div 4 * 4)"
    using copy_words_spec [OF _ _ _ c] True by auto
  then show ?thesis using True by (cases "copy_bytes m d s n") (simp_all add: memcpy_def c)
next
  case False
  then show ?thesis by (cases "copy_bytes m d s n") (auto simp: memcpy_def)
qed

subsection \<open>Bytes as lists\<close>

lemma load_bytes_simps [simp]: "length (load_bytes m s n) = n" "load_bytes m s 0 = []"
  by (simp_all add: load_bytes_def)

lemma load_bytes_Suc: "load_bytes m s (Suc n) = m s # load_bytes m (s + 1) n"
proof -
  have "m (s + of_nat (Suc i)) = m (s + 1 + of_nat i)" for i by (simp add: add.assoc)
  then show ?thesis by (simp add: load_bytes_def upt_conv_Cons map_Suc_upt [symmetric] del: upt_Suc of_nat_Suc)
qed

text \<open>Writes do not reach the bytes still to be read when the destination is not inside the source.\<close>

definition no_clobber :: "u32 \<Rightarrow> u32 \<Rightarrow> nat \<Rightarrow> bool" where
  "no_clobber d s n \<longleftrightarrow> d = s \<or> n \<le> unat (d - s)"

lemma no_clobber_nth:
  assumes "no_clobber d s n" "n < 4294967296" "0 < i" "i < n"
  shows "d \<noteq> s + of_nat i"
proof
  assume d: "d = s + of_nat i"
  have "unat (of_nat i :: u32) = i" using assms by (intro unat_of_nat_u32) simp
  then have "unat (d - s) = i" using d by simp
  then show False using assms by (auto simp: no_clobber_def)
qed

lemma load_bytes_upd:
  assumes "no_clobber d s (Suc n)" "Suc n < 4294967296"
  shows "load_bytes (m(d := x)) (s + 1) n = load_bytes m (s + 1) n"
proof -
  have "d \<noteq> s + 1 + of_nat i" if "i < n" for i
    using no_clobber_nth [OF assms(1,2), of "Suc i"] that by (simp add: add.assoc)
  then show ?thesis unfolding load_bytes_def by (intro map_cong refl fun_upd_other) (metis atLeastLessThan_iff set_upt)
qed

lemma no_clobber_Suc: "no_clobber d s (Suc n) \<Longrightarrow> no_clobber (d + 1) (s + 1) n"
  by (auto simp: no_clobber_def)

lemma copy_bytes_spec:
  assumes "no_clobber d s n" "n < 4294967296"
  shows "copy_bytes m d s (int n) = Some (store_bytes m d (load_bytes m s n))"
  using assms
proof (induction n arbitrary: m d s)
  case 0
  then show ?case by simp
next
  case (Suc n)
  have "copy_bytes m d s (int (Suc n)) = copy_bytes (m(d := m s)) (d + 1) (s + 1) (int n)"
    by (subst copy_bytes_step) simp_all
  also have "\<dots> = Some (store_bytes (m(d := m s)) (d + 1) (load_bytes m (s + 1) n))"
    using Suc.IH [OF no_clobber_Suc [OF Suc.prems(1)]] Suc.prems load_bytes_upd [OF Suc.prems] by simp
  also have "\<dots> = Some (store_bytes m d (load_bytes m s (Suc n)))"
    using Suc.prems(2) by (simp add: load_bytes_Suc store_bytes_Cons)
  finally show ?case .
qed

lemma set_bytes_spec:
  "n < 4294967296 \<Longrightarrow> set_bytes m d v (int n) = Some (store_bytes m d (replicate n v))"
proof (induction n arbitrary: m d)
  case 0
  then show ?case by (subst set_bytes.simps) simp
next
  case (Suc n)
  have "set_bytes m d v (int (Suc n)) = set_bytes (m(d := v)) (d + 1) v (int n)"
    by (subst set_bytes.simps) simp
  then show ?case using Suc by (simp add: store_bytes_Cons fun_upd_def)
qed

lemma cstr_strlen_from: "cstr m (p + of_nat k) cs \<Longrightarrow> strlen_from m p k = Some (k + length cs)"
  by (induction cs arbitrary: k) (subst strlen_from.simps, simp add: ac_simps)+

lemma cstr_strlen: "cstr m p cs \<Longrightarrow> strlen m p = Some (length cs)"
  using cstr_strlen_from [of m p 0 cs] by (simp add: strlen_def)

lemma cstr_strcmp:
  "cstr m p cs \<Longrightarrow> cstr m q ds \<Longrightarrow> \<exists>r. strcmp m p q = Some r \<and> (r = 0 \<longleftrightarrow> cs = ds)
     \<and> (r < 0 \<longleftrightarrow> (cs, ds) \<in> lexord {(x, y). x < y})"
proof (induction cs arbitrary: p q ds)
  case Nil
  then show ?case
    by (cases ds; subst strcmp.simps) (auto simp: unsigned_eq_0_iff intro: le_neq_trans)
next
  case (Cons c cs)
  show ?case
  proof (cases ds)
    case Nil
    then show ?thesis using Cons.prems by (subst strcmp.simps) (auto simp: unsigned_eq_0_iff not_less)
  next
    case (Cons d ds')
    show ?thesis
    proof (cases "c = d")
      case True
      obtain r where "strcmp m (p + 1) (q + 1) = Some r" "r = 0 \<longleftrightarrow> cs = ds'"
          "r < 0 \<longleftrightarrow> (cs, ds') \<in> lexord {(x, y). x < y}"
        using Cons.IH [of "p + 1" "q + 1" ds'] Cons.prems Cons by auto
      moreover have "strcmp m p q = strcmp m (p + 1) (q + 1)"
        using Cons.prems Cons True by (subst strcmp.simps) simp
      ultimately show ?thesis using Cons True by simp
    next
      case False
      then have "strcmp m p q = Some (uint c - uint d)" using Cons.prems Cons by (subst strcmp.simps) simp
      moreover have "uint c \<noteq> uint d" using False by (simp add: word_uint_eq_iff)
      ultimately show ?thesis using False Cons by (simp add: word_less_def)
    qed
  qed
qed

subsection \<open>\<open>strncpy\<close>\<close>

lemma store_bytes_append:
  "length xs + length ys < 4294967296 \<Longrightarrow>
   store_bytes (store_bytes m d xs) (d + of_nat (length xs)) ys = store_bytes m d (xs @ ys)"
proof (induction xs arbitrary: m d)
  case (Cons x xs)
  have "store_bytes (store_bytes m d (x # xs)) (d + of_nat (length (x # xs))) ys
      = store_bytes (store_bytes (m(d := x)) (d + 1) xs) (d + 1 + of_nat (length xs)) ys"
    using Cons.prems by (simp add: store_bytes_Cons add.assoc)
  also have "\<dots> = store_bytes m d ((x # xs) @ ys)"
    using Cons by (simp add: store_bytes_Cons)
  finally show ?case .
qed simp

text \<open>The destination does not start inside the string or on its terminator.\<close>

lemma cstr_upd:
  "(\<And>i. i \<le> length cs \<Longrightarrow> d \<noteq> p + of_nat i) \<Longrightarrow> cstr m p cs \<Longrightarrow> cstr (m(d := x)) p cs"
proof (induction cs arbitrary: p)
  case Nil
  then show ?case using Nil.prems(1) [of 0] by simp
next
  case (Cons c cs)
  have "d \<noteq> p + 1 + of_nat i" if "i \<le> length cs" for i
    using Cons.prems(1) [of "Suc i"] that by (simp add: add.assoc)
  moreover have "cstr m (p + 1) cs" using Cons.prems(2) by simp
  ultimately have "cstr (m(d := x)) (p + 1) cs" by (rule Cons.IH)
  then show ?case using Cons.prems(1) [of 0] Cons.prems(2) by (simp add: fun_upd_def)
qed

lemma cstr_step:
  assumes "cstr m s (c # cs)" "no_clobber d s (Suc (Suc (length cs)))" "Suc (Suc (length cs)) < 4294967296"
  shows "cstr (m(d := x)) (s + 1) cs"
proof (rule cstr_upd)
  show "d \<noteq> s + 1 + of_nat i" if "i \<le> length cs" for i
    using no_clobber_nth [OF assms(2,3), of "Suc i"] that by (simp add: add.assoc)
qed (use assms(1) in simp)

definition ncopied :: "nat \<Rightarrow> u8 list \<Rightarrow> u8 list" where
  "ncopied n cs = (if length cs < n then cs @ [0] else take n cs)"

lemma ncopied_simps:
  "ncopied 0 cs = []" "0 < n \<Longrightarrow> ncopied n [] = [0]" "ncopied (Suc n) (c # cs) = c # ncopied n cs"
  by (simp_all add: ncopied_def)

lemma ncopied_length: "length (ncopied n cs) \<le> Suc (length cs)"
  by (simp add: ncopied_def)

lemma strncpy_copy_spec:
  assumes "cstr m s cs" "no_clobber d s (Suc (length cs))" "Suc (length cs) < 4294967296"
  shows "strncpy_copy m d s (int n) =
    (store_bytes m d (ncopied n cs), d + of_nat (length (ncopied n cs)), int (n - length cs))"
  using assms
proof (induction n arbitrary: m d s cs)
  case 0
  then show ?case by (simp add: strncpy_copy.simps [of m d s] ncopied_simps)
next
  case (Suc n)
  show ?case
  proof (cases cs)
    case Nil
    then have "m s = 0" using Suc.prems by simp
    then show ?thesis using Nil
      by (simp add: strncpy_copy.simps [of m d s] ncopied_simps store_bytes_Cons fun_upd_def)
  next
    case (Cons c cs')
    have c: "c \<noteq> 0" "m s = c" using Suc.prems Cons by simp_all
    have st: "cstr (m(d := c)) (s + 1) cs'" "no_clobber (d + 1) (s + 1) (Suc (length cs'))"
      using cstr_step [of m s c cs' d] no_clobber_Suc [of d s] Suc.prems Cons by simp_all
    have len: "length (ncopied n cs') < 4294967296"
      using le_less_trans [OF ncopied_length] Suc.prems(3) Cons by (metis length_Cons Suc_lessD)
    have "strncpy_copy m d s (int (Suc n)) = strncpy_copy (m(d := c)) (d + 1) (s + 1) (int n)"
      using c by (simp add: strncpy_copy.simps [of m d s])
    then show ?thesis using Suc.IH [OF st] Suc.prems(3) Cons len
      by (simp add: ncopied_simps store_bytes_Cons add.assoc fun_upd_def)
  qed
qed

lemma strncpy_pad_spec: "n < 4294967296 \<Longrightarrow> strncpy_pad m d (int n) = store_bytes m d (replicate n 0)"
proof (induction n arbitrary: m d)
  case 0
  then show ?case by (simp add: strncpy_pad.simps [of m d])
next
  case (Suc n)
  have "strncpy_pad m d (int (Suc n)) = strncpy_pad (m(d := 0)) (d + 1) (int n)"
    by (simp add: strncpy_pad.simps [of m d])
  then show ?case using Suc by (simp add: store_bytes_Cons fun_upd_def)
qed

lemma strncpy_spec:
  assumes "cstr m s cs" "no_clobber d s (Suc (length cs))" "Suc (length cs) < 4294967296" "n < 4294967290"
  shows "strncpy m d s (int n) =
    (d, store_bytes m d (if length cs < n then cs @ replicate (Suc (n - length cs)) 0 else take n cs))"
proof -
  have len: "length (ncopied n cs) + (n - length cs) < 4294967296"
    using assms(3,4) by (auto simp: ncopied_def)
  have "strncpy m d s (int n) = (d, store_bytes m d (ncopied n cs @ replicate (n - length cs) 0))"
    using strncpy_copy_spec [OF assms(1-3), of n] len
    by (simp add: strncpy_def strncpy_pad_spec store_bytes_append)
  then show ?thesis by (auto simp: ncopied_def)
qed

lemma cstr_nonzero: "cstr m p cs \<Longrightarrow> \<forall>c \<in> set cs. c \<noteq> 0"
  by (induction cs arbitrary: p) auto

lemma load_store: "length bs < 4294967296 \<Longrightarrow> load_bytes (store_bytes m d bs) d (length bs) = bs"
  by (rule nth_equalityI) (simp_all add: load_bytes_def store_bytes_def unat_of_nat_u32)

lemma cstr_iff_load: "cstr m p cs \<longleftrightarrow> (\<forall>c \<in> set cs. c \<noteq> 0) \<and> load_bytes m p (Suc (length cs)) = cs @ [0]"
  by (induction cs arbitrary: p) (auto simp: load_bytes_Suc)

lemma load_bytes_take: "k \<le> n \<Longrightarrow> load_bytes m p k = take k (load_bytes m p n)"
  by (simp add: load_bytes_def take_map)

lemma cstr_store:
  assumes "\<forall>c \<in> set cs. c \<noteq> 0" "length cs + length ys < 4294967295" "hd (ys @ [1]) = 0"
  shows "cstr (store_bytes m d (cs @ ys)) d cs"
proof -
  obtain zs where ys: "ys = 0 # zs" using assms(3) by (cases ys) auto
  have "load_bytes (store_bytes m d (cs @ ys)) d (Suc (length cs))
      = take (Suc (length cs)) (load_bytes (store_bytes m d (cs @ ys)) d (length (cs @ ys)))"
    by (rule load_bytes_take) (simp add: ys)
  also have "\<dots> = cs @ [0]" using load_store [of "cs @ ys" m d] assms(2) by (simp add: ys)
  finally show ?thesis using assms(1) by (simp add: cstr_iff_load)
qed

text \<open>
  \<open>strncpy\<close> of a string shorter than the limit writes one byte more than the limit: the string,
  its terminator and a padding that does not count the terminator. The byte behind the buffer of
  \<open>n\<close> bytes becomes 0. A string of at least \<open>n\<close> characters is cut to \<open>n\<close> bytes, without a terminator.
\<close>

theorem strncpy_writes_past_limit:
  fixes n :: nat
  assumes "cstr m s cs" "no_clobber d s (Suc (length cs))" "Suc (length cs) < 4294967296" "n < 4294967290"
  defines "m' \<equiv> snd (strncpy m d s (int n))"
  shows "(length cs < n \<longrightarrow> cstr m' d cs \<and> m' (d + of_nat n) = 0
           \<and> (\<forall>a. unat (a - d) > n \<longrightarrow> m' a = m a))
       \<and> (n \<le> length cs \<longrightarrow> load_bytes m' d n = take n cs \<and> (\<forall>a. unat (a - d) \<ge> n \<longrightarrow> m' a = m a))"
proof -
  have m': "m' = store_bytes m d (if length cs < n then cs @ replicate (Suc (n - length cs)) 0 else take n cs)"
    using strncpy_spec [OF assms(1-4)] by (simp add: m'_def)
  have nz: "\<forall>c \<in> set cs. c \<noteq> 0" using assms(1) by (rule cstr_nonzero)
  show ?thesis
  proof (cases "length cs < n")
    case True
    have "unat (of_nat n :: u32) = n" using assms(4) by (intro unat_of_nat_u32) simp
    then have "m' (d + of_nat n) = 0" using True by (simp add: m' store_bytes_def nth_append)
    moreover have "cstr m' d cs"
      using cstr_store [of cs "0 # replicate (n - length cs) 0" m d] nz assms(3,4) True by (simp add: m')
    ultimately show ?thesis using True by (auto simp: m' store_bytes_def)
  next
    case False
    then show ?thesis using assms(3) load_store [of "take n cs" m d] by (auto simp: m' store_bytes_def)
  qed
qed

theorem strncpy_writes_past_limit_witness:
  "let m = (\<lambda>a. if a = 16 then 65 else if a = 17 then 0 else 7 :: u8) in
   cstr (snd (strncpy m 32 16 4)) 32 [65] \<and> snd (strncpy m 32 16 4) 36 = 0 \<and> m 36 = 7"
proof -
  let ?m = "\<lambda>a. if a = 16 then 65 else if a = 17 then 0 else 7 :: u8"
  have "cstr ?m 16 [65]" "no_clobber 32 16 (Suc (length [65 :: u8]))" by (simp_all add: no_clobber_def)
  from strncpy_writes_past_limit [OF this, of 4] show ?thesis by simp
qed

lemma u_strncpy_pad_spec: "u_strncpy_pad m d n = store_bytes m d (replicate (unat n) 0)"
proof (induction "unat n" arbitrary: m d n)
  case 0
  then have "n = 0" by (simp add: unat_eq_0)
  then show ?case by (simp add: u_strncpy_pad.simps [of m d])
next
  case (Suc k)
  have n: "n \<noteq> 0" using Suc.hyps(2) by auto
  then have k: "unat (n - 1) = k" using unat_eq_Suc [of n] Suc.hyps(2) by simp
  have "u_strncpy_pad m d n = u_strncpy_pad (m(d := 0)) (d + 1) (n - 1)"
    using n by (simp add: u_strncpy_pad.simps [of m d])
  also have "\<dots> = store_bytes (m(d := 0)) (d + 1) (replicate k 0)" using Suc.hyps(1) k by metis
  also have "\<dots> = store_bytes m d (replicate (Suc k) 0)"
    using unat_u32_bound [of n] unfolding Suc.hyps(2) [symmetric] by (simp add: store_bytes_Cons fun_upd_def)
  also have "Suc k = unat n" by (fact Suc.hyps(2))
  finally show ?case .
qed

lemma u_strncpy_copy_full:
  assumes "cstr m s cs" "no_clobber d s (Suc (length cs))" "Suc (length cs) < 4294967296" "unat n \<le> length cs"
  shows "u_strncpy_copy m d s n = (store_bytes m d (take (unat n) cs), d + n, - 1)"
  using assms
proof (induction cs arbitrary: m d s n)
  case Nil
  then have "n = 0" by (simp add: unat_eq_0)
  then show ?case by (simp add: u_strncpy_copy.simps [of m d s])
next
  case (Cons c cs)
  show ?case
  proof (cases "n = 0")
    case True
    then show ?thesis by (simp add: u_strncpy_copy.simps [of m d s])
  next
    case False
    have c: "c \<noteq> 0" "m s = c" using Cons.prems by simp_all
    have st: "cstr (m(d := c)) (s + 1) cs" "no_clobber (d + 1) (s + 1) (Suc (length cs))"
      using cstr_step [of m s c cs d] no_clobber_Suc [of d s] Cons.prems by simp_all
    have k: "unat n = Suc (unat (n - 1))" using False by (rule unat_eq_Suc)
    have "u_strncpy_copy m d s n = u_strncpy_copy (m(d := c)) (d + 1) (s + 1) (n - 1)"
      using c False by (simp add: u_strncpy_copy.simps [of m d s])
    also have "\<dots> = (store_bytes (m(d := c)) (d + 1) (take (unat (n - 1)) cs), d + 1 + (n - 1), - 1)"
      using Cons.prems(3,4) k by (intro Cons.IH [OF st]) simp_all
    also have "\<dots> = (store_bytes m d (take (unat n) (c # cs)), d + n, - 1)"
      using Cons.prems(3) unfolding k take_Suc_Cons by (subst store_bytes_Cons) simp_all
    finally show ?thesis .
  qed
qed

text \<open>
  \<open>strncpy\<close> of the user library, given a string of at least \<open>n\<close> characters, clears the whole
  address space except the last byte it copied: the padding loop runs \<open>2 ^ 32 - 1\<close> times.
\<close>

theorem u_strncpy_clears_memory:
  assumes "cstr m s cs" "no_clobber d s (Suc (length cs))" "Suc (length cs) < 4294967296"
    and "unat n \<le> length cs" "a \<noteq> d + n - 1"
  shows "snd (u_strncpy m d s n) a = 0"
proof -
  have "unat (a - (d + n)) < 4294967295"
  proof (rule ccontr)
    assume "\<not> ?thesis"
    then have "unat (a - (d + n)) = unat (- 1 :: u32)" using unat_u32_bound [of "a - (d + n)"] by simp
    then have "a - (d + n) = - 1" by (simp only: word_unat_eq_iff)
    then have "a = d + n - 1" by (metis add.commute diff_add_cancel uminus_add_conv_diff)
    then show False using assms(5) by contradiction
  qed
  then show ?thesis
    by (simp add: u_strncpy_def u_strncpy_copy_full [OF assms(1-4)] u_strncpy_pad_spec store_bytes_def)
qed

theorem u_strncpy_clears_memory_witness:
  "let m = (\<lambda>a. if a = 16 then 65 else if a = 17 then 0 else 7 :: u8) in
   snd (u_strncpy m 32 16 1) 100 = 0 \<and> m 100 = 7"
proof -
  let ?m = "\<lambda>a. if a = 16 then 65 else if a = 17 then 0 else 7 :: u8"
  have "cstr ?m 16 [65]" "no_clobber 32 16 (Suc (length [65 :: u8]))" by (simp_all add: no_clobber_def)
  from u_strncpy_clears_memory [OF this, of 1 100] show ?thesis by simp
qed

subsection \<open>\<open>strcpy\<close> and \<open>strcat\<close>\<close>

lemma strcpy_loop_spec:
  assumes "cstr m s cs" "no_clobber d s (Suc (length cs))" "Suc (length cs) < 4294967296"
  shows "strcpy_loop m d s = Some (store_bytes m d (cs @ [0]))"
  using assms
proof (induction cs arbitrary: m d s)
  case Nil
  then show ?case by (subst strcpy_loop.simps) (simp add: store_bytes_Cons fun_upd_def)
next
  case (Cons c cs)
  have st: "cstr (m(d := c)) (s + 1) cs" "no_clobber (d + 1) (s + 1) (Suc (length cs))"
    using cstr_step [of m s c cs d] no_clobber_Suc [of d s] Cons.prems by simp_all
  have "strcpy_loop m d s = strcpy_loop (m(d := c)) (d + 1) (s + 1)"
    using Cons.prems by (subst strcpy_loop.simps) simp
  also have "\<dots> = Some (store_bytes (m(d := c)) (d + 1) (cs @ [0]))"
    using Cons.prems(3) by (intro Cons.IH [OF st]) simp
  also have "\<dots> = Some (store_bytes m d ((c # cs) @ [0]))"
    using Cons.prems(3) by (simp add: store_bytes_Cons)
  finally show ?case .
qed

lemma strcat_loop_spec:
  assumes "cstr m s cs" "no_clobber d s (Suc (length cs))" "Suc (length cs) < 4294967296"
  shows "strcat_loop m d s = Some (store_bytes m d (cs @ [0]))"
  using assms
proof (induction cs arbitrary: m d s)
  case Nil
  then show ?case by (subst strcat_loop.simps) (simp add: store_bytes_Cons fun_upd_def)
next
  case (Cons c cs)
  have st: "cstr (m(d := c)) (s + 1) cs" "no_clobber (d + 1) (s + 1) (Suc (length cs))"
    using cstr_step [of m s c cs d] no_clobber_Suc [of d s] Cons.prems by simp_all
  have "strcat_loop m d s = strcat_loop (m(d := c)) (d + 1) (s + 1)"
    using Cons.prems by (subst strcat_loop.simps) simp
  also have "\<dots> = Some (store_bytes (m(d := c)) (d + 1) (cs @ [0]))"
    using Cons.prems(3) by (intro Cons.IH [OF st]) simp
  also have "\<dots> = Some (store_bytes m d ((c # cs) @ [0]))"
    using Cons.prems(3) by (simp add: store_bytes_Cons)
  finally show ?case .
qed

lemma store_bytes_load: "n < 4294967296 \<Longrightarrow> store_bytes m d (load_bytes m d n) = m"
  by (auto simp: store_bytes_def load_bytes_def fun_eq_iff)

lemma strcat_spec:
  assumes "cstr m d xs" "cstr m s ys" "no_clobber (d + of_nat (length xs)) s (Suc (length ys))"
    and "length xs + Suc (length ys) < 4294967295"
  shows "strcat m d s = Some (d, store_bytes m d (xs @ ys @ [0]))"
    and "cstr (store_bytes m d (xs @ ys @ [0])) d (xs @ ys)"
proof -
  have "store_bytes m d xs = m"
    using store_bytes_load [of "length xs" m d] assms(1,4)
      load_bytes_take [of "length xs" "Suc (length xs)" m d] by (simp add: cstr_iff_load)
  then have "store_bytes m (d + of_nat (length xs)) (ys @ [0]) = store_bytes m d (xs @ ys @ [0])"
    using store_bytes_append [of xs "ys @ [0]" m d] assms(4) by simp
  then show "strcat m d s = Some (d, store_bytes m d (xs @ ys @ [0]))"
    using cstr_strlen [OF assms(1)] strcat_loop_spec [OF assms(2,3)] assms(4) by (simp add: strcat_def)
  show "cstr (store_bytes m d (xs @ ys @ [0])) d (xs @ ys)"
    using cstr_store [of "xs @ ys" "[0]"] cstr_nonzero [OF assms(1)] cstr_nonzero [OF assms(2)] assms(4) by auto
qed

subsection \<open>Numbers\<close>

lemma reverse_spec:
  "j < length arr \<Longrightarrow> length (reverse arr i j) = length arr \<and>
   (\<forall>k < length arr. reverse arr i j ! k = (if i \<le> k \<and> k \<le> j then arr ! (i + j - k) else arr ! k))"
proof (induction arr i j rule: reverse.induct)
  case (1 arr i j)
  show ?case
  proof (cases "i < j")
    case True
    let ?a = "arr[i := arr ! j, j := arr ! i]"
    have IH: "length (reverse ?a (i + 1) (j - 1)) = length ?a"
      "\<forall>k < length ?a. reverse ?a (i + 1) (j - 1) ! k
         = (if i + 1 \<le> k \<and> k \<le> j - 1 then ?a ! (i + 1 + (j - 1) - k) else ?a ! k)"
      using 1 True by simp_all
    have "reverse ?a (i + 1) (j - 1) ! k = (if i \<le> k \<and> k \<le> j then arr ! (i + j - k) else arr ! k)"
      if k: "k < length arr" for k
    proof -
      consider "k = i" | "k = j" | "i + 1 \<le> k \<and> k \<le> j - 1" | "k < i \<or> j < k" using True by linarith
      then show ?thesis
      proof cases
        case 3
        then have "i + 1 + (j - 1) - k = i + j - k" "i + j - k \<noteq> i" "i + j - k \<noteq> j" using True by auto
        then show ?thesis using IH(2) k 3 by auto
      qed (use IH(2) k True "1.prems" in auto)
    qed
    then show ?thesis using True IH(1) by (simp add: reverse.simps [of arr i j])
  next
    case False
    then have "arr ! k = arr ! (i + j - k)" if "i \<le> k" "k \<le> j" for k
      using that by (metis add_diff_cancel_left' le_antisym le_trans linorder_not_le)
    then show ?thesis using False by (simp add: reverse.simps [of arr i j])
  qed
qed

lemma reverse_rev: "reverse arr 0 (length arr - 1) = rev arr"
proof (cases "arr = []")
  case True
  then show ?thesis by (simp add: reverse.simps)
next
  case False
  then show ?thesis
    using reverse_spec [of "length arr - 1" arr 0] by (intro nth_equalityI) (auto simp: rev_nth)
qed

text \<open>The digits of a number, lowest first.\<close>

function digits :: "nat \<Rightarrow> nat list" where
  "digits n = n mod 10 # (if n div 10 = 0 then [] else digits (n div 10))"
  by pat_completeness auto
termination by (relation "measure id") auto

declare digits.simps [simp del]

lemma digits_less: "d \<in> set (digits n) \<Longrightarrow> d < 10"
proof (induction n rule: digits.induct)
  case (1 n)
  then show ?case by (auto simp: digits.simps [of n] split: if_splits)
qed

definition dchar :: "nat \<Rightarrow> u8" where
  "dchar d = word_of_nat (d + 48)"

lemma dchar_facts:
  assumes "d < 10"
  shows "sint (dchar d) = int d + 48" "isdigit (dchar d)" "\<not> isspace (dchar d)" "dchar d \<noteq> 45" "dchar d \<noteq> 43" "dchar d \<noteq> 0"
    "digit_char (int d) = dchar d"
proof -
  have "d \<in> {0, 1, 2, 3, 4, 5, 6, 7, 8, 9}" using assms by auto
  then show "sint (dchar d) = int d + 48" "isdigit (dchar d)" "\<not> isspace (dchar d)" "dchar d \<noteq> 45" "dchar d \<noteq> 43" "dchar d \<noteq> 0"
    "digit_char (int d) = dchar d"
    by (auto simp: dchar_def isdigit_def isspace_def digit_char_def)
qed

lemma utoa_digits_10: "utoa_digits w 10 acc = Some (acc @ map dchar (digits (unat w)))"
proof (induction "unat w" arbitrary: w acc rule: less_induct)
  case less
  have m: "unat (w mod 10) = unat w mod 10" "unat (w div 10) = unat w div 10"
    by (simp_all add: unat_mod unat_div)
  have "sint (w mod 10) = int (unat w mod 10)"
  proof -
    have "w mod 10 = word_of_int (int (unat w mod 10))" by (simp flip: m(1))
    moreover have "sint (word_of_int (int r) :: u32) = int r" if "r < 10" for r
      using that by (intro sint_of_int32) simp_all
    then have "sint (word_of_int (int (unat w mod 10)) :: u32) = int (unat w mod 10)" by simp
    ultimately show ?thesis by simp
  qed
  then have c: "digit_char (sint (w mod 10)) = dchar (unat w mod 10)" by (simp add: dchar_facts)
  show ?case
  proof (cases "w div 10 = 0")
    case True
    then have "unat w div 10 = 0" using m(2) by simp
    then show ?thesis using True c by (subst utoa_digits.simps) (simp add: digits.simps [of "unat w"])
  next
    case False
    then have nz: "unat w div 10 \<noteq> 0" using m(2) by (metis unat_eq_0)
    then have "unat (w div 10) < unat w" using m(2) by simp
    from less.hyps [OF this] show ?thesis
      using False nz m(2) c by (subst utoa_digits.simps) (simp add: digits.simps [of "unat w"])
  qed
qed

lemma takeWhile_dchar: "\<forall>d \<in> set ds. d < 10 \<Longrightarrow> takeWhile isdigit (map dchar ds) = map dchar ds"
  by (simp add: takeWhile_eq_all_conv dchar_facts)

lemma foldl_digits:
  "foldl (\<lambda>res c. res * 10 + word_of_int (sint c - 48)) 0 (map dchar (rev (digits n))) = (word_of_nat n :: u32)"
proof (induction n rule: digits.induct)
  case (1 n)
  let ?f = "\<lambda>(res :: u32) c. res * 10 + word_of_int (sint c - 48)"
  have n: "n div 10 * 10 + n mod 10 = n" by (rule div_mult_mod_eq)
  have last: "?f r (dchar (n mod 10)) = r * 10 + word_of_nat (n mod 10)" for r
    by (simp add: dchar_facts(1))
  show ?case
  proof (cases "n div 10 = 0")
    case True
    then have "n mod 10 = n" using n by simp
    then have "digits n = [n]" using True by (simp add: digits.simps [of n])
    then show ?thesis using last [of 0] \<open>n mod 10 = n\<close> by simp
  next
    case False
    then have "foldl ?f 0 (map dchar (rev (digits n)))
        = ?f (foldl ?f 0 (map dchar (rev (digits (n div 10))))) (dchar (n mod 10))"
      by (subst digits.simps) simp
    also have "\<dots> = word_of_nat (n div 10) * 10 + word_of_nat (n mod 10)"
      using last 1 [OF False] by simp
    also have "\<dots> = word_of_nat (n div 10 * 10 + n mod 10)"
      by (simp only: of_nat_add of_nat_mult of_nat_numeral)
    finally show ?thesis unfolding n .
  qed
qed

lemma atoi_value_digits: "atoi_value (map dchar (rev (digits n))) = word_of_nat n"
  using foldl_digits [of n] digits_less [of _ n] by (simp add: atoi_value_def takeWhile_dchar)

lemma u_utoa_10: "u_utoa w 10 = Some (map dchar (rev (digits (unat w))))"
proof -
  have "reverse (map dchar (digits (unat w))) 0 (length (digits (unat w)) - 1) = rev (map dchar (digits (unat w)))"
    using reverse_rev [of "map dchar (digits (unat w))"] by simp
  then show ?thesis by (simp add: u_utoa_def utoa_digits_10 rev_map)
qed

lemma digits_rev_Cons: "\<exists>d ds. rev (digits n) = d # ds \<and> d < 10"
proof -
  have "rev (digits n) \<noteq> []" by (simp add: digits.simps [of n])
  then obtain d ds where "rev (digits n) = d # ds" by (cases "rev (digits n)") auto
  moreover from this have "d \<in> set (digits n)" by (metis list.set_intros(1) set_rev)
  ultimately show ?thesis using digits_less by blast
qed

text \<open>
  Printing and parsing a number: \<open>itoa\<close> of the user library always returns, and its \<open>atoi\<close>
  reads the number back, for all \<open>2 ^ 32\<close> values of an \<open>int\<close>.
\<close>

theorem itoa_atoi_roundtrip:
  "map_option u_atoi (u_itoa v 10) = Some v"
proof -
  have sp: "dropWhile isspace (map dchar (rev (digits n))) = map dchar (rev (digits n))" for n
    using digits_rev_Cons [of n] by (auto simp: dchar_facts)
  have pos: "u_atoi (map dchar (rev (digits n))) = word_of_nat n" for n
  proof -
    obtain d ds where d: "rev (digits n) = d # ds" "d < 10" using digits_rev_Cons by blast
    have "u_atoi (map dchar (rev (digits n))) = atoi_value (map dchar (rev (digits n)))"
      unfolding u_atoi_def sp unfolding d(1) using d(2) by (simp add: dchar_facts)
    then show ?thesis by (simp only: atoi_value_digits)
  qed
  have neg: "u_atoi (45 # map dchar (rev (digits n))) = - word_of_nat n" for n
    by (simp add: u_atoi_def isspace_def atoi_value_digits)
  show ?thesis by (simp add: u_itoa_def u_utoa_10 pos neg)
qed

end
