(* ===== verification/Libc.thy ===== *)
theory Libc
  imports Cstring "HOL-Library.Multiset"
begin

text \<open>
  The user-space C library, \<open>apps/include/libc.h\<close> and \<open>userlib.h\<close>: \<open>memmove\<close>, the integer
  functions, sorting and searching, the checksums and the calendar helpers. Sorting and searching
  take the array as the list of its elements; an access behind the array is \<open>None\<close>.
\<close>

subsection \<open>\<open>memmove\<close>\<close>

function copy_back :: "mem \<Rightarrow> u32 \<Rightarrow> u32 \<Rightarrow> u32 \<Rightarrow> mem" where
  "copy_back m d s n = (if n = 0 then m else copy_back (m(d - 1 := m (s - 1))) (d - 1) (s - 1) (n - 1))"
  by pat_completeness auto
termination by (relation "measure (\<lambda>(_, _, _, n). unat n)") (auto simp: unat_pred_small unat_gt_0)

declare copy_back.simps [simp del]

definition memmove :: "mem \<Rightarrow> u32 \<Rightarrow> u32 \<Rightarrow> u32 \<Rightarrow> (u32 \<times> mem) option" where
  "memmove m dest src n =
     (if dest < src then map_option (\<lambda>m1. (dest, m1)) (copy_bytes m dest src (uint n))
      else Some (dest, copy_back m (dest + n) (src + n) n))"

subsection \<open>Integers\<close>

definition c_abs :: "int \<Rightarrow> int" where
  "c_abs n = (if n < 0 then (if n = - (2 ^ 31) then n else - n) else n)"

definition c_div :: "int \<Rightarrow> int \<Rightarrow> int" where
  "c_div a b = sgn a * sgn b * (\<bar>a\<bar> div \<bar>b\<bar>)"

definition c_mod :: "int \<Rightarrow> int \<Rightarrow> int" where
  "c_mod a b = sgn a * (\<bar>a\<bar> mod \<bar>b\<bar>)"

function gcd_loop :: "int \<Rightarrow> int \<Rightarrow> int" where
  "gcd_loop a b = (if b = 0 then a else gcd_loop b (c_mod a b))"
  by pat_completeness auto
termination
  by (relation "measure (\<lambda>(_, b). nat \<bar>b\<bar>)") (auto simp: c_mod_def abs_mult abs_sgn_eq)

declare gcd_loop.simps [simp del]

definition c_gcd :: "int \<Rightarrow> int \<Rightarrow> int" where
  "c_gcd a b = gcd_loop (c_abs a) (c_abs b)"

definition c_lcm :: "int \<Rightarrow> int \<Rightarrow> int" where
  "c_lcm a b = (if a = 0 \<or> b = 0 then 0 else c_abs (c_div a (c_gcd a b) * b))"

function isqrt_loop :: "u32 \<Rightarrow> u32 \<Rightarrow> u32 \<Rightarrow> u32 option" where
  "isqrt_loop n x y =
     (if y < x then (if y = 0 then None else isqrt_loop n y ((y + n div y) div 2)) else Some x)"
  by pat_completeness auto
termination by (relation "measure (\<lambda>(_, x, _). unat x)") (auto simp: word_less_nat_alt)

declare isqrt_loop.simps [simp del]

definition isqrt :: "u32 \<Rightarrow> u32 option" where
  "isqrt n = (if n = 0 then Some 0 else isqrt_loop n n ((n + 1) div 2))"

function ipow_loop :: "u32 \<Rightarrow> u32 \<Rightarrow> nat \<Rightarrow> u32" where
  "ipow_loop result base n =
     (if n > 0 then ipow_loop (if odd n then result * base else result) (base * base) (n div 2) else result)"
  by pat_completeness auto
termination by (relation "measure (\<lambda>(_, _, n). n)") auto

declare ipow_loop.simps [simp del]

definition ipow :: "u32 \<Rightarrow> int \<Rightarrow> u32" where
  "ipow base n = ipow_loop 1 base (nat n)"

subsection \<open>Sorting and searching\<close>

function qsort_inner :: "('a \<Rightarrow> 'a \<Rightarrow> int) \<Rightarrow> nat \<Rightarrow> nat \<Rightarrow> 'a list \<Rightarrow> 'a list option" where
  "qsort_inner cmp stop j xs =
     (if j < stop then
        (if Suc j < length xs then
           qsort_inner cmp stop (Suc j) (if cmp (xs ! j) (xs ! Suc j) > 0 then xs[j := xs ! Suc j, Suc j := xs ! j] else xs)
         else None)
      else Some xs)"
  by pat_completeness auto
termination by (relation "measure (\<lambda>(_, stop, j, _). stop - j)") auto

declare qsort_inner.simps [simp del]

function qsort_outer :: "('a \<Rightarrow> 'a \<Rightarrow> int) \<Rightarrow> u32 \<Rightarrow> nat \<Rightarrow> 'a list \<Rightarrow> 'a list option" where
  "qsort_outer cmp nmemb i xs =
     (if i < unat (nmemb - 1) then
        (case qsort_inner cmp (unat (nmemb - of_nat i - 1)) 0 xs of
           None \<Rightarrow> None
         | Some ys \<Rightarrow> qsort_outer cmp nmemb (Suc i) ys)
      else Some xs)"
  by pat_completeness auto
termination by (relation "measure (\<lambda>(_, n, i, _). unat (n - 1) - i)") auto

declare qsort_outer.simps [simp del]

definition qsort :: "'a list \<Rightarrow> u32 \<Rightarrow> ('a \<Rightarrow> 'a \<Rightarrow> int) \<Rightarrow> 'a list option" where
  "qsort xs nmemb cmp = qsort_outer cmp nmemb 0 xs"

function bsearch_loop :: "('k \<Rightarrow> 'a \<Rightarrow> int) \<Rightarrow> 'k \<Rightarrow> 'a list \<Rightarrow> nat \<Rightarrow> nat \<Rightarrow> nat option" where
  "bsearch_loop cmp key xs lo hi =
     (if lo < hi then
        (let m = lo + (hi - lo) div 2; c = cmp key (xs ! m) in
         if c = 0 then Some m
         else if c < 0 then bsearch_loop cmp key xs lo m
         else bsearch_loop cmp key xs (m + 1) hi)
      else None)"
  by pat_completeness auto
termination by (relation "measure (\<lambda>(_, _, _, lo, hi). hi - lo)") auto

declare bsearch_loop.simps [simp del]

definition bsearch :: "'k \<Rightarrow> 'a list \<Rightarrow> ('k \<Rightarrow> 'a \<Rightarrow> int) \<Rightarrow> nat option" where
  "bsearch key xs cmp = bsearch_loop cmp key xs 0 (length xs)"

subsection \<open>\<open>memmove\<close> copies as if at once\<close>

lemma store_bytes_snoc:
  assumes "Suc (length xs) < 4294967296"
  shows "store_bytes (m(d + of_nat (length xs) := x)) d xs = store_bytes m d (xs @ [x])"
proof
  fix a
  have "a = d + of_nat (length xs) \<longleftrightarrow> unat (a - d) = length xs"
  proof
    show "unat (a - d) = length xs" if "a = d + of_nat (length xs)"
      using that assms by (simp add: unat_of_nat_u32)
    show "a = d + of_nat (length xs)" if "unat (a - d) = length xs"
    proof -
      have "a - d = of_nat (unat (a - d))" by simp
      then show ?thesis unfolding that by (metis add.commute diff_add_cancel)
    qed
  qed
  then show "store_bytes (m(d + of_nat (length xs) := x)) d xs a = store_bytes m d (xs @ [x]) a"
    by (auto simp: store_bytes_def nth_append)
qed

lemma load_bytes_snoc: "load_bytes m s (Suc k) = load_bytes m s k @ [m (s + of_nat k)]"
  by (simp add: load_bytes_def)

lemma copy_back_spec:
  "unat d + k < 4294967296 \<Longrightarrow> unat s + k < 4294967296 \<Longrightarrow> s \<le> d \<Longrightarrow>
   copy_back m (d + of_nat k) (s + of_nat k) (of_nat k) = store_bytes m d (load_bytes m s k)"
proof (induction k arbitrary: m)
  case 0
  then show ?case by (simp add: copy_back.simps)
next
  case (Suc k)
  let ?m = "m(d + of_nat k := m (s + of_nat k))"
  have k: "unat (of_nat (Suc k) :: u32) = Suc k" "unat (of_nat k :: u32) = k"
    using Suc.prems(1) by (simp_all only: unat_of_nat_u32)
  then have nz: "(of_nat (Suc k) :: u32) \<noteq> 0" by (metis nat.distinct(1) unat_0)
  have ne: "d + of_nat k \<noteq> s + of_nat i" if "i < k" for i
  proof
    assume eq: "d + of_nat k = s + of_nat i"
    have i: "unat (of_nat i :: u32) = i" using Suc.prems(1) that by (intro unat_of_nat_u32) simp
    have "unat (d + of_nat k) = unat d + k" "unat (s + of_nat i) = unat s + i"
      using Suc.prems(1,2) that k(2) i by (simp_all add: unat_add_small)
    then show False using eq Suc.prems(3) that by (simp add: word_le_nat_alt)
  qed
  have ld: "load_bytes ?m s k = load_bytes m s k"
    unfolding load_bytes_def by (intro map_cong refl fun_upd_other) (metis ne atLeastLessThan_iff set_upt)
  have "copy_back m (d + of_nat (Suc k)) (s + of_nat (Suc k)) (of_nat (Suc k))
      = copy_back ?m (d + of_nat k) (s + of_nat k) (of_nat k)"
    using nz by (subst copy_back.simps) (simp add: add.assoc)
  also have "\<dots> = store_bytes ?m d (load_bytes m s k)"
    using Suc.IH [of ?m] Suc.prems ld by (simp add: fun_upd_def)
  also have "\<dots> = store_bytes m d (load_bytes m s (Suc k))"
    using store_bytes_snoc [of "load_bytes m s k" m d] Suc.prems(1) by (simp add: load_bytes_snoc)
  finally show ?case .
qed

text \<open>For regions that do not wrap around the end of memory, whatever their overlap.\<close>

lemma memmove_spec:
  assumes "unat d + unat n < 4294967296" "unat s + unat n < 4294967296"
  shows "memmove m d s n = Some (d, store_bytes m d (load_bytes m s (unat n)))"
proof (cases "d < s")
  case True
  have "unat (d - s) = 4294967296 + unat d - unat s"
    using True unat_u32_bound [of d] by (simp add: unat_sub_if' word_less_nat_alt)
  moreover have "unat n \<le> 4294967296 + unat d - unat s" using assms(2) by linarith
  ultimately have "no_clobber d s (unat n)" by (simp add: no_clobber_def)
  then show ?thesis using True unat_u32_bound [of n] unfolding memmove_def uint_nat by (subst copy_bytes_spec) simp_all
next
  case False
  then show ?thesis using copy_back_spec [OF assms(1,2), of m] by (simp add: memmove_def)
qed

subsection \<open>Greatest common divisor\<close>

lemma gcd_loop_spec: "0 \<le> a \<Longrightarrow> 0 \<le> b \<Longrightarrow> gcd_loop a b = gcd a b"
proof (induction a b rule: gcd_loop.induct)
  case (1 a b)
  show ?case
  proof (cases "b = 0")
    case True
    then show ?thesis using 1(2) by (simp add: gcd_loop.simps [of a 0])
  next
    case False
    have "c_mod a b = a mod b" using 1(2,3) by (auto simp: c_mod_def sgn_if)
    moreover have "0 \<le> a mod b" using 1(3) False by (simp add: pos_mod_sign)
    ultimately have "gcd_loop a b = gcd b (a mod b)" using 1(1) [OF False 1(3)] False by (simp add: gcd_loop.simps [of a b])
    then show ?thesis by (simp only: gcd_red_int [of a b])
  qed
qed

lemma c_gcd_spec: "- (2 ^ 31) < a \<Longrightarrow> - (2 ^ 31) < b \<Longrightarrow> c_gcd a b = gcd a b"
  by (simp add: c_gcd_def c_abs_def gcd_loop_spec)

lemma ipow_loop_spec: "ipow_loop r b n = r * b ^ n"
proof (induction r b n rule: ipow_loop.induct)
  case (1 r b n)
  show ?case
  proof (cases "n > 0")
    case True
    have "b ^ n = (b * b) ^ (n div 2) * (if odd n then b else 1)"
    proof -
      have "b ^ n = b ^ (2 * (n div 2) + n mod 2)" by simp
      also have "\<dots> = (b * b) ^ (n div 2) * b ^ (n mod 2)" by (simp only: power_add power_mult power2_eq_square)
      finally show ?thesis by (simp add: odd_iff_mod_2_eq_one)
    qed
    then show ?thesis using 1 [OF True] True by (simp add: ipow_loop.simps [of r b n] ac_simps)
  qed (simp add: ipow_loop.simps [of r b 0])
qed

lemma ipow_spec: "ipow b n = b ^ nat n"
  by (simp add: ipow_def ipow_loop_spec)

subsection \<open>Square root\<close>

lemma word_of_nat_unat: "of_nat (unat w) = (w :: u32)"
  by simp

lemma newton_lower:
  fixes s x n :: nat
  assumes "s * s \<le> n" "0 < x"
  shows "s \<le> (x + n div x) div 2"
proof -
  have "2 * s - x \<le> n div x"
  proof (cases "x \<le> 2 * s")
    case True
    have "(int s - int x) ^ 2 \<ge> 0" by simp
    then have "int (x * (2 * s - x)) \<le> int (s * s)" using True
      by (simp add: power2_eq_square of_nat_diff algebra_simps)
    then have "x * (2 * s - x) \<le> n" using assms(1) by linarith
    then show ?thesis using assms(2) by (simp add: less_eq_div_iff_mult_less_eq mult.commute)
  qed simp
  then show ?thesis by linarith
qed

lemma newton_stop:
  fixes x n :: nat
  assumes "x \<le> (x + n div x) div 2" "0 < x"
  shows "x * x \<le> n"
proof -
  have "x \<le> n div x" using assms(1) by linarith
  then show ?thesis using assms(2) by (simp add: less_eq_div_iff_mult_less_eq)
qed

lemma isqrt_loop_spec:
  assumes "s * s \<le> unat n" "unat n < Suc s * Suc s" "0 < s" "0 < unat x" "s \<le> unat x" "unat y \<le> 2147483648"
    and "unat y = (unat x + unat n div unat x) div 2"
  shows "isqrt_loop n x y = Some (of_nat s)"
  using assms
proof (induction n x y rule: isqrt_loop.induct)
  case (1 n x y)
  show ?case
  proof (cases "y < x")
    case True
    have y: "s \<le> unat y" using newton_lower [OF 1(2), of "unat x"] 1(5,8) by simp
    then have y0: "y \<noteq> 0" "0 < unat y" using 1(4) by auto
    have lt: "unat y < unat x" using True by (simp add: word_less_nat_alt)
    have bound: "unat n div unat y \<le> s + 2"
    proof -
      have "unat n div unat y \<le> unat n div s" using y 1(4) by (simp add: div_le_mono2)
      also have "\<dots> \<le> (s * s + 2 * s) div s" using 1(3) by (intro div_le_mono) simp
      also have "\<dots> = s + 2" using 1(4) by (simp add: div_mult_self1 flip: distrib_right)
      finally show ?thesis .
    qed
    have "s < 65536"
    proof (rule ccontr)
      assume "\<not> ?thesis"
      then have "65536 * 65536 \<le> s * s" by (intro mult_le_mono) simp_all
      then show False using 1(2) unat_u32_bound [of n] by simp
    qed
    then have sum: "unat y + unat n div unat y < 4294967296" using bound 1(7) by linarith
    have "unat (y + n div y) = unat y + unat n div unat y"
      using sum by (subst unat_add_small) (simp_all add: unat_div)
    then have y2: "unat ((y + n div y) div 2) = (unat y + unat n div unat y) div 2" by (simp add: unat_div)
    have "unat ((y + n div y) div 2) \<le> 2147483648" using bound 1(7) \<open>s < 65536\<close> unfolding y2 by linarith
    then have "isqrt_loop n y ((y + n div y) div 2) = Some (of_nat s)"
      by (rule 1(1) [OF True y0(1) 1(2,3,4) y0(2) y _ y2])
    then show ?thesis using True y0(1) by (simp add: isqrt_loop.simps [of n x y])
  next
    case False
    then have "unat x \<le> (unat x + unat n div unat x) div 2" using 1(8) by (simp add: word_less_nat_alt)
    then have "unat x * unat x \<le> unat n" using 1(5) by (rule newton_stop)
    then have "unat x \<le> s" using 1(3) by (metis less_Suc_eq_le mult_le_mono not_le order.strict_trans2)
    then have "unat x = s" using 1(6) by simp
    then have "x = of_nat s" by (metis word_of_nat_unat)
    moreover have "isqrt_loop n x y = Some x" using False by (simp add: isqrt_loop.simps [of n x y])
    ultimately show ?thesis by simp
  qed
qed

lemma ex_sqrt: "\<exists>s. s * s \<le> n \<and> n < Suc s * Suc s" for n :: nat
proof (induction n)
  case (Suc n)
  then obtain s where s: "s * s \<le> n" "n < Suc s * Suc s" by blast
  show ?case
  proof (cases "Suc n < Suc s * Suc s")
    case True
    then show ?thesis using s(1) by (intro exI [of _ s]) simp
  next
    case False
    then have "Suc n = Suc s * Suc s" using s(2) by simp
    then show ?thesis by (intro exI [of _ "Suc s"]) simp
  qed
qed (rule exI [of _ 0], simp)

text \<open>
  C18. \<open>isqrt\<close> terminates and returns the integer square root for every argument except
  \<open>0xFFFFFFFF\<close>: there the first guess \<open>(n + 1) / 2\<close> wraps to 0 and the loop divides by it.
\<close>

theorem isqrt_correct:
  "case isqrt n of
     Some r \<Rightarrow> n \<noteq> - 1 \<and> unat r * unat r \<le> unat n \<and> unat n < (unat r + 1) * (unat r + 1)
   | None \<Rightarrow> n = - 1"
proof -
  consider "n = 0" | "n = - 1" | "n \<noteq> 0" "n \<noteq> - 1" by blast
  then show ?thesis
  proof cases
    case 1
    then show ?thesis by (simp add: isqrt_def)
  next
    case 2
    have "isqrt (- 1) = None" by (simp add: isqrt_def isqrt_loop.simps [of _ _ 0] word_gt_0)
    then show ?thesis using 2 by simp
  next
    case 3
    have n: "0 < unat n" using 3(1) by (simp add: unat_gt_0)
    have "unat n \<noteq> 4294967295" using 3(2) by (metis unat_m1_u32 word_unat_eq_iff)
    then have n1: "unat (n + 1) = unat n + 1" using unat_u32_bound [of n] by (intro unat_Suc_small) simp
    obtain s where s: "s * s \<le> unat n" "unat n < Suc s * Suc s" using ex_sqrt by blast
    have s0: "0 < s" using s(2) n by (cases s) auto
    then have sn: "s \<le> unat n" using s(1) by (metis le_trans mult_le_mono2 nat_mult_1_right Suc_leI One_nat_def)
    have "unat ((n + 1) div 2) = (unat n + unat n div unat n) div 2" using n n1 by (simp add: unat_div)
    moreover from this have "unat ((n + 1) div 2) \<le> 2147483648"
      using unat_u32_bound [of n] n by simp
    ultimately have "isqrt n = Some (of_nat s)"
      using isqrt_loop_spec [OF s s0 n sn] 3(1) by (simp add: isqrt_def)
    moreover have "unat (of_nat s :: u32) = s"
      using sn unat_u32_bound [of n] by (intro unat_of_nat_u32) simp
    ultimately show ?thesis using s 3(2) by simp
  qed
qed

subsection \<open>Bubble sort\<close>

text \<open>One exchange, one pass, all passes: the multiset and the order of equal elements are kept.\<close>

definition swap_adj :: "nat \<Rightarrow> 'a list \<Rightarrow> 'a list" where
  "swap_adj j xs = xs[j := xs ! Suc j, Suc j := xs ! j]"

lemma swap_adj_split:
  assumes "Suc j < length xs"
  shows "xs = take j xs @ xs ! j # xs ! Suc j # drop (Suc (Suc j)) xs"
    and "swap_adj j xs = take j xs @ xs ! Suc j # xs ! j # drop (Suc (Suc j)) xs"
proof -
  have "drop j xs = xs ! j # drop (Suc j) xs" "drop (Suc j) xs = xs ! Suc j # drop (Suc (Suc j)) xs"
    using assms by (simp_all add: Cons_nth_drop_Suc)
  then show 1: "xs = take j xs @ xs ! j # xs ! Suc j # drop (Suc (Suc j)) xs"
    by (metis append_take_drop_id)
  have len: "length (take j xs) = j" using assms by simp
  have "swap_adj j (take j xs @ xs ! j # xs ! Suc j # drop (Suc (Suc j)) xs)
      = take j xs @ xs ! Suc j # xs ! j # drop (Suc (Suc j)) xs"
    using len by (simp add: swap_adj_def list_update_append nth_append)
  then show "swap_adj j xs = take j xs @ xs ! Suc j # xs ! j # drop (Suc (Suc j)) xs" using 1 by simp
qed

definition same_classes :: "('a \<Rightarrow> 'b) \<Rightarrow> 'a list \<Rightarrow> 'a list \<Rightarrow> bool" where
  "same_classes f xs ys \<longleftrightarrow> mset ys = mset xs \<and> (\<forall>k. filter (\<lambda>x. f k = f x) ys = filter (\<lambda>x. f k = f x) xs)"

lemma same_classes_refl [simp]: "same_classes f xs xs"
  by (simp add: same_classes_def)

lemma same_classes_trans: "same_classes f xs ys \<Longrightarrow> same_classes f ys zs \<Longrightarrow> same_classes f xs zs"
  by (simp add: same_classes_def)

lemma same_classes_length: "same_classes f xs ys \<Longrightarrow> length ys = length xs"
  unfolding same_classes_def by (metis size_mset)

lemma swap_adj_classes:
  assumes "Suc j < length xs" "f (xs ! j) \<noteq> f (xs ! Suc j)"
  shows "same_classes f xs (swap_adj j xs)"
proof -
  let ?A = "take j xs" and ?a = "xs ! j" and ?b = "xs ! Suc j" and ?B = "drop (Suc (Suc j)) xs"
  have "same_classes f (?A @ ?a # ?b # ?B) (?A @ ?b # ?a # ?B)"
    using assms(2) by (auto simp: same_classes_def)
  then show ?thesis unfolding swap_adj_split(2) [OF assms(1)] using swap_adj_split(1) [OF assms(1)] by metis
qed

text \<open>The comparison function orders by a key.\<close>

definition cmp_key :: "('a \<Rightarrow> 'a \<Rightarrow> int) \<Rightarrow> ('a \<Rightarrow> 'b::linorder) \<Rightarrow> bool" where
  "cmp_key cmp f \<longleftrightarrow> (\<forall>a b. cmp a b > 0 \<longleftrightarrow> f a > f b)"

lemma qsort_inner_spec:
  assumes "cmp_key cmp f" "stop < length xs" "j \<le> stop"
    and "\<forall>i < j. f (xs ! i) \<le> f (xs ! j)"
  shows "\<exists>ys. qsort_inner cmp stop j xs = Some ys \<and> same_classes f xs ys
    \<and> (\<forall>i. stop < i \<longrightarrow> ys ! i = xs ! i) \<and> (\<forall>i < stop. f (ys ! i) \<le> f (ys ! stop))
    \<and> mset (take (Suc stop) ys) = mset (take (Suc stop) xs)"
  using assms
proof (induction cmp stop j xs rule: qsort_inner.induct)
  case (1 cmp stop j xs)
  show ?case
  proof (cases "j < stop")
    case False
    then have "j = stop" using "1.prems" by simp
    then show ?thesis using "1.prems" by (intro exI [of _ xs]) (simp add: qsort_inner.simps [of cmp stop stop xs])
  next
    case True
    define zs where "zs = (if cmp (xs ! j) (xs ! Suc j) > 0 then xs[j := xs ! Suc j, Suc j := xs ! j] else xs)"
    have len: "Suc j < length xs" using True "1.prems"(2) by simp
    have cmp: "cmp (xs ! j) (xs ! Suc j) > 0 \<longleftrightarrow> f (xs ! j) > f (xs ! Suc j)"
      using "1.prems"(1) by (simp add: cmp_key_def)
    have zs: "zs = (if f (xs ! j) > f (xs ! Suc j) then swap_adj j xs else xs)"
      by (simp add: zs_def cmp swap_adj_def)
    have cl: "same_classes f xs zs" using swap_adj_classes [OF len, of f] by (auto simp: zs)
    have lz: "length zs = length xs" using cl by (rule same_classes_length)
    have bub: "\<forall>i < Suc j. f (zs ! i) \<le> f (zs ! Suc j)"
    proof (intro allI impI)
      fix i assume i: "i < Suc j"
      then have "f (xs ! i) \<le> f (xs ! j)" using "1.prems"(4) by (cases "i = j") auto
      then show "f (zs ! i) \<le> f (zs ! Suc j)"
        using i len unfolding zs swap_adj_def by (cases "i = j") (auto simp: nth_list_update)
    qed
    have out: "\<forall>i. stop < i \<longrightarrow> zs ! i = xs ! i" using True by (auto simp: zs swap_adj_def)
    have tk: "mset (take (Suc stop) zs) = mset (take (Suc stop) xs)"
    proof -
      have "drop (Suc stop) zs = drop (Suc stop) xs"
        using out lz by (intro nth_equalityI) simp_all
      moreover have "mset zs = mset xs" using cl by (simp add: same_classes_def)
      ultimately show ?thesis by (metis add_right_cancel append_take_drop_id mset_append)
    qed
    from "1.IH" [OF True len _ _ _ bub [unfolded zs_def]] obtain ys where
      ys: "qsort_inner cmp stop (Suc j) zs = Some ys" "same_classes f zs ys"
        "\<forall>i. stop < i \<longrightarrow> ys ! i = zs ! i" "\<forall>i < stop. f (ys ! i) \<le> f (ys ! stop)"
        "mset (take (Suc stop) ys) = mset (take (Suc stop) zs)"
      using "1.prems"(1,2) True lz unfolding zs_def [symmetric] by auto
    have "qsort_inner cmp stop j xs = Some ys"
      using ys(1) True len by (simp add: qsort_inner.simps [of cmp stop j xs] zs_def)
    moreover have "same_classes f xs ys" using cl ys(2) by (rule same_classes_trans)
    moreover have "\<forall>i. stop < i \<longrightarrow> ys ! i = xs ! i" using ys(3) out by simp
    ultimately show ?thesis using ys(4,5) tk by (intro exI [of _ ys]) simp
  qed
qed

definition tail_sorted :: "('a \<Rightarrow> 'b::linorder) \<Rightarrow> nat \<Rightarrow> 'a list \<Rightarrow> bool" where
  "tail_sorted f k xs \<longleftrightarrow> (\<forall>p q. p < q \<and> q < length xs \<and> k \<le> q \<longrightarrow> f (xs ! p) \<le> f (xs ! q))"

lemma tail_sorted_pass:
  assumes "tail_sorted f (Suc k) xs" "length ys = length xs" "k < length xs"
    and "\<forall>i. k < i \<longrightarrow> ys ! i = xs ! i" "\<forall>i < k. f (ys ! i) \<le> f (ys ! k)"
    and "mset (take (Suc k) ys) = mset (take (Suc k) xs)"
  shows "tail_sorted f k ys"
  unfolding tail_sorted_def
proof (intro allI impI)
  fix p q assume pq: "p < q \<and> q < length ys \<and> k \<le> q"
  show "f (ys ! p) \<le> f (ys ! q)"
  proof (cases "q = k")
    case True
    then show ?thesis using pq assms(5) by simp
  next
    case False
    then have q: "k < q" "ys ! q = xs ! q" using pq assms(4) by simp_all
    obtain p' where p': "p' < q" "ys ! p = xs ! p'"
    proof (cases "k < p")
      case True
      then show thesis using that [of p] pq assms(4) by simp
    next
      case False
      then have "ys ! p \<in> set (take (Suc k) ys)" using pq q(1) by (auto simp: in_set_conv_nth intro!: exI [of _ p])
      then have "ys ! p \<in> set (take (Suc k) xs)" using assms(6) by (metis set_mset_mset)
      then obtain p' where "p' < Suc k" "ys ! p = xs ! p'" by (auto simp: in_set_conv_nth)
      then show thesis using that [of p'] q(1) by simp
    qed
    then show ?thesis using assms(1,2) pq q unfolding tail_sorted_def by (metis Suc_leI)
  qed
qed

lemma qsort_outer_spec:
  assumes "cmp_key cmp f" "0 < unat nmemb" "length xs = unat nmemb" "i \<le> unat nmemb - 1"
    and "tail_sorted f (unat nmemb - i) xs"
  shows "\<exists>ys. qsort_outer cmp nmemb i xs = Some ys \<and> same_classes f xs ys \<and> tail_sorted f 1 ys"
  using assms
proof (induction cmp nmemb i xs rule: qsort_outer.induct)
  case (1 cmp nmemb i xs)
  let ?n = "unat nmemb"
  have n1: "unat (nmemb - 1) = ?n - 1" using "1.prems"(2) by (intro unat_pred_small)
  show ?case
  proof (cases "i < ?n - 1")
    case False
    then have "i = ?n - 1" using "1.prems"(4) by simp
    then have "tail_sorted f 1 xs" using "1.prems"(2,5) by simp
    then show ?thesis using False n1 by (intro exI [of _ xs]) (simp add: qsort_outer.simps [of cmp nmemb i xs])
  next
    case True
    have i: "unat (of_nat i :: u32) = i" using True unat_u32_bound [of nmemb] by (intro unat_of_nat_u32) simp
    then have "unat (nmemb - of_nat i) = ?n - i" using True by (subst unat_sub_small) simp_all
    then have stop: "unat (nmemb - of_nat i - 1) = ?n - 1 - i"
      using True by (subst unat_pred_small) simp_all
    have k: "?n - i = Suc (?n - 1 - i)" using True by simp
    obtain ys where ys: "qsort_inner cmp (?n - 1 - i) 0 xs = Some ys" "same_classes f xs ys"
        "\<forall>j. ?n - 1 - i < j \<longrightarrow> ys ! j = xs ! j" "\<forall>j < ?n - 1 - i. f (ys ! j) \<le> f (ys ! (?n - 1 - i))"
        "mset (take (Suc (?n - 1 - i)) ys) = mset (take (Suc (?n - 1 - i)) xs)"
      using qsort_inner_spec [OF "1.prems"(1), of "?n - 1 - i" xs 0] "1.prems"(2,3) by auto
    have len: "length ys = length xs" using ys(2) by (rule same_classes_length)
    have "tail_sorted f (?n - 1 - i) ys"
      using tail_sorted_pass [OF _ len _ ys(3,4,5)] "1.prems"(2,3,5) k by simp
    then obtain zs where zs: "qsort_outer cmp nmemb (Suc i) ys = Some zs" "same_classes f ys zs" "tail_sorted f 1 zs"
      using "1.IH" [OF True [folded n1] _ "1.prems"(1,2)] ys(1) len "1.prems"(3) True stop by auto
    have "qsort_outer cmp nmemb i xs = Some zs"
      using True n1 ys(1) zs(1) stop by (simp add: qsort_outer.simps [of cmp nmemb i xs])
    then show ?thesis using same_classes_trans [OF ys(2) zs(2)] zs(3) by (intro exI [of _ zs]) simp
  qed
qed

lemma tail_sorted_sorted: "tail_sorted f 1 xs \<Longrightarrow> sorted (map f xs)"
  by (auto simp: tail_sorted_def sorted_iff_nth_mono_less)

text \<open>
  C17. \<open>qsort\<close> (a bubble sort) returns the stably sorted array for every comparison function that
  orders by a key. For an empty array, where \<open>nmemb - 1\<close> wraps, it reads behind the array.
\<close>

theorem qsort_is_stable_sort:
  fixes f :: "'a \<Rightarrow> 'b::linorder"
  assumes "cmp_key cmp f" "length xs = unat nmemb"
  shows "qsort xs nmemb cmp = (if nmemb = 0 then None else Some (sort_key f xs))"
proof (cases "nmemb = 0")
  case True
  then have "xs = []" using assms(2) by simp
  then have "qsort_inner cmp 4294967295 0 xs = None" by (simp add: qsort_inner.simps)
  then show ?thesis using True \<open>xs = []\<close> by (simp add: qsort_def qsort_outer.simps)
next
  case False
  then have n: "0 < unat nmemb" by (simp add: unat_gt_0)
  have "tail_sorted f (unat nmemb - 0) xs" using assms(2) by (auto simp: tail_sorted_def)
  then obtain ys where ys: "qsort_outer cmp nmemb 0 xs = Some ys" "same_classes f xs ys" "tail_sorted f 1 ys"
    using qsort_outer_spec [OF assms(1) n assms(2) le0] by blast
  have "ys = sort_key f xs"
    using ys(2) tail_sorted_sorted [OF ys(3)] unfolding same_classes_def
    by (intro properties_for_sort_key [symmetric]) simp_all
  then show ?thesis using ys(1) False by (simp add: qsort_def)
qed

theorem qsort_is_stable_sort_witness:
  "qsort [(2, ''a''), (1, ''b''), (2, ''c''), (1, ''d'')] 4 (\<lambda>x y. int (fst x) - int (fst y :: nat))
     = Some [(1, ''b''), (1, ''d''), (2, ''a''), (2, ''c'')]"
proof -
  let ?xs = "[(2 :: nat, ''a''), (1, ''b''), (2, ''c''), (1, ''d'')]"
  have c: "cmp_key (\<lambda>x y. int (fst x) - int (fst y)) (fst :: nat \<times> string \<Rightarrow> nat)" by (simp add: cmp_key_def)
  have l: "length ?xs = unat (4 :: u32)" by simp
  show ?thesis using qsort_is_stable_sort [OF c l] by simp
qed

subsection \<open>Binary search\<close>

lemma bsearch_loop_spec:
  assumes "\<forall>i < length xs. sgn (cmp key (xs ! i)) = sgn (g - f (xs ! i))" "sorted (map f xs)" "hi \<le> length xs"
    and "\<forall>i < length xs. f (xs ! i) = (g :: int) \<longrightarrow> lo \<le> i \<and> i < hi"
  shows "case bsearch_loop cmp key xs lo hi of
      Some i \<Rightarrow> i < length xs \<and> f (xs ! i) = g
    | None \<Rightarrow> \<forall>x \<in> set xs. f x \<noteq> g"
  using assms
proof (induction cmp key xs lo hi rule: bsearch_loop.induct)
  case (1 cmp key xs lo hi)
  show ?case
  proof (cases "lo < hi")
    case False
    then have "\<forall>x \<in> set xs. f x \<noteq> g" using "1.prems"(4) by (metis in_set_conv_nth not_le order.strict_trans2)
    then show ?thesis using False by (simp add: bsearch_loop.simps [of cmp key xs lo hi])
  next
    case True
    define k where "k = lo + (hi - lo) div 2"
    have k: "lo \<le> k" "k < hi" "k < length xs" using True "1.prems"(3) by (auto simp: k_def)
    have c: "sgn (cmp key (xs ! k)) = sgn (g - f (xs ! k))" using "1.prems"(1) k(3) by blast
    have mono: "f (xs ! i) \<le> f (xs ! j)" if "i \<le> j" "j < length xs" for i j
      using "1.prems"(2) that by (auto simp: sorted_iff_nth_mono)
    have rec: "bsearch_loop cmp key xs lo hi =
        (if cmp key (xs ! k) = 0 then Some k else if cmp key (xs ! k) < 0 then bsearch_loop cmp key xs lo k
         else bsearch_loop cmp key xs (k + 1) hi)"
      using True by (subst bsearch_loop.simps) (simp add: Let_def k_def)
    consider (eq) "cmp key (xs ! k) = 0" | (less) "cmp key (xs ! k) < 0" | (gt) "cmp key (xs ! k) > 0" by linarith
    then show ?thesis
    proof cases
      case eq
      then have "f (xs ! k) = g" using c by (simp add: sgn_if split: if_splits)
      then show ?thesis using eq rec k(3) by simp
    next
      case less
      then have lt: "g < f (xs ! k)" using c by (simp add: sgn_if split: if_splits)
      have "\<forall>i < length xs. f (xs ! i) = g \<longrightarrow> lo \<le> i \<and> i < k"
        using "1.prems"(4) mono lt by (metis leD not_le)
      then have "case bsearch_loop cmp key xs lo k of Some i \<Rightarrow> i < length xs \<and> f (xs ! i) = g
          | None \<Rightarrow> \<forall>x \<in> set xs. f x \<noteq> g"
        using "1.IH"(1) [OF True k_def refl _ _ "1.prems"(1,2)] less k by simp
      then show ?thesis using less rec by simp
    next
      case gt
      then have lt: "f (xs ! k) < g" using c by (simp add: sgn_if split: if_splits)
      have "\<forall>i < length xs. f (xs ! i) = g \<longrightarrow> k + 1 \<le> i \<and> i < hi"
        using "1.prems"(4) mono lt k(3) by (metis Suc_eq_plus1 leD not_less_eq_eq)
      then have "case bsearch_loop cmp key xs (k + 1) hi of Some i \<Rightarrow> i < length xs \<and> f (xs ! i) = g
          | None \<Rightarrow> \<forall>x \<in> set xs. f x \<noteq> g"
        using "1.IH"(2) [OF True k_def refl _ _ "1.prems"(1,2,3)] gt by simp
      then show ?thesis using gt rec by simp
    qed
  qed
qed

lemma bsearch_spec:
  assumes "\<forall>i < length xs. sgn (cmp key (xs ! i)) = sgn (g - f (xs ! i))" "sorted (map f xs)"
  shows "case bsearch key xs cmp of
      Some i \<Rightarrow> i < length xs \<and> f (xs ! i) = (g :: int)
    | None \<Rightarrow> \<forall>x \<in> set xs. f x \<noteq> g"
  unfolding bsearch_def using bsearch_loop_spec [of xs cmp key g f "length xs" 0] assms by simp

subsection \<open>CRC-32\<close>

definition crc32_table :: "u32 list" where
  "crc32_table = [
  0, 0x77073096, 0xEE0E612C, 0x990951BA, 0x76DC419, 0x706AF48F, 0xE963A535, 0x9E6495A3,
  0xEDB8832, 0x79DCB8A4, 0xE0D5E91E, 0x97D2D988, 0x9B64C2B, 0x7EB17CBD, 0xE7B82D07, 0x90BF1D91,
  0x1DB71064, 0x6AB020F2, 0xF3B97148, 0x84BE41DE, 0x1ADAD47D, 0x6DDDE4EB, 0xF4D4B551, 0x83D385C7,
  0x136C9856, 0x646BA8C0, 0xFD62F97A, 0x8A65C9EC, 0x14015C4F, 0x63066CD9, 0xFA0F3D63, 0x8D080DF5,
  0x3B6E20C8, 0x4C69105E, 0xD56041E4, 0xA2677172, 0x3C03E4D1, 0x4B04D447, 0xD20D85FD, 0xA50AB56B,
  0x35B5A8FA, 0x42B2986C, 0xDBBBC9D6, 0xACBCF940, 0x32D86CE3, 0x45DF5C75, 0xDCD60DCF, 0xABD13D59,
  0x26D930AC, 0x51DE003A, 0xC8D75180, 0xBFD06116, 0x21B4F4B5, 0x56B3C423, 0xCFBA9599, 0xB8BDA50F,
  0x2802B89E, 0x5F058808, 0xC60CD9B2, 0xB10BE924, 0x2F6F7C87, 0x58684C11, 0xC1611DAB, 0xB6662D3D,
  0x76DC4190, 0x1DB7106, 0x98D220BC, 0xEFD5102A, 0x71B18589, 0x6B6B51F, 0x9FBFE4A5, 0xE8B8D433,
  0x7807C9A2, 0xF00F934, 0x9609A88E, 0xE10E9818, 0x7F6A0DBB, 0x86D3D2D, 0x91646C97, 0xE6635C01,
  0x6B6B51F4, 0x1C6C6162, 0x856530D8, 0xF262004E, 0x6C0695ED, 0x1B01A57B, 0x8208F4C2, 0xF50FC457,
  0x65B0D9C6, 0x12B7E950, 0x8BBEB8EA, 0xFCB9887C, 0x62DD1DDF, 0x15DA2D49, 0x8CD37CF3, 0xFBD44C65,
  0x4DB26158, 0x3AB551CE, 0xA3BC0074, 0xD4BB30E2, 0x4ADFA541, 0x3DD895D7, 0xA4D1C46D, 0xD3D6F4FB,
  0x4369E96A, 0x346ED9FC, 0xAD678846, 0xDA60B8D0, 0x44042D73, 0x33031DE5, 0xAA0A4C5F, 0xDD0D7A9F,
  0x5005713C, 0x270241AA, 0xBE0B1010, 0xC90C2086, 0x5768B525, 0x206F85B3, 0xB966D409, 0xCE61E49F,
  0x5EDEF90E, 0x29D9C998, 0xB0D09822, 0xC7D7A8B4, 0x59B33D17, 0x2EB40D81, 0xB7BD5C3B, 0xC0BA6CAD,
  0xEDB88320, 0x9ABFB3B6, 0x3B6E20C, 0x74B1D29A, 0xEAD54739, 0x9DD277AF, 0x4DB2615, 0x73DC1683,
  0xE3630B12, 0x94643B84, 0xD6D6A3E, 0x7A6A5AA8, 0xE40ECF0B, 0x9309FF9D, 0xA00AE27, 0x7D079EB1,
  0xF00F9344, 0x8708A3D2, 0x1E01F268, 0x6906C2FE, 0xF762575D, 0x806567CB, 0x196C3671, 0x6E6B06E7,
  0xFED41B76, 0x89D32BE0, 0x10DA7A5A, 0x67DD4ACC, 0xF9B9DF6F, 0x8EBEEFF9, 0x17B7BE43, 0x60B08ED5,
  0xD6D6A3E8, 0xA1D1937E, 0x38D8C2C4, 0x4FDFF252, 0xD1BB67F1, 0xA6BC5767, 0x3FB506DD, 0x48B2364B,
  0xD80D2BDA, 0xAF0A1B4C, 0x36034AF6, 0x41047A60, 0xDF60EFC3, 0xA867DF55, 0x316E8EEF, 0x4669BE79,
  0xCB61B38C, 0xBC66831A, 0x256FD2A0, 0x5268E236, 0xCC0C7795, 0xBB0B4703, 0x220216B9, 0x5505262F,
  0xC5BA3BBE, 0xB2BD0B28, 0x2BB45A92, 0x5CB36A04, 0xC2D7FFA7, 0xB5D0CF31, 0x2CD99E8B, 0x5BDEAE1D,
  0x9B64C2B0, 0xEC63F226, 0x756AA39C, 0x26D930A, 0x9C0906A9, 0xEB0E363F, 0x72076785, 0x5005713,
  0x95BF4A82, 0xE2B87A14, 0x7BB12BAE, 0xCB61B38, 0x92D28E9B, 0xE5D5BE0D, 0x7CDCEFB7, 0xBDBDF21,
  0x86D3D2D4, 0xF1D4E242, 0x68DDB3F8, 0x1FDA836E, 0x81BE16CD, 0xF6B9265B, 0x6FB077E1, 0x18B74777,
  0x88085AE6, 0xFF0F6A70, 0x66063BCA, 0x11010B5C, 0x8F659EFF, 0xF862AE69, 0x616BFFD3, 0x166CCF45,
  0xA00AE278, 0xD70DD2EE, 0x4E048354, 0x3903B3C2, 0xA7672661, 0xD06016F7, 0x4969474D, 0x3E6E77DB,
  0xAED16A4A, 0xD9D65ADC, 0x40DF0B66, 0x37D83BF0, 0xA9BCAE53, 0xDEBB9EC5, 0x47B2CF7F, 0x30B5FFE9,
  0xBDBDF21C, 0xCABAC28A, 0x53B39330, 0x24B4A3A6, 0xBAD03605, 0xCDD70693, 0x54DE5729, 0x23D967BF,
  0xB3667A2E, 0xC4614AB8, 0x5D681B02, 0x2A6F2B94, 0xB40BBE37, 0xC30C8EA1, 0x5A05DF1B, 0x2D02EF8D]"

definition crc32_step :: "u32 \<Rightarrow> u8 \<Rightarrow> u32" where
  "crc32_step crc b = crc32_table ! unat ((crc XOR ucast b) AND 0xFF) XOR drop_bit 8 crc"

definition crc32 :: "u8 list \<Rightarrow> u32" where
  "crc32 data = NOT (foldl crc32_step 0xFFFFFFFF data)"

text \<open>The reference: the bits of the message are shifted through the polynomial one by one.\<close>

definition crc_bit :: "u32 \<Rightarrow> u32" where
  "crc_bit w = (if w AND 1 = 1 then drop_bit 1 w XOR 0xEDB88320 else drop_bit 1 w)"

definition crc_byte :: "u32 \<Rightarrow> u8 \<Rightarrow> u32" where
  "crc_byte crc b = (crc_bit ^^ 8) (crc XOR ucast b)"

definition crc32_serial :: "u8 list \<Rightarrow> u32" where
  "crc32_serial data = NOT (foldl crc_byte 0xFFFFFFFF data)"

lemma funpow_8: "(f ^^ 8) x = f (f (f (f (f (f (f (f x)))))))"
  by (simp add: eval_nat_numeral)

text \<open>The same step on integers, to evaluate the table.\<close>

definition crc_int :: "int \<Rightarrow> int" where
  "crc_int k = (if odd k then (k div 2) XOR 0xEDB88320 else k div 2)"

lemma crc_int_numeral:
  "crc_int 0 = 0" "crc_int 1 = 0xEDB88320"
  "crc_int (numeral (num.Bit0 n)) = numeral n"
  "crc_int (numeral (num.Bit1 n)) = numeral n XOR 0xEDB88320"
  by (simp_all add: crc_int_def)

lemma crc_int_range:
  assumes "0 \<le> k" "k < 2 ^ 32"
  shows "0 \<le> crc_int k" "crc_int k < 2 ^ 32"
proof -
  have "(k div 2) XOR 0xEDB88320 < 2 ^ 32" using assms by (intro XOR_upper) simp_all
  then show "0 \<le> crc_int k" "crc_int k < 2 ^ 32" using assms by (auto simp: crc_int_def)
qed

lemma crc_bit_int:
  assumes "0 \<le> k" "k < 2 ^ 32"
  shows "crc_bit (word_of_int k) = word_of_int (crc_int k)"
proof -
  have "take_bit 32 k = k" using assms by (simp add: take_bit_int_eq_self)
  then have "drop_bit 1 (word_of_int k :: u32) = word_of_int (k div 2)"
    by transfer (simp add: drop_bit_eq_div)
  moreover have "bit (word_of_int k :: u32) 0 \<longleftrightarrow> odd k"
    unfolding bit_word_of_int_iff by (simp add: bit_0)
  moreover have "(word_of_int (a XOR b) :: u32) = word_of_int a XOR word_of_int b" for a b
    by (rule bit_word_eqI) (simp add: bit_simps)
  ultimately show ?thesis using and_exp_neq_0 [of "word_of_int k :: u32" 0]
    by (auto simp: crc_bit_def crc_int_def and_one_eq mod_2_eq_odd)
qed

lemma crc_bits_int: "0 \<le> k \<Longrightarrow> k < 2 ^ 32 \<Longrightarrow>
    (crc_bit ^^ n) (word_of_int k) = word_of_int ((crc_int ^^ n) k) \<and> 0 \<le> (crc_int ^^ n) k \<and> (crc_int ^^ n) k < 2 ^ 32"
  by (induction n) (simp_all add: crc_bit_int crc_int_range [simplified])

definition crc_entry :: "int \<Rightarrow> u32" where
  "crc_entry i = word_of_int ((crc_int ^^ 8) i)"

lemma crc_entry_eval: "crc_entry i =
    word_of_int (crc_int (crc_int (crc_int (crc_int (crc_int (crc_int (crc_int (crc_int i))))))))"
  by (simp add: crc_entry_def funpow_8)

lemma crc_entry_bits: "i < 256 \<Longrightarrow> crc_entry (int i) = (crc_bit ^^ 8) (of_nat i)"
  using crc_bits_int [of "int i" 8] by (simp add: crc_entry_def)

text \<open>Two entries of the table are not those of the polynomial.\<close>

lemma crc32_table_split:
  "crc32_table = map crc_entry [0 .. 85] @ [0x8208F4C2] @ map crc_entry [87 .. 110] @ [0xDD0D7A9F] @ map crc_entry [112 .. 255]"
  by (simp add: crc32_table_def crc_entry_eval crc_int_numeral upto_rec1)

lemma patched_nth:
  assumes "0 < a" "a < b" "b < c" "i < nat c"
  shows "(map f [0 .. a - 1] @ [x] @ map f [a + 1 .. b - 1] @ [y] @ map f [b + 1 .. c - 1]) ! i
    = (if i = nat a then x else if i = nat b then y else f (int i))"
proof -
  consider "i < nat a" | "i = nat a" | "nat a < i" "i < nat b" | "i = nat b" | "nat b < i" by linarith
  then show ?thesis
  proof cases
    case 1
    then have "i \<noteq> nat a" "i \<noteq> nat b" using assms by auto
    then show ?thesis using 1 assms by (simp add: nth_append)
  next
    case 3
    then have "i - nat a = Suc (i - Suc (nat a))" "i - Suc (nat a) < nat (b - a - 1)" using assms by auto
    moreover have "[a + 1 .. b - 1] ! (i - Suc (nat a)) = int i" using 3 assms by (subst nth_upto) auto
    ultimately show ?thesis using 3 assms by (simp add: nth_append)
  next
    case 4
    then have "i - nat a = Suc (i - Suc (nat a))" "nat b \<noteq> nat a" using assms by auto
    then show ?thesis using 4 assms by (simp add: nth_append nat_diff_distrib')
  next
    case 5
    then have "i - nat a = Suc (i - Suc (nat a))" "i - Suc (nat a) - nat (b - a - 1) = Suc (i - Suc (nat b))"
        "\<not> i - Suc (nat a) < nat (b - a - 1)" "\<not> i < nat a" "i \<noteq> nat a" using assms by auto
    moreover have "[b + 1 .. c - 1] ! (i - Suc (nat b)) = int i" using 5 assms by (subst nth_upto) auto
    moreover have "i - Suc (nat b) < length [b + 1 .. c - 1]" using 5 assms by auto
    ultimately show ?thesis using 5 assms by (simp add: nth_append)
  qed (use assms in \<open>simp_all add: nth_append\<close>)
qed

lemma crc32_table_entry:
  assumes "i < 256"
  shows "crc32_table ! i =
    (if i = 86 then 0x8208F4C2 else if i = 111 then 0xDD0D7A9F else (crc_bit ^^ 8) (of_nat i))"
proof -
  have "crc32_table ! i = (if i = 86 then 0x8208F4C2 else if i = 111 then 0xDD0D7A9F else crc_entry (int i))"
    using patched_nth [of 86 111 256 i crc_entry "0x8208F4C2" "0xDD0D7A9F"] assms
    unfolding crc32_table_split by (simp del: append.simps append_Cons)
  then show ?thesis by (simp only: crc_entry_bits [OF assms])
qed

lemma crc32_bad_entries: "(crc_bit ^^ 8) 86 \<noteq> 0x8208F4C2" "(crc_bit ^^ 8) 111 \<noteq> 0xDD0D7A9F"
  by (simp_all add: funpow_8 crc_bit_def)

lemma low_bit: "(w :: u32) AND 1 = 1 \<longleftrightarrow> bit w 0"
  by (simp add: and_one_eq mod_2_eq_odd bit_0)

lemma crc_bit_xor: "crc_bit (a XOR b) = crc_bit a XOR crc_bit b"
  by (auto simp: crc_bit_def low_bit bit_xor_iff drop_bit_xor intro!: bit_eqI simp flip: bit_xor_iff) 
   (auto simp: bit_simps)

lemma crc_bits_xor: "(crc_bit ^^ k) (a XOR b) = (crc_bit ^^ k) a XOR (crc_bit ^^ k) b"
  by (induction k) (simp_all add: crc_bit_xor)

lemma crc_bit_shift:
  assumes "0 < d" "d \<le> 8"
  shows "crc_bit (push_bit d (drop_bit 8 w)) = push_bit (d - 1) (drop_bit 8 w)"
proof -
  have "\<not> bit (push_bit d (drop_bit 8 w)) 0" using assms(1) by (simp add: bit_push_bit_iff)
  then have "crc_bit (push_bit d (drop_bit 8 w)) = drop_bit 1 (push_bit d (drop_bit 8 w))"
    by (simp add: crc_bit_def low_bit)
  also have "\<dots> = push_bit (d - 1) (drop_bit 8 w)"
  proof (rule bit_word_eqI)
    fix n assume "n < LENGTH(32)"
    then have n: "n < 32" by simp
    have i: "1 + n - d = n - (d - 1)" and le: "d \<le> 1 + n \<longleftrightarrow> d - 1 \<le> n" using assms(1) by auto
    have top: "\<not> bit w (8 + (n - (d - 1)))" if "31 \<le> n"
      using that assms bit_imp_le_length [of w "8 + (n - (d - 1))"] by auto
    have "bit (drop_bit 1 (push_bit d (drop_bit 8 w))) n \<longleftrightarrow> 1 + n < 32 \<and> d - 1 \<le> n \<and> bit w (8 + (n - (d - 1)))"
      by (simp only: bit_push_bit_iff bit_drop_bit_eq comp_def i le) (auto simp: bit_push_bit_iff)
    moreover have "bit (push_bit (d - 1) (drop_bit 8 w)) n \<longleftrightarrow> n < 32 \<and> d - 1 \<le> n \<and> bit w (8 + (n - (d - 1)))"
      by (simp only: bit_push_bit_iff bit_drop_bit_eq comp_def) (auto simp: bit_push_bit_iff)
    ultimately show "bit (drop_bit 1 (push_bit d (drop_bit 8 w))) n = bit (push_bit (d - 1) (drop_bit 8 w)) n"
      using n top by (cases "31 \<le> n") auto
  qed
  finally show ?thesis .
qed

lemma crc_bits_high: "(crc_bit ^^ 8) (push_bit 8 (drop_bit 8 w)) = drop_bit 8 w"
proof -
  have "k \<le> 8 \<Longrightarrow> (crc_bit ^^ k) (push_bit 8 (drop_bit 8 w)) = push_bit (8 - k) (drop_bit 8 w)" for k
  proof (induction k)
    case (Suc k)
    then show ?case using crc_bit_shift [of "8 - k" w] by simp
  qed simp
  from this [of 8] show ?thesis by simp
qed

definition crc_index :: "u32 \<Rightarrow> u8 \<Rightarrow> nat" where
  "crc_index crc b = unat ((crc XOR ucast b) AND 0xFF)"

lemma crc_index_less: "crc_index crc b < 256"
  using unat_and_mask [of "crc XOR ucast b" 8] by (simp add: crc_index_def mask_eq_exp_minus_1)

lemma crc_byte_table: "crc_byte crc b = (crc_bit ^^ 8) (of_nat (crc_index crc b)) XOR drop_bit 8 crc"
proof -
  let ?w = "crc XOR ucast b"
  have "?w = (?w AND mask 8) XOR push_bit 8 (drop_bit 8 ?w)"
    by (rule bit_eqI) (auto simp: bit_simps)
  then have "?w = (?w AND 0xFF) XOR push_bit 8 (drop_bit 8 ?w)" by (simp add: mask_eq_exp_minus_1)
  then have "(crc_bit ^^ 8) ?w = (crc_bit ^^ 8) (?w AND 0xFF) XOR (crc_bit ^^ 8) (push_bit 8 (drop_bit 8 ?w))"
    by (metis crc_bits_xor)
  moreover have "drop_bit 8 ?w = drop_bit 8 crc"
    by (rule bit_eqI) (auto simp: bit_simps dest: bit_imp_le_length)
  moreover have "of_nat (crc_index crc b) = ?w AND 0xFF" by (simp add: crc_index_def)
  ultimately show ?thesis unfolding crc_byte_def by (metis crc_bits_high)
qed

lemma crc32_step_eq_iff: "crc32_step crc b = crc_byte crc b \<longleftrightarrow> crc_index crc b \<notin> {86, 111}"
proof -
  have "crc32_step crc b = crc32_table ! crc_index crc b XOR drop_bit 8 crc"
    by (simp add: crc32_step_def crc_index_def)
  moreover have "x XOR z = y XOR z \<longleftrightarrow> x = y" for x y z :: u32
    by (metis xor.assoc xor.right_neutral xor_self_eq)
  ultimately show ?thesis
    using crc32_table_entry [OF crc_index_less, of crc b] crc32_bad_entries
    by (auto simp: crc_byte_table)
qed

fun crc_clean :: "u32 \<Rightarrow> u8 list \<Rightarrow> bool" where
  "crc_clean crc [] \<longleftrightarrow> True"
| "crc_clean crc (b # bs) \<longleftrightarrow> crc_index crc b \<notin> {86, 111} \<and> crc_clean (crc32_step crc b) bs"

lemma crc_clean_foldl: "crc_clean crc data \<Longrightarrow> foldl crc32_step crc data = foldl crc_byte crc data"
  by (induction data arbitrary: crc) (auto simp: crc32_step_eq_iff [THEN iffD2])

text \<open>
  The table-driven CRC-32 computes the polynomial remainder as long as no byte selects table entry
  86 or 111; the first byte that does yields a wrong checksum: these two constants are mistyped.
\<close>

theorem crc32_table_equiv:
  assumes "crc_clean 0xFFFFFFFF data"
  shows "crc32 data = crc32_serial data
    \<and> (crc_index (NOT (crc32 data)) b \<in> {86, 111} \<longleftrightarrow> crc32 (data @ [b]) \<noteq> crc32_serial (data @ [b]))"
proof (rule conjI)
  have eq: "foldl crc32_step 0xFFFFFFFF data = foldl crc_byte 0xFFFFFFFF data"
    using assms by (rule crc_clean_foldl)
  then show "crc32 data = crc32_serial data" by (simp add: crc32_def crc32_serial_def)
  show "crc_index (NOT (crc32 data)) b \<in> {86, 111} \<longleftrightarrow> crc32 (data @ [b]) \<noteq> crc32_serial (data @ [b])"
    using crc32_step_eq_iff [of "foldl crc32_step 0xFFFFFFFF data" b] eq
    by (simp add: crc32_def crc32_serial_def)
qed

theorem crc32_table_equiv_witness:
  "crc32 [0x31] = crc32_serial [0x31] \<and> crc32 [0xA9] \<noteq> crc32_serial [0xA9]"
proof -
  have "crc_clean 0xFFFFFFFF [0x31]" "crc_clean 0xFFFFFFFF []" by (simp_all add: crc_index_def)
  moreover have "crc_index (NOT (crc32 [])) 0xA9 = 86" by (simp add: crc_index_def crc32_def)
  ultimately show ?thesis
    using crc32_table_equiv [of "[0x31]"] crc32_table_equiv [of "[]" "0xA9"] by (metis append_Nil insertI1)
qed

end
