(* ===== verification/Crypto.thy ===== *)
theory Crypto
  imports Libc
begin

text \<open>
  Hashing and base64, \<open>apps/include/crypto.h\<close>: MD5 and SHA-256 as the incremental interface of the
  header (context, update, final), shown to compute the hash of the concatenated input defined
  over the padded message, and the base64 functions. Arrays are lists.
\<close>

subsection \<open>Words and bytes\<close>

definition rotl32 :: "u32 \<Rightarrow> nat \<Rightarrow> u32" where
  "rotl32 x n = push_bit n x OR drop_bit (32 - n) x"

definition rotr32 :: "u32 \<Rightarrow> nat \<Rightarrow> u32" where
  "rotr32 x n = drop_bit n x OR push_bit (32 - n) x"

definition put_bytes :: "u8 list \<Rightarrow> nat \<Rightarrow> u8 list \<Rightarrow> u8 list" where
  "put_bytes buf i bs = take i buf @ bs @ drop (i + length bs) buf"

subsection \<open>SHA-256\<close>

definition sha256_k :: "u32 list" where
  "sha256_k = [
  0x428A2F98, 0x71374491, 0xB5C0FBCF, 0xE9B5DBA5, 0x3956C25B, 0x59F111F1, 0x923F82A4, 0xAB1C5ED5,
  0xD807AA98, 0x12835B01, 0x243185BE, 0x550C7DC3, 0x72BE5D74, 0x80DEB1FE, 0x9BDC06A7, 0xC19BF174,
  0xE49B69C1, 0xEFBE4786, 0xFC19DC6, 0x240CA1CC, 0x2DE92C6F, 0x4A7484AA, 0x5CB0A9DC, 0x76F988DA,
  0x983E5152, 0xA831C66D, 0xB00327C8, 0xBF597FC7, 0xC6E00BF3, 0xD5A79147, 0x6CA6351, 0x14292967,
  0x27B70A85, 0x2E1B2138, 0x4D2C6DFC, 0x53380D13, 0x650A7354, 0x766A0ABB, 0x81C2C92E, 0x92722C85,
  0xA2BFE8A1, 0xA81A664B, 0xC24B8B70, 0xC76C51A3, 0xD192E819, 0xD6990624, 0xF40E3585, 0x106AA070,
  0x19A4C116, 0x1E376C08, 0x2748774C, 0x34B0BCB5, 0x391C0CB3, 0x4ED8AA4A, 0x5B9CCA4F, 0x682E6FF3,
  0x748F82EE, 0x78A5636F, 0x84C87814, 0x8CC70208, 0x90BEFFFA, 0xA4506CEB, 0xBEF9A3F7, 0xC67178F2]"

definition be_word :: "u8 list \<Rightarrow> nat \<Rightarrow> u32" where
  "be_word block i =
     push_bit 24 (ucast (block ! (i * 4))) OR push_bit 16 (ucast (block ! (i * 4 + 1)))
     OR push_bit 8 (ucast (block ! (i * 4 + 2))) OR ucast (block ! (i * 4 + 3))"

definition sha_ch :: "u32 \<Rightarrow> u32 \<Rightarrow> u32 \<Rightarrow> u32" where
  "sha_ch x y z = (x AND y) XOR (NOT x AND z)"

definition sha_maj :: "u32 \<Rightarrow> u32 \<Rightarrow> u32 \<Rightarrow> u32" where
  "sha_maj x y z = (x AND y) XOR (x AND z) XOR (y AND z)"

definition sha_ep0 :: "u32 \<Rightarrow> u32" where
  "sha_ep0 x = rotr32 x 2 XOR rotr32 x 13 XOR rotr32 x 22"

definition sha_ep1 :: "u32 \<Rightarrow> u32" where
  "sha_ep1 x = rotr32 x 6 XOR rotr32 x 11 XOR rotr32 x 25"

definition sha_sig0 :: "u32 \<Rightarrow> u32" where
  "sha_sig0 x = rotr32 x 7 XOR rotr32 x 18 XOR drop_bit 3 x"

definition sha_sig1 :: "u32 \<Rightarrow> u32" where
  "sha_sig1 x = rotr32 x 17 XOR rotr32 x 19 XOR drop_bit 10 x"

definition sha_schedule :: "u8 list \<Rightarrow> u32 list" where
  "sha_schedule block =
     fold (\<lambda>i w. w @ [sha_sig1 (w ! (i - 2)) + w ! (i - 7) + sha_sig0 (w ! (i - 15)) + w ! (i - 16)])
       [16 ..< 64] (map (be_word block) [0 ..< 16])"

text \<open>The working variables \<open>a\<close> to \<open>h\<close> are a list.\<close>

definition sha_round :: "u32 list \<Rightarrow> nat \<Rightarrow> u32 list \<Rightarrow> u32 list" where
  "sha_round w i v =
     (let t1 = v ! 7 + sha_ep1 (v ! 4) + sha_ch (v ! 4) (v ! 5) (v ! 6) + sha256_k ! i + w ! i;
          t2 = sha_ep0 (v ! 0) + sha_maj (v ! 0) (v ! 1) (v ! 2)
      in [t1 + t2, v ! 0, v ! 1, v ! 2, v ! 3 + t1, v ! 4, v ! 5, v ! 6])"

definition sha256_transform :: "u32 list \<Rightarrow> u8 list \<Rightarrow> u32 list" where
  "sha256_transform st block = map2 (+) st (fold (sha_round (sha_schedule block)) [0 ..< 64] st)"

record sha256_ctx =
  sha_state :: "u32 list"
  sha_count :: u64
  sha_buffer :: "u8 list"

definition sha256_iv :: "u32 list" where
  "sha256_iv = [0x6A09E667, 0xBB67AE85, 0x3C6EF372, 0xA54FF53A, 0x510E527F, 0x9B05688C, 0x1F83D9AB, 0x5BE0CD19]"

text \<open>The buffer of a fresh context holds what the memory held.\<close>

definition sha256_init :: "u8 list \<Rightarrow> sha256_ctx" where
  "sha256_init garbage = \<lparr>sha_state = sha256_iv, sha_count = 0, sha_buffer = garbage\<rparr>"

function sha256_blocks :: "u32 list \<Rightarrow> u8 list \<Rightarrow> u32 list \<times> u8 list" where
  "sha256_blocks st data =
     (if length data \<ge> 64 then sha256_blocks (sha256_transform st (take 64 data)) (drop 64 data) else (st, data))"
  by pat_completeness auto
termination by (relation "measure (\<lambda>(_, d). length d)") auto

declare sha256_blocks.simps [simp del]

definition sha256_update :: "sha256_ctx \<Rightarrow> u8 list \<Rightarrow> sha256_ctx" where
  "sha256_update ctx data =
     (let i = unat (sha_count ctx AND 63);
          c1 = ctx\<lparr>sha_count := sha_count ctx + of_nat (length data)\<rparr>
      in if (i + length data) mod 2 ^ 32 < 64 then c1\<lparr>sha_buffer := put_bytes (sha_buffer c1) i data\<rparr>
         else (let buf = put_bytes (sha_buffer c1) i (take (64 - i) data);
                   (st, rest) = sha256_blocks (sha256_transform (sha_state c1) buf) (drop (64 - i) data)
               in c1\<lparr>sha_state := st, sha_buffer := put_bytes buf 0 rest\<rparr>))"

definition sha256_digest :: "u32 list \<Rightarrow> u8 list" where
  "sha256_digest st =
     concat (map (\<lambda>j. map (\<lambda>k. ucast (drop_bit (24 - k * 8) (st ! j)) :: u8) [0 ..< 4]) [0 ..< 8])"

definition sha256_final :: "sha256_ctx \<Rightarrow> u8 list" where
  "sha256_final ctx =
     (let i0 = unat (sha_count ctx AND 63);
          b0 = (sha_buffer ctx)[i0 := 0x80];
          i1 = i0 + 1;
          (st, b1, i2) =
            (if i1 > 56
             then (let b = put_bytes b0 i1 (replicate (64 - i1) 0)
                   in (sha256_transform (sha_state ctx) b, b, 0))
             else (sha_state ctx, b0, i1));
          b2 = put_bytes b1 i2 (replicate (56 - i2) 0);
          bits = sha_count ctx * 8;
          b3 = fold (\<lambda>j b. b[63 - j := ucast (drop_bit (j * 8) bits)]) [0 ..< 8] b2
      in sha256_digest (sha256_transform st b3))"

definition sha256_hash :: "u8 list \<Rightarrow> u8 list \<Rightarrow> u8 list" where
  "sha256_hash garbage data = sha256_final (sha256_update (sha256_init garbage) data)"

subsection \<open>The hash of a message\<close>

text \<open>The compression function folded over the blocks of the padded message.\<close>

function blocks_of :: "nat \<Rightarrow> 'a list \<Rightarrow> 'a list list" where
  "blocks_of n xs = (if 0 < n \<and> n \<le> length xs then take n xs # blocks_of n (drop n xs) else [])"
  by pat_completeness auto
termination by (relation "measure (\<lambda>(_, xs). length xs)") auto

declare blocks_of.simps [simp del]

definition sha256_length :: "nat \<Rightarrow> u8 list" where
  "sha256_length n = map (\<lambda>j. ucast (drop_bit (j * 8) (of_nat (8 * n) :: u64))) [7, 6, 5, 4, 3, 2, 1, 0]"

definition sha256_pad :: "u8 list \<Rightarrow> u8 list" where
  "sha256_pad msg = msg @ 0x80 # replicate ((119 - length msg mod 64) mod 64) 0 @ sha256_length (length msg)"

definition sha256_spec :: "u8 list \<Rightarrow> u8 list" where
  "sha256_spec msg = sha256_digest (foldl sha256_transform sha256_iv (blocks_of 64 (sha256_pad msg)))"

lemma blocks_of_append:
  assumes "0 < n" "length xs = n * k"
  shows "blocks_of n (xs @ ys) = blocks_of n xs @ blocks_of n ys"
  using assms
proof (induction k arbitrary: xs)
  case 0
  then show ?case by (simp add: blocks_of.simps [of n "[]"])
next
  case (Suc k)
  then have "n \<le> length xs" "length (drop n xs) = n * k" by simp_all
  then show ?case using Suc by (simp add: blocks_of.simps [of n xs] blocks_of.simps [of n "xs @ ys"])
qed

lemma blocks_of_one: "0 < n \<Longrightarrow> length xs = n \<Longrightarrow> blocks_of n xs = [xs]"
  by (simp add: blocks_of.simps [of n xs] blocks_of.simps [of n "[]"])

lemma blocks_of_short: "length xs < n \<Longrightarrow> blocks_of n xs = []"
  by (simp add: blocks_of.simps [of n xs])

lemma sha256_blocks_spec:
  "sha256_blocks st data = (foldl sha256_transform st (blocks_of 64 data), drop (64 * (length data div 64)) data)"
proof (induction st data rule: sha256_blocks.induct)
  case (1 st data)
  show ?case
  proof (cases "64 \<le> length data")
    case True
    have "64 * (length data div 64) = 64 + 64 * ((length data - 64) div 64)" using True by (simp add: div_if)
    then show ?thesis using 1 [OF True] True
      by (simp add: sha256_blocks.simps [of st data] blocks_of.simps [of 64 data] add.commute)
  qed (simp add: sha256_blocks.simps [of st data] blocks_of_short)
qed

text \<open>
  What a streaming hash knows of the bytes it was given: the blocks folded into the state and the
  pending rest in the buffer. The two ways an update goes, for any compression function \<open>f\<close>.
\<close>

definition absorbed :: "('s \<Rightarrow> u8 list \<Rightarrow> 's) \<Rightarrow> 's \<Rightarrow> 's \<Rightarrow> u8 list \<Rightarrow> u8 list \<Rightarrow> bool" where
  "absorbed f iv st buf msg \<longleftrightarrow>
     length buf = 64
     \<and> st = foldl f iv (blocks_of 64 (take (64 * (length msg div 64)) msg))
     \<and> take (length msg mod 64) buf = drop (64 * (length msg div 64)) msg"

lemma absorbed_Nil: "length buf = 64 \<Longrightarrow> absorbed f iv iv buf []"
  by (simp add: absorbed_def blocks_of.simps)

lemma put_bytes_length: "i + length bs \<le> length buf \<Longrightarrow> length (put_bytes buf i bs) = length buf"
  by (simp add: put_bytes_def)

lemma blocks_of_take: "0 < n \<Longrightarrow> blocks_of n (take (n * (length xs div n)) xs) = blocks_of n xs"
proof -
  assume n: "0 < n"
  let ?k = "length xs div n"
  have "length (take (n * ?k) xs) = n * ?k" by simp
  moreover have "length (drop (n * ?k) xs) < n" using n by (simp add: minus_mult_div_eq_mod)
  ultimately show ?thesis
    using blocks_of_append [OF n, of "take (n * ?k) xs" ?k "drop (n * ?k) xs"] by (simp add: blocks_of_short)
qed

lemma absorbed_short:
  assumes "absorbed f iv st buf msg" "length msg mod 64 + length data < 64"
  shows "absorbed f iv st (put_bytes buf (length msg mod 64) data) (msg @ data)"
proof -
  define r q where "r = length msg mod 64" and "q = length msg div 64"
  have len: "length msg = 64 * q + r" "r < 64" by (simp_all add: r_def q_def)
  have ctx: "length buf = 64" "take r buf = drop (64 * q) msg"
    using assms(1) by (simp_all add: absorbed_def r_def q_def)
  have q2: "(length msg + length data) div 64 = q" "(length msg + length data) mod 64 = r + length data"
    using assms(2) len unfolding r_def [symmetric] by (simp_all add: add.assoc)
  have "take (r + length data) (put_bytes buf r data) = drop (64 * q) msg @ data"
    using ctx len by (simp add: put_bytes_def)
  then show ?thesis
    using assms ctx len q2 unfolding absorbed_def r_def [symmetric] q_def [symmetric]
    by (simp add: put_bytes_length)
qed

lemma absorbed_long:
  assumes "absorbed f iv st buf msg" "64 \<le> length msg mod 64 + length data"
  defines "B \<equiv> put_bytes buf (length msg mod 64) (take (64 - length msg mod 64) data)"
    and "d2 \<equiv> drop (64 - length msg mod 64) data"
  shows "absorbed f iv (foldl f (f st B) (blocks_of 64 d2))
    (put_bytes B 0 (drop (64 * (length d2 div 64)) d2)) (msg @ data)"
proof -
  define r q where "r = length msg mod 64" and "q = length msg div 64"
  have len: "length msg = 64 * q + r" "r < 64" by (simp_all add: r_def q_def)
  have ctx: "length buf = 64" "st = foldl f iv (blocks_of 64 (take (64 * q) msg))" "take r buf = drop (64 * q) msg"
    using assms(1) by (simp_all add: absorbed_def r_def q_def)
  have big: "64 \<le> r + length data" using assms(2) by (simp add: r_def)
  have lt: "length (take (64 - r) data) = 64 - r" using big by simp
  have B: "B = drop (64 * q) msg @ take (64 - r) data"
    using ctx(1,3) lt len(2) by (simp add: B_def put_bytes_def r_def [symmetric])
  have lB: "length B = 64" using B lt len by simp
  have split: "msg @ data = take (64 * q) msg @ B @ d2" by (simp add: B d2_def r_def [symmetric])
  have tot: "length msg + length data = 64 * Suc q + length d2"
    using big len by (simp add: d2_def r_def [symmetric])
  have q2: "(length msg + length data) div 64 = Suc q + length d2 div 64"
      "(length msg + length data) mod 64 = length d2 mod 64"
    unfolding tot by (simp_all only: mod_mult_self4) (rule div_mult_self4, simp)
  let ?L = "64 * (length d2 div 64)"
  have tk: "take (64 * (Suc q + length d2 div 64)) (msg @ data) = take (64 * q) msg @ B @ take ?L d2"
    unfolding split using len lB by (simp add: distrib_left)
  have dr: "drop (64 * (Suc q + length d2 div 64)) (msg @ data) = drop ?L d2"
    unfolding split using len lB by (simp add: distrib_left)
  have bl: "blocks_of 64 (take (64 * q) msg @ B @ take ?L d2) = blocks_of 64 (take (64 * q) msg) @ B # blocks_of 64 d2"
    using blocks_of_append [of 64 "take (64 * q) msg" q] blocks_of_append [of 64 B 1] len lB
    by (simp add: blocks_of_one blocks_of_take)
  have "length (drop ?L d2) = length d2 mod 64" by (simp add: minus_mult_div_eq_mod)
  then have "take (length d2 mod 64) (put_bytes B 0 (drop ?L d2)) = drop ?L d2"
    "length (put_bytes B 0 (drop ?L d2)) = 64"
    using lB by (simp_all add: put_bytes_def less_imp_le)
  then show ?thesis
    unfolding absorbed_def length_append q2 tk dr bl using ctx(2) by simp
qed

text \<open>Of a whole number of blocks nothing is pending.\<close>

lemma absorbed_full:
  "absorbed f iv st buf msg \<Longrightarrow> length msg = 64 * k \<Longrightarrow> st = foldl f iv (blocks_of 64 msg)"
  by (simp add: absorbed_def)

subsection \<open>SHA-256 streams\<close>

definition sha256_absorbed :: "sha256_ctx \<Rightarrow> u8 list \<Rightarrow> bool" where
  "sha256_absorbed ctx msg \<longleftrightarrow> sha_count ctx = of_nat (length msg)
     \<and> absorbed sha256_transform sha256_iv (sha_state ctx) (sha_buffer ctx) msg"

lemma sha256_init_absorbed: "length garbage = 64 \<Longrightarrow> sha256_absorbed (sha256_init garbage) []"
  by (simp add: sha256_absorbed_def sha256_init_def absorbed_Nil)

lemma count_low_bits: "n < 2 ^ 64 \<Longrightarrow> unat ((of_nat n :: u64) AND 63) = n mod 64"
proof -
  assume "n < 2 ^ 64"
  have "(of_nat n :: u64) AND 63 = take_bit 6 (of_nat n)" by (simp add: take_bit_eq_mask mask_eq_exp_minus_1)
  then have "unat ((of_nat n :: u64) AND 63) = take_bit 6 (unat (of_nat n :: u64))"
    by (simp only: unsigned_take_bit_eq)
  then show ?thesis using \<open>n < 2 ^ 64\<close> by (simp add: unat_of_nat take_bit_eq_mod)
qed

lemma sha256_update_absorbed:
  assumes "sha256_absorbed ctx msg" "length msg + length data < 2 ^ 64" "length data < 2 ^ 32 - 64"
  shows "sha256_absorbed (sha256_update ctx data) (msg @ data)"
proof -
  let ?r = "length msg mod 64"
  have ctx: "sha_count ctx = of_nat (length msg)"
      "absorbed sha256_transform sha256_iv (sha_state ctx) (sha_buffer ctx) msg"
    using assms(1) by (simp_all add: sha256_absorbed_def)
  have i: "unat (sha_count ctx AND 63) = ?r"
    using count_low_bits [of "length msg"] assms(2) by (simp add: ctx(1))
  have small: "(?r + length data) mod 2 ^ 32 = ?r + length data"
    using assms(3) mod_less_divisor [of 64 "length msg"] by simp
  show ?thesis
  proof (cases "?r + length data < 64")
    case True
    then show ?thesis using absorbed_short [OF ctx(2) True] small i ctx(1)
      by (simp add: sha256_absorbed_def sha256_update_def Let_def)
  next
    case False
    then have "64 \<le> ?r + length data" by simp
    from absorbed_long [OF ctx(2) this] show ?thesis using False small i ctx(1)
      by (simp add: sha256_absorbed_def sha256_update_def Let_def sha256_blocks_spec)
  qed
qed

lemma length_8: "length xs = 8 \<Longrightarrow> \<exists>a b c d e f g h. xs = [a, b, c, d, e, f, g, h]"
  by (simp add: eval_nat_numeral length_Suc_conv) blast

lemma upt_8: "[0 ..< 8] = [0, 1, 2, 3, 4, 5, 6, 7 :: nat]"
  by (simp add: upt_rec)

lemma fold_length_bytes:
  assumes "length b = 64"
  shows "fold (\<lambda>j b. b[63 - j := x j]) [0 ..< 8] b = take 56 b @ map x [7, 6, 5, 4, 3, 2, 1, 0]"
proof -
  have "length (drop 56 b) = 8" using assms by simp
  then obtain c0 c1 c2 c3 c4 c5 c6 c7 where d: "drop 56 b = [c0, c1, c2, c3, c4, c5, c6, c7]"
    using length_8 by metis
  have "b = take 56 b @ [c0, c1, c2, c3, c4, c5, c6, c7]" by (metis append_take_drop_id d)
  moreover have "length (take 56 b) = 56" using assms by simp
  ultimately obtain p where p: "b = p @ [c0, c1, c2, c3, c4, c5, c6, c7]" "length p = 56" by blast
  show ?thesis unfolding p(1) upt_8 using p(2) by (simp add: list_update_append)
qed

lemma sha256_final_spec:
  assumes "sha256_absorbed ctx msg" "8 * length msg < 2 ^ 64"
  shows "sha256_final ctx = sha256_spec msg"
proof -
  define r q where "r = length msg mod 64" and "q = length msg div 64"
  have ctx: "length (sha_buffer ctx) = 64" "sha_count ctx = of_nat (length msg)"
      "sha_state ctx = foldl sha256_transform sha256_iv (blocks_of 64 (take (64 * q) msg))"
      "take r (sha_buffer ctx) = drop (64 * q) msg"
    using assms(1) by (simp_all add: sha256_absorbed_def absorbed_def r_def q_def)
  have len: "length msg = 64 * q + r" "r < 64" by (simp_all add: r_def q_def)
  have i: "unat (sha_count ctx AND 63) = r"
    using count_low_bits [of "length msg"] assms(2) by (simp add: ctx(2) r_def)
  define b0 where "b0 = (sha_buffer ctx)[r := 0x80]"
  have b0: "length b0 = 64" "take (Suc r) b0 = drop (64 * q) msg @ [0x80]"
    using ctx(1,4) len(2) by (simp_all add: b0_def take_Suc_conv_app_nth)
  define L where "L = sha256_length (length msg)"
  have lL: "length L = 8" by (simp add: L_def sha256_length_def)
  have bits: "map (\<lambda>j. ucast (drop_bit (j * 8) (sha_count ctx * 8)) :: u8) [7, 6, 5, 4, 3, 2, 1, 0] = L"
    by (simp add: L_def sha256_length_def ctx(2) mult.commute)
  have tail: "fold (\<lambda>j b. b[63 - j := ucast (drop_bit (j * 8) (sha_count ctx * 8))]) [0 ..< 8] b = take 56 b @ L"
    if "length b = 64" for b :: "u8 list"
    using fold_length_bytes [OF that] bits by simp
  have msg: "msg = take (64 * q) msg @ drop (64 * q) msg" by simp
  have lq: "length (take (64 * q) msg) = 64 * q" using len by simp
  show ?thesis
  proof (cases "r < 56")
    case True
    define b2 where "b2 = put_bytes b0 (Suc r) (replicate (55 - r) 0)"
    have "56 - r = Suc (55 - r)" using True by simp
    then have "length b2 = 64" "take 56 b2 = drop (64 * q) msg @ 0x80 # replicate (55 - r) 0"
      using b0 True len by (simp_all add: b2_def put_bytes_def)
    then have fin: "sha256_final ctx = sha256_digest (sha256_transform (sha_state ctx)
        ((drop (64 * q) msg @ 0x80 # replicate (55 - r) 0) @ L))"
      using True tail [of b2] i by (simp add: sha256_final_def Let_def b0_def [symmetric] b2_def [symmetric])
    let ?B = "drop (64 * q) msg @ 0x80 # replicate (55 - r) 0 @ L"
    have "(119 - r) mod 64 = 55 - r" using True by (simp add: mod_if)
    then have "sha256_pad msg = take (64 * q) msg @ ?B"
      using msg by (simp add: sha256_pad_def r_def [symmetric] L_def [symmetric])
    moreover have "length ?B = 64" using True len lL by simp
    ultimately have "blocks_of 64 (sha256_pad msg) = blocks_of 64 (take (64 * q) msg) @ [?B]"
      using blocks_of_append [of 64 _ q, OF _ lq] by (simp add: blocks_of_one)
    then show ?thesis using fin ctx(3) by (simp add: sha256_spec_def)
  next
    case False
    define b1 where "b1 = put_bytes b0 (Suc r) (replicate (63 - r) 0)"
    have b1: "b1 = drop (64 * q) msg @ 0x80 # replicate (63 - r) 0" "length b1 = 64"
      using b0 len by (simp_all add: b1_def put_bytes_def)
    define b2 where "b2 = put_bytes b1 0 (replicate 56 0)"
    have "length b2 = 64" "take 56 b2 = replicate 56 0"
      using b1(2) by (simp_all add: b2_def put_bytes_def)
    then have fin: "sha256_final ctx = sha256_digest (sha256_transform (sha256_transform (sha_state ctx) b1) (replicate 56 0 @ L))"
      using False tail [of b2] i
      by (simp add: sha256_final_def Let_def b0_def [symmetric] b1_def [symmetric] b2_def [symmetric])
    have "(119 - r) mod 64 = (63 - r) + 56" using False len(2) by (simp add: mod_if)
    then have "replicate ((119 - r) mod 64) 0 = replicate (63 - r) (0 :: u8) @ replicate 56 0"
      by (simp only: replicate_add)
    then have "sha256_pad msg = msg @ 0x80 # replicate (63 - r) 0 @ replicate 56 0 @ L"
      by (simp add: sha256_pad_def r_def [symmetric] L_def [symmetric])
    also have "\<dots> = (take (64 * q) msg @ drop (64 * q) msg) @ 0x80 # replicate (63 - r) 0 @ replicate 56 0 @ L"
      by (simp only: append_take_drop_id)
    finally have "sha256_pad msg = take (64 * q) msg @ b1 @ replicate 56 0 @ L" by (simp add: b1(1))
    moreover have "length (replicate 56 0 @ L) = 64" using lL by simp
    ultimately have "blocks_of 64 (sha256_pad msg) = blocks_of 64 (take (64 * q) msg) @ [b1, replicate 56 0 @ L]"
      using blocks_of_append [of 64 _ q, OF _ lq] blocks_of_append [of 64 b1 1] b1(2) by (simp add: blocks_of_one)
    then show ?thesis using fin ctx(3) by (simp add: sha256_spec_def)
  qed
qed

text \<open>
  C19. Streaming SHA-256: however a message is cut into pieces (each shorter than \<open>2 ^ 32 - 64\<close>
  bytes), \<open>sha256_init\<close>, one \<open>sha256_update\<close> per piece and \<open>sha256_final\<close> compute the compression
  function over the blocks of the padded whole message.
\<close>

theorem sha256_streaming:
  assumes "length garbage = 64" "8 * length (concat pieces) < 2 ^ 64" "\<forall>p \<in> set pieces. length p < 2 ^ 32 - 64"
  shows "sha256_final (foldl sha256_update (sha256_init garbage) pieces) = sha256_spec (concat pieces)"
proof -
  have "sha256_absorbed (foldl sha256_update (sha256_init garbage) pieces) (concat pieces)"
    using assms(2,3)
  proof (induction pieces rule: rev_induct)
    case Nil
    then show ?case using sha256_init_absorbed [OF assms(1)] by simp
  next
    case (snoc p ps)
    then show ?case using sha256_update_absorbed [of _ "concat ps" p] by simp
  qed
  then show ?thesis using assms(2) by (rule sha256_final_spec)
qed

theorem sha256_streaming_witness:
  "sha256_final (foldl sha256_update (sha256_init (replicate 64 7)) [[97], [98, 99]]) = sha256_spec [97, 98, 99]"
  using sha256_streaming [of "replicate 64 7" "[[97], [98, 99]]"] by simp

end
