(* ===== verification/Md5.thy ===== *)
theory Md5
  imports Crypto
begin

text \<open>
  MD5 of \<open>apps/include/crypto.h\<close>: the context with its bit count in two words, and the proof that
  the incremental interface hashes the padded message. The loop index over the input is a natural
  number: inputs stay below \<open>2 ^ 32 - 64\<close> bytes.
\<close>

definition md5_k :: "u32 list" where
  "md5_k = [
  0xD76AA478, 0xE8C7B756, 0x242070DB, 0xC1BDCEEE, 0xF57C0FAF, 0x4787C62A, 0xA8304613, 0xFD469501,
  0x698098D8, 0x8B44F7AF, 0xFFFF5BB1, 0x895CD7BE, 0x6B901122, 0xFD987193, 0xA679438E, 0x49B40821,
  0xF61E2562, 0xC040B340, 0x265E5A51, 0xE9B6C7AA, 0xD62F105D, 0x2441453, 0xD8A1E681, 0xE7D3FBC8,
  0x21E1CDE6, 0xC33707D6, 0xF4D50D87, 0x455A14ED, 0xA9E3E905, 0xFCEFA3F8, 0x676F02D9, 0x8D2A4C8A,
  0xFFFA3942, 0x8771F681, 0x6D9D6122, 0xFDE5380C, 0xA4BEEA44, 0x4BDECFA9, 0xF6BB4B60, 0xBEBFBC70,
  0x289B7EC6, 0xEAA127FA, 0xD4EF3085, 0x4881D05, 0xD9D4D039, 0xE6DB99E5, 0x1FA27CF8, 0xC4AC5665,
  0xF4292244, 0x432AFF97, 0xAB9423A7, 0xFC93A039, 0x655B59C3, 0x8F0CCC92, 0xFFEFF47D, 0x85845DD1,
  0x6FA87E4F, 0xFE2CE6E0, 0xA3014314, 0x4E0811A1, 0xF7537E82, 0xBD3AF235, 0x2AD7D2BB, 0xEB86D391]"

definition md5_s :: "nat list" where
  "md5_s = [
  7, 12, 17, 22, 7, 12, 17, 22, 7, 12, 17, 22, 7, 12, 17, 22,
  5, 9, 14, 20, 5, 9, 14, 20, 5, 9, 14, 20, 5, 9, 14, 20,
  4, 11, 16, 23, 4, 11, 16, 23, 4, 11, 16, 23, 4, 11, 16, 23,
  6, 10, 15, 21, 6, 10, 15, 21, 6, 10, 15, 21, 6, 10, 15, 21]"

definition le_word :: "u8 list \<Rightarrow> nat \<Rightarrow> u32" where
  "le_word block i =
     ucast (block ! (i * 4)) OR push_bit 8 (ucast (block ! (i * 4 + 1)))
     OR push_bit 16 (ucast (block ! (i * 4 + 2))) OR push_bit 24 (ucast (block ! (i * 4 + 3)))"

definition md5_fg :: "nat \<Rightarrow> u32 \<Rightarrow> u32 \<Rightarrow> u32 \<Rightarrow> u32 \<times> nat" where
  "md5_fg i b c d =
     (if i < 16 then ((b AND c) OR (NOT b AND d), i)
      else if i < 32 then ((d AND b) OR (NOT d AND c), (5 * i + 1) mod 16)
      else if i < 48 then (b XOR c XOR d, (3 * i + 5) mod 16)
      else (c XOR (b OR NOT d), (7 * i) mod 16))"

definition md5_round :: "u32 list \<Rightarrow> nat \<Rightarrow> u32 \<times> u32 \<times> u32 \<times> u32 \<Rightarrow> u32 \<times> u32 \<times> u32 \<times> u32" where
  "md5_round m i v =
     (let (a, b, c, d) = v; (f, g) = md5_fg i b c d
      in (d, b + rotl32 (a + f + md5_k ! i + m ! g) (md5_s ! i), b, c))"

definition md5_transform :: "u32 list \<Rightarrow> u8 list \<Rightarrow> u32 list" where
  "md5_transform st block =
     (let (a, b, c, d) = fold (md5_round (map (le_word block) [0 ..< 16])) [0 ..< 64] (st ! 0, st ! 1, st ! 2, st ! 3)
      in [st ! 0 + a, st ! 1 + b, st ! 2 + c, st ! 3 + d])"

record md5_ctx =
  md5_state :: "u32 list"
  md5_count0 :: u32
  md5_count1 :: u32
  md5_buffer :: "u8 list"

definition md5_iv :: "u32 list" where
  "md5_iv = [0x67452301, 0xEFCDAB89, 0x98BADCFE, 0x10325476]"

definition md5_init :: "u8 list \<Rightarrow> md5_ctx" where
  "md5_init garbage = \<lparr>md5_state = md5_iv, md5_count0 = 0, md5_count1 = 0, md5_buffer = garbage\<rparr>"

text \<open>The loop over whole blocks, from index \<open>j\<close>; the index reached is returned.\<close>

function md5_loop :: "u8 list \<Rightarrow> nat \<Rightarrow> u32 list \<Rightarrow> nat \<times> u32 list" where
  "md5_loop data j st =
     (if j + 63 < length data then md5_loop data (j + 64) (md5_transform st (take 64 (drop j data))) else (j, st))"
  by pat_completeness auto
termination by (relation "measure (\<lambda>(d, j, _). length d - j)") auto

declare md5_loop.simps [simp del]

definition md5_update :: "md5_ctx \<Rightarrow> u8 list \<Rightarrow> md5_ctx" where
  "md5_update ctx data =
     (let len = of_nat (length data) :: u32;
          i = unat (drop_bit 3 (md5_count0 ctx) AND 63);
          c0 = md5_count0 ctx + push_bit 3 len;
          c1 = (if c0 < push_bit 3 len then md5_count1 ctx + 1 else md5_count1 ctx) + drop_bit 29 len;
          ctx1 = ctx\<lparr>md5_count0 := c0, md5_count1 := c1\<rparr>;
          part = 64 - i
      in if length data \<ge> part
         then (let buf = put_bytes (md5_buffer ctx) i (take part data);
                   (j, st) = md5_loop data part (md5_transform (md5_state ctx) buf)
               in ctx1\<lparr>md5_state := st, md5_buffer := put_bytes buf 0 (drop j data)\<rparr>)
         else ctx1\<lparr>md5_buffer := put_bytes (md5_buffer ctx) i data\<rparr>)"

definition md5_bits :: "md5_ctx \<Rightarrow> u8 list" where
  "md5_bits ctx = map (\<lambda>i. ucast (drop_bit (i * 8) (md5_count0 ctx))) [0 ..< 4]
                @ map (\<lambda>i. ucast (drop_bit (i * 8) (md5_count1 ctx))) [0 ..< 4]"

definition md5_padding :: "u8 list" where
  "md5_padding = 0x80 # replicate 63 0"

definition md5_digest :: "u32 list \<Rightarrow> u8 list" where
  "md5_digest st = concat (map (\<lambda>i. map (\<lambda>j. ucast (drop_bit (j * 8) (st ! i)) :: u8) [0 ..< 4]) [0 ..< 4])"

definition md5_final :: "md5_ctx \<Rightarrow> u8 list" where
  "md5_final ctx =
     (let index = unat (drop_bit 3 (md5_count0 ctx) AND 63);
          padlen = (if index < 56 then 56 - index else 120 - index)
      in md5_digest (md5_state (md5_update (md5_update ctx (take padlen md5_padding)) (md5_bits ctx))))"

definition md5_hash :: "u8 list \<Rightarrow> u8 list \<Rightarrow> u8 list" where
  "md5_hash garbage data = md5_final (md5_update (md5_init garbage) data)"

subsection \<open>The hash of a message\<close>

definition md5_length :: "nat \<Rightarrow> u8 list" where
  "md5_length n = map (\<lambda>j. of_nat (8 * n div 256 ^ j)) [0 ..< 8]"

definition md5_pad :: "u8 list \<Rightarrow> u8 list" where
  "md5_pad msg = msg @ 0x80 # replicate ((119 - length msg mod 64) mod 64) 0 @ md5_length (length msg)"

definition md5_spec :: "u8 list \<Rightarrow> u8 list" where
  "md5_spec msg = md5_digest (foldl md5_transform md5_iv (blocks_of 64 (md5_pad msg)))"

definition md5_absorbed :: "md5_ctx \<Rightarrow> u8 list \<Rightarrow> bool" where
  "md5_absorbed ctx msg \<longleftrightarrow>
     unat (md5_count0 ctx) = 8 * length msg mod 2 ^ 32 \<and> unat (md5_count1 ctx) = 8 * length msg div 2 ^ 32
     \<and> absorbed md5_transform md5_iv (md5_state ctx) (md5_buffer ctx) msg"

lemma md5_init_absorbed: "length garbage = 64 \<Longrightarrow> md5_absorbed (md5_init garbage) []"
  by (simp add: md5_absorbed_def md5_init_def absorbed_Nil)

lemma md5_loop_spec:
  "j \<le> length data \<Longrightarrow> md5_loop data j st =
     (j + 64 * ((length data - j) div 64), foldl md5_transform st (blocks_of 64 (drop j data)))"
proof (induction data j st rule: md5_loop.induct)
  case (1 data j st)
  show ?case
  proof (cases "j + 63 < length data")
    case True
    then have "j + 64 \<le> length data" "64 \<le> length data - j" by simp_all
    moreover have "64 + 64 * ((length data - (j + 64)) div 64) = 64 * ((length data - j) div 64)"
      using calculation by (simp add: div_if [of "length data - j"])
    ultimately show ?thesis using 1(1) [OF True] True
      by (simp add: md5_loop.simps [of data j st] blocks_of.simps [of 64 "drop j data"] add.commute)
  next
    case False
    then have "(length data - j) div 64 = 0" by simp
    then show ?thesis using False by (simp add: md5_loop.simps [of data j st] blocks_of_short)
  qed
qed

lemma unat_drop_u32: "unat (drop_bit n (w :: u32)) = unat w div 2 ^ n"
  by (simp only: unsigned_drop_bit_eq) (use unat_u32_bound [of w] in \<open>simp add: drop_bit_eq_div take_bit_nat_eq_self\<close>)

lemma md5_index: "md5_absorbed ctx msg \<Longrightarrow> unat (drop_bit 3 (md5_count0 ctx) AND 63) = length msg mod 64"
proof -
  assume a: "md5_absorbed ctx msg"
  have "unat (drop_bit 3 (md5_count0 ctx) AND 63) = (8 * length msg mod 2 ^ 32) div 8 mod 64"
    using a unat_and_mask [of "drop_bit 3 (md5_count0 ctx)" 6]
    by (simp add: md5_absorbed_def mask_eq_exp_minus_1 unat_drop_u32)
  also have "(8 * length msg mod 2 ^ 32) div 8 = length msg mod 2 ^ 29"
    using mult_mod_right [of 8 "length msg" "2 ^ 29"] by simp
  also have "length msg mod 2 ^ 29 mod 64 = length msg mod 64" by (simp add: mod_mod_cancel)
  finally show ?thesis .
qed

lemma carry_nat:
  assumes "a < p" "b < (p :: nat)"
  shows "((a + b) mod p < b) = ((a + b) div p = 1)" "(a + b) div p = 0 \<or> (a + b) div p = 1"
proof -
  have "((a + b) mod p < b) = ((a + b) div p = 1) \<and> ((a + b) div p = 0 \<or> (a + b) div p = 1)"
  proof (cases "a + b < p")
    case True
    then show ?thesis by simp
  next
    case False
    then have "(a + b) mod p = a + b - p" "(a + b) div p = 1"
      using assms by (simp_all add: mod_if div_if)
    then show ?thesis using False assms by simp
  qed
  then show "((a + b) mod p < b) = ((a + b) div p = 1)" "(a + b) div p = 0 \<or> (a + b) div p = 1" by auto
qed

lemma md5_count_step:
  fixes c0 c1 len :: u32 and n l :: nat
  assumes "unat c0 = 8 * n mod 2 ^ 32" "unat c1 = 8 * n div 2 ^ 32" "8 * (n + l) < 2 ^ 64" "l < 2 ^ 32"
  defines "len \<equiv> of_nat l" and "c0' \<equiv> c0 + push_bit 3 len"
  shows "unat c0' = 8 * (n + l) mod 2 ^ 32"
    and "unat ((if c0' < push_bit 3 len then c1 + 1 else c1) + drop_bit 29 len) = 8 * (n + l) div 2 ^ 32"
proof -
  define x y where "x = 8 * n" and "y = 8 * l"
  have xy: "x + y < 2 ^ 64" "8 * (n + l) = x + y" using assms(3) by (simp_all add: x_def y_def)
  have len: "unat len = l" using assms(4) by (simp add: len_def unat_of_nat_u32)
  have yl: "unat (push_bit 3 len) = y mod 2 ^ 32"
  proof -
    have "push_bit 3 len = len * 8" by (simp add: push_bit_eq_mult)
    then show ?thesis by (simp only: unat_word_ariths len) (simp add: y_def mult.commute)
  qed
  have yh: "unat (drop_bit 29 len) = y div 2 ^ 32"
    by (simp add: unat_drop_u32 len y_def)
  have c0': "unat c0' = (x mod 2 ^ 32 + y mod 2 ^ 32) mod 2 ^ 32"
    using assms(1) yl by (simp add: c0'_def unat_word_ariths x_def)
  then show "unat c0' = 8 * (n + l) mod 2 ^ 32" by (simp only: xy(2)) (simp add: mod_add_eq)
  let ?c = "(x mod 2 ^ 32 + y mod 2 ^ 32) div 2 ^ 32"
  have carry: "(c0' < push_bit 3 len) = (?c = 1)" "?c = 0 \<or> ?c = 1"
  proof -
    have "x mod 2 ^ 32 < 2 ^ 32" "y mod 2 ^ 32 < (2 :: nat) ^ 32" by simp_all
    from carry_nat [OF this] show "(c0' < push_bit 3 len) = (?c = 1)" "?c = 0 \<or> ?c = 1"
      unfolding word_less_nat_alt c0' yl by blast+
  qed
  have sum: "(x + y) div 2 ^ 32 = x div 2 ^ 32 + y div 2 ^ 32 + ?c" by (rule div_add1_eq)
  moreover have "(x + y) div 2 ^ 32 < 2 ^ 32"
    using xy(1) by (intro less_mult_imp_div_less) simp
  ultimately have small: "x div 2 ^ 32 + y div 2 ^ 32 + ?c < 2 ^ 32" by simp
  have c1: "unat (if c0' < push_bit 3 len then c1 + 1 else c1) = x div 2 ^ 32 + ?c"
  proof (cases "c0' < push_bit 3 len")
    case True
    then have "?c = 1" using carry(1) by simp
    then show ?thesis using True assms(2) small by (simp add: unat_Suc_small x_def)
  next
    case False
    then have "?c = 0" using carry by simp
    then show ?thesis using False assms(2) by (simp add: x_def)
  qed
  show "unat ((if c0' < push_bit 3 len then c1 + 1 else c1) + drop_bit 29 len) = 8 * (n + l) div 2 ^ 32"
    unfolding xy(2) sum using small c1 yh by (subst unat_add_small) simp_all
qed

lemma md5_update_absorbed:
  assumes "md5_absorbed ctx msg" "8 * (length msg + length data) < 2 ^ 64" "length data < 2 ^ 32"
  shows "md5_absorbed (md5_update ctx data) (msg @ data)"
proof -
  let ?r = "length msg mod 64"
  have ctx: "unat (md5_count0 ctx) = 8 * length msg mod 2 ^ 32" "unat (md5_count1 ctx) = 8 * length msg div 2 ^ 32"
      "absorbed md5_transform md5_iv (md5_state ctx) (md5_buffer ctx) msg"
    using assms(1) by (simp_all only: md5_absorbed_def)
  note cnt = md5_count_step [OF ctx(1,2) assms(2,3)]
  have i: "unat (drop_bit 3 (md5_count0 ctx) AND 63) = ?r" by (rule md5_index [OF assms(1)])
  show ?thesis
  proof (cases "?r + length data < 64")
    case True
    then have "\<not> 64 - ?r \<le> length data" by linarith
    then show ?thesis using absorbed_short [OF ctx(3) True] cnt
      unfolding md5_absorbed_def md5_update_def Let_def i by simp
  next
    case False
    then have big: "64 \<le> ?r + length data" "64 - ?r \<le> length data" by simp_all
    define d2 where "d2 = drop (64 - ?r) data"
    have "drop (64 - ?r + 64 * ((length data - (64 - ?r)) div 64)) data = drop (64 * (length d2 div 64)) d2"
      using big by (simp add: d2_def add.commute)
    then show ?thesis using absorbed_long [OF ctx(3) big(1)] cnt big(2)
      unfolding md5_absorbed_def md5_update_def Let_def i d2_def [symmetric]
      by (simp add: md5_loop_spec d2_def)
  qed
qed

lemma byte_of_word: "(ucast (drop_bit n w) :: u8) = of_nat (unat (w :: u32) div 2 ^ n)"
proof -
  have "(of_nat (unat (drop_bit n w)) :: u8) = ucast (drop_bit n w)" by simp
  then show ?thesis unfolding unat_drop_u32 by simp
qed

lemma byte_of_mod:
  assumes "256 dvd k"
  shows "(of_nat (x mod (c * k) div c) :: u8) = of_nat (x div c)"
proof (cases "c = 0")
  case False
  have "x mod (c * k) div c = x div c mod k" using False by (simp add: mod_mult2_eq)
  moreover have "x div c mod k mod 256 = x div c mod 256" using assms by (rule mod_mod_cancel)
  ultimately show ?thesis by (simp add: word_unat_eq_iff unat_of_nat)
qed simp

lemma md5_bits_length:
  assumes "md5_absorbed ctx msg"
  shows "md5_bits ctx = md5_length (length msg)"
proof -
  let ?x = "8 * length msg"
  have c: "unat (md5_count0 ctx) = ?x mod 2 ^ 32" "unat (md5_count1 ctx) = ?x div 2 ^ 32"
    using assms by (simp_all only: md5_absorbed_def)
  have low: "(ucast (drop_bit (i * 8) (md5_count0 ctx)) :: u8) = of_nat (?x div 256 ^ i)" if "i < 4" for i
  proof -
    have "(2 :: nat) ^ 32 = 256 ^ i * 256 ^ (4 - i)" "256 dvd (256 :: nat) ^ (4 - i)"
      using that by (simp_all flip: power_add)
    then have "(of_nat (?x mod 2 ^ 32 div 256 ^ i) :: u8) = of_nat (?x div 256 ^ i)"
      using byte_of_mod [of "256 ^ (4 - i)" ?x "256 ^ i"] by simp
    moreover have "(2 :: nat) ^ (i * 8) = 256 ^ i" by (simp only: power_mult mult.commute [of i 8]) simp
    ultimately show ?thesis by (simp only: byte_of_word c)
  qed
  have high: "(ucast (drop_bit (i * 8) (md5_count1 ctx)) :: u8) = of_nat (?x div 256 ^ (i + 4))" for i
  proof -
    have "(2 :: nat) ^ (i * 8) = 256 ^ i" by (simp only: power_mult mult.commute [of i 8]) simp
    then have "(2 :: nat) ^ 32 * 2 ^ (i * 8) = 256 ^ (i + 4)" by (simp add: power_add)
    then show ?thesis by (simp only: byte_of_word c div_mult2_eq [symmetric])
  qed
  have "[0 ..< 8] = [0 ..< 4] @ map (\<lambda>i. i + 4) [0 ..< 4 :: nat]" by (simp add: upt_rec)
  then have "md5_length (length msg) = map (\<lambda>j. of_nat (?x div 256 ^ j)) [0 ..< 4]
      @ map (\<lambda>j. of_nat (?x div 256 ^ (j + 4))) [0 ..< 4]" by (simp add: md5_length_def)
  moreover have "map (\<lambda>i. ucast (drop_bit (i * 8) (md5_count0 ctx)) :: u8) [0 ..< 4] = map (\<lambda>j. of_nat (?x div 256 ^ j)) [0 ..< 4]"
    by (rule map_cong [OF refl], rule low) simp
  ultimately show ?thesis unfolding md5_bits_def by (simp only: high)
qed

lemma md5_final_spec:
  assumes "md5_absorbed ctx msg" "8 * (length msg + 128) < 2 ^ 64"
  shows "md5_final ctx = md5_spec msg"
proof -
  define r where "r = length msg mod 64"
  define n where "n = (if r < 56 then 56 - r else 120 - r)"
  define pad where "pad = take n md5_padding"
  have r: "r < 64" by (simp add: r_def)
  have pad: "pad = 0x80 # replicate ((119 - r) mod 64) 0"
    using r by (auto simp: pad_def n_def md5_padding_def take_Cons' mod_if min_def)
  have lp: "length pad = n" using r by (simp add: pad_def n_def md5_padding_def)
  define ctx2 where "ctx2 = md5_update ctx pad"
  have a2: "md5_absorbed ctx2 (msg @ pad)"
    unfolding ctx2_def using assms lp r by (intro md5_update_absorbed) (auto simp: n_def)
  have b: "md5_bits ctx = md5_length (length msg)" using assms(1) by (rule md5_bits_length)
  have a3: "md5_absorbed (md5_update ctx2 (md5_bits ctx)) ((msg @ pad) @ md5_bits ctx)"
    using assms(2) lp r by (intro md5_update_absorbed [OF a2]) (auto simp: n_def b md5_length_def)
  have full: "(msg @ pad) @ md5_bits ctx = md5_pad msg"
    by (simp add: pad b md5_pad_def r_def)
  have "\<exists>k. length (md5_pad msg) = 64 * k"
  proof -
    define q where "q = length msg div 64"
    have "length msg = 64 * q + r" by (simp add: q_def r_def)
    then have "length (md5_pad msg) = 64 * q + r + n + 8"
      using full [symmetric] lp by (simp add: b md5_length_def)
    then have "length (md5_pad msg) = 64 * (q + (if r < 56 then 1 else 2))"
      using r by (cases "r < 56") (simp_all add: n_def)
    then show ?thesis by (rule exI)
  qed
  then obtain k where k: "length (md5_pad msg) = 64 * k" by blast
  have "absorbed md5_transform md5_iv (md5_state (md5_update ctx2 (md5_bits ctx)))
      (md5_buffer (md5_update ctx2 (md5_bits ctx))) (md5_pad msg)"
    using a3 unfolding md5_absorbed_def full by (elim conjE)
  then have "md5_state (md5_update ctx2 (md5_bits ctx)) = foldl md5_transform md5_iv (blocks_of 64 (md5_pad msg))"
    by (rule absorbed_full [OF _ k])
  moreover have "md5_final ctx = md5_digest (md5_state (md5_update ctx2 (md5_bits ctx)))"
    unfolding md5_final_def Let_def md5_index [OF assms(1)] r_def [symmetric] n_def [symmetric]
    by (simp add: ctx2_def pad_def)
  ultimately show ?thesis by (simp add: md5_spec_def)
qed

text \<open>
  Streaming MD5: however a message is cut into pieces, the digest is that of the padded whole
  message.
\<close>

theorem md5_streaming:
  assumes "length garbage = 64" "8 * (length (concat pieces) + 128) < 2 ^ 64" "\<forall>p \<in> set pieces. length p < 2 ^ 32 - 64"
  shows "md5_final (foldl md5_update (md5_init garbage) pieces) = md5_spec (concat pieces)"
proof -
  have "md5_absorbed (foldl md5_update (md5_init garbage) pieces) (concat pieces)"
    using assms(2,3)
  proof (induction pieces rule: rev_induct)
    case Nil
    then show ?case using md5_init_absorbed [OF assms(1)] by simp
  next
    case (snoc p ps)
    then show ?case using md5_update_absorbed [of _ "concat ps" p] by simp
  qed
  then show ?thesis using assms(2) by (rule md5_final_spec)
qed

end
