(* ===== verification/Base64.thy ===== *)
theory Base64
  imports Prelude
begin

text \<open>
  Base64 and hexadecimal encoding of \<open>apps/include/crypto.h\<close>. Text is a list of character codes
  without the terminating zero. The decoder's array \<open>v\<close> of four \<open>int\<close> keeps its values from one
  group to the next; reading in front of the text is \<open>None\<close>.
\<close>

definition base64_chars :: "u8 list" where
  "base64_chars = map (\<lambda>c. of_char c)
     ''ABCDEFGHIJKLMNOPQRSTUVWXYZabcdefghijklmnopqrstuvwxyz0123456789+/''"

definition b64 :: "u8 \<Rightarrow> u8" where
  "b64 i = base64_chars ! unat i"

fun base64_encode :: "u8 list \<Rightarrow> u8 list" where
  "base64_encode (a # b # c # rest) =
     b64 (drop_bit 2 a) # b64 (push_bit 4 (a AND 3) OR drop_bit 4 b)
     # b64 (push_bit 2 (b AND 15) OR drop_bit 6 c) # b64 (c AND 63) # base64_encode rest"
| "base64_encode [a, b] =
     [b64 (drop_bit 2 a), b64 (push_bit 4 (a AND 3) OR drop_bit 4 b), b64 (push_bit 2 (b AND 15)), 61]"
| "base64_encode [a] = [b64 (drop_bit 2 a), b64 (push_bit 4 (a AND 3)), 61, 61]"
| "base64_encode [] = []"

definition base64_decode_char :: "u8 \<Rightarrow> u32" where
  "base64_decode_char c =
     (if 65 \<le> sint c \<and> sint c \<le> 90 then word_of_int (sint c - 65)
      else if 97 \<le> sint c \<and> sint c \<le> 122 then word_of_int (sint c - 97 + 26)
      else if 48 \<le> sint c \<and> sint c \<le> 57 then word_of_int (sint c - 48 + 52)
      else if c = 43 then 62
      else if c = 47 then 63
      else - 1)"

definition decode_value :: "u8 \<Rightarrow> u32" where
  "decode_value c = (if c = 61 then 0 else base64_decode_char c)"

text \<open>One group: up to four characters; \<open>prev\<close> are the two characters in front of it, last first.\<close>

definition decode_group :: "u32 list \<Rightarrow> u8 list \<Rightarrow> u8 list \<Rightarrow> (u8 list \<times> u32 list) option" where
  "decode_group v prev g =
     (let v1 = map decode_value g @ drop (length g) v;
          hist = rev g @ prev
      in if length hist < 2 then None
         else Some (
           ucast (push_bit 2 (v1 ! 0) OR signed_drop_bit 4 (v1 ! 1))
           # (if hist ! 1 \<noteq> 61 then [ucast (push_bit 4 (v1 ! 1) OR signed_drop_bit 2 (v1 ! 2))] else [])
           @ (if hist ! 0 \<noteq> 61 then [ucast (push_bit 6 (v1 ! 2) OR v1 ! 3)] else []), v1))"

function decode_loop :: "u32 list \<Rightarrow> u8 list \<Rightarrow> u8 list \<Rightarrow> u8 list option" where
  "decode_loop v prev txt =
     (if txt = [] then Some []
      else case decode_group v prev (take 4 txt) of
          None \<Rightarrow> None
        | Some (out, v1) \<Rightarrow>
            map_option (\<lambda>r. out @ r) (decode_loop v1 (rev (take 4 txt) @ prev) (drop 4 txt)))"
  by pat_completeness auto
termination by (relation "measure (\<lambda>(_, _, t). length t)") auto

declare decode_loop.simps [simp del]

definition base64_decode :: "u32 list \<Rightarrow> u8 list \<Rightarrow> u8 list option" where
  "base64_decode v txt = decode_loop v [] txt"

definition hex_encode :: "u8 list \<Rightarrow> u8 list" where
  "hex_encode bs = concat (map (\<lambda>b.
     [map (\<lambda>c. of_char c) ''0123456789abcdef'' ! unat (drop_bit 4 b),
      map (\<lambda>c. of_char c) ''0123456789abcdef'' ! unat (b AND 15)]) bs)"

subsection \<open>Decoding inverts encoding\<close>

lemma base64_chars_eval:
  "base64_chars = [65, 66, 67, 68, 69, 70, 71, 72, 73, 74, 75, 76, 77, 78, 79, 80, 81, 82, 83, 84, 85, 86, 87, 88, 89, 90,
    97, 98, 99, 100, 101, 102, 103, 104, 105, 106, 107, 108, 109, 110, 111, 112, 113, 114, 115, 116, 117, 118, 119, 120,
    121, 122, 48, 49, 50, 51, 52, 53, 54, 55, 56, 57, 43, 47]"
  by (simp add: base64_chars_def of_char_def)

lemma decode_chars_list: "map base64_decode_char base64_chars = map word_of_int [0 .. 63]"
  unfolding base64_chars_eval by (simp add: upto_rec1 base64_decode_char_def)

lemma base64_chars_no_pad: "61 \<notin> set base64_chars"
  unfolding base64_chars_eval by simp

lemma decode_chars:
  assumes "i < 64"
  shows "base64_decode_char (base64_chars ! i) = of_nat i" "base64_chars ! i \<noteq> 61"
proof -
  have len: "length base64_chars = 64" unfolding base64_chars_eval by simp
  have "map base64_decode_char base64_chars ! i = map word_of_int [0 .. 63] ! i" by (simp only: decode_chars_list)
  then show "base64_decode_char (base64_chars ! i) = of_nat i" using assms len by (simp add: nth_upto)
  show "base64_chars ! i \<noteq> 61" using base64_chars_no_pad assms len nth_mem by metis
qed

lemma decode_b64:
  assumes "i < 64"
  shows "decode_value (b64 i) = ucast i" "b64 i \<noteq> 61"
proof -
  have "unat i < 64" using assms by (simp add: word_less_nat_alt)
  then show "b64 i \<noteq> 61" "decode_value (b64 i) = ucast i"
    using decode_chars [of "unat i"] by (simp_all add: b64_def decode_value_def)
qed

lemma u8_less_64: "(\<And>n. 6 \<le> n \<Longrightarrow> \<not> bit i n) \<Longrightarrow> (i :: u8) < 64"
proof -
  assume h: "\<And>n. 6 \<le> n \<Longrightarrow> \<not> bit i n"
  have "take_bit 6 i = i"
    by (rule bit_eqI) (use h in \<open>auto simp: bit_take_bit_iff not_less [symmetric]\<close>)
  moreover have "unat (take_bit 6 i) < 2 ^ 6"
    by (simp only: unsigned_take_bit_eq) (rule take_bit_nat_less_exp)
  ultimately show ?thesis by (simp add: word_less_nat_alt)
qed

lemma and_masks: "x AND 3 = take_bit 2 x" "x AND 15 = take_bit 4 x" "x AND 63 = take_bit 6 x" for x :: u8
  by (simp_all add: take_bit_eq_mask mask_eq_exp_minus_1)

lemmas b64_bits = and_masks bit_or_iff bit_push_bit_iff bit_drop_bit_eq bit_take_bit_iff

lemma b64_indices:
  "drop_bit 2 a < (64 :: u8)" "push_bit 4 (a AND 3) OR drop_bit 4 b < (64 :: u8)"
  "push_bit 2 (b AND 15) OR drop_bit 6 c < (64 :: u8)" "c AND 63 < (64 :: u8)"
  "push_bit 4 (a AND 3) < (64 :: u8)" "push_bit 2 (b AND 15) < (64 :: u8)"
  by (rule u8_less_64, auto simp: b64_bits dest: bit_imp_le_length)+

text \<open>The three bytes of a group from its four values.\<close>

lemma recombine:
  fixes a b c :: u8
  shows "ucast (push_bit 2 (ucast (drop_bit 2 a) :: u32) OR signed_drop_bit 4 (ucast (push_bit 4 (a AND 3) OR drop_bit 4 b))) = a"
    and "ucast (push_bit 2 (ucast (drop_bit 2 a) :: u32) OR signed_drop_bit 4 (ucast (push_bit 4 (a AND 3)))) = a"
    and "ucast (push_bit 4 (ucast (push_bit 4 (a AND 3) OR drop_bit 4 b) :: u32)
           OR signed_drop_bit 2 (ucast (push_bit 2 (b AND 15) OR drop_bit 6 c))) = b"
    and "ucast (push_bit 4 (ucast (push_bit 4 (a AND 3) OR drop_bit 4 b) :: u32)
           OR signed_drop_bit 2 (ucast (push_bit 2 (b AND 15)))) = b"
    and "ucast (push_bit 6 (ucast (push_bit 2 (b AND 15) OR drop_bit 6 c) :: u32) OR ucast (c AND 63)) = c"
proof -
  have n8: "n < LENGTH(8) \<Longrightarrow> n = 0 \<or> n = 1 \<or> n = 2 \<or> n = 3 \<or> n = 4 \<or> n = 5 \<or> n = 6 \<or> n = 7" for n
    by auto
  have le: "bit x n \<Longrightarrow> n < 8" for x :: u8 and n using bit_imp_le_length [of x n] by simp
  show "ucast (push_bit 2 (ucast (drop_bit 2 a) :: u32) OR signed_drop_bit 4 (ucast (push_bit 4 (a AND 3) OR drop_bit 4 b))) = a"
    by (rule bit_word_eqI) (drule n8, elim disjE, auto simp: bit_simps and_masks dest: le)
  show "ucast (push_bit 2 (ucast (drop_bit 2 a) :: u32) OR signed_drop_bit 4 (ucast (push_bit 4 (a AND 3)))) = a"
    by (rule bit_word_eqI) (drule n8, elim disjE, auto simp: bit_simps and_masks dest: le)
  show "ucast (push_bit 4 (ucast (push_bit 4 (a AND 3) OR drop_bit 4 b) :: u32)
           OR signed_drop_bit 2 (ucast (push_bit 2 (b AND 15) OR drop_bit 6 c))) = b"
    by (rule bit_word_eqI) (drule n8, elim disjE, auto simp: bit_simps and_masks dest: le)
  show "ucast (push_bit 4 (ucast (push_bit 4 (a AND 3) OR drop_bit 4 b) :: u32)
           OR signed_drop_bit 2 (ucast (push_bit 2 (b AND 15)))) = b"
    by (rule bit_word_eqI) (drule n8, elim disjE, auto simp: bit_simps and_masks dest: le)
  show "ucast (push_bit 6 (ucast (push_bit 2 (b AND 15) OR drop_bit 6 c) :: u32) OR ucast (c AND 63)) = c"
    by (rule bit_word_eqI) (drule n8, elim disjE, auto simp: bit_simps and_masks dest: le)
qed

lemma decode_group_3:
  "\<exists>v1. decode_group v prev (base64_encode [a, b, c]) = Some ([a, b, c], v1)"
  using decode_b64 [OF b64_indices(1), of a] decode_b64 [OF b64_indices(2), of a b]
    decode_b64 [OF b64_indices(3), of b c] decode_b64 [OF b64_indices(4), of c]
  by (simp add: decode_group_def Let_def recombine del: push_bit_and)

lemma decode_group_2:
  "\<exists>v1. decode_group v prev (base64_encode [a, b]) = Some ([a, b], v1)"
  using decode_b64 [OF b64_indices(1), of a] decode_b64 [OF b64_indices(2), of a b] decode_b64 [OF b64_indices(6), of b]
  by (simp add: decode_group_def Let_def recombine del: push_bit_and)

lemma decode_group_1:
  "\<exists>v1. decode_group v prev (base64_encode [a]) = Some ([a], v1)"
  using decode_b64 [OF b64_indices(1), of a] decode_b64 [OF b64_indices(5), of a]
  by (simp add: decode_group_def Let_def recombine del: push_bit_and)

lemma base64_encode_step:
  "base64_encode (a # b # c # rest) = base64_encode [a, b, c] @ base64_encode rest"
  "length (base64_encode [a, b, c]) = 4" "length (base64_encode [a, b]) = 4" "length (base64_encode [a]) = 4"
  by simp_all

lemma decode_loop_group:
  assumes "length g = 4" "decode_group v prev g = Some (out, v1)"
  shows "decode_loop v prev (g @ rest) = map_option (\<lambda>r. out @ r) (decode_loop v1 (rev g @ prev) rest)"
proof -
  have "g @ rest \<noteq> []" using assms(1) by auto
  then show ?thesis unfolding decode_loop.simps [of v prev "g @ rest"] using assms by (simp only: if_not_P) simp
qed

lemma decode_loop_Nil: "decode_loop v prev [] = Some []"
  by (simp add: decode_loop.simps)

lemma decode_loop_encode: "decode_loop v prev (base64_encode bs) = Some bs"
proof (induction bs arbitrary: v prev rule: base64_encode.induct)
  case (1 a b c rest)
  obtain v1 where "decode_group v prev (base64_encode [a, b, c]) = Some ([a, b, c], v1)" using decode_group_3 by blast
  from decode_loop_group [OF base64_encode_step(2) this, of "base64_encode rest"]
  have "decode_loop v prev (base64_encode [a, b, c] @ base64_encode rest) = Some (a # b # c # rest)"
    unfolding "1.IH" by (simp only: option.map append.simps)
  then show ?case by (subst base64_encode_step(1))
next
  case (2 a b)
  obtain v1 where "decode_group v prev (base64_encode [a, b]) = Some ([a, b], v1)" using decode_group_2 by blast
  from decode_loop_group [OF base64_encode_step(3) this, of "[]"] show ?case by (simp add: decode_loop_Nil)
next
  case (3 a)
  obtain v1 where "decode_group v prev (base64_encode [a]) = Some ([a], v1)" using decode_group_1 by blast
  from decode_loop_group [OF base64_encode_step(4) this, of "[]"] show ?case by (simp add: decode_loop_Nil)
next
  case 4
  show ?case by (simp add: decode_loop_Nil)
qed

text \<open>
  Decoding inverts encoding for every byte string, whatever the decoder's array held before.
\<close>

theorem base64_roundtrip:
  "base64_decode v (base64_encode bs) = Some bs"
  by (simp add: base64_decode_def decode_loop_encode)

end
