(* ===== verification/Fat16.thy ===== *)
theory Fat16
  imports Prelude
begin

text \<open>
  The FAT16 driver, \<open>drivers/fat16.cpp\<close>. The disk is a map from sector numbers to sectors of 512
  bytes; \<open>ata_read_sector\<close> and \<open>ata_write_sector\<close> read and replace one sector. All sector numbers
  the driver computes stay below \<open>2 ^ 26\<close> (they are sums and products of 16-bit and 8-bit fields),
  so they are natural numbers, as are clusters, which are read from two bytes. A directory entry is
  its 32 bytes. Walks along a cluster chain are partial: \<open>None\<close> is a chain that loops.
\<close>

subsection \<open>The volume\<close>

record fat =
  disk :: "nat \<Rightarrow> u8 list"
  sectors_per_cluster :: nat
  reserved_sectors :: nat
  fats_count :: nat
  root_entries_count :: nat
  sectors_per_fat :: nat
  total_sectors_16 :: nat
  total_sectors_32 :: nat
  root_dir_start_sector :: nat
  root_sectors :: nat
  data_start_sector :: nat

definition le16 :: "u8 list \<Rightarrow> nat \<Rightarrow> nat" where
  "le16 buf k = unat (buf ! k) + 256 * unat (buf ! (k + 1))"

definition le32 :: "u8 list \<Rightarrow> nat \<Rightarrow> nat" where
  "le32 buf k = le16 buf k + 65536 * le16 buf (k + 2)"

definition put16 :: "nat \<Rightarrow> nat \<Rightarrow> u8 list \<Rightarrow> u8 list" where
  "put16 k v buf = buf[k := of_nat v, k + 1 := of_nat (v div 256)]"

definition put32 :: "nat \<Rightarrow> nat \<Rightarrow> u8 list \<Rightarrow> u8 list" where
  "put32 k v buf = put16 (k + 2) (v div 65536) (put16 k (v mod 65536) buf)"

definition write_sector :: "nat \<Rightarrow> u8 list \<Rightarrow> fat \<Rightarrow> fat" where
  "write_sector s buf f = f\<lparr>disk := (disk f)(s := buf)\<rparr>"

definition fat16_init :: "(nat \<Rightarrow> u8 list) \<Rightarrow> fat" where
  "fat16_init d =
     (let b = d 0;
          res = le16 b 14; nf = unat (b ! 16); ents = le16 b 17; spf = le16 b 22;
          root = res + nf * spf; rs = (ents * 32 + 511) div 512
      in \<lparr>disk = d, sectors_per_cluster = unat (b ! 13), reserved_sectors = res, fats_count = nf,
          root_entries_count = ents, sectors_per_fat = spf, total_sectors_16 = le16 b 19,
          total_sectors_32 = le32 b 32, root_dir_start_sector = root, root_sectors = rs,
          data_start_sector = root + rs\<rparr>)"

definition fat16_get_stats_bytes :: "fat \<Rightarrow> u32 \<times> u32" where
  "fat16_get_stats_bytes f =
     (of_nat (if total_sectors_16 f \<noteq> 0 then total_sectors_16 f else total_sectors_32 f) * 512, 25 * 1024 * 1024)"

subsection \<open>The allocation table\<close>

definition fat16_cluster_to_sector :: "fat \<Rightarrow> nat \<Rightarrow> nat" where
  "fat16_cluster_to_sector f c = data_start_sector f + (c - 2) * sectors_per_cluster f"

definition fat16_get_fat_entry :: "fat \<Rightarrow> nat \<Rightarrow> nat" where
  "fat16_get_fat_entry f c = le16 (disk f (reserved_sectors f + c * 2 div 512)) (c * 2 mod 512)"

definition fat16_set_fat_entry :: "nat \<Rightarrow> nat \<Rightarrow> fat \<Rightarrow> fat" where
  "fat16_set_fat_entry c v f =
     (let s = reserved_sectors f + c * 2 div 512;
          buf = put16 (c * 2 mod 512) v (disk f s);
          f1 = write_sector s buf f
      in if fats_count f > 1 then write_sector (s + sectors_per_fat f) buf f1 else f1)"

definition fat16_alloc_cluster :: "fat \<Rightarrow> nat \<times> fat" where
  "fat16_alloc_cluster f =
     (case first_idx (\<lambda>c. fat16_get_fat_entry f c = 0) [2 ..< 0xFFF0] of
        None \<Rightarrow> (0, f)
      | Some i \<Rightarrow> (i + 2, fat16_set_fat_entry (i + 2) 0xFFFF f))"

subsection \<open>Directory entries\<close>

abbreviation ATTR_VOLUME_ID :: u8 where "ATTR_VOLUME_ID \<equiv> 0x08"
abbreviation ATTR_DIRECTORY :: u8 where "ATTR_DIRECTORY \<equiv> 0x10"
abbreviation ATTR_ARCHIVE :: u8 where "ATTR_ARCHIVE \<equiv> 0x20"
abbreviation ATTR_LFN :: u8 where "ATTR_LFN \<equiv> 0x0F"

definition e_filename :: "u8 list \<Rightarrow> u8 list" where "e_filename e = take 8 e"
definition e_ext :: "u8 list \<Rightarrow> u8 list" where "e_ext e = take 3 (drop 8 e)"
definition e_attributes :: "u8 list \<Rightarrow> u8" where "e_attributes e = e ! 11"
definition e_cluster :: "u8 list \<Rightarrow> nat" where "e_cluster e = le16 e 26"
definition e_size :: "u8 list \<Rightarrow> nat" where "e_size e = le32 e 28"

text \<open>The name as a C string: it ends at the first zero.\<close>

definition fat16_to_name :: "u8 list \<Rightarrow> u8 list \<Rightarrow> u8 list" where
  "fat16_to_name src ext =
     takeWhile (\<lambda>c. c \<noteq> 0)
       (filter (\<lambda>c. c \<noteq> 32) src @ (if ext ! 0 \<noteq> 32 then 46 # filter (\<lambda>c. c \<noteq> 32) ext else []))"

definition upper :: "u8 \<Rightarrow> u8" where
  "upper c = (if 97 \<le> sint c \<and> sint c \<le> 122 then c - 32 else c)"

subsection \<open>Walking a directory\<close>

text \<open>
  The callback gets the entry, its sector and offset and its context; a result other than 0 stops
  the walk.
\<close>

type_synonym 's dir_iterator = "u8 list \<Rightarrow> nat \<Rightarrow> nat \<Rightarrow> 's \<Rightarrow> int \<times> 's"

fun scan_entries :: "'s dir_iterator \<Rightarrow> u8 list \<Rightarrow> nat \<Rightarrow> nat list \<Rightarrow> 's \<Rightarrow> int \<times> 's" where
  "scan_entries cb buf sec [] st = (0, st)"
| "scan_entries cb buf sec (i # is) st =
     (let (r, st1) = cb (take 32 (drop (i * 32) buf)) sec (i * 32) st
      in if r \<noteq> 0 then (r, st1) else scan_entries cb buf sec is st1)"

fun scan_sectors :: "fat \<Rightarrow> 's dir_iterator \<Rightarrow> nat list \<Rightarrow> 's \<Rightarrow> int \<times> 's" where
  "scan_sectors f cb [] st = (0, st)"
| "scan_sectors f cb (sec # secs) st =
     (let (r, st1) = scan_entries cb (disk f sec) sec [0 ..< 16] st
      in if r \<noteq> 0 then (r, st1) else scan_sectors f cb secs st1)"

definition cluster_sectors :: "fat \<Rightarrow> nat \<Rightarrow> nat list" where
  "cluster_sectors f c =
     [fat16_cluster_to_sector f c ..< fat16_cluster_to_sector f c + sectors_per_cluster f]"

partial_function (option) scan_chain :: "fat \<Rightarrow> 's dir_iterator \<Rightarrow> nat \<Rightarrow> 's \<Rightarrow> (int \<times> 's) option" where
  "scan_chain f cb c st =
     (if c \<ge> 2 \<and> c < 0xFFF0 then
        (case scan_sectors f cb (cluster_sectors f c) st of (r, st1) \<Rightarrow>
           if r \<noteq> 0 then Some (r, st1) else scan_chain f cb (fat16_get_fat_entry f c) st1)
      else Some (0, st))"

definition fat16_iterate_dir :: "fat \<Rightarrow> nat \<Rightarrow> 's dir_iterator \<Rightarrow> 's \<Rightarrow> (int \<times> 's) option" where
  "fat16_iterate_dir f dir cb st =
     (if dir = 0
      then Some (scan_sectors f cb [root_dir_start_sector f ..< root_dir_start_sector f + root_sectors f] st)
      else scan_chain f cb dir st)"

text \<open>Looking up a name: the entry found with its sector and offset.\<close>

definition find_callback :: "u8 list \<Rightarrow> (u8 list \<times> nat \<times> nat) option dir_iterator" where
  "find_callback nm e sec off ctx =
     (if e ! 0 = 0 then (1, ctx)
      else if e ! 0 = 0xE5 then (0, ctx)
      else if e_attributes e = ATTR_LFN then (0, ctx)
      else if map upper (fat16_to_name (e_filename e) (e_ext e)) = map upper nm then (1, Some (e, sec, off))
      else (0, ctx))"

definition fat16_find_entry :: "fat \<Rightarrow> nat \<Rightarrow> u8 list \<Rightarrow> (u8 list \<times> nat \<times> nat) option option" where
  "fat16_find_entry f dir nm = map_option snd (fat16_iterate_dir f dir (find_callback nm) None)"

definition find_free_callback :: "(nat \<times> nat) option dir_iterator" where
  "find_free_callback e sec off ctx =
     (if e ! 0 = 0 \<or> e ! 0 = 0xE5 then (1, Some (sec, off)) else (0, ctx))"

text \<open>The 8.3 name: a dot restarts the extension, characters beyond 8 or 3 are dropped.\<close>

fun parse_name :: "u8 list \<Rightarrow> bool \<Rightarrow> nat \<Rightarrow> nat \<Rightarrow> u8 list \<Rightarrow> u8 list \<Rightarrow> u8 list \<times> u8 list" where
  "parse_name [] in_ext fi ei fn ex = (fn, ex)"
| "parse_name (ch # cs) in_ext fi ei fn ex =
     (let c = upper ch in
      if c = 46 then parse_name cs True fi 0 fn ex
      else if in_ext then
        (if ei < 3 then parse_name cs in_ext fi (ei + 1) fn (ex[ei := c]) else parse_name cs in_ext fi ei fn ex)
      else
        (if fi < 8 then parse_name cs in_ext (fi + 1) ei (fn[fi := c]) ex else parse_name cs in_ext fi ei fn ex))"

definition name_83 :: "u8 list \<Rightarrow> u8 list \<times> u8 list" where
  "name_83 nm = parse_name nm False 0 0 (replicate 8 32) (replicate 3 32)"

definition new_entry :: "u8 list \<Rightarrow> u8 \<Rightarrow> nat \<Rightarrow> u8 list" where
  "new_entry nm attr cluster =
     (let (fn, ex) = name_83 nm in fn @ ex @ [attr] @ replicate 14 0 @ [of_nat cluster, of_nat (cluster div 256)] @ replicate 4 0)"

definition put_entry :: "nat \<Rightarrow> nat \<Rightarrow> u8 list \<Rightarrow> fat \<Rightarrow> fat" where
  "put_entry sec off e f =
     write_sector sec (take off (disk f sec) @ e @ drop (off + length e) (disk f sec)) f"

definition fat16_add_entry :: "nat \<Rightarrow> u8 list \<Rightarrow> u8 \<Rightarrow> nat \<Rightarrow> fat \<Rightarrow> (int \<times> fat) option" where
  "fat16_add_entry dir nm attr cluster f =
     (case fat16_find_entry f dir nm of
        None \<Rightarrow> None
      | Some (Some _) \<Rightarrow> Some (- 1, f)
      | Some None \<Rightarrow>
          (case fat16_iterate_dir f dir find_free_callback None of
             None \<Rightarrow> None
           | Some (_, None) \<Rightarrow> Some (- 2, f)
           | Some (_, Some (sec, off)) \<Rightarrow> Some (0, put_entry sec off (new_entry nm attr cluster) f)))"

subsection \<open>File contents\<close>

text \<open>The sectors of one cluster are appended until \<open>sz\<close> bytes are there.\<close>

fun read_sectors :: "fat \<Rightarrow> nat list \<Rightarrow> nat \<Rightarrow> u8 list \<Rightarrow> u8 list" where
  "read_sectors f [] sz acc = acc"
| "read_sectors f (s # ss) sz acc =
     (let acc1 = acc @ disk f s in if length acc1 \<ge> sz then acc1 else read_sectors f ss sz acc1)"

partial_function (option) read_chain :: "fat \<Rightarrow> nat \<Rightarrow> nat \<Rightarrow> u8 list \<Rightarrow> u8 list option" where
  "read_chain f c sz acc =
     (if c \<ge> 2 \<and> c < 0xFFF0 \<and> length acc < sz
      then read_chain f (fat16_get_fat_entry f c) sz (read_sectors f (cluster_sectors f c) sz acc)
      else Some acc)"

definition fat16_read_file :: "fat \<Rightarrow> nat \<Rightarrow> nat \<Rightarrow> u8 list option" where
  "fat16_read_file f cluster sz = read_chain f cluster sz []"

text \<open>Writing one cluster: what is left of the data is returned.\<close>

fun write_sectors :: "nat list \<Rightarrow> u8 list \<Rightarrow> fat \<Rightarrow> u8 list \<times> fat" where
  "write_sectors [] data f = (data, f)"
| "write_sectors (s # ss) data f =
     (if data = [] then (data, f)
      else write_sectors ss (drop 512 data)
             (write_sector s (take 512 data @ drop (length (take 512 data)) (disk f s)) f))"

partial_function (option) write_chain :: "nat \<Rightarrow> u8 list \<Rightarrow> fat \<Rightarrow> (u8 list \<times> fat) option" where
  "write_chain c data f =
     (if c \<ge> 2 \<and> data \<noteq> [] then
        (case write_sectors (cluster_sectors f c) data f of (rest, f1) \<Rightarrow>
           if rest = [] then write_chain c rest f1
           else (let nxt = fat16_get_fat_entry f1 c in
                 if nxt \<ge> 0xFFF0 \<or> nxt = 0 then
                   (case fat16_alloc_cluster f1 of (n, f2) \<Rightarrow>
                      if n = 0 then Some (rest, f2)
                      else write_chain n rest (fat16_set_fat_entry c n f2))
                 else write_chain nxt rest f1))
      else Some (data, f))"

text \<open>\<open>impl\<close> is the first cluster of the node; the result is the number of bytes, the cluster and the volume.\<close>

definition fat16_write_vfs :: "nat \<Rightarrow> u8 list \<Rightarrow> fat \<Rightarrow> (nat \<times> nat \<times> fat) option" where
  "fat16_write_vfs impl data f =
     (case (if impl = 0 then fat16_alloc_cluster f else (impl, f)) of (c, f1) \<Rightarrow>
        if c = 0 then Some (0, impl, f1)
        else map_option (\<lambda>(rest, f2). (length data - length rest, c, f2)) (write_chain c data f1))"

text \<open>\<open>tmp\<close> is the uninitialised buffer of \<open>kmalloc\<close>, or none; \<open>offset + n0\<close> wraps.\<close>

definition fat16_read_vfs :: "u8 list option \<Rightarrow> nat \<Rightarrow> nat \<Rightarrow> u32 \<Rightarrow> u32 \<Rightarrow> fat \<Rightarrow> u8 list option" where
  "fat16_read_vfs tmp impl fsize offset n0 f =
     (case tmp of None \<Rightarrow> Some []
      | Some t \<Rightarrow>
          (case fat16_read_file f impl fsize of None \<Rightarrow> None
           | Some bs \<Rightarrow>
               (let content = bs @ drop (length bs) t;
                    n = (if offset + n0 > of_nat fsize then of_nat fsize - offset else n0)
                in if offset > of_nat fsize then Some []
                   else Some (take (unat n) (drop (unat offset) content)))))"

definition update_entry :: "nat \<Rightarrow> nat \<Rightarrow> nat \<Rightarrow> nat \<Rightarrow> fat \<Rightarrow> fat" where
  "update_entry sec off sz cluster f =
     write_sector sec (put16 (off + 26) cluster (put32 (off + 28) sz (disk f sec))) f"

definition fat16_write_file :: "u8 list \<Rightarrow> u8 list \<Rightarrow> fat \<Rightarrow> (int \<times> fat) option" where
  "fat16_write_file nm data f =
     (case fat16_find_entry f 0 nm of
        None \<Rightarrow> None
      | Some None \<Rightarrow> Some (- 1, f)
      | Some (Some (e, _, _)) \<Rightarrow>
          (case fat16_write_vfs (e_cluster e) data f of None \<Rightarrow> None
           | Some (n, c, f1) \<Rightarrow>
               if n = 0 then Some (0, f1)
               else (case fat16_find_entry f1 0 nm of
                       None \<Rightarrow> None
                     | Some None \<Rightarrow> Some (int n, f1)
                     | Some (Some (_, sec, off)) \<Rightarrow> Some (int n, update_entry sec off (length data) c f1))))"

subsection \<open>Creating and removing\<close>

definition fat16_find_file :: "u8 list \<Rightarrow> fat \<Rightarrow> u8 list option" where
  "fat16_find_file nm f =
     map_option (\<lambda>r. case r of None \<Rightarrow> replicate 32 0 | Some (e, _, _) \<Rightarrow> e) (fat16_find_entry f 0 nm)"

definition fat16_create_vfs :: "nat \<Rightarrow> u8 list \<Rightarrow> fat \<Rightarrow> (int \<times> fat) option" where
  "fat16_create_vfs dir nm f = fat16_add_entry dir nm ATTR_ARCHIVE 0 f"

definition fat16_create_file :: "u8 list \<Rightarrow> fat \<Rightarrow> (int \<times> fat) option" where
  "fat16_create_file nm f = fat16_add_entry 0 nm ATTR_ARCHIVE 0 f"

definition clear_cluster :: "nat \<Rightarrow> fat \<Rightarrow> fat" where
  "clear_cluster c f = fold (\<lambda>s. write_sector s (replicate 512 0)) (cluster_sectors f c) f"

definition fat16_mkdir_vfs :: "nat \<Rightarrow> u8 list \<Rightarrow> fat \<Rightarrow> (int \<times> fat) option" where
  "fat16_mkdir_vfs dir nm f =
     (case fat16_alloc_cluster f of (c, f1) \<Rightarrow>
        if c = 0 then Some (- 1, f1)
        else fat16_add_entry dir nm ATTR_DIRECTORY c (clear_cluster c f1))"

definition fat16_mkdir :: "u8 list \<Rightarrow> fat \<Rightarrow> (int \<times> fat) option" where
  "fat16_mkdir nm f = fat16_mkdir_vfs 0 nm f"

partial_function (option) free_chain :: "nat \<Rightarrow> fat \<Rightarrow> fat option" where
  "free_chain c f =
     (if c \<ge> 2 \<and> c < 0xFFF0 then free_chain (fat16_get_fat_entry f c) (fat16_set_fat_entry c 0 f) else Some f)"

definition fat16_delete_file :: "u8 list \<Rightarrow> fat \<Rightarrow> (int \<times> fat) option" where
  "fat16_delete_file nm f =
     (case fat16_find_entry f 0 nm of
        None \<Rightarrow> None
      | Some None \<Rightarrow> Some (- 1, f)
      | Some (Some (e, sec, off)) \<Rightarrow>
          map_option (\<lambda>f1. (0, write_sector sec ((disk f1 sec)[off := 0xE5]) f1)) (free_chain (e_cluster e) f))"

definition fat16_unlink_vfs :: "nat \<Rightarrow> u8 list \<Rightarrow> fat \<Rightarrow> (int \<times> fat) option" where
  "fat16_unlink_vfs dir nm f = (if dir = 0 then fat16_delete_file nm f else Some (- 1, f))"

definition fat16_rename_vfs :: "nat \<Rightarrow> u8 list \<Rightarrow> u8 list \<Rightarrow> fat \<Rightarrow> (int \<times> fat) option" where
  "fat16_rename_vfs dir old_name new_name f =
     (case fat16_find_entry f dir old_name of
        None \<Rightarrow> None
      | Some None \<Rightarrow> Some (- 1, f)
      | Some (Some (_, sec, off)) \<Rightarrow>
          (let (fn, ex) = name_83 new_name in Some (0, put_entry sec off (fn @ ex) f)))"

text \<open>Listing a directory: the entry with a given index, deleted entries and volume labels skipped.\<close>

definition readdir_callback :: "nat \<Rightarrow> (nat \<times> u8 list option) dir_iterator" where
  "readdir_callback target e sec off ctx =
     (if e ! 0 = 0 then (1, ctx)
      else if e ! 0 = 0xE5 then (0, ctx)
      else if e_attributes e AND ATTR_VOLUME_ID \<noteq> 0 then (0, ctx)
      else if fst ctx = target then (1, (fst ctx, Some e))
      else (0, (fst ctx + 1, snd ctx)))"

datatype d_type = DT_DIR | DT_REG

definition fat16_readdir_vfs :: "nat \<Rightarrow> nat \<Rightarrow> fat \<Rightarrow> (u8 list \<times> nat \<times> d_type) option option" where
  "fat16_readdir_vfs dir index f =
     map_option (\<lambda>(_, ctx). map_option (\<lambda>e.
         (fat16_to_name (e_filename e) (e_ext e), e_cluster e,
          if e_attributes e AND ATTR_DIRECTORY \<noteq> 0 then DT_DIR else DT_REG)) (snd ctx))
       (fat16_iterate_dir f dir (readdir_callback index) (0, None))"

text \<open>The node of a name: size, first cluster and whether it is a directory; \<open>dev\<close> in the root is DevFS.\<close>

datatype fat_node = DevFS | FatNode nat nat bool

definition fat16_finddir_vfs :: "nat \<Rightarrow> u8 list \<Rightarrow> fat \<Rightarrow> fat_node option option" where
  "fat16_finddir_vfs dir nm f =
     (if nm = [100, 101, 118] \<and> dir = 0 then Some (Some DevFS)
      else map_option (map_option (\<lambda>(e, _, _).
             FatNode (e_size e) (e_cluster e) (e_attributes e AND ATTR_DIRECTORY \<noteq> 0))) (fat16_find_entry f dir nm))"

subsection \<open>The table as a map\<close>

text \<open>
  Well-formed geometry: the copies of the table, the root directory and the clusters follow each
  other; \<open>valid_cluster\<close> are those with an entry in the first copy.
\<close>

definition fat_wf :: "fat \<Rightarrow> bool" where
  "fat_wf f \<longleftrightarrow> 0 < sectors_per_cluster f \<and> 0 < fats_count f \<and> (\<forall>s. length (disk f s) = 512)
     \<and> root_dir_start_sector f = reserved_sectors f + fats_count f * sectors_per_fat f
     \<and> data_start_sector f = root_dir_start_sector f + root_sectors f"

definition valid_cluster :: "fat \<Rightarrow> nat \<Rightarrow> bool" where
  "valid_cluster f c \<longleftrightarrow> 2 \<le> c \<and> c < 0xFFF0 \<and> c < 256 * sectors_per_fat f"

definition same_geometry :: "fat \<Rightarrow> fat \<Rightarrow> bool" where
  "same_geometry f g \<longleftrightarrow> g = f\<lparr>disk := disk g\<rparr>"

lemma same_geometryD:
  "same_geometry f g \<Longrightarrow> sectors_per_cluster g = sectors_per_cluster f \<and> reserved_sectors g = reserved_sectors f
    \<and> fats_count g = fats_count f \<and> sectors_per_fat g = sectors_per_fat f \<and> root_sectors g = root_sectors f
    \<and> root_dir_start_sector g = root_dir_start_sector f \<and> data_start_sector g = data_start_sector f"
  unfolding same_geometry_def by (cases f; cases g) simp

lemma same_geometry_simps [simp]: "same_geometry f f" "same_geometry f (write_sector s b f)"
  by (simp_all add: same_geometry_def write_sector_def)

lemma same_geometry_trans: "same_geometry f g \<Longrightarrow> same_geometry g h \<Longrightarrow> same_geometry f h"
  unfolding same_geometry_def by (cases f; cases g; cases h) simp

lemma le16_put16:
  assumes "k + 1 < length buf" "v < 65536"
  shows "le16 (put16 k v buf) k = v"
proof -
  have "unat (of_nat v :: u8) = v mod 256" "unat (of_nat (v div 256) :: u8) = v div 256"
    using assms(2) by (simp_all add: unat_of_nat less_mult_imp_div_less)
  then show ?thesis using assms(1) by (simp add: le16_def put16_def)
qed

lemma le16_put16_other: "j + 1 < k \<or> k + 1 < j \<Longrightarrow> le16 (put16 k v buf) j = le16 buf j"
  by (auto simp: le16_def put16_def)

lemma length_put16 [simp]: "length (put16 k v buf) = length buf"
  by (simp add: put16_def)

lemma fat_index:
  fixes c d :: nat
  assumes "c \<noteq> d" "c * 2 div 512 = d * 2 div 512"
  shows "c * 2 mod 512 + 1 < d * 2 mod 512 \<or> d * 2 mod 512 + 1 < c * 2 mod 512"
proof -
  have m: "x * 2 mod 512 = x mod 256 * 2" "x * 2 div 512 = x div 256" for x :: nat
    using mod_mult_mult2 [of x 2 256] div_mult_mult2 [of 2 x 256] by simp_all
  have "c mod 256 \<noteq> d mod 256" using assms m(2) by (metis div_mult_mod_eq)
  then show ?thesis unfolding m by linarith
qed

lemma set_entry_disk:
  assumes "fat_wf f" "c < 256 * sectors_per_fat f"
  shows "disk (fat16_set_fat_entry c v f) s =
    (if s = reserved_sectors f + c * 2 div 512 \<or> 1 < fats_count f \<and> s = reserved_sectors f + c * 2 div 512 + sectors_per_fat f
     then put16 (c * 2 mod 512) v (disk f (reserved_sectors f + c * 2 div 512)) else disk f s)"
  by (simp add: fat16_set_fat_entry_def write_sector_def Let_def)

lemma set_entry_geometry: "same_geometry f (fat16_set_fat_entry c v f)"
  by (simp add: fat16_set_fat_entry_def write_sector_def Let_def same_geometry_def)

lemma set_entry_fields [simp]:
  "sectors_per_cluster (fat16_set_fat_entry c v f) = sectors_per_cluster f"
  "reserved_sectors (fat16_set_fat_entry c v f) = reserved_sectors f"
  "sectors_per_fat (fat16_set_fat_entry c v f) = sectors_per_fat f"
  "root_dir_start_sector (fat16_set_fat_entry c v f) = root_dir_start_sector f"
  "data_start_sector (fat16_set_fat_entry c v f) = data_start_sector f"
  by (simp_all add: fat16_set_fat_entry_def write_sector_def Let_def)

lemma set_entry_wf:
  assumes "fat_wf f"
  shows "fat_wf (fat16_set_fat_entry c v f)"
  using assms by (simp add: fat16_set_fat_entry_def fat_wf_def write_sector_def Let_def)

lemma get_set_entry:
  assumes "fat_wf f" "c < 256 * sectors_per_fat f" "d < 256 * sectors_per_fat f" "v < 65536"
  shows "fat16_get_fat_entry (fat16_set_fat_entry c v f) d = (if d = c then v else fat16_get_fat_entry f d)"
proof -
  have geo: "reserved_sectors (fat16_set_fat_entry c v f) = reserved_sectors f"
    using same_geometryD [OF set_entry_geometry] by simp
  have cd: "c * 2 div 512 < sectors_per_fat f" "d * 2 div 512 < sectors_per_fat f" using assms(2,3) by auto
  have len: "length (disk f s) = 512" for s using assms(1) by (simp add: fat_wf_def)
  have off: "c * 2 mod 512 + 1 < 512"
  proof -
    have "c * 2 mod 512 = c mod 256 * 2" using mod_mult_mult2 [of c 2 256] by simp
    then show ?thesis using mod_less_divisor [of 256 c] by simp
  qed
  show ?thesis
  proof (cases "d = c")
    case True
    then show ?thesis using assms(4) len off
      by (simp add: fat16_get_fat_entry_def geo set_entry_disk [OF assms(1,2)] le16_put16)
  next
    case False
    show ?thesis
    proof (cases "d * 2 div 512 = c * 2 div 512")
      case True
      have "le16 (put16 (c * 2 mod 512) v buf) (d * 2 mod 512) = le16 buf (d * 2 mod 512)" for buf
        using fat_index [OF False True] by (intro le16_put16_other)
      then show ?thesis using True False
        by (simp add: fat16_get_fat_entry_def geo set_entry_disk [OF assms(1,2)])
    next
      case F: False
      then show ?thesis using cd False
        by (auto simp: fat16_get_fat_entry_def geo set_entry_disk [OF assms(1,2)])
    qed
  qed
qed

text \<open>Sectors from the root directory on are not touched by the table.\<close>

lemma set_entry_outside:
  assumes "fat_wf f" "c < 256 * sectors_per_fat f" "root_dir_start_sector f \<le> s"
  shows "disk (fat16_set_fat_entry c v f) s = disk f s"
proof -
  have c: "c * 2 div 512 < sectors_per_fat f" using assms(2) by auto
  have r: "root_dir_start_sector f = reserved_sectors f + fats_count f * sectors_per_fat f" "0 < fats_count f"
    using assms(1) by (simp_all add: fat_wf_def)
  have "reserved_sectors f + sectors_per_fat f \<le> root_dir_start_sector f" using r by simp
  moreover have "reserved_sectors f + 2 * sectors_per_fat f \<le> root_dir_start_sector f" if "1 < fats_count f"
    using r that by (simp add: mult_le_mono1)
  ultimately show ?thesis using c assms(3) unfolding set_entry_disk [OF assms(1,2)] by auto
qed

subsection \<open>Chains\<close>

fun fat_chain :: "fat \<Rightarrow> nat \<Rightarrow> nat list \<Rightarrow> bool" where
  "fat_chain f c [] \<longleftrightarrow> 0xFFF0 \<le> c"
| "fat_chain f c (d # ds) \<longleftrightarrow> d = c \<and> valid_cluster f c \<and> fat_chain f (fat16_get_fat_entry f c) ds"

text \<open>The chain of a file: none for an empty file, whose first cluster is 0.\<close>

definition file_chain :: "fat \<Rightarrow> nat \<Rightarrow> nat list \<Rightarrow> bool" where
  "file_chain f c cs \<longleftrightarrow> distinct cs \<and> (if cs = [] then c = 0 else fat_chain f c cs)"

definition free_clusters :: "fat \<Rightarrow> nat set" where
  "free_clusters f = {c. valid_cluster f c \<and> fat16_get_fat_entry f c = 0}"

definition cluster_bytes :: "fat \<Rightarrow> nat \<Rightarrow> u8 list" where
  "cluster_bytes f c = concat (map (disk f) (cluster_sectors f c))"

definition chain_bytes :: "fat \<Rightarrow> nat list \<Rightarrow> u8 list" where
  "chain_bytes f cs = concat (map (cluster_bytes f) cs)"

lemma finite_free [simp]: "finite (free_clusters f)"
  by (rule finite_subset [of _ "{..< 0xFFF0}"]) (auto simp: free_clusters_def valid_cluster_def)

lemma chain_not_free: "fat_chain f c cs \<Longrightarrow> d \<in> set cs \<Longrightarrow> d \<notin> free_clusters f"
proof (induction f c cs rule: fat_chain.induct)
  case (2 f c e es)
  show ?case
  proof (cases "d = e")
    case True
    have "fat_chain f (fat16_get_fat_entry f c) es" using 2 by simp
    then have "fat16_get_fat_entry f c \<noteq> 0" by (cases es) (auto simp: valid_cluster_def)
    then show ?thesis using True 2 by (simp add: free_clusters_def)
  qed (use 2 in simp)
qed simp

lemma chain_valid: "fat_chain f c cs \<Longrightarrow> d \<in> set cs \<Longrightarrow> valid_cluster f d"
  by (induction f c cs rule: fat_chain.induct) auto

lemma chain_cong:
  "fat_chain f c cs \<Longrightarrow> same_geometry f g \<Longrightarrow>
   (\<And>d. d \<in> set cs \<Longrightarrow> fat16_get_fat_entry g d = fat16_get_fat_entry f d) \<Longrightarrow> fat_chain g c cs"
proof (induction f c cs rule: fat_chain.induct)
  case (2 f c e es)
  then show ?case using same_geometryD [of f g] by (auto simp: valid_cluster_def)
qed simp

subsection \<open>Sectors of a cluster\<close>

lemma cluster_sectors_outside:
  "fat_wf f \<Longrightarrow> s \<in> set (cluster_sectors f c) \<Longrightarrow> root_dir_start_sector f \<le> s"
  by (simp add: cluster_sectors_def fat16_cluster_to_sector_def fat_wf_def)

lemma cluster_sectors_geometry: "same_geometry f g \<Longrightarrow> cluster_sectors g c = cluster_sectors f c"
  using same_geometryD [of f g] by (simp add: cluster_sectors_def fat16_cluster_to_sector_def)

lemma cluster_sectors_disjoint:
  assumes "2 \<le> c" "2 \<le> d" "c \<noteq> d"
  shows "set (cluster_sectors f c) \<inter> set (cluster_sectors f d) = {}"
proof -
  have "(c - 2) * k + k \<le> (d - 2) * k" if "c < d" "2 \<le> c" for c d k :: nat
  proof -
    have "Suc (c - 2) \<le> d - 2" using that by simp
    then have "Suc (c - 2) * k \<le> (d - 2) * k" by (rule mult_le_mono1)
    then show ?thesis by (simp add: add.commute)
  qed
  from this [of c d "sectors_per_cluster f"] this [of d c "sectors_per_cluster f"] show ?thesis
    using assms by (cases "c < d") (auto simp: cluster_sectors_def fat16_cluster_to_sector_def)
qed

lemma length_cluster_sectors [simp]: "length (cluster_sectors f c) = sectors_per_cluster f"
  by (simp add: cluster_sectors_def)

lemma length_concat_sectors: "fat_wf f \<Longrightarrow> length (concat (map (disk f) ss)) = 512 * length ss"
  by (induction ss) (simp_all add: fat_wf_def)

lemma length_cluster_bytes: "fat_wf f \<Longrightarrow> length (cluster_bytes f c) = 512 * sectors_per_cluster f"
  by (simp add: cluster_bytes_def length_concat_sectors)

lemma length_chain_bytes: "fat_wf f \<Longrightarrow> length (chain_bytes f cs) = 512 * sectors_per_cluster f * length cs"
  by (induction cs) (simp_all add: chain_bytes_def length_cluster_bytes)

lemma cluster_bytes_cong:
  "same_geometry f g \<Longrightarrow> (\<And>s. s \<in> set (cluster_sectors f c) \<Longrightarrow> disk g s = disk f s) \<Longrightarrow> cluster_bytes g c = cluster_bytes f c"
  unfolding cluster_bytes_def by (simp add: cluster_sectors_geometry cong: map_cong)

text \<open>The entries of the table depend on sectors in front of the root directory only.\<close>

lemma get_entry_cong:
  assumes "fat_wf f" "same_geometry f g" "c < 256 * sectors_per_fat f"
    and "\<And>s. s < root_dir_start_sector f \<Longrightarrow> disk g s = disk f s"
  shows "fat16_get_fat_entry g c = fat16_get_fat_entry f c"
proof -
  have "root_dir_start_sector f = reserved_sectors f + fats_count f * sectors_per_fat f" "0 < fats_count f"
    using assms(1) by (simp_all add: fat_wf_def)
  then have "reserved_sectors f + sectors_per_fat f \<le> root_dir_start_sector f" by simp
  moreover have "c * 2 div 512 < sectors_per_fat f" using assms(3) by auto
  ultimately have "reserved_sectors f + c * 2 div 512 < root_dir_start_sector f" by simp
  then show ?thesis using assms(4) same_geometryD [OF assms(2)] by (simp add: fat16_get_fat_entry_def)
qed

subsection \<open>Writing the sectors of a cluster\<close>

lemma write_sectors_spec:
  assumes "fat_wf f" "distinct ss" "write_sectors ss data f = (rest, g)"
  shows "rest = drop (512 * length ss) data" "fat_wf g" "same_geometry f g"
    "\<And>s. s \<notin> set ss \<Longrightarrow> disk g s = disk f s"
    "take (length data) (concat (map (disk g) ss)) = take (512 * length ss) data"
proof -
  have "rest = drop (512 * length ss) data \<and> fat_wf g \<and> same_geometry f g
      \<and> (\<forall>s. s \<notin> set ss \<longrightarrow> disk g s = disk f s)
      \<and> take (length data) (concat (map (disk g) ss)) = take (512 * length ss) data"
    using assms
  proof (induction ss arbitrary: data f)
    case Nil
    then show ?case by simp
  next
    case (Cons s ss)
    show ?case
    proof (cases "data = []")
      case True
      then show ?thesis using Cons.prems by simp
    next
      case False
      define buf where "buf = take 512 data @ drop (length (take 512 data)) (disk f s)"
      define f1 where "f1 = write_sector s buf f"
      have lf: "length (disk f s) = 512" using Cons.prems(1) by (simp add: fat_wf_def)
      have lb: "length buf = 512" using lf by (simp add: buf_def)
      have wf1: "fat_wf f1" using Cons.prems(1) lb by (simp add: f1_def fat_wf_def write_sector_def)
      have w: "write_sectors ss (drop 512 data) f1 = (rest, g)"
        using Cons.prems(3) False by (simp add: f1_def buf_def)
      have IH: "rest = drop (512 * length ss) (drop 512 data)" "fat_wf g" "same_geometry f1 g"
        "\<forall>s. s \<notin> set ss \<longrightarrow> disk g s = disk f1 s"
        "take (length (drop 512 data)) (concat (map (disk g) ss)) = take (512 * length ss) (drop 512 data)"
        using Cons.IH [OF wf1 _ w] Cons.prems(2) by auto
      have gs: "disk g s = buf" using IH(4) Cons.prems(2) by (simp add: f1_def write_sector_def)
      have "same_geometry f g" using same_geometry_trans [OF _ IH(3), of f] by (simp add: f1_def)
      moreover have "\<forall>x. x \<notin> set (s # ss) \<longrightarrow> disk g x = disk f x"
        using IH(4) by (simp add: f1_def write_sector_def)
      moreover have "take (length data) (concat (map (disk g) (s # ss))) = take (512 * length (s # ss)) data"
      proof (cases "512 \<le> length data")
        case True
        then have "buf = take 512 data" using lf by (simp add: buf_def)
        moreover have "take (512 * length (s # ss)) data = take 512 data @ take (512 * length ss) (drop 512 data)"
          by (simp add: take_add)
        ultimately show ?thesis using IH(5) gs lb True by simp
      next
        case False
        then have "take (length data) buf = data" by (simp add: buf_def)
        then show ?thesis using gs lb False by simp
      qed
      ultimately show ?thesis using IH(1,2) by (simp add: add.commute)
    qed
  qed
  then show "rest = drop (512 * length ss) data" "fat_wf g" "same_geometry f g"
    "\<And>s. s \<notin> set ss \<Longrightarrow> disk g s = disk f s"
    "take (length data) (concat (map (disk g) ss)) = take (512 * length ss) data" by auto
qed

subsection \<open>Allocation\<close>

lemma first_idx_upt:
  assumes "first_idx P [a ..< b] = Some i"
  shows "i + a < b" "P (i + a)" "\<And>d. a \<le> d \<Longrightarrow> d < i + a \<Longrightarrow> \<not> P d"
proof -
  have len: "i < b - a" using first_idx_SomeD(1) [OF assms] by simp
  then show "i + a < b" by simp
  show "P (i + a)" using first_idx_SomeD(2) [OF assms] len by (simp add: add.commute)
  show "\<not> P d" if "a \<le> d" "d < i + a" for d
  proof -
    have "d - a < i" "a + (d - a) < b" "a + (d - a) = d" using that len by auto
    then show ?thesis using first_idx_SomeD(3) [OF assms, of "d - a"] by (simp add: nth_upt)
  qed
qed

lemma alloc_cluster_some:
  "first_idx (\<lambda>c. fat16_get_fat_entry f c = 0) [2 ..< n] = Some i \<Longrightarrow> n = 0xFFF0 \<Longrightarrow>
   fat16_alloc_cluster f = (i + 2, fat16_set_fat_entry (i + 2) 0xFFFF f)"
  unfolding fat16_alloc_cluster_def by (erule subst, erule ssubst, subst option.case(2), rule refl)

lemma alloc_free:
  assumes "fat_wf f" "free_clusters f \<noteq> {}"
  shows "\<exists>n. fat16_alloc_cluster f = (n, fat16_set_fat_entry n 0xFFFF f) \<and> n \<in> free_clusters f
    \<and> (\<forall>d. 2 \<le> d \<and> d < n \<longrightarrow> fat16_get_fat_entry f d \<noteq> 0)"
proof -
  obtain c where c: "valid_cluster f c" "fat16_get_fat_entry f c = 0"
    using assms(2) by (auto simp: free_clusters_def)
  let ?P = "\<lambda>c. fat16_get_fat_entry f c = 0"
  define lim :: nat where "lim = 0xFFF0"
  have "2 \<le> c" "c < lim" using c(1) by (simp_all add: valid_cluster_def lim_def)
  then have "c \<in> set [2 ..< lim]" by simp
  then obtain i where i: "first_idx ?P [2 ..< lim] = Some i" using c(2) first_idx_Ex [of ?P "[2 ..< lim]"] by blast
  note fi = first_idx_upt [OF i]
  have "i + 2 \<le> c" using c fi(3) by (metis not_le valid_cluster_def)
  then have "valid_cluster f (i + 2)" using c(1) fi(1) by (simp add: valid_cluster_def lim_def)
  moreover have "fat16_alloc_cluster f = (i + 2, fat16_set_fat_entry (i + 2) 0xFFFF f)"
    by (rule alloc_cluster_some [OF i lim_def])
  ultimately show ?thesis using fi(2,3)
    by (intro exI [of _ "i + 2"]) (auto simp: free_clusters_def)
qed

lemma free_after_set:
  assumes "fat_wf f" "valid_cluster f n" "v < 65536" "v \<noteq> 0"
  shows "free_clusters (fat16_set_fat_entry n v f) = free_clusters f - {n}"
  using get_set_entry [OF assms(1) _ _ assms(3), of n] assms
  by (auto simp: free_clusters_def valid_cluster_def split: if_splits)

lemma chain_set_other:
  assumes "fat_wf f" "fat_chain f c cs" "n \<notin> set cs" "n < 256 * sectors_per_fat f" "v < 65536"
  shows "fat_chain (fat16_set_fat_entry n v f) c cs"
proof (rule chain_cong [OF assms(2) set_entry_geometry])
  fix d assume "d \<in> set cs"
  then have "d < 256 * sectors_per_fat f" "d \<noteq> n" using chain_valid [OF assms(2)] assms(3) by (auto simp: valid_cluster_def)
  then show "fat16_get_fat_entry (fat16_set_fat_entry n v f) d = fat16_get_fat_entry f d"
    using get_set_entry [OF assms(1,4) _ assms(5)] by simp
qed

subsection \<open>Writing a chain\<close>

text \<open>
  What a write to the chain \<open>c # cs\<close> may change: the sectors and entries of the chain and of the
  clusters \<open>new\<close> it was extended by.
\<close>

definition chain_written :: "fat \<Rightarrow> fat \<Rightarrow> nat list \<Rightarrow> nat list \<Rightarrow> bool" where
  "chain_written f g cs new \<longleftrightarrow> fat_wf g \<and> same_geometry f g \<and> set new \<subseteq> free_clusters f
     \<and> fat_chain g (hd cs) (cs @ new) \<and> distinct (cs @ new)
     \<and> (\<forall>d < 256 * sectors_per_fat f. d \<notin> set (cs @ new) \<longrightarrow> fat16_get_fat_entry g d = fat16_get_fat_entry f d)
     \<and> (\<forall>s \<ge> root_dir_start_sector f. (\<forall>d \<in> set (cs @ new). s \<notin> set (cluster_sectors f d)) \<longrightarrow> disk g s = disk f s)"

lemma write_cluster:
  assumes "fat_wf f" "valid_cluster f c" "write_sectors (cluster_sectors f c) data f = (rest, g)"
  shows "rest = drop (512 * sectors_per_cluster f) data" "fat_wf g" "same_geometry f g"
    "\<And>d. d < 256 * sectors_per_fat f \<Longrightarrow> fat16_get_fat_entry g d = fat16_get_fat_entry f d"
    "\<And>s. s \<notin> set (cluster_sectors f c) \<Longrightarrow> disk g s = disk f s"
    "take (length data) (cluster_bytes g c) = take (512 * sectors_per_cluster f) data"
    "free_clusters g = free_clusters f"
proof -
  have dis: "distinct (cluster_sectors f c)" by (simp add: cluster_sectors_def)
  note w = write_sectors_spec [OF assms(1) dis assms(3)]
  show "rest = drop (512 * sectors_per_cluster f) data" "fat_wf g" "same_geometry f g"
    "\<And>s. s \<notin> set (cluster_sectors f c) \<Longrightarrow> disk g s = disk f s"
    using w by simp_all
  show ent: "\<And>d. d < 256 * sectors_per_fat f \<Longrightarrow> fat16_get_fat_entry g d = fat16_get_fat_entry f d"
    using cluster_sectors_outside [OF assms(1)] w(4) by (intro get_entry_cong [OF assms(1) w(3)]) (auto dest: leD)
  show "take (length data) (cluster_bytes g c) = take (512 * sectors_per_cluster f) data"
    using w(5) by (simp add: cluster_bytes_def cluster_sectors_geometry [OF w(3)])
  show "free_clusters g = free_clusters f"
    using ent same_geometryD [OF w(3)] by (auto simp: free_clusters_def valid_cluster_def)
qed

lemma write_chain_rec:
  "2 \<le> c \<Longrightarrow> data \<noteq> [] \<Longrightarrow> write_sectors (cluster_sectors f c) data f = (rest, f1) \<Longrightarrow>
   write_chain c data f =
     (if rest = [] then Some ([], f1)
      else let nxt = fat16_get_fat_entry f1 c in
           if nxt \<ge> 0xFFF0 \<or> nxt = 0 then
             (case fat16_alloc_cluster f1 of (n, f2) \<Rightarrow>
                if n = 0 then Some (rest, f2) else write_chain n rest (fat16_set_fat_entry c n f2))
           else write_chain nxt rest f1)"
  by (subst write_chain.simps) (simp add: write_chain.simps [of c "[]"])

lemma written_extend:
  assumes wf: "fat_wf f" and c: "valid_cluster f c" and ne: "ds \<noteq> []" and cn: "c \<notin> set (ds @ new)"
    and h: "same_geometry f h" "fat16_get_fat_entry h c = hd ds"
      "\<And>d. d < 256 * sectors_per_fat f \<Longrightarrow> d \<noteq> c \<Longrightarrow> d \<notin> set (ds @ new) \<Longrightarrow>
         fat16_get_fat_entry h d = fat16_get_fat_entry f d"
      "\<And>s. root_dir_start_sector f \<le> s \<Longrightarrow> s \<notin> set (cluster_sectors f c) \<Longrightarrow> disk h s = disk f s"
    and w: "chain_written h g ds new"
    and split: "cs @ new' = ds @ new" "set new' \<subseteq> free_clusters f"
  shows "chain_written f g (c # cs) new'" "cluster_bytes g c = cluster_bytes h c"
proof -
  note geo = same_geometryD [OF h(1)]
  have g: "fat_wf g" "same_geometry h g" "fat_chain g (hd ds) (ds @ new)" "distinct (ds @ new)"
      "\<And>d. d < 256 * sectors_per_fat f \<Longrightarrow> d \<notin> set (ds @ new) \<Longrightarrow> fat16_get_fat_entry g d = fat16_get_fat_entry h d"
      "\<And>s. root_dir_start_sector f \<le> s \<Longrightarrow> (\<And>d. d \<in> set (ds @ new) \<Longrightarrow> s \<notin> set (cluster_sectors f d)) \<Longrightarrow>
         disk g s = disk h s"
    using w geo cluster_sectors_geometry [OF h(1)] by (auto simp: chain_written_def)
  have fg: "same_geometry f g" by (rule same_geometry_trans [OF h(1) g(2)])
  have cl: "c < 256 * sectors_per_fat f" "2 \<le> c" using c by (simp_all add: valid_cluster_def)
  have val: "2 \<le> d" if "d \<in> set (ds @ new)" for d using chain_valid [OF g(3) that] by (simp add: valid_cluster_def)
  have ec: "fat16_get_fat_entry g c = hd ds" using g(5) [OF cl(1) cn] h(2) by simp
  have vc: "valid_cluster g c" using c same_geometryD [OF fg] by (simp add: valid_cluster_def)
  have ch: "fat_chain g c (c # ds @ new)" using vc ec g(3) by simp
  show "chain_written f g (c # cs) new'"
    unfolding chain_written_def
  proof (intro conjI allI impI)
    show "fat_chain g (hd (c # cs)) ((c # cs) @ new')" using ch split(1) by simp
    show "distinct ((c # cs) @ new')" using g(4) cn split(1) by simp
    fix d assume "d < 256 * sectors_per_fat f" "d \<notin> set ((c # cs) @ new')"
    then have d: "d < 256 * sectors_per_fat f" "d \<noteq> c" "d \<notin> set (ds @ new)"
      unfolding append_Cons split(1) by simp_all
    show "fat16_get_fat_entry g d = fat16_get_fat_entry f d" using g(5) [OF d(1,3)] h(3) [OF d] by simp
  next
    fix s assume s: "root_dir_start_sector f \<le> s" "\<forall>d \<in> set ((c # cs) @ new'). s \<notin> set (cluster_sectors f d)"
    then have "s \<notin> set (cluster_sectors f c)" "\<And>d. d \<in> set (ds @ new) \<Longrightarrow> s \<notin> set (cluster_sectors f d)"
      unfolding append_Cons split(1) by simp_all
    then show "disk g s = disk f s" using g(6) [OF s(1)] h(4) [OF s(1)] by simp
  qed (use g(1) fg split(2) in simp_all)
  show "cluster_bytes g c = cluster_bytes h c"
  proof (rule cluster_bytes_cong [OF g(2)])
    fix s assume "s \<in> set (cluster_sectors h c)"
    then have s: "s \<in> set (cluster_sectors f c)" by (simp add: cluster_sectors_geometry [OF h(1)])
    show "disk g s = disk h s"
    proof (rule g(6) [OF cluster_sectors_outside [OF wf s]])
      fix d assume d: "d \<in> set (ds @ new)"
      then have "d \<noteq> c" using cn by auto
      then show "s \<notin> set (cluster_sectors f d)" using cluster_sectors_disjoint [OF cl(2) val [OF d]] s by auto
    qed
  qed
qed

lemma write_chain_spec:
  assumes "fat_wf f" "fat_chain f c (c # cs)" "distinct (c # cs)" "data \<noteq> []"
    "length data \<le> 512 * sectors_per_cluster f * (Suc (length cs) + card (free_clusters f))"
  shows "\<exists>g new. write_chain c data f = Some ([], g) \<and> chain_written f g (c # cs) new
    \<and> take (length data) (chain_bytes g (c # cs @ new)) = data"
  using assms
proof (induction "length data" arbitrary: data f c cs rule: less_induct)
  case less
  let ?k = "512 * sectors_per_cluster f"
  have vc: "valid_cluster f c" using less.prems(2) by simp
  then have c: "2 \<le> c" "c < 256 * sectors_per_fat f" "c < 0xFFF0" by (simp_all add: valid_cluster_def)
  obtain rest f1 where ws: "write_sectors (cluster_sectors f c) data f = (rest, f1)" by force
  note w = write_cluster [OF less.prems(1) vc ws]
  note geo = same_geometryD [OF w(3)]
  note rec = write_chain_rec [OF c(1) less.prems(4) ws]
  have disk1: "disk f1 s = disk f s" if "s \<notin> set (cluster_sectors f c)" for s using w(5) that by simp
  have fc: "fat_chain f (fat16_get_fat_entry f c) cs" using less.prems(2) by simp
  show ?case
  proof (cases "rest = []")
    case True
    then have le: "length data \<le> ?k" using w(1) by simp
    have "chain_written f f1 (c # cs) []"
      unfolding chain_written_def
      using w(2,3,4,5) less.prems(2,3) chain_cong [OF less.prems(2) w(3)]
        chain_valid [OF less.prems(2)] by (auto simp: valid_cluster_def)
    moreover have "take (length data) (chain_bytes f1 (c # cs @ [])) = data"
      using le w(6) length_cluster_bytes [OF w(2), of c] geo by (simp add: chain_bytes_def)
    ultimately show ?thesis using True rec by auto
  next
    case False
    then have gt: "?k < length data" using w(1) by simp
    have k: "0 < ?k" using less.prems(1) by (simp add: fat_wf_def)
    have shorter: "length rest < length data" "length rest = length data - ?k" using w(1) k gt by simp_all
    have full: "cluster_bytes f1 c = take ?k data"
      using w(6) gt length_cluster_bytes [OF w(2), of c] geo by simp
    have cb: "data = take ?k data @ rest" using w(1) by simp
    show ?thesis
    proof (cases cs)
      case (Cons d ds)
      have d: "fat16_get_fat_entry f c = d" "valid_cluster f d" using fc Cons by auto
      have e1: "fat16_get_fat_entry f1 c = d" using w(4) c d by simp
      have fc1: "fat_chain f1 d (d # ds)"
        using chain_cong [of f d "d # ds" f1] fc Cons d w(3,4) chain_valid [OF fc] by (auto simp: valid_cluster_def)
      have len: "length rest \<le> 512 * sectors_per_cluster f1 * (Suc (length ds) + card (free_clusters f1))"
        using less.prems(5) shorter(2) Cons geo w(7) by (simp add: algebra_simps)
      obtain g new where g: "write_chain d rest f1 = Some ([], g)" "chain_written f1 g (d # ds) new"
          "take (length rest) (chain_bytes g (d # ds @ new)) = rest"
        using less.hyps [OF shorter(1) w(2) fc1 _ False len] less.prems(3) Cons by auto
      have fr: "set new \<subseteq> free_clusters f" using g(2) w(7) by (simp add: chain_written_def)
      have cn: "c \<notin> set ((d # ds) @ new)"
        using less.prems(3) Cons fr chain_not_free [OF less.prems(2), of c] by auto
      note ext = written_extend [OF less.prems(1) vc _ cn w(3) _ _ disk1 g(2) _ fr, of cs]
      have 1: "chain_written f g (c # cs) new" "cluster_bytes g c = cluster_bytes f1 c"
        using ext e1 w(4) Cons by auto
      have "write_chain c data f = Some ([], g)"
        using rec False e1 d(2) g(1) by (simp add: Let_def valid_cluster_def)
      moreover have "take (length data) (chain_bytes g (c # cs @ new)) = data"
        using g(3) Cons gt shorter(2) full cb by (simp add: chain_bytes_def 1(2))
      ultimately show ?thesis using 1(1) by blast
    next
      case Nil
      have end_c: "0xFFF0 \<le> fat16_get_fat_entry f c" using fc Nil by simp
      then have e1: "0xFFF0 \<le> fat16_get_fat_entry f1 c" using w(4) c by simp
      have "card (free_clusters f) \<noteq> 0"
      proof
        assume "card (free_clusters f) = 0"
        then show False using less.prems(5) gt Nil by simp
      qed
      then have "free_clusters f1 \<noteq> {}" using w(7) by auto
      then obtain n where n: "fat16_alloc_cluster f1 = (n, fat16_set_fat_entry n 0xFFFF f1)" "n \<in> free_clusters f1"
        using alloc_free [OF w(2)] by blast
      then have vn: "valid_cluster f1 n" by (simp add: free_clusters_def)
      then have nn: "2 \<le> n" "n < 256 * sectors_per_fat f1" "n < 0xFFF0" by (simp_all add: valid_cluster_def)
      have nc: "n \<noteq> c" using n(2) w(7) chain_not_free [OF less.prems(2), of c] by auto
      define f2 where "f2 = fat16_set_fat_entry n 0xFFFF f1"
      define h where "h = fat16_set_fat_entry c n f2"
      have wf2: "fat_wf f2" "fat_wf h" using w(2) by (simp_all add: f2_def h_def set_entry_wf)
      have c1: "c < 256 * sectors_per_fat f1" using c geo by simp
      have ent: "fat16_get_fat_entry h x = (if x = c then n else if x = n then 0xFFFF else fat16_get_fat_entry f1 x)"
        if "x < 256 * sectors_per_fat f1" for x
        using get_set_entry [OF wf2(1), of c x n] get_set_entry [OF w(2) nn(2) that, of "0xFFFF"] that c1 nn
        by (simp add: h_def f2_def)
      have geoh: "same_geometry f1 h"
        unfolding h_def f2_def by (rule same_geometry_trans [OF set_entry_geometry set_entry_geometry])
      then have geofh: "same_geometry f h" by (rule same_geometry_trans [OF w(3)])
      note gh = same_geometryD [OF geofh]
      have fch: "fat_chain h n [n]" using ent [OF nn(2)] nc vn same_geometryD [OF geoh] by (simp add: valid_cluster_def)
      have frh: "free_clusters h = free_clusters f - {n}"
        using ent geo gh nn(1) fc w(4) end_c c n(2) w(7)
        by (auto simp: free_clusters_def valid_cluster_def split: if_splits)
      have card: "card (free_clusters f) = Suc (card (free_clusters h))"
        unfolding frh using n(2) w(7) by (intro card.remove) simp_all
      have len: "length rest \<le> 512 * sectors_per_cluster h * (Suc (length []) + card (free_clusters h))"
        using less.prems(5) shorter(2) Nil gh card by (simp add: algebra_simps)
      obtain g new where g: "write_chain n rest h = Some ([], g)" "chain_written h g [n] new"
          "take (length rest) (chain_bytes g (n # [] @ new)) = rest"
        using less.hyps [OF shorter(1) wf2(2) fch _ False len] by auto
      have fr: "set (n # new) \<subseteq> free_clusters f" using g(2) frh n(2) w(7) by (auto simp: chain_written_def)
      then have cn: "c \<notin> set ([n] @ new)" using chain_not_free [OF less.prems(2), of c] by auto
      have diskh: "disk h s = disk f s" if "root_dir_start_sector f \<le> s" "s \<notin> set (cluster_sectors f c)" for s
        using that disk1 set_entry_outside [OF w(2) nn(2)] set_entry_outside [OF wf2(1), of c] c1 geo
        by (simp add: h_def f2_def)
      have hc: "cluster_bytes h c = cluster_bytes f1 c"
      proof (rule cluster_bytes_cong [OF geoh])
        fix s assume "s \<in> set (cluster_sectors f1 c)"
        then have "root_dir_start_sector f1 \<le> s" using cluster_sectors_outside [OF w(2)] by simp
        then show "disk h s = disk f1 s"
          using set_entry_outside [OF w(2) nn(2)] set_entry_outside [OF wf2(1), of c] c1 by (simp add: h_def f2_def)
      qed
      have hn: "fat16_get_fat_entry h c = hd [n]" using ent [OF c1] by simp
      have enth: "fat16_get_fat_entry h d = fat16_get_fat_entry f d"
        if "d < 256 * sectors_per_fat f" "d \<noteq> c" "d \<notin> set ([n] @ new)" for d
        using ent [of d] w(4) [of d] that geo by simp
      note ext = written_extend [OF less.prems(1) vc _ cn geofh hn enth diskh g(2) _ fr, of cs]
      have 1: "chain_written f g (c # cs) (n # new)" "cluster_bytes g c = cluster_bytes f1 c"
        using ext Nil hc by auto
      have "write_chain c data f = Some ([], g)"
        using rec False e1 n(1) nn(1) g(1) by (simp add: Let_def h_def f2_def)
      moreover have "take (length data) (chain_bytes g (c # cs @ n # new)) = data"
        using g(3) Nil gt shorter(2) full cb by (simp add: chain_bytes_def 1(2))
      ultimately show ?thesis using 1(1) by blast
    qed
  qed
qed

subsection \<open>Reading a chain\<close>

lemma read_sectors_spec:
  assumes "length acc < sz" "r = read_sectors f ss sz acc"
  shows "take sz r = take sz (acc @ concat (map (disk f) ss))"
    "length r < sz \<Longrightarrow> r = acc @ concat (map (disk f) ss)"
proof -
  have "take sz r = take sz (acc @ concat (map (disk f) ss))
      \<and> (length r < sz \<longrightarrow> r = acc @ concat (map (disk f) ss))"
    unfolding assms(2) using assms(1)
  proof (induction ss arbitrary: acc)
    case (Cons s ss)
    then show ?case using Cons.IH [of "acc @ disk f s"] by (simp add: Let_def)
  qed simp
  then show "take sz r = take sz (acc @ concat (map (disk f) ss))"
    "length r < sz \<Longrightarrow> r = acc @ concat (map (disk f) ss)" by simp_all
qed

lemma read_chain_spec:
  assumes "fat_wf f" "fat_chain f c cs"
  shows "\<exists>bs. read_chain f c sz acc = Some bs \<and> take sz bs = take sz (acc @ chain_bytes f cs)"
  using assms
proof (induction f c cs arbitrary: acc rule: fat_chain.induct)
  case (1 f c)
  then show ?case by (subst read_chain.simps) (simp add: chain_bytes_def)
next
  case (2 f c d ds)
  have vc: "2 \<le> c" "c < 0xFFF0" using "2.prems"(2) by (simp_all add: valid_cluster_def)
  show ?case
  proof (cases "length acc < sz")
    case False
    then show ?thesis by (subst read_chain.simps) simp
  next
    case True
    let ?r = "read_sectors f (cluster_sectors f c) sz acc"
    note r = read_sectors_spec [OF True refl, of f "cluster_sectors f c"]
    have step: "read_chain f c sz acc = read_chain f (fat16_get_fat_entry f c) sz ?r"
      using True vc by (subst read_chain.simps) simp
    obtain bs where bs: "read_chain f (fat16_get_fat_entry f c) sz ?r = Some bs"
        "take sz bs = take sz (?r @ chain_bytes f ds)"
      using "2.IH" [of ?r] "2.prems" by auto
    have "take sz (?r @ chain_bytes f ds) = take sz (acc @ chain_bytes f (d # ds))"
    proof (cases "length ?r < sz")
      case True
      then have "?r = acc @ cluster_bytes f c" using r(2) by (simp add: cluster_bytes_def)
      then show ?thesis using "2.prems"(2) by (simp add: chain_bytes_def)
    next
      case False
      then have "take sz ?r = take sz (acc @ cluster_bytes f c)" using r(1) by (simp add: cluster_bytes_def)
      moreover have "sz \<le> length (acc @ cluster_bytes f c)"
        using False arg_cong [OF r(1), of length] by (simp add: cluster_bytes_def)
      ultimately have "take sz (?r @ chain_bytes f ds) = take sz (acc @ cluster_bytes f c)" using False by simp
      also have "\<dots> = take sz ((acc @ cluster_bytes f c) @ chain_bytes f ds)"
        using \<open>sz \<le> _\<close> by (simp only: take_append diff_is_0_eq) simp
      finally show ?thesis using "2.prems"(2) by (simp add: chain_bytes_def)
    qed
    then show ?thesis using step bs by simp
  qed
qed

subsection \<open>Files\<close>

lemma alloc_first_cluster:
  assumes "fat_wf f" "free_clusters f \<noteq> {}"
  shows "\<exists>n h. fat16_alloc_cluster f = (n, h) \<and> n \<in> free_clusters f \<and> fat_wf h \<and> same_geometry f h
    \<and> fat_chain h n [n] \<and> free_clusters h = free_clusters f - {n}
    \<and> (\<forall>d < 256 * sectors_per_fat f. d \<noteq> n \<longrightarrow> fat16_get_fat_entry h d = fat16_get_fat_entry f d)
    \<and> (\<forall>s \<ge> root_dir_start_sector f. disk h s = disk f s)"
proof -
  obtain n where n: "fat16_alloc_cluster f = (n, fat16_set_fat_entry n 0xFFFF f)" "n \<in> free_clusters f"
    using alloc_free [OF assms] by blast
  then have vn: "valid_cluster f n" "n < 256 * sectors_per_fat f" by (simp_all add: free_clusters_def valid_cluster_def)
  note e = get_set_entry [OF assms(1) vn(2), where v = "0xFFFF"]
  have "fat_chain (fat16_set_fat_entry n 0xFFFF f) n [n]"
    using e [OF vn(2)] vn same_geometryD [OF set_entry_geometry [of f n "0xFFFF"]] by (simp add: valid_cluster_def)
  then show ?thesis
    using n set_entry_wf [OF assms(1)] set_entry_geometry free_after_set [OF assms(1) vn(1)] e
      set_entry_outside [OF assms(1) vn(2)] by (intro exI conjI) auto
qed

text \<open>What a change to the clusters of \<open>cs @ new\<close> leaves of another chain.\<close>

lemma chain_written_other:
  assumes "fat_wf f" "chain_written f g cs new" "fat_chain f d ds" "set ds \<inter> set cs = {}"
  shows "fat_chain g d ds" "chain_bytes g ds = chain_bytes f ds"
proof -
  have w: "same_geometry f g" "fat_chain g (hd cs) (cs @ new)" "set new \<subseteq> free_clusters f"
      "\<And>d. d < 256 * sectors_per_fat f \<Longrightarrow> d \<notin> set (cs @ new) \<Longrightarrow> fat16_get_fat_entry g d = fat16_get_fat_entry f d"
      "\<And>s. root_dir_start_sector f \<le> s \<Longrightarrow> (\<And>d. d \<in> set (cs @ new) \<Longrightarrow> s \<notin> set (cluster_sectors f d)) \<Longrightarrow>
         disk g s = disk f s"
    using assms(2) by (auto simp: chain_written_def)
  have dis: "e \<notin> set (cs @ new)" if "e \<in> set ds" for e
    using that assms(4) w(3) chain_not_free [OF assms(3) that] by auto
  have val: "2 \<le> e" "e < 256 * sectors_per_fat f" if "e \<in> set ds" for e
    using chain_valid [OF assms(3) that] by (simp_all add: valid_cluster_def)
  show "fat_chain g d ds" using chain_cong [OF assms(3) w(1)] w(4) dis val by blast
  have "cluster_bytes g e = cluster_bytes f e" if e: "e \<in> set ds" for e
  proof (rule cluster_bytes_cong [OF w(1)])
    fix s assume s: "s \<in> set (cluster_sectors f e)"
    show "disk g s = disk f s"
    proof (rule w(5) [OF cluster_sectors_outside [OF assms(1) s]])
      fix x assume x: "x \<in> set (cs @ new)"
      then have "x \<noteq> e" "2 \<le> x" using dis [OF e] chain_valid [OF w(2) x] by (auto simp: valid_cluster_def)
      then show "s \<notin> set (cluster_sectors f x)" using cluster_sectors_disjoint [of x e f] val(1) [OF e] s by auto
    qed
  qed
  then show "chain_bytes g ds = chain_bytes f ds" by (simp add: chain_bytes_def cong: map_cong)
qed

lemma read_file_chain:
  assumes "fat_wf f" "fat_chain f c cs" "take n (chain_bytes f cs) = data" "length data = n"
  shows "\<exists>bs. fat16_read_file f c n = Some bs \<and> take n bs = data"
  using read_chain_spec [OF assms(1,2), of n "[]"] assms(3) by (simp add: fat16_read_file_def)

lemma write_vfs_chain:
  assumes "fat_wf f" "file_chain f c cs" "data \<noteq> []"
    "length data \<le> 512 * sectors_per_cluster f * (length cs + card (free_clusters f))"
  shows "\<exists>c' g cs'. fat16_write_vfs c data f = Some (length data, c', g) \<and> fat_wf g
    \<and> fat_chain g c' cs' \<and> distinct cs' \<and> take (length data) (chain_bytes g cs') = data
    \<and> (\<forall>d ds. fat_chain f d ds \<and> set ds \<inter> set cs = {} \<longrightarrow>
         fat_chain g d ds \<and> chain_bytes g ds = chain_bytes f ds)"
proof (cases cs)
  case (Cons a es)
  have fc: "fat_chain f c (c # es)" "distinct (c # es)" "cs = c # es" "c \<noteq> 0"
    using assms(2) Cons by (auto simp: file_chain_def valid_cluster_def split: if_splits)
  have len: "length data \<le> 512 * sectors_per_cluster f * (Suc (length es) + card (free_clusters f))"
    using assms(4) fc(3) by simp
  obtain g new where g: "write_chain c data f = Some ([], g)" "chain_written f g (c # es) new"
      "take (length data) (chain_bytes g (c # es @ new)) = data"
    using write_chain_spec [OF assms(1) fc(1,2) assms(3) len] by blast
  have "fat_wf g" "fat_chain g c (c # es @ new)" "distinct (c # es @ new)"
    using g(2) by (simp_all add: chain_written_def)
  moreover have "fat16_write_vfs c data f = Some (length data, c, g)"
    using g(1) fc(4) by (simp add: fat16_write_vfs_def)
  ultimately show ?thesis using g(3) chain_written_other [OF assms(1) g(2)] unfolding fc(3) by blast
next
  case Nil
  have c: "c = 0" using assms(2) Nil by (simp add: file_chain_def)
  have "free_clusters f \<noteq> {}" using assms(3,4) Nil by auto
  then obtain n h where h: "fat16_alloc_cluster f = (n, h)" "n \<in> free_clusters f" "fat_wf h" "same_geometry f h"
      "fat_chain h n [n]" "free_clusters h = free_clusters f - {n}"
      "\<And>d. d < 256 * sectors_per_fat f \<Longrightarrow> d \<noteq> n \<Longrightarrow> fat16_get_fat_entry h d = fat16_get_fat_entry f d"
      "\<And>s. root_dir_start_sector f \<le> s \<Longrightarrow> disk h s = disk f s"
    using alloc_first_cluster [OF assms(1)] by blast
  have card: "card (free_clusters f) = Suc (card (free_clusters h))"
    unfolding h(6) using h(2) by (intro card.remove) simp_all
  have len: "length data \<le> 512 * sectors_per_cluster h * (Suc (length []) + card (free_clusters h))"
    using assms(4) Nil card same_geometryD [OF h(4)] by simp
  obtain g new where g: "write_chain n data h = Some ([], g)" "chain_written h g [n] new"
      "take (length data) (chain_bytes g (n # [] @ new)) = data"
    using write_chain_spec [OF h(3,5) _ assms(3) len] by auto
  have nz: "n \<noteq> 0" using h(2) by (auto simp: free_clusters_def valid_cluster_def)
  have "fat_wf g" "fat_chain g n ([n] @ new)" "distinct ([n] @ new)" using g(2) by (simp_all add: chain_written_def)
  moreover have "fat16_write_vfs c data f = Some (length data, n, g)"
    using g(1) nz h(1) c by (simp add: fat16_write_vfs_def)
  moreover have "fat_chain g d ds \<and> chain_bytes g ds = chain_bytes f ds" if d: "fat_chain f d ds" for d ds
  proof -
    have "n \<notin> set ds" using chain_not_free [OF d] h(2) by blast
    then have dn: "set ds \<inter> set [n] = {}" by simp
    have dh: "fat_chain h d ds"
      by (rule chain_cong [OF d h(4)]) (use \<open>n \<notin> set ds\<close> chain_valid [OF d] h(7) in \<open>auto simp: valid_cluster_def\<close>)
    have "chain_bytes h ds = chain_bytes f ds"
      unfolding chain_bytes_def
      by (intro arg_cong [of _ _ concat] map_cong refl cluster_bytes_cong [OF h(4)] h(8))
        (rule cluster_sectors_outside [OF assms(1)])
    then show ?thesis using chain_written_other [OF h(3) g(2) dh dn] by simp
  qed
  ultimately show ?thesis using g(3) by (metis append_Cons append_Nil)
qed

text \<open>
  C20. What is written to a file is what reading it returns, and no other file changes: on a
  well-formed volume with room for the data, writing to a file through \<open>fat16_write_vfs\<close> writes all
  of it, and reading the file from its first cluster (fresh when it had none) starts with the data; any other
  file, a chain that shares no cluster with it, keeps its chain and its bytes.
\<close>

theorem fat_write_read:
  assumes "fat_wf f" "file_chain f c cs" "data \<noteq> []"
    "length data \<le> 512 * sectors_per_cluster f * (length cs + card (free_clusters f))"
    "fat_chain f d ds" "set ds \<inter> set cs = {}"
  shows "\<exists>c' g bs. fat16_write_vfs c data f = Some (length data, c', g)
    \<and> fat16_read_file g c' (length data) = Some bs \<and> take (length data) bs = data
    \<and> fat_wf g \<and> fat_chain g d ds \<and> chain_bytes g ds = chain_bytes f ds"
proof -
  obtain c' g cs' where g: "fat16_write_vfs c data f = Some (length data, c', g)" "fat_wf g"
      "fat_chain g c' cs'" "take (length data) (chain_bytes g cs') = data"
      "fat_chain g d ds" "chain_bytes g ds = chain_bytes f ds"
    using write_vfs_chain [OF assms(1-4)] assms(5,6) by metis
  obtain bs where "fat16_read_file g c' (length data) = Some bs" "take (length data) bs = data"
    using read_file_chain [OF g(2,3,4) refl] by blast
  then show ?thesis using g by blast
qed

definition sample_volume :: fat where
  "sample_volume =
     \<lparr>disk = (\<lambda>s. if s = 1 then put16 6 0xFFFF (replicate 512 0)
               else if s = 2 then new_entry [65] ATTR_ARCHIVE 3 @ replicate 480 0 else replicate 512 0),
      sectors_per_cluster = 1,
      reserved_sectors = 1, fats_count = 1, root_entries_count = 16, sectors_per_fat = 1, total_sectors_16 = 100,
      total_sectors_32 = 0, root_dir_start_sector = 2, root_sectors = 1, data_start_sector = 3\<rparr>"

lemma sample_volume_facts:
  "fat_wf sample_volume" "fat_chain sample_volume 3 [3]" "2 \<in> free_clusters sample_volume"
proof -
  have "fat16_get_fat_entry sample_volume 3 = le16 (put16 6 0xFFFF (replicate 512 0)) 6"
    by (simp add: sample_volume_def fat16_get_fat_entry_def)
  then have "fat16_get_fat_entry sample_volume 3 = 0xFFFF" by (subst (asm) le16_put16) simp_all
  then show "fat_chain sample_volume 3 [3]" by (simp add: valid_cluster_def sample_volume_def)
  have "fat16_get_fat_entry sample_volume 2 = le16 (put16 6 0xFFFF (replicate 512 0)) 4"
    by (simp add: sample_volume_def fat16_get_fat_entry_def)
  then have "fat16_get_fat_entry sample_volume 2 = 0" by (simp add: le16_put16_other) (simp add: le16_def)
  then show "2 \<in> free_clusters sample_volume" by (simp add: free_clusters_def valid_cluster_def sample_volume_def)
  have "length (new_entry [65] ATTR_ARCHIVE 3) = 32" by (simp add: new_entry_def name_83_def upper_def)
  then show "fat_wf sample_volume" by (simp add: fat_wf_def sample_volume_def)
qed

theorem fat_write_read_witness:
  "\<exists>c g bs. fat16_write_vfs 0 [7] sample_volume = Some (1, c, g) \<and> fat16_read_file g c 1 = Some bs
    \<and> take 1 bs = [7] \<and> chain_bytes g [3] = chain_bytes sample_volume [3]"
proof -
  have "card (free_clusters sample_volume) \<noteq> 0" using sample_volume_facts(3) by auto
  then have "0 < card (free_clusters sample_volume)" by (simp only: neq0_conv)
  moreover have "sectors_per_cluster sample_volume = 1" by (simp add: sample_volume_def)
  ultimately have len: "length [7 :: u8] \<le> 512 * sectors_per_cluster sample_volume
      * (length [] + card (free_clusters sample_volume))" by simp
  have "file_chain sample_volume 0 []" by (simp add: file_chain_def)
  from fat_write_read [OF sample_volume_facts(1) this _ len sample_volume_facts(2)]
  show ?thesis by auto
qed

subsection \<open>Deleting a file\<close>

lemma free_chain_spec:
  assumes "fat_wf f" "fat_chain f c cs" "distinct cs"
  shows "\<exists>g. free_chain c f = Some g \<and> fat_wf g \<and> same_geometry f g
    \<and> (\<forall>d < 256 * sectors_per_fat f. fat16_get_fat_entry g d = (if d \<in> set cs then 0 else fat16_get_fat_entry f d))
    \<and> (\<forall>s \<ge> root_dir_start_sector f. disk g s = disk f s)"
  using assms
proof (induction cs arbitrary: c f)
  case Nil
  then show ?case by (subst free_chain.simps) simp
next
  case (Cons d ds)
  have vc: "d = c" "2 \<le> c" "c < 0xFFF0" "c < 256 * sectors_per_fat f"
    using Cons.prems(2) by (simp_all add: valid_cluster_def)
  let ?h = "fat16_set_fat_entry c 0 f"
  have ch: "fat_chain ?h (fat16_get_fat_entry f c) ds"
    using Cons.prems vc by (intro chain_set_other) auto
  obtain g where g: "free_chain (fat16_get_fat_entry f c) ?h = Some g" "fat_wf g" "same_geometry ?h g"
      "\<And>d. d < 256 * sectors_per_fat f \<Longrightarrow> fat16_get_fat_entry g d = (if d \<in> set ds then 0 else fat16_get_fat_entry ?h d)"
      "\<And>s. root_dir_start_sector f \<le> s \<Longrightarrow> disk g s = disk ?h s"
    using Cons.IH [OF set_entry_wf [OF Cons.prems(1)] ch] Cons.prems(3) by auto
  have "free_chain c f = Some g" using g(1) vc by (subst free_chain.simps) simp
  moreover have "same_geometry f g" by (rule same_geometry_trans [OF set_entry_geometry g(3)])
  ultimately show ?case
    using g(2,4,5) vc Cons.prems(3) get_set_entry [OF Cons.prems(1) vc(4), where v = 0]
      set_entry_outside [OF Cons.prems(1) vc(4)]
    by auto
qed

text \<open>
  Deleting releases exactly the file's clusters: for a file found with an entry whose chain is
  \<open>cs\<close>, deleting ends, returns 0, and makes the free clusters those that were free and those of
  \<open>cs\<close>; every other chain of the volume keeps its links, and every sector from the root directory
  on but the one with the entry keeps its bytes.
\<close>

theorem fat_delete_frees:
  assumes "fat_wf f" "fat16_find_entry f 0 nm = Some (Some (e, sec, off))"
    "fat_chain f (e_cluster e) cs" "distinct cs" "root_dir_start_sector f \<le> sec"
  shows "\<exists>g. fat16_delete_file nm f = Some (0, g) \<and> free_clusters g = free_clusters f \<union> set cs
    \<and> (\<forall>d ds. fat_chain f d ds \<and> set ds \<inter> set cs = {} \<longrightarrow> fat_chain g d ds)
    \<and> (\<forall>s \<ge> root_dir_start_sector f. s \<noteq> sec \<longrightarrow> disk g s = disk f s)
    \<and> disk g sec = (disk f sec)[off := 0xE5]"
proof -
  obtain h where h: "free_chain (e_cluster e) f = Some h" "fat_wf h" "same_geometry f h"
      "\<And>d. d < 256 * sectors_per_fat f \<Longrightarrow> fat16_get_fat_entry h d = (if d \<in> set cs then 0 else fat16_get_fat_entry f d)"
      "\<And>s. root_dir_start_sector f \<le> s \<Longrightarrow> disk h s = disk f s"
    using free_chain_spec [OF assms(1,3,4)] by blast
  define g where "g = write_sector sec ((disk h sec)[off := 0xE5]) h"
  note geo = same_geometryD [OF h(3)]
  have fg: "same_geometry f g" unfolding g_def by (rule same_geometry_trans [OF h(3)]) simp
  have ent: "fat16_get_fat_entry g d = (if d \<in> set cs then 0 else fat16_get_fat_entry f d)"
    if "d < 256 * sectors_per_fat f" for d
  proof -
    have "fat16_get_fat_entry g d = fat16_get_fat_entry h d"
      using that geo assms(5)
      by (intro get_entry_cong [OF h(2)]) (simp_all add: g_def, simp add: write_sector_def)
    then show ?thesis using h(4) [OF that] by simp
  qed
  have "free_clusters g = free_clusters f \<union> set cs"
    using ent chain_valid [OF assms(3)] same_geometryD [OF fg]
    by (auto simp: free_clusters_def valid_cluster_def split: if_splits)
  moreover have "fat_chain g d ds" if "fat_chain f d ds" "set ds \<inter> set cs = {}" for d ds
    using that chain_valid [OF that(1)] ent by (intro chain_cong [OF that(1) fg]) (auto simp: valid_cluster_def)
  moreover have "fat16_delete_file nm f = Some (0, g)"
    using h(1) assms(2) by (simp add: fat16_delete_file_def g_def)
  ultimately show ?thesis using h(5) assms(5) by (auto simp: g_def write_sector_def)
qed

lemma replicate_numeral: "replicate (numeral n) x = x # replicate (pred_numeral n) x"
  by (simp add: numeral_eq_Suc)

theorem fat_delete_frees_witness:
  "\<exists>g. fat16_delete_file [97] sample_volume = Some (0, g)
    \<and> free_clusters g = free_clusters sample_volume \<union> {3}"
proof -
  let ?e = "new_entry [65] ATTR_ARCHIVE 3"
  have e: "?e = [65, 32, 32, 32, 32, 32, 32, 32, 32, 32, 32, 32, 0, 0, 0, 0, 0, 0, 0, 0, 0, 0, 0, 0, 0, 0, 3, 0, 0, 0, 0, 0]"
    by (simp add: new_entry_def name_83_def upper_def replicate_numeral)
  have up: "[0 ..< 16] = 0 # [Suc 0 ..< 16]" by (rule upt_conv_Cons) simp
  have "find_callback [97] ?e 2 0 None = (1, Some (?e, 2, 0))"
    unfolding e by (simp add: find_callback_def fat16_to_name_def e_filename_def e_ext_def e_attributes_def upper_def)
  moreover have "take 32 (disk sample_volume 2) = ?e"
    by (simp add: sample_volume_def e)
  ultimately have "scan_entries (find_callback [97]) (disk sample_volume 2) 2 [0 ..< 16] None = (1, Some (?e, 2, 0))"
    unfolding up by simp
  moreover have "[root_dir_start_sector sample_volume ..< root_dir_start_sector sample_volume
      + root_sectors sample_volume] = [2]" by (simp add: sample_volume_def upt_conv_Cons)
  ultimately have f: "fat16_find_entry sample_volume 0 [97] = Some (Some (?e, 2, 0))"
    by (simp add: fat16_find_entry_def fat16_iterate_dir_def)
  have "e_cluster ?e = 3" by (simp add: e e_cluster_def le16_def)
  then have "fat_chain sample_volume (e_cluster ?e) [3]" using sample_volume_facts(2) by simp
  from fat_delete_frees [OF sample_volume_facts(1) f this]
  show ?thesis by (auto simp: sample_volume_def)
qed

end
