(* ===== verification/Posix_Ipc.thy ===== *)
theory Posix_Ipc
  imports Fd Fifo_Interface "HOL-Library.Multiset"
begin

text \<open>
  POSIX inter-process communication, \<open>kernel/posix_ipc.cpp\<close>: unnamed semaphores, and three tables
  of named objects (semaphores, message queues, shared memory). Counters are \<open>int\<close>s: they are bounded
  by the guards of the code. A message queue is the list of its messages; the tail pointer is the
  last one. \<open>None\<close> is a process structure that cannot be read.
\<close>

subsection \<open>Unnamed semaphores\<close>

record sem_t =
  sem_value :: int
  sem_waiters :: int

abbreviation SEM_VALUE_MAX :: int where "SEM_VALUE_MAX \<equiv> 0x7FFFFFFF"

definition sem_init :: "sem_t option \<Rightarrow> int \<Rightarrow> int \<times> sem_t option" where
  "sem_init sem v =
     (case sem of None \<Rightarrow> (-1, None)
      | Some s \<Rightarrow> if v > SEM_VALUE_MAX then (-1, Some s) else (0, Some \<lparr>sem_value = v, sem_waiters = 0\<rparr>))"

definition sem_destroy :: "sem_t \<Rightarrow> int" where
  "sem_destroy sem = (if sem_waiters sem > 0 then -1 else 0)"

definition sem_trywait :: "sem_t \<Rightarrow> int \<times> sem_t" where
  "sem_trywait sem =
     (if sem_value sem > 0 then (0, sem\<lparr>sem_value := sem_value sem - 1\<rparr>) else (-1, sem))"

text \<open>
  \<open>sem_wait\<close> in its three critical sections: the attempt, which registers the caller as a waiter
  when it fails; going to sleep, with interrupts enabled again; and, when \<open>schedule\<close> returns, leaving
  the waiters for the next attempt.
\<close>

definition sem_attempt :: "sem_t \<Rightarrow> bool \<times> sem_t" where
  "sem_attempt sem =
     (if sem_value sem > 0 then (True, sem\<lparr>sem_value := sem_value sem - 1\<rparr>)
      else (False, sem\<lparr>sem_waiters := sem_waiters sem + 1\<rparr>))"

definition sem_sleep :: "kst \<Rightarrow> kst option" where
  "sem_sleep s = do {
     s1 \<leftarrow> upd_proc (current_process s) (\<lambda>q. q\<lparr>pstate := PROCESS_WAITING\<rparr>) s;
     schedule s1 }"

definition sem_wake :: "sem_t \<Rightarrow> sem_t" where
  "sem_wake sem = sem\<lparr>sem_waiters := sem_waiters sem - 1\<rparr>"

definition sem_count :: "sem_t \<Rightarrow> (bool \<times> sem_t) option" where
  "sem_count sem =
     (if sem_value sem = SEM_VALUE_MAX then None
      else Some (sem_waiters sem > 0, sem\<lparr>sem_value := sem_value sem + 1\<rparr>))"

definition wake_one_waiting :: "kst \<Rightarrow> kst option" where
  "wake_one_waiting s =
     (if ready_queue s = 0 then Some s
      else do {
        r \<leftarrow> ring_find True (\<lambda>_ q. pstate q = PROCESS_WAITING) (procs s) (ready_queue s) (ready_queue s);
        case r of None \<Rightarrow> Some s | Some p \<Rightarrow> upd_proc p (\<lambda>q. q\<lparr>pstate := PROCESS_READY\<rparr>) s })"

definition sem_post :: "sem_t \<Rightarrow> kst \<Rightarrow> (int \<times> sem_t \<times> kst) option" where
  "sem_post sem s =
     (case sem_count sem of
        None \<Rightarrow> Some (-1, sem, s)
      | Some (wake, sem1) \<Rightarrow>
          if wake then map_option (\<lambda>s1. (0, sem1, s1)) (wake_one_waiting s) else Some (0, sem1, s))"

definition sem_getvalue :: "sem_t \<Rightarrow> int" where "sem_getvalue sem = sem_value sem"

subsection \<open>Tables of named objects\<close>

text \<open>
  The three tables share their layout and their opening and unlinking. A name is a C string
  without its terminator; a slot with an empty name is free.
\<close>

abbreviation O_EXCL :: u32 where "O_EXCL \<equiv> 0x80"

record 'a slot =
  slot_name :: "u8 list"
  slot_obj :: 'a
  slot_refs :: int
  slot_unlinked :: bool

definition named_open :: "u8 list \<Rightarrow> u32 \<Rightarrow> 'a \<Rightarrow> 'a slot list \<Rightarrow> nat option \<times> 'a slot list" where
  "named_open nm oflag fresh tab =
     (if nm = [] \<or> hd nm \<noteq> 47 then (None, tab)
      else case first_idx (\<lambda>q. slot_name q \<noteq> [] \<and> slot_name q = nm) tab of
        Some i \<Rightarrow>
          if oflag AND O_CREAT \<noteq> 0 \<and> oflag AND O_EXCL \<noteq> 0 then (None, tab)
          else (Some i, tab[i := (tab ! i)\<lparr>slot_refs := slot_refs (tab ! i) + 1\<rparr>])
      | None \<Rightarrow>
          if oflag AND O_CREAT = 0 then (None, tab)
          else case first_idx (\<lambda>q. slot_name q = []) tab of
            None \<Rightarrow> (None, tab)
          | Some i \<Rightarrow> (Some i, tab[i := \<lparr>slot_name = take 63 nm, slot_obj = fresh, slot_refs = 1, slot_unlinked = False\<rparr>]))"

definition named_release :: "('a slot \<Rightarrow> 'a slot) \<Rightarrow> 'a slot \<Rightarrow> 'a slot" where
  "named_release clear q =
     (let q1 = q\<lparr>slot_refs := slot_refs q - 1\<rparr>
      in if slot_refs q1 \<le> 0 \<and> slot_unlinked q1 then clear (q1\<lparr>slot_name := []\<rparr>) else q1)"

definition named_unlink :: "('a slot \<Rightarrow> 'a slot) \<Rightarrow> u8 list \<Rightarrow> 'a slot list \<Rightarrow> int \<times> 'a slot list" where
  "named_unlink clear nm tab =
     (case first_idx (\<lambda>q. slot_name q = nm) tab of
        None \<Rightarrow> (-1, tab)
      | Some i \<Rightarrow>
          (let q1 = (tab ! i)\<lparr>slot_unlinked := True\<rparr>
           in (0, tab[i := (if slot_refs q1 \<le> 0 then clear (q1\<lparr>slot_name := []\<rparr>) else q1)])))"

subsection \<open>Named semaphores\<close>

abbreviation MAX_NAMED_SEMS :: nat where "MAX_NAMED_SEMS \<equiv> 32"

definition init_named_sems :: "sem_t slot list" where
  "init_named_sems = replicate MAX_NAMED_SEMS
     \<lparr>slot_name = [], slot_obj = \<lparr>sem_value = 0, sem_waiters = 0\<rparr>, slot_refs = 0, slot_unlinked = False\<rparr>"

definition sem_open :: "u8 list \<Rightarrow> u32 \<Rightarrow> sem_t slot list \<Rightarrow> nat option \<times> sem_t slot list" where
  "sem_open nm oflag tab = named_open nm oflag \<lparr>sem_value = 1, sem_waiters = 0\<rparr> tab"

text \<open>The semaphore is given by its slot, or is none of the table.\<close>

definition sem_close :: "nat option \<Rightarrow> sem_t slot list \<Rightarrow> int \<times> sem_t slot list" where
  "sem_close sem tab =
     (case sem of None \<Rightarrow> (-1, tab)
      | Some i \<Rightarrow> if i < MAX_NAMED_SEMS then (0, tab[i := named_release id (tab ! i)]) else (-1, tab))"

definition sem_unlink :: "u8 list \<Rightarrow> sem_t slot list \<Rightarrow> int \<times> sem_t slot list" where
  "sem_unlink nm tab = named_unlink id nm tab"

subsection \<open>Message queues\<close>

abbreviation MAX_MESSAGE_QUEUES :: nat where "MAX_MESSAGE_QUEUES \<equiv> 16"
abbreviation MAX_MESSAGES :: int where "MAX_MESSAGES \<equiv> 64"
abbreviation MAX_MSG_SIZE :: nat where "MAX_MSG_SIZE \<equiv> 256"

record message =
  msg_data :: "u8 list"
  msg_priority :: u32

record mqueue =
  mq_flags :: int
  mq_maxmsg :: int
  mq_msgsize :: int
  mq_curmsgs :: int
  mq_msgs :: "message list"

type_synonym mq_table = "mqueue slot list"

definition fresh_mqueue :: mqueue where
  "fresh_mqueue = \<lparr>mq_flags = 0, mq_maxmsg = MAX_MESSAGES, mq_msgsize = int MAX_MSG_SIZE, mq_curmsgs = 0, mq_msgs = []\<rparr>"

definition init_mqueues :: mq_table where
  "init_mqueues = replicate MAX_MESSAGE_QUEUES
     \<lparr>slot_name = [], slot_obj = \<lparr>mq_flags = 0, mq_maxmsg = 0, mq_msgsize = 0, mq_curmsgs = 0, mq_msgs = []\<rparr>,
      slot_refs = 0, slot_unlinked = False\<rparr>"

definition mq_open :: "u8 list \<Rightarrow> u32 \<Rightarrow> mq_table \<Rightarrow> int \<times> mq_table" where
  "mq_open nm oflag tab =
     (case named_open nm oflag fresh_mqueue tab of (None, t) \<Rightarrow> (-1, t) | (Some i, t) \<Rightarrow> (int i, t))"

definition clear_mqueue :: "mqueue slot \<Rightarrow> mqueue slot" where
  "clear_mqueue q = q\<lparr>slot_obj := (slot_obj q)\<lparr>mq_msgs := []\<rparr>\<rparr>"

definition mq_close :: "int \<Rightarrow> mq_table \<Rightarrow> int \<times> mq_table" where
  "mq_close d tab =
     (if d < 0 \<or> d \<ge> int MAX_MESSAGE_QUEUES then (-1, tab)
      else (0, tab[nat d := named_release clear_mqueue (tab ! nat d)]))"

definition mq_unlink :: "u8 list \<Rightarrow> mq_table \<Rightarrow> int \<times> mq_table" where
  "mq_unlink nm tab = named_unlink clear_mqueue nm tab"

text \<open>Insertion by priority: in front of the head, or behind the last of the messages that are not lower.\<close>

fun mq_walk :: "message \<Rightarrow> message list \<Rightarrow> message list" where
  "mq_walk m [] = [m]"
| "mq_walk m [cur] = [cur, m]"
| "mq_walk m (cur # nxt # rest) =
     (if msg_priority nxt \<ge> msg_priority m then cur # mq_walk m (nxt # rest) else cur # m # nxt # rest)"

definition mq_insert :: "message \<Rightarrow> message list \<Rightarrow> message list" where
  "mq_insert m ms = (if ms = [] \<or> msg_priority m > msg_priority (hd ms) then m # ms else mq_walk m ms)"

definition mq_valid :: "int \<Rightarrow> mq_table \<Rightarrow> bool" where
  "mq_valid d tab \<longleftrightarrow> 0 \<le> d \<and> d < int MAX_MESSAGE_QUEUES \<and> slot_name (tab ! nat d) \<noteq> []"

text \<open>\<open>mem_ok\<close>: the allocation of the message succeeds; \<open>msg\<close>: the bytes at the pointer, or a null pointer.\<close>

definition mq_send :: "bool \<Rightarrow> int \<Rightarrow> u8 list option \<Rightarrow> u32 \<Rightarrow> mq_table \<Rightarrow> int \<times> mq_table" where
  "mq_send mem_ok d msg pri tab =
     (if \<not> mq_valid d tab then (-1, tab)
      else case msg of
        None \<Rightarrow> (-1, tab)
      | Some bytes \<Rightarrow>
          (let q = slot_obj (tab ! nat d) in
           if length bytes > MAX_MSG_SIZE then (-1, tab)
           else if mq_curmsgs q \<ge> mq_maxmsg q then (-1, tab)
           else if \<not> mem_ok then (-1, tab)
           else (0, tab[nat d := (tab ! nat d)\<lparr>slot_obj :=
                   q\<lparr>mq_msgs := mq_insert \<lparr>msg_data = bytes, msg_priority = pri\<rparr> (mq_msgs q),
                     mq_curmsgs := mq_curmsgs q + 1\<rparr>\<rparr>])))"

text \<open>The result is the length of the message with the bytes copied and its priority.\<close>

definition mq_receive :: "int \<Rightarrow> nat option \<Rightarrow> mq_table \<Rightarrow> (nat \<times> u8 list \<times> u32) option \<times> mq_table" where
  "mq_receive d room tab =
     (if \<not> mq_valid d tab then (None, tab)
      else case room of
        None \<Rightarrow> (None, tab)
      | Some n \<Rightarrow>
          (let q = slot_obj (tab ! nat d) in
           case mq_msgs q of
             [] \<Rightarrow> (None, tab)
           | m # ms \<Rightarrow>
               (Some (length (msg_data m), take n (msg_data m), msg_priority m),
                tab[nat d := (tab ! nat d)\<lparr>slot_obj := q\<lparr>mq_msgs := ms, mq_curmsgs := mq_curmsgs q - 1\<rparr>\<rparr>])))"

definition mq_getattr :: "int \<Rightarrow> mq_table \<Rightarrow> mqueue option" where
  "mq_getattr d tab = (if mq_valid d tab then Some (slot_obj (tab ! nat d)) else None)"

definition mq_setattr :: "int \<Rightarrow> int option \<Rightarrow> mq_table \<Rightarrow> mqueue option \<times> mq_table" where
  "mq_setattr d flags tab =
     (if \<not> mq_valid d tab then (None, tab)
      else (Some (slot_obj (tab ! nat d)),
        (case flags of None \<Rightarrow> tab
         | Some fl \<Rightarrow> tab[nat d := (tab ! nat d)\<lparr>slot_obj := (slot_obj (tab ! nat d))\<lparr>mq_flags := fl\<rparr>\<rparr>])))"

definition mq_notify :: "int \<Rightarrow> int" where "mq_notify d = - ENOSYS"

subsection \<open>Named shared memory\<close>

record shm_object =
  shm_fd :: int
  shm_addr :: u32

abbreviation MAX_SHM_OBJECTS :: nat where "MAX_SHM_OBJECTS \<equiv> 16"

text \<open>The state is the table with \<open>next_shm_fd\<close>, which starts at 100.\<close>

definition posix_shm_open :: "u8 list \<Rightarrow> u32 \<Rightarrow> shm_object slot list \<times> int \<Rightarrow> int \<times> shm_object slot list \<times> int" where
  "posix_shm_open nm oflag st =
     (case st of (tab, nxt) \<Rightarrow>
      case named_open nm oflag \<lparr>shm_fd = nxt, shm_addr = 0\<rparr> tab of
        (None, t) \<Rightarrow> (-1, t, nxt)
      | (Some i, t) \<Rightarrow>
          (shm_fd (slot_obj (t ! i)), t, if slot_name (tab ! i) = [] then nxt + 1 else nxt))"

definition posix_shm_unlink :: "u8 list \<Rightarrow> shm_object slot list \<Rightarrow> int \<times> shm_object slot list" where
  "posix_shm_unlink nm tab = named_unlink id nm tab"

subsection \<open>Priority queues\<close>

lemma sort_key_classes: "filter (\<lambda>x. k = f x) (sort_key f xs) = filter (\<lambda>x. k = f x) xs"
  unfolding eq_commute [of k] by (rule sort_key_stable)

text \<open>
  The contract of a bounded queue with priorities: a stored element is taken out before all
  elements of a larger key and after all that came earlier with its own key.
\<close>

locale priority_queue =
  fixes inv :: "'s \<Rightarrow> bool" and items :: "'s \<Rightarrow> 'a list" and room :: nat and ok :: "'a \<Rightarrow> bool"
    and key :: "'a \<Rightarrow> 'k::linorder"
    and put :: "'a \<Rightarrow> 's \<Rightarrow> 's option" and get :: "'s \<Rightarrow> ('a \<times> 's) option"
  assumes put_full: "inv s \<Longrightarrow> length (items s) \<ge> room \<Longrightarrow> put x s = None"
    and put_room: "inv s \<Longrightarrow> ok x \<Longrightarrow> length (items s) < room \<Longrightarrow> \<exists>s'. put x s = Some s' \<and> inv s'
      \<and> mset (items s') = add_mset x (mset (items s)) \<and> sorted (map key (items s'))
      \<and> (\<forall>k. filter (\<lambda>y. k = key y) (items s') = filter (\<lambda>y. k = key y) (items s @ [x]))"
    and get_empty: "inv s \<Longrightarrow> items s = [] \<Longrightarrow> get s = None"
    and get_first: "inv s \<Longrightarrow> items s = x # xs \<Longrightarrow> \<exists>s'. get s = Some (x, s') \<and> inv s' \<and> items s' = xs"
    and sorted_items: "inv s \<Longrightarrow> sorted (map key (items s))"
begin

lemma put_all:
  assumes "inv s" "\<forall>x \<in> set xs. ok x" "push_all put xs s = (n, s')"
  shows "inv s'" "n = min (length xs) (room - length (items s))" "items s' = sort_key key (items s @ take n xs)"
proof -
  have "inv s' \<and> n = min (length xs) (room - length (items s)) \<and> items s' = sort_key key (items s @ take n xs)"
    using assms
  proof (induction xs arbitrary: s n)
    case Nil
    then show ?case using sorted_items by (simp add: sort_key_id_if_sorted)
  next
    case (Cons x xs)
    show ?case
    proof (cases "length (items s) < room")
      case False
      then have "put x s = None" using Cons.prems(1) by (intro put_full) simp_all
      then show ?thesis using Cons.prems False sorted_items by (simp add: sort_key_id_if_sorted)
    next
      case True
      obtain s1 where s1: "put x s = Some s1" "inv s1" "mset (items s1) = add_mset x (mset (items s))"
          "\<forall>k. filter (\<lambda>y. k = key y) (items s1) = filter (\<lambda>y. k = key y) (items s @ [x])"
        using put_room [OF Cons.prems(1) _ True, of x] Cons.prems(2) by auto
      obtain m where m: "push_all put xs s1 = (m, s')" "n = Suc m"
        using Cons.prems(3) s1(1) by (cases "push_all put xs s1") auto
      have len: "length (items s1) = Suc (length (items s))" using arg_cong [OF s1(3), of size] by simp
      have IH: "inv s'" "m = min (length xs) (room - length (items s1))" "items s' = sort_key key (items s1 @ take m xs)"
        using Cons.IH [OF s1(2) _ m(1)] Cons.prems(2) by simp_all
      have "sort_key key (items s @ take n (x # xs)) = sort_key key (items s1 @ take m xs)"
        by (rule properties_for_sort_key) (use s1(3,4) m(2) in \<open>simp_all add: sort_key_classes\<close>)
      then show ?thesis using IH m(2) len True by simp
    qed
  qed
  then show "inv s'" "n = min (length xs) (room - length (items s))" "items s' = sort_key key (items s @ take n xs)"
    by simp_all
qed

lemma take_all:
  assumes "inv s" "pop_all get n s = (ys, s')"
  shows "inv s'" "ys = take n (items s)" "items s' = drop n (items s)"
proof -
  have "inv s' \<and> ys = take n (items s) \<and> items s' = drop n (items s)"
    using assms
  proof (induction n arbitrary: s ys)
    case (Suc n)
    show ?case
    proof (cases "items s")
      case Nil
      then show ?thesis using Suc.prems get_empty [OF Suc.prems(1) Nil] by simp
    next
      case (Cons y zs)
      obtain s1 where s1: "get s = Some (y, s1)" "inv s1" "items s1 = zs"
        using get_first [OF Suc.prems(1) Cons] by blast
      obtain ws where ws: "pop_all get n s1 = (ws, s')" "ys = y # ws"
        using Suc.prems(2) s1(1) by (cases "pop_all get n s1") auto
      show ?thesis using Suc.IH [OF s1(2) ws(1)] s1(3) ws(2) Cons by simp
    qed
  qed simp
  then show "inv s'" "ys = take n (items s)" "items s' = drop n (items s)" by simp_all
qed

lemma put_take:
  assumes "inv s" "items s = []" "\<forall>x \<in> set xs. ok x" "push_all put xs s = (n, s1)" "pop_all get k s1 = (ys, s2)"
  shows "n = min (length xs) room" "ys = take k (sort_key key (take n xs))"
  using put_all [OF assms(1,3,4)] take_all [OF _ assms(5)] assms(2) by simp_all

end

subsection \<open>The message queue keeps the contract\<close>

definition mkey :: "message \<Rightarrow> int" where "mkey m = - uint (msg_priority m)"

lemma mkey_le: "mkey a \<le> mkey b \<longleftrightarrow> msg_priority b \<le> msg_priority a" "mkey a < mkey b \<longleftrightarrow> msg_priority b < msg_priority a"
  by (simp_all add: mkey_def word_le_def word_less_def)

lemma mq_walk_spec:
  assumes "ms \<noteq> []" "sorted (map mkey ms)" "mkey (hd ms) \<le> mkey m"
  shows "mset (mq_walk m ms) = add_mset m (mset ms) \<and> sorted (map mkey (mq_walk m ms)) \<and> hd (mq_walk m ms) = hd ms
    \<and> (\<forall>k. filter (\<lambda>y. k = mkey y) (mq_walk m ms) = filter (\<lambda>y. k = mkey y) (ms @ [m]))"
  using assms
proof (induction m ms rule: mq_walk.induct)
  case (3 m cur nxt rest)
  show ?case
  proof (cases "msg_priority nxt \<ge> msg_priority m")
    case True
    then have "mkey nxt \<le> mkey m" by (simp add: mkey_le)
    then have IH: "mset (mq_walk m (nxt # rest)) = add_mset m (add_mset nxt (mset rest))"
        "sorted (map mkey (mq_walk m (nxt # rest)))"
        "\<forall>k. filter (\<lambda>y. k = mkey y) (mq_walk m (nxt # rest)) = filter (\<lambda>y. k = mkey y) (nxt # rest @ [m])"
      using "3.IH" [OF True] "3.prems" by simp_all
    have "set (mq_walk m (nxt # rest)) = insert m (insert nxt (set rest))"
      using arg_cong [OF IH(1), of set_mset] by simp
    then show ?thesis using IH "3.prems" True by auto
  next
    case False
    then have "mkey m < mkey nxt" by (simp add: mkey_le)
    moreover from this have "\<forall>x \<in> set rest. mkey m < mkey x" using "3.prems" by force
    moreover from this have "filter (\<lambda>y. mkey m = mkey y) rest = []" by (auto simp: filter_empty_conv)
    ultimately show ?thesis using False "3.prems" by auto
  qed
qed auto

lemma mq_insert_spec:
  assumes "sorted (map mkey ms)"
  shows "mset (mq_insert m ms) = add_mset m (mset ms)" "sorted (map mkey (mq_insert m ms))"
    "filter (\<lambda>y. k = mkey y) (mq_insert m ms) = filter (\<lambda>y. k = mkey y) (ms @ [m])"
proof -
  have "mset (mq_insert m ms) = add_mset m (mset ms) \<and> sorted (map mkey (mq_insert m ms))
      \<and> (\<forall>k. filter (\<lambda>y. k = mkey y) (mq_insert m ms) = filter (\<lambda>y. k = mkey y) (ms @ [m]))"
  proof (cases "ms = [] \<or> msg_priority m > msg_priority (hd ms)")
    case True
    then have "ms = [] \<or> mkey m < mkey (hd ms)" by (simp add: mkey_le)
    then have "\<forall>x \<in> set ms. mkey m < mkey x" using assms by (cases ms) auto
    moreover from this have "filter (\<lambda>y. mkey m = mkey y) ms = []" by (auto simp: filter_empty_conv)
    ultimately show ?thesis using True assms by (auto simp: mq_insert_def less_imp_le)
  next
    case False
    then have "ms \<noteq> []" "mkey (hd ms) \<le> mkey m" by (auto simp: mkey_le)
    then show ?thesis using mq_walk_spec [OF _ assms, of m] False by (simp add: mq_insert_def)
  qed
  then show "mset (mq_insert m ms) = add_mset m (mset ms)" "sorted (map mkey (mq_insert m ms))"
    "filter (\<lambda>y. k = mkey y) (mq_insert m ms) = filter (\<lambda>y. k = mkey y) (ms @ [m])" by simp_all
qed

text \<open>
  The queue in slot \<open>i\<close> of the table, seen through \<open>mq_send\<close> and \<open>mq_receive\<close>; an element is
  the bytes and the priority.
\<close>

definition mq_put :: "nat \<Rightarrow> message \<Rightarrow> mq_table \<Rightarrow> mq_table option" where
  "mq_put i m tab = (case mq_send True (int i) (Some (msg_data m)) (msg_priority m) tab of
     (r, t) \<Rightarrow> if r = 0 then Some t else None)"

definition mq_get :: "nat \<Rightarrow> mq_table \<Rightarrow> (message \<times> mq_table) option" where
  "mq_get i tab = (case mq_receive (int i) (Some MAX_MSG_SIZE) tab of
     (None, t) \<Rightarrow> None | (Some (_, bytes, p), t) \<Rightarrow> Some (\<lparr>msg_data = bytes, msg_priority = p\<rparr>, t))"

definition mq_items :: "nat \<Rightarrow> mq_table \<Rightarrow> message list" where
  "mq_items i tab = mq_msgs (slot_obj (tab ! i))"

definition small_msg :: "message \<Rightarrow> bool" where "small_msg m \<longleftrightarrow> length (msg_data m) \<le> MAX_MSG_SIZE"

definition mq_inv :: "nat \<Rightarrow> mq_table \<Rightarrow> bool" where
  "mq_inv i tab \<longleftrightarrow> i < MAX_MESSAGE_QUEUES \<and> length tab = MAX_MESSAGE_QUEUES \<and> slot_name (tab ! i) \<noteq> []
     \<and> mq_maxmsg (slot_obj (tab ! i)) = MAX_MESSAGES
     \<and> mq_curmsgs (slot_obj (tab ! i)) = int (length (mq_items i tab))
     \<and> sorted (map mkey (mq_items i tab)) \<and> (\<forall>m \<in> set (mq_items i tab). small_msg m)"

lemma mq_inv_valid: "mq_inv i tab \<Longrightarrow> mq_valid (int i) tab"
  by (simp add: mq_inv_def mq_valid_def)

interpretation mqs: priority_queue "mq_inv i" "mq_items i" 64 small_msg mkey "mq_put i" "mq_get i"
proof unfold_locales
  fix s assume "mq_inv i s"
  then show "sorted (map mkey (mq_items i s))" by (simp add: mq_inv_def)
next
  fix s x assume "mq_inv i s" "64 \<le> length (mq_items i s)"
  then show "mq_put i x s = None" by (simp add: mq_put_def mq_send_def mq_inv_def Let_def)
next
  fix s assume "mq_inv i s" "mq_items i s = []"
  then show "mq_get i s = None"
    using mq_inv_valid [of i s] by (simp add: mq_get_def mq_receive_def mq_items_def)
next
  fix s x xs assume s: "mq_inv i s" "mq_items i s = x # xs"
  let ?q = "slot_obj (s ! i)"
  define t where "t = s[i := (s ! i)\<lparr>slot_obj := ?q\<lparr>mq_msgs := xs, mq_curmsgs := mq_curmsgs ?q - 1\<rparr>\<rparr>]"
  have l: "i < length s" using s(1) by (simp add: mq_inv_def)
  have x: "mq_msgs ?q = x # xs" "small_msg x" using s by (simp_all add: mq_items_def mq_inv_def)
  have "mq_get i s = Some (x, t)"
    using x mq_inv_valid [OF s(1)] by (simp add: mq_get_def mq_receive_def Let_def t_def small_msg_def)
  moreover have it: "mq_items i t = xs" using l by (simp add: mq_items_def t_def)
  moreover have "mq_inv i t"
    using s l unfolding mq_inv_def it by (simp add: t_def mq_items_def)
  ultimately show "\<exists>s'. mq_get i s = Some (x, s') \<and> mq_inv i s' \<and> mq_items i s' = xs" by blast
next
  fix s x assume s: "mq_inv i s" "small_msg x" "length (mq_items i s) < 64"
  let ?q = "slot_obj (s ! i)"
  define t where "t = s[i := (s ! i)\<lparr>slot_obj := ?q\<lparr>mq_msgs := mq_insert x (mq_msgs ?q), mq_curmsgs := mq_curmsgs ?q + 1\<rparr>\<rparr>]"
  have l: "i < length s" using s(1) by (simp add: mq_inv_def)
  note ins = mq_insert_spec [where ms = "mq_items i s" and m = x]
  have so: "sorted (map mkey (mq_items i s))" using s(1) by (simp add: mq_inv_def)
  have x: "\<lparr>msg_data = msg_data x, msg_priority = msg_priority x\<rparr> = x" by simp
  have put: "mq_put i x s = Some t"
    using s mq_inv_valid [OF s(1)]
    by (simp add: mq_put_def mq_send_def Let_def t_def x small_msg_def mq_inv_def mq_items_def)
  have it: "mq_items i t = mq_insert x (mq_items i s)" using l by (simp add: mq_items_def t_def)
  have "length (mq_insert x (mq_items i s)) = Suc (length (mq_items i s))"
    using arg_cong [OF ins(1) [OF so], of size] by simp
  moreover have "set (mq_insert x (mq_items i s)) = insert x (set (mq_items i s))"
    using arg_cong [OF ins(1) [OF so], of set_mset] by simp
  ultimately have "mq_inv i t"
    using s l ins(2) [OF so] unfolding mq_inv_def it by (auto simp: t_def mq_items_def)
  then show "\<exists>s'. mq_put i x s = Some s' \<and> mq_inv i s' \<and> mset (mq_items i s') = add_mset x (mset (mq_items i s))
      \<and> sorted (map mkey (mq_items i s'))
      \<and> (\<forall>k. filter (\<lambda>y. k = mkey y) (mq_items i s') = filter (\<lambda>y. k = mkey y) (mq_items i s @ [x]))"
    using put it ins [OF so] by simp
qed

text \<open>The other queues are not touched.\<close>

lemma mq_put_other: "mq_put i m tab = Some t \<Longrightarrow> j \<noteq> i \<Longrightarrow> t ! j = tab ! j"
  by (auto simp: mq_put_def mq_send_def Let_def split: if_splits)

lemma mq_fill_other: "push_all (mq_put i) xs tab = (n, t) \<Longrightarrow> j \<noteq> i \<Longrightarrow> t ! j = tab ! j"
  using push_all_keeps [of "mq_put i" "\<lambda>t. t ! j"] mq_put_other by blast

text \<open>
  C21. A message queue is a stable priority queue: sending the messages \<open>xs\<close> one after the other to an
  empty queue accepts the first 64 of them, leaves all other queues alone, and receiving returns the
  accepted messages by descending priority, messages of the same priority in the order of sending.
\<close>

theorem mq_priority_fifo:
  assumes "mq_inv i tab" "mq_items i tab = []" "\<forall>m \<in> set xs. small_msg m"
    "push_all (mq_put i) xs tab = (n, t1)" "pop_all (mq_get i) k t1 = (ys, t2)"
  shows "n = min (length xs) 64 \<and> ys = take k (sort_key (\<lambda>m. - uint (msg_priority m)) (take n xs))
    \<and> (\<forall>j. j \<noteq> i \<longrightarrow> t1 ! j = tab ! j)"
  using mqs.put_take [OF assms] mq_fill_other [OF assms(4)] by (simp add: mkey_def [abs_def])

lemma mq_open_inv:
  assumes "length tab = MAX_MESSAGE_QUEUES" "mq_open nm O_CREAT tab = (int i, t)" "\<forall>q \<in> set tab. slot_name q \<noteq> nm"
  shows "mq_inv i t" "mq_items i t = []"
proof -
  have ex: "first_idx (\<lambda>q. slot_name q \<noteq> [] \<and> slot_name q = nm) tab = None"
    using assms(3) by (auto simp: first_idx_None)
  have nm: "nm \<noteq> []" "hd nm = 47" using assms(2) by (auto simp: mq_open_def named_open_def split: if_splits)
  obtain k where k: "first_idx (\<lambda>q. slot_name q = []) tab = Some k"
    using assms(2) ex nm by (auto simp: mq_open_def named_open_def split: option.splits)
  have "i = k" "t = tab[k := \<lparr>slot_name = take 63 nm, slot_obj = fresh_mqueue, slot_refs = 1, slot_unlinked = False\<rparr>]"
    using assms(2) ex nm k by (auto simp: mq_open_def named_open_def)
  then show "mq_inv i t" "mq_items i t = []"
    using first_idx_SomeD(1) [OF k] assms(1) nm(1) by (simp_all add: mq_inv_def mq_items_def fresh_mqueue_def)
qed

lemma first_idx_replicate: "first_idx P (replicate n x) = (if n = 0 \<or> \<not> P x then None else Some 0)"
  by (induction n) auto

theorem mq_priority_fifo_witness:
  "\<exists>t t1 t2. mq_open [47, 113] O_CREAT init_mqueues = (0, t)
    \<and> push_all (mq_put 0) [\<lparr>msg_data = [1], msg_priority = 5\<rparr>, \<lparr>msg_data = [2], msg_priority = 9\<rparr>,
         \<lparr>msg_data = [3], msg_priority = 5\<rparr>] t = (3, t1)
    \<and> pop_all (mq_get 0) 3 t1 = ([\<lparr>msg_data = [2], msg_priority = 9\<rparr>, \<lparr>msg_data = [1], msg_priority = 5\<rparr>,
         \<lparr>msg_data = [3], msg_priority = 5\<rparr>], t2)"
proof -
  let ?xs = "[\<lparr>msg_data = [1], msg_priority = 5\<rparr>, \<lparr>msg_data = [2], msg_priority = 9\<rparr>, \<lparr>msg_data = [3], msg_priority = 5\<rparr>]"
  have tab: "length init_mqueues = 16" "\<forall>q \<in> set init_mqueues. slot_name q \<noteq> [47, 113]"
    by (simp_all add: init_mqueues_def)
  have "\<exists>t. mq_open [47, 113] O_CREAT init_mqueues = (0, t)"
    by (simp add: mq_open_def named_open_def init_mqueues_def first_idx_replicate)
  then obtain t where t: "mq_open [47, 113] O_CREAT init_mqueues = (int 0, t)" by auto
  note inv = mq_open_inv [OF tab(1) t tab(2)]
  obtain n t1 where p: "push_all (mq_put 0) ?xs t = (n, t1)" by force
  obtain ys t2 where g: "pop_all (mq_get 0) 3 t1 = (ys, t2)" by force
  have "\<forall>m \<in> set ?xs. small_msg m" by (simp add: small_msg_def)
  from mq_priority_fifo [OF inv this p g] show ?thesis using t p g by (auto simp: take_Cons')
qed

subsection \<open>Semaphores under interleaving\<close>

text \<open>
  \<open>N\<close> processes that take a semaphore with \<open>sem_wait\<close> and give it back with \<open>sem_post\<close>. A step is
  one critical section (\<open>cli\<close> to \<open>sti\<close>) or the unprotected code between two of them; the timer may
  switch processes between any two steps. \<open>Registered\<close> is a process that has increased \<open>waiters\<close>
  and not yet set its state to waiting.
\<close>

datatype sem_pc = Outside | Attempting | Registered | Blocked | Resumed | Acquired

record sem_sys =
  the_sem :: sem_t
  spc :: "nat \<Rightarrow> sem_pc"

definition sem_goto :: "nat \<Rightarrow> sem_pc \<Rightarrow> sem_t \<Rightarrow> sem_sys \<Rightarrow> sem_sys" where
  "sem_goto t c m s = s\<lparr>the_sem := m, spc := (spc s)(t := c)\<rparr>"

inductive sem_step :: "nat \<Rightarrow> sem_sys \<Rightarrow> sem_sys \<Rightarrow> bool" for N where
  call: "t < N \<Longrightarrow> spc s t = Outside \<Longrightarrow> sem_step N s (sem_goto t Attempting (the_sem s) s)"
| got: "t < N \<Longrightarrow> spc s t = Attempting \<Longrightarrow> sem_attempt (the_sem s) = (True, m) \<Longrightarrow>
    sem_step N s (sem_goto t Acquired m s)"
| registered: "t < N \<Longrightarrow> spc s t = Attempting \<Longrightarrow> sem_attempt (the_sem s) = (False, m) \<Longrightarrow>
    sem_step N s (sem_goto t Registered m s)"
| sleep: "t < N \<Longrightarrow> spc s t = Registered \<Longrightarrow> sem_step N s (sem_goto t Blocked (the_sem s) s)"
| resume: "t < N \<Longrightarrow> spc s t = Resumed \<Longrightarrow> sem_step N s (sem_goto t Attempting (sem_wake (the_sem s)) s)"
| post: "t < N \<Longrightarrow> spc s t = Acquired \<Longrightarrow> sem_count (the_sem s) = Some (wake, m) \<Longrightarrow>
    \<not> wake \<or> first_idx (\<lambda>u. spc s u = Blocked) [0 ..< N] = None \<Longrightarrow>
    sem_step N s (sem_goto t Outside m s)"
| post_wake: "t < N \<Longrightarrow> spc s t = Acquired \<Longrightarrow> sem_count (the_sem s) = Some (True, m) \<Longrightarrow>
    first_idx (\<lambda>u. spc s u = Blocked) [0 ..< N] = Some u \<Longrightarrow>
    sem_step N s (sem_goto u Resumed m (sem_goto t Outside m s))"

definition sem_start :: "int \<Rightarrow> sem_sys" where
  "sem_start v = \<lparr>the_sem = \<lparr>sem_value = v, sem_waiters = 0\<rparr>, spc = (\<lambda>_. Outside)\<rparr>"

definition at_pc :: "nat \<Rightarrow> sem_pc set \<Rightarrow> sem_sys \<Rightarrow> int" where
  "at_pc N A s = (\<Sum>t < N. if spc s t \<in> A then 1 else 0)"

lemma at_pc_goto:
  assumes "t < N"
  shows "at_pc N A (sem_goto t c m s) = at_pc N A s - (if spc s t \<in> A then 1 else 0) + (if c \<in> A then 1 else 0)"
  using assms by (simp add: at_pc_def sem_goto_def sum.remove [of "{..<N}" t])

lemma at_pc_nonneg: "0 \<le> at_pc N A s"
  by (simp add: at_pc_def sum_nonneg)

lemma sem_goto_sel [simp]:
  "the_sem (sem_goto t c m s) = m" "spc (sem_goto t c m s) u = (if u = t then c else spc s u)"
  by (simp_all add: sem_goto_def)

definition sem_inv :: "nat \<Rightarrow> int \<Rightarrow> sem_sys \<Rightarrow> bool" where
  "sem_inv N v s \<longleftrightarrow> 0 \<le> sem_value (the_sem s) \<and> sem_value (the_sem s) + at_pc N {Acquired} s = v
     \<and> sem_waiters (the_sem s) = at_pc N {Registered, Blocked, Resumed} s"

lemma sem_step_inv: "sem_step N s s' \<Longrightarrow> sem_inv N v s \<Longrightarrow> sem_inv N v s'"
proof (induction rule: sem_step.induct)
  case (post_wake t s m u)
  have u: "u < N" "spc s u = Blocked" using first_idx_SomeD [OF post_wake(4)] by simp_all
  then have "u \<noteq> t" using post_wake(2) by auto
  then show ?case using post_wake u
    by (auto simp: sem_inv_def at_pc_goto sem_count_def split: if_splits)
qed (auto simp: sem_inv_def at_pc_goto sem_attempt_def sem_wake_def sem_count_def split: if_splits)

text \<open>
  Semaphores exclude: whatever the order in which processes call, sleep, are woken and post, the value
  is never negative, the number of processes between \<open>sem_wait\<close> and \<open>sem_post\<close> and the value add up to
  the initial value, so at most that many hold the semaphore at a time, and \<open>waiters\<close> counts exactly
  the processes inside the waiting part.
\<close>

theorem semaphore_excludes:
  assumes "0 \<le> v" "(sem_step N)\<^sup>*\<^sup>* (sem_start v) s"
  shows "0 \<le> sem_value (the_sem s) \<and> sem_value (the_sem s) + at_pc N {Acquired} s = v
    \<and> at_pc N {Acquired} s \<le> v \<and> sem_waiters (the_sem s) = at_pc N {Registered, Blocked, Resumed} s"
proof -
  have "sem_inv N v s"
    using assms(2)
  proof (induction rule: rtranclp_induct)
    case base
    then show ?case using assms(1) by (simp add: sem_inv_def sem_start_def at_pc_def)
  qed (rule sem_step_inv)
  then show ?thesis by (auto simp: sem_inv_def)
qed

text \<open>
  C22. A wake-up can be lost: interrupts are enabled between counting the waiter and setting its state, so
  two processes sharing a semaphore of value 1 reach a state in which the semaphore is free and nobody
  holds it while the second process is blocked; the post came in that gap and found nobody waiting.
\<close>

theorem semaphore_lost_wakeup:
  "\<exists>s. (sem_step 2)\<^sup>*\<^sup>* (sem_start 1) s \<and> sem_value (the_sem s) = 1 \<and> spc s 0 = Outside \<and> spc s 1 = Blocked"
proof -
  let ?M = "\<lambda>v w. \<lparr>sem_value = v, sem_waiters = w\<rparr>"
  define s0 where "s0 = sem_start 1"
  define s1 where "s1 = sem_goto 0 Attempting (the_sem s0) s0"
  define s2 where "s2 = sem_goto 0 Acquired (?M 0 0) s1"
  define s3 where "s3 = sem_goto 1 Attempting (the_sem s2) s2"
  define s4 where "s4 = sem_goto 1 Registered (?M 0 1) s3"
  define s5 where "s5 = sem_goto 0 Outside (?M 1 1) s4"
  define s6 where "s6 = sem_goto 1 Blocked (the_sem s5) s5"
  note defs = s0_def s1_def s2_def s3_def s4_def s5_def s6_def
  have 1: "sem_step 2 s0 s1" unfolding s1_def by (rule sem_step.call) (simp_all add: defs sem_start_def)
  have 2: "sem_step 2 s1 s2" unfolding s2_def
    by (rule sem_step.got) (simp_all add: defs sem_start_def sem_attempt_def)
  have 3: "sem_step 2 s2 s3" unfolding s3_def by (rule sem_step.call) (simp_all add: defs sem_start_def)
  have 4: "sem_step 2 s3 s4" unfolding s4_def
    by (rule sem_step.registered) (simp_all add: defs sem_start_def sem_attempt_def)
  have none: "first_idx (\<lambda>u. spc s4 u = Blocked) [0 ..< 2] = None"
    by (simp add: first_idx_None defs sem_start_def)
  have 5: "sem_step 2 s4 s5" unfolding s5_def
    by (rule sem_step.post [where wake = True]) (use none in \<open>simp_all add: defs sem_start_def sem_count_def\<close>)
  have 6: "sem_step 2 s5 s6" unfolding s6_def by (rule sem_step.sleep) (simp_all add: defs sem_start_def)
  have "(sem_step 2)\<^sup>*\<^sup>* s0 s6" using 1 2 3 4 5 6 by (meson rtranclp.rtrancl_into_rtrancl rtranclp.rtrancl_refl)
  moreover have "sem_value (the_sem s6) = 1 \<and> spc s6 0 = Outside \<and> spc s6 1 = Blocked"
    by (simp add: defs sem_start_def)
  ultimately show ?thesis unfolding s0_def by blast
qed

theorem semaphore_excludes_witness:
  "\<exists>s. (sem_step 2)\<^sup>*\<^sup>* (sem_start 1) s \<and> spc s 0 = Acquired \<and> sem_value (the_sem s) = 0
    \<and> at_pc 2 {Acquired} s \<le> 1"
proof -
  define s1 where "s1 = sem_goto 0 Attempting (the_sem (sem_start 1)) (sem_start 1)"
  define s2 where "s2 = sem_goto 0 Acquired \<lparr>sem_value = 0, sem_waiters = 0\<rparr> s1"
  have 1: "sem_step 2 (sem_start 1) s1" unfolding s1_def by (rule sem_step.call) (simp_all add: sem_start_def)
  have 2: "sem_step 2 s1 s2" unfolding s2_def
    by (rule sem_step.got) (simp_all add: s1_def sem_start_def sem_attempt_def)
  have r: "(sem_step 2)\<^sup>*\<^sup>* (sem_start 1) s2" using 1 2 by (meson rtranclp.rtrancl_into_rtrancl rtranclp.rtrancl_refl)
  have "(0 :: int) \<le> 1" by simp
  from semaphore_excludes [OF this r] r show ?thesis by (intro exI [of _ s2]) (simp add: s2_def)
qed

subsection \<open>Names\<close>

text \<open>A name that was created is found again when it fits the slot; a longer one never is.\<close>

lemma named_open_again:
  assumes "named_open nm oflag fresh tab = (Some i, t)" "length nm \<le> 63" "oflag' AND O_CREAT = 0 \<or> oflag' AND O_EXCL = 0"
  shows "\<exists>j. named_open nm oflag' fresh' t = (Some j, t[j := (t ! j)\<lparr>slot_refs := slot_refs (t ! j) + 1\<rparr>])
    \<and> j \<le> i \<and> slot_name (t ! j) = nm"
proof -
  have nm: "nm \<noteq> []" "hd nm = 47" using assms(1) by (auto simp: named_open_def split: if_splits)
  have i: "i < length t" "slot_name (t ! i) = nm"
    using assms(1) nm assms(2)
    by (auto simp: named_open_def first_idx_Some split: if_splits option.splits)
  obtain j where j: "first_idx (\<lambda>q. slot_name q \<noteq> [] \<and> slot_name q = nm) t = Some j"
    using first_idx_Ex [of "\<lambda>q. slot_name q \<noteq> [] \<and> slot_name q = nm" t] i nm(1) nth_mem by blast
  then have "j \<le> i" "slot_name (t ! j) = nm"
    using i nm(1) by (auto simp: first_idx_Some not_less [symmetric])
  then show ?thesis using j nm assms(3) by (auto simp: named_open_def)
qed

lemma named_open_long:
  assumes "named_open nm oflag fresh tab = (Some i, t)" "63 < length nm" "\<forall>q \<in> set tab. length (slot_name q) \<le> 63"
  shows "slot_name (tab ! i) = [] \<and> slot_refs (t ! i) = 1"
proof -
  have nm: "nm \<noteq> []" "hd nm = 47" using assms(1) by (auto simp: named_open_def split: if_splits)
  have "first_idx (\<lambda>q. slot_name q \<noteq> [] \<and> slot_name q = nm) tab = None"
    unfolding first_idx_None using assms(2,3) by auto
  then show ?thesis
    using assms(1) nm by (auto simp: named_open_def first_idx_Some split: if_splits option.splits)
qed

end
