(* ===== verification/Pthread.thy ===== *)
theory Pthread
  imports Prelude
begin

text \<open>
  Threads, \<open>kernel/pthread.cpp\<close>: the thread table, thread-specific data and attributes (the
  synchronisation objects are theory Pthread_Sync). A null pointer argument is \<open>None\<close>. The
  addresses of functions, stacks and values are words; the stack handed out by \<open>kmalloc\<close> is an
  argument (0 when it fails), and the addresses given to \<open>kfree\<close> are recorded.
\<close>

subsection \<open>The state\<close>

abbreviation MAX_THREADS :: nat where "MAX_THREADS \<equiv> 64"
abbreviation DEFAULT_STACK_SIZE :: u32 where "DEFAULT_STACK_SIZE \<equiv> 16384"
abbreviation MAX_TSD_KEYS :: nat where "MAX_TSD_KEYS \<equiv> 64"
abbreviation PTHREAD_CANCEL_ENABLE :: int where "PTHREAD_CANCEL_ENABLE \<equiv> 0"
abbreviation PTHREAD_CANCEL_DISABLE :: int where "PTHREAD_CANCEL_DISABLE \<equiv> 1"
abbreviation PTHREAD_CANCEL_DEFERRED :: int where "PTHREAD_CANCEL_DEFERRED \<equiv> 0"
abbreviation PTHREAD_CANCEL_ASYNCHRONOUS :: int where "PTHREAD_CANCEL_ASYNCHRONOUS \<equiv> 1"
abbreviation PTHREAD_CREATE_JOINABLE :: int where "PTHREAD_CREATE_JOINABLE \<equiv> 0"
abbreviation PTHREAD_CREATE_DETACHED :: int where "PTHREAD_CREATE_DETACHED \<equiv> 1"
abbreviation PTHREAD_CANCELED :: u32 where "PTHREAD_CANCELED \<equiv> - 1"

record thread =
  tid :: u32
  in_use :: bool
  detached :: bool
  canceled :: bool
  cancel_enabled :: bool
  cancel_type :: int
  start_routine :: u32
  start_arg :: u32
  retval :: u32
  stack :: u32
  stack_size :: u32
  joined :: bool
  exited :: bool
  tsd :: "u32 list"

record pth =
  threads :: "thread list"
  next_tid :: u32
  tsd_destructors :: "u32 list"
  tsd_key_used :: "bool list"
  current_thread_id :: u32
  freed :: "u32 list"
  destructor_calls :: "(u32 \<times> u32) list"

definition no_thread :: thread where
  "no_thread = \<lparr>tid = 0, in_use = False, detached = False, canceled = False, cancel_enabled = False, cancel_type = 0,
     start_routine = 0, start_arg = 0, retval = 0, stack = 0, stack_size = 0, joined = False, exited = False,
     tsd = replicate MAX_TSD_KEYS 0\<rparr>"

text \<open>The table after \<open>init_threads\<close> on the zeroed static memory: the main thread has slot and number 0.\<close>

definition init_threads :: pth where
  "init_threads =
     \<lparr>threads = no_thread\<lparr>in_use := True\<rparr> # replicate (MAX_THREADS - 1) no_thread, next_tid = 1,
      tsd_destructors = replicate MAX_TSD_KEYS 0, tsd_key_used = replicate MAX_TSD_KEYS False,
      current_thread_id = 0, freed = [], destructor_calls = []\<rparr>"

definition find_thread :: "u32 \<Rightarrow> pth \<Rightarrow> nat option" where
  "find_thread t s = first_idx (\<lambda>q. in_use q \<and> tid q = t) (threads s)"

definition upd_thread :: "nat \<Rightarrow> (thread \<Rightarrow> thread) \<Rightarrow> pth \<Rightarrow> pth" where
  "upd_thread i f s = s\<lparr>threads := (threads s)[i := f (threads s ! i)]\<rparr>"

definition alloc_thread :: "pth \<Rightarrow> nat option \<times> pth" where
  "alloc_thread s =
     (case first_idx (\<lambda>q. \<not> in_use q) (threads s) of
        None \<Rightarrow> (None, s)
      | Some i \<Rightarrow>
          (Some i, (upd_thread i (\<lambda>q. q\<lparr>in_use := True, tid := next_tid s, detached := False, canceled := False,
             cancel_enabled := True, cancel_type := PTHREAD_CANCEL_DEFERRED, retval := 0, joined := False,
             exited := False, tsd := replicate MAX_TSD_KEYS 0\<rparr>) s)\<lparr>next_tid := next_tid s + 1\<rparr>))"

subsection \<open>Attributes\<close>

record pthread_attr =
  attr_stacksize :: u32
  attr_stackaddr :: u32
  attr_detachstate :: int
  attr_schedpolicy :: int
  attr_schedpriority :: int
  attr_scope :: int
  attr_inheritsched :: int

definition pthread_attr_init :: "pthread_attr option \<Rightarrow> int \<times> pthread_attr option" where
  "pthread_attr_init a =
     (case a of None \<Rightarrow> (EINVAL, None)
      | Some _ \<Rightarrow> (0, Some \<lparr>attr_stacksize = DEFAULT_STACK_SIZE, attr_stackaddr = 0,
          attr_detachstate = PTHREAD_CREATE_JOINABLE, attr_schedpolicy = 0, attr_schedpriority = 0, attr_scope = 0,
          attr_inheritsched = 0\<rparr>))"

definition pthread_attr_destroy :: "pthread_attr option \<Rightarrow> int" where
  "pthread_attr_destroy a = (if a = None then EINVAL else 0)"

definition pthread_attr_setdetachstate :: "int \<Rightarrow> pthread_attr option \<Rightarrow> int \<times> pthread_attr option" where
  "pthread_attr_setdetachstate d a =
     (case a of None \<Rightarrow> (EINVAL, None)
      | Some x \<Rightarrow> if d \<noteq> PTHREAD_CREATE_JOINABLE \<and> d \<noteq> PTHREAD_CREATE_DETACHED then (EINVAL, a)
                  else (0, Some (x\<lparr>attr_detachstate := d\<rparr>)))"

definition pthread_attr_setstacksize :: "u32 \<Rightarrow> pthread_attr option \<Rightarrow> int \<times> pthread_attr option" where
  "pthread_attr_setstacksize n a =
     (case a of None \<Rightarrow> (EINVAL, None)
      | Some x \<Rightarrow> if n < 4096 then (EINVAL, a) else (0, Some (x\<lparr>attr_stacksize := n\<rparr>)))"

definition pthread_attr_setstackaddr :: "u32 \<Rightarrow> pthread_attr option \<Rightarrow> int \<times> pthread_attr option" where
  "pthread_attr_setstackaddr p a =
     (case a of None \<Rightarrow> (EINVAL, None) | Some x \<Rightarrow> (0, Some (x\<lparr>attr_stackaddr := p\<rparr>)))"

definition pthread_attr_setschedpolicy :: "int \<Rightarrow> pthread_attr option \<Rightarrow> int \<times> pthread_attr option" where
  "pthread_attr_setschedpolicy p a =
     (case a of None \<Rightarrow> (EINVAL, None) | Some x \<Rightarrow> (0, Some (x\<lparr>attr_schedpolicy := p\<rparr>)))"

text \<open>The four getters; \<open>out\<close> says that the result pointer is not null.\<close>

definition attr_get :: "(pthread_attr \<Rightarrow> 'a) \<Rightarrow> pthread_attr option \<Rightarrow> bool \<Rightarrow> int \<times> 'a option" where
  "attr_get field a out =
     (case a of None \<Rightarrow> (EINVAL, None) | Some x \<Rightarrow> if out then (0, Some (field x)) else (EINVAL, None))"

subsection \<open>Life cycle\<close>

text \<open>\<open>mem\<close> is what \<open>kmalloc\<close> returns for the stack.\<close>

definition pthread_create :: "u32 \<Rightarrow> pthread_attr option \<Rightarrow> u32 \<Rightarrow> u32 \<Rightarrow> pth \<Rightarrow> int \<times> u32 option \<times> pth" where
  "pthread_create mem a routine x s =
     (if routine = 0 then (EINVAL, None, s)
      else case alloc_thread s of
        (None, s1) \<Rightarrow> (EAGAIN, None, s1)
      | (Some i, s1) \<Rightarrow>
          (let sz = (case a of Some y \<Rightarrow> if attr_stacksize y > 0 then attr_stacksize y else DEFAULT_STACK_SIZE
                     | None \<Rightarrow> DEFAULT_STACK_SIZE);
               s2 = upd_thread i (\<lambda>q. q\<lparr>start_routine := routine, start_arg := x, stack := mem\<rparr>) s1
           in if mem = 0 then (ENOMEM, None, upd_thread i (\<lambda>q. q\<lparr>in_use := False\<rparr>) s2)
              else (let det = (case a of Some y \<Rightarrow> attr_detachstate y = PTHREAD_CREATE_DETACHED | None \<Rightarrow> False);
                        s3 = upd_thread i (\<lambda>q. q\<lparr>stack_size := sz, detached := detached q \<or> det\<rparr>) s2
                    in (0, Some (tid (threads s3 ! i)), s3))))"

fun run_destructors :: "nat \<Rightarrow> nat list \<Rightarrow> pth \<Rightarrow> pth" where
  "run_destructors i [] s = s"
| "run_destructors i (k # ks) s =
     (let v = tsd (threads s ! i) ! k in
      if tsd_key_used s ! k \<and> v \<noteq> 0 \<and> tsd_destructors s ! k \<noteq> 0
      then run_destructors i ks ((upd_thread i (\<lambda>q. q\<lparr>tsd := (tsd q)[k := 0]\<rparr>) s)
             \<lparr>destructor_calls := destructor_calls s @ [(tsd_destructors s ! k, v)]\<rparr>)
      else run_destructors i ks s)"

definition free_thread :: "nat \<Rightarrow> pth \<Rightarrow> pth" where
  "free_thread i s =
     (let q = threads s ! i
      in (upd_thread i (\<lambda>q. q\<lparr>in_use := False\<rparr>) s)
           \<lparr>freed := (if stack q \<noteq> 0 then freed s @ [stack q] else freed s)\<rparr>)"

text \<open>
  \<open>None\<close>: no entry of the table, the process exits with the value. Otherwise the state at the
  final call of \<open>schedule\<close>.
\<close>

definition pthread_exit :: "u32 \<Rightarrow> pth \<Rightarrow> pth option" where
  "pthread_exit v s =
     (case find_thread (current_thread_id s) s of
        None \<Rightarrow> None
      | Some i \<Rightarrow>
          (let s1 = run_destructors i [0 ..< MAX_TSD_KEYS] (upd_thread i (\<lambda>q. q\<lparr>retval := v, exited := True\<rparr>) s)
           in Some (if detached (threads s1 ! i) then free_thread i s1 else s1)))"

text \<open>
  Joining in two parts, around the loop that calls \<open>schedule\<close> until the thread has exited: the checks with
  the mark, which give the slot, and the collection.
\<close>

definition pthread_join_begin :: "u32 \<Rightarrow> pth \<Rightarrow> (int + nat) \<times> pth" where
  "pthread_join_begin t s =
     (case find_thread t s of
        None \<Rightarrow> (Inl ESRCH, s)
      | Some i \<Rightarrow>
          (let q = threads s ! i in
           if detached q then (Inl EINVAL, s)
           else if tid q = current_thread_id s then (Inl EDEADLK, s)
           else if joined q then (Inl EINVAL, s)
           else (Inr i, upd_thread i (\<lambda>q. q\<lparr>joined := True\<rparr>) s)))"

definition pthread_join_end :: "nat \<Rightarrow> pth \<Rightarrow> (u32 \<times> pth) option" where
  "pthread_join_end i s =
     (if exited (threads s ! i) then Some (retval (threads s ! i), free_thread i s) else None)"

definition pthread_detach :: "u32 \<Rightarrow> pth \<Rightarrow> int \<times> pth" where
  "pthread_detach t s =
     (case find_thread t s of
        None \<Rightarrow> (ESRCH, s)
      | Some i \<Rightarrow>
          if detached (threads s ! i) then (EINVAL, s)
          else (let s1 = upd_thread i (\<lambda>q. q\<lparr>detached := True\<rparr>) s
                in (0, if exited (threads s1 ! i) then free_thread i s1 else s1)))"

definition pthread_cancel :: "u32 \<Rightarrow> pth \<Rightarrow> int \<times> pth" where
  "pthread_cancel t s =
     (case find_thread t s of None \<Rightarrow> (ESRCH, s) | Some i \<Rightarrow> (0, upd_thread i (\<lambda>q. q\<lparr>canceled := True\<rparr>) s))"

definition pthread_setcancelstate :: "int \<Rightarrow> pth \<Rightarrow> (int + int) \<times> pth" where
  "pthread_setcancelstate st s =
     (case find_thread (current_thread_id s) s of
        None \<Rightarrow> (Inl EINVAL, s)
      | Some i \<Rightarrow>
          if st \<noteq> PTHREAD_CANCEL_ENABLE \<and> st \<noteq> PTHREAD_CANCEL_DISABLE then (Inl EINVAL, s)
          else (Inr (if cancel_enabled (threads s ! i) then PTHREAD_CANCEL_ENABLE else PTHREAD_CANCEL_DISABLE),
                upd_thread i (\<lambda>q. q\<lparr>cancel_enabled := (st = PTHREAD_CANCEL_ENABLE)\<rparr>) s))"

definition pthread_setcanceltype :: "int \<Rightarrow> pth \<Rightarrow> (int + int) \<times> pth" where
  "pthread_setcanceltype ty s =
     (case find_thread (current_thread_id s) s of
        None \<Rightarrow> (Inl EINVAL, s)
      | Some i \<Rightarrow>
          if ty \<noteq> PTHREAD_CANCEL_DEFERRED \<and> ty \<noteq> PTHREAD_CANCEL_ASYNCHRONOUS then (Inl EINVAL, s)
          else (Inr (cancel_type (threads s ! i)), upd_thread i (\<lambda>q. q\<lparr>cancel_type := ty\<rparr>) s))"

text \<open>\<open>Inl\<close>: the thread exits.\<close>

definition pthread_testcancel :: "pth \<Rightarrow> pth option + pth" where
  "pthread_testcancel s =
     (case find_thread (current_thread_id s) s of
        None \<Rightarrow> Inr s
      | Some i \<Rightarrow> if canceled (threads s ! i) \<and> cancel_enabled (threads s ! i)
                  then Inl (pthread_exit PTHREAD_CANCELED s) else Inr s)"

subsection \<open>Thread-specific data\<close>

definition pthread_key_create :: "u32 \<Rightarrow> pth \<Rightarrow> (int + nat) \<times> pth" where
  "pthread_key_create dtor s =
     (case first_idx Not (tsd_key_used s) of
        None \<Rightarrow> (Inl EAGAIN, s)
      | Some k \<Rightarrow> (Inr k, s\<lparr>tsd_key_used := (tsd_key_used s)[k := True], tsd_destructors := (tsd_destructors s)[k := dtor]\<rparr>))"

definition key_valid :: "nat \<Rightarrow> pth \<Rightarrow> bool" where
  "key_valid k s \<longleftrightarrow> k < MAX_TSD_KEYS \<and> tsd_key_used s ! k"

definition pthread_key_delete :: "nat \<Rightarrow> pth \<Rightarrow> int \<times> pth" where
  "pthread_key_delete k s =
     (if \<not> key_valid k s then (EINVAL, s)
      else (0, s\<lparr>tsd_key_used := (tsd_key_used s)[k := False], tsd_destructors := (tsd_destructors s)[k := 0]\<rparr>))"

definition pthread_getspecific :: "nat \<Rightarrow> pth \<Rightarrow> u32" where
  "pthread_getspecific k s =
     (if \<not> key_valid k s then 0
      else case find_thread (current_thread_id s) s of None \<Rightarrow> 0 | Some i \<Rightarrow> tsd (threads s ! i) ! k)"

definition pthread_setspecific :: "nat \<Rightarrow> u32 \<Rightarrow> pth \<Rightarrow> int \<times> pth" where
  "pthread_setspecific k v s =
     (if \<not> key_valid k s then (EINVAL, s)
      else case find_thread (current_thread_id s) s of
        None \<Rightarrow> (EINVAL, s)
      | Some i \<Rightarrow> (0, upd_thread i (\<lambda>q. q\<lparr>tsd := (tsd q)[k := v]\<rparr>) s))"

subsection \<open>Thread numbers are unique\<close>

definition pth_inv :: "pth \<Rightarrow> bool" where
  "pth_inv s \<longleftrightarrow> length (threads s) = MAX_THREADS \<and> length (tsd_key_used s) = MAX_TSD_KEYS
     \<and> length (tsd_destructors s) = MAX_TSD_KEYS
     \<and> (\<forall>i < MAX_THREADS. \<forall>j < MAX_THREADS. in_use (threads s ! i) \<and> in_use (threads s ! j)
          \<and> tid (threads s ! i) = tid (threads s ! j) \<longrightarrow> i = j)
     \<and> (\<forall>i < MAX_THREADS. in_use (threads s ! i) \<longrightarrow> tid (threads s ! i) < next_tid s)
     \<and> (\<forall>i < MAX_THREADS. length (tsd (threads s ! i)) = MAX_TSD_KEYS)"

lemma upd_thread_sel [simp]:
  "next_tid (upd_thread i f s) = next_tid s" "tsd_key_used (upd_thread i f s) = tsd_key_used s"
  "tsd_destructors (upd_thread i f s) = tsd_destructors s" "current_thread_id (upd_thread i f s) = current_thread_id s"
  "freed (upd_thread i f s) = freed s" "threads (upd_thread i f s) = (threads s)[i := f (threads s ! i)]"
  by (simp_all add: upd_thread_def)

lemma init_threads_inv: "pth_inv init_threads"
  unfolding pth_inv_def init_threads_def no_thread_def by (auto simp: nth_Cons split: nat.splits)

text \<open>Updates that leave the number alone and do not take a slot.\<close>

lemma upd_thread_inv:
  assumes "pth_inv s" "i < MAX_THREADS"
    and "\<And>q. tid (f q) = tid q" "\<And>q. in_use (f q) \<Longrightarrow> in_use q" "\<And>q. length (tsd (f q)) = length (tsd q)"
  shows "pth_inv (upd_thread i f s)"
proof -
  have l: "length (threads s) = 64" using assms(1) by (simp add: pth_inv_def)
  have u: "in_use (threads (upd_thread i f s) ! j) \<Longrightarrow> in_use (threads s ! j)"
    "tid (threads (upd_thread i f s) ! j) = tid (threads s ! j)"
    "length (tsd (threads (upd_thread i f s) ! j)) = length (tsd (threads s ! j))" if "j < 64" for j
    using that l assms(3-5) by (cases "j = i"; simp)+
  show ?thesis using assms(1) u l unfolding pth_inv_def by simp
qed

lemma find_thread_Some:
  assumes "pth_inv s" "find_thread t s = Some i"
  shows "i < MAX_THREADS" "in_use (threads s ! i)" "tid (threads s ! i) = t"
  using assms first_idx_SomeD [of _ "threads s" i] by (auto simp: find_thread_def pth_inv_def)

lemma find_thread_unique:
  assumes "pth_inv s" "i < MAX_THREADS" "in_use (threads s ! i)"
  shows "find_thread (tid (threads s ! i)) s = Some i"
proof -
  have "\<not> in_use (threads s ! j) \<or> tid (threads s ! j) \<noteq> tid (threads s ! i)" if "j < i" for j
  proof -
    have "j < MAX_THREADS" "j \<noteq> i" using assms(2) that by simp_all
    then show ?thesis using assms unfolding pth_inv_def by blast
  qed
  moreover have "length (threads s) = MAX_THREADS" using assms(1) by (simp add: pth_inv_def)
  ultimately show ?thesis using assms(2,3) unfolding find_thread_def first_idx_Some by auto
qed

lemma alloc_thread_inv:
  assumes "pth_inv s" "alloc_thread s = (Some i, s1)" "next_tid s + 1 \<noteq> 0"
  shows "pth_inv s1" "i < MAX_THREADS" "\<not> in_use (threads s ! i)" "in_use (threads s1 ! i)"
    "tid (threads s1 ! i) = next_tid s" "\<forall>j. j \<noteq> i \<longrightarrow> threads s1 ! j = threads s ! j"
proof -
  obtain "first_idx (\<lambda>q. \<not> in_use q) (threads s) = Some i"
    using assms(2) by (auto simp: alloc_thread_def split: option.splits)
  note fi = first_idx_SomeD [OF this]
  show i: "i < MAX_THREADS" using fi(1) assms(1) by (simp add: pth_inv_def)
  show "\<not> in_use (threads s ! i)" using fi(2) by simp
  have s1: "s1 = (upd_thread i (\<lambda>q. q\<lparr>in_use := True, tid := next_tid s, detached := False, canceled := False,
             cancel_enabled := True, cancel_type := PTHREAD_CANCEL_DEFERRED, retval := 0, joined := False,
             exited := False, tsd := replicate MAX_TSD_KEYS 0\<rparr>) s)\<lparr>next_tid := next_tid s + 1\<rparr>"
    using assms(2) by (auto simp: alloc_thread_def split: option.splits)
  have l: "length (threads s) = 64" using assms(1) by (simp add: pth_inv_def)
  show new: "in_use (threads s1 ! i)" "tid (threads s1 ! i) = next_tid s" using i l by (simp_all add: s1)
  show old: "\<forall>j. j \<noteq> i \<longrightarrow> threads s1 ! j = threads s ! j" by (simp add: s1)
  have lt: "t < next_tid s \<Longrightarrow> t < next_tid s + 1 \<and> t \<noteq> next_tid s" "next_tid s < next_tid s + 1" for t
    using unatSuc [of "next_tid s"] assms(3) by (auto simp: word_less_nat_alt add.commute)
  have P: "threads s1 ! j = (if j = i then threads s1 ! i else threads s ! j)" for j using old by simp
  have len: "length (tsd (threads s1 ! i)) = 64" "length (threads s1) = 64" "next_tid s1 = next_tid s + 1"
    using i l by (simp_all add: s1)
  have inv: "\<And>a b. a < 64 \<Longrightarrow> b < 64 \<Longrightarrow> in_use (threads s ! a) \<Longrightarrow> in_use (threads s ! b) \<Longrightarrow>
        tid (threads s ! a) = tid (threads s ! b) \<Longrightarrow> a = b"
      "\<And>a. a < 64 \<Longrightarrow> in_use (threads s ! a) \<Longrightarrow> tid (threads s ! a) < next_tid s"
      "\<And>a. a < 64 \<Longrightarrow> length (tsd (threads s ! a)) = 64"
      "length (tsd_key_used s1) = 64" "length (tsd_destructors s1) = 64"
    using assms(1) by (auto simp: pth_inv_def s1)
  show "pth_inv s1"
    unfolding pth_inv_def
  proof (intro conjI allI impI)
    fix a b assume a: "a < 64" and b: "b < 64" and
      ab: "in_use (threads s1 ! a) \<and> in_use (threads s1 ! b) \<and> tid (threads s1 ! a) = tid (threads s1 ! b)"
    show "a = b" using ab inv(1,2) [OF a] inv(2) [OF b] b lt(1) new(2) old by (metis (no_types))
  next
    fix a assume a: "a < 64" "in_use (threads s1 ! a)"
    show "tid (threads s1 ! a) < next_tid s1" using inv(2) [OF a(1)] a(2) lt new len(3) old by (metis (no_types))
  next
    fix a assume "a < (64 :: nat)"
    then show "length (tsd (threads s1 ! a)) = 64" using inv(3) len(1) old by metis
  qed (use len inv in simp_all)
qed

text \<open>Only the thread table and the numbers matter for the invariant.\<close>

lemma pth_inv_cong:
  "pth_inv s \<Longrightarrow> threads t = threads s \<Longrightarrow> next_tid t = next_tid s \<Longrightarrow> length (tsd_key_used t) = length (tsd_key_used s) \<Longrightarrow>
   length (tsd_destructors t) = length (tsd_destructors s) \<Longrightarrow> pth_inv t"
  by (simp add: pth_inv_def)

lemma free_thread_inv: "pth_inv s \<Longrightarrow> i < MAX_THREADS \<Longrightarrow> pth_inv (free_thread i s)"
  unfolding free_thread_def Let_def
  by (rule pth_inv_cong [OF upd_thread_inv [where f = "\<lambda>q. q\<lparr>in_use := False\<rparr>"]]) simp_all

lemma run_destructors_inv:
  assumes "pth_inv s" "i < MAX_THREADS"
  shows "pth_inv (run_destructors i ks s)"
  using assms
proof (induction ks arbitrary: s)
  case (Cons k ks)
  let ?t = "(upd_thread i (\<lambda>q. q\<lparr>tsd := (tsd q)[k := 0]\<rparr>) s)
      \<lparr>destructor_calls := destructor_calls s @ [(tsd_destructors s ! k, tsd (threads s ! i) ! k)]\<rparr>"
  have "pth_inv ?t"
    by (rule pth_inv_cong [OF upd_thread_inv [OF Cons.prems, where f = "\<lambda>q. q\<lparr>tsd := (tsd q)[k := 0]\<rparr>"]]) simp_all
  then show ?case using Cons by (simp add: Let_def)
qed simp

inductive pth_step :: "pth \<Rightarrow> pth \<Rightarrow> bool" where
  create: "next_tid s + 1 \<noteq> 0 \<Longrightarrow> pthread_create mem a routine x s = (r, t, s') \<Longrightarrow> pth_step s s'"
| exit: "pthread_exit v s = Some s' \<Longrightarrow> pth_step s s'"
| join_begin: "pthread_join_begin t s = (r, s') \<Longrightarrow> pth_step s s'"
| join_end: "i < MAX_THREADS \<Longrightarrow> pthread_join_end i s = Some (v, s') \<Longrightarrow> pth_step s s'"
| detach: "pthread_detach t s = (r, s') \<Longrightarrow> pth_step s s'"
| cancel: "pthread_cancel t s = (r, s') \<Longrightarrow> pth_step s s'"
| cancelstate: "pthread_setcancelstate st s = (r', s') \<Longrightarrow> pth_step s s'"
| canceltype: "pthread_setcanceltype st s = (r', s') \<Longrightarrow> pth_step s s'"
| testcancel: "pthread_testcancel s = Inl (Some s') \<Longrightarrow> pth_step s s'"
| key_create: "pthread_key_create d s = (k, s') \<Longrightarrow> pth_step s s'"
| key_delete: "pthread_key_delete k' s = (r, s') \<Longrightarrow> pth_step s s'"
| setspecific: "pthread_setspecific k' v s = (r, s') \<Longrightarrow> pth_step s s'"
| switch: "pth_step s (s\<lparr>current_thread_id := t\<rparr>)"

lemma pthread_create_inv:
  assumes "pth_inv s" "next_tid s + 1 \<noteq> 0" "pthread_create mem a routine x s = (r, t, s')"
  shows "pth_inv s'"
proof (cases "alloc_thread s")
  case (Pair o1 s1)
  show ?thesis
  proof (cases o1)
    case None
    then have "s1 = s" using Pair by (simp add: alloc_thread_def split: option.splits)
    then show ?thesis using assms Pair None by (auto simp: pthread_create_def split: if_splits)
  next
    case (Some i)
    note a = alloc_thread_inv [OF assms(1) Pair [unfolded Some] assms(2)]
    let ?f = "\<lambda>q. q\<lparr>start_routine := routine, start_arg := x, stack := mem\<rparr>"
    have 1: "pth_inv (upd_thread i ?f s1)" using a(1,2) by (intro upd_thread_inv) simp_all
    have 2: "pth_inv (upd_thread i (\<lambda>q. q\<lparr>in_use := False\<rparr>) (upd_thread i ?f s1))"
      using 1 a(2) by (rule upd_thread_inv) simp_all
    have 3: "pth_inv (upd_thread i (\<lambda>q. q\<lparr>stack_size := sz, detached := detached q \<or> det\<rparr>) (upd_thread i ?f s1))" for sz det
      using 1 a(2) by (rule upd_thread_inv) simp_all
    show ?thesis using assms(1,3) Pair Some 2 3
      by (simp add: pthread_create_def Let_def split: if_splits) blast+
  qed
qed

lemma pthread_exit_inv:
  assumes "pth_inv s" "pthread_exit v s = Some s'"
  shows "pth_inv s'"
proof -
  obtain i where i: "find_thread (current_thread_id s) s = Some i"
    using assms(2) by (auto simp: pthread_exit_def split: option.splits)
  note f = find_thread_Some [OF assms(1) i]
  let ?s1 = "upd_thread i (\<lambda>q. q\<lparr>retval := v, exited := True\<rparr>) s"
  define s2 where "s2 = run_destructors i [0 ..< MAX_TSD_KEYS] ?s1"
  have "pth_inv ?s1" using assms(1) f(1) by (rule upd_thread_inv) simp_all
  then have s2: "pth_inv s2" unfolding s2_def by (rule run_destructors_inv [OF _ f(1)])
  have "s' = (if detached (threads s2 ! i) then free_thread i s2 else s2)"
    using assms(2) unfolding pthread_exit_def i option.case Let_def s2_def by (rule option.inject [THEN iffD1, symmetric])
  then show ?thesis using s2 free_thread_inv [OF s2 f(1)] by simp
qed

lemma found_inv:
  assumes "pth_inv s" "find_thread t s = Some i"
    and "\<And>q. tid (f q) = tid q" "\<And>q. in_use (f q) = in_use q" "\<And>q. length (tsd (f q)) = length (tsd q)"
  shows "pth_inv (upd_thread i f s)"
  using find_thread_Some(1) [OF assms(1,2)] assms(3-5) by (intro upd_thread_inv [OF assms(1)]) simp_all

lemma pth_step_inv: "pth_step s s' \<Longrightarrow> pth_inv s \<Longrightarrow> pth_inv s'"
proof (induction rule: pth_step.induct)
  case (create s mem a routine x r t s')
  show ?case by (rule pthread_create_inv [OF create(3,1,2)])
next
  case (exit v s s')
  show ?case by (rule pthread_exit_inv [OF exit(2,1)])
next
  case (join_end i s v s')
  then show ?case by (auto simp: pthread_join_end_def free_thread_inv split: if_splits)
next
  case (testcancel s s')
  then show ?case using pthread_exit_inv by (auto simp: pthread_testcancel_def split: option.splits if_splits)
next
  case (key_create d s k s')
  then show ?case by (auto simp: pthread_key_create_def elim!: pth_inv_cong split: option.splits)
next
  case (key_delete k' s r s')
  then show ?case by (auto simp: pthread_key_delete_def elim!: pth_inv_cong split: if_splits)
next
  case (switch s t)
  then show ?case by (elim pth_inv_cong) simp_all
next
  case (detach t s r s')
  show ?case
  proof (cases "find_thread t s")
    case (Some i)
    note inv = found_inv [OF detach(2) Some, of "\<lambda>q. q\<lparr>detached := True\<rparr>"]
    then show ?thesis using detach Some free_thread_inv [OF inv] find_thread_Some(1) [OF detach(2) Some]
      by (simp add: pthread_detach_def Let_def split: if_splits) blast+
  qed (use detach in \<open>simp add: pthread_detach_def\<close>)
qed (auto simp: pthread_join_begin_def pthread_cancel_def pthread_setcancelstate_def
      pthread_setcanceltype_def pthread_setspecific_def Let_def found_inv split: option.splits if_splits)

text \<open>
  Thread numbers identify threads: in every state reached from the initial table by creating (as long as the
  32-bit numbers do not run out), exiting, joining, detaching, cancelling and using keys, in any order
  and from any thread, two used slots never have the same number, and looking up the number of a used
  slot finds that slot.
\<close>

theorem thread_ids_unique:
  assumes "pth_step\<^sup>*\<^sup>* init_threads s" "i < MAX_THREADS" "in_use (threads s ! i)"
  shows "find_thread (tid (threads s ! i)) s = Some i
    \<and> (\<forall>j < MAX_THREADS. in_use (threads s ! j) \<and> tid (threads s ! j) = tid (threads s ! i) \<longrightarrow> j = i)"
proof -
  have inv: "pth_inv s"
    using assms(1) by (induction rule: rtranclp_induct) (auto intro: init_threads_inv pth_step_inv)
  then show ?thesis using find_thread_unique [OF inv assms(2,3)] assms(2,3) unfolding pth_inv_def by blast
qed

theorem thread_ids_unique_witness:
  "\<exists>s. pthread_create 4096 None 1 0 init_threads = (0, Some 1, s) \<and> find_thread 1 s = Some 1"
proof -
  obtain r t s where c: "pthread_create 4096 None 1 0 init_threads = (r, t, s)" by (cases "pthread_create 4096 None 1 0 init_threads") auto
  have "pth_step init_threads s" by (rule pth_step.create [OF _ c]) (simp add: init_threads_def)
  then have reach: "pth_step\<^sup>*\<^sup>* init_threads s" by simp
  have "first_idx (\<lambda>q. \<not> in_use q) (threads init_threads) = Some 1"
    by (auto simp: first_idx_Some init_threads_def no_thread_def)
  then have "alloc_thread init_threads = (Some 1, (upd_thread 1 (\<lambda>q. q\<lparr>in_use := True, tid := 1, detached := False, canceled := False,
             cancel_enabled := True, cancel_type := PTHREAD_CANCEL_DEFERRED, retval := 0, joined := False,
             exited := False, tsd := replicate MAX_TSD_KEYS 0\<rparr>) init_threads)\<lparr>next_tid := 2\<rparr>)"
    by (simp add: alloc_thread_def) (simp add: init_threads_def)
  then have res: "r = 0" "t = Some 1" "in_use (threads s ! 1)" "tid (threads s ! 1) = 1"
    using c by (simp_all add: pthread_create_def Let_def, auto simp: init_threads_def no_thread_def)
  have "(1 :: nat) < MAX_THREADS" by simp
  from thread_ids_unique [OF reach this res(3)] show ?thesis using c res by auto
qed

subsection \<open>Joining and thread-specific data\<close>

text \<open>A thread that has exited is collected: its value is returned, its slot and stack are released.\<close>

lemma pthread_join_collects:
  assumes "pth_inv s" "find_thread t s = Some i" "\<not> detached (threads s ! i)" "\<not> joined (threads s ! i)"
    "t \<noteq> current_thread_id s" "exited (threads s ! i)" "stack (threads s ! i) \<noteq> 0"
  shows "\<exists>s1 s2. pthread_join_begin t s = (Inr i, s1) \<and> pthread_join_end i s1 = Some (retval (threads s ! i), s2)
    \<and> find_thread t s2 = None \<and> freed s2 = freed s @ [stack (threads s ! i)]"
proof -
  note f = find_thread_Some [OF assms(1,2)]
  have l: "i < length (threads s)" using f(1) assms(1) by (simp add: pth_inv_def)
  define s1 where "s1 = upd_thread i (\<lambda>q. q\<lparr>joined := True\<rparr>) s"
  have 1: "pthread_join_begin t s = (Inr i, s1)" using assms f by (simp add: pthread_join_begin_def s1_def Let_def)
  have 2: "pthread_join_end i s1 = Some (retval (threads s ! i), free_thread i s1)"
    using assms(6) l by (simp add: pthread_join_end_def s1_def)
  have "\<not> (in_use q \<and> tid q = t)" if mem: "q \<in> set (threads (free_thread i s1))" for q
  proof -
    have len: "length (threads (free_thread i s1)) = length (threads s)" by (simp add: free_thread_def Let_def s1_def)
    obtain j where j: "j < length (threads s)" "q = threads (free_thread i s1) ! j"
      using mem unfolding in_set_conv_nth len by blast
    show ?thesis
    proof (cases "j = i")
      case False
      then have "q = threads s ! j" using j by (simp add: free_thread_def s1_def Let_def)
      moreover have "length (threads s) = MAX_THREADS" using assms(1) by (simp add: pth_inv_def)
      ultimately show ?thesis using find_thread_unique [OF assms(1), of j] assms(2) False j(1) by auto
    qed (use j l in \<open>simp add: free_thread_def s1_def Let_def\<close>)
  qed
  then have "find_thread t (free_thread i s1) = None" by (auto simp: find_thread_def first_idx_None)
  then show ?thesis using 1 2 assms(7) l by (auto simp: free_thread_def s1_def Let_def)
qed

text \<open>A thread reads back its own value, and the other threads and keys keep theirs.\<close>

lemma tsd_set_get:
  assumes "pth_inv s" "pthread_setspecific k v s = (0, s')"
  shows "pthread_getspecific k s' = v"
    and "k' \<noteq> k \<or> t \<noteq> current_thread_id s \<Longrightarrow>
      pthread_getspecific k' (s'\<lparr>current_thread_id := t\<rparr>) = pthread_getspecific k' (s\<lparr>current_thread_id := t\<rparr>)"
proof -
  have kv: "key_valid k s" using assms(2) by (auto simp: pthread_setspecific_def split: if_splits)
  obtain i where i: "find_thread (current_thread_id s) s = Some i"
      "s' = upd_thread i (\<lambda>q. q\<lparr>tsd := (tsd q)[k := v]\<rparr>) s"
    using assms(2) by (auto simp: pthread_setspecific_def split: if_splits option.splits)
  note f = find_thread_Some [OF assms(1) i(1)]
  have inv: "pth_inv s'" unfolding i(2) by (rule upd_thread_inv [OF assms(1) f(1)]) simp_all
  have l: "i < length (threads s)" "k < length (tsd (threads s ! i))"
    using f(1) kv assms(1) by (simp_all add: pth_inv_def key_valid_def)
  have find: "find_thread t s' = find_thread t s" for t
  proof -
    have "in_use (threads s' ! j) = in_use (threads s ! j) \<and> tid (threads s' ! j) = tid (threads s ! j)" for j
      using l by (cases "j = i") (simp_all add: i(2))
    then have "first_idx (\<lambda>q. in_use q \<and> tid q = t) (threads s') = r \<longleftrightarrow> first_idx (\<lambda>q. in_use q \<and> tid q = t) (threads s) = r" for r
      by (cases r) (simp_all add: first_idx_Some first_idx_None all_set_conv_all_nth i(2))
    then show ?thesis unfolding find_thread_def by blast
  qed
  have kv': "key_valid k s'" "\<And>k. key_valid k s' = key_valid k s" using kv by (simp_all add: key_valid_def i(2))
  show "pthread_getspecific k s' = v"
    using find i kv' l by (simp add: pthread_getspecific_def)
  assume other: "k' \<noteq> k \<or> t \<noteq> current_thread_id s"
  have ft: "find_thread t (x\<lparr>current_thread_id := t'\<rparr>) = find_thread t x"
    and kt: "key_valid k (x\<lparr>current_thread_id := t'\<rparr>) = key_valid k x" for t x t' k
    by (simp_all add: find_thread_def key_valid_def)
  show "pthread_getspecific k' (s'\<lparr>current_thread_id := t\<rparr>) = pthread_getspecific k' (s\<lparr>current_thread_id := t\<rparr>)"
  proof (cases "find_thread t s")
    case (Some j)
    have "tsd (threads s' ! j) ! k' = tsd (threads s ! j) ! k'"
      using other Some i f find_thread_Some [OF assms(1) Some] l by (cases "j = i") auto
    then show ?thesis using Some by (simp add: pthread_getspecific_def ft kt find kv'(2))
  qed (simp add: pthread_getspecific_def ft kt find kv'(2))
qed

text \<open>
  A key that is deleted and created again shows the values of its former life: deleting does not clear the slots
  of the threads.
\<close>

lemma key_reuse_stale:
  assumes "pth_inv s" "key_valid k s" "\<forall>j < k. tsd_key_used s ! j"
  shows "\<exists>s1 s2. pthread_key_delete k s = (0, s1) \<and> pthread_key_create d s1 = (Inr k, s2)
    \<and> pthread_getspecific k s2 = pthread_getspecific k s"
proof -
  have k: "k < length (tsd_key_used s)" using assms(1,2) by (simp add: pth_inv_def key_valid_def)
  let ?s1 = "s\<lparr>tsd_key_used := (tsd_key_used s)[k := False], tsd_destructors := (tsd_destructors s)[k := 0]\<rparr>"
  have "first_idx Not ((tsd_key_used s)[k := False]) = Some k"
    using k assms(3) by (auto simp: first_idx_Some)
  then show ?thesis
    using assms(2) k by (simp add: pthread_key_delete_def pthread_key_create_def pthread_getspecific_def key_valid_def find_thread_def
        split: option.split)
qed

end
