(* ===== verification/Pthread_Sync.thy ===== *)
theory Pthread_Sync
  imports Prelude
begin

text \<open>
  The synchronisation objects of \<open>kernel/pthread.cpp\<close>: mutexes, condition variables, read-write
  locks, barriers, spin locks and \<open>pthread_once\<close>. A waiting loop is a function for one round, which
  says whether the caller goes on or calls \<open>schedule\<close> and tries again. Every function takes the
  number of the calling thread where the code calls \<open>pthread_self\<close>. The counters are the code's
  32-bit integers, read as signed where the code compares them with 0, so an increment wraps.
\<close>

subsection \<open>Mutexes\<close>

abbreviation PTHREAD_MUTEX_NORMAL :: int where "PTHREAD_MUTEX_NORMAL \<equiv> 0"
abbreviation PTHREAD_MUTEX_ERRORCHECK :: int where "PTHREAD_MUTEX_ERRORCHECK \<equiv> 1"
abbreviation PTHREAD_MUTEX_RECURSIVE :: int where "PTHREAD_MUTEX_RECURSIVE \<equiv> 2"

record mutex =
  locked :: bool
  owner :: u32
  mutex_type :: int
  recursive_count :: u32

definition atomic_cas :: "bool \<Rightarrow> bool \<times> bool" where
  "atomic_cas l = (\<not> l, True)"

definition pthread_mutex_init :: "int option \<Rightarrow> mutex" where
  "pthread_mutex_init attr = \<lparr>locked = False, owner = 0,
     mutex_type = (case attr of Some ty \<Rightarrow> ty | None \<Rightarrow> PTHREAD_MUTEX_NORMAL), recursive_count = 0\<rparr>"

definition pthread_mutex_destroy :: "mutex \<Rightarrow> int" where
  "pthread_mutex_destroy m = (if locked m then EBUSY else 0)"

definition pthread_mutexattr_settype :: "int \<Rightarrow> int + int" where
  "pthread_mutexattr_settype ty = (if ty < 0 \<or> ty > PTHREAD_MUTEX_RECURSIVE then Inl EINVAL else Inr ty)"

text \<open>
  Locking: the two tests before the loop, the compare and swap, and the two stores after it.
\<close>

definition relocks :: "u32 \<Rightarrow> mutex \<Rightarrow> bool" where
  "relocks self m \<longleftrightarrow> mutex_type m = PTHREAD_MUTEX_RECURSIVE \<and> owner m = self"

definition deadlocks :: "u32 \<Rightarrow> mutex \<Rightarrow> bool" where
  "deadlocks self m \<longleftrightarrow> mutex_type m = PTHREAD_MUTEX_ERRORCHECK \<and> owner m = self"

definition lock_cas :: "mutex \<Rightarrow> (bool \<times> mutex)" where
  "lock_cas m = (case atomic_cas (locked m) of (won, l) \<Rightarrow> (won, m\<lparr>locked := l\<rparr>))"

definition lock_owner :: "u32 \<Rightarrow> mutex \<Rightarrow> mutex" where "lock_owner self m = m\<lparr>owner := self\<rparr>"
definition lock_count :: "u32 \<Rightarrow> mutex \<Rightarrow> mutex" where "lock_count n m = m\<lparr>recursive_count := n\<rparr>"

text \<open>The whole call when no other thread runs; \<open>None\<close> is the endless loop.\<close>

definition pthread_mutex_lock :: "u32 \<Rightarrow> mutex \<Rightarrow> (int \<times> mutex) option" where
  "pthread_mutex_lock self m =
     (if relocks self m then Some (0, lock_count (recursive_count m + 1) m)
      else if deadlocks self m then Some (EDEADLK, m)
      else (case lock_cas m of (won, m1) \<Rightarrow> if won then Some (0, lock_count 1 (lock_owner self m1)) else None))"

definition pthread_mutex_trylock :: "u32 \<Rightarrow> mutex \<Rightarrow> int \<times> mutex" where
  "pthread_mutex_trylock self m =
     (if relocks self m then (0, lock_count (recursive_count m + 1) m)
      else (case lock_cas m of (won, m1) \<Rightarrow> if won then (0, lock_count 1 (lock_owner self m1)) else (EBUSY, m1)))"

text \<open>Unlocking: the test for the wrong caller, the test behind the decrement, and the two stores at the end.\<close>

definition unlock_refused :: "u32 \<Rightarrow> mutex \<Rightarrow> bool" where
  "unlock_refused self m \<longleftrightarrow> (mutex_type m = PTHREAD_MUTEX_ERRORCHECK \<and> owner m \<noteq> self)
     \<or> (mutex_type m = PTHREAD_MUTEX_RECURSIVE \<and> owner m \<noteq> self)"

definition still_locked :: "mutex \<Rightarrow> bool" where "still_locked m \<longleftrightarrow> sint (recursive_count m) > 0"
definition unlock_owner :: "mutex \<Rightarrow> mutex" where "unlock_owner m = m\<lparr>owner := 0\<rparr>"
definition unlock_free :: "mutex \<Rightarrow> mutex" where "unlock_free m = m\<lparr>locked := False\<rparr>"

definition pthread_mutex_unlock :: "u32 \<Rightarrow> mutex \<Rightarrow> int \<times> mutex" where
  "pthread_mutex_unlock self m =
     (if unlock_refused self m then (EPERM, m)
      else (let m1 = (if mutex_type m = PTHREAD_MUTEX_RECURSIVE then lock_count (recursive_count m - 1) m else m)
            in if mutex_type m = PTHREAD_MUTEX_RECURSIVE \<and> still_locked m1 then (0, m1)
               else (0, unlock_free (unlock_owner m1))))"

subsection \<open>Condition variables\<close>

record cond =
  cond_waiters :: u32
  signal_count :: u32

definition pthread_cond_init :: cond where "pthread_cond_init = \<lparr>cond_waiters = 0, signal_count = 0\<rparr>"

definition pthread_cond_destroy :: "cond \<Rightarrow> int" where
  "pthread_cond_destroy c = (if sint (cond_waiters c) > 0 then EBUSY else 0)"

text \<open>Waiting: registering with the mutex released, which gives the count to wait for; the test of the loop; leaving.\<close>

definition cond_wait_begin :: "u32 \<Rightarrow> cond \<Rightarrow> mutex \<Rightarrow> u32 \<times> cond \<times> mutex" where
  "cond_wait_begin self c m =
     (signal_count c, c\<lparr>cond_waiters := cond_waiters c + 1\<rparr>, snd (pthread_mutex_unlock self m))"

definition cond_waiting :: "u32 \<Rightarrow> cond \<Rightarrow> bool" where
  "cond_waiting my_signal c \<longleftrightarrow> signal_count c = my_signal"

definition cond_wait_end :: "cond \<Rightarrow> cond" where
  "cond_wait_end c = c\<lparr>cond_waiters := cond_waiters c - 1\<rparr>"

definition pthread_cond_signal :: "cond \<Rightarrow> cond" where
  "pthread_cond_signal c = (if sint (cond_waiters c) > 0 then c\<lparr>signal_count := signal_count c + 1\<rparr> else c)"

definition pthread_cond_broadcast :: "cond \<Rightarrow> cond" where
  "pthread_cond_broadcast c = c\<lparr>signal_count := signal_count c + cond_waiters c\<rparr>"

subsection \<open>Read-write locks\<close>

record rwlock =
  readers :: u32
  writers :: u32
  write_waiters :: u32
  write_owner :: u32
  rw_mutex :: mutex

definition pthread_rwlock_init :: rwlock where
  "pthread_rwlock_init = \<lparr>readers = 0, writers = 0, write_waiters = 0, write_owner = 0, rw_mutex = pthread_mutex_init None\<rparr>"

definition pthread_rwlock_destroy :: "rwlock \<Rightarrow> int" where
  "pthread_rwlock_destroy r = (if sint (readers r) > 0 \<or> sint (writers r) > 0 then EBUSY else 0)"

text \<open>
  The sections under the inner mutex. Of the blocking calls: the test of the loop (\<open>True\<close>: go on), the
  registration of a writer and what follows the loop.
\<close>

definition rd_free :: "rwlock \<Rightarrow> bool" where "rd_free r \<longleftrightarrow> \<not> (sint (writers r) > 0 \<or> sint (write_waiters r) > 0)"
definition rd_take :: "rwlock \<Rightarrow> rwlock" where "rd_take r = r\<lparr>readers := readers r + 1\<rparr>"
definition wr_register :: "rwlock \<Rightarrow> rwlock" where "wr_register r = r\<lparr>write_waiters := write_waiters r + 1\<rparr>"
definition wr_free :: "rwlock \<Rightarrow> bool" where "wr_free r \<longleftrightarrow> \<not> (sint (readers r) > 0 \<or> sint (writers r) > 0)"
definition wr_take :: "u32 \<Rightarrow> rwlock \<Rightarrow> rwlock" where
  "wr_take self r = r\<lparr>writers := writers r + 1, write_owner := self\<rparr>"
definition wr_leave_wait :: "rwlock \<Rightarrow> rwlock" where "wr_leave_wait r = r\<lparr>write_waiters := write_waiters r - 1\<rparr>"
definition rw_release :: "rwlock \<Rightarrow> rwlock" where
  "rw_release r =
     (if sint (writers r) > 0 then r\<lparr>writers := writers r + 1, write_owner := 0\<rparr>
      else if sint (readers r) > 0 then r\<lparr>readers := readers r - 1\<rparr> else r)"

definition with_trylock :: "u32 \<Rightarrow> (rwlock \<Rightarrow> int \<times> rwlock) \<Rightarrow> rwlock \<Rightarrow> int \<times> rwlock" where
  "with_trylock self body r =
     (case pthread_mutex_trylock self (rw_mutex r) of (e, m1) \<Rightarrow>
        if e \<noteq> 0 then (EBUSY, r\<lparr>rw_mutex := m1\<rparr>)
        else (case body (r\<lparr>rw_mutex := m1\<rparr>) of (v, r1) \<Rightarrow>
                (v, r1\<lparr>rw_mutex := snd (pthread_mutex_unlock self (rw_mutex r1))\<rparr>)))"

definition pthread_rwlock_tryrdlock :: "u32 \<Rightarrow> rwlock \<Rightarrow> int \<times> rwlock" where
  "pthread_rwlock_tryrdlock self = with_trylock self (\<lambda>r. if rd_free r then (0, rd_take r) else (EBUSY, r))"

definition pthread_rwlock_trywrlock :: "u32 \<Rightarrow> rwlock \<Rightarrow> int \<times> rwlock" where
  "pthread_rwlock_trywrlock self = with_trylock self (\<lambda>r. if wr_free r then (0, wr_take self r) else (EBUSY, r))"

subsection \<open>Barriers\<close>

record barrier =
  bar_count :: u32
  bar_current :: u32
  bar_phase :: u32

abbreviation PTHREAD_BARRIER_SERIAL_THREAD :: int where "PTHREAD_BARRIER_SERIAL_THREAD \<equiv> -1"

definition pthread_barrier_init :: "u32 \<Rightarrow> int + barrier" where
  "pthread_barrier_init n = (if n = 0 then Inl EINVAL else Inr \<lparr>bar_count = n, bar_current = 0, bar_phase = 0\<rparr>)"

text \<open>Arriving, under the lock: the last thread returns at once (\<open>Inl\<close>), the others wait for a phase after theirs.\<close>

definition barrier_arrive :: "barrier \<Rightarrow> (int + u32) \<times> barrier" where
  "barrier_arrive b =
     (let b1 = b\<lparr>bar_current := bar_current b + 1\<rparr>
      in if bar_current b1 \<ge> bar_count b1
         then (Inl PTHREAD_BARRIER_SERIAL_THREAD, b1\<lparr>bar_current := 0, bar_phase := bar_phase b1 + 1\<rparr>)
         else (Inr (bar_phase b), b1))"

definition barrier_waiting :: "u32 \<Rightarrow> barrier \<Rightarrow> bool" where
  "barrier_waiting my_phase b \<longleftrightarrow> bar_phase b = my_phase"

subsection \<open>Spin locks and once\<close>

type_synonym spinlock = bool

definition pthread_spin_init :: "int \<Rightarrow> spinlock" where "pthread_spin_init pshared = False"
definition pthread_spin_trylock :: "spinlock \<Rightarrow> int \<times> spinlock" where
  "pthread_spin_trylock l = (case atomic_cas l of (won, l1) \<Rightarrow> (if won then 0 else EBUSY, l1))"
definition pthread_spin_unlock :: "spinlock \<Rightarrow> int \<times> spinlock" where "pthread_spin_unlock l = (0, False)"

record once =
  once_done :: bool
  once_mutex :: mutex

text \<open>The section under the lock; \<open>init\<close> is the effect of the routine.\<close>

definition pthread_once :: "('s \<Rightarrow> 's) \<Rightarrow> u32 \<Rightarrow> once \<times> 's \<Rightarrow> (int \<times> once \<times> 's) option" where
  "pthread_once init self st =
     (case st of (o1, s) \<Rightarrow>
      if once_done o1 then Some (0, o1, s)
      else map_option (\<lambda>(_, m).
             let (o2, s2) = (if \<not> once_done o1 then (o1\<lparr>once_done := True\<rparr>, init s) else (o1, s))
             in (0, o2\<lparr>once_mutex := snd (pthread_mutex_unlock self m)\<rparr>, s2))
           (pthread_mutex_lock self (once_mutex o1)))"

subsection \<open>Mutual exclusion\<close>

text \<open>
  Callers that lock, try to lock and unlock a mutex, one access to it at a time; an increment is a read
  and a store. \<open>T\<close> is the set of the callers; \<open>self\<close> gives the thread number that \<open>pthread_self\<close> returns to each caller. In this
  kernel that is 0 for all of them, because \<open>pthread_create\<close> never starts the wrapper that sets it.
  \<open>depth\<close> counts the calls of a caller that have locked, less those that have unlocked. With
  \<open>disc\<close> the callers are disciplined: they unlock only what they hold, and hold it fewer than \<open>2\<^sup>3\<^sup>1\<close> times.
\<close>

datatype mutex_pc = Idle | Spinning | Trying | Won | Owned | Nesting | Adding u32
  | Unnesting | Subbing u32 | Testing | Clearing | Freeing

record mutex_sys =
  the_mutex :: mutex
  mpc :: "nat \<Rightarrow> mutex_pc"
  depth :: "nat \<Rightarrow> nat"

definition mgoto :: "nat \<Rightarrow> mutex_pc \<Rightarrow> nat \<Rightarrow> mutex \<Rightarrow> mutex_sys \<Rightarrow> mutex_sys" where
  "mgoto c l d m s = s\<lparr>the_mutex := m, mpc := (mpc s)(c := l), depth := (depth s)(c := d)\<rparr>"

inductive mutex_step :: "nat set \<Rightarrow> bool \<Rightarrow> (nat \<Rightarrow> u32) \<Rightarrow> mutex_sys \<Rightarrow> mutex_sys \<Rightarrow> bool" for T disc self where
  lock_again: "c \<in> T \<Longrightarrow> mpc s c = Idle \<Longrightarrow> relocks (self c) (the_mutex s) \<Longrightarrow> (disc \<longrightarrow> depth s c < 2 ^ 31 - 1) \<Longrightarrow>
    mutex_step T disc self s (mgoto c Nesting (depth s c) (the_mutex s) s)"
| nest_read: "mpc s c = Nesting \<Longrightarrow>
    mutex_step T disc self s (mgoto c (Adding (recursive_count (the_mutex s))) (depth s c) (the_mutex s) s)"
| nest: "mpc s c = Adding n \<Longrightarrow> mutex_step T disc self s (mgoto c Idle (depth s c + 1) (lock_count (n + 1) (the_mutex s)) s)"
| lock_deadlock: "mpc s c = Idle \<Longrightarrow> deadlocks (self c) (the_mutex s) \<Longrightarrow> mutex_step T disc self s s"
| lock_begin: "c \<in> T \<Longrightarrow> mpc s c = Idle \<Longrightarrow> \<not> relocks (self c) (the_mutex s) \<Longrightarrow> \<not> deadlocks (self c) (the_mutex s) \<Longrightarrow>
    mutex_step T disc self s (mgoto c Spinning (depth s c) (the_mutex s) s)"
| try_begin: "c \<in> T \<Longrightarrow> mpc s c = Idle \<Longrightarrow> \<not> relocks (self c) (the_mutex s) \<Longrightarrow>
    mutex_step T disc self s (mgoto c Trying (depth s c) (the_mutex s) s)"
| lock_swap: "mpc s c = Spinning \<Longrightarrow> lock_cas (the_mutex s) = (won, m) \<Longrightarrow>
    mutex_step T disc self s (mgoto c (if won then Won else Spinning) (depth s c) m s)"
| try_swap: "mpc s c = Trying \<Longrightarrow> lock_cas (the_mutex s) = (won, m) \<Longrightarrow>
    mutex_step T disc self s (mgoto c (if won then Won else Idle) (depth s c) m s)"
| own: "mpc s c = Won \<Longrightarrow> mutex_step T disc self s (mgoto c Owned (depth s c) (lock_owner (self c) (the_mutex s)) s)"
| count: "mpc s c = Owned \<Longrightarrow> mutex_step T disc self s (mgoto c Idle (depth s c + 1) (lock_count 1 (the_mutex s)) s)"
| unlock_refuse: "mpc s c = Idle \<Longrightarrow> unlock_refused (self c) (the_mutex s) \<Longrightarrow> mutex_step T disc self s s"
| unlock_begin: "c \<in> T \<Longrightarrow> mpc s c = Idle \<Longrightarrow> \<not> unlock_refused (self c) (the_mutex s) \<Longrightarrow> (disc \<longrightarrow> 0 < depth s c) \<Longrightarrow>
    mutex_step T disc self s (mgoto c (if mutex_type (the_mutex s) = PTHREAD_MUTEX_RECURSIVE then Unnesting else Clearing)
      (depth s c) (the_mutex s) s)"
| unnest_read: "mpc s c = Unnesting \<Longrightarrow>
    mutex_step T disc self s (mgoto c (Subbing (recursive_count (the_mutex s))) (depth s c) (the_mutex s) s)"
| unnest: "mpc s c = Subbing n \<Longrightarrow> mutex_step T disc self s (mgoto c Testing (depth s c) (lock_count (n - 1) (the_mutex s)) s)"
| unlock_inner: "mpc s c = Testing \<Longrightarrow> still_locked (the_mutex s) \<Longrightarrow>
    mutex_step T disc self s (mgoto c Idle (depth s c - 1) (the_mutex s) s)"
| unlock_outer: "mpc s c = Testing \<Longrightarrow> \<not> still_locked (the_mutex s) \<Longrightarrow>
    mutex_step T disc self s (mgoto c Clearing (depth s c) (the_mutex s) s)"
| clear_owner: "mpc s c = Clearing \<Longrightarrow> mutex_step T disc self s (mgoto c Freeing (depth s c) (unlock_owner (the_mutex s)) s)"
| free: "mpc s c = Freeing \<Longrightarrow> mutex_step T disc self s (mgoto c Idle (depth s c - 1) (unlock_free (the_mutex s)) s)"

definition mutex_start :: "int \<Rightarrow> mutex_sys" where
  "mutex_start ty = \<lparr>the_mutex = pthread_mutex_init (Some ty), mpc = (\<lambda>_. Idle), depth = (\<lambda>_. 0)\<rparr>"

text \<open>A caller holds the mutex from the swap it has won to the store that frees it.\<close>

definition holds :: "mutex_sys \<Rightarrow> nat \<Rightarrow> bool" where
  "holds s c \<longleftrightarrow> 0 < depth s c \<or> mpc s c = Won \<or> mpc s c = Owned"

definition owns :: "mutex_sys \<Rightarrow> nat \<Rightarrow> bool" where
  "owns s c \<longleftrightarrow> holds s c \<and> mpc s c \<noteq> Won \<and> mpc s c \<noteq> Freeing"

definition numbered :: "nat set \<Rightarrow> (nat \<Rightarrow> u32) \<Rightarrow> bool" where "numbered T self \<longleftrightarrow> inj_on self T \<and> 0 \<notin> self ` T"

text \<open>What the place of a caller says of its depth \<open>d\<close> and of the count \<open>n\<close> in a mutex that is recursive or not.\<close>

fun place_ok :: "bool \<Rightarrow> u32 \<Rightarrow> mutex_pc \<Rightarrow> nat \<Rightarrow> bool" where
  "place_ok rc n Won d \<longleftrightarrow> d = 0"
| "place_ok rc n Owned d \<longleftrightarrow> d = 0"
| "place_ok rc n Nesting d \<longleftrightarrow> rc \<and> 0 < d \<and> d < 2 ^ 31 - 1 \<and> n = of_nat d"
| "place_ok rc n (Adding v) d \<longleftrightarrow> rc \<and> 0 < d \<and> d < 2 ^ 31 - 1 \<and> v = of_nat d"
| "place_ok rc n Unnesting d \<longleftrightarrow> rc \<and> 0 < d \<and> d < 2 ^ 31 \<and> n = of_nat d"
| "place_ok rc n (Subbing v) d \<longleftrightarrow> rc \<and> 0 < d \<and> d < 2 ^ 31 \<and> v = of_nat d"
| "place_ok rc n Testing d \<longleftrightarrow> rc \<and> 0 < d \<and> d < 2 ^ 31 \<and> n = of_nat (d - 1)"
| "place_ok rc n Clearing d \<longleftrightarrow> d = 1"
| "place_ok rc n Freeing d \<longleftrightarrow> d = 1"
| "place_ok rc n l d \<longleftrightarrow> (0 < d \<longrightarrow> (if rc then d < 2 ^ 31 \<and> n = of_nat d else d = 1))"

definition mutex_inv :: "nat set \<Rightarrow> (nat \<Rightarrow> u32) \<Rightarrow> mutex_sys \<Rightarrow> bool" where
  "mutex_inv T self s \<longleftrightarrow> (\<forall>c u. holds s c \<and> holds s u \<longrightarrow> c = u) \<and> (\<forall>c. holds s c \<longrightarrow> locked (the_mutex s))
     \<and> (\<forall>c. mpc s c \<noteq> Idle \<or> 0 < depth s c \<longrightarrow> c \<in> T)
     \<and> (\<forall>c. place_ok (mutex_type (the_mutex s) = PTHREAD_MUTEX_RECURSIVE) (recursive_count (the_mutex s)) (mpc s c) (depth s c))
     \<and> (numbered T self \<longrightarrow> (\<forall>c. owns s c \<longrightarrow> owner (the_mutex s) = self c) \<and> ((\<forall>c. \<not> owns s c) \<longrightarrow> owner (the_mutex s) = 0))"

lemma mgoto_sel [simp]: "the_mutex (mgoto c l d m s) = m" "mpc (mgoto c l d m s) = (mpc s)(c := l)"
    "depth (mgoto c l d m s) = (depth s)(c := d)"
  by (simp_all add: mgoto_def)

lemma lock_sel [simp]:
  "locked (lock_owner t m) = locked m" "owner (lock_owner t m) = t" "mutex_type (lock_owner t m) = mutex_type m"
  "recursive_count (lock_owner t m) = recursive_count m"
  "locked (lock_count n m) = locked m" "owner (lock_count n m) = owner m" "mutex_type (lock_count n m) = mutex_type m"
  "recursive_count (lock_count n m) = n"
  "locked (unlock_owner m) = locked m" "owner (unlock_owner m) = 0" "mutex_type (unlock_owner m) = mutex_type m"
  "recursive_count (unlock_owner m) = recursive_count m"
  "locked (unlock_free m) = False" "owner (unlock_free m) = owner m" "mutex_type (unlock_free m) = mutex_type m"
  "recursive_count (unlock_free m) = recursive_count m"
  by (simp_all add: lock_owner_def lock_count_def unlock_owner_def unlock_free_def)

lemma mutex_start_inv: "mutex_inv T self (mutex_start ty)"
  by (simp add: mutex_inv_def mutex_start_def holds_def owns_def pthread_mutex_init_def)

lemma mutex_invD:
  assumes "mutex_inv T self s"
  shows "holds s c \<Longrightarrow> holds s u \<Longrightarrow> c = u" "holds s c \<Longrightarrow> locked (the_mutex s)"
    "place_ok (mutex_type (the_mutex s) = PTHREAD_MUTEX_RECURSIVE) (recursive_count (the_mutex s)) (mpc s c) (depth s c)"
    "numbered T self \<Longrightarrow> owns s c \<Longrightarrow> owner (the_mutex s) = self c"
    "numbered T self \<Longrightarrow> (\<forall>c. \<not> owns s c) \<Longrightarrow> owner (the_mutex s) = 0"
    "mpc s c \<noteq> Idle \<or> 0 < depth s c \<Longrightarrow> c \<in> T"
proof -
  note i = assms [unfolded mutex_inv_def]
  show "holds s c \<Longrightarrow> holds s u \<Longrightarrow> c = u" "holds s c \<Longrightarrow> locked (the_mutex s)"
    "place_ok (mutex_type (the_mutex s) = PTHREAD_MUTEX_RECURSIVE) (recursive_count (the_mutex s)) (mpc s c) (depth s c)"
    using i by blast+
  show "numbered T self \<Longrightarrow> owns s c \<Longrightarrow> owner (the_mutex s) = self c" using i by blast
  show "numbered T self \<Longrightarrow> (\<forall>c. \<not> owns s c) \<Longrightarrow> owner (the_mutex s) = 0" using i by blast
  show "mpc s c \<noteq> Idle \<or> 0 < depth s c \<Longrightarrow> c \<in> T" using i by blast
qed

text \<open>A caller that does not hold the mutex depends on nothing in it.\<close>

lemma place_ok_outside: "\<not> holds s c \<Longrightarrow> place_ok rc n (mpc s c) (depth s c) \<Longrightarrow> place_ok rc n' (mpc s c) (depth s c)"
  by (cases "mpc s c") (auto simp: holds_def)

text \<open>A step of the only holder, or of the caller that becomes it.\<close>

lemma mutex_inv_holder:
  assumes i: "mutex_inv T self s" and c: "c \<in> T" and h: "holds s c \<or> \<not> locked (the_mutex s)" and d: "0 < d \<or> l = Won \<or> l = Owned"
    and m: "locked m" "mutex_type m = mutex_type (the_mutex s)"
    and p: "place_ok (mutex_type m = PTHREAD_MUTEX_RECURSIVE) (recursive_count m) l d"
    and o: "numbered T self \<Longrightarrow> owner m = (if l = Won \<or> l = Freeing then 0 else self c)"
  shows "mutex_inv T self (mgoto c l d m s)"
proof -
  let ?s = "mgoto c l d m s"
  have out: "\<not> holds s u" if "u \<noteq> c" for u using h mutex_invD(1,2) [OF i, of u] that by blast
  have same: "holds ?s u \<longleftrightarrow> holds s u" if "u \<noteq> c" for u using that by (simp add: holds_def)
  have only: "holds ?s u \<Longrightarrow> u = c" for u using out same by blast
  have hc: "holds ?s c" using d by (simp add: holds_def)
  have pl: "place_ok (mutex_type m = PTHREAD_MUTEX_RECURSIVE) (recursive_count m) (mpc ?s u) (depth ?s u)" for u
    using p place_ok_outside [OF out [of u]] mutex_invD(3) [OF i, of u] m(2) by (cases "u = c") simp_all
  have ow: "owns ?s u \<longleftrightarrow> u = c \<and> l \<noteq> Won \<and> l \<noteq> Freeing" for u
    using only [of u] hc by (auto simp: owns_def)
  have ac: "mpc ?s u \<noteq> Idle \<or> 0 < depth ?s u \<Longrightarrow> u \<in> T" for u
    using c mutex_invD(6) [OF i, of u] by (cases "u = c") simp_all
  show ?thesis
    unfolding mutex_inv_def ow using only pl m(1) o ac by (auto simp only: mgoto_sel split: if_splits)
qed

text \<open>A step that stays in or goes to one of the places where the caller only waits or rests.\<close>

lemma mutex_inv_rest:
  assumes i: "mutex_inv T self s" and l: "c \<in> T" "mpc s c \<in> {Idle, Spinning, Trying}" "l \<in> {Idle, Spinning, Trying}"
  shows "mutex_inv T self (mgoto c l (depth s c) (the_mutex s) s)"
proof -
  let ?s = "mgoto c l (depth s c) (the_mutex s) s"
  have h: "holds ?s u \<longleftrightarrow> holds s u" for u using l by (auto simp: holds_def)
  have ac: "mpc ?s u \<noteq> Idle \<or> 0 < depth ?s u \<Longrightarrow> u \<in> T" for u
    using l mutex_invD(6) [OF i, of u] by (cases "u = c") simp_all
  have o: "owns ?s u \<longleftrightarrow> owns s u" for u using l unfolding owns_def h by auto
  have p: "place_ok rc n (mpc ?s u) (depth ?s u) \<longleftrightarrow> place_ok rc n (mpc s u) (depth s u)" for u rc n
    using l by (cases "u = c") auto
  show ?thesis using i ac unfolding mutex_inv_def h o p by simp
qed

lemma cas_cases: "lock_cas m = (won, m') \<Longrightarrow> won = (\<not> locked m) \<and> m' = m\<lparr>locked := True\<rparr>"
  by (auto simp: lock_cas_def atomic_cas_def)

lemma swap_inv:
  assumes i: "mutex_inv T self s" and c: "mpc s c \<in> {Spinning, Trying}" "lock_cas (the_mutex s) = (won, m)" "l \<in> {Idle, Spinning}"
  shows "mutex_inv T self (mgoto c (if won then Won else l) (depth s c) m s)"
proof (cases "locked (the_mutex s)")
  case True
  have "c \<in> T" by (rule mutex_invD(6) [OF i]) (use c(1) in auto)
  with True have "c \<in> T" "m = the_mutex s" "\<not> won" using cas_cases [OF c(2)] by (simp_all add: mutex.surjective)
  then show ?thesis using mutex_inv_rest [OF i, of c l] c(1,3) by auto
next
  case False
  have t: "c \<in> T" by (rule mutex_invD(6) [OF i]) (use c(1) in auto)
  have m: "won" "m = (the_mutex s)\<lparr>locked := True\<rparr>" using cas_cases [OF c(2)] False by simp_all
  have none: "\<not> holds s u" for u using mutex_invD(2) [OF i] False by blast
  then have "depth s c = 0" "\<And>u. \<not> owns s u" by (auto simp: holds_def owns_def)
  then show ?thesis
    using m False mutex_invD(5) [OF i] by (simp only: if_True) (rule mutex_inv_holder [OF i t], auto)
qed

lemma relocks_owns:
  assumes "mutex_inv T self s" "numbered T self" "c \<in> T" "relocks (self c) (the_mutex s)"
  shows "owns s c"
proof -
  have o: "owner (the_mutex s) = self c" using assms(4) by (simp add: relocks_def)
  moreover have "self c \<noteq> 0" using assms(2,3) unfolding numbered_def by (metis imageI)
  ultimately obtain u where "owns s u" using mutex_invD(5) [OF assms(1,2)] by auto
  moreover from this have "self u = self c" using mutex_invD(4) [OF assms(1,2)] o by simp
  moreover have "u \<in> T" by (rule mutex_invD(6) [OF assms(1)]) (use \<open>owns s u\<close> in \<open>auto simp: owns_def holds_def\<close>)
  ultimately show ?thesis using assms(2,3) unfolding numbered_def by (metis inj_onD)
qed

lemma count_positive: "0 < d \<Longrightarrow> d < 2 ^ 31 \<Longrightarrow> (sint (of_nat d :: u32) > 0)"
  by (simp add: signed_of_nat signed_take_bit_int_eq_self)

lemma mutex_step_type: "mutex_step T disc self s s' \<Longrightarrow> mutex_type (the_mutex s') = mutex_type (the_mutex s)"
  by (induction rule: mutex_step.induct) (auto dest: cas_cases)

lemma mutex_step_inv:
  assumes "mutex_step T disc self s s'" "disc" "mutex_inv T self s" "mutex_type (the_mutex s) \<noteq> PTHREAD_MUTEX_RECURSIVE \<or> numbered T self"
  shows "mutex_inv T self s'"
  using assms
proof (induction rule: mutex_step.induct)
  case (lock_again c s)
  have n: "numbered T self" "mutex_type (the_mutex s) = PTHREAD_MUTEX_RECURSIVE" using lock_again by (auto simp: relocks_def)
  have o: "owns s c" by (rule relocks_owns [OF lock_again(6) n(1) lock_again(1,3)])
  show ?case
    using o n lock_again mutex_invD(2,3) [OF lock_again(6), of c]
    by (intro mutex_inv_holder) (auto simp: owns_def holds_def relocks_def)
next
  case (nest_read s c)
  have p: "place_ok (mutex_type (the_mutex s) = PTHREAD_MUTEX_RECURSIVE) (recursive_count (the_mutex s)) Nesting (depth s c)"
    using mutex_invD(3) [OF nest_read(3), of c] nest_read(1) by simp
  then have "holds s c" by (simp add: holds_def)
  then show ?case
    using p nest_read(1) mutex_invD(2,4,6) [OF nest_read(3), of c] by (intro mutex_inv_holder [OF nest_read(3)]) (auto simp: owns_def)
next
  case (nest s c n)
  have p: "place_ok (mutex_type (the_mutex s) = PTHREAD_MUTEX_RECURSIVE) (recursive_count (the_mutex s)) (Adding n) (depth s c)"
    using mutex_invD(3) [OF nest(3), of c] nest(1) by simp
  then have "holds s c" by (simp add: holds_def)
  then show ?case
    using p nest(1) mutex_invD(2,4,6) [OF nest(3), of c] by (intro mutex_inv_holder [OF nest(3)]) (auto simp: owns_def)
next
  case (own s c)
  have h: "holds s c" "place_ok (mutex_type (the_mutex s) = PTHREAD_MUTEX_RECURSIVE) (recursive_count (the_mutex s)) Won (depth s c)"
    using own(1) mutex_invD(3) [OF own(3), of c] by (simp_all add: holds_def)
  then show ?case using own(1) mutex_invD(2,6) [OF own(3), of c] by (intro mutex_inv_holder [OF own(3)]) auto
next
  case (count s c)
  have h: "holds s c" "place_ok (mutex_type (the_mutex s) = PTHREAD_MUTEX_RECURSIVE) (recursive_count (the_mutex s)) Owned (depth s c)"
    using count(1) mutex_invD(3) [OF count(3), of c] by (simp_all add: holds_def)
  then show ?case
    using count(1) mutex_invD(2,4,6) [OF count(3), of c] by (intro mutex_inv_holder [OF count(3)]) (auto simp: owns_def)
next
  case (unlock_begin c s)
  have h: "holds s c" "owns s c" "0 < depth s c" using unlock_begin by (simp_all add: holds_def owns_def)
  show ?case
    using h unlock_begin(1,2) mutex_invD(2-4) [OF unlock_begin(6), of c]
    by (intro mutex_inv_holder [OF unlock_begin(6)]) (auto split: if_splits)
next
  case (unnest_read s c)
  have p: "place_ok (mutex_type (the_mutex s) = PTHREAD_MUTEX_RECURSIVE) (recursive_count (the_mutex s)) Unnesting (depth s c)"
    using mutex_invD(3) [OF unnest_read(3), of c] unnest_read(1) by simp
  then have "holds s c" by (simp add: holds_def)
  then show ?case
    using p unnest_read(1) mutex_invD(2,4,6) [OF unnest_read(3), of c] by (intro mutex_inv_holder [OF unnest_read(3)]) (auto simp: owns_def)
next
  case (unnest s c n)
  have p: "place_ok (mutex_type (the_mutex s) = PTHREAD_MUTEX_RECURSIVE) (recursive_count (the_mutex s)) (Subbing n) (depth s c)"
    using mutex_invD(3) [OF unnest(3), of c] unnest(1) by simp
  then have "holds s c" "n - 1 = of_nat (depth s c - 1)" by (simp_all add: holds_def)
  then show ?case
    using p unnest(1) mutex_invD(2,4,6) [OF unnest(3), of c] by (intro mutex_inv_holder [OF unnest(3)]) (auto simp: owns_def)
next
  case (unlock_inner s c)
  have p: "place_ok (mutex_type (the_mutex s) = PTHREAD_MUTEX_RECURSIVE) (recursive_count (the_mutex s)) Testing (depth s c)"
    using mutex_invD(3) [OF unlock_inner(4), of c] unlock_inner(1) by simp
  have "depth s c \<noteq> 1" using p unlock_inner(2) by (auto simp: still_locked_def)
  then have h: "holds s c" "1 < depth s c" using p by (auto simp: holds_def)
  then show ?case
    using p unlock_inner(1) mutex_invD(2,4,6) [OF unlock_inner(4), of c]
    by (intro mutex_inv_holder [OF unlock_inner(4)]) (auto simp: owns_def)
next
  case (unlock_outer s c)
  have p: "place_ok (mutex_type (the_mutex s) = PTHREAD_MUTEX_RECURSIVE) (recursive_count (the_mutex s)) Testing (depth s c)"
    using mutex_invD(3) [OF unlock_outer(4), of c] unlock_outer(1) by simp
  then have "recursive_count (the_mutex s) = of_nat (depth s c - 1) \<and> 0 < depth s c \<and> depth s c < 2 ^ 31"
    unfolding place_ok.simps by blast
  then have n: "recursive_count (the_mutex s) = of_nat (depth s c - 1)" "depth s c - 1 < 2 ^ 31"
    using less_imp_diff_less by blast+
  have "\<not> 0 < depth s c - 1" using count_positive [OF _ n(2)] unlock_outer(2) unfolding still_locked_def n(1) by blast
  moreover have "0 < depth s c" using p by simp
  ultimately have h: "holds s c" "depth s c = 1" unfolding holds_def by linarith+
  then show ?case
    using p unlock_outer(1) mutex_invD(2,4,6) [OF unlock_outer(4), of c]
    by (intro mutex_inv_holder [OF unlock_outer(4)]) (auto simp: owns_def)
next
  case (clear_owner s c)
  have h: "holds s c" "depth s c = 1" using clear_owner(1) mutex_invD(3) [OF clear_owner(3), of c] by (simp_all add: holds_def)
  then show ?case using clear_owner(1) mutex_invD(2,6) [OF clear_owner(3), of c] by (intro mutex_inv_holder [OF clear_owner(3)]) auto
next
  case (free s c)
  have h: "holds s c" "depth s c = 1" using free(1) mutex_invD(3) [OF free(3), of c] by (simp_all add: holds_def)
  let ?s = "mgoto c Idle (depth s c - 1) (unlock_free (the_mutex s)) s"
  have out: "\<not> holds s u" if "u \<noteq> c" for u using mutex_invD(1) [OF free(3) h(1), of u] that by blast
  have none: "\<not> holds ?s u" for u using out [of u] h(2) by (cases "u = c") (simp_all add: holds_def)
  have ow: "\<not> owns s u" for u using out [of u] free(1) by (cases "u = c") (simp_all add: owns_def)
  have pl: "place_ok rc n (mpc ?s u) (depth ?s u)" if "place_ok rc n' (mpc s u) (depth s u)" for rc n n' u
    using place_ok_outside [OF out, of u rc n' n] that h(2) by (cases "u = c") simp_all
  have ac: "mpc ?s u \<noteq> Idle \<or> 0 < depth ?s u \<Longrightarrow> u \<in> T" for u
    using h(2) mutex_invD(6) [OF free(3), of u] by (cases "u = c") simp_all
  have oz: "numbered T self \<Longrightarrow> owner (the_mutex ?s) = 0" using mutex_invD(5) [OF free(3)] ow by simp
  have nw: "\<not> owns ?s u" for u using none unfolding owns_def by blast
  have pm: "place_ok (mutex_type (the_mutex ?s) = PTHREAD_MUTEX_RECURSIVE) (recursive_count (the_mutex ?s)) (mpc ?s u) (depth ?s u)" for u
    using pl [OF mutex_invD(3) [OF free(3)]] by simp
  show ?case
    unfolding mutex_inv_def using none pm oz nw ac by blast
qed (simp_all add: mutex_inv_rest swap_inv)

text \<open>A run that is disciplined keeps the invariant.\<close>

lemma mutex_reachable:
  assumes "(mutex_step T disc self)\<^sup>*\<^sup>* (mutex_start ty) s"
  shows "mutex_type (the_mutex s) = ty \<and> (disc \<and> (ty \<noteq> PTHREAD_MUTEX_RECURSIVE \<or> numbered T self) \<longrightarrow> mutex_inv T self s)"
  using assms
proof (induction rule: rtranclp_induct)
  case base
  then show ?case using mutex_start_inv by (simp add: mutex_start_def pthread_mutex_init_def)
next
  case (step y z)
  then show ?case using mutex_step_type mutex_step_inv by metis
qed

text \<open>
  With the number 0 for every caller: an error checking mutex refuses every lock while it has no owner,
  and it never gets another owner.
\<close>

lemma zero_owner:
  assumes "(mutex_step T disc (\<lambda>_. 0))\<^sup>*\<^sup>* (mutex_start ty) s"
  shows "owner (the_mutex s) = 0"
  using assms
proof (induction rule: rtranclp_induct)
  case base
  then show ?case by (simp add: mutex_start_def pthread_mutex_init_def)
next
  case (step y z)
  from step.hyps(2) step.IH show ?case by (induction rule: mutex_step.induct) (auto dest: cas_cases)
qed

text \<open>The steps of a caller that locks a mutex that is free, from the first test to the return.\<close>

lemma mutex_lock_run:
  assumes "c \<in> T" "mpc s c = Idle" "\<not> relocks (self c) (the_mutex s)" "\<not> deadlocks (self c) (the_mutex s)" "\<not> locked (the_mutex s)"
  shows "\<exists>s'. (mutex_step T disc self)\<^sup>*\<^sup>* s s' \<and> mpc s' = mpc s \<and> depth s' = (depth s)(c := depth s c + 1) \<and>
    the_mutex s' = lock_count 1 (lock_owner (self c) ((the_mutex s)\<lparr>locked := True\<rparr>))"
proof -
  define s1 where "s1 = mgoto c Spinning (depth s c) (the_mutex s) s"
  define s2 where "s2 = mgoto c (if True then Won else Spinning) (depth s1 c) ((the_mutex s)\<lparr>locked := True\<rparr>) s1"
  define s3 where "s3 = mgoto c Owned (depth s2 c) (lock_owner (self c) (the_mutex s2)) s2"
  define s4 where "s4 = mgoto c Idle (depth s3 c + 1) (lock_count 1 (the_mutex s3)) s3"
  have "mutex_step T disc self s s1" unfolding s1_def by (rule mutex_step.lock_begin) (use assms in simp_all)
  moreover have "mutex_step T disc self s1 s2" unfolding s2_def
    by (rule mutex_step.lock_swap) (simp_all add: s1_def lock_cas_def atomic_cas_def assms(5))
  moreover have "mutex_step T disc self s2 s3" unfolding s3_def by (rule mutex_step.own) (simp add: s2_def)
  moreover have "mutex_step T disc self s3 s4" unfolding s4_def by (rule mutex_step.count) (simp add: s3_def)
  ultimately have "(mutex_step T disc self)\<^sup>*\<^sup>* s s4" by (meson converse_rtranclp_into_rtranclp rtranclp.rtrancl_refl)
  moreover have "mpc s4 = mpc s" using assms(2) by (auto simp: s4_def s3_def s2_def s1_def)
  ultimately show ?thesis by (intro exI [of _ s4]) (simp add: s4_def s3_def s2_def s1_def)
qed

text \<open>
  With the number 0 for every caller a recursive mutex lets two callers in: the first one takes the free
  mutex for its own and never swaps, and the second one does the same.
\<close>

lemma zero_recursive_admits_two:
  "\<exists>s. (mutex_step {0, 1} True (\<lambda>_. 0))\<^sup>*\<^sup>* (mutex_start PTHREAD_MUTEX_RECURSIVE) s \<and> 0 < depth s 0 \<and> 0 < depth s 1"
proof -
  have nested: "\<exists>s'. (mutex_step {0, 1} True (\<lambda>_. 0))\<^sup>*\<^sup>* s s' \<and> mpc s' = mpc s \<and> depth s' = (depth s)(c := depth s c + 1) \<and>
      owner (the_mutex s') = 0 \<and> mutex_type (the_mutex s') = PTHREAD_MUTEX_RECURSIVE"
    if "c \<in> {0, 1}" "mpc s c = Idle" "owner (the_mutex s) = 0" "mutex_type (the_mutex s) = PTHREAD_MUTEX_RECURSIVE" "depth s c = 0" for s c
  proof -
    define s1 where "s1 = mgoto c Nesting (depth s c) (the_mutex s) s"
    define s2 where "s2 = mgoto c (Adding (recursive_count (the_mutex s1))) (depth s1 c) (the_mutex s1) s1"
    define s3 where "s3 = mgoto c Idle (depth s2 c + 1) (lock_count (recursive_count (the_mutex s1) + 1) (the_mutex s2)) s2"
    have "mutex_step {0, 1} True (\<lambda>_. 0) s s1" unfolding s1_def
      by (rule mutex_step.lock_again) (use that in \<open>simp_all add: relocks_def\<close>)
    moreover have "mutex_step {0, 1} True (\<lambda>_. 0) s1 s2" unfolding s2_def by (rule mutex_step.nest_read) (simp add: s1_def)
    moreover have "mutex_step {0, 1} True (\<lambda>_. 0) s2 s3" unfolding s3_def by (rule mutex_step.nest) (simp add: s2_def)
    ultimately have "(mutex_step {0, 1} True (\<lambda>_. 0))\<^sup>*\<^sup>* s s3" by (meson converse_rtranclp_into_rtranclp rtranclp.rtrancl_refl)
    moreover have "mpc s3 = mpc s" using that(2) by (auto simp: s3_def s2_def s1_def)
    ultimately show ?thesis using that by (intro exI [of _ s3]) (simp add: s3_def s2_def s1_def)
  qed
  let ?s0 = "mutex_start PTHREAD_MUTEX_RECURSIVE"
  have i: "mpc ?s0 c = Idle" "owner (the_mutex ?s0) = 0" "mutex_type (the_mutex ?s0) = PTHREAD_MUTEX_RECURSIVE" "depth ?s0 c = 0" for c
    by (simp_all add: mutex_start_def pthread_mutex_init_def)
  obtain s1 where s1: "(mutex_step {0, 1} True (\<lambda>_. 0))\<^sup>*\<^sup>* ?s0 s1" "mpc s1 = mpc ?s0" "depth s1 = (depth ?s0)(0 := depth ?s0 0 + 1)"
      "owner (the_mutex s1) = 0" "mutex_type (the_mutex s1) = PTHREAD_MUTEX_RECURSIVE" using nested [OF _ i(1-4)] by blast
  have "mpc s1 1 = Idle" "depth s1 1 = 0" using s1(2,3) i by simp_all
  from nested [OF _ this(1) s1(4,5) this(2)] obtain s2 where s2: "(mutex_step {0, 1} True (\<lambda>_. 0))\<^sup>*\<^sup>* s1 s2"
      "depth s2 = (depth s1)(1 := depth s1 1 + 1)" by blast
  show ?thesis using rtranclp_trans [OF s1(1) s2(1)] s1(3) s2(2) by (intro exI [of _ s2]) simp
qed

text \<open>A caller that unlocks a normal mutex that it does not hold lets a second one in.\<close>

lemma foreign_unlock_admits_two:
  "\<exists>s. (mutex_step {0, 1, 2} False self)\<^sup>*\<^sup>* (mutex_start PTHREAD_MUTEX_NORMAL) s \<and> 0 < depth s 0 \<and> 0 < depth s 1"
proof -
  let ?s0 = "mutex_start PTHREAD_MUTEX_NORMAL"
  have i: "mpc ?s0 = (\<lambda>_. Idle)" "depth ?s0 = (\<lambda>_. 0)" "mutex_type (the_mutex ?s0) = PTHREAD_MUTEX_NORMAL" "\<not> locked (the_mutex ?s0)"
    by (simp_all add: mutex_start_def pthread_mutex_init_def)
  obtain s1 where s1: "(mutex_step {0, 1, 2} False self)\<^sup>*\<^sup>* ?s0 s1" "mpc s1 = (\<lambda>_. Idle)" "depth s1 0 = 1"
      "mutex_type (the_mutex s1) = PTHREAD_MUTEX_NORMAL"
    using mutex_lock_run [of 0 "{0, 1, 2}" ?s0 self False] i by (auto simp: relocks_def deadlocks_def)
  define s2 where "s2 = mgoto 2 (if mutex_type (the_mutex s1) = PTHREAD_MUTEX_RECURSIVE then Unnesting else Clearing) (depth s1 2) (the_mutex s1) s1"
  define s3 where "s3 = mgoto 2 Freeing (depth s2 2) (unlock_owner (the_mutex s2)) s2"
  define s4 where "s4 = mgoto 2 Idle (depth s3 2 - 1) (unlock_free (the_mutex s3)) s3"
  have "mutex_step {0, 1, 2} False self s1 s2" unfolding s2_def
    by (rule mutex_step.unlock_begin) (use s1 in \<open>simp_all add: unlock_refused_def\<close>)
  moreover have "mutex_step {0, 1, 2} False self s2 s3" unfolding s3_def by (rule mutex_step.clear_owner) (use s1 in \<open>simp add: s2_def\<close>)
  moreover have "mutex_step {0, 1, 2} False self s3 s4" unfolding s4_def by (rule mutex_step.free) (simp add: s3_def)
  ultimately have r: "(mutex_step {0, 1, 2} False self)\<^sup>*\<^sup>* s1 s4" by (meson converse_rtranclp_into_rtranclp rtranclp.rtrancl_refl)
  have 4: "mpc s4 1 = Idle" "depth s4 0 = 1" "mutex_type (the_mutex s4) = PTHREAD_MUTEX_NORMAL" "\<not> locked (the_mutex s4)"
    using s1 by (simp_all add: s4_def s3_def s2_def)
  obtain s5 where "(mutex_step {0, 1, 2} False self)\<^sup>*\<^sup>* s4 s5" "depth s5 = (depth s4)(1 := depth s4 1 + 1)"
    using mutex_lock_run [of 1 "{0, 1, 2}" s4 self False] 4 by (auto simp: relocks_def deadlocks_def)
  then show ?thesis using rtranclp_trans [OF s1(1) rtranclp_trans [OF r]] 4(2) by (intro exI [of _ s5]) simp
qed

text \<open>
  C23. Mutexes exclude among disciplined callers (each unlocks only what it holds and nests fewer than
  \<open>2\<^sup>3\<^sup>1\<close> locks), for every interleaving of the single accesses of lock, trylock and unlock: at most
  one caller is between the swap that it has won and the store that frees the mutex. For the normal
  and the error checking kind this needs nothing of the thread numbers, so it holds with the number 0
  that \<open>pthread_self\<close> gives every caller of this kernel; for the recursive kind the numbers must
  differ from each other and from 0, and with such numbers a holder is the owner, and the count of a
  recursive mutex is its depth. The rest of the statement is the limits of the code: with the number
  0 for all, a recursive mutex lets two disciplined callers in at once, and locking an error checking
  one always returns \<open>EDEADLK\<close>; and a normal mutex is unlocked by whoever calls, which lets two in.
\<close>

theorem mutex_excludes:
  assumes "(mutex_step T True self)\<^sup>*\<^sup>* (mutex_start ty) s" "ty \<noteq> PTHREAD_MUTEX_RECURSIVE \<or> inj_on self T \<and> 0 \<notin> self ` T"
  shows "(\<forall>c u. holds s c \<and> holds s u \<longrightarrow> c = u) \<and> (\<forall>c. holds s c \<longrightarrow> locked (the_mutex s))
    \<and> (inj_on self T \<and> 0 \<notin> self ` T \<longrightarrow> (\<forall>c. 0 < depth s c \<and> mpc s c = Idle \<longrightarrow> owner (the_mutex s) = self c
         \<and> (ty = PTHREAD_MUTEX_RECURSIVE \<longrightarrow> recursive_count (the_mutex s) = of_nat (depth s c) \<and> depth s c < 2 ^ 31)))
    \<and> (\<exists>z. (mutex_step {0, 1} True (\<lambda>_. 0))\<^sup>*\<^sup>* (mutex_start PTHREAD_MUTEX_RECURSIVE) z \<and> 0 < depth z 0 \<and> 0 < depth z 1)
    \<and> (\<forall>z. (mutex_step T True (\<lambda>_. 0))\<^sup>*\<^sup>* (mutex_start PTHREAD_MUTEX_ERRORCHECK) z \<longrightarrow>
         pthread_mutex_lock 0 (the_mutex z) = Some (EDEADLK, the_mutex z))
    \<and> (\<exists>z. (mutex_step {0, 1, 2} False self)\<^sup>*\<^sup>* (mutex_start PTHREAD_MUTEX_NORMAL) z \<and> 0 < depth z 0 \<and> 0 < depth z 1)"
proof -
  have i: "mutex_inv T self s" and t: "mutex_type (the_mutex s) = ty" using mutex_reachable [OF assms(1)] assms(2) by (auto simp: numbered_def)
  have "owner (the_mutex s) = self c \<and>
      (ty = PTHREAD_MUTEX_RECURSIVE \<longrightarrow> recursive_count (the_mutex s) = of_nat (depth s c) \<and> depth s c < 2 ^ 31)"
    if "numbered T self" "0 < depth s c" "mpc s c = Idle" for c
    using that mutex_invD(3,4) [OF i, of c] t by (auto simp: owns_def holds_def)
  moreover have "pthread_mutex_lock 0 (the_mutex z) = Some (EDEADLK, the_mutex z)"
    if "(mutex_step T True (\<lambda>_. 0))\<^sup>*\<^sup>* (mutex_start PTHREAD_MUTEX_ERRORCHECK) z" for z
    using zero_owner [OF that] mutex_reachable [OF that] by (simp add: pthread_mutex_lock_def relocks_def deadlocks_def)
  ultimately show ?thesis
    using mutex_invD(1,2) [OF i] zero_recursive_admits_two foreign_unlock_admits_two [of self]
    unfolding numbered_def by (intro conjI) blast+
qed

theorem mutex_excludes_witness:
  "\<exists>s. (mutex_step {1, 2} True (\<lambda>c. of_nat c))\<^sup>*\<^sup>* (mutex_start PTHREAD_MUTEX_RECURSIVE) s \<and> depth s 1 = 1 \<and>
     owner (the_mutex s) = 1 \<and> recursive_count (the_mutex s) = 1 \<and> (\<forall>u. holds s u \<longrightarrow> u = 1)"
proof -
  let ?s0 = "mutex_start PTHREAD_MUTEX_RECURSIVE" and ?self = "\<lambda>c::nat. of_nat c :: u32"
  have i: "mpc ?s0 1 = Idle" "\<not> relocks (?self 1) (the_mutex ?s0)" "\<not> deadlocks (?self 1) (the_mutex ?s0)" "\<not> locked (the_mutex ?s0)"
    by (simp_all add: mutex_start_def pthread_mutex_init_def relocks_def deadlocks_def)
  obtain s where s: "(mutex_step {1, 2} True ?self)\<^sup>*\<^sup>* ?s0 s" "mpc s = mpc ?s0" "depth s = (depth ?s0)(1 := depth ?s0 1 + 1)"
    using mutex_lock_run [of 1 "{1, 2}" ?s0 ?self True] i by auto
  have 1: "mpc s 1 = Idle" "depth s 1 = 1" using s(2,3) by (simp_all add: mutex_start_def)
  then have h: "holds s 1" by (simp add: holds_def)
  have n: "inj_on ?self {1, 2} \<and> 0 \<notin> ?self ` {1, 2}" by simp
  note x = mutex_excludes [OF s(1) disjI2 [OF n]]
  have "owner (the_mutex s) = of_nat 1 \<and> recursive_count (the_mutex s) = of_nat (depth s 1)"
    using x [THEN conjunct2, THEN conjunct2, THEN conjunct1, THEN mp, OF n, THEN spec, of 1] 1 by simp
  then have "owner (the_mutex s) = 1" "recursive_count (the_mutex s) = 1" unfolding 1(2) by simp_all
  moreover have "u = 1" if "holds s u" for u using x h that by blast
  ultimately show ?thesis using s(1) 1(2) by blast
qed

subsection \<open>Read-write locks and barriers\<close>

text \<open>
  The sections under the lock, in any order and from any thread; a step carries its operation, so that
  a run says how often the lock has been unlocked.
\<close>

datatype rw_op = Rdlock | Register | Wrlock u32 | Trywrlock u32 | Unlock

inductive rw_step :: "rw_op \<Rightarrow> rwlock \<Rightarrow> rwlock \<Rightarrow> bool" where
  rd: "rd_free r \<Longrightarrow> rw_step Rdlock r (rd_take r)"
| reg: "rw_step Register r (wr_register r)"
| wr: "wr_free r \<Longrightarrow> rw_step (Wrlock self) r (wr_take self (wr_leave_wait r))"
| trywr: "wr_free r \<Longrightarrow> rw_step (Trywrlock self) r (wr_take self r)"
| release: "rw_step Unlock r (rw_release r)"

inductive rw_run :: "rw_op list \<Rightarrow> rwlock \<Rightarrow> rwlock \<Rightarrow> bool" where
  none: "rw_run [] r r"
| more: "rw_run ops r r1 \<Longrightarrow> rw_step w r1 r2 \<Longrightarrow> rw_run (ops @ [w]) r r2"

definition unlocks :: "rw_op list \<Rightarrow> nat" where "unlocks ops = length (filter (\<lambda>w. w = Unlock) ops)"

lemma unlocks_simps [simp]: "unlocks [] = 0" "unlocks (ops @ [w]) = unlocks ops + (if w = Unlock then 1 else 0)"
    "unlocks (replicate n Unlock) = n"
  by (simp_all add: unlocks_def)

lemma sint_inc: "sint (x :: u32) < 2 ^ 31 - 1 \<Longrightarrow> sint (x + 1) = sint x + 1"
  using sint_ge [of x] by (simp add: sint_word_ariths(1) signed_take_bit_int_eq_self)

lemma rw_step_locked:
  assumes "rw_step w r r'" "0 < sint (writers r)"
  shows "writers r' = writers r + (if w = Unlock then 1 else 0) \<and> readers r' = readers r"
  using assms
  by (induction rule: rw_step.induct)
    (auto simp: rd_free_def wr_free_def rd_take_def wr_register_def rw_release_def)

lemma rw_run_locked:
  assumes "rw_run ops r r'" "sint (writers r) = 1" "unlocks ops < 2 ^ 31 - 1"
  shows "sint (writers r') = 1 + int (unlocks ops) \<and> readers r' = readers r"
  using assms
proof (induction rule: rw_run.induct)
  case (more ops r r1 w r2)
  have i: "sint (writers r1) = 1 + int (unlocks ops)" "readers r1 = readers r"
    using more.IH more.prems by (auto split: if_splits)
  have s: "writers r2 = writers r1 + (if w = Unlock then 1 else 0)" "readers r2 = readers r1"
    using rw_step_locked [OF more.hyps(2)] i(1) by simp_all
  show ?case using i s more.prems(2) by (cases "w = Unlock") (simp_all add: sint_inc)
qed simp

text \<open>
  C24. A read-write lock is not released by unlocking: \<open>pthread_rwlock_unlock\<close> adds one to the number
  of writers instead of taking it away. After the first writer, whatever is called by whom, no reader
  and no writer passes, and the lock cannot be destroyed, as long as there have been fewer than
  \<open>2\<^sup>3\<^sup>1 - 1\<close> calls of unlock; the call number \<open>2\<^sup>3\<^sup>1 - 1\<close> makes the 32-bit counter wrap to a negative
  number, and the lock admits writers again, whoever holds it.
\<close>

theorem rwlock_never_released:
  assumes "wr_free r" "writers r = 0" "rw_run ops (wr_take self r) r'" "unlocks ops < 2 ^ 31 - 1"
  shows "sint (writers r') = 1 + int (unlocks ops) \<and> \<not> rd_free r' \<and> \<not> wr_free r' \<and> pthread_rwlock_destroy r' = EBUSY \<and>
    (unlocks ops = 2 ^ 31 - 2 \<longrightarrow> sint (writers (rw_release r')) = - (2 ^ 31) \<and> wr_free (rw_release r'))"
proof -
  have "sint (writers (wr_take self r)) = 1" using assms(2) by (simp add: wr_take_def)
  note l = rw_run_locked [OF assms(3) this assms(4)]
  have "sint (writers (rw_release r')) = - (2 ^ 31) \<and> wr_free (rw_release r')" if u: "unlocks ops = 2 ^ 31 - 2"
  proof -
    have w: "sint (writers r') = 2 ^ 31 - 1" using l u by simp
    have "sint (writers r' + 1) = signed_take_bit 31 (2 ^ 31)"
      using w by (simp add: sint_word_ariths(1))
    also have "\<dots> = - (2 ^ 31)" by simp
    finally have n: "sint (writers (rw_release r')) = - (2 ^ 31)" using w by (simp add: rw_release_def)
    moreover have "readers (rw_release r') = readers r" using l w by (simp add: rw_release_def wr_take_def)
    ultimately show ?thesis using assms(1) by (simp add: wr_free_def)
  qed
  then show ?thesis using l by (simp add: rd_free_def wr_free_def pthread_rwlock_destroy_def)
qed

lemma rw_run_releases: "rw_run (replicate n Unlock) r ((rw_release ^^ n) r)"
proof (induction n)
  case (Suc n)
  have "rw_run (replicate n Unlock @ [Unlock]) r (rw_release ((rw_release ^^ n) r))"
    by (rule rw_run.more [OF Suc rw_step.release])
  then show ?case by (simp add: replicate_append_same)
qed (simp add: rw_run.none)

theorem rwlock_never_released_witness:
  "\<exists>ops r. rw_run ops (wr_take 1 pthread_rwlock_init) r \<and> unlocks ops = 2 ^ 31 - 2 \<and> \<not> wr_free r \<and> wr_free (rw_release r)"
proof -
  let ?ops = "replicate (2 ^ 31 - 2) Unlock"
  let ?r = "(rw_release ^^ (2 ^ 31 - 2)) (wr_take 1 pthread_rwlock_init)"
  have i: "wr_free pthread_rwlock_init" "writers pthread_rwlock_init = 0"
    by (simp_all add: wr_free_def pthread_rwlock_init_def)
  have u: "unlocks ?ops = 2 ^ 31 - 2" by (rule unlocks_simps(3))
  have r: "rw_run ?ops (wr_take 1 pthread_rwlock_init) ?r" by (rule rw_run_releases)
  have "unlocks ?ops < 2 ^ 31 - 1" unfolding u by simp
  from rwlock_never_released [OF i r this] u have "\<not> wr_free ?r \<and> wr_free (rw_release ?r)" by blast
  with r u show ?thesis by blast
qed

text \<open>
  A phase of a barrier for \<open>n\<close> threads: the first \<open>n - 1\<close> to arrive wait for the phase to change, the last one is
  told apart, opens the phase and leaves the barrier as it was.
\<close>

fun arrive_all :: "nat \<Rightarrow> barrier \<Rightarrow> (int + u32) list \<times> barrier" where
  "arrive_all 0 b = ([], b)"
| "arrive_all (Suc n) b = (let (r, b1) = barrier_arrive b; (rs, b2) = arrive_all n b1 in (r # rs, b2))"

lemma arrive_some:
  assumes "unat (bar_current b) + k < unat (bar_count b)"
  shows "arrive_all k b = (replicate k (Inr (bar_phase b)), b\<lparr>bar_current := bar_current b + of_nat k\<rparr>)"
  using assms
proof (induction k arbitrary: b)
  case (Suc k)
  have lt: "unat (bar_current b) + 1 < unat (bar_count b)" using Suc.prems by simp
  have "1 + bar_current b \<noteq> 0"
  proof
    assume "1 + bar_current b = 0"
    then have "bar_current b = - 1" by (simp add: eq_neg_iff_add_eq_0 add.commute)
    then have "bar_count b \<le> bar_current b" by simp
    then show False using lt by (simp add: word_le_nat_alt)
  qed
  then have u: "unat (bar_current b + 1) = unat (bar_current b) + 1"
    using unatSuc [of "bar_current b"] by (simp add: add.commute)
  then have "bar_current b + 1 < bar_count b" using lt by (simp add: word_less_nat_alt)
  then have a: "barrier_arrive b = (Inr (bar_phase b), b\<lparr>bar_current := bar_current b + 1\<rparr>)"
    by (simp add: barrier_arrive_def Let_def)
  have "arrive_all k (b\<lparr>bar_current := bar_current b + 1\<rparr>)
      = (replicate k (Inr (bar_phase b)), b\<lparr>bar_current := bar_current b + 1 + of_nat k\<rparr>)"
    using Suc.IH [of "b\<lparr>bar_current := bar_current b + 1\<rparr>"] Suc.prems u by simp
  then show ?case by (simp add: a Let_def algebra_simps)
qed simp

lemma arrive_snoc:
  "arrive_all (Suc k) c = (let (rs, c1) = arrive_all k c; (r, c2) = barrier_arrive c1 in (rs @ [r], c2))"
proof (induction k arbitrary: c)
  case (Suc k)
  obtain r b where r: "barrier_arrive c = (r, b)" by force
  have "arrive_all (Suc (Suc k)) c = (let (rs, b2) = arrive_all (Suc k) b in (r # rs, b2))"
    by (simp only: arrive_all.simps(2) [of "Suc k"] r Let_def prod.case)
  moreover obtain rs b2 where rs: "arrive_all k b = (rs, b2)" by force
  moreover obtain q b3 where "barrier_arrive b2 = (q, b3)" by force
  moreover have "arrive_all (Suc k) c = (r # rs, b2)" by (simp add: r rs Let_def)
  ultimately show ?case unfolding Suc.IH by (simp only: Let_def prod.case append_Cons)
qed (simp add: Let_def split: prod.split)

lemma barrier_phase:
  assumes "pthread_barrier_init n = Inr b0" "b = b0\<lparr>bar_phase := p\<rparr>"
  shows "arrive_all (unat n) b = (replicate (unat n - 1) (Inr p) @ [Inl PTHREAD_BARRIER_SERIAL_THREAD], b\<lparr>bar_phase := p + 1\<rparr>)"
proof -
  have n: "n \<noteq> 0" and b: "bar_count b = n" "bar_current b = 0" "bar_phase b = p"
    using assms by (auto simp: pthread_barrier_init_def split: if_splits)
  define k where "k = unat n - 1"
  have k: "unat n = Suc k" using n by (simp add: k_def unat_gt_0)
  have first: "arrive_all k b = (replicate k (Inr p), b\<lparr>bar_current := of_nat k\<rparr>)"
    using arrive_some [of b k] b k by simp
  have "of_nat (Suc k) = n" unfolding k [symmetric] by simp
  then have "of_nat k + 1 = n" by (simp add: add.commute)
  then have "barrier_arrive (b\<lparr>bar_current := of_nat k\<rparr>) = (Inl PTHREAD_BARRIER_SERIAL_THREAD, b\<lparr>bar_phase := p + 1\<rparr>)"
    using b by (simp add: barrier_arrive_def Let_def)
  then show ?thesis unfolding k arrive_snoc [of k b] first by (simp only: Let_def prod.case diff_Suc_1)
qed

text \<open>
  \<open>pthread_cond_signal\<close> wakes every waiter: all that registered before it leave their loops, unless the
  count has come round to theirs.
\<close>

lemma cond_signal_wakes_all:
  assumes "sint (cond_waiters c) > 0" "signal_count c = w + of_nat k" "k < 2 ^ 32 - 1"
  shows "\<not> cond_waiting w (pthread_cond_signal c)"
proof
  assume "cond_waiting w (pthread_cond_signal c)"
  then have "w + (of_nat (Suc k) :: u32) = w" using assms(1,2) by (simp add: cond_waiting_def pthread_cond_signal_def algebra_simps)
  then have "(of_nat (Suc k) :: u32) = 0" by (metis add_cancel_left_right)
  moreover have "unat (of_nat (Suc k) :: u32) = Suc k"
    using assms(3) by (intro unat_of_nat_u32) simp
  ultimately show False by (metis unat_0 nat.distinct(1))
qed

end
