(* ===== verification/User_Heap.thy ===== *)
theory User_Heap
  imports Memory_Calls
begin

text \<open>
  The heap of user programs, \<open>apps/include/stdlib_ext.h\<close>: a doubly linked list of blocks with a
  header of 20 bytes each, first-fit allocation with splitting, growth through \<open>sbrk\<close>, and
  coalescing on \<open>free\<close>. The list is the list of its blocks in order. Addresses and sizes are
  natural numbers, with the wrap-around of the 32-bit computations written out. \<open>sb n k\<close> is the
  value of \<open>sbrk(n)\<close> in the kernel state \<open>k\<close>; it is instantiated with the system call at the end.
\<close>

subsection \<open>The code\<close>

record ublock =
  b_addr :: nat
  b_size :: nat
  b_free :: bool

abbreviation HDR :: nat where "HDR \<equiv> 20"

text \<open>The pointer that the program gets for a block.\<close>

definition block_ptr :: "ublock \<Rightarrow> nat" where "block_ptr b = (b_addr b + HDR) mod 2 ^ 32"

type_synonym 'k sbrk = "nat \<Rightarrow> 'k \<Rightarrow> nat \<times> 'k"

definition round8 :: "nat \<Rightarrow> nat" where "round8 n = (n + 7) mod 2 ^ 32 div 8 * 8"

definition page_need :: "nat \<Rightarrow> nat" where
  "page_need n = ((n + HDR) mod 2 ^ 32 + 4095) mod 2 ^ 32 div 4096 * 4096"

text \<open>Taking a free block, split when more than a header and 16 bytes are left.\<close>

definition take_block :: "nat \<Rightarrow> ublock \<Rightarrow> ublock list" where
  "take_block n b =
     (if b_size b > (n + HDR + 16) mod 2 ^ 32
      then [b\<lparr>b_size := n, b_free := False\<rparr>,
            \<lparr>b_addr = (b_addr b + HDR + n) mod 2 ^ 32, b_size = (b_size b + 2 ^ 32 - n - HDR) mod 2 ^ 32, b_free = True\<rparr>]
      else [b\<lparr>b_free := False\<rparr>])"

text \<open>
  The search of \<open>malloc\<close> from block \<open>b\<close>, with the blocks before it; at the end of the list the heap grows.
  The result of the outer option is \<open>None\<close> when the loop never ends.
\<close>

definition fresh_block :: "nat \<Rightarrow> nat \<Rightarrow> ublock" where
  "fresh_block a n = \<lparr>b_addr = a, b_size = (n + 2 ^ 32 - HDR) mod 2 ^ 32, b_free = True\<rparr>"

partial_function (option) malloc_from ::
  "'k sbrk \<Rightarrow> nat \<Rightarrow> ublock list \<Rightarrow> ublock \<Rightarrow> ublock list \<Rightarrow> 'k \<Rightarrow> (nat option \<times> ublock list \<times> 'k) option" where
  "malloc_from sb n pre b rest k =
     (if b_free b \<and> b_size b \<ge> n then Some (Some (block_ptr b), pre @ take_block n b @ rest, k)
      else case rest of
        r # rs \<Rightarrow> malloc_from sb n (pre @ [b]) r rs k
      | [] \<Rightarrow>
          (case sb (page_need n) k of (a, k1) \<Rightarrow>
             if a = 2 ^ 32 - 1 then Some (None, pre @ [b], k1)
             else malloc_from sb n (pre @ [b]) (fresh_block a (page_need n)) [] k1))"

text \<open>The empty list is \<open>heap_start == 0\<close>; \<open>heap_init\<close> does not look at the result of \<open>sbrk\<close>.\<close>

definition u_heap_init :: "'k sbrk \<Rightarrow> 'k \<Rightarrow> ublock list \<times> 'k" where
  "u_heap_init sb k = (case sb 4096 k of (a, k1) \<Rightarrow> ([fresh_block a 4096], k1))"

definition u_malloc :: "'k sbrk \<Rightarrow> nat \<Rightarrow> ublock list \<times> 'k \<Rightarrow> (nat option \<times> ublock list \<times> 'k) option" where
  "u_malloc sb n st =
     (if n = 0 then Some (None, st)
      else case (if fst st = [] then u_heap_init sb (snd st) else st) of
        ([], k) \<Rightarrow> None
      | (b # bs, k) \<Rightarrow> malloc_from sb (round8 n) [] b bs k)"

definition merge_next :: "ublock \<Rightarrow> ublock list \<Rightarrow> ublock \<times> ublock list" where
  "merge_next b post =
     (case post of n # ns \<Rightarrow> if b_free n then (b\<lparr>b_size := (b_size b + HDR + b_size n) mod 2 ^ 32\<rparr>, ns) else (b, post)
      | [] \<Rightarrow> (b, post))"

definition free_block :: "ublock list \<Rightarrow> ublock \<Rightarrow> ublock list \<Rightarrow> ublock list" where
  "free_block pre b post =
     (case merge_next (b\<lparr>b_free := True\<rparr>) post of (b1, post1) \<Rightarrow>
        if pre \<noteq> [] \<and> b_free (last pre)
        then butlast pre @ [(last pre)\<lparr>b_size := (b_size (last pre) + HDR + b_size b1) mod 2 ^ 32\<rparr>] @ post1
        else pre @ [b1] @ post1)"

text \<open>
  \<open>free\<close> of a pointer to a block of the list; \<open>None\<close> for any other pointer, where the code reads whatever
  is in front of it.
\<close>

definition u_free :: "nat \<Rightarrow> ublock list \<Rightarrow> ublock list option" where
  "u_free p bs =
     (if p = 0 then Some bs
      else case first_idx (\<lambda>b. block_ptr b = p) bs of
        None \<Rightarrow> None
      | Some i \<Rightarrow> Some (free_block (take i bs) (bs ! i) (drop (Suc i) bs)))"

definition u_calloc :: "'k sbrk \<Rightarrow> nat \<Rightarrow> nat \<Rightarrow> ublock list \<times> 'k \<Rightarrow> (nat option \<times> ublock list \<times> 'k) option" where
  "u_calloc sb m n st = u_malloc sb (m * n mod 2 ^ 32) st"

text \<open>The bytes that are copied are the result's third part: from, to and how many.\<close>

definition u_realloc ::
  "'k sbrk \<Rightarrow> nat \<Rightarrow> nat \<Rightarrow> ublock list \<times> 'k \<Rightarrow> (nat option \<times> (nat \<times> nat \<times> nat) option \<times> ublock list \<times> 'k) option" where
  "u_realloc sb p n st =
     (if p = 0 then map_option (\<lambda>(r, s). (r, None, s)) (u_malloc sb n st)
      else if n = 0 then map_option (\<lambda>bs. (None, None, bs, snd st)) (u_free p (fst st))
      else case first_idx (\<lambda>b. block_ptr b = p) (fst st) of
        None \<Rightarrow> None
      | Some i \<Rightarrow>
          (let sz = b_size (fst st ! i) in
           if sz \<ge> n then Some (Some p, None, st)
           else case u_malloc sb n st of
             None \<Rightarrow> None
           | Some (None, s) \<Rightarrow> Some (None, None, s)
           | Some (Some q, bs, k) \<Rightarrow> map_option (\<lambda>bs1. (Some q, Some (p, q, sz), bs1, k)) (u_free p bs)))"

subsection \<open>The invariant\<close>

text \<open>The blocks with their headers fill the memory from \<open>a\<close> to \<open>e\<close>.\<close>

fun contiguous :: "nat \<Rightarrow> ublock list \<Rightarrow> nat \<Rightarrow> bool" where
  "contiguous a [] e \<longleftrightarrow> a = e"
| "contiguous a (b # bs) e \<longleftrightarrow> b_addr b = a \<and> contiguous (a + HDR + b_size b) bs e"

definition blocks_used :: "ublock list \<Rightarrow> (nat \<times> nat) set" where
  "blocks_used bs = (\<lambda>b. (b_addr b + HDR, b_size b)) ` {b \<in> set bs. \<not> b_free b}"

definition bytes :: "nat \<times> nat \<Rightarrow> nat set" where "bytes r = {fst r ..< fst r + snd r}"

lemma fresh_block_size: "HDR \<le> n \<Longrightarrow> n < 2 ^ 32 \<Longrightarrow> fresh_block a n = \<lparr>b_addr = a, b_size = n - HDR, b_free = True\<rparr>"
proof -
  assume "HDR \<le> n" "n < 2 ^ 32"
  then have "n + 2 ^ 32 - HDR = n - HDR + 2 ^ 32" "n - HDR < 2 ^ 32" by simp_all
  then show ?thesis unfolding fresh_block_def by (metis mod_add_self2 mod_less)
qed

lemma contiguous_append: "contiguous a (xs @ ys) e \<longleftrightarrow> (\<exists>m. contiguous a xs m \<and> contiguous m ys e)"
  by (induction xs arbitrary: a) auto

lemma contiguous_le: "contiguous a bs e \<Longrightarrow> a \<le> e"
  by (induction bs arbitrary: a) (auto, force)

lemma contiguous_bounds: "contiguous a bs e \<Longrightarrow> b \<in> set bs \<Longrightarrow> a \<le> b_addr b \<and> b_addr b + HDR + b_size b \<le> e"
proof (induction bs arbitrary: a)
  case (Cons c cs)
  then show ?case using contiguous_le [of "a + HDR + b_size c" cs e] by force
qed simp

text \<open>Different blocks never share a byte.\<close>

lemma contiguous_disjoint:
  "contiguous a bs e \<Longrightarrow> b \<in> set bs \<Longrightarrow> c \<in> set bs \<Longrightarrow> b \<noteq> c \<Longrightarrow>
   b_addr b + HDR + b_size b \<le> b_addr c \<or> b_addr c + HDR + b_size c \<le> b_addr b"
proof (induction bs arbitrary: a)
  case (Cons d ds)
  then show ?case using contiguous_bounds [of "a + HDR + b_size d" ds e] by auto
qed simp

lemma blocks_used_disjoint:
  assumes "contiguous a bs e" "r \<in> blocks_used bs" "s \<in> blocks_used bs" "r \<noteq> s"
  shows "bytes r \<inter> bytes s = {}"
proof -
  obtain b c where "b \<in> set bs" "c \<in> set bs" "r = (b_addr b + HDR, b_size b)" "s = (b_addr c + HDR, b_size c)"
    using assms(2,3) by (auto simp: blocks_used_def)
  moreover from this have "b \<noteq> c" using assms(4) by auto
  ultimately show ?thesis using contiguous_disjoint [OF assms(1), of b c] by (auto simp: bytes_def)
qed

lemma used_mem: "(p, sz) \<in> blocks_used bs \<longleftrightarrow> (\<exists>b \<in> set bs. \<not> b_free b \<and> p = b_addr b + HDR \<and> sz = b_size b)"
  by (auto simp: blocks_used_def image_iff)

lemma blocks_used_append [simp]: "blocks_used (xs @ ys) = blocks_used xs \<union> blocks_used ys"
  by (auto simp: blocks_used_def)

lemma blocks_used_Cons [simp]:
  "blocks_used (b # bs) = (if b_free b then {} else {(b_addr b + HDR, b_size b)}) \<union> blocks_used bs"
  by (auto simp: blocks_used_def)

lemma blocks_used_Nil [simp]: "blocks_used [] = {}"
  by (simp add: blocks_used_def)

lemma take_block_spec:
  assumes "contiguous a [b] e" "b_free b" "n \<le> b_size b" "e < 2 ^ 32" "n + HDR + 16 < 2 ^ 32"
  shows "contiguous a (take_block n b) e" "\<exists>sz \<ge> n. blocks_used (take_block n b) = {(b_addr b + HDR, sz)}"
proof -
  have e: "b_addr b + HDR + b_size b < 2 ^ 32" using assms(1,4) by simp
  have w: "(n + HDR + 16) mod 2 ^ 32 = n + HDR + 16" using assms(5) by simp
  have "take_block n b = (if b_size b > n + HDR + 16
      then [b\<lparr>b_size := n, b_free := False\<rparr>, \<lparr>b_addr = b_addr b + HDR + n, b_size = b_size b - n - HDR, b_free = True\<rparr>]
      else [b\<lparr>b_free := False\<rparr>])"
  proof (cases "b_size b > n + HDR + 16")
    case True
    then have "b_size b + 2 ^ 32 - n - HDR = b_size b - n - HDR + 2 ^ 32" "b_size b - n - HDR < 2 ^ 32" "b_addr b + HDR + n < 2 ^ 32"
      using e by simp_all
    then have "(b_size b + 2 ^ 32 - n - HDR) mod 2 ^ 32 = b_size b - n - HDR" "(b_addr b + HDR + n) mod 2 ^ 32 = b_addr b + HDR + n"
      by (metis mod_add_self2 mod_less, metis mod_less)
    then show ?thesis unfolding take_block_def w using True by simp
  next
    case False
    then show ?thesis unfolding take_block_def w by simp
  qed
  then show "contiguous a (take_block n b) e" "\<exists>sz \<ge> n. blocks_used (take_block n b) = {(b_addr b + HDR, sz)}"
    using assms(1-3) by auto
qed

lemma block_ptr_eq: "contiguous a bs e \<Longrightarrow> e < 2 ^ 32 \<Longrightarrow> b \<in> set bs \<Longrightarrow> block_ptr b = b_addr b + HDR"
  using contiguous_bounds [of a bs e b] by (simp add: block_ptr_def)

lemma contiguous_same:
  assumes "contiguous a [b] e"
  shows "e = a + HDR + b_size b" "b_addr b = a"
  using assms by simp_all

text \<open>Taking a block in the middle of the list.\<close>

lemma take_middle:
  assumes "contiguous a (pre @ b # rest) e" "b_free b" "n \<le> b_size b" "e < 2 ^ 32" "n + HDR + 16 < 2 ^ 32"
  shows "contiguous a (pre @ take_block n b @ rest) e"
    "\<exists>sz \<ge> n. blocks_used (pre @ take_block n b @ rest) = insert (b_addr b + HDR, sz) (blocks_used (pre @ b # rest))"
    "(b_addr b + HDR, sz) \<notin> blocks_used (pre @ b # rest)"
proof -
  have split: "pre @ b # rest = pre @ [b] @ rest" by simp
  obtain m q where m: "contiguous a pre m" "contiguous m [b] q" "contiguous q rest e"
    using assms(1) unfolding split contiguous_append by blast
  have q: "q < 2 ^ 32" using contiguous_le [OF m(3)] assms(4) by simp
  show "contiguous a (pre @ take_block n b @ rest) e"
    using m take_block_spec(1) [OF m(2) assms(2,3) q assms(5)] unfolding contiguous_append by blast
  show "\<exists>sz \<ge> n. blocks_used (pre @ take_block n b @ rest) = insert (b_addr b + HDR, sz) (blocks_used (pre @ b # rest))"
    using take_block_spec(2) [OF m(2) assms(2,3) q assms(5)] assms(2) by auto
  show "(b_addr b + HDR, sz) \<notin> blocks_used (pre @ b # rest)"
  proof
    assume "(b_addr b + HDR, sz) \<in> blocks_used (pre @ b # rest)"
    then obtain c where c: "c \<in> set (pre @ b # rest)" "\<not> b_free c" "b_addr c = b_addr b"
      unfolding used_mem by (metis add_right_imp_eq)
    then have "c \<noteq> b" using assms(2) by auto
    then show False using contiguous_disjoint [OF assms(1), of b c] c(1,3) by auto
  qed
qed

text \<open>Releasing a block: the blocks still fill the memory, and exactly its bytes are no longer in use.\<close>

lemma merge_next_spec:
  assumes "contiguous a (b # post) e" "b_free b" "merge_next b post = (b1, post1)" "e < 2 ^ 32"
  shows "contiguous a (b1 # post1) e" "b_free b1" "blocks_used post1 = blocks_used post"
proof -
  have "contiguous a (b1 # post1) e \<and> b_free b1 \<and> blocks_used post1 = blocks_used post"
  proof (cases post)
    case (Cons n ns)
    have "b_size b + HDR + b_size n < 2 ^ 32"
      using assms(1,4) Cons contiguous_le [of "b_addr n + HDR + b_size n" ns e] by simp
    then have "(b_size b + HDR + b_size n) mod 2 ^ 32 = b_size b + HDR + b_size n" by (rule mod_less)
    then show ?thesis using assms(1-3) Cons by (auto simp: merge_next_def algebra_simps split: if_splits)
  qed (use assms in \<open>auto simp: merge_next_def\<close>)
  then show "contiguous a (b1 # post1) e" "b_free b1" "blocks_used post1 = blocks_used post" by blast+
qed

lemma free_block_spec:
  assumes "contiguous a (pre @ b # post) e" "e < 2 ^ 32"
  shows "contiguous a (free_block pre b post) e" "blocks_used (free_block pre b post) = blocks_used (pre @ post)"
proof -
  let ?b = "b\<lparr>b_free := True\<rparr>"
  obtain b1 post1 where m: "merge_next ?b post = (b1, post1)" by force
  obtain q where q: "contiguous a pre q" "contiguous q (b # post) e" using assms by (auto simp: contiguous_append)
  then have "contiguous q (?b # post) e" by simp
  note mn = merge_next_spec [OF this _ m assms(2), simplified]
  have "contiguous a (free_block pre b post) e \<and> blocks_used (free_block pre b post) = blocks_used (pre @ post)"
  proof (cases "pre \<noteq> [] \<and> b_free (last pre)")
    case True
    define xs l where "xs = butlast pre" and "l = last pre"
    have pre: "pre = xs @ [l]" using True by (simp add: xs_def l_def)
    have l: "contiguous a xs (b_addr l)" "q = b_addr l + HDR + b_size l" using q(1) by (auto simp: pre contiguous_append)
    have r: "contiguous (q + HDR + b_size b1) post1 e" using mn(1) by simp
    have "b_size l + HDR + b_size b1 < 2 ^ 32" using contiguous_le [OF r] l(2) assms(2) by simp
    then have w: "b_size l + (HDR + b_size b1) < 4294967296" by simp
    note r
    moreover have "q + HDR + b_size b1 = b_addr l + HDR + (b_size l + HDR + b_size b1)" using l(2) by simp
    ultimately have "contiguous (b_addr l + HDR + (b_size l + HDR + b_size b1)) post1 e" by simp
    moreover have "free_block pre b post = xs @ [l\<lparr>b_size := b_size l + HDR + b_size b1\<rparr>] @ post1"
      using True m unfolding free_block_def pre by (simp add: mod_less [OF w] add.assoc)
    ultimately show ?thesis using True mn(2,3) l(1) by (auto simp: pre contiguous_append)
  next
    case False
    then show ?thesis using mn q(1) m by (auto simp: free_block_def contiguous_append)
  qed
  then show "contiguous a (free_block pre b post) e" "blocks_used (free_block pre b post) = blocks_used (pre @ post)" by simp_all
qed

lemma u_free_spec:
  assumes "contiguous a bs e" "(p, sz) \<in> blocks_used bs" "e < 2 ^ 32"
  shows "\<exists>bs'. u_free p bs = Some bs' \<and> contiguous a bs' e \<and> blocks_used bs' = blocks_used bs - {(p, sz)}"
proof -
  obtain b where b: "b \<in> set bs" "\<not> b_free b" "p = b_addr b + HDR" "sz = b_size b"
    using assms(2) by (auto simp: blocks_used_def)
  note ptr = block_ptr_eq [OF assms(1,3)]
  have "\<exists>b \<in> set bs. block_ptr b = p" using b ptr by blast
  then obtain i where i: "first_idx (\<lambda>b. block_ptr b = p) bs = Some i"
    using first_idx_Ex [of "\<lambda>b. block_ptr b = p" bs] by blast
  note fi0 = first_idx_SomeD [OF i]
  then have fi: "i < length bs" "b_addr (bs ! i) + HDR = p" using ptr [OF nth_mem] by simp_all
  have same: "bs ! i = b"
  proof (rule ccontr)
    assume "bs ! i \<noteq> b"
    then show False using contiguous_disjoint [OF assms(1) nth_mem [OF fi(1)] b(1)] fi(2) b(3) by auto
  qed
  have split: "bs = take i bs @ b # drop (Suc i) bs" using id_take_nth_drop [OF fi(1)] same by simp
  have other: "c \<in> set (take i bs @ drop (Suc i) bs) \<Longrightarrow> b_addr c \<noteq> b_addr b" for c
  proof
    assume c: "c \<in> set (take i bs @ drop (Suc i) bs)" "b_addr c = b_addr b"
    obtain q where q: "contiguous a (take i bs) q" "contiguous q (b # drop (Suc i) bs) e"
      using assms(1) by (subst (asm) split) (auto simp: contiguous_append)
    then show False
      using c contiguous_bounds [OF q(1), of c] contiguous_bounds [of "q + HDR + b_size b" "drop (Suc i) bs" e c] by auto
  qed
  have "blocks_used bs = insert (p, sz) (blocks_used (take i bs @ drop (Suc i) bs))"
    using b(2-4) by (subst split) auto
  moreover have "(p, sz) \<notin> blocks_used (take i bs @ drop (Suc i) bs)"
    using other b(3) unfolding used_mem by fastforce
  ultimately have used: "blocks_used (take i bs @ drop (Suc i) bs) = blocks_used bs - {(p, sz)}" by auto
  have "p \<noteq> 0" using b(3) by simp
  then have "u_free p bs = Some (free_block (take i bs) b (drop (Suc i) bs))" using i same by (simp add: u_free_def)
  then show ?thesis
    using free_block_spec [of a "take i bs" b "drop (Suc i) bs" e] assms(1,3) split used by simp
qed

subsection \<open>The contract of sbrk\<close>

text \<open>
  \<open>brk\<close> is the end of the data segment; \<open>ready n k\<close> says that the kernel can grow it by \<open>n\<close>. Then
  \<open>sbrk\<close> returns the old end and moves it by \<open>n\<close>.
\<close>

locale data_segment =
  fixes sb :: "'k sbrk" and brk :: "'k \<Rightarrow> nat" and ready :: "nat \<Rightarrow> 'k \<Rightarrow> bool"
  assumes grows: "ready n k \<Longrightarrow> sb n k = (a, k') \<Longrightarrow> a = brk k \<and> brk k' = brk k + n"
    and below_top: "ready n k \<Longrightarrow> brk k + n < 2 ^ 32"
begin

lemma malloc_from_found:
  assumes "b_free b" "n \<le> b_size b"
  shows "malloc_from sb n pre b rest k = Some (Some (block_ptr b), pre @ take_block n b @ rest, k)"
  using assms by (subst malloc_from.simps) simp

lemma found_spec:
  assumes "contiguous a (pre @ b # rest) (brk k)" "b_free b" "n \<le> b_size b"
    "r = Some (Some (block_ptr b), pre @ take_block n b @ rest, k)" "brk k < 2 ^ 32" "n + HDR + 16 < 2 ^ 32"
  shows "\<exists>p sz bs k'. r = Some (Some p, bs, k') \<and> n \<le> sz \<and> contiguous a bs (brk k')
    \<and> blocks_used bs = insert (p, sz) (blocks_used (pre @ b # rest)) \<and> (p, sz) \<notin> blocks_used (pre @ b # rest)"
proof -
  note t = take_middle [OF assms(1-3,5,6)]
  have p: "block_ptr b = b_addr b + HDR" by (rule block_ptr_eq [OF assms(1,5)]) simp
  obtain sz where "n \<le> sz" "blocks_used (pre @ take_block n b @ rest) = insert (b_addr b + HDR, sz) (blocks_used (pre @ b # rest))"
    using t(2) by blast
  then show ?thesis
    unfolding assms(4) p
    by (intro exI [of _ "b_addr b + HDR"] exI [of _ sz] exI [of _ "pre @ take_block n b @ rest"] exI [of _ k] conjI refl t(1,3))
qed

lemma malloc_from_spec:
  assumes "contiguous a (pre @ b # rest) (brk k)" "ready (page_need n) k" "n + HDR \<le> page_need n" "page_need n < 2 ^ 32"
  shows "\<exists>p sz bs k'. malloc_from sb n pre b rest k = Some (Some p, bs, k') \<and> n \<le> sz \<and> contiguous a bs (brk k')
    \<and> blocks_used bs = insert (p, sz) (blocks_used (pre @ b # rest)) \<and> (p, sz) \<notin> blocks_used (pre @ b # rest)"
proof -
  have bk: "brk k < 2 ^ 32" using below_top [OF assms(2)] by simp
  have nb: "n + HDR + 16 < 2 ^ 32"
  proof -
    obtain x where "page_need n = x * 4096" unfolding page_need_def by blast
    then show ?thesis using assms(3,4) by simp
  qed
  show ?thesis
  using assms(1)
proof (induction rest arbitrary: pre b)
  case (Cons r rs)
  show ?case
  proof (cases "b_free b \<and> n \<le> b_size b")
    case True
    then show ?thesis by (intro found_spec [OF Cons.prems] malloc_from_found nb bk) simp_all
  next
    case False
    have "malloc_from sb n pre b (r # rs) k = malloc_from sb n (pre @ [b]) r rs k"
      by (subst malloc_from.simps) (simp only: False if_False list.case)
    then show ?thesis using Cons.IH [of "pre @ [b]" r] Cons.prems by simp
  qed
next
  case Nil
  show ?case
  proof (cases "b_free b \<and> n \<le> b_size b")
    case True
    then show ?thesis by (intro found_spec [OF Nil.prems] malloc_from_found nb bk) simp_all
  next
    case False
    obtain k1 where k1: "sb (page_need n) k = (brk k, k1)" "brk k1 = brk k + page_need n"
      using grows [OF assms(2)] by (cases "sb (page_need n) k") auto
    let ?f = "fresh_block (brk k) (page_need n)"
    have f: "b_free ?f" "b_addr ?f = brk k" "HDR + b_size ?f = page_need n" "n \<le> b_size ?f"
      using assms(3,4) by (simp_all add: fresh_block_size)
    have "page_need n > 0" using assms(3) by simp
    then have nm: "brk k \<noteq> 2 ^ 32 - 1" using below_top [OF assms(2)] by simp
    have "malloc_from sb n pre b [] k = malloc_from sb n (pre @ [b]) ?f [] k1"
      by (subst malloc_from.simps) (simp only: False nm if_False list.case k1(1) prod.case)
    then have step: "malloc_from sb n pre b [] k = Some (Some (block_ptr ?f), (pre @ [b]) @ take_block n ?f @ [], k1)"
      using malloc_from_found [OF f(1,4), of "pre @ [b]" "[]" k1] by simp
    obtain q where q: "contiguous a (pre @ [b]) (brk k)" using Nil.prems by simp
    then have c: "contiguous a ((pre @ [b]) @ ?f # []) (brk k1)"
      using f k1(2) unfolding contiguous_append by (intro exI [of _ "brk k"]) (simp add: add.assoc)
    have same: "blocks_used ((pre @ [b]) @ ?f # []) = blocks_used (pre @ [b])" using f(1) by simp
    have "brk k1 < 2 ^ 32" using k1(2) below_top [OF assms(2)] by simp
    from found_spec [OF c f(1,4) step this nb] show ?thesis unfolding same .
  qed
qed
qed

text \<open>The first allocation sets up the heap.\<close>

lemma heap_init_spec:
  assumes "ready 4096 k"
  shows "\<exists>b k'. u_heap_init sb k = ([b], k') \<and> contiguous (brk k) [b] (brk k') \<and> blocks_used [b] = {}"
proof -
  obtain k1 where "sb 4096 k = (brk k, k1)" "brk k1 = brk k + 4096"
    using grows [OF assms] by (cases "sb 4096 k") auto
  then show ?thesis by (simp add: u_heap_init_def fresh_block_size)
qed

lemma malloc_spec:
  assumes "bs \<noteq> []" "contiguous a bs (brk k)" "0 < n" "round8 n = m" "ready (page_need m) k" "m + HDR \<le> page_need m"
    "page_need m < 2 ^ 32" "n \<le> m"
  shows "\<exists>p sz bs' k'. u_malloc sb n (bs, k) = Some (Some p, bs', k') \<and> n \<le> sz \<and> contiguous a bs' (brk k')
    \<and> blocks_used bs' = insert (p, sz) (blocks_used bs) \<and> (p, sz) \<notin> blocks_used bs"
proof -
  obtain b rest where bs: "bs = b # rest" using assms(1) by (cases bs) auto
  have "contiguous a ([] @ b # rest) (brk k)" using assms(2) bs by simp
  from malloc_from_spec [OF this assms(5-7)]
  obtain p sz bs' k' where r: "malloc_from sb m [] b rest k = Some (Some p, bs', k')" "m \<le> sz" "contiguous a bs' (brk k')"
      "blocks_used bs' = insert (p, sz) (blocks_used bs)" "(p, sz) \<notin> blocks_used bs"
    unfolding bs append_Nil by blast
  have "u_malloc sb n (bs, k) = Some (Some p, bs', k')" using r(1) assms(3,4) bs by (simp add: u_malloc_def)
  moreover have "n \<le> sz" using r(2) assms(8) by simp
  ultimately show ?thesis by (intro exI [of _ p] exI [of _ sz] exI [of _ bs'] exI [of _ k'] conjI r(3-5))
qed

end

lemma round8_bounds:
  assumes "n + 7 < 2 ^ 32"
  shows "n \<le> round8 n" "round8 n \<le> n + 7"
  using assms by (auto simp: round8_def)

lemma page_need_bounds:
  assumes "n + HDR + 4095 < 2 ^ 32"
  shows "n + HDR \<le> page_need n" "page_need n \<le> n + HDR + 4095"
  using assms by (auto simp: page_need_def)

text \<open>
  The rounding wraps: for the last seven sizes \<open>malloc\<close> looks for a block of size 0 and returns the first free one.
\<close>

lemma malloc_size_wraps: "2 ^ 32 - 7 \<le> n \<Longrightarrow> n < 2 ^ 32 \<Longrightarrow> round8 n = 0"
  by (simp add: round8_def mod_if)

subsection \<open>On the system call\<close>

text \<open>
  The program sees the raw value of the system call. The memory is there when the pages between the old and the
  new end can be mapped.
\<close>

definition user_sbrk :: "kst sbrk" where
  "user_sbrk n s = (case sys_sbrk (of_nat n) s of None \<Rightarrow> (0, s) | Some (r, s1) \<Rightarrow> (unat (word_of_int r :: u32), s1))"

definition user_brk :: "kst \<Rightarrow> nat" where
  "user_brk s = (case procs s (current_process s) of None \<Rightarrow> 0 | Some c \<Rightarrow> unat (heap_end c))"

lemma user_brk_lt: "user_brk s < 2 ^ 32"
proof (cases "procs s (current_process s)")
  case (Some c)
  then show ?thesis using unat_u32_bound [of "heap_end c"] by (simp add: user_brk_def)
qed (simp add: user_brk_def)

definition pages_ready :: "u32 \<Rightarrow> u32 \<Rightarrow> vm \<Rightarrow> bool" where
  "pages_ready old new m \<longleftrightarrow>
     (page_up new > page_up old \<longrightarrow> fst (map_zeroed (pages_from (page_up old) (unat (page_up new - page_up old) div 4096)) m))"

definition sbrk_ready :: "nat \<Rightarrow> kst \<Rightarrow> bool" where
  "sbrk_ready n s \<longleftrightarrow> user_brk s + n < 2 ^ 32 \<and>
     (case procs s (current_process s) of None \<Rightarrow> False
      | Some c \<Rightarrow> pages_ready (heap_end c) (heap_end c + of_nat n) (vmem s))"

interpretation ub: data_segment user_sbrk user_brk sbrk_ready
proof unfold_locales
  fix n k a k' assume r: "sbrk_ready n k" and s: "user_sbrk n k = (a, k')"
  obtain c where c: "procs k (current_process k) = Some c" "pages_ready (heap_end c) (heap_end c + of_nat n) (vmem k)"
    using r by (auto simp: sbrk_ready_def split: option.splits)
  have lt: "unat (heap_end c) + n < 2 ^ 32" using r c(1) by (simp add: sbrk_ready_def user_brk_def)
  then have un: "unat (of_nat n :: u32) = n" by (intro unat_of_nat_u32) simp
  have sum: "unat (heap_end c + of_nat n) = unat (heap_end c) + n"
    using lt un by (subst unat_add_lem [THEN iffD1]) simp_all
  obtain ok m where m: "(if page_up (heap_end c + of_nat n) > page_up (heap_end c)
      then map_zeroed (pages_from (page_up (heap_end c)) (unat (page_up (heap_end c + of_nat n) - page_up (heap_end c)) div 4096)) (vmem k)
      else (True, vmem k)) = (ok, m)" by force
  have ok: "ok" using c(2) arg_cong [OF m, of fst] by (auto simp: pages_ready_def split: if_splits)
  have "sys_sbrk (of_nat n) k = Some (sint (heap_end c),
      set_proc (current_process k) (c\<lparr>heap_end := heap_end c + of_nat n\<rparr>) (k\<lparr>vmem := m\<rparr>))"
    using c(1) m ok by (simp add: sys_sbrk_def Let_def)
  then have "a = unat (heap_end c)" "k' = set_proc (current_process k) (c\<lparr>heap_end := heap_end c + of_nat n\<rparr>) (k\<lparr>vmem := m\<rparr>)"
    using s by (simp_all add: user_sbrk_def)
  then show "a = user_brk k \<and> user_brk k' = user_brk k + n" using c(1) sum by (simp add: user_brk_def)
next
  fix n k assume "sbrk_ready n k"
  then show "user_brk k + n < 2 ^ 32" by (simp add: sbrk_ready_def)
qed

text \<open>
  C25. The heap of a program on top of the system call: while the blocks with their headers fill the data segment,
  \<open>malloc\<close> of up to 2^31 bytes returns (growing the segment when it must) a block that is at least as large as
  asked, was not in use and shares no byte with a block in use; all other blocks in use stay. Freeing it
  makes exactly it unused again. The blocks fill the segment throughout.
\<close>

theorem user_malloc_free:
  assumes "bs \<noteq> []" "contiguous a bs (user_brk k)" "0 < n" "n < 2 ^ 31" "sbrk_ready (page_need (round8 n)) k"
  shows "\<exists>p sz bs' k' bs''. u_malloc user_sbrk n (bs, k) = Some (Some p, bs', k') \<and> n \<le> sz
    \<and> contiguous a bs' (user_brk k') \<and> blocks_used bs' = insert (p, sz) (blocks_used bs)
    \<and> (\<forall>r \<in> blocks_used bs. bytes r \<inter> bytes (p, sz) = {})
    \<and> u_free p bs' = Some bs'' \<and> contiguous a bs'' (user_brk k') \<and> blocks_used bs'' = blocks_used bs"
proof -
  have "n + 7 < 2 ^ 32" using assms(4) by simp
  note r8 = round8_bounds [OF this]
  have "round8 n + HDR + 4095 < 2 ^ 32" using assms(4) r8(2) by simp
  note pn = page_need_bounds [OF this]
  have pl: "page_need (round8 n) < 2 ^ 32" using pn(2) r8(2) assms(4) by simp
  from ub.malloc_spec [OF assms(1,2,3) refl assms(5) pn(1) pl r8(1)]
  obtain p sz bs' k' where m: "u_malloc user_sbrk n (bs, k) = Some (Some p, bs', k')" "n \<le> sz"
      "contiguous a bs' (user_brk k')" "blocks_used bs' = insert (p, sz) (blocks_used bs)" "(p, sz) \<notin> blocks_used bs"
    by (elim exE conjE)
  have dis: "bytes r \<inter> bytes (p, sz) = {}" if "r \<in> blocks_used bs" for r
    using blocks_used_disjoint [OF m(3), of r "(p, sz)"] that m(4,5) by auto
  have "(p, sz) \<in> blocks_used bs'" using m(4) by simp
  have "user_brk k' < 2 ^ 32" by (rule user_brk_lt)
  from u_free_spec [OF m(3) \<open>(p, sz) \<in> blocks_used bs'\<close> this]
  obtain bs'' where f: "u_free p bs' = Some bs''" "contiguous a bs'' (user_brk k')" "blocks_used bs'' = blocks_used bs' - {(p, sz)}"
    by (elim exE conjE)
  have eq: "blocks_used bs'' = blocks_used bs" unfolding f(3) m(4) using m(5) by simp
  show ?thesis
    by (intro exI [of _ p] exI [of _ sz] exI [of _ bs'] exI [of _ k'] exI [of _ bs''] conjI ballI m(1-4) f(1,2) eq dis)
qed

text \<open>The demonstration kernel with a data segment of one page for its first process.\<close>

definition segment_kst :: kst where
  "segment_kst = set_proc 0x100 (demo_proc\<lparr>pid := 0, heap_end := 4096\<rparr>) demo_kst"

lemma segment_kst_ready: "sbrk_ready 4096 segment_kst" "user_brk segment_kst = 4096"
proof -
  have p: "procs segment_kst (current_process segment_kst) = Some (demo_proc\<lparr>pid := 0, heap_end := 4096\<rparr>)"
    by (simp add: segment_kst_def)
  then show "user_brk segment_kst = 4096" by (simp add: user_brk_def)
  obtain q m where q: "alloc_frame demo_vm = (q, m)" by force
  have "q \<noteq> 0" using alloc_frame_ok(1) [OF demo_vm_inv(1) _ q] demo_vm_inv(2) by simp
  then have one: "fst (map_zeroed [4096] demo_vm)" using q by (simp add: Let_def)
  have up: "page_up 4096 = 4096" "page_up 8192 = 8192" by (simp_all add: page_up_def)
  have "pages_from 4096 1 = [4096]" by (simp add: pages_from_def)
  then have "pages_ready 4096 8192 demo_vm" using one up by (simp add: pages_ready_def)
  moreover have "vmem segment_kst = demo_vm" by (simp add: segment_kst_def)
  ultimately show "sbrk_ready 4096 segment_kst" using p by (simp add: sbrk_ready_def user_brk_def)
qed

theorem user_malloc_free_witness:
  "\<exists>p sz bs k. u_malloc user_sbrk 100 ([fresh_block 0 4096], segment_kst) = Some (Some p, bs, k) \<and> 100 \<le> sz
    \<and> blocks_used bs = {(p, sz)}"
proof -
  have c: "contiguous 0 [fresh_block 0 4096] (user_brk segment_kst)"
    by (simp add: fresh_block_size segment_kst_ready)
  have "page_need (round8 100) = 4096" by (simp add: page_need_def round8_def)
  then have r: "sbrk_ready (page_need (round8 100)) segment_kst" by (simp add: segment_kst_ready)
  have u: "blocks_used [fresh_block 0 4096] = {}" by (simp add: fresh_block_size)
  have "[fresh_block 0 4096] \<noteq> []" "(0 :: nat) < 100" "(100 :: nat) < 2 ^ 31" by simp_all
  from user_malloc_free [OF this(1) c this(2,3) r] show ?thesis unfolding u by blast
qed

text \<open>
  Out of memory: the system call returns \<open>-ENOMEM\<close>, which \<open>malloc\<close> does not recognise (it tests for \<open>-1\<close>), so
  it goes on with a block at the address \<open>0xFFFFFFF4\<close> and returns the pointer 8.
\<close>

lemma malloc_ignores_enomem:
  assumes "sys_sbrk (of_nat (page_need n)) k = Some (- ENOMEM, k')" "\<not> b_free b" "n + HDR \<le> page_need n"
  shows "malloc_from user_sbrk n pre b [] k
    = Some (Some 8, (pre @ [b]) @ take_block n (fresh_block (2 ^ 32 - 12) (page_need n)), k')"
proof -
  let ?f = "fresh_block (2 ^ 32 - 12) (page_need n)"
  have pn: "page_need n < 2 ^ 32"
  proof -
    have "page_need n \<le> ((n + HDR) mod 2 ^ 32 + 4095) mod 2 ^ 32" unfolding page_need_def by simp
    also have "\<dots> < 2 ^ 32" by simp
    finally show ?thesis .
  qed
  have "user_sbrk (page_need n) k = (unat (word_of_int (- 12) :: u32), k')" by (simp add: user_sbrk_def assms(1))
  then have s: "user_sbrk (page_need n) k = (2 ^ 32 - 12, k')" by simp
  have "malloc_from user_sbrk n pre b [] k = malloc_from user_sbrk n (pre @ [b]) ?f [] k'"
    by (subst malloc_from.simps) (simp add: assms(2) s)
  also have "\<dots> = Some (Some (block_ptr ?f), (pre @ [b]) @ take_block n ?f @ [], k')"
    using assms(3) pn by (intro ub.malloc_from_found) (simp_all add: fresh_block_size)
  finally show ?thesis using assms(3) pn by (simp add: fresh_block_size block_ptr_def)
qed

end
