(* ===== verification/Regex.thy ===== *)
theory Regex
  imports Prelude
begin

text \<open>
  Pattern matching for programs, \<open>apps/include/regex.h\<close>: regular expressions with \<open>. * + ? ^ $\<close>,
  search and replacement, and file name patterns. A C string is the list of its characters
  without the terminator; \<open>*text == 0\<close> is the empty rest. The comment in the source also lists
  \<open>[]\<close>, and not \<open>+\<close> and \<open>?\<close>: the code of the matcher has no case for a bracket, which stands for
  itself (only the file name patterns have character classes).
\<close>

subsection \<open>Regular expressions\<close>

abbreviation ch_dot :: u8 where "ch_dot \<equiv> 46"
abbreviation ch_star :: u8 where "ch_star \<equiv> 42"
abbreviation ch_plus :: u8 where "ch_plus \<equiv> 43"
abbreviation ch_opt :: u8 where "ch_opt \<equiv> 63"
abbreviation ch_end :: u8 where "ch_end \<equiv> 36"
abbreviation ch_begin :: u8 where "ch_begin \<equiv> 94"

function regex_match_here :: "u8 list \<Rightarrow> u8 list \<Rightarrow> bool"
  and regex_match_star :: "u8 \<Rightarrow> u8 list \<Rightarrow> u8 list \<Rightarrow> bool"
  and regex_match_plus :: "u8 \<Rightarrow> u8 list \<Rightarrow> u8 list \<Rightarrow> bool" where
  "regex_match_here [] text = True"
| "regex_match_here (c # r) text =
     (if c = ch_end \<and> r = [] then text = []
      else if r \<noteq> [] \<and> hd r = ch_star then regex_match_star c (tl r) text
      else if r \<noteq> [] \<and> hd r = ch_plus then regex_match_plus c (tl r) text
      else if r \<noteq> [] \<and> hd r = ch_opt then
        (if regex_match_here (tl r) text then True
         else if text \<noteq> [] \<and> (c = ch_dot \<or> c = hd text) then regex_match_here (tl r) (tl text)
         else False)
      else if text \<noteq> [] \<and> (c = ch_dot \<or> c = hd text) then regex_match_here r (tl text)
      else False)"
| "regex_match_star c r text =
     (if regex_match_here r text then True
      else if text \<noteq> [] \<and> (hd text = c \<or> c = ch_dot) then regex_match_star c r (tl text)
      else False)"
| "regex_match_plus c r text =
     (if text \<noteq> [] \<and> (hd text = c \<or> c = ch_dot)
      then (if regex_match_here r (tl text) then True else regex_match_plus c r (tl text))
      else False)"
  by pat_completeness auto

termination
  by (relation "measures
        [\<lambda>x. case x of Inl (r, t) \<Rightarrow> length r | Inr (Inl (c, r, t)) \<Rightarrow> length r | Inr (Inr (c, r, t)) \<Rightarrow> length r,
         \<lambda>x. case x of Inl (r, t) \<Rightarrow> length t | Inr (Inl (c, r, t)) \<Rightarrow> length t | Inr (Inr (c, r, t)) \<Rightarrow> length t,
         \<lambda>x. case x of Inl _ \<Rightarrow> 0 | Inr _ \<Rightarrow> 1]") auto

text \<open>The loop of \<open>regex_match\<close> tries every suffix, the empty one included.\<close>

fun match_anywhere :: "u8 list \<Rightarrow> u8 list \<Rightarrow> bool" where
  "match_anywhere r [] = regex_match_here r []"
| "match_anywhere r (x # xs) = (if regex_match_here r (x # xs) then True else match_anywhere r xs)"

definition regex_match :: "u8 list \<Rightarrow> u8 list \<Rightarrow> bool" where
  "regex_match r text =
     (if r \<noteq> [] \<and> hd r = ch_begin then regex_match_here (tl r) text else match_anywhere r text)"

text \<open>\<open>regex_find\<close>: start and end of the match. The end is moved on while the expression matches one further.\<close>

fun find_end :: "u8 list \<Rightarrow> u8 list \<Rightarrow> nat" where
  "find_end r [] = 0"
| "find_end r (x # xs) = (if regex_match_here r xs then Suc (find_end r xs) else 0)"

fun find_from :: "u8 list \<Rightarrow> bool \<Rightarrow> nat \<Rightarrow> u8 list \<Rightarrow> (nat \<times> nat) option" where
  "find_from r anchored pos text =
     (if regex_match_here r text then Some (pos, pos + find_end r text)
      else if anchored then None
      else case text of [] \<Rightarrow> None | x # xs \<Rightarrow> find_from r anchored (pos + 1) xs)"

definition regex_find :: "u8 list \<Rightarrow> u8 list \<Rightarrow> (nat \<times> nat) option" where
  "regex_find r text =
     (let anchored = (r \<noteq> [] \<and> hd r = ch_begin) in find_from (if anchored then tl r else r) anchored 0 text)"

text \<open>Replacing the first match into a buffer of \<open>outsize > 0\<close> bytes; the result is what the buffer holds in front of the terminator.\<close>

definition regex_replace :: "u8 list \<Rightarrow> u8 list \<Rightarrow> u8 list \<Rightarrow> nat \<Rightarrow> int \<times> u8 list" where
  "regex_replace r replacement text outsize =
     (case regex_find r text of
        None \<Rightarrow> (0, take (outsize - 1) text)
      | Some (s, e) \<Rightarrow>
          (let a = take (outsize - 1) (take s text);
               b = take (outsize - 1 - length a) replacement;
               c = take (outsize - 1 - length a - length b) (drop e text)
           in (1, a @ b @ c)))"

subsection \<open>What an expression means\<close>

datatype rx = Atom u8 | Star u8 | Plus u8 | Opt u8

text \<open>
  Parsing, with the dollar sign at the end. A bracket is an atom like any other character, as the code
  tests only for \<open>* + ? $\<close> and the dot.
\<close>

fun parse :: "u8 list \<Rightarrow> rx list \<times> bool" where
  "parse [] = ([], False)"
| "parse [c] = (if c = ch_end then ([], True) else ([Atom c], False))"
| "parse (c # d # r) =
     (if d = ch_star then apfst ((#) (Star c)) (parse r)
      else if d = ch_plus then apfst ((#) (Plus c)) (parse r)
      else if d = ch_opt then apfst ((#) (Opt c)) (parse r)
      else apfst ((#) (Atom c)) (parse (d # r)))"

definition atom_ok :: "u8 \<Rightarrow> u8 \<Rightarrow> bool" where "atom_ok c x \<longleftrightarrow> c = ch_dot \<or> c = x"

fun words :: "rx list \<Rightarrow> u8 list set" where
  "words [] = {[]}"
| "words (Atom c # r) = {x # w | x w. atom_ok c x \<and> w \<in> words r}"
| "words (Star c # r) = {v @ w | v w. (\<forall>x \<in> set v. atom_ok c x) \<and> w \<in> words r}"
| "words (Plus c # r) = {v @ w | v w. v \<noteq> [] \<and> (\<forall>x \<in> set v. atom_ok c x) \<and> w \<in> words r}"
| "words (Opt c # r) = words r \<union> {x # w | x w. atom_ok c x \<and> w \<in> words r}"

text \<open>A prefix of the text is in the language; all of it when the expression ends with a dollar.\<close>

definition prefix_in :: "rx list \<times> bool \<Rightarrow> u8 list \<Rightarrow> bool" where
  "prefix_in p text \<longleftrightarrow> (\<exists>w rest. text = w @ rest \<and> w \<in> words (fst p) \<and> (snd p \<longrightarrow> rest = []))"

lemma prefix_in_Nil [simp]: "prefix_in ([], False) text" "prefix_in ([], True) text \<longleftrightarrow> text = []"
  by (auto simp: prefix_in_def)

lemma prefix_inI: "w \<in> words r \<Longrightarrow> (e \<longrightarrow> rest = []) \<Longrightarrow> prefix_in (r, e) (w @ rest)"
  unfolding prefix_in_def by auto

lemma prefix_inE:
  assumes "prefix_in (r, e) text"
  obtains w rest where "text = w @ rest" "w \<in> words r" "e \<longrightarrow> rest = []"
  using assms unfolding prefix_in_def by auto

lemma prefix_in_Atom:
  "prefix_in (Atom c # r, e) text \<longleftrightarrow> text \<noteq> [] \<and> atom_ok c (hd text) \<and> prefix_in (r, e) (tl text)"
proof
  assume "prefix_in (Atom c # r, e) text"
  then obtain u rest where u: "text = u @ rest" "u \<in> words (Atom c # r)" "e \<longrightarrow> rest = []" by (rule prefix_inE)
  then obtain x w where "u = x # w" "atom_ok c x" "w \<in> words r" by auto
  then show "text \<noteq> [] \<and> atom_ok c (hd text) \<and> prefix_in (r, e) (tl text)" using u by (simp add: prefix_inI)
next
  assume a: "text \<noteq> [] \<and> atom_ok c (hd text) \<and> prefix_in (r, e) (tl text)"
  then obtain w rest where w: "tl text = w @ rest" "w \<in> words r" "e \<longrightarrow> rest = []" by (elim conjE prefix_inE)
  then have "text = (hd text # w) @ rest" using a by (metis append_Cons list.collapse)
  moreover have "hd text # w \<in> words (Atom c # r)" using a w(2) by simp
  ultimately show "prefix_in (Atom c # r, e) text" using w(3) prefix_inI by metis
qed

lemma prefix_in_Opt:
  "prefix_in (Opt c # r, e) text \<longleftrightarrow> prefix_in (r, e) text \<or> prefix_in (Atom c # r, e) text"
proof -
  have "words (Opt c # r) = words r \<union> words (Atom c # r)" by simp
  then show ?thesis unfolding prefix_in_def fst_conv snd_conv by (simp only: Un_iff) blast
qed

text \<open>A star is nothing or an atom and the star again; a plus is an atom and a star.\<close>

lemma words_Star: "words (Star c # r) = words r \<union> words (Atom c # Star c # r)"
proof (intro set_eqI iffI)
  fix u assume "u \<in> words (Star c # r)"
  then obtain v w where v: "u = v @ w" "\<forall>x \<in> set v. atom_ok c x" "w \<in> words r" by auto
  then show "u \<in> words r \<union> words (Atom c # Star c # r)" by (cases v) auto
next
  fix u assume "u \<in> words r \<union> words (Atom c # Star c # r)"
  then consider "u \<in> words r" | x v w where "u = (x # v) @ w" "\<forall>y \<in> set (x # v). atom_ok c y" "w \<in> words r" by auto
  then show "u \<in> words (Star c # r)"
  proof cases
    case 1
    then have "u = [] @ u \<and> (\<forall>x \<in> set []. atom_ok c x) \<and> u \<in> words r" by simp
    then show ?thesis unfolding words.simps mem_Collect_eq by blast
  next
    case 2
    then show ?thesis unfolding words.simps mem_Collect_eq by blast
  qed
qed

lemma prefix_in_Star:
  "prefix_in (Star c # r, e) text \<longleftrightarrow> prefix_in (r, e) text \<or> prefix_in (Atom c # Star c # r, e) text"
  unfolding prefix_in_def fst_conv snd_conv words_Star by (simp only: Un_iff) blast

lemma prefix_in_Plus:
  "prefix_in (Plus c # r, e) text \<longleftrightarrow> prefix_in (Atom c # Star c # r, e) text"
proof -
  have "words (Plus c # r) = words (Atom c # Star c # r)"
  proof (intro set_eqI iffI)
    fix u assume "u \<in> words (Plus c # r)"
    then obtain v w where v: "u = v @ w" "v \<noteq> []" "\<forall>x \<in> set v. atom_ok c x" "w \<in> words r" by auto
    then show "u \<in> words (Atom c # Star c # r)" by (cases v) auto
  next
    fix u assume "u \<in> words (Atom c # Star c # r)"
    then obtain x v w where "u = (x # v) @ w" "\<forall>y \<in> set (x # v). atom_ok c y" "w \<in> words r" by auto
    then show "u \<in> words (Plus c # r)" unfolding words.simps mem_Collect_eq by blast
  qed
  then show ?thesis by (simp add: prefix_in_def)
qed

declare regex_match_star.simps [simp del] regex_match_plus.simps [simp del]

lemma match_star_correct:
  assumes "\<And>t. regex_match_here r t \<longleftrightarrow> prefix_in (p, e) t"
  shows "regex_match_star c r t \<longleftrightarrow> prefix_in (Star c # p, e) t"
proof (induction t)
  case Nil
  show ?case by (subst regex_match_star.simps, subst prefix_in_Star) (simp add: assms prefix_in_Atom)
next
  case (Cons x xs)
  then show ?case
    by (subst regex_match_star.simps, subst prefix_in_Star) (auto simp: assms prefix_in_Atom atom_ok_def)
qed

lemma match_plus_correct:
  assumes "\<And>t. regex_match_here r t \<longleftrightarrow> prefix_in (p, e) t"
  shows "regex_match_plus c r t \<longleftrightarrow> prefix_in (Plus c # p, e) t"
proof (induction t)
  case Nil
  show ?case by (subst regex_match_plus.simps) (simp add: prefix_in_Plus prefix_in_Atom)
next
  case (Cons x xs)
  have "prefix_in (Plus c # p, e) (x # xs) \<longleftrightarrow> atom_ok c x \<and> (prefix_in (p, e) xs \<or> prefix_in (Plus c # p, e) xs)"
    using prefix_in_Star [of c p e xs] by (simp add: prefix_in_Plus prefix_in_Atom)
  then show ?case
    using Cons by (subst regex_match_plus.simps) (auto simp: assms atom_ok_def)
qed

lemma parse_head:
  "parse (c # ch_star # r) = (Star c # fst (parse r), snd (parse r))"
  "parse (c # ch_plus # r) = (Plus c # fst (parse r), snd (parse r))"
  "parse (c # ch_opt # r) = (Opt c # fst (parse r), snd (parse r))"
  "d \<notin> {ch_star, ch_plus, ch_opt} \<Longrightarrow> parse (c # d # r) = (Atom c # fst (parse (d # r)), snd (parse (d # r)))"
  by (simp_all add: apfst_def map_prod_def case_prod_beta)

lemma match_here_parse: "regex_match_here r text \<longleftrightarrow> prefix_in (parse r) text"
proof (induction r arbitrary: "text" rule: parse.induct)
  case 1
  show ?case by simp
next
  case (2 c)
  show ?case by (simp add: prefix_in_Atom atom_ok_def)
next
  case (3 c d r)
  have IH: "regex_match_here r t \<longleftrightarrow> prefix_in (fst (parse r), snd (parse r)) t" if "d \<in> {ch_star, ch_plus, ch_opt}" for t
    using 3 that by auto
  consider "d = ch_star" | "d = ch_plus" | "d = ch_opt" | "d \<notin> {ch_star, ch_plus, ch_opt}" by auto
  then show ?case
  proof cases
    case 1
    then show ?thesis using match_star_correct [OF IH] by (simp add: parse_head del: parse.simps)
  next
    case 2
    then show ?thesis using match_plus_correct [OF IH] by (simp add: parse_head del: parse.simps)
  next
    case 3
    then show ?thesis using IH by (simp add: parse_head prefix_in_Opt prefix_in_Atom atom_ok_def del: parse.simps)
  next
    case 4
    then have "\<And>t. regex_match_here (d # r) t \<longleftrightarrow> prefix_in (parse (d # r)) t" using "3.IH"(4) by simp
    moreover have "regex_match_here (c # d # r) text
        \<longleftrightarrow> text \<noteq> [] \<and> (c = ch_dot \<or> c = hd text) \<and> regex_match_here (d # r) (tl text)"
      using 4 by (subst regex_match_here.simps(2)) (simp del: regex_match_here.simps)
    ultimately show ?thesis
      using 4 by (simp add: parse_head prefix_in_Atom atom_ok_def del: parse.simps regex_match_here.simps)
  qed
qed

text \<open>An expression without special characters stands for itself; a bracket is not special.\<close>

lemma plain_match:
  "set r \<inter> {ch_dot, ch_star, ch_plus, ch_opt, ch_end} = {} \<Longrightarrow> regex_match_here r text \<longleftrightarrow> (\<exists>rest. text = r @ rest)"
proof (induction r arbitrary: "text")
  case (Cons c r)
  have c: "c \<noteq> ch_dot" "c \<noteq> ch_end" "r \<noteq> [] \<Longrightarrow> hd r \<notin> {ch_star, ch_plus, ch_opt}" using Cons.prems by (cases r; auto)+
  have "regex_match_here (c # r) text \<longleftrightarrow> text \<noteq> [] \<and> c = hd text \<and> regex_match_here r (tl text)"
    using c by (auto simp: regex_match_here.simps(2))
  also have "\<dots> \<longleftrightarrow> (\<exists>rest. text = (c # r) @ rest)" using Cons by (cases "text") auto
  finally show ?case .
qed simp

text \<open>
  C26. The matcher decides the language: the recursion over expression and text, with its loops for star, plus and
  the optional character, terminates and answers exactly whether some prefix of the text (the whole
  text, for an expression that ends with a dollar) is a word of the expression read as a sequence of
  atoms, starred, repeated and optional characters. Character classes are not part of this language,
  though the comment in front of the code lists \<open>[]\<close> as supported: an expression without
  \<open>. * + ? $\<close>, with brackets or not, matches exactly the texts that begin with it, character by character.
\<close>

theorem regex_match_here_correct:
  "(regex_match_here r text \<longleftrightarrow> prefix_in (parse r) text) \<and>
   (set r \<inter> {ch_dot, ch_star, ch_plus, ch_opt, ch_end} = {} \<longrightarrow> (regex_match_here r text \<longleftrightarrow> (\<exists>rest. text = r @ rest)))"
  using match_here_parse plain_match by (intro conjI impI)

text \<open>The characters of \<open>[ab]\<close>, of a text with one letter of the supposed class, and of a text that begins with the expression.\<close>

theorem regex_match_here_correct_witness:
  "\<not> regex_match_here [91, 97, 98, 93] [97] \<and> regex_match_here [91, 97, 98, 93] [91, 97, 98, 93, 99]"
proof -
  have n: "set [91, 97, 98, 93] \<inter> {ch_dot, ch_star, ch_plus, ch_opt, ch_end} = {}" by simp
  note m = regex_match_here_correct [THEN conjunct2, THEN mp, OF n]
  have "\<not> (\<exists>rest. [97] = [91, 97, 98, 93] @ rest)" "\<exists>rest. [91, 97, 98, 93, 99] = [91, 97, 98, 93 :: u8] @ rest" by simp_all
  with m [of "[97]"] m [of "[91, 97, 98, 93, 99]"] show ?thesis by blast
qed


text \<open>
  The end that \<open>regex_find\<close> reports is not the end of the match: replacing \<open>ab\<close> by \<open>X\<close> in \<open>ab\<close>
  gives \<open>Xab\<close>.
\<close>

lemma regex_replace_keeps_match: "regex_replace [97, 98] [88] [97, 98] 10 = (1, [88, 97, 98])"
  by (simp add: regex_replace_def regex_find_def Let_def)

subsection \<open>File name patterns\<close>

text \<open>
  A character class from behind its opening bracket (and the inversion mark) to behind the closing one, for the
  character \<open>x\<close>; characters compare as signed. The second component is the rest of the pattern.
\<close>

fun scan_class :: "u8 list \<Rightarrow> u8 \<Rightarrow> bool \<Rightarrow> bool \<times> u8 list" where
  "scan_class [] x m = (m, [])"
| "scan_class (a # r) x m =
     (if a = 93 then (m, r)
      else case r of
        d # b # r2 \<Rightarrow>
          if d = 45 \<and> b \<noteq> 93 then scan_class r2 x (m \<or> (sint a \<le> sint x \<and> sint x \<le> sint b))
          else scan_class r x (m \<or> x = a)
      | _ \<Rightarrow> scan_class r x (m \<or> x = a))"

definition glob_class :: "u8 list \<Rightarrow> u8 \<Rightarrow> bool \<times> u8 list" where
  "glob_class p x =
     (let invert = (p \<noteq> [] \<and> (hd p = 33 \<or> hd p = 94));
          (m, rest) = scan_class (if invert then tl p else p) x False
      in (m \<noteq> invert, rest))"

lemma scan_class_shorter: "length (snd (scan_class p x m)) \<le> length p"
proof (induction p arbitrary: m rule: length_induct)
  case (1 p)
  then have IH: "length q < length p \<Longrightarrow> length (snd (scan_class q x m)) \<le> length q" for q m by blast
  show ?case
  proof (cases p)
    case (Cons a r)
    have r: "length (snd (scan_class r x m)) \<le> Suc (length r)" for m
      using IH [of r m] Cons by simp
    have r2: "length (snd (scan_class q x m)) \<le> Suc (length r)" if "r = d # b # q" for d b q m
      using IH [of q m] Cons that by simp
    show ?thesis
      unfolding Cons by (subst scan_class.simps(2)) (use r r2 in \<open>auto simp del: scan_class.simps split: list.split\<close>)
  qed simp
qed

lemma glob_class_shorter: "glob_class p x = (m, rest) \<Longrightarrow> length rest \<le> length p"
  using scan_class_shorter [of "tl p" x False] scan_class_shorter [of p x False]
  by (auto simp: glob_class_def Let_def split: prod.splits if_splits)

text \<open>\<open>None\<close>: the loop goes on behind the terminator of the text.\<close>

function glob_match :: "u8 list \<Rightarrow> u8 list \<Rightarrow> bool option"
  and glob_suffixes :: "u8 list \<Rightarrow> u8 list \<Rightarrow> bool option" where
  "glob_match [] t = Some (t = [])"
| "glob_match (c # p) t =
     (if c = 42 then (if p = [] then Some True else glob_suffixes p t)
      else if c = 63 then (if t = [] then Some False else glob_match p (tl t))
      else if c = 91 then
        (case glob_class p (if t = [] then 0 else hd t) of (ok, rest) \<Rightarrow>
           if \<not> ok then Some False else if t = [] then None else glob_match rest (tl t))
      else if t = [] \<or> hd t \<noteq> c then Some False else glob_match p (tl t))"
| "glob_suffixes p [] = Some False"
| "glob_suffixes p (x # xs) =
     (case glob_match p (x # xs) of None \<Rightarrow> None | Some b \<Rightarrow> if b then Some True else glob_suffixes p xs)"
  by pat_completeness auto

termination
  by (relation "measures
        [\<lambda>x. case x of Inl (p, t) \<Rightarrow> length p | Inr (p, t) \<Rightarrow> length p,
         \<lambda>x. case x of Inl (p, t) \<Rightarrow> length t | Inr (p, t) \<Rightarrow> length t,
         \<lambda>x. case x of Inl _ \<Rightarrow> 0 | Inr _ \<Rightarrow> 1]")
    (auto dest!: glob_class_shorter [OF sym])

text \<open>A pattern of plain characters matches its own text only.\<close>

lemma glob_plain: "\<forall>c \<in> set p. c \<notin> {42, 63, 91} \<Longrightarrow> glob_match p t = Some (t = p)"
  by (induction p arbitrary: t) (auto simp: neq_Nil_conv)

text \<open>Two corner cases: an inverted class accepts the end of the text, and a second star needs a character.\<close>

lemma glob_inverted_class_at_end: "glob_match [91, 33, 97, 93] [] = None"
  by (simp add: glob_class_def)

lemma glob_double_star: "glob_match [97, 42, 42] [97] = Some False"
  by simp

end
