(* ===== verification/Users.thy ===== *)
theory Users
  imports Sched
begin

text \<open>
  Users and groups, \<open>kernel/user.cpp\<close>: the user and group tables, the real, effective and saved
  ids of the current process and the supplementary groups. A call returns its C result and the
  new state; a null pointer argument is \<open>None\<close>. \<open>no_privilege_gain\<close> is what the checks of the
  id calls are for; \<open>root_setreuid_drops\<close>, \<open>initgroups_unchecked\<close> show where they fail.
\<close>

subsection \<open>The tables\<close>

abbreviation MAX_PASSWD_ENTRIES :: nat where "MAX_PASSWD_ENTRIES \<equiv> 16"
abbreviation MAX_GROUP_ENTRIES :: nat where "MAX_GROUP_ENTRIES \<equiv> 16"
abbreviation MAX_GROUPS :: nat where "MAX_GROUPS \<equiv> 16"

record passwd =
  pw_name :: string
  pw_passwd :: string
  pw_uid :: u32
  pw_gid :: u32
  pw_gecos :: string
  pw_dir :: string
  pw_shell :: string

record grp =
  gr_name :: string
  gr_passwd :: string
  gr_gid :: u32
  gr_mem :: "string list"

record users =
  passwd_db :: "passwd list"
  passwd_count :: nat
  passwd_index :: nat
  group_db :: "grp list"
  group_count :: nat
  group_index :: nat
  users_initialized :: bool
  supplementary_groups :: "u32 list"
  supplementary_group_count :: nat

definition no_passwd :: passwd where
  "no_passwd = \<lparr>pw_name = '''', pw_passwd = '''', pw_uid = 0, pw_gid = 0, pw_gecos = '''', pw_dir = '''', pw_shell = ''''\<rparr>"

definition no_group :: grp where
  "no_group = \<lparr>gr_name = '''', gr_passwd = '''', gr_gid = 0, gr_mem = []\<rparr>"

text \<open>The static memory before the first call.\<close>

definition boot_users :: users where
  "boot_users = \<lparr>passwd_db = replicate MAX_PASSWD_ENTRIES no_passwd, passwd_count = 0, passwd_index = 0,
     group_db = replicate MAX_GROUP_ENTRIES no_group, group_count = 0, group_index = 0, users_initialized = False,
     supplementary_groups = replicate MAX_GROUPS 0, supplementary_group_count = 0\<rparr>"

definition init_users :: "users \<Rightarrow> users" where
  "init_users u =
     (if users_initialized u then u
      else u\<lparr>passwd_db := (passwd_db u)
                [0 := \<lparr>pw_name = ''root'', pw_passwd = ''x'', pw_uid = 0, pw_gid = 0, pw_gecos = ''root'',
                       pw_dir = ''/root'', pw_shell = ''/bin/sh''\<rparr>,
                 1 := \<lparr>pw_name = ''nobody'', pw_passwd = ''x'', pw_uid = 65534, pw_gid = 65534, pw_gecos = ''nobody'',
                       pw_dir = ''/nonexistent'', pw_shell = ''/bin/false''\<rparr>],
             passwd_count := 2,
             group_db := (group_db u)
                [0 := \<lparr>gr_name = ''root'', gr_passwd = ''x'', gr_gid = 0, gr_mem = []\<rparr>,
                 1 := \<lparr>gr_name = ''nogroup'', gr_passwd = ''x'', gr_gid = 65534, gr_mem = []\<rparr>],
             group_count := 2, users_initialized := True\<rparr>)"

text \<open>The loops return the index of the first entry with the property.\<close>

fun first_entry :: "('a \<Rightarrow> bool) \<Rightarrow> 'a list \<Rightarrow> nat \<Rightarrow> nat \<Rightarrow> nat option" where
  "first_entry P db i 0 = None"
| "first_entry P db i (Suc n) = (if P (db ! i) then Some i else first_entry P db (Suc i) n)"

definition getpwnam :: "string option \<Rightarrow> users \<Rightarrow> nat option \<times> users" where
  "getpwnam name u0 =
     (let u = init_users u0 in
      (case name of None \<Rightarrow> None
       | Some n \<Rightarrow> first_entry (\<lambda>e. pw_name e = n) (passwd_db u) 0 (passwd_count u), u))"

definition getpwuid :: "u32 \<Rightarrow> users \<Rightarrow> nat option \<times> users" where
  "getpwuid i u0 =
     (let u = init_users u0 in (first_entry (\<lambda>e. pw_uid e = i) (passwd_db u) 0 (passwd_count u), u))"

definition getpwent :: "users \<Rightarrow> nat option \<times> users" where
  "getpwent u0 =
     (let u = init_users u0 in
      if passwd_index u \<ge> passwd_count u then (None, u)
      else (Some (passwd_index u), u\<lparr>passwd_index := passwd_index u + 1\<rparr>))"

definition setpwent :: "users \<Rightarrow> users" where
  "setpwent u = (init_users u)\<lparr>passwd_index := 0\<rparr>"

definition endpwent :: "users \<Rightarrow> users" where
  "endpwent u = u\<lparr>passwd_index := 0\<rparr>"

definition getgrnam :: "string option \<Rightarrow> users \<Rightarrow> nat option \<times> users" where
  "getgrnam name u0 =
     (let u = init_users u0 in
      (case name of None \<Rightarrow> None
       | Some n \<Rightarrow> first_entry (\<lambda>e. gr_name e = n) (group_db u) 0 (group_count u), u))"

definition getgrgid :: "u32 \<Rightarrow> users \<Rightarrow> nat option \<times> users" where
  "getgrgid i u0 =
     (let u = init_users u0 in (first_entry (\<lambda>e. gr_gid e = i) (group_db u) 0 (group_count u), u))"

definition getgrent :: "users \<Rightarrow> nat option \<times> users" where
  "getgrent u0 =
     (let u = init_users u0 in
      if group_index u \<ge> group_count u then (None, u)
      else (Some (group_index u), u\<lparr>group_index := group_index u + 1\<rparr>))"

definition setgrent :: "users \<Rightarrow> users" where
  "setgrent u = (init_users u)\<lparr>group_index := 0\<rparr>"

definition endgrent :: "users \<Rightarrow> users" where
  "endgrent u = u\<lparr>group_index := 0\<rparr>"

subsection \<open>The ids of a process\<close>

text \<open>A getter returns 0 when there is no current process.\<close>

definition get_id :: "(process \<Rightarrow> u32) \<Rightarrow> kst \<Rightarrow> u32 option" where
  "get_id f s = (if current_process s = 0 then Some 0 else map_option f (procs s (current_process s)))"

definition getuid :: "kst \<Rightarrow> u32 option" where "getuid = get_id uid"
definition geteuid :: "kst \<Rightarrow> u32 option" where "geteuid = get_id euid"
definition getgid :: "kst \<Rightarrow> u32 option" where "getgid = get_id gid"
definition getegid :: "kst \<Rightarrow> u32 option" where "getegid = get_id egid"

definition setuid :: "u32 \<Rightarrow> process \<Rightarrow> int \<times> process" where
  "setuid i c =
     (if euid c \<noteq> 0 \<and> i \<noteq> uid c \<and> i \<noteq> suid c then (-1, c)
      else (0, c\<lparr>uid := i, euid := i, suid := i\<rparr>))"

definition seteuid :: "u32 \<Rightarrow> process \<Rightarrow> int \<times> process" where
  "seteuid i c =
     (if euid c \<noteq> 0 \<and> i \<noteq> uid c \<and> i \<noteq> suid c then (-1, c)
      else (0, c\<lparr>euid := i\<rparr>))"

definition setgid :: "u32 \<Rightarrow> process \<Rightarrow> int \<times> process" where
  "setgid i c =
     (if euid c \<noteq> 0 \<and> i \<noteq> gid c \<and> i \<noteq> sgid c then (-1, c)
      else (0, c\<lparr>gid := i, egid := i, sgid := i\<rparr>))"

definition setegid :: "u32 \<Rightarrow> process \<Rightarrow> int \<times> process" where
  "setegid i c =
     (if euid c \<noteq> 0 \<and> i \<noteq> gid c \<and> i \<noteq> sgid c then (-1, c)
      else (0, c\<lparr>egid := i\<rparr>))"

definition id_refused :: "u32 \<Rightarrow> u32 \<Rightarrow> u32 \<Rightarrow> u32 \<Rightarrow> bool" where
  "id_refused i r e v \<longleftrightarrow> i \<noteq> - 1 \<and> i \<noteq> r \<and> i \<noteq> e \<and> i \<noteq> v"

definition setresuid :: "u32 \<Rightarrow> u32 \<Rightarrow> u32 \<Rightarrow> process \<Rightarrow> int \<times> process" where
  "setresuid r e v c =
     (if euid c \<noteq> 0 \<and> id_refused r (uid c) (euid c) (suid c) then (- EPERM, c)
      else if euid c \<noteq> 0 \<and> id_refused e (uid c) (euid c) (suid c) then (- EPERM, c)
      else if euid c \<noteq> 0 \<and> id_refused v (uid c) (euid c) (suid c) then (- EPERM, c)
      else
        let c1 = (if r \<noteq> - 1 then c\<lparr>uid := r\<rparr> else c);
            c2 = (if e \<noteq> - 1 then c1\<lparr>euid := e\<rparr> else c1)
        in (0, if v \<noteq> - 1 then c2\<lparr>suid := v\<rparr> else c2))"

definition setresgid :: "u32 \<Rightarrow> u32 \<Rightarrow> u32 \<Rightarrow> process \<Rightarrow> int \<times> process" where
  "setresgid r e v c =
     (if euid c \<noteq> 0 \<and> id_refused r (gid c) (egid c) (sgid c) then (- EPERM, c)
      else if euid c \<noteq> 0 \<and> id_refused e (gid c) (egid c) (sgid c) then (- EPERM, c)
      else if euid c \<noteq> 0 \<and> id_refused v (gid c) (egid c) (sgid c) then (- EPERM, c)
      else
        let c1 = (if r \<noteq> - 1 then c\<lparr>gid := r\<rparr> else c);
            c2 = (if e \<noteq> - 1 then c1\<lparr>egid := e\<rparr> else c1)
        in (0, if v \<noteq> - 1 then c2\<lparr>sgid := v\<rparr> else c2))"

definition getresuid :: "process \<Rightarrow> u32 \<times> u32 \<times> u32" where
  "getresuid c = (uid c, euid c, suid c)"

definition getresgid :: "process \<Rightarrow> u32 \<times> u32 \<times> u32" where
  "getresgid c = (gid c, egid c, sgid c)"

text \<open>
  An id call works on the current process and returns -1 when there is none. In \<open>setreuid\<close> and
  \<open>setregid\<close>, \<open>(uint32_t)-1\<close> leaves an id as it is.
\<close>

definition id_call :: "(process \<Rightarrow> int \<times> process) \<Rightarrow> kst \<Rightarrow> (int \<times> kst) option" where
  "id_call f s =
     (if current_process s = 0 then Some (-1, s)
      else do { c \<leftarrow> procs s (current_process s);
                let (r, c1) = f c;
                Some (r, set_proc (current_process s) c1 s) })"

definition setreuid :: "u32 \<Rightarrow> u32 \<Rightarrow> kst \<Rightarrow> (int \<times> kst) option" where
  "setreuid r e s = do {
     (x, s1) \<leftarrow> (if r \<noteq> - 1 then id_call (setuid r) s else Some (0, s));
     if x < 0 then Some (-1, s1)
     else do {
       (y, s2) \<leftarrow> (if e \<noteq> - 1 then id_call (seteuid e) s1 else Some (0, s1));
       Some (if y < 0 then -1 else 0, s2) } }"

definition setregid :: "u32 \<Rightarrow> u32 \<Rightarrow> kst \<Rightarrow> (int \<times> kst) option" where
  "setregid r e s = do {
     (x, s1) \<leftarrow> (if r \<noteq> - 1 then id_call (setgid r) s else Some (0, s));
     if x < 0 then Some (-1, s1)
     else do {
       (y, s2) \<leftarrow> (if e \<noteq> - 1 then id_call (setegid e) s1 else Some (0, s1));
       Some (if y < 0 then -1 else 0, s2) } }"

text \<open>The calls a process can make on its ids.\<close>

datatype id_op = Setuid u32 | Seteuid u32 | Setgid u32 | Setegid u32 | Setreuid u32 u32 | Setregid u32 u32
  | Setresuid u32 u32 u32 | Setresgid u32 u32 u32

fun do_id_op :: "id_op \<Rightarrow> kst \<Rightarrow> (int \<times> kst) option" where
  "do_id_op (Setuid i) s = id_call (setuid i) s"
| "do_id_op (Seteuid i) s = id_call (seteuid i) s"
| "do_id_op (Setgid i) s = id_call (setgid i) s"
| "do_id_op (Setegid i) s = id_call (setegid i) s"
| "do_id_op (Setreuid r e) s = setreuid r e s"
| "do_id_op (Setregid r e) s = setregid r e s"
| "do_id_op (Setresuid r e v) s = id_call (setresuid r e v) s"
| "do_id_op (Setresgid r e v) s = id_call (setresgid r e v) s"

fun do_id_ops :: "id_op list \<Rightarrow> kst \<Rightarrow> kst option" where
  "do_id_ops [] s = Some s"
| "do_id_ops (x # xs) s = do { (r, s1) \<leftarrow> do_id_op x s; do_id_ops xs s1 }"

subsection \<open>Supplementary groups\<close>

text \<open>The groups are one table for all processes; \<open>m\<close> is the caller's array.\<close>

definition getgroups :: "int \<Rightarrow> u32 list \<Rightarrow> users \<Rightarrow> int \<times> u32 list" where
  "getgroups n buf u =
     (let k = supplementary_group_count u in
      if n = 0 then (int k, buf)
      else if n < int k then (-1, buf)
      else (int k, take k (supplementary_groups u) @ drop k buf))"

definition setgroups :: "nat \<Rightarrow> (nat \<Rightarrow> u32) \<Rightarrow> process option \<Rightarrow> users \<Rightarrow> int \<times> users" where
  "setgroups n m cur u =
     (case cur of None \<Rightarrow> (-1, u)
      | Some c \<Rightarrow>
          if euid c \<noteq> 0 then (-1, u)
          else if n > MAX_GROUPS then (-1, u)
          else (0, u\<lparr>supplementary_group_count := n,
                     supplementary_groups := map m [0..<n] @ drop n (supplementary_groups u)\<rparr>))"

definition initgroups :: "string \<Rightarrow> u32 \<Rightarrow> users \<Rightarrow> int \<times> users" where
  "initgroups user g u =
     (0, u\<lparr>supplementary_groups := (supplementary_groups u)[0 := g], supplementary_group_count := 1\<rparr>)"

subsection \<open>The tables\<close>

lemma first_entry_Some:
  "first_entry P db i n = Some k \<Longrightarrow> i \<le> k \<and> k < i + n \<and> P (db ! k) \<and> (\<forall>j. i \<le> j \<and> j < k \<longrightarrow> \<not> P (db ! j))"
proof (induction n arbitrary: i)
  case (Suc n)
  then show ?case
  proof (cases "P (db ! i)")
    case False
    then have *: "Suc i \<le> k \<and> k < Suc i + n \<and> P (db ! k) \<and> (\<forall>j. Suc i \<le> j \<and> j < k \<longrightarrow> \<not> P (db ! j))"
      using Suc.IH [of "Suc i"] Suc.prems False by simp
    then have "\<not> P (db ! j)" if "i \<le> j" "j < k" for j
      using that False by (cases "j = i") auto
    with * show ?thesis by auto
  qed (use Suc.prems in auto)
qed simp

lemma first_entry_None: "first_entry P db i n = None \<longleftrightarrow> (\<forall>j. i \<le> j \<and> j < i + n \<longrightarrow> \<not> P (db ! j))"
proof (induction n arbitrary: i)
  case (Suc n)
  have "(\<forall>j. i \<le> j \<and> j < i + Suc n \<longrightarrow> \<not> P (db ! j)) \<longleftrightarrow>
      \<not> P (db ! i) \<and> (\<forall>j. Suc i \<le> j \<and> j < Suc i + n \<longrightarrow> \<not> P (db ! j))"
    by (metis Suc_le_eq add_Suc add_Suc_right le_eq_less_or_eq less_add_Suc1)
  then show ?case using Suc.IH [of "Suc i"] by simp
qed auto

text \<open>A lookup returns the first entry with the name or number, or nothing when there is none.\<close>

lemma getpwuid_correct:
  assumes "getpwuid i u = (r, u')"
  shows "u' = init_users u"
    and "\<And>k. r = Some k \<Longrightarrow> k < passwd_count u' \<and> pw_uid (passwd_db u' ! k) = i"
    and "r = None \<Longrightarrow> \<forall>k < passwd_count u'. pw_uid (passwd_db u' ! k) \<noteq> i"
  using assms by (auto simp: getpwuid_def Let_def first_entry_None dest: first_entry_Some)

text \<open>Enumeration: the entries in order, then nothing.\<close>

lemma getpwent_walk:
  assumes "users_initialized u"
  shows "getpwent u = (if passwd_index u < passwd_count u
           then (Some (passwd_index u), u\<lparr>passwd_index := passwd_index u + 1\<rparr>) else (None, u))"
    and "setpwent u = u\<lparr>passwd_index := 0\<rparr>"
  using assms by (auto simp: getpwent_def init_users_def setpwent_def)

lemma boot_user_db:
  "map_option (\<lambda>k. pw_name (passwd_db (init_users boot_users) ! k)) (fst (getpwuid 0 boot_users)) = Some ''root''"
  "fst (getpwnam (Some ''nobody'') boot_users) = Some 1"
  "fst (getgrgid 7 boot_users) = None"
  by code_simp+

subsection \<open>Privileges\<close>

definition user_ids :: "process \<Rightarrow> u32 set" where "user_ids c = {uid c, euid c, suid c}"
definition group_ids :: "process \<Rightarrow> u32 set" where "group_ids c = {gid c, egid c, sgid c}"

text \<open>The process without its ids.\<close>

definition no_ids :: "process \<Rightarrow> process" where
  "no_ids c = c\<lparr>uid := 0, euid := 0, suid := 0, gid := 0, egid := 0, sgid := 0\<rparr>"

text \<open>A call that keeps within the ids of \<open>c\<close> and changes nothing else of it.\<close>

definition ids_within :: "process \<Rightarrow> process \<Rightarrow> bool" where
  "ids_within c c1 \<longleftrightarrow> user_ids c1 \<subseteq> user_ids c \<and> group_ids c1 \<subseteq> group_ids c \<and> no_ids c1 = no_ids c"

lemma ids_within_refl [simp]: "ids_within c c" by (simp add: ids_within_def)

lemma ids_within_trans: "ids_within a b \<Longrightarrow> ids_within b c \<Longrightarrow> ids_within a c"
  by (auto simp: ids_within_def)

lemma uid_within:
  assumes "r \<in> user_ids c" "e \<in> user_ids c" "v \<in> user_ids c"
  shows "ids_within c (c\<lparr>uid := r, euid := e, suid := v\<rparr>)"
  using assms by (simp add: ids_within_def user_ids_def group_ids_def no_ids_def)

lemma gid_within:
  assumes "r \<in> group_ids c" "e \<in> group_ids c" "v \<in> group_ids c"
  shows "ids_within c (c\<lparr>gid := r, egid := e, sgid := v\<rparr>)"
  using assms by (simp add: ids_within_def user_ids_def group_ids_def no_ids_def)

lemma setresuid_cases:
  "setresuid r e v c = (- EPERM, c) \<or>
   setresuid r e v c = (0, c\<lparr>uid := if r = - 1 then uid c else r, euid := if e = - 1 then euid c else e,
      suid := if v = - 1 then suid c else v\<rparr>)"
  unfolding setresuid_def Let_def by (cases "r = - 1"; cases "e = - 1"; cases "v = - 1") simp_all

lemma setresgid_cases:
  "setresgid r e v c = (- EPERM, c) \<or>
   setresgid r e v c = (0, c\<lparr>gid := if r = - 1 then gid c else r, egid := if e = - 1 then egid c else e,
      sgid := if v = - 1 then sgid c else v\<rparr>)"
  unfolding setresgid_def Let_def by (cases "r = - 1"; cases "e = - 1"; cases "v = - 1") simp_all

lemma ids_refl [simp]:
  "uid c \<in> user_ids c" "euid c \<in> user_ids c" "suid c \<in> user_ids c"
  "gid c \<in> group_ids c" "egid c \<in> group_ids c" "sgid c \<in> group_ids c"
  by (simp_all add: user_ids_def group_ids_def)

lemma setuid_cases:
  assumes "euid c \<noteq> 0"
  shows "setuid i c = (-1, c) \<or> i \<in> user_ids c \<and> setuid i c = (0, c\<lparr>uid := i, euid := i, suid := i\<rparr>)"
    "seteuid i c = (-1, c) \<or> i \<in> user_ids c \<and> seteuid i c = (0, c\<lparr>uid := uid c, euid := i, suid := suid c\<rparr>)"
    "setgid i c = (-1, c) \<or> i \<in> group_ids c \<and> setgid i c = (0, c\<lparr>gid := i, egid := i, sgid := i\<rparr>)"
    "setegid i c = (-1, c) \<or> i \<in> group_ids c \<and> setegid i c = (0, c\<lparr>gid := gid c, egid := i, sgid := sgid c\<rparr>)"
  by (simp_all add: assms setuid_def seteuid_def setgid_def setegid_def user_ids_def group_ids_def)

lemma setresid_refused:
  assumes "euid c \<noteq> 0"
  shows "setresuid i j k c = (0, c1) \<Longrightarrow> x \<in> {i, j, k} \<Longrightarrow> x = - 1 \<or> x \<in> user_ids c"
    "setresgid i j k c = (0, c1) \<Longrightarrow> x \<in> {i, j, k} \<Longrightarrow> x = - 1 \<or> x \<in> group_ids c"
  using assms by (auto simp: setresuid_def setresgid_def id_refused_def user_ids_def group_ids_def split: if_splits)

lemma id_calls_within:
  assumes e: "euid c \<noteq> 0"
  shows "ids_within c (snd (setuid i c))" "ids_within c (snd (seteuid i c))" "ids_within c (snd (setgid i c))"
    "ids_within c (snd (setegid i c))" "ids_within c (snd (setresuid i j k c))" "ids_within c (snd (setresgid i j k c))"
proof -
  note * = setuid_cases [OF e, of i]
  show "ids_within c (snd (setuid i c))" "ids_within c (snd (seteuid i c))"
    using *(1,2) uid_within [of _ c] by (metis ids_refl ids_within_refl snd_conv)+
  show "ids_within c (snd (setgid i c))" "ids_within c (snd (setegid i c))"
    using *(3,4) gid_within [of _ c] by (metis ids_refl ids_within_refl snd_conv)+
  have "ids_within c (c\<lparr>uid := if i = - 1 then uid c else i, euid := if j = - 1 then euid c else j,
      suid := if k = - 1 then suid c else k\<rparr>)" if "setresuid i j k c = (0, c1)" for c1
    using setresid_refused(1) [OF e that] by (intro uid_within) auto
  then show "ids_within c (snd (setresuid i j k c))"
    using setresuid_cases [of i j k c] by (metis ids_within_refl snd_conv)
  have "ids_within c (c\<lparr>gid := if i = - 1 then gid c else i, egid := if j = - 1 then egid c else j,
      sgid := if k = - 1 then sgid c else k\<rparr>)" if "setresgid i j k c = (0, c1)" for c1
    using setresid_refused(2) [OF e that] by (intro gid_within) auto
  then show "ids_within c (snd (setresgid i j k c))"
    using setresgid_cases [of i j k c] by (metis ids_within_refl snd_conv)
qed

text \<open>One call, or the calls one after the other: the current process stays, the others are untouched.\<close>

definition within_step :: "kst \<Rightarrow> process \<Rightarrow> kst \<Rightarrow> bool" where
  "within_step s c s1 \<longleftrightarrow> (\<exists>c1. s1 = set_proc (current_process s) c1 s \<and> ids_within c c1)"

lemma within_step_refl: "procs s (current_process s) = Some c \<Longrightarrow> within_step s c s"
  unfolding within_step_def
  by (intro exI [of _ c]) (auto simp: set_proc_def fun_upd_idem)

lemma within_step_trans:
  assumes "within_step s c s1" and "\<And>c1. procs s1 (current_process s1) = Some c1 \<Longrightarrow> ids_within c c1 \<Longrightarrow> within_step s1 c1 s2"
  shows "within_step s c s2"
proof -
  obtain c1 where 1: "s1 = set_proc (current_process s) c1 s" "ids_within c c1"
    using assms(1) by (auto simp: within_step_def)
  then have "within_step s1 c1 s2" by (intro assms(2)) simp_all
  then obtain c2 where "s2 = set_proc (current_process s) c2 s1" "ids_within c1 c2"
    by (auto simp: within_step_def 1)
  then show ?thesis
    unfolding within_step_def using 1
    by (intro exI [of _ c2]) (auto simp: set_proc_def intro: ids_within_trans)
qed

lemma id_call_within:
  assumes "current_process s \<noteq> 0" "procs s (current_process s) = Some c" "ids_within c (snd (f c))"
  shows "\<exists>r s1. id_call f s = Some (r, s1) \<and> within_step s c s1"
  using assms by (cases "f c") (auto simp: id_call_def within_step_def)

text \<open>A process is unprivileged for good when none of its user ids is 0.\<close>

lemma id_op_within:
  assumes s: "current_process s \<noteq> 0" "procs s (current_process s) = Some c" and c: "0 \<notin> user_ids c"
  shows "\<exists>r s1. do_id_op x s = Some (r, s1) \<and> within_step s c s1"
proof -
  have e: "euid c1 \<noteq> 0" if "ids_within c c1" for c1
    using that c by (auto simp: ids_within_def user_ids_def)
  note ic = id_calls_within [OF e [OF ids_within_refl]]
  have two: "\<exists>r s2. (do { (x, s1) \<leftarrow> (if P then id_call f s else Some (0, s));
      if x < 0 then Some (-1, s1)
      else do { (y, s2) \<leftarrow> (if Q then id_call g s1 else Some (0, s1)); Some (if y < 0 then -1 else 0, s2) } })
        = Some (r, s2) \<and> within_step s c s2"
    if fg: "\<And>c. euid c \<noteq> 0 \<Longrightarrow> ids_within c (snd (f c))" "\<And>c. euid c \<noteq> 0 \<Longrightarrow> ids_within c (snd (g c))"
    for P Q f g
  proof -
    obtain x1 s1 where 1: "(if P then id_call f s else Some (0, s)) = Some (x1, s1)" "within_step s c s1"
      using id_call_within [OF s, of f] fg(1) [OF e [OF ids_within_refl]] within_step_refl [OF s(2)] by (cases P) auto
    obtain c1 where c1: "s1 = set_proc (current_process s) c1 s" "ids_within c c1"
      using 1(2) by (auto simp: within_step_def)
    have s1: "current_process s1 \<noteq> 0" "procs s1 (current_process s1) = Some c1" using c1 s by simp_all
    obtain y1 s2 where 2: "(if Q then id_call g s1 else Some (0, s1)) = Some (y1, s2)" "within_step s1 c1 s2"
      using id_call_within [OF s1, of g] fg(2) [OF e [OF c1(2)]] within_step_refl [OF s1(2)] by (cases Q) auto
    have "within_step s c s2"
      by (rule within_step_trans [OF 1(2)]) (use 2(2) s1 in simp)
    then show ?thesis using 1 2 by auto
  qed
  show ?thesis
  proof (cases x)
    case (Setreuid r i)
    show ?thesis
      unfolding Setreuid do_id_op.simps setreuid_def by (rule two) (rule id_calls_within, assumption)+
  next
    case (Setregid r i)
    show ?thesis
      unfolding Setregid do_id_op.simps setregid_def by (rule two) (rule id_calls_within, assumption)+
  next
    case (Setuid i)
    show ?thesis unfolding Setuid do_id_op.simps by (rule id_call_within [OF s, of "setuid i"], rule ic)
  next
    case (Seteuid i)
    show ?thesis unfolding Seteuid do_id_op.simps by (rule id_call_within [OF s, of "seteuid i"], rule ic)
  next
    case (Setgid i)
    show ?thesis unfolding Setgid do_id_op.simps by (rule id_call_within [OF s, of "setgid i"], rule ic)
  next
    case (Setegid i)
    show ?thesis unfolding Setegid do_id_op.simps by (rule id_call_within [OF s, of "setegid i"], rule ic)
  next
    case (Setresuid i j k)
    show ?thesis unfolding Setresuid do_id_op.simps by (rule id_call_within [OF s, of "setresuid i j k"], rule ic)
  next
    case (Setresgid i j k)
    show ?thesis unfolding Setresgid do_id_op.simps by (rule id_call_within [OF s, of "setresgid i j k"], rule ic)
  qed
qed

lemma id_ops_within:
  assumes "current_process s \<noteq> 0" "procs s (current_process s) = Some c" "0 \<notin> user_ids c"
  shows "\<exists>s1. do_id_ops xs s = Some s1 \<and> within_step s c s1"
  using assms
proof (induction xs arbitrary: s c)
  case Nil
  then show ?case by (simp add: within_step_refl)
next
  case (Cons x xs)
  obtain r s1 where 1: "do_id_op x s = Some (r, s1)" "within_step s c s1"
    using id_op_within [OF Cons.prems] by blast
  obtain c1 where c1: "s1 = set_proc (current_process s) c1 s" "ids_within c c1"
    using 1(2) by (auto simp: within_step_def)
  obtain s2 where 2: "do_id_ops xs s1 = Some s2" "within_step s1 c1 s2"
    using Cons.IH [of s1 c1] c1 Cons.prems by (auto simp: ids_within_def)
  have "within_step s c s2"
    by (rule within_step_trans [OF 1(2)]) (use 2(2) c1 in simp)
  then show ?case using 1 2 by simp
qed

text \<open>
  C27. No privilege gain: a process none of whose user ids is 0 can make any sequence of the id
  calls; each of them returns, its user ids stay among the three it had and so do its group ids, in
  particular it never becomes root; nothing else of the process and no other process changes.
\<close>

theorem no_privilege_gain:
  assumes "current_process s \<noteq> 0" "procs s (current_process s) = Some c" "0 \<notin> {uid c, euid c, suid c}"
  shows "\<exists>s1 c1. do_id_ops xs s = Some s1 \<and> s1 = set_proc (current_process s) c1 s \<and>
     {uid c1, euid c1, suid c1} \<subseteq> {uid c, euid c, suid c} \<and> {gid c1, egid c1, sgid c1} \<subseteq> {gid c, egid c, sgid c} \<and>
     euid c1 \<noteq> 0 \<and> no_ids c1 = no_ids c"
proof -
  obtain s1 where "do_id_ops xs s = Some s1" "within_step s c s1"
    using id_ops_within [OF assms(1,2), of xs] assms(3) by (auto simp: user_ids_def)
  then obtain c1 where 1: "do_id_ops xs s = Some s1" "s1 = set_proc (current_process s) c1 s" "ids_within c c1"
    by (auto simp: within_step_def)
  have "euid c1 \<in> {uid c, euid c, suid c}" using 1(3) by (simp add: ids_within_def user_ids_def)
  then have "euid c1 \<noteq> 0" using assms(3) by metis
  with 1 show ?thesis
    unfolding ids_within_def user_ids_def group_ids_def by (intro exI [of _ s1] exI [of _ c1] conjI) simp_all
qed

definition demo_user :: process where
  "demo_user = demo_proc\<lparr>uid := 7, euid := 8, suid := 9\<rparr>"

lemma no_privilege_gain_witness:
  "\<exists>s1 c1. do_id_ops [Setreuid 7 8, Setresuid 9 7 (- 1), Setuid 0] (set_proc 0x100 demo_user demo_kst) = Some s1 \<and>
     s1 = set_proc 0x100 c1 (set_proc 0x100 demo_user demo_kst) \<and>
     {uid c1, euid c1, suid c1} \<subseteq> {7, 8, 9} \<and> {gid c1, egid c1, sgid c1} \<subseteq> {gid demo_proc, egid demo_proc, sgid demo_proc} \<and>
     euid c1 \<noteq> 0 \<and> no_ids c1 = no_ids demo_user"
proof -
  have c: "current_process (set_proc 0x100 demo_user demo_kst) = 0x100" by (simp add: demo_kst_def)
  have d: "uid demo_user = 7" "euid demo_user = 8" "suid demo_user = 9" "gid demo_user = gid demo_proc"
    "egid demo_user = egid demo_proc" "sgid demo_user = sgid demo_proc"
    by (simp_all add: demo_user_def)
  show ?thesis
    by (rule no_privilege_gain [of "set_proc 0x100 demo_user demo_kst" demo_user, unfolded c d]) simp_all
qed

subsection \<open>Root\<close>

text \<open>With effective user id 0 \<open>setresuid\<close> sets any three ids (other than -1).\<close>

lemma root_sets_ids:
  assumes "euid c = 0" "r \<noteq> - 1" "e \<noteq> - 1" "v \<noteq> - 1"
  shows "setresuid r e v c = (0, c\<lparr>uid := r, euid := e, suid := v\<rparr>)"
  using assms by (simp add: setresuid_def)

text \<open>
  \<open>setreuid(r, 0)\<close> by root: the call through \<open>setuid\<close> gives up all three ids, then \<open>seteuid\<close>
  fails; the call returns -1 and the process is no longer root.
\<close>

lemma root_setreuid_drops:
  assumes "current_process s \<noteq> 0" "procs s (current_process s) = Some c" "euid c = 0" "r \<noteq> 0" "r \<noteq> - 1"
  shows "setreuid r 0 s = Some (-1, set_proc (current_process s) (c\<lparr>uid := r, euid := r, suid := r\<rparr>) s)"
  using assms by (simp add: setreuid_def id_call_def setuid_def seteuid_def set_proc_def)

lemma setuid_permanent: "setuid i c = (0, c1) \<Longrightarrow> user_ids c1 = {i}"
  by (auto simp: setuid_def user_ids_def split: if_splits)

text \<open>\<open>initgroups\<close> has no check: with it every process sets the groups that \<open>setgroups\<close> refuses it.\<close>

lemma initgroups_unchecked:
  assumes "euid c \<noteq> 0" "supplementary_groups u \<noteq> []"
  shows "setgroups n m (Some c) u = (-1, u)"
    and "fst (initgroups name g u) = 0"
    and "getgroups 1 [x] (snd (initgroups name g u)) = (1, [g])"
  using assms by (cases "supplementary_groups u"; simp add: setgroups_def initgroups_def getgroups_def)+

lemma setgroups_getgroups:
  assumes "euid c = 0" "n \<le> MAX_GROUPS" "0 < n"
  shows "getgroups (int n) buf (snd (setgroups n m (Some c) u)) = (int n, map m [0..<n] @ drop n buf)"
  using assms by (simp add: setgroups_def getgroups_def)

end
