(* ===== verification/Net_Bytes.thy ===== *)
theory Net_Bytes
  imports Prelude
begin

text \<open>
  What the parts of the network stack share: the bytes of 16 and 32 bit fields in memory (the
  processor is little endian), the byte order conversions, the headers of \<open>net.h\<close> as bytes, and
  the Internet checksum, which the code has four times: \<open>checksum\<close> of \<open>net.cpp\<close>,
  \<open>net_checksum\<close> of \<open>net_stack.cpp\<close> with its early folding, \<open>tcp_checksum\<close> of \<open>tcp.cpp\<close> and the
  byte swapped loop of \<open>udp.cpp\<close>. All are \<open>ones_sum\<close>, the sum modulo 65535.
\<close>

subsection \<open>Fields in memory\<close>

definition bytes16 :: "u16 \<Rightarrow> u8 list" where
  "bytes16 w = [ucast w, ucast (drop_bit 8 w)]"

definition bytes32 :: "u32 \<Rightarrow> u8 list" where
  "bytes32 w = [ucast w, ucast (drop_bit 8 w), ucast (drop_bit 16 w), ucast (drop_bit 24 w)]"

text \<open>A packet is the memory behind a pointer: reading past its end gives what lies there.\<close>

type_synonym mem = "nat \<Rightarrow> u8"

definition rd16 :: "mem \<Rightarrow> nat \<Rightarrow> u16" where
  "rd16 m i = ucast (m i) OR push_bit 8 (ucast (m (i + 1)))"

definition rd32 :: "mem \<Rightarrow> nat \<Rightarrow> u32" where
  "rd32 m i = ucast (m i) OR push_bit 8 (ucast (m (i + 1))) OR push_bit 16 (ucast (m (i + 2))) OR
     push_bit 24 (ucast (m (i + 3)))"

definition rd_bytes :: "mem \<Rightarrow> nat \<Rightarrow> nat \<Rightarrow> u8 list" where
  "rd_bytes m i n = map m [i ..< i + n]"

text \<open>The memory that starts with the bytes \<open>xs\<close> and goes on with \<open>rest\<close>.\<close>

definition mem_of :: "u8 list \<Rightarrow> mem \<Rightarrow> mem" where
  "mem_of xs rest = (\<lambda>i. if i < length xs then xs ! i else rest (i - length xs))"

subsection \<open>Byte order\<close>

definition htons :: "u16 \<Rightarrow> u16" where
  "htons x = push_bit 8 x OR drop_bit 8 x"

definition htonl :: "u32 \<Rightarrow> u32" where
  "htonl x = push_bit 24 (x AND 0xFF) OR push_bit 8 (x AND 0xFF00) OR drop_bit 8 (x AND 0xFF0000) OR
     drop_bit 24 (x AND 0xFF000000)"

subsection \<open>Checksums\<close>

text \<open>\<open>while (sum >> 16) sum = (sum & 0xFFFF) + (sum >> 16)\<close>.\<close>

lemma unat_drop16: "unat (drop_bit 16 (s :: u32)) = unat s div 65536"
  by (simp add: drop_bit_eq_div unat_div)

lemma fold_step_less:
  fixes s :: u32
  assumes "drop_bit 16 s \<noteq> 0"
  shows "unat ((s AND 0xFFFF) + drop_bit 16 s) < unat s"
    and "unat ((s AND 0xFFFF) + drop_bit 16 s) = unat s mod 65536 + unat s div 65536"
proof -
  have l: "unat (s AND 0xFFFF) = unat s mod 65536"
    using unat_and_mask [of s 16] by (simp add: mask_eq_exp_minus_1)
  have h: "unat (drop_bit 16 s) = unat s div 65536" by (rule unat_drop16)
  have b: "unat s < 4294967296" by (rule unat_u32_bound)
  have "unat s div 65536 < 65536" using b by auto
  then have "unat s mod 65536 + unat s div 65536 < 4294967296"
    using mod_less_divisor [of 65536 "unat s"] by linarith
  then show e: "unat ((s AND 0xFFFF) + drop_bit 16 s) = unat s mod 65536 + unat s div 65536"
    using l h by (subst unat_add_small) simp_all
  have "unat s div 65536 \<noteq> 0" using assms h by (metis unat_eq_zero)
  then show "unat ((s AND 0xFFFF) + drop_bit 16 s) < unat s"
    unfolding e using div_mult_mod_eq [of "unat s" 65536] by linarith
qed

function fold16 :: "u32 \<Rightarrow> u32" where
  "fold16 s = (if drop_bit 16 s \<noteq> 0 then fold16 ((s AND 0xFFFF) + drop_bit 16 s) else s)"
  by pat_completeness auto

termination fold16
  by (relation "measure unat", rule wf_measure, simp only: in_measure, rule fold_step_less(1))

declare fold16.simps [simp del]

definition word_at :: "u8 \<Rightarrow> u8 \<Rightarrow> u32" where
  "word_at a b = ucast a + 256 * ucast b"

text \<open>The loop of \<open>net_checksum\<close>: a sum of at least \<open>2^31\<close> is folded once.\<close>

fun net_sum :: "u32 \<Rightarrow> u8 list \<Rightarrow> u32" where
  "net_sum acc (a # b # xs) =
     (let s = acc + word_at a b
      in net_sum (if s AND 0x80000000 \<noteq> 0 then (s AND 0xFFFF) + drop_bit 16 s else s) xs)"
| "net_sum acc [a] = acc + ucast a"
| "net_sum acc [] = acc"

definition net_checksum :: "u8 list \<Rightarrow> u16" where
  "net_checksum xs = ucast (NOT (fold16 (net_sum 0 xs)))"

text \<open>The loop of \<open>checksum\<close>, and the loops of \<open>tcp_checksum\<close>.\<close>

fun plain_sum :: "u32 \<Rightarrow> u8 list \<Rightarrow> u32" where
  "plain_sum acc (a # b # xs) = plain_sum (acc + word_at a b) xs"
| "plain_sum acc [a] = acc + ucast a"
| "plain_sum acc [] = acc"

definition checksum :: "u8 list \<Rightarrow> u16" where
  "checksum xs = ucast (NOT (fold16 (plain_sum 0 xs)))"

definition pseudo_header :: "u32 \<Rightarrow> u32 \<Rightarrow> u8 \<Rightarrow> u16 \<Rightarrow> u8 list" where
  "pseudo_header src dst proto len = bytes32 src @ bytes32 dst @ [0, proto] @ bytes16 len"

definition tcp_checksum :: "u32 \<Rightarrow> u32 \<Rightarrow> u8 list \<Rightarrow> u16 \<Rightarrow> u16" where
  "tcp_checksum src dst seg tcp_len =
     ucast (NOT (fold16 (plain_sum (plain_sum 0 (pseudo_header src dst 6 (htons tcp_len))) (take (unat tcp_len) seg))))"

text \<open>\<open>tcp_checksum\<close> of \<open>net_stack.cpp\<close>: a copy of both in one buffer; \<open>None\<close> is a failing \<open>kmalloc\<close>.\<close>

definition ns_tcp_checksum :: "bool \<Rightarrow> u32 \<Rightarrow> u32 \<Rightarrow> u8 list \<Rightarrow> u16 \<Rightarrow> u16" where
  "ns_tcp_checksum mem_ok src dst seg tcp_len =
     (if mem_ok then net_checksum (pseudo_header src dst 6 (htons tcp_len) @ take (unat tcp_len) seg) else 0)"

text \<open>The loops of \<open>udp_checksum\<close>: every 16 bit word is swapped, and an odd byte is shifted up.\<close>

fun swapped_sum :: "u32 \<Rightarrow> u8 list \<Rightarrow> u32" where
  "swapped_sum acc (a # b # xs) = swapped_sum (acc + word_at b a) xs"
| "swapped_sum acc [a] = acc + push_bit 8 (ucast a)"
| "swapped_sum acc [] = acc"

definition udp_checksum :: "u32 \<Rightarrow> u32 \<Rightarrow> u8 list \<Rightarrow> u8 list \<Rightarrow> u16 \<Rightarrow> u16" where
  "udp_checksum src dst hdr payload udp_len =
     htons (ucast (NOT (fold16 (swapped_sum (swapped_sum (swapped_sum 0 (pseudo_header src dst 17 udp_len)) hdr) payload))))"

subsection \<open>Reading back what was written\<close>

lemma bytes_lengths [simp]: "length (bytes16 w) = 2" "length (bytes32 v) = 4"
  by (simp_all add: bytes16_def bytes32_def)

lemma bytes16_join: "ucast (ucast w :: u8) OR push_bit 8 (ucast (ucast (drop_bit 8 w) :: u8)) = (w :: u16)"
  by (rule bit_word_eqI) (auto simp: bit_simps)

lemma byte_cases:
  fixes n :: nat
  assumes "n < 32"
  obtains j where "j < 8" "n = j" | j where "j < 8" "n = j + 8" | j where "j < 8" "n = j + 16" | j where "j < 8" "n = j + 24"
proof -
  have "n < 8 \<or> n - 8 < 8 \<and> n = (n - 8) + 8 \<or> n - 16 < 8 \<and> n = (n - 16) + 16 \<or> n - 24 < 8 \<and> n = (n - 24) + 24"
    using assms by linarith
  then show thesis using that by blast
qed

lemma bytes32_join:
  "ucast (ucast w :: u8) OR push_bit 8 (ucast (ucast (drop_bit 8 w) :: u8)) OR
   push_bit 16 (ucast (ucast (drop_bit 16 w) :: u8)) OR push_bit 24 (ucast (ucast (drop_bit 24 w) :: u8)) = (w :: u32)"
proof (rule bit_word_eqI)
  fix n assume "n < LENGTH(32)"
  then have n: "n < 32" by simp
  from n show "bit (ucast (ucast w :: u8) OR push_bit 8 (ucast (ucast (drop_bit 8 w) :: u8)) OR
     push_bit 16 (ucast (ucast (drop_bit 16 w) :: u8)) OR push_bit 24 (ucast (ucast (drop_bit 24 w) :: u8)) :: u32) n = bit w n"
    by (cases n rule: byte_cases) (simp_all add: bit_simps add.commute)
qed

lemma rd16_bytes:
  assumes "m i = ucast w" "m (i + 1) = ucast (drop_bit 8 w)"
  shows "rd16 m i = w"
  using bytes16_join [of w] assms by (simp add: rd16_def)

lemma rd32_bytes:
  assumes "m i = ucast w" "m (i + 1) = ucast (drop_bit 8 w)" "m (i + 2) = ucast (drop_bit 16 w)"
    "m (i + 3) = ucast (drop_bit 24 w)"
  shows "rd32 m i = w"
  using bytes32_join [of w] assms by (simp add: rd32_def)

lemma htons_htons [simp]: "htons (htons x) = x"
  by (rule bit_word_eqI) (auto simp: htons_def bit_simps)

lemma htonl_bit:
  assumes "n < 32"
  shows "bit (htonl x) n = bit x (if n < 8 then n + 24 else if n < 16 then n + 8 else if n < 24 then n - 8 else n - 24)"
proof -
  have m: "(0xFF :: u32) = mask 8" "(0xFF00 :: u32) = push_bit 8 (mask 8)" "(0xFF0000 :: u32) = push_bit 16 (mask 8)"
    "(0xFF000000 :: u32) = push_bit 24 (mask 8)"
    by (simp_all add: mask_eq_exp_minus_1 push_bit_eq_mult)
  show ?thesis
    unfolding htonl_def m using assms by (cases n rule: byte_cases) (simp_all add: bit_simps add.commute)
qed

lemma htonl_htonl [simp]: "htonl (htonl x) = x"
proof (rule bit_word_eqI)
  fix n assume "n < LENGTH(32)"
  then have n: "n < 32" by simp
  then show "bit (htonl (htonl x)) n = bit x n"
    by (cases n rule: byte_cases) (simp_all add: htonl_bit add.commute)
qed

subsection \<open>What the checksum is\<close>

text \<open>The sum of the 16 bit words of the data, an odd byte at the end counting as it is.\<close>

fun ones_sum :: "u8 list \<Rightarrow> nat" where
  "ones_sum (a # b # xs) = unat a + 256 * unat b + ones_sum xs"
| "ones_sum [a] = unat a"
| "ones_sum [] = 0"

definition ones_norm :: "nat \<Rightarrow> nat" where
  "ones_norm n = (if n = 0 then 0 else (n - 1) mod 65535 + 1)"

definition rfc_checksum :: "u8 list \<Rightarrow> u16" where
  "rfc_checksum xs = of_nat (65535 - ones_norm (ones_sum xs))"

lemma ones_norm_bound: "ones_norm n \<le> 65535"
proof -
  have "(n - 1) mod 65535 < 65535" by simp
  then have "(n - 1) mod 65535 + 1 \<le> 65535" by linarith
  then show ?thesis unfolding ones_norm_def by (cases "n = 0") simp_all
qed

lemma ones_norm_id: "n < 65536 \<Longrightarrow> ones_norm n = n"
  by (cases "n = 0") (simp_all add: ones_norm_def)

lemma ones_norm_cong:
  assumes "n mod 65535 = m mod 65535" "0 < n" "0 < m"
  shows "ones_norm n = ones_norm m"
proof -
  have "(n - 1) mod 65535 = (m - 1) mod 65535"
  proof (cases "n \<le> m")
    case True
    then have "(65535 :: nat) dvd (m - n)" using assms(1) by (metis mod_eq_dvd_iff_nat)
    moreover have "m - n = (m - 1) - (n - 1)" using assms True by simp
    ultimately show ?thesis using True by (metis mod_eq_dvd_iff_nat diff_le_mono)
  next
    case False
    then have "(65535 :: nat) dvd (n - m)" using assms(1) by (metis mod_eq_dvd_iff_nat nat_le_linear)
    moreover have "n - m = (n - 1) - (m - 1)" using assms False by simp
    ultimately show ?thesis using False by (metis mod_eq_dvd_iff_nat diff_le_mono nat_le_linear)
  qed
  then show ?thesis using assms by (simp add: ones_norm_def)
qed

lemma fold_step_mod: "(n mod 65536 + n div 65536) mod 65535 = n mod (65535 :: nat)"
proof -
  have "n = n div 65536 * 65535 + (n mod 65536 + n div 65536)"
    using div_mult_mod_eq [of n 65536] by linarith
  then show ?thesis by (metis mod_mult_self3)
qed

lemma unat_fold16: "unat (fold16 s) = ones_norm (unat s)"
proof (induction s rule: fold16.induct)
  case (1 s)
  show ?case
  proof (cases "drop_bit 16 s = 0")
    case True
    then have "unat s div 65536 = 0" using unat_drop16 [of s] by simp
    then have "unat s < 65536" by simp
    then show ?thesis using True by (simp add: fold16.simps ones_norm_id)
  next
    case False
    have e: "unat ((s AND 0xFFFF) + drop_bit 16 s) = unat s mod 65536 + unat s div 65536"
      by (rule fold_step_less(2) [OF False])
    have p: "0 < unat s" using False by (metis drop_bit_of_0 gr_zeroI unat_eq_zero)
    have "0 < unat s mod 65536 + unat s div 65536"
      using p by (metis add_is_0 div_mult_mod_eq gr_zeroI mult_is_0)
    then have "ones_norm (unat s mod 65536 + unat s div 65536) = ones_norm (unat s)"
      using p by (intro ones_norm_cong fold_step_mod)
    then show ?thesis using 1 [OF False] False e by (subst fold16.simps) simp
  qed
qed

lemma unat_ucast_mod: "unat (ucast w :: 'b::len word) = unat (w :: 'a::len word) mod 2 ^ LENGTH('b)"
  by (simp only: unsigned_ucast_eq take_bit_eq_mod)

lemma unat_word_at: "unat (word_at a b) = unat a + 256 * unat b"
proof -
  have b: "unat a < 256" "unat b < 256" using unsigned_less [of a, where 'a = nat] unsigned_less [of b, where 'a = nat] by simp_all
  have 1: "unat (256 * ucast b :: u32) = 256 * unat b"
    using b by (simp add: unat_word_ariths unat_ucast_mod)
  show ?thesis unfolding word_at_def using b 1 by (subst unat_add_small) (simp_all add: unat_ucast_mod)
qed

lemma ones_sum_bound: "ones_sum xs \<le> 65535 * ((length xs + 1) div 2)"
proof (induction xs rule: ones_sum.induct)
  case (1 a b xs)
  have "unat a < 256" "unat b < 256" using unsigned_less [of a, where 'a = nat] unsigned_less [of b, where 'a = nat] by simp_all
  then show ?case using 1 by simp
next
  case (2 a)
  have "unat a < 256" using unsigned_less [of a, where 'a = nat] by simp
  then show ?case by simp
qed simp

lemma ones_sum_append: "even (length xs) \<Longrightarrow> ones_sum (xs @ ys) = ones_sum xs + ones_sum ys"
  by (induction xs rule: ones_sum.induct) simp_all

lemma ones_sum_bytes16: "ones_sum (bytes16 w) = unat w"
proof -
  have "unat (drop_bit 8 w) = unat w div 256" by (simp add: drop_bit_eq_div unat_div)
  moreover have "unat w < 65536" using unsigned_less [of w, where 'a = nat] by simp
  ultimately show ?thesis
    by (simp add: bytes16_def unat_ucast_mod)
qed

lemma plain_sum_append: "even (length xs) \<Longrightarrow> plain_sum acc (xs @ ys) = plain_sum (plain_sum acc xs) ys"
  by (induction acc xs rule: plain_sum.induct) simp_all

lemma swapped_sum_append: "even (length xs) \<Longrightarrow> swapped_sum acc (xs @ ys) = swapped_sum (swapped_sum acc xs) ys"
  by (induction acc xs rule: swapped_sum.induct) simp_all

text \<open>The plain loop does not wrap for up to 131072 bytes.\<close>

lemma unat_plain_sum:
  "unat acc + ones_sum xs < 4294967296 \<Longrightarrow> unat (plain_sum acc xs) = unat acc + ones_sum xs"
proof (induction acc xs rule: plain_sum.induct)
  case (1 acc a b xs)
  have "unat (acc + word_at a b) = unat acc + (unat a + 256 * unat b)"
    using 1(2) by (subst unat_add_small) (simp_all add: unat_word_at)
  then show ?case using 1 by simp
next
  case (2 acc a)
  then show ?case by (simp add: unat_add_small unat_ucast_mod)
qed simp

lemma ucast_not_fold:
  "ucast (NOT (fold16 s)) = (of_nat (65535 - ones_norm (unat s)) :: u16)"
proof -
  have b: "unat (fold16 s) \<le> 65535" by (simp add: unat_fold16 ones_norm_bound)
  have n: "NOT (fold16 s) = - 1 - fold16 s" by (simp add: not_eq_complement)
  have "unat (fold16 s) \<le> unat (- 1 :: u32)" using unat_u32_bound [of "fold16 s"] by simp
  then have u: "unat (NOT (fold16 s)) = 4294967295 - unat (fold16 s)"
    unfolding n by (simp only: unat_sub_small unat_m1_u32)
  have "4294967295 - unat (fold16 s) = (65535 - unat (fold16 s)) + 65535 * 65536" using b by simp
  then have "(4294967295 - unat (fold16 s)) mod 65536 = (65535 - unat (fold16 s)) mod 65536"
    by (simp only: mod_mult_self1)
  then have "unat (ucast (NOT (fold16 s)) :: u16) = 65535 - unat (fold16 s)"
    by (simp add: unat_ucast_mod u)
  then show ?thesis using b by (simp add: word_unat_eq_iff unat_of_nat unat_fold16 del: of_nat_diff)
qed

lemma checksum_eq:
  assumes "length xs \<le> 131072"
  shows "checksum xs = rfc_checksum xs"
proof -
  have "ones_sum xs < 4294967296" using ones_sum_bound [of xs] assms by linarith
  then have "unat (plain_sum 0 xs) = ones_sum xs" using unat_plain_sum [of 0 xs] by simp
  then show ?thesis by (simp add: checksum_def rfc_checksum_def ucast_not_fold)
qed

lemma top_bit_iff: "(s :: u32) AND 0x80000000 \<noteq> 0 \<longleftrightarrow> 2147483648 \<le> unat s"
proof -
  have "(0x80000000 :: u32) = 2 ^ 31" by simp
  then have "s AND 0x80000000 \<noteq> 0 \<longleftrightarrow> bit s 31" by (simp only: and_exp_neq_0)
  also have "\<dots> \<longleftrightarrow> bit (unat s) 31" by (simp add: bit_unsigned_iff)
  also have "\<dots> \<longleftrightarrow> odd (unat s div 2147483648)" by (simp add: bit_iff_odd)
  also have "\<dots> \<longleftrightarrow> 2147483648 \<le> unat s"
  proof (cases "2147483648 \<le> unat s")
    case True
    have "unat s div 2147483648 = 1"
      using True unat_u32_bound [of s] by (intro div_nat_eqI) simp_all
    then show ?thesis using True by simp
  qed simp
  finally show ?thesis .
qed

text \<open>The early folding keeps the sum modulo 65535 and never makes it 0, for data of any length.\<close>

lemma net_sum_norm:
  "unat acc < 2147483648 \<Longrightarrow> ones_norm (unat (net_sum acc xs)) = ones_norm (unat acc + ones_sum xs)"
proof (induction acc xs rule: net_sum.induct)
  case (1 acc a b xs)
  define s where "s = acc + word_at a b"
  define t where "t = (if s AND 0x80000000 \<noteq> 0 then (s AND 0xFFFF) + drop_bit 16 s else s)"
  have w: "unat a + 256 * unat b \<le> 65535"
    using unsigned_less [of a, where 'a = nat] unsigned_less [of b, where 'a = nat] by simp
  have s: "unat s = unat acc + (unat a + 256 * unat b)"
    unfolding s_def using 1(2) w by (subst unat_add_small) (simp_all add: unat_word_at)
  have e: "net_sum acc (a # b # xs) = net_sum t xs"
    by (simp add: s_def t_def Let_def)
  have hi: "s AND 0x80000000 \<noteq> 0 \<longleftrightarrow> 2147483648 \<le> unat s" by (rule top_bit_iff)
  have t: "unat t < 2147483648 \<and> ones_norm (unat t + ones_sum xs) = ones_norm (unat s + ones_sum xs)"
  proof (cases "2147483648 \<le> unat s")
    case False
    then show ?thesis using hi by (simp add: t_def)
  next
    case True
    then have d: "drop_bit 16 s \<noteq> 0" using unat_drop16 [of s] by auto
    have u: "unat t = unat s mod 65536 + unat s div 65536"
      using True hi fold_step_less(2) [OF d] by (simp add: t_def)
    have "unat s div 65536 < 65536" using unat_u32_bound [of s] by (simp add: less_mult_imp_div_less)
    then have b: "unat t < 2147483648" using u mod_less_divisor [of 65536 "unat s"] by linarith
    have m: "(unat t + ones_sum xs) mod 65535 = (unat s + ones_sum xs) mod 65535"
      using fold_step_mod [of "unat s"] u by (metis mod_add_left_eq)
    have "0 < unat s div 65536" using True by (simp add: div_greater_zero_iff)
    then show ?thesis using b m True u by (intro conjI ones_norm_cong) simp_all
  qed
  show ?case
    using 1(1) [OF s_def, folded t_def] t s unfolding e by (simp add: add.assoc)
next
  case (2 acc a)
  have "unat a < 256" using unsigned_less [of a, where 'a = nat] by simp
  then show ?case using 2 by (simp add: unat_add_small unat_ucast_mod)
qed simp

lemma net_checksum_eq: "net_checksum xs = rfc_checksum xs"
  using net_sum_norm [of 0 xs] by (simp add: net_checksum_def rfc_checksum_def ucast_not_fold)

lemma pseudo_length [simp]: "length (pseudo_header src dst p n) = 12"
  by (simp add: pseudo_header_def)

lemma tcp_checksum_eq:
  "tcp_checksum src dst seg n = rfc_checksum (pseudo_header src dst 6 (htons n) @ take (unat n) seg)"
proof -
  have "unat n < 65536" using unsigned_less [of n, where 'a = nat] by simp
  then have "length (pseudo_header src dst 6 (htons n) @ take (unat n) seg) \<le> 131072" by simp
  from checksum_eq [OF this] show ?thesis
    by (simp add: checksum_def tcp_checksum_def plain_sum_append)
qed

lemma ns_tcp_checksum_eq: "ns_tcp_checksum True src dst seg n = tcp_checksum src dst seg n"
  by (simp add: ns_tcp_checksum_def net_checksum_eq tcp_checksum_eq)

text \<open>Swapping the bytes of every word and of the result gives the same checksum.\<close>

fun swap_ones :: "u8 list \<Rightarrow> nat" where
  "swap_ones (a # b # xs) = unat b + 256 * unat a + swap_ones xs"
| "swap_ones [a] = 256 * unat a"
| "swap_ones [] = 0"

lemma swap_word_mod: "(b + 256 * a) mod 65535 = (256 * (a + 256 * b)) mod (65535 :: nat)"
proof -
  have "256 * (a + 256 * b) = (b + 256 * a) + 65535 * b" by simp
  then show ?thesis by (metis mod_mult_self2)
qed

lemma swap_ones_mod: "swap_ones xs mod 65535 = (256 * ones_sum xs) mod 65535"
proof (induction xs rule: swap_ones.induct)
  case (1 a b xs)
  have "swap_ones (a # b # xs) mod 65535 = ((unat b + 256 * unat a) mod 65535 + swap_ones xs mod 65535) mod 65535"
    by (simp only: swap_ones.simps mod_add_eq)
  also have "\<dots> = ((256 * (unat a + 256 * unat b)) mod 65535 + (256 * ones_sum xs) mod 65535) mod 65535"
    by (simp only: 1 swap_word_mod)
  also have "\<dots> = (256 * ones_sum (a # b # xs)) mod 65535"
    by (simp only: mod_add_eq ones_sum.simps add_mult_distrib2)
  finally show ?case .
qed simp_all

lemma swap_ones_0: "swap_ones xs = 0 \<longleftrightarrow> ones_sum xs = 0"
  by (induction xs rule: swap_ones.induct) auto

lemma swap_ones_bound: "swap_ones xs \<le> 65535 * ((length xs + 1) div 2)"
proof (induction xs rule: swap_ones.induct)
  case (1 a b xs)
  have "unat a < 256" "unat b < 256" using unsigned_less [of a, where 'a = nat] unsigned_less [of b, where 'a = nat] by simp_all
  then show ?case using 1 by simp
next
  case (2 a)
  have "unat a < 256" using unsigned_less [of a, where 'a = nat] by simp
  then show ?case by simp
qed simp

lemma unat_swapped_sum:
  "unat acc + swap_ones xs < 4294967296 \<Longrightarrow> unat (swapped_sum acc xs) = unat acc + swap_ones xs"
proof (induction acc xs rule: swapped_sum.induct)
  case (1 acc a b xs)
  have "unat (acc + word_at b a) = unat acc + (unat b + 256 * unat a)"
    using 1(2) by (subst unat_add_small) (simp_all add: unat_word_at)
  then show ?case using 1 by simp
next
  case (2 acc a)
  have a: "unat a < 256" using unsigned_less [of a, where 'a = nat] by simp
  have "push_bit 8 (ucast a) = (256 * ucast a :: u32)" by (simp add: push_bit_eq_mult)
  moreover have "unat (256 * ucast a :: u32) = 256 * unat a"
    using a by (simp add: unat_word_ariths unat_ucast_mod)
  ultimately show ?case using 2 by (simp add: unat_add_small)
qed simp

lemma unat_htons: "unat (htons w) = 256 * (unat w mod 256) + unat w div 256"
proof -
  have w: "unat w < 65536" using unsigned_less [of w, where 'a = nat] by simp
  have lo: "unat (push_bit 8 w) = 256 * (unat w mod 256)"
  proof -
    have "push_bit 8 w = 256 * w" by (simp add: push_bit_eq_mult)
    then have "unat (push_bit 8 w) = (256 * unat w) mod 65536" by (simp add: unat_word_ariths)
    also have "\<dots> = 256 * (unat w mod 256)" using mod_mult_mult1 [of 256 "unat w" 256] by simp
    finally show ?thesis .
  qed
  have hi: "unat (drop_bit 8 w) = unat w div 256" by (simp add: drop_bit_eq_div unat_div)
  have "push_bit 8 w AND drop_bit 8 w = 0"
    by (rule bit_word_eqI) (auto simp: bit_simps dest: bit_imp_le_length)
  then have "htons w = push_bit 8 w + drop_bit 8 w"
    unfolding htons_def by (rule disjunctive_add_eq_or [symmetric])
  moreover have "256 * (unat w mod 256) + unat w div 256 < 65536"
    using w mod_less_divisor [of 256 "unat w"] by (auto simp: less_mult_imp_div_less)
  ultimately show ?thesis by (simp add: unat_add_small lo hi)
qed

definition swap16 :: "nat \<Rightarrow> nat" where
  "swap16 r = 256 * (r mod 256) + r div 256"

lemma swap16_norm: "r < 65536 \<Longrightarrow> swap16 r = ones_norm (256 * r)"
proof -
  assume r: "r < 65536"
  have b: "swap16 r < 65536"
    using r mod_less_divisor [of 256 r] by (auto simp: swap16_def less_mult_imp_div_less)
  have "256 * r = swap16 r + 65535 * (r div 256)"
    using div_mult_mod_eq [of r 256] unfolding swap16_def by linarith
  then have m: "swap16 r mod 65535 = (256 * r) mod 65535" by (metis mod_mult_self2)
  have z: "swap16 r = 0 \<longleftrightarrow> r = 0"
    unfolding swap16_def using div_mult_mod_eq [of r 256] by auto
  have "swap16 r = ones_norm (swap16 r)" using b by (simp add: ones_norm_id)
  also have "\<dots> = ones_norm (256 * r)"
    using z m by (cases "r = 0") (auto intro: ones_norm_cong)
  finally show ?thesis .
qed

lemma ones_norm_mod: "ones_norm n mod 65535 = n mod 65535"
proof (cases "n = 0")
  case False
  have "((n - 1) mod 65535 + 1) mod 65535 = ((n - 1) + 1) mod 65535" by (rule mod_add_left_eq)
  then show ?thesis using False by (simp add: ones_norm_def)
qed (simp add: ones_norm_def)

lemma ones_norm_pos: "0 < ones_norm n \<longleftrightarrow> 0 < n"
  by (simp add: ones_norm_def)

lemma htons_complement:
  assumes "r \<le> 65535"
  shows "htons (of_nat (65535 - r)) = (of_nat (65535 - swap16 r) :: u16)"
proof -
  have r: "unat (of_nat (65535 - r) :: u16) = 65535 - r" using assms by (simp add: unat_of_nat del: of_nat_diff)
  have d: "65535 - r = 256 * (255 - r div 256) + (255 - r mod 256)"
  proof -
    have "r div 256 \<le> 255" "r mod 256 \<le> 255"
      using assms mod_less_divisor [of 256 r] by auto
    then show ?thesis using div_mult_mod_eq [of r 256] by (simp add: diff_mult_distrib2)
  qed
  have x: "255 - r mod 256 < 256" by simp
  have "(65535 - r) mod 256 = 255 - r mod 256" "(65535 - r) div 256 = 255 - r div 256"
    unfolding d by (simp_all only: mod_mult_self4 mod_less [OF x] div_mult_self4 zero_neq_numeral not_False_eq_True div_less [OF x] add_0_right)
  then have "unat (htons (of_nat (65535 - r))) = 256 * (255 - r mod 256) + (255 - r div 256)"
    by (simp add: unat_htons r)
  also have "\<dots> = 65535 - swap16 r"
  proof -
    have "r div 256 \<le> 255" "r mod 256 \<le> 255"
      using assms mod_less_divisor [of 256 r] by auto
    then show ?thesis by (simp add: swap16_def diff_mult_distrib2)
  qed
  finally show ?thesis by (simp add: word_unat_eq_iff unat_of_nat del: of_nat_diff)
qed

lemma udp_checksum_eq:
  assumes "even (length hdr)" "length hdr + length payload \<le> 131000"
  shows "udp_checksum src dst hdr payload n = rfc_checksum (pseudo_header src dst 17 n @ hdr @ payload)"
proof -
  let ?xs = "pseudo_header src dst 17 n @ hdr @ payload"
  have "swap_ones ?xs < 4294967296"
    using swap_ones_bound [of ?xs] assms(2) by simp
  then have s: "unat (swapped_sum 0 ?xs) = swap_ones ?xs" using unat_swapped_sum [of 0 ?xs] by simp
  have e: "swapped_sum (swapped_sum (swapped_sum 0 (pseudo_header src dst 17 n)) hdr) payload = swapped_sum 0 ?xs"
    using assms(1) by (simp add: swapped_sum_append)
  have "swap16 (ones_norm (swap_ones ?xs)) = ones_norm (256 * ones_norm (swap_ones ?xs))"
    using ones_norm_bound [of "swap_ones ?xs"] by (intro swap16_norm) simp
  also have "\<dots> = ones_norm (ones_sum ?xs)"
  proof (cases "ones_sum ?xs = 0")
    case True
    then show ?thesis using swap_ones_0 [of ?xs] by (simp add: ones_norm_def)
  next
    case False
    have "(256 * ones_norm (swap_ones ?xs)) mod 65535 = (256 * swap_ones ?xs) mod 65535"
      by (metis ones_norm_mod mod_mult_right_eq)
    also have "\<dots> = (256 * (256 * ones_sum ?xs)) mod 65535" by (metis swap_ones_mod mod_mult_right_eq)
    also have "\<dots> = (ones_sum ?xs + 65535 * ones_sum ?xs) mod 65535" by simp
    finally have "(256 * ones_norm (swap_ones ?xs)) mod 65535 = ones_sum ?xs mod 65535"
      by (simp only: mod_mult_self2)
    moreover have "0 < ones_norm (swap_ones ?xs)" using False swap_ones_0 [of ?xs] by (simp add: ones_norm_pos)
    ultimately show ?thesis using False by (intro ones_norm_cong) simp_all
  qed
  finally show ?thesis
    by (simp add: udp_checksum_def e ucast_not_fold s htons_complement ones_norm_bound rfc_checksum_def del: of_nat_diff)
qed

text \<open>A checksum field that was 0 when the checksum was taken makes the data sum to zero.\<close>

lemma rfc_checksum_verifies:
  assumes "even (length xs)"
  shows "rfc_checksum (xs @ bytes16 (rfc_checksum (xs @ bytes16 0 @ ys)) @ ys) = 0"
proof -
  let ?S = "ones_sum xs + ones_sum ys"
  have u: "unat (of_nat (65535 - ones_norm ?S) :: u16) = 65535 - ones_norm ?S" by (simp add: unat_of_nat del: of_nat_diff)
  have s: "ones_sum (xs @ bytes16 v @ ys) = ones_sum xs + unat v + ones_sum ys" for v
    using assms by (simp add: ones_sum_append ones_sum_bytes16)
  have f: "rfc_checksum (xs @ bytes16 0 @ ys) = of_nat (65535 - ones_norm ?S)"
    by (simp add: rfc_checksum_def s del: of_nat_diff)
  define T where "T = ones_sum xs + (65535 - ones_norm ?S) + ones_sum ys"
  have T: "T = ?S + (65535 - ones_norm ?S)" by (simp add: T_def)
  have le: "ones_norm ?S \<le> ?S"
    using mod_less_eq_dividend [of "?S - 1" 65535] by (auto simp: ones_norm_def)
  then have "65535 dvd ?S - ones_norm ?S" by (metis mod_eq_dvd_iff_nat ones_norm_mod)
  moreover have "T = (?S - ones_norm ?S) + 65535" using le ones_norm_bound [of ?S] T by simp
  ultimately have "T mod 65535 = 65535 mod 65535" by (simp add: dvd_eq_mod_eq_0)
  moreover have "0 < T"
    using ones_norm_id [of ?S] ones_norm_bound [of ?S] unfolding T by (cases "?S = 0") (auto simp: ones_norm_def)
  ultimately have "ones_norm T = ones_norm 65535" by (intro ones_norm_cong) simp_all
  then have "ones_norm T = 65535" by (simp add: ones_norm_id)
  moreover have "rfc_checksum (xs @ bytes16 (of_nat (65535 - ones_norm ?S)) @ ys) = of_nat (65535 - ones_norm T)"
    by (simp only: rfc_checksum_def s u T_def)
  ultimately show ?thesis by (simp only: f) simp
qed

text \<open>
  C28. The Internet checksum: up to 131072 bytes the plain loop computes the sum of RFC 1071, the
  loop with early folding does so for data of any length, the two TCP versions are that sum over
  the pseudo header and the segment, and so is the byte swapped UDP version; and when the field of
  the checksum was 0 while it was computed, the checksum of the completed data is 0.
\<close>

theorem checksum_verifies:
  assumes "length xs + length ys \<le> 131000" "even (length xs)" "even (length hdr)" "length hdr + length payload \<le> 131000"
  shows "checksum (xs @ ys) = rfc_checksum (xs @ ys) \<and> net_checksum zs = rfc_checksum zs \<and>
    ns_tcp_checksum True src dst seg n = tcp_checksum src dst seg n \<and>
    udp_checksum src dst hdr payload m = checksum (pseudo_header src dst 17 m @ hdr @ payload) \<and>
    checksum (xs @ bytes16 (checksum (xs @ bytes16 0 @ ys)) @ ys) = 0"
  using assms
  by (intro conjI; simp_all add: checksum_eq net_checksum_eq ns_tcp_checksum_eq udp_checksum_eq rfc_checksum_verifies)

lemma checksum_verifies_witness:
  "checksum ([0x45, 0] @ bytes16 (checksum ([0x45, 0] @ bytes16 0 @ [10, 0, 2, 15])) @ [10, 0, 2, 15]) = 0"
  using checksum_verifies [of "[0x45, 0]" "[10, 0, 2, 15]" "[]" "[]"] by simp

end
