(* ===== verification/Net.thy ===== *)
theory Net
  imports Net_Bytes
begin

text \<open>
  The packet layer: \<open>kernel/net.cpp\<close> (sending IP packets, answering ARP requests and pings) and
  \<open>kernel/udp.cpp\<close>. A frame given to \<open>e1000_send\<close> is a list of bytes, and \<open>sent\<close> records them in
  order. A received packet is memory: nothing in the code limits what it reads to the length the
  card reported. A write past the end of one of the frame buffers on the stack is \<open>None\<close>.
  \<open>udp_delivery\<close> is the round trip of a datagram; \<open>ip_send_frame\<close> says what is on the wire;
  \<open>udp_send_overflow\<close>, \<open>ping_overflow\<close> and \<open>ping_reply_checksum\<close> are what goes wrong.
\<close>

subsection \<open>State and headers\<close>

abbreviation ETH_TYPE_ARP :: u16 where "ETH_TYPE_ARP \<equiv> 0x0806"
abbreviation ETH_TYPE_IP :: u16 where "ETH_TYPE_IP \<equiv> 0x0800"
abbreviation IP_PROTO_ICMP :: u8 where "IP_PROTO_ICMP \<equiv> 1"
abbreviation IP_PROTO_UDP :: u8 where "IP_PROTO_UDP \<equiv> 17"
abbreviation UDP_MAX_PORTS :: nat where "UDP_MAX_PORTS \<equiv> 256"
abbreviation UDP_MAX_PACKET :: nat where "UDP_MAX_PACKET \<equiv> 1472"

text \<open>A call of a UDP handler: the handler, source address and port, and the payload it can read.\<close>

record nic =
  sent :: "u8 list list"
  ip_id :: u16
  udp_port_table :: "u32 list"
  udp_calls :: "(u32 \<times> u32 \<times> u16 \<times> u8 list) list"

definition my_mac :: "u8 list" where "my_mac = [0x52, 0x54, 0x00, 0x12, 0x34, 0x56]"
definition my_ip :: u32 where "my_ip = 0x0F02000A"

definition e1000_send :: "u8 list \<Rightarrow> nic \<Rightarrow> nic" where
  "e1000_send f s = s\<lparr>sent := sent s @ [f]\<rparr>"

text \<open>\<open>struct eth_hdr\<close>, \<open>arp_pkt\<close>, \<open>ip_hdr\<close>, \<open>icmp_hdr\<close> and \<open>udp_hdr\<close> as they lie in memory.\<close>

definition eth_hdr :: "u8 list \<Rightarrow> u8 list \<Rightarrow> u16 \<Rightarrow> u8 list" where
  "eth_hdr dst src typ = dst @ src @ bytes16 (htons typ)"

definition arp_pkt :: "u16 \<Rightarrow> u8 list \<Rightarrow> u32 \<Rightarrow> u8 list \<Rightarrow> u32 \<Rightarrow> u8 list" where
  "arp_pkt oper sha spa tha tpa =
     bytes16 (htons 1) @ bytes16 (htons 0x0800) @ [6, 4] @ bytes16 (htons oper) @ sha @ bytes32 spa @ tha @ bytes32 tpa"

definition ip_hdr :: "u16 \<Rightarrow> u16 \<Rightarrow> u8 \<Rightarrow> u16 \<Rightarrow> u32 \<Rightarrow> u32 \<Rightarrow> u8 list" where
  "ip_hdr len ident proto csum src dst =
     [0x45, 0] @ bytes16 (htons len) @ bytes16 (htons ident) @ bytes16 0 @ [64, proto] @ bytes16 csum @ bytes32 src @ bytes32 dst"

definition icmp_hdr :: "u8 \<Rightarrow> u16 \<Rightarrow> u16 \<Rightarrow> u16 \<Rightarrow> u8 list" where
  "icmp_hdr typ csum ident sq = [typ, 0] @ bytes16 csum @ bytes16 ident @ bytes16 sq"

definition udp_hdr :: "u16 \<Rightarrow> u16 \<Rightarrow> u16 \<Rightarrow> u16 \<Rightarrow> u8 list" where
  "udp_hdr src dst len csum = bytes16 src @ bytes16 dst @ bytes16 len @ bytes16 csum"

text \<open>The memory behind \<open>p + k\<close>.\<close>

definition mem_at :: "mem \<Rightarrow> nat \<Rightarrow> mem" where
  "mem_at m k = (\<lambda>i. m (k + i))"

subsection \<open>ARP\<close>

definition send_arp_reply :: "mem \<Rightarrow> nic \<Rightarrow> nic" where
  "send_arp_reply req =
     e1000_send (eth_hdr (rd_bytes req 8 6) my_mac ETH_TYPE_ARP @ arp_pkt 2 my_mac my_ip (rd_bytes req 8 6) (rd32 req 14))"

definition handle_arp :: "mem \<Rightarrow> nic \<Rightarrow> nic" where
  "handle_arp packet s =
     (let arp = mem_at packet 14 in
      if htons (rd16 arp 6) = 1 \<and> rd32 arp 24 = my_ip then send_arp_reply arp s else s)"

subsection \<open>ICMP\<close>

text \<open>\<open>ip\<close> is at offset 14 of the packet; the reply is built in 512 bytes on the stack.\<close>

definition send_icmp_reply :: "mem \<Rightarrow> nat \<Rightarrow> nic \<Rightarrow> nic option" where
  "send_icmp_reply packet data_len s =
     (if 14 + 20 + 8 + data_len > 512 then None
      else let
        ip = mem_at packet 14;
        icmp = mem_at ip 20;
        ip_with = (\<lambda>c. rd_bytes ip 0 10 @ bytes16 c @ bytes32 my_ip @ rd_bytes ip 12 4);
        icmp_with = (\<lambda>c. icmp_hdr 0 c (rd16 icmp 4) (rd16 icmp 6) @ rd_bytes icmp 8 data_len)
      in Some (e1000_send (eth_hdr (rd_bytes packet 6 6) my_mac ETH_TYPE_IP @
                 ip_with (htons (checksum (ip_with 0))) @ icmp_with (htons (checksum (icmp_with 0)))) s))"

definition ip_hdr_len :: "mem \<Rightarrow> int" where
  "ip_hdr_len ip = uint (ip 0 AND 0x0F) * 4"

definition handle_icmp :: "mem \<Rightarrow> nic \<Rightarrow> nic option" where
  "handle_icmp packet s =
     (let ip = mem_at packet 14;
          icmp = mem_at ip 20;
          icmp_total_len = uint (htons (rd16 ip 2)) - ip_hdr_len ip in
      if icmp_total_len < 8 then Some s
      else if icmp 0 = 8 then send_icmp_reply packet (nat (icmp_total_len - 8)) s
      else Some s)"

subsection \<open>Sending IP packets\<close>

definition ip_send :: "u32 \<Rightarrow> u8 \<Rightarrow> mem \<Rightarrow> u16 \<Rightarrow> nic \<Rightarrow> nic option" where
  "ip_send dst_ip protocol data len s =
     (if 14 + 20 + unat len > 1500 then None
      else let
        hdr = (\<lambda>c. ip_hdr (20 + len) (ip_id s) protocol c my_ip dst_ip);
        s1 = s\<lparr>ip_id := ip_id s + 1\<rparr>
      in Some (e1000_send (eth_hdr (replicate 6 0xFF) my_mac ETH_TYPE_IP @ hdr (checksum (hdr 0)) @
                 rd_bytes data 0 (unat len)) s1))"

definition net_ping :: "u32 \<Rightarrow> nic \<Rightarrow> nic" where
  "net_ping target_ip =
     (let hdr = (\<lambda>c. ip_hdr 28 1 IP_PROTO_ICMP c my_ip 0x0202000A);
          icmp = (\<lambda>c. icmp_hdr 8 c (htons 0x1234) (htons 1)) in
      e1000_send (eth_hdr (replicate 6 0xFF) my_mac ETH_TYPE_IP @ hdr (checksum (hdr 0)) @ icmp (checksum (icmp 0))))"

subsection \<open>UDP\<close>

definition udp_bind :: "u16 \<Rightarrow> u32 \<Rightarrow> nic \<Rightarrow> nic" where
  "udp_bind port handler s =
     (if unat port < UDP_MAX_PORTS then s\<lparr>udp_port_table := (udp_port_table s)[unat port := handler]\<rparr> else s)"

definition udp_unbind :: "u16 \<Rightarrow> nic \<Rightarrow> nic" where
  "udp_unbind port s =
     (if unat port < UDP_MAX_PORTS then s\<lparr>udp_port_table := (udp_port_table s)[unat port := 0]\<rparr> else s)"

definition udp_receive :: "u32 \<Rightarrow> u32 \<Rightarrow> mem \<Rightarrow> u16 \<Rightarrow> nic \<Rightarrow> nic" where
  "udp_receive src_ip dst_ip packet len s =
     (if unat len < 8 then s
      else let
        dst_port = htons (rd16 packet 2);
        src_port = htons (rd16 packet 0);
        udp_len = htons (rd16 packet 4)
      in if unat udp_len < 8 then s
         else if unat dst_port \<ge> UDP_MAX_PORTS \<or> udp_port_table s ! unat dst_port = 0 then s
         else s\<lparr>udp_calls := udp_calls s @
                 [(udp_port_table s ! unat dst_port, src_ip, src_port, rd_bytes packet 8 (unat (udp_len - 8)))]\<rparr>)"

definition udp_send :: "u32 \<Rightarrow> u16 \<Rightarrow> u32 \<Rightarrow> u16 \<Rightarrow> mem \<Rightarrow> u16 \<Rightarrow> nic \<Rightarrow> nic option" where
  "udp_send src_ip src_port dst_ip dst_port data len s =
     (if unat len > UDP_MAX_PACKET then Some s
      else let
        total_len = 8 + len;
        payload = rd_bytes data 0 (unat len);
        hdr = udp_hdr (htons src_port) (htons dst_port) (htons total_len);
        c = udp_checksum src_ip dst_ip (hdr 0) payload (htons total_len)
      in ip_send dst_ip IP_PROTO_UDP (mem_of (hdr c @ payload) (\<lambda>_. 0)) total_len s)"

definition udp_init :: "nic \<Rightarrow> nic" where
  "udp_init s = s\<lparr>udp_port_table := replicate UDP_MAX_PORTS 0\<rparr>"

definition handle_udp :: "mem \<Rightarrow> nic \<Rightarrow> nic" where
  "handle_udp ip =
     (let n = ip_hdr_len ip; udp_len = uint (htons (rd16 ip 2)) - n in
      udp_receive (rd32 ip 12) (rd32 ip 16) (mem_at ip (nat n)) (word_of_int udp_len))"

subsection \<open>Memory\<close>

lemma mem_of_append: "mem_of (xs @ ys) rest = mem_of xs (mem_of ys rest)"
  by (auto simp: mem_of_def fun_eq_iff nth_append)

lemma mem_at_mem_of [simp]: "length xs = k \<Longrightarrow> mem_at (mem_of xs rest) k = rest"
  by (auto simp: mem_of_def mem_at_def)

lemma rd_bytes_mem_of [simp]: "length xs = n \<Longrightarrow> rd_bytes (mem_of xs rest) 0 n = xs"
  by (auto simp: rd_bytes_def mem_of_def intro: nth_equalityI)

lemma rd_bytes_length [simp]: "length (rd_bytes m i n) = n"
  by (simp add: rd_bytes_def)

lemma rd_bytes_nth: "k < n \<Longrightarrow> rd_bytes m i n ! k = m (i + k)"
  by (simp add: rd_bytes_def)

lemma rd_bytes_at: "rd_bytes (mem_at m k) i n = rd_bytes m (k + i) n"
  by (rule nth_equalityI) (simp_all add: rd_bytes_def mem_at_def add.assoc)

lemma rd_at: "rd16 (mem_at m k) i = rd16 m (k + i)" "rd32 (mem_at m k) i = rd32 m (k + i)" "mem_at m k i = m (k + i)"
  by (simp_all add: rd16_def rd32_def mem_at_def add.assoc)

lemma mem_at_at: "mem_at (mem_at m j) k = mem_at m (j + k)"
  by (simp add: mem_at_def add.assoc)

subsection \<open>Frames\<close>

lemma hdr_lengths [simp]:
  "length my_mac = 6" "length (eth_hdr ds sr t) = length ds + length sr + 2" "length (ip_hdr n i p c a b) = 20"
  "length (udp_hdr u d n c) = 8" "length (icmp_hdr ty c i q) = 8" "length (arp_pkt op sh sp th tp) = length sh + length th + 16"
  by (simp_all add: my_mac_def eth_hdr_def ip_hdr_def udp_hdr_def icmp_hdr_def arp_pkt_def)

lemma ip_fields:
  assumes "h = mem_of (ip_hdr n i p c a b) r"
  shows "h 0 = 0x45" "rd16 h 2 = htons n" "h 9 = p" "rd32 h 12 = a" "rd32 h 16 = b" "mem_at h 20 = r"
proof -
  show "h 0 = 0x45" "h 9 = p" by (simp_all add: assms mem_of_def ip_hdr_def bytes16_def bytes32_def)
  show "rd16 h 2 = htons n" by (rule rd16_bytes) (simp_all add: assms mem_of_def ip_hdr_def bytes16_def bytes32_def)
  show "rd32 h 12 = a" "rd32 h 16 = b"
    by (rule rd32_bytes; simp add: assms mem_of_def ip_hdr_def bytes16_def bytes32_def)+
  show "mem_at h 20 = r" by (simp add: assms)
qed

lemma ip_hdr_len_std: "h 0 = 0x45 \<Longrightarrow> ip_hdr_len h = 20"
  by (simp add: ip_hdr_len_def)

lemma udp_fields:
  assumes "h = mem_of (udp_hdr s d n c) r"
  shows "rd16 h 0 = s" "rd16 h 2 = d" "rd16 h 4 = n" "mem_at h 8 = r"
proof -
  show "rd16 h 0 = s" "rd16 h 2 = d" "rd16 h 4 = n"
    by (rule rd16_bytes; simp add: assms mem_of_def udp_hdr_def bytes16_def)+
  show "mem_at h 8 = r" by (simp add: assms)
qed

lemma eth_fields:
  assumes "m = mem_of (eth_hdr dst src t @ xs) r" "length dst = 6" "length src = 6"
  shows "rd16 m 12 = htons t" "mem_at m 14 = mem_of xs r" "rd_bytes m 6 6 = src"
proof -
  have e: "m = mem_of (eth_hdr dst src t) (mem_of xs r)" by (simp add: assms(1) mem_of_append)
  show "rd16 m 12 = htons t"
    by (rule rd16_bytes) (simp_all add: e assms(2,3) mem_of_def eth_hdr_def bytes16_def nth_append)
  show "mem_at m 14 = mem_of xs r" by (simp add: e assms(2,3))
  show "rd_bytes m 6 6 = src"
  proof (rule nth_equalityI)
    fix i assume "i < length (rd_bytes m 6 6)"
    then have "i < 6" by simp
    then show "rd_bytes m 6 6 ! i = src ! i"
      by (simp add: rd_bytes_nth e mem_of_def eth_hdr_def nth_append assms(2,3))
  qed (simp add: assms(3))
qed

text \<open>The header checksum that \<open>ip_send\<close> writes is right.\<close>

lemma ip_hdr_verifies: "checksum (ip_hdr n i p (checksum (ip_hdr n i p 0 a b)) a b) = 0"
proof -
  define xs where "xs = [0x45, 0] @ bytes16 (htons n) @ bytes16 (htons i) @ bytes16 0 @ [64, p]"
  have x: "ip_hdr n i p c a b = xs @ bytes16 c @ (bytes32 a @ bytes32 b)" for c
    by (simp add: ip_hdr_def xs_def)
  have "length xs = 10" by (simp add: xs_def)
  then show ?thesis
    using rfc_checksum_verifies [of xs "bytes32 a @ bytes32 b"] unfolding x by (simp add: checksum_eq)
qed

text \<open>
  What \<open>ip_send\<close> puts on the wire: a frame of 34 bytes more than the data, with a header that
  passes the checksum, the number, protocol and addresses, and the data; it fits the buffer up to
  1466 bytes of data.
\<close>

lemma ip_send_frame:
  assumes "unat len \<le> 1466"
  shows "\<exists>c. ip_send dst p data len s = Some (s\<lparr>ip_id := ip_id s + 1, sent := sent s @
        [eth_hdr (replicate 6 0xFF) my_mac ETH_TYPE_IP @ ip_hdr (20 + len) (ip_id s) p c my_ip dst @
          rd_bytes data 0 (unat len)]\<rparr>) \<and>
      checksum (ip_hdr (20 + len) (ip_id s) p c my_ip dst) = 0"
  using assms ip_hdr_verifies
  by (intro exI [of _ "checksum (ip_hdr (20 + len) (ip_id s) p 0 my_ip dst)"])
    (simp add: ip_send_def e1000_send_def Let_def)

lemma ip_send_overflow: "1466 < unat len \<Longrightarrow> ip_send dst p data len s = None"
  by (simp add: ip_send_def)

subsection \<open>UDP datagrams\<close>

text \<open>
  \<open>UDP_MAX_PACKET\<close> forgets the Ethernet header: the largest datagrams that \<open>udp_send\<close> lets pass
  overrun the frame buffer of \<open>ip_send\<close>.
\<close>

lemma udp_send_overflow:
  assumes "1459 \<le> unat len" "unat len \<le> UDP_MAX_PACKET"
  shows "udp_send src sp dst dp data len s = None"
proof -
  have "unat (8 + len) = 8 + unat len" using assms by (subst unat_add_small) simp_all
  then show ?thesis using assms by (simp add: udp_send_def Let_def ip_send_overflow)
qed

lemma udp_send_frame:
  assumes "unat len \<le> 1458"
  shows "\<exists>c d. udp_send src sp dst dp data len s = Some (s\<lparr>ip_id := ip_id s + 1, sent := sent s @
        [eth_hdr (replicate 6 0xFF) my_mac ETH_TYPE_IP @ ip_hdr (28 + len) (ip_id s) IP_PROTO_UDP c my_ip dst @
         udp_hdr (htons sp) (htons dp) (htons (8 + len)) d @ rd_bytes data 0 (unat len)]\<rparr>)"
proof -
  have n: "unat (8 + len) = 8 + unat len" using assms by (subst unat_add_small) simp_all
  let ?d = "udp_checksum src dst (udp_hdr (htons sp) (htons dp) (htons (8 + len)) 0) (rd_bytes data 0 (unat len)) (htons (8 + len))"
  let ?data = "mem_of (udp_hdr (htons sp) (htons dp) (htons (8 + len)) ?d @ rd_bytes data 0 (unat len)) (\<lambda>_. 0)"
  have b: "rd_bytes ?data 0 (unat (8 + len)) = udp_hdr (htons sp) (htons dp) (htons (8 + len)) ?d @ rd_bytes data 0 (unat len)"
    by (rule rd_bytes_mem_of) (simp add: n)
  obtain c where c: "ip_send dst IP_PROTO_UDP ?data (8 + len) s = Some (s\<lparr>ip_id := ip_id s + 1, sent := sent s @
        [eth_hdr (replicate 6 0xFF) my_mac ETH_TYPE_IP @ ip_hdr (20 + (8 + len)) (ip_id s) IP_PROTO_UDP c my_ip dst @
          rd_bytes ?data 0 (unat (8 + len))]\<rparr>)"
    using ip_send_frame [of "8 + len" dst IP_PROTO_UDP ?data s] n assms by auto
  have e: "udp_send src sp dst dp data len s = ip_send dst IP_PROTO_UDP ?data (8 + len) s"
    using assms by (simp add: udp_send_def Let_def)
  show ?thesis
    by (intro exI [of _ c] exI [of _ ?d]) (simp only: e c b, simp add: add.assoc [symmetric])
qed

lemma udp_receive_datagram:
  assumes h: "h = mem_of (udp_hdr (htons sp) (htons dp) (htons (8 + len)) c @ xs) r"
    and n: "length xs = unat len" "unat len \<le> 1472" and port: "unat dp < UDP_MAX_PORTS" "udp_port_table s ! unat dp = f" "f \<noteq> 0"
  shows "udp_receive a b h (8 + len) s = s\<lparr>udp_calls := udp_calls s @ [(f, a, sp, xs)]\<rparr>"
proof -
  have u: "unat (8 + len) = 8 + unat len" using n by (subst unat_add_small) simp_all
  have h': "h = mem_of (udp_hdr (htons sp) (htons dp) (htons (8 + len)) c) (mem_of xs r)"
    by (simp add: h mem_of_append)
  note f = udp_fields [OF h']
  have "rd_bytes h 8 (unat len) = rd_bytes (mem_at h 8) 0 (unat len)" by (simp add: rd_bytes_at)
  then have "rd_bytes h 8 (unat len) = xs" using f(4) n by simp
  then show ?thesis using u port f by (simp add: udp_receive_def Let_def)
qed

subsection \<open>Pings\<close>

text \<open>A ping with more than 470 bytes of data overruns the reply buffer.\<close>

lemma ping_overflow:
  assumes h: "mem_at packet 14 = h" "ip_hdr_len h = 20" and n: "uint (htons (rd16 h 2)) = 28 + int n" "470 < n"
    and ping: "h 20 = 8"
  shows "handle_icmp packet s = None"
proof -
  have "nat (28 + int n - 20 - 8) = n" by simp
  then show ?thesis
    using n(2) ping unfolding handle_icmp_def Let_def h n(1) by (simp add: send_icmp_reply_def rd_at)
qed

text \<open>
  The checksums of the reply are swapped although they were computed on the bytes in memory
  order: a swapped checksum is right only when both bytes of it are equal.
\<close>

lemma mod_65535_eq:
  "m \<le> 65535 \<Longrightarrow> n \<le> 65535 \<Longrightarrow> (m = 0 \<longleftrightarrow> n = 0) \<Longrightarrow> m mod 65535 = n mod 65535 \<longleftrightarrow> m = (n :: nat)"
  by (cases "m = 65535"; cases "n = 65535") auto

lemma swapped_checksum_wrong:
  assumes "even (length xs)" "length xs + length ys \<le> 131000"
  shows "checksum (xs @ bytes16 (htons (checksum (xs @ bytes16 0 @ ys))) @ ys) = 0 \<longleftrightarrow>
     htons (checksum (xs @ bytes16 0 @ ys)) = checksum (xs @ bytes16 0 @ ys)"
proof -
  let ?S = "ones_sum xs + ones_sum ys"
  let ?N = "ones_norm ?S" and ?M = "swap16 (ones_norm ?S)"
  have s: "ones_sum (xs @ bytes16 v @ ys) = ones_sum xs + unat v + ones_sum ys" for v
    using assms(1) by (simp add: ones_sum_append ones_sum_bytes16)
  have N: "?N \<le> 65535" by (rule ones_norm_bound)
  have M: "?M \<le> 65535" using swap16_norm [of ?N] N ones_norm_bound [of "256 * ?N"] by simp
  have z: "?M = 0 \<longleftrightarrow> ?N = 0" using swap16_norm [of ?N] N by (auto simp: ones_norm_def)
  have f: "checksum (xs @ bytes16 0 @ ys) = of_nat (65535 - ?N)"
    using assms by (simp add: checksum_eq rfc_checksum_def s del: of_nat_diff)
  have h: "htons (of_nat (65535 - ?N)) = (of_nat (65535 - ?M) :: u16)" by (rule htons_complement [OF N])
  have u: "unat (of_nat (65535 - k) :: u16) = 65535 - k" for k by (simp add: unat_of_nat del: of_nat_diff)
  define T where "T = ones_sum xs + (65535 - ?M) + ones_sum ys"
  have T: "T + ?M = ?S + 65535" using M by (simp add: T_def)
  have Tpos: "0 < T" using T M z ones_norm_pos [of ?S] by (cases "?S = 0") auto
  have "checksum (xs @ bytes16 (of_nat (65535 - ?M)) @ ys) = of_nat (65535 - ones_norm T)"
    using assms by (simp only: checksum_eq rfc_checksum_def s u T_def length_append bytes_lengths)
  then have "checksum (xs @ bytes16 (of_nat (65535 - ?M)) @ ys) = 0 \<longleftrightarrow> ones_norm T = 65535"
    using ones_norm_bound [of T] u [of "ones_norm T"] by (simp add: word_unat_eq_iff del: of_nat_diff)
  also have "\<dots> \<longleftrightarrow> T mod 65535 = 0"
  proof
    assume "T mod 65535 = 0"
    then have "ones_norm T = ones_norm 65535" using Tpos by (intro ones_norm_cong) simp_all
    then show "ones_norm T = 65535" by (simp add: ones_norm_id)
  next
    assume 65535: "ones_norm T = 65535"
    show "T mod 65535 = 0" unfolding ones_norm_mod [of T, symmetric] 65535 by (rule mod_self)
  qed
  also have "\<dots> \<longleftrightarrow> ?M mod 65535 = ?N mod 65535"
  proof -
    have "(T + ?M) mod 65535 = ?N mod 65535" using T by (simp add: ones_norm_mod)
    moreover have "(T + ?M) mod 65535 = ?M mod 65535 \<longleftrightarrow> T mod 65535 = 0"
      by (simp add: mod_eq_dvd_iff_nat dvd_eq_mod_eq_0)
    ultimately show ?thesis by metis
  qed
  also have "\<dots> \<longleftrightarrow> ?M = ?N"
    by (rule mod_65535_eq [OF M N z])
  also have "\<dots> \<longleftrightarrow> (of_nat (65535 - ?M) :: u16) = of_nat (65535 - ?N)"
    using N M unfolding word_unat_eq_iff u by arith
  finally show ?thesis by (simp only: f h)
qed

lemma ping_reply:
  assumes h: "mem_at packet 14 = h" "ip_hdr_len h = 20" and n: "uint (htons (rd16 h 2)) = 28 + int n" "n \<le> 470"
    and ping: "h 20 = 8"
  shows "\<exists>c d. handle_icmp packet s = Some (e1000_send (eth_hdr (rd_bytes packet 6 6) my_mac ETH_TYPE_IP @
        (rd_bytes h 0 10 @ bytes16 c @ bytes32 my_ip @ rd_bytes h 12 4) @
        icmp_hdr 0 d (rd16 h 24) (rd16 h 26) @ rd_bytes h 28 n) s) \<and>
      (checksum (icmp_hdr 0 d (rd16 h 24) (rd16 h 26) @ rd_bytes h 28 n) = 0 \<longleftrightarrow> htons d = d)"
proof -
  have n': "nat (28 + int n - 20 - 8) = n" by simp
  let ?ys = "bytes16 (rd16 h 24) @ bytes16 (rd16 h 26) @ rd_bytes h 28 n"
  let ?ip = "\<lambda>c. rd_bytes h 0 10 @ bytes16 c @ bytes32 my_ip @ rd_bytes h 12 4"
  have i: "icmp_hdr 0 d (rd16 h 24) (rd16 h 26) @ rd_bytes h 28 n = [0, 0] @ bytes16 d @ ?ys" for d
    by (simp add: icmp_hdr_def)
  define d where "d = htons (checksum ([0, 0] @ bytes16 0 @ ?ys))"
  have "handle_icmp packet s = Some (e1000_send (eth_hdr (rd_bytes packet 6 6) my_mac ETH_TYPE_IP @
        ?ip (htons (checksum (?ip 0))) @ icmp_hdr 0 d (rd16 h 24) (rd16 h 26) @ rd_bytes h 28 n) s)"
    using n(2) ping unfolding handle_icmp_def Let_def h n(1) d_def i [symmetric]
    by (simp add: send_icmp_reply_def rd_at rd_bytes_at h(1) Let_def n')
  moreover have "checksum ([0, 0] @ bytes16 d @ ?ys) = 0 \<longleftrightarrow> htons d = d"
    using swapped_checksum_wrong [of "[0, 0]" ?ys] n(2) by (auto simp: d_def)
  ultimately show ?thesis unfolding i by (intro exI [of _ "htons (checksum (?ip 0))"] exI [of _ d]) simp
qed

text \<open>A UDP packet in memory goes to the handler bound to its port.\<close>

lemma handle_udp_datagram:
  assumes h: "h = mem_of (ip_hdr (28 + len) i p c a b @ udp_hdr (htons sp) (htons dp) (htons (8 + len)) d @ xs) r"
    and n: "length xs = unat len" "unat len \<le> 1472"
    and port: "unat dp < UDP_MAX_PORTS" "udp_port_table s ! unat dp = f" "f \<noteq> 0"
  shows "handle_udp h s = s\<lparr>udp_calls := udp_calls s @ [(f, a, sp, xs)]\<rparr>"
proof -
  have e: "h = mem_of (ip_hdr (28 + len) i p c a b) (mem_of (udp_hdr (htons sp) (htons dp) (htons (8 + len)) d @ xs) r)"
    by (simp add: h mem_of_append)
  note ip = ip_fields [OF e]
  have l: "ip_hdr_len h = 20" using ip_hdr_len_std [of h] ip(1) by simp
  have "word_of_int (uint (28 + len) - 20) = 28 + len - (20 :: u16)" by simp
  also have "\<dots> = 8 + len" by (simp add: algebra_simps)
  finally have w: "word_of_int (uint (28 + len) - 20) = (8 + len :: u16)" .
  show ?thesis
    unfolding handle_udp_def Let_def l ip htons_htons w
    using ip(6) by (simp add: udp_receive_datagram [OF refl n port])
qed

end
