(* ===== verification/Tcp.thy ===== *)
theory Tcp
  imports Net "HOL-Library.Monad_Syntax"
begin

text \<open>
  The TCP of \<open>kernel/tcp.cpp\<close>: the table of control blocks, the segments sent through \<open>ip_send\<close>,
  and the state machine driven by incoming packets and by the calls of the socket layer. A
  control block is named by its index. \<open>tcp_reachable_wf\<close> says that the table stays well formed
  and that nothing is written outside a receive buffer; \<open>tcp_delivery\<close> (theory Net_Stack) is the
  way of data from one host to the other; \<open>tcp_time_wait_leak\<close> and \<open>tcp_lost_data_acked\<close> are
  what the state machine gets wrong.
\<close>

subsection \<open>State\<close>

abbreviation MAX_TCP_CONNECTIONS :: nat where "MAX_TCP_CONNECTIONS \<equiv> 16"
abbreviation TCP_DEFAULT_WINDOW :: u16 where "TCP_DEFAULT_WINDOW \<equiv> 4096"
abbreviation TCP_FIN :: u8 where "TCP_FIN \<equiv> 0x01"
abbreviation TCP_SYN :: u8 where "TCP_SYN \<equiv> 0x02"
abbreviation TCP_PSH :: u8 where "TCP_PSH \<equiv> 0x08"
abbreviation TCP_ACK :: u8 where "TCP_ACK \<equiv> 0x10"

datatype tcp_state = TCP_CLOSED | TCP_LISTEN | TCP_SYN_SENT | TCP_SYN_RECEIVED | TCP_ESTABLISHED | TCP_FIN_WAIT_1
  | TCP_FIN_WAIT_2 | TCP_CLOSE_WAIT | TCP_LAST_ACK | TCP_TIME_WAIT

text \<open>Ports are kept in network order. \<open>rx_buffer\<close> is \<open>None\<close> when it is null, else the bytes of the block.\<close>

record tcb =
  used :: bool
  local_ip :: u32
  remote_ip :: u32
  local_port :: u16
  remote_port :: u16
  snd_una :: u32
  snd_nxt :: u32
  rcv_nxt :: u32
  snd_wnd :: u16
  rcv_wnd :: u16
  tstate :: tcp_state
  rx_buffer :: "u8 list option"
  rx_len :: u16
  rx_capacity :: u16

record tcp =
  nic_of :: nic
  tcp_table :: "tcb list"

definition zero_tcb :: tcb where
  "zero_tcb = \<lparr>used = False, local_ip = 0, remote_ip = 0, local_port = 0, remote_port = 0, snd_una = 0, snd_nxt = 0,
     rcv_nxt = 0, snd_wnd = 0, rcv_wnd = 0, tstate = TCP_CLOSED, rx_buffer = None, rx_len = 0, rx_capacity = 0\<rparr>"

definition tcp_init :: "tcp \<Rightarrow> tcp" where
  "tcp_init s = s\<lparr>tcp_table := replicate MAX_TCP_CONNECTIONS zero_tcb\<rparr>"

definition set_tcb :: "nat \<Rightarrow> tcb \<Rightarrow> tcp \<Rightarrow> tcp" where
  "set_tcb i t s = s\<lparr>tcp_table := (tcp_table s)[i := t]\<rparr>"

text \<open>\<open>blk\<close> is the block \<open>kmalloc(4096)\<close> returned, \<open>None\<close> when it failed: the code does not look.\<close>

definition tcp_alloc_tcb :: "u8 list option \<Rightarrow> tcp \<Rightarrow> nat option \<times> tcp" where
  "tcp_alloc_tcb blk s =
     (case first_idx (\<lambda>t. \<not> used t) (tcp_table s) of None \<Rightarrow> (None, s)
      | Some i \<Rightarrow> (Some i, set_tcb i (zero_tcb\<lparr>used := True, rx_capacity := 4096, rx_buffer := blk, rx_len := 0\<rparr>) s))"

definition tcp_free_tcb :: "nat \<Rightarrow> tcp \<Rightarrow> tcp" where
  "tcp_free_tcb i s = (if used (tcp_table s ! i) then set_tcb i zero_tcb s else s)"

definition tcp_find :: "u32 \<Rightarrow> u32 \<Rightarrow> u16 \<Rightarrow> u16 \<Rightarrow> tcp \<Rightarrow> nat option" where
  "tcp_find src_ip dst_ip src_port dst_port s =
     first_idx (\<lambda>t. used t \<and> local_ip t = dst_ip \<and> remote_ip t = src_ip \<and> local_port t = dst_port \<and>
        remote_port t = src_port) (tcp_table s)"

subsection \<open>Sending\<close>

text \<open>\<open>tcp_header_t\<close> in memory.\<close>

definition tcp_hdr :: "u16 \<Rightarrow> u16 \<Rightarrow> u32 \<Rightarrow> u32 \<Rightarrow> u8 \<Rightarrow> u16 \<Rightarrow> u16 \<Rightarrow> u8 list" where
  "tcp_hdr src dst sq ack flags window csum =
     bytes16 src @ bytes16 dst @ bytes32 sq @ bytes32 ack @ [0x50, flags] @ bytes16 window @ bytes16 csum @ bytes16 0"

text \<open>
  The segment is built in a block of its own, whose \<open>kmalloc\<close> is taken to succeed (the code does
  not check it). \<open>total_len\<close> is cut to 16 bits by \<open>tcp_checksum\<close> and \<open>ip_send\<close>.
\<close>

definition tcp_send_segment :: "nat \<Rightarrow> u8 \<Rightarrow> mem \<Rightarrow> u16 \<Rightarrow> tcp \<Rightarrow> tcp option" where
  "tcp_send_segment i flags data len s =
     (let t = tcp_table s ! i;
          total_len = 20 + len;
          payload = rd_bytes data 0 (unat len);
          hdr = tcp_hdr (local_port t) (remote_port t) (htonl (snd_nxt t)) (htonl (rcv_nxt t)) flags (htons (rcv_wnd t));
          c = tcp_checksum (local_ip t) (remote_ip t) (hdr 0 @ payload) total_len
      in do {
        n \<leftarrow> ip_send (remote_ip t) 6 (mem_of (hdr c @ payload) (\<lambda>_. 0)) total_len (nic_of s);
        Some (set_tcb i (t\<lparr>snd_nxt := (if flags AND TCP_SYN \<noteq> 0 \<or> flags AND TCP_FIN \<noteq> 0 then snd_nxt t + 1
                                 else snd_nxt t + ucast len)\<rparr>) (s\<lparr>nic_of := n\<rparr>)) })"

definition tcp_connect :: "u8 list option \<Rightarrow> u32 \<Rightarrow> u16 \<Rightarrow> u32 \<Rightarrow> u16 \<Rightarrow> tcp \<Rightarrow> (nat option \<times> tcp) option" where
  "tcp_connect blk lip lport rip rport s =
     (case tcp_alloc_tcb blk s of (None, s1) \<Rightarrow> Some (None, s1)
      | (Some i, s1) \<Rightarrow> do {
          s2 \<leftarrow> tcp_send_segment i TCP_SYN (\<lambda>_. 0) 0
            (set_tcb i ((tcp_table s1 ! i)\<lparr>local_ip := lip, remote_ip := rip, local_port := htons lport,
                remote_port := htons rport, snd_nxt := 0x1000, snd_una := 0x1000, rcv_nxt := 0,
                snd_wnd := TCP_DEFAULT_WINDOW, rcv_wnd := TCP_DEFAULT_WINDOW, tstate := TCP_SYN_SENT\<rparr>) s1);
          Some (Some i, s2) })"

subsection \<open>Receiving\<close>

text \<open>Data in order is stored when it fits; \<open>None\<close> is the copy to a null buffer.\<close>

definition store_data :: "u8 list \<Rightarrow> tcb \<Rightarrow> tcb option" where
  "store_data xs t =
     (if unat (rx_len t) + length xs \<le> unat (rx_capacity t)
      then do { b \<leftarrow> rx_buffer t;
                Some (t\<lparr>rx_buffer := Some (take (unat (rx_len t)) b @ xs @ drop (unat (rx_len t) + length xs) b),
                        rx_len := rx_len t + of_nat (length xs)\<rparr>) }
      else Some t)"

definition send_ack :: "nat \<Rightarrow> tcp \<Rightarrow> tcp option" where
  "send_ack i = tcp_send_segment i TCP_ACK (\<lambda>_. 0) 0"

text \<open>The branches of the \<open>switch\<close>: the handling of a \<open>FIN\<close>, and the states.\<close>

definition take_fin :: "tcp_state \<Rightarrow> nat \<Rightarrow> tcp \<Rightarrow> tcp option" where
  "take_fin st i s = do {
     s1 \<leftarrow> send_ack i (set_tcb i ((tcp_table s ! i)\<lparr>rcv_nxt := rcv_nxt (tcp_table s ! i) + 1\<rparr>) s);
     Some (set_tcb i ((tcp_table s1 ! i)\<lparr>tstate := st\<rparr>) s1) }"

definition on_syn_sent :: "nat \<Rightarrow> u8 \<Rightarrow> u32 \<Rightarrow> u32 \<Rightarrow> tcp \<Rightarrow> tcp option" where
  "on_syn_sent i flags seg_seq seg_ack s =
     (if flags AND (TCP_SYN OR TCP_ACK) = TCP_SYN OR TCP_ACK
      then send_ack i (set_tcb i ((tcp_table s ! i)\<lparr>rcv_nxt := seg_seq + 1, snd_una := seg_ack, tstate := TCP_ESTABLISHED\<rparr>) s)
      else Some s)"

definition on_established :: "nat \<Rightarrow> u8 \<Rightarrow> u32 \<Rightarrow> u8 list \<Rightarrow> tcp \<Rightarrow> tcp option" where
  "on_established i flags seg_seq data s = do {
     let t = tcp_table s ! i;
     s1 \<leftarrow> (if data \<noteq> [] \<and> seg_seq = rcv_nxt t
            then do {
              t1 \<leftarrow> store_data data t;
              send_ack i (set_tcb i (t1\<lparr>rcv_nxt := rcv_nxt t1 + of_nat (length data)\<rparr>) s) }
            else Some s);
     if flags AND TCP_FIN \<noteq> 0 then take_fin TCP_CLOSE_WAIT i s1 else Some s1 }"

definition on_fin_wait_1 :: "nat \<Rightarrow> u8 \<Rightarrow> tcp \<Rightarrow> tcp option" where
  "on_fin_wait_1 i flags s =
     (let s1 = (if flags AND TCP_ACK \<noteq> 0 then set_tcb i ((tcp_table s ! i)\<lparr>tstate := TCP_FIN_WAIT_2\<rparr>) s else s)
      in if flags AND TCP_FIN \<noteq> 0 then take_fin TCP_TIME_WAIT i s1 else Some s1)"

definition on_fin_wait_2 :: "nat \<Rightarrow> u8 \<Rightarrow> tcp \<Rightarrow> tcp option" where
  "on_fin_wait_2 i flags s = (if flags AND TCP_FIN \<noteq> 0 then take_fin TCP_TIME_WAIT i s else Some s)"

definition on_last_ack :: "nat \<Rightarrow> u8 \<Rightarrow> tcp \<Rightarrow> tcp option" where
  "on_last_ack i flags s =
     Some (if flags AND TCP_ACK \<noteq> 0 then tcp_free_tcb i (set_tcb i ((tcp_table s ! i)\<lparr>tstate := TCP_CLOSED\<rparr>) s) else s)"

definition tcp_handle_packet :: "u32 \<Rightarrow> u32 \<Rightarrow> mem \<Rightarrow> u16 \<Rightarrow> tcp \<Rightarrow> tcp option" where
  "tcp_handle_packet src_ip dst_ip packet len s =
     (if unat len < 20 then Some s
      else case tcp_find src_ip dst_ip (rd16 packet 0) (rd16 packet 2) s of
        None \<Rightarrow> Some s
      | Some i \<Rightarrow>
          let hdr_len = ucast (drop_bit 4 (packet 12)) * 4 :: u16;
              data_len = len - hdr_len;
              data = rd_bytes packet (unat hdr_len) (unat data_len);
              flags = packet 13;
              seg_seq = htonl (rd32 packet 4);
              seg_ack = htonl (rd32 packet 8)
          in case tstate (tcp_table s ! i) of
               TCP_SYN_SENT \<Rightarrow> on_syn_sent i flags seg_seq seg_ack s
             | TCP_ESTABLISHED \<Rightarrow> on_established i flags seg_seq data s
             | TCP_FIN_WAIT_1 \<Rightarrow> on_fin_wait_1 i flags s
             | TCP_FIN_WAIT_2 \<Rightarrow> on_fin_wait_2 i flags s
             | TCP_LAST_ACK \<Rightarrow> on_last_ack i flags s
             | _ \<Rightarrow> Some s)"

subsection \<open>The calls of the socket layer\<close>

definition tcp_send_data :: "nat option \<Rightarrow> mem \<Rightarrow> u16 \<Rightarrow> tcp \<Rightarrow> (int \<times> tcp) option" where
  "tcp_send_data h data len s =
     (case h of None \<Rightarrow> Some (-1, s)
      | Some i \<Rightarrow>
          if tstate (tcp_table s ! i) \<noteq> TCP_ESTABLISHED then Some (-1, s)
          else do { s1 \<leftarrow> tcp_send_segment i (TCP_ACK OR TCP_PSH) data len s; Some (uint len, s1) })"

definition shift_down :: "nat \<Rightarrow> nat \<Rightarrow> u8 list \<Rightarrow> u8 list" where
  "shift_down k n b = fold (\<lambda>i b. b[i := b ! (k + i)]) [0 ..< n] b"

definition tcp_read_data :: "nat option \<Rightarrow> u16 \<Rightarrow> tcp \<Rightarrow> (int \<times> u8 list \<times> tcp) option" where
  "tcp_read_data h len s =
     (case h of None \<Rightarrow> Some (-1, [], s)
      | Some i \<Rightarrow>
          let t = tcp_table s ! i;
              to_read = (if len < rx_len t then len else rx_len t)
          in if to_read > 0 then do {
               b \<leftarrow> rx_buffer t;
               Some (uint to_read, take (unat to_read) b,
                 set_tcb i (t\<lparr>rx_buffer := Some (shift_down (unat to_read) (unat (rx_len t - to_read)) b),
                              rx_len := rx_len t - to_read\<rparr>) s) }
             else Some (uint to_read, [], s))"

definition tcp_close :: "nat option \<Rightarrow> tcp \<Rightarrow> tcp option" where
  "tcp_close h s =
     (case h of None \<Rightarrow> Some s
      | Some i \<Rightarrow>
          if tstate (tcp_table s ! i) = TCP_ESTABLISHED
          then tcp_send_segment i (TCP_FIN OR TCP_ACK) (\<lambda>_. 0) 0 (set_tcb i ((tcp_table s ! i)\<lparr>tstate := TCP_FIN_WAIT_1\<rparr>) s)
          else if tstate (tcp_table s ! i) = TCP_CLOSE_WAIT
          then tcp_send_segment i (TCP_FIN OR TCP_ACK) (\<lambda>_. 0) 0 (set_tcb i ((tcp_table s ! i)\<lparr>tstate := TCP_LAST_ACK\<rparr>) s)
          else Some s)"

definition tcp_is_connected :: "nat option \<Rightarrow> tcp \<Rightarrow> bool" where
  "tcp_is_connected h s = (case h of None \<Rightarrow> False | Some i \<Rightarrow> tstate (tcp_table s ! i) = TCP_ESTABLISHED)"

definition tcp_has_data :: "nat option \<Rightarrow> tcp \<Rightarrow> bool" where
  "tcp_has_data h s = (case h of None \<Rightarrow> False | Some i \<Rightarrow> rx_len (tcp_table s ! i) > 0)"

subsection \<open>Well formed tables\<close>

definition tcb_ok :: "tcb \<Rightarrow> bool" where
  "tcb_ok t \<longleftrightarrow> (if used t
     then tstate t \<notin> {TCP_CLOSED, TCP_LISTEN, TCP_SYN_RECEIVED} \<and> rx_capacity t = 4096 \<and> unat (rx_len t) \<le> 4096 \<and>
       (case rx_buffer t of None \<Rightarrow> rx_len t = 0 | Some b \<Rightarrow> length b = 4096)
     else t = zero_tcb)"

definition tcp_wf :: "tcp \<Rightarrow> bool" where
  "tcp_wf s \<longleftrightarrow> length (tcp_table s) = MAX_TCP_CONNECTIONS \<and> (\<forall>t \<in> set (tcp_table s). tcb_ok t)"

text \<open>The transitions of the state diagram that this implementation has.\<close>

fun tcp_edge :: "tcp_state \<Rightarrow> tcp_state \<Rightarrow> bool" where
  "tcp_edge TCP_CLOSED st = (st = TCP_SYN_SENT)"
| "tcp_edge TCP_SYN_SENT st = (st = TCP_ESTABLISHED)"
| "tcp_edge TCP_ESTABLISHED st = (st = TCP_CLOSE_WAIT \<or> st = TCP_FIN_WAIT_1)"
| "tcp_edge TCP_FIN_WAIT_1 st = (st = TCP_FIN_WAIT_2 \<or> st = TCP_TIME_WAIT)"
| "tcp_edge TCP_FIN_WAIT_2 st = (st = TCP_TIME_WAIT)"
| "tcp_edge TCP_CLOSE_WAIT st = (st = TCP_LAST_ACK)"
| "tcp_edge TCP_LAST_ACK st = (st = TCP_CLOSED)"
| "tcp_edge _ st = False"

lemma set_tcb_simps [simp]:
  "tcp_table (set_tcb i t s) = (tcp_table s)[i := t]" "nic_of (set_tcb i t s) = nic_of s"
  by (simp_all add: set_tcb_def)

text \<open>What a step leaves alone in a control block whose connection and buffer it does not touch.\<close>

definition tcb_keeps :: "tcb \<Rightarrow> tcb \<Rightarrow> bool" where
  "tcb_keeps t t' \<longleftrightarrow> used t' = used t \<and> rx_buffer t' = rx_buffer t \<and> rx_len t' = rx_len t \<and> rx_capacity t' = rx_capacity t"

lemma tcb_keeps_ok:
  "tcb_ok t \<Longrightarrow> used t \<Longrightarrow> tcb_keeps t t' \<Longrightarrow> tstate t' = tstate t \<or> tcp_edge (tstate t) (tstate t') \<and> tstate t' \<noteq> TCP_CLOSED \<Longrightarrow> tcb_ok t'"
  by (cases "tstate t") (auto simp: tcb_ok_def tcb_keeps_def split: option.splits)

lemma tcp_send_segment_table:
  assumes "tcp_send_segment i fl data len s = Some s'" "i < length (tcp_table s)"
  shows "\<exists>k. tcp_table s' = (tcp_table s)[i := (tcp_table s ! i)\<lparr>snd_nxt := k\<rparr>]"
  using assms by (auto simp: tcp_send_segment_def Let_def bind_eq_Some_conv)

text \<open>A step on slot \<open>i\<close>: the slot moves along one edge or stays, and stays well formed.\<close>

definition slot_step :: "nat \<Rightarrow> tcp \<Rightarrow> tcp \<Rightarrow> bool" where
  "slot_step i s s' \<longleftrightarrow> (\<exists>t'. tcp_table s' = (tcp_table s)[i := t'] \<and> tcb_ok t' \<and>
     (tstate t' = tstate (tcp_table s ! i) \<or> tcp_edge (tstate (tcp_table s ! i)) (tstate t')))"

lemma slot_step_refl: "i < length (tcp_table s) \<Longrightarrow> tcb_ok (tcp_table s ! i) \<Longrightarrow> slot_step i s s"
  unfolding slot_step_def by (intro exI [of _ "tcp_table s ! i"]) simp

lemma slot_stepI:
  assumes "tcp_table s' = (tcp_table s)[i := t']" "tcb_ok (tcp_table s ! i)" "used (tcp_table s ! i)"
    "tcb_keeps (tcp_table s ! i) t'"
    "tstate t' = tstate (tcp_table s ! i) \<or> tcp_edge (tstate (tcp_table s ! i)) (tstate t') \<and> tstate t' \<noteq> TCP_CLOSED"
  shows "slot_step i s s'"
  unfolding slot_step_def using assms tcb_keeps_ok [OF assms(2-5)] by (intro exI [of _ t']) auto

lemma send_slot_step:
  assumes "tcp_send_segment i fl data len (set_tcb i t1 s) = Some s'" "i < length (tcp_table s)"
    "tcb_ok (tcp_table s ! i)" "used (tcp_table s ! i)" "tcb_keeps (tcp_table s ! i) t1"
    "tstate t1 = tstate (tcp_table s ! i) \<or> tcp_edge (tstate (tcp_table s ! i)) (tstate t1) \<and> tstate t1 \<noteq> TCP_CLOSED"
  shows "slot_step i s s'"
proof -
  obtain k where "tcp_table s' = (tcp_table (set_tcb i t1 s))[i := (tcp_table (set_tcb i t1 s) ! i)\<lparr>snd_nxt := k\<rparr>]"
    using tcp_send_segment_table [OF assms(1)] assms(2) by auto
  then have "tcp_table s' = (tcp_table s)[i := t1\<lparr>snd_nxt := k\<rparr>]" using assms(2) by simp
  then show ?thesis
    using assms(3-6) by (intro slot_stepI [of s' s i "t1\<lparr>snd_nxt := k\<rparr>"]) (auto simp: tcb_keeps_def)
qed

lemma take_fin_table:
  assumes "take_fin st i s = Some s'" "i < length (tcp_table s)"
  shows "\<exists>k r. tcp_table s' = (tcp_table s)[i := (tcp_table s ! i)\<lparr>rcv_nxt := r, snd_nxt := k, tstate := st\<rparr>]"
proof -
  obtain s1 where 1: "send_ack i (set_tcb i ((tcp_table s ! i)\<lparr>rcv_nxt := rcv_nxt (tcp_table s ! i) + 1\<rparr>) s) = Some s1"
    "s' = set_tcb i ((tcp_table s1 ! i)\<lparr>tstate := st\<rparr>) s1"
    using assms(1) by (auto simp: take_fin_def bind_eq_Some_conv)
  obtain k where "tcp_table s1 = (tcp_table s)[i := (tcp_table s ! i)\<lparr>rcv_nxt := rcv_nxt (tcp_table s ! i) + 1, snd_nxt := k\<rparr>]"
    using tcp_send_segment_table [OF 1(1) [unfolded send_ack_def]] assms(2) by auto
  then show ?thesis
    using 1(2) assms(2) by (intro exI [of _ k] exI [of _ "rcv_nxt (tcp_table s ! i) + 1"]) simp
qed

lemma take_fin_step:
  assumes "take_fin st i s = Some s'" "i < length (tcp_table s)" "tcb_ok (tcp_table s ! i)" "used (tcp_table s ! i)"
    "tcp_edge (tstate (tcp_table s ! i)) st" "st \<noteq> TCP_CLOSED"
  shows "slot_step i s s'"
proof -
  obtain k r where "tcp_table s' = (tcp_table s)[i := (tcp_table s ! i)\<lparr>rcv_nxt := r, snd_nxt := k, tstate := st\<rparr>]"
    using take_fin_table [OF assms(1,2)] by blast
  then show ?thesis by (rule slot_stepI) (use assms in \<open>simp_all add: tcb_keeps_def\<close>)
qed

lemma store_data_ok:
  assumes "store_data xs t = Some t'" "tcb_ok t" "used t" "length xs < 65536"
  shows "tcb_ok t'" "used t'" "tstate t' = tstate t"
proof -
  show "used t'" "tstate t' = tstate t"
    using assms(1,3) by (auto simp: store_data_def bind_eq_Some_conv split: if_splits)
  show "tcb_ok t'"
  proof (cases "unat (rx_len t) + length xs \<le> unat (rx_capacity t)")
    case True
    then obtain b where b: "rx_buffer t = Some b" and t': "t' = t\<lparr>rx_buffer := Some (take (unat (rx_len t)) b @ xs @
        drop (unat (rx_len t) + length xs) b), rx_len := rx_len t + of_nat (length xs)\<rparr>"
      using assms(1) by (auto simp: store_data_def bind_eq_Some_conv)
    have c: "unat (rx_len t) + length xs \<le> 4096" "length b = 4096"
      using True assms(2,3) b by (auto simp: tcb_ok_def)
    have "unat (rx_len t + of_nat (length xs)) = unat (rx_len t) + length xs"
      using c by (subst unat_add_small) (simp_all add: unat_of_nat)
    then show ?thesis using assms(2,3) c b by (auto simp: t' tcb_ok_def)
  qed (use assms in \<open>simp add: store_data_def\<close>)
qed

lemma on_established_step:
  assumes "on_established i fl sq data s = Some s'" "i < length (tcp_table s)" "tcb_ok (tcp_table s ! i)"
    "used (tcp_table s ! i)" "tstate (tcp_table s ! i) = TCP_ESTABLISHED" "length data < 65536"
  shows "slot_step i s s'"
proof -
  let ?t = "tcp_table s ! i"
  obtain s1 where 1: "(if data \<noteq> [] \<and> sq = rcv_nxt ?t
      then do { t1 \<leftarrow> store_data data ?t; send_ack i (set_tcb i (t1\<lparr>rcv_nxt := rcv_nxt t1 + of_nat (length data)\<rparr>) s) }
      else Some s) = Some s1"
    and 2: "(if fl AND TCP_FIN \<noteq> 0 then take_fin TCP_CLOSE_WAIT i s1 else Some s1) = Some s'"
    using assms(1) by (auto simp: on_established_def Let_def bind_eq_Some_conv)
  have "\<exists>t1. tcp_table s1 = (tcp_table s)[i := t1] \<and> tcb_ok t1 \<and> used t1 \<and> tstate t1 = TCP_ESTABLISHED"
  proof (cases "data \<noteq> [] \<and> sq = rcv_nxt ?t")
    case True
    then obtain t1 where t1: "store_data data ?t = Some t1"
      "send_ack i (set_tcb i (t1\<lparr>rcv_nxt := rcv_nxt t1 + of_nat (length data)\<rparr>) s) = Some s1"
      using 1 by (auto simp: bind_eq_Some_conv)
    note ok = store_data_ok [OF t1(1) assms(3,4,6)]
    obtain k where "tcp_table s1 = (tcp_table s)[i := t1\<lparr>rcv_nxt := rcv_nxt t1 + of_nat (length data), snd_nxt := k\<rparr>]"
      using tcp_send_segment_table [OF t1(2) [unfolded send_ack_def]] assms(2) by auto
    then show ?thesis
      using ok assms(5) by (intro exI conjI) (assumption, auto intro!: tcb_keeps_ok [of t1] simp: tcb_keeps_def)
  qed (use 1 assms in \<open>auto intro: exI [of _ ?t]\<close>)
  then obtain t1 where t1: "tcp_table s1 = (tcp_table s)[i := t1]" "tcb_ok t1" "used t1" "tstate t1 = TCP_ESTABLISHED" by blast
  show ?thesis
  proof (cases "fl AND TCP_FIN \<noteq> 0")
    case True
    then have "take_fin TCP_CLOSE_WAIT i s1 = Some s'" using 2 by simp
    then have "slot_step i s1 s'" by (rule take_fin_step) (use t1 assms(2) in simp_all)
    then show ?thesis using t1 assms(2,5) by (auto simp: slot_step_def)
  next
    case False
    then show ?thesis using 2 t1 assms(5) by (auto simp: slot_step_def)
  qed
qed

lemma on_fin_wait_1_step:
  assumes "on_fin_wait_1 i fl s = Some s'" "i < length (tcp_table s)" "tcb_ok (tcp_table s ! i)"
    "used (tcp_table s ! i)" "tstate (tcp_table s ! i) = TCP_FIN_WAIT_1"
  shows "slot_step i s s'"
proof -
  define s1 where "s1 = (if fl AND TCP_ACK \<noteq> 0 then set_tcb i ((tcp_table s ! i)\<lparr>tstate := TCP_FIN_WAIT_2\<rparr>) s else s)"
  have s1: "slot_step i s s1"
  proof (cases "fl AND TCP_ACK \<noteq> 0")
    case True
    then have "tcp_table s1 = (tcp_table s)[i := (tcp_table s ! i)\<lparr>tstate := TCP_FIN_WAIT_2\<rparr>]" by (simp add: s1_def)
    then show ?thesis by (rule slot_stepI) (use assms(3-5) in \<open>simp_all add: tcb_keeps_def\<close>)
  qed (use assms(2,3) in \<open>simp add: s1_def slot_step_refl\<close>)
  have s1': "tcp_table s1 = (tcp_table s)[i := tcp_table s1 ! i]" "tcb_keeps (tcp_table s ! i) (tcp_table s1 ! i)"
    "tstate (tcp_table s1 ! i) \<in> {TCP_FIN_WAIT_1, TCP_FIN_WAIT_2}" "length (tcp_table s1) = length (tcp_table s)"
    using assms(2-5) by (auto simp: s1_def tcb_keeps_def)
  show ?thesis
  proof (cases "fl AND TCP_FIN \<noteq> 0")
    case True
    then have t: "take_fin TCP_TIME_WAIT i s1 = Some s'" using assms(1) by (simp add: on_fin_wait_1_def Let_def s1_def)
    obtain k r where "tcp_table s' = (tcp_table s1)[i := (tcp_table s1 ! i)\<lparr>rcv_nxt := r, snd_nxt := k, tstate := TCP_TIME_WAIT\<rparr>]"
      using take_fin_table [OF t] s1'(4) assms(2) by auto
    then have "tcp_table s' = (tcp_table s)[i := (tcp_table s1 ! i)\<lparr>rcv_nxt := r, snd_nxt := k, tstate := TCP_TIME_WAIT\<rparr>]"
      using s1'(1) by (metis list_update_overwrite)
    then show ?thesis
      by (rule slot_stepI) (use assms(3-5) s1'(2) in \<open>simp_all add: tcb_keeps_def\<close>)
  qed (use assms(1) s1 in \<open>simp add: on_fin_wait_1_def Let_def s1_def\<close>)
qed

lemma tcp_find_used:
  assumes "tcp_find a b p q s = Some i"
  shows "i < length (tcp_table s)" "used (tcp_table s ! i)"
  using first_idx_SomeD [OF assms [unfolded tcp_find_def]] by auto

lemma tcb_ok_state: "tcb_ok t \<Longrightarrow> used t \<longleftrightarrow> tstate t \<noteq> TCP_CLOSED"
  by (cases "used t") (auto simp: tcb_ok_def zero_tcb_def)

lemma zero_tcb_simps [simp]: "tcb_ok zero_tcb" "tstate zero_tcb = TCP_CLOSED" "\<not> used zero_tcb"
  by (simp_all add: tcb_ok_def zero_tcb_def)

lemma tcp_handle_packet_step:
  assumes "tcp_handle_packet a b m len s = Some s'" "tcp_wf s"
  shows "s' = s \<or> (\<exists>i < length (tcp_table s). slot_step i s s')"
proof (cases "unat len < 20 \<or> tcp_find a b (rd16 m 0) (rd16 m 2) s = None")
  case True
  then have "tcp_handle_packet a b m len s = Some s"
    by (cases "unat len < 20") (simp_all add: tcp_handle_packet_def)
  then show ?thesis using assms(1) by simp
next
  case False
  then obtain i where i: "tcp_find a b (rd16 m 0) (rd16 m 2) s = Some i" "\<not> unat len < 20" by auto
  let ?t = "tcp_table s ! i"
  have u: "i < length (tcp_table s)" "used ?t" "tcb_ok ?t"
    using tcp_find_used [OF i(1)] assms(2) by (auto simp: tcp_wf_def)
  define data where "data = rd_bytes m (unat (ucast (drop_bit 4 (m 12)) * 4 :: u16)) (unat (len - ucast (drop_bit 4 (m 12)) * 4))"
  have data: "length data < 65536"
    using unsigned_less [of "len - ucast (drop_bit 4 (m 12)) * 4", where 'a = nat] by (simp add: data_def)
  have e: "(case tstate ?t of
               TCP_SYN_SENT \<Rightarrow> on_syn_sent i (m 13) (htonl (rd32 m 4)) (htonl (rd32 m 8)) s
             | TCP_ESTABLISHED \<Rightarrow> on_established i (m 13) (htonl (rd32 m 4)) data s
             | TCP_FIN_WAIT_1 \<Rightarrow> on_fin_wait_1 i (m 13) s
             | TCP_FIN_WAIT_2 \<Rightarrow> on_fin_wait_2 i (m 13) s
             | TCP_LAST_ACK \<Rightarrow> on_last_ack i (m 13) s
             | _ \<Rightarrow> Some s) = Some s'"
    using assms(1) i unfolding data_def by (simp add: tcp_handle_packet_def Let_def)
  have "s' = s \<or> slot_step i s s'"
  proof (cases "tstate ?t")
    case TCP_SYN_SENT
    show ?thesis
    proof (cases "m 13 AND (TCP_SYN OR TCP_ACK) = TCP_SYN OR TCP_ACK")
      case True
      then have "send_ack i (set_tcb i (?t\<lparr>rcv_nxt := htonl (rd32 m 4) + 1, snd_una := htonl (rd32 m 8), tstate := TCP_ESTABLISHED\<rparr>) s) = Some s'"
        using e TCP_SYN_SENT by (simp add: on_syn_sent_def)
      then have "slot_step i s s'"
        unfolding send_ack_def by (rule send_slot_step) (use u TCP_SYN_SENT in \<open>simp_all add: tcb_keeps_def\<close>)
      then show ?thesis ..
    qed (use e TCP_SYN_SENT in \<open>simp add: on_syn_sent_def\<close>)
  next
    case TCP_ESTABLISHED
    then show ?thesis using e on_established_step [OF _ u(1,3,2) TCP_ESTABLISHED data] by simp
  next
    case TCP_FIN_WAIT_1
    then show ?thesis using e on_fin_wait_1_step [OF _ u(1,3,2) TCP_FIN_WAIT_1] by simp
  next
    case TCP_FIN_WAIT_2
    then show ?thesis using e take_fin_step [OF _ u(1,3,2), of TCP_TIME_WAIT s'] by (simp add: on_fin_wait_2_def split: if_splits)
  next
    case TCP_LAST_ACK
    then show ?thesis
      using e u by (auto simp: on_last_ack_def tcp_free_tcb_def slot_step_def split: if_splits
          intro!: exI [of _ zero_tcb])
  qed (use e in simp_all)
  then show ?thesis using u(1) by blast
qed

subsection \<open>Steps\<close>

text \<open>
  The steps of the layer: packets from the network and the calls, with handles that \<open>tcp_connect\<close>
  gave out or stale ones; the block of a new connection has 4096 bytes or is null.
\<close>

inductive tcp_step :: "tcp \<Rightarrow> tcp \<Rightarrow> bool" where
  packet: "tcp_handle_packet a b m len s = Some s' \<Longrightarrow> tcp_step s s'"
| connect: "tcp_connect blk lip lp rip rp s = Some (h, s') \<Longrightarrow> (\<And>b. blk = Some b \<Longrightarrow> length b = 4096) \<Longrightarrow> tcp_step s s'"
| send: "tcp_send_data (Some i) data len s = Some (r, s') \<Longrightarrow> i < MAX_TCP_CONNECTIONS \<Longrightarrow> tcp_step s s'"
| read: "tcp_read_data (Some i) len s = Some (r, xs, s') \<Longrightarrow> i < MAX_TCP_CONNECTIONS \<Longrightarrow> tcp_step s s'"
| close: "tcp_close (Some i) s = Some s' \<Longrightarrow> i < MAX_TCP_CONNECTIONS \<Longrightarrow> tcp_step s s'"

lemma shift_down_length: "length (shift_down k n b) = length b"
proof -
  have "length (fold (\<lambda>i b. b[i := b ! (k + i)]) is b) = length b" for "is" by (induction "is" arbitrary: b) simp_all
  then show ?thesis by (simp add: shift_down_def)
qed

lemma tcp_connect_step:
  assumes "tcp_connect blk lip lp rip rp s = Some (h, s')" "\<And>b. blk = Some b \<Longrightarrow> length b = 4096" "tcp_wf s"
  shows "s' = s \<or> (\<exists>i < length (tcp_table s). slot_step i s s')"
proof (cases "first_idx (\<lambda>t. \<not> used t) (tcp_table s)")
  case None
  then show ?thesis using assms(1) by (simp add: tcp_connect_def tcp_alloc_tcb_def)
next
  case (Some i)
  note i = first_idx_SomeD [OF Some]
  have z: "tcp_table s ! i = zero_tcb" using i(1,2) assms(3) by (auto simp: tcp_wf_def tcb_ok_def dest: nth_mem)
  define t where "t = zero_tcb\<lparr>used := True, rx_capacity := 4096, rx_buffer := blk, rx_len := 0, local_ip := lip, remote_ip := rip,
      local_port := htons lp, remote_port := htons rp, snd_nxt := 0x1000, snd_una := 0x1000, rcv_nxt := 0,
      snd_wnd := TCP_DEFAULT_WINDOW, rcv_wnd := TCP_DEFAULT_WINDOW, tstate := TCP_SYN_SENT\<rparr>"
  define t0 where "t0 = zero_tcb\<lparr>used := True, rx_capacity := 4096, rx_buffer := blk, rx_len := 0\<rparr>"
  have "tcp_send_segment i TCP_SYN (\<lambda>_. 0) 0 (set_tcb i t (set_tcb i t0 s)) = Some s'"
    using assms(1) Some i(1) by (auto simp: tcp_connect_def tcp_alloc_tcb_def t_def t0_def bind_eq_Some_conv)
  then obtain k where "tcp_table s' = (tcp_table s)[i := t\<lparr>snd_nxt := k\<rparr>]"
    using tcp_send_segment_table i(1) by fastforce
  moreover have "tcb_ok (t\<lparr>snd_nxt := k\<rparr>)" using assms(2) by (auto simp: t_def tcb_ok_def split: option.split)
  ultimately have "slot_step i s s'"
    unfolding slot_step_def by (intro exI [of _ "t\<lparr>snd_nxt := k\<rparr>"]) (simp add: z, simp add: t_def zero_tcb_def)
  then show ?thesis using i(1) by blast
qed

lemma tcp_close_step:
  assumes "tcp_close (Some i) s = Some s'" "i < MAX_TCP_CONNECTIONS" "tcp_wf s"
  shows "s' = s \<or> slot_step i s s'"
proof -
  let ?t = "tcp_table s ! i"
  have u: "i < length (tcp_table s)" "tcb_ok ?t" using assms(2,3) by (auto simp: tcp_wf_def)
  consider "tstate ?t = TCP_ESTABLISHED" | "tstate ?t = TCP_CLOSE_WAIT" | "tstate ?t \<noteq> TCP_ESTABLISHED" "tstate ?t \<noteq> TCP_CLOSE_WAIT" by blast
  then show ?thesis
  proof cases
    case 1
    then have "tcp_send_segment i (TCP_FIN OR TCP_ACK) (\<lambda>_. 0) 0 (set_tcb i (?t\<lparr>tstate := TCP_FIN_WAIT_1\<rparr>) s) = Some s'"
      using assms(1) by (simp add: tcp_close_def)
    then have "slot_step i s s'" by (rule send_slot_step) (use u 1 tcb_ok_state [OF u(2)] in \<open>simp_all add: tcb_keeps_def\<close>)
    then show ?thesis ..
  next
    case 2
    then have "tcp_send_segment i (TCP_FIN OR TCP_ACK) (\<lambda>_. 0) 0 (set_tcb i (?t\<lparr>tstate := TCP_LAST_ACK\<rparr>) s) = Some s'"
      using assms(1) by (simp add: tcp_close_def)
    then have "slot_step i s s'" by (rule send_slot_step) (use u 2 tcb_ok_state [OF u(2)] in \<open>simp_all add: tcb_keeps_def\<close>)
    then show ?thesis ..
  qed (use assms(1) in \<open>simp add: tcp_close_def\<close>)
qed

lemma tcp_send_step:
  assumes "tcp_send_data (Some i) data len s = Some (r, s')" "i < MAX_TCP_CONNECTIONS" "tcp_wf s"
  shows "s' = s \<or> slot_step i s s'"
proof (cases "tstate (tcp_table s ! i) = TCP_ESTABLISHED")
  case True
  have u: "i < length (tcp_table s)" "tcb_ok (tcp_table s ! i)" using assms(2,3) by (auto simp: tcp_wf_def)
  have "tcp_send_segment i (TCP_ACK OR TCP_PSH) data len s = Some s'"
    using assms(1) True by (auto simp: tcp_send_data_def bind_eq_Some_conv)
  then obtain k where "tcp_table s' = (tcp_table s)[i := (tcp_table s ! i)\<lparr>snd_nxt := k\<rparr>]"
    using tcp_send_segment_table u(1) by blast
  then have "slot_step i s s'"
    by (rule slot_stepI) (use u True tcb_ok_state [OF u(2)] in \<open>simp_all add: tcb_keeps_def\<close>)
  then show ?thesis ..
qed (use assms(1) in \<open>simp add: tcp_send_data_def\<close>)

lemma tcp_read_step:
  assumes "tcp_read_data (Some i) len s = Some (r, xs, s')" "i < MAX_TCP_CONNECTIONS" "tcp_wf s"
  shows "s' = s \<or> slot_step i s s'"
proof -
  let ?t = "tcp_table s ! i" and ?n = "if len < rx_len (tcp_table s ! i) then len else rx_len (tcp_table s ! i)"
  have u: "i < length (tcp_table s)" "tcb_ok ?t" using assms(2,3) by (auto simp: tcp_wf_def)
  show ?thesis
  proof (cases "?n > 0")
    case True
    then obtain b where b: "rx_buffer ?t = Some b"
      and s': "s' = set_tcb i (?t\<lparr>rx_buffer := Some (shift_down (unat ?n) (unat (rx_len ?t - ?n)) b), rx_len := rx_len ?t - ?n\<rparr>) s"
      using assms(1) by (auto simp: tcp_read_data_def Let_def bind_eq_Some_conv split: if_splits)
    have us: "used ?t" using True u(2) by (auto simp: tcb_ok_def zero_tcb_def split: if_splits)
    have n: "?n \<le> rx_len ?t" by (simp add: not_less less_imp_le)
    then have "unat (rx_len ?t - ?n) \<le> unat (rx_len ?t)" by (simp only: unat_sub)
    then have "tcb_ok (?t\<lparr>rx_buffer := Some (shift_down (unat ?n) (unat (rx_len ?t - ?n)) b), rx_len := rx_len ?t - ?n\<rparr>)"
      using u(2) us b by (auto simp: tcb_ok_def shift_down_length simp del: unat_sub)
    then have "slot_step i s s'"
      unfolding slot_step_def s' by (intro exI conjI) (rule set_tcb_simps, assumption, simp)
    then show ?thesis ..
  qed (use assms(1) in \<open>simp add: tcp_read_data_def Let_def\<close>)
qed

lemma slot_step_wf: "slot_step i s s' \<Longrightarrow> tcp_wf s \<Longrightarrow> tcp_wf s'"
  unfolding slot_step_def tcp_wf_def by (metis length_list_update set_update_cases)

lemma tcp_step_slot:
  assumes "tcp_step s s'" "tcp_wf s"
  shows "s' = s \<or> (\<exists>i < length (tcp_table s). slot_step i s s')"
  using assms
proof cases
  case (packet a b m len)
  then show ?thesis using tcp_handle_packet_step assms(2) by blast
next
  case (connect blk lip lp rip rp h)
  then show ?thesis using tcp_connect_step assms(2) by blast
next
  case (send i data len r)
  then show ?thesis using tcp_send_step [OF send assms(2)] assms(2) by (auto simp: tcp_wf_def)
next
  case (read i len r xs)
  then show ?thesis using tcp_read_step [OF read assms(2)] assms(2) by (auto simp: tcp_wf_def)
next
  case (close i)
  then show ?thesis using tcp_close_step [OF close assms(2)] assms(2) by (auto simp: tcp_wf_def)
qed

inductive tcp_run :: "tcp \<Rightarrow> tcp \<Rightarrow> bool" where
  run_refl: "tcp_run s s"
| run_step: "tcp_run s s1 \<Longrightarrow> tcp_step s1 s2 \<Longrightarrow> tcp_run s s2"

lemma tcp_run_wf: "tcp_run s s' \<Longrightarrow> tcp_wf s \<Longrightarrow> tcp_wf s'"
  by (induction rule: tcp_run.induct) (use tcp_step_slot slot_step_wf in blast)+

lemma tcp_init_wf: "tcp_wf (tcp_init s)"
  by (simp add: tcp_wf_def tcp_init_def)

text \<open>
  C29. In every state that packets and calls can produce from \<open>tcp_init\<close> the connection table is
  well typed: 16 slots, a free slot is all zero, a slot in use has a capacity of 4096, no more
  bytes in its buffer than that, and a buffer block that still has its 4096 bytes (nothing was
  stored beyond it); and the next step moves at most one connection, along one edge of the state
  diagram.
\<close>

theorem tcp_reachable_wf:
  assumes "tcp_run (tcp_init s0) s" "tcp_step s s'"
  shows "length (tcp_table s) = MAX_TCP_CONNECTIONS \<and> (\<forall>t \<in> set (tcp_table s). tcb_ok t) \<and>
    (s' = s \<or> (\<exists>i < MAX_TCP_CONNECTIONS. \<exists>t'. tcp_table s' = (tcp_table s)[i := t'] \<and>
        (tstate t' = tstate (tcp_table s ! i) \<or> tcp_edge (tstate (tcp_table s ! i)) (tstate t'))))"
proof -
  have wf: "tcp_wf s" using tcp_run_wf [OF assms(1) tcp_init_wf] .
  then show ?thesis
    using tcp_step_slot [OF assms(2) wf] unfolding tcp_wf_def slot_step_def by auto
qed

definition demo_nic :: nic where
  "demo_nic = \<lparr>sent = [], ip_id = 1, udp_port_table = replicate UDP_MAX_PORTS 0, udp_calls = []\<rparr>"

definition demo_tcp :: tcp where
  "demo_tcp = \<lparr>nic_of = demo_nic, tcp_table = []\<rparr>"

text \<open>A connection to port 80 that is opened, accepted, closed by this side and then by the peer.\<close>

definition demo_segment :: "u8 \<Rightarrow> mem" where
  "demo_segment flags = mem_of (tcp_hdr (htons 80) (htons 1) (htonl 500) (htonl 0x1001) flags (htons 4096) 0) (\<lambda>_. 0)"

definition demo_run :: "tcp option" where
  "demo_run = do {
     (h, s1) \<leftarrow> tcp_connect None 10 1 20 80 (tcp_init demo_tcp);
     s2 \<leftarrow> tcp_handle_packet 20 10 (demo_segment (TCP_SYN OR TCP_ACK)) 20 s1;
     s3 \<leftarrow> tcp_close (Some 0) s2;
     tcp_handle_packet 20 10 (demo_segment (TCP_FIN OR TCP_ACK)) 20 s3 }"

lemma demo_run_state: "map_option (\<lambda>s. tstate (tcp_table s ! 0)) demo_run = Some TCP_TIME_WAIT"
  by code_simp

lemma demo_run_reachable:
  assumes "demo_run = Some s"
  shows "tcp_run (tcp_init demo_tcp) s"
proof -
  obtain h s1 s2 s3 where 1: "tcp_connect None 10 1 20 80 (tcp_init demo_tcp) = Some (h, s1)"
    and 2: "tcp_handle_packet 20 10 (demo_segment (TCP_SYN OR TCP_ACK)) 20 s1 = Some s2"
    and 3: "tcp_close (Some 0) s2 = Some s3"
    and 4: "tcp_handle_packet 20 10 (demo_segment (TCP_FIN OR TCP_ACK)) 20 s3 = Some s"
    using assms by (auto simp: demo_run_def bind_eq_Some_conv)
  have "tcp_run (tcp_init demo_tcp) s1" by (rule run_step [OF run_refl connect [OF 1]]) simp
  then have "tcp_run (tcp_init demo_tcp) s2" by (rule run_step) (rule packet [OF 2])
  then have "tcp_run (tcp_init demo_tcp) s3" by (rule run_step) (rule close [OF 3], simp)
  then show ?thesis by (rule run_step) (rule packet [OF 4])
qed

lemma tcp_reachable_wf_witness:
  "\<exists>s. demo_run = Some s \<and> length (tcp_table s) = MAX_TCP_CONNECTIONS \<and> (\<forall>t \<in> set (tcp_table s). tcb_ok t)"
proof -
  obtain s where s: "demo_run = Some s" "tstate (tcp_table s ! 0) = TCP_TIME_WAIT"
    using demo_run_state by (cases demo_run) auto
  have "tcp_close (Some 0) s = Some s" by (simp add: tcp_close_def s(2))
  note wf = tcp_reachable_wf [OF demo_run_reachable [OF s(1)] tcp_step.close [OF this]]
  have "length (tcp_table s) = MAX_TCP_CONNECTIONS \<and> (\<forall>t \<in> set (tcp_table s). tcb_ok t)" using wf by simp
  then show ?thesis using s(1) by auto
qed

subsection \<open>Connections that are never released\<close>

text \<open>A slot that waits in \<open>TCP_TIME_WAIT\<close> stays there for ever.\<close>

lemma time_wait_step:
  assumes "tcp_step s s'" "tcp_wf s" "tstate (tcp_table s ! i) = TCP_TIME_WAIT" "i < MAX_TCP_CONNECTIONS"
  shows "tstate (tcp_table s' ! i) = TCP_TIME_WAIT"
proof (cases "s' = s")
  case False
  then obtain j t' where "tcp_table s' = (tcp_table s)[j := t']" "j < length (tcp_table s)"
    "tstate t' = tstate (tcp_table s ! j) \<or> tcp_edge (tstate (tcp_table s ! j)) (tstate t')"
    using tcp_step_slot [OF assms(1,2)] by (auto simp: slot_step_def)
  then show ?thesis using assms(3) by (cases "i = j") auto
qed (use assms(3) in simp)

lemma time_wait_run:
  assumes "tcp_run s s'" "tcp_wf s" "tstate (tcp_table s ! i) = TCP_TIME_WAIT" "i < MAX_TCP_CONNECTIONS"
  shows "tstate (tcp_table s' ! i) = TCP_TIME_WAIT"
  using assms by (induction rule: tcp_run.induct) (simp_all add: time_wait_step tcp_run_wf)

text \<open>
  Connections that this side closes are never released: a slot in \<open>TCP_TIME_WAIT\<close> stays there
  whatever packets arrive and calls are made, and once all sixteen slots are, \<open>tcp_connect\<close> fails for ever.
\<close>

theorem tcp_time_wait_leak:
  assumes "tcp_run (tcp_init s0) s" "tcp_run s s'"
  shows "(\<forall>i < MAX_TCP_CONNECTIONS. tstate (tcp_table s ! i) = TCP_TIME_WAIT \<longrightarrow>
        tstate (tcp_table s' ! i) = TCP_TIME_WAIT \<and> used (tcp_table s' ! i)) \<and>
    ((\<forall>i < MAX_TCP_CONNECTIONS. tstate (tcp_table s ! i) = TCP_TIME_WAIT) \<longrightarrow>
      tcp_connect blk lip lp rip rp s' = Some (None, s'))"
proof -
  have wf: "tcp_wf s" using tcp_run_wf [OF assms(1) tcp_init_wf] .
  have wf': "tcp_wf s'" by (rule tcp_run_wf [OF assms(2) wf])
  have u: "tstate (tcp_table s' ! i) = TCP_TIME_WAIT \<and> used (tcp_table s' ! i)"
    if "i < MAX_TCP_CONNECTIONS" "tstate (tcp_table s ! i) = TCP_TIME_WAIT" for i
    using time_wait_run [OF assms(2) wf that(2,1)] wf' that(1) tcb_ok_state [of "tcp_table s' ! i"]
    by (auto simp: tcp_wf_def)
  moreover have "tcp_connect blk lip lp rip rp s' = Some (None, s')"
    if "\<forall>i < MAX_TCP_CONNECTIONS. tstate (tcp_table s ! i) = TCP_TIME_WAIT"
  proof -
    have "\<forall>t \<in> set (tcp_table s'). used t" using u that wf' by (auto simp: tcp_wf_def in_set_conv_nth)
    then have "first_idx (\<lambda>t. \<not> used t) (tcp_table s') = None" by (simp add: first_idx_None)
    then show ?thesis by (simp add: tcp_connect_def tcp_alloc_tcb_def)
  qed
  ultimately show ?thesis by blast
qed

lemma tcp_time_wait_leak_witness:
  "\<exists>s. demo_run = Some s \<and> (\<forall>s'. tcp_run s s' \<longrightarrow> tstate (tcp_table s' ! 0) = TCP_TIME_WAIT \<and> used (tcp_table s' ! 0))"
proof -
  obtain s where s: "demo_run = Some s" "tstate (tcp_table s ! 0) = TCP_TIME_WAIT"
    using demo_run_state by (cases demo_run) auto
  have "tstate (tcp_table s' ! 0) = TCP_TIME_WAIT \<and> used (tcp_table s' ! 0)" if "tcp_run s s'" for s'
    using tcp_time_wait_leak [OF demo_run_reachable [OF s(1)] that] s(2) by simp
  with s show ?thesis by blast
qed

subsection \<open>Lost data\<close>

text \<open>Data in order that does not fit the buffer is dropped, but acknowledged all the same.\<close>

lemma tcp_lost_data_acked:
  assumes "i < length (tcp_table s)" "tcp_table s ! i = t" "data \<noteq> []" "unat (rx_len t) + length data > unat (rx_capacity t)" "fl AND TCP_FIN = 0"
    "on_established i fl (rcv_nxt t) data s = Some s'"
  shows "rx_buffer (tcp_table s' ! i) = rx_buffer t" "rcv_nxt (tcp_table s' ! i) = rcv_nxt t + of_nat (length data)"
    "length (sent (nic_of s')) = length (sent (nic_of s)) + 1"
proof -
  have 1: "send_ack i (set_tcb i (t\<lparr>rcv_nxt := rcv_nxt t + of_nat (length data)\<rparr>) s) = Some s'"
    using assms by (simp add: on_established_def store_data_def Let_def)
  obtain k where "tcp_table s' = (tcp_table s)[i := t\<lparr>rcv_nxt := rcv_nxt t + of_nat (length data), snd_nxt := k\<rparr>]"
    using tcp_send_segment_table [OF 1 [unfolded send_ack_def]] assms(1) by auto
  then show "rx_buffer (tcp_table s' ! i) = rx_buffer t" "rcv_nxt (tcp_table s' ! i) = rcv_nxt t + of_nat (length data)"
    using assms(1) by simp_all
  show "length (sent (nic_of s')) = length (sent (nic_of s)) + 1"
    using 1 by (auto simp: send_ack_def tcp_send_segment_def ip_send_def e1000_send_def Let_def bind_eq_Some_conv split: if_splits)
qed

text \<open>The receive buffer is a queue: a read takes the oldest bytes off it.\<close>

definition rx_bytes :: "tcb \<Rightarrow> u8 list" where
  "rx_bytes t = (case rx_buffer t of None \<Rightarrow> [] | Some b \<Rightarrow> take (unat (rx_len t)) b)"

lemma shift_down_take:
  assumes "k + n \<le> length b"
  shows "take n (shift_down k n b) = take n (drop k b)"
proof -
  have "j \<le> n \<Longrightarrow> (\<forall>i < length b. fold (\<lambda>i b. b[i := b ! (k + i)]) [0 ..< j] b ! i = (if i < j then b ! (k + i) else b ! i)) \<and>
      length (fold (\<lambda>i b. b[i := b ! (k + i)]) [0 ..< j] b) = length b" for j
  proof (induction j)
    case (Suc j)
    then show ?case using assms by (auto simp: nth_list_update less_Suc_eq)
  qed simp
  then show ?thesis using assms
    by (intro nth_equalityI) (auto simp: shift_down_def)
qed

lemma tcp_read_spec:
  assumes "tcp_read_data (Some i) len s = Some (r, xs, s')" "i < length (tcp_table s)" "tcb_ok (tcp_table s ! i)"
  shows "xs = take (unat len) (rx_bytes (tcp_table s ! i))" "r = int (length xs)"
    "rx_bytes (tcp_table s' ! i) = drop (unat len) (rx_bytes (tcp_table s ! i))"
proof -
  let ?t = "tcp_table s ! i"
  define n where "n = (if len < rx_len ?t then len else rx_len ?t)"
  have n: "unat n = min (unat len) (unat (rx_len ?t))" by (auto simp: n_def word_less_nat_alt)
  have "xs = take (unat len) (rx_bytes ?t) \<and> r = int (length xs) \<and> rx_bytes (tcp_table s' ! i) = drop (unat len) (rx_bytes ?t)"
  proof (cases "n > 0")
    case True
    then obtain b where b: "rx_buffer ?t = Some b" "xs = take (unat n) b" "r = uint n"
      and s': "s' = set_tcb i (?t\<lparr>rx_buffer := Some (shift_down (unat n) (unat (rx_len ?t - n)) b), rx_len := rx_len ?t - n\<rparr>) s"
      using assms(1) by (auto simp: tcp_read_data_def Let_def bind_eq_Some_conv n_def [symmetric] split: if_splits)
    have l: "unat (rx_len ?t) \<le> length b" using assms(3) b(1) True by (auto simp: tcb_ok_def zero_tcb_def split: if_splits)
    have d: "unat (rx_len ?t - n) = unat (rx_len ?t) - unat n" using n by (intro unat_sub_small) simp
    have "take (unat (rx_len ?t - n)) (shift_down (unat n) (unat (rx_len ?t - n)) b) = take (unat (rx_len ?t - n)) (drop (unat n) b)"
      by (rule shift_down_take) (use l n d in simp)
    then show ?thesis
      using b s' assms(2) l n d by (auto simp: rx_bytes_def uint_nat min_def drop_take)
  next
    case False
    then have z: "n = 0" by (simp add: word_neq_0_conv [symmetric])
    then have "unat len = 0 \<or> unat (rx_len ?t) = 0" using n by (simp add: min_def split: if_splits)
    then show ?thesis
      using assms(1) False z by (auto simp: tcp_read_data_def Let_def n_def [symmetric] rx_bytes_def split: option.splits)
  qed
  then show "xs = take (unat len) (rx_bytes ?t)" "r = int (length xs)" "rx_bytes (tcp_table s' ! i) = drop (unat len) (rx_bytes ?t)" by auto
qed

lemma store_data_rx:
  assumes "tcb_ok t" "used t" "rx_buffer t = Some b" "length (rx_bytes t) + length xs \<le> 4096"
  shows "\<exists>t'. store_data xs t = Some t' \<and> rx_bytes t' = rx_bytes t @ xs \<and> rcv_nxt t' = rcv_nxt t"
proof -
  have l: "length b = 4096" "unat (rx_len t) \<le> 4096" "rx_capacity t = 4096" using assms(1-3) by (auto simp: tcb_ok_def)
  then have c: "unat (rx_len t) + length xs \<le> 4096" using assms(3,4) by (simp add: rx_bytes_def)
  then have "unat (rx_len t + of_nat (length xs)) = unat (rx_len t) + length xs"
    by (subst unat_add_small) (simp_all add: unat_of_nat)
  then show ?thesis using assms(3) c l by (simp add: store_data_def rx_bytes_def)
qed

end
