(* ===== verification/Net_Stack.thy ===== *)
theory Net_Stack
  imports Tcp
begin

text \<open>
  The second stack, \<open>kernel/net_stack.cpp\<close> (ARP cache, routing, a TCP client with retransmission of
  the SYN), and the dispatch of received frames to both stacks, \<open>handle_ethernet\<close> and \<open>net_poll\<close>
  of \<open>net.cpp\<close>. \<open>udp_delivery\<close> and \<open>tcp_delivery\<close> follow data from a send call through the frame on
  the wire to the receiving side; \<open>arp_cache_refines\<close> is the cache as a map;
  \<open>syn_retransmit\<close> is the timer; \<open>routing_mask\<close> shows what the route test really compares.
\<close>

subsection \<open>State\<close>

abbreviation ARP_TABLE_SIZE :: nat where "ARP_TABLE_SIZE \<equiv> 16"
abbreviation TCP_MAX_CONNS :: nat where "TCP_MAX_CONNS \<equiv> 8"
abbreviation TCP_RETRANS_TIMEOUT :: u64 where "TCP_RETRANS_TIMEOUT \<equiv> 1000"
abbreviation gateway_ip :: u32 where "gateway_ip \<equiv> 0x0202000A"

record arp_entry =
  a_ip :: u32
  a_mac :: "u8 list"
  a_valid :: bool

datatype ns_state = NS_CLOSED | NS_SYN_SENT | NS_ESTABLISHED

record tcp_socket =
  s_src_ip :: u32
  s_dst_ip :: u32
  s_src_port :: u16
  s_dst_port :: u16
  s_snd_una :: u32
  s_snd_nxt :: u32
  s_rcv_nxt :: u32
  s_state :: ns_state
  last_tx_time :: u64
  s_used :: bool

text \<open>\<open>now_ms\<close> is \<open>timer_now_ms()\<close>, \<open>heap_ok\<close> whether \<open>kmalloc\<close> succeeds.\<close>

record net =
  tcp_of :: tcp
  arp_table :: "arp_entry list"
  tcp_sockets :: "tcp_socket list"
  ns_ip_id :: u16
  now_ms :: u32
  heap_ok :: bool
  timer_count :: nat

definition send_frame :: "u8 list \<Rightarrow> net \<Rightarrow> net" where
  "send_frame f s = s\<lparr>tcp_of := (tcp_of s)\<lparr>nic_of := e1000_send f (nic_of (tcp_of s))\<rparr>\<rparr>"

subsection \<open>ARP cache\<close>

definition arp_cache_insert :: "u32 \<Rightarrow> u8 list \<Rightarrow> arp_entry list \<Rightarrow> arp_entry list" where
  "arp_cache_insert ip mac t =
     (case first_idx (\<lambda>e. a_valid e \<and> a_ip e = ip) t of
        Some i \<Rightarrow> t[i := (t ! i)\<lparr>a_mac := mac\<rparr>]
      | None \<Rightarrow> (case first_idx (\<lambda>e. \<not> a_valid e) t of
            Some i \<Rightarrow> t[i := (t ! i)\<lparr>a_ip := ip, a_mac := mac, a_valid := True\<rparr>]
          | None \<Rightarrow> t))"

definition arp_cache_lookup :: "u32 \<Rightarrow> arp_entry list \<Rightarrow> u8 list option" where
  "arp_cache_lookup ip t = map_option (\<lambda>i. a_mac (t ! i)) (first_idx (\<lambda>e. a_valid e \<and> a_ip e = ip) t)"

definition arp_send_request :: "u32 \<Rightarrow> net \<Rightarrow> net" where
  "arp_send_request target_ip =
     send_frame (eth_hdr (replicate 6 0xFF) my_mac ETH_TYPE_ARP @ arp_pkt 1 my_mac my_ip (replicate 6 0) target_ip)"

subsection \<open>Sending\<close>

definition route_ip :: "u32 \<Rightarrow> u32" where
  "route_ip dst_ip = (if dst_ip AND 0xFFFFFF00 = my_ip AND 0xFFFFFF00 then dst_ip else gateway_ip)"

text \<open>\<open>None\<close> is a payload that does not fit the frame on the stack.\<close>

definition ethernet_send :: "u32 \<Rightarrow> u16 \<Rightarrow> u8 list \<Rightarrow> net \<Rightarrow> net option" where
  "ethernet_send dst_ip eth_type payload s =
     (case arp_cache_lookup (route_ip dst_ip) (arp_table s) of
        None \<Rightarrow> Some (arp_send_request (route_ip dst_ip) s)
      | Some mac \<Rightarrow>
          if 14 + length payload > 1514 then None
          else Some (send_frame (eth_hdr mac my_mac eth_type @ payload) s))"

definition ns_ip_send :: "u32 \<Rightarrow> u8 \<Rightarrow> u8 list \<Rightarrow> net \<Rightarrow> net option" where
  "ns_ip_send dst_ip proto payload s =
     (if 20 + length payload > 1500 then None
      else let hdr = (\<lambda>c. ip_hdr (of_nat (20 + length payload)) (ns_ip_id s) proto c my_ip dst_ip) in
        ethernet_send dst_ip ETH_TYPE_IP (hdr (net_checksum (hdr 0)) @ payload) (s\<lparr>ns_ip_id := ns_ip_id s + 1\<rparr>))"

definition upd_socket :: "nat \<Rightarrow> (tcp_socket \<Rightarrow> tcp_socket) \<Rightarrow> net \<Rightarrow> net" where
  "upd_socket i f s = s\<lparr>tcp_sockets := (tcp_sockets s)[i := f (tcp_sockets s ! i)]\<rparr>"

definition ns_tcp_segment :: "bool \<Rightarrow> tcp_socket \<Rightarrow> u8 \<Rightarrow> u8 list" where
  "ns_tcp_segment ok k flags =
     (let hdr = tcp_hdr (htons (s_src_port k)) (htons (s_dst_port k)) (htonl (s_snd_nxt k)) (htonl (s_rcv_nxt k)) flags
                  (htons 65535)
      in hdr (ns_tcp_checksum ok (s_src_ip k) (s_dst_ip k) (hdr 0) 20))"

definition ns_tcp_send_segment :: "nat \<Rightarrow> u8 \<Rightarrow> net \<Rightarrow> net option" where
  "ns_tcp_send_segment i flags s = do {
     s1 \<leftarrow> ns_ip_send (s_dst_ip (tcp_sockets s ! i)) 6 (ns_tcp_segment (heap_ok s) (tcp_sockets s ! i) flags) s;
     Some (upd_socket i (\<lambda>k. k\<lparr>last_tx_time := ucast (now_ms s),
             s_snd_nxt := (if flags AND TCP_SYN \<noteq> 0 then s_snd_nxt k + 1 else s_snd_nxt k)\<rparr>) s1) }"

subsection \<open>Receiving\<close>

definition tcp_lookup :: "u32 \<Rightarrow> u16 \<Rightarrow> u16 \<Rightarrow> net \<Rightarrow> nat option" where
  "tcp_lookup src_ip src_port dst_port s =
     first_idx (\<lambda>k. s_used k \<and> s_dst_ip k = src_ip \<and> s_dst_port k = src_port \<and> s_src_port k = dst_port) (tcp_sockets s)"

definition tcp_rx :: "u32 \<Rightarrow> mem \<Rightarrow> u16 \<Rightarrow> net \<Rightarrow> net option" where
  "tcp_rx src_ip payload len s =
     (if unat len < 20 then Some s
      else let flags = payload 13; seq = htonl (rd32 payload 4); ack = htonl (rd32 payload 8) in
        case tcp_lookup src_ip (htons (rd16 payload 0)) (htons (rd16 payload 2)) s of
          None \<Rightarrow> Some s
        | Some i \<Rightarrow>
            if flags AND 0x12 = 0x12
            then if ack \<noteq> s_snd_nxt (tcp_sockets s ! i) then Some s
                 else ns_tcp_send_segment i TCP_ACK
                   (upd_socket i (\<lambda>k. k\<lparr>s_rcv_nxt := seq + 1, s_snd_una := ack, s_state := NS_ESTABLISHED\<rparr>) s)
            else Some s)"

definition net_stack_rx :: "mem \<Rightarrow> u16 \<Rightarrow> net \<Rightarrow> net option" where
  "net_stack_rx buf len s =
     (if unat len < 14 then Some s
      else let eth_type = htons (rd16 buf 12); p = mem_at buf 14 in
        if eth_type = ETH_TYPE_ARP
        then if htons (rd16 p 6) = 2 then Some (s\<lparr>arp_table := arp_cache_insert (rd32 p 14) (rd_bytes p 8 6) (arp_table s)\<rparr>)
             else if htons (rd16 p 6) = 1 \<and> rd32 p 24 = my_ip
             then Some (send_frame (eth_hdr (rd_bytes p 8 6) my_mac ETH_TYPE_ARP @
                     arp_pkt 2 my_mac my_ip (rd_bytes p 8 6) (rd32 p 14)) s)
             else Some s
        else if eth_type = ETH_TYPE_IP
        then if rd32 p 16 \<noteq> my_ip then Some s
             else let ip_hdr_len = ucast (p 0 AND 0x0F) * 4 :: u16 in
               if p 9 = 6 then tcp_rx (rd32 p 12) (mem_at p (unat ip_hdr_len)) (htons (rd16 p 2) - ip_hdr_len) s
               else Some s
        else Some s)"

subsection \<open>Timer, start and test connection\<close>

definition timer_poll_one :: "nat \<Rightarrow> net \<Rightarrow> net option" where
  "timer_poll_one i s =
     (let k = tcp_sockets s ! i in
      if s_used k \<and> s_state k = NS_SYN_SENT \<and> ucast (now_ms s) - last_tx_time k > TCP_RETRANS_TIMEOUT
      then ns_tcp_send_segment i TCP_SYN (upd_socket i (\<lambda>k. k\<lparr>s_snd_nxt := s_snd_nxt k - 1\<rparr>) s)
      else Some s)"

fun timer_poll_from :: "nat list \<Rightarrow> net \<Rightarrow> net option" where
  "timer_poll_from [] s = Some s"
| "timer_poll_from (i # is) s = do { s1 \<leftarrow> timer_poll_one i s; timer_poll_from is s1 }"

definition tcp_timer_poll :: "net \<Rightarrow> net option" where
  "tcp_timer_poll = timer_poll_from [0 ..< TCP_MAX_CONNS]"

definition zero_socket :: tcp_socket where
  "zero_socket = \<lparr>s_src_ip = 0, s_dst_ip = 0, s_src_port = 0, s_dst_port = 0, s_snd_una = 0, s_snd_nxt = 0, s_rcv_nxt = 0,
     s_state = NS_CLOSED, last_tx_time = 0, s_used = False\<rparr>"

definition net_stack_init :: "net \<Rightarrow> net" where
  "net_stack_init s = arp_send_request gateway_ip
     (s\<lparr>arp_table := replicate ARP_TABLE_SIZE \<lparr>a_ip = 0, a_mac = replicate 6 0, a_valid = False\<rparr>,
        tcp_sockets := replicate TCP_MAX_CONNS zero_socket\<rparr>)"

definition net_stack_tcp_test :: "net \<Rightarrow> (int \<times> net) option" where
  "net_stack_tcp_test s =
     (case first_idx (\<lambda>k. \<not> s_used k) (tcp_sockets s) of
        None \<Rightarrow> Some (-1, s)
      | Some i \<Rightarrow> do {
          s1 \<leftarrow> ns_tcp_send_segment i TCP_SYN (upd_socket i (\<lambda>k. k\<lparr>s_used := True, s_src_ip := my_ip, s_dst_ip := 0x22D8B85D,
                  s_src_port := 49152 + ucast (now_ms s mod 10000), s_dst_port := 80, s_snd_nxt := 0x12345678,
                  s_snd_una := 0x12345678, s_rcv_nxt := 0, s_state := NS_SYN_SENT\<rparr>) s);
          Some (0, s1) })"

subsection \<open>Dispatch\<close>

definition on_nic :: "(nic \<Rightarrow> nic option) \<Rightarrow> net \<Rightarrow> net option" where
  "on_nic f s = map_option (\<lambda>n. s\<lparr>tcp_of := (tcp_of s)\<lparr>nic_of := n\<rparr>\<rparr>) (f (nic_of (tcp_of s)))"

definition handle_tcp :: "mem \<Rightarrow> net \<Rightarrow> net option" where
  "handle_tcp ip s =
     (let n = ip_hdr_len ip; tcp_len = uint (htons (rd16 ip 2)) - n in
      map_option (\<lambda>t. s\<lparr>tcp_of := t\<rparr>)
        (tcp_handle_packet (rd32 ip 12) (rd32 ip 16) (mem_at ip (nat n)) (word_of_int tcp_len) (tcp_of s)))"

definition handle_ethernet :: "mem \<Rightarrow> net \<Rightarrow> net option" where
  "handle_ethernet packet s =
     (let typ = htons (rd16 packet 12); ip = mem_at packet 14 in
      if typ = ETH_TYPE_ARP then on_nic (\<lambda>n. Some (handle_arp packet n)) s
      else if typ = ETH_TYPE_IP then
        if ip 9 = IP_PROTO_ICMP then on_nic (handle_icmp packet) s
        else if ip 9 = IP_PROTO_UDP then on_nic (\<lambda>n. Some (handle_udp ip n)) s
        else if ip 9 = 6 then handle_tcp ip s
        else Some s
      else Some s)"

text \<open>\<open>rx\<close> is what \<open>e1000_receive\<close> returned: the buffer and its result, 0 when no packet is there.\<close>

definition net_poll :: "mem \<times> int \<Rightarrow> net \<Rightarrow> net option" where
  "net_poll rx s = do {
     s1 \<leftarrow> (if timer_count s + 1 \<ge> 100 then tcp_timer_poll (s\<lparr>timer_count := 0\<rparr>)
            else Some (s\<lparr>timer_count := timer_count s + 1\<rparr>));
     if snd rx > 0 then do { s2 \<leftarrow> net_stack_rx (fst rx) (word_of_int (snd rx)) s1; handle_ethernet (fst rx) s2 }
     else Some s1 }"

subsection \<open>Datagrams from sender to handler\<close>

lemma handle_ethernet_ip:
  assumes "m = mem_of (eth_hdr dst src ETH_TYPE_IP @ xs) r" "length dst = 6" "length src = 6" "mem_of xs r = h"
  shows "handle_ethernet m s =
     (if h 9 = IP_PROTO_ICMP then on_nic (handle_icmp m) s
      else if h 9 = IP_PROTO_UDP then on_nic (\<lambda>n. Some (handle_udp h n)) s
      else if h 9 = 6 then handle_tcp h s else Some s)"
  using eth_fields [OF assms(1-3)] assms(4) by (simp add: handle_ethernet_def Let_def)

text \<open>
  C30. A datagram of up to 1458 bytes given to \<open>udp_send\<close> goes out as one frame, and a host that
  receives this frame, with anything behind it in its buffer, calls the handler bound to the
  destination port once, with the sender's address and port and exactly the data; nothing else of
  the receiver changes.
\<close>

theorem udp_delivery:
  assumes "unat len \<le> 1458" and port: "unat dp < UDP_MAX_PORTS" "udp_port_table (nic_of (tcp_of s)) ! unat dp = f" "f \<noteq> 0"
  shows "\<exists>ny frame. udp_send src sp dst dp data len nx = Some ny \<and> sent ny = sent nx @ [frame] \<and>
     length frame = 42 + unat len \<and>
     handle_ethernet (mem_of frame rest) s = on_nic (\<lambda>n. Some (n\<lparr>udp_calls := udp_calls n @
        [(f, my_ip, sp, rd_bytes data 0 (unat len))]\<rparr>)) s"
proof -
  obtain c d where 1: "udp_send src sp dst dp data len nx = Some (nx\<lparr>ip_id := ip_id nx + 1, sent := sent nx @
        [eth_hdr (replicate 6 0xFF) my_mac ETH_TYPE_IP @ ip_hdr (28 + len) (ip_id nx) IP_PROTO_UDP c my_ip dst @
         udp_hdr (htons sp) (htons dp) (htons (8 + len)) d @ rd_bytes data 0 (unat len)]\<rparr>)"
    using udp_send_frame [OF assms(1)] by blast
  define xs where "xs = ip_hdr (28 + len) (ip_id nx) IP_PROTO_UDP c my_ip dst @
         udp_hdr (htons sp) (htons dp) (htons (8 + len)) d @ rd_bytes data 0 (unat len)"
  define h where "h = mem_of xs rest"
  have h: "h = mem_of (ip_hdr (28 + len) (ip_id nx) IP_PROTO_UDP c my_ip dst)
      (mem_of (udp_hdr (htons sp) (htons dp) (htons (8 + len)) d @ rd_bytes data 0 (unat len)) rest)"
    by (simp add: h_def xs_def mem_of_append)
  have u: "handle_udp h n = n\<lparr>udp_calls := udp_calls n @ [(f, my_ip, sp, rd_bytes data 0 (unat len))]\<rparr>"
    if "udp_port_table n = udp_port_table (nic_of (tcp_of s))" for n
    using order_trans [OF assms(1), of 1472] port that
    by (intro handle_udp_datagram [where dp = dp and r = rest]) (simp_all add: h_def xs_def)
  have "handle_ethernet (mem_of (eth_hdr (replicate 6 0xFF) my_mac ETH_TYPE_IP @ xs) rest) s = on_nic (\<lambda>n. Some (handle_udp h n)) s"
    using handle_ethernet_ip [OF refl, of "replicate 6 0xFF" my_mac xs rest h s] ip_fields(3) [OF h] by (simp add: h_def)
  also have "\<dots> = on_nic (\<lambda>n. Some (n\<lparr>udp_calls := udp_calls n @ [(f, my_ip, sp, rd_bytes data 0 (unat len))]\<rparr>)) s"
    by (simp add: on_nic_def u)
  finally show ?thesis
    using 1 by (intro exI conjI) (assumption, simp add: xs_def, simp, simp add: xs_def)
qed

subsection \<open>TCP data from sender to receive buffer\<close>

lemma tcp_hdr_length [simp]: "length (tcp_hdr a b c d e f g) = 20"
  by (simp add: tcp_hdr_def)

lemma tcp_fields:
  assumes "h = mem_of (tcp_hdr sp dp sq ack fl w c) r"
  shows "rd16 h 0 = sp" "rd16 h 2 = dp" "rd32 h 4 = sq" "rd32 h 8 = ack" "h 12 = 0x50" "h 13 = fl" "mem_at h 20 = r"
proof -
  show "h 12 = 0x50" "h 13 = fl" by (simp_all add: assms mem_of_def tcp_hdr_def bytes16_def bytes32_def)
  show "rd16 h 0 = sp" "rd16 h 2 = dp"
    by (rule rd16_bytes; simp add: assms mem_of_def tcp_hdr_def bytes16_def bytes32_def)+
  show "rd32 h 4 = sq" "rd32 h 8 = ack"
    by (rule rd32_bytes; simp add: assms mem_of_def tcp_hdr_def bytes16_def bytes32_def)+
  show "mem_at h 20 = r" by (simp add: assms)
qed

lemma tcp_send_segment_frame:
  assumes "unat len \<le> 1446" "t = tcp_table s ! i"
  shows "\<exists>c d. tcp_send_segment i fl data len s = Some (set_tcb i (t\<lparr>snd_nxt := (if fl AND TCP_SYN \<noteq> 0 \<or> fl AND TCP_FIN \<noteq> 0
          then snd_nxt t + 1 else snd_nxt t + ucast len)\<rparr>) (s\<lparr>nic_of := (nic_of s)\<lparr>ip_id := ip_id (nic_of s) + 1,
        sent := sent (nic_of s) @ [eth_hdr (replicate 6 0xFF) my_mac ETH_TYPE_IP @
          ip_hdr (40 + len) (ip_id (nic_of s)) 6 c my_ip (remote_ip t) @
          tcp_hdr (local_port t) (remote_port t) (htonl (snd_nxt t)) (htonl (rcv_nxt t)) fl (htons (rcv_wnd t)) d @
          rd_bytes data 0 (unat len)]\<rparr>\<rparr>))"
proof -
  have n: "unat (20 + len) = 20 + unat len" using assms by (subst unat_add_small) simp_all
  define hdr where "hdr = tcp_hdr (local_port t) (remote_port t) (htonl (snd_nxt t)) (htonl (rcv_nxt t)) fl (htons (rcv_wnd t))"
  define d where "d = tcp_checksum (local_ip t) (remote_ip t) (hdr 0 @ rd_bytes data 0 (unat len)) (20 + len)"
  have l: "length (hdr d @ rd_bytes data 0 (unat len)) = unat (20 + len)" by (simp add: n hdr_def)
  obtain c where c: "ip_send (remote_ip t) 6 (mem_of (hdr d @ rd_bytes data 0 (unat len)) (\<lambda>_. 0)) (20 + len) (nic_of s) =
      Some ((nic_of s)\<lparr>ip_id := ip_id (nic_of s) + 1, sent := sent (nic_of s) @ [eth_hdr (replicate 6 0xFF) my_mac ETH_TYPE_IP @
          ip_hdr (20 + (20 + len)) (ip_id (nic_of s)) 6 c my_ip (remote_ip t) @ (hdr d @ rd_bytes data 0 (unat len))]\<rparr>)"
    using ip_send_frame [of "20 + len" "remote_ip t" 6 "mem_of (hdr d @ rd_bytes data 0 (unat len)) (\<lambda>_. 0)" "nic_of s",
        unfolded rd_bytes_mem_of [OF l]] n assms(1)
    by auto
  have e: "tcp_send_segment i fl data len s = do { n \<leftarrow> ip_send (remote_ip t) 6 (mem_of (hdr d @ rd_bytes data 0 (unat len)) (\<lambda>_. 0)) (20 + len) (nic_of s);
      Some (set_tcb i (t\<lparr>snd_nxt := (if fl AND TCP_SYN \<noteq> 0 \<or> fl AND TCP_FIN \<noteq> 0
          then snd_nxt t + 1 else snd_nxt t + ucast len)\<rparr>) (s\<lparr>nic_of := n\<rparr>)) }"
    by (simp add: tcp_send_segment_def Let_def assms(2) hdr_def d_def)
  have x: "20 + (20 + len) = 40 + len" by (simp add: add.assoc [symmetric])
  show ?thesis
    unfolding e c x by (intro exI [of _ c] exI [of _ d]) (simp add: hdr_def)
qed

lemma rx_bytes_upd [simp]:
  "rx_bytes (t\<lparr>snd_nxt := k\<rparr>) = rx_bytes t" "rx_bytes (t\<lparr>rcv_nxt := k\<rparr>) = rx_bytes t"
  by (simp_all add: rx_bytes_def split: option.split)

text \<open>The frame of an acknowledgement: no data, the flag ACK, and the next byte that the control block expects.\<close>

definition ack_frame :: "tcb \<Rightarrow> u32 \<Rightarrow> u16 \<Rightarrow> u16 \<Rightarrow> u16 \<Rightarrow> u8 list" where
  "ack_frame t ack ident c d = eth_hdr (replicate 6 0xFF) my_mac ETH_TYPE_IP @ ip_hdr 40 ident 6 c my_ip (remote_ip t) @
     tcp_hdr (local_port t) (remote_port t) (htonl (snd_nxt t)) (htonl ack) TCP_ACK (htons (rcv_wnd t)) d"

lemma store_data_keeps:
  assumes "store_data xs t = Some t1"
  shows "local_port t1 = local_port t" "remote_port t1 = remote_port t" "remote_ip t1 = remote_ip t" "snd_nxt t1 = snd_nxt t"
    "rcv_wnd t1 = rcv_wnd t"
  using assms by (auto simp: store_data_def bind_eq_Some_conv split: if_splits)

text \<open>A data segment in memory, at the receiver that waits for it and has room.\<close>

lemma tcp_receive_data:
  assumes h: "h = mem_of (tcp_hdr sp dp (htonl sq) (htonl ack) (TCP_ACK OR TCP_PSH) w c @ xs) r"
    and n: "length xs = unat len" "0 < unat len" "unat len \<le> 1446"
    and j: "tcp_find a b sp dp s = Some j" and wf: "tcp_wf s"
    and t: "t = tcp_table s ! j" "tstate t = TCP_ESTABLISHED" "rcv_nxt t = sq" "rx_buffer t \<noteq> None" "length (rx_bytes t) + unat len \<le> 4096"
  shows "\<exists>s'. tcp_handle_packet a b h (20 + len) s = Some s' \<and>
    rx_bytes (tcp_table s' ! j) = rx_bytes t @ xs \<and> rcv_nxt (tcp_table s' ! j) = sq + ucast len \<and>
    tstate (tcp_table s' ! j) = TCP_ESTABLISHED \<and>
    (\<exists>ci di. sent (nic_of s') = sent (nic_of s) @ [ack_frame t (sq + ucast len) (ip_id (nic_of s)) ci di]) \<and>
    (\<forall>k. k \<noteq> j \<longrightarrow> tcp_table s' ! k = tcp_table s ! k)"
proof -
  have u: "unat (20 + len) = 20 + unat len" using n by (subst unat_add_small) simp_all
  have e: "h = mem_of (tcp_hdr sp dp (htonl sq) (htonl ack) (TCP_ACK OR TCP_PSH) w c) (mem_of xs r)" by (simp add: h mem_of_append)
  note f = tcp_fields [OF e]
  have jj: "j < length (tcp_table s)" "used t" "tcb_ok t" using tcp_find_used [OF j] wf t(1) by (auto simp: tcp_wf_def)
  have hl: "ucast (drop_bit 4 (0x50 :: u8)) * 4 = (20 :: u16)" by simp
  have d: "rd_bytes h 20 (unat len) = xs"
    using f(7) n(1) rd_bytes_mem_of [of xs "unat len" r] rd_bytes_at [of h 20 0 "unat len"] by simp
  have "tcp_handle_packet a b h (20 + len) s = on_established j (TCP_ACK OR TCP_PSH) sq xs s"
    unfolding tcp_handle_packet_def u f(1,2) j Let_def f(3,5,6) hl
    using t(1,2) d by simp
  moreover have "(TCP_ACK OR TCP_PSH) AND TCP_FIN = 0" by simp
  moreover have "xs \<noteq> []" using n by auto
  moreover obtain bf where bf: "rx_buffer t = Some bf" using t(4) by auto
  moreover obtain t1 where t1: "store_data xs t = Some t1" "rx_bytes t1 = rx_bytes t @ xs" "rcv_nxt t1 = rcv_nxt t"
    using store_data_rx [OF jj(3,2) bf, of xs] t(5) n(1) by auto
  ultimately have 1: "tcp_handle_packet a b h (20 + len) s = send_ack j (set_tcb j (t1\<lparr>rcv_nxt := sq + of_nat (length xs)\<rparr>) s)"
    using t(1,3) by (simp add: on_established_def Let_def)
  have st: "tstate t1 = TCP_ESTABLISHED"
    using store_data_ok(3) [OF t1(1) jj(3,2)] n t(2) by simp
  define t2 where "t2 = t1\<lparr>rcv_nxt := sq + of_nat (length xs)\<rparr>"
  have t2: "tcp_table (set_tcb j t2 s) ! j = t2" using jj(1) by simp
  obtain c' d' where 2: "send_ack j (set_tcb j t2 s) = Some (set_tcb j (t2\<lparr>snd_nxt := snd_nxt t2\<rparr>) (set_tcb j t2 s\<lparr>nic_of := (nic_of s)
        \<lparr>ip_id := ip_id (nic_of s) + 1, sent := sent (nic_of s) @ [eth_hdr (replicate 6 0xFF) my_mac ETH_TYPE_IP @
          ip_hdr 40 (ip_id (nic_of s)) 6 c' my_ip (remote_ip t2) @
          tcp_hdr (local_port t2) (remote_port t2) (htonl (snd_nxt t2)) (htonl (rcv_nxt t2)) TCP_ACK (htons (rcv_wnd t2)) d' @
          rd_bytes (\<lambda>_. 0) 0 0]\<rparr>\<rparr>))"
    using tcp_send_segment_frame [OF _ t2 [symmetric], of 0 TCP_ACK "\<lambda>_. 0"] by (auto simp: send_ack_def)
  have l: "of_nat (length xs) = (ucast len :: u32)" using n(1) by simp
  have z: "rd_bytes (\<lambda>_. 0) 0 0 = []" by (simp add: rd_bytes_def)
  show ?thesis
    unfolding 1 t2_def [symmetric] 2
    using jj(1) t1(2) st store_data_keeps [OF t1(1)] by (auto simp: t2_def l ack_frame_def z)
qed

lemma handle_tcp_segment:
  assumes h: "h = mem_of (ip_hdr (40 + len) i 6 c a b @ xs) r"
  shows "handle_tcp h s = map_option (\<lambda>t. s\<lparr>tcp_of := t\<rparr>) (tcp_handle_packet a b (mem_of xs r) (20 + len) (tcp_of s))"
proof -
  have e: "h = mem_of (ip_hdr (40 + len) i 6 c a b) (mem_of xs r)" by (simp add: h mem_of_append)
  note ip = ip_fields [OF e]
  have l: "ip_hdr_len h = 20" using ip_hdr_len_std [of h] ip(1) by simp
  have "word_of_int (uint (40 + len) - 20) = 40 + len - (20 :: u16)" by simp
  also have "\<dots> = 20 + len" by (simp add: algebra_simps)
  finally have w: "word_of_int (uint (40 + len) - 20) = (20 + len :: u16)" .
  show ?thesis
    unfolding handle_tcp_def Let_def l ip htons_htons w using ip(6) by simp
qed

text \<open>
  C31. TCP data from one host to the other: data of 1 to 1446 bytes sent on an established connection
  goes out as one frame; a host whose own established connection has the mirrored ports, expects
  the sender's next sequence number and has room, appends exactly the data to what its reader has
  not read yet, expects the sender's new sequence number, leaves its other connections alone, and
  answers with exactly one frame: a segment without data from its port to the sender's, to the remote
  address of its connection, with the flag ACK alone, its own sequence number, and as acknowledgement
  number the sender's new sequence number, that is the number of the first byte behind the data.
\<close>

theorem tcp_delivery:
  assumes n: "0 < unat len" "unat len \<le> 1446" and ti: "ti = tcp_table s ! i" "i < length (tcp_table s)" "tstate ti = TCP_ESTABLISHED"
    and j: "tcp_find my_ip (remote_ip ti) (local_port ti) (remote_port ti) (tcp_of r) = Some j" and wf: "tcp_wf (tcp_of r)"
    and tj: "tj = tcp_table (tcp_of r) ! j" "tstate tj = TCP_ESTABLISHED" "rcv_nxt tj = snd_nxt ti" "rx_buffer tj \<noteq> None"
      "length (rx_bytes tj) + unat len \<le> 4096"
  shows "\<exists>s1 frame r1. tcp_send_data (Some i) data len s = Some (uint len, s1) \<and> sent (nic_of s1) = sent (nic_of s) @ [frame] \<and>
    handle_ethernet (mem_of frame rest) r = Some r1 \<and>
    rx_bytes (tcp_table (tcp_of r1) ! j) = rx_bytes tj @ rd_bytes data 0 (unat len) \<and>
    rcv_nxt (tcp_table (tcp_of r1) ! j) = snd_nxt (tcp_table s1 ! i) \<and>
    snd_nxt (tcp_table s1 ! i) = snd_nxt ti + ucast len \<and>
    (\<exists>ci di. sent (nic_of (tcp_of r1)) = sent (nic_of (tcp_of r)) @ [eth_hdr (replicate 6 0xFF) my_mac ETH_TYPE_IP @
        ip_hdr 40 (ip_id (nic_of (tcp_of r))) 6 ci my_ip (remote_ip tj) @
        tcp_hdr (local_port tj) (remote_port tj) (htonl (snd_nxt tj)) (htonl (snd_nxt ti + ucast len)) TCP_ACK (htons (rcv_wnd tj)) di]) \<and>
    (\<forall>k. k \<noteq> j \<longrightarrow> tcp_table (tcp_of r1) ! k = tcp_table (tcp_of r) ! k)"
proof -
  define fl where "fl = (TCP_ACK OR TCP_PSH)"
  have fl: "fl AND TCP_SYN = 0" "fl AND TCP_FIN = 0" by (simp_all add: fl_def)
  obtain c d where 1: "tcp_send_segment i fl data len s = Some (set_tcb i (ti\<lparr>snd_nxt := (if fl AND TCP_SYN \<noteq> 0 \<or> fl AND TCP_FIN \<noteq> 0
          then snd_nxt ti + 1 else snd_nxt ti + ucast len)\<rparr>) (s\<lparr>nic_of := (nic_of s)\<lparr>ip_id := ip_id (nic_of s) + 1,
        sent := sent (nic_of s) @ [eth_hdr (replicate 6 0xFF) my_mac ETH_TYPE_IP @
          ip_hdr (40 + len) (ip_id (nic_of s)) 6 c my_ip (remote_ip ti) @
          tcp_hdr (local_port ti) (remote_port ti) (htonl (snd_nxt ti)) (htonl (rcv_nxt ti)) fl (htons (rcv_wnd ti)) d @
          rd_bytes data 0 (unat len)]\<rparr>\<rparr>))"
    using tcp_send_segment_frame [OF n(2) ti(1)] by blast
  define xs where "xs = tcp_hdr (local_port ti) (remote_port ti) (htonl (snd_nxt ti)) (htonl (rcv_nxt ti)) fl (htons (rcv_wnd ti)) d @
          rd_bytes data 0 (unat len)"
  define ys where "ys = ip_hdr (40 + len) (ip_id (nic_of s)) 6 c my_ip (remote_ip ti) @ xs"
  have seg: "mem_of xs rest = mem_of (tcp_hdr (local_port ti) (remote_port ti) (htonl (snd_nxt ti)) (htonl (rcv_nxt ti)) (TCP_ACK OR TCP_PSH)
      (htons (rcv_wnd ti)) d @ rd_bytes data 0 (unat len)) rest" by (simp add: xs_def fl_def)
  have ln: "length (rd_bytes data 0 (unat len)) = unat len" by simp
  obtain r1 where r1: "tcp_handle_packet my_ip (remote_ip ti) (mem_of xs rest) (20 + len) (tcp_of r) = Some r1"
    "rx_bytes (tcp_table r1 ! j) = rx_bytes tj @ rd_bytes data 0 (unat len)" "rcv_nxt (tcp_table r1 ! j) = snd_nxt ti + ucast len"
    "\<exists>ci di. sent (nic_of r1) = sent (nic_of (tcp_of r)) @ [ack_frame tj (snd_nxt ti + ucast len) (ip_id (nic_of (tcp_of r))) ci di]" "\<forall>k. k \<noteq> j \<longrightarrow> tcp_table r1 ! k = tcp_table (tcp_of r) ! k"
    using tcp_receive_data [OF seg ln n j wf tj] by blast
  have ip: "mem_of ys rest 9 = 6"
    using ip_fields(3) [of "mem_of ys rest" "40 + len" "ip_id (nic_of s)" 6 c my_ip "remote_ip ti" "mem_of xs rest"]
    by (simp add: ys_def mem_of_append)
  have e: "handle_ethernet (mem_of (eth_hdr (replicate 6 0xFF) my_mac ETH_TYPE_IP @ ys) rest) r = handle_tcp (mem_of ys rest) r"
    by (subst handle_ethernet_ip [OF refl _ _ refl]) (simp_all add: ip)
  also have "\<dots> = Some (r\<lparr>tcp_of := r1\<rparr>)"
    using handle_tcp_segment [of "mem_of ys rest" len "ip_id (nic_of s)" c my_ip "remote_ip ti" xs rest r] r1(1) by (simp add: ys_def)
  finally have 2: "handle_ethernet (mem_of (eth_hdr (replicate 6 0xFF) my_mac ETH_TYPE_IP @ ys) rest) r = Some (r\<lparr>tcp_of := r1\<rparr>)" .
  have 3: "tcp_send_data (Some i) data len s = Some (uint len, set_tcb i (ti\<lparr>snd_nxt := snd_nxt ti + ucast len\<rparr>)
      (s\<lparr>nic_of := (nic_of s)\<lparr>ip_id := ip_id (nic_of s) + 1,
        sent := sent (nic_of s) @ [eth_hdr (replicate 6 0xFF) my_mac ETH_TYPE_IP @ ys]\<rparr>\<rparr>))"
  proof -
    have "tcp_send_data (Some i) data len s = do { s1 \<leftarrow> tcp_send_segment i fl data len s; Some (uint len, s1) }"
      using ti by (simp add: tcp_send_data_def fl_def)
    then show ?thesis using 1 fl by (simp add: ys_def xs_def)
  qed
  show ?thesis
    using 2 3 r1(2,3,5) r1(4) [unfolded ack_frame_def] ti(2)
    by (intro exI [of _ "set_tcb i (ti\<lparr>snd_nxt := snd_nxt ti + ucast len\<rparr>) (s\<lparr>nic_of := (nic_of s)\<lparr>ip_id := ip_id (nic_of s) + 1,
        sent := sent (nic_of s) @ [eth_hdr (replicate 6 0xFF) my_mac ETH_TYPE_IP @ ys]\<rparr>\<rparr>)"]
        exI [of _ "eth_hdr (replicate 6 0xFF) my_mac ETH_TYPE_IP @ ys"] exI [of _ "r\<lparr>tcp_of := r1\<rparr>"] conjI) simp_all
qed

subsection \<open>The ARP cache\<close>

text \<open>No two valid entries are for the same address.\<close>

definition arp_inv :: "arp_entry list \<Rightarrow> bool" where
  "arp_inv t \<longleftrightarrow> (\<forall>i j. i < length t \<longrightarrow> j < length t \<longrightarrow> a_valid (t ! i) \<longrightarrow> a_valid (t ! j) \<longrightarrow> a_ip (t ! i) = a_ip (t ! j) \<longrightarrow> i = j)"

definition arp_map :: "arp_entry list \<Rightarrow> u32 \<Rightarrow> u8 list option" where
  "arp_map t ip = arp_cache_lookup ip t"

lemma arp_map_Some:
  assumes "arp_inv t"
  shows "arp_map t ip = Some m \<longleftrightarrow> (\<exists>i < length t. a_valid (t ! i) \<and> a_ip (t ! i) = ip \<and> a_mac (t ! i) = m)"
proof
  assume "arp_map t ip = Some m"
  then show "\<exists>i < length t. a_valid (t ! i) \<and> a_ip (t ! i) = ip \<and> a_mac (t ! i) = m"
    using first_idx_SomeD by (fastforce simp: arp_map_def arp_cache_lookup_def)
next
  assume "\<exists>i < length t. a_valid (t ! i) \<and> a_ip (t ! i) = ip \<and> a_mac (t ! i) = m"
  then obtain i where i: "i < length t" "a_valid (t ! i)" "a_ip (t ! i) = ip" "a_mac (t ! i) = m" by blast
  then obtain k where k: "first_idx (\<lambda>e. a_valid e \<and> a_ip e = ip) t = Some k"
    using first_idx_None [of "\<lambda>e. a_valid e \<and> a_ip e = ip" t] by (metis (mono_tags, lifting) nth_mem option.exhaust)
  have "k = i" using first_idx_SomeD(1,2) [OF k] i assms unfolding arp_inv_def by blast
  then show "arp_map t ip = Some m" using k i by (simp add: arp_map_def arp_cache_lookup_def)
qed

lemma arp_map_None: "arp_map t ip = None \<longleftrightarrow> (\<forall>e \<in> set t. a_valid e \<longrightarrow> a_ip e \<noteq> ip)"
  by (auto simp: arp_map_def arp_cache_lookup_def first_idx_None)

lemma arp_write:
  assumes t: "arp_inv t" "k < length t" and k: "\<And>i. i < length t \<Longrightarrow> a_valid (t ! i) \<Longrightarrow> a_ip (t ! i) = ip \<Longrightarrow> i = k"
    and old: "a_valid (t ! k) \<Longrightarrow> a_ip (t ! k) = ip" and e: "a_valid e" "a_ip e = ip"
  shows "arp_inv (t[k := e]) \<and> arp_map (t[k := e]) = (arp_map t)(ip \<mapsto> a_mac e)"
proof -
  have at: "t[k := e] ! i = (if i = k then e else t ! i)" if "i < length t" for i
    using that by simp
  have inv: "arp_inv (t[k := e])"
    unfolding arp_inv_def
  proof (intro allI impI)
    fix i j
    assume a: "i < length (t[k := e])" "j < length (t[k := e])" "a_valid (t[k := e] ! i)" "a_valid (t[k := e] ! j)"
      "a_ip (t[k := e] ! i) = a_ip (t[k := e] ! j)"
    show "i = j"
    proof (cases "i = k"; cases "j = k")
      assume "i = k" "j \<noteq> k"
      then have "j = k" using a at [of i] at [of j] e(2) by (intro k) simp_all
      then show ?thesis using \<open>i = k\<close> by simp
    next
      assume "i \<noteq> k" "j = k"
      then have "i = k" using a at [of i] at [of j] e(2) by (intro k) simp_all
      then show ?thesis using \<open>j = k\<close> by simp
    next
      assume "i \<noteq> k" "j \<noteq> k"
      then have "a_valid (t ! i)" "a_valid (t ! j)" "a_ip (t ! i) = a_ip (t ! j)" using a at [of i] at [of j] by simp_all
      then show ?thesis using t(1) a(1,2) unfolding arp_inv_def length_list_update by blast
    qed simp
  qed
  have "arp_map (t[k := e]) x = ((arp_map t)(ip \<mapsto> a_mac e)) x" for x
  proof (cases "x = ip")
    case True
    then show ?thesis
      using arp_map_Some [OF inv, of ip "a_mac e"] t(2) e by (auto intro: exI [of _ k])
  next
    case False
    have "(\<exists>i < length t. a_valid (t[k := e] ! i) \<and> a_ip (t[k := e] ! i) = x \<and> a_mac (t[k := e] ! i) = m) \<longleftrightarrow>
       (\<exists>i < length t. a_valid (t ! i) \<and> a_ip (t ! i) = x \<and> a_mac (t ! i) = m)" for m
    proof -
      have "a_valid (t[k := e] ! i) \<and> a_ip (t[k := e] ! i) = x \<and> a_mac (t[k := e] ! i) = m \<longleftrightarrow>
         a_valid (t ! i) \<and> a_ip (t ! i) = x \<and> a_mac (t ! i) = m" if "i < length t" for i
        using that False e(2) old by (cases "i = k") (auto simp: at)
      then show ?thesis by blast
    qed
    then have "arp_map (t[k := e]) x = Some m \<longleftrightarrow> arp_map t x = Some m" for m
      using arp_map_Some [OF inv, of x m] arp_map_Some [OF t(1), of x m] by simp
    then show ?thesis using False by (metis fun_upd_other option.exhaust)
  qed
  then show ?thesis using inv by (simp add: fun_eq_iff)
qed

text \<open>
  The ARP cache is a finite map: with at most one valid entry per address, which every insert
  keeps, an insert updates the map at the address when the address is known or a slot is free, and
  otherwise changes nothing; a lookup returns what was inserted last.
\<close>

theorem arp_cache_refines:
  assumes "arp_inv t"
  shows "arp_inv (arp_cache_insert ip mac t) \<and>
    arp_map (arp_cache_insert ip mac t) =
      (if arp_map t ip \<noteq> None \<or> (\<exists>e \<in> set t. \<not> a_valid e) then (arp_map t)(ip \<mapsto> mac) else arp_map t)"
proof (cases "first_idx (\<lambda>e. a_valid e \<and> a_ip e = ip) t")
  case (Some k)
  note k = first_idx_SomeD(1,2) [OF Some]
  have "arp_inv (t[k := (t ! k)\<lparr>a_mac := mac\<rparr>]) \<and> arp_map (t[k := (t ! k)\<lparr>a_mac := mac\<rparr>]) = (arp_map t)(ip \<mapsto> mac)"
  proof -
    have "i = k" if "i < length t" "a_valid (t ! i)" "a_ip (t ! i) = ip" for i
      using assms that k unfolding arp_inv_def by blast
    then show ?thesis using arp_write [OF assms k(1), of ip "(t ! k)\<lparr>a_mac := mac\<rparr>"] k(2) by simp
  qed
  moreover have "arp_map t ip \<noteq> None" using Some by (simp add: arp_map_def arp_cache_lookup_def)
  ultimately show ?thesis using Some by (simp add: arp_cache_insert_def)
next
  case None
  then have no: "\<forall>e \<in> set t. \<not> (a_valid e \<and> a_ip e = ip)" by (simp add: first_idx_None)
  show ?thesis
  proof (cases "first_idx (\<lambda>e. \<not> a_valid e) t")
    case (Some k)
    note k = first_idx_SomeD(1,2) [OF Some]
    let ?e = "(t ! k)\<lparr>a_ip := ip, a_mac := mac, a_valid := True\<rparr>"
    have "arp_inv (t[k := ?e]) \<and> arp_map (t[k := ?e]) = (arp_map t)(ip \<mapsto> mac)"
    proof -
      have "i = k" if "i < length t" "a_valid (t ! i)" "a_ip (t ! i) = ip" for i
        using no that nth_mem by blast
      then show ?thesis using arp_write [OF assms k(1), of ip ?e] k(2) by simp
    qed
    moreover have "\<exists>e \<in> set t. \<not> a_valid e" using k by (auto intro: nth_mem)
    ultimately show ?thesis using Some None by (simp add: arp_cache_insert_def)
  next
    case None2: None
    then have "\<not> (\<exists>e \<in> set t. \<not> a_valid e)" by (simp add: first_idx_None)
    moreover have "arp_map t ip = None" using no by (auto simp: arp_map_None)
    ultimately show ?thesis using assms None None2 by (simp add: arp_cache_insert_def)
  qed
qed

lemma arp_cache_refines_witness:
  "arp_map (arp_cache_insert 7 [1] (replicate 16 \<lparr>a_ip = 0, a_mac = [], a_valid = False\<rparr>)) =
     (arp_map (replicate 16 \<lparr>a_ip = 0, a_mac = [], a_valid = False\<rparr>))(7 \<mapsto> [1])"
  using arp_cache_refines [of "replicate 16 \<lparr>a_ip = 0, a_mac = [], a_valid = False\<rparr>" 7 "[1]"]
  by (simp add: arp_inv_def)

text \<open>
  The test whether an address is local masks the first octet away instead of the last, because
  the words are in network order: 10.0.2.3 of the own subnet goes through the gateway, and
  11.0.2.15 of another network does not.
\<close>

lemma routing_mask: "route_ip 0x0302000A = gateway_ip" "route_ip 0x0F02000B = 0x0F02000B"
  by (simp_all add: route_ip_def my_ip_def)

text \<open>An ARP request for the own address is answered by both stacks, with the same frame.\<close>

lemma arp_answered_twice:
  assumes "rd16 m 12 = htons ETH_TYPE_ARP" "rd16 m 20 = htons 1" "rd32 m 38 = my_ip" "timer_count s < 98" "n = 42"
  shows "\<exists>s' f. net_poll (m, n) s = Some s' \<and>
    sent (nic_of (tcp_of s')) = sent (nic_of (tcp_of s)) @ [f, f]"
proof -
  define f where "f = eth_hdr (rd_bytes m 22 6) my_mac ETH_TYPE_ARP @ arp_pkt 2 my_mac my_ip (rd_bytes m 22 6) (rd32 m 28)"
  define s1 where "s1 = s\<lparr>timer_count := timer_count s + 1\<rparr>"
  have 1: "net_stack_rx m 42 s1 = Some (send_frame f s1)"
    using assms(1-3) by (simp add: net_stack_rx_def Let_def rd_at rd_bytes_at f_def)
  have 2: "handle_ethernet m (send_frame f s1) = Some (send_frame f (send_frame f s1))"
    using assms(1-3) by (simp add: handle_ethernet_def Let_def on_nic_def handle_arp_def send_arp_reply_def rd_at rd_bytes_at f_def send_frame_def)
  have "net_poll (m, n) s = Some (send_frame f (send_frame f s1))"
    using assms(4,5) 1 2 by (simp add: net_poll_def s1_def)
  then show ?thesis
    by (intro exI [of _ "send_frame f (send_frame f s1)"] exI [of _ f]) (simp add: send_frame_def e1000_send_def s1_def)
qed

subsection \<open>The client connection\<close>

lemma send_frame_simps [simp]:
  "arp_table (send_frame f s) = arp_table s" "tcp_sockets (send_frame f s) = tcp_sockets s" "now_ms (send_frame f s) = now_ms s"
  "sent (nic_of (tcp_of (send_frame f s))) = sent (nic_of (tcp_of s)) @ [f]"
  by (simp_all add: send_frame_def e1000_send_def)

lemma upd_socket_simps [simp]:
  "arp_table (upd_socket i g s) = arp_table s" "now_ms (upd_socket i g s) = now_ms s" "tcp_of (upd_socket i g s) = tcp_of s"
  "heap_ok (upd_socket i g s) = heap_ok s" "ns_ip_id (upd_socket i g s) = ns_ip_id s"
  "tcp_sockets (upd_socket i g s) = (tcp_sockets s)[i := g (tcp_sockets s ! i)]"
  by (simp_all add: upd_socket_def)

text \<open>A segment leaves in one frame when the route is resolved; else an ARP request leaves instead of it.\<close>

lemma ns_tcp_send_segment_spec:
  assumes "i < length (tcp_sockets s)" "k = tcp_sockets s ! i"
  shows "\<exists>s' f. ns_tcp_send_segment i fl s = Some s' \<and> sent (nic_of (tcp_of s')) = sent (nic_of (tcp_of s)) @ [f] \<and>
    tcp_sockets s' = (tcp_sockets s)[i := k\<lparr>last_tx_time := ucast (now_ms s),
       s_snd_nxt := (if fl AND TCP_SYN \<noteq> 0 then s_snd_nxt k + 1 else s_snd_nxt k)\<rparr>] \<and>
    (\<forall>mac. arp_cache_lookup (route_ip (s_dst_ip k)) (arp_table s) = Some mac \<longrightarrow>
       (\<exists>c. f = eth_hdr mac my_mac ETH_TYPE_IP @ ip_hdr 40 (ns_ip_id s) 6 c my_ip (s_dst_ip k) @ ns_tcp_segment (heap_ok s) k fl))"
proof -
  have l: "length (ns_tcp_segment (heap_ok s) k fl) = 20" by (simp add: ns_tcp_segment_def Let_def)
  show ?thesis
  proof (cases "arp_cache_lookup (route_ip (s_dst_ip k)) (arp_table s)")
    case None
    then show ?thesis
      using assms l by (simp add: ns_tcp_send_segment_def ns_ip_send_def ethernet_send_def arp_send_request_def Let_def)
  next
    case (Some mac)
    then show ?thesis
      using assms l by (auto simp: ns_tcp_send_segment_def ns_ip_send_def ethernet_send_def Let_def)
  qed
qed

text \<open>
  The timer: a connection that has waited more than a second for its SYN to be answered sends one
  frame again, with the sequence number of the first SYN, and the clock of the connection is set
  to now; otherwise nothing happens.
\<close>

lemma syn_retransmit:
  assumes "i < length (tcp_sockets s)" "k = tcp_sockets s ! i"
  shows "\<exists>s'. timer_poll_one i s = Some s' \<and>
    (if s_used k \<and> s_state k = NS_SYN_SENT \<and> ucast (now_ms s) - last_tx_time k > TCP_RETRANS_TIMEOUT
     then tcp_sockets s' = (tcp_sockets s)[i := k\<lparr>last_tx_time := ucast (now_ms s)\<rparr>] \<and>
       (\<exists>f. sent (nic_of (tcp_of s')) = sent (nic_of (tcp_of s)) @ [f] \<and>
         (\<forall>mac. arp_cache_lookup (route_ip (s_dst_ip k)) (arp_table s) = Some mac \<longrightarrow>
           (\<exists>c. f = eth_hdr mac my_mac ETH_TYPE_IP @ ip_hdr 40 (ns_ip_id s) 6 c my_ip (s_dst_ip k) @
               ns_tcp_segment (heap_ok s) (k\<lparr>s_snd_nxt := s_snd_nxt k - 1\<rparr>) TCP_SYN)))
     else s' = s)"
proof (cases "s_used k \<and> s_state k = NS_SYN_SENT \<and> ucast (now_ms s) - last_tx_time k > TCP_RETRANS_TIMEOUT")
  case True
  define s1 where "s1 = upd_socket i (\<lambda>k. k\<lparr>s_snd_nxt := s_snd_nxt k - 1\<rparr>) s"
  have k1: "i < length (tcp_sockets s1)" "k\<lparr>s_snd_nxt := s_snd_nxt k - 1\<rparr> = tcp_sockets s1 ! i" using assms by (simp_all add: s1_def)
  have e: "timer_poll_one i s = ns_tcp_send_segment i TCP_SYN s1"
    using True assms(2) by (simp add: timer_poll_one_def Let_def s1_def)
  show ?thesis
    unfolding e using ns_tcp_send_segment_spec [OF k1, of TCP_SYN] True by (auto simp: s1_def assms(2))
qed (use assms in \<open>auto simp: timer_poll_one_def Let_def\<close>)

text \<open>A connection becomes established only by a SYN-ACK that acknowledges exactly what was sent.\<close>

lemma ns_handshake:
  assumes "tcp_rx src m len s = Some s'" "i < length (tcp_sockets s)" "s_state (tcp_sockets s ! i) \<noteq> NS_ESTABLISHED"
    "s_state (tcp_sockets s' ! i) = NS_ESTABLISHED"
  shows "m 13 AND 0x12 = 0x12" "htonl (rd32 m 8) = s_snd_nxt (tcp_sockets s ! i)" "s_dst_ip (tcp_sockets s ! i) = src"
    "s_rcv_nxt (tcp_sockets s' ! i) = htonl (rd32 m 4) + 1"
proof -
  obtain j where j: "tcp_lookup src (htons (rd16 m 0)) (htons (rd16 m 2)) s = Some j" "m 13 AND 0x12 = 0x12"
    "htonl (rd32 m 8) = s_snd_nxt (tcp_sockets s ! j)"
    and r: "ns_tcp_send_segment j TCP_ACK (upd_socket j (\<lambda>k. k\<lparr>s_rcv_nxt := htonl (rd32 m 4) + 1, s_snd_una := htonl (rd32 m 8),
        s_state := NS_ESTABLISHED\<rparr>) s) = Some s'"
    using assms by (auto simp: tcp_rx_def Let_def split: if_splits option.splits)
  have jl: "j < length (tcp_sockets s)" "s_dst_ip (tcp_sockets s ! j) = src"
    using first_idx_SomeD [OF j(1) [unfolded tcp_lookup_def]] by auto
  define s1 where "s1 = upd_socket j (\<lambda>k. k\<lparr>s_rcv_nxt := htonl (rd32 m 4) + 1, s_snd_una := htonl (rd32 m 8),
        s_state := NS_ESTABLISHED\<rparr>) s"
  have "tcp_sockets s' = (tcp_sockets s1)[j := (tcp_sockets s1 ! j)\<lparr>last_tx_time := ucast (now_ms s1),
       s_snd_nxt := s_snd_nxt (tcp_sockets s1 ! j)\<rparr>]"
    using ns_tcp_send_segment_spec [of j s1 "tcp_sockets s1 ! j" TCP_ACK] r [folded s1_def] jl by (auto simp: s1_def)
  then have t: "tcp_sockets s' ! i = (if i = j then (tcp_sockets s1 ! j)\<lparr>last_tx_time := ucast (now_ms s1),
       s_snd_nxt := s_snd_nxt (tcp_sockets s1 ! j)\<rparr> else tcp_sockets s ! i)"
    using assms(2) jl by (simp add: s1_def)
  have "i = j" using t assms(3,4) by (cases "i = j") simp_all
  then show "m 13 AND 0x12 = 0x12" "htonl (rd32 m 8) = s_snd_nxt (tcp_sockets s ! i)" "s_dst_ip (tcp_sockets s ! i) = src"
    "s_rcv_nxt (tcp_sockets s' ! i) = htonl (rd32 m 4) + 1"
    using j jl t by (simp_all add: s1_def)
qed

subsection \<open>Sample hosts\<close>

definition demo_net :: net where
  "demo_net = \<lparr>tcp_of = demo_tcp\<lparr>nic_of := demo_nic\<lparr>udp_port_table := (replicate 256 0)[53 := 0x1000]\<rparr>\<rparr>,
     arp_table = [], tcp_sockets = [], ns_ip_id = 0, now_ms = 0, heap_ok = True, timer_count = 0\<rparr>"

lemma udp_delivery_witness:
  "\<exists>n1 frame. udp_send my_ip 1000 my_ip 53 (\<lambda>i. of_nat i) 3 demo_nic = Some n1 \<and> sent n1 = [frame] \<and> length frame = 45 \<and>
     handle_ethernet (mem_of frame (\<lambda>_. 0)) demo_net = on_nic (\<lambda>n. Some (n\<lparr>udp_calls := udp_calls n @
        [(0x1000, my_ip, 1000, rd_bytes (\<lambda>i. of_nat i) 0 3)]\<rparr>)) demo_net"
  using udp_delivery [where len = 3 and dp = 53 and s = demo_net and f = "0x1000" and src = my_ip and sp = 1000 and dst = my_ip
      and data = "\<lambda>i. of_nat i" and nx = demo_nic and rest = "\<lambda>_. 0"]
  by (simp add: demo_net_def demo_nic_def)

text \<open>Two hosts with an established connection, ports 1 and 80; the address is the one \<open>ip_send\<close> writes.\<close>

definition demo_peer :: "u16 \<Rightarrow> u16 \<Rightarrow> u32 \<Rightarrow> u32 \<Rightarrow> net" where
  "demo_peer lp rp sn rn = demo_net\<lparr>tcp_of := demo_tcp\<lparr>tcp_table := (replicate 16 zero_tcb)[0 :=
     zero_tcb\<lparr>used := True, local_ip := my_ip, remote_ip := my_ip, local_port := lp, remote_port := rp, snd_nxt := sn,
       rcv_nxt := rn, rcv_wnd := 4096, tstate := TCP_ESTABLISHED, rx_buffer := Some (replicate 4096 0), rx_capacity := 4096\<rparr>]\<rparr>\<rparr>"

lemma demo_peer_table:
  "tcp_table (tcp_of (demo_peer lp rp sn rn)) = zero_tcb\<lparr>used := True, local_ip := my_ip, remote_ip := my_ip, local_port := lp,
     remote_port := rp, snd_nxt := sn, rcv_nxt := rn, rcv_wnd := 4096, tstate := TCP_ESTABLISHED,
     rx_buffer := Some (replicate 4096 0), rx_capacity := 4096\<rparr> # replicate 15 zero_tcb"
proof -
  have "replicate 16 zero_tcb = zero_tcb # replicate 15 zero_tcb" by (metis replicate_Suc numeral_nat(1) eval_nat_numeral(3) numeral_eq_Suc pred_numeral_simps(2) BitM.simps)
  then show ?thesis by (simp add: demo_peer_def)
qed

lemma tcp_delivery_witness:
  "\<exists>s1 frame r1. tcp_send_data (Some 0) (\<lambda>_. 65) 2 (tcp_of (demo_peer 1 80 500 900)) = Some (2, s1) \<and>
     sent (nic_of s1) = [frame] \<and> handle_ethernet (mem_of frame (\<lambda>_. 0)) (demo_peer 80 1 900 500) = Some r1 \<and>
     rx_bytes (tcp_table (tcp_of r1) ! 0) = [65, 65] \<and>
     (\<exists>c d. sent (nic_of (tcp_of r1)) = [eth_hdr (replicate 6 0xFF) my_mac ETH_TYPE_IP @ ip_hdr 40 1 6 c my_ip my_ip @
        tcp_hdr 80 1 (htonl 900) (htonl 502) TCP_ACK (htons 4096) d])"
proof -
  have wf: "tcp_wf (tcp_of (demo_peer 80 1 900 500))"
    by (simp add: tcp_wf_def demo_peer_table tcb_ok_def) (simp add: zero_tcb_def)
  have f: "tcp_find my_ip my_ip 1 80 (tcp_of (demo_peer 80 1 900 500)) = Some 0"
    by (simp add: tcp_find_def demo_peer_table)
  have x: "rd_bytes (\<lambda>_. 65) 0 2 = [65, 65]" by (simp add: rd_bytes_def upt_rec)
  have z: "rx_len zero_tcb = 0" by (simp add: zero_tcb_def)
  have rb: "rx_bytes (tcp_table (tcp_of (demo_peer 80 1 900 500)) ! 0) = []" by (simp add: rx_bytes_def demo_peer_table z)
  have n: "sent (nic_of (tcp_of (demo_peer lp rp sn rn))) = []" "ip_id (nic_of (tcp_of (demo_peer lp rp sn rn))) = 1" for lp rp sn rn
    by (simp_all add: demo_peer_def demo_tcp_def demo_nic_def)
  note d = tcp_delivery [where len = 2 and i = 0 and j = 0 and s = "tcp_of (demo_peer 1 80 500 900)" and r = "demo_peer 80 1 900 500"
      and data = "\<lambda>_. 65" and rest = "\<lambda>_. 0", OF _ _ refl _ _ _ wf refl]
  show ?thesis
    using d f rb by (fastforce simp: demo_peer_table x n)
qed

end
