(* ===== verification/Socket.thy ===== *)
theory Socket
  imports Pipe
begin

text \<open>
  Local sockets, \<open>kernel/socket.cpp\<close>: the table of 64 sockets, connecting and accepting, the byte
  rings and the calls on descriptors. The sockets live in blocks of the kernel heap, named by
  their address; a pointer to a freed block reads as \<open>None\<close>, and so does the whole call. The
  blocks \<open>kmalloc\<close> returns are arguments, 0 when it fails. A call that waits is its rounds, as in
  theory Pipe. The interpretation \<open>sock_fifo\<close> makes the rings queues, \<open>accept_connects\<close> and
  \<open>socket_stream\<close> say how connections are made and what they carry, \<open>socket_close_dangles\<close> what
  closing one end does to the other.
\<close>

subsection \<open>State\<close>

abbreviation MAX_SOCKETS :: nat where "MAX_SOCKETS \<equiv> 64"
abbreviation MAX_BACKLOG :: int where "MAX_BACKLOG \<equiv> 16"
abbreviation AF_UNIX :: int where "AF_UNIX \<equiv> 1"
abbreviation SOCK_STREAM :: int where "SOCK_STREAM \<equiv> 1"
abbreviation VFS_SOCKET :: u32 where "VFS_SOCKET \<equiv> 6"

datatype socket_state = SOCKET_FREE | SOCKET_BOUND | SOCKET_LISTENING | SOCKET_CONNECTING | SOCKET_CONNECTED | SOCKET_CLOSED

record socket =
  so_id :: int
  so_type :: int
  so_domain :: int
  so_state :: socket_state
  bind_path :: string
  so_path :: string
  peer :: u32
  backlog :: "u32 list"
  max_backlog :: int
  so_buffer :: "u8 list"
  so_head :: nat
  so_tail :: nat

text \<open>\<open>sockets\<close> is the table, \<open>sock_at\<close> the blocks, \<open>impl\<close> the field of that name of the nodes.\<close>

record sst =
  kst_of :: kst
  sockets :: "u32 list"
  sock_at :: "u32 \<Rightarrow> socket option"
  impl :: "u32 \<Rightarrow> u32"

definition socket_init :: "sst \<Rightarrow> sst" where
  "socket_init s = s\<lparr>sockets := replicate MAX_SOCKETS 0\<rparr>"

definition set_sock :: "u32 \<Rightarrow> socket \<Rightarrow> sst \<Rightarrow> sst" where
  "set_sock a k s = s\<lparr>sock_at := (sock_at s)(a \<mapsto> k)\<rparr>"

text \<open>
  \<open>alloc_socket\<close>: \<open>m\<close> is the block for the socket, \<open>buf\<close> the block for its buffer. The backlog is
  the list of its first \<open>backlog_count\<close> entries.
\<close>

definition fresh_socket :: "nat \<Rightarrow> u8 list \<Rightarrow> socket" where
  "fresh_socket i buf = \<lparr>so_id = int i, so_type = 0, so_domain = 0, so_state = SOCKET_FREE, bind_path = '''', so_path = '''',
     peer = 0, backlog = [], max_backlog = 0, so_buffer = buf, so_head = 0, so_tail = 0\<rparr>"

definition alloc_socket :: "u32 \<Rightarrow> u8 list option \<Rightarrow> sst \<Rightarrow> u32 \<times> sst" where
  "alloc_socket m buf s =
     (case first_idx (\<lambda>a. a = 0) (sockets s) of None \<Rightarrow> (0, s)
      | Some i \<Rightarrow>
          if m = 0 then (0, s)
          else case buf of None \<Rightarrow> (0, s)
          | Some b \<Rightarrow> (m, set_sock m (fresh_socket i b) (s\<lparr>sockets := (sockets s)[i := m]\<rparr>)))"

subsection \<open>Reading, writing and closing\<close>

definition sock_put :: "u8 \<Rightarrow> socket \<Rightarrow> socket option" where
  "sock_put b k =
     (let next_tail = (so_tail k + 1) mod 4096 in
      if next_tail = so_head k then None
      else Some (k\<lparr>so_buffer := (so_buffer k)[so_tail k := b], so_tail := next_tail\<rparr>))"

definition sock_get :: "socket \<Rightarrow> (u8 \<times> socket) option" where
  "sock_get k = (if so_head k = so_tail k then None else Some (so_buffer k ! so_head k, k\<lparr>so_head := (so_head k + 1) mod 4096\<rparr>))"

definition on_kst :: "(kst \<Rightarrow> kst option) \<Rightarrow> sst \<Rightarrow> sst option" where
  "on_kst f s = map_option (\<lambda>k. s\<lparr>kst_of := k\<rparr>) (f (kst_of s))"

text \<open>
  The loops, one round each: the result \<open>None\<close> is a caller that blocks and continues with another
  round, without the tests of the call; the writer keeps the peer it has read, and touches it only
  when there is something to write.
\<close>

definition read_round :: "u32 \<Rightarrow> nat \<Rightarrow> sst \<Rightarrow> (u8 list option \<times> sst) option" where
  "read_round a sz s = do {
     k \<leftarrow> sock_at s a;
     if sz > 0 \<and> sock_get k = None then do { s1 \<leftarrow> on_kst block_current s; Some (None, s1) }
     else do {
       let (bs, k1) = pop_all sock_get sz k;
       s1 \<leftarrow> on_kst wake_waiting (set_sock a k1 s);
       Some (Some bs, s1) } }"

definition write_round :: "u32 \<Rightarrow> u8 list \<Rightarrow> sst \<Rightarrow> (nat option \<times> sst) option" where
  "write_round p bs s =
     (if bs = [] then do { s1 \<leftarrow> on_kst wake_waiting s; Some (Some 0, s1) }
      else do {
        q \<leftarrow> sock_at s p;
        if sock_put (hd bs) q = None then do { s1 \<leftarrow> on_kst block_current s; Some (None, s1) }
        else do {
          let (n, q1) = push_all sock_put bs q;
          s1 \<leftarrow> on_kst wake_waiting (set_sock p q1 s);
          Some (Some n, s1) } })"

definition socket_read :: "u32 \<Rightarrow> nat \<Rightarrow> sst \<Rightarrow> (u8 list option \<times> sst) option" where
  "socket_read a sz s =
     (if a = 0 then Some (Some [], s)
      else do {
        k \<leftarrow> sock_at s a;
        if so_state k \<noteq> SOCKET_CONNECTED then Some (Some [], s) else read_round a sz s })"

definition socket_write :: "u32 \<Rightarrow> u8 list \<Rightarrow> sst \<Rightarrow> (nat option \<times> sst) option" where
  "socket_write a bs s =
     (if a = 0 then Some (Some 0, s)
      else do {
        k \<leftarrow> sock_at s a;
        if so_state k \<noteq> SOCKET_CONNECTED \<or> peer k = 0 then Some (Some 0, s) else write_round (peer k) bs s })"

definition socket_close :: "u32 \<Rightarrow> sst \<Rightarrow> sst option" where
  "socket_close a s =
     (if a = 0 then Some s
      else do {
        k \<leftarrow> sock_at s a;
        Some (s\<lparr>sockets := (case first_idx (\<lambda>x. x = a) (sockets s) of None \<Rightarrow> sockets s | Some i \<Rightarrow> (sockets s)[i := 0]),
                sock_at := (sock_at s)(a := None)\<rparr>) })"

subsection \<open>Descriptors\<close>

text \<open>
  The test that opens most calls: \<open>Some (Some a)\<close> is a descriptor of a socket at \<open>a\<close>, \<open>Some None\<close>
  an error; \<open>with_socket\<close> goes on with the socket, and fails on a null or freed one.
\<close>

definition sock_fd :: "int \<Rightarrow> sst \<Rightarrow> u32 option option" where
  "sock_fd fd s = do {
     c \<leftarrow> procs (kst_of s) (current_process (kst_of s));
     if \<not> fd_open fd c then Some None
     else do {
       e \<leftarrow> descs (kst_of s) (fd_table c ! nat fd);
       if fd_node e = 0 \<or> vn_flags (vnodes (kst_of s) (fd_node e)) \<noteq> VFS_SOCKET then Some None
       else Some (Some (impl s (fd_node e))) } }"

definition with_socket :: "int \<Rightarrow> 'r \<Rightarrow> (u32 \<Rightarrow> socket \<Rightarrow> sst \<Rightarrow> ('r \<times> sst) option) \<Rightarrow> sst \<Rightarrow> ('r \<times> sst) option" where
  "with_socket fd err f s = do {
     r \<leftarrow> sock_fd fd s;
     case r of None \<Rightarrow> Some (err, s) | Some a \<Rightarrow> do { k \<leftarrow> sock_at s a; f a k s } }"

text \<open>A new node and description for the socket \<open>a\<close> in the first free slot; the description is not tested for null.\<close>

definition sock_node :: "string \<Rightarrow> vnode" where
  "sock_node nm = \<lparr>vn_name = nm, vn_type = 0, vn_inode = 0, vn_size = 0, vn_mask = 0, vn_uid = 0, vn_gid = 0, vn_flags = VFS_SOCKET\<rparr>"

definition new_node :: "u32 \<Rightarrow> string \<Rightarrow> u32 \<Rightarrow> sst \<Rightarrow> sst" where
  "new_node n nm a s = s\<lparr>kst_of := (kst_of s)\<lparr>vnodes := (vnodes (kst_of s))(n := sock_node nm)\<rparr>, impl := (impl s)(n := a)\<rparr>"

definition new_desc :: "nat \<Rightarrow> u32 \<Rightarrow> u32 \<Rightarrow> sst \<Rightarrow> sst option" where
  "new_desc j d n s = do {
     let k = kst_of s;
     c \<leftarrow> procs k (current_process k);
     if d = 0 then None
     else Some (s\<lparr>kst_of := (set_proc (current_process k) (put_slot j d c) k)
        \<lparr>descs := (descs k)(d \<mapsto> \<lparr>fd_node = n, fd_offset = 0, fd_flags = 2, ref_count = 1\<rparr>)\<rparr>\<rparr>) }"

definition install_sock :: "u32 \<Rightarrow> string \<Rightarrow> u32 \<Rightarrow> u32 \<Rightarrow> sst \<Rightarrow> (int \<times> sst) option" where
  "install_sock n nm d a s0 = do {
     let s = new_node n nm a s0;
     c \<leftarrow> procs (kst_of s) (current_process (kst_of s));
     case free_slot c of
       None \<Rightarrow> Some (-1, s)
     | Some j \<Rightarrow> do { s1 \<leftarrow> new_desc j d n s; Some (int j, s1) } }"

definition sys_socket :: "u32 \<Rightarrow> u8 list option \<Rightarrow> u32 \<Rightarrow> u32 \<Rightarrow> int \<Rightarrow> int \<Rightarrow> sst \<Rightarrow> (int \<times> sst) option" where
  "sys_socket m buf n d domain type s =
     (if domain \<noteq> AF_UNIX \<or> type \<noteq> SOCK_STREAM then Some (-1, s)
      else let (a, s1) = alloc_socket m buf s in
        if a = 0 then Some (-1, s1)
        else do {
          k \<leftarrow> sock_at s1 a;
          let s2 = set_sock a (k\<lparr>so_domain := domain, so_type := type, so_state := SOCKET_FREE\<rparr>) s1;
          if n = 0 then Some (-1, s2) else install_sock n ''socket'' d a s2 })"

definition sys_bind :: "int \<Rightarrow> string \<Rightarrow> sst \<Rightarrow> (int \<times> sst) option" where
  "sys_bind fd path = with_socket fd (-1) (\<lambda>a k s.
     Some (0, set_sock a (k\<lparr>bind_path := take 127 path, so_state := SOCKET_BOUND\<rparr>) s))"

definition sys_listen :: "int \<Rightarrow> int \<Rightarrow> sst \<Rightarrow> (int \<times> sst) option" where
  "sys_listen fd n = with_socket fd (-1) (\<lambda>a k s.
     if so_state k \<noteq> SOCKET_BOUND then Some (-1, s)
     else let b = (if n > 0 then n else 5) in
       Some (0, set_sock a (k\<lparr>so_state := SOCKET_LISTENING, max_backlog := (if b > MAX_BACKLOG then MAX_BACKLOG else b)\<rparr>) s))"

text \<open>The search of \<open>sys_connect\<close> follows every pointer of the table.\<close>

fun find_server :: "(u32 \<Rightarrow> socket option) \<Rightarrow> string \<Rightarrow> u32 list \<Rightarrow> u32 option" where
  "find_server h path [] = Some 0"
| "find_server h path (a # as) =
     (if a = 0 then find_server h path as
      else do {
        k \<leftarrow> h a;
        if (so_state k = SOCKET_BOUND \<or> so_state k = SOCKET_LISTENING) \<and> bind_path k = path then Some a
        else find_server h path as })"

text \<open>
  Up to the loop of \<open>sys_connect\<close>, whose log lines read every socket of the table first. \<open>None\<close>
  goes on to the loop with the socket that connects.
\<close>

definition connect_begin :: "int \<Rightarrow> string \<Rightarrow> sst \<Rightarrow> (int option \<times> sst) option" where
  "connect_begin fd path s = do {
     r \<leftarrow> sock_fd fd s;
     case r of None \<Rightarrow> Some (Some (-1), s)
     | Some a \<Rightarrow>
         if list_ex (\<lambda>x. x \<noteq> 0 \<and> sock_at s x = None) (sockets s) then None
         else do {
           srv \<leftarrow> find_server (sock_at s) (take 127 path) (sockets s);
           if srv = 0 then Some (Some (-1), s)
           else do {
             v \<leftarrow> sock_at s srv;
             if length (backlog v) < 8 then do {
               let s1 = set_sock srv (v\<lparr>backlog := backlog v @ [a]\<rparr>) s;
               k1 \<leftarrow> sock_at s1 a;
               s2 \<leftarrow> on_kst wake_waiting (set_sock a (k1\<lparr>so_state := SOCKET_CONNECTING\<rparr>) s1);
               Some (None, s2) }
             else Some (Some (-1), s) } } }"

text \<open>One round of the loop: \<open>Some 0\<close> when connected, \<open>None\<close> when the caller blocks.\<close>

definition connect_round :: "u32 \<Rightarrow> sst \<Rightarrow> (int option \<times> sst) option" where
  "connect_round a s = do {
     k \<leftarrow> sock_at s a;
     if so_state k = SOCKET_CONNECTING then do { s1 \<leftarrow> on_kst block_current s; Some (None, s1) }
     else Some (Some 0, s) }"

text \<open>A round of \<open>sys_accept\<close>; the new socket and its node are used without a test for null.\<close>

definition sys_accept :: "u32 \<Rightarrow> u8 list option \<Rightarrow> u32 \<Rightarrow> u32 \<Rightarrow> int \<Rightarrow> sst \<Rightarrow> (int option \<times> sst) option" where
  "sys_accept m buf n d fd = with_socket fd (Some (-1)) (\<lambda>a v s.
     (case backlog v of
        [] \<Rightarrow> do { s1 \<leftarrow> on_kst block_current s; Some (None, s1) }
      | client # rest \<Rightarrow>
          let s1 = set_sock a (v\<lparr>backlog := rest\<rparr>) s; (conn, s2) = alloc_socket m buf s1 in
          if conn = 0 \<or> n = 0 then None
          else do {
            k \<leftarrow> sock_at s2 conn;
            let s3 = set_sock conn (k\<lparr>so_state := SOCKET_CONNECTED, peer := client\<rparr>) s2;
            q \<leftarrow> sock_at s3 client;
            let s4 = set_sock client (q\<lparr>peer := conn, so_state := SOCKET_CONNECTED\<rparr>) s3;
            (r, s5) \<leftarrow> install_sock n ''socket_conn'' d conn s4;
            if r < 0 then Some (Some r, s5) else do { s6 \<leftarrow> on_kst wake_waiting s5; Some (Some r, s6) } }))"

definition socket_can_accept :: "int \<Rightarrow> sst \<Rightarrow> (bool \<times> sst) option" where
  "socket_can_accept fd = with_socket fd False (\<lambda>a k s. Some (backlog k \<noteq> [], s))"

definition socket_can_read :: "int \<Rightarrow> sst \<Rightarrow> (bool \<times> sst) option" where
  "socket_can_read fd = with_socket fd False (\<lambda>a k s. Some (so_head k \<noteq> so_tail k, s))"

text \<open>
  \<open>sys_send\<close> and \<open>sys_recv\<close> (\<open>sendto\<close> and \<open>recvfrom\<close> call them): the buffer is null or the bytes;
  \<open>Some (Inl -1)\<close> is the error. The node's socket is passed on unread.
\<close>

definition sys_send :: "int \<Rightarrow> u8 list option \<Rightarrow> sst \<Rightarrow> (int option \<times> sst) option" where
  "sys_send fd buf s = do {
     r \<leftarrow> sock_fd fd s;
     case (buf, r) of
       (Some bs, Some a) \<Rightarrow> do { (n, s1) \<leftarrow> socket_write a bs s; Some (map_option int n, s1) }
     | _ \<Rightarrow> Some (Some (-1), s) }"

definition sys_recv :: "int \<Rightarrow> bool \<Rightarrow> nat \<Rightarrow> sst \<Rightarrow> ((int + u8 list) option \<times> sst) option" where
  "sys_recv fd buf_ok n s = do {
     r \<leftarrow> sock_fd fd s;
     case r of
       Some a \<Rightarrow> if buf_ok then do { (bs, s1) \<leftarrow> socket_read a n s; Some (map_option Inr bs, s1) }
                 else Some (Some (Inl (-1)), s)
     | None \<Rightarrow> Some (Some (Inl (-1)), s) }"

text \<open>The names: family and path, or an error; \<open>ok\<close> says that neither pointer is null.\<close>

definition sys_getsockname :: "int \<Rightarrow> bool \<Rightarrow> sst \<Rightarrow> ((int \<times> string) option \<times> sst) option" where
  "sys_getsockname fd ok = with_socket fd None (\<lambda>a k s. Some (if ok then Some (AF_UNIX, take 107 (so_path k)) else None, s))"

definition sys_getpeername :: "int \<Rightarrow> bool \<Rightarrow> sst \<Rightarrow> ((int \<times> string) option \<times> sst) option" where
  "sys_getpeername fd ok = with_socket fd None (\<lambda>a k s.
     if peer k = 0 \<or> so_state k \<noteq> SOCKET_CONNECTED \<or> \<not> ok then Some (None, s)
     else do { p \<leftarrow> sock_at s (peer k); Some (Some (AF_UNIX, take 107 (so_path p)), s) })"

definition sys_setsockopt :: "int \<Rightarrow> int \<Rightarrow> sst \<Rightarrow> (int \<times> sst) option" where
  "sys_setsockopt fd optname s = do {
     r \<leftarrow> sock_fd fd s;
     Some (if r \<noteq> None \<and> optname \<in> {2, 9, 6, 13, 8, 7, 20, 21} then 0 else -1, s) }"

text \<open>The value and the new length when the caller's length has room for an \<open>int\<close>.\<close>

definition sys_getsockopt :: "int \<Rightarrow> int \<Rightarrow> bool \<Rightarrow> nat \<Rightarrow> sst \<Rightarrow> ((int \<times> int option) \<times> sst) option" where
  "sys_getsockopt fd optname ok optlen = with_socket fd (-1, None) (\<lambda>a k s.
     let put = (\<lambda>v. (0, if optlen \<ge> 4 then Some v else None)) in
     if \<not> ok then Some ((-1, None), s)
     else if optname = 4 then Some (put 0, s)
     else if optname = 3 then Some (put (so_type k), s)
     else if optname = 8 \<or> optname = 7 then Some (put 4096, s)
     else Some ((-1, None), s))"

text \<open>Clearing the \<open>peer\<close> of the peer.\<close>

definition forget_me :: "u32 \<Rightarrow> sst \<Rightarrow> sst option" where
  "forget_me p s = (if p = 0 then Some s else do { k \<leftarrow> sock_at s p; Some (set_sock p (k\<lparr>peer := 0\<rparr>) s) })"

definition sys_shutdown :: "int \<Rightarrow> int \<Rightarrow> sst \<Rightarrow> (int \<times> sst) option" where
  "sys_shutdown fd how = with_socket fd (-1) (\<lambda>a k s.
     if how = 0 then Some (0, set_sock a (k\<lparr>so_head := so_tail k\<rparr>) s)
     else if how = 1 then do { s1 \<leftarrow> forget_me (peer k) s; Some (0, s1) }
     else if how = 2 then do { s1 \<leftarrow> forget_me (peer k) (set_sock a (k\<lparr>so_head := so_tail k\<rparr>) s); Some (0, s1) }
     else Some (-1, s))"

text \<open>
  \<open>sys_socketpair\<close>: \<open>m1 b1\<close> and \<open>m2 b2\<close> the blocks of the sockets, \<open>n1\<close>, \<open>n2\<close> of the nodes, \<open>d1\<close>, \<open>d2\<close>
  of the descriptions. The table entries are cleared on failure; the blocks stay allocated.
\<close>

definition clear_slot :: "u32 \<Rightarrow> sst \<Rightarrow> sst option" where
  "clear_slot a s = (if a = 0 then Some s else do { k \<leftarrow> sock_at s a; Some (s\<lparr>sockets := (sockets s)[nat (so_id k) := 0]\<rparr>) })"

definition connect_pair :: "u32 \<Rightarrow> u32 \<Rightarrow> sst \<Rightarrow> sst option" where
  "connect_pair a b s = do {
     k \<leftarrow> sock_at s a;
     let s1 = set_sock a (k\<lparr>so_state := SOCKET_CONNECTED, peer := b\<rparr>) s;
     q \<leftarrow> sock_at s1 b;
     Some (set_sock b (q\<lparr>so_state := SOCKET_CONNECTED, peer := a\<rparr>) s1) }"

definition sys_socketpair ::
  "u32 \<Rightarrow> u8 list option \<Rightarrow> u32 \<Rightarrow> u8 list option \<Rightarrow> u32 \<Rightarrow> u32 \<Rightarrow> u32 \<Rightarrow> u32 \<Rightarrow> bool \<Rightarrow> sst \<Rightarrow> ((int \<times> (nat \<times> nat) option) \<times> sst) option" where
  "sys_socketpair m1 b1 m2 b2 n1 n2 d1 d2 sv s =
     (if \<not> sv then Some ((-1, None), s)
      else let (a, s1) = alloc_socket m1 b1 s; (b, s2) = alloc_socket m2 b2 s1 in
        if a = 0 \<or> b = 0 then do {
          s3 \<leftarrow> clear_slot a s2; s4 \<leftarrow> clear_slot b s3; Some ((-1, None), s4) }
        else do {
          s3 \<leftarrow> connect_pair a b s2;
          if n1 = 0 \<or> n2 = 0 then do {
            s4 \<leftarrow> clear_slot a s3; s5 \<leftarrow> clear_slot b s4; Some ((-1, None), s5) }
          else do {
            let s4 = new_node n2 ''socketpair'' b (new_node n1 ''socketpair'' a s3);
            c \<leftarrow> procs (kst_of s4) (current_process (kst_of s4));
            case two_free_slots c of
              Some (f1, f2) \<Rightarrow> do {
                s5 \<leftarrow> new_desc f1 d1 n1 s4; s6 \<leftarrow> new_desc f2 d2 n2 s5; Some ((0, Some (f1, f2)), s6) }
            | None \<Rightarrow> do { s5 \<leftarrow> clear_slot a s4; s6 \<leftarrow> clear_slot b s5; Some ((-1, None), s6) } } })"

subsection \<open>The rings are queues\<close>

text \<open>A socket's ring is the ring of a pipe.\<close>

definition ring_of :: "socket \<Rightarrow> pipe" where
  "ring_of k = \<lparr>p_buffer = so_buffer k, p_head = so_head k, p_tail = so_tail k, read_closed = False, write_closed = False\<rparr>"

definition sock_inv :: "socket \<Rightarrow> bool" where "sock_inv k \<longleftrightarrow> pipe_inv (ring_of k)"
definition sock_items :: "socket \<Rightarrow> u8 list" where "sock_items k = pipe_items (ring_of k)"

lemma sock_put_pipe:
  "sock_put b k = map_option (\<lambda>p. k\<lparr>so_buffer := p_buffer p, so_tail := p_tail p\<rparr>) (pipe_put b (ring_of k))"
  by (simp add: sock_put_def pipe_put_def ring_of_def Let_def)

lemma sock_get_pipe:
  "sock_get k = map_option (\<lambda>(x, p). (x, k\<lparr>so_head := p_head p\<rparr>)) (pipe_get (ring_of k))"
  by (simp add: sock_get_def pipe_get_def ring_of_def)

interpretation sock_fifo: fifo sock_inv sock_items "PIPE_SIZE - 1" sock_put sock_get
proof
  fix k :: socket and x :: u8 and xs
  assume i: "sock_inv k"
  show "sock_put x k = None" if "PIPE_SIZE - 1 \<le> length (sock_items k)"
    using pipe_fifo.put_full [of "ring_of k" x] i that by (simp add: sock_put_pipe sock_inv_def sock_items_def)
  show "\<exists>k'. sock_put x k = Some k' \<and> sock_inv k' \<and> sock_items k' = sock_items k @ [x]" if "length (sock_items k) < PIPE_SIZE - 1"
  proof -
    have r: "pipe_inv (ring_of k)" "length (pipe_items (ring_of k)) < PIPE_SIZE - 1"
      using i that by (simp_all only: sock_inv_def sock_items_def)
    obtain p where p: "pipe_put x (ring_of k) = Some p" "pipe_inv p" "pipe_items p = pipe_items (ring_of k) @ [x]"
      using pipe_put_room [OF r, of x] by blast
    have "ring_of (k\<lparr>so_buffer := p_buffer p, so_tail := p_tail p\<rparr>) = p"
      using p(1) by (auto simp: pipe_put_def ring_of_def Let_def split: if_splits)
    then show ?thesis using p by (simp add: sock_put_pipe sock_inv_def sock_items_def)
  qed
  show "sock_get k = None" if "sock_items k = []"
    using pipe_fifo.get_empty [of "ring_of k"] i that by (simp add: sock_get_pipe sock_inv_def sock_items_def)
  show "\<exists>k'. sock_get k = Some (x, k') \<and> sock_inv k' \<and> sock_items k' = xs" if "sock_items k = x # xs"
  proof -
    have r: "pipe_inv (ring_of k)" "pipe_items (ring_of k) = x # xs"
      using i that by (simp_all only: sock_inv_def sock_items_def)
    obtain p where p: "pipe_get (ring_of k) = Some (x, p)" "pipe_inv p" "pipe_items p = xs"
      using pipe_fifo.get_first [OF r] by blast
    have "ring_of (k\<lparr>so_head := p_head p\<rparr>) = p"
      using p(1) by (auto simp: pipe_get_def ring_of_def split: if_splits)
    then show ?thesis using p by (simp add: sock_get_pipe sock_inv_def sock_items_def)
  qed
qed

lemma sock_put_keeps: "sock_put b k = Some k' \<Longrightarrow> so_state k' = so_state k \<and> peer k' = peer k"
  by (auto simp: sock_put_def Let_def split: if_splits)

lemma push_sock_keeps:
  assumes "push_all sock_put xs k = (n, k')"
  shows "so_state k' = so_state k" "peer k' = peer k"
  using push_all_keeps [of sock_put so_state, OF _ assms] push_all_keeps [of sock_put peer, OF _ assms] sock_put_keeps by blast+

subsection \<open>Streams\<close>

lemma set_sock_simps [simp]:
  "sock_at (set_sock a k s) = (sock_at s)(a \<mapsto> k)" "kst_of (set_sock a k s) = kst_of s" "sockets (set_sock a k s) = sockets s"
  "impl (set_sock a k s) = impl s"
  by (simp_all add: set_sock_def)

lemma on_kst_wake:
  assumes "sched_inv (kst_of s)"
  shows "\<exists>k. on_kst wake_waiting s = Some (s\<lparr>kst_of := k\<rparr>) \<and> sched_inv k"
  using wake_waiting_inv [OF assms] by (auto simp: on_kst_def)

lemma on_kst_block:
  assumes "sched_inv (kst_of s)"
  shows "\<exists>k. on_kst block_current s = Some (s\<lparr>kst_of := k\<rparr>) \<and> sched_inv k"
  using block_current_inv [OF assms] by (auto simp: on_kst_def)

lemma socket_write_spec:
  assumes s: "sched_inv (kst_of s)" and a: "a \<noteq> 0" "sock_at s a = Some k" "so_state k = SOCKET_CONNECTED" "peer k = b" "b \<noteq> 0"
    and b: "sock_at s b = Some q" "sock_inv q"
  shows "if bs \<noteq> [] \<and> PIPE_SIZE - 1 \<le> length (sock_items q)
    then \<exists>s1. socket_write a bs s = Some (None, s1) \<and> sock_at s1 = sock_at s
    else \<exists>s1 q1. socket_write a bs s = Some (Some (min (length bs) (PIPE_SIZE - 1 - length (sock_items q))), s1) \<and>
      sock_at s1 = (sock_at s)(b \<mapsto> q1) \<and> sock_inv q1 \<and> so_state q1 = so_state q \<and> peer q1 = peer q \<and>
      sock_items q1 = sock_items q @ take (PIPE_SIZE - 1 - length (sock_items q)) bs \<and> sched_inv (kst_of s1)"
proof (cases "bs \<noteq> [] \<and> PIPE_SIZE - 1 \<le> length (sock_items q)")
  case True
  obtain w where w: "on_kst block_current s = Some (s\<lparr>kst_of := w\<rparr>)" using on_kst_block [OF s] by blast
  have "socket_write a bs s = Some (None, s\<lparr>kst_of := w\<rparr>)"
    using True a b(1) w sock_fifo.put_None_iff [OF b(2)] by (simp add: socket_write_def write_round_def)
  then show ?thesis using True by simp
next
  case F: False
  show ?thesis
  proof (cases "bs = []")
    case True
    obtain w where w: "on_kst wake_waiting s = Some (s\<lparr>kst_of := w\<rparr>)" "sched_inv w" using on_kst_wake [OF s] by blast
    have "socket_write a bs s = Some (Some 0, s\<lparr>kst_of := w\<rparr>)"
      using True a w(1) by (simp add: socket_write_def write_round_def)
    moreover have "(sock_at s)(b \<mapsto> q) = sock_at s" using b(1) by (rule fun_upd_idem)
    ultimately show ?thesis
      unfolding if_not_P [OF F] using True w(2) b(2) by (intro exI [of _ "s\<lparr>kst_of := w\<rparr>"] exI [of _ q]) simp
  next
  case False
  obtain n q1 where pu: "push_all sock_put bs q = (n, q1)" by fastforce
  note ps = sock_fifo.push_all_spec [OF b(2) pu]
  obtain w where w: "on_kst wake_waiting (set_sock b q1 s) = Some ((set_sock b q1 s)\<lparr>kst_of := w\<rparr>)" "sched_inv w"
    using on_kst_wake [of "set_sock b q1 s"] s by auto
  have nf: "\<not> (sock_put (hd bs) q = None)" using F False unfolding sock_fifo.put_None_iff [OF b(2)] by blast
  have "socket_write a bs s = Some (Some n, (set_sock b q1 s)\<lparr>kst_of := w\<rparr>)"
    unfolding socket_write_def write_round_def using a b(1) pu w(1) False by (simp add: if_not_P [OF nf])
  moreover have "take n bs = take (PIPE_SIZE - 1 - length (sock_items q)) bs" using ps(2) by (simp add: min_def)
  ultimately show ?thesis
    unfolding if_not_P [OF F] using ps w(2) push_sock_keeps [OF pu]
    by (intro exI [of _ "(set_sock b q1 s)\<lparr>kst_of := w\<rparr>"] exI [of _ q1]) simp
  qed
qed

lemma socket_read_spec:
  assumes s: "sched_inv (kst_of s)" and a: "a \<noteq> 0" "sock_at s a = Some k" "so_state k = SOCKET_CONNECTED" "sock_inv k"
  shows "if n > 0 \<and> sock_items k = []
    then \<exists>s1. socket_read a n s = Some (None, s1) \<and> sock_at s1 = sock_at s
    else \<exists>s1 k1. socket_read a n s = Some (Some (take n (sock_items k)), s1) \<and> sock_at s1 = (sock_at s)(a \<mapsto> k1) \<and>
      sock_inv k1 \<and> sock_items k1 = drop n (sock_items k) \<and> sched_inv (kst_of s1)"
proof (cases "n > 0 \<and> sock_items k = []")
  case True
  obtain w where w: "on_kst block_current s = Some (s\<lparr>kst_of := w\<rparr>)" using on_kst_block [OF s] by blast
  have "socket_read a n s = Some (None, s\<lparr>kst_of := w\<rparr>)"
    using True a w sock_fifo.get_None_iff [OF a(4)] by (simp add: socket_read_def read_round_def)
  then show ?thesis using True by simp
next
  case False
  obtain xs k1 where po: "pop_all sock_get n k = (xs, k1)" by fastforce
  note ps = sock_fifo.pop_all_spec [OF a(4) po]
  obtain w where w: "on_kst wake_waiting (set_sock a k1 s) = Some ((set_sock a k1 s)\<lparr>kst_of := w\<rparr>)" "sched_inv w"
    using on_kst_wake [of "set_sock a k1 s"] s by auto
  have nf: "\<not> (n > 0 \<and> sock_get k = None)" unfolding sock_fifo.get_None_iff [OF a(4)] by (rule False)
  have "socket_read a n s = Some (Some xs, (set_sock a k1 s)\<lparr>kst_of := w\<rparr>)"
    unfolding socket_read_def read_round_def using a po w(1) nf by (simp add: if_not_P [OF nf])
  then show ?thesis
    unfolding if_not_P [OF False] using ps w(2)
    by (intro exI [of _ "(set_sock a k1 s)\<lparr>kst_of := w\<rparr>"] exI [of _ k1]) simp
qed

text \<open>
  C32. A connection is a stream: bytes written to one of two connected sockets are read from the
  other, in order and behind what was already there, as long as they fit the 4095 bytes of the
  ring; a write that finds the ring full, and a read that finds it empty, blocks and changes no socket.
\<close>

theorem socket_stream:
  assumes "sched_inv (kst_of s)" "a \<noteq> 0" "b \<noteq> 0" "a \<noteq> b" "sock_at s a = Some k" "sock_at s b = Some q"
    "so_state k = SOCKET_CONNECTED" "so_state q = SOCKET_CONNECTED" "peer k = b" "sock_inv q"
  shows "(length (sock_items q) + length bs \<le> PIPE_SIZE - 1 \<and> bs \<noteq> [] \<longrightarrow>
      (\<exists>s1 s2. socket_write a bs s = Some (Some (length bs), s1) \<and>
        socket_read b (length (sock_items q) + length bs) s1 = Some (Some (sock_items q @ bs), s2))) \<and>
    (length (sock_items q) \<ge> PIPE_SIZE - 1 \<and> bs \<noteq> [] \<longrightarrow>
      (\<exists>s1. socket_write a bs s = Some (None, s1) \<and> sock_at s1 = sock_at s)) \<and>
    (sock_items q = [] \<and> n > 0 \<longrightarrow> (\<exists>s1. socket_read b n s = Some (None, s1) \<and> sock_at s1 = sock_at s))"
proof (intro conjI impI)
  assume r: "length (sock_items q) + length bs \<le> PIPE_SIZE - 1 \<and> bs \<noteq> []"
  have nf: "\<not> (bs \<noteq> [] \<and> PIPE_SIZE - 1 \<le> length (sock_items q))" using r by (cases bs) auto
  have m: "min (length bs) (PIPE_SIZE - 1 - length (sock_items q)) = length bs"
    "take (PIPE_SIZE - 1 - length (sock_items q)) bs = bs" using r by auto
  obtain s1 q1 where 1: "socket_write a bs s = Some (Some (length bs), s1)" "sock_at s1 = (sock_at s)(b \<mapsto> q1)" "sock_inv q1"
    "so_state q1 = SOCKET_CONNECTED" "sock_items q1 = sock_items q @ bs" "sched_inv (kst_of s1)"
    using socket_write_spec [OF assms(1,2,5,7,9,3,6,10), of bs] assms(8) unfolding if_not_P [OF nf] m by auto
  have ne: "\<not> (length (sock_items q) + length bs > 0 \<and> sock_items q1 = [])" using r 1(5) by simp
  show "\<exists>s1 s2. socket_write a bs s = Some (Some (length bs), s1) \<and>
        socket_read b (length (sock_items q) + length bs) s1 = Some (Some (sock_items q @ bs), s2)"
    using socket_read_spec [OF 1(6) assms(3) _ 1(4,3), of "length (sock_items q) + length bs"] 1(1,2,5) unfolding if_not_P [OF ne] by auto
next
  assume "length (sock_items q) \<ge> PIPE_SIZE - 1 \<and> bs \<noteq> []"
  then show "\<exists>s1. socket_write a bs s = Some (None, s1) \<and> sock_at s1 = sock_at s"
    using socket_write_spec [OF assms(1,2,5,7,9,3,6,10), of bs] by simp
next
  assume "sock_items q = [] \<and> n > 0"
  then show "\<exists>s1. socket_read b n s = Some (None, s1) \<and> sock_at s1 = sock_at s"
    using socket_read_spec [OF assms(1,3,6,8,10), of n] by simp
qed

subsection \<open>Accepting\<close>

lemma alloc_socket_spec:
  assumes "alloc_socket m buf s = (a, s1)" "a \<noteq> 0"
  shows "\<exists>i b. a = m \<and> buf = Some b \<and> i < length (sockets s) \<and> sockets s ! i = 0 \<and>
    s1 = set_sock m (fresh_socket i b) (s\<lparr>sockets := (sockets s)[i := m]\<rparr>)"
  using assms first_idx_SomeD by (fastforce simp: alloc_socket_def split: option.splits if_splits)

lemma fresh_socket_inv: "length b = PIPE_SIZE \<Longrightarrow> sock_inv (fresh_socket i b) \<and> sock_items (fresh_socket i b) = []"
  using new_pipe_inv [of b] by (simp add: sock_inv_def sock_items_def ring_of_def fresh_socket_def new_pipe_def)

lemma install_sock_ok:
  assumes "sched_inv (kst_of s)" "procs (kst_of s) (current_process (kst_of s)) = Some c" "free_slot c = Some j" "d \<noteq> 0"
  shows "\<exists>s1. install_sock n nm d a s = Some (int j, s1) \<and> sock_at s1 = sock_at s \<and> sockets s1 = sockets s \<and>
    impl s1 = (impl s)(n := a) \<and> sched_inv (kst_of s1) \<and> current_process (kst_of s1) = current_process (kst_of s) \<and>
    procs (kst_of s1) (current_process (kst_of s)) = Some (put_slot j d c) \<and>
    descs (kst_of s1) d = Some \<lparr>fd_node = n, fd_offset = 0, fd_flags = 2, ref_count = 1\<rparr> \<and>
    vnodes (kst_of s1) n = sock_node nm"
proof -
  define k where "k = kst_of (new_node n nm a s)"
  have k: "procs k = procs (kst_of s)" "current_process k = current_process (kst_of s)" "vnodes k n = sock_node nm"
    "sched_inv k"
    using assms(1) by (simp_all add: k_def new_node_def sched_inv_def one_ring_def)
  define k1 where "k1 = set_proc (current_process k) (put_slot j d c) k"
  have i: "sched_inv k1"
    unfolding k1_def by (rule sched_inv_set_proc [of _ _ c]) (use assms(2) k in \<open>simp_all add: put_slot_def\<close>)
  define s1 where "s1 = (new_node n nm a s)\<lparr>kst_of :=
    k1\<lparr>descs := (descs k)(d \<mapsto> \<lparr>fd_node = n, fd_offset = 0, fd_flags = 2, ref_count = 1\<rparr>)\<rparr>\<rparr>"
  have "install_sock n nm d a s = Some (int j, s1)"
    using assms(2-4) k(1,2) by (simp add: install_sock_def new_desc_def Let_def s1_def k1_def k_def)
  moreover have "sock_at s1 = sock_at s" "sockets s1 = sockets s" "impl s1 = (impl s)(n := a)"
    by (simp_all add: s1_def new_node_def)
  moreover have "sched_inv (kst_of s1)" using i by (simp add: s1_def sched_inv_irrelevant)
  ultimately show ?thesis using k by (simp add: s1_def k1_def)
qed

lemma wake_keeps:
  assumes "sched_inv s" "wake_waiting s = Some s1" "procs s p = Some c"
  shows "\<exists>c1. procs s1 p = Some c1 \<and> fd_table c1 = fd_table c" "current_process s1 = current_process s"
    "descs s1 = descs s" "vnodes s1 = vnodes s"
  using assms(2,3) unfolding wake_waiting_eq [OF assms(1)] by (auto simp: mapped_def)

text \<open>
  C33. \<open>sys_accept\<close> connects the client that has waited longest: with room in the two tables the
  first socket of the backlog and a new socket become connected to each other, the new socket
  enters the table with an empty ring, the descriptor returned is the first free one and leads to
  it, the rest of the backlog stays in order, and no other socket changes.
\<close>

theorem accept_connects:
  assumes "sched_inv (kst_of s)" "procs (kst_of s) (current_process (kst_of s)) = Some c" "free_slot c = Some j"
    "length (fd_table c) = MAX_PROCESS_FILES" "sock_fd fd s = Some (Some a)" "sock_at s a = Some v"
    "backlog v = client # rest" "sock_at s client = Some q" "client \<noteq> a" "0 \<in> set (sockets s)"
    "m \<noteq> 0" "n \<noteq> 0" "d \<noteq> 0" "sock_at s m = None" "length buf = PIPE_SIZE"
  shows "\<exists>s1 k1 q1. sys_accept m (Some buf) n d fd s = Some (Some (int j), s1) \<and>
    sock_at s1 = (sock_at s)(a \<mapsto> v\<lparr>backlog := rest\<rparr>, m \<mapsto> k1, client \<mapsto> q1) \<and> m \<in> set (sockets s1) \<and>
    so_state k1 = SOCKET_CONNECTED \<and> peer k1 = client \<and> sock_inv k1 \<and> sock_items k1 = [] \<and>
    so_state q1 = SOCKET_CONNECTED \<and> peer q1 = m \<and> sock_items q1 = sock_items q \<and>
    sock_fd (int j) s1 = Some (Some m)"
proof -
  obtain i where i: "first_idx (\<lambda>a. a = 0) (sockets s) = Some i" "i < length (sockets s)"
    using assms(10) first_idx_Ex [of "\<lambda>a. a = 0" "sockets s"] first_idx_SomeD by blast
  define s0 where "s0 = set_sock a (v\<lparr>backlog := rest\<rparr>) s"
  define s2 where "s2 = set_sock m (fresh_socket i buf) (s0\<lparr>sockets := (sockets s0)[i := m]\<rparr>)"
  have al: "alloc_socket m (Some buf) s0 = (m, s2)" using i(1) assms(11) by (simp add: alloc_socket_def s0_def s2_def)
  have ne: "m \<noteq> a" "client \<noteq> m" using assms(6,8,14) by auto
  define k1 where "k1 = (fresh_socket i buf)\<lparr>so_state := SOCKET_CONNECTED, peer := client\<rparr>"
  define q1 where "q1 = q\<lparr>peer := m, so_state := SOCKET_CONNECTED\<rparr>"
  define s4 where "s4 = set_sock client q1 (set_sock m k1 s2)"
  have m: "sock_at s2 m = Some (fresh_socket i buf)" by (simp add: s2_def)
  have q: "sock_at s2 client = Some q" using ne assms(8,9) by (simp add: s2_def s0_def)
  have kst: "kst_of s4 = kst_of s" "impl s4 = impl s" by (simp_all add: s4_def s2_def s0_def)
  obtain s5 where s5: "install_sock n ''socket_conn'' d m s4 = Some (int j, s5)" "sock_at s5 = sock_at s4" "sockets s5 = sockets s4"
    "impl s5 = (impl s)(n := m)" "sched_inv (kst_of s5)" "current_process (kst_of s5) = current_process (kst_of s)"
    "procs (kst_of s5) (current_process (kst_of s)) = Some (put_slot j d c)"
    "descs (kst_of s5) d = Some \<lparr>fd_node = n, fd_offset = 0, fd_flags = 2, ref_count = 1\<rparr>"
    "vnodes (kst_of s5) n = sock_node ''socket_conn''"
    using install_sock_ok [of s4 c j d n "''socket_conn''" m] assms(1-3,13) unfolding kst by blast
  obtain w where w: "wake_waiting (kst_of s5) = Some w" "sched_inv w" using wake_waiting_inv [OF s5(5)] by blast
  define s1 where "s1 = s5\<lparr>kst_of := w\<rparr>"
  have acc: "sys_accept m (Some buf) n d fd s = Some (Some (int j), s1)"
    using assms(5,6,7,11,12) al m q ne(2) s5(1) w(1)
    by (simp add: sys_accept_def with_socket_def on_kst_def Let_def s0_def [symmetric] k1_def [symmetric] q1_def [symmetric]
        s4_def [symmetric] s1_def)
  obtain c1 where c1: "procs w (current_process (kst_of s)) = Some c1" "fd_table c1 = (fd_table c)[j := d]"
    using wake_keeps(1) [OF s5(5) w(1) s5(7)] by (auto simp: put_slot_def)
  have j: "j < MAX_PROCESS_FILES" using assms(3,4) first_idx_SomeD by (fastforce simp: free_slot_def)
  have "sock_fd (int j) s1 = Some (Some m)"
    using c1 j assms(4,12,13) wake_keeps(2-4) [OF s5(5) w(1) s5(7)] s5(4,6,8,9)
    by (simp add: sock_fd_def s1_def fd_open_def sock_node_def)
  moreover have "sock_at s1 = (sock_at s)(a \<mapsto> v\<lparr>backlog := rest\<rparr>, m \<mapsto> k1, client \<mapsto> q1)"
    by (simp add: s1_def s5(2) s4_def s2_def s0_def)
  moreover have "m \<in> set (sockets s1)" using i(2) by (simp add: s1_def s5(3) s4_def s2_def s0_def set_update_memI)
  moreover have "sock_inv k1" "sock_items k1 = []"
    using fresh_socket_inv [OF assms(15), of i] by (simp_all add: k1_def sock_inv_def sock_items_def ring_of_def)
  moreover have "sock_items q1 = sock_items q" by (simp add: q1_def sock_items_def ring_of_def)
  ultimately show ?thesis using acc by (intro exI [of _ s1] exI [of _ k1] exI [of _ q1]) (simp add: k1_def q1_def)
qed

subsection \<open>Closing\<close>

text \<open>
  C34. Closing one end of a connection frees the block that the other end still points to: after it
  every write of at least one byte on the other end is an access to freed memory (a write of no bytes
  never touches the peer and returns 0), and a reader whose ring is empty blocks, where it should see
  the end of the stream.
\<close>

theorem socket_close_dangles:
  assumes "sched_inv (kst_of s)" "a \<noteq> 0" "b \<noteq> 0" "a \<noteq> b" "sock_at s a = Some k" "sock_at s b = Some q"
    "so_state k = SOCKET_CONNECTED" "peer k = b" "sock_inv k" "sock_items k = []" "0 < n"
  shows "\<exists>s1. socket_close b s = Some s1 \<and> sock_at s1 b = None \<and>
    (bs \<noteq> [] \<longrightarrow> socket_write a bs s1 = None) \<and>
    (\<exists>s2. socket_write a [] s1 = Some (Some 0, s2) \<and> sock_at s2 = sock_at s1) \<and>
    (\<exists>s2. socket_read a n s1 = Some (None, s2) \<and> sock_at s2 = sock_at s1)"
proof -
  obtain s1 where s1: "socket_close b s = Some s1" "sock_at s1 = (sock_at s)(b := None)" "kst_of s1 = kst_of s"
    using assms(3,6) by (simp add: socket_close_def)
  have "socket_write a bs s1 = None" if "bs \<noteq> []" using assms s1(2) that by (simp add: socket_write_def write_round_def)
  moreover have "\<exists>s2. socket_write a [] s1 = Some (Some 0, s2) \<and> sock_at s2 = sock_at s1"
    using assms s1(2,3) on_kst_wake [of s1] by (auto simp: socket_write_def write_round_def)
  moreover have "\<exists>s2. socket_read a n s1 = Some (None, s2) \<and> sock_at s2 = sock_at s1"
    using socket_read_spec [of s1 a k n] assms s1(2,3) by simp
  ultimately show ?thesis using s1(1,2) by (intro exI [of _ s1]) simp
qed

subsection \<open>A sample pair\<close>

definition demo_sock :: "u32 \<Rightarrow> socket" where
  "demo_sock p = (fresh_socket 0 (replicate PIPE_SIZE 0))\<lparr>so_state := SOCKET_CONNECTED, peer := p\<rparr>"

definition demo_pair :: sst where
  "demo_pair = \<lparr>kst_of = demo_kst, sockets = [8, 9], sock_at = [8 \<mapsto> demo_sock 9, 9 \<mapsto> demo_sock 8], impl = (\<lambda>_. 0)\<rparr>"

lemma demo_sock_inv: "sock_inv (demo_sock p)" "sock_items (demo_sock p) = []" "so_state (demo_sock p) = SOCKET_CONNECTED"
    "peer (demo_sock p) = p"
  using fresh_socket_inv [of "replicate PIPE_SIZE 0" 0]
  by (simp_all add: demo_sock_def sock_inv_def sock_items_def ring_of_def)

lemma demo_pair_simps: "kst_of demo_pair = demo_kst" "sock_at demo_pair 8 = Some (demo_sock 9)" "sock_at demo_pair 9 = Some (demo_sock 8)"
  by (simp_all add: demo_pair_def)

lemma socket_stream_witness:
  "\<exists>s1 s2. socket_write 8 [1] demo_pair = Some (Some 1, s1) \<and> socket_read 9 1 s1 = Some (Some [1], s2)"
  using socket_stream [of demo_pair 8 9 "demo_sock 9" "demo_sock 8" "[1]" 1]
  by (auto simp add: demo_pair_simps demo_sock_inv demo_sched_inv)

lemma socket_close_dangles_witness:
  "\<exists>s1 s2. socket_close 9 demo_pair = Some s1 \<and> socket_write 8 [1] s1 = None \<and> socket_read 8 1 s1 = Some (None, s2)"
  using socket_close_dangles [of demo_pair 8 9 "demo_sock 9" "demo_sock 8" 1 "[1]"]
  by (auto simp: demo_pair_simps demo_sock_inv demo_sched_inv)

text \<open>A server at 8 on descriptor 0, whose backlog is the connecting socket at 9.\<close>

definition demo_server :: sst where
  "demo_server = \<lparr>kst_of = demo_kst\<lparr>
       procs := (procs demo_kst)(0x100 \<mapsto> demo_proc\<lparr>pstate := PROCESS_RUNNING, time_remaining := 1, pnext := 0x200,
         fd_table := 0x50 # 0 # replicate 14 0\<rparr>),
       descs := [0x50 \<mapsto> \<lparr>fd_node = 0x60, fd_offset = 0, fd_flags = 2, ref_count = 1\<rparr>],
       vnodes := (\<lambda>_. sock_node ''socket'')\<rparr>,
     sockets = 8 # 9 # replicate 62 0,
     sock_at = [8 \<mapsto> (demo_sock 0)\<lparr>so_state := SOCKET_LISTENING, backlog := [9]\<rparr>,
                9 \<mapsto> (demo_sock 0)\<lparr>so_state := SOCKET_CONNECTING\<rparr>],
     impl = (\<lambda>_. 8)\<rparr>"

lemma demo_server_inv: "sched_inv (kst_of demo_server)"
proof -
  let ?c = "demo_proc\<lparr>pstate := PROCESS_RUNNING, time_remaining := 1, pnext := 0x200, fd_table := 0x50 # 0 # replicate 14 0\<rparr>"
  let ?d = "[0x50 \<mapsto> \<lparr>fd_node = 0x60, fd_offset = 0, fd_flags = 2, ref_count = 1\<rparr>]"
  have "sched_inv (set_proc 0x100 ?c demo_kst)"
    by (rule sched_inv_set_proc [OF demo_sched_inv demo_procs(1)]) simp_all
  then have "sched_inv ((set_proc 0x100 ?c demo_kst)\<lparr>descs := ?d\<rparr>)" by (rule sched_inv_irrelevant(3))
  moreover have "sched_inv (k\<lparr>vnodes := v\<rparr>) = sched_inv k" for k :: kst and v by (simp add: sched_inv_def one_ring_def)
  moreover have "kst_of demo_server = (set_proc 0x100 ?c demo_kst)\<lparr>descs := ?d\<rparr>\<lparr>vnodes := (\<lambda>_. sock_node ''socket'')\<rparr>"
    by (simp add: demo_server_def set_proc_def)
  ultimately show ?thesis by metis
qed

lemma accept_connects_witness:
  "\<exists>s1 k1. sys_accept 7 (Some (replicate PIPE_SIZE 0)) 6 5 0 demo_server = Some (Some 1, s1) \<and> sock_at s1 7 = Some k1 \<and>
    so_state k1 = SOCKET_CONNECTED \<and> peer k1 = 9 \<and> sock_fd 1 s1 = Some (Some 7)"
proof -
  let ?c = "demo_proc\<lparr>pstate := PROCESS_RUNNING, time_remaining := 1, pnext := 0x200, fd_table := 0x50 # 0 # replicate 14 0\<rparr>"
  let ?v = "(demo_sock 0)\<lparr>so_state := SOCKET_LISTENING, backlog := [9]\<rparr>"
  let ?q = "(demo_sock 0)\<lparr>so_state := SOCKET_CONNECTING\<rparr>"
  have p: "procs (kst_of demo_server) (current_process (kst_of demo_server)) = Some ?c" by (simp add: demo_server_def)
  have f: "free_slot ?c = Some 1" "length (fd_table ?c) = MAX_PROCESS_FILES" by (simp_all add: free_slot_def)
  have d: "sock_fd 0 demo_server = Some (Some 8)" by (simp add: sock_fd_def demo_server_def fd_open_def sock_node_def)
  have s: "sock_at demo_server 8 = Some ?v" "sock_at demo_server 9 = Some ?q" "sock_at demo_server 7 = None"
    "0 \<in> set (sockets demo_server)" by (simp_all add: demo_server_def)
  have "backlog ?v = 9 # []" "(9::u32) \<noteq> 8" "(7::u32) \<noteq> 0" "(6::u32) \<noteq> 0" "(5::u32) \<noteq> 0"
    "length (replicate PIPE_SIZE (0::u8)) = PIPE_SIZE" by simp_all
  note accept_connects [OF demo_server_inv p f d s(1) this(1) s(2) this(2) s(4) this(3-5) s(3) this(6)]
  then show ?thesis by (elim exE conjE) simp
qed

end
