(* ===== verification/Phase_Fs.thy ===== *)
theory Phase_Fs
  imports Prelude "HOL-Library.Monad_Syntax"
begin

text \<open>
  The in-memory file system that answers absolute paths, \<open>kernel/fs_phase_a.cpp\<close>, with the calls of
  \<open>fs_phase_b.cpp\<close> and \<open>fs_phase_c.cpp\<close> on it and the node functions of \<open>vfs.cpp\<close>. It has 256 inodes
  and 64 blocks of 4096 bytes in one array, and each inode uses its first block only; a directory is
  an array of entries of 68 bytes. \<open>phase_vfs_sync\<close> saves all of it to the file TRUTH.DAT.

  Names and paths are the bytes of a C string without its terminator. A pointer to an inode is its
  index, an access outside the array of blocks or a local buffer is \<open>None\<close>. An argument \<open>ok\<close> says
  that \<open>kmalloc\<close> and the disk driver succeed.

  \<open>pfs_ok\<close> is the invariant and \<open>tree\<close> the abstraction, a map from a directory and a name to an
  inode. The first start establishes them (\<open>first_boot\<close>); creating, writing and renaming change the
  tree as they should while inodes, blocks and directory entries last.
\<close>

subsection \<open>State\<close>

abbreviation MAX_PATH :: nat where "MAX_PATH \<equiv> 256"
abbreviation MAX_NAME :: nat where "MAX_NAME \<equiv> 64"
abbreviation BLOCK_SIZE :: nat where "BLOCK_SIZE \<equiv> 4096"
abbreviation DATA_SIZE :: nat where "DATA_SIZE \<equiv> 64 * BLOCK_SIZE"
abbreviation ENTRY_SIZE :: nat where "ENTRY_SIZE \<equiv> 68"
abbreviation INODE_FILE :: nat where "INODE_FILE \<equiv> 1"
abbreviation INODE_DIR :: nat where "INODE_DIR \<equiv> 2"
abbreviation SLASH :: u8 where "SLASH \<equiv> 47"

record phase_inode =
  i_id :: nat
  i_type :: nat
  i_size :: nat
  i_blocks :: "nat list"
  i_owner :: u16
  i_group :: u16
  i_perms :: u16

record image =
  phase_inode_table :: "phase_inode list"
  phase_data_blocks :: "nat \<Rightarrow> u8"
  phase_inode_count :: nat
  phase_block_count :: nat

record pfs = image +
  truth_dat :: "image option"
  sync_enabled :: bool

definition phase_alloc_block :: "pfs \<Rightarrow> nat \<times> pfs" where
  "phase_alloc_block s =
     (if phase_block_count s \<ge> 64 then (0, s)
      else (phase_block_count s, s\<lparr>phase_block_count := phase_block_count s + 1\<rparr>))"

definition fresh_inode :: "nat \<Rightarrow> nat \<Rightarrow> phase_inode" where
  "fresh_inode i ty = \<lparr>i_id = i, i_type = ty, i_size = 0, i_blocks = replicate 12 0, i_owner = 1000, i_group = 1000, i_perms = 0x1ED\<rparr>"

definition phase_alloc_inode :: "nat \<Rightarrow> pfs \<Rightarrow> nat option \<times> pfs" where
  "phase_alloc_inode ty s =
     (let n = phase_inode_count s in
      if n \<ge> 256 then (None, s)
      else (Some n, s\<lparr>phase_inode_table := (phase_inode_table s)[n := fresh_inode n ty], phase_inode_count := n + 1\<rparr>))"

definition phase_vfs_check_perm :: "phase_inode option \<Rightarrow> u16 \<Rightarrow> u8 \<Rightarrow> bool" where
  "phase_vfs_check_perm node uid req =
     (case node of None \<Rightarrow> False
      | Some n \<Rightarrow>
          if uid = 0 then True
          else if uid = i_owner n then drop_bit 6 (i_perms n) AND ucast req \<noteq> 0
          else i_perms n AND ucast req \<noteq> 0)"

subsection \<open>Saving and loading\<close>

definition image_of :: "pfs \<Rightarrow> image" where
  "image_of s = \<lparr>phase_inode_table = phase_inode_table s, phase_data_blocks = phase_data_blocks s,
     phase_inode_count = phase_inode_count s, phase_block_count = phase_block_count s\<rparr>"

definition phase_vfs_sync :: "bool \<Rightarrow> pfs \<Rightarrow> pfs" where
  "phase_vfs_sync ok s = (if \<not> sync_enabled s \<or> \<not> ok then s else s\<lparr>truth_dat := Some (image_of s)\<rparr>)"

definition phase_vfs_load :: "bool \<Rightarrow> pfs \<Rightarrow> pfs" where
  "phase_vfs_load ok s =
     (case truth_dat s of None \<Rightarrow> s
      | Some m \<Rightarrow>
          if \<not> ok then s
          else s\<lparr>phase_inode_table := phase_inode_table m, phase_data_blocks := phase_data_blocks m,
                 phase_inode_count := phase_inode_count m, phase_block_count := phase_block_count m\<rparr>)"

subsection \<open>Directories\<close>

text \<open>\<open>phase_data_blocks[n->blocks[0]]\<close>, and whether the C string at an address is \<open>t\<close>.\<close>

definition inode_base :: "pfs \<Rightarrow> nat \<Rightarrow> nat" where
  "inode_base s n = BLOCK_SIZE * (i_blocks (phase_inode_table s ! n) ! 0)"

definition inode_size :: "pfs \<Rightarrow> nat \<Rightarrow> nat" where
  "inode_size s n = i_size (phase_inode_table s ! n)"

definition inode_type :: "pfs \<Rightarrow> nat \<Rightarrow> nat" where
  "inode_type s n = i_type (phase_inode_table s ! n)"

definition str_at :: "(nat \<Rightarrow> u8) \<Rightarrow> nat \<Rightarrow> u8 list \<Rightarrow> bool" where
  "str_at m a t \<longleftrightarrow> list_all (\<lambda>k. m (a + k) = t ! k) [0 ..< length t] \<and> m (a + length t) = 0"

definition id_at :: "(nat \<Rightarrow> u8) \<Rightarrow> nat \<Rightarrow> nat" where
  "id_at m a = unat (m (a + 64)) + 256 * unat (m (a + 65)) + 65536 * unat (m (a + 66)) + 16777216 * unat (m (a + 67))"

text \<open>The search loop over the entries from \<open>j\<close> on; \<open>Some (Some j)\<close> is the first that matches.\<close>

fun scan_entries :: "(nat \<Rightarrow> u8) \<Rightarrow> nat \<Rightarrow> u8 list \<Rightarrow> nat \<Rightarrow> nat \<Rightarrow> nat option option" where
  "scan_entries m b t j 0 = Some None"
| "scan_entries m b t j (Suc n) =
     (if b + ENTRY_SIZE * (j + 1) > DATA_SIZE then None
      else if str_at m (b + ENTRY_SIZE * j) t then Some (Some j)
      else scan_entries m b t (j + 1) n)"

definition find_entry :: "pfs \<Rightarrow> nat \<Rightarrow> u8 list \<Rightarrow> nat option option" where
  "find_entry s d t = scan_entries (phase_data_blocks s) (inode_base s d) t 0 (inode_size s d)"

definition entry_id :: "pfs \<Rightarrow> nat \<Rightarrow> nat \<Rightarrow> nat" where
  "entry_id s d j = id_at (phase_data_blocks s) (inode_base s d + ENTRY_SIZE * j)"

definition write_bytes :: "nat \<Rightarrow> u8 list \<Rightarrow> (nat \<Rightarrow> u8) \<Rightarrow> nat \<Rightarrow> u8" where
  "write_bytes a bs m = (\<lambda>k. if a \<le> k \<and> k < a + length bs then bs ! (k - a) else m k)"

definition id_bytes :: "nat \<Rightarrow> u8 list" where
  "id_bytes n = [of_nat n, of_nat (n div 256), of_nat (n div 65536), of_nat (n div 16777216)]"

text \<open>The entry behind the last one: the name as bytes to write, and the inode number.\<close>

definition add_entry :: "nat \<Rightarrow> u8 list \<Rightarrow> nat \<Rightarrow> pfs \<Rightarrow> pfs option" where
  "add_entry d nm n s =
     (let a = inode_base s d + ENTRY_SIZE * inode_size s d in
      if a + ENTRY_SIZE > DATA_SIZE then None
      else Some (s\<lparr>phase_data_blocks := write_bytes (a + 64) (id_bytes n) (write_bytes a nm (phase_data_blocks s)),
                   phase_inode_table := (phase_inode_table s)[d := (phase_inode_table s ! d)\<lparr>i_size := inode_size s d + 1\<rparr>]\<rparr>))"

definition set_block0 :: "nat \<Rightarrow> nat \<Rightarrow> pfs \<Rightarrow> pfs" where
  "set_block0 n b s = s\<lparr>phase_inode_table :=
     (phase_inode_table s)[n := (phase_inode_table s ! n)\<lparr>i_blocks := (i_blocks (phase_inode_table s ! n))[0 := b]\<rparr>]\<rparr>"

definition zero_block :: "nat \<Rightarrow> pfs \<Rightarrow> pfs" where
  "zero_block b s = s\<lparr>phase_data_blocks := write_bytes (BLOCK_SIZE * b) (replicate BLOCK_SIZE 0) (phase_data_blocks s)\<rparr>"

subsection \<open>Paths\<close>

text \<open>
  \<open>split_path\<close>: from the end back over slashes (never past the first byte), then back to a slash.
\<close>

fun skip_slashes :: "u8 list \<Rightarrow> nat \<Rightarrow> nat" where
  "skip_slashes p 0 = 0"
| "skip_slashes p (Suc i) = (if p ! Suc i = SLASH then skip_slashes p i else Suc i)"

fun find_slash :: "u8 list \<Rightarrow> nat \<Rightarrow> nat option" where
  "find_slash p 0 = (if p ! 0 = SLASH then Some 0 else None)"
| "find_slash p (Suc i) = (if p ! Suc i = SLASH then Some (Suc i) else find_slash p i)"

definition split_path :: "u8 list \<Rightarrow> (u8 list \<times> u8 list) option" where
  "split_path path =
     (let (par, nm) =
        (if path = [] then ([SLASH], [])
         else case find_slash path (skip_slashes path (length path - 1)) of
           None \<Rightarrow> ([SLASH], path)
         | Some i \<Rightarrow> (if i = 0 then [SLASH] else take i path, drop (i + 1) path))
      in if length par < MAX_PATH \<and> length nm < MAX_NAME then Some (par, nm) else None)"

text \<open>One component: the first entry of that name, and its inode.\<close>

definition enter_dir :: "pfs \<Rightarrow> nat \<Rightarrow> u8 list \<Rightarrow> nat option option" where
  "enter_dir s cur t = do {
     f \<leftarrow> find_entry s cur t;
     case f of None \<Rightarrow> Some None
     | Some j \<Rightarrow> if entry_id s cur j < 256 then Some (Some (entry_id s cur j)) else None }"

text \<open>The loop of \<open>phase_vfs_resolve\<close> over the bytes of the path, with the token read so far.\<close>

fun resolve_loop :: "pfs \<Rightarrow> nat \<Rightarrow> u8 list \<Rightarrow> u8 list \<Rightarrow> nat option option" where
  "resolve_loop s cur tok [] =
     (if length tok \<ge> MAX_NAME then None else if tok = [] then Some (Some cur) else enter_dir s cur tok)"
| "resolve_loop s cur tok (c # cs) =
     (if length tok \<ge> MAX_NAME then None
      else if c = SLASH then
        if tok = [] then resolve_loop s cur [] cs
        else do {
          r \<leftarrow> enter_dir s cur tok;
          case r of None \<Rightarrow> Some None | Some n \<Rightarrow> resolve_loop s n [] cs }
      else resolve_loop s cur (tok @ [c]) cs)"

definition phase_vfs_resolve :: "u8 list \<Rightarrow> pfs \<Rightarrow> nat option option" where
  "phase_vfs_resolve path s =
     (if path = [] \<or> path ! 0 \<noteq> SLASH then Some None
      else if path = [SLASH] then Some (Some 0)
      else resolve_loop s 0 [] (tl path))"

subsection \<open>Creating, writing and moving\<close>

definition vfs_mkdir_phase_a :: "bool \<Rightarrow> u8 list \<Rightarrow> pfs \<Rightarrow> (bool \<times> pfs) option" where
  "vfs_mkdir_phase_a ok path s = do {
     (par, nm) \<leftarrow> split_path path;
     r \<leftarrow> phase_vfs_resolve par s;
     case r of None \<Rightarrow> Some (False, s)
     | Some d \<Rightarrow>
         if inode_type s d \<noteq> INODE_DIR then Some (False, s)
         else do {
           f \<leftarrow> find_entry s d nm;
           if f \<noteq> None then Some (False, s)
           else let (n, s1) = phase_alloc_inode INODE_DIR s in
             case n of None \<Rightarrow> Some (False, s1)
             | Some n \<Rightarrow> do {
                 let (b, s2) = phase_alloc_block s1;
                 s3 \<leftarrow> add_entry d (nm @ [0]) n (zero_block b (set_block0 n b s2));
                 Some (True, phase_vfs_sync ok s3) } } }"

definition vfs_create_file_phase_a :: "bool \<Rightarrow> u8 list \<Rightarrow> pfs \<Rightarrow> (int \<times> pfs) option" where
  "vfs_create_file_phase_a ok path s = do {
     (par, nm) \<leftarrow> split_path path;
     r \<leftarrow> phase_vfs_resolve par s;
     case r of None \<Rightarrow> Some (-1, s)
     | Some d \<Rightarrow> do {
         f \<leftarrow> find_entry s d nm;
         if f \<noteq> None then Some (-1, s)
         else let (n, s1) = phase_alloc_inode INODE_FILE s in
           case n of None \<Rightarrow> Some (-1, s1)
           | Some n \<Rightarrow> do {
               let (b, s2) = phase_alloc_block s1;
               s3 \<leftarrow> add_entry d (nm @ [0]) n (set_block0 n b s2);
               Some (int n, phase_vfs_sync ok s3) } } }"

definition vfs_write_phase_a :: "bool \<Rightarrow> nat option \<Rightarrow> u8 list \<Rightarrow> pfs \<Rightarrow> (int \<times> pfs) option" where
  "vfs_write_phase_a ok f bs s =
     (case f of None \<Rightarrow> Some (-1, s)
      | Some n \<Rightarrow>
          if inode_type s n \<noteq> INODE_FILE then Some (-1, s)
          else
            let dat = take BLOCK_SIZE bs in
            if inode_base s n + length dat > DATA_SIZE then None
            else Some (int (length dat), phase_vfs_sync ok (s\<lparr>
              phase_data_blocks := write_bytes (inode_base s n) dat (phase_data_blocks s),
              phase_inode_table := (phase_inode_table s)[n := (phase_inode_table s ! n)\<lparr>i_size := length dat\<rparr>]\<rparr>)))"

text \<open>Entry \<open>j + 1\<close> is copied over entry \<open>j\<close>, for \<open>j\<close> from \<open>i\<close> to the last but one.\<close>

definition copy_entry :: "nat \<Rightarrow> nat \<Rightarrow> (nat \<Rightarrow> u8) \<Rightarrow> nat \<Rightarrow> u8" where
  "copy_entry b j m =
     (\<lambda>k. if b + ENTRY_SIZE * j \<le> k \<and> k < b + ENTRY_SIZE * (j + 1) then m (k + ENTRY_SIZE) else m k)"

definition remove_entry :: "nat \<Rightarrow> nat \<Rightarrow> pfs \<Rightarrow> pfs option" where
  "remove_entry d i s =
     (let b = inode_base s d; n = inode_size s d in
      if b + ENTRY_SIZE * n > DATA_SIZE then None
      else Some (s\<lparr>phase_data_blocks := fold (copy_entry b) [i ..< n - 1] (phase_data_blocks s),
                   phase_inode_table := (phase_inode_table s)[d := (phase_inode_table s ! d)\<lparr>i_size := n - 1\<rparr>]\<rparr>))"

definition phase_vfs_rename :: "bool \<Rightarrow> u8 list \<Rightarrow> u8 list \<Rightarrow> pfs \<Rightarrow> (bool \<times> pfs) option" where
  "phase_vfs_rename ok oldpath newpath s = do {
     (opar, onm) \<leftarrow> split_path oldpath;
     (npar, nnm) \<leftarrow> split_path newpath;
     ro \<leftarrow> phase_vfs_resolve opar s;
     rn \<leftarrow> phase_vfs_resolve npar s;
     case (ro, rn) of
       (Some od, Some nd) \<Rightarrow> do {
         fo \<leftarrow> find_entry s od onm;
         case fo of None \<Rightarrow> Some (False, s)
         | Some i \<Rightarrow> do {
             fn \<leftarrow> find_entry s nd nnm;
             if fn \<noteq> None then Some (False, s)
             else do {
               s1 \<leftarrow> add_entry nd (nnm @ [0]) (entry_id s od i) s;
               s2 \<leftarrow> remove_entry od i s1;
               Some (True, phase_vfs_sync ok s2) } } }
     | _ \<Rightarrow> Some (False, s) }"

text \<open>The bytes \<open>phase_create_in_dir\<close> stores: nothing for the empty name.\<close>

definition clipped_name :: "u8 list \<Rightarrow> u8 list" where
  "clipped_name nm = (if nm = [] then [] else take (MAX_NAME - 1) nm @ [0])"

definition phase_create_in_dir :: "bool \<Rightarrow> nat option \<Rightarrow> u8 list \<Rightarrow> int \<Rightarrow> pfs \<Rightarrow> (int \<times> pfs) option" where
  "phase_create_in_dir ok pdir nm type s =
     (case pdir of None \<Rightarrow> Some (-1, s)
      | Some d \<Rightarrow>
          if inode_type s d \<noteq> INODE_DIR then Some (-1, s)
          else do {
            f \<leftarrow> find_entry s d nm;
            if f \<noteq> None then Some (-1, s)
            else
              let itype = (if type = 2 then INODE_DIR else INODE_FILE); (n, s1) = phase_alloc_inode itype s in
              case n of None \<Rightarrow> Some (-1, s1)
              | Some n \<Rightarrow>
                  let (b, s2) = phase_alloc_block s1; s3 = set_block0 n b s2;
                      s4 = (if itype = INODE_DIR then zero_block b s3 else s3) in
                  if inode_size s4 d \<ge> BLOCK_SIZE div ENTRY_SIZE then Some (-1, s4)
                  else do {
                    s5 \<leftarrow> add_entry d (clipped_name nm) n s4;
                    Some (int n, phase_vfs_sync ok s5) } })"

text \<open>\<open>cstr\<close> are the bytes of a string literal.\<close>

definition cstr :: "string \<Rightarrow> u8 list" where "cstr t = map of_char t"

definition welcome_text :: "u8 list" where
  "welcome_text = take 60 (cstr ''Welcome to Retro-OS Phase A'' @ [10] @ cstr ''This file is stored in RAM blocks.'' @ [10])"

text \<open>The calls of the start-up code, whose results are not looked at.\<close>

definition boot_mkdir :: "string \<Rightarrow> pfs \<Rightarrow> pfs option" where
  "boot_mkdir path s = map_option snd (vfs_mkdir_phase_a False (cstr path) s)"

definition boot_root :: "pfs \<Rightarrow> pfs" where
  "boot_root s =
     (let (n, s1) = phase_alloc_inode INODE_DIR s in
      case n of None \<Rightarrow> s1
      | Some n \<Rightarrow> let (b, s2) = phase_alloc_block s1 in zero_block b (set_block0 n b s2))"

definition fs_phase_a_bootstrap :: "bool \<Rightarrow> bool \<Rightarrow> pfs \<Rightarrow> pfs option" where
  "fs_phase_a_bootstrap load_ok save_ok s =
     (let s1 = phase_vfs_load load_ok (s\<lparr>sync_enabled := False, phase_inode_count := 0, phase_block_count := 0\<rparr>) in
      if phase_inode_count s1 > 0 then Some s1
      else do {
        s2 \<leftarrow> boot_mkdir ''/home'' (boot_root s1);
        s3 \<leftarrow> boot_mkdir ''/home/user'' s2;
        s4 \<leftarrow> boot_mkdir ''/home/user/Desktop'' s3;
        s5 \<leftarrow> boot_mkdir ''/home/user/Documents'' s4;
        s6 \<leftarrow> boot_mkdir ''/home/user/Downloads'' s5;
        s7 \<leftarrow> boot_mkdir ''/system'' s6;
        s8 \<leftarrow> boot_mkdir ''/system/.recycle'' s7;
        (i, s9) \<leftarrow> vfs_create_file_phase_a False (cstr ''/home/user/Desktop/readme.txt'') s8;
        s10 \<leftarrow> (if i \<ge> 0 then map_option snd (vfs_write_phase_a False (Some (nat i)) welcome_text s9) else Some s9);
        Some (phase_vfs_sync save_ok (s10\<lparr>sync_enabled := True\<rparr>)) })"

subsection \<open>Reading\<close>

definition read_bytes :: "nat \<Rightarrow> nat \<Rightarrow> pfs \<Rightarrow> u8 list option" where
  "read_bytes a n s = (if a + n > DATA_SIZE then None else Some (map (phase_data_blocks s) [a ..< a + n]))"

text \<open>
  \<open>sys_ls_direct\<close>, \<open>sys_stat_direct\<close> and \<open>sys_read_direct\<close>: an inner \<open>None\<close> is the result -1. The
  limit is an \<open>int\<close> that the comparison with the size converts, so a negative one is no limit.
\<close>

definition read_limit :: "nat \<Rightarrow> u32 \<Rightarrow> nat" where "read_limit sz mx = (if sz < unat mx then sz else unat mx)"

definition sys_ls_direct :: "u8 list \<Rightarrow> u32 \<Rightarrow> pfs \<Rightarrow> u8 list list option option" where
  "sys_ls_direct path mx s = do {
     r \<leftarrow> phase_vfs_resolve path s;
     case r of None \<Rightarrow> Some None
     | Some d \<Rightarrow>
         if inode_type s d \<noteq> INODE_DIR then Some None
         else do {
           bs \<leftarrow> read_bytes (inode_base s d) (ENTRY_SIZE * read_limit (inode_size s d) mx) s;
           Some (Some (map (\<lambda>i. take ENTRY_SIZE (drop (ENTRY_SIZE * i) bs)) [0 ..< read_limit (inode_size s d) mx])) } }"

definition sys_stat_direct :: "u8 list \<Rightarrow> pfs \<Rightarrow> phase_inode option option" where
  "sys_stat_direct path s = map_option (map_option (\<lambda>n. phase_inode_table s ! n)) (phase_vfs_resolve path s)"

definition sys_read_direct :: "u8 list \<Rightarrow> u32 \<Rightarrow> pfs \<Rightarrow> u8 list option option" where
  "sys_read_direct path mx s = do {
     r \<leftarrow> phase_vfs_resolve path s;
     case r of None \<Rightarrow> Some None
     | Some f \<Rightarrow>
         if inode_type s f \<noteq> INODE_FILE then Some None
         else do { bs \<leftarrow> read_bytes (inode_base s f) (read_limit (inode_size s f) mx) s; Some (Some bs) } }"

text \<open>The \<open>read\<close> and \<open>write\<close> of the nodes \<open>vfs.cpp\<close> makes of inodes.\<close>

definition node_read :: "nat \<Rightarrow> nat \<Rightarrow> nat \<Rightarrow> pfs \<Rightarrow> u8 list option" where
  "node_read n off sz s = (if inode_type s n \<noteq> INODE_FILE then Some [] else read_bytes (inode_base s n + off) sz s)"

definition node_write :: "bool \<Rightarrow> nat \<Rightarrow> nat \<Rightarrow> u8 list \<Rightarrow> pfs \<Rightarrow> (int \<times> pfs) option" where
  "node_write ok n off bs s = (if inode_type s n \<noteq> INODE_FILE then Some (0, s) else vfs_write_phase_a ok (Some n) bs s)"

subsection \<open>The recycle bin\<close>

definition base_name :: "u8 list \<Rightarrow> u8 list" where
  "base_name p = (if p = [] then [] else case find_slash p (length p - 1) of None \<Rightarrow> p | Some i \<Rightarrow> drop (i + 1) p)"

text \<open>The path in the recycle bin; its buffer has 128 bytes, that of the name 64.\<close>

definition recycled :: "u8 list \<Rightarrow> u8 list option" where
  "recycled path =
     (let t = cstr ''/system/.recycle'' @ [SLASH] @ base_name path in
      if length (base_name path) < 64 \<and> length t < 128 then Some t else None)"

definition fs_soft_delete :: "bool \<Rightarrow> u8 list \<Rightarrow> pfs \<Rightarrow> (bool \<times> pfs) option" where
  "fs_soft_delete ok path s = do { t \<leftarrow> recycled path; phase_vfs_rename ok path t s }"

datatype history_op = OP_DELETE | OP_RENAME

type_synonym history = "(history_op \<times> u8 list \<times> u8 list) list"

text \<open>The history, newest entry first; only deletions are ever pushed.\<close>

definition history_push :: "history_op \<Rightarrow> u8 list \<Rightarrow> u8 list \<Rightarrow> history \<Rightarrow> history" where
  "history_push op a b h = (if length h \<ge> 64 then h else (op, a, b) # h)"

definition history_undo :: "bool \<Rightarrow> history \<times> pfs \<Rightarrow> (history \<times> pfs) option" where
  "history_undo ok hs =
     (case hs of ([], s) \<Rightarrow> Some ([], s)
      | ((op, src, dst) # h, s) \<Rightarrow>
          (case op of
             OP_DELETE \<Rightarrow> do { (_, s1) \<leftarrow> phase_vfs_rename ok dst src s; Some (h, s1) }
           | OP_RENAME \<Rightarrow> Some (h, s)))"

definition act_delete :: "bool \<Rightarrow> u8 list \<Rightarrow> history \<times> pfs \<Rightarrow> (bool \<times> history \<times> pfs) option" where
  "act_delete ok path hs = do {
     t \<leftarrow> recycled path;
     (r, s1) \<leftarrow> fs_soft_delete ok path (snd hs);
     Some (r, history_push OP_DELETE path t (fst hs), s1) }"

text \<open>The new objects of the context menu.\<close>

definition in_folder :: "u8 list \<Rightarrow> u8 list \<Rightarrow> u8 list option" where
  "in_folder path nm =
     (let full = (if path \<noteq> [] \<and> last path \<noteq> SLASH then path @ [SLASH] @ nm else path @ nm) in
      if length full < MAX_PATH then Some full else None)"

definition act_new_folder :: "bool \<Rightarrow> u8 list \<Rightarrow> pfs \<Rightarrow> (bool \<times> pfs) option" where
  "act_new_folder ok path s = do { p \<leftarrow> in_folder path (cstr ''New Folder''); vfs_mkdir_phase_a ok p s }"

definition act_new_file :: "bool \<Rightarrow> u8 list \<Rightarrow> pfs \<Rightarrow> (bool \<times> pfs) option" where
  "act_new_file ok path s = do {
     p \<leftarrow> in_folder path (cstr ''NewFile.txt''); (i, s1) \<leftarrow> vfs_create_file_phase_a ok p s; Some (i \<ge> 0, s1) }"

subsection \<open>The entries of a directory\<close>

text \<open>The name field as a string, and the list of entries; a field is terminated when it contains a zero.\<close>

definition raw_name :: "(nat \<Rightarrow> u8) \<Rightarrow> nat \<Rightarrow> u8 list" where
  "raw_name m a = takeWhile (\<lambda>b. b \<noteq> 0) (map (\<lambda>k. m (a + k)) [0 ..< 64])"

definition terminated :: "(nat \<Rightarrow> u8) \<Rightarrow> nat \<Rightarrow> bool" where
  "terminated m a \<longleftrightarrow> (\<exists>k < 64. m (a + k) = 0)"

definition entries_at :: "(nat \<Rightarrow> u8) \<Rightarrow> nat \<Rightarrow> nat \<Rightarrow> (u8 list \<times> nat) list" where
  "entries_at m b n = map (\<lambda>j. (raw_name m (b + ENTRY_SIZE * j), id_at m (b + ENTRY_SIZE * j))) [0 ..< n]"

lemma takeWhile_nonzero:
  assumes "0 \<notin> set t" "length t < n" "\<forall>k < length t. f k = t ! k" "f (length t) = (0 :: u8)"
  shows "takeWhile (\<lambda>b. b \<noteq> 0) (map f [0 ..< n]) = t"
proof (rule takeWhile_eq_take_P_nth [THEN trans])
  show "(map f [0 ..< n]) ! i \<noteq> 0" if "i < length t" "i < length (map f [0 ..< n])" for i
    using assms(2,3) that nth_mem [OF that(1)] assms(1) by (metis add_0 length_map nth_map_upt length_upt minus_nat.diff_0)
  show "\<not> (map f [0 ..< n] ! length t \<noteq> 0)" if "length t < length (map f [0 ..< n])" using assms(2,4) by simp
  show "take (length t) (map f [0 ..< n]) = t"
    using assms(2,3) by (intro nth_equalityI) auto
qed

lemma str_at_iff:
  assumes "terminated m a" "0 \<notin> set t"
  shows "str_at m a t \<longleftrightarrow> raw_name m a = t"
proof
  assume s: "str_at m a t"
  then have z: "\<forall>k < length t. m (a + k) = t ! k" "m (a + length t) = 0" by (auto simp: str_at_def list_all_iff)
  obtain k where k: "k < 64" "m (a + k) = 0" using assms(1) by (auto simp: terminated_def)
  have "\<not> k < length t" using z(1) k(2) assms(2) nth_mem by fastforce
  then have "length t < 64" using k(1) by simp
  then show "raw_name m a = t" unfolding raw_name_def using z by (intro takeWhile_nonzero [OF assms(2)]) simp_all
next
  assume r: "raw_name m a = t"
  let ?l = "map (\<lambda>k. m (a + k)) [0 ..< 64]"
  obtain k where k: "k < 64" "m (a + k) = 0" using assms(1) by (auto simp: terminated_def)
  have "0 \<in> set ?l" using k by (auto simp: image_iff intro!: bexI [of _ k])
  then have "t \<noteq> ?l" using assms(2) by auto
  then have l: "length t < 64" using r length_takeWhile_le [of "\<lambda>b. b \<noteq> 0" ?l]
    by (metis (no_types, lifting) diff_zero le_neq_implies_less length_map length_upt raw_name_def takeWhile_eq_take take_all_iff nat_le_linear)
  have t: "t = take (length t) ?l" using r unfolding raw_name_def by (metis takeWhile_eq_take length_takeWhile_le length_take min.absorb2)
  have "m (a + k) = t ! k" if "k < length t" for k
    using arg_cong [OF t, of "\<lambda>x. x ! k"] that l by simp
  moreover have "m (a + length t) = 0"
    using nth_length_takeWhile [of "\<lambda>b. b \<noteq> 0" ?l] r l unfolding raw_name_def by simp
  ultimately show "str_at m a t" by (simp add: str_at_def list_all_iff)
qed

lemma scan_entries_eq:
  assumes "0 \<notin> set t" "\<forall>i < j + n. terminated m (b + ENTRY_SIZE * i)" "b + ENTRY_SIZE * (j + n) \<le> DATA_SIZE"
  shows "scan_entries m b t j n =
    Some (map_option (\<lambda>i. i + j) (first_idx (\<lambda>x. x = t) (map (\<lambda>i. raw_name m (b + ENTRY_SIZE * i)) [j ..< j + n])))"
  using assms(2,3)
proof (induction n arbitrary: j)
  case 0
  then show ?case by simp
next
  case (Suc n)
  have "str_at m (b + ENTRY_SIZE * j) t \<longleftrightarrow> raw_name m (b + ENTRY_SIZE * j) = t"
    using str_at_iff [OF _ assms(1)] Suc.prems(1) by simp
  moreover have "scan_entries m b t (Suc j) n =
    Some (map_option (\<lambda>i. i + Suc j) (first_idx (\<lambda>x. x = t) (map (\<lambda>i. raw_name m (b + ENTRY_SIZE * i)) [Suc j ..< Suc j + n])))"
    using Suc.prems by (intro Suc.IH) simp_all
  moreover have "[j ..< j + Suc n] = j # [Suc j ..< Suc j + n]" by (simp add: upt_conv_Cons del: upt_Suc)
  ultimately show ?case using Suc.prems(2)
    by (simp add: option.map_comp comp_def del: upt_Suc)
qed

lemma first_idx_map: "first_idx P (map f xs) = first_idx (\<lambda>x. P (f x)) xs"
  by (induction xs) simp_all

lemma find_entry_eq:
  assumes "0 \<notin> set t" "\<forall>i < inode_size s d. terminated (phase_data_blocks s) (inode_base s d + ENTRY_SIZE * i)"
    "inode_base s d + ENTRY_SIZE * inode_size s d \<le> DATA_SIZE"
  shows "find_entry s d t = Some (first_idx (\<lambda>e. fst e = t) (entries_at (phase_data_blocks s) (inode_base s d) (inode_size s d)))"
  unfolding find_entry_def using scan_entries_eq [of t 0 "inode_size s d"] assms
  by (simp add: entries_at_def first_idx_map comp_def option.map_ident)

lemma map_of_first_idx: "map_of es t = map_option (\<lambda>j. snd (es ! j)) (first_idx (\<lambda>e. fst e = t) es)"
  by (induction es) (auto simp: option.map_comp comp_def)

lemma length_entries_at [simp]: "length (entries_at m b n) = n"
  by (simp add: entries_at_def)

lemma entry_cong:
  assumes "\<forall>k < ENTRY_SIZE. m (a + k) = m' (a' + k)"
  shows "raw_name m a = raw_name m' a'" "id_at m a = id_at m' a'" "terminated m a = terminated m' a'"
proof -
  have "map (\<lambda>k. m (a + k)) [0 ..< 64] = map (\<lambda>k. m' (a' + k)) [0 ..< 64]" using assms by (intro map_cong) auto
  then show "raw_name m a = raw_name m' a'" by (simp only: raw_name_def)
  show "id_at m a = id_at m' a'" using assms by (simp add: id_at_def)
  have "m (a + k) = m' (a' + k)" if "k < 64" for k using assms that by simp
  then show "terminated m a = terminated m' a'" by (auto simp: terminated_def)
qed

lemma entries_at_cong:
  assumes "\<forall>k. b \<le> k \<and> k < b + ENTRY_SIZE * n \<longrightarrow> m k = m' k"
  shows "entries_at m b n = entries_at m' b n"
    "(\<forall>i < n. terminated m (b + ENTRY_SIZE * i)) \<longleftrightarrow> (\<forall>i < n. terminated m' (b + ENTRY_SIZE * i))"
proof -
  have e: "\<forall>k < ENTRY_SIZE. m (b + ENTRY_SIZE * i + k) = m' (b + ENTRY_SIZE * i + k)" if "i < n" for i
    using assms that by auto
  show "entries_at m b n = entries_at m' b n"
    unfolding entries_at_def using entry_cong [OF e] by auto
  show "(\<forall>i < n. terminated m (b + ENTRY_SIZE * i)) \<longleftrightarrow> (\<forall>i < n. terminated m' (b + ENTRY_SIZE * i))"
    using entry_cong(3) [OF e] by auto
qed

lemma entries_at_Suc: "entries_at m b (Suc n) = entries_at m b n @ [(raw_name m (b + ENTRY_SIZE * n), id_at m (b + ENTRY_SIZE * n))]"
  by (simp add: entries_at_def)

lemma id_bytes_at: "n < 256 \<Longrightarrow> id_at (write_bytes (a + 64) (id_bytes n) m) a = n"
  by (simp add: id_at_def write_bytes_def id_bytes_def unat_of_nat)

lemma write_bytes_other: "k < a \<or> a + length bs \<le> k \<Longrightarrow> write_bytes a bs m k = m k"
  by (auto simp: write_bytes_def)

lemma write_bytes_at: "i < length bs \<Longrightarrow> write_bytes a bs m (a + i) = bs ! i"
  by (simp add: write_bytes_def)

text \<open>An entry written behind the last one.\<close>

lemma new_entry:
  assumes "0 \<notin> set nm" "length nm < MAX_NAME" "v < 256"
  defines "m1 \<equiv> \<lambda>a m. write_bytes (a + 64) (id_bytes v) (write_bytes a (nm @ [0]) m)"
  shows "raw_name (m1 a m) a = nm" "id_at (m1 a m) a = v" "terminated (m1 a m) a"
    "k < a \<or> a + ENTRY_SIZE \<le> k \<Longrightarrow> m1 a m k = m k"
proof -
  have l: "length (id_bytes v) = 4" by (simp add: id_bytes_def)
  have at: "m1 a m (a + i) = (nm @ [0]) ! i" if "i \<le> length nm" for i
    using that assms(2) write_bytes_at [of i "nm @ [0]" a m] by (simp add: m1_def write_bytes_other)
  show "raw_name (m1 a m) a = nm"
    unfolding raw_name_def using at assms(1,2) by (intro takeWhile_nonzero) (simp_all add: nth_append)
  show "id_at (m1 a m) a = v" using id_bytes_at [OF assms(3)] by (simp add: m1_def)
  show "terminated (m1 a m) a" unfolding terminated_def using at [of "length nm"] assms(2) by (intro exI [of _ "length nm"]) simp
  show "m1 a m k = m k" if "k < a \<or> a + ENTRY_SIZE \<le> k"
    using that assms(2) by (auto simp: m1_def write_bytes_def l)
qed

text \<open>Removing an entry by moving the later ones down.\<close>

lemma copy_entries:
  assumes "i \<le> n"
  shows "fold (copy_entry b) [i ..< n] m =
    (\<lambda>k. if b + ENTRY_SIZE * i \<le> k \<and> k < b + ENTRY_SIZE * n then m (k + ENTRY_SIZE) else m k)"
  using assms
proof (induction n)
  case 0
  then show ?case by (auto simp: fun_eq_iff)
next
  case (Suc n)
  show ?case
  proof (cases "i = Suc n")
    case True
    then show ?thesis by (auto simp: fun_eq_iff)
  next
    case False
    then show ?thesis using Suc by (auto simp: copy_entry_def fun_eq_iff)
  qed
qed

lemma entries_at_removed:
  fixes m :: "nat \<Rightarrow> u8" and b :: nat
  assumes "i < Suc n"
  defines "m1 \<equiv> fold (copy_entry b) [i ..< n] m"
  shows "entries_at m1 b n = take i (entries_at m b (Suc n)) @ drop (Suc i) (entries_at m b (Suc n))"
    "(\<forall>j < Suc n. terminated m (b + ENTRY_SIZE * j)) \<Longrightarrow> \<forall>j < n. terminated m1 (b + ENTRY_SIZE * j)"
    "k < b + ENTRY_SIZE * i \<or> b + ENTRY_SIZE * n \<le> k \<Longrightarrow> m1 k = m k"
proof -
  have m1: "m1 k = (if b + ENTRY_SIZE * i \<le> k \<and> k < b + ENTRY_SIZE * n then m (k + ENTRY_SIZE) else m k)" for k
    using copy_entries [of i n b m] assms(1) by (simp add: m1_def)
  have e: "\<forall>k < ENTRY_SIZE. m1 (b + ENTRY_SIZE * j + k) = m (b + ENTRY_SIZE * (if j < i then j else Suc j) + k)" if "j < n" for j
    using that by (auto simp: m1 algebra_simps)
  show "entries_at m1 b n = take i (entries_at m b (Suc n)) @ drop (Suc i) (entries_at m b (Suc n))"
  proof (rule nth_equalityI)
    show "length (entries_at m1 b n) = length (take i (entries_at m b (Suc n)) @ drop (Suc i) (entries_at m b (Suc n)))"
      using assms(1) by simp
    fix j assume "j < length (entries_at m1 b n)"
    then show "entries_at m1 b n ! j = (take i (entries_at m b (Suc n)) @ drop (Suc i) (entries_at m b (Suc n))) ! j"
      using entry_cong [OF e [of j]] assms(1) by (simp add: entries_at_def nth_append del: upt_Suc)
  qed
  show "\<forall>j < n. terminated m1 (b + ENTRY_SIZE * j)" if "\<forall>j < Suc n. terminated m (b + ENTRY_SIZE * j)"
    using entry_cong(3) [OF e] that by auto
  show "m1 k = m k" if "k < b + ENTRY_SIZE * i \<or> b + ENTRY_SIZE * n \<le> k"
    using that by (auto simp: m1)
qed

subsection \<open>Well-formed file systems\<close>

definition block0 :: "pfs \<Rightarrow> nat \<Rightarrow> nat" where "block0 s n = i_blocks (phase_inode_table s ! n) ! 0"
definition is_dir :: "pfs \<Rightarrow> nat \<Rightarrow> bool" where "is_dir s n \<longleftrightarrow> n < phase_inode_count s \<and> inode_type s n = INODE_DIR"
definition is_file :: "pfs \<Rightarrow> nat \<Rightarrow> bool" where "is_file s n \<longleftrightarrow> n < phase_inode_count s \<and> inode_type s n = INODE_FILE"

definition ents :: "pfs \<Rightarrow> nat \<Rightarrow> (u8 list \<times> nat) list" where
  "ents s d = entries_at (phase_data_blocks s) (inode_base s d) (inode_size s d)"

definition dir_ok :: "pfs \<Rightarrow> nat \<Rightarrow> bool" where
  "dir_ok s d \<longleftrightarrow> inode_size s d \<le> 60 \<and> distinct (map fst (ents s d)) \<and> (\<forall>e \<in> set (ents s d). snd e < phase_inode_count s) \<and>
     (\<forall>j < inode_size s d. terminated (phase_data_blocks s) (inode_base s d + ENTRY_SIZE * j))"

text \<open>
  Blocks are not shared, the root has the first one, directories fit theirs and have distinct,
  terminated names that lead to inodes in use.
\<close>

definition pfs_ok :: "pfs \<Rightarrow> bool" where
  "pfs_ok s \<longleftrightarrow> length (phase_inode_table s) = 256 \<and> 0 < phase_inode_count s \<and> phase_inode_count s \<le> 256 \<and>
     phase_block_count s \<le> 64 \<and>
     (\<forall>n < phase_inode_count s. length (i_blocks (phase_inode_table s ! n)) = 12 \<and> block0 s n < phase_block_count s \<and>
        (inode_type s n = INODE_FILE \<or> inode_type s n = INODE_DIR)) \<and>
     inj_on (block0 s) {..< phase_inode_count s} \<and> inode_type s 0 = INODE_DIR \<and> block0 s 0 = 0 \<and>
     (\<forall>d. is_dir s d \<longrightarrow> dir_ok s d) \<and> (\<forall>n. is_file s n \<longrightarrow> inode_size s n \<le> BLOCK_SIZE)"

text \<open>The tree: which inode a name in a directory stands for.\<close>

definition tree :: "pfs \<Rightarrow> nat \<Rightarrow> u8 list \<Rightarrow> nat option" where
  "tree s d = (if is_dir s d then map_of (ents s d) else Map.empty)"

lemma inode_base_block0: "inode_base s n = BLOCK_SIZE * block0 s n"
  by (simp add: inode_base_def block0_def)

lemma pfs_okD:
  assumes "pfs_ok s"
  shows "length (phase_inode_table s) = 256" "0 < phase_inode_count s" "phase_inode_count s \<le> 256" "phase_block_count s \<le> 64"
    "n < phase_inode_count s \<Longrightarrow> block0 s n < phase_block_count s"
    "n < phase_inode_count s \<Longrightarrow> inode_type s n = INODE_FILE \<or> inode_type s n = INODE_DIR"
    "i < phase_inode_count s \<Longrightarrow> j < phase_inode_count s \<Longrightarrow> block0 s i = block0 s j \<Longrightarrow> i = j"
    "is_dir s 0" "block0 s 0 = 0" "is_dir s d \<Longrightarrow> dir_ok s d" "is_file s n \<Longrightarrow> inode_size s n \<le> BLOCK_SIZE"
    "n < phase_inode_count s \<Longrightarrow> length (i_blocks (phase_inode_table s ! n)) = 12"
  using assms unfolding pfs_ok_def is_dir_def by (auto dest: inj_onD)

lemma dir_okD:
  assumes "dir_ok s d"
  shows "inode_size s d \<le> 60" "distinct (map fst (ents s d))" "(nm, n) \<in> set (ents s d) \<Longrightarrow> n < phase_inode_count s"
    "\<forall>j < inode_size s d. terminated (phase_data_blocks s) (inode_base s d + ENTRY_SIZE * j)"
  using assms by (auto simp: dir_ok_def)

lemma is_dir_lt: "is_dir s d \<Longrightarrow> d < phase_inode_count s" by (simp add: is_dir_def)

lemma find_entry_tree:
  assumes "pfs_ok s" "is_dir s d" "0 \<notin> set t"
  shows "find_entry s d t = Some (first_idx (\<lambda>e. fst e = t) (ents s d))" "enter_dir s d t = Some (tree s d t)"
    "tree s d t = Some n \<Longrightarrow> n < phase_inode_count s"
proof -
  note d = pfs_okD(10) [OF assms(1,2)]
  have "block0 s d < 64" using pfs_okD(4,5) [OF assms(1)] is_dir_lt [OF assms(2)] by force
  then have b: "inode_base s d + ENTRY_SIZE * inode_size s d \<le> DATA_SIZE" using dir_okD(1) [OF d] by (simp add: inode_base_block0)
  show f: "find_entry s d t = Some (first_idx (\<lambda>e. fst e = t) (ents s d))"
    unfolding ents_def using find_entry_eq [OF assms(3) dir_okD(4) [OF d] b] .
  have lt: "n < phase_inode_count s" if "tree s d t = Some n" for n
    using that assms(2) dir_okD(3) [OF d, of t n] by (auto simp: tree_def dest: map_of_SomeD)
  then show "tree s d t = Some n \<Longrightarrow> n < phase_inode_count s" .
  show "enter_dir s d t = Some (tree s d t)"
  proof (cases "first_idx (\<lambda>e. fst e = t) (ents s d)")
    case None
    then show ?thesis using f assms(2) by (simp add: enter_dir_def tree_def map_of_first_idx)
  next
    case (Some j)
    have j: "j < inode_size s d" using first_idx_SomeD(1) [OF Some] by (simp add: ents_def)
    then have e: "snd (ents s d ! j) = entry_id s d j" by (simp add: ents_def entries_at_def entry_id_def)
    then have tr: "tree s d t = Some (entry_id s d j)" using Some assms(2) by (simp add: tree_def map_of_first_idx)
    then have "entry_id s d j < 256" using lt pfs_okD(3) [OF assms(1)] by fastforce
    then show ?thesis using f Some tr by (simp add: enter_dir_def)
  qed
qed

text \<open>Changing the contents and the size of one inode.\<close>

definition resized :: "nat \<Rightarrow> nat \<Rightarrow> (nat \<Rightarrow> u8) \<Rightarrow> pfs \<Rightarrow> pfs" where
  "resized d k m s = s\<lparr>phase_data_blocks := m, phase_inode_table := (phase_inode_table s)[d := (phase_inode_table s ! d)\<lparr>i_size := k\<rparr>]\<rparr>"

lemma resized_simps [simp]:
  "phase_inode_count (resized d k m s) = phase_inode_count s" "phase_block_count (resized d k m s) = phase_block_count s"
  "phase_data_blocks (resized d k m s) = m" "block0 (resized d k m s) = block0 s" "inode_base (resized d k m s) = inode_base s"
  "inode_type (resized d k m s) = inode_type s" "is_dir (resized d k m s) = is_dir s" "is_file (resized d k m s) = is_file s"
  "length (phase_inode_table (resized d k m s)) = length (phase_inode_table s)"
  "d < length (phase_inode_table s) \<Longrightarrow> inode_size (resized d k m s) = (inode_size s)(d := k)"
proof -
  have b: "i_blocks (((phase_inode_table s)[d := (phase_inode_table s ! d)\<lparr>i_size := k\<rparr>]) ! n) = i_blocks (phase_inode_table s ! n)" for n
    by (cases "length (phase_inode_table s) \<le> d") (simp_all add: nth_list_update list_update_beyond)
  have y: "i_type (((phase_inode_table s)[d := (phase_inode_table s ! d)\<lparr>i_size := k\<rparr>]) ! n) = i_type (phase_inode_table s ! n)" for n
    by (cases "length (phase_inode_table s) \<le> d") (simp_all add: nth_list_update list_update_beyond)
  show "block0 (resized d k m s) = block0 s" "inode_base (resized d k m s) = inode_base s" "inode_type (resized d k m s) = inode_type s"
    "is_dir (resized d k m s) = is_dir s" "is_file (resized d k m s) = is_file s"
    by (simp_all add: resized_def block0_def inode_base_def inode_type_def is_dir_def is_file_def b y fun_eq_iff)
  show "inode_size (resized d k m s) = (inode_size s)(d := k)" if "d < length (phase_inode_table s)"
    using that by (simp add: resized_def inode_size_def fun_eq_iff)
qed (simp_all add: resized_def)

lemma resized_ok:
  assumes s: "pfs_ok s" and d: "d < phase_inode_count s"
    and m: "\<And>k. k < inode_base s d \<or> inode_base s d + BLOCK_SIZE \<le> k \<Longrightarrow> m k = phase_data_blocks s k"
    and dir: "is_dir s d \<Longrightarrow> dir_ok (resized d k m s) d" and sz: "is_file s d \<Longrightarrow> k \<le> BLOCK_SIZE"
  shows "pfs_ok (resized d k m s)" "\<And>e. is_dir s e \<Longrightarrow> e \<noteq> d \<Longrightarrow> ents (resized d k m s) e = ents s e"
    "\<And>n i. n < phase_inode_count s \<Longrightarrow> n \<noteq> d \<Longrightarrow> i < BLOCK_SIZE \<Longrightarrow> m (inode_base s n + i) = phase_data_blocks s (inode_base s n + i)"
proof -
  have l: "d < length (phase_inode_table s)" using d pfs_okD(1,3) [OF s] by simp
  have dj: "k < inode_base s d \<or> inode_base s d + BLOCK_SIZE \<le> k"
    if "n < phase_inode_count s" "n \<noteq> d" "inode_base s n \<le> k" "k < inode_base s n + BLOCK_SIZE" for n k
  proof -
    have "block0 s n \<noteq> block0 s d" using pfs_okD(7) [OF s that(1) d] that(2) by blast
    then show ?thesis using that(3,4) by (simp add: inode_base_block0) linarith
  qed
  show blk: "m (inode_base s n + i) = phase_data_blocks s (inode_base s n + i)"
    if "n < phase_inode_count s" "n \<noteq> d" "i < BLOCK_SIZE" for n i
    using m [OF dj [OF that(1,2)]] that(3) by simp
  have same: "\<forall>k. inode_base s e \<le> k \<and> k < inode_base s e + ENTRY_SIZE * inode_size s e \<longrightarrow> m k = phase_data_blocks s k"
    if "is_dir s e" "e \<noteq> d" for e
    using m [OF dj [OF is_dir_lt [OF that(1)] that(2)]] dir_okD(1) [OF pfs_okD(10) [OF s that(1)]] by auto
  show ents: "ents (resized d k m s) e = ents s e" if "is_dir s e" "e \<noteq> d" for e
    using entries_at_cong(1) [OF same [OF that]] that(2) by (simp add: ents_def l)
  have "dir_ok (resized d k m s) e" if "is_dir s e" "e \<noteq> d" for e
    using pfs_okD(10) [OF s that(1)] ents [OF that] entries_at_cong(2) [OF same [OF that]] that(2) by (simp add: dir_ok_def l)
  then have "dir_ok (resized d k m s) e" if "is_dir s e" for e using that dir by blast
  moreover have "inode_size (resized d k m s) n \<le> BLOCK_SIZE" if "is_file s n" for n
    using that sz pfs_okD(11) [OF s that] l by (cases "n = d") simp_all
  moreover have "length (i_blocks (phase_inode_table (resized d k m s) ! n)) = 12" if "n < phase_inode_count s" for n
    using pfs_okD(12) [OF s that] by (cases "n = d") (simp_all add: resized_def l)
  ultimately show "pfs_ok (resized d k m s)" using s by (simp add: pfs_ok_def)
qed

lemma add_entry_ok:
  assumes s: "pfs_ok s" and d: "is_dir s d" "inode_size s d < 60" and nm: "0 \<notin> set nm" "length nm < MAX_NAME" "tree s d nm = None"
    and n: "n < phase_inode_count s"
  shows "\<exists>m. add_entry d (nm @ [0]) n s = Some (resized d (inode_size s d + 1) m s) \<and>
    pfs_ok (resized d (inode_size s d + 1) m s) \<and>
    (\<forall>e. is_dir s e \<longrightarrow> ents (resized d (inode_size s d + 1) m s) e = (if e = d then ents s d @ [(nm, n)] else ents s e)) \<and>
    (\<forall>e < phase_inode_count s. \<forall>i < BLOCK_SIZE. e \<noteq> d \<longrightarrow> m (inode_base s e + i) = phase_data_blocks s (inode_base s e + i))"
proof -
  define a where "a = inode_base s d + ENTRY_SIZE * inode_size s d"
  define m where "m = write_bytes (a + 64) (id_bytes n) (write_bytes a (nm @ [0]) (phase_data_blocks s))"
  have lt: "d < phase_inode_count s" using d(1) by (rule is_dir_lt)
  have l: "d < length (phase_inode_table s)" using lt pfs_okD(1,3) [OF s] by simp
  have "block0 s d < 64" using pfs_okD(4,5) [OF s] lt by force
  then have "\<not> a + ENTRY_SIZE > DATA_SIZE" using d(2) by (simp add: a_def inode_base_block0)
  then have add: "add_entry d (nm @ [0]) n s = Some (resized d (inode_size s d + 1) m s)"
    by (simp add: add_entry_def resized_def Let_def a_def m_def)
  have n256: "n < 256" using n pfs_okD(3) [OF s] by simp
  note ne = new_entry [OF nm(1,2) n256, where a = a and m = "phase_data_blocks s", folded m_def]
  have out: "m k = phase_data_blocks s k" if "k < a \<or> a + ENTRY_SIZE \<le> k" for k
    using new_entry(4) [OF nm(1,2) n256, where k = k and a = a and m = "phase_data_blocks s"] that by (simp add: m_def)
  note dok = pfs_okD(10) [OF s d(1)]
  have old: "\<forall>k. inode_base s d \<le> k \<and> k < inode_base s d + ENTRY_SIZE * inode_size s d \<longrightarrow> m k = phase_data_blocks s k"
    using out by (simp add: a_def)
  have ed: "ents (resized d (inode_size s d + 1) m s) d = ents s d @ [(nm, n)]"
    using entries_at_cong(1) [OF old] ne(1,2) by (simp add: ents_def l entries_at_Suc a_def)
  have tm: "\<forall>j < inode_size s d + 1. terminated m (inode_base s d + ENTRY_SIZE * j)"
    using entries_at_cong(2) [OF old] dir_okD(4) [OF dok] ne(3) by (auto simp: less_Suc_eq a_def)
  have "nm \<notin> fst ` set (ents s d)" using nm(3) d(1) by (auto simp: tree_def map_of_eq_None_iff)
  then have dir: "dir_ok (resized d (inode_size s d + 1) m s) d"
    using dir_okD(2,3) [OF dok] d(2) n tm unfolding dir_ok_def ed by (auto simp: l)
  have blk: "m k = phase_data_blocks s k" if "k < inode_base s d \<or> inode_base s d + BLOCK_SIZE \<le> k" for k
    using out [of k] that d(2) by (auto simp: a_def)
  have "\<not> is_file s d" using d(1) by (simp add: is_dir_def is_file_def)
  note r = resized_ok [OF s lt blk dir this [THEN notE]]
  show ?thesis using add r ed by (intro exI [of _ m]) auto
qed

lemma distinct_cut: "distinct xs \<Longrightarrow> distinct (take i xs @ drop (Suc i) xs)"
  using set_take_disj_set_drop_if_distinct [of xs i "Suc i"] by simp

lemma remove_entry_ok:
  assumes s: "pfs_ok s" and d: "is_dir s d" and i: "i < inode_size s d"
  shows "\<exists>m. remove_entry d i s = Some (resized d (inode_size s d - 1) m s) \<and>
    pfs_ok (resized d (inode_size s d - 1) m s) \<and>
    (\<forall>e. is_dir s e \<longrightarrow> ents (resized d (inode_size s d - 1) m s) e = (if e = d then take i (ents s d) @ drop (Suc i) (ents s d) else ents s e)) \<and>
    (\<forall>e < phase_inode_count s. \<forall>i < BLOCK_SIZE. e \<noteq> d \<longrightarrow> m (inode_base s e + i) = phase_data_blocks s (inode_base s e + i))"
proof -
  obtain n where n: "inode_size s d = Suc n" using i by (cases "inode_size s d") auto
  define m where "m = fold (copy_entry (inode_base s d)) [i ..< n] (phase_data_blocks s)"
  have lt: "d < phase_inode_count s" using d by (rule is_dir_lt)
  have l: "d < length (phase_inode_table s)" using lt pfs_okD(1,3) [OF s] by simp
  note dok = pfs_okD(10) [OF s d]
  have "block0 s d < 64" using pfs_okD(4,5) [OF s] lt by force
  then have "\<not> inode_base s d + ENTRY_SIZE * inode_size s d > DATA_SIZE" using dir_okD(1) [OF dok] by (simp add: inode_base_block0)
  then have rm: "remove_entry d i s = Some (resized d (inode_size s d - 1) m s)"
    by (simp add: remove_entry_def resized_def Let_def n m_def del: upt_Suc)
  have iS: "i < Suc n" using i n by simp
  note er = entries_at_removed [OF iS, where b = "inode_base s d" and m = "phase_data_blocks s", folded m_def]
  have ed: "ents (resized d (inode_size s d - 1) m s) d = take i (ents s d) @ drop (Suc i) (ents s d)"
    using er(1) by (simp add: ents_def l n)
  have "distinct (map fst (take i (ents s d) @ drop (Suc i) (ents s d)))"
    using distinct_cut [OF dir_okD(2) [OF dok], of i] by (simp add: take_map drop_map)
  then have dir: "dir_ok (resized d (inode_size s d - 1) m s) d"
    using dir_okD(1,3,4) [OF dok] er(2) unfolding dir_ok_def ed by (auto simp: l n dest: in_set_takeD in_set_dropD)
  have blk: "m k = phase_data_blocks s k" if "k < inode_base s d \<or> inode_base s d + BLOCK_SIZE \<le> k" for k
    using er(3) [of k] that dir_okD(1) [OF dok] n by auto
  have "\<not> is_file s d" using d by (simp add: is_dir_def is_file_def)
  note r = resized_ok [OF s lt blk dir this [THEN notE]]
  show ?thesis using rm r ed by (intro exI [of _ m]) auto
qed

lemma sync_simps [simp]:
  "phase_inode_table (phase_vfs_sync ok s) = phase_inode_table s" "phase_data_blocks (phase_vfs_sync ok s) = phase_data_blocks s"
  "phase_inode_count (phase_vfs_sync ok s) = phase_inode_count s" "phase_block_count (phase_vfs_sync ok s) = phase_block_count s"
  "sync_enabled (phase_vfs_sync ok s) = sync_enabled s" "\<not> sync_enabled s \<Longrightarrow> truth_dat (phase_vfs_sync ok s) = truth_dat s"
  by (simp_all add: phase_vfs_sync_def)

lemma image_determines:
  assumes "phase_inode_table s' = phase_inode_table s" "phase_data_blocks s' = phase_data_blocks s"
    "phase_inode_count s' = phase_inode_count s" "phase_block_count s' = phase_block_count s"
  shows "pfs_ok s' = pfs_ok s" "tree s' = tree s" "is_dir s' = is_dir s" "is_file s' = is_file s" "inode_base s' = inode_base s"
    "inode_size s' = inode_size s" "ents s' = ents s" "inode_type s' = inode_type s" "block0 s' = block0 s"
proof -
  show b: "inode_base s' = inode_base s" "inode_size s' = inode_size s" "inode_type s' = inode_type s" "block0 s' = block0 s"
    using assms by (auto simp: inode_base_def inode_size_def inode_type_def block0_def)
  then show e: "ents s' = ents s" "is_dir s' = is_dir s" "is_file s' = is_file s"
    using assms by (auto simp: ents_def is_dir_def is_file_def)
  then show "tree s' = tree s" by (auto simp: tree_def)
  have "dir_ok s' = dir_ok s" using b e assms by (auto simp: dir_ok_def)
  then show "pfs_ok s' = pfs_ok s" using b e assms by (simp add: pfs_ok_def)
qed

lemmas sync_keeps [simp] = image_determines [OF sync_simps(1-4)]

subsection \<open>Creating\<close>

text \<open>The state with one more inode, whose block has the contents \<open>m\<close> gives it.\<close>

definition grown :: "nat \<Rightarrow> (nat \<Rightarrow> u8) \<Rightarrow> pfs \<Rightarrow> pfs" where
  "grown ty m s = s\<lparr>phase_data_blocks := m, phase_inode_count := phase_inode_count s + 1, phase_block_count := phase_block_count s + 1,
     phase_inode_table := (phase_inode_table s)[phase_inode_count s :=
       (fresh_inode (phase_inode_count s) ty)\<lparr>i_blocks := (replicate 12 0)[0 := phase_block_count s]\<rparr>]\<rparr>"

lemma alloc_grown:
  assumes "phase_inode_count s < 256" "phase_block_count s < 64" "length (phase_inode_table s) = 256"
  shows "\<exists>s1 s2. phase_alloc_inode ty s = (Some (phase_inode_count s), s1) \<and> phase_alloc_block s1 = (phase_block_count s, s2) \<and>
    set_block0 (phase_inode_count s) (phase_block_count s) s2 = grown ty (phase_data_blocks s) s \<and>
    zero_block (phase_block_count s) (set_block0 (phase_inode_count s) (phase_block_count s) s2) =
      grown ty (write_bytes (BLOCK_SIZE * phase_block_count s) (replicate BLOCK_SIZE 0) (phase_data_blocks s)) s"
  using assms by (auto simp: phase_alloc_inode_def phase_alloc_block_def Let_def set_block0_def zero_block_def grown_def fresh_inode_def)

lemma grown_ok:
  assumes s: "pfs_ok s" and room: "phase_inode_count s < 256" "phase_block_count s < 64" and ty: "ty = INODE_FILE \<or> ty = INODE_DIR"
    and m: "\<forall>k. k < BLOCK_SIZE * phase_block_count s \<or> BLOCK_SIZE * phase_block_count s + BLOCK_SIZE \<le> k \<longrightarrow> m k = phase_data_blocks s k"
  shows "pfs_ok (grown ty m s)" "is_dir (grown ty m s) e \<longleftrightarrow> is_dir s e \<or> e = phase_inode_count s \<and> ty = INODE_DIR"
    "is_dir s e \<Longrightarrow> ents (grown ty m s) e = ents s e" "ents (grown ty m s) (phase_inode_count s) = []"
    "n < phase_inode_count s \<Longrightarrow> inode_type (grown ty m s) n = inode_type s n \<and> inode_size (grown ty m s) n = inode_size s n \<and>
      inode_base (grown ty m s) n = inode_base s n"
    "n < phase_inode_count s \<Longrightarrow> i < BLOCK_SIZE \<Longrightarrow> m (inode_base s n + i) = phase_data_blocks s (inode_base s n + i)"
    "inode_type (grown ty m s) (phase_inode_count s) = ty"
proof -
  let ?n = "phase_inode_count s" and ?g = "grown ty m s"
  have l: "?n < length (phase_inode_table s)" using room(1) pfs_okD(1) [OF s] by simp
  have new: "inode_type ?g ?n = ty" "inode_size ?g ?n = 0" "block0 ?g ?n = phase_block_count s"
    "length (i_blocks (phase_inode_table ?g ! ?n)) = 12"
    using l by (simp_all add: grown_def inode_type_def inode_size_def block0_def fresh_inode_def)
  then show "inode_type ?g ?n = ty" by simp
  have old: "phase_inode_table ?g ! n = phase_inode_table s ! n" if "n < ?n" for n
    using that by (simp add: grown_def)
  have old': "inode_type ?g n = inode_type s n" "inode_size ?g n = inode_size s n" "inode_base ?g n = inode_base s n" "block0 ?g n = block0 s n"
    if "n < ?n" for n
    using old [OF that] by (simp_all add: inode_type_def inode_size_def inode_base_def block0_def)
  show "inode_type ?g n = inode_type s n \<and> inode_size ?g n = inode_size s n \<and> inode_base ?g n = inode_base s n" if "n < ?n"
    using old' [OF that] by simp
  have cnt: "phase_inode_count ?g = ?n + 1" "phase_block_count ?g = phase_block_count s + 1" "phase_data_blocks ?g = m"
    "length (phase_inode_table ?g) = length (phase_inode_table s)"
    by (simp_all add: grown_def)
  have blk: "m k = phase_data_blocks s k" if "n < ?n" "inode_base s n \<le> k" "k < inode_base s n + BLOCK_SIZE" for n k
    using spec [OF m, of k] that pfs_okD(5) [OF s that(1)] by (simp add: inode_base_block0)
  then show "m (inode_base s n + i) = phase_data_blocks s (inode_base s n + i)" if "n < ?n" "i < BLOCK_SIZE"
    using that by simp
  show dir: "is_dir ?g e \<longleftrightarrow> is_dir s e \<or> e = ?n \<and> ty = INODE_DIR" for e
    using new(1) old'(1) [of e] cnt(1) by (cases "e < ?n") (auto simp: is_dir_def less_Suc_eq)
  have fl: "is_file ?g e \<longleftrightarrow> is_file s e \<or> e = ?n \<and> ty = INODE_FILE" for e
    using new(1) old'(1) [of e] cnt(1) by (cases "e < ?n") (auto simp: is_file_def less_Suc_eq)
  have same: "\<forall>k. inode_base s e \<le> k \<and> k < inode_base s e + ENTRY_SIZE * inode_size s e \<longrightarrow> m k = phase_data_blocks s k"
    if "is_dir s e" for e
    using blk [OF is_dir_lt [OF that]] dir_okD(1) [OF pfs_okD(10) [OF s that]] by auto
  show ents: "ents ?g e = ents s e" if "is_dir s e" for e
    using entries_at_cong(1) [OF same [OF that]] old' [OF is_dir_lt [OF that]] by (simp add: ents_def cnt)
  show en: "ents ?g ?n = []" using new(2) by (simp add: ents_def entries_at_def)
  have "dir_ok ?g e" if "is_dir s e" for e
  proof -
    note d = pfs_okD(10) [OF s that]
    have "\<forall>x \<in> set (ents s e). snd x < phase_inode_count s + 1" using dir_okD(3) [OF d] by fastforce
    then show ?thesis
      using dir_okD(1,2,4) [OF d] ents [OF that] entries_at_cong(2) [OF same [OF that]] old' [OF is_dir_lt [OF that]] by (simp add: dir_ok_def cnt)
  qed
  moreover have "dir_ok ?g ?n" using new(2) en by (simp add: dir_ok_def)
  ultimately have "dir_ok ?g e" if "is_dir ?g e" for e using that dir by blast
  moreover have "inode_size ?g n \<le> BLOCK_SIZE" if "is_file ?g n" for n
    using that pfs_okD(11) [OF s] fl [of n] old'(2) [of n] new(2) by (auto simp: is_file_def)
  moreover have "inj_on (block0 ?g) {..< ?n + 1}"
  proof (rule inj_onI)
    fix x y assume xy: "x \<in> {..< ?n + 1}" "y \<in> {..< ?n + 1}" "block0 ?g x = block0 ?g y"
    then consider "x < ?n" "y < ?n" | "x = ?n" "y = ?n" | "x < ?n" "y = ?n" | "x = ?n" "y < ?n" by fastforce
    then show "x = y"
      using xy(3) old'(4) new(3) pfs_okD(5) [OF s, of x] pfs_okD(5) [OF s, of y] pfs_okD(7) [OF s, of x y] by cases auto
  qed
  moreover have "length (i_blocks (phase_inode_table ?g ! n)) = 12 \<and> block0 ?g n < phase_block_count s + 1 \<and>
      (inode_type ?g n = INODE_FILE \<or> inode_type ?g n = INODE_DIR)" if "n < ?n + 1" for n
    using that pfs_okD(5,6,12) [OF s, of n] old [of n] old' [of n] new ty by (cases "n < ?n") (auto simp: less_Suc_eq)
  moreover have "inode_type ?g 0 = INODE_DIR" "block0 ?g 0 = 0"
    using pfs_okD(2,8,9) [OF s] old' [of 0] by (simp_all add: is_dir_def)
  ultimately show "pfs_ok ?g" using pfs_okD(1) [OF s] room unfolding pfs_ok_def cnt by simp
qed

lemma map_of_snoc: "k \<notin> fst ` set es \<Longrightarrow> map_of (es @ [(k, v)]) = (map_of es)(k \<mapsto> v)"
  by (induction es) (auto simp: fun_eq_iff)

lemma created:
  assumes s: "pfs_ok s" and room: "phase_inode_count s < 256" "phase_block_count s < 64" and ty: "ty = INODE_FILE \<or> ty = INODE_DIR"
    and m: "\<forall>k. k < BLOCK_SIZE * phase_block_count s \<or> BLOCK_SIZE * phase_block_count s + BLOCK_SIZE \<le> k \<longrightarrow> m k = phase_data_blocks s k"
    and d: "is_dir s d" "inode_size s d < 60" and nm: "0 \<notin> set nm" "length nm < MAX_NAME" "tree s d nm = None"
  shows "\<exists>s'. add_entry d (nm @ [0]) (phase_inode_count s) (grown ty m s) = Some s' \<and> pfs_ok s' \<and>
    tree s' = (tree s)(d := (tree s d)(nm \<mapsto> phase_inode_count s)) \<and> phase_inode_count s' = phase_inode_count s + 1 \<and>
    phase_block_count s' = phase_block_count s + 1 \<and> inode_type s' (phase_inode_count s) = ty \<and> (\<forall>n < phase_inode_count s. inode_type s' n = inode_type s n)"
proof -
  let ?n = "phase_inode_count s" and ?g = "grown ty m s"
  note g = grown_ok [OF s room ty m]
  have dn: "d < ?n" using d(1) by (rule is_dir_lt)
  have gd: "is_dir ?g d" "inode_size ?g d < 60" "tree ?g d nm = None" "?n < phase_inode_count ?g"
    using g(2) [of d] g(3) [OF d(1)] g(5) [OF dn] d nm(3) by (simp_all add: tree_def) (simp add: grown_def)
  obtain k m1 where m1: "add_entry d (nm @ [0]) ?n ?g = Some (resized d k m1 ?g)" "pfs_ok (resized d k m1 ?g)"
    "\<forall>e. is_dir ?g e \<longrightarrow> ents (resized d k m1 ?g) e = (if e = d then ents ?g d @ [(nm, ?n)] else ents ?g e)"
    using add_entry_ok [OF g(1) gd(1,2) nm(1,2) gd(3,4)] by blast
  have "nm \<notin> fst ` set (ents s d)" using nm(3) d(1) by (auto simp: tree_def map_of_eq_None_iff)
  then have ed: "map_of (ents (resized d k m1 ?g) d) = (map_of (ents s d))(nm \<mapsto> ?n)"
    using m1(3) gd(1) g(3) [OF d(1)] map_of_snoc by simp
  have "tree (resized d k m1 ?g) e = ((tree s)(d := (tree s d)(nm \<mapsto> ?n))) e" for e
  proof (cases "e = d")
    case True
    then show ?thesis using ed d(1) gd(1) by (simp add: tree_def)
  next
    case False
    then show ?thesis using m1(3) g(2) [of e] g(3) [of e] g(4) by (cases "e = ?n") (auto simp: tree_def is_dir_def)
  qed
  then show ?thesis using m1(1,2) g(5,7) by (intro exI [of _ "resized d k m1 ?g"]) (auto simp: grown_def)
qed

subsection \<open>Paths and the tree\<close>

text \<open>The components of a path, and the walk along them; \<open>None\<close> is a walk through a file.\<close>

fun names :: "u8 list \<Rightarrow> u8 list \<Rightarrow> u8 list list" where
  "names tok [] = (if tok = [] then [] else [tok])"
| "names tok (c # cs) =
     (if c = SLASH then (if tok = [] then names [] cs else tok # names [] cs) else names (tok @ [c]) cs)"

fun walk :: "pfs \<Rightarrow> nat \<Rightarrow> u8 list list \<Rightarrow> nat option option" where
  "walk s d [] = Some (Some d)"
| "walk s d (t # ts) =
     (if \<not> is_dir s d then None else case tree s d t of None \<Rightarrow> Some None | Some n \<Rightarrow> walk s n ts)"

lemma names_prefix: "tok \<noteq> [] \<Longrightarrow> \<exists>t ts. names tok cs = t # ts \<and> length tok \<le> length t"
proof (induction tok cs rule: names.induct)
  case (2 tok c cs)
  show ?case
  proof (cases "c = SLASH")
    case False
    then obtain t ts where "names (tok @ [c]) cs = t # ts" "length (tok @ [c]) \<le> length t" using 2(3) by auto
    then show ?thesis using False by simp
  qed (use 2(4) in simp)
qed simp

lemma resolve_loop_walk:
  assumes "pfs_ok s" "0 \<notin> set tok" "0 \<notin> set cs" "\<forall>t \<in> set (names tok cs). length t < MAX_NAME" "length tok < MAX_NAME"
    "walk s d (names tok cs) = Some r"
  shows "resolve_loop s d tok cs = Some r"
  using assms(2-6)
proof (induction tok cs arbitrary: d rule: names.induct)
  case (1 tok)
  then show ?case using find_entry_tree(2) [OF assms(1)] by (auto split: if_splits option.splits)
next
  case (2 tok c cs)
  have long: "length (tok @ [c]) < MAX_NAME" if "c \<noteq> SLASH"
  proof -
    obtain t ts where "names (tok @ [c]) cs = t # ts" "length (tok @ [c]) \<le> length t"
      using names_prefix [of "tok @ [c]" cs] by auto
    then show ?thesis using 2(6) that by (auto simp del: length_append)
  qed
  show ?case
  proof (cases "c = SLASH \<and> tok \<noteq> []")
    case True
    have dir: "is_dir s d" using 2(8) True by (auto split: if_splits)
    show ?thesis using True 2 dir find_entry_tree(2) [OF assms(1) dir, of tok]
      by (cases "tree s d tok") auto
  next
    case False
    then show ?thesis using 2 long by auto
  qed
qed

lemma resolve_walk:
  assumes "pfs_ok s" "path \<noteq> []" "hd path = SLASH" "0 \<notin> set path" "\<forall>t \<in> set (names [] path). length t < MAX_NAME"
    "walk s 0 (names [] path) = Some r"
  shows "phase_vfs_resolve path s = Some r"
proof -
  obtain cs where cs: "path = SLASH # cs" using assms(2,3) by (cases path) auto
  then have n: "names [] path = names [] cs" by simp
  have "resolve_loop s 0 [] cs = Some r"
    using resolve_loop_walk [OF assms(1), of "[]" cs 0 r] assms(4-6) cs n by simp
  then show ?thesis using cs assms(6) by (auto simp: phase_vfs_resolve_def)
qed

lemma names_append: "names tok (xs @ SLASH # ys) = names tok xs @ names [] ys"
  by (induction tok xs rule: names.induct) auto

lemma names_one: "SLASH \<notin> set nm \<Longrightarrow> tok @ nm \<noteq> [] \<Longrightarrow> names tok nm = [tok @ nm]"
  by (induction nm arbitrary: tok) auto

lemma find_slash_last:
  assumes "SLASH \<notin> set nm"
  shows "i \<le> length nm \<Longrightarrow> find_slash (dirp @ SLASH # nm) (length dirp + i) = Some (length dirp)"
proof (induction i)
  case 0
  then show ?case by (cases "length dirp") (simp_all add: nth_append)
next
  case (Suc i)
  then have "(dirp @ SLASH # nm) ! (length dirp + Suc i) = nm ! i" "nm ! i \<noteq> SLASH"
    using assms by (simp add: nth_append) (metis Suc.prems Suc_le_eq assms nth_mem)
  then show ?case using Suc by simp
qed

lemma split_path_eq:
  assumes "nm \<noteq> []" "SLASH \<notin> set nm" "length dirp < MAX_PATH" "length nm < MAX_NAME"
  shows "split_path (dirp @ SLASH # nm) = Some (if dirp = [] then [SLASH] else dirp, nm)"
proof -
  obtain i where i: "length nm = Suc i" using assms(1) by (cases "length nm") auto
  have l: "length (dirp @ SLASH # nm) - 1 = Suc (length dirp + i)" "length dirp + Suc i = Suc (length dirp + i)" using i by simp_all
  have "(dirp @ SLASH # nm) ! (length dirp + Suc i) = nm ! i" by (simp add: nth_append)
  moreover have "nm ! i \<noteq> SLASH" using assms(2) nth_mem [of i nm] i by (metis lessI)
  ultimately have "skip_slashes (dirp @ SLASH # nm) (length (dirp @ SLASH # nm) - 1) = length dirp + Suc i"
    unfolding l by simp
  moreover have "find_slash (dirp @ SLASH # nm) (length dirp + Suc i) = Some (length dirp)"
    using find_slash_last [OF assms(2), of "Suc i" dirp] i by simp
  ultimately show ?thesis using assms(3,4) by (simp add: split_path_def)
qed

lemma walk_mono:
  assumes "\<And>d. is_dir s d \<Longrightarrow> is_dir s' d" "\<And>d t n. tree s d t = Some n \<Longrightarrow> tree s' d t = Some n" "walk s d ts = Some (Some n)"
  shows "walk s' d ts = Some (Some n)"
  using assms(3)
proof (induction ts arbitrary: d)
  case (Cons t ts)
  then show ?case using assms(1,2) by (auto split: if_splits option.splits)
qed simp

lemma walk_append: "walk s d ts = Some (Some n) \<Longrightarrow> walk s d (ts @ us) = walk s n us"
  by (induction ts arbitrary: d) (auto split: if_splits option.splits)

text \<open>
  C35. Path resolution, which searches byte strings in the blocks character by character, is the
  walk along the components of the path in the tree: it ends in the same inode, or finds that a
  component does not exist, for every absolute path that does not go through a file.
\<close>

theorem phase_resolve_walk:
  assumes "pfs_ok s" "path \<noteq> []" "hd path = SLASH" "0 \<notin> set path" "\<forall>t \<in> set (names [] path). length t < MAX_NAME"
    "walk s 0 (names [] path) = Some r"
  shows "phase_vfs_resolve path s = Some r"
  using assms by (rule resolve_walk)

text \<open>A name with a slash behind it is stored with the slash, which no path can name.\<close>

lemma trailing_slash_kept: "split_path (cstr ''/home/'') = Some ([SLASH], cstr ''home/'')"
  by (simp add: split_path_def cstr_def)

text \<open>Reading a node of \<open>vfs.cpp\<close> does not stop at the end of the file.\<close>

lemma node_read_past_end:
  assumes "inode_type s n = INODE_FILE" "inode_base s n + off + sz \<le> DATA_SIZE"
  shows "\<exists>bs. node_read n off sz s = Some bs \<and> length bs = sz"
  using assms by (simp add: node_read_def read_bytes_def)

text \<open>
  \<open>dirp @ SLASH # nm\<close> is a path to the name \<open>nm\<close> in the existing directory \<open>d\<close>, and the path of a new
  object when the name is free and there is room.
\<close>

definition path_in :: "pfs \<Rightarrow> u8 list \<Rightarrow> u8 list \<Rightarrow> nat \<Rightarrow> bool" where
  "path_in s dirp nm d \<longleftrightarrow> (dirp = [] \<or> hd dirp = SLASH) \<and> 0 \<notin> set dirp \<and> 0 \<notin> set nm \<and> nm \<noteq> [] \<and> SLASH \<notin> set nm \<and>
     length dirp < MAX_PATH \<and> length nm < MAX_NAME \<and> (\<forall>t \<in> set (names [] dirp). length t < MAX_NAME) \<and>
     walk s 0 (names [] dirp) = Some (Some d) \<and> is_dir s d"

definition new_path :: "pfs \<Rightarrow> u8 list \<Rightarrow> u8 list \<Rightarrow> nat \<Rightarrow> bool" where
  "new_path s dirp nm d \<longleftrightarrow> path_in s dirp nm d \<and> tree s d nm = None \<and> inode_size s d < 60"

lemma path_in_parent:
  assumes "pfs_ok s" "path_in s dirp nm d"
  shows "split_path (dirp @ SLASH # nm) = Some (if dirp = [] then [SLASH] else dirp, nm)"
    "phase_vfs_resolve (if dirp = [] then [SLASH] else dirp) s = Some (Some d)"
    "find_entry s d nm = Some (first_idx (\<lambda>e. fst e = nm) (ents s d))"
proof -
  show "split_path (dirp @ SLASH # nm) = Some (if dirp = [] then [SLASH] else dirp, nm)"
    using assms(2) split_path_eq by (simp add: path_in_def)
  show "phase_vfs_resolve (if dirp = [] then [SLASH] else dirp) s = Some (Some d)"
    using assms(2) resolve_walk [OF assms(1), of "if dirp = [] then [SLASH] else dirp" "Some d"]
    by (auto simp: path_in_def split: if_splits)
  show "find_entry s d nm = Some (first_idx (\<lambda>e. fst e = nm) (ents s d))"
    using assms find_entry_tree(1) by (simp add: path_in_def)
qed

lemma new_path_parent:
  assumes "pfs_ok s" "new_path s dirp nm d"
  shows "split_path (dirp @ SLASH # nm) = Some (if dirp = [] then [SLASH] else dirp, nm)"
    "phase_vfs_resolve (if dirp = [] then [SLASH] else dirp) s = Some (Some d)" "find_entry s d nm = Some None"
proof -
  have p: "path_in s dirp nm d" "is_dir s d" "tree s d nm = None" using assms(2) by (simp_all add: new_path_def path_in_def)
  show "split_path (dirp @ SLASH # nm) = Some (if dirp = [] then [SLASH] else dirp, nm)"
    "phase_vfs_resolve (if dirp = [] then [SLASH] else dirp) s = Some (Some d)"
    using path_in_parent(1,2) [OF assms(1) p(1)] by simp_all
  show "find_entry s d nm = Some None"
    using path_in_parent(3) [OF assms(1) p(1)] p(2,3) by (simp add: tree_def map_of_first_idx del: not_None_eq)
qed

lemma new_path_created:
  assumes "pfs_ok s'" "new_path s dirp nm d" "tree s' = (tree s)(d := (tree s d)(nm \<mapsto> n))" "\<And>e. is_dir s e \<Longrightarrow> is_dir s' e"
  shows "phase_vfs_resolve (dirp @ SLASH # nm) s' = Some (Some n)"
proof -
  have p: "(dirp = [] \<or> hd dirp = SLASH)" "0 \<notin> set dirp" "0 \<notin> set nm" "nm \<noteq> []" "SLASH \<notin> set nm" "length nm < MAX_NAME"
    "\<forall>t \<in> set (names [] dirp). length t < MAX_NAME" "walk s 0 (names [] dirp) = Some (Some d)" "is_dir s d" "tree s d nm = None"
    using assms(2) by (simp_all add: new_path_def path_in_def)
  have nn: "names [] (dirp @ SLASH # nm) = names [] dirp @ [nm]"
    using names_append [of "[]" dirp nm] names_one [of nm "[]"] p(4,5) by simp
  have "walk s' 0 (names [] dirp) = Some (Some d)"
    by (rule walk_mono [OF assms(4) _ p(8)]) (use assms(3) p(10) in \<open>auto split: if_splits\<close>)
  then have "walk s' 0 (names [] (dirp @ SLASH # nm)) = Some (Some n)"
    unfolding nn using walk_append assms(3,4) p(9) by simp
  then show ?thesis
    using assms(1) p nn by (intro resolve_walk) (auto simp: hd_append)
qed

lemma mkdir_spec:
  assumes "pfs_ok s" "new_path s dirp nm d" "phase_inode_count s < 256" "phase_block_count s < 64"
  shows "\<exists>s1. vfs_mkdir_phase_a ok (dirp @ SLASH # nm) s = Some (True, s1) \<and> pfs_ok s1 \<and>
    tree s1 = (tree s)(d := (tree s d)(nm \<mapsto> phase_inode_count s)) \<and> phase_inode_count s1 = phase_inode_count s + 1 \<and>
    phase_block_count s1 = phase_block_count s + 1 \<and> inode_type s1 (phase_inode_count s) = INODE_DIR \<and> (\<forall>n < phase_inode_count s. inode_type s1 n = inode_type s n)"
proof -
  note par = new_path_parent [OF assms(1,2)]
  define m where "m = write_bytes (BLOCK_SIZE * phase_block_count s) (replicate BLOCK_SIZE 0) (phase_data_blocks s)"
  obtain s1 s2 where al: "phase_alloc_inode INODE_DIR s = (Some (phase_inode_count s), s1)" "phase_alloc_block s1 = (phase_block_count s, s2)"
    "zero_block (phase_block_count s) (set_block0 (phase_inode_count s) (phase_block_count s) s2) = grown INODE_DIR m s"
    using alloc_grown [OF assms(3,4) pfs_okD(1) [OF assms(1)], of INODE_DIR] unfolding m_def by blast
  have m: "\<forall>k. k < BLOCK_SIZE * phase_block_count s \<or> BLOCK_SIZE * phase_block_count s + BLOCK_SIZE \<le> k \<longrightarrow> m k = phase_data_blocks s k"
    by (simp add: m_def write_bytes_other)
  have np: "is_dir s d" "inode_size s d < 60" "0 \<notin> set nm" "length nm < MAX_NAME" "tree s d nm = None"
    using assms(2) by (simp_all add: new_path_def path_in_def)
  obtain s3 where s3: "add_entry d (nm @ [0]) (phase_inode_count s) (grown INODE_DIR m s) = Some s3" "pfs_ok s3"
    "tree s3 = (tree s)(d := (tree s d)(nm \<mapsto> phase_inode_count s))" "phase_inode_count s3 = phase_inode_count s + 1"
    "phase_block_count s3 = phase_block_count s + 1" "inode_type s3 (phase_inode_count s) = INODE_DIR" "\<forall>n < phase_inode_count s. inode_type s3 n = inode_type s n"
    using created [OF assms(1,3,4) _ m np] by blast
  have "inode_type s d = INODE_DIR" using np(1) by (simp add: is_dir_def)
  then have "vfs_mkdir_phase_a ok (dirp @ SLASH # nm) s = Some (True, phase_vfs_sync ok s3)"
    using par al s3(1) by (simp add: vfs_mkdir_phase_a_def Let_def)
  then show ?thesis using s3(2-7) by simp
qed

lemma create_file_spec:
  assumes "pfs_ok s" "new_path s dirp nm d" "phase_inode_count s < 256" "phase_block_count s < 64"
  shows "\<exists>s1. vfs_create_file_phase_a ok (dirp @ SLASH # nm) s = Some (int (phase_inode_count s), s1) \<and> pfs_ok s1 \<and>
    tree s1 = (tree s)(d := (tree s d)(nm \<mapsto> phase_inode_count s)) \<and> phase_inode_count s1 = phase_inode_count s + 1 \<and>
    phase_block_count s1 = phase_block_count s + 1 \<and> inode_type s1 (phase_inode_count s) = INODE_FILE \<and> (\<forall>n < phase_inode_count s. inode_type s1 n = inode_type s n)"
proof -
  note par = new_path_parent [OF assms(1,2)]
  obtain s1 s2 where al: "phase_alloc_inode INODE_FILE s = (Some (phase_inode_count s), s1)" "phase_alloc_block s1 = (phase_block_count s, s2)"
    "set_block0 (phase_inode_count s) (phase_block_count s) s2 = grown INODE_FILE (phase_data_blocks s) s"
    using alloc_grown [OF assms(3,4) pfs_okD(1) [OF assms(1)], of INODE_FILE] by blast
  have np: "is_dir s d" "inode_size s d < 60" "0 \<notin> set nm" "length nm < MAX_NAME" "tree s d nm = None"
    using assms(2) by (simp_all add: new_path_def path_in_def)
  obtain s3 where s3: "add_entry d (nm @ [0]) (phase_inode_count s) (grown INODE_FILE (phase_data_blocks s) s) = Some s3" "pfs_ok s3"
    "tree s3 = (tree s)(d := (tree s d)(nm \<mapsto> phase_inode_count s))" "phase_inode_count s3 = phase_inode_count s + 1"
    "phase_block_count s3 = phase_block_count s + 1" "inode_type s3 (phase_inode_count s) = INODE_FILE" "\<forall>n < phase_inode_count s. inode_type s3 n = inode_type s n"
    using created [OF assms(1,3,4) _ _ np, of INODE_FILE "phase_data_blocks s"] by blast
  have "vfs_create_file_phase_a ok (dirp @ SLASH # nm) s = Some (int (phase_inode_count s), phase_vfs_sync ok s3)"
    using par al s3(1) by (simp add: vfs_create_file_phase_a_def Let_def)
  then show ?thesis using s3(2-7) by simp
qed

lemma is_dir_old: "phase_inode_count s1 = phase_inode_count s + 1 \<Longrightarrow> \<forall>n < phase_inode_count s. inode_type s1 n = inode_type s n \<Longrightarrow>
    is_dir s e \<Longrightarrow> is_dir s1 e"
  by (simp add: is_dir_def)

text \<open>
  C36. Creating a directory or a file at a new path, while there are inodes and blocks, adds exactly
  one edge to the tree: the path then resolves to the new inode, which is of the right kind, every
  other name in every directory stands for what it stood for, and the file system is well-formed.
\<close>

theorem phase_create_adds:
  assumes "pfs_ok s" "new_path s dirp nm d" "phase_inode_count s < 256" "phase_block_count s < 64"
  defines "n \<equiv> phase_inode_count s" and "path \<equiv> dirp @ SLASH # nm"
  shows "(\<exists>s1. vfs_mkdir_phase_a ok path s = Some (True, s1) \<and> pfs_ok s1 \<and> tree s1 = (tree s)(d := (tree s d)(nm \<mapsto> n)) \<and>
      is_dir s1 n \<and> phase_vfs_resolve path s1 = Some (Some n)) \<and>
    (\<exists>s1. vfs_create_file_phase_a ok path s = Some (int n, s1) \<and> pfs_ok s1 \<and> tree s1 = (tree s)(d := (tree s d)(nm \<mapsto> n)) \<and>
      is_file s1 n \<and> phase_vfs_resolve path s1 = Some (Some n))"
proof
  obtain s1 where s1: "vfs_mkdir_phase_a ok path s = Some (True, s1)" "pfs_ok s1" "tree s1 = (tree s)(d := (tree s d)(nm \<mapsto> n))"
    "phase_inode_count s1 = phase_inode_count s + 1" "inode_type s1 n = INODE_DIR" "\<forall>n < phase_inode_count s. inode_type s1 n = inode_type s n"
    using mkdir_spec [OF assms(1-4)] unfolding n_def path_def by blast
  then show "\<exists>s1. vfs_mkdir_phase_a ok path s = Some (True, s1) \<and> pfs_ok s1 \<and> tree s1 = (tree s)(d := (tree s d)(nm \<mapsto> n)) \<and>
      is_dir s1 n \<and> phase_vfs_resolve path s1 = Some (Some n)"
    using new_path_created [OF s1(2) assms(2) s1(3) is_dir_old [OF s1(4,6)]] by (auto simp: is_dir_def n_def path_def)
next
  obtain s1 where s1: "vfs_create_file_phase_a ok path s = Some (int n, s1)" "pfs_ok s1" "tree s1 = (tree s)(d := (tree s d)(nm \<mapsto> n))"
    "phase_inode_count s1 = phase_inode_count s + 1" "inode_type s1 n = INODE_FILE" "\<forall>n < phase_inode_count s. inode_type s1 n = inode_type s n"
    using create_file_spec [OF assms(1-4)] unfolding n_def path_def by blast
  then show "\<exists>s1. vfs_create_file_phase_a ok path s = Some (int n, s1) \<and> pfs_ok s1 \<and> tree s1 = (tree s)(d := (tree s d)(nm \<mapsto> n)) \<and>
      is_file s1 n \<and> phase_vfs_resolve path s1 = Some (Some n)"
    using new_path_created [OF s1(2) assms(2) s1(3) is_dir_old [OF s1(4,6)]] by (auto simp: is_file_def n_def path_def)
qed

subsection \<open>File contents\<close>

definition content :: "pfs \<Rightarrow> nat \<Rightarrow> u8 list" where
  "content s n = map (phase_data_blocks s) [inode_base s n ..< inode_base s n + inode_size s n]"

lemma content_cong:
  assumes "inode_base s' n = inode_base s n" "inode_size s' n = inode_size s n"
    "\<forall>i < inode_size s n. phase_data_blocks s' (inode_base s n + i) = phase_data_blocks s (inode_base s n + i)"
  shows "content s' n = content s n"
  unfolding content_def assms(1,2)
proof (rule map_cong)
  fix x assume "x \<in> set [inode_base s n ..< inode_base s n + inode_size s n]"
  then show "phase_data_blocks s' x = phase_data_blocks s x" using assms(3) [rule_format, of "x - inode_base s n"] by auto
qed simp

lemma write_spec:
  assumes s: "pfs_ok s" and n: "is_file s n" and bs: "length bs \<le> BLOCK_SIZE"
  shows "\<exists>s1. vfs_write_phase_a ok (Some n) bs s = Some (int (length bs), s1) \<and> pfs_ok s1 \<and> tree s1 = tree s \<and> content s1 n = bs \<and>
    inode_size s1 n = length bs \<and> inode_type s1 = inode_type s \<and> phase_inode_count s1 = phase_inode_count s \<and>
    (\<forall>e. is_file s e \<longrightarrow> e \<noteq> n \<longrightarrow> content s1 e = content s e)"
proof -
  define m where "m = write_bytes (inode_base s n) bs (phase_data_blocks s)"
  let ?r = "resized n (length bs) m s"
  have lt: "n < phase_inode_count s" using n by (simp add: is_file_def)
  have l: "n < length (phase_inode_table s)" using lt pfs_okD(1,3) [OF s] by simp
  have "block0 s n < 64" using pfs_okD(4,5) [OF s] lt by force
  then have "\<not> inode_base s n + length bs > DATA_SIZE" using bs by (simp add: inode_base_block0)
  then have w: "vfs_write_phase_a ok (Some n) bs s = Some (int (length bs), phase_vfs_sync ok ?r)"
    using n bs by (simp add: vfs_write_phase_a_def is_file_def resized_def m_def)
  have blk: "m k = phase_data_blocks s k" if "k < inode_base s n \<or> inode_base s n + BLOCK_SIZE \<le> k" for k
    using that bs by (auto simp: m_def write_bytes_def)
  have nd: "\<not> is_dir s n" using n by (simp add: is_dir_def is_file_def)
  note r = resized_ok [OF s lt blk nd [THEN notE] bs]
  have "tree ?r e = tree s e" for e using r(2) [of e] nd by (cases "e = n") (simp_all add: tree_def)
  moreover have "content ?r n = bs"
    by (rule nth_equalityI) (simp_all add: content_def l m_def write_bytes_at)
  moreover have "content ?r e = content s e" if "is_file s e" "e \<noteq> n" for e
  proof (rule content_cong)
    show "\<forall>i < inode_size s e. phase_data_blocks ?r (inode_base s e + i) = phase_data_blocks s (inode_base s e + i)"
      using r(3) [of e] that pfs_okD(11) [OF s that(1)] by (simp add: is_file_def)
  qed (simp_all add: l that(2))
  moreover have "content (phase_vfs_sync ok ?r) = content ?r" by (simp add: content_def fun_eq_iff)
  ultimately show ?thesis using w r(1) l by (intro exI [of _ "phase_vfs_sync ok ?r"]) auto
qed

text \<open>
  C37. What is written to a file of at most one block is what \<open>sys_read_direct\<close> reads back at its
  path, up to the caller's limit; the tree and all other files keep their contents.
\<close>

theorem phase_write_read:
  assumes "pfs_ok s" "is_file s n" "length bs \<le> BLOCK_SIZE" "0 \<notin> set path" "path \<noteq> []" "hd path = SLASH"
    "\<forall>t \<in> set (names [] path). length t < MAX_NAME" "walk s 0 (names [] path) = Some (Some n)"
  shows "\<exists>s1. vfs_write_phase_a ok (Some n) bs s = Some (int (length bs), s1) \<and> pfs_ok s1 \<and> tree s1 = tree s \<and>
    sys_read_direct path mx s1 = Some (Some (take (unat mx) bs)) \<and>
    (\<forall>e. is_file s e \<longrightarrow> e \<noteq> n \<longrightarrow> content s1 e = content s e)"
proof -
  obtain s1 where s1: "vfs_write_phase_a ok (Some n) bs s = Some (int (length bs), s1)" "pfs_ok s1" "tree s1 = tree s" "content s1 n = bs"
    "inode_size s1 n = length bs" "inode_type s1 = inode_type s" "phase_inode_count s1 = phase_inode_count s"
    "\<forall>e. is_file s e \<longrightarrow> e \<noteq> n \<longrightarrow> content s1 e = content s e"
    using write_spec [OF assms(1-3)] by blast
  have "walk s1 0 (names [] path) = Some (Some n)"
    by (rule walk_mono [OF _ _ assms(8)]) (use s1(3,6,7) in \<open>simp_all add: is_dir_def\<close>)
  then have r: "phase_vfs_resolve path s1 = Some (Some n)" using resolve_walk [OF s1(2) assms(5,6,4,7)] by simp
  have "block0 s1 n < 64" using pfs_okD(4,5) [OF s1(2)] assms(2) s1(7) by (force simp: is_file_def)
  then have b: "inode_base s1 n + read_limit (length bs) mx \<le> DATA_SIZE" using assms(3) by (simp add: inode_base_block0 read_limit_def)
  have c: "map (phase_data_blocks s1) [inode_base s1 n ..< inode_base s1 n + length bs] = bs" using s1(4,5) by (simp add: content_def)
  have t: "map (phase_data_blocks s1) [inode_base s1 n ..< inode_base s1 n + unat mx] = take (unat mx) bs" if "unat mx \<le> length bs"
    using arg_cong [OF c, of "take (unat mx)"] that by (simp add: take_map)
  have "map (phase_data_blocks s1) [inode_base s1 n ..< inode_base s1 n + read_limit (length bs) mx] = take (unat mx) bs"
    using c t by (simp add: read_limit_def)
  then have "sys_read_direct path mx s1 = Some (Some (take (unat mx) bs))"
    using b r s1(5,6) assms(2) by (simp add: sys_read_direct_def read_bytes_def is_file_def)
  then show ?thesis using s1 by blast
qed

subsection \<open>Moving\<close>

lemma map_of_cut:
  assumes "distinct (map fst es)" "i < length es"
  shows "map_of (take i es @ drop (Suc i) es) = (map_of es)(fst (es ! i) := None)"
proof -
  have es: "es = take i es @ es ! i # drop (Suc i) es" using assms(2) by (rule id_take_nth_drop)
  have "distinct (map fst (take i es @ es ! i # drop (Suc i) es))" using assms(1) es by simp
  then have "fst (es ! i) \<notin> fst ` set (take i es)" "fst (es ! i) \<notin> fst ` set (drop (Suc i) es)" by auto
  then have n: "map_of (take i es) (fst (es ! i)) = None" "map_of (drop (Suc i) es) (fst (es ! i)) = None" by (simp_all add: map_of_eq_None_iff)
  have "map_of es = map_of (take i es @ es ! i # drop (Suc i) es)" using es by simp
  also have "\<dots> = (map_of (drop (Suc i) es))(fst (es ! i) \<mapsto> snd (es ! i)) ++ map_of (take i es)" by (cases "es ! i") simp
  finally show ?thesis using n by (auto simp: fun_eq_iff map_add_def split: option.split)
qed

text \<open>The tree after an edge has been moved.\<close>

definition moved :: "nat \<Rightarrow> u8 list \<Rightarrow> nat \<Rightarrow> u8 list \<Rightarrow> (nat \<Rightarrow> u8 list \<Rightarrow> nat option) \<Rightarrow> nat \<Rightarrow> u8 list \<Rightarrow> nat option" where
  "moved od onm nd nnm t = (\<lambda>e x. if e = od \<and> x = onm then None else if e = nd \<and> x = nnm then t od onm else t e x)"

lemma content_resized:
  assumes "is_file s e" "is_dir s d" "d < length (phase_inode_table s)" "pfs_ok s"
    "\<forall>e < phase_inode_count s. \<forall>i < BLOCK_SIZE. e \<noteq> d \<longrightarrow> m (inode_base s e + i) = phase_data_blocks s (inode_base s e + i)"
  shows "content (resized d k m s) e = content s e"
proof (rule content_cong)
  have ne: "e \<noteq> d" using assms(1,2) by (auto simp: is_dir_def is_file_def)
  then show "inode_size (resized d k m s) e = inode_size s e" using assms(3) by simp
  show "\<forall>i < inode_size s e. phase_data_blocks (resized d k m s) (inode_base s e + i) = phase_data_blocks s (inode_base s e + i)"
    using assms(1,5) ne pfs_okD(11) [OF assms(4,1)] by (simp add: is_file_def)
qed simp

lemma rename_spec:
  assumes s: "pfs_ok s" and old: "path_in s odir onm od" "tree s od onm = Some x" and new: "new_path s ndir nnm nd"
  shows "\<exists>s1. phase_vfs_rename ok (odir @ SLASH # onm) (ndir @ SLASH # nnm) s = Some (True, s1) \<and> pfs_ok s1 \<and>
    tree s1 = moved od onm nd nnm (tree s) \<and> is_dir s1 = is_dir s \<and> is_file s1 = is_file s \<and>
    (\<forall>e. is_file s e \<longrightarrow> content s1 e = content s e)"
proof -
  have od: "is_dir s od" "0 \<notin> set onm" using old(1) by (simp_all add: path_in_def)
  have nd: "is_dir s nd" "inode_size s nd < 60" "0 \<notin> set nnm" "length nnm < MAX_NAME" "tree s nd nnm = None"
    using new by (simp_all add: new_path_def path_in_def)
  note po = path_in_parent [OF s old(1)] and pn = new_path_parent [OF s new]
  obtain i where i: "first_idx (\<lambda>e. fst e = onm) (ents s od) = Some i" "x = snd (ents s od ! i)"
    using old(2) od(1) by (auto simp: tree_def map_of_first_idx)
  have il: "i < length (ents s od)" "fst (ents s od ! i) = onm" using first_idx_SomeD [OF i(1)] by simp_all
  have isz: "i < inode_size s od" using il(1) by (simp add: ents_def)
  then have x: "entry_id s od i = x" using i(2) by (simp add: ents_def entries_at_def entry_id_def)
  have xlt: "x < phase_inode_count s" using find_entry_tree(3) [OF s od old(2)] .
  obtain m1 where m1: "add_entry nd (nnm @ [0]) x s = Some (resized nd (inode_size s nd + 1) m1 s)"
    "pfs_ok (resized nd (inode_size s nd + 1) m1 s)"
    "\<forall>e. is_dir s e \<longrightarrow> ents (resized nd (inode_size s nd + 1) m1 s) e = (if e = nd then ents s nd @ [(nnm, x)] else ents s e)"
    "\<forall>e < phase_inode_count s. \<forall>i < BLOCK_SIZE. e \<noteq> nd \<longrightarrow> m1 (inode_base s e + i) = phase_data_blocks s (inode_base s e + i)"
    using add_entry_ok [OF s nd xlt] by blast
  define s1 where "s1 = resized nd (inode_size s nd + 1) m1 s"
  have l: "nd < length (phase_inode_table s)" "od < length (phase_inode_table s)"
    using is_dir_lt [OF nd(1)] is_dir_lt [OF od(1)] pfs_okD(1,3) [OF s] by simp_all
  have s1: "is_dir s1 = is_dir s" "is_file s1 = is_file s" "is_dir s1 od" "i < inode_size s1 od" "pfs_ok s1" "od < length (phase_inode_table s1)"
    using od(1) isz l m1(2) by (auto simp: s1_def)
  have e1: "ents s1 e = (if e = nd then ents s nd @ [(nnm, x)] else ents s e)" if "is_dir s e" for e
    using m1(3) that by (simp add: s1_def)
  obtain m2 where m2: "remove_entry od i s1 = Some (resized od (inode_size s1 od - 1) m2 s1)"
    "pfs_ok (resized od (inode_size s1 od - 1) m2 s1)"
    "\<forall>e. is_dir s1 e \<longrightarrow> ents (resized od (inode_size s1 od - 1) m2 s1) e = (if e = od then take i (ents s1 od) @ drop (Suc i) (ents s1 od) else ents s1 e)"
    "\<forall>e < phase_inode_count s1. \<forall>i < BLOCK_SIZE. e \<noteq> od \<longrightarrow> m2 (inode_base s1 e + i) = phase_data_blocks s1 (inode_base s1 e + i)"
    using remove_entry_ok [OF s1(5,3,4)] by blast
  define s2 where "s2 = resized od (inode_size s1 od - 1) m2 s1"
  have ren: "phase_vfs_rename ok (odir @ SLASH # onm) (ndir @ SLASH # nnm) s = Some (True, phase_vfs_sync ok s2)"
    using po pn i(1) x m1(1) m2(1) unfolding s1_def [symmetric] s2_def [symmetric] by (simp add: phase_vfs_rename_def)
  have "nnm \<notin> fst ` set (ents s nd)" using nd(1,5) by (auto simp: tree_def map_of_eq_None_iff)
  then have "map_of (ents s1 nd) = (map_of (ents s nd))(nnm \<mapsto> x)" using e1 [OF nd(1)] map_of_snoc by simp
  then have t1: "tree s1 e = ((tree s)(nd := (tree s nd)(nnm \<mapsto> x))) e" for e
    using e1 [of e] nd(1) by (cases "e = nd") (simp_all add: tree_def s1(1))
  have at: "fst (ents s1 od ! i) = onm" "i < length (ents s1 od)" using e1 [OF od(1)] il by (auto simp: nth_append)
  have "map_of (take i (ents s1 od) @ drop (Suc i) (ents s1 od)) = (map_of (ents s1 od))(onm := None)"
    using map_of_cut [OF dir_okD(2) [OF pfs_okD(10) [OF s1(5,3)]] at(2)] at(1) by simp
  then have t2: "tree s2 e = ((tree s1)(od := (tree s1 od)(onm := None))) e" for e
    using m2(3) s1(1,3) by (simp add: tree_def s2_def)
  have "tree s2 = moved od onm nd nnm (tree s)"
    using old(2) by (auto simp: fun_eq_iff t1 t2 moved_def)
  moreover have "content s2 e = content s e" if "is_file s e" for e
    using content_resized [OF _ s1(3,6,5) m2(4), of e] content_resized [OF that nd(1) l(1) s m1(4)] that s1(2) by (simp add: s1_def s2_def)
  moreover have "content (phase_vfs_sync ok s2) = content s2" by (simp add: content_def fun_eq_iff)
  moreover have "is_dir s2 = is_dir s" "is_file s2 = is_file s" using s1(1,2) by (simp_all add: s2_def)
  moreover have "pfs_ok s2" using m2(2) by (simp add: s2_def)
  ultimately show ?thesis using ren by (intro exI [of _ "phase_vfs_sync ok s2"]) simp
qed

subsection \<open>Deleting and undoing\<close>

text \<open>Whether a walk leaves out the name \<open>nm\<close> of \<open>d\<close>.\<close>

fun avoids :: "pfs \<Rightarrow> nat \<Rightarrow> u8 list \<Rightarrow> nat \<Rightarrow> u8 list list \<Rightarrow> bool" where
  "avoids s d nm e [] = True"
| "avoids s d nm e (t # ts) = (\<not> (e = d \<and> t = nm) \<and> (case tree s e t of None \<Rightarrow> True | Some n \<Rightarrow> avoids s d nm n ts))"

lemma walk_avoids:
  assumes "is_dir s' = is_dir s" "\<And>e t. \<not> (e = d \<and> t = nm) \<Longrightarrow> tree s e t \<noteq> None \<Longrightarrow> tree s' e t = tree s e t"
    "avoids s d nm e ts" "walk s e ts = Some (Some n)"
  shows "walk s' e ts = Some (Some n)"
  using assms(3,4)
proof (induction ts arbitrary: e)
  case (Cons t ts)
  then obtain x where "tree s e t = Some x" "is_dir s e" by (auto split: if_splits option.splits)
  then show ?case using Cons assms(1,2) by simp
qed simp

lemma dir_size_card:
  assumes "pfs_ok s" "is_dir s d"
  shows "inode_size s d = card (dom (tree s d))" "finite (dom (tree s d))"
proof -
  have "dom (tree s d) = set (map fst (ents s d))" using assms(2) by (simp add: tree_def dom_map_of_conv_image_fst)
  then show "inode_size s d = card (dom (tree s d))" "finite (dom (tree s d))"
    using distinct_card [OF dir_okD(2) [OF pfs_okD(10) [OF assms]]] by (simp_all add: ents_def)
qed

lemma base_name_eq: "nm \<noteq> [] \<Longrightarrow> SLASH \<notin> set nm \<Longrightarrow> base_name (dirp @ SLASH # nm) = nm"
  using find_slash_last [of nm "length nm" dirp] by (simp add: base_name_def)

abbreviation recycle_path :: "u8 list" where "recycle_path \<equiv> cstr ''/system/.recycle''"

lemma recycled_eq:
  assumes "nm \<noteq> []" "SLASH \<notin> set nm" "length nm < MAX_NAME"
  shows "recycled (dirp @ SLASH # nm) = Some (recycle_path @ SLASH # nm)"
  using assms by (simp add: recycled_def base_name_eq) (simp add: cstr_def)

lemma path_in_kept:
  assumes "path_in s dirp nm d" "is_dir s' = is_dir s" "walk s' 0 (names [] dirp) = Some (Some d)"
  shows "path_in s' dirp nm d"
  using assms by (simp add: path_in_def)

text \<open>
  C38. Deleting an object of the tree moves it into the recycle bin and undoing the deletion moves it
  back: the tree is again what it was, files keep their contents, and the history is the old one.
  This needs a name that is free in the bin, room there and in the history, and paths to the object
  and to the bin that do not lead through the object.
\<close>

theorem delete_undo_restores:
  assumes "pfs_ok s" "path_in s dirp nm d" "tree s d nm = Some x" "new_path s recycle_path nm r"
    "avoids s d nm 0 (names [] dirp)" "avoids s d nm 0 (names [] recycle_path)" "length h < 64"
  shows "\<exists>h1 s1 s2. act_delete ok (dirp @ SLASH # nm) (h, s) = Some (True, h1, s1) \<and> pfs_ok s1 \<and>
    tree s1 d nm = None \<and> tree s1 r nm = Some x \<and>
    history_undo ok (h1, s1) = Some (h, s2) \<and> pfs_ok s2 \<and> tree s2 = tree s \<and>
    (\<forall>e. is_file s e \<longrightarrow> content s1 e = content s e \<and> content s2 e = content s e)"
proof -
  have nm: "nm \<noteq> []" "SLASH \<notin> set nm" "length nm < MAX_NAME" "walk s 0 (names [] dirp) = Some (Some d)" "is_dir s d"
    using assms(2) by (simp_all add: path_in_def)
  have rd: "path_in s recycle_path nm r" "tree s r nm = None" "is_dir s r" "walk s 0 (names [] recycle_path) = Some (Some r)"
    using assms(4) by (simp_all add: new_path_def path_in_def)
  have dr: "d \<noteq> r" using assms(3) rd(2) by auto
  obtain s1 where s1: "phase_vfs_rename ok (dirp @ SLASH # nm) (recycle_path @ SLASH # nm) s = Some (True, s1)" "pfs_ok s1"
    "tree s1 = moved d nm r nm (tree s)" "is_dir s1 = is_dir s" "is_file s1 = is_file s" "\<forall>e. is_file s e \<longrightarrow> content s1 e = content s e"
    using rename_spec [OF assms(1-4)] by blast
  have t1: "tree s1 d nm = None" "tree s1 r nm = Some x" using s1(3) dr assms(3) by (simp_all add: moved_def)
  have keep: "tree s1 e t = tree s e t" if "\<not> (e = d \<and> t = nm)" "tree s e t \<noteq> None" for e t
    using that rd(2) by (auto simp: s1(3) moved_def)
  have p1: "path_in s1 dirp nm d" "path_in s1 recycle_path nm r"
    using path_in_kept [OF assms(2) s1(4) walk_avoids [OF s1(4) keep assms(5) nm(4)]]
      path_in_kept [OF rd(1) s1(4) walk_avoids [OF s1(4) keep assms(6) rd(4)]] by blast+
  have "dom (tree s1 d) \<subset> dom (tree s d)" using dr assms(3) by (auto simp: s1(3) moved_def split: if_splits)
  then have "card (dom (tree s1 d)) < card (dom (tree s d))" by (rule psubset_card_mono [OF dir_size_card(2) [OF assms(1) nm(5)]])
  then have "inode_size s1 d < inode_size s d"
    using dir_size_card(1) [OF assms(1) nm(5)] dir_size_card(1) [OF s1(2), of d] nm(5) s1(4) by simp
  then have np: "new_path s1 dirp nm d"
    using p1(1) t1(1) dir_okD(1) [OF pfs_okD(10) [OF assms(1) nm(5)]] by (simp add: new_path_def)
  obtain s2 where s2: "phase_vfs_rename ok (recycle_path @ SLASH # nm) (dirp @ SLASH # nm) s1 = Some (True, s2)" "pfs_ok s2"
    "tree s2 = moved r nm d nm (tree s1)" "\<forall>e. is_file s1 e \<longrightarrow> content s2 e = content s1 e"
    using rename_spec [OF s1(2) p1(2) t1(2) np] by blast
  have "tree s2 = tree s" using dr rd(2) assms(3) by (auto simp: fun_eq_iff s2(3) s1(3) moved_def)
  moreover have "act_delete ok (dirp @ SLASH # nm) (h, s) = Some (True, (OP_DELETE, dirp @ SLASH # nm, recycle_path @ SLASH # nm) # h, s1)"
    using s1(1) assms(7) recycled_eq [OF nm(1-3)] by (simp add: act_delete_def fs_soft_delete_def history_push_def)
  moreover have "history_undo ok ((OP_DELETE, dirp @ SLASH # nm, recycle_path @ SLASH # nm) # h, s1) = Some (h, s2)"
    using s2(1) by (simp add: history_undo_def)
  ultimately show ?thesis using s1(2,5,6) s2(2,4) t1
    by (intro exI [of _ "(OP_DELETE, dirp @ SLASH # nm, recycle_path @ SLASH # nm) # h"] exI [of _ s1] exI [of _ s2]) simp
qed

subsection \<open>Persistence\<close>

text \<open>The calls that change the file system.\<close>

inductive fs_step :: "pfs \<Rightarrow> pfs \<Rightarrow> bool" where
  "vfs_mkdir_phase_a ok path s = Some (r, s') \<Longrightarrow> fs_step s s'"
| "vfs_create_file_phase_a ok path s = Some (i, s') \<Longrightarrow> fs_step s s'"
| "vfs_write_phase_a ok f bs s = Some (i, s') \<Longrightarrow> fs_step s s'"
| "phase_vfs_rename ok p q s = Some (r, s') \<Longrightarrow> fs_step s s'"
| "phase_create_in_dir ok dir nm ty s = Some (i, s') \<Longrightarrow> fs_step s s'"

lemma alloc_keeps:
  assumes "phase_alloc_inode ty s = (n, s1)"
  shows "truth_dat s1 = truth_dat s" "sync_enabled s1 = sync_enabled s"
  using assms by (auto simp: phase_alloc_inode_def Let_def split: if_splits)

lemma alloc_block_keeps:
  assumes "phase_alloc_block s = (b, s1)"
  shows "truth_dat s1 = truth_dat s" "sync_enabled s1 = sync_enabled s"
  using assms by (auto simp: phase_alloc_block_def split: if_splits)

lemma part_keeps [simp]:
  "truth_dat (set_block0 n b s) = truth_dat s" "sync_enabled (set_block0 n b s) = sync_enabled s"
  "truth_dat (zero_block b s) = truth_dat s" "sync_enabled (zero_block b s) = sync_enabled s"
  "add_entry d nm n s = Some s1 \<Longrightarrow> truth_dat s1 = truth_dat s" "add_entry d nm n s = Some s1 \<Longrightarrow> sync_enabled s1 = sync_enabled s"
  "remove_entry d i s = Some s1 \<Longrightarrow> truth_dat s1 = truth_dat s" "remove_entry d i s = Some s1 \<Longrightarrow> sync_enabled s1 = sync_enabled s"
  by (auto simp: set_block0_def zero_block_def add_entry_def remove_entry_def Let_def split: if_splits)

text \<open>Taking a result apart along the code.\<close>

lemma bindE: "x \<bind> f = Some z \<Longrightarrow> (\<And>y. x = Some y \<Longrightarrow> f y = Some z \<Longrightarrow> R) \<Longrightarrow> R"
  by (auto simp: bind_eq_Some_conv)

lemma case_optionE:
  "(case x of None \<Rightarrow> a | Some y \<Rightarrow> f y) = Some z \<Longrightarrow> (x = None \<Longrightarrow> a = Some z \<Longrightarrow> R) \<Longrightarrow>
    (\<And>y. x = Some y \<Longrightarrow> f y = Some z \<Longrightarrow> R) \<Longrightarrow> R"
  by (cases x) auto

lemma ifE: "(if b then x else y) = Some z \<Longrightarrow> (b \<Longrightarrow> x = Some z \<Longrightarrow> R) \<Longrightarrow> (\<not> b \<Longrightarrow> y = Some z \<Longrightarrow> R) \<Longrightarrow> R"
  by (cases b) auto

lemma case_prodE_Some: "(case p of (a, b) \<Rightarrow> f a b) = Some z \<Longrightarrow> (\<And>a b. p = (a, b) \<Longrightarrow> f a b = Some z \<Longrightarrow> R) \<Longrightarrow> R"
  by (cases p) auto

lemmas resultE = bindE case_optionE ifE case_prodE_Some

lemma fs_step_unsaved:
  assumes "fs_step s s'" "\<not> sync_enabled s"
  shows "truth_dat s' = truth_dat s \<and> \<not> sync_enabled s'"
  using assms
proof (induction rule: fs_step.induct)
  case (1 ok path s r s')
  then show ?case unfolding vfs_mkdir_phase_a_def Let_def
    by (elim resultE) (auto simp: alloc_keeps alloc_block_keeps)
next
  case (2 ok path s i s')
  then show ?case unfolding vfs_create_file_phase_a_def Let_def
    by (elim resultE) (auto simp: alloc_keeps alloc_block_keeps)
next
  case (3 ok f bs s i s')
  then show ?case unfolding vfs_write_phase_a_def Let_def by (elim resultE) auto
next
  case (4 ok p q s r s')
  then show ?case unfolding phase_vfs_rename_def by (elim resultE) auto
next
  case (5 ok dir nm ty s i s')
  then show ?case unfolding phase_create_in_dir_def Let_def
    by (elim resultE) (auto simp: alloc_keeps alloc_block_keeps split: if_splits)
qed

lemma fs_steps_unsaved:
  assumes "fs_step\<^sup>*\<^sup>* s s'" "\<not> sync_enabled s"
  shows "truth_dat s' = truth_dat s \<and> \<not> sync_enabled s'"
  using assms by (induction rule: rtranclp_induct) (auto dest: fs_step_unsaved)

lemma boot_saved:
  assumes "truth_dat s = Some m" "0 < phase_inode_count m"
  shows "\<exists>s1. fs_phase_a_bootstrap True ok s = Some s1 \<and> image_of s1 = m \<and> truth_dat s1 = Some m \<and> \<not> sync_enabled s1"
  using assms by (simp add: fs_phase_a_bootstrap_def phase_vfs_load_def image_of_def Let_def)

text \<open>
  C39. After a start that finds a saved file system nothing is ever saved again: saving is switched off
  at the beginning of the start-up code, which returns early without switching it on. Whatever calls
  follow, the saved image stays what it was, and the next start brings back the old state.
\<close>

theorem never_saved_after_reboot:
  assumes "truth_dat s = Some m" "0 < phase_inode_count m"
  shows "\<exists>s1. fs_phase_a_bootstrap True ok s = Some s1 \<and> image_of s1 = m \<and>
    (\<forall>s2. fs_step\<^sup>*\<^sup>* s1 s2 \<longrightarrow> truth_dat s2 = Some m \<and>
      (\<exists>s3. fs_phase_a_bootstrap True ok s2 = Some s3 \<and> image_of s3 = m))"
proof -
  obtain s1 where s1: "fs_phase_a_bootstrap True ok s = Some s1" "image_of s1 = m" "truth_dat s1 = Some m" "\<not> sync_enabled s1"
    using boot_saved [OF assms] by blast
  have "truth_dat s2 = Some m \<and> (\<exists>s3. fs_phase_a_bootstrap True ok s2 = Some s3 \<and> image_of s3 = m)" if "fs_step\<^sup>*\<^sup>* s1 s2" for s2
    using fs_steps_unsaved [OF that s1(4)] s1(3) boot_saved [of s2 m ok] assms(2) by auto
  then show ?thesis using s1(1,2) by blast
qed

subsection \<open>Running out of blocks\<close>

lemma full_alloc:
  assumes "phase_inode_count s < 256" "phase_block_count s = 64" "length (phase_inode_table s) = 256"
  shows "\<exists>s1. phase_alloc_inode ty s = (Some (phase_inode_count s), s1) \<and> phase_alloc_block s1 = (0, s1) \<and>
    phase_data_blocks s1 = phase_data_blocks s \<and> length (phase_inode_table s1) = 256 \<and>
    inode_type (set_block0 (phase_inode_count s) 0 s1) (phase_inode_count s) = ty \<and>
    inode_base (set_block0 (phase_inode_count s) 0 s1) (phase_inode_count s) = 0 \<and>
    (\<forall>n < phase_inode_count s. inode_base (set_block0 (phase_inode_count s) 0 s1) n = inode_base s n \<and>
      inode_size (set_block0 (phase_inode_count s) 0 s1) n = inode_size s n)"
  using assms
  by (intro exI [of _ "snd (phase_alloc_inode ty s)"])
    (simp add: phase_alloc_inode_def phase_alloc_block_def set_block0_def inode_type_def inode_base_def inode_size_def fresh_inode_def Let_def)

lemma zero_names:
  assumes "\<forall>k < BLOCK_SIZE. phase_data_blocks s k = 0" "inode_base s d = 0" "inode_size s d \<le> 60" "t \<noteq> []" "0 \<notin> set t"
  shows "enter_dir s d t = Some None"
proof -
  have z: "raw_name (phase_data_blocks s) (ENTRY_SIZE * i) = []" "terminated (phase_data_blocks s) (ENTRY_SIZE * i)" if "i < inode_size s d" for i
  proof -
    have "phase_data_blocks s (ENTRY_SIZE * i) = 0" using assms(1,3) that by simp
    then show "raw_name (phase_data_blocks s) (ENTRY_SIZE * i) = []" "terminated (phase_data_blocks s) (ENTRY_SIZE * i)"
      by (simp_all add: raw_name_def upt_conv_Cons terminated_def exI [of _ 0])
  qed
  have "find_entry s d t = Some (first_idx (\<lambda>e. fst e = t) (entries_at (phase_data_blocks s) 0 (inode_size s d)))"
    using find_entry_eq [OF assms(5), of s d] z(2) assms(2,3) by simp
  moreover have "first_idx (\<lambda>e. fst e = t) (entries_at (phase_data_blocks s) 0 (inode_size s d)) = None"
    using z(1) assms(4) by (auto simp: first_idx_None entries_at_def)
  ultimately show ?thesis by (simp add: enter_dir_def)
qed

text \<open>
  C40. When all 64 blocks are in use a new file is still created, and its block is that of the root
  directory. A program that writes 4096 zeros into the file it has just created wipes out the root:
  no name is found in it any more.
\<close>

theorem full_disk_wipes_root:
  assumes "pfs_ok s" "new_path s dirp nm d" "phase_inode_count s < 256" "phase_block_count s = 64"
  defines "n \<equiv> phase_inode_count s"
  shows "\<exists>s1 s2. vfs_create_file_phase_a ok (dirp @ SLASH # nm) s = Some (int n, s1) \<and> inode_base s1 n = inode_base s1 0 \<and>
    vfs_write_phase_a ok (Some n) (replicate BLOCK_SIZE 0) s1 = Some (int BLOCK_SIZE, s2) \<and>
    (\<forall>t. t \<noteq> [] \<and> 0 \<notin> set t \<longrightarrow> enter_dir s2 0 t = Some None)"
proof -
  note par = new_path_parent [OF assms(1,2)]
  have d: "is_dir s d" "inode_size s d < 60" using assms(2) by (simp_all add: new_path_def path_in_def)
  have dn: "d < n" "0 < n" using is_dir_lt [OF d(1)] by (simp_all add: n_def)
  obtain q where q: "phase_alloc_inode INODE_FILE s = (Some n, q)" "phase_alloc_block q = (0, q)" "length (phase_inode_table q) = 256"
    "inode_type (set_block0 n 0 q) n = INODE_FILE" "inode_base (set_block0 n 0 q) n = 0"
    "\<forall>k < n. inode_base (set_block0 n 0 q) k = inode_base s k \<and> inode_size (set_block0 n 0 q) k = inode_size s k"
    using full_alloc [OF assms(3,4) pfs_okD(1) [OF assms(1)], of INODE_FILE] unfolding n_def by blast
  let ?q = "set_block0 n 0 q"
  have lq: "length (phase_inode_table ?q) = 256" using q(3) by (simp add: set_block0_def)
  have "block0 s d < 64" using pfs_okD(5) [OF assms(1) is_dir_lt [OF d(1)]] assms(4) by simp
  then obtain m where m: "add_entry d (nm @ [0]) n ?q = Some (resized d (inode_size ?q d + 1) m ?q)"
    using q(6) dn(1) d(2) by (simp add: add_entry_def resized_def Let_def inode_base_block0)
  define s1 where "s1 = phase_vfs_sync ok (resized d (inode_size ?q d + 1) m ?q)"
  have cr: "vfs_create_file_phase_a ok (dirp @ SLASH # nm) s = Some (int n, s1)"
    using par q(1,2) m by (simp add: vfs_create_file_phase_a_def Let_def s1_def)
  have b0: "inode_base s 0 = 0" using pfs_okD(9) [OF assms(1)] by (simp add: inode_base_block0)
  have base: "inode_base s1 n = 0" "inode_base s1 0 = 0" "inode_type s1 n = INODE_FILE" "length (phase_inode_table s1) = 256"
    using q(4,5,6) b0 dn lq by (simp_all add: s1_def)
  define s2 where "s2 = phase_vfs_sync ok (resized n BLOCK_SIZE (write_bytes 0 (replicate BLOCK_SIZE 0) (phase_data_blocks s1)) s1)"
  have wr: "vfs_write_phase_a ok (Some n) (replicate BLOCK_SIZE 0) s1 = Some (int BLOCK_SIZE, s2)"
    using base by (simp add: vfs_write_phase_a_def resized_def s2_def)
  have "inode_size ?q 0 = inode_size s 0" "inode_size ?q d = inode_size s d" using q(6) dn by simp_all
  then have "inode_size s1 0 \<le> 60"
    using d(2) lq dn(1) assms(3) dir_okD(1) [OF pfs_okD(10) [OF assms(1) pfs_okD(8) [OF assms(1)]]]
    by (cases "d = 0") (simp_all add: s1_def n_def)
  moreover have "n < length (phase_inode_table s1)" using base(4) assms(3) by (simp add: n_def)
  ultimately have "inode_size s2 0 \<le> 60" "inode_base s2 0 = 0" "\<forall>k < BLOCK_SIZE. phase_data_blocks s2 k = 0"
    using dn(2) base(2) by (simp_all add: s2_def write_bytes_def)
  then have "\<forall>t. t \<noteq> [] \<and> 0 \<notin> set t \<longrightarrow> enter_dir s2 0 t = Some None" using zero_names by blast
  then show ?thesis using cr wr base(1,2) by (intro exI [of _ s1] exI [of _ s2]) simp
qed

subsection \<open>Sample file systems\<close>

definition root_fs :: pfs where
  "root_fs = \<lparr>phase_inode_table = (replicate 256 (fresh_inode 0 0))[0 := fresh_inode 0 INODE_DIR], phase_data_blocks = (\<lambda>_. 0),
     phase_inode_count = 1, phase_block_count = 1, truth_dat = None, sync_enabled = True\<rparr>"

lemma root_fs_simps [simp]:
  "phase_inode_count root_fs = 1" "phase_block_count root_fs = 1" "length (phase_inode_table root_fs) = 256"
  "inode_type root_fs 0 = INODE_DIR" "inode_size root_fs 0 = 0" "block0 root_fs 0 = 0" "is_dir root_fs d \<longleftrightarrow> d = 0"
  "\<not> is_file root_fs d" "ents root_fs 0 = []" "length (i_blocks (phase_inode_table root_fs ! 0)) = 12"
  by (auto simp: root_fs_def inode_type_def inode_size_def block0_def is_dir_def is_file_def ents_def entries_at_def fresh_inode_def)

lemma root_fs_ok: "pfs_ok root_fs" "pfs_ok (root_fs\<lparr>phase_block_count := 64\<rparr>)" "tree root_fs = (\<lambda>_. Map.empty)"
proof -
  have c: "inode_type (root_fs\<lparr>phase_block_count := k\<rparr>) = inode_type root_fs" "inode_size (root_fs\<lparr>phase_block_count := k\<rparr>) = inode_size root_fs"
    "block0 (root_fs\<lparr>phase_block_count := k\<rparr>) = block0 root_fs" "is_dir (root_fs\<lparr>phase_block_count := k\<rparr>) = is_dir root_fs"
    "is_file (root_fs\<lparr>phase_block_count := k\<rparr>) = is_file root_fs" "ents (root_fs\<lparr>phase_block_count := k\<rparr>) = ents root_fs" for k
    by (simp_all add: fun_eq_iff inode_type_def inode_size_def block0_def is_dir_def is_file_def ents_def inode_base_def)
  show "pfs_ok root_fs" "pfs_ok (root_fs\<lparr>phase_block_count := 64\<rparr>)"
    by (simp_all add: pfs_ok_def dir_ok_def c lessThan_Suc)
  show "tree root_fs = (\<lambda>_. Map.empty)" by (simp add: tree_def fun_eq_iff)
qed

lemma root_new_path: "new_path root_fs [] [97] 0" "new_path (root_fs\<lparr>phase_block_count := 64\<rparr>) [] [97] 0"
  by (simp_all add: new_path_def path_in_def tree_def) (simp_all add: root_fs_def is_dir_def inode_type_def inode_size_def ents_def entries_at_def fresh_inode_def)

lemma phase_create_adds_witness:
  "\<exists>s1. vfs_mkdir_phase_a True [47, 97] root_fs = Some (True, s1) \<and> phase_vfs_resolve [47, 97] s1 = Some (Some 1)"
  using phase_create_adds [OF root_fs_ok(1) root_new_path(1), of True] by auto

lemma never_saved_after_reboot_witness:
  "\<exists>s1. fs_phase_a_bootstrap True True (root_fs\<lparr>truth_dat := Some (image_of root_fs)\<rparr>) = Some s1 \<and> image_of s1 = image_of root_fs"
  using never_saved_after_reboot [of "root_fs\<lparr>truth_dat := Some (image_of root_fs)\<rparr>" "image_of root_fs" True] by (auto simp: image_of_def)

lemma full_disk_wipes_root_witness:
  "\<exists>s1 s2. vfs_create_file_phase_a True [47, 97] (root_fs\<lparr>phase_block_count := 64\<rparr>) = Some (1, s1) \<and>
    vfs_write_phase_a True (Some 1) (replicate BLOCK_SIZE 0) s1 = Some (4096, s2) \<and> enter_dir s2 0 [97] = Some None"
proof -
  have "phase_inode_count (root_fs\<lparr>phase_block_count := 64\<rparr>) = 1" "phase_block_count (root_fs\<lparr>phase_block_count := 64\<rparr>) = 64" by simp_all
  then obtain s1 s2 where "vfs_create_file_phase_a True ([] @ SLASH # [97]) (root_fs\<lparr>phase_block_count := 64\<rparr>) = Some (int 1, s1)"
    "vfs_write_phase_a True (Some 1) (replicate BLOCK_SIZE 0) s1 = Some (int BLOCK_SIZE, s2)"
    "\<forall>t. t \<noteq> [] \<and> 0 \<notin> set t \<longrightarrow> enter_dir s2 0 t = Some None"
    using full_disk_wipes_root [OF root_fs_ok(2) root_new_path(2), of True] by auto
  then show ?thesis by (intro exI [of _ s1] exI [of _ s2]) simp
qed

text \<open>The recycle bin and a file, made by the calls themselves.\<close>

lemma system_names:
  "names [] (cstr ''/system'') = [cstr ''system'']" "names [] recycle_path = [cstr ''system'', cstr ''.recycle'']"
  "cstr ''/system/.recycle'' = cstr ''/system'' @ SLASH # cstr ''.recycle''" "[] @ SLASH # cstr ''system'' = cstr ''/system''"
  "cstr ''system'' \<noteq> [97]" "cstr ''.recycle'' \<noteq> [97]" "cstr ''system'' \<noteq> cstr ''.recycle''"
  by (simp_all add: cstr_def)

lemma small_dir: "pfs_ok s \<Longrightarrow> is_dir s d \<Longrightarrow> card (dom (tree s d)) < 60 \<Longrightarrow> inode_size s d < 60"
  by (simp add: dir_size_card(1))

lemma demo_fs:
  "\<exists>s. pfs_ok s \<and> tree s = (\<lambda>_. Map.empty)(0 := [cstr ''system'' \<mapsto> 1, [97] \<mapsto> 3], 1 := [cstr ''.recycle'' \<mapsto> 2]) \<and>
    is_dir s 0 \<and> is_dir s 1 \<and> is_dir s 2 \<and> is_file s 3"
proof -
  have p0: "new_path root_fs [] (cstr ''system'') 0"
    by (simp add: new_path_def path_in_def root_fs_ok(3)) (simp add: cstr_def)
  obtain s1 where s1: "pfs_ok s1" "tree s1 = (\<lambda>_. Map.empty)(0 := [cstr ''system'' \<mapsto> 1])" "phase_inode_count s1 = 2"
    "inode_type s1 1 = INODE_DIR" "inode_type s1 0 = INODE_DIR" "phase_block_count s1 = 2"
    using mkdir_spec [OF root_fs_ok(1) p0, of True] root_fs_ok(3) by auto
  have d1: "is_dir s1 0" "is_dir s1 1" using s1(3-5) by (simp_all add: is_dir_def)
  have "inode_size s1 1 < 60" using s1(2) by (intro small_dir [OF s1(1) d1(2)]) simp
  then have p1: "new_path s1 (cstr ''/system'') (cstr ''.recycle'') 1"
    using d1 s1(2) system_names(1) by (simp add: new_path_def path_in_def) (simp add: cstr_def)
  obtain s2 where s2: "pfs_ok s2" "tree s2 = (\<lambda>_. Map.empty)(0 := [cstr ''system'' \<mapsto> 1], 1 := [cstr ''.recycle'' \<mapsto> 2])"
    "phase_inode_count s2 = 3" "inode_type s2 2 = INODE_DIR" "inode_type s2 1 = INODE_DIR" "inode_type s2 0 = INODE_DIR" "phase_block_count s2 = 3"
    using mkdir_spec [OF s1(1) p1, of True] s1(2-6) by auto
  have d2: "is_dir s2 0" using s2(3,6) by (simp add: is_dir_def)
  have "inode_size s2 0 < 60" using s2(2) by (intro small_dir [OF s2(1) d2]) simp
  then have p2: "new_path s2 [] [97] 0" using d2 s2(2) system_names(5) by (simp add: new_path_def path_in_def)
  obtain s3 where s3: "pfs_ok s3" "tree s3 = (tree s2)(0 := (tree s2 0)([97] \<mapsto> 3))"
    "phase_inode_count s3 = 4" "inode_type s3 3 = INODE_FILE" "\<forall>n < 3. inode_type s3 n = inode_type s2 n"
    using create_file_spec [OF s2(1) p2, of True] s2(3,7) by auto
  have "tree s3 = (\<lambda>_. Map.empty)(0 := [cstr ''system'' \<mapsto> 1, [97] \<mapsto> 3], 1 := [cstr ''.recycle'' \<mapsto> 2])"
    unfolding s3(2) s2(2) by (simp add: fun_eq_iff)
  then show ?thesis using s3(1,3-5) s2(4-6) by (intro exI [of _ s3]) (simp add: is_dir_def is_file_def)
qed

lemma phase_resolve_walk_witness:
  "\<exists>s. pfs_ok s \<and> phase_vfs_resolve (cstr ''/system/.recycle'') s = Some (Some 2) \<and> phase_vfs_resolve [47, 98] s = Some None"
proof -
  obtain s where s: "pfs_ok s" "tree s = (\<lambda>_. Map.empty)(0 := [cstr ''system'' \<mapsto> 1, [97] \<mapsto> 3], 1 := [cstr ''.recycle'' \<mapsto> 2])"
    "is_dir s 0" "is_dir s 1" using demo_fs by blast
  have "walk s 0 (names [] recycle_path) = Some (Some 2)" using s(2-4) system_names(2,5) by simp
  moreover have "walk s 0 (names [] [47, 98]) = Some None" using s(2,3) by (simp add: cstr_def)
  moreover have "recycle_path \<noteq> []" "hd recycle_path = SLASH" "0 \<notin> set recycle_path" "\<forall>t \<in> set (names [] recycle_path). length t < MAX_NAME"
    unfolding system_names(2) by (simp_all add: cstr_def)
  ultimately show ?thesis
    using phase_resolve_walk [OF s(1), of recycle_path "Some 2"] phase_resolve_walk [OF s(1), of "[47, 98]" None] s(1) by auto
qed

lemma phase_write_read_witness:
  "\<exists>s s1. pfs_ok s \<and> vfs_write_phase_a True (Some 3) [1, 2, 3] s = Some (3, s1) \<and> sys_read_direct [47, 97] 2 s1 = Some (Some [1, 2])"
proof -
  obtain s where s: "pfs_ok s" "tree s = (\<lambda>_. Map.empty)(0 := [cstr ''system'' \<mapsto> 1, [97] \<mapsto> 3], 1 := [cstr ''.recycle'' \<mapsto> 2])"
    "is_dir s 0" "is_file s 3" using demo_fs by blast
  have "walk s 0 (names [] [47, 97]) = Some (Some 3)" using s(2,3) by simp
  then show ?thesis using phase_write_read [OF s(1,4), of "[1, 2, 3]" "[47, 97]" True 2] s(1) by auto
qed

lemma delete_undo_restores_witness:
  "\<exists>s h1 s1 s2. tree s 0 [97] = Some 3 \<and> act_delete True [47, 97] ([], s) = Some (True, h1, s1) \<and> tree s1 0 [97] = None \<and>
    tree s1 2 [97] = Some 3 \<and> history_undo True (h1, s1) = Some ([], s2) \<and> tree s2 = tree s"
proof -
  obtain s where s: "pfs_ok s" "tree s = (\<lambda>_. Map.empty)(0 := [cstr ''system'' \<mapsto> 1, [97] \<mapsto> 3], 1 := [cstr ''.recycle'' \<mapsto> 2])"
    "is_dir s 0" "is_dir s 1" "is_dir s 2" using demo_fs by blast
  have t: "tree s 0 [97] = Some 3" "tree s 2 [97] = None" "tree s 0 (cstr ''system'') = Some 1" "tree s 1 (cstr ''.recycle'') = Some 2"
    using s(2) system_names(5) by simp_all
  have p: "path_in s [] [97] 0" using s(3) by (simp add: path_in_def)
  have "inode_size s 2 < 60" using s(2) by (intro small_dir [OF s(1,5)]) simp
  then have r: "new_path s recycle_path [97] 2"
    using s(3-5) t system_names(2) by (simp add: new_path_def path_in_def) (simp add: cstr_def)
  have a: "avoids s 0 [97] 0 (names [] [])" "avoids s 0 [97] 0 (names [] recycle_path)"
    using t system_names(2,5,6) by simp_all
  show ?thesis using delete_undo_restores [OF s(1) p t(1) r a, of "[]" True] t(1) by auto
qed

subsection \<open>The first start\<close>

lemma unat_of_char: "unat (of_char c :: u8) = of_char c"
proof -
  have "unat (of_nat (of_char c) :: u8) = of_char c mod 2 ^ LENGTH(8)" by (simp only: unat_of_nat)
  then show ?thesis by (simp add: of_nat_of_char)
qed

lemma cstr_inj [simp]: "cstr a = cstr b \<longleftrightarrow> a = b"
proof -
  have "inj (of_char :: char \<Rightarrow> u8)" by (rule injI) (metis unat_of_char of_char_eq_iff)
  then show ?thesis by (simp add: cstr_def inj_map_eq_map)
qed

lemma boot_names:
  "cstr ''/home'' = [] @ SLASH # cstr ''home''" "cstr ''/home/user'' = cstr ''/home'' @ SLASH # cstr ''user''"
  "cstr ''/home/user/Desktop'' = cstr ''/home/user'' @ SLASH # cstr ''Desktop''"
  "cstr ''/home/user/Documents'' = cstr ''/home/user'' @ SLASH # cstr ''Documents''"
  "cstr ''/home/user/Downloads'' = cstr ''/home/user'' @ SLASH # cstr ''Downloads''"
  "cstr ''/system'' = [] @ SLASH # cstr ''system''" "cstr ''/system/.recycle'' = cstr ''/system'' @ SLASH # cstr ''.recycle''"
  "cstr ''/home/user/Desktop/readme.txt'' = cstr ''/home/user/Desktop'' @ SLASH # cstr ''readme.txt''"
  "names [] (cstr ''/home'') = [cstr ''home'']" "names [] (cstr ''/home/user'') = [cstr ''home'', cstr ''user'']"
  "names [] (cstr ''/home/user/Desktop'') = [cstr ''home'', cstr ''user'', cstr ''Desktop'']"
  "names [] (cstr ''/system'') = [cstr ''system'']"
  by (simp_all add: cstr_def)

text \<open>The conditions of a path that do not depend on the state, for the literals above.\<close>

definition good_path :: "u8 list \<Rightarrow> u8 list \<Rightarrow> bool" where
  "good_path dirp nm \<longleftrightarrow> (dirp = [] \<or> hd dirp = SLASH) \<and> 0 \<notin> set dirp \<and> 0 \<notin> set nm \<and> nm \<noteq> [] \<and> SLASH \<notin> set nm \<and>
     length dirp < MAX_PATH \<and> length nm < MAX_NAME \<and> (\<forall>t \<in> set (names [] dirp). length t < MAX_NAME)"

lemma good_paths:
  "good_path [] (cstr ''home'')" "good_path (cstr ''/home'') (cstr ''user'')" "good_path (cstr ''/home/user'') (cstr ''Desktop'')"
  "good_path (cstr ''/home/user'') (cstr ''Documents'')" "good_path (cstr ''/home/user'') (cstr ''Downloads'')"
  "good_path [] (cstr ''system'')" "good_path (cstr ''/system'') (cstr ''.recycle'')"
  "good_path (cstr ''/home/user/Desktop'') (cstr ''readme.txt'')"
  by (simp_all add: good_path_def cstr_def)

lemma new_pathI:
  assumes "pfs_ok s" "good_path dirp nm" "walk s 0 (names [] dirp) = Some (Some d)" "is_dir s d" "tree s d nm = None"
    "card (dom (tree s d)) < 60"
  shows "new_path s dirp nm d"
  using assms small_dir [OF assms(1,4,6)] by (simp add: new_path_def path_in_def good_path_def)

text \<open>What is known between two steps: a state of \<open>n\<close> inodes with the tree \<open>t\<close>, all of them directories.\<close>

definition boot_state :: "nat \<Rightarrow> (nat \<Rightarrow> u8 list \<Rightarrow> nat option) \<Rightarrow> pfs \<Rightarrow> bool" where
  "boot_state n t s \<longleftrightarrow> pfs_ok s \<and> phase_inode_count s = n \<and> phase_block_count s = n \<and> tree s = t \<and> (\<forall>i < n. inode_type s i = INODE_DIR)"

lemma boot_step:
  assumes "boot_state n t s" "good_path dirp nm" "n < 64" "walk s 0 (names [] dirp) = Some (Some d)" "d < n" "t d nm = None"
    "card (dom (t d)) < 60" "path = dirp @ SLASH # nm"
    "k = n + 1" "t' = t(d := (t d)(nm \<mapsto> n))"
  shows "\<exists>s1. vfs_mkdir_phase_a False path s = Some (True, s1) \<and> boot_state k t' s1"
proof -
  have b: "pfs_ok s" "phase_inode_count s = n" "phase_block_count s = n" "tree s = t" "\<forall>i < n. inode_type s i = INODE_DIR"
    using assms(1) by (simp_all add: boot_state_def)
  have "new_path s dirp nm d" using assms b by (intro new_pathI) (simp_all add: is_dir_def)
  from mkdir_spec [OF b(1) this, of False] show ?thesis
    using assms(3,8-10) b by (auto simp: boot_state_def less_Suc_eq)
qed

lemma boot_state_simps:
  assumes "boot_state n t s"
  shows "is_dir s d \<longleftrightarrow> d < n" "tree s = t" "pfs_ok s"
  using assms by (auto simp: boot_state_def is_dir_def)

lemma boot_root_state:
  assumes "length (phase_inode_table s) = 256" "phase_inode_count s = 0" "phase_block_count s = 0"
  shows "boot_state 1 (\<lambda>_. Map.empty) (boot_root s)"
proof -
  let ?r = "boot_root s"
  have r: "phase_inode_count ?r = 1" "phase_block_count ?r = 1" "length (phase_inode_table ?r) = 256"
    "phase_inode_table ?r ! 0 = (fresh_inode 0 INODE_DIR)\<lparr>i_blocks := (replicate 12 0)[0 := 0]\<rparr>"
    using assms by (simp_all add: boot_root_def phase_alloc_inode_def phase_alloc_block_def Let_def zero_block_def set_block0_def fresh_inode_def)
  have i: "inode_type ?r 0 = INODE_DIR" "inode_size ?r 0 = 0" "block0 ?r 0 = 0" "length (i_blocks (phase_inode_table ?r ! 0)) = 12"
    using r(4) by (simp_all add: inode_type_def inode_size_def block0_def fresh_inode_def)
  then have d: "is_dir ?r d \<longleftrightarrow> d = 0" "\<not> is_file ?r d" "ents ?r 0 = []" for d
    using r(1) by (auto simp: is_dir_def is_file_def ents_def entries_at_def)
  have "pfs_ok ?r" using r i d by (simp add: pfs_ok_def dir_ok_def lessThan_Suc)
  moreover have "tree ?r = (\<lambda>_. Map.empty)" using d by (simp add: tree_def fun_eq_iff)
  ultimately show ?thesis using r i by (simp add: boot_state_def)
qed

text \<open>The tree the first start builds.\<close>

definition first_tree :: "nat \<Rightarrow> u8 list \<Rightarrow> nat option" where
  "first_tree = (\<lambda>_. Map.empty)(
     0 := [cstr ''home'' \<mapsto> 1, cstr ''system'' \<mapsto> 6], 1 := [cstr ''user'' \<mapsto> 2],
     2 := [cstr ''Desktop'' \<mapsto> 3, cstr ''Documents'' \<mapsto> 4, cstr ''Downloads'' \<mapsto> 5],
     6 := [cstr ''.recycle'' \<mapsto> 7], 3 := [cstr ''readme.txt'' \<mapsto> 8])"

lemma first_boot:
  assumes "truth_dat s = None" "length (phase_inode_table s) = 256"
  shows "\<exists>s1. fs_phase_a_bootstrap ok1 ok2 s = Some s1 \<and> pfs_ok s1 \<and> tree s1 = first_tree \<and> content s1 8 = welcome_text \<and> sync_enabled s1"
proof -
  define b where "b = s\<lparr>sync_enabled := False, phase_inode_count := 0, phase_block_count := 0\<rparr>"
  have l: "phase_vfs_load ok1 b = b" "phase_inode_count b = 0" using assms(1) by (simp_all add: phase_vfs_load_def b_def)
  have s1: "boot_state 1 (\<lambda>_. Map.empty) (boot_root b)" using assms(2) by (intro boot_root_state) (simp_all add: b_def)
  let ?t2 = "(\<lambda>_. Map.empty)(0 := [cstr ''home'' \<mapsto> 1])"
  obtain s2 where s2: "vfs_mkdir_phase_a False (cstr ''/home'') (boot_root b) = Some (True, s2)" "boot_state 2 ?t2 s2"
    using boot_step [OF s1 good_paths(1), of 0 "cstr ''/home''" 2 ?t2] boot_names(1) boot_state_simps [OF s1]
    by (auto simp: fun_upd_twist)
  let ?t3 = "?t2(1 := [cstr ''user'' \<mapsto> 2])"
  obtain s3 where s3: "vfs_mkdir_phase_a False (cstr ''/home/user'') (s2) = Some (True, s3)" "boot_state 3 ?t3 s3"
    using boot_step [OF s2(2) good_paths(2), of 1 "cstr ''/home/user''" 3 ?t3] boot_names(2,9) boot_state_simps [OF s2(2)]
    by (auto simp: fun_upd_twist)
  let ?t4 = "?t3(2 := [cstr ''Desktop'' \<mapsto> 3])"
  obtain s4 where s4: "vfs_mkdir_phase_a False (cstr ''/home/user/Desktop'') (s3) = Some (True, s4)" "boot_state 4 ?t4 s4"
    using boot_step [OF s3(2) good_paths(3), of 2 "cstr ''/home/user/Desktop''" 4 ?t4] boot_names(3,10) boot_state_simps [OF s3(2)]
    by (auto simp: fun_upd_twist)
  let ?t5 = "?t3(2 := [cstr ''Desktop'' \<mapsto> 3, cstr ''Documents'' \<mapsto> 4])"
  obtain s5 where s5: "vfs_mkdir_phase_a False (cstr ''/home/user/Documents'') (s4) = Some (True, s5)" "boot_state 5 ?t5 s5"
    using boot_step [OF s4(2) good_paths(4), of 2 "cstr ''/home/user/Documents''" 5 ?t5] boot_names(4,10) boot_state_simps [OF s4(2)]
    by (auto simp: fun_upd_twist)
  let ?t6 = "?t3(2 := [cstr ''Desktop'' \<mapsto> 3, cstr ''Documents'' \<mapsto> 4, cstr ''Downloads'' \<mapsto> 5])"
  obtain s6 where s6: "vfs_mkdir_phase_a False (cstr ''/home/user/Downloads'') (s5) = Some (True, s6)" "boot_state 6 ?t6 s6"
    using boot_step [OF s5(2) good_paths(5), of 2 "cstr ''/home/user/Downloads''" 6 ?t6] boot_names(5,10) boot_state_simps [OF s5(2)]
    by (auto simp: fun_upd_twist)
  let ?t7 = "?t6(0 := [cstr ''home'' \<mapsto> 1, cstr ''system'' \<mapsto> 6])"
  obtain s7 where s7: "vfs_mkdir_phase_a False (cstr ''/system'') (s6) = Some (True, s7)" "boot_state 7 ?t7 s7"
    using boot_step [OF s6(2) good_paths(6), of 0 "cstr ''/system''" 7 ?t7] boot_names(6) boot_state_simps [OF s6(2)]
    by (auto simp: fun_upd_twist)
  let ?t8 = "?t7(6 := [cstr ''.recycle'' \<mapsto> 7])"
  obtain s8 where s8: "vfs_mkdir_phase_a False (cstr ''/system/.recycle'') (s7) = Some (True, s8)" "boot_state 8 ?t8 s8"
    using boot_step [OF s7(2) good_paths(7), of 6 "cstr ''/system/.recycle''" 8 ?t8] boot_names(7,12) boot_state_simps [OF s7(2)]
    by (auto simp: fun_upd_twist)
  have e8: "pfs_ok s8" "tree s8 = ?t8" "phase_inode_count s8 = 8" "phase_block_count s8 = 8" "is_dir s8 3"
    using s8(2) by (simp_all add: boot_state_def is_dir_def)
  have "walk s8 0 (names [] (cstr ''/home/user/Desktop'')) = Some (Some 3)"
    using boot_state_simps(1,2) [OF s8(2)] boot_names(11) by simp
  then have "new_path s8 (cstr ''/home/user/Desktop'') (cstr ''readme.txt'') 3"
    using e8 by (intro new_pathI [OF e8(1) good_paths(8)]) simp_all
  from create_file_spec [OF e8(1) this, of False]
  obtain s9 where s9: "vfs_create_file_phase_a False (cstr ''/home/user/Desktop/readme.txt'') s8 = Some (8, s9)" "pfs_ok s9"
    "tree s9 = first_tree" "is_file s9 8"
    using e8 boot_names(8) by (auto simp: first_tree_def is_file_def fun_upd_twist)
  have "length welcome_text \<le> BLOCK_SIZE" by (simp add: welcome_text_def)
  from write_spec [OF s9(2,4) this, of False]
  obtain s10 where s10: "vfs_write_phase_a False (Some 8) welcome_text s9 = Some (int (length welcome_text), s10)" "pfs_ok s10"
    "tree s10 = first_tree" "content s10 8 = welcome_text" using s9(3) by auto
  define s11 where "s11 = phase_vfs_sync ok2 (s10\<lparr>sync_enabled := True\<rparr>)"
  have boot: "fs_phase_a_bootstrap ok1 ok2 s = Some s11"
    using l s2(1) s3(1) s4(1) s5(1) s6(1) s7(1) s8(1) s9(1) s10(1)
    by (simp add: fs_phase_a_bootstrap_def b_def [symmetric] boot_mkdir_def s11_def)
  have "pfs_ok s11" "tree s11 = first_tree" "content s11 8 = welcome_text" "sync_enabled s11"
    using s10 image_determines [of "s10\<lparr>sync_enabled := True\<rparr>" s10] by (simp_all add: s11_def content_def)
  then show ?thesis using boot by blast
qed

end
