(* ===== verification/Spec2Isabelle.thy ===== *)
theory Spec2Isabelle
  imports Kheap Shm Kernel_Steps Signal Memory_Calls Pipe Tty Md5 Base64 Fat16 Posix_Ipc Pthread Pthread_Sync User_Heap Regex Users Net_Stack Socket Phase_Fs
begin

text \<open>
  Verification of the kernel and the run-time library of Retro Pixel OS, a 32-bit operating system
  for the PC written in C++ and assembly. File names below are relative to \<open>src/src\<close>, those of the
  library to \<open>src\<close>.

  \<^bold>\<open>The program.\<close> One kernel address space holds, from the bottom up: the physical frame allocator
  (\<open>pmm.cpp\<close>); a buddy allocator, slabs and the kernel heap on a fixed region (\<open>buddy.cpp\<close>,
  \<open>slab.cpp\<close>, \<open>heap.cpp\<close>, \<open>memory.cpp\<close>); page directories made of frames (\<open>vm.cpp\<close>, \<open>paging.cpp\<close>);
  processes in a circular list and the scheduler the timer interrupt calls (\<open>process.cpp\<close>,
  \<open>timer.cpp\<close>); what processes share: descriptors, pipes, terminals, shared memory, signals,
  semaphores, message queues, threads and sockets; a FAT16 driver and an in-memory file system saved
  to it; and two network stacks that both
  see every frame received. The calls come from \<open>syscall.cpp\<close> and act on the current process.
  Programs link a C library of headers (\<open>apps/include\<close>), whose allocator rests on the \<open>sbrk\<close> call.

  \<^bold>\<open>Theories and sources.\<close>
  \<^item> Prelude: C integer types, the search for a slot of a fixed table, lists and maps.
  \<^item> Frame_Interface, Block_Interface, Fifo_Interface: the contracts \<open>frame_allocator\<close>,
    \<open>block_allocator\<close> and \<open>fifo\<close>, with what their clients need proved once. They are interpreted on
    \<open>pmm.cpp\<close>, on \<open>buddy.cpp\<close>, and on the rings of pipes, terminals and sockets; \<open>priority_queue\<close>
    (Posix_Ipc) on the message queues, \<open>data_segment\<close> (User_Heap) on the model of \<open>sbrk\<close>.
  \<^item> Pmm (\<open>kernel/pmm.cpp\<close>), Buddy (\<open>kernel/buddy.cpp\<close>), Slab (\<open>kernel/slab.cpp\<close>), Kheap
    (\<open>kernel/heap.cpp\<close>, \<open>kernel/memory.cpp\<close>), Vm (\<open>kernel/vm.cpp\<close>, \<open>kernel/paging.cpp\<close>), Shm
    (\<open>kernel/shm.cpp\<close> and the page fault handler), Memory_Calls (\<open>sbrk\<close>, \<open>mmap\<close>, \<open>munmap\<close>,
    \<open>mprotect.cpp\<close>): memory.
  \<^item> Proc_Ring, Sched, Process, Fd, Signal, Kernel_Views, Kernel_Steps: the process list, the scheduler and wait
    queues, \<open>fork\<close>, \<open>exec\<close>, \<open>exit\<close>, \<open>wait\<close> and the calls around them, descriptors (\<open>syscall.cpp\<close>,
    \<open>file_ops.cpp\<close>), signals (\<open>signal.cpp\<close>), and all of them, with the pipes, as one
    transition system whose steps are the timer interrupt and the calls of the current process;
    Kernel_Views says for each call what it leaves alone.
  \<^item> Pipe, Tty, Socket, Posix_Ipc, Pthread, Pthread_Sync, Users: \<open>pipe.cpp\<close>, \<open>tty.cpp\<close> with
    \<open>pty.cpp\<close>, \<open>socket.cpp\<close>, \<open>posix_ipc.cpp\<close>, \<open>pthread.cpp\<close>, \<open>user.cpp\<close>.
  \<^item> Fat16: \<open>drivers/fat16.cpp\<close> over a disk of sectors; Phase_Fs: the in-memory file system that
    answers absolute paths (\<open>fs_phase_a.cpp\<close>, with \<open>fs_phase_b.cpp\<close>, \<open>fs_phase_c.cpp\<close> and the node
    functions of \<open>vfs.cpp\<close>), down to the bytes of its directory entries.
  \<^item> Net_Bytes, Net, Tcp, Net_Stack: \<open>net.cpp\<close>, \<open>udp.cpp\<close>, \<open>tcp.cpp\<close> and \<open>net_stack.cpp\<close>; frames are
    lists of bytes, the card is the list of frames sent.
  \<^item> Cstring (\<open>lib/string.cpp\<close>); Libc, Crypto, Md5, Base64, User_Heap, Regex (\<open>apps/include\<close>).

  \<^bold>\<open>How code becomes definitions.\<close> A structure is a record, a table a list or a function, a pointer
  the address as a 32-bit word, an object on the kernel heap an entry of a map from addresses: a
  pointer to a freed or missing object is a lookup that yields \<open>None\<close>. Every operation takes the
  state and returns it changed. An outer \<open>None\<close> of an operation always means that the machine does
  not get past it: a wild access, an overrun of a buffer, a use of freed memory, or a loop that does
  not end (\<open>partial_function (option)\<close>); error codes of the source are values. A call that sleeps
  in a loop is given as its rounds: one round either returns or gives the processor away. Where a
  theory needs memory from an allocator it takes the blocks as arguments, so that failure and
  success are both covered, or rests on one of the contracts. Integers that the code can make wrap
  are words of their width, or numbers with the wrap-around written out (User_Heap); indices,
  priorities and results that stay in range are natural numbers and integers.

  \<^bold>\<open>What the lemmas show.\<close>
  \<^item> Memory: the allocators keep their invariants and never hand out a block in use; the buddy
    allocator coalesces completely; \<open>pmm_alloc_contiguous\<close> finds a run whenever there is one; a
    cloned page directory shares the kernel half and copies the user half; a fault
    that demand paging reports as handled leaves the address mapped; the counters of
    shared memory equal the number of attachments.
  \<^item> Processes: \<open>schedule\<close> picks the most urgent runnable process and is fair among equals; a forked
    child resumes behind the call with result 0; \<open>exit\<close> and \<open>wait\<close> meet; reference counts of
    descriptions are exact; the saved context of a signal handler is what returns; in every
    reachable state of the transition system the process list is one ring, and as long as nobody
    calls \<open>sys__exit\<close> the descriptor counts are exact and zombies hold no descriptor.
  \<^item> Communication: rings refine queues, message queues are sorted by priority and first-in
    first-out within one, mutexes exclude among disciplined callers (recursive ones only
    when thread numbers differ), a connection is a stream, accepting connects the client
    that has waited longest; ids cannot be raised by an unprivileged process.
  \<^item> Files and network: what is written to a FAT16 file is read back; the in-memory file system
    refines a tree of names, its path search is the walk in that tree, and a deletion can be undone; a datagram or segment built by
    one side is understood by the other; the TCP table stays well typed along the state diagram.
  \<^item> Library: \<open>qsort\<close> sorts stably, the matcher of regular expressions decides the language of
    the operators it implements (brackets, which its comment lists, are ordinary characters), the
    table driven CRC is the polynomial division, incremental SHA-256 equals the one on the whole
    message, base64 and decimal conversions round trip, \<open>malloc\<close> returns disjoint blocks.
  \<^item> Some theorems state what the code does where it differs from what it means to do: the semaphore
    that loses a wakeup, the read-write lock nobody can release, connections that stay in
    TIME_WAIT, a closed socket its peer still points to, the root directory that a full disk hands out
    as a file block, and the file system that is never saved again after its second start. Smaller ones are lemmas beside the
    definitions concerned.

  \<^bold>\<open>Bounds.\<close> Table sizes are those of the source (16 descriptors, 64 sockets, 64 messages, 16
  connections and so on). Recursions are structural or have a measure; the exceptions are the loops
  over the process list, over page tables, cluster chains and free lists, which follow pointers and
  may not end in a corrupt state: these are partial functions, and the lemmas that use them prove,
  from the invariant, that they return.

  \<^bold>\<open>What is not modelled.\<close> Device drivers and their ports, boot code and assembly, descriptor tables,
  the graphical shell and the applications, mounts and node tables of the virtual file system with its
  older in-memory file systems, and the self-contained design models (\<open>ExecutionModel.cpp\<close> and its like)
  the kernel does not run on. A file node is what the descriptor code sees of it. Interrupts arrive
  between operations, not inside them, except in the semaphores of Posix_Ipc and in Pthread_Sync,
  whose steps are single accesses or sections with interrupts off.
\<close>

end
